(* ===== verification/Prelude.thy ===== *)
theory Prelude
  imports Main "HOL-Library.Word"
begin

text \<open>
  The prelude of the development: the machine arithmetic every component uses, the
  collections of rewrite rules the component proofs draw on, and generic lemmas on powers of
  two, byte memories and lists.

  The kernel is built for x86-64, so \<open>size_t\<close>, \<open>uint64_t\<close> and pointers are 64 bits wide. The
  allocators compute almost exclusively with \<open>size_t\<close>; their values are modelled as \<open>nat\<close> and
  every operation that can leave the range wraps explicitly (\<open>add64\<close>, \<open>sub64\<close>, \<open>mul64\<close>,
  \<open>shl64\<close>, and \<open>u8\<close>, \<open>u32\<close> for the narrowing casts). A byte of memory is an \<open>8 word\<close>.
\<close>

unbundle bit_operations_syntax

section \<open>Collections\<close>

named_theorems wrap_simps \<open>machine arithmetic that does not leave its range\<close>
named_theorems bitset_simps \<open>what a bit of the char-backed bitset is after an operation\<close>
named_theorems mem_simps \<open>loads after stores\<close>
named_theorems pos_simps \<open>index and depth of a position of the buddy tree\<close>

section \<open>Types\<close>

type_synonym byte = "8 word"
type_synonym size_t = nat
type_synonym addr = nat

text \<open>A byte memory, indexed by the offset from the pointer the code holds.\<close>

type_synonym bytes = "nat \<Rightarrow> byte"

section \<open>Machine arithmetic on \<open>size_t\<close>\<close>

definition wrap64 :: "nat \<Rightarrow> nat" where
  "wrap64 n = n mod 2 ^ 64"

definition add64 :: "nat \<Rightarrow> nat \<Rightarrow> nat" where
  "add64 a b = wrap64 (a + b)"

definition sub64 :: "nat \<Rightarrow> nat \<Rightarrow> nat" where
  "sub64 a b = wrap64 (a + (2 ^ 64 - wrap64 b))"

definition mul64 :: "nat \<Rightarrow> nat \<Rightarrow> nat" where
  "mul64 a b = wrap64 (a * b)"

definition shl64 :: "nat \<Rightarrow> nat \<Rightarrow> nat" where
  "shl64 a k = wrap64 (a * 2 ^ k)"

definition shr :: "nat \<Rightarrow> nat \<Rightarrow> nat" where
  "shr a k = a div 2 ^ k"

text \<open>\<open>a & ~b\<close>: \<open>a\<close> without the bits it shares with \<open>b\<close>.\<close>

definition and_not :: "nat \<Rightarrow> nat \<Rightarrow> nat" where
  "and_not a b = a - (a AND b)"

definition u8 :: "nat \<Rightarrow> nat" where
  "u8 n = n mod 256"

definition u32 :: "nat \<Rightarrow> nat" where
  "u32 n = n mod 2 ^ 32"

lemma wrap64_less: "wrap64 n < 2 ^ 64"
  by (simp add: wrap64_def)

lemma wrap64_less_num [simp]: "wrap64 n < 18446744073709551616"
  by (simp add: wrap64_def)

lemma wrap64_id [wrap_simps]: "n < 2 ^ 64 \<Longrightarrow> wrap64 n = n"
  by (simp add: wrap64_def)

lemma add64_id [wrap_simps]: "a + b < 2 ^ 64 \<Longrightarrow> add64 a b = a + b"
  by (simp add: add64_def wrap64_def)

lemma mul64_id [wrap_simps]: "a * b < 2 ^ 64 \<Longrightarrow> mul64 a b = a * b"
  by (simp add: mul64_def wrap64_def)

lemma sub64_id [wrap_simps]:
  assumes "b \<le> a" "a < 2 ^ 64"
  shows "sub64 a b = a - b"
proof -
  have "wrap64 b = b" using assms by (simp add: wrap64_def)
  moreover have "(a + (2 ^ 64 - b)) mod 2 ^ 64 = ((a - b) + 2 ^ 64) mod 2 ^ 64" using assms by simp
  ultimately show ?thesis using assms by (simp only: sub64_def wrap64_def mod_add_self2 mod_less)
qed

lemma shl64_id [wrap_simps]: "a * 2 ^ k < 2 ^ 64 \<Longrightarrow> shl64 a k = a * 2 ^ k"
  by (simp add: shl64_def wrap64_def)

lemma u8_id [wrap_simps]: "n < 256 \<Longrightarrow> u8 n = n"
  by (simp add: u8_def)

lemma u32_id [wrap_simps]: "n < 2 ^ 32 \<Longrightarrow> u32 n = n"
  by (simp add: u32_def)

lemma machine_arith_less [simp]:
  "add64 a b < 18446744073709551616" "sub64 a b < 18446744073709551616"
  "mul64 a b < 18446744073709551616" "shl64 a k < 18446744073709551616"
  by (simp_all add: add64_def sub64_def mul64_def shl64_def)

lemma shr_less [termination_simp]: "0 < a \<Longrightarrow> 0 < k \<Longrightarrow> shr a k < a"
proof -
  assume a: "0 < a" "0 < k"
  have "k < 2 ^ k" by (rule less_exp)
  with a have "1 < (2::nat) ^ k" by linarith
  then show ?thesis using a unfolding shr_def by (intro div_less_dividend) simp_all
qed

lemma shr_0 [simp]: "shr a 0 = a" "shr 0 k = 0"
  by (simp_all add: shr_def)

lemma shr_le: "shr a k \<le> a"
  by (simp add: shr_def)

lemmas machine_arith_defs = add64_def sub64_def mul64_def shl64_def shr_def wrap64_def u8_def u32_def

section \<open>Powers of two\<close>

text \<open>The number of significant bits of a number.\<close>

fun bitlength :: "nat \<Rightarrow> nat" where
  "bitlength n = (if n = 0 then 0 else Suc (bitlength (n div 2)))"

declare bitlength.simps [simp del]

lemma bitlength_0 [simp]: "bitlength 0 = 0"
  by (simp add: bitlength.simps)

lemma bitlength_pos: "0 < n \<Longrightarrow> bitlength n = Suc (bitlength (n div 2))"
  by (subst bitlength.simps) simp

lemma bitlength_1 [simp]: "bitlength (Suc 0) = Suc 0"
  by (simp add: bitlength_pos)

lemma less_two_power_bitlength: "n < 2 ^ bitlength n"
proof (induction n rule: bitlength.induct)
  case (1 n)
  show ?case
  proof (cases "n = 0")
    case False
    with "1" have "n div 2 < 2 ^ bitlength (n div 2)" by simp
    then have "n < 2 * 2 ^ bitlength (n div 2)" by linarith
    with False show ?thesis by (simp add: bitlength_pos)
  qed simp
qed

lemma bitlength_lower: "0 < n \<Longrightarrow> 2 ^ (bitlength n - 1) \<le> n"
proof (induction n rule: bitlength.induct)
  case (1 n)
  show ?case
  proof (cases "n div 2 = 0")
    case True
    with "1.prems" have "n = 1" by linarith
    then show ?thesis by simp
  next
    case False
    with "1" have le: "2 ^ (bitlength (n div 2) - 1) \<le> n div 2" by simp
    from False have "bitlength (n div 2) \<noteq> 0" by (simp add: bitlength_pos)
    then obtain k where k: "bitlength (n div 2) = Suc k" by (cases "bitlength (n div 2)") auto
    with le have "2 ^ Suc k \<le> n" by simp
    with k "1.prems" show ?thesis by (simp add: bitlength_pos)
  qed
qed

lemma bitlength_le_iff: "bitlength n \<le> k \<longleftrightarrow> n < 2 ^ k"
proof
  assume "bitlength n \<le> k"
  then have "(2::nat) ^ bitlength n \<le> 2 ^ k" by simp
  with less_two_power_bitlength [of n] show "n < 2 ^ k" by linarith
next
  assume n: "n < 2 ^ k"
  show "bitlength n \<le> k"
  proof (cases "n = 0")
    case False
    then have "(2::nat) ^ (bitlength n - 1) < 2 ^ k"
      using bitlength_lower [of n] n by (meson le_less_trans neq0_conv)
    then have "bitlength n - 1 < k" by (rule power_less_imp_less_exp [rotated]) simp
    then show ?thesis by simp
  qed simp
qed

lemma bitlength_eqI: "2 ^ k \<le> n \<Longrightarrow> n < 2 ^ Suc k \<Longrightarrow> bitlength n = Suc k"
proof -
  assume a: "2 ^ k \<le> n" "n < 2 ^ Suc k"
  then have "bitlength n \<le> Suc k" by (simp only: bitlength_le_iff)
  moreover have "\<not> bitlength n \<le> k" using a by (simp add: bitlength_le_iff)
  ultimately show ?thesis by simp
qed

lemma bitlength_two_power [simp]: "bitlength (2 ^ k) = Suc k"
  by (rule bitlength_eqI) simp_all

lemma bitlength_div_two_power:
  assumes "2 ^ k \<le> n"
  shows "bitlength (n div 2 ^ k) + k = bitlength n"
  using assms
proof (induction k arbitrary: n)
  case (Suc k)
  from Suc.prems have n: "0 < n" by (cases n) simp_all
  from Suc.prems have le: "2 ^ k \<le> n div 2" by simp
  have "bitlength (n div 2 div 2 ^ k) + k = bitlength (n div 2)"
    using Suc.IH [OF le] .
  then show ?case using n by (simp add: bitlength_pos [OF n] div_mult2_eq)
qed simp

lemma and_not_top:
  assumes "r < 2 ^ k"
  shows "and_not (2 ^ k + r) (2 ^ k) = r"
proof -
  have "(2 ^ k + r) div 2 ^ k = 1" using assms by (simp add: div_add_self1)
  then have "bit (2 ^ k + r) k" by (simp add: bit_iff_odd)
  then have "(2 ^ k + r) AND 2 ^ k = 2 ^ k" by (intro bit_eqI) (auto simp: bit_and_iff bit_exp_iff)
  then show ?thesis by (simp add: and_not_def)
qed

section \<open>Byte memories\<close>

text \<open>Little-endian loads and stores of \<open>size_t\<close> values, as x86-64 performs them.\<close>

fun load_bytes :: "bytes \<Rightarrow> addr \<Rightarrow> nat \<Rightarrow> nat" where
  "load_bytes m a 0 = 0"
| "load_bytes m a (Suc n) = unat (m a) + 256 * load_bytes m (Suc a) n"

fun store_bytes :: "bytes \<Rightarrow> addr \<Rightarrow> nat \<Rightarrow> nat \<Rightarrow> bytes" where
  "store_bytes m a 0 v = m"
| "store_bytes m a (Suc n) v = store_bytes (m(a := of_nat v)) (Suc a) n (v div 256)"

definition load64 :: "bytes \<Rightarrow> addr \<Rightarrow> nat" where
  "load64 m a = load_bytes m a 8"

definition store64 :: "bytes \<Rightarrow> addr \<Rightarrow> nat \<Rightarrow> bytes" where
  "store64 m a v = store_bytes m a 8 v"

lemma store_bytes_other: "b < a \<or> a + n \<le> b \<Longrightarrow> store_bytes m a n v b = m b"
  by (induction m a n v rule: store_bytes.induct) auto

lemma load_bytes_cong: "(\<And>i. a \<le> i \<Longrightarrow> i < a + n \<Longrightarrow> m i = m' i) \<Longrightarrow> load_bytes m a n = load_bytes m' a n"
  by (induction m a n rule: load_bytes.induct) auto

lemma load_store_bytes: "v < 256 ^ n \<Longrightarrow> load_bytes (store_bytes m a n v) a n = v"
proof (induction n arbitrary: m a v)
  case (Suc n)
  have "store_bytes (m(a := of_nat v)) (Suc a) n (v div 256) a = of_nat v"
    by (simp add: store_bytes_other)
  moreover have "load_bytes (store_bytes (m(a := of_nat v)) (Suc a) n (v div 256)) (Suc a) n = v div 256"
    using Suc by (simp add: less_mult_imp_div_less mult.commute)
  ultimately show ?case by (simp add: unat_of_nat)
qed simp

lemma load_store64: "v < 2 ^ 64 \<Longrightarrow> load64 (store64 m a v) a = v"
  using load_store_bytes [of v 8 m a] by (simp add: load64_def store64_def)

lemma store64_other: "b < a \<or> a + 8 \<le> b \<Longrightarrow> store64 m a v b = m b"
  by (simp add: store64_def store_bytes_other)

lemma load64_cong: "(\<And>i. a \<le> i \<Longrightarrow> i < a + 8 \<Longrightarrow> m i = m' i) \<Longrightarrow> load64 m a = load64 m' a"
  unfolding load64_def by (rule load_bytes_cong) auto

lemma load64_store64_disjoint: "b + 8 \<le> a \<or> a + 8 \<le> b \<Longrightarrow> load64 (store64 m a v) b = load64 m b"
  by (rule load64_cong) (auto simp: store64_other)

lemma store_bytes_cong:
  "(\<And>b. b < a \<or> a + n \<le> b \<Longrightarrow> m b = m' b) \<Longrightarrow> store_bytes m a n v = store_bytes m' a n v"
proof (induction n arbitrary: m m' a v)
  case (Suc n)
  have "store_bytes (m(a := of_nat v)) (Suc a) n (v div 256) = store_bytes (m'(a := of_nat v)) (Suc a) n (v div 256)"
    by (rule Suc.IH) (use Suc.prems in auto)
  then show ?case by simp
qed (simp add: fun_eq_iff not_less [symmetric])

lemma store64_twice [simp]: "store64 (store64 m a v) a w = store64 m a w"
  unfolding store64_def by (rule store_bytes_cong) (simp add: store_bytes_other)

text \<open>The 32-bit accesses, and loads after stores to other places.\<close>

definition load32 :: "bytes \<Rightarrow> addr \<Rightarrow> nat" where
  "load32 m a = load_bytes m a 4"

definition store32 :: "bytes \<Rightarrow> addr \<Rightarrow> nat \<Rightarrow> bytes" where
  "store32 m a v = store_bytes m a 4 v"

lemma load_store_disjoint:
  "b + k \<le> a \<or> a + n \<le> b \<Longrightarrow> load_bytes (store_bytes m a n v) b k = load_bytes m b k"
  by (rule load_bytes_cong) (auto simp: store_bytes_other)

lemma load_store32 [mem_simps]: "v < 2 ^ 32 \<Longrightarrow> load32 (store32 m a v) a = v"
  using load_store_bytes [of v 4 m a] by (simp add: load32_def store32_def)

lemma load64_store32 [mem_simps]: "b + 8 \<le> a \<or> a + 4 \<le> b \<Longrightarrow> load64 (store32 m a v) b = load64 m b"
  unfolding load64_def store32_def by (rule load_store_disjoint)

lemma load32_store64 [mem_simps]: "b + 4 \<le> a \<or> a + 8 \<le> b \<Longrightarrow> load32 (store64 m a v) b = load32 m b"
  unfolding load32_def store64_def by (rule load_store_disjoint)

lemma load32_store32 [mem_simps]: "b + 4 \<le> a \<or> a + 4 \<le> b \<Longrightarrow> load32 (store32 m a v) b = load32 m b"
  unfolding load32_def store32_def by (rule load_store_disjoint)

lemma store32_other: "b < a \<or> a + 4 \<le> b \<Longrightarrow> store32 m a v b = m b"
  by (simp add: store32_def store_bytes_other)

lemma load32_cong: "(\<And>i. a \<le> i \<Longrightarrow> i < a + 4 \<Longrightarrow> m i = m' i) \<Longrightarrow> load32 m a = load32 m' a"
  unfolding load32_def by (rule load_bytes_cong) auto

declare load_store64 [mem_simps] load64_store64_disjoint [mem_simps]

lemma load_bytes_less: "load_bytes m a n < 256 ^ n"
proof (induction n arbitrary: a)
  case (Suc n)
  have "unat (m a) < 256" using unsigned_less [of "m a", where ?'a = nat] by simp
  moreover have "load_bytes m (Suc a) n + 1 \<le> 256 ^ n" using Suc [of "Suc a"] by simp
  then have "256 * (load_bytes m (Suc a) n + 1) \<le> 256 * 256 ^ n" by (rule mult_le_mono2)
  ultimately show ?case by simp
qed simp

lemma load_bytes_zero: "(\<And>i. a \<le> i \<Longrightarrow> i < a + n \<Longrightarrow> m i = 0) \<Longrightarrow> load_bytes m a n = 0"
  by (induction m a n rule: load_bytes.induct) auto

lemma load64_less: "load64 m a < 2 ^ 64"
  using load_bytes_less [of m a 8] by (simp add: load64_def)

lemma load32_less: "load32 m a < 2 ^ 32"
  using load_bytes_less [of m a 4] by (simp add: load32_def)

end
