(* ===== verification/Bits.thy ===== *)
theory Bits
  imports Prelude
begin

text \<open>
  The bit and integer helpers at the end of \<open>src/kernel/mm/buddy.h\<close>: the population count
  table, the highest set bit, the rounding to a power of two and the integer square root.
  Shown: each computes the mathematical function its comment names, over the whole range of
  \<open>size_t\<close> or the part of it where the C code does not wrap.
\<close>

section \<open>Definitions\<close>

definition popcount_lookup :: "nat list" where
  "popcount_lookup = [
    0, 1, 1, 2, 1, 2, 2, 3, 1, 2, 2, 3, 2, 3, 3, 4, 1, 2, 2, 3, 2, 3, 3, 4,
    2, 3, 3, 4, 3, 4, 4, 5, 1, 2, 2, 3, 2, 3, 3, 4, 2, 3, 3, 4, 3, 4, 4, 5,
    2, 3, 3, 4, 3, 4, 4, 5, 3, 4, 4, 5, 4, 5, 5, 6, 1, 2, 2, 3, 2, 3, 3, 4,
    2, 3, 3, 4, 3, 4, 4, 5, 2, 3, 3, 4, 3, 4, 4, 5, 3, 4, 4, 5, 4, 5, 5, 6,
    2, 3, 3, 4, 3, 4, 4, 5, 3, 4, 4, 5, 4, 5, 5, 6, 3, 4, 4, 5, 4, 5, 5, 6,
    4, 5, 5, 6, 5, 6, 6, 7, 1, 2, 2, 3, 2, 3, 3, 4, 2, 3, 3, 4, 3, 4, 4, 5,
    2, 3, 3, 4, 3, 4, 4, 5, 3, 4, 4, 5, 4, 5, 5, 6, 2, 3, 3, 4, 3, 4, 4, 5,
    3, 4, 4, 5, 4, 5, 5, 6, 3, 4, 4, 5, 4, 5, 5, 6, 4, 5, 5, 6, 5, 6, 6, 7,
    2, 3, 3, 4, 3, 4, 4, 5, 3, 4, 4, 5, 4, 5, 5, 6, 3, 4, 4, 5, 4, 5, 5, 6,
    4, 5, 5, 6, 5, 6, 6, 7, 3, 4, 4, 5, 4, 5, 5, 6, 4, 5, 5, 6, 5, 6, 6, 7,
    4, 5, 5, 6, 5, 6, 6, 7, 5, 6, 6, 7, 6, 7, 7, 8]"

definition popcount_byte :: "byte \<Rightarrow> nat" where
  "popcount_byte b = popcount_lookup ! unat b"

text \<open>The loop over the parallel arrays \<open>all_set\<close> and \<open>count\<close> of the 64-bit build.\<close>

fun highest_bit_loop :: "(nat \<times> nat) list \<Rightarrow> size_t \<Rightarrow> size_t \<Rightarrow> size_t" where
  "highest_bit_loop [] value result = add64 result value"
| "highest_bit_loop ((all_set, count) # rest) value result =
     (if all_set \<le> value
      then highest_bit_loop rest (shr value count) (add64 result count)
      else highest_bit_loop rest value result)"

definition highest_bit_position :: "size_t \<Rightarrow> size_t" where
  "highest_bit_position value =
     highest_bit_loop (zip [4294967295, 65535, 255, 15, 7, 3, 1] [32, 16, 8, 4, 2, 1, 1]) value 0"

definition two_to_the_power_of :: "size_t \<Rightarrow> size_t" where
  "two_to_the_power_of order = shl64 1 order"

definition ceiling_power_of_two :: "size_t \<Rightarrow> size_t" where
  "ceiling_power_of_two value =
     (let value = add64 value (if value = 0 then 1 else 0)
      in two_to_the_power_of
           (sub64 (highest_bit_position (sub64 (add64 value value) 1)) 1))"

text \<open>The two loops of \<open>integer_square_root\<close>.\<close>

fun isqrt_start :: "size_t \<Rightarrow> size_t \<Rightarrow> size_t" where
  "isqrt_start cursor op = (if op < cursor then isqrt_start (shr cursor 2) op else cursor)"

fun isqrt_loop :: "size_t \<Rightarrow> size_t \<Rightarrow> size_t \<Rightarrow> size_t" where
  "isqrt_loop op result cursor =
     (if cursor = 0 then result
      else if add64 result cursor \<le> op
      then isqrt_loop (sub64 op (add64 result cursor))
             (shr (add64 result (mul64 2 cursor)) 1) (shr cursor 2)
      else isqrt_loop op (shr result 1) (shr cursor 2))"

definition integer_square_root :: "size_t \<Rightarrow> size_t" where
  "integer_square_root op =
     isqrt_loop op 0 (isqrt_start (shr (sub64 (2 ^ 64 - 1) (shr (2 ^ 64 - 1) 1)) 1) op)"

declare isqrt_start.simps [simp del]
declare isqrt_loop.simps [simp del]

section \<open>The population count table\<close>

definition byte_bits :: "byte \<Rightarrow> nat set" where
  "byte_bits b = {i. i < 8 \<and> bit b i}"

text \<open>The table is the eighth of the lists that start from \<open>[0]\<close> and repeat themselves with one more.\<close>

fun popcounts :: "nat \<Rightarrow> nat list" where
  "popcounts 0 = [0]"
| "popcounts (Suc k) = popcounts k @ map Suc (popcounts k)"

lemma popcount_lookup_eq: "popcount_lookup = popcounts 8"
  by (simp add: popcount_lookup_def eval_nat_numeral)

lemma length_popcounts [simp]: "length (popcounts k) = 2 ^ k"
  by (induction k) auto

lemma nth_popcounts: "n < 2 ^ k \<Longrightarrow> popcounts k ! n = card {i. i < k \<and> bit n i}"
proof (induction k arbitrary: n)
  case (Suc k)
  show ?case
  proof (cases "n < 2 ^ k")
    case True
    then have "{i. i < Suc k \<and> bit n i} = {i. i < k \<and> bit n i}"
      by (auto simp: less_Suc_eq bit_iff_odd)
    with True Suc.IH show ?thesis by (simp add: nth_append)
  next
    case False
    define m where "m = n - 2 ^ k"
    have m: "m < 2 ^ k" and n: "n = m + 2 ^ k"
      using False Suc.prems by (auto simp: m_def)
    have "bit n i = bit m i" if "i < k" for i
    proof -
      have "n = m + 2 ^ i * 2 ^ (k - i)" using that by (simp add: n flip: power_add)
      then have "n div 2 ^ i = m div 2 ^ i + 2 ^ (k - i)" by simp
      then show ?thesis using that by (simp add: bit_iff_odd)
    qed
    moreover have "bit n k" using m by (simp add: n bit_iff_odd div_add_self2)
    ultimately have "{i. i < Suc k \<and> bit n i} = insert k {i. i < k \<and> bit m i}"
      by (auto simp: less_Suc_eq)
    then have "card {i. i < Suc k \<and> bit n i} = Suc (card {i. i < k \<and> bit m i})" by simp
    with Suc.IH [OF m] m show ?thesis by (simp add: nth_append n)
  qed
qed (simp)

lemma popcount_byte_card: "popcount_byte b = card (byte_bits b)"
proof -
  have "unat b < 2 ^ 8" using unsigned_less [of b] by simp
  then show ?thesis
    unfolding popcount_byte_def popcount_lookup_eq byte_bits_def
    by (subst nth_popcounts) (simp_all add: bit_unsigned_iff conj_commute)
qed

section \<open>The highest set bit and the rounding to a power of two\<close>

lemma bitlength_shr: "2 ^ k \<le> Suc n \<Longrightarrow> bitlength (shr n k) + k = bitlength n"
proof (cases "2 ^ k \<le> n")
  case True
  then show ?thesis by (simp add: shr_def bitlength_div_two_power)
next
  case False
  assume "2 ^ k \<le> Suc n"
  with False have n: "n = 2 ^ k - 1" by linarith
  show ?thesis
  proof (cases k)
    case (Suc j)
    then have "bitlength n = k" using n by (auto intro!: bitlength_eqI)
    then show ?thesis using n by (simp add: shr_def)
  qed (use n in simp)
qed

text \<open>
  What the loop leaves in \<open>value\<close>. Each round moves \<open>count\<close> bits from \<open>value\<close> to \<open>result\<close>,
  so their sum is kept.
\<close>

definition highest_bit_rest :: "(nat \<times> nat) list \<Rightarrow> nat \<Rightarrow> nat" where
  "highest_bit_rest steps value = foldl (\<lambda>v (a, c). if a \<le> v then shr v c else v) value steps"

lemma highest_bit_loop_sum:
  assumes "list_all (\<lambda>(a, c). 2 ^ c \<le> Suc a) steps" "result + bitlength v \<le> 64"
    and "highest_bit_rest steps v \<le> 1"
  shows "highest_bit_loop steps v result = result + bitlength v"
  using assms
proof (induction steps v result rule: highest_bit_loop.induct)
  case (1 v result)
  then have "v = 0 \<or> v = 1" by (auto simp: highest_bit_rest_def)
  with "1.prems"(2) show ?case by (auto simp: wrap_simps)
next
  case (2 all_set count rest v result)
  show ?case
  proof (cases "all_set \<le> v")
    case True
    then have sum: "bitlength (shr v count) + count = bitlength v"
      using "2.prems"(1) by (intro bitlength_shr) simp
    then have "add64 result count = result + count" using "2.prems"(2) by (simp add: wrap_simps)
    with True sum "2.IH"(1) "2.prems" show ?thesis by (simp add: highest_bit_rest_def)
  next
    case False
    with "2.IH"(2) "2.prems" show ?thesis by (simp add: highest_bit_rest_def)
  qed
qed

lemma shr_less_pow: "v < 2 ^ (n + k) \<Longrightarrow> shr v k < 2 ^ n"
  by (simp add: shr_def less_mult_imp_div_less power_add)

lemma highest_bit_round: "v < 2 ^ (c + c) \<Longrightarrow> (if 2 ^ c - 1 \<le> v then shr v c else v) < 2 ^ c"
  by (auto intro: shr_less_pow)

lemma highest_bit_rest_le_1:
  assumes "value < 2 ^ 64"
  shows "highest_bit_rest (zip [4294967295, 65535, 255, 15, 7, 3, 1] [32, 16, 8, 4, 2, 1, 1]) value \<le> 1"
proof -
  define r where "r = (\<lambda>c v. if 2 ^ c - 1 \<le> v then shr v c else v)"
  have r: "v < 2 ^ (c + c) \<Longrightarrow> r c v < 2 ^ c" for c v
    unfolding r_def by (rule highest_bit_round)
  define w where "w = r 4 (r 8 (r 16 (r 32 value)))"
  have "r 32 value < 2 ^ 32" using assms by (intro r) simp
  then have "r 16 (r 32 value) < 2 ^ 16" by (intro r) simp
  then have "r 8 (r 16 (r 32 value)) < 2 ^ 8" by (intro r) simp
  then have "w < 2 ^ 4" unfolding w_def by (intro r) simp
  then have "w \<in> {0..15}" by simp
  moreover have "highest_bit_rest (zip [4294967295, 65535, 255, 15, 7, 3, 1] [32, 16, 8, 4, 2, 1, 1]) value
    = highest_bit_rest [(7, 2), (3, 1), (1, 1)] w"
  proof -
    have "(if 4294967295 \<le> v then shr v 32 else v) = r 32 v"
      "(if 65535 \<le> v then shr v 16 else v) = r 16 v"
      "(if 255 \<le> v then shr v 8 else v) = r 8 v"
      "(if 15 \<le> v then shr v 4 else v) = r 4 v" for v
      by (simp_all add: r_def)
    then show ?thesis by (simp only: highest_bit_rest_def w_def zip_Cons_Cons foldl_Cons prod.case)
      simp
  qed
  moreover have "\<forall>w \<in> {0..15}. highest_bit_rest [(7, 2), (3, 1), (1, 1)] w \<le> 1"
    by code_simp
  ultimately show ?thesis by auto
qed

lemma highest_bit_position_bitlength: "value < 2 ^ 64 \<Longrightarrow> highest_bit_position value = bitlength value"
  unfolding highest_bit_position_def
  by (subst highest_bit_loop_sum) (simp_all add: highest_bit_rest_le_1 [simplified] bitlength_le_iff)

lemma two_to_the_power_of_eq [wrap_simps]: "order < 64 \<Longrightarrow> two_to_the_power_of order = 2 ^ order"
  unfolding two_to_the_power_of_def
  by (subst shl64_id) (simp_all add: power_strict_increasing [of order 64 "2::nat", simplified])

lemma ceiling_power_of_two_eq:
  assumes "0 < v" "v \<le> 2 ^ 63"
  shows "ceiling_power_of_two v = 2 ^ bitlength (v - 1)"
proof (cases "v = 1")
  case True
  have "highest_bit_position 1 = 1" by (simp add: highest_bit_position_bitlength)
  with True show ?thesis by (simp add: ceiling_power_of_two_def wrap_simps)
next
  case False
  have "v < 2 ^ 63 \<or> v = 2 ^ 63" using assms(2) by linarith
  then show ?thesis
  proof
    assume "v < 2 ^ 63"
    then have "sub64 (add64 v v) 1 = 2 * v - 1" and w: "2 * v - 1 < 2 ^ 64"
      using assms(1) by (simp_all add: wrap_simps)
    moreover have "bitlength (2 * v - 1) = Suc (bitlength (v - 1))"
    proof -
      have "(2 * v - 1) div 2 = v - 1" using assms(1) by presburger
      then show ?thesis using assms(1) by (subst bitlength_pos) simp_all
    qed
    moreover have "bitlength (v - 1) \<le> 63" using assms by (simp add: bitlength_le_iff)
    ultimately show ?thesis using assms
      by (simp add: ceiling_power_of_two_def highest_bit_position_bitlength wrap_simps)
  next
    assume v: "v = 2 ^ 63"
    have "bitlength (v - 1) = 63" by (simp add: v bitlength_eqI [of 62])
    moreover have "ceiling_power_of_two v = 2 ^ 63"
      by (simp add: v ceiling_power_of_two_def machine_arith_defs highest_bit_position_bitlength
          bitlength_eqI [of 63] two_to_the_power_of_def)
    ultimately show ?thesis by simp
  qed
qed

section \<open>The integer square root\<close>

lemma isqrt_start_pow:
  assumes "op < 4 ^ Suc k"
  shows "\<exists>c. isqrt_start (4 ^ k) op = c \<and> (c = 0 \<and> op = 0 \<or> (\<exists>j \<le> k. c = 4 ^ j \<and> op < 4 ^ Suc j))"
  using assms
proof (induction k)
  case 0
  then show ?case
    by (cases "op = 0") (simp_all add: isqrt_start.simps [of "Suc 0"] isqrt_start.simps [of 0] shr_def)
next
  case (Suc k)
  show ?case
  proof (cases "op < 4 ^ Suc k")
    case True
    have "shr (4 ^ Suc k) 2 = 4 ^ k" by (simp add: shr_def)
    with True have "isqrt_start (4 ^ Suc k) op = isqrt_start (4 ^ k) op"
      by (subst isqrt_start.simps) simp
    with Suc.IH [OF True] show ?thesis by (auto intro: le_SucI)
  next
    case False
    with Suc.prems show ?thesis by (subst isqrt_start.simps) auto
  qed
qed

text \<open>
  The loop at \<open>cursor = 4 ^ k\<close> has found a root \<open>R\<close>, a multiple of \<open>2 ^ Suc k\<close>, that
  is too small by less than \<open>2 ^ Suc k\<close>; \<open>op\<close> is the remainder and \<open>result\<close> is
  \<open>R * 2 ^ Suc k\<close>.
\<close>

lemma isqrt_loop_correct:
  assumes "R\<^sup>2 + op < (R + 2 ^ Suc k)\<^sup>2" "2 ^ Suc k dvd R" "R\<^sup>2 + op < 2 ^ 64" "k < 32"
  shows "(isqrt_loop op (R * 2 ^ Suc k) (4 ^ k))\<^sup>2 \<le> R\<^sup>2 + op \<and>
    R\<^sup>2 + op < (Suc (isqrt_loop op (R * 2 ^ Suc k) (4 ^ k)))\<^sup>2"
  using assms
proof (induction k arbitrary: op R)
  case 0
  have "R < 2 ^ 32"
  proof (rule power_less_imp_less_base [of _ 2])
    show "R\<^sup>2 < (2 ^ 32)\<^sup>2" using "0.prems"(3) by simp
  qed simp
  then have "isqrt_loop op (R * 2) 1 = (if R * 2 + 1 \<le> op then Suc R else R)"
    by (simp add: isqrt_loop.simps [of _ _ "Suc 0"] isqrt_loop.simps [of _ _ 0] shr_def wrap_simps)
  with "0.prems"(1) show ?case by (auto simp: power2_eq_square)
next
  case (Suc k)
  let ?d = "2 ^ Suc k :: nat"
  have cur: "shr (4 ^ Suc k) 2 = 4 ^ k" by (simp add: shr_def)
  have sq: "?d\<^sup>2 = 4 ^ Suc k" by (simp add: power2_eq_square flip: power_mult_distrib)
  have "R < 2 ^ 32"
  proof (rule power_less_imp_less_base [of _ 2])
    show "R\<^sup>2 < (2 ^ 32)\<^sup>2" using Suc.prems(3) by simp
  qed simp
  moreover have "2 ^ Suc (Suc k) dvd (2 ^ 32 :: nat)"
    using Suc.prems(4) by (intro le_imp_power_dvd) simp
  ultimately have "R + 2 ^ Suc (Suc k) \<le> 2 ^ 32"
    using Suc.prems(2) by (metis add_diff_inverse_nat dvd_diff_nat dvd_imp_le less_imp_le_nat
        nat_add_left_cancel_le not_less zero_less_diff)
  then have "(R + 2 ^ Suc (Suc k)) * 2 ^ Suc (Suc k) \<le> 2 ^ 32 * 2 ^ Suc (Suc k)"
    by (rule mult_le_mono1)
  also have "\<dots> \<le> 2 ^ 32 * 2 ^ 32" using Suc.prems(4) by (intro mult_le_mono2 power_increasing) simp_all
  finally have le: "(R + 2 ^ Suc (Suc k)) * 2 ^ Suc (Suc k) \<le> 2 ^ 32 * 2 ^ 32" .
  have "(4::nat) ^ k = 2 ^ k * 2 ^ k" by (simp flip: power_mult_distrib)
  with le have "R * 2 ^ Suc (Suc k) + 4 * 4 ^ Suc k \<le> 2 ^ 64"
    by (simp add: add_mult_distrib)
  then have fits: "R * 2 ^ Suc (Suc k) + 2 * 4 ^ Suc k < 2 ^ 64"
    by (rule less_le_trans [rotated]) simp
  then have a1: "add64 (R * 2 ^ Suc (Suc k)) (4 ^ Suc k) = R * 2 ^ Suc (Suc k) + 4 ^ Suc k"
    and a2: "add64 (R * 2 ^ Suc (Suc k)) (mul64 2 (4 ^ Suc k)) = R * 2 ^ Suc (Suc k) + 2 * 4 ^ Suc k"
    by (simp_all add: wrap_simps)
  show ?case
  proof (cases "R * 2 ^ Suc (Suc k) + 4 ^ Suc k \<le> op")
    case True
    define op' where "op' = op - (R * 2 ^ Suc (Suc k) + 4 ^ Suc k)"
    have R': "(R + ?d)\<^sup>2 + op' = R\<^sup>2 + op"
      using True unfolding op'_def sq [symmetric] by (simp add: power2_sum algebra_simps)
    have "shr (R * 2 ^ Suc (Suc k) + 2 * 4 ^ Suc k) 1 = (R + ?d) * ?d"
    proof -
      have "R * 2 ^ Suc (Suc k) + 2 * 4 ^ Suc k = 2 * ((R + ?d) * ?d)"
        unfolding sq [symmetric] by (simp add: power2_eq_square algebra_simps)
      then show ?thesis unfolding shr_def power_one_right by (simp only: nonzero_mult_div_cancel_left)
    qed
    moreover have "sub64 op (R * 2 ^ Suc (Suc k) + 4 ^ Suc k) = op'"
      using True Suc.prems(3) unfolding op'_def by (intro sub64_id) linarith+
    ultimately have "isqrt_loop op (R * 2 ^ Suc (Suc k)) (4 ^ Suc k) = isqrt_loop op' ((R + ?d) * ?d) (4 ^ k)"
      using True by (subst isqrt_loop.simps) (simp add: a1 a2 cur del: power_Suc)
    moreover have "?d dvd R + ?d" using Suc.prems(2) by (auto intro: dvd_add dest: dvd_trans [of ?d, rotated])
    moreover have "(R + ?d)\<^sup>2 + op' < (R + ?d + ?d)\<^sup>2" using Suc.prems(1) R' by (simp add: add.assoc)
    ultimately show ?thesis using Suc.IH [of "R + ?d" op'] Suc.prems(3,4) R' by (simp del: power_Suc)
  next
    case False
    have "R\<^sup>2 + op < (R + ?d)\<^sup>2"
      using False unfolding sq [symmetric] by (simp add: power2_sum algebra_simps)
    moreover have "shr (R * 2 ^ Suc (Suc k)) 1 = R * ?d" by (simp add: shr_def)
    then have "isqrt_loop op (R * 2 ^ Suc (Suc k)) (4 ^ Suc k) = isqrt_loop op (R * ?d) (4 ^ k)"
      using False by (subst isqrt_loop.simps) (simp add: a1 cur del: power_Suc)
    moreover have "?d dvd R" using Suc.prems(2) by (auto dest: dvd_trans [of ?d, rotated])
    ultimately show ?thesis using Suc.IH [of R op] Suc.prems by (simp del: power_Suc)
  qed
qed

lemma integer_square_root_bounds:
  assumes "op < 2 ^ 64"
  shows "(integer_square_root op)\<^sup>2 \<le> op \<and> op < (Suc (integer_square_root op))\<^sup>2"
proof -
  have start: "shr (sub64 (2 ^ 64 - 1) (shr (2 ^ 64 - 1) 1)) 1 = 4 ^ 31"
    by (simp add: machine_arith_defs)
  have "op < 4 ^ Suc 31" using assms by (simp only: power_Suc) simp
  then obtain c where c: "isqrt_start (4 ^ 31) op = c"
    and d: "c = 0 \<and> op = 0 \<or> (\<exists>j \<le> 31. c = 4 ^ j \<and> op < 4 ^ Suc j)"
    using isqrt_start_pow by blast
  have eq: "integer_square_root op = isqrt_loop op 0 c"
    unfolding integer_square_root_def start c ..
  from d consider "c = 0" "op = 0" | j where "j \<le> 31" "c = 4 ^ j" "op < 4 ^ Suc j" by blast
  then show ?thesis
  proof cases
    case 1
    then show ?thesis unfolding eq by (simp add: isqrt_loop.simps [of _ _ 0])
  next
    case (2 j)
    have "op < (2 ^ Suc j)\<^sup>2" using 2 by (simp add: power2_eq_square flip: power_mult_distrib)
    then have "(isqrt_loop op (0 * 2 ^ Suc j) (4 ^ j))\<^sup>2 \<le> 0\<^sup>2 + op \<and>
      0\<^sup>2 + op < (Suc (isqrt_loop op (0 * 2 ^ Suc j) (4 ^ j)))\<^sup>2"
      using 2(1) assms by (intro isqrt_loop_correct) simp_all
    then show ?thesis using 2(2) unfolding eq by simp
  qed
qed

section \<open>Properties\<close>

text \<open>
  Over all values of \<open>size_t\<close> the position of the highest bit is the number of binary digits,
  and the integer square root is the largest number whose square is not larger; the table
  counts the bits of a byte.
\<close>

lemma integer_helpers_reference:
  assumes "v < 2 ^ 64"
  shows "highest_bit_position v = bitlength v \<and> (integer_square_root v)\<^sup>2 \<le> v \<and> v < (Suc (integer_square_root v))\<^sup>2 \<and>
    popcount_byte (of_nat v) = card {i. i < 8 \<and> bit v i}"
proof -
  have "byte_bits (of_nat v) = {i. i < 8 \<and> bit v i}" by (auto simp: byte_bits_def bit_of_nat_iff)
  then show ?thesis
    using highest_bit_position_bitlength [OF assms] integer_square_root_bounds [OF assms] by (simp add: popcount_byte_card)
qed

end
