(* ===== verification/Bitset.thy ===== *)
theory Bitset
  imports Bits
begin

text \<open>
  The char-backed bitset of \<open>src/kernel/mm/buddy.h\<close> that stores the status of the nodes of a
  buddy tree. The bitset is the byte memory its pointer points to; the range operations work
  a byte at a time with a table of masks. Shown: every operation acts on exactly the bits of
  its range (\<open>bitset_simps\<close>), counts them correctly and leaves every byte outside the range
  as it was.
\<close>

section \<open>Definitions\<close>

definition bitset_sizeof :: "size_t \<Rightarrow> size_t" where
  "bitset_sizeof elements = sub64 (add64 elements 8) 1 div 8"

definition bitset_index_mask :: "byte list" where
  "bitset_index_mask = [1, 2, 4, 8, 16, 32, 64, 128]"

definition bitset_set :: "bytes \<Rightarrow> size_t \<Rightarrow> bytes" where
  "bitset_set bitset pos =
     (let bucket = pos div 8; index = pos mod 8
      in bitset(bucket := bitset bucket OR bitset_index_mask ! index))"

definition bitset_clear :: "bytes \<Rightarrow> size_t \<Rightarrow> bytes" where
  "bitset_clear bitset pos =
     (let bucket = pos div 8; index = pos mod 8
      in bitset(bucket := bitset bucket AND NOT (bitset_index_mask ! index)))"

definition bitset_test :: "bytes \<Rightarrow> size_t \<Rightarrow> bool" where
  "bitset_test bitset pos =
     (let bucket = pos div 8; index = pos mod 8
      in bitset bucket AND bitset_index_mask ! index \<noteq> 0)"

definition bitset_char_mask :: "byte list list" where
  "bitset_char_mask = [
     [1, 3, 7, 15, 31, 63, 127, 255],
     [0, 2, 6, 14, 30, 62, 126, 254],
     [0, 0, 4, 12, 28, 60, 124, 252],
     [0, 0, 0, 8, 24, 56, 120, 248],
     [0, 0, 0, 0, 16, 48, 112, 240],
     [0, 0, 0, 0, 0, 32, 96, 224],
     [0, 0, 0, 0, 0, 0, 64, 192],
     [0, 0, 0, 0, 0, 0, 0, 128]]"

text \<open>
  The loop \<open>while (++from_bucket != to_bucket)\<close> of the range operations: it visits the
  buckets strictly between the two, counting through the wrap-around of \<open>size_t\<close> where
  \<open>from_bucket\<close> is not the smaller one. Its measure is the distance still to go.
\<close>

definition bucket_distance :: "size_t \<Rightarrow> size_t \<Rightarrow> nat" where
  "bucket_distance from_bucket to_bucket = sub64 (wrap64 to_bucket) (add64 from_bucket 1)"

lemma bucket_distance_step [termination_simp]:
  assumes "add64 from_bucket 1 \<noteq> wrap64 to_bucket"
  shows "bucket_distance (add64 from_bucket 1) to_bucket < bucket_distance from_bucket to_bucket"
proof -
  define x t where "x = add64 from_bucket 1" and "t = wrap64 to_bucket"
  have x: "x < 2 ^ 64" and t: "t < 2 ^ 64" and ne: "x \<noteq> t"
    using assms by (simp_all add: x_def t_def)
  have "sub64 t (add64 x 1) < sub64 t x"
  proof (cases "x < t")
    case True
    then have "add64 x 1 = x + 1" using t by (intro add64_id) linarith
    then show ?thesis using True t by (simp add: wrap_simps)
  next
    case False
    then have gt: "t < x" using ne by simp
    have s: "sub64 t x = t + (2 ^ 64 - x)"
      unfolding sub64_def using gt x by (simp add: wrap_simps)
    show ?thesis
    proof (cases "x + 1 < 2 ^ 64")
      case True
      then have "sub64 t (add64 x 1) = t + (2 ^ 64 - (x + 1))"
        using gt x by (simp add: sub64_def wrap_simps)
      then show ?thesis using s True by simp
    next
      case False
      then have "x = 2 ^ 64 - 1" using x by simp
      then have "add64 x 1 = 0" by (simp add: add64_def wrap64_def)
      then show ?thesis using s t x by (simp add: sub64_def wrap64_def)
    qed
  qed
  then show ?thesis by (simp add: bucket_distance_def x_def t_def)
qed

function bitset_fill :: "bytes \<Rightarrow> size_t \<Rightarrow> size_t \<Rightarrow> byte \<Rightarrow> bytes" where
  "bitset_fill bitset from_bucket to_bucket val =
     (let from_bucket = add64 from_bucket 1
      in if from_bucket = wrap64 to_bucket then bitset
         else bitset_fill (bitset(from_bucket := val)) from_bucket to_bucket val)"
  by pat_completeness auto
termination
  by (relation "measure (\<lambda>(_, from_bucket, to_bucket, _). bucket_distance from_bucket to_bucket)")
    (auto intro: bucket_distance_step [simplified])

function bitset_count_buckets :: "bytes \<Rightarrow> size_t \<Rightarrow> size_t \<Rightarrow> size_t \<Rightarrow> size_t" where
  "bitset_count_buckets bitset from_bucket to_bucket result =
     (let from_bucket = add64 from_bucket 1
      in if from_bucket = wrap64 to_bucket then result
         else bitset_count_buckets bitset from_bucket to_bucket
                (add64 result (popcount_byte (bitset from_bucket))))"
  by pat_completeness auto
termination
  by (relation "measure (\<lambda>(_, from_bucket, to_bucket, _). bucket_distance from_bucket to_bucket)")
    (auto intro: bucket_distance_step [simplified])

declare bitset_fill.simps [simp del]
declare bitset_count_buckets.simps [simp del]

definition bitset_clear_range :: "bytes \<Rightarrow> size_t \<Rightarrow> size_t \<Rightarrow> bytes" where
  "bitset_clear_range bitset from_pos to_pos =
     (let from_bucket = from_pos div 8; to_bucket = to_pos div 8;
          from_index = from_pos mod 8; to_index = to_pos mod 8
      in if from_bucket = to_bucket
         then bitset(from_bucket := bitset from_bucket AND NOT (bitset_char_mask ! from_index ! to_index))
         else let bitset = bitset(from_bucket := bitset from_bucket AND NOT (bitset_char_mask ! from_index ! 7));
                  bitset = bitset(to_bucket := bitset to_bucket AND NOT (bitset_char_mask ! 0 ! to_index))
              in bitset_fill bitset from_bucket to_bucket 0)"

definition bitset_set_range :: "bytes \<Rightarrow> size_t \<Rightarrow> size_t \<Rightarrow> bytes" where
  "bitset_set_range bitset from_pos to_pos =
     (let from_bucket = from_pos div 8; to_bucket = to_pos div 8;
          from_index = from_pos mod 8; to_index = to_pos mod 8
      in if from_bucket = to_bucket
         then bitset(from_bucket := bitset from_bucket OR bitset_char_mask ! from_index ! to_index)
         else let bitset = bitset(from_bucket := bitset from_bucket OR bitset_char_mask ! from_index ! 7);
                  bitset = bitset(to_bucket := bitset to_bucket OR bitset_char_mask ! 0 ! to_index)
              in bitset_fill bitset from_bucket to_bucket 255)"

definition bitset_count_range :: "bytes \<Rightarrow> size_t \<Rightarrow> size_t \<Rightarrow> size_t" where
  "bitset_count_range bitset from_pos to_pos =
     (let from_bucket = from_pos div 8; to_bucket = to_pos div 8;
          from_index = from_pos mod 8; to_index = to_pos mod 8
      in if from_bucket = to_bucket
         then popcount_byte (bitset from_bucket AND bitset_char_mask ! from_index ! to_index)
         else bitset_count_buckets bitset from_bucket to_bucket
                (popcount_byte (bitset from_bucket AND bitset_char_mask ! from_index ! 7) +
                 popcount_byte (bitset to_bucket AND bitset_char_mask ! 0 ! to_index)))"

section \<open>The bits of a bitset\<close>

definition bitset_bit :: "bytes \<Rightarrow> nat \<Rightarrow> bool" where
  "bitset_bit bs i = bit (bs (i div 8)) (i mod 8)"

lemma index_mask_bit:
  assumes "i < 8"
  shows "bit (bitset_index_mask ! i) k = (k = i)"
proof -
  have "bitset_index_mask ! i = 2 ^ i"
    using assms by (auto simp: bitset_index_mask_def less_Suc_eq numeral_eq_Suc)
  then show ?thesis using assms by (auto simp: bit_exp_iff)
qed

lemma char_mask_bit:
  assumes "i < 8" "j < 8" "k < 8"
  shows "bit (bitset_char_mask ! i ! j) k = (i \<le> k \<and> k \<le> j)"
proof -
  have "list_all (\<lambda>i. list_all (\<lambda>j. list_all (\<lambda>k.
    bit (bitset_char_mask ! i ! j) k = (i \<le> k \<and> k \<le> j)) [0..<8]) [0..<8]) [0..<8]"
    by (simp add: upt_rec bitset_char_mask_def)
  then show ?thesis using assms by (simp add: list_all_iff)
qed

lemma byte_bit_less: "bit (b :: byte) k \<Longrightarrow> k < 8"
  using bit_imp_le_length [of b k] by simp

lemma bitset_test_bit [bitset_simps]: "bitset_test bs i = bitset_bit bs i"
proof -
  have "bs (i div 8) AND bitset_index_mask ! (i mod 8) \<noteq> 0 \<longleftrightarrow>
    (\<exists>k. bit (bs (i div 8)) k \<and> bit (bitset_index_mask ! (i mod 8)) k)"
    by (auto simp: bit_eq_iff bit_and_iff intro: byte_bit_less)
  then show ?thesis by (simp add: bitset_test_def bitset_bit_def index_mask_bit Let_def)
qed

lemma bitset_set_bit [bitset_simps]:
  "bitset_bit (bitset_set bs pos) i = (bitset_bit bs i \<or> i = pos)"
proof -
  have "i = pos \<longleftrightarrow> i div 8 = pos div 8 \<and> i mod 8 = pos mod 8" by (metis div_mult_mod_eq)
  then show ?thesis
    by (auto simp: bitset_set_def bitset_bit_def index_mask_bit Let_def bit_or_iff)
qed

lemma bitset_clear_bit [bitset_simps]:
  "bitset_bit (bitset_clear bs pos) i = (bitset_bit bs i \<and> i \<noteq> pos)"
proof -
  have "i = pos \<longleftrightarrow> i div 8 = pos div 8 \<and> i mod 8 = pos mod 8" by (metis div_mult_mod_eq)
  moreover have "i mod 8 < LENGTH(8)" by simp
  ultimately show ?thesis
    by (auto simp: bitset_clear_def bitset_bit_def index_mask_bit Let_def bit_and_iff bit_not_iff)
qed

section \<open>The range operations\<close>

lemma bitset_fill_eq:
  assumes "f < t" "t < 2 ^ 64"
  shows "bitset_fill bs f t v b = (if f < b \<and> b < t then v else bs b)"
  using assms
proof (induction bs f t v rule: bitset_fill.induct)
  case (1 bs f t v)
  then have add: "add64 f 1 = Suc f" and t: "wrap64 t = t" by (simp_all add: wrap_simps)
  show ?case
  proof (cases "Suc f = t")
    case True
    then show ?thesis using add t by (subst bitset_fill.simps) auto
  next
    case False
    then have "Suc f < t" using "1.prems" by simp
    then have "bitset_fill (bs(Suc f := v)) (Suc f) t v b = (if Suc f < b \<and> b < t then v else (bs(Suc f := v)) b)"
      using "1.IH" [of "Suc f"] "1.prems" False add t by (simp del: fun_upd_apply)
    moreover have "bitset_fill bs f t v = bitset_fill (bs(Suc f := v)) (Suc f) t v"
      using False add t by (subst bitset_fill.simps) simp
    ultimately show ?thesis using \<open>Suc f < t\<close> by (auto simp: Suc_lessI)
  qed
qed

text \<open>Positions compare as the pairs of their bucket and their index.\<close>

lemma le_div_mod_8: "a \<le> b \<longleftrightarrow> a div 8 < b div 8 \<or> a div 8 = b div 8 \<and> a mod 8 \<le> b mod (8::nat)"
proof -
  define qa ra qb rb where "qa = a div 8" "ra = a mod 8" "qb = b div 8" "rb = b mod 8"
  then have "a = 8 * qa + ra" "b = 8 * qb + rb" "ra < 8" "rb < 8" by simp_all
  then have "a \<le> b \<longleftrightarrow> qa < qb \<or> qa = qb \<and> ra \<le> rb" by arith
  then show ?thesis by (simp add: qa_ra_qb_rb_def)
qed

lemma char_mask_full: "bitset_char_mask ! 0 ! 7 = - 1"
  by (simp add: bitset_char_mask_def)

text \<open>The byte of a bucket after a range operation.\<close>

lemma bitset_set_range_byte:
  assumes "fb < tb \<or> fb = tb \<and> fi \<le> ti" "fi < 8" "ti < 8" "tb < 2 ^ 61"
  shows "bitset_set_range bs (8 * fb + fi) (8 * tb + ti) q =
    (if q < fb \<or> tb < q then bs q
     else bs q OR bitset_char_mask ! (if q = fb then fi else 0) ! (if q = tb then ti else 7))"
proof -
  have "(255 :: byte) = - 1" by simp
  then show ?thesis
    using assms char_mask_full by (auto simp: bitset_set_range_def Let_def bitset_fill_eq)
qed

lemma bitset_clear_range_byte:
  assumes "fb < tb \<or> fb = tb \<and> fi \<le> ti" "fi < 8" "ti < 8" "tb < 2 ^ 61"
  shows "bitset_clear_range bs (8 * fb + fi) (8 * tb + ti) q =
    (if q < fb \<or> tb < q then bs q
     else bs q AND NOT (bitset_char_mask ! (if q = fb then fi else 0) ! (if q = tb then ti else 7)))"
  using assms char_mask_full by (auto simp: bitset_clear_range_def Let_def bitset_fill_eq)

text \<open>A range of positions, split into buckets and indices.\<close>

lemma range_bucketsE:
  fixes f t :: nat
  assumes "f \<le> t" "t < 2 ^ 64"
  obtains fb fi tb ti where "f = 8 * fb + fi" "t = 8 * tb + ti" "fi < 8" "ti < 8" "tb < 2 ^ 61"
    "fb < tb \<or> fb = tb \<and> fi \<le> ti"
proof -
  have "t div 8 < 2 ^ 61" using assms(2) by (intro less_mult_imp_div_less) simp
  moreover have "f div 8 < t div 8 \<or> f div 8 = t div 8 \<and> f mod 8 \<le> t mod 8"
    using assms(1) by (rule iffD1 [OF le_div_mod_8])
  moreover have "f = 8 * (f div 8) + f mod 8" "t = 8 * (t div 8) + t mod 8" by (simp_all only: mult_div_mod_eq)
  ultimately show ?thesis by (intro that) (auto intro: mod_less_divisor)
qed

lemma bitset_set_range_bit [bitset_simps]:
  assumes "f \<le> t" "t < 2 ^ 64"
  shows "bitset_bit (bitset_set_range bs f t) i = (bitset_bit bs i \<or> f \<le> i \<and> i \<le> t)"
  using assms
proof (rule range_bucketsE)
  fix fb fi tb ti
  assume a: "f = 8 * fb + fi" "t = 8 * tb + ti" "fi < 8" "ti < 8" "tb < 2 ^ 61"
    and le: "fb < tb \<or> fb = tb \<and> fi \<le> ti"
  define q r where "q = i div 8" and "r = i mod 8"
  then have i: "i = 8 * q + r" and r: "r < 8" by simp_all
  then have "f \<le> i \<longleftrightarrow> fb < q \<or> fb = q \<and> fi \<le> r" "i \<le> t \<longleftrightarrow> q < tb \<or> q = tb \<and> r \<le> ti"
    using a by arith+
  then show ?thesis
    using bitset_set_range_byte [OF le a(3,4,5), of bs q] a(3,4) r le
    unfolding bitset_bit_def q_def [symmetric] r_def [symmetric] a(1,2) [symmetric]
    by (auto simp: bit_or_iff char_mask_bit)
qed

lemma bitset_clear_range_bit [bitset_simps]:
  assumes "f \<le> t" "t < 2 ^ 64"
  shows "bitset_bit (bitset_clear_range bs f t) i = (bitset_bit bs i \<and> \<not> (f \<le> i \<and> i \<le> t))"
  using assms
proof (rule range_bucketsE)
  fix fb fi tb ti
  assume a: "f = 8 * fb + fi" "t = 8 * tb + ti" "fi < 8" "ti < 8" "tb < 2 ^ 61"
    and le: "fb < tb \<or> fb = tb \<and> fi \<le> ti"
  define q r where "q = i div 8" and "r = i mod 8"
  then have i: "i = 8 * q + r" and r: "r < 8" by simp_all
  then have "f \<le> i \<longleftrightarrow> fb < q \<or> fb = q \<and> fi \<le> r" "i \<le> t \<longleftrightarrow> q < tb \<or> q = tb \<and> r \<le> ti"
    using a by arith+
  then show ?thesis
    using bitset_clear_range_byte [OF le a(3,4,5), of bs q] a(3,4) r le
    unfolding bitset_bit_def q_def [symmetric] r_def [symmetric] a(1,2) [symmetric]
    by (auto simp: bit_and_iff bit_not_iff char_mask_bit)
qed

lemma bitset_range_frame:
  assumes "f \<le> t" "t < 2 ^ 64" "b < f div 8 \<or> t div 8 < b"
  shows "bitset_set_range bs f t b = bs b" "bitset_clear_range bs f t b = bs b"
proof -
  have "t div 8 < 2 ^ 64" using assms(2) by (rule le_less_trans [rotated]) simp
  moreover have "f div 8 \<le> t div 8" using assms(1) by (rule div_le_mono)
  ultimately show "bitset_set_range bs f t b = bs b" "bitset_clear_range bs f t b = bs b"
    using assms(3)
    by (auto simp: bitset_set_range_def bitset_clear_range_def Let_def bitset_fill_eq)
qed

section \<open>Counting\<close>

definition bits_between :: "bytes \<Rightarrow> nat \<Rightarrow> nat \<Rightarrow> nat set" where
  "bits_between bs f t = {i. f \<le> i \<and> i \<le> t \<and> bitset_bit bs i}"

lemma finite_bits_between [simp]: "finite (bits_between bs f t)"
  unfolding bits_between_def by (rule finite_subset [of _ "{..t}"]) auto

lemma card_bits_between_split:
  assumes "f \<le> Suc m" "m \<le> t"
  shows "card (bits_between bs f t) = card (bits_between bs f m) + card (bits_between bs (Suc m) t)"
proof -
  have "bits_between bs f t = bits_between bs f m \<union> bits_between bs (Suc m) t"
    using assms by (auto simp: bits_between_def)
  moreover have "bits_between bs f m \<inter> bits_between bs (Suc m) t = {}"
    by (auto simp: bits_between_def)
  ultimately show ?thesis by (simp add: card_Un_disjoint)
qed

lemma card_bits_between_bucket:
  assumes "a < 8" "b < 8"
  shows "card (bits_between bs (8 * q + a) (8 * q + b)) =
    popcount_byte (bs q AND bitset_char_mask ! a ! b)"
proof -
  let ?B = "byte_bits (bs q AND bitset_char_mask ! a ! b)"
  have "bits_between bs (8 * q + a) (8 * q + b) = (\<lambda>r. 8 * q + r) ` ?B"
  proof (intro set_eqI iffI)
    fix i
    assume "i \<in> bits_between bs (8 * q + a) (8 * q + b)"
    then have le: "8 * q + a \<le> i" "i \<le> 8 * q + b" and bit: "bitset_bit bs i"
      by (auto simp: bits_between_def)
    define r where "r = i - 8 * q"
    have r: "i = 8 * q + r" "a \<le> r" "r \<le> b" using le by (auto simp: r_def)
    then have "r < 8" using assms by simp
    then have "r \<in> ?B" using r bit assms
      by (simp add: byte_bits_def bitset_bit_def bit_and_iff char_mask_bit)
    then show "i \<in> (\<lambda>r. 8 * q + r) ` ?B" using r(1) by blast
  next
    fix i
    assume "i \<in> (\<lambda>r. 8 * q + r) ` ?B"
    then obtain r where "i = 8 * q + r" "r < 8" "bit (bs q AND bitset_char_mask ! a ! b) r"
      by (auto simp: byte_bits_def)
    then show "i \<in> bits_between bs (8 * q + a) (8 * q + b)"
      using assms by (simp add: bits_between_def bitset_bit_def bit_and_iff char_mask_bit)
  qed
  then show ?thesis by (simp add: popcount_byte_card card_image inj_on_def)
qed

lemma popcount_byte_le: "popcount_byte b \<le> 8"
proof -
  have "byte_bits b \<subseteq> {..<8}" by (auto simp: byte_bits_def)
  then have "card (byte_bits b) \<le> card {..<8::nat}" by (rule card_mono [rotated]) simp
  then show ?thesis by (simp add: popcount_byte_card)
qed

lemma bitset_count_buckets_eq:
  assumes "f < t" "t < 2 ^ 61" "result + 8 * (t - f) < 2 ^ 64"
  shows "bitset_count_buckets bs f t result = result + card (bits_between bs (8 * Suc f) (8 * t - 1))"
  using assms
proof (induction bs f t result rule: bitset_count_buckets.induct)
  case (1 bs f t result)
  then have add: "add64 f 1 = Suc f" and t: "wrap64 t = t" by (simp_all add: wrap_simps)
  show ?case
  proof (cases "Suc f = t")
    case True
    then have "bits_between bs (8 * Suc f) (8 * t - 1) = {}" by (auto simp: bits_between_def)
    then show ?thesis using True add t by (subst bitset_count_buckets.simps) simp
  next
    case False
    then have lt: "Suc f < t" using "1.prems" by simp
    let ?p = "popcount_byte (bs (Suc f))"
    have fits: "result + ?p + 8 * (t - Suc f) < 2 ^ 64"
      using "1.prems"(3) popcount_byte_le [of "bs (Suc f)"] lt by linarith
    then have res: "add64 result ?p = result + ?p" by (intro add64_id) linarith
    have "bitset_count_buckets bs f t result = bitset_count_buckets bs (Suc f) t (result + ?p)"
      using False add t res by (subst bitset_count_buckets.simps) simp
    also have "\<dots> = result + ?p + card (bits_between bs (8 * Suc (Suc f)) (8 * t - 1))"
      using "1.IH" [of "Suc f"] "1.prems" False add t lt fits res by simp
    also have "?p = card (bits_between bs (8 * Suc f) (8 * Suc f + 7))"
      using card_bits_between_bucket [of 0 7 bs "Suc f"] char_mask_full by simp
    also have "result + card (bits_between bs (8 * Suc f) (8 * Suc f + 7)) +
        card (bits_between bs (8 * Suc (Suc f)) (8 * t - 1)) =
      result + card (bits_between bs (8 * Suc f) (8 * t - 1))"
      using card_bits_between_split [of "8 * Suc f" "8 * Suc f + 7" "8 * t - 1" bs] lt by simp
    finally show ?thesis .
  qed
qed

lemma bitset_count_range_card:
  assumes "f \<le> t" "t < 2 ^ 63"
  shows "bitset_count_range bs f t = card (bits_between bs f t)"
proof (rule range_bucketsE [of f t])
  fix fb fi tb ti
  assume a: "f = 8 * fb + fi" "t = 8 * tb + ti" "fi < 8" "ti < 8" "tb < 2 ^ 61"
    and le: "fb < tb \<or> fb = tb \<and> fi \<le> ti"
  show ?thesis
  proof (cases "fb = tb")
    case True
    then show ?thesis using a by (simp add: bitset_count_range_def card_bits_between_bucket)
  next
    case False
    then have lt: "fb < tb" using le by simp
    let ?p = "popcount_byte (bs fb AND bitset_char_mask ! fi ! 7)"
    let ?r = "popcount_byte (bs tb AND bitset_char_mask ! 0 ! ti)"
    have "?p + ?r + 8 * (tb - fb) \<le> 16 + 8 * (tb - fb)"
      using popcount_byte_le [of "bs fb AND bitset_char_mask ! fi ! 7"]
        popcount_byte_le [of "bs tb AND bitset_char_mask ! 0 ! ti"] by linarith
    also have "\<dots> < 2 ^ 64" using assms(2) a(2) by simp
    finally have "bitset_count_range bs f t = ?p + ?r + card (bits_between bs (8 * Suc fb) (8 * tb - 1))"
      using a lt by (simp add: bitset_count_range_def bitset_count_buckets_eq)
    also have "?p = card (bits_between bs (8 * fb + fi) (8 * fb + 7))"
      using a(3) by (simp add: card_bits_between_bucket)
    also have "?r = card (bits_between bs (8 * tb) (8 * tb + ti))"
      using a(4) card_bits_between_bucket [of 0 ti bs tb] by simp
    finally show ?thesis
      using lt a(1-4) card_bits_between_split [of "8 * fb + fi" "8 * fb + 7" "8 * tb + ti" bs]
        card_bits_between_split [of "8 * Suc fb" "8 * tb - 1" "8 * tb + ti" bs]
      by simp
  qed
qed (use assms in auto)

section \<open>Properties\<close>

text \<open>
  C40: setting and clearing a range, byte by byte with masks, sets and clears exactly the bits of
  the range, and counting a range with the table gives the number of set bits in it.
\<close>

theorem bitset_ranges_reference:
  assumes "f \<le> t" "t < 2 ^ 63"
  shows "bitset_test (bitset_set_range bs f t) i = (bitset_test bs i \<or> i \<in> {f .. t}) \<and>
    bitset_test (bitset_clear_range bs f t) i = (bitset_test bs i \<and> i \<notin> {f .. t}) \<and>
    bitset_count_range bs f t = card {i \<in> {f .. t}. bitset_test bs i}"
proof -
  have "t < 2 ^ 64" using assms(2) by simp
  moreover have "bits_between bs f t = {i \<in> {f .. t}. bitset_test bs i}" by (auto simp: bits_between_def bitset_test_bit)
  ultimately show ?thesis
    using bitset_set_range_bit [OF assms(1)] bitset_clear_range_bit [OF assms(1)] bitset_count_range_card [OF assms]
    by (auto simp: bitset_test_bit)
qed

theorem bitset_ranges_reference_witness:
  "bitset_test (bitset_set_range (\<lambda>_. 0) 3 20) 19 \<and> \<not> bitset_test (bitset_clear_range (\<lambda>_. - 1) 3 20) 19"
  using bitset_ranges_reference [of 3 20 "\<lambda>_. 0" 19] bitset_ranges_reference [of 3 20 "\<lambda>_. - 1" 19] by simp

end
