(* ===== verification/Buddy_Tree.thy ===== *)
theory Buddy_Tree
  imports Bitset
begin

text \<open>
  The buddy allocation tree of \<open>src/kernel/mm/buddy.h\<close>: positions, the layout of the node
  status fields in the bitset, and the operations that mark, release and search positions.
  \<open>struct buddy_tree\<close> is a record of its three fields and of the storage behind the header
  (\<open>buddy_tree_bits\<close>): the bitset followed by the memoised row offsets, in one byte memory.
  The root is position 1 and the children of \<open>n\<close> are \<open>2 * n\<close> and \<open>2 * n + 1\<close>.

  Where the C code shifts by a depth that is not a depth of the tree its behaviour is
  undefined; the loops that would only leave the tree this way (\<open>update_parent_chain\<close> from
  the invalid position, \<open>buddy_tree_find_free\<close> for depth 0) stop in the model. The theories
  that follow show that the allocator calls them inside the tree only.
\<close>

section \<open>Positions\<close>

record buddy_tree_pos =
  pos_index :: size_t
  pos_depth :: size_t

definition INVALID_POS :: buddy_tree_pos where
  "INVALID_POS = \<lparr>pos_index = 0, pos_depth = 0\<rparr>"

record buddy_tree_interval =
  interval_from :: buddy_tree_pos
  interval_to :: buddy_tree_pos

record internal_position =
  local_offset :: size_t
  bitset_location :: size_t

record buddy_tree =
  upper_pos_bound :: size_t
  size_for_order_offset :: size_t
  tree_order :: nat
  buddy_tree_bits :: bytes

definition buddy_tree_valid :: "buddy_tree \<Rightarrow> buddy_tree_pos \<Rightarrow> bool" where
  "buddy_tree_valid t pos = (pos_index pos \<noteq> 0 \<and> pos_index pos < upper_pos_bound t)"

definition buddy_tree_order :: "buddy_tree \<Rightarrow> nat" where
  "buddy_tree_order t = tree_order t"

definition buddy_tree_root :: buddy_tree_pos where
  "buddy_tree_root = \<lparr>pos_index = 1, pos_depth = 1\<rparr>"

definition buddy_tree_leftmost_child_internal :: "size_t \<Rightarrow> buddy_tree_pos" where
  "buddy_tree_leftmost_child_internal order =
     \<lparr>pos_index = two_to_the_power_of (sub64 order 1), pos_depth = order\<rparr>"

definition buddy_tree_leftmost_child :: "buddy_tree \<Rightarrow> buddy_tree_pos" where
  "buddy_tree_leftmost_child t = buddy_tree_leftmost_child_internal (tree_order t)"

definition buddy_tree_depth :: "buddy_tree_pos \<Rightarrow> size_t" where
  "buddy_tree_depth pos = pos_depth pos"

definition buddy_tree_left_child :: "buddy_tree_pos \<Rightarrow> buddy_tree_pos" where
  "buddy_tree_left_child pos =
     pos\<lparr>pos_index := mul64 (pos_index pos) 2, pos_depth := add64 (pos_depth pos) 1\<rparr>"

definition buddy_tree_right_child :: "buddy_tree_pos \<Rightarrow> buddy_tree_pos" where
  "buddy_tree_right_child pos =
     pos\<lparr>pos_index := add64 (mul64 (pos_index pos) 2) 1, pos_depth := add64 (pos_depth pos) 1\<rparr>"

definition buddy_tree_sibling :: "buddy_tree_pos \<Rightarrow> buddy_tree_pos" where
  "buddy_tree_sibling pos = pos\<lparr>pos_index := pos_index pos XOR 1\<rparr>"

definition buddy_tree_parent :: "buddy_tree_pos \<Rightarrow> buddy_tree_pos" where
  "buddy_tree_parent pos =
     pos\<lparr>pos_index := pos_index pos div 2, pos_depth := sub64 (pos_depth pos) 1\<rparr>"

definition buddy_tree_right_adjacent :: "buddy_tree_pos \<Rightarrow> buddy_tree_pos" where
  "buddy_tree_right_adjacent pos =
     (if pos_index pos < (add64 (pos_index pos) 1 XOR pos_index pos) then INVALID_POS
      else pos\<lparr>pos_index := add64 (pos_index pos) 1\<rparr>)"

definition buddy_tree_index_internal :: "buddy_tree_pos \<Rightarrow> size_t" where
  "buddy_tree_index_internal pos =
     (let mask = two_to_the_power_of (sub64 (pos_depth pos) 1)
      in and_not (pos_index pos) mask)"

definition buddy_tree_index :: "buddy_tree_pos \<Rightarrow> size_t" where
  "buddy_tree_index pos = buddy_tree_index_internal pos"

section \<open>The layout of the status fields\<close>

text \<open>The loop of \<open>size_for_order\<close>; \<open>order\<close> and \<open>to\<close> are \<open>uint8_t\<close>.\<close>

lemma u8_distance_step:
  "u8 ord \<noteq> u8 to \<Longrightarrow> u8 (u8 (ord + 255) + (256 - u8 to)) < u8 (ord + (256 - u8 to))"
proof -
  assume ne: "u8 ord \<noteq> u8 to"
  define c x where "c = 256 - u8 to" and "x = u8 (ord + c)"
  have to: "u8 to < 256" by (simp add: u8_def)
  have "x \<noteq> 0"
  proof
    assume "x = 0"
    then have "(ord mod 256 + c) mod 256 = 0" by (simp add: x_def u8_def mod_add_left_eq)
    moreover have "ord mod 256 < 256" by simp
    moreover have "0 < c" "c \<le> 256" using to by (simp_all add: c_def)
    ultimately have "ord mod 256 + c = 256" by (cases "ord mod 256 + c < 256") (simp_all add: le_mod_geq)
    then have "ord mod 256 = u8 to" using to by (simp add: c_def)
    with ne show False by (simp add: u8_def)
  qed
  moreover have "u8 (u8 (ord + 255) + c) = u8 (x + 255)"
    unfolding x_def u8_def by (simp only: mod_add_left_eq) (simp add: ac_simps)
  moreover have "x < 256" by (simp add: x_def u8_def)
  ultimately have "u8 (u8 (ord + 255) + c) = x - 1"
    by (simp add: u8_def le_mod_geq)
  with \<open>x \<noteq> 0\<close> show ?thesis unfolding c_def [symmetric] x_def [symmetric] by simp
qed

function size_for_order_loop :: "nat \<Rightarrow> nat \<Rightarrow> size_t \<Rightarrow> size_t \<Rightarrow> size_t" where
  "size_for_order_loop ord to result multi =
     (if u8 ord = u8 to then result
      else size_for_order_loop (u8 (ord + 255)) to (add64 result (mul64 (u8 ord) multi)) (mul64 multi 2))"
  by pat_completeness auto
termination
  by (relation "measure (\<lambda>(ord, to, _, _). u8 (ord + (256 - u8 to)))") (simp_all add: u8_distance_step)

declare size_for_order_loop.simps [simp del]

definition size_for_order :: "nat \<Rightarrow> nat \<Rightarrow> size_t" where
  "size_for_order ord to = size_for_order_loop ord to 0 1"

definition buddy_tree_internal_position_order :: "size_t \<Rightarrow> buddy_tree_pos \<Rightarrow> internal_position" where
  "buddy_tree_internal_position_order ord pos =
     (let lo = add64 (sub64 ord (buddy_tree_depth pos)) 1;
          total_offset = size_for_order (u8 ord) (u8 lo);
          local_index = buddy_tree_index_internal pos
      in \<lparr>local_offset = lo, bitset_location = add64 total_offset (mul64 lo local_index)\<rparr>)"

definition buddy_tree_size_for_order :: "buddy_tree \<Rightarrow> nat \<Rightarrow> size_t" where
  "buddy_tree_size_for_order t to = load64 (buddy_tree_bits t) (8 * (size_for_order_offset t + to))"

definition buddy_tree_internal_position_tree :: "buddy_tree \<Rightarrow> buddy_tree_pos \<Rightarrow> internal_position" where
  "buddy_tree_internal_position_tree t pos =
     (let lo = add64 (sub64 (tree_order t) (buddy_tree_depth pos)) 1;
          total_offset = buddy_tree_size_for_order t (u8 lo);
          local_index = buddy_tree_index_internal pos
      in \<lparr>local_offset = lo, bitset_location = add64 total_offset (mul64 lo local_index)\<rparr>)"

definition sizeof_buddy_tree :: size_t where
  "sizeof_buddy_tree = 24"

text \<open>The size of the bitset, padded the way both callers pad it.\<close>

definition padded_bitset_size :: "nat \<Rightarrow> size_t" where
  "padded_bitset_size ord =
     (let bitset_size = bitset_sizeof (size_for_order ord 0)
      in if bitset_size mod 8 \<noteq> 0 then add64 bitset_size (bitset_size mod 8) else bitset_size)"

definition buddy_tree_sizeof :: "nat \<Rightarrow> size_t" where
  "buddy_tree_sizeof ord =
     add64 (add64 sizeof_buddy_tree (padded_bitset_size ord)) ((ord + 2) * 8)"

fun store_size_for_order :: "bytes \<Rightarrow> size_t \<Rightarrow> nat \<Rightarrow> nat \<Rightarrow> bytes" where
  "store_size_for_order mem off ord 0 = mem"
| "store_size_for_order mem off ord (Suc n) =
     store64 (store_size_for_order mem off ord n) (8 * (off + n)) (size_for_order ord (u8 n))"

definition buddy_tree_populate_size_for_order :: "buddy_tree \<Rightarrow> buddy_tree" where
  "buddy_tree_populate_size_for_order t =
     (let off = add64 (padded_bitset_size (tree_order t) div 8) 1
      in t\<lparr>size_for_order_offset := off,
           buddy_tree_bits := store_size_for_order (buddy_tree_bits t) off (tree_order t) (tree_order t + 1)\<rparr>)"

text \<open>
  \<open>buddy_tree_init\<close> clears \<open>buddy_tree_sizeof\<close> bytes from the header on; \<open>mem\<close> is the
  memory behind the header before the call.
\<close>

definition buddy_tree_init :: "bytes \<Rightarrow> nat \<Rightarrow> buddy_tree" where
  "buddy_tree_init mem ord =
     (let size = buddy_tree_sizeof ord;
          t = \<lparr>upper_pos_bound = two_to_the_power_of ord, size_for_order_offset = 0, tree_order = ord,
               buddy_tree_bits = (\<lambda>i. if i + sizeof_buddy_tree < size then 0 else mem i)\<rparr>
      in buddy_tree_populate_size_for_order t)"

section \<open>Reading and writing a status field\<close>

definition write_to_internal_position :: "bytes \<Rightarrow> internal_position \<Rightarrow> size_t \<Rightarrow> bytes" where
  "write_to_internal_position bitset pos val =
     (let bitset = bitset_clear_range bitset (bitset_location pos)
                     (sub64 (add64 (bitset_location pos) (local_offset pos)) 1)
      in if val \<noteq> 0
         then bitset_set_range bitset (bitset_location pos) (sub64 (add64 (bitset_location pos) val) 1)
         else bitset)"

definition read_from_internal_position :: "bytes \<Rightarrow> internal_position \<Rightarrow> size_t" where
  "read_from_internal_position bitset pos =
     (if \<not> bitset_test bitset (bitset_location pos) then 0
      else bitset_count_range bitset (bitset_location pos)
             (sub64 (add64 (bitset_location pos) (local_offset pos)) 1))"

definition compare_with_internal_position :: "bytes \<Rightarrow> internal_position \<Rightarrow> size_t \<Rightarrow> bool" where
  "compare_with_internal_position bitset pos val =
     bitset_test bitset (sub64 (add64 (bitset_location pos) val) 1)"

definition buddy_tree_status :: "buddy_tree \<Rightarrow> buddy_tree_pos \<Rightarrow> size_t" where
  "buddy_tree_status t pos =
     read_from_internal_position (buddy_tree_bits t) (buddy_tree_internal_position_tree t pos)"

section \<open>Marking and releasing\<close>

text \<open>
  The loop of \<open>update_parent_chain\<close>. The status of the sibling is read one field to the right
  of an even position and one to the left of an odd one, by an addition that wraps.
\<close>

function update_parent_chain ::
  "buddy_tree \<Rightarrow> buddy_tree_pos \<Rightarrow> internal_position \<Rightarrow> size_t \<Rightarrow> buddy_tree" where
  "update_parent_chain t pos pos_internal size_current =
     (if pos_index pos = 1 \<or> pos_index pos = 0 then t
      else let lo = local_offset pos_internal;
               pos_internal = pos_internal\<lparr>bitset_location := add64 (bitset_location pos_internal)
                 (sub64 lo (mul64 (mul64 2 lo) (pos_index pos mod 2)))\<rparr>;
               size_sibling = read_from_internal_position (buddy_tree_bits t) pos_internal;
               pos = buddy_tree_parent pos;
               pos_internal = buddy_tree_internal_position_tree t pos;
               size_parent = read_from_internal_position (buddy_tree_bits t) pos_internal;
               target_parent = (if size_current \<noteq> 0 \<or> size_sibling \<noteq> 0 then 1 else 0) *
                 ((if size_current \<le> size_sibling then size_current else size_sibling) + 1)
           in if target_parent = size_parent then t
              else update_parent_chain
                     (t\<lparr>buddy_tree_bits :=
                        write_to_internal_position (buddy_tree_bits t) pos_internal target_parent\<rparr>)
                     pos pos_internal target_parent)"
  by pat_completeness auto
termination
  by (relation "measure (\<lambda>(_, pos, _, _). pos_index pos)") (auto simp: buddy_tree_parent_def)

declare update_parent_chain.simps [simp del]

definition buddy_tree_mark :: "buddy_tree \<Rightarrow> buddy_tree_pos \<Rightarrow> buddy_tree" where
  "buddy_tree_mark t pos =
     (let internal = buddy_tree_internal_position_tree t pos;
          t = t\<lparr>buddy_tree_bits :=
                write_to_internal_position (buddy_tree_bits t) internal (local_offset internal)\<rparr>
      in update_parent_chain t pos internal (local_offset internal))"

definition buddy_tree_release :: "buddy_tree \<Rightarrow> buddy_tree_pos \<Rightarrow> buddy_tree" where
  "buddy_tree_release t pos =
     (let internal = buddy_tree_internal_position_tree t pos
      in if read_from_internal_position (buddy_tree_bits t) internal \<noteq> local_offset internal then t
         else let t = t\<lparr>buddy_tree_bits := write_to_internal_position (buddy_tree_bits t) internal 0\<rparr>
              in update_parent_chain t pos internal 0)"

section \<open>Searching\<close>

text \<open>The body of the search loop: the child to go on with, for the decremented status.\<close>

definition find_free_step :: "buddy_tree \<Rightarrow> buddy_tree_pos \<Rightarrow> nat \<Rightarrow> buddy_tree_pos" where
  "find_free_step t current_pos target_status =
     (let left_pos = buddy_tree_left_child current_pos;
          right_pos = buddy_tree_sibling left_pos;
          left_internal = buddy_tree_internal_position_tree t left_pos;
          right_internal = left_internal\<lparr>bitset_location :=
            add64 (bitset_location left_internal) (local_offset left_internal)\<rparr>;
          bits = buddy_tree_bits t
      in if compare_with_internal_position bits left_internal (target_status + 1) then right_pos
         else if compare_with_internal_position bits right_internal (target_status + 1) then left_pos
         else let right_status = read_from_internal_position bits right_internal
              in if right_status \<noteq> 0
                 then if compare_with_internal_position bits left_internal right_status
                      then left_pos else right_pos
                 else left_pos)"

function find_free_loop ::
  "buddy_tree \<Rightarrow> nat \<Rightarrow> buddy_tree_pos \<Rightarrow> size_t \<Rightarrow> nat \<Rightarrow> buddy_tree_pos" where
  "find_free_loop t target_depth current_pos current_depth target_status =
     (if target_depth \<le> current_depth then current_pos
      else let target_status = u8 (target_status + 255);
               current_depth = current_depth + 1
           in find_free_loop t target_depth (find_free_step t current_pos target_status)
                current_depth target_status)"
  by pat_completeness auto
termination
  by (relation "measure (\<lambda>(_, target_depth, _, current_depth, _). target_depth - current_depth)") auto

declare find_free_loop.simps [simp del]

definition buddy_tree_find_free :: "buddy_tree \<Rightarrow> nat \<Rightarrow> buddy_tree_pos" where
  "buddy_tree_find_free t target_depth =
     (let current_pos = buddy_tree_root;
          target_status = u8 (target_depth + 255);
          current_depth = buddy_tree_depth current_pos
      in if target_status < buddy_tree_status t current_pos then INVALID_POS
         else find_free_loop t target_depth current_pos current_depth target_status)"

function is_free_loop :: "buddy_tree \<Rightarrow> buddy_tree_pos \<Rightarrow> bool" where
  "is_free_loop t pos =
     (if \<not> buddy_tree_valid t pos then True
      else let internal = buddy_tree_internal_position_tree t pos;
               val = read_from_internal_position (buddy_tree_bits t) internal
           in if val \<noteq> 0 then val \<noteq> local_offset internal
              else is_free_loop t (buddy_tree_parent pos))"
  by pat_completeness auto
termination
  by (relation "measure (\<lambda>(_, pos). pos_index pos)")
    (auto simp: buddy_tree_parent_def buddy_tree_valid_def)

declare is_free_loop.simps [simp del]

definition buddy_tree_is_free :: "buddy_tree \<Rightarrow> buddy_tree_pos \<Rightarrow> bool" where
  "buddy_tree_is_free t pos =
     (if buddy_tree_status t pos \<noteq> 0 then False else is_free_loop t (buddy_tree_parent pos))"

definition buddy_tree_can_shrink :: "buddy_tree \<Rightarrow> bool" where
  "buddy_tree_can_shrink t =
     (if buddy_tree_status t (buddy_tree_right_child buddy_tree_root) \<noteq> 0 then False
      else let root_internal = buddy_tree_internal_position_tree t buddy_tree_root;
               root_value = read_from_internal_position (buddy_tree_bits t) root_internal
           in root_value \<noteq> local_offset root_internal)"

end
