(* ===== verification/Buddy_Layout.thy ===== *)
theory Buddy_Layout
  imports Buddy_Tree
begin

text \<open>
  Where the status field of a node lies. Row \<open>k\<close> of a tree of order \<open>ord\<close> holds \<open>2 ^ k\<close>
  fields of \<open>ord - k\<close> bits. Shown: the memoised row offsets are the sums of the rows above,
  the fields of different nodes do not overlap and stay inside the bitset, the table of row
  offsets lies behind the bitset and inside the storage \<open>buddy_tree_sizeof\<close> asks for, and
  reading and writing a field are the lookup and the update of a function from nodes to
  statuses.
\<close>

section \<open>Nodes\<close>

definition level :: "nat \<Rightarrow> nat" where
  "level n = bitlength n - 1"

definition valid_node :: "nat \<Rightarrow> nat \<Rightarrow> bool" where
  "valid_node ord n \<longleftrightarrow> 0 < n \<and> n < 2 ^ ord"

definition pos_of :: "nat \<Rightarrow> buddy_tree_pos" where
  "pos_of n = \<lparr>pos_index = n, pos_depth = Suc (level n)\<rparr>"

lemma bitlength_Suc_level: "0 < n \<Longrightarrow> bitlength n = Suc (level n)"
  by (simp add: level_def bitlength_pos)

lemma level_bounds: "0 < n \<Longrightarrow> 2 ^ level n \<le> n \<and> n < 2 ^ Suc (level n)"
  using bitlength_lower [of n] less_two_power_bitlength [of n]
  by (simp add: level_def bitlength_pos)

lemma level_eqI: "2 ^ k \<le> n \<Longrightarrow> n < 2 ^ Suc k \<Longrightarrow> level n = k"
  by (simp add: level_def bitlength_eqI)

lemma level_1 [simp]: "level (Suc 0) = 0"
  by (simp add: level_def)

lemma level_children [simp]:
  assumes "0 < n"
  shows "level (2 * n) = Suc (level n)" "level (Suc (2 * n)) = Suc (level n)"
  using level_bounds [OF assms] by (auto intro!: level_eqI)

lemma level_parent: "1 < n \<Longrightarrow> level n = Suc (level (n div 2))"
proof -
  assume "1 < n"
  then have "0 < n div 2" by (simp add: div_greater_zero_iff)
  moreover have "n = 2 * (n div 2) \<or> n = Suc (2 * (n div 2))" by linarith
  ultimately show ?thesis using level_children [of "n div 2"] by metis
qed

lemma level_less: "valid_node ord n \<Longrightarrow> level n < ord"
proof -
  assume v: "valid_node ord n"
  then have "(2::nat) ^ level n < 2 ^ ord"
    using level_bounds [of n] by (meson le_less_trans valid_node_def)
  then show ?thesis by (rule power_less_imp_less_exp [rotated]) simp
qed

lemma level_less_imp_valid: "0 < n \<Longrightarrow> level n < ord \<Longrightarrow> valid_node ord n"
proof -
  assume a: "0 < n" "level n < ord"
  then have "n < 2 ^ Suc (level n)" using level_bounds by blast
  also have "(2::nat) ^ Suc (level n) \<le> 2 ^ ord" using a by (intro power_increasing) auto
  finally show ?thesis using a by (simp add: valid_node_def)
qed

lemma valid_parent: "valid_node ord n \<Longrightarrow> 1 < n \<Longrightarrow> valid_node ord (n div 2)"
  by (auto simp: valid_node_def div_greater_zero_iff intro: le_less_trans [OF div_le_dividend])

lemma valid_children:
  assumes "valid_node ord n" "Suc (level n) < ord"
  shows "valid_node ord (2 * n)" "valid_node ord (Suc (2 * n))"
  using assms by (auto intro!: level_less_imp_valid simp: valid_node_def [of ord n])

section \<open>Rows and fields\<close>

fun row_start :: "nat \<Rightarrow> nat \<Rightarrow> nat" where
  "row_start ord 0 = 0"
| "row_start ord (Suc k) = row_start ord k + (ord - k) * 2 ^ k"

definition field_width :: "nat \<Rightarrow> nat \<Rightarrow> nat" where
  "field_width ord n = ord - level n"

definition field_loc :: "nat \<Rightarrow> nat \<Rightarrow> nat" where
  "field_loc ord n = row_start ord (level n) + field_width ord n * (n - 2 ^ level n)"

definition tree_bits :: "nat \<Rightarrow> nat" where
  "tree_bits ord = row_start ord ord"

lemma row_start_closed: "k \<le> ord \<Longrightarrow> row_start ord k + ord + 2 = (ord - k + 2) * 2 ^ k"
proof (induction k)
  case (Suc k)
  then obtain j where j: "ord - k = Suc j" "ord - Suc k = j" by (metis Suc_diff_le Suc_le_lessD diff_Suc_Suc less_imp_le_nat)
  have "row_start ord (Suc k) + ord + 2 = (ord - k + 2) * 2 ^ k + (ord - k) * 2 ^ k"
    using Suc by simp
  also have "\<dots> = (ord - Suc k + 2) * 2 ^ Suc k" by (simp add: j algebra_simps)
  finally show ?case .
qed simp

lemma tree_bits_closed: "tree_bits ord + ord + 2 = 2 ^ Suc ord"
  using row_start_closed [of ord ord] by (simp add: tree_bits_def)

lemma row_start_mono: "j \<le> k \<Longrightarrow> row_start ord j \<le> row_start ord k"
  by (rule lift_Suc_mono_le) auto

lemma field_width_pos: "valid_node ord n \<Longrightarrow> 0 < field_width ord n"
  using level_less by (simp add: field_width_def)

lemma field_in_row:
  assumes "0 < n"
  shows "row_start ord (level n) \<le> field_loc ord n"
    and "field_loc ord n + field_width ord n \<le> row_start ord (Suc (level n))"
proof -
  show "row_start ord (level n) \<le> field_loc ord n" by (simp add: field_loc_def)
  have "Suc (n - 2 ^ level n) \<le> 2 ^ level n" using level_bounds [OF assms] by auto
  then have "field_width ord n * Suc (n - 2 ^ level n) \<le> field_width ord n * 2 ^ level n"
    by (rule mult_le_mono2)
  then show "field_loc ord n + field_width ord n \<le> row_start ord (Suc (level n))"
    by (simp add: field_loc_def field_width_def)
qed

lemma level_mono: "0 < n \<Longrightarrow> n \<le> m \<Longrightarrow> level n \<le> level m"
proof (rule ccontr)
  assume a: "0 < n" "n \<le> m" "\<not> level n \<le> level m"
  then have "m < 2 ^ Suc (level m)" using level_bounds [of m] by simp
  also have "(2::nat) ^ Suc (level m) \<le> 2 ^ level n" using a by (intro power_increasing) auto
  also have "\<dots> \<le> n" using level_bounds [of n] a by blast
  finally show False using a by simp
qed

lemma field_order:
  assumes "0 < n" "n < m"
  shows "field_loc ord n + field_width ord n \<le> field_loc ord m"
proof (cases "level n = level m")
  case True
  have "Suc (n - 2 ^ level m) \<le> m - 2 ^ level m"
    using assms level_bounds [of n] True by auto
  then have "field_width ord n * Suc (n - 2 ^ level m) \<le> field_width ord n * (m - 2 ^ level m)"
    by (rule mult_le_mono2)
  then show ?thesis using True by (simp add: field_loc_def field_width_def)
next
  case False
  then have "Suc (level n) \<le> level m" using level_mono [of n m] assms by simp
  then have "row_start ord (Suc (level n)) \<le> row_start ord (level m)" by (rule row_start_mono)
  then show ?thesis
    using field_in_row [OF assms(1), of ord] field_in_row(1) [of m ord] assms by linarith
qed

lemma fields_disjoint:
  assumes "0 < n" "0 < m" "n \<noteq> m" "i < field_width ord n" "j < field_width ord m"
  shows "field_loc ord n + i \<noteq> field_loc ord m + j"
  using assms field_order [of n m ord] field_order [of m n ord] by (cases "n < m") auto

lemma field_in_tree:
  assumes "valid_node ord n"
  shows "field_loc ord n + field_width ord n \<le> tree_bits ord"
proof -
  have "row_start ord (Suc (level n)) \<le> row_start ord ord"
    using level_less [OF assms] by (intro row_start_mono) simp
  then show ?thesis
    using field_in_row(2) [of n ord] assms by (simp add: tree_bits_def valid_node_def)
qed

lemma tree_bits_less: "ord \<le> 60 \<Longrightarrow> tree_bits ord < 2 ^ 61"
proof -
  assume "ord \<le> 60"
  then have "(2::nat) ^ Suc ord \<le> 2 ^ 61" by (intro power_increasing) auto
  then show ?thesis using tree_bits_closed [of ord] by linarith
qed

section \<open>The code computes the layout\<close>

lemma size_for_order_loop_rows:
  assumes "to \<le> ord - k" "k \<le> ord" "ord \<le> 60"
  shows "size_for_order_loop (ord - k) to (row_start ord k) (2 ^ k) = row_start ord (ord - to)"
  using assms
proof (induction "ord - k - to" arbitrary: k)
  case 0
  then have "ord - k = to" "ord - to = k" by auto
  then show ?case by (subst size_for_order_loop.simps) simp
next
  case (Suc d)
  then have ne: "ord - k \<noteq> to" and k: "k < ord" by auto
  have lt: "ord - k < 256" "to < 256" using Suc.prems by auto
  then have u: "u8 (ord - k) = ord - k" "u8 to = to" by (simp_all add: wrap_simps)
  have dec: "u8 (ord - k + 255) = ord - Suc k"
  proof -
    have "ord - k + 255 = (ord - Suc k) + 256" using k by simp
    then have "u8 (ord - k + 255) = u8 ((ord - Suc k) + 256)" by (simp only:)
    then show ?thesis using lt by (simp add: u8_def)
  qed
  have "row_start ord (Suc k) \<le> tree_bits ord"
    unfolding tree_bits_def using k by (intro row_start_mono) simp
  then have fits: "row_start ord k + (ord - k) * 2 ^ k < 2 ^ 61"
    using tree_bits_less [OF Suc.prems(3)] by simp
  have "(2::nat) ^ k * 2 \<le> 2 ^ 61"
    using Suc.prems power_increasing [of "Suc k" 61 "2::nat"] by (simp add: mult.commute)
  with fits have "add64 (row_start ord k) (mul64 (ord - k) (2 ^ k)) = row_start ord (Suc k)"
    "mul64 (2 ^ k) 2 = 2 ^ Suc k"
    by (simp_all add: wrap_simps)
  then have "size_for_order_loop (ord - k) to (row_start ord k) (2 ^ k) =
    size_for_order_loop (ord - Suc k) to (row_start ord (Suc k)) (2 ^ Suc k)"
    using ne u dec by (subst size_for_order_loop.simps) simp
  then show ?case using Suc.hyps(1) [of "Suc k"] Suc.hyps(2) Suc.prems k by simp
qed

lemma size_for_order_row_start:
  "to \<le> ord \<Longrightarrow> ord \<le> 60 \<Longrightarrow> size_for_order ord to = row_start ord (ord - to)"
  using size_for_order_loop_rows [of to ord 0] by (simp add: size_for_order_def)

lemma index_internal_pos_of:
  assumes "0 < n" "level n < 64"
  shows "buddy_tree_index_internal (pos_of n) = n - 2 ^ level n"
proof -
  obtain r where r: "n = 2 ^ level n + r" "r < 2 ^ level n"
    using level_bounds [OF assms(1)] by (metis add_less_imp_less_left le_add_diff_inverse mult_2 power_Suc)
  have "sub64 (Suc (level n)) 1 = level n" using assms by (simp add: wrap_simps)
  then have "buddy_tree_index_internal (pos_of n) = and_not (2 ^ level n + r) (2 ^ level n)"
    using r(1) assms by (simp add: buddy_tree_index_internal_def pos_of_def two_to_the_power_of_eq)
  also have "\<dots> = r" using r(2) by (rule and_not_top)
  finally show ?thesis using r(1) by linarith
qed

definition table_offset :: "nat \<Rightarrow> nat" where
  "table_offset ord = padded_bitset_size ord div 8 + 1"

text \<open>The header fields and the table of row offsets of a tree that has been initialised.\<close>

definition tree_header_ok :: "buddy_tree \<Rightarrow> bool" where
  "tree_header_ok t \<longleftrightarrow> 1 \<le> tree_order t \<and> tree_order t \<le> 60 \<and>
     upper_pos_bound t = 2 ^ tree_order t \<and>
     size_for_order_offset t = table_offset (tree_order t) \<and>
     (\<forall>i \<le> tree_order t. load64 (buddy_tree_bits t) (8 * (table_offset (tree_order t) + i)) =
        row_start (tree_order t) (tree_order t - i))"

lemma internal_position_pos_of:
  assumes "tree_header_ok t" "valid_node (tree_order t) n"
  shows "buddy_tree_internal_position_tree t (pos_of n) =
    \<lparr>local_offset = field_width (tree_order t) n, bitset_location = field_loc (tree_order t) n\<rparr>"
proof -
  let ?o = "tree_order t"
  have ord: "?o \<le> 60" and lv: "level n < ?o"
    using assms level_less by (auto simp: tree_header_ok_def)
  then have "sub64 ?o (Suc (level n)) = ?o - Suc (level n)" by (intro sub64_id) simp_all
  then have w: "add64 (sub64 ?o (Suc (level n))) 1 = field_width ?o n"
    using ord lv by (simp add: wrap_simps field_width_def)
  have "field_width ?o n < 256" using ord by (simp add: field_width_def)
  then have row: "buddy_tree_size_for_order t (u8 (field_width ?o n)) = row_start ?o (level n)"
  proof -
    have "field_width ?o n \<le> ?o" "?o - field_width ?o n = level n"
      using lv by (simp_all add: field_width_def)
    then show ?thesis using assms(1) \<open>field_width ?o n < 256\<close>
      by (auto simp: buddy_tree_size_for_order_def tree_header_ok_def wrap_simps simp del: distrib_left_numeral)
  qed
  have "field_loc ?o n < 2 ^ 61"
    using field_in_tree [OF assms(2)] tree_bits_less [OF ord] by linarith
  then have fits: "row_start ?o (level n) + field_width ?o n * (n - 2 ^ level n) < 2 ^ 61"
    by (simp add: field_loc_def)
  then have "add64 (row_start ?o (level n)) (mul64 (field_width ?o n) (n - 2 ^ level n)) = field_loc ?o n"
    by (simp add: wrap_simps field_loc_def)
  then show ?thesis
    using assms(2) lv ord w row
    by (simp add: buddy_tree_internal_position_tree_def Let_def buddy_tree_depth_def
        index_internal_pos_of valid_node_def) (simp add: pos_of_def)
qed

section \<open>The storage of a tree\<close>

lemma bitset_sizeof_eq: "n < 2 ^ 62 \<Longrightarrow> bitset_sizeof n = (n + 7) div 8"
  by (simp add: bitset_sizeof_def wrap_simps)

lemma padded_bitset_size_eq:
  assumes "ord \<le> 60"
  shows "padded_bitset_size ord = (tree_bits ord + 7) div 8 + (tree_bits ord + 7) div 8 mod 8"
proof -
  have tb: "tree_bits ord < 2 ^ 61" using assms by (rule tree_bits_less)
  have b: "bitset_sizeof (size_for_order ord 0) = (tree_bits ord + 7) div 8"
    using assms tb by (simp add: size_for_order_row_start bitset_sizeof_eq tree_bits_def)
  have "(tree_bits ord + 7) div 8 \<le> tree_bits ord + 7" by (rule div_le_dividend)
  moreover have "(tree_bits ord + 7) div 8 mod 8 < 8" by simp
  ultimately have "(tree_bits ord + 7) div 8 + (tree_bits ord + 7) div 8 mod 8 < tree_bits ord + 15"
    by linarith
  also have "tree_bits ord + 15 \<le> 2 ^ 64" using tb by simp
  finally have "(tree_bits ord + 7) div 8 + (tree_bits ord + 7) div 8 mod 8 < 2 ^ 64" .
  then show ?thesis by (auto simp: padded_bitset_size_def b wrap_simps Let_def)
qed

lemma less_next_multiple: "x < 8 * (x div 8 + (1::nat))"
  using dividend_less_times_div [of 8 x] by simp

text \<open>The bits of the bitset lie in bytes before the table of row offsets.\<close>

lemma table_behind_bits:
  assumes "ord \<le> 60" "i < tree_bits ord"
  shows "i div 8 < 8 * table_offset ord"
proof -
  let ?b = "(tree_bits ord + 7) div 8"
  have "i div 8 < ?b" using assms(2) by linarith
  also have "?b \<le> padded_bitset_size ord" using assms(1) by (simp add: padded_bitset_size_eq)
  also have "\<dots> < 8 * table_offset ord" unfolding table_offset_def by (rule less_next_multiple)
  finally show ?thesis .
qed

lemma table_in_tree_storage:
  assumes "ord \<le> 60"
  shows "sizeof_buddy_tree + 8 * (table_offset ord + ord + 1) \<le> buddy_tree_sizeof ord"
proof -
  define b where "b = (tree_bits ord + 7) div 8"
  have P: "padded_bitset_size ord = b + b mod 8" unfolding b_def using assms by (rule padded_bitset_size_eq)
  have "b < 2 ^ 61" using tree_bits_less [OF assms] unfolding b_def by linarith
  then have "buddy_tree_sizeof ord = 24 + (b + b mod 8) + (ord + 2) * 8"
    using assms by (simp add: buddy_tree_sizeof_def sizeof_buddy_tree_def P wrap_simps)
  moreover have "8 * ((b + b mod 8) div 8) \<le> b + b mod 8" by simp
  ultimately show ?thesis by (simp add: sizeof_buddy_tree_def table_offset_def P)
qed

lemma load_store_size_for_order:
  "i < n \<Longrightarrow> n \<le> Suc ord \<Longrightarrow> ord \<le> 60 \<Longrightarrow>
    load64 (store_size_for_order mem off ord n) (8 * (off + i)) = row_start ord (ord - i)"
proof (induction n)
  case (Suc n)
  show ?case
  proof (cases "i = n")
    case True
    then have "i \<le> ord" "i < 256" using Suc.prems by simp_all
    then have eq: "size_for_order ord (u8 i) = row_start ord (ord - i)"
      using Suc.prems(3) by (simp add: wrap_simps size_for_order_row_start)
    have "row_start ord (ord - i) \<le> tree_bits ord"
      unfolding tree_bits_def by (rule row_start_mono) simp
    then have "row_start ord (ord - i) < 2 ^ 64" using tree_bits_less [OF Suc.prems(3)] by simp
    then have "load64 (store64 m (8 * (off + i)) (size_for_order ord (u8 i))) (8 * (off + i)) =
      row_start ord (ord - i)" for m
      unfolding eq by (rule load_store64)
    then show ?thesis using True by (simp del: distrib_left_numeral)
  next
    case False
    then show ?thesis using Suc by (simp add: load64_store64_disjoint)
  qed
qed simp

lemma store_size_for_order_other: "b < 8 * off \<Longrightarrow> store_size_for_order mem off ord n b = mem b"
  by (induction n) (auto simp: store64_other)

section \<open>The statuses a tree stores\<close>

text \<open>
  A tree represents a function \<open>st\<close> from nodes to statuses: the field of each node holds its
  status in unary, the status many low bits set.
\<close>

definition tree_repr :: "buddy_tree \<Rightarrow> (nat \<Rightarrow> nat) \<Rightarrow> bool" where
  "tree_repr t st \<longleftrightarrow> tree_header_ok t \<and>
     (\<forall>n. valid_node (tree_order t) n \<longrightarrow> st n \<le> field_width (tree_order t) n \<and>
        (\<forall>i < field_width (tree_order t) n.
           bitset_bit (buddy_tree_bits t) (field_loc (tree_order t) n + i) = (i < st n)))"

abbreviation field_pos :: "nat \<Rightarrow> nat \<Rightarrow> internal_position" where
  "field_pos ord n \<equiv> \<lparr>local_offset = field_width ord n, bitset_location = field_loc ord n\<rparr>"

lemma tree_reprD:
  assumes "tree_repr t st"
  shows "tree_header_ok t" "tree_order t \<le> 60" "1 \<le> tree_order t" "upper_pos_bound t = 2 ^ tree_order t"
    and "valid_node (tree_order t) n \<Longrightarrow> st n \<le> field_width (tree_order t) n"
    and "valid_node (tree_order t) n \<Longrightarrow> i < field_width (tree_order t) n \<Longrightarrow>
      bitset_bit (buddy_tree_bits t) (field_loc (tree_order t) n + i) = (i < st n)"
  using assms by (auto simp: tree_repr_def tree_header_ok_def)

lemma field_end:
  assumes "ord \<le> 60" "valid_node ord n" "0 < v" "v \<le> field_width ord n"
  shows "sub64 (add64 (field_loc ord n) v) 1 = field_loc ord n + v - 1" "field_loc ord n + v < 2 ^ 62"
proof -
  have "field_loc ord n + v \<le> tree_bits ord" using field_in_tree [OF assms(2)] assms(4) by linarith
  then show fits: "field_loc ord n + v < 2 ^ 62" using tree_bits_less [OF assms(1)] by simp
  then have "add64 (field_loc ord n) v = field_loc ord n + v" by (intro add64_id) simp
  then show "sub64 (add64 (field_loc ord n) v) 1 = field_loc ord n + v - 1"
    using assms(3) fits by (simp add: wrap_simps)
qed

lemma read_field:
  assumes "tree_repr t st" "valid_node (tree_order t) n"
  shows "read_from_internal_position (buddy_tree_bits t) (field_pos (tree_order t) n) = st n"
proof -
  let ?o = "tree_order t" and ?bs = "buddy_tree_bits t"
  let ?l = "field_loc ?o n" and ?w = "field_width ?o n"
  have w: "0 < ?w" using assms(2) by (rule field_width_pos)
  have bits: "bitset_bit ?bs (?l + i) = (i < st n)" if "i < ?w" for i
    using tree_reprD(6) [OF assms that] .
  have le: "st n \<le> ?w" using tree_reprD(5) [OF assms] .
  note fe = field_end [OF tree_reprD(2) [OF assms(1)] assms(2) w order_refl]
  have "bits_between ?bs ?l (?l + ?w - 1) = (\<lambda>i. ?l + i) ` {..<st n}"
  proof (intro set_eqI iffI)
    fix x assume "x \<in> bits_between ?bs ?l (?l + ?w - 1)"
    then have x: "?l \<le> x" "x < ?l + ?w" "bitset_bit ?bs x" using w by (auto simp: bits_between_def)
    then have "x - ?l < st n" using bits [of "x - ?l"] by auto
    then show "x \<in> (\<lambda>i. ?l + i) ` {..<st n}" using x(1) by (intro image_eqI [of _ _ "x - ?l"]) auto
  next
    fix x assume "x \<in> (\<lambda>i. ?l + i) ` {..<st n}"
    then obtain i where "x = ?l + i" "i < st n" by auto
    then show "x \<in> bits_between ?bs ?l (?l + ?w - 1)" using bits [of i] le by (auto simp: bits_between_def)
  qed
  then have "bitset_count_range ?bs ?l (?l + ?w - 1) = st n"
    using w fe(2) by (subst bitset_count_range_card) (auto simp: card_image inj_on_def)
  moreover have "bitset_test ?bs ?l = (0 < st n)" using bits [of 0] w by (simp add: bitset_simps)
  ultimately show ?thesis by (simp add: read_from_internal_position_def fe(1) del: One_nat_def)
qed

lemma compare_field:
  assumes "tree_repr t st" "valid_node (tree_order t) n" "0 < v" "v \<le> field_width (tree_order t) n"
  shows "compare_with_internal_position (buddy_tree_bits t) (field_pos (tree_order t) n) v = (v \<le> st n)"
proof -
  let ?l = "field_loc (tree_order t) n"
  have "bitset_bit (buddy_tree_bits t) (?l + (v - 1)) = (v - 1 < st n)"
    using assms by (intro tree_reprD(6)) simp_all
  moreover have "?l + v - 1 = ?l + (v - 1)" using assms(3) by simp
  moreover have "v - 1 < st n \<longleftrightarrow> v \<le> st n" using assms(3) by auto
  ultimately show ?thesis
    using field_end(1) [OF tree_reprD(2) [OF assms(1)] assms(2-4)]
    by (simp add: compare_with_internal_position_def bitset_simps)
qed

text \<open>A write to a field changes the bits of the field and no byte outside the bitset.\<close>

lemma write_field_bits:
  assumes "ord \<le> 60" "valid_node ord n" "v \<le> field_width ord n"
  shows "bitset_bit (write_to_internal_position bs (field_pos ord n) v) i =
    (if field_loc ord n \<le> i \<and> i < field_loc ord n + field_width ord n
     then i < field_loc ord n + v else bitset_bit bs i)"
proof -
  let ?l = "field_loc ord n" and ?w = "field_width ord n"
  have w: "0 < ?w" using assms(2) by (rule field_width_pos)
  note fe = field_end [OF assms(1,2) w order_refl]
  have clear: "bitset_bit (bitset_clear_range bs ?l (?l + ?w - 1)) i =
      (bitset_bit bs i \<and> \<not> (?l \<le> i \<and> i < ?l + ?w))"
    using fe(2) w by (subst bitset_clear_range_bit) auto
  show ?thesis
  proof (cases "v = 0")
    case True
    then show ?thesis using clear by (auto simp: write_to_internal_position_def fe(1) simp del: One_nat_def)
  next
    case False
    note fv = field_end [OF assms(1,2) _ assms(3)]
    have "bitset_bit (bitset_set_range bs' ?l (?l + v - 1)) i =
        (bitset_bit bs' i \<or> ?l \<le> i \<and> i < ?l + v)" for bs'
      using fv(2) False by (subst bitset_set_range_bit) auto
    then show ?thesis using clear False assms(3)
      by (auto simp: write_to_internal_position_def fe(1) fv(1) simp del: One_nat_def)
  qed
qed

lemma write_field_frame:
  assumes "ord \<le> 60" "valid_node ord n" "v \<le> field_width ord n" "(tree_bits ord + 7) div 8 \<le> b"
  shows "write_to_internal_position bs (field_pos ord n) v b = bs b"
proof -
  let ?l = "field_loc ord n" and ?w = "field_width ord n"
  have w: "0 < ?w" using assms(2) by (rule field_width_pos)
  have "(?l + u - 1) div 8 < b" if "0 < u" "u \<le> ?w" for u
    using field_in_tree [OF assms(2)] that assms(4) by linarith
  moreover have "sub64 (add64 ?l u) 1 = ?l + u - 1" "?l + u - 1 < 2 ^ 64" if "0 < u" "u \<le> ?w" for u
    using field_end [OF assms(1,2) that] by simp_all
  ultimately show ?thesis
    using w assms(3) by (cases "v = 0") (simp_all add: write_to_internal_position_def bitset_range_frame del: One_nat_def)
qed

lemma write_field:
  assumes "tree_repr t st" "valid_node (tree_order t) n" "v \<le> field_width (tree_order t) n"
  shows "tree_repr (t\<lparr>buddy_tree_bits :=
    write_to_internal_position (buddy_tree_bits t) (field_pos (tree_order t) n) v\<rparr>) (st(n := v))"
proof -
  let ?o = "tree_order t"
  let ?bs = "write_to_internal_position (buddy_tree_bits t) (field_pos ?o n) v"
  have ord: "?o \<le> 60" using tree_reprD(2) [OF assms(1)] .
  note bits = write_field_bits [OF ord assms(2,3)]
  have "load64 ?bs (8 * (table_offset ?o + i)) = load64 (buddy_tree_bits t) (8 * (table_offset ?o + i))" for i
  proof (rule load64_cong)
    fix b assume "8 * (table_offset ?o + i) \<le> b"
    moreover have "(tree_bits ?o + 7) div 8 \<le> 8 * table_offset ?o"
      using ord unfolding table_offset_def by (simp add: padded_bitset_size_eq)
    ultimately show "?bs b = buddy_tree_bits t b"
      using write_field_frame [OF ord assms(2,3)] by simp
  qed
  then have "tree_header_ok (t\<lparr>buddy_tree_bits := ?bs\<rparr>)"
    using tree_reprD(1) [OF assms(1)] by (simp add: tree_header_ok_def)
  moreover have "bitset_bit ?bs (field_loc ?o m + i) = (i < (st(n := v)) m)"
    if m: "valid_node ?o m" "i < field_width ?o m" for m i
  proof (cases "m = n")
    case True
    then show ?thesis using m bits by simp
  next
    case False
    have "\<not> (field_loc ?o n \<le> field_loc ?o m + i \<and> field_loc ?o m + i < field_loc ?o n + field_width ?o n)"
    proof
      assume a: "field_loc ?o n \<le> field_loc ?o m + i \<and> field_loc ?o m + i < field_loc ?o n + field_width ?o n"
      then obtain j where "field_loc ?o m + i = field_loc ?o n + j" "j < field_width ?o n"
        by (metis le_Suc_ex nat_add_left_cancel_less)
      then show False
        using fields_disjoint [of n m j ?o i] m assms(2) False by (auto simp: valid_node_def)
    qed
    then show ?thesis using bits False tree_reprD(6) [OF assms(1) m] by auto
  qed
  ultimately show ?thesis
    using assms(3) tree_reprD(5) [OF assms(1)] by (simp add: tree_repr_def)
qed

end
