(* ===== verification/Buddy_Status.thy ===== *)
theory Buddy_Status
  imports Buddy_Layout
begin

text \<open>
  The abstract buddy tree: a status for each node, without the bitset. The status of a node is
  the least relative depth at which a block below it is wholly free, and the width of its
  field (one more than the relative depth of the leaves) when there is none. A node is
  allocated when its status is full and nothing below it is. The theory gives the invariant,
  the operations on statuses the code implements, and what they do to the set of allocated
  nodes.
\<close>

section \<open>Ancestors\<close>

definition ancestor :: "nat \<Rightarrow> nat \<Rightarrow> bool" where
  "ancestor a n \<longleftrightarrow> (\<exists>k. a = n div 2 ^ k)"

lemma ancestor_refl [simp]: "ancestor n n"
  unfolding ancestor_def by (rule exI [of _ 0]) simp

lemma ancestor_parent: "ancestor a (n div 2) \<Longrightarrow> ancestor a n"
  unfolding ancestor_def by (metis div_mult2_eq power_Suc)

lemma ancestor_cases: "ancestor a n \<Longrightarrow> a \<noteq> n \<Longrightarrow> ancestor a (n div 2)"
proof -
  assume "ancestor a n" "a \<noteq> n"
  then obtain k where k: "a = n div 2 ^ k" "k \<noteq> 0" unfolding ancestor_def by (metis div_by_1 power_0)
  then obtain j where "k = Suc j" by (cases k) auto
  with k(1) show ?thesis unfolding ancestor_def by (metis div_mult2_eq power_Suc)
qed

lemma ancestor_iff: "ancestor a n \<longleftrightarrow> a = n \<or> ancestor a (n div 2)"
  by (metis ancestor_refl ancestor_cases ancestor_parent)

lemma ancestor_le: "ancestor a n \<Longrightarrow> a \<le> n"
  by (auto simp: ancestor_def)

lemma ancestor_trans: "ancestor a b \<Longrightarrow> ancestor b c \<Longrightarrow> ancestor a c"
  unfolding ancestor_def by (metis div_mult2_eq power_add)

text \<open>Two ancestors of the same node are ancestors of each other, one way or the other.\<close>

lemma ancestors_linear: "ancestor a n \<Longrightarrow> ancestor b n \<Longrightarrow> ancestor a b \<or> ancestor b a"
proof -
  assume "ancestor a n" "ancestor b n"
  then obtain j k where jk: "a = n div 2 ^ j" "b = n div 2 ^ k" by (auto simp: ancestor_def)
  have "n div 2 ^ (j + i) = n div 2 ^ j div 2 ^ i" for i j by (simp add: div_mult2_eq power_add)
  then show ?thesis using jk unfolding ancestor_def by (metis le_Suc_ex nat_le_linear)
qed

lemma not_ancestor_parent: "valid_node ord n \<Longrightarrow> \<not> ancestor n (n div 2)"
proof
  assume "valid_node ord n" "ancestor n (n div 2)"
  then have "0 < n" "n \<le> n div 2" using ancestor_le by (simp_all add: valid_node_def)
  then show False by linarith
qed

lemma parent_of_child [simp]: "Suc (2 * n) div 2 = n"
  by simp

lemma node_cases_parent: "n = 2 * (n div 2) \<or> n = Suc (2 * (n div 2))"
  by linarith

section \<open>Statuses\<close>

type_synonym statuses = "nat \<Rightarrow> nat"

definition parent_status :: "nat \<Rightarrow> nat \<Rightarrow> nat" where
  "parent_status l r = (if l = 0 \<and> r = 0 then 0 else min l r + 1)"

definition leaf_node :: "nat \<Rightarrow> nat \<Rightarrow> bool" where
  "leaf_node ord n \<longleftrightarrow> Suc (level n) = ord"

definition childless :: "nat \<Rightarrow> statuses \<Rightarrow> nat \<Rightarrow> bool" where
  "childless ord st n \<longleftrightarrow> leaf_node ord n \<or> st (2 * n) = 0 \<and> st (Suc (2 * n)) = 0"

definition node_ok :: "nat \<Rightarrow> statuses \<Rightarrow> nat \<Rightarrow> bool" where
  "node_ok ord st n \<longleftrightarrow>
     (if childless ord st n then st n = 0 \<or> st n = field_width ord n
      else st n = min (st (2 * n)) (st (Suc (2 * n))) + 1)"

definition tree_inv :: "nat \<Rightarrow> statuses \<Rightarrow> bool" where
  "tree_inv ord st \<longleftrightarrow> (\<forall>n. valid_node ord n \<longrightarrow> node_ok ord st n)"

definition bounded :: "nat \<Rightarrow> statuses \<Rightarrow> bool" where
  "bounded ord st \<longleftrightarrow> (\<forall>n. valid_node ord n \<longrightarrow> st n \<le> field_width ord n)"

definition allocated :: "nat \<Rightarrow> statuses \<Rightarrow> nat set" where
  "allocated ord st = {n. valid_node ord n \<and> st n = field_width ord n \<and> childless ord st n}"

lemma tree_invD: "tree_inv ord st \<Longrightarrow> valid_node ord n \<Longrightarrow> node_ok ord st n"
  by (simp add: tree_inv_def)

lemma field_width_child:
  "0 < n \<Longrightarrow> \<not> leaf_node ord n \<Longrightarrow> level n < ord \<Longrightarrow>
    field_width ord n = Suc (field_width ord (2 * n)) \<and> field_width ord n = Suc (field_width ord (Suc (2 * n)))"
  by (auto simp: field_width_def leaf_node_def)

lemma field_width_parent:
  "valid_node ord n \<Longrightarrow> 1 < n \<Longrightarrow> field_width ord (n div 2) = Suc (field_width ord n)"
  using level_parent [of n] level_less [of ord n] by (simp add: field_width_def)

lemma parent_not_leaf: "valid_node ord n \<Longrightarrow> 1 < n \<Longrightarrow> \<not> leaf_node ord (n div 2)"
  using level_parent [of n] level_less [of ord n] by (simp add: leaf_node_def)

lemma leaf_width: "leaf_node ord n \<Longrightarrow> field_width ord n = 1"
  by (auto simp: leaf_node_def field_width_def)

lemma childless_parent:
  assumes "valid_node ord n" "1 < n"
  shows "childless ord st (n div 2) \<Longrightarrow> st n = 0"
  using parent_not_leaf [OF assms] node_cases_parent [of n] by (auto simp: childless_def)

text \<open>A node of status 0 has only nodes of status 0 below it.\<close>

lemma zero_below:
  assumes "tree_inv ord st" "valid_node ord n" "ancestor a n" "0 < a" "st a = 0"
  shows "st n = 0"
  using assms(2,3)
proof (induction n rule: less_induct)
  case (less n)
  show ?case
  proof (cases "a = n")
    case True
    then show ?thesis using assms by simp
  next
    case False
    then have anc: "ancestor a (n div 2)" using less.prems ancestor_cases by blast
    then have n: "1 < n" using ancestor_le [OF anc] assms(4) by linarith
    then have v: "valid_node ord (n div 2)" using less.prems valid_parent by blast
    have "st (n div 2) = 0" using less.IH [OF _ v anc] n by simp
    then have "childless ord st (n div 2)"
      using tree_invD [OF assms(1) v] by (auto simp: node_ok_def split: if_splits)
    then show ?thesis using childless_parent less.prems n by blast
  qed
qed

lemma allocated_zero_below:
  assumes "tree_inv ord st" "a \<in> allocated ord st" "valid_node ord n" "ancestor a n" "a \<noteq> n"
  shows "st n = 0"
  using assms(3-)
proof (induction n rule: less_induct)
  case (less n)
  have a: "0 < a" using assms(2) by (simp add: allocated_def valid_node_def)
  have anc: "ancestor a (n div 2)" using less.prems ancestor_cases by blast
  then have n: "1 < n" using ancestor_le [OF anc] a by linarith
  then have v: "valid_node ord (n div 2)" using less.prems valid_parent by blast
  have "childless ord st (n div 2)"
  proof (cases "a = n div 2")
    case True
    then show ?thesis using assms(2) by (simp add: allocated_def)
  next
    case False
    then have "st (n div 2) = 0" using less.IH [OF _ v anc] n by simp
    then show ?thesis using tree_invD [OF assms(1) v] by (auto simp: node_ok_def split: if_splits)
  qed
  then show ?case using childless_parent less.prems n by blast
qed

text \<open>No allocated node lies below another.\<close>

lemma allocated_antichain:
  assumes "tree_inv ord st" "a \<in> allocated ord st" "b \<in> allocated ord st" "ancestor a b"
  shows "a = b"
proof (rule ccontr)
  assume "a \<noteq> b"
  moreover have b: "valid_node ord b" "st b = field_width ord b" using assms(3) by (simp_all add: allocated_def)
  ultimately have "st b = 0" using allocated_zero_below [OF assms(1,2) _ assms(4)] by simp
  then show False using b field_width_pos [of ord b] by simp
qed

text \<open>Below a node of status other than 0 something is allocated.\<close>

lemma nonzero_allocated_below:
  assumes "tree_inv ord st" "valid_node ord n" "st n \<noteq> 0"
  shows "\<exists>m \<in> allocated ord st. ancestor n m"
  using assms(2,3)
proof (induction "ord - level n" arbitrary: n rule: less_induct)
  case less
  note ok = tree_invD [OF assms(1) less.prems(1)]
  show ?case
  proof (cases "childless ord st n")
    case True
    then have "n \<in> allocated ord st" using ok less.prems by (auto simp: allocated_def node_ok_def)
    then show ?thesis by (intro bexI [of _ n]) simp_all
  next
    case False
    have n: "0 < n" "level n < ord" using less.prems level_less by (auto simp: valid_node_def)
    with False have sl: "Suc (level n) < ord" by (auto simp: childless_def leaf_node_def)
    obtain c where c: "c = 2 * n \<or> c = Suc (2 * n)" "st c \<noteq> 0" using False by (auto simp: childless_def)
    then have "valid_node ord c" "level c = Suc (level n)" "c div 2 = n"
      using valid_children [OF less.prems(1) sl] n by auto
    moreover from this(2) have "ord - level c < ord - level n" using n by simp
    ultimately obtain m where "m \<in> allocated ord st" "ancestor c m"
      using less.hyps [of c] c(2) by blast
    moreover have "ancestor n c" using \<open>c div 2 = n\<close> ancestor_parent [of n c] by simp
    ultimately show ?thesis using ancestor_trans by blast
  qed
qed

text \<open>A full node with a child of status 0 is allocated.\<close>

lemma full_zero_child_allocated:
  assumes "tree_inv ord st" "valid_node ord c" "1 < c" "st c = 0" "st (c div 2) = field_width ord (c div 2)"
  shows "c div 2 \<in> allocated ord st"
proof -
  note vp = valid_parent [OF assms(2,3)]
  have "childless ord st (c div 2)"
  proof (rule ccontr)
    assume "\<not> childless ord st (c div 2)"
    then have "st (c div 2) = min (st (2 * (c div 2))) (st (Suc (2 * (c div 2)))) + 1"
      using tree_invD [OF assms(1) vp] by (simp add: node_ok_def)
    then have "st (c div 2) = 1" using node_cases_parent [of c] assms(4) by auto
    then show False using assms(5) field_width_parent [OF assms(2,3)] field_width_pos [OF assms(2)] by simp
  qed
  then show ?thesis using assms(5) vp by (simp add: allocated_def)
qed

text \<open>Two nodes are in each other's way when one lies below the other.\<close>

definition clash :: "nat \<Rightarrow> nat \<Rightarrow> bool" where
  "clash a b \<longleftrightarrow> ancestor a b \<or> ancestor b a"

definition available :: "nat \<Rightarrow> statuses \<Rightarrow> nat \<Rightarrow> bool" where
  "available ord st n \<longleftrightarrow> (\<forall>m \<in> allocated ord st. \<not> clash m n)"

lemma available_iff:
  assumes "tree_inv ord st" "valid_node ord n"
  shows "available ord st n \<longleftrightarrow> st n = 0 \<and> (\<forall>a \<in> allocated ord st. \<not> ancestor a n)"
proof
  assume "available ord st n"
  then show "st n = 0 \<and> (\<forall>a \<in> allocated ord st. \<not> ancestor a n)"
    using nonzero_allocated_below [OF assms] by (auto simp: available_def clash_def)
next
  assume a: "st n = 0 \<and> (\<forall>a \<in> allocated ord st. \<not> ancestor a n)"
  have "\<not> ancestor n m" if m: "m \<in> allocated ord st" for m
  proof
    assume "ancestor n m"
    moreover have "valid_node ord m" "0 < n" using m assms(2) by (simp_all add: allocated_def valid_node_def)
    ultimately have "st m = 0" using zero_below [OF assms(1)] a by blast
    then show False using m field_width_pos [of ord m] by (simp add: allocated_def)
  qed
  with a show "available ord st n" by (auto simp: available_def clash_def)
qed

section \<open>Operations on statuses\<close>

text \<open>Recompute the ancestors of a node until one has the status it should have.\<close>

fun chain :: "statuses \<Rightarrow> nat \<Rightarrow> statuses" where
  "chain st n =
     (if n \<le> 1 then st
      else let p = n div 2; s = parent_status (st (2 * p)) (st (Suc (2 * p)))
           in if s = st p then st else chain (st(p := s)) p)"

declare chain.simps [simp del]

definition mark_node :: "nat \<Rightarrow> statuses \<Rightarrow> nat \<Rightarrow> statuses" where
  "mark_node ord st n = chain (st(n := field_width ord n)) n"

definition release_node :: "nat \<Rightarrow> statuses \<Rightarrow> nat \<Rightarrow> statuses" where
  "release_node ord st n =
     (if st n \<noteq> field_width ord n then st else chain (st(n := 0)) n)"

definition ok_except :: "nat \<Rightarrow> statuses \<Rightarrow> nat \<Rightarrow> bool" where
  "ok_except ord st p \<longleftrightarrow> (\<forall>m. valid_node ord m \<longrightarrow> m \<noteq> p \<longrightarrow> node_ok ord st m)"

lemma node_ok_upd:
  "m \<noteq> p \<Longrightarrow> m \<noteq> p div 2 \<Longrightarrow> node_ok ord (st(p := s)) m = node_ok ord st m"
  by (auto simp: node_ok_def childless_def)

lemma childless_upd: "m \<noteq> p div 2 \<Longrightarrow> childless ord (st(p := s)) m = childless ord st m"
  by (auto simp: childless_def)

lemma childless_upd_self: "0 < p \<Longrightarrow> childless ord (st(p := s)) p = childless ord st p"
  by (auto simp: childless_def)

lemma node_ok_parent_status:
  assumes "\<not> leaf_node ord p" "0 < p"
  shows "node_ok ord (st(p := parent_status (st (2 * p)) (st (Suc (2 * p))))) p"
  using assms by (auto simp: node_ok_def childless_def parent_status_def)

lemma ok_except_step:
  assumes "ok_except ord st p" "\<not> leaf_node ord p" "0 < p"
  shows "ok_except ord (st(p := parent_status (st (2 * p)) (st (Suc (2 * p))))) (p div 2)"
  unfolding ok_except_def
proof (intro allI impI)
  fix m assume m: "valid_node ord m" "m \<noteq> p div 2"
  show "node_ok ord (st(p := parent_status (st (2 * p)) (st (Suc (2 * p))))) m"
  proof (cases "m = p")
    case True
    then show ?thesis using node_ok_parent_status assms by simp
  next
    case False
    then show ?thesis using assms(1) m node_ok_upd [of m p] by (simp add: ok_except_def)
  qed
qed

lemma ok_except_root: "ok_except ord st 0 \<longleftrightarrow> tree_inv ord st"
  by (auto simp: ok_except_def tree_inv_def valid_node_def)

lemma chain_inv:
  assumes "valid_node ord n" "ok_except ord st (n div 2)"
  shows "tree_inv ord (chain st n)"
  using assms
proof (induction st n rule: chain.induct)
  case (1 st n)
  show ?case
  proof (cases "n \<le> 1")
    case True
    then have "n div 2 = 0" by linarith
    then show ?thesis using "1.prems" True by (simp add: chain.simps [of st n] ok_except_root)
  next
    case False
    let ?p = "n div 2"
    let ?s = "parent_status (st (2 * ?p)) (st (Suc (2 * ?p)))"
    have n: "1 < n" using False by simp
    note p = valid_parent [OF "1.prems"(1) n] parent_not_leaf [OF "1.prems"(1) n]
    have p0: "0 < ?p" using p(1) by (simp add: valid_node_def)
    show ?thesis
    proof (cases "?s = st ?p")
      case True
      have "node_ok ord st ?p" using node_ok_parent_status [OF p(2) p0, of st] True by simp
      then have "tree_inv ord st" using "1.prems"(2) by (auto simp: ok_except_def tree_inv_def)
      then show ?thesis using False True by (simp add: chain.simps [of st n] Let_def)
    next
      case F2: False
      have "tree_inv ord (chain (st(?p := ?s)) ?p)"
        using "1.IH" [OF False refl refl F2 p(1)] ok_except_step [OF "1.prems"(2) p(2) p0] by blast
      then show ?thesis using False F2 by (simp add: chain.simps [of st n] Let_def)
    qed
  qed
qed

text \<open>Recomputing the ancestors does not change which nodes are allocated.\<close>

lemma chain_step_allocated:
  assumes "ok_except ord st p" "valid_node ord p" "\<not> leaf_node ord p"
    and "\<forall>a \<in> allocated ord st. \<not> ancestor a p"
    and s: "s = parent_status (st (2 * p)) (st (Suc (2 * p)))" "s \<noteq> st p"
  shows "allocated ord (st(p := s)) = allocated ord st"
proof -
  have p0: "0 < p" using assms(2) by (simp add: valid_node_def)
  have "p \<notin> allocated ord st" using assms(4) by fastforce
  moreover have "p \<notin> allocated ord (st(p := s))"
    using field_width_pos [OF assms(2)] assms(3) p0 s(1)
    by (auto simp: allocated_def childless_def parent_status_def)
  moreover have "(m \<in> allocated ord (st(p := s))) = (m \<in> allocated ord st)"
    if "m \<noteq> p" "m \<noteq> p div 2" for m
    using that by (simp add: allocated_def childless_upd)
  moreover have "p div 2 \<notin> allocated ord st" using assms(4) ancestor_parent [of "p div 2" p] by auto
  moreover have "p div 2 \<notin> allocated ord (st(p := s))" if p1: "1 < p"
  proof
    assume a: "p div 2 \<in> allocated ord (st(p := s))"
    let ?q = "p div 2"
    have v: "valid_node ord ?q" using valid_parent assms(2) p1 by blast
    have w: "st ?q = field_width ord ?q" "childless ord (st(p := s)) ?q"
      using a p1 by (auto simp: allocated_def split: if_splits)
    note nl = parent_not_leaf [OF assms(2) p1]
    have "s = 0" using childless_parent [OF assms(2) p1 w(2)] by simp
    then have sp: "st p \<noteq> 0" using s(2) by simp
    have "st (2 * ?q) = 0 \<or> st (Suc (2 * ?q)) = 0"
      using w(2) nl node_cases_parent [of p] by (auto simp: childless_def split: if_splits)
    moreover have nc: "\<not> childless ord st ?q" using sp childless_parent [OF assms(2) p1, of st] by auto
    moreover have "node_ok ord st ?q" using assms(1) v p1 by (simp add: ok_except_def)
    ultimately have "st ?q = 1" by (auto simp: node_ok_def)
    then have "field_width ord ?q = 1" using w by simp
    then show False using field_width_parent [OF assms(2) p1] field_width_pos [OF assms(2)] by simp
  qed
  moreover have "p div 2 \<notin> allocated ord (st(p := s))" if "\<not> 1 < p"
    using that by (auto simp: allocated_def valid_node_def)
  ultimately show ?thesis by (intro set_eqI) metis
qed

lemma chain_allocated:
  assumes "valid_node ord n" "ok_except ord st (n div 2)"
    and "\<forall>a \<in> allocated ord st. \<not> ancestor a (n div 2)"
  shows "allocated ord (chain st n) = allocated ord st"
  using assms
proof (induction st n rule: chain.induct)
  case (1 st n)
  show ?case
  proof (cases "n \<le> 1 \<or> parent_status (st (2 * (n div 2))) (st (Suc (2 * (n div 2)))) = st (n div 2)")
    case True
    then have "chain st n = st" by (subst chain.simps) (auto simp: Let_def)
    then show ?thesis by simp
  next
    case False
    let ?p = "n div 2"
    let ?s = "parent_status (st (2 * ?p)) (st (Suc (2 * ?p)))"
    have n: "1 < n" and nle: "\<not> n \<le> 1" and ne: "?s \<noteq> st ?p" using False by simp_all
    note p = valid_parent [OF "1.prems"(1) n] parent_not_leaf [OF "1.prems"(1) n]
    have p0: "0 < ?p" using p(1) by (simp add: valid_node_def)
    have eq: "allocated ord (st(?p := ?s)) = allocated ord st"
      using chain_step_allocated [OF "1.prems"(2) p "1.prems"(3) refl ne] .
    have "allocated ord (chain (st(?p := ?s)) ?p) = allocated ord (st(?p := ?s))"
      using "1.IH" [OF nle refl refl ne p(1)] ok_except_step [OF "1.prems"(2) p(2) p0]
        "1.prems"(3) eq ancestor_parent by blast
    then show ?thesis using eq nle ne by (simp add: chain.simps [of st n] Let_def)
  qed
qed

lemma chain_bounded:
  "valid_node ord n \<Longrightarrow> bounded ord st \<Longrightarrow> bounded ord (chain st n)"
proof (induction st n rule: chain.induct)
  case (1 st n)
  show ?case
  proof (cases "n \<le> 1 \<or> parent_status (st (2 * (n div 2))) (st (Suc (2 * (n div 2)))) = st (n div 2)")
    case True
    then have "chain st n = st" by (subst chain.simps) (auto simp: Let_def)
    then show ?thesis using "1.prems" by simp
  next
    case False
    let ?p = "n div 2"
    let ?s = "parent_status (st (2 * ?p)) (st (Suc (2 * ?p)))"
    have n: "1 < n" and nle: "\<not> n \<le> 1" and ne: "?s \<noteq> st ?p" using False by simp_all
    note p = valid_parent [OF "1.prems"(1) n]
    have "st n \<le> field_width ord n" using "1.prems" by (simp add: bounded_def)
    then have "?s \<le> Suc (field_width ord n)"
      using node_cases_parent [of n] by (auto simp: parent_status_def min_def split: if_splits)
    then have "bounded ord (st(?p := ?s))"
      using "1.prems" field_width_parent [OF "1.prems"(1) n] by (simp add: bounded_def)
    then have "bounded ord (chain (st(?p := ?s)) ?p)" using "1.IH" [OF nle refl refl ne p] by blast
    then show ?thesis using nle ne by (simp add: chain.simps [of st n] Let_def)
  qed
qed

lemma ok_except_upd:
  assumes "tree_inv ord st" "valid_node ord n" "childless ord st n" "s = 0 \<or> s = field_width ord n"
  shows "ok_except ord (st(n := s)) (n div 2)"
  unfolding ok_except_def
proof (intro allI impI)
  fix m assume m: "valid_node ord m" "m \<noteq> n div 2"
  have n: "0 < n" using assms(2) by (simp add: valid_node_def)
  show "node_ok ord (st(n := s)) m"
  proof (cases "m = n")
    case True
    then show ?thesis using assms(3,4) childless_upd_self [OF n] by (auto simp: node_ok_def)
  next
    case False
    then show ?thesis using m node_ok_upd [of m n] tree_invD [OF assms(1)] by simp
  qed
qed

lemma zero_childless: "tree_inv ord st \<Longrightarrow> valid_node ord n \<Longrightarrow> st n = 0 \<Longrightarrow> childless ord st n"
  using tree_invD [of ord st n] by (auto simp: node_ok_def split: if_splits)

lemma mark_allocated_upd:
  assumes "tree_inv ord st" "valid_node ord n" "st n = 0" "\<forall>a \<in> allocated ord st. \<not> ancestor a n"
  shows "allocated ord (st(n := field_width ord n)) = insert n (allocated ord st)"
proof -
  have n: "0 < n" using assms(2) by (simp add: valid_node_def)
  have "n \<in> allocated ord (st(n := field_width ord n))"
    using assms(2) zero_childless [OF assms(1-3)] childless_upd_self [OF n] by (auto simp: allocated_def)
  moreover have "(m \<in> allocated ord (st(n := field_width ord n))) = (m \<in> allocated ord st)"
    if "m \<noteq> n" "m \<noteq> n div 2" for m
    using that by (simp add: allocated_def childless_upd)
  moreover have "n div 2 \<notin> allocated ord st" using assms(4) ancestor_parent [of "n div 2" n] by auto
  moreover have "n div 2 \<notin> allocated ord (st(n := field_width ord n))"
  proof (cases "1 < n")
    case True
    have "\<not> childless ord (st(n := field_width ord n)) (n div 2)"
      using childless_parent [OF assms(2) True, of "st(n := field_width ord n)"]
        field_width_pos [OF assms(2)] by auto
    then show ?thesis by (simp add: allocated_def)
  qed (auto simp: allocated_def valid_node_def)
  ultimately show ?thesis by (intro set_eqI) (metis insert_iff)
qed

text \<open>Marking an available node allocates it and nothing else.\<close>

lemma mark_node_spec:
  assumes "tree_inv ord st" "valid_node ord n" "available ord st n"
  shows "tree_inv ord (mark_node ord st n)"
    and "allocated ord (mark_node ord st n) = insert n (allocated ord st)"
proof -
  have z: "st n = 0" "\<forall>a \<in> allocated ord st. \<not> ancestor a n"
    using available_iff [OF assms(1,2)] assms(3) by auto
  have ok: "ok_except ord (st(n := field_width ord n)) (n div 2)"
    using ok_except_upd [OF assms(1,2) zero_childless [OF assms(1,2) z(1)]] by simp
  show "tree_inv ord (mark_node ord st n)" unfolding mark_node_def by (rule chain_inv [OF assms(2) ok])
  have eq: "allocated ord (st(n := field_width ord n)) = insert n (allocated ord st)"
    by (rule mark_allocated_upd [OF assms(1,2) z])
  have "\<not> ancestor n (n div 2)" using assms(2) by (rule not_ancestor_parent)
  then have "\<forall>a \<in> allocated ord (st(n := field_width ord n)). \<not> ancestor a (n div 2)"
    unfolding eq using z(2) ancestor_parent by blast
  then show "allocated ord (mark_node ord st n) = insert n (allocated ord st)"
    unfolding mark_node_def eq [symmetric] by (rule chain_allocated [OF assms(2) ok])
qed

lemma release_allocated_upd:
  assumes "tree_inv ord st" "n \<in> allocated ord st"
  shows "allocated ord (st(n := 0)) = allocated ord st - {n}"
proof -
  have v: "valid_node ord n" and cl: "childless ord st n" and w: "st n = field_width ord n"
    using assms(2) by (auto simp: allocated_def)
  have "n \<notin> allocated ord (st(n := 0))" using field_width_pos [OF v] by (auto simp: allocated_def)
  moreover have "(m \<in> allocated ord (st(n := 0))) = (m \<in> allocated ord st)"
    if "m \<noteq> n" "m \<noteq> n div 2" for m
    using that by (simp add: allocated_def childless_upd)
  moreover have "n div 2 \<notin> allocated ord st"
  proof
    assume "n div 2 \<in> allocated ord st"
    then have "n div 2 = n" using allocated_antichain [OF assms(1) _ assms(2)] ancestor_parent [of "n div 2" n] by simp
    then show False using not_ancestor_parent [OF v] by simp
  qed
  moreover have "n div 2 \<notin> allocated ord (st(n := 0))"
  proof (cases "1 < n")
    case True
    let ?p = "n div 2"
    show ?thesis
    proof
      assume a: "?p \<in> allocated ord (st(n := 0))"
      have pw: "st ?p = field_width ord ?p" "childless ord (st(n := 0)) ?p"
        using a True by (auto simp: allocated_def split: if_splits)
      have "st (2 * ?p) = 0 \<or> st (Suc (2 * ?p)) = 0"
        using pw(2) parent_not_leaf [OF v True] node_cases_parent [of n]
        by (auto simp: childless_def split: if_splits)
      moreover have "\<not> childless ord st ?p"
        using childless_parent [OF v True, of st] field_width_pos [OF v] w by auto
      moreover have "node_ok ord st ?p" using tree_invD [OF assms(1) valid_parent [OF v True]] .
      ultimately have "st ?p = 1" by (auto simp: node_ok_def)
      then show False using pw(1) field_width_parent [OF v True] field_width_pos [OF v] by simp
    qed
  qed (auto simp: allocated_def valid_node_def)
  ultimately show ?thesis by (intro set_eqI) (metis Diff_iff singletonD singletonI)
qed

text \<open>Releasing an allocated node frees it and nothing else.\<close>

lemma release_node_spec:
  assumes "tree_inv ord st" "n \<in> allocated ord st"
  shows "tree_inv ord (release_node ord st n)"
    and "allocated ord (release_node ord st n) = allocated ord st - {n}"
proof -
  have v: "valid_node ord n" and cl: "childless ord st n" and w: "st n = field_width ord n"
    using assms(2) by (auto simp: allocated_def)
  have ok: "ok_except ord (st(n := 0)) (n div 2)" using ok_except_upd [OF assms(1) v cl] by simp
  have rel: "release_node ord st n = chain (st(n := 0)) n" using w by (simp add: release_node_def)
  show "tree_inv ord (release_node ord st n)" unfolding rel by (rule chain_inv [OF v ok])
  have "\<not> ancestor a (n div 2)" if a: "a \<in> allocated ord st" for a
  proof
    assume anc: "ancestor a (n div 2)"
    then have "a = n" using allocated_antichain [OF assms(1) a assms(2)] ancestor_parent by blast
    then show False using anc not_ancestor_parent [OF v] by simp
  qed
  then have "\<forall>a \<in> allocated ord (st(n := 0)). \<not> ancestor a (n div 2)"
    using release_allocated_upd [OF assms] by blast
  then show "allocated ord (release_node ord st n) = allocated ord st - {n}"
    unfolding rel release_allocated_upd [OF assms, symmetric] by (rule chain_allocated [OF v ok])
qed

lemma release_node_noop: "st n \<noteq> field_width ord n \<Longrightarrow> release_node ord st n = st"
  by (simp add: release_node_def)

section \<open>What a status says\<close>

text \<open>
  If a node at relative depth \<open>level n - level a\<close> below \<open>a\<close> is available, the status of \<open>a\<close>
  is at most that depth.
\<close>

lemma status_le_depth:
  assumes "tree_inv ord st" "valid_node ord n" "available ord st n" "ancestor a n" "0 < a"
  shows "st a + level a \<le> level n"
proof -
  have z: "st n = 0" "\<forall>b \<in> allocated ord st. \<not> ancestor b n"
    using available_iff [OF assms(1,2)] assms(3) by auto
  have "st (n div 2 ^ k) + level (n div 2 ^ k) \<le> level n" if "0 < n div 2 ^ k" for k
    using that
  proof (induction k)
    case (Suc k)
    define c where "c = n div 2 ^ k"
    have p: "n div 2 ^ Suc k = c div 2" unfolding c_def power_Suc2 by (rule div_mult2_eq)
    have c1: "1 < c" using Suc.prems p by linarith
    then have IH: "st c + level c \<le> level n" using Suc.IH by (simp add: c_def)
    have "c \<le> n" by (simp add: c_def)
    then have v: "valid_node ord c" using assms(2) c1 by (simp add: valid_node_def)
    note vp = valid_parent [OF v c1]
    have anc: "ancestor (c div 2) n" unfolding p [symmetric] ancestor_def by blast
    show ?case
    proof (cases "childless ord st (c div 2)")
      case True
      then have "st (c div 2) = 0"
        using tree_invD [OF assms(1) vp] z(2) anc vp by (auto simp: node_ok_def allocated_def)
      then show ?thesis using IH level_parent [OF c1] unfolding p by simp
    next
      case False
      then have "st (c div 2) = min (st (2 * (c div 2))) (st (Suc (2 * (c div 2)))) + 1"
        using tree_invD [OF assms(1) vp] by (simp add: node_ok_def)
      then have "st (c div 2) \<le> st c + 1" using node_cases_parent [of c] by (auto simp: min_def)
      then show ?thesis using IH level_parent [OF c1] unfolding p by simp
    qed
  qed (simp add: z)
  then show ?thesis using assms(4,5) by (auto simp: ancestor_def)
qed

text \<open>A node that is not full has a child from which the search can go on.\<close>

lemma status_child:
  assumes "tree_inv ord st" "valid_node ord n" "\<not> leaf_node ord n"
    and "st n \<le> Suc k" "Suc k < field_width ord n"
  shows "st (2 * n) \<le> k \<or> st (Suc (2 * n)) \<le> k"
proof (cases "childless ord st n")
  case True
  then show ?thesis using assms(3) by (auto simp: childless_def)
next
  case False
  then have "st n = min (st (2 * n)) (st (Suc (2 * n))) + 1"
    using tree_invD [OF assms(1,2)] by (simp add: node_ok_def)
  then show ?thesis using assms(4) by (auto simp: min_def split: if_splits)
qed

end
