(* ===== verification/Buddy_Refine.thy ===== *)
theory Buddy_Refine
  imports Buddy_Status
begin

text \<open>
  The tree operations of the code implement the operations on statuses: initialising,
  marking, releasing and testing a node, and the search for a free node.
\<close>

section \<open>Positions of nodes\<close>

definition sibling :: "nat \<Rightarrow> nat" where
  "sibling n = (if even n then Suc n else n - 1)"

lemma level_64: "valid_node ord n \<Longrightarrow> ord \<le> 60 \<Longrightarrow> level n < 60"
  using level_less [of ord n] by simp

lemma parent_pos_of [pos_simps]:
  "1 < n \<Longrightarrow> level n < 60 \<Longrightarrow> buddy_tree_parent (pos_of n) = pos_of (n div 2)"
  using level_parent [of n] by (simp add: buddy_tree_parent_def pos_of_def wrap_simps)

lemma node_less_64: "level n < 60 \<Longrightarrow> n < 2 ^ 60"
  using level_less_imp_valid [of n 60] by (cases "n = 0") (auto simp: valid_node_def)

lemma left_child_pos_of [pos_simps]:
  "0 < n \<Longrightarrow> level n < 60 \<Longrightarrow> buddy_tree_left_child (pos_of n) = pos_of (2 * n)"
  using node_less_64 [of n] by (simp add: buddy_tree_left_child_def pos_of_def wrap_simps)

lemma right_child_pos_of [pos_simps]:
  "0 < n \<Longrightarrow> level n < 60 \<Longrightarrow> buddy_tree_right_child (pos_of n) = pos_of (Suc (2 * n))"
  using node_less_64 [of n] by (simp add: buddy_tree_right_child_def pos_of_def wrap_simps)

lemma sibling_left_pos_of [pos_simps]:
  assumes "0 < n"
  shows "buddy_tree_sibling (pos_of (2 * n)) = pos_of (Suc (2 * n))"
proof -
  have "(2 * n) XOR 1 = Suc (2 * n)" by (simp add: xor_Suc_0_eq)
  then show ?thesis using assms by (simp add: buddy_tree_sibling_def pos_of_def)
qed

lemma root_pos_of [pos_simps]: "buddy_tree_root = pos_of 1"
  by (simp add: buddy_tree_root_def pos_of_def)

lemma valid_pos_of:
  "tree_header_ok t \<Longrightarrow> buddy_tree_valid t (pos_of n) = valid_node (tree_order t) n"
  by (auto simp: buddy_tree_valid_def pos_of_def valid_node_def tree_header_ok_def)

lemma sibling_same_level:
  assumes "1 < n"
  shows "level (sibling n) = level n" "sibling n div 2 = n div 2" "0 < sibling n"
proof -
  obtain p where p: "n = 2 * p \<or> n = Suc (2 * p)" "0 < p"
    using node_cases_parent [of n] assms by (metis One_nat_def div_greater_zero_iff numeral_2_eq_2 Suc_leI zero_less_numeral)
  then show "level (sibling n) = level n" "sibling n div 2 = n div 2" "0 < sibling n"
    by (auto simp: sibling_def)
qed

lemma sibling_valid: "1 < n \<Longrightarrow> valid_node ord n \<Longrightarrow> valid_node ord (sibling n)"
  using sibling_same_level [of n] level_less [of ord n] by (auto intro: level_less_imp_valid)

lemma sibling_width: "1 < n \<Longrightarrow> field_width ord (sibling n) = field_width ord n"
  by (simp add: field_width_def sibling_same_level)

lemma field_loc_Suc: "0 < p \<Longrightarrow> field_loc ord (Suc (2 * p)) = field_loc ord (2 * p) + field_width ord (2 * p)"
  using level_bounds [of "2 * p"] by (simp add: field_loc_def field_width_def Suc_diff_le)

lemma sibling_field:
  assumes "1 < n" "valid_node ord n" "ord \<le> 60"
  shows "add64 (field_loc ord n) (sub64 (field_width ord n) (mul64 (mul64 2 (field_width ord n)) (n mod 2)))
    = field_loc ord (sibling n)"
proof -
  let ?w = "field_width ord n"
  have w: "?w \<le> 60" using assms(3) by (simp add: field_width_def)
  obtain p where p: "n = 2 * p \<or> n = Suc (2 * p)" "0 < p"
    using node_cases_parent [of n] assms(1) by (metis One_nat_def div_greater_zero_iff numeral_2_eq_2 Suc_leI zero_less_numeral)
  have fits: "field_loc ord n + ?w < 2 ^ 62"
    using field_end(2) [OF assms(3,2) field_width_pos [OF assms(2)]] by simp
  from p(1) show ?thesis
  proof
    assume n: "n = 2 * p"
    then have "sub64 ?w (mul64 (mul64 2 ?w) (n mod 2)) = ?w" using w by (simp add: wrap_simps)
    then show ?thesis using n fits field_loc_Suc [OF p(2), of ord] by (simp add: sibling_def add64_id)
  next
    assume n: "n = Suc (2 * p)"
    then have "mul64 (mul64 2 ?w) (n mod 2) = 2 * ?w" using w by (simp add: wrap_simps)
    then have s: "sub64 ?w (mul64 (mul64 2 ?w) (n mod 2)) = 2 ^ 64 - ?w"
      using w field_width_pos [OF assms(2)] by (simp add: sub64_def wrap64_def)
    have eq: "field_loc ord n = field_loc ord (2 * p) + ?w"
      using field_loc_Suc [OF p(2), of ord] p(2) n by (simp add: field_width_def)
    then have "field_loc ord n + (2 ^ 64 - ?w) = field_loc ord (2 * p) + 2 ^ 64" using w by simp
    then have "add64 (field_loc ord n) (2 ^ 64 - ?w) = field_loc ord (2 * p) mod 2 ^ 64"
      by (simp only: add64_def wrap64_def mod_add_self2)
    also have "\<dots> = field_loc ord (2 * p)" using eq fits by simp
    finally show ?thesis using s n by (simp add: sibling_def)
  qed
qed

section \<open>Marking and releasing\<close>

lemma parent_status_sibling:
  assumes "1 < n"
  shows "parent_status (st (2 * (n div 2))) (st (Suc (2 * (n div 2)))) = parent_status (st n) (st (sibling n))"
  using node_cases_parent [of n] by (cases "even n") (auto simp: sibling_def parent_status_def min.commute)

lemma target_parent_eq:
  "(if a \<noteq> 0 \<or> b \<noteq> 0 then 1 else 0) * ((if a \<le> b then a else b) + 1) = parent_status a (b::nat)"
  by (auto simp: parent_status_def min_def)

lemma update_parent_chain_repr:
  assumes "tree_repr t st" "valid_node (tree_order t) n"
  shows "tree_repr (update_parent_chain t (pos_of n) (field_pos (tree_order t) n) (st n)) (chain st n) \<and>
    tree_order (update_parent_chain t (pos_of n) (field_pos (tree_order t) n) (st n)) = tree_order t"
  using assms
proof (induction n arbitrary: t st rule: less_induct)
  case (less n)
  let ?o = "tree_order t"
  show ?case
  proof (cases "n = 1")
    case True
    then show ?thesis using less.prems by (simp add: update_parent_chain.simps chain.simps pos_of_def)
  next
    case False
    then have n: "1 < n" using less.prems(2) by (auto simp: valid_node_def)
    have ord: "?o \<le> 60" using less.prems(1) by (rule tree_reprD)
    define p where "p = n div 2"
    define s where "s = parent_status (st n) (st (sibling n))"
    have p: "valid_node ?o p" "p < n" using valid_parent [OF less.prems(2) n] n by (auto simp: p_def)
    have lv: "level n < 60" using level_64 [OF less.prems(2) ord] .
    define t' where "t' = t\<lparr>buddy_tree_bits :=
      write_to_internal_position (buddy_tree_bits t) (field_pos ?o p) s\<rparr>"
    have sib: "read_from_internal_position (buddy_tree_bits t)
        \<lparr>local_offset = field_width ?o n, bitset_location = field_loc ?o (sibling n)\<rparr> = st (sibling n)"
      using read_field [OF less.prems(1) sibling_valid [OF n less.prems(2)]] sibling_width [OF n] by simp
    have step: "update_parent_chain t (pos_of n) (field_pos ?o n) (st n) =
      (if s = st p then t else update_parent_chain t' (pos_of p) (field_pos ?o p) s)"
      using n parent_pos_of [OF n lv] sib sibling_field [OF n less.prems(2) ord]
        internal_position_pos_of [OF tree_reprD(1) [OF less.prems(1)] p(1)] read_field [OF less.prems(1) p(1)]
      by (subst update_parent_chain.simps, unfold Let_def target_parent_eq)
        (simp add: s_def t'_def p_def [symmetric], simp add: pos_of_def)
    have cs: "chain st n = (if s = st p then st else chain (st(p := s)) p)"
      using n parent_status_sibling [OF n, of st] by (subst chain.simps) (simp add: Let_def s_def p_def)
    have "s \<le> Suc (field_width ?o n)"
      using tree_reprD(5) [OF less.prems] by (auto simp: s_def parent_status_def)
    then have "s \<le> field_width ?o p" using field_width_parent [OF less.prems(2) n] by (simp add: p_def)
    then have "tree_repr t' (st(p := s))" unfolding t'_def by (rule write_field [OF less.prems(1) p(1)])
    then have "tree_repr (update_parent_chain t' (pos_of p) (field_pos ?o p) s) (chain (st(p := s)) p) \<and>
        tree_order (update_parent_chain t' (pos_of p) (field_pos ?o p) s) = ?o"
      using less.IH [OF p(2), of t' "st(p := s)"] p(1) by (simp add: t'_def fun_upd_same del: fun_upd_apply)
    then show ?thesis using step cs less.prems(1) by simp
  qed
qed

lemma mark_repr:
  assumes "tree_repr t st" "valid_node (tree_order t) n"
  shows "tree_repr (buddy_tree_mark t (pos_of n)) (mark_node (tree_order t) st n)"
    and "tree_order (buddy_tree_mark t (pos_of n)) = tree_order t"
proof -
  let ?o = "tree_order t" and ?w = "field_width (tree_order t) n"
  define t' where "t' = t\<lparr>buddy_tree_bits :=
    write_to_internal_position (buddy_tree_bits t) (field_pos ?o n) ?w\<rparr>"
  have eq: "buddy_tree_mark t (pos_of n) = update_parent_chain t' (pos_of n) (field_pos ?o n) ?w"
    using internal_position_pos_of [OF tree_reprD(1) [OF assms(1)] assms(2)]
    by (simp add: buddy_tree_mark_def t'_def Let_def)
  have "tree_repr t' (st(n := ?w))" unfolding t'_def by (rule write_field [OF assms]) simp
  then show "tree_repr (buddy_tree_mark t (pos_of n)) (mark_node ?o st n)"
    "tree_order (buddy_tree_mark t (pos_of n)) = ?o"
    using update_parent_chain_repr [of t' "st(n := ?w)" n] assms(2) eq
    by (simp_all add: t'_def mark_node_def fun_upd_same del: fun_upd_apply)
qed

lemma release_repr:
  assumes "tree_repr t st" "valid_node (tree_order t) n"
  shows "tree_repr (buddy_tree_release t (pos_of n)) (release_node (tree_order t) st n)"
    and "tree_order (buddy_tree_release t (pos_of n)) = tree_order t"
proof -
  let ?o = "tree_order t" and ?w = "field_width (tree_order t) n"
  define t' where "t' = t\<lparr>buddy_tree_bits :=
    write_to_internal_position (buddy_tree_bits t) (field_pos ?o n) 0\<rparr>"
  have eq: "buddy_tree_release t (pos_of n) =
    (if st n \<noteq> ?w then t else update_parent_chain t' (pos_of n) (field_pos ?o n) 0)"
    using internal_position_pos_of [OF tree_reprD(1) [OF assms(1)] assms(2)] read_field [OF assms]
    by (simp add: buddy_tree_release_def t'_def Let_def)
  have "tree_repr t' (st(n := 0))" unfolding t'_def by (rule write_field [OF assms]) simp
  then show "tree_repr (buddy_tree_release t (pos_of n)) (release_node ?o st n)"
    "tree_order (buddy_tree_release t (pos_of n)) = ?o"
    using update_parent_chain_repr [of t' "st(n := 0)" n] assms eq
    by (simp_all add: t'_def release_node_def fun_upd_same del: fun_upd_apply)
qed

lemma status_repr:
  assumes "tree_repr t st" "valid_node (tree_order t) n"
  shows "buddy_tree_status t (pos_of n) = st n"
  using internal_position_pos_of [OF tree_reprD(1) [OF assms(1)] assms(2)] read_field [OF assms]
  by (simp add: buddy_tree_status_def)

section \<open>Initialisation\<close>

lemma init_off:
  assumes "ord \<le> 60"
  shows "add64 (padded_bitset_size ord div 8) 1 = table_offset ord"
proof -
  have "(tree_bits ord + 7) div 8 \<le> tree_bits ord + 7" by (rule div_le_dividend)
  moreover have "(tree_bits ord + 7) div 8 mod 8 < 8" by simp
  ultimately have "padded_bitset_size ord \<le> tree_bits ord + 15"
    using padded_bitset_size_eq [OF assms] by linarith
  then have "padded_bitset_size ord \<le> 2 ^ 63" using tree_bits_less [OF assms] by simp
  then show ?thesis by (simp add: table_offset_def wrap_simps)
qed

lemma init_bits:
  assumes "ord \<le> 60" "i < tree_bits ord"
  shows "\<not> bitset_bit (buddy_tree_bits (buddy_tree_init mem ord)) i"
proof -
  have "i div 8 < 8 * table_offset ord" by (rule table_behind_bits [OF assms])
  moreover have "24 + 8 * table_offset ord \<le> buddy_tree_sizeof ord"
    using table_in_tree_storage [OF assms(1)] by (simp add: sizeof_buddy_tree_def)
  ultimately have "buddy_tree_bits (buddy_tree_init mem ord) (i div 8) = 0"
    using init_off [OF assms(1)]
    by (simp add: buddy_tree_init_def buddy_tree_populate_size_for_order_def Let_def
        store_size_for_order_other sizeof_buddy_tree_def del: store_size_for_order.simps)
  then show ?thesis by (simp add: bitset_bit_def)
qed

lemma init_repr:
  assumes "1 \<le> ord" "ord \<le> 60"
  shows "tree_repr (buddy_tree_init mem ord) (\<lambda>_. 0)" "tree_order (buddy_tree_init mem ord) = ord"
proof -
  let ?t = "buddy_tree_init mem ord"
  show o: "tree_order ?t = ord"
    by (simp add: buddy_tree_init_def buddy_tree_populate_size_for_order_def Let_def)
  have "load64 (buddy_tree_bits ?t) (8 * (table_offset ord + i)) = row_start ord (ord - i)" if "i \<le> ord" for i
    using load_store_size_for_order [of i "Suc ord" ord _ "table_offset ord"] that assms(2) init_off [OF assms(2)]
    by (simp add: buddy_tree_init_def buddy_tree_populate_size_for_order_def Let_def
        del: distrib_left_numeral store_size_for_order.simps)
  moreover have "two_to_the_power_of ord = 2 ^ ord" using assms by (simp add: two_to_the_power_of_eq)
  ultimately have "tree_header_ok ?t"
    using assms o init_off [OF assms(2)]
    by (simp add: tree_header_ok_def del: distrib_left_numeral)
      (simp add: buddy_tree_init_def buddy_tree_populate_size_for_order_def Let_def)
  moreover have "\<not> bitset_bit (buddy_tree_bits ?t) (field_loc ord n + i)"
    if "valid_node ord n" "i < field_width ord n" for n i
    using init_bits [OF assms(2)] field_in_tree [OF that(1)] that(2) by simp
  ultimately show "tree_repr ?t (\<lambda>_. 0)" using o by (simp add: tree_repr_def)
qed

lemma empty_tree_inv: "tree_inv ord (\<lambda>_. 0)" "allocated ord (\<lambda>_. 0) = {}"
proof -
  show "tree_inv ord (\<lambda>_. 0)" by (simp add: tree_inv_def node_ok_def childless_def)
  show "allocated ord (\<lambda>_. 0) = {}" using field_width_pos [of ord] by (auto simp: allocated_def)
qed

section \<open>Searching\<close>

lemma find_free_choice:
  assumes "tree_repr t st" "tree_inv (tree_order t) st" "valid_node (tree_order t) n"
    and "level n + Suc k < tree_order t" "st n \<le> Suc k"
  obtains c where "c = 2 * n \<or> c = Suc (2 * n)" "st c \<le> k"
    "find_free_step t (pos_of n) k = pos_of c"
proof -
  let ?o = "tree_order t" and ?l = "2 * n" and ?r = "Suc (2 * n)"
  have n: "0 < n" using assms(3) by (simp add: valid_node_def)
  have sl: "Suc (level n) < ?o" using assms(4) by simp
  have ord: "?o \<le> 60" using assms(1) by (rule tree_reprD)
  note v = valid_children [OF assms(3) sl]
  have w: "k + 1 \<le> field_width ?o ?l" "field_width ?o ?r = field_width ?o ?l"
    using assms(4) n by (simp_all add: field_width_def)
  have fits: "field_loc ?o ?l + field_width ?o ?l < 2 ^ 62"
    using field_end(2) [OF ord v(1) field_width_pos [OF v(1)]] by simp
  have r: "add64 (field_loc ?o ?l) (field_width ?o ?l) = field_loc ?o ?r"
    using fits field_loc_Suc [OF n, of ?o] by (simp add: add64_id)
  note L = internal_position_pos_of [OF tree_reprD(1) [OF assms(1)] v(1)]
  note cl = compare_field [OF assms(1) v(1)] and cr = compare_field [OF assms(1) v(2), unfolded w(2)]
    and rr = read_field [OF assms(1) v(2), unfolded w(2)]
  have le: "st ?r \<le> field_width ?o ?l" using tree_reprD(5) [OF assms(1) v(2)] w(2) by simp
  have "Suc k < field_width ?o n" using assms(4) by (simp add: field_width_def)
  then have "st ?l \<le> k \<or> st ?r \<le> k"
    using status_child [OF assms(2,3) _ assms(5)] assms(4) by (simp add: leaf_node_def)
  moreover define c where "c = (if k < st ?l then ?r else if k < st ?r then ?l
    else if st ?r \<noteq> 0 \<and> \<not> st ?r \<le> st ?l then ?r else ?l)"
  ultimately have "c = ?l \<or> c = ?r" "st c \<le> k" by (auto simp: c_def)
  then show ?thesis
    using cl [of "k + 1"] cr [of "k + 1"] cl [of "st ?r"] rr le w(1) L r
    n level_64 [OF assms(3) ord]
    by (intro that [of c]) (simp_all add: find_free_step_def Let_def c_def pos_simps)
qed

lemma low_status_not_allocated:
  "st a + level a < ord \<Longrightarrow> a \<notin> allocated ord st"
  by (auto simp: allocated_def field_width_def)

lemma find_free_loop_spec:
  assumes "tree_repr t st" "tree_inv (tree_order t) st" "valid_node (tree_order t) n"
    and "Suc (level n) \<le> d" "d \<le> tree_order t" "st n \<le> d - Suc (level n)"
  shows "\<exists>m. find_free_loop t d (pos_of n) (Suc (level n)) (d - Suc (level n)) = pos_of m \<and>
    valid_node (tree_order t) m \<and> Suc (level m) = d \<and> ancestor n m \<and> st m = 0 \<and>
    (\<forall>a. ancestor n a \<longrightarrow> ancestor a m \<longrightarrow> a \<notin> allocated (tree_order t) st)"
  using assms(3,4,6)
proof (induction "d - Suc (level n)" arbitrary: n)
  case 0
  then have d: "d = Suc (level n)" by simp
  have "a \<notin> allocated (tree_order t) st" if "ancestor n a" "ancestor a n" for a
  proof -
    have "a = n" using that ancestor_le by (simp add: le_antisym)
    then show ?thesis using low_status_not_allocated [of st n] 0 assms(5) d by simp
  qed
  then show ?case using 0 d by (intro exI [of _ n]) (simp add: find_free_loop.simps)
next
  case (Suc k)
  let ?o = "tree_order t"
  have lk: "d = Suc (Suc (level n + k))" using Suc.hyps(2) by simp
  have ord: "?o \<le> 60" using assms(1) by (rule tree_reprD)
  have n: "0 < n" using Suc.prems(1) by (simp add: valid_node_def)
  have lv: "level n < 60" using level_64 [OF Suc.prems(1) ord] .
  obtain c where c: "c = 2 * n \<or> c = Suc (2 * n)" "st c \<le> k" and
    choice: "find_free_step t (pos_of n) k = pos_of c"
    using find_free_choice [OF assms(1,2) Suc.prems(1), of k] Suc.prems(3) assms(5) lk by auto
  have k: "u8 (Suc k + 255) = k"
    using lk assms(5) ord by (simp add: u8_def)
  have "find_free_loop t d (pos_of n) (Suc (level n)) (Suc k) =
    find_free_loop t d (pos_of c) (Suc (Suc (level n))) k"
    using lk k choice by (subst find_free_loop.simps) (simp add: Let_def)
  moreover have lc: "level c = Suc (level n)" "c div 2 = n" "valid_node ?o c"
    using c(1) n valid_children [OF Suc.prems(1)] assms(5) lk by auto
  ultimately have loop: "find_free_loop t d (pos_of n) (Suc (level n)) (d - Suc (level n)) =
    find_free_loop t d (pos_of c) (Suc (level c)) (d - Suc (level c))"
    using lk by simp
  obtain m where m: "find_free_loop t d (pos_of c) (Suc (level c)) (d - Suc (level c)) = pos_of m"
    "valid_node ?o m" "Suc (level m) = d" "ancestor c m" "st m = 0"
    "\<forall>a. ancestor c a \<longrightarrow> ancestor a m \<longrightarrow> a \<notin> allocated ?o st"
    using Suc.hyps(1) [of c] lc lk c(2) by auto
  have "a \<notin> allocated ?o st" if "ancestor n a" "ancestor a m" for a
  proof (cases "ancestor c a")
    case False
    then have ac: "ancestor a c" using ancestors_linear [OF that(2) m(4)] by simp
    moreover have "a \<noteq> c" using False by auto
    ultimately have "ancestor a n" using ancestor_cases lc(2) by metis
    then have "a = n" using that(1) ancestor_le by (simp add: le_antisym)
    then show ?thesis using low_status_not_allocated [of st n] Suc.prems(3) assms(5) lk by simp
  qed (use m that in blast)
  moreover have "ancestor n m" using m(4) lc(2) ancestor_trans ancestor_parent [of n c] by force
  ultimately show ?case using m loop by (intro exI [of _ m]) simp
qed

lemma root_ancestor: "0 < n \<Longrightarrow> ancestor 1 n"
proof (induction n rule: less_induct)
  case (less n)
  show ?case
  proof (cases "n = 1")
    case False
    then have "0 < n div 2" "n div 2 < n" using less.prems by linarith+
    then show ?thesis using less.IH ancestor_parent by blast
  qed simp
qed

text \<open>
  The search for a node at depth \<open>d\<close> finds an available one whenever there is one, and the
  invalid position otherwise.
\<close>

lemma find_free_spec:
  assumes "tree_repr t st" "tree_inv (tree_order t) st" "1 \<le> d" "d \<le> tree_order t"
  shows "(\<exists>m. buddy_tree_find_free t d = pos_of m \<and> valid_node (tree_order t) m \<and> Suc (level m) = d \<and>
      available (tree_order t) st m) \<or>
    buddy_tree_find_free t d = INVALID_POS \<and>
      (\<forall>m. valid_node (tree_order t) m \<longrightarrow> Suc (level m) = d \<longrightarrow> \<not> available (tree_order t) st m)"
proof -
  let ?o = "tree_order t"
  have ord: "?o \<le> 60" "1 \<le> ?o" using assms(1) by (rule tree_reprD)+
  have v1: "valid_node ?o 1" using ord(2) by (intro level_less_imp_valid) simp_all
  have u: "u8 (d + 255) = d - 1"
  proof -
    obtain k where "d = Suc k" using assms(3) by (cases d) auto
    then show ?thesis using assms(4) ord(1) by (simp add: u8_def)
  qed
  have ff: "buddy_tree_find_free t d =
    (if d - 1 < st 1 then INVALID_POS else find_free_loop t d (pos_of 1) 1 (d - 1))"
    using status_repr [OF assms(1) v1] u
    by (simp add: buddy_tree_find_free_def Let_def pos_simps buddy_tree_depth_def) (simp add: pos_of_def)
  show ?thesis
  proof (cases "d - 1 < st 1")
    case True
    have "\<not> available ?o st m" if m: "valid_node ?o m" "Suc (level m) = d" for m
    proof
      assume "available ?o st m"
      then have "st 1 + level 1 \<le> level m"
        using status_le_depth [OF assms(2) m(1), of 1] root_ancestor [of m] m(1) by (simp add: valid_node_def)
      then show False using True m(2) by simp
    qed
    then show ?thesis using ff True by simp
  next
    case False
    then obtain m where m: "find_free_loop t d (pos_of 1) 1 (d - 1) = pos_of m" "valid_node ?o m"
      "Suc (level m) = d" "st m = 0" "\<forall>a. ancestor 1 a \<longrightarrow> ancestor a m \<longrightarrow> a \<notin> allocated ?o st"
      using find_free_loop_spec [OF assms(1,2) v1, of d] assms(3,4) by auto
    then have "available ?o st m"
      unfolding available_iff [OF assms(2) m(2)]
      using root_ancestor by (auto simp: allocated_def valid_node_def)
    then show ?thesis using ff False m by auto
  qed
qed

section \<open>Testing a node\<close>

text \<open>The first ancestor with a status tells whether an allocated node lies above.\<close>

lemma is_free_loop_spec:
  assumes "tree_repr t st" "tree_inv (tree_order t) st"
    and "valid_node (tree_order t) n" "st n = 0"
  shows "is_free_loop t (buddy_tree_parent (pos_of n)) =
    (\<forall>a \<in> allocated (tree_order t) st. \<not> ancestor a n)"
  using assms(3,4)
proof (induction n rule: less_induct)
  case (less n)
  let ?o = "tree_order t" and ?A = "allocated (tree_order t) st" and ?p = "n div 2"
  have ord: "?o \<le> 60" and hd: "tree_header_ok t" using assms(1) by (rule tree_reprD)+
  have nA: "n \<notin> ?A" using less.prems field_width_pos [OF less.prems(1)] by (auto simp: allocated_def)
  show ?case
  proof (cases "1 < n")
    case False
    then have "n = 1" using less.prems(1) by (simp add: valid_node_def)
    moreover have "\<not> ancestor a 0" if "a \<in> ?A" for a
      using that ancestor_le [of a 0] by (auto simp: allocated_def valid_node_def)
    moreover have "\<not> buddy_tree_valid t (buddy_tree_parent (pos_of 1))"
      by (simp add: buddy_tree_valid_def buddy_tree_parent_def pos_of_def)
    ultimately show ?thesis using nA by (auto simp: is_free_loop.simps ancestor_iff [of _ "Suc 0"])
  next
    case True
    note vp = valid_parent [OF less.prems(1) True]
    have pp: "buddy_tree_parent (pos_of n) = pos_of ?p"
      using True level_64 [OF less.prems(1) ord] by (rule parent_pos_of)
    have loop: "is_free_loop t (pos_of ?p) =
      (if st ?p \<noteq> 0 then st ?p \<noteq> field_width ?o ?p else is_free_loop t (buddy_tree_parent (pos_of ?p)))"
      using valid_pos_of [OF hd] vp internal_position_pos_of [OF hd vp] read_field [OF assms(1) vp]
      by (subst is_free_loop.simps) (simp add: Let_def)
    show ?thesis
    proof (cases "st ?p = 0")
      case z: True
      have "(\<forall>a \<in> ?A. \<not> ancestor a n) = (\<forall>a \<in> ?A. \<not> ancestor a ?p)"
        using nA ancestor_iff [of _ n] by metis
      then show ?thesis using less.IH [OF _ vp z] True loop z by (simp add: pp)
    next
      case nz: False
      have "st ?p = field_width ?o ?p \<longleftrightarrow> ?p \<in> ?A"
        using full_zero_child_allocated [OF assms(2) less.prems(1) True less.prems(2)]
        by (auto simp: allocated_def)
      moreover have "(\<forall>a \<in> ?A. \<not> ancestor a n) \<longleftrightarrow> ?p \<notin> ?A"
      proof
        show "?p \<notin> ?A" if "\<forall>a \<in> ?A. \<not> ancestor a n"
          using that ancestor_parent [of ?p n] by auto
        assume pA: "?p \<notin> ?A"
        show "\<forall>a \<in> ?A. \<not> ancestor a n"
        proof (intro ballI notI)
          fix a assume a: "a \<in> ?A" "ancestor a n"
          then have "ancestor a ?p" using nA ancestor_iff [of a n] by auto
          moreover have "a \<noteq> ?p" using a pA by auto
          ultimately have "st ?p = 0" by (rule allocated_zero_below [OF assms(2) a(1) vp])
          then show False using nz by simp
        qed
      qed
      ultimately show ?thesis using loop nz by (simp add: pp)
    qed
  qed
qed

lemma is_free_spec:
  assumes "tree_repr t st" "tree_inv (tree_order t) st" "valid_node (tree_order t) n"
  shows "buddy_tree_is_free t (pos_of n) = available (tree_order t) st n"
  using status_repr [OF assms(1,3)] is_free_loop_spec [OF assms] available_iff [OF assms(2,3)]
  by (simp add: buddy_tree_is_free_def)

end
