(* ===== verification/Buddy.thy ===== *)
theory Buddy
  imports Buddy_Refine Mem
begin

text \<open>
  The buddy allocator of \<open>src/kernel/mm/buddy.h\<close>: an arena of memory and a tree of statuses.
  \<open>struct buddy\<close> is a record of its fields, of the address it lies at (the embedded mode
  computes the arena from it) and of the tree that follows it in memory. A pointer to it is a
  \<open>buddy option\<close>, \<open>None\<close> the null pointer. Addresses are \<open>nat\<close>, 0 the null pointer. An operation
  returns the updated allocator; the ones that touch the arena's content take and return the
  memory. \<open>None\<close> as a result of an operation stands for a loop that does not end or an access
  that C leaves undefined.
\<close>

section \<open>The allocator\<close>

record buddy =
  buddy_at :: addr
  memory_size :: size_t
  alignment :: size_t
  arena :: addr
  buddy_flags :: size_t
  tree_of :: buddy_tree

definition BUDDY_ALLOC_ALIGN :: size_t where
  "BUDDY_ALLOC_ALIGN = 8 * 8"

definition BUDDY_RELATIVE_MODE :: nat where
  "BUDDY_RELATIVE_MODE = 1"

definition sizeof_buddy :: size_t where
  "sizeof_buddy = 32"

definition alignof_buddy :: size_t where
  "alignof_buddy = 8"

definition is_valid_alignment :: "size_t \<Rightarrow> bool" where
  "is_valid_alignment algn = (ceiling_power_of_two algn = algn)"

definition buddy_tree_order_for_memory :: "size_t \<Rightarrow> size_t \<Rightarrow> size_t" where
  "buddy_tree_order_for_memory ms algn = highest_bit_position (ceiling_power_of_two (ms div algn))"

definition buddy_sizeof_alignment :: "size_t \<Rightarrow> size_t \<Rightarrow> size_t" where
  "buddy_sizeof_alignment ms algn =
     (if \<not> is_valid_alignment algn then 0
      else if ms < algn then 0
      else add64 sizeof_buddy (buddy_tree_sizeof (u8 (buddy_tree_order_for_memory ms algn))))"

definition buddy_sizeof :: "size_t \<Rightarrow> size_t" where
  "buddy_sizeof ms = buddy_sizeof_alignment ms BUDDY_ALLOC_ALIGN"

definition buddy_relative_mode :: "buddy \<Rightarrow> bool" where
  "buddy_relative_mode b = (u32 (buddy_flags b) AND BUDDY_RELATIVE_MODE \<noteq> 0)"

definition buddy_main :: "buddy \<Rightarrow> addr" where
  "buddy_main b = (if buddy_relative_mode b then sub64 (buddy_at b) (arena b) else arena b)"

definition buddy_effective_memory_size :: "buddy \<Rightarrow> size_t" where
  "buddy_effective_memory_size b = ceiling_power_of_two (memory_size b)"

definition size_for_depth :: "buddy \<Rightarrow> size_t \<Rightarrow> size_t" where
  "size_for_depth b depth = shr (ceiling_power_of_two (memory_size b)) (sub64 depth 1)"

function depth_for_size_loop :: "size_t \<Rightarrow> size_t \<Rightarrow> size_t \<Rightarrow> size_t" where
  "depth_for_size_loop effective_memory_size requested_size depth =
     (if shr (effective_memory_size div requested_size) 1 = 0 then depth
      else depth_for_size_loop (shr effective_memory_size 1) requested_size (add64 depth 1))"
  by pat_completeness auto
termination
proof (relation "measure (\<lambda>(effective_memory_size, _, _). effective_memory_size)", goal_cases)
  case (2 e r d)
  then have "0 < e" by (cases "e = 0") auto
  then show ?case by (simp add: shr_less)
qed simp

declare depth_for_size_loop.simps [simp del]

definition depth_for_size :: "buddy \<Rightarrow> size_t \<Rightarrow> size_t" where
  "depth_for_size b requested_size =
     (let requested_size = (if requested_size < alignment b then alignment b else requested_size)
      in depth_for_size_loop (buddy_effective_memory_size b) requested_size 1)"

definition buddy_virtual_slots :: "buddy \<Rightarrow> size_t" where
  "buddy_virtual_slots b =
     (let effective_memory_size = buddy_effective_memory_size b
      in if effective_memory_size = memory_size b then 0
         else sub64 effective_memory_size (memory_size b) div alignment b)"

definition address_for_position :: "buddy \<Rightarrow> buddy_tree_pos \<Rightarrow> addr" where
  "address_for_position b pos =
     (let block_size = size_for_depth b (buddy_tree_depth pos);
          offset = mul64 block_size (buddy_tree_index pos)
      in add64 (buddy_main b) offset)"

definition deepest_position_for_offset :: "buddy \<Rightarrow> size_t \<Rightarrow> buddy_tree_pos" where
  "deepest_position_for_offset b offset =
     (let index = offset div alignment b;
          pos = buddy_tree_leftmost_child (tree_of b)
      in pos\<lparr>pos_index := add64 (pos_index pos) index\<rparr>)"

text \<open>Up from the deepest position until one has a status.\<close>

function position_for_address_loop :: "buddy_tree \<Rightarrow> buddy_tree_pos \<Rightarrow> buddy_tree_pos option" where
  "position_for_address_loop t pos =
     (if buddy_tree_status t pos \<noteq> 0 then Some pos
      else let pos = buddy_tree_parent pos
           in if \<not> buddy_tree_valid t pos then None else position_for_address_loop t pos)"
  by pat_completeness auto
termination
  by (relation "measure (\<lambda>(_, pos). pos_index pos)")
    (auto simp: buddy_tree_parent_def buddy_tree_valid_def)

declare position_for_address_loop.simps [simp del]

definition position_for_address :: "buddy \<Rightarrow> addr \<Rightarrow> buddy_tree_pos" where
  "position_for_address b a =
     (let offset = sub64 a (buddy_main b)
      in if offset mod alignment b \<noteq> 0 then INVALID_POS
         else case position_for_address_loop (tree_of b) (deepest_position_for_offset b offset) of
                None \<Rightarrow> INVALID_POS
              | Some pos \<Rightarrow> if address_for_position b pos \<noteq> a then INVALID_POS else pos)"

section \<open>Virtual slots\<close>

definition toggle :: "bool \<Rightarrow> buddy_tree \<Rightarrow> buddy_tree_pos \<Rightarrow> buddy_tree" where
  "toggle state t pos = (if state then buddy_tree_mark t pos else buddy_tree_release t pos)"

partial_function (option) toggle_virtual_loop ::
  "buddy \<Rightarrow> bool \<Rightarrow> buddy_tree_pos \<Rightarrow> size_t \<Rightarrow> buddy option" where
  "toggle_virtual_loop b state pos delta =
     (if delta = 0 then Some b
      else let current_pos_size = size_for_depth b (buddy_tree_depth pos)
           in if delta = current_pos_size then Some (b\<lparr>tree_of := toggle state (tree_of b) pos\<rparr>)
              else if delta \<le> current_pos_size div 2
              then toggle_virtual_loop b state (buddy_tree_right_child pos) delta
              else toggle_virtual_loop
                     (b\<lparr>tree_of := toggle state (tree_of b) (buddy_tree_right_child pos)\<rparr>)
                     state (buddy_tree_left_child pos) (sub64 delta (current_pos_size div 2)))"

declare toggle_virtual_loop.simps [code]

definition buddy_toggle_virtual_slots :: "buddy \<Rightarrow> bool \<Rightarrow> buddy option" where
  "buddy_toggle_virtual_slots b state =
     (let effective_memory_size = buddy_effective_memory_size b
      in if effective_memory_size = memory_size b then Some b
         else toggle_virtual_loop b state (buddy_tree_right_child buddy_tree_root)
                (sub64 effective_memory_size (memory_size b)))"

section \<open>Initialisation\<close>

text \<open>
  The result is \<open>Some None\<close> where the code returns the null pointer. \<open>mem\<close> is the memory
  before the call; the tree starts behind the two headers.
\<close>

definition buddy_init_alignment :: "bytes \<Rightarrow> addr \<Rightarrow> addr \<Rightarrow> size_t \<Rightarrow> size_t \<Rightarrow> buddy option option" where
  "buddy_init_alignment mem at main ms algn =
     (if at = 0 then Some None
      else if main = 0 then Some None
      else if at = main then Some None
      else if \<not> is_valid_alignment algn then Some None
      else if at mod alignof_buddy \<noteq> 0 then Some None
      else if main mod 8 \<noteq> 0 then Some None
      else
        let ms = (if ms mod algn \<noteq> 0 then sub64 ms (ms mod algn) else ms);
            buddy_size = buddy_sizeof_alignment ms algn
        in if buddy_size = 0 then Some None
           else
             let order = buddy_tree_order_for_memory ms algn;
                 b = \<lparr>buddy_at = at, memory_size = ms, alignment = algn, arena = main, buddy_flags = 0,
                      tree_of = buddy_tree_init
                        (\<lambda>i. mem (at + sizeof_buddy + sizeof_buddy_tree + i)) (u8 order)\<rparr>
             in map_option Some (buddy_toggle_virtual_slots b True))"

definition buddy_init :: "bytes \<Rightarrow> addr \<Rightarrow> addr \<Rightarrow> size_t \<Rightarrow> buddy option option" where
  "buddy_init mem at main ms = buddy_init_alignment mem at main ms BUDDY_ALLOC_ALIGN"

record buddy_embed_check =
  can_fit :: bool
  embed_offset :: size_t
  embed_buddy_size :: size_t

definition buddy_embed_offset :: "size_t \<Rightarrow> size_t \<Rightarrow> buddy_embed_check" where
  "buddy_embed_offset ms algn =
     (let buddy_size = buddy_sizeof_alignment ms algn;
          fit = \<not> ms \<le> buddy_size;
          offset = sub64 ms buddy_size;
          r = offset mod alignof_buddy;
          fit = (if r \<noteq> 0 then (if ms \<le> add64 buddy_size r then False else fit) else fit);
          buddy_size = (if r \<noteq> 0 then add64 buddy_size r else buddy_size);
          offset = (if r \<noteq> 0 then sub64 ms buddy_size else offset)
      in if fit then \<lparr>can_fit = True, embed_offset = offset, embed_buddy_size = buddy_size\<rparr>
         else \<lparr>can_fit = False, embed_offset = 0, embed_buddy_size = 0\<rparr>)"

definition buddy_embed_alignment :: "bytes \<Rightarrow> addr \<Rightarrow> size_t \<Rightarrow> size_t \<Rightarrow> buddy option option" where
  "buddy_embed_alignment mem main ms algn =
     (if main = 0 then Some None
      else if \<not> is_valid_alignment algn then Some None
      else
        let check_result = buddy_embed_offset ms algn
        in if \<not> can_fit check_result then Some None
           else case buddy_init_alignment mem (add64 main (embed_offset check_result)) main
                       (embed_offset check_result) algn of
                  None \<Rightarrow> None
                | Some None \<Rightarrow> Some None
                | Some (Some b) \<Rightarrow>
                    Some (Some (b\<lparr>buddy_flags := buddy_flags b OR BUDDY_RELATIVE_MODE,
                                   arena := sub64 (buddy_at b) main\<rparr>)))"

definition buddy_embed :: "bytes \<Rightarrow> addr \<Rightarrow> size_t \<Rightarrow> buddy option option" where
  "buddy_embed mem main ms = buddy_embed_alignment mem main ms BUDDY_ALLOC_ALIGN"

definition buddy_get_embed_at_alignment :: "addr \<Rightarrow> size_t \<Rightarrow> size_t \<Rightarrow> addr" where
  "buddy_get_embed_at_alignment main ms algn =
     (let check_result = buddy_embed_offset ms algn
      in if \<not> can_fit check_result then 0 else add64 main (embed_offset check_result))"

definition buddy_get_embed_at :: "addr \<Rightarrow> size_t \<Rightarrow> addr" where
  "buddy_get_embed_at main ms = buddy_get_embed_at_alignment main ms BUDDY_ALLOC_ALIGN"

section \<open>Allocating and freeing\<close>

fun buddy_malloc :: "buddy option \<Rightarrow> size_t \<Rightarrow> addr \<times> buddy option" where
  "buddy_malloc None requested_size = (0, None)"
| "buddy_malloc (Some b) requested_size =
     (let requested_size = (if requested_size = 0 then 1 else requested_size)
      in if requested_size > memory_size b then (0, Some b)
         else let target_depth = depth_for_size b requested_size;
                  pos = buddy_tree_find_free (tree_of b) (u8 target_depth)
              in if \<not> buddy_tree_valid (tree_of b) pos then (0, Some b)
                 else let b = b\<lparr>tree_of := buddy_tree_mark (tree_of b) pos\<rparr>
                      in (address_for_position b pos, Some b))"

definition buddy_calloc :: "bytes \<Rightarrow> buddy option \<Rightarrow> size_t \<Rightarrow> size_t \<Rightarrow> addr \<times> buddy option \<times> bytes" where
  "buddy_calloc mem b members_count member_size =
     (let z = (members_count = 0 \<or> member_size = 0);
          members_count = (if z then 1 else members_count);
          member_size = (if z then 1 else member_size)
      in if mul64 members_count member_size div members_count \<noteq> member_size then (0, b, mem)
         else let total_size = mul64 members_count member_size;
                  (result, b) = buddy_malloc b total_size
              in (result, b, if result \<noteq> 0 then fst (memset mem result 0 total_size) else mem))"

definition in_arena :: "buddy \<Rightarrow> addr \<Rightarrow> bool" where
  "in_arena b dst = (\<not> (dst < buddy_main b \<or> add64 (buddy_main b) (memory_size b) \<le> dst))"

fun buddy_free :: "buddy option \<Rightarrow> addr \<Rightarrow> buddy option" where
  "buddy_free None ptr = None"
| "buddy_free (Some b) ptr =
     (if ptr = 0 then Some b
      else if \<not> in_arena b ptr then Some b
      else let pos = position_for_address b ptr
           in if \<not> buddy_tree_valid (tree_of b) pos then Some b
              else Some (b\<lparr>tree_of := buddy_tree_release (tree_of b) pos\<rparr>))"

fun buddy_safe_free :: "buddy option \<Rightarrow> addr \<Rightarrow> size_t \<Rightarrow> buddy option" where
  "buddy_safe_free None ptr requested_size = None"
| "buddy_safe_free (Some b) ptr requested_size =
     (if ptr = 0 then Some b
      else if \<not> in_arena b ptr then Some b
      else let pos = position_for_address b ptr
           in if \<not> buddy_tree_valid (tree_of b) pos then Some b
              else let allocated_size_for_depth = size_for_depth b (pos_depth pos);
                       requested_size = (if requested_size < alignment b then alignment b else requested_size)
                   in if requested_size > allocated_size_for_depth then Some b
                      else if requested_size \<le> allocated_size_for_depth div 2 then Some b
                      else Some (b\<lparr>tree_of := buddy_tree_release (tree_of b) pos\<rparr>))"

text \<open>A null allocator is dereferenced here only after the two early exits.\<close>

definition buddy_realloc ::
  "bytes \<Rightarrow> buddy option \<Rightarrow> addr \<Rightarrow> size_t \<Rightarrow> bool \<Rightarrow> (addr \<times> buddy option \<times> bytes) option" where
  "buddy_realloc mem bp ptr requested_size ignore_data =
     (if ptr = 0 then let (p, bp) = buddy_malloc bp requested_size in Some (p, bp, mem)
      else if requested_size = 0 then Some (0, buddy_free bp ptr, mem)
      else case bp of
        None \<Rightarrow> None
      | Some b \<Rightarrow>
          if requested_size > memory_size b then Some (0, Some b, mem)
          else let origin = position_for_address b ptr
               in if \<not> buddy_tree_valid (tree_of b) origin then Some (0, Some b, mem)
                  else
                    let current_depth = buddy_tree_depth origin;
                        target_depth = depth_for_size b requested_size;
                        released = buddy_tree_release (tree_of b) origin;
                        new_pos = buddy_tree_find_free released (u8 target_depth)
                    in if \<not> buddy_tree_valid released new_pos
                       then Some (0, Some (b\<lparr>tree_of := buddy_tree_mark released origin\<rparr>), mem)
                       else if pos_index origin = pos_index new_pos
                       then Some (ptr, Some (b\<lparr>tree_of := buddy_tree_mark released origin\<rparr>), mem)
                       else
                         let destination = address_for_position b new_pos;
                             source = address_for_position b origin;
                             marked = b\<lparr>tree_of := buddy_tree_mark released new_pos\<rparr>
                         in if ignore_data then Some (destination, Some marked, mem)
                            else case memmove mem destination source
                                   (size_for_depth b (if current_depth > target_depth then current_depth
                                                      else target_depth)) of
                                   None \<Rightarrow> None
                                 | Some (mem', _) \<Rightarrow> Some (destination, Some marked, mem'))"

definition buddy_reallocarray ::
  "bytes \<Rightarrow> buddy option \<Rightarrow> addr \<Rightarrow> size_t \<Rightarrow> size_t \<Rightarrow> bool \<Rightarrow> (addr \<times> buddy option \<times> bytes) option" where
  "buddy_reallocarray mem bp ptr members_count member_size ignore_data =
     (if members_count = 0 \<or> member_size = 0 then buddy_realloc mem bp ptr 0 ignore_data
      else if mul64 members_count member_size div members_count \<noteq> member_size then Some (0, bp, mem)
      else buddy_realloc mem bp ptr (mul64 members_count member_size) ignore_data)"

section \<open>Reservations\<close>

partial_function (option) toggle_range_loop ::
  "buddy \<Rightarrow> bool \<Rightarrow> buddy_tree_pos \<Rightarrow> size_t \<Rightarrow> buddy option" where
  "toggle_range_loop b state pos requested_size =
     (if requested_size = 0 then Some b
      else toggle_range_loop (b\<lparr>tree_of := toggle state (tree_of b) pos\<rparr>) state
             (pos\<lparr>pos_index := add64 (pos_index pos) 1\<rparr>)
             (if requested_size < alignment b then 0 else requested_size - alignment b))"

declare toggle_range_loop.simps [code]

fun buddy_toggle_range_reservation :: "buddy option \<Rightarrow> addr \<Rightarrow> size_t \<Rightarrow> bool \<Rightarrow> buddy option option" where
  "buddy_toggle_range_reservation None ptr requested_size state = Some None"
| "buddy_toggle_range_reservation (Some b) ptr requested_size state =
     (if ptr = 0 then Some (Some b)
      else if requested_size = 0 then Some (Some b)
      else if ptr < buddy_main b \<or>
              add64 (buddy_main b) (memory_size b) < add64 ptr requested_size then Some (Some b)
      else let offset = sub64 ptr (buddy_main b);
               pos = deepest_position_for_offset b offset
           in map_option Some (toggle_range_loop b state pos requested_size))"

definition buddy_reserve_range :: "buddy option \<Rightarrow> addr \<Rightarrow> size_t \<Rightarrow> buddy option option" where
  "buddy_reserve_range b ptr requested_size = buddy_toggle_range_reservation b ptr requested_size True"

definition buddy_unsafe_release_range :: "buddy option \<Rightarrow> addr \<Rightarrow> size_t \<Rightarrow> buddy option option" where
  "buddy_unsafe_release_range b ptr requested_size = buddy_toggle_range_reservation b ptr requested_size False"

section \<open>Queries\<close>

fun buddy_arena_size :: "buddy option \<Rightarrow> size_t" where
  "buddy_arena_size None = 0"
| "buddy_arena_size (Some b) = memory_size b"

fun buddy_is_full :: "buddy option \<Rightarrow> bool" where
  "buddy_is_full None = False"
| "buddy_is_full (Some b) = (buddy_tree_status (tree_of b) buddy_tree_root = buddy_tree_order (tree_of b))"

end
