(* ===== verification/Buddy_Blocks.thy ===== *)
theory Buddy_Blocks
  imports Buddy_Refine
begin

text \<open>
  The memory a node stands for. In an arena of \<open>2 ^ (ord - 1)\<close> slots of \<open>al\<close> bytes, node \<open>n\<close>
  stands for \<open>node_size\<close> bytes from \<open>node_off\<close> on. The blocks of two nodes meet exactly when
  one node lies below the other; otherwise they are disjoint.
\<close>

definition node_size :: "nat \<Rightarrow> nat \<Rightarrow> nat \<Rightarrow> nat" where
  "node_size ord al n = 2 ^ (ord - Suc (level n)) * al"

definition node_off :: "nat \<Rightarrow> nat \<Rightarrow> nat \<Rightarrow> nat" where
  "node_off ord al n = (n - 2 ^ level n) * node_size ord al n"

definition block :: "nat \<Rightarrow> nat \<Rightarrow> nat \<Rightarrow> nat set" where
  "block ord al n = {node_off ord al n ..< node_off ord al n + node_size ord al n}"

text \<open>The deepest node whose block holds an offset.\<close>

definition leaf_at :: "nat \<Rightarrow> nat \<Rightarrow> nat \<Rightarrow> nat" where
  "leaf_at ord al off = 2 ^ (ord - 1) + off div al"

lemma level_div: "0 < n div 2 ^ k \<Longrightarrow> level (n div 2 ^ k) + k = level n"
proof -
  assume "0 < n div 2 ^ k"
  moreover from this have "2 ^ k \<le> n" by (simp add: div_greater_zero_iff)
  ultimately show ?thesis
    using bitlength_div_two_power [of k n] by (simp add: level_def bitlength_pos)
qed

lemma ancestor_by_level:
  assumes "ancestor a n" "0 < a"
  shows "level a \<le> level n" "a = n div 2 ^ (level n - level a)"
proof -
  obtain k where k: "a = n div 2 ^ k" using assms(1) by (auto simp: ancestor_def)
  then have l: "level a + k = level n" using level_div [of n k] assms(2) by simp
  then show "level a \<le> level n" by simp
  have "level n - level a = k" using l by simp
  then show "a = n div 2 ^ (level n - level a)" using k by simp
qed

lemma leaf_at_level:
  assumes "off < 2 ^ (ord - 1) * al" "1 \<le> ord"
  shows "level (leaf_at ord al off) = ord - 1" "valid_node ord (leaf_at ord al off)"
proof -
  have "off div al < 2 ^ (ord - 1)" using assms by (simp add: less_mult_imp_div_less)
  then show l: "level (leaf_at ord al off) = ord - 1"
    by (intro level_eqI) (simp_all add: leaf_at_def)
  then show "valid_node ord (leaf_at ord al off)"
    using assms(2) by (intro level_less_imp_valid) (simp_all add: leaf_at_def)
qed

lemma node_split:
  assumes "valid_node ord n"
  obtains l d r where "level n = l" "ord = Suc (l + d)" "n = 2 ^ l + r" "r < 2 ^ l"
proof -
  have l: "2 ^ level n \<le> n" "n < 2 ^ Suc (level n)" "level n < ord"
    using assms level_bounds level_less by (auto simp: valid_node_def)
  show thesis
    by (rule that [of "level n" "ord - Suc (level n)" "n - 2 ^ level n"]) (use l in auto)
qed

lemma block_leaf_div:
  assumes "valid_node ord n" "0 < al"
  shows "off \<in> block ord al n \<longleftrightarrow> leaf_at ord al off div 2 ^ (ord - Suc (level n)) = n"
proof -
  obtain l d r where n: "level n = l" "ord = Suc (l + d)" "n = 2 ^ l + r" "r < 2 ^ l"
    using node_split [OF assms(1)] .
  have "leaf_at ord al off = off div al + 2 ^ l * 2 ^ d" by (simp add: leaf_at_def n power_add)
  then have "leaf_at ord al off div 2 ^ d = 2 ^ l + off div al div 2 ^ d" by simp
  then have "leaf_at ord al off div 2 ^ d = n \<longleftrightarrow> off div (2 ^ d * al) = r"
    using n(3) by (simp add: div_mult2_eq mult.commute)
  also have "\<dots> \<longleftrightarrow> off \<in> block ord al n"
  proof -
    define s where "s = 2 ^ d * al"
    have s: "0 < s" using assms(2) by (simp add: s_def)
    have "block ord al n = {r * s ..< r * s + s}"
      using n by (simp add: block_def node_off_def node_size_def s_def)
    moreover have "off div s = r \<longleftrightarrow> off \<in> {r * s ..< r * s + s}"
    proof
      assume "off div s = r"
      moreover have "off = off div s * s + off mod s" "off mod s < s" using s by simp_all
      ultimately show "off \<in> {r * s ..< r * s + s}" by auto
    next
      assume "off \<in> {r * s ..< r * s + s}"
      then show "off div s = r" by (intro div_nat_eqI) (simp_all add: mult.commute)
    qed
    ultimately show ?thesis by (simp add: s_def)
  qed
  finally show ?thesis using n by simp
qed

lemma block_bound:
  assumes "valid_node ord n"
  shows "node_off ord al n + node_size ord al n \<le> 2 ^ (ord - 1) * al"
proof -
  obtain l d r where n: "level n = l" "ord = Suc (l + d)" "n = 2 ^ l + r" "r < 2 ^ l"
    using node_split [OF assms] .
  have "Suc r * (2 ^ d * al) \<le> 2 ^ l * (2 ^ d * al)" using n(4) by (intro mult_le_mono1) simp
  then show ?thesis using n by (simp add: node_off_def node_size_def power_add algebra_simps)
qed

lemma node_size_pos: "0 < al \<Longrightarrow> 0 < node_size ord al n"
  by (simp add: node_size_def)

lemma node_off_in_block: "0 < al \<Longrightarrow> node_off ord al n \<in> block ord al n"
  by (simp add: block_def node_size_pos)

lemma block_iff_ancestor:
  assumes "valid_node ord n" "0 < al" "off < 2 ^ (ord - 1) * al"
  shows "off \<in> block ord al n \<longleftrightarrow> ancestor n (leaf_at ord al off)"
proof -
  have ord: "1 \<le> ord" using level_less [OF assms(1)] by simp
  note lv = leaf_at_level(1) [OF assms(3) ord]
  show ?thesis
  proof
    assume "off \<in> block ord al n"
    then have "n = leaf_at ord al off div 2 ^ (ord - Suc (level n))"
      using block_leaf_div [OF assms(1,2)] by simp
    then show "ancestor n (leaf_at ord al off)" by (auto simp: ancestor_def)
  next
    assume "ancestor n (leaf_at ord al off)"
    then have "n = leaf_at ord al off div 2 ^ (ord - Suc (level n))"
      using ancestor_by_level(2) [of n "leaf_at ord al off"] lv assms(1) by (simp add: valid_node_def)
    then show "off \<in> block ord al n" using block_leaf_div [OF assms(1,2)] by simp
  qed
qed

lemma blocks_disjoint:
  assumes "valid_node ord a" "valid_node ord b" "0 < al" "\<not> clash a b"
  shows "block ord al a \<inter> block ord al b = {}"
proof -
  have "\<not> off \<in> block ord al b" if "off \<in> block ord al a" for off
  proof
    assume b: "off \<in> block ord al b"
    have "off < 2 ^ (ord - 1) * al" using that block_bound [OF assms(1), of al] by (simp add: block_def)
    then have "ancestor a (leaf_at ord al off)" "ancestor b (leaf_at ord al off)"
      using that b block_iff_ancestor assms by blast+
    then show False using ancestors_linear assms(4) by (auto simp: clash_def)
  qed
  then show ?thesis by blast
qed

lemma ancestor_block_subset:
  assumes "valid_node ord a" "valid_node ord b" "0 < al" "ancestor a b"
  shows "block ord al b \<subseteq> block ord al a"
proof
  fix off assume o: "off \<in> block ord al b"
  have lt: "off < 2 ^ (ord - 1) * al" using o block_bound [OF assms(2), of al] by (simp add: block_def)
  then have "ancestor a (leaf_at ord al off)"
    using o block_iff_ancestor [OF assms(2,3) lt] ancestor_trans [OF assms(4)] by simp
  then show "off \<in> block ord al a" using block_iff_ancestor [OF assms(1,3) lt] by simp
qed

lemma clash_iff_blocks:
  assumes "valid_node ord a" "valid_node ord b" "0 < al"
  shows "clash a b \<longleftrightarrow> block ord al a \<inter> block ord al b \<noteq> {}"
proof
  assume "clash a b"
  then have "block ord al b \<subseteq> block ord al a \<or> block ord al a \<subseteq> block ord al b"
    using ancestor_block_subset assms unfolding clash_def by blast
  moreover have "node_off ord al a \<in> block ord al a" "node_off ord al b \<in> block ord al b"
    using assms(3) by (simp_all add: node_off_in_block)
  ultimately show "block ord al a \<inter> block ord al b \<noteq> {}" by blast
next
  assume "block ord al a \<inter> block ord al b \<noteq> {}"
  then show "clash a b" using blocks_disjoint [OF assms] by auto
qed

text \<open>The bytes taken by a set of nodes.\<close>

definition covered :: "nat \<Rightarrow> nat \<Rightarrow> nat set \<Rightarrow> nat set" where
  "covered ord al A = (\<Union>n \<in> A. block ord al n)"

lemma available_iff_covered:
  assumes "valid_node ord n" "0 < al"
  shows "available ord st n \<longleftrightarrow> block ord al n \<inter> covered ord al (allocated ord st) = {}"
proof -
  have "\<not> clash m n \<longleftrightarrow> block ord al n \<inter> block ord al m = {}" if "m \<in> allocated ord st" for m
    using that clash_iff_blocks [OF _ assms, of m] by (auto simp: allocated_def)
  then show ?thesis by (auto simp: available_def covered_def)
qed

lemma child_blocks:
  assumes "0 < n" "Suc (level n) < ord"
  shows "node_size ord al (2 * n) = node_size ord al n div 2" "node_size ord al (Suc (2 * n)) = node_size ord al n div 2"
    and "node_off ord al (2 * n) = node_off ord al n"
    and "node_off ord al (Suc (2 * n)) = node_off ord al n + node_size ord al n div 2"
    and "2 * (node_size ord al n div 2) = node_size ord al n"
proof -
  obtain d where d: "ord = Suc (Suc (level n + d))" using assms(2) by (metis Suc_lessE add_Suc less_iff_Suc_add)
  have s: "node_size ord al n = 2 * (2 ^ d * al)" using d by (simp add: node_size_def)
  show "2 * (node_size ord al n div 2) = node_size ord al n" using s by simp
  show l: "node_size ord al (2 * n) = node_size ord al n div 2" "node_size ord al (Suc (2 * n)) = node_size ord al n div 2"
    using assms(1) d s by (simp_all add: node_size_def)
  obtain r where r: "n = 2 ^ level n + r" using level_bounds [OF assms(1)] le_Suc_ex by blast
  have "2 * n - 2 ^ Suc (level n) = 2 * r" "Suc (2 * n) - 2 ^ Suc (level n) = 2 * r + 1"
    "n - 2 ^ level n = r"
    by (subst r, simp)+
  then show "node_off ord al (2 * n) = node_off ord al n"
    "node_off ord al (Suc (2 * n)) = node_off ord al n + node_size ord al n div 2"
    using assms(1) l s by (simp_all add: node_off_def)
qed

end
