(* ===== verification/Buddy_Correct.thy ===== *)
theory Buddy_Correct
  imports Buddy Buddy_Blocks
begin

text \<open>
  Correctness of the buddy allocator. \<open>buddy_ok b st\<close> ties an allocator to the statuses its
  tree represents: the tree is consistent, its leaves are slots of \<open>alignment\<close> bytes, and the
  slots between the end of the arena and the next power of two are taken. Under it the
  operations of the allocator are operations on the set of allocated nodes.
\<close>

abbreviation border :: "buddy \<Rightarrow> nat" where
  "border b \<equiv> tree_order (tree_of b)"

abbreviation nodes :: "buddy \<Rightarrow> statuses \<Rightarrow> nat set" where
  "nodes b st \<equiv> allocated (border b) st"

definition arena_ok :: "buddy \<Rightarrow> bool" where
  "arena_ok b \<longleftrightarrow> (\<exists>k. alignment b = 2 ^ k) \<and> alignment b dvd memory_size b \<and> 0 < memory_size b \<and>
     ceiling_power_of_two (memory_size b) = 2 ^ (border b - 1) * alignment b \<and>
     memory_size b \<le> 2 ^ (border b - 1) * alignment b \<and> 2 ^ (border b - 1) * alignment b \<le> 2 ^ 63 \<and>
     0 < buddy_main b \<and> buddy_main b + memory_size b < 2 ^ 64"

definition masked :: "buddy \<Rightarrow> nat set \<Rightarrow> bool" where
  "masked b A \<longleftrightarrow>
     {memory_size b ..< 2 ^ (border b - 1) * alignment b} \<subseteq> covered (border b) (alignment b) A \<and>
     (\<forall>n \<in> A. node_off (border b) (alignment b) n + node_size (border b) (alignment b) n \<le> memory_size b \<or>
        memory_size b \<le> node_off (border b) (alignment b) n)"

definition buddy_ok :: "buddy \<Rightarrow> statuses \<Rightarrow> bool" where
  "buddy_ok b st \<longleftrightarrow> arena_ok b \<and> tree_repr (tree_of b) st \<and> tree_inv (border b) st \<and> masked b (nodes b st)"

lemma buddy_okD:
  assumes "buddy_ok b st"
  shows "arena_ok b" "tree_repr (tree_of b) st" "tree_inv (border b) st" "masked b (nodes b st)"
    "1 \<le> border b" "border b \<le> 60" "0 < alignment b"
  using assms tree_reprD(2,3) by (auto simp: buddy_ok_def arena_ok_def)

lemma buddy_main_tree [simp]: "buddy_main (b\<lparr>tree_of := t\<rparr>) = buddy_main b"
  by (simp add: buddy_main_def buddy_relative_mode_def)

lemma buddy_ok_tree:
  assumes "buddy_ok b st" "tree_order t = border b" "tree_repr t st'" "tree_inv (border b) st'"
    and "masked b (nodes b st')"
  shows "buddy_ok (b\<lparr>tree_of := t\<rparr>) st'"
  using assms by (simp add: buddy_ok_def arena_ok_def masked_def)

section \<open>Sizes and addresses\<close>

lemma size_for_depth_node:
  assumes "arena_ok b" "valid_node (border b) n"
  shows "size_for_depth b (Suc (level n)) = node_size (border b) (alignment b) n"
proof -
  obtain l d r where n: "level n = l" "border b = Suc (l + d)" using node_split [OF assms(2)] by metis
  have "(2::nat) ^ l \<le> 2 ^ (l + d) * alignment b"
    using assms(1) by (auto simp: arena_ok_def power_add)
  then have "(2::nat) ^ l < 2 ^ 64" using assms(1) n by (simp add: arena_ok_def)
  then have "l < 64" by (rule power_less_imp_less_exp [rotated]) simp
  then show ?thesis
    using assms(1) n by (simp add: size_for_depth_def wrap_simps arena_ok_def shr_def node_size_def power_add)
qed

lemma address_for_node:
  assumes "buddy_ok b st" "valid_node (border b) n" "node_off (border b) (alignment b) n \<le> memory_size b"
  shows "address_for_position b (pos_of n) = buddy_main b + node_off (border b) (alignment b) n"
proof -
  note ok = buddy_okD [OF assms(1)]
  have "level n < 64" using level_64 [OF assms(2) ok(6)] by simp
  then have i: "buddy_tree_index_internal (pos_of n) = n - 2 ^ level n"
    using assms(2) by (intro index_internal_pos_of) (simp_all add: valid_node_def)
  have off: "node_size (border b) (alignment b) n * (n - 2 ^ level n) = node_off (border b) (alignment b) n"
    by (simp add: node_off_def)
  have fits: "buddy_main b + node_off (border b) (alignment b) n < 2 ^ 64"
    using assms(3) ok(1) by (simp add: arena_ok_def)
  then have "mul64 (node_size (border b) (alignment b) n) (n - 2 ^ level n) = node_off (border b) (alignment b) n"
    using off by (subst mul64_id) simp_all
  then show ?thesis
    using fits i size_for_depth_node [OF ok(1) assms(2)]
    by (simp add: address_for_position_def buddy_tree_index_def buddy_tree_depth_def add64_id)
      (simp add: pos_of_def add64_id)
qed

lemma in_arena_iff:
  assumes "arena_ok b"
  shows "in_arena b p \<longleftrightarrow> (\<exists>off < memory_size b. p = buddy_main b + off)"
proof -
  have "add64 (buddy_main b) (memory_size b) = buddy_main b + memory_size b"
    using assms by (intro add64_id) (simp add: arena_ok_def)
  then show ?thesis
    unfolding in_arena_def by (auto simp: not_less not_le intro!: exI [of _ "p - buddy_main b"])
qed

text \<open>The blocks inside the arena are not masked and vice versa.\<close>

lemma available_in_arena:
  assumes "buddy_ok b st" "valid_node (border b) n" "available (border b) st n"
  shows "node_off (border b) (alignment b) n + node_size (border b) (alignment b) n \<le> memory_size b"
proof (rule ccontr)
  let ?o = "border b" and ?al = "alignment b"
  assume "\<not> ?thesis"
  moreover have "node_off ?o ?al n + node_size ?o ?al n \<le> 2 ^ (?o - 1) * ?al" by (rule block_bound [OF assms(2)])
  moreover have "0 < node_size ?o ?al n" using buddy_okD(7) [OF assms(1)] by (rule node_size_pos)
  ultimately have last: "node_off ?o ?al n + node_size ?o ?al n - 1 \<in> block ?o ?al n"
    "node_off ?o ?al n + node_size ?o ?al n - 1 \<in> {memory_size b ..< 2 ^ (?o - 1) * ?al}"
    by (auto simp: block_def)
  then have "node_off ?o ?al n + node_size ?o ?al n - 1 \<in> covered ?o ?al (nodes b st)"
    using buddy_okD(4) [OF assms(1)] unfolding masked_def by blast
  then show False
    using available_iff_covered [OF assms(2) buddy_okD(7) [OF assms(1)]] assms(3) last(1) by blast
qed

lemma depth_for_size_loop_spec:
  assumes "2 ^ k \<le> r" "r \<le> 2 ^ (e - j)" "j \<le> e - k" "k \<le> e" "e < 64"
  shows "\<exists>d. depth_for_size_loop (2 ^ (e - j)) r (Suc j) = Suc d \<and> j \<le> d \<and> d \<le> e - k \<and>
    r \<le> 2 ^ (e - d) \<and> 2 ^ (e - d) < 2 * r"
  using assms(2,3)
proof (induction "e - k - j" arbitrary: j)
  case 0
  then have j: "j = e - k" "e - j = k" using assms(4) by simp_all
  then have "r = 2 ^ k" using 0 assms(1) by simp
  then have "shr (2 ^ (e - j) div r) 1 = 0" using j by (simp add: shr_def)
  then show ?case
    using j \<open>r = 2 ^ k\<close> by (subst depth_for_size_loop.simps) (auto simp del: One_nat_def)
next
  case (Suc x)
  have r: "0 < r" using assms(1) by (cases r) simp_all
  show ?case
  proof (cases "2 * r \<le> 2 ^ (e - j)")
    case True
    have js: "e - j = Suc (e - Suc j)" using Suc.hyps(2) assms(4) by simp
    have "2 \<le> 2 ^ (e - j) div r" using True r by (simp add: less_eq_div_iff_mult_less_eq)
    then have ne: "shr (2 ^ (e - j) div r) 1 \<noteq> 0" by (simp add: shr_def)
    have half: "shr (2 ^ (e - j)) 1 = 2 ^ (e - Suc j)" by (simp add: shr_def js)
    have "add64 (Suc j) 1 = Suc (Suc j)" using Suc.prems(2) assms(5) by (simp add: wrap_simps)
    then have "depth_for_size_loop (2 ^ (e - j)) r (Suc j) = depth_for_size_loop (2 ^ (e - Suc j)) r (Suc (Suc j))"
      using ne half by (subst depth_for_size_loop.simps) (simp del: One_nat_def)
    moreover have "r \<le> 2 ^ (e - Suc j)" using True js by simp
    moreover have "x = e - k - Suc j" "Suc j \<le> e - k" using Suc.hyps(2) by simp_all
    ultimately show ?thesis using Suc.hyps(1) [of "Suc j"] by (metis Suc_leD)
  next
    case False
    then have "2 ^ (e - j) div r < 2" using r by (simp add: div_less_iff_less_mult)
    then have "shr (2 ^ (e - j) div r) 1 = 0" by (simp add: shr_def)
    then show ?thesis using False Suc.prems
      by (subst depth_for_size_loop.simps) (auto simp del: One_nat_def)
  qed
qed

text \<open>The depth for a size is the deepest whose blocks are large enough.\<close>

lemma depth_for_size_spec:
  assumes "buddy_ok b st" "0 < r" "r \<le> memory_size b"
  obtains d where "depth_for_size b r = Suc d" "d < border b"
    "\<And>n. valid_node (border b) n \<Longrightarrow> level n = d \<Longrightarrow> r \<le> node_size (border b) (alignment b) n \<and>
       node_size (border b) (alignment b) n < 2 * max r (alignment b)"
proof -
  note ok = buddy_okD [OF assms(1)]
  obtain k where k: "alignment b = 2 ^ k" using ok(1) by (auto simp: arena_ok_def)
  define e where "e = border b - 1 + k"
  have le_ke: "k \<le> e" by (simp add: e_def)
  have eff: "buddy_effective_memory_size b = 2 ^ e"
    using ok(1) k by (simp add: buddy_effective_memory_size_def arena_ok_def e_def power_add)
  have "alignment b \<le> memory_size b" using ok(1) by (auto simp: arena_ok_def dvd_imp_le)
  moreover have "memory_size b \<le> 2 ^ e" using ok(1) k by (simp add: arena_ok_def e_def power_add)
  ultimately have le: "2 ^ k \<le> max r (alignment b)" "max r (alignment b) \<le> 2 ^ (e - 0)"
    using k assms(3) le_ke by auto
  have "(2::nat) ^ e \<le> 2 ^ 63" using ok(1) k by (simp add: arena_ok_def e_def power_add)
  then have "e < 64" using power_le_imp_le_exp [of "2::nat" e 63] by simp
  with le obtain d where d: "depth_for_size_loop (2 ^ (e - 0)) (max r (alignment b)) (Suc 0) = Suc d" "d \<le> e - k"
    "max r (alignment b) \<le> 2 ^ (e - d)" "2 ^ (e - d) < 2 * max r (alignment b)"
    using depth_for_size_loop_spec [of k "max r (alignment b)" e 0] le_ke by auto
  have sz: "node_size (border b) (alignment b) n = 2 ^ (e - d)" if "level n = d" for n
  proof -
    have "border b - Suc d + k = e - d" using d(2) by (simp add: e_def)
    then show ?thesis using that k by (simp add: node_size_def flip: power_add)
  qed
  have "depth_for_size b r = Suc d"
    using d(1) eff by (simp add: depth_for_size_def Let_def max_def split: if_splits)
  moreover have "d < border b" using d(2) ok(5) by (simp add: e_def)
  ultimately show thesis using that sz d(3,4) by auto
qed

section \<open>Allocating\<close>

lemma masked_insert:
  "masked b A \<Longrightarrow> node_off (border b) (alignment b) n + node_size (border b) (alignment b) n \<le> memory_size b \<Longrightarrow>
    masked b (insert n A)"
  unfolding masked_def covered_def by blast

lemma masked_remove:
  assumes "masked b A" "node_off (border b) (alignment b) n < memory_size b"
  shows "masked b (A - {n})"
proof -
  let ?o = "border b" and ?al = "alignment b"
  have "off \<in> covered ?o ?al (A - {n})" if off: "off \<in> {memory_size b ..< 2 ^ (?o - 1) * ?al}" for off
  proof -
    obtain m where m: "m \<in> A" "off \<in> block ?o ?al m"
      using off assms(1) by (auto simp: masked_def covered_def)
    have "m \<noteq> n"
    proof
      assume "m = n"
      then have "node_off ?o ?al n + node_size ?o ?al n \<le> memory_size b"
        using assms m(1) by (auto simp: masked_def)
      then show False using off m(2) \<open>m = n\<close> by (simp add: block_def)
    qed
    then show ?thesis using m by (auto simp: covered_def)
  qed
  then show ?thesis using assms(1) by (auto simp: masked_def)
qed

lemma mark_ok:
  assumes "buddy_ok b st" "valid_node (border b) n" "available (border b) st n"
  shows "buddy_ok (b\<lparr>tree_of := buddy_tree_mark (tree_of b) (pos_of n)\<rparr>) (mark_node (border b) st n)"
    and "nodes b (mark_node (border b) st n) = insert n (nodes b st)"
proof -
  note ok = buddy_okD [OF assms(1)] and m = mark_repr [OF buddy_okD(2) [OF assms(1)] assms(2)]
    and sp = mark_node_spec [OF buddy_okD(3) [OF assms(1)] assms(2,3)]
  show "nodes b (mark_node (border b) st n) = insert n (nodes b st)" by (rule sp)
  have "masked b (insert n (nodes b st))"
    using ok(4) available_in_arena [OF assms] by (rule masked_insert)
  then show "buddy_ok (b\<lparr>tree_of := buddy_tree_mark (tree_of b) (pos_of n)\<rparr>) (mark_node (border b) st n)"
    using buddy_ok_tree [OF assms(1) m(2,1)] sp by simp
qed

text \<open>
  \<open>malloc\<close> returns the null pointer and changes nothing when no block of the depth for the
  size is free; otherwise it allocates one such block and returns its address.
\<close>

lemma buddy_malloc_cases:
  fixes requested :: size_t
  assumes "buddy_ok b st"
  defines "r \<equiv> if requested = 0 then 1 else requested"
  obtains (too_large) "memory_size b < r" "buddy_malloc (Some b) requested = (0, Some b)"
  | (full) d where "r \<le> memory_size b" "depth_for_size b r = Suc d" "d < border b"
      "\<And>n. valid_node (border b) n \<Longrightarrow> level n = d \<Longrightarrow> \<not> available (border b) st n"
      "buddy_malloc (Some b) requested = (0, Some b)"
  | (found) n where "r \<le> memory_size b" "valid_node (border b) n" "available (border b) st n"
      "r \<le> node_size (border b) (alignment b) n" "node_size (border b) (alignment b) n < 2 * max r (alignment b)"
      "buddy_malloc (Some b) requested = (buddy_main b + node_off (border b) (alignment b) n,
         Some (b\<lparr>tree_of := buddy_tree_mark (tree_of b) (pos_of n)\<rparr>))"
proof (cases "memory_size b < r")
  case True
  then show thesis using too_large by (simp add: r_def)
next
  case False
  note ok = buddy_okD [OF assms(1)]
  have r: "0 < r" "r \<le> memory_size b" using False by (simp_all add: r_def)
  obtain d where d: "depth_for_size b r = Suc d" "d < border b"
    "\<And>n. valid_node (border b) n \<Longrightarrow> level n = d \<Longrightarrow> r \<le> node_size (border b) (alignment b) n \<and>
       node_size (border b) (alignment b) n < 2 * max r (alignment b)"
    using depth_for_size_spec [OF assms(1) r] by metis
  have u: "u8 (Suc d) = Suc d" using d(2) ok(6) by (simp add: wrap_simps)
  have unfold: "buddy_malloc (Some b) requested =
    (let pos = buddy_tree_find_free (tree_of b) (Suc d)
     in if \<not> buddy_tree_valid (tree_of b) pos then (0, Some b)
        else (address_for_position (b\<lparr>tree_of := buddy_tree_mark (tree_of b) pos\<rparr>) pos,
              Some (b\<lparr>tree_of := buddy_tree_mark (tree_of b) pos\<rparr>)))"
    using False d(1) u by (simp add: r_def Let_def)
  have hd: "tree_header_ok (tree_of b)" using ok(2) by (rule tree_reprD)
  from find_free_spec [OF ok(2,3), of "Suc d"] d(2)
  consider m where "buddy_tree_find_free (tree_of b) (Suc d) = pos_of m" "valid_node (border b) m"
      "level m = d" "available (border b) st m"
    | "buddy_tree_find_free (tree_of b) (Suc d) = INVALID_POS"
      "\<And>m. valid_node (border b) m \<Longrightarrow> level m = d \<Longrightarrow> \<not> available (border b) st m"
    by (auto simp: Suc_le_eq)
  then show thesis
  proof cases
    case (1 m)
    let ?b = "b\<lparr>tree_of := buddy_tree_mark (tree_of b) (pos_of m)\<rparr>"
    have bd: "border ?b = border b" using mark_repr(2) [OF ok(2) 1(2)] by simp
    have "node_off (border b) (alignment b) m \<le> memory_size b"
      using available_in_arena [OF assms(1) 1(2,4)] by simp
    then have "address_for_position ?b (pos_of m) = buddy_main b + node_off (border b) (alignment b) m"
      using address_for_node [OF mark_ok(1) [OF assms(1) 1(2,4)], of m] 1(2) bd
      by simp
    then have "buddy_malloc (Some b) requested = (buddy_main b + node_off (border b) (alignment b) m, Some ?b)"
      using unfold 1 valid_pos_of [OF hd, of m] by simp
    then show thesis using found [of m] 1 r d(3) [of m] by simp
  next
    case 2
    have "\<not> buddy_tree_valid (tree_of b) INVALID_POS" by (simp add: buddy_tree_valid_def INVALID_POS_def)
    then show thesis using full [of d] 2 r d unfold by simp
  qed
qed

section \<open>Freeing\<close>

lemma deepest_position_leaf:
  assumes "buddy_ok b st" "off < 2 ^ (border b - 1) * alignment b"
  shows "deepest_position_for_offset b off = pos_of (leaf_at (border b) (alignment b) off)"
proof -
  note ok = buddy_okD [OF assms(1)]
  note lf = leaf_at_level [OF assms(2) ok(5)]
  have "leaf_at (border b) (alignment b) off < 2 ^ border b" using lf(2) by (simp add: valid_node_def)
  also have "(2::nat) ^ border b \<le> 2 ^ 60" using ok(6) by (intro power_increasing) simp_all
  finally have "2 ^ (border b - 1) + off div alignment b < 2 ^ 60" by (simp add: leaf_at_def)
  then have "add64 (2 ^ (border b - 1)) (off div alignment b) = leaf_at (border b) (alignment b) off"
    by (simp add: leaf_at_def wrap_simps)
  moreover have "sub64 (border b) 1 = border b - 1" using ok(5,6) by (intro sub64_id) simp_all
  moreover have "two_to_the_power_of (border b - 1) = 2 ^ (border b - 1)"
    using ok(6) by (simp add: two_to_the_power_of_eq)
  ultimately show ?thesis
    using lf(1) ok(5)
    by (simp add: deepest_position_for_offset_def buddy_tree_leftmost_child_def
        buddy_tree_leftmost_child_internal_def pos_of_def del: One_nat_def)
qed

text \<open>The search upwards stops at the lowest node above the leaf that has a status.\<close>

lemma position_loop_spec:
  assumes "tree_repr t st" "valid_node (tree_order t) x"
  shows "position_for_address_loop t (pos_of x) = None \<and> (\<forall>m. 0 < m \<longrightarrow> ancestor m x \<longrightarrow> st m = 0) \<or>
    (\<exists>m. position_for_address_loop t (pos_of x) = Some (pos_of m) \<and> 0 < m \<and> ancestor m x \<and> st m \<noteq> 0 \<and>
      (\<forall>c. ancestor c x \<longrightarrow> ancestor m c \<longrightarrow> c \<noteq> m \<longrightarrow> st c = 0))"
  using assms(2)
proof (induction x rule: less_induct)
  case (less x)
  have hd: "tree_header_ok t" and ord: "tree_order t \<le> 60" using assms(1) by (rule tree_reprD)+
  have x: "0 < x" using less.prems by (simp add: valid_node_def)
  note sx = status_repr [OF assms(1) less.prems]
  show ?case
  proof (cases "st x = 0")
    case False
    have "c = x" if "ancestor c x" "ancestor x c" for c using that ancestor_le by (simp add: le_antisym)
    moreover have "position_for_address_loop t (pos_of x) = Some (pos_of x)"
      using False sx by (simp add: position_for_address_loop.simps)
    ultimately show ?thesis using False x by (intro disjI2 exI [of _ x]) auto
  next
    case True
    show ?thesis
    proof (cases "x = 1")
      case x1: True
      have "\<not> buddy_tree_valid t (buddy_tree_parent (pos_of 1))"
        by (simp add: buddy_tree_valid_def buddy_tree_parent_def pos_of_def)
      then have "position_for_address_loop t (pos_of x) = None"
        using True sx x1 by (simp add: position_for_address_loop.simps)
      moreover have "m = 1" if "0 < m" "ancestor m 1" for m using that ancestor_le [of m 1] by simp
      ultimately show ?thesis using True x1 by blast
    next
      case False
      then have x1: "1 < x" using x by simp
      note vp = valid_parent [OF less.prems x1]
      have pp: "buddy_tree_parent (pos_of x) = pos_of (x div 2)"
        using x1 level_64 [OF less.prems ord] by (rule parent_pos_of)
      have eq: "position_for_address_loop t (pos_of x) = position_for_address_loop t (pos_of (x div 2))"
        using True sx pp valid_pos_of [OF hd] vp by (subst position_for_address_loop.simps) simp
      have anc: "ancestor m x \<longleftrightarrow> m = x \<or> ancestor m (x div 2)" for m by (rule ancestor_iff)
      have "x div 2 < x" using x1 by simp
      note IH = less.IH [OF this vp]
      show ?thesis unfolding eq using IH True anc by (metis (no_types, lifting))
    qed
  qed
qed

lemma found_full_allocated:
  assumes "tree_inv ord st" "valid_node ord x" "Suc (level x) = ord" "0 < m" "ancestor m x"
    and "\<forall>c. ancestor c x \<longrightarrow> ancestor m c \<longrightarrow> c \<noteq> m \<longrightarrow> st c = 0" "st m = field_width ord m"
  shows "m \<in> allocated ord st"
proof (cases "m = x")
  case True
  then show ?thesis using assms(2,3,7) by (simp add: allocated_def childless_def leaf_node_def)
next
  case False
  define k where "k = level x - level m"
  have m: "m = x div 2 ^ k" "level m \<le> level x" using ancestor_by_level [OF assms(5,4)] by (simp_all add: k_def)
  then have "k \<noteq> 0" using False by (cases "k = 0") auto
  then obtain j where j: "k = Suc j" by (cases k) auto
  define c where "c = x div 2 ^ j"
  have cm: "c div 2 = m" unfolding c_def m(1) j power_Suc2 by (rule div_mult2_eq [symmetric])
  then have c1: "1 < c" using assms(4) by linarith
  have "c \<le> x" by (simp add: c_def)
  then have vc: "valid_node ord c" using assms(2) c1 by (simp add: valid_node_def)
  have "ancestor c x" "ancestor m c" "c \<noteq> m"
    using cm c1 ancestor_parent [of m c] by (auto simp: c_def ancestor_def)
  then have "st c = 0" using assms(6) by blast
  then show ?thesis using full_zero_child_allocated [OF assms(1) vc c1] assms(7) cm by simp
qed

text \<open>The nodes whose block starts at an address of the arena.\<close>

definition starts_at :: "buddy \<Rightarrow> statuses \<Rightarrow> addr \<Rightarrow> nat set" where
  "starts_at b st p = {n \<in> nodes b st. node_off (border b) (alignment b) n < memory_size b \<and>
     buddy_main b + node_off (border b) (alignment b) n = p}"

lemma node_off_dvd: "al dvd node_off ord al n"
  by (simp add: node_off_def node_size_def)

lemma position_for_address_cases:
  assumes "buddy_ok b st" "off < memory_size b"
  defines "p \<equiv> buddy_main b + off"
  obtains (none) "starts_at b st p = {}" "position_for_address b p = INVALID_POS"
  | (partly) m where "starts_at b st p = {}" "position_for_address b p = pos_of m"
      "valid_node (border b) m" "st m \<noteq> field_width (border b) m"
  | (start) m where "starts_at b st p = {m}" "position_for_address b p = pos_of m" "m \<in> nodes b st"
proof -
  let ?o = "border b" and ?al = "alignment b"
  note ok = buddy_okD [OF assms(1)]
  have eff: "off < 2 ^ (?o - 1) * ?al" using assms(2) ok(1) by (simp add: arena_ok_def)
  have "p < 2 ^ 64" using assms(2) ok(1) by (simp add: p_def arena_ok_def)
  then have so: "sub64 p (buddy_main b) = off" by (simp add: p_def wrap_simps)
  show thesis
  proof (cases "off mod ?al = 0")
    case False
    then have "starts_at b st p = {}" using node_off_dvd by (auto simp: starts_at_def p_def dvd_eq_mod_eq_0)
    moreover have "position_for_address b p = INVALID_POS"
      using False so by (simp add: position_for_address_def)
    ultimately show thesis by (rule none)
  next
    case True
    define x where "x = leaf_at ?o ?al off"
    note lf = leaf_at_level [OF eff ok(5), folded x_def]
    have pos: "position_for_address b p = (case position_for_address_loop (tree_of b) (pos_of x) of
        None \<Rightarrow> INVALID_POS
      | Some pos \<Rightarrow> if address_for_position b pos \<noteq> p then INVALID_POS else pos)"
      using so True deepest_position_leaf [OF assms(1) eff] by (simp add: position_for_address_def x_def)
    have up: "ancestor n x \<and> (\<forall>c. ancestor c x \<longrightarrow> ancestor n c \<longrightarrow> c \<noteq> n \<longrightarrow> st c = 0) \<and> st n \<noteq> 0"
      if n: "n \<in> starts_at b st p" for n
    proof -
      have nA: "n \<in> nodes b st" "node_off ?o ?al n = off" using n by (auto simp: starts_at_def p_def)
      have v: "valid_node ?o n" using nA by (simp add: allocated_def)
      have "ancestor n x"
        using block_iff_ancestor [OF v ok(7) eff] node_off_in_block [OF ok(7), of ?o n] nA(2) by (simp add: x_def)
      moreover have "st c = 0" if "ancestor c x" "ancestor n c" "c \<noteq> n" for c
      proof -
        have "n \<le> c" "c \<le> x" using that ancestor_le by auto
        then have "valid_node ?o c" using v lf(2) by (simp add: valid_node_def)
        then show ?thesis using allocated_zero_below [OF ok(3) nA(1) _ that(2)] that(3) by simp
      qed
      moreover have "st n \<noteq> 0" using nA(1) field_width_pos [OF v] by (simp add: allocated_def)
      ultimately show ?thesis by blast
    qed
    from position_loop_spec [OF ok(2) lf(2)] show thesis
    proof (elim disjE exE conjE)
      assume l: "position_for_address_loop (tree_of b) (pos_of x) = None" "\<forall>m. 0 < m \<longrightarrow> ancestor m x \<longrightarrow> st m = 0"
      have "0 < n" if "n \<in> starts_at b st p" for n using that by (simp add: starts_at_def allocated_def valid_node_def)
      then have "starts_at b st p = {}" using up l(2) by blast
      then show thesis using none pos l(1) by simp
    next
      fix m assume l: "position_for_address_loop (tree_of b) (pos_of x) = Some (pos_of m)"
        and m: "0 < m" "ancestor m x" "st m \<noteq> 0"
          "\<forall>c. ancestor c x \<longrightarrow> ancestor m c \<longrightarrow> c \<noteq> m \<longrightarrow> st c = 0"
      have vm: "valid_node ?o m" using m(1) ancestor_le [OF m(2)] lf(2) by (simp add: valid_node_def)
      have only: "n = m" if n: "n \<in> starts_at b st p" for n
      proof (rule ccontr)
        assume ne: "n \<noteq> m"
        have "ancestor n x" using up [OF n] by blast
        then consider "ancestor n m" | "ancestor m n" using ancestors_linear [OF _ m(2)] by blast
        then show False
        proof cases
          case 1
          then have "st m = 0" using up [OF n] m(2) ne by blast
          then show False using m(3) by simp
        next
          case 2
          then have "st n = 0" using m(4) \<open>ancestor n x\<close> ne by blast
          then show False using up [OF n] by blast
        qed
      qed
      have "off \<in> block ?o ?al m" using block_iff_ancestor [OF vm ok(7) eff] m(2) by (simp add: x_def)
      then have le: "node_off ?o ?al m \<le> off" by (simp add: block_def)
      then have addr: "address_for_position b (pos_of m) = buddy_main b + node_off ?o ?al m"
        using address_for_node [OF assms(1) vm] assms(2) by simp
      show thesis
      proof (cases "node_off ?o ?al m = off \<and> st m = field_width ?o m")
        case T: True
        have "m \<in> nodes b st" using found_full_allocated [OF ok(3) lf(2) _ m(1,2,4)] lf(1) ok(5) T by simp
        moreover from this have "starts_at b st p = {m}"
          using T assms(2) only by (auto simp: starts_at_def p_def)
        moreover have "position_for_address b p = pos_of m" using pos l addr T by (simp add: p_def)
        ultimately show thesis by (intro start)
      next
        case F: False
        have e: "starts_at b st p = {}"
        proof (rule ccontr)
          assume "starts_at b st p \<noteq> {}"
          then have "m \<in> starts_at b st p" using only by auto
          then show False using F by (auto simp: starts_at_def p_def allocated_def)
        qed
        show thesis
        proof (cases "node_off ?o ?al m = off")
          case True
          then have "position_for_address b p = pos_of m" using pos l addr by (simp add: p_def)
          then show thesis using e vm F True by (intro partly) simp_all
        next
          case False
          then have "position_for_address b p = INVALID_POS" using pos l addr by (simp add: p_def)
          with e show thesis by (rule none)
        qed
      qed
    qed
  qed
qed

lemma release_ok:
  assumes "buddy_ok b st" "n \<in> nodes b st" "node_off (border b) (alignment b) n < memory_size b"
  shows "buddy_ok (b\<lparr>tree_of := buddy_tree_release (tree_of b) (pos_of n)\<rparr>) (release_node (border b) st n)"
    and "nodes b (release_node (border b) st n) = nodes b st - {n}"
    and "border (b\<lparr>tree_of := buddy_tree_release (tree_of b) (pos_of n)\<rparr>) = border b"
proof -
  have v: "valid_node (border b) n" using assms(2) by (simp add: allocated_def)
  note m = release_repr [OF buddy_okD(2) [OF assms(1)] v]
    and sp = release_node_spec [OF buddy_okD(3) [OF assms(1)] assms(2)]
  show "nodes b (release_node (border b) st n) = nodes b st - {n}" by (rule sp)
  have "masked b (nodes b st - {n})" using buddy_okD(4) [OF assms(1)] assms(3) by (rule masked_remove)
  then show "buddy_ok (b\<lparr>tree_of := buddy_tree_release (tree_of b) (pos_of n)\<rparr>) (release_node (border b) st n)"
    using buddy_ok_tree [OF assms(1) m(2,1)] sp by simp
  show "border (b\<lparr>tree_of := buddy_tree_release (tree_of b) (pos_of n)\<rparr>) = border b" using m(2) by simp
qed

lemma release_partly:
  assumes "buddy_ok b st" "valid_node (border b) n" "st n \<noteq> field_width (border b) n"
  shows "buddy_tree_release (tree_of b) (pos_of n) = tree_of b"
  using internal_position_pos_of [OF tree_reprD(1) [OF buddy_okD(2) [OF assms(1)]] assms(2)]
    read_field [OF buddy_okD(2) [OF assms(1)] assms(2)] assms(3)
  by (simp add: buddy_tree_release_def)

text \<open>\<open>free\<close> of any address releases the block that starts there, and does nothing if there is none.\<close>

lemma buddy_free_cases:
  assumes "buddy_ok b st"
  obtains (noop) "starts_at b st p = {}" "buddy_free (Some b) p = Some b"
  | (released) n where "starts_at b st p = {n}" "n \<in> nodes b st"
      "node_off (border b) (alignment b) n < memory_size b" "p = buddy_main b + node_off (border b) (alignment b) n"
      "buddy_free (Some b) p = Some (b\<lparr>tree_of := buddy_tree_release (tree_of b) (pos_of n)\<rparr>)"
proof -
  note ok = buddy_okD [OF assms]
  have main: "0 < buddy_main b" using ok(1) by (simp add: arena_ok_def)
  show thesis
  proof (cases "in_arena b p")
    case False
    then have "starts_at b st p = {}" using in_arena_iff [OF ok(1)] by (auto simp: starts_at_def)
    then show thesis using False noop by simp
  next
    case True
    then obtain off where off: "off < memory_size b" "p = buddy_main b + off" using in_arena_iff [OF ok(1)] by auto
    have p: "p \<noteq> 0" using off main by simp
    have hd: "tree_header_ok (tree_of b)" using ok(2) by (rule tree_reprD)
    from assms off(1) show thesis
    proof (cases rule: position_for_address_cases)
      case none
      then show thesis using noop p True off(2)
        by (simp add: buddy_tree_valid_def INVALID_POS_def)
    next
      case (partly m)
      then have "buddy_free (Some b) p = Some b"
        using p True off(2) release_partly [OF assms partly(3,4)] by (simp add: Let_def)
      then show thesis using noop partly(1) off(2) by simp
    next
      case (start m)
      have "m \<in> starts_at b st p" using start(1) off(2) by simp
      then have m: "node_off (border b) (alignment b) m < memory_size b" "p = buddy_main b + node_off (border b) (alignment b) m"
        by (auto simp: starts_at_def)
      have "valid_node (border b) m" using start(3) by (simp add: allocated_def)
      then have "buddy_free (Some b) p = Some (b\<lparr>tree_of := buddy_tree_release (tree_of b) (pos_of m)\<rparr>)"
        using main True off(2) start(2) valid_pos_of [OF hd] by simp
      then show thesis using released [OF _ start(3) m] start(1) off(2) by simp
    qed
  qed
qed

end
