(* ===== verification/Buddy_Init.thy ===== *)
theory Buddy_Init
  imports Buddy_Correct
begin

text \<open>
  Initialisation of the buddy allocator: the tree has one leaf for each slot of the arena
  rounded up to a power of two, and the slots behind the arena are marked. The initialised
  allocator satisfies \<open>buddy_ok\<close> and no block of its arena is allocated.
\<close>

section \<open>Sizes\<close>

lemma bitlength_scaled:
  assumes "0 < q"
  shows "bitlength (q * 2 ^ k - 1) = bitlength (q - 1) + k"
proof -
  define j where "j = bitlength (q - 1)"
  have q: "q \<le> 2 ^ j" using less_two_power_bitlength [of "q - 1"] assms by (simp add: j_def)
  then have up: "q * 2 ^ k \<le> 2 ^ (j + k)" by (simp add: power_add)
  have pos: "0 < q * 2 ^ k" using assms by simp
  show ?thesis
  proof (cases "j + k")
    case 0
    then have "q * 2 ^ k = 1" using up pos by simp
    then show ?thesis using 0 by (simp add: j_def)
  next
    case (Suc i)
    have "2 ^ i < q * 2 ^ k"
    proof (cases j)
      case 0
      then have "q = 1" using q assms by simp
      then show ?thesis using Suc 0 by simp
    next
      case (Suc j')
      then have "q - 1 \<noteq> 0" by (auto simp: j_def)
      then have "2 ^ j' \<le> q - 1" using bitlength_lower [of "q - 1"] Suc by (simp add: j_def)
      then have "2 ^ j' < q" using assms by simp
      then have "2 ^ j' * 2 ^ k < q * 2 ^ k" by (intro mult_strict_right_mono) simp_all
      moreover have "i = j' + k" using \<open>j + k = Suc i\<close> Suc by simp
      ultimately show ?thesis by (simp add: power_add)
    qed
    then have "bitlength (q * 2 ^ k - 1) = Suc i"
      using up Suc by (intro bitlength_eqI) simp_all
    then show ?thesis using Suc by (simp add: j_def)
  qed
qed

lemma ceiling_power_of_two_scaled:
  assumes "0 < q" "q * 2 ^ k \<le> 2 ^ 63"
  shows "ceiling_power_of_two (q * 2 ^ k) = 2 ^ bitlength (q - 1) * 2 ^ k"
  using assms ceiling_power_of_two_eq [of "q * 2 ^ k"] bitlength_scaled [OF assms(1), of k] by (simp add: power_add)

lemma ceiling_power_of_two_range: "ceiling_power_of_two v = 0 \<or> (\<exists>k < 64. ceiling_power_of_two v = 2 ^ k)"
proof -
  define x where "x = sub64 (highest_bit_position (sub64 (add64 (add64 v (if v = 0 then 1 else 0))
    (add64 v (if v = 0 then 1 else 0))) 1)) 1"
  have c: "ceiling_power_of_two v = 2 ^ x mod 2 ^ 64"
    by (simp add: ceiling_power_of_two_def Let_def x_def two_to_the_power_of_def shl64_def wrap64_def)
  show ?thesis
  proof (cases "x < 64")
    case True
    then have "(2::nat) ^ x < 2 ^ 64" by (intro power_strict_increasing) simp_all
    then show ?thesis using c True by auto
  next
    case False
    then have "(2::nat) ^ 64 dvd 2 ^ x" by (intro le_imp_power_dvd) simp
    then show ?thesis using c by (simp add: dvd_imp_mod_0)
  qed
qed

lemma ceiling_power_of_two_self: "k < 64 \<Longrightarrow> ceiling_power_of_two (2 ^ k) = 2 ^ k"
  using ceiling_power_of_two_scaled [of 1 k] power_increasing [of k 63 "2::nat"] by simp

lemma is_valid_alignment_iff: "is_valid_alignment a \<longleftrightarrow> (\<exists>k < 64. a = 2 ^ k)"
proof
  assume v: "is_valid_alignment a"
  have "a \<noteq> 0"
  proof
    assume "a = 0"
    moreover have "ceiling_power_of_two 0 = 1"
      by (simp add: ceiling_power_of_two_def wrap_simps highest_bit_position_bitlength)
    ultimately show False using v by (simp add: is_valid_alignment_def)
  qed
  then show "\<exists>k < 64. a = 2 ^ k" using ceiling_power_of_two_range [of a] v by (auto simp: is_valid_alignment_def)
next
  assume "\<exists>k < 64. a = 2 ^ k"
  then show "is_valid_alignment a" using ceiling_power_of_two_self by (auto simp: is_valid_alignment_def)
qed

lemma order_for_memory:
  assumes "0 < q" "q \<le> 2 ^ 59"
  shows "buddy_tree_order_for_memory (q * 2 ^ k) (2 ^ k) = Suc (bitlength (q - 1))"
    and "bitlength (q - 1) \<le> 59"
proof -
  have "q - 1 < 2 ^ 59" using assms by simp
  then show b: "bitlength (q - 1) \<le> 59" by (simp only: bitlength_le_iff)
  have "ceiling_power_of_two q = 2 ^ bitlength (q - 1)" using assms by (simp add: ceiling_power_of_two_eq)
  moreover have "(2::nat) ^ bitlength (q - 1) \<le> 2 ^ 59" using b by (intro power_increasing) simp_all
  ultimately show "buddy_tree_order_for_memory (q * 2 ^ k) (2 ^ k) = Suc (bitlength (q - 1))"
    by (simp add: buddy_tree_order_for_memory_def highest_bit_position_bitlength)
qed

section \<open>Virtual slots\<close>

lemma child_available:
  fixes al :: nat
  assumes "valid_node ord n" "Suc (level n) < ord" "0 < al" "available ord st n" "c = 2 * n \<or> c = Suc (2 * n)"
  shows "available ord st c"
proof -
  have vc: "valid_node ord c" using valid_children [OF assms(1,2)] assms(5) by auto
  have "ancestor n c" using assms(5) ancestor_parent [of n c] by auto
  then have "block ord al c \<subseteq> block ord al n" using ancestor_block_subset assms(1,3) vc by blast
  then show ?thesis
    using assms(4) available_iff_covered [OF assms(1,3)] available_iff_covered [OF vc assms(3)] by blast
qed

definition masks :: "buddy \<Rightarrow> statuses \<Rightarrow> nat \<Rightarrow> nat \<Rightarrow> buddy_tree \<Rightarrow> bool" where
  "masks b st lo hi t \<longleftrightarrow> tree_order t = border b \<and> (\<exists>st'. tree_repr t st' \<and> tree_inv (border b) st' \<and>
     covered (border b) (alignment b) (nodes b st') = covered (border b) (alignment b) (nodes b st) \<union> {lo ..< hi} \<and>
     (\<forall>m \<in> nodes b st' - nodes b st. block (border b) (alignment b) m \<subseteq> {lo ..< hi}))"

lemma masks_extend:
  assumes "tree_order t = border b" "nodes b st \<subseteq> nodes b st1" "masks (b\<lparr>tree_of := t\<rparr>) st1 lo mid t'"
    and "covered (border b) (alignment b) (nodes b st1) = covered (border b) (alignment b) (nodes b st) \<union> {mid ..< hi}"
    and "\<forall>m \<in> nodes b st1 - nodes b st. block (border b) (alignment b) m \<subseteq> {mid ..< hi}" "lo \<le> mid" "mid \<le> hi"
  shows "masks b st lo hi t'"
proof -
  let ?c = "covered (border b) (alignment b)" and ?bl = "block (border b) (alignment b)"
  obtain st' where st': "tree_order t' = border b" "tree_repr t' st'" "tree_inv (border b) st'"
    "?c (nodes b st') = ?c (nodes b st1) \<union> {lo ..< mid}"
    "\<forall>m \<in> nodes b st' - nodes b st1. ?bl m \<subseteq> {lo ..< mid}"
    using assms(1,3) by (auto simp: masks_def)
  have "{lo ..< mid} \<union> {mid ..< hi} = {lo ..< hi}" using assms(6,7) by (rule ivl_disj_un)
  then have "?c (nodes b st') = ?c (nodes b st) \<union> {lo ..< hi}" using st'(4) assms(4) by blast
  moreover have "{lo ..< mid} \<subseteq> {lo ..< hi}" "{mid ..< hi} \<subseteq> {lo ..< hi}" using assms(6,7) by auto
  then have "\<forall>m \<in> nodes b st' - nodes b st. ?bl m \<subseteq> {lo ..< hi}"
    using st'(5) assms(5) by blast
  ultimately show ?thesis using st' unfolding masks_def by blast
qed

lemma mark_masks:
  assumes "arena_ok b" "tree_repr (tree_of b) st" "tree_inv (border b) st" "valid_node (border b) n"
    and "available (border b) st n"
  defines "lo \<equiv> node_off (border b) (alignment b) n"
  shows "masks b st lo (lo + node_size (border b) (alignment b) n) (buddy_tree_mark (tree_of b) (pos_of n))"
proof -
  note m = mark_repr [OF assms(2,4)] and sp = mark_node_spec [OF assms(3-5)]
  have "covered (border b) (alignment b) (insert n (nodes b st)) =
      covered (border b) (alignment b) (nodes b st) \<union> {lo ..< lo + node_size (border b) (alignment b) n}"
    by (auto simp: covered_def block_def lo_def)
  then show ?thesis unfolding masks_def
    by (intro conjI m(2) exI [of _ "mark_node (border b) st n"] m(1) sp(1)) (auto simp: sp(2) block_def lo_def)
qed

text \<open>
  The loop masks the last \<open>delta\<close> bytes of the block of a node; it ends because the blocks
  shrink down to a single slot.
\<close>

lemma toggle_virtual_loop_spec:
  assumes "arena_ok b" "tree_repr (tree_of b) st" "tree_inv (border b) st" "valid_node (border b) n"
    and "available (border b) st n" "0 < delta" "delta \<le> node_size (border b) (alignment b) n"
    and "alignment b dvd delta"
    and "hi = node_off (border b) (alignment b) n + node_size (border b) (alignment b) n"
  shows "\<exists>t'. toggle_virtual_loop b True (pos_of n) delta = Some (b\<lparr>tree_of := t'\<rparr>) \<and> masks b st (hi - delta) hi t'"
  using assms
proof (induction "border b - level n" arbitrary: b st n delta hi rule: less_induct)
  case less
  let ?o = "border b" and ?al = "alignment b"
  let ?s = "node_size ?o ?al n" and ?f = "node_off ?o ?al n"
  have n: "0 < n" using less.prems(4) by (simp add: valid_node_def)
  have al: "0 < ?al" using less.prems(1) by (auto simp: arena_ok_def)
  have ord: "?o \<le> 60" using less.prems(2) by (rule tree_reprD)
  have lv: "level n < 60" using level_64 [OF less.prems(4) ord] .
  have sz: "size_for_depth b (buddy_tree_depth (pos_of n)) = ?s"
    using size_for_depth_node [OF less.prems(1,4)] by (simp add: buddy_tree_depth_def pos_of_def)
  show ?case
  proof (cases "delta = ?s")
    case True
    have "toggle_virtual_loop b True (pos_of n) delta =
      Some (b\<lparr>tree_of := buddy_tree_mark (tree_of b) (pos_of n)\<rparr>)"
      using True sz less.prems(6) by (subst toggle_virtual_loop.simps) (simp add: toggle_def)
    then show ?thesis using mark_masks [OF less.prems(1-5)] True less.prems(9)
      by (intro exI [of _ "buddy_tree_mark (tree_of b) (pos_of n)"]) simp
  next
    case False
    have "Suc (level n) \<noteq> ?o"
    proof
      assume "Suc (level n) = ?o"
      then have "?s = ?al" by (simp add: node_size_def)
      moreover have "?al \<le> delta" using less.prems(6,8) by (simp add: dvd_imp_le)
      ultimately show False using False less.prems(7) by simp
    qed
    then have sl: "Suc (level n) < ?o" using level_less [OF less.prems(4)] by simp
    note v = valid_children [OF less.prems(4) sl] and ch = child_blocks [OF n sl, of ?al]
    have av: "available ?o st (2 * n)" "available ?o st (Suc (2 * n))"
      using child_available [OF less.prems(4) sl al less.prems(5)] by auto
    show ?thesis
    proof (cases "delta \<le> ?s div 2")
      case T: True
      have step: "toggle_virtual_loop b True (pos_of n) delta = toggle_virtual_loop b True (pos_of (Suc (2 * n))) delta"
        using False T sz less.prems(6) n lv by (subst toggle_virtual_loop.simps) (simp add: Let_def pos_simps)
      have hi: "node_off ?o ?al (Suc (2 * n)) + node_size ?o ?al (Suc (2 * n)) = hi"
        using ch less.prems(9) by simp
      show ?thesis unfolding step
        by (rule less.hyps [OF _ less.prems(1-3) v(2) av(2) less.prems(6) _ less.prems(8) hi [symmetric]])
          (use n sl T ch in simp_all)
    next
      case F: False
      let ?t = "buddy_tree_mark (tree_of b) (pos_of (Suc (2 * n)))"
      let ?b = "b\<lparr>tree_of := ?t\<rparr>" and ?st = "mark_node ?o st (Suc (2 * n))"
      have d: "sub64 delta (?s div 2) = delta - ?s div 2"
      proof (rule sub64_id)
        show "?s div 2 \<le> delta" using F by simp
        have "?s \<le> 2 ^ (?o - 1) * ?al" using block_bound [OF less.prems(4), of ?al] by simp
        then show "delta < 2 ^ 64" using less.prems(1,7) by (simp add: arena_ok_def)
      qed
      have step: "toggle_virtual_loop b True (pos_of n) delta =
          toggle_virtual_loop ?b True (pos_of (2 * n)) (delta - ?s div 2)"
        using False F sz less.prems(6) n lv d
        by (subst toggle_virtual_loop.simps) (simp add: Let_def pos_simps toggle_def)
      note m = mark_repr [OF less.prems(2) v(2)] and sp = mark_node_spec [OF less.prems(3) v(2) av(2)]
      have bo: "border ?b = ?o" using m(2) by simp
      have aok: "arena_ok ?b" using less.prems(1) bo by (simp add: arena_ok_def)
      have "\<not> clash (Suc (2 * n)) (2 * n)"
      proof -
        have "block ?o ?al (2 * n) \<inter> block ?o ?al (Suc (2 * n)) = {}" using ch by (simp add: block_def)
        then show ?thesis using clash_iff_blocks [OF v(2,1) al] by blast
      qed
      then have avl: "available ?o ?st (2 * n)" using av(1) sp(2) by (simp add: available_def)
      have "?al dvd ?s div 2"
        using ch(1) by (metis dvd_triv_right node_size_def)
      then have dv: "?al dvd delta - ?s div 2" using less.prems(8) by (rule dvd_diff_nat [rotated])
      have "\<exists>t'. toggle_virtual_loop ?b True (pos_of (2 * n)) (delta - ?s div 2) = Some (?b\<lparr>tree_of := t'\<rparr>) \<and>
        masks ?b ?st (?f + ?s div 2 - (delta - ?s div 2)) (?f + ?s div 2) t'"
        by (rule less.hyps [OF _ aok]) (use m sp avl v n sl F less.prems(6,7) ch dv in auto)
      then obtain t' where t': "toggle_virtual_loop ?b True (pos_of (2 * n)) (delta - ?s div 2) = Some (?b\<lparr>tree_of := t'\<rparr>)"
        "masks ?b ?st (?f + ?s div 2 - (delta - ?s div 2)) (?f + ?s div 2) t'" by blast
      have "masks b st (hi - delta) hi t'"
      proof (rule masks_extend [where t = ?t and mid = "?f + ?s div 2" and ?st1.0 = ?st])
        have half: "?s - ?s div 2 = ?s div 2" using ch(5) by linarith
        show "masks ?b ?st (hi - delta) (?f + ?s div 2) t'"
        proof -
          have "?f + ?s div 2 - (delta - ?s div 2) = hi - delta"
            using less.prems(9) ch(5) F less.prems(7) by linarith
          then show ?thesis using t'(2) by simp
        qed
        show "covered ?o ?al (nodes b ?st) = covered ?o ?al (nodes b st) \<union> {?f + ?s div 2 ..< hi}"
          using sp(2) ch less.prems(9) half by (auto simp: covered_def block_def)
        show "\<forall>m \<in> nodes b ?st - nodes b st. block ?o ?al m \<subseteq> {?f + ?s div 2 ..< hi}"
          using sp(2) ch less.prems(9) half by (auto simp: block_def)
      qed (use m(2) sp(2) less.prems(9) ch(5) F less.prems(7) in auto)
      then show ?thesis using step t'(1) by auto
    qed
  qed
qed

section \<open>The initialised allocator\<close>

lemma virtual_slots_ok:
  assumes "arena_ok b" "tree_repr (tree_of b) (\<lambda>_. 0)"
    and "2 ^ (border b - 1) * alignment b < 2 * memory_size b"
  shows "\<exists>t st. buddy_toggle_virtual_slots b True = Some (b\<lparr>tree_of := t\<rparr>) \<and> tree_order t = border b \<and>
    buddy_ok (b\<lparr>tree_of := t\<rparr>) st \<and> (\<forall>n \<in> nodes b st. memory_size b \<le> node_off (border b) (alignment b) n)"
proof -
  let ?o = "border b" and ?al = "alignment b" and ?eff = "2 ^ (border b - 1) * alignment b"
  have eff: "buddy_effective_memory_size b = ?eff" using assms(1) by (simp add: buddy_effective_memory_size_def arena_ok_def)
  have le: "memory_size b \<le> ?eff" and al: "0 < ?al" and bd: "?eff \<le> 2 ^ 63"
    using assms(1) by (auto simp: arena_ok_def)
  note empty = empty_tree_inv [of ?o]
  show ?thesis
  proof (cases "?eff = memory_size b")
    case True
    have "masked b (nodes b (\<lambda>_. 0))" using True empty(2) by (simp add: masked_def)
    then have "buddy_ok b (\<lambda>_. 0)" using assms(1,2) empty by (simp add: buddy_ok_def)
    then show ?thesis using True eff empty(2)
      by (intro exI [of _ "tree_of b"] exI [of _ "\<lambda>_. 0"]) (simp add: buddy_toggle_virtual_slots_def)
  next
    case False
    define delta where "delta = ?eff - memory_size b"
    have dvd: "?al dvd delta" unfolding delta_def using assms(1) by (intro dvd_diff_nat) (auto simp: arena_ok_def)
    have "1 < ?o"
    proof (rule ccontr)
      assume "\<not> 1 < ?o"
      then have "?o \<le> 1" by simp
      moreover have "?al \<le> memory_size b" using assms(1) by (auto simp: arena_ok_def dvd_imp_le)
      ultimately show False using False le by simp
    qed
    then have o2: "level 1 = 0" "Suc (level 1) < ?o" "0 < (1::nat)" by simp_all
    have v1: "valid_node ?o 1" using \<open>1 < ?o\<close> by (intro level_less_imp_valid) simp_all
    note v3 = valid_children(2) [OF v1 o2(2)] and ch = child_blocks [OF o2(3,2), of ?al]
    have root: "node_off ?o ?al 1 = 0" "node_size ?o ?al 1 = ?eff" by (simp_all add: node_off_def node_size_def)
    have av: "available ?o (\<lambda>_. 0) 3" using empty(2) by (simp add: available_def)
    have sub: "sub64 ?eff (memory_size b) = delta" using le bd by (simp add: delta_def wrap_simps)
    have pos: "buddy_tree_right_child buddy_tree_root = pos_of 3" by (simp add: pos_simps numeral_3_eq_3)
    have "delta \<le> ?eff div 2" unfolding delta_def using assms(3) by linarith
    then have d: "0 < delta" "delta \<le> node_size ?o ?al 3" "node_off ?o ?al 3 + node_size ?o ?al 3 = ?eff"
      using False le assms(3) ch root by (simp_all add: delta_def numeral_3_eq_3 del: One_nat_def)
    obtain t where t: "toggle_virtual_loop b True (pos_of 3) delta = Some (b\<lparr>tree_of := t\<rparr>)"
      "masks b (\<lambda>_. 0) (?eff - delta) ?eff t"
      using toggle_virtual_loop_spec [OF assms(1,2) empty(1) _ av d(1,2) dvd d(3) [symmetric]] v3
      by (auto simp: numeral_3_eq_3)
    then obtain st where st: "tree_order t = ?o" "tree_repr t st" "tree_inv ?o st"
      "covered ?o ?al (nodes b st) = {memory_size b ..< ?eff}"
      "\<forall>m \<in> nodes b st. block ?o ?al m \<subseteq> {memory_size b ..< ?eff}"
      using empty(2) le by (auto simp: masks_def delta_def covered_def)
    have behind: "\<forall>n \<in> nodes b st. memory_size b \<le> node_off ?o ?al n"
      using st(5) node_off_in_block [OF al] by fastforce
    then have "masked b (nodes b st)" using st(4) by (simp add: masked_def)
    then have "buddy_ok (b\<lparr>tree_of := t\<rparr>) st"
      using st(1-3) assms(1) by (simp add: buddy_ok_def arena_ok_def masked_def)
    moreover have "buddy_toggle_virtual_slots b True = Some (b\<lparr>tree_of := t\<rparr>)"
      using False eff sub pos t(1) by (simp add: buddy_toggle_virtual_slots_def)
    ultimately show ?thesis using st(1) behind by blast
  qed
qed

text \<open>
  The alignment is a power of two, the arena holds at least one slot and at most \<open>2 ^ 59\<close>, and
  it does not wrap around the address space.
\<close>

definition init_pre :: "addr \<Rightarrow> addr \<Rightarrow> size_t \<Rightarrow> size_t \<Rightarrow> bool" where
  "init_pre at main ms al \<longleftrightarrow> at \<noteq> 0 \<and> main \<noteq> 0 \<and> at \<noteq> main \<and> at mod 8 = 0 \<and> main mod 8 = 0 \<and>
     is_valid_alignment al \<and> al \<le> ms \<and> ms div al \<le> 2 ^ 59 \<and> ms \<le> 2 ^ 63 \<and> main + ms < 2 ^ 64"

lemma sizeof_alignment_pos:
  assumes "0 < q" "q \<le> 2 ^ 59" "k < 64"
  shows "buddy_sizeof_alignment (q * 2 ^ k) (2 ^ k) \<noteq> 0"
proof -
  let ?ord = "Suc (bitlength (q - 1))"
  note o = order_for_memory [OF assms(1,2)]
  have ord: "?ord \<le> 60" using o(2) by simp
  have tb: "tree_bits ?ord < 2 ^ 61" using ord by (rule tree_bits_less)
  have "padded_bitset_size ?ord \<le> tree_bits ?ord + 15"
  proof -
    have "(tree_bits ?ord + 7) div 8 \<le> tree_bits ?ord + 7" by (rule div_le_dividend)
    moreover have "(tree_bits ?ord + 7) div 8 mod 8 < 8" by simp
    ultimately show ?thesis using padded_bitset_size_eq [OF ord] by linarith
  qed
  then have "padded_bitset_size ?ord < 2 ^ 62" using tb by simp
  then have "buddy_tree_sizeof ?ord = 24 + padded_bitset_size ?ord + (?ord + 2) * 8"
    "buddy_tree_sizeof ?ord < 2 ^ 63"
    using ord by (simp_all add: buddy_tree_sizeof_def sizeof_buddy_tree_def wrap_simps)
  moreover have "u8 ?ord = ?ord" using ord by (simp add: wrap_simps)
  moreover have "is_valid_alignment (2 ^ k)" using assms(3) is_valid_alignment_iff by blast
  ultimately show ?thesis
    using assms(1) o(1) [of k] by (simp add: buddy_sizeof_alignment_def sizeof_buddy_def wrap_simps)
qed

lemma buddy_init_ok:
  assumes "init_pre at main ms al"
  shows "\<exists>b st. buddy_init_alignment mem at main ms al = Some (Some b) \<and> buddy_ok b st \<and>
    buddy_main b = main \<and> memory_size b = ms - ms mod al \<and> alignment b = al \<and>
    buddy_flags b = 0 \<and> arena b = main \<and> buddy_at b = at \<and>
    (\<forall>n \<in> nodes b st. memory_size b \<le> node_off (border b) al n)"
proof -
  obtain k where k: "k < 64" "al = 2 ^ k" using assms is_valid_alignment_iff by (auto simp: init_pre_def)
  define q where "q = ms div al"
  have q: "0 < q" "q \<le> 2 ^ 59" using assms k by (auto simp: q_def init_pre_def div_greater_zero_iff)
  have ms: "ms - ms mod al = q * 2 ^ k" using k by (simp add: q_def minus_mod_eq_div_mult)
  have le: "q * 2 ^ k \<le> ms" using ms by (metis diff_le_self)
  have trim: "(if ms mod al \<noteq> 0 then sub64 ms (ms mod al) else ms) = q * 2 ^ k"
    using ms assms by (auto simp: init_pre_def wrap_simps)
  define j where "j = bitlength (q - 1)"
  note o = order_for_memory [OF q, folded j_def]
  have u: "u8 (Suc j) = Suc j" using o(2) by (simp add: wrap_simps)
  have ord: "1 \<le> Suc j" "Suc j \<le> 60" using o(2) by simp_all
  define b where "b = \<lparr>buddy_at = at, memory_size = q * 2 ^ k, alignment = al, arena = main, buddy_flags = 0,
    tree_of = buddy_tree_init (\<lambda>i. mem (at + sizeof_buddy + sizeof_buddy_tree + i)) (Suc j)\<rparr>"
  note ir = init_repr [OF ord, of "\<lambda>i. mem (at + sizeof_buddy + sizeof_buddy_tree + i)"]
  have bo: "border b = Suc j" using ir(2) by (simp add: b_def)
  have main: "buddy_main b = main" by (simp add: buddy_main_def buddy_relative_mode_def b_def u32_def)
  have ceil: "ceiling_power_of_two (q * 2 ^ k) = 2 ^ j * 2 ^ k"
    using ceiling_power_of_two_scaled [OF q(1), of k] le assms by (simp add: j_def init_pre_def)
  have "q \<le> 2 ^ j" using less_two_power_bitlength [of "q - 1"] q(1) by (simp add: j_def)
  then have up: "q * 2 ^ k \<le> 2 ^ j * 2 ^ k" by (rule mult_le_mono1)
  have "2 ^ j < 2 * q"
  proof (cases j)
    case (Suc i)
    then have "q - 1 \<noteq> 0" by (auto simp: j_def)
    then have "2 ^ i \<le> q - 1" using bitlength_lower [of "q - 1"] Suc by (simp add: j_def)
    then show ?thesis using Suc q(1) by simp
  qed (use q(1) in simp)
  then have half: "2 ^ j * 2 ^ k < 2 * (q * 2 ^ k)" by simp
  have "2 ^ j * 2 ^ k \<le> (2::nat) ^ 63"
  proof -
    have "2 ^ j * 2 ^ k < 2 * ms" using half le by linarith
    then have "2 ^ (j + k) < (2::nat) ^ 64" using assms by (simp add: power_add init_pre_def)
    then have "j + k < 64" by (rule power_less_imp_less_exp [rotated]) simp
    then have "(2::nat) ^ (j + k) \<le> 2 ^ 63" by (intro power_increasing) simp_all
    then show ?thesis by (simp add: power_add)
  qed
  then have "arena_ok b"
    using bo main ceil up k q(1) le assms by (auto simp: arena_ok_def b_def init_pre_def)
  moreover have "tree_repr (tree_of b) (\<lambda>_. 0)" using ir(1) by (simp add: b_def)
  ultimately obtain t st where t: "buddy_toggle_virtual_slots b True = Some (b\<lparr>tree_of := t\<rparr>)" "tree_order t = border b"
    "buddy_ok (b\<lparr>tree_of := t\<rparr>) st" "\<forall>n \<in> nodes b st. memory_size b \<le> node_off (border b) (alignment b) n"
    using virtual_slots_ok [of b] bo half by (auto simp: b_def k(2))
  have "buddy_init_alignment mem at main ms al = map_option Some (buddy_toggle_virtual_slots b True)"
    using assms sizeof_alignment_pos [OF q k(1)] o(1) u k(2)
    by (unfold buddy_init_alignment_def trim) (simp add: init_pre_def alignof_buddy_def Let_def b_def)
  moreover have "memory_size b = q * 2 ^ k" "alignment b = al" "buddy_flags b = 0" "arena b = main" "buddy_at b = at"
    by (simp_all add: b_def)
  ultimately show ?thesis
    using t main ms by (intro exI [of _ "b\<lparr>tree_of := t\<rparr>"] exI [of _ st]) simp
qed

end
