(* ===== verification/Allocator_Interface.thy ===== *)
theory Allocator_Interface
  imports Prelude
begin

text \<open>
  The contract of a block allocator, as the kernel's clients rely on it. A state has a set of
  live blocks, pairs of an address and a size; \<open>alloc\<close> returns the null pointer and leaves the
  state alone or adds a block that is large enough and meets no other, and \<open>dealloc\<close> of any
  address removes the block that starts there. The client lemmas are about sequences of
  requests.
\<close>

type_synonym blocks = "(addr \<times> nat) set"

definition extent :: "addr \<times> nat \<Rightarrow> addr set" where
  "extent a = {fst a ..< fst a + snd a}"

datatype request = Alloc size_t | Free addr

locale block_allocator =
  fixes ok :: "'s \<Rightarrow> bool"
    and live :: "'s \<Rightarrow> blocks"
    and alloc :: "'s \<Rightarrow> size_t \<Rightarrow> addr \<times> 's"
    and dealloc :: "'s \<Rightarrow> addr \<Rightarrow> 's"
  assumes alloc_ok: "ok s \<Longrightarrow> alloc s n = (p, s') \<Longrightarrow> ok s'"
    and alloc_null: "ok s \<Longrightarrow> alloc s n = (0, s') \<Longrightarrow> s' = s"
    and alloc_live: "ok s \<Longrightarrow> alloc s n = (p, s') \<Longrightarrow> p \<noteq> 0 \<Longrightarrow>
      \<exists>sz. n \<le> sz \<and> live s' = insert (p, sz) (live s) \<and> (\<forall>a \<in> live s. extent (p, sz) \<inter> extent a = {})"
    and live_nonempty: "ok s \<Longrightarrow> a \<in> live s \<Longrightarrow> fst a \<noteq> 0 \<and> snd a \<noteq> 0"
    and live_disjoint: "ok s \<Longrightarrow> a \<in> live s \<Longrightarrow> b \<in> live s \<Longrightarrow> a \<noteq> b \<Longrightarrow> extent a \<inter> extent b = {}"
    and dealloc_ok: "ok s \<Longrightarrow> ok (dealloc s p)"
    and dealloc_live: "ok s \<Longrightarrow> live (dealloc s p) = {a \<in> live s. fst a \<noteq> p}"
begin

fun serve :: "'s \<Rightarrow> request \<Rightarrow> 's" where
  "serve s (Alloc n) = snd (alloc s n)"
| "serve s (Free p) = dealloc s p"

lemma address_unique:
  assumes "ok s" "(p, m) \<in> live s" "(p, n) \<in> live s"
  shows "m = n"
proof (rule ccontr)
  assume "m \<noteq> n"
  then have "extent (p, m) \<inter> extent (p, n) = {}" using live_disjoint [OF assms] by simp
  moreover have "0 < m" "0 < n" using live_nonempty [OF assms(1)] assms(2,3) by force+
  ultimately show False by (auto simp: extent_def)
qed

lemma new_block_fresh:
  assumes "ok s" "alloc s n = (p, s')" "p \<noteq> 0"
  shows "p \<notin> fst ` live s"
proof
  assume "p \<in> fst ` live s"
  then obtain m where m: "(p, m) \<in> live s" by auto
  obtain sz where sz: "live s' = insert (p, sz) (live s)" "\<forall>a \<in> live s. extent (p, sz) \<inter> extent a = {}"
    using alloc_live [OF assms] by blast
  have "0 < m" using live_nonempty [OF assms(1) m] by simp
  moreover have "0 < sz" using live_nonempty [OF alloc_ok [OF assms(1,2)], of "(p, sz)"] sz(1) by simp
  ultimately show False using sz(2) m by (auto simp: extent_def)
qed

lemma alloc_dealloc:
  assumes "ok s" "alloc s n = (p, s')" "p \<noteq> 0"
  shows "live (dealloc s' p) = live s"
proof -
  obtain sz where sz: "live s' = insert (p, sz) (live s)" using alloc_live [OF assms] by blast
  have "\<forall>a \<in> live s. fst a \<noteq> p" using new_block_fresh [OF assms] by auto
  then show ?thesis using dealloc_live [OF alloc_ok [OF assms(1,2)], of p] sz by auto
qed

lemma dealloc_twice: "ok s \<Longrightarrow> live (dealloc (dealloc s p) p) = live (dealloc s p)"
  using dealloc_live [of "dealloc s p" p] dealloc_ok [of s p] dealloc_live [of s p] by auto

lemma serve_ok: "ok s \<Longrightarrow> ok (serve s r)"
proof (cases r)
  case (Alloc n)
  assume "ok s"
  then show ?thesis using Alloc alloc_ok [of s n "fst (alloc s n)" "snd (alloc s n)"] by simp
qed (simp add: dealloc_ok)

lemma run_ok: "ok s \<Longrightarrow> ok (foldl serve s rs)"
  by (induction rs arbitrary: s) (simp_all add: serve_ok)

text \<open>A block stays live until a request frees its address.\<close>

lemma serve_keeps:
  assumes "ok s" "a \<in> live s" "r \<noteq> Free (fst a)"
  shows "a \<in> live (serve s r)"
proof (cases r)
  case (Alloc n)
  obtain p s' where ps: "alloc s n = (p, s')" by (cases "alloc s n")
  show ?thesis
  proof (cases "p = 0")
    case True
    then show ?thesis using alloc_null [OF assms(1)] ps assms(2) Alloc by auto
  next
    case False
    then obtain sz where "live s' = insert (p, sz) (live s)" using alloc_live [OF assms(1) ps] by blast
    then show ?thesis using ps assms(2) Alloc by simp
  qed
next
  case (Free p)
  then show ?thesis using assms dealloc_live [OF assms(1)] by auto
qed

lemma run_keeps: "ok s \<Longrightarrow> a \<in> live s \<Longrightarrow> Free (fst a) \<notin> set rs \<Longrightarrow> a \<in> live (foldl serve s rs)"
proof (induction rs arbitrary: s)
  case (Cons r rs)
  then show ?case using serve_ok [of s r] serve_keeps [of s a r] by auto
qed simp

end

end
