(* ===== verification/Buddy_Contract.thy ===== *)
theory Buddy_Contract
  imports Buddy_Init Allocator_Interface
begin

text \<open>
  The buddy allocator implements the contract of a block allocator: its live blocks are the
  blocks of the allocated nodes that start inside the arena. The theory reads the statuses
  back from the bitset, so the invariant and the live blocks are functions of the allocator
  alone.
\<close>

declare buddy_malloc.simps [simp del] buddy_free.simps [simp del]

section \<open>Statuses read back\<close>

lemma childless_cong:
  "valid_node ord n \<Longrightarrow> (\<And>m. valid_node ord m \<Longrightarrow> st m = st' m) \<Longrightarrow> childless ord st n = childless ord st' n"
  using valid_children [of ord n] level_less [of ord n] by (auto simp: childless_def leaf_node_def)

lemma node_ok_cong:
  assumes "valid_node ord n" "\<And>m. valid_node ord m \<Longrightarrow> st m = st' m"
  shows "node_ok ord st n = node_ok ord st' n"
proof (cases "leaf_node ord n")
  case True
  then show ?thesis using assms by (simp add: node_ok_def childless_def)
next
  case False
  then have "Suc (level n) < ord" using level_less [OF assms(1)] by (simp add: leaf_node_def)
  then show ?thesis
    using assms valid_children [OF assms(1)] by (simp add: node_ok_def childless_def)
qed

lemma statuses_cong:
  assumes "\<And>m. valid_node ord m \<Longrightarrow> st m = st' m"
  shows "tree_inv ord st = tree_inv ord st'" "allocated ord st = allocated ord st'"
  using node_ok_cong [OF _ assms] childless_cong [OF _ assms] assms
  by (auto simp: tree_inv_def allocated_def)

definition st_of :: "buddy \<Rightarrow> statuses" where
  "st_of b n = buddy_tree_status (tree_of b) (pos_of n)"

definition buddy_inv :: "buddy \<Rightarrow> bool" where
  "buddy_inv b \<longleftrightarrow> buddy_ok b (st_of b)"

definition live_nodes :: "buddy \<Rightarrow> nat set" where
  "live_nodes b = {n \<in> nodes b (st_of b). node_off (border b) (alignment b) n < memory_size b}"

definition node_block :: "buddy \<Rightarrow> nat \<Rightarrow> addr \<times> nat" where
  "node_block b n = (buddy_main b + node_off (border b) (alignment b) n, node_size (border b) (alignment b) n)"

definition live :: "buddy \<Rightarrow> blocks" where
  "live b = node_block b ` live_nodes b"

lemma st_of_eq: "buddy_ok b st \<Longrightarrow> valid_node (border b) n \<Longrightarrow> st_of b n = st n"
  using status_repr buddy_okD(2) by (simp add: st_of_def)

lemma buddy_ok_inv:
  assumes "buddy_ok b st"
  shows "buddy_inv b" "nodes b (st_of b) = nodes b st"
proof -
  note eq = statuses_cong [of "border b" "st_of b" st, OF st_of_eq [OF assms]]
  show n: "nodes b (st_of b) = nodes b st" using eq(2) .
  have "tree_repr (tree_of b) (st_of b)"
    using buddy_okD(2) [OF assms] st_of_eq [OF assms] by (simp add: tree_repr_def)
  then show "buddy_inv b" using assms eq n by (simp add: buddy_inv_def buddy_ok_def)
qed

section \<open>Live blocks\<close>

lemma live_blocks_disjoint:
  assumes "buddy_inv b" "m \<in> live_nodes b" "n \<in> live_nodes b" "m \<noteq> n"
  shows "extent (node_block b m) \<inter> extent (node_block b n) = {}"
proof -
  let ?o = "border b" and ?al = "alignment b"
  note ok = buddy_okD [OF assms(1) [unfolded buddy_inv_def]]
  have v: "m \<in> nodes b (st_of b)" "n \<in> nodes b (st_of b)" "valid_node ?o m" "valid_node ?o n"
    using assms(2,3) by (auto simp: live_nodes_def allocated_def)
  then have "\<not> clash m n" using allocated_antichain [OF ok(3)] assms(4) by (auto simp: clash_def)
  then have "block ?o ?al m \<inter> block ?o ?al n = {}" using blocks_disjoint v(3,4) ok(7) by blast
  then show ?thesis by (fastforce simp: extent_def node_block_def block_def)
qed

lemma node_block_inj: "buddy_inv b \<Longrightarrow> inj_on (node_block b) (live_nodes b)"
proof (rule inj_onI)
  fix m n assume a: "buddy_inv b" "m \<in> live_nodes b" "n \<in> live_nodes b" "node_block b m = node_block b n"
  have "0 < node_size (border b) (alignment b) n"
    using a(1) buddy_okD(7) by (auto simp: buddy_inv_def intro: node_size_pos)
  then have "extent (node_block b m) \<inter> extent (node_block b n) \<noteq> {}"
    using a(4) by (auto simp: extent_def node_block_def)
  then show "m = n" using live_blocks_disjoint a by blast
qed

lemma live_in_arena:
  assumes "buddy_inv b" "a \<in> live b"
  shows "extent a \<subseteq> {buddy_main b ..< buddy_main b + memory_size b}" "fst a \<noteq> 0" "snd a \<noteq> 0"
    "alignment b dvd fst a - buddy_main b"
proof -
  note ok = buddy_okD [OF assms(1) [unfolded buddy_inv_def]]
  obtain n where n: "n \<in> live_nodes b" "a = node_block b n" using assms(2) by (auto simp: live_def)
  then have "node_off (border b) (alignment b) n + node_size (border b) (alignment b) n \<le> memory_size b"
    using ok(4) by (auto simp: masked_def live_nodes_def)
  then show "extent a \<subseteq> {buddy_main b ..< buddy_main b + memory_size b}"
    using n(2) by (auto simp: extent_def node_block_def)
  show "fst a \<noteq> 0" using n(2) ok(1) by (simp add: node_block_def arena_ok_def)
  show "snd a \<noteq> 0" using n(2) node_size_pos [OF ok(7), of "border b" n] by (simp add: node_block_def)
  show "alignment b dvd fst a - buddy_main b" using n(2) node_off_dvd by (simp add: node_block_def)
qed

lemma live_tree:
  assumes "buddy_ok (b\<lparr>tree_of := t\<rparr>) st" "tree_order t = border b"
  shows "live (b\<lparr>tree_of := t\<rparr>) =
    node_block b ` {n \<in> nodes b st. node_off (border b) (alignment b) n < memory_size b}"
  using buddy_ok_inv(2) [OF assms(1)] assms(2)
  by (simp add: live_def live_nodes_def node_block_def [abs_def])

lemma mark_live:
  assumes "buddy_inv b" "valid_node (border b) n" "available (border b) (st_of b) n"
  shows "buddy_inv (b\<lparr>tree_of := buddy_tree_mark (tree_of b) (pos_of n)\<rparr>)"
    and "live (b\<lparr>tree_of := buddy_tree_mark (tree_of b) (pos_of n)\<rparr>) = insert (node_block b n) (live b)"
    and "a \<in> live b \<Longrightarrow> extent (node_block b n) \<inter> extent a = {}"
proof -
  have ok: "buddy_ok b (st_of b)" using assms(1) by (simp add: buddy_inv_def)
  note m = mark_ok [OF ok assms(2,3)]
  have tb: "tree_order (buddy_tree_mark (tree_of b) (pos_of n)) = border b"
    using mark_repr(2) [OF buddy_okD(2) [OF ok] assms(2)] .
  show inv: "buddy_inv (b\<lparr>tree_of := buddy_tree_mark (tree_of b) (pos_of n)\<rparr>)" using buddy_ok_inv(1) [OF m(1)] .
  have "node_off (border b) (alignment b) n < memory_size b"
    using available_in_arena [OF ok assms(2,3)] node_size_pos [OF buddy_okD(7) [OF ok], of "border b" n] by linarith
  then have "{k \<in> insert n (nodes b (st_of b)). node_off (border b) (alignment b) k < memory_size b} = insert n (live_nodes b)"
    by (auto simp: live_nodes_def)
  then show eq: "live (b\<lparr>tree_of := buddy_tree_mark (tree_of b) (pos_of n)\<rparr>) = insert (node_block b n) (live b)"
    using live_tree [OF m(1) tb] m(2) by (simp add: live_def)
  assume "a \<in> live b"
  then obtain k where k: "k \<in> live_nodes b" "a = node_block b k" by (auto simp: live_def)
  have "\<not> clash k n" using assms(3) k(1) by (simp add: available_def live_nodes_def)
  then have "block (border b) (alignment b) k \<inter> block (border b) (alignment b) n = {}"
    using blocks_disjoint assms(2) buddy_okD(7) [OF ok] k(1) by (auto simp: live_nodes_def allocated_def)
  then show "extent (node_block b n) \<inter> extent a = {}"
    using k(2) by (fastforce simp: extent_def node_block_def block_def)
qed

lemma release_live:
  assumes "buddy_inv b" "n \<in> live_nodes b"
  shows "buddy_inv (b\<lparr>tree_of := buddy_tree_release (tree_of b) (pos_of n)\<rparr>)"
    and "live (b\<lparr>tree_of := buddy_tree_release (tree_of b) (pos_of n)\<rparr>) = live b - {node_block b n}"
proof -
  have ok: "buddy_ok b (st_of b)" using assms(1) by (simp add: buddy_inv_def)
  have n: "n \<in> nodes b (st_of b)" "node_off (border b) (alignment b) n < memory_size b"
    using assms(2) by (auto simp: live_nodes_def)
  note m = release_ok [OF ok n]
  show "buddy_inv (b\<lparr>tree_of := buddy_tree_release (tree_of b) (pos_of n)\<rparr>)" using buddy_ok_inv(1) [OF m(1)] .
  have "live (b\<lparr>tree_of := buddy_tree_release (tree_of b) (pos_of n)\<rparr>) = node_block b ` (live_nodes b - {n})"
    using live_tree [OF m(1)] m(2,3) by (auto simp: live_nodes_def)
  also have "\<dots> = live b - {node_block b n}"
    using inj_on_image_set_diff [OF node_block_inj [OF assms(1)], of "live_nodes b" "{n}"] assms(2) by (simp add: live_def)
  finally show "live (b\<lparr>tree_of := buddy_tree_release (tree_of b) (pos_of n)\<rparr>) = live b - {node_block b n}" .
qed

section \<open>The contract\<close>

lemma starts_at_live:
  "buddy_inv b \<Longrightarrow> starts_at b (st_of b) p = {n \<in> live_nodes b. fst (node_block b n) = p}"
  by (auto simp: starts_at_def live_nodes_def node_block_def)

lemma malloc_live:
  assumes "buddy_inv b" "buddy_malloc (Some b) requested = (p, bp)"
  obtains (null) "p = 0" "bp = Some b"
  | (block) b' n where "p \<noteq> 0" "bp = Some b'" "buddy_inv b'" "p = fst (node_block b n)"
      "requested \<le> snd (node_block b n)" "snd (node_block b n) < 2 * max (max 1 requested) (alignment b)"
      "live b' = insert (node_block b n) (live b)" "\<And>a. a \<in> live b \<Longrightarrow> extent (node_block b n) \<inter> extent a = {}"
proof -
  have ok: "buddy_ok b (st_of b)" using assms(1) by (simp add: buddy_inv_def)
  have mx: "(if requested = 0 then 1 else requested) = max 1 requested" by auto
  from ok show thesis
  proof (cases rule: buddy_malloc_cases [where requested = requested])
    case too_large
    then show thesis using null assms(2) by simp
  next
    case (full d)
    then show thesis using null assms(2) by simp
  next
    case (found n)
    note m = mark_live [OF assms(1) found(2,3)]
    have "p \<noteq> 0" using found(6) assms(2) buddy_okD(1) [OF ok] by (simp add: arena_ok_def)
    moreover have "p = fst (node_block b n)" "bp = Some (b\<lparr>tree_of := buddy_tree_mark (tree_of b) (pos_of n)\<rparr>)"
      using found(6) assms(2) by (simp_all add: node_block_def)
    moreover have "requested \<le> snd (node_block b n)" "snd (node_block b n) < 2 * max (max 1 requested) (alignment b)"
      using found(4,5) by (simp_all add: mx node_block_def)
    ultimately show thesis using block m by blast
  qed
qed

lemma malloc_keeps_arena:
  "buddy_malloc (Some b) requested = (p, Some b') \<Longrightarrow>
    buddy_main b' = buddy_main b \<and> memory_size b' = memory_size b \<and> alignment b' = alignment b"
  by (auto simp: buddy_malloc.simps Let_def split: if_splits)

lemma malloc_block:
  assumes "buddy_inv b" "buddy_malloc (Some b) requested = (p, bp)" "p \<noteq> 0"
  obtains b' sz where "bp = Some b'" "buddy_inv b'" "requested \<le> sz" "1 \<le> sz"
    "sz < 2 * max (max 1 requested) (alignment b)" "sz dvd p - buddy_main b"
    "extent (p, sz) \<subseteq> {buddy_main b ..< buddy_main b + memory_size b}"
    "live b' = insert (p, sz) (live b)" "\<forall>a \<in> live b. extent (p, sz) \<inter> extent a = {}"
    "\<exists>j. sz = 2 ^ j * alignment b"
proof -
  from assms(1,2) show thesis
  proof (cases rule: malloc_live)
    case (block b' n)
    define sz where "sz = snd (node_block b n)"
    have nb: "node_block b n = (p, sz)" using block(4) by (simp add: sz_def)
    have "sz dvd p - buddy_main b" using block(4) by (simp add: sz_def node_block_def node_off_def)
    moreover have lv: "(p, sz) \<in> live b'" using block(7) nb by simp
    then have "extent (p, sz) \<subseteq> {buddy_main b ..< buddy_main b + memory_size b}" "1 \<le> sz"
      using live_in_arena(1,3) [OF block(3) lv] malloc_keeps_arena [OF assms(2) [unfolded block(2)]]
      by simp_all
    moreover have "\<forall>a \<in> live b. extent (p, sz) \<inter> extent a = {}" using block(8) unfolding nb by blast
    moreover have "\<exists>j. sz = 2 ^ j * alignment b" by (auto simp: sz_def node_block_def node_size_def)
    ultimately show thesis using block(2,3,5-7) unfolding nb snd_conv by (intro that)
  qed (use assms(3) in simp)
qed

lemma free_live:
  assumes "buddy_inv b"
  obtains b' where "buddy_free (Some b) p = Some b'" "buddy_inv b'" "live b' = {a \<in> live b. fst a \<noteq> p}"
    "buddy_main b' = buddy_main b" "memory_size b' = memory_size b"
proof -
  have ok: "buddy_ok b (st_of b)" using assms(1) by (simp add: buddy_inv_def)
  from ok show thesis
  proof (cases rule: buddy_free_cases [where p = p])
    case noop
    then have "\<forall>a \<in> live b. fst a \<noteq> p" using starts_at_live [OF assms] by (auto simp: live_def)
    then show thesis using that [of b] noop(2) assms by auto
  next
    case (released n)
    have n: "n \<in> live_nodes b" using released by (simp add: live_nodes_def)
    note r = release_live [OF assms n]
    have "a = node_block b n" if "a \<in> live b" "fst a = p" for a
      using that released(1) starts_at_live [OF assms, of p] by (auto simp: live_def)
    moreover have "fst (node_block b n) = p" using released(4) by (simp add: node_block_def)
    ultimately have "live b - {node_block b n} = {a \<in> live b. fst a \<noteq> p}" by auto
    then show thesis
      using that [of "b\<lparr>tree_of := buddy_tree_release (tree_of b) (pos_of n)\<rparr>"] r released(5) by simp
  qed
qed

text \<open>The allocator as the provider of the interface.\<close>

definition buddy_alloc :: "buddy \<Rightarrow> size_t \<Rightarrow> addr \<times> buddy" where
  "buddy_alloc b n = (let (p, bp) = buddy_malloc (Some b) n in (p, the bp))"

definition buddy_dealloc :: "buddy \<Rightarrow> addr \<Rightarrow> buddy" where
  "buddy_dealloc b p = the (buddy_free (Some b) p)"

interpretation buddy: block_allocator buddy_inv live buddy_alloc buddy_dealloc
proof (unfold_locales, goal_cases)
  case (1 b n p b')
  obtain q bp where m: "buddy_malloc (Some b) n = (q, bp)" by (cases "buddy_malloc (Some b) n")
  from 1(1) m show ?case using 1 m by (cases rule: malloc_live) (auto simp: buddy_alloc_def)
next
  case (2 b n b')
  obtain p bp where m: "buddy_malloc (Some b) n = (p, bp)" by (cases "buddy_malloc (Some b) n")
  from 2(1) m show ?case using 2(2) m by (cases rule: malloc_live) (auto simp: buddy_alloc_def)
next
  case (3 b n p b')
  obtain q bp where m: "buddy_malloc (Some b) n = (q, bp)" by (cases "buddy_malloc (Some b) n")
  from 3(1) m show ?case
  proof (cases rule: malloc_live)
    case (block b'' k)
    then have "p = fst (node_block b k)" "b' = b''" using 3(2) m by (simp_all add: buddy_alloc_def)
    then have "n \<le> snd (node_block b k) \<and> live b' = insert (p, snd (node_block b k)) (live b) \<and>
        (\<forall>a \<in> live b. extent (p, snd (node_block b k)) \<inter> extent a = {})"
      using block(5,7,8) by simp
    then show ?thesis by blast
  qed (use 3 m in \<open>auto simp: buddy_alloc_def\<close>)
next
  case (4 b a)
  then show ?case using live_in_arena by blast
next
  case (5 b a c)
  then obtain m n where "m \<in> live_nodes b" "n \<in> live_nodes b" "a = node_block b m" "c = node_block b n"
    by (auto simp: live_def)
  then show ?case using live_blocks_disjoint [OF 5(1), of m n] 5(4) by auto
next
  case (6 b p)
  show ?case by (rule free_live [OF 6, of p]) (simp add: buddy_dealloc_def)
next
  case (7 b p)
  show ?case by (rule free_live [OF 7, of p]) (simp add: buddy_dealloc_def)
qed

section \<open>When an allocation fails\<close>

text \<open>
  The size of the blocks a request is served from, and the slots of that size: \<open>malloc\<close> of a
  request that fits into the arena returns the null pointer only if each slot meets a block.
\<close>

definition slot_size :: "buddy \<Rightarrow> size_t \<Rightarrow> nat" where
  "slot_size b requested = size_for_depth b (depth_for_size b (max 1 requested))"

lemma malloc_null_full:
  assumes "buddy_inv b" "max 1 requested \<le> memory_size b" "fst (buddy_malloc (Some b) requested) = 0"
    and "(k + 1) * slot_size b requested \<le> memory_size b"
  shows "\<exists>a \<in> live b. extent a \<inter> extent (buddy_main b + k * slot_size b requested, slot_size b requested) \<noteq> {}"
proof -
  let ?o = "border b" and ?al = "alignment b" and ?r = "max 1 requested"
  have ok: "buddy_ok b (st_of b)" using assms(1) by (simp add: buddy_inv_def)
  note okD = buddy_okD [OF ok]
  have mx: "(if requested = 0 then 1 else requested) = ?r" by auto
  have main: "0 < buddy_main b" using okD(1) by (simp add: arena_ok_def)
  obtain d where d: "depth_for_size b ?r = Suc d" "d < ?o"
    "\<And>n. valid_node ?o n \<Longrightarrow> level n = d \<Longrightarrow> \<not> available ?o (st_of b) n"
    using ok
  proof (cases rule: buddy_malloc_cases [where requested = requested])
    case too_large
    then show thesis using assms(2) unfolding mx by linarith
  next
    case (full d)
    then show thesis using that [of d] by (simp add: mx)
  next
    case (found n)
    then show thesis using assms(3) main by simp
  qed
  have "level (2 ^ d) = d" by (rule level_eqI) simp_all
  then have v0: "valid_node ?o (2 ^ d)" using d(2) by (intro level_less_imp_valid) simp_all
  have S: "slot_size b requested = 2 ^ (?o - Suc d) * ?al"
    using size_for_depth_node [OF okD(1) v0] d(1) \<open>level (2 ^ d) = d\<close> by (simp add: slot_size_def node_size_def)
  define w where "w = 2 ^ (?o - Suc d) * ?al"
  have "?o - 1 = d + (?o - Suc d)" using d(2) by simp
  then have eff: "2 ^ (?o - 1) * ?al = 2 ^ d * w" by (simp add: w_def power_add)
  have "(k + 1) * w \<le> 2 ^ d * w"
    using order_trans [OF assms(4) [unfolded S, folded w_def]] okD(1) eff by (simp add: arena_ok_def)
  moreover have "0 < w" using okD(7) by (simp add: w_def)
  ultimately have k: "k < 2 ^ d" unfolding mult_le_cancel2 by simp
  define n where "n = 2 ^ d + k"
  have lv: "level n = d" unfolding n_def by (rule level_eqI) (use k in simp_all)
  have v: "valid_node ?o n" using d(2) lv by (intro level_less_imp_valid) (simp_all add: n_def)
  have bl: "block ?o ?al n = {k * slot_size b requested ..< k * slot_size b requested + slot_size b requested}"
    using lv S by (simp add: block_def node_off_def node_size_def n_def)
  obtain m where m: "m \<in> nodes b (st_of b)" "clash m n" using d(3) [OF v lv] by (auto simp: available_def)
  have vm: "valid_node ?o m" using m(1) by (simp add: allocated_def)
  obtain x where x: "x \<in> block ?o ?al m" "x \<in> block ?o ?al n" using clash_iff_blocks [OF vm v okD(7)] m(2) by blast
  have "x < memory_size b" using x(2) bl assms(4) by simp
  then have "m \<in> live_nodes b" using m(1) x(1) by (simp add: live_nodes_def block_def)
  moreover have "buddy_main b + x \<in> extent (node_block b m)" using x(1) by (simp add: extent_def node_block_def block_def)
  moreover have "buddy_main b + x \<in> extent (buddy_main b + k * slot_size b requested, slot_size b requested)"
    using x(2) bl by (simp add: extent_def)
  ultimately show ?thesis unfolding live_def by blast
qed

lemma slot_size_bounds:
  assumes "buddy_inv b" "max 1 requested \<le> memory_size b"
  obtains j where "slot_size b requested = 2 ^ j * alignment b" "max 1 requested \<le> slot_size b requested"
    "slot_size b requested < 2 * max (max 1 requested) (alignment b)"
proof -
  have ok: "buddy_ok b (st_of b)" using assms(1) by (simp add: buddy_inv_def)
  have "0 < max 1 requested" by simp
  then obtain d where d: "depth_for_size b (max 1 requested) = Suc d" "d < border b"
    "\<And>n. valid_node (border b) n \<Longrightarrow> level n = d \<Longrightarrow>
       max 1 requested \<le> node_size (border b) (alignment b) n \<and>
       node_size (border b) (alignment b) n < 2 * max (max 1 requested) (alignment b)"
    using depth_for_size_spec [OF ok _ assms(2)] by metis
  have l: "level (2 ^ d) = d" by (rule level_eqI) simp_all
  then have v: "valid_node (border b) (2 ^ d)" using d(2) by (intro level_less_imp_valid) simp_all
  have "slot_size b requested = node_size (border b) (alignment b) (2 ^ d)"
    using size_for_depth_node [OF buddy_okD(1) [OF ok] v] d(1) l by (simp add: slot_size_def)
  then show thesis using that d(3) [OF v l] by (simp add: node_size_def)
qed

lemma init_live:
  assumes "init_pre at main ms al"
  obtains b where "buddy_init_alignment mem at main ms al = Some (Some b)" "buddy_inv b" "live b = {}"
    "buddy_main b = main" "memory_size b = ms - ms mod al" "alignment b = al"
proof -
  obtain b st where b: "buddy_init_alignment mem at main ms al = Some (Some b)" "buddy_ok b st"
    "buddy_main b = main" "memory_size b = ms - ms mod al" "alignment b = al"
    "\<forall>n \<in> nodes b st. memory_size b \<le> node_off (border b) al n"
    using buddy_init_ok [OF assms] by blast
  note inv = buddy_ok_inv [OF b(2)]
  have "live b = {}" using b(5,6) inv(2) by (auto simp: live_def live_nodes_def)
  then show thesis using that b inv(1) by blast
qed

end
