(* ===== verification/Buddy_Properties.thy ===== *)
theory Buddy_Properties
  imports Buddy_Contract
begin

text \<open>
  The properties of the buddy allocator, with an allocator over a 1000 byte arena (rounded down
  to 960 bytes, so with virtual slots) as the concrete instance.
\<close>

section \<open>A concrete allocator\<close>

definition sample_buddy :: buddy where
  "sample_buddy = the (the (buddy_init_alignment (\<lambda>_. 0) 65536 4096 1000 64))"

lemma sample_pre: "init_pre 65536 4096 1000 64"
proof -
  have "is_valid_alignment 64" unfolding is_valid_alignment_iff by (rule exI [of _ 6]) simp
  then show ?thesis by (simp add: init_pre_def)
qed

lemma sample_buddy_facts:
  "buddy_inv sample_buddy" "live sample_buddy = {}" "buddy_main sample_buddy = 4096"
  "memory_size sample_buddy = 960" "alignment sample_buddy = 64"
proof -
  obtain b where b: "buddy_init_alignment (\<lambda>_. 0) 65536 4096 1000 64 = Some (Some b)" "buddy_inv b" "live b = {}"
    "buddy_main b = 4096" "memory_size b = 1000 - 1000 mod 64" "alignment b = 64"
    by (rule init_live [OF sample_pre])
  then have "sample_buddy = b" by (simp add: sample_buddy_def)
  then show "buddy_inv sample_buddy" "live sample_buddy = {}" "buddy_main sample_buddy = 4096"
    "memory_size sample_buddy = 960" "alignment sample_buddy = 64" using b by simp_all
qed

lemma slot_size_le:
  assumes "buddy_inv b" "max 1 r \<le> memory_size b" "alignment b = 64" "r \<le> 2 ^ k * 64"
  shows "slot_size b r \<le> 2 ^ k * 64"
proof -
  obtain j where j: "slot_size b r = 2 ^ j * 64" "slot_size b r < 2 * max (max 1 r) 64"
    by (rule slot_size_bounds [OF assms(1,2)]) (use assms in auto)
  have "(1::nat) \<le> 2 ^ k" by simp
  then have "max (max 1 r) 64 \<le> 2 ^ k * 64" using assms(4) by linarith
  then have "(2::nat) ^ j * 64 < 2 * (2 ^ k * 64)" using j by linarith
  then have "(2::nat) ^ j < 2 ^ Suc k" by simp
  then have "j \<le> k" using power_less_imp_less_exp [of "2::nat" j "Suc k"] by simp
  then have "(2::nat) ^ j \<le> 2 ^ k" by (intro power_increasing) simp_all
  then show ?thesis using j(1) by simp
qed

lemma small_slot:
  assumes "buddy_inv b" "memory_size b = 960" "alignment b = 64" "r \<le> 512"
  shows "slot_size b r \<le> 512"
  using slot_size_le [OF assms(1) _ assms(3), of r 3] assms by simp

lemma sample_malloc_serves:
  assumes "r \<le> 512"
  shows "fst (buddy_malloc (Some sample_buddy) r) \<noteq> 0"
proof
  assume z: "fst (buddy_malloc (Some sample_buddy) r) = 0"
  note s = sample_buddy_facts
  have le: "max 1 r \<le> memory_size sample_buddy" using s(4) assms by simp
  show False using malloc_null_full [OF s(1) le z, of 0] s small_slot [OF s(1,4,5) assms] by simp
qed

text \<open>The allocator after a request for 512 bytes: no second one fits before the end of the arena.\<close>

definition half_full_buddy :: buddy where
  "half_full_buddy = the (snd (buddy_malloc (Some sample_buddy) 512))"

lemma sample_slot_off:
  assumes "buddy_inv b" "buddy_main b = 4096" "memory_size b = 960" "alignment b = 64"
    and "buddy_malloc (Some b) 512 = (p, bp)" "p \<noteq> 0"
  obtains b' sz where "p = 4096" "bp = Some b'" "buddy_inv b'" "live b' = insert (4096, sz) (live b)"
    "512 \<le> sz" "\<forall>a \<in> live b. extent (4096, sz) \<inter> extent a = {}"
proof (rule malloc_block [OF assms(1,5,6)])
  fix b' sz assume a: "bp = Some b'" "buddy_inv b'" "512 \<le> sz" "sz dvd p - buddy_main b"
    "extent (p, sz) \<subseteq> {buddy_main b ..< buddy_main b + memory_size b}"
    "live b' = insert (p, sz) (live b)" "\<forall>a \<in> live b. extent (p, sz) \<inter> extent a = {}"
  have "p \<in> extent (p, sz)" "p + sz - 1 \<in> extent (p, sz)" using a(3) by (auto simp: extent_def)
  then have "4096 \<le> p" "p + sz - 1 < 5056" using a(5) assms(2,3) by (auto dest: subsetD)
  moreover from this have "p - 4096 < sz" using a(3) by simp
  ultimately have "p = 4096" using a(4) assms(2) by (auto dest: dvd_imp_le)
  then show thesis using that a by blast
qed

lemma half_full_facts:
  "buddy_inv half_full_buddy" "\<exists>sz \<ge> 512. live half_full_buddy = {(4096, sz)}" "buddy_main half_full_buddy = 4096"
  "memory_size half_full_buddy = 960" "alignment half_full_buddy = 64"
proof -
  note s = sample_buddy_facts
  obtain p bp where m: "buddy_malloc (Some sample_buddy) 512 = (p, bp)" by (cases "buddy_malloc (Some sample_buddy) 512")
  then have "p \<noteq> 0" using sample_malloc_serves [of 512] by simp
  then obtain b' sz where b': "bp = Some b'" "buddy_inv b'" "live b' = insert (4096, sz) (live sample_buddy)" "512 \<le> sz"
    using sample_slot_off [OF s(1,3-5) m] by blast
  then have "half_full_buddy = b'" using m by (simp add: half_full_buddy_def)
  then show "buddy_inv half_full_buddy" "\<exists>sz \<ge> 512. live half_full_buddy = {(4096, sz)}"
    "buddy_main half_full_buddy = 4096" "memory_size half_full_buddy = 960" "alignment half_full_buddy = 64"
    using b' s malloc_keeps_arena [OF m [unfolded b'(1)]] by auto
qed

lemma half_full_refuses: "fst (buddy_malloc (Some half_full_buddy) 512) = 0"
proof (rule ccontr)
  assume ne: "fst (buddy_malloc (Some half_full_buddy) 512) \<noteq> 0"
  obtain p bp where m: "buddy_malloc (Some half_full_buddy) 512 = (p, bp)" by (cases "buddy_malloc (Some half_full_buddy) 512")
  obtain sz where sz: "512 \<le> sz" "live half_full_buddy = {(4096, sz)}" using half_full_facts(2) by blast
  obtain sz' where "512 \<le> sz'" "\<forall>a \<in> live half_full_buddy. extent (4096, sz') \<inter> extent a = {}"
    using sample_slot_off [OF half_full_facts(1,3-5) m] ne m by auto
  then show False using sz by (auto simp: extent_def)
qed

section \<open>Properties\<close>

text \<open>
  C13: \<open>buddy_init\<close> succeeds on every arena that holds at least one aligned slot, and the
  result is consistent, manages the arena trimmed to the alignment and has no live block.
\<close>

theorem buddy_init_spec:
  assumes "init_pre at main ms al"
  shows "\<exists>b. buddy_init_alignment mem at main ms al = Some (Some b) \<and> buddy_inv b \<and> live b = {} \<and>
    buddy_main b = main \<and> memory_size b = ms - ms mod al \<and> alignment b = al"
  by (rule init_live [OF assms, of mem]) blast

theorem buddy_init_spec_witness:
  "\<exists>b. buddy_init_alignment (\<lambda>_. 0) 65536 4096 1000 64 = Some (Some b) \<and> buddy_inv b \<and> live b = {} \<and>
    buddy_main b = 4096 \<and> memory_size b = 960 \<and> alignment b = 64"
  using buddy_init_spec [OF sample_pre, of "\<lambda>_. 0"] by simp

text \<open>
  C1: \<open>buddy_malloc\<close> on a consistent allocator either returns the null pointer and changes
  nothing, or returns the address of a new block that is at least as large as requested and
  less than twice as large as the request rounded up to the alignment, naturally aligned,
  inside the arena and disjoint from every live block; the allocator stays consistent and the
  other live blocks stay.
\<close>

theorem buddy_malloc_spec:
  assumes "buddy_inv b"
  shows "case buddy_malloc (Some b) requested of (p, bp) \<Rightarrow>
    \<exists>b'. bp = Some b' \<and> buddy_inv b' \<and>
      (if p = 0 then b' = b
       else \<exists>sz. requested \<le> sz \<and> sz < 2 * max (max 1 requested) (alignment b) \<and> sz dvd p - buddy_main b \<and>
         extent (p, sz) \<subseteq> {buddy_main b ..< buddy_main b + memory_size b} \<and>
         live b' = insert (p, sz) (live b) \<and> (\<forall>a \<in> live b. extent (p, sz) \<inter> extent a = {}))"
proof -
  obtain p bp where m: "buddy_malloc (Some b) requested = (p, bp)" by (cases "buddy_malloc (Some b) requested")
  show ?thesis
  proof (cases "p = 0")
    case True
    from assms m show ?thesis by (cases rule: malloc_live) (use m True assms in auto)
  next
    case False
    show ?thesis by (rule malloc_block [OF assms m False]) (use m False in auto)
  qed
qed

theorem buddy_malloc_spec_witness:
  "case buddy_malloc (Some sample_buddy) 100 of (p, bp) \<Rightarrow>
    p \<noteq> 0 \<and> (\<exists>b'. bp = Some b' \<and> buddy_inv b' \<and>
      (\<exists>sz. 100 \<le> sz \<and> sz < 200 \<and> extent (p, sz) \<subseteq> {4096 ..< 5056} \<and> live b' = {(p, sz)}))"
  using buddy_malloc_spec [OF sample_buddy_facts(1), of 100] sample_malloc_serves [of 100] sample_buddy_facts(2-5)
  by (auto split: prod.splits)

text \<open>
  C12: \<open>buddy_malloc\<close> finds a block whenever there is one: if it returns the null pointer for a
  request that fits into the arena, then every naturally aligned slot of the size the request
  is served with meets a live block.
\<close>

theorem buddy_malloc_complete:
  assumes "buddy_inv b" "max 1 requested \<le> memory_size b" "fst (buddy_malloc (Some b) requested) = 0"
  shows "\<forall>k. (k + 1) * slot_size b requested \<le> memory_size b \<longrightarrow>
    (\<exists>a \<in> live b. extent a \<inter> extent (buddy_main b + k * slot_size b requested, slot_size b requested) \<noteq> {})"
  using malloc_null_full [OF assms] by blast

theorem buddy_malloc_complete_witness:
  "slot_size half_full_buddy 512 \<le> 512 \<and>
   (\<exists>a \<in> live half_full_buddy. extent a \<inter> extent (4096, slot_size half_full_buddy 512) \<noteq> {})"
  using spec [OF buddy_malloc_complete [OF half_full_facts(1) _ half_full_refuses], of 0] half_full_facts(3,4)
    small_slot [OF half_full_facts(1,4,5), of 512] by simp

text \<open>
  C2: \<open>buddy_free\<close> of any address, allocated or not, removes the live block that starts there
  and no other; the allocator stays consistent.
\<close>

theorem buddy_free_spec:
  assumes "buddy_inv b"
  shows "\<exists>b'. buddy_free (Some b) p = Some b' \<and> buddy_inv b' \<and> live b' = {a \<in> live b. fst a \<noteq> p}"
  by (rule free_live [OF assms, of p]) blast

theorem buddy_free_spec_witness:
  "\<exists>b'. buddy_free (Some sample_buddy) 4160 = Some b' \<and> buddy_inv b' \<and> live b' = {}"
  using buddy_free_spec [OF sample_buddy_facts(1), of 4160] sample_buddy_facts(2) by simp

end
