(* ===== verification/Buddy_Walk.thy ===== *)
theory Buddy_Walk
  imports Buddy_Properties
begin

text \<open>
  The walks over the allocation tree of \<open>src/kernel/mm/buddy.h\<close>: the walk state and its step, and
  the operations that inspect an allocator by a walk (its free size, its blocks, its
  fragmentation, the check of its invariant). A walk is shown to be a recursive traversal, so
  the inspections are properties of the blocks.
\<close>

section \<open>The walk\<close>

record buddy_tree_walk_state =
  starting_pos :: buddy_tree_pos
  current_pos :: buddy_tree_pos
  going_up :: bool
  walk_done :: bool

definition buddy_tree_walk_state_root :: buddy_tree_walk_state where
  "buddy_tree_walk_state_root =
     \<lparr>starting_pos = buddy_tree_root, current_pos = buddy_tree_root, going_up = False, walk_done = False\<rparr>"

text \<open>The body of the loop of \<open>buddy_tree_walk\<close>.\<close>

definition walk_step :: "buddy_tree \<Rightarrow> buddy_tree_walk_state \<Rightarrow> buddy_tree_walk_state" where
  "walk_step t s =
     (if going_up s then
        if pos_index (current_pos s) = pos_index (starting_pos s) then s\<lparr>walk_done := True, going_up := False\<rparr>
        else if pos_index (current_pos s) AND 1 \<noteq> 0 then s\<lparr>current_pos := buddy_tree_parent (current_pos s)\<rparr>
        else s\<lparr>current_pos := buddy_tree_right_adjacent (current_pos s), going_up := False\<rparr>
      else if buddy_tree_valid t (buddy_tree_left_child (current_pos s))
      then s\<lparr>current_pos := buddy_tree_left_child (current_pos s)\<rparr>
      else s\<lparr>going_up := True\<rparr>)"

function buddy_tree_walk :: "buddy_tree \<Rightarrow> buddy_tree_walk_state \<Rightarrow> buddy_tree_walk_state" where
  "buddy_tree_walk t s =
     (let s = walk_step t s in if going_up s then buddy_tree_walk t s else s)"
  by pat_completeness auto
termination
  by (relation "measure (\<lambda>(t, s). 2 * pos_index (current_pos s) + (if going_up s then 0 else 1))")
    (auto simp: walk_step_def buddy_tree_parent_def and_one_eq odd_iff_mod_2_eq_one split: if_splits)

declare buddy_tree_walk.simps [simp del]

text \<open>
  The loops over a walk have one shape, a body and the step as the condition. The body goes on
  as it is, sets \<open>going_up\<close>, or returns.
\<close>

datatype visit = Descend | Ascend | Return

partial_function (option) walk_loop ::
  "buddy_tree \<Rightarrow> (buddy_tree_pos \<Rightarrow> 'a \<Rightarrow> 'a \<times> visit) \<Rightarrow> buddy_tree_walk_state \<Rightarrow> 'a \<Rightarrow> 'a option" where
  "walk_loop t body s a =
     (case body (current_pos s) a of
        (a, v) \<Rightarrow>
          if v = Return then Some a
          else let s = buddy_tree_walk t (if v = Ascend then s\<lparr>going_up := True\<rparr> else s)
               in if walk_done s then Some a else walk_loop t body s a)"

declare walk_loop.simps [code]

section \<open>Inspections\<close>

text \<open>The status of a position that is taken as a whole.\<close>

definition full_status :: "buddy_tree \<Rightarrow> buddy_tree_pos \<Rightarrow> size_t" where
  "full_status t pos = add64 (sub64 (buddy_tree_order t) (pos_depth pos)) 1"

definition free_size_body :: "buddy \<Rightarrow> buddy_tree_pos \<Rightarrow> size_t \<Rightarrow> size_t \<times> visit" where
  "free_size_body b pos result =
     (let pos_status = buddy_tree_status (tree_of b) pos
      in if pos_status = full_status (tree_of b) pos then (result, Ascend)
         else if pos_status = 0 then (add64 result (size_for_depth b (pos_depth pos)), Ascend)
         else (result, Descend))"

definition buddy_arena_free_size :: "buddy \<Rightarrow> size_t option" where
  "buddy_arena_free_size b = walk_loop (tree_of b) (free_size_body b) buddy_tree_walk_state_root 0"

text \<open>
  The callback of \<open>buddy_walk\<close> gets the context, an address, a size and whether the slot is
  allocated; it returns a pointer and the context it leaves.
\<close>

type_synonym 'c walk_callback = "'c \<Rightarrow> addr \<Rightarrow> size_t \<Rightarrow> bool \<Rightarrow> addr \<times> 'c"

definition walk_body :: "buddy \<Rightarrow> 'c walk_callback \<Rightarrow> buddy_tree_pos \<Rightarrow> addr \<times> 'c \<Rightarrow> (addr \<times> 'c) \<times> visit" where
  "walk_body b fp pos r =
     (let t = tree_of b; pos_status = buddy_tree_status t pos
      in if pos_status \<noteq> full_status t pos then (r, Descend)
         else let test_pos = buddy_tree_left_child pos
         in if buddy_tree_valid t test_pos \<and> buddy_tree_status t test_pos \<noteq> 0 then (r, Descend)
         else let pos_size = shr (buddy_effective_memory_size b) (sub64 (pos_depth pos) 1);
                  addr = address_for_position b pos
         in if add64 (sub64 addr (buddy_main b)) pos_size > memory_size b then ((0, snd r), Return)
         else let r = fp (snd r) addr pos_size (pos_status > 0)
         in (r, if fst r \<noteq> 0 then Return else Ascend))"

definition buddy_walk :: "buddy option \<Rightarrow> 'c walk_callback option \<Rightarrow> 'c \<Rightarrow> (addr \<times> 'c) option" where
  "buddy_walk b fp ctx =
     (case (b, fp) of
        (Some b, Some fp) \<Rightarrow> walk_loop (tree_of b) (walk_body b fp) buddy_tree_walk_state_root (0, ctx)
      | _ \<Rightarrow> Some (0, ctx))"

definition fragmentation_body :: "buddy_tree \<Rightarrow> buddy_tree_pos \<Rightarrow> size_t \<times> size_t \<Rightarrow> (size_t \<times> size_t) \<times> visit" where
  "fragmentation_body t pos q =
     (case q of (quality, total_free_size) \<Rightarrow>
        let pos_status = buddy_tree_status t pos
        in if pos_status = 0 then
             let virtual_size = two_to_the_power_of (sub64 (buddy_tree_order t) (pos_depth pos) mod 63)
             in ((add64 quality (mul64 virtual_size virtual_size), add64 total_free_size virtual_size), Ascend)
           else if pos_status = full_status t pos then (q, Ascend)
           else (q, Descend))"

definition fragmentation_of :: "size_t \<Rightarrow> size_t \<Rightarrow> nat" where
  "fragmentation_of quality total_free_size =
     (let quality_percent = shl64 (integer_square_root quality) 8 div total_free_size;
          quality_percent = mul64 quality_percent quality_percent;
          quality_percent = shr quality_percent 8
      in 255 - (quality_percent AND 255))"

definition buddy_tree_fragmentation :: "buddy_tree \<Rightarrow> nat option" where
  "buddy_tree_fragmentation t =
     (if buddy_tree_status t buddy_tree_root = 0 then Some 0
      else case walk_loop t (fragmentation_body t) buddy_tree_walk_state_root (0, 0) of
             None \<Rightarrow> None
           | Some (quality, total_free_size) \<Rightarrow>
               Some (if total_free_size = 0 then 0 else fragmentation_of quality total_free_size))"

definition buddy_fragmentation :: "buddy option \<Rightarrow> nat option" where
  "buddy_fragmentation b = (case b of None \<Rightarrow> Some 0 | Some b \<Rightarrow> buddy_tree_fragmentation (tree_of b))"

text \<open>The check of the invariant walks the tree, but its body looks at the position it was called with.\<close>

definition invariant_violated :: "buddy_tree \<Rightarrow> buddy_tree_pos \<Rightarrow> bool" where
  "invariant_violated t pos =
     (let current_internal = buddy_tree_internal_position_tree t pos;
          current_status = read_from_internal_position (buddy_tree_bits t) current_internal;
          left_child_status = buddy_tree_status t (buddy_tree_left_child pos);
          right_child_status = buddy_tree_status t (buddy_tree_right_child pos)
      in if left_child_status \<noteq> 0 \<or> right_child_status \<noteq> 0
         then current_status \<noteq> add64 (if left_child_status \<le> right_child_status then left_child_status else right_child_status) 1
         else current_status > 0 \<and> current_status < local_offset current_internal)"

definition buddy_tree_check_invariant :: "buddy_tree \<Rightarrow> buddy_tree_pos \<Rightarrow> bool option" where
  "buddy_tree_check_invariant t pos =
     walk_loop t (\<lambda>_ failed. (failed \<or> invariant_violated t pos, Descend))
       (buddy_tree_walk_state_root\<lparr>current_pos := pos\<rparr>) False"

section \<open>A walk is a traversal\<close>

fun traverse :: "nat \<Rightarrow> (buddy_tree_pos \<Rightarrow> 'a \<Rightarrow> 'a \<times> visit) \<Rightarrow> nat \<Rightarrow> 'a \<Rightarrow> 'a \<times> bool" where
  "traverse d body n a =
     (case body (pos_of n) a of
        (a, v) \<Rightarrow>
          if v = Return then (a, True)
          else if v = Ascend \<or> d = 0 then (a, False)
          else case traverse (d - 1) body (2 * n) a of
                 (a, stop) \<Rightarrow> if stop then (a, True) else traverse (d - 1) body (Suc (2 * n)) a)"

declare traverse.simps [simp del]

definition walk_at :: "nat \<Rightarrow> buddy_tree_walk_state" where
  "walk_at n = \<lparr>starting_pos = buddy_tree_root, current_pos = pos_of n, going_up = False, walk_done = False\<rparr>"

text \<open>What the loop does once the subtree of a node is done.\<close>

definition resume :: "buddy_tree \<Rightarrow> (buddy_tree_pos \<Rightarrow> 'a \<Rightarrow> 'a \<times> visit) \<Rightarrow> nat \<Rightarrow> 'a \<Rightarrow> 'a option" where
  "resume t body n a =
     (let s = buddy_tree_walk t ((walk_at n)\<lparr>going_up := True\<rparr>)
      in if walk_done s then Some a else walk_loop t body s a)"

lemma pos_index_pos_of [simp]: "pos_index (pos_of n) = n" "pos_depth (pos_of n) = Suc (level n)"
  by (simp_all add: pos_of_def)

lemma right_adjacent_pos_of:
  assumes "0 < n" "level n < 60"
  shows "buddy_tree_right_adjacent (pos_of (2 * n)) = pos_of (Suc (2 * n))"
proof -
  have "Suc (2 * n) = 2 * n XOR 1" by (simp add: xor_Suc_0_eq)
  then have "Suc (2 * n) XOR (2 * n) = 1" by (simp add: xor.left_commute xor.commute)
  moreover have "add64 (2 * n) 1 = Suc (2 * n)" using node_less_64 [OF assms(2)] by (simp add: wrap_simps)
  ultimately show ?thesis using assms(1) by (simp add: buddy_tree_right_adjacent_def pos_of_def)
qed

lemma walk_up_root: "buddy_tree_walk t ((walk_at 1)\<lparr>going_up := True\<rparr>) = (walk_at 1)\<lparr>walk_done := True\<rparr>"
  by (subst buddy_tree_walk.simps) (simp add: walk_step_def walk_at_def root_pos_of)

lemma walk_up_left:
  assumes "0 < n" "level n < 60"
  shows "buddy_tree_walk t ((walk_at (2 * n))\<lparr>going_up := True\<rparr>) = walk_at (Suc (2 * n))"
  using assms right_adjacent_pos_of [OF assms]
  by (subst buddy_tree_walk.simps) (simp add: walk_step_def walk_at_def root_pos_of and_one_eq)

lemma walk_up_right:
  assumes "0 < n" "level n < 59"
  shows "buddy_tree_walk t ((walk_at (Suc (2 * n)))\<lparr>going_up := True\<rparr>) = buddy_tree_walk t ((walk_at n)\<lparr>going_up := True\<rparr>)"
  using assms parent_pos_of [of "Suc (2 * n)"]
  by (subst buddy_tree_walk.simps) (simp add: walk_step_def walk_at_def root_pos_of and_one_eq)

lemma walk_down:
  assumes "tree_header_ok t" "valid_node (tree_order t) n" "Suc (level n) < tree_order t"
  shows "buddy_tree_walk t (walk_at n) = walk_at (2 * n)"
proof -
  have "tree_order t \<le> 60" using assms(1) by (simp add: tree_header_ok_def)
  then have "buddy_tree_left_child (pos_of n) = pos_of (2 * n)"
    using left_child_pos_of [of n] level_64 [OF assms(2)] assms(2) by (simp add: valid_node_def)
  moreover have "buddy_tree_valid t (pos_of (2 * n))"
    using valid_pos_of [OF assms(1)] valid_children [OF assms(2,3)] by simp
  ultimately show ?thesis by (subst buddy_tree_walk.simps) (simp add: walk_step_def walk_at_def)
qed

lemma walk_leaf:
  assumes "tree_header_ok t" "valid_node (tree_order t) n" "Suc (level n) = tree_order t"
  shows "buddy_tree_walk t (walk_at n) = buddy_tree_walk t ((walk_at n)\<lparr>going_up := True\<rparr>)"
proof -
  have "tree_order t \<le> 60" and n: "0 < n" using assms(1,2) by (simp_all add: tree_header_ok_def valid_node_def)
  then have "buddy_tree_left_child (pos_of n) = pos_of (2 * n)" using left_child_pos_of [of n] level_64 [OF assms(2)] by simp
  moreover have "\<not> buddy_tree_valid t (pos_of (2 * n))"
    using valid_pos_of [OF assms(1)] level_less [of "tree_order t" "2 * n"] n assms(3) by auto
  ultimately have "walk_step t (walk_at n) = (walk_at n)\<lparr>going_up := True\<rparr>" by (simp add: walk_step_def walk_at_def)
  then show ?thesis by (subst buddy_tree_walk.simps) simp
qed

lemma walk_loop_subtree:
  assumes "tree_header_ok t" "valid_node (tree_order t) n" "Suc (level n) + d = tree_order t"
  shows "walk_loop t body (walk_at n) a =
    (case traverse d body n a of (a, stop) \<Rightarrow> if stop then Some a else resume t body n a)"
  using assms(2,3)
proof (induction d arbitrary: n a)
  case 0
  then show ?case using walk_leaf [OF assms(1), of n]
    by (subst walk_loop.simps, subst traverse.simps)
      (auto simp: resume_def walk_at_def split: prod.split visit.split)
next
  case (Suc d)
  have n: "0 < n" and lt: "Suc (level n) < tree_order t" "tree_order t \<le> 60"
    using Suc.prems assms(1) by (auto simp: valid_node_def tree_header_ok_def)
  note v = valid_children [OF Suc.prems(1) lt(1)] and dn = walk_down [OF assms(1) Suc.prems(1) lt(1)]
  have l: "walk_loop t body (walk_at (2 * n)) a =
      (case traverse d body (2 * n) a of (a, stop) \<Rightarrow> if stop then Some a else resume t body (2 * n) a)" for a
    using Suc.IH [OF v(1)] Suc.prems(2) n by simp
  have r: "walk_loop t body (walk_at (Suc (2 * n))) a =
      (case traverse d body (Suc (2 * n)) a of (a, stop) \<Rightarrow> if stop then Some a else resume t body (Suc (2 * n)) a)" for a
    using Suc.IH [OF v(2)] Suc.prems(2) n by simp
  have rl: "resume t body (2 * n) a = walk_loop t body (walk_at (Suc (2 * n))) a" for a
    using walk_up_left [OF n] lt by (simp add: resume_def) (simp add: walk_at_def)
  have rr: "resume t body (Suc (2 * n)) a = resume t body n a" for a
    using walk_up_right [OF n] lt by (simp add: resume_def)
  obtain a' w where b: "body (pos_of n) a = (a', w)" by (cases "body (pos_of n) a")
  have "walk_loop t body (walk_at n) a = (if w = Return then Some a' else if w = Ascend then resume t body n a'
      else walk_loop t body (walk_at (2 * n)) a')"
    using b dn by (subst walk_loop.simps) (simp add: resume_def walk_at_def)
  then show ?case using b l r rl rr by (subst traverse.simps) (auto split: prod.split)
qed

lemma resume_root: "resume t body 1 a = Some a"
  unfolding resume_def walk_up_root by simp

lemma walk_loop_traverse:
  assumes "tree_header_ok t"
  shows "walk_loop t body buddy_tree_walk_state_root a = Some (fst (traverse (tree_order t - 1) body 1 a))"
proof -
  have v: "valid_node (tree_order t) 1" and d: "Suc (level 1) + (tree_order t - 1) = tree_order t"
    using assms by (auto simp: tree_header_ok_def intro!: level_less_imp_valid)
  have "buddy_tree_walk_state_root = walk_at 1" by (simp add: buddy_tree_walk_state_root_def walk_at_def root_pos_of)
  then show ?thesis
    using walk_loop_subtree [OF assms v d, of body a] unfolding resume_root by (simp only:) (simp split: prod.split)
qed

section \<open>Full, free and partly free nodes\<close>

lemma full_status_pos_of:
  assumes "tree_header_ok t" "valid_node (tree_order t) n"
  shows "full_status t (pos_of n) = field_width (tree_order t) n"
proof -
  obtain d where d: "tree_order t = Suc (level n + d)" using level_less [OF assms(2)] less_iff_Suc_add by auto
  moreover have "tree_order t \<le> 60" using assms(1) by (simp add: tree_header_ok_def)
  ultimately show ?thesis by (simp add: full_status_def buddy_tree_order_def field_width_def wrap_simps)
qed

lemma full_covered:
  assumes "tree_inv ord st" "bounded ord st" "valid_node ord n" "st n = field_width ord n" "0 < al"
  shows "block ord al n \<subseteq> covered ord al (allocated ord st)"
  using assms(3,4)
proof (induction "ord - level n" arbitrary: n rule: less_induct)
  case less
  show ?case
  proof (cases "childless ord st n")
    case True
    then show ?thesis using less.prems by (auto simp: covered_def allocated_def)
  next
    case False
    then have lt: "\<not> leaf_node ord n" "Suc (level n) < ord" and n: "0 < n"
      using level_less [OF less.prems(1)] less.prems(1) by (auto simp: childless_def leaf_node_def valid_node_def)
    note v = valid_children [OF less.prems(1) lt(2)] and w = field_width_child [OF n lt(1)]
    have "st n = min (st (2 * n)) (st (Suc (2 * n))) + 1"
      using tree_invD [OF assms(1) less.prems(1)] False by (simp add: node_ok_def)
    moreover have "st (2 * n) \<le> field_width ord (2 * n)" "st (Suc (2 * n)) \<le> field_width ord (Suc (2 * n))"
      using assms(2) v by (simp_all add: bounded_def)
    ultimately have "st (2 * n) = field_width ord (2 * n)" "st (Suc (2 * n)) = field_width ord (Suc (2 * n))"
      using less.prems(2) w lt(2) by auto
    then have "block ord al (2 * n) \<subseteq> covered ord al (allocated ord st)"
      "block ord al (Suc (2 * n)) \<subseteq> covered ord al (allocated ord st)"
      using less.hyps v n lt(2) by auto
    moreover have "block ord al n \<subseteq> block ord al (2 * n) \<union> block ord al (Suc (2 * n))"
      using child_blocks [OF n lt(2), of al] by (auto simp: block_def)
    ultimately show ?thesis by blast
  qed
qed

lemma child_blocks_split:
  assumes "0 < n" "Suc (level n) < ord"
  shows "block ord al n = block ord al (2 * n) \<union> block ord al (Suc (2 * n))"
    "block ord al (2 * n) \<inter> block ord al (Suc (2 * n)) = {}"
  using child_blocks [OF assms, of al] by (auto simp: block_def)

lemma block_props: "finite (block ord al n)" "card (block ord al n) = node_size ord al n"
  by (simp_all add: block_def)

section \<open>The free size\<close>

definition free_bytes :: "buddy \<Rightarrow> nat \<Rightarrow> nat" where
  "free_bytes b n = card (block (border b) (alignment b) n - covered (border b) (alignment b) (nodes b (st_of b)))"

lemma free_bytes_children:
  assumes "0 < n" "Suc (level n) < border b"
  shows "free_bytes b n = free_bytes b (2 * n) + free_bytes b (Suc (2 * n))"
  unfolding free_bytes_def child_blocks_split(1) [OF assms] Un_Diff
  using child_blocks_split(2) [OF assms, of "alignment b"] block_props by (subst card_Un_disjoint) auto

lemma buddy_inv_repr:
  assumes "buddy_inv b"
  shows "buddy_ok b (st_of b)" "tree_repr (tree_of b) (st_of b)" "tree_inv (border b) (st_of b)"
    "bounded (border b) (st_of b)" "tree_header_ok (tree_of b)" "0 < alignment b" "arena_ok b"
proof -
  show ok: "buddy_ok b (st_of b)" using assms by (simp add: buddy_inv_def)
  note okD = buddy_okD [OF ok]
  show "tree_repr (tree_of b) (st_of b)" "tree_inv (border b) (st_of b)" "0 < alignment b" "arena_ok b" using okD by simp_all
  then show "bounded (border b) (st_of b)" "tree_header_ok (tree_of b)" using tree_reprD(1,5) by (auto simp: bounded_def)
qed

text \<open>A node whose strict ancestors are not allocated is full, free or split.\<close>

lemma node_status_cases:
  assumes "buddy_inv b" "valid_node (border b) n" "\<forall>a \<in> nodes b (st_of b). ancestor a n \<longrightarrow> a = n"
  obtains (full) "st_of b n = field_width (border b) n" "st_of b n \<noteq> 0" "free_bytes b n = 0"
  | (free) "st_of b n = 0" "st_of b n \<noteq> field_width (border b) n" "available (border b) (st_of b) n"
      "free_bytes b n = node_size (border b) (alignment b) n"
  | (split) "st_of b n \<noteq> 0" "st_of b n \<noteq> field_width (border b) n" "Suc (level n) < border b"
      "valid_node (border b) (2 * n)" "valid_node (border b) (Suc (2 * n))"
      "\<forall>a \<in> nodes b (st_of b). ancestor a (2 * n) \<longrightarrow> a = 2 * n"
      "\<forall>a \<in> nodes b (st_of b). ancestor a (Suc (2 * n)) \<longrightarrow> a = Suc (2 * n)"
proof -
  let ?st = "st_of b" and ?o = "border b" and ?al = "alignment b"
  note r = buddy_inv_repr [OF assms(1)]
  have w: "0 < field_width ?o n" using assms(2) by (rule field_width_pos)
  consider "?st n = field_width ?o n" | "?st n = 0" | "?st n \<noteq> 0" "?st n \<noteq> field_width ?o n" by blast
  then show thesis
  proof cases
    case 1
    then have "block ?o ?al n \<subseteq> covered ?o ?al (nodes b ?st)" using full_covered r assms(2) by blast
    then have "free_bytes b n = 0" by (simp add: free_bytes_def Diff_eq_empty_iff [THEN iffD2])
    then show thesis using full 1 w by simp
  next
    case 2
    then have "n \<notin> nodes b ?st" using w by (simp add: allocated_def)
    then have av: "available ?o ?st n" using available_iff [OF r(3) assms(2)] 2 assms(3) by blast
    then have "block ?o ?al n - covered ?o ?al (nodes b ?st) = block ?o ?al n"
      using available_iff_covered [OF assms(2) r(6)] by blast
    then show thesis using free 2 w av block_props by (simp add: free_bytes_def)
  next
    case 3
    then have "\<not> childless ?o ?st n" using tree_invD [OF r(3) assms(2)] by (auto simp: node_ok_def)
    then have lt: "Suc (level n) < ?o" using level_less [OF assms(2)] by (auto simp: childless_def leaf_node_def)
    have na: "n \<notin> nodes b ?st" using 3 by (simp add: allocated_def)
    have "ancestor a c \<Longrightarrow> a = c" if "a \<in> nodes b ?st" "c = 2 * n \<or> c = Suc (2 * n)" for a c
      using that ancestor_cases [of a c] assms(3) na by fastforce
    then show thesis using split 3 lt valid_children [OF assms(2) lt] by blast
  qed
qed

lemma free_size_traverse:
  assumes "buddy_inv b" "valid_node (border b) n" "Suc (level n) + d = border b" "r + free_bytes b n < 2 ^ 64"
    and "\<forall>a \<in> nodes b (st_of b). ancestor a n \<longrightarrow> a = n"
  shows "traverse d (free_size_body b) n r = (r + free_bytes b n, False)"
  using assms(2-)
proof (induction d arbitrary: n r)
  case (0 n r)
  note bi = buddy_inv_repr [OF assms(1)]
  have st: "buddy_tree_status (tree_of b) (pos_of n) = st_of b n" by (simp add: st_of_def)
  from assms(1) 0(1,4) show ?case
  proof (cases rule: node_status_cases)
    case split
    then show ?thesis using 0 by simp
  qed (use 0 st full_status_pos_of [OF bi(5) 0(1)] size_for_depth_node [OF bi(7) 0(1)] in
      \<open>simp_all add: traverse.simps free_size_body_def wrap_simps\<close>)
next
  case (Suc d n r)
  note bi = buddy_inv_repr [OF assms(1)]
  have st: "buddy_tree_status (tree_of b) (pos_of n) = st_of b n" by (simp add: st_of_def)
  have n: "0 < n" using Suc.prems(1) by (simp add: valid_node_def)
  from assms(1) Suc.prems(1,4) show ?case
  proof (cases rule: node_status_cases)
    case split
    have sum: "free_bytes b n = free_bytes b (2 * n) + free_bytes b (Suc (2 * n))"
      using free_bytes_children n split(3) by simp
    have "traverse d (free_size_body b) (2 * n) r = (r + free_bytes b (2 * n), False)"
      using Suc.IH [OF split(4) _ _ split(6), of r] Suc.prems(2,3) n sum by simp
    moreover have "traverse d (free_size_body b) (Suc (2 * n)) (r + free_bytes b (2 * n)) = (r + free_bytes b n, False)"
      using Suc.IH [OF split(5) _ _ split(7), of "r + free_bytes b (2 * n)"] Suc.prems(2,3) n sum by simp
    moreover have "free_size_body b (pos_of n) r = (r, Descend)"
      using split(1,2) st full_status_pos_of [OF bi(5) Suc.prems(1)] by (simp add: free_size_body_def)
    ultimately show ?thesis by (simp add: traverse.simps [of "Suc d"])
  qed (use Suc st full_status_pos_of [OF bi(5) Suc.prems(1)] size_for_depth_node [OF bi(7) Suc.prems(1)] in
      \<open>simp_all add: traverse.simps free_size_body_def wrap_simps\<close>)
qed

lemma live_nodes_blocks:
  assumes "buddy_inv b"
  shows "finite (live_nodes b)" "card (covered (border b) (alignment b) (live_nodes b)) = (\<Sum>a \<in> live b. snd a)"
    "covered (border b) (alignment b) (live_nodes b) \<subseteq> {..<memory_size b}"
proof -
  let ?o = "border b" and ?al = "alignment b"
  note bi = buddy_inv_repr [OF assms]
  have v: "n \<in> nodes b (st_of b)" "valid_node ?o n" if "n \<in> live_nodes b" for n
    using that by (auto simp: live_nodes_def allocated_def)
  then have "live_nodes b \<subseteq> {..<2 ^ ?o}" by (auto simp: valid_node_def)
  then show fin: "finite (live_nodes b)" by (rule finite_subset) simp
  have "block ?o ?al m \<inter> block ?o ?al n = {}" if "m \<in> live_nodes b" "n \<in> live_nodes b" "m \<noteq> n" for m n
    using that v bi(6) allocated_antichain [OF bi(3) v(1) v(1), of m n] allocated_antichain [OF bi(3) v(1) v(1), of n m]
    by (intro blocks_disjoint) (auto simp: clash_def)
  then have "card (covered ?o ?al (live_nodes b)) = (\<Sum>n \<in> live_nodes b. node_size ?o ?al n)"
    unfolding covered_def using fin block_props by (subst card_UN_disjoint) auto
  also have "\<dots> = (\<Sum>a \<in> live b. snd a)"
    unfolding live_def sum.reindex [OF node_block_inj [OF assms]] by (simp add: node_block_def)
  finally show "card (covered ?o ?al (live_nodes b)) = (\<Sum>a \<in> live b. snd a)" .
  have "node_off ?o ?al n + node_size ?o ?al n \<le> memory_size b" if "n \<in> live_nodes b" for n
    using that buddy_okD(4) [OF bi(1)] by (auto simp: live_nodes_def masked_def)
  then show "covered ?o ?al (live_nodes b) \<subseteq> {..<memory_size b}" by (fastforce simp: covered_def block_def)
qed

lemma masked_difference:
  fixes L V :: "nat set"
  assumes "V \<inter> {..<m} = {}" "{m..<e} \<subseteq> L \<union> V" "m \<le> e"
  shows "{..<e} - (L \<union> V) = {..<m} - L"
proof (rule set_eqI)
  fix x
  show "x \<in> {..<e} - (L \<union> V) \<longleftrightarrow> x \<in> {..<m} - L"
    using assms by (cases "x < m") (auto simp: subset_iff)
qed

lemma free_bytes_root:
  assumes "buddy_inv b"
  shows "free_bytes b 1 + (\<Sum>a \<in> live b. snd a) = memory_size b"
proof -
  let ?o = "border b" and ?al = "alignment b" and ?c = "covered (border b) (alignment b)"
  note bi = buddy_inv_repr [OF assms] and lv = live_nodes_blocks [OF assms]
  have m: "masked b (nodes b (st_of b))" using buddy_okD(4) [OF bi(1)] .
  have c: "?c (nodes b (st_of b)) = ?c (live_nodes b) \<union> ?c (nodes b (st_of b) - live_nodes b)"
    by (auto simp: covered_def live_nodes_def)
  have "?c (nodes b (st_of b) - live_nodes b) \<inter> {..<memory_size b} = {}"
    by (auto simp: covered_def live_nodes_def block_def)
  moreover have "{memory_size b..<2 ^ (?o - 1) * ?al} \<subseteq> ?c (nodes b (st_of b))" using m by (simp add: masked_def)
  moreover have "memory_size b \<le> 2 ^ (?o - 1) * ?al" using bi(7) by (simp add: arena_ok_def)
  moreover have "block ?o ?al 1 = {..<2 ^ (?o - 1) * ?al}" by (auto simp: block_def node_off_def node_size_def)
  ultimately have "block ?o ?al 1 - ?c (nodes b (st_of b)) = {..<memory_size b} - ?c (live_nodes b)"
    unfolding c by (simp only: masked_difference)
  then have "free_bytes b 1 = memory_size b - card (?c (live_nodes b))"
    using lv(1,3) by (simp add: free_bytes_def card_Diff_subset finite_subset)
  moreover have "card (?c (live_nodes b)) \<le> memory_size b" using card_mono [OF _ lv(3)] by simp
  ultimately show ?thesis using lv(2) by simp
qed

text \<open>
  \<open>buddy_arena_free_size\<close> returns, and its result is the size of the arena less the sizes of
  the live blocks.
\<close>

lemma buddy_arena_free_size_spec:
  assumes "buddy_inv b"
  shows "\<exists>n. buddy_arena_free_size b = Some n \<and> n + (\<Sum>(p, sz) \<in> live b. sz) = memory_size b"
proof -
  note bi = buddy_inv_repr [OF assms] and root = free_bytes_root [OF assms]
  have v: "valid_node (border b) 1" using tree_reprD(3) [OF bi(2)] by (intro level_less_imp_valid) auto
  have "\<forall>a \<in> nodes b (st_of b). ancestor a 1 \<longrightarrow> a = 1"
    using ancestor_le by (fastforce simp: allocated_def valid_node_def)
  moreover have "free_bytes b 1 < 2 ^ 64" using root bi(7) by (auto simp: arena_ok_def)
  ultimately have "traverse (border b - 1) (free_size_body b) 1 0 = (0 + free_bytes b 1, False)"
    using tree_reprD(3) [OF bi(2)] by (intro free_size_traverse [OF assms v]) auto
  then have "buddy_arena_free_size b = Some (free_bytes b 1)"
    using walk_loop_traverse [OF bi(5), of "free_size_body b" 0] unfolding buddy_arena_free_size_def by simp
  then show ?thesis using root by (simp add: case_prod_beta)
qed

section \<open>The blocks a walk visits\<close>

text \<open>The allocated nodes at and below a node, from left to right.\<close>

fun alloc_nodes :: "buddy \<Rightarrow> nat \<Rightarrow> nat \<Rightarrow> nat list" where
  "alloc_nodes b d n =
     (if n \<in> nodes b (st_of b) then [n]
      else if d = 0 then []
      else alloc_nodes b (d - 1) (2 * n) @ alloc_nodes b (d - 1) (Suc (2 * n)))"

declare alloc_nodes.simps [simp del]

fun visit_nodes :: "buddy \<Rightarrow> 'c walk_callback \<Rightarrow> nat list \<Rightarrow> addr \<times> 'c \<Rightarrow> (addr \<times> 'c) \<times> bool" where
  "visit_nodes b fp [] r = (r, False)"
| "visit_nodes b fp (n # ns) r =
     (if memory_size b < node_off (border b) (alignment b) n + node_size (border b) (alignment b) n
      then ((0, snd r), True)
      else let r = fp (snd r) (fst (node_block b n)) (snd (node_block b n)) True
           in if fst r \<noteq> 0 then (r, True) else visit_nodes b fp ns r)"

lemma visit_nodes_append:
  "visit_nodes b fp (xs @ ys) r =
    (case visit_nodes b fp xs r of (r, stop) \<Rightarrow> if stop then (r, True) else visit_nodes b fp ys r)"
  by (induction xs arbitrary: r) (simp_all add: Let_def)

text \<open>A full node is allocated unless its left child has a status.\<close>

lemma allocated_test:
  assumes "buddy_inv b" "valid_node (border b) n"
  shows "n \<in> nodes b (st_of b) \<longleftrightarrow> st_of b n = field_width (border b) n \<and>
    \<not> (valid_node (border b) (2 * n) \<and> st_of b (2 * n) \<noteq> 0)"
proof -
  let ?st = "st_of b" and ?o = "border b"
  note bi = buddy_inv_repr [OF assms(1)]
  have n: "0 < n" using assms(2) by (simp add: valid_node_def)
  have leaf: "leaf_node ?o n \<longleftrightarrow> \<not> valid_node ?o (2 * n)"
  proof
    show "leaf_node ?o n \<Longrightarrow> \<not> valid_node ?o (2 * n)" using level_less [of ?o "2 * n"] n by (auto simp: leaf_node_def)
    show "\<not> valid_node ?o (2 * n) \<Longrightarrow> leaf_node ?o n"
      using valid_children(1) [OF assms(2)] level_less [OF assms(2)] by (fastforce simp: leaf_node_def)
  qed
  have "?st (Suc (2 * n)) = 0" if "?st n = field_width ?o n" "\<not> leaf_node ?o n" "?st (2 * n) = 0"
  proof (rule ccontr)
    assume "?st (Suc (2 * n)) \<noteq> 0"
    then have "?st n = 1" using tree_invD [OF bi(3) assms(2)] that(2,3) by (simp add: node_ok_def childless_def)
    moreover have "1 < field_width ?o n"
      using that(2) level_less [OF assms(2)] by (simp add: field_width_def leaf_node_def)
    ultimately show False using that(1) by simp
  qed
  then show ?thesis using leaf assms(2) by (auto simp: allocated_def childless_def)
qed

lemma sub64_add64:
  assumes "a < 2 ^ 64" "n < 2 ^ 64"
  shows "sub64 (add64 a n) a = n"
proof -
  have "sub64 (add64 a n) a = ((a + n) mod 2 ^ 64 + (2 ^ 64 - a)) mod 2 ^ 64"
    using assms(1) by (simp add: sub64_def add64_def wrap64_def)
  also have "\<dots> = (n + 2 ^ 64) mod 2 ^ 64" unfolding mod_add_left_eq using assms(1) by (simp add: add.commute add.left_commute)
  finally show ?thesis using assms(2) by simp
qed

lemma address_difference:
  assumes "buddy_inv b" "valid_node (border b) n"
  shows "sub64 (address_for_position b (pos_of n)) (buddy_main b) = node_off (border b) (alignment b) n"
proof -
  note bi = buddy_inv_repr [OF assms(1)]
  have "node_off (border b) (alignment b) n < 2 ^ 64"
    using block_bound [OF assms(2), of "alignment b"] bi(7) by (auto simp: arena_ok_def)
  moreover have "buddy_main b < 2 ^ 64" using bi(7) by (auto simp: arena_ok_def)
  moreover have "address_for_position b (pos_of n) = add64 (buddy_main b) (node_off (border b) (alignment b) n)"
  proof -
    have "level n < 64" using level_64 [OF assms(2) buddy_okD(6) [OF bi(1)]] by simp
    then have "buddy_tree_index_internal (pos_of n) = n - 2 ^ level n"
      using assms(2) by (intro index_internal_pos_of) (simp_all add: valid_node_def)
    moreover have "mul64 (node_size (border b) (alignment b) n) (n - 2 ^ level n) = node_off (border b) (alignment b) n"
      using \<open>node_off (border b) (alignment b) n < 2 ^ 64\<close> by (subst mul64_id) (simp_all add: node_off_def mult.commute)
    ultimately show ?thesis using size_for_depth_node [OF bi(7) assms(2)]
      by (simp add: address_for_position_def buddy_tree_index_def buddy_tree_depth_def)
  qed
  ultimately show ?thesis by (simp add: sub64_add64)
qed

lemma walk_body_node:
  assumes "buddy_inv b" "valid_node (border b) n"
  shows "walk_body b fp (pos_of n) r =
    (if n \<notin> nodes b (st_of b) then (r, Descend)
     else if memory_size b < node_off (border b) (alignment b) n + node_size (border b) (alignment b) n then ((0, snd r), Return)
     else let r = fp (snd r) (fst (node_block b n)) (snd (node_block b n)) True in (r, if fst r \<noteq> 0 then Return else Ascend))"
proof -
  let ?o = "border b" and ?al = "alignment b"
  note bi = buddy_inv_repr [OF assms(1)]
  have n: "0 < n" using assms(2) by (simp add: valid_node_def)
  have l: "buddy_tree_left_child (pos_of n) = pos_of (2 * n)"
    using left_child_pos_of [OF n] level_64 [OF assms(2)] buddy_okD(6) [OF bi(1)] by simp
  have size: "shr (buddy_effective_memory_size b) (sub64 (Suc (level n)) 1) = node_size ?o ?al n"
    using size_for_depth_node [OF bi(7) assms(2)] by (simp add: size_for_depth_def buddy_effective_memory_size_def)
  have sum: "add64 (node_off ?o ?al n) (node_size ?o ?al n) = node_off ?o ?al n + node_size ?o ?al n"
    using block_bound [OF assms(2), of ?al] bi(7) by (intro add64_id) (auto simp: arena_ok_def)
  have at: "address_for_position b (pos_of n) = fst (node_block b n)"
    if "node_off ?o ?al n + node_size ?o ?al n \<le> memory_size b"
    using address_for_node [OF bi(1) assms(2)] that by (simp add: node_block_def)
  have nz: "st_of b n > 0" if "n \<in> nodes b (st_of b)" using that field_width_pos [OF assms(2)] by (simp add: allocated_def)
  have st: "buddy_tree_status (tree_of b) (pos_of k) = st_of b k" for k by (simp add: st_of_def)
  note facts = st l valid_pos_of [OF bi(5)] full_status_pos_of [OF bi(5) assms(2)]
  show ?thesis
  proof (cases "n \<in> nodes b (st_of b)")
    case True
    then have *: "st_of b n = field_width ?o n" "\<not> (valid_node ?o (2 * n) \<and> st_of b (2 * n) \<noteq> 0)"
      using allocated_test [OF assms] by auto
    show ?thesis
    proof (cases "memory_size b < node_off ?o ?al n + node_size ?o ?al n")
      case True
      then show ?thesis using \<open>n \<in> _\<close> * size sum address_difference [OF assms]
        unfolding walk_body_def Let_def facts by simp
    next
      case False
      then show ?thesis using \<open>n \<in> _\<close> * size sum address_difference [OF assms] at nz
        unfolding walk_body_def Let_def facts by (simp add: node_block_def)
    qed
  next
    case False
    then show ?thesis using allocated_test [OF assms] unfolding walk_body_def Let_def facts by auto
  qed
qed

lemma walk_traverse:
  assumes "buddy_inv b" "valid_node (border b) n" "Suc (level n) + d = border b"
  shows "traverse d (walk_body b fp) n r = visit_nodes b fp (alloc_nodes b d n) r"
  using assms(2,3)
proof (induction d arbitrary: n r)
  case 0
  show ?case
    by (subst traverse.simps, subst alloc_nodes.simps) (simp add: walk_body_node [OF assms(1) 0(1)] Let_def)
next
  case (Suc d)
  have n: "0 < n" and lt: "Suc (level n) < border b" using Suc.prems by (auto simp: valid_node_def)
  note v = valid_children [OF Suc.prems(1) lt]
  have "traverse d (walk_body b fp) (2 * n) r = visit_nodes b fp (alloc_nodes b d (2 * n)) r"
    "traverse d (walk_body b fp) (Suc (2 * n)) r = visit_nodes b fp (alloc_nodes b d (Suc (2 * n))) r" for r
    using Suc.IH v Suc.prems(2) n by simp_all
  then show ?case
    by (subst traverse.simps, subst alloc_nodes.simps)
      (simp add: walk_body_node [OF assms(1) Suc.prems(1)] visit_nodes_append Let_def split: prod.split)
qed

lemma ancestor_via_child: "n \<noteq> m \<Longrightarrow> ancestor n m \<longleftrightarrow> ancestor (2 * n) m \<or> ancestor (Suc (2 * n)) m"
proof
  assume "n \<noteq> m" "ancestor n m"
  then obtain k where "n = m div 2 ^ k" "k \<noteq> 0" unfolding ancestor_def by (metis div_by_1 power_0)
  then obtain j where "n = m div 2 ^ j div 2" by (cases k) (simp_all add: div_mult2_eq [symmetric] mult.commute)
  then have "m div 2 ^ j = 2 * n \<or> m div 2 ^ j = Suc (2 * n)" using node_cases_parent [of "m div 2 ^ j"] by simp
  then show "ancestor (2 * n) m \<or> ancestor (Suc (2 * n)) m" unfolding ancestor_def by metis
next
  have "ancestor n (2 * n)" "ancestor n (Suc (2 * n))" by (auto intro: ancestor_parent)
  then show "ancestor (2 * n) m \<or> ancestor (Suc (2 * n)) m \<Longrightarrow> ancestor n m" using ancestor_trans by blast
qed

lemma alloc_nodes_blocks:
  assumes "buddy_inv b" "valid_node (border b) n" "Suc (level n) + d = border b"
  shows "set (alloc_nodes b d n) = {m \<in> nodes b (st_of b). ancestor n m} \<and>
    sorted_wrt (\<lambda>x y. fst (node_block b x) + snd (node_block b x) \<le> fst (node_block b y)) (alloc_nodes b d n)"
  using assms(2,3)
proof (induction d arbitrary: n)
  case 0
  have "m = n" if "m \<in> nodes b (st_of b)" "ancestor n m" for m
    using ancestor_by_level [OF that(2)] that(1) 0 level_less [of "border b" m]
    by (auto simp: allocated_def valid_node_def)
  then show ?case by (subst (1 2) alloc_nodes.simps) auto
next
  case (Suc d)
  let ?o = "border b" and ?al = "alignment b" and ?N = "nodes b (st_of b)"
  note bi = buddy_inv_repr [OF assms(1)]
  have n: "0 < n" and lt: "Suc (level n) < ?o" using Suc.prems by (auto simp: valid_node_def)
  note v = valid_children [OF Suc.prems(1) lt]
  have l: "set (alloc_nodes b d (2 * n)) = {m \<in> ?N. ancestor (2 * n) m}"
    "sorted_wrt (\<lambda>x y. fst (node_block b x) + snd (node_block b x) \<le> fst (node_block b y)) (alloc_nodes b d (2 * n))"
    and r: "set (alloc_nodes b d (Suc (2 * n))) = {m \<in> ?N. ancestor (Suc (2 * n)) m}"
    "sorted_wrt (\<lambda>x y. fst (node_block b x) + snd (node_block b x) \<le> fst (node_block b y)) (alloc_nodes b d (Suc (2 * n)))"
    using Suc.IH v Suc.prems(2) n by simp_all
  show ?case
  proof (cases "n \<in> ?N")
    case True
    then show ?thesis using allocated_antichain [OF bi(3) True] by (subst (1 2) alloc_nodes.simps) auto
  next
    case False
    have "ancestor n m \<longleftrightarrow> ancestor (2 * n) m \<or> ancestor (Suc (2 * n)) m" if "m \<in> ?N" for m
      using ancestor_via_child [of n m] that False by auto
    moreover have "fst (node_block b x) + snd (node_block b x) \<le> fst (node_block b y)"
      if "x \<in> ?N" "ancestor (2 * n) x" "y \<in> ?N" "ancestor (Suc (2 * n)) y" for x y
    proof -
      have "valid_node ?o x" "valid_node ?o y" using that by (simp_all add: allocated_def)
      then have "block ?o ?al x \<subseteq> block ?o ?al (2 * n)" "block ?o ?al y \<subseteq> block ?o ?al (Suc (2 * n))"
        using ancestor_block_subset v bi(6) that(2,4) by blast+
      moreover have "0 < node_size ?o ?al x" "0 < node_size ?o ?al y" using node_size_pos [OF bi(6)] by simp_all
      ultimately show ?thesis using child_blocks [OF n lt, of ?al] by (simp add: block_def node_block_def)
    qed
    ultimately show ?thesis using False l r by (subst (1 2) alloc_nodes.simps) (auto simp: sorted_wrt_append)
  qed
qed

fun call_each :: "'c walk_callback \<Rightarrow> (addr \<times> nat) list \<Rightarrow> addr \<times> 'c \<Rightarrow> addr \<times> 'c" where
  "call_each fp [] r = r"
| "call_each fp ((p, sz) # bs) r =
     (let r = fp (snd r) p sz True in if fst r \<noteq> 0 then r else call_each fp bs r)"

lemma visit_nodes_live:
  assumes "buddy_inv b" "set ns \<subseteq> nodes b (st_of b)" "fst r = 0"
    and "sorted_wrt (\<lambda>x y. fst (node_block b x) + snd (node_block b x) \<le> fst (node_block b y)) ns"
  shows "fst (visit_nodes b fp ns r) =
    call_each fp (map (node_block b) (filter (\<lambda>n. node_off (border b) (alignment b) n < memory_size b) ns)) r"
  using assms(2-)
proof (induction ns arbitrary: r)
  case (Cons n ns)
  let ?o = "border b" and ?al = "alignment b"
  note bi = buddy_inv_repr [OF assms(1)]
  have m: "node_off ?o ?al n + node_size ?o ?al n \<le> memory_size b \<or> memory_size b \<le> node_off ?o ?al n"
    using buddy_okD(4) [OF bi(1)] Cons.prems(1) by (auto simp: masked_def)
  have pos: "0 < node_size ?o ?al n" using node_size_pos [OF bi(6)] .
  show ?case
  proof (cases "memory_size b \<le> node_off ?o ?al n")
    case True
    then have "filter (\<lambda>n. node_off ?o ?al n < memory_size b) ns = []"
      using Cons.prems(3) pos by (fastforce simp: filter_empty_conv node_block_def)
    then show ?thesis using True pos Cons.prems(2) by (cases r) simp
  next
    case False
    then have "\<not> memory_size b < node_off ?o ?al n + node_size ?o ?al n" using m by simp
    then show ?thesis using False Cons by (cases "node_block b n") (simp add: Let_def)
  qed
qed simp

text \<open>
  \<open>buddy_walk\<close> returns. It calls the callback for the live blocks, in the order of their
  addresses and always as allocated, until one call returns a pointer; no free slot and nothing
  behind the end of the arena is visited.
\<close>

lemma buddy_walk_spec:
  assumes "buddy_inv b"
  shows "\<exists>bs. set bs = live b \<and> sorted_wrt (\<lambda>x y. fst x + snd x \<le> fst y) bs \<and>
    (\<forall>fp ctx. buddy_walk (Some b) (Some fp) ctx = Some (call_each fp bs (0, ctx)))"
proof -
  note bi = buddy_inv_repr [OF assms]
  let ?ns = "alloc_nodes b (border b - 1) 1"
  let ?bs = "map (node_block b) (filter (\<lambda>n. node_off (border b) (alignment b) n < memory_size b) ?ns)"
  have v: "valid_node (border b) 1" "Suc (level 1) + (border b - 1) = border b"
    using tree_reprD(3) [OF bi(2)] by (auto intro!: level_less_imp_valid)
  have "{m \<in> nodes b (st_of b). ancestor 1 m} = nodes b (st_of b)"
    using root_ancestor by (auto simp: allocated_def valid_node_def)
  then have ns: "set ?ns = nodes b (st_of b)"
    "sorted_wrt (\<lambda>x y. fst (node_block b x) + snd (node_block b x) \<le> fst (node_block b y)) ?ns"
    using alloc_nodes_blocks [OF assms v] by simp_all
  have "buddy_walk (Some b) (Some fp) ctx = Some (call_each fp ?bs (0, ctx))" for fp ctx
    using walk_loop_traverse [OF bi(5), of "walk_body b fp" "(0, ctx)"] walk_traverse [OF assms v, of fp "(0, ctx)"]
      visit_nodes_live [OF assms, of ?ns "(0, ctx)" fp] ns by (simp add: buddy_walk_def)
  moreover have "set ?bs = live b" using ns(1) by (auto simp: live_def live_nodes_def)
  moreover have "sorted_wrt (\<lambda>x y. fst x + snd x \<le> fst y) ?bs"
    using ns(2) by (simp add: sorted_wrt_map sorted_wrt_filter)
  ultimately show ?thesis by blast
qed

text \<open>A callback that collects the blocks it is called for, and one that stops at the first.\<close>

section \<open>Fragmentation and the check of the invariant\<close>

lemma fragmentation_returns:
  assumes "buddy_inv b"
  shows "\<exists>n \<le> 255. buddy_fragmentation (Some b) = Some n"
proof -
  obtain q f where "walk_loop (tree_of b) (fragmentation_body (tree_of b)) buddy_tree_walk_state_root (0, 0) = Some (q, f)"
    using walk_loop_traverse [OF buddy_inv_repr(5) [OF assms]] by (metis surj_pair)
  then show ?thesis
    by (auto simp: buddy_fragmentation_def buddy_tree_fragmentation_def fragmentation_of_def Let_def)
qed

lemma traverse_constant: "traverse d (\<lambda>_ failed. (failed \<or> v, Descend)) n failed = (failed \<or> v, False)"
  by (induction d arbitrary: n failed) (subst traverse.simps, simp)+

text \<open>
  The check looks at the root once for every node and at no other node, so it accepts any tree
  with a consistent root.
\<close>

lemma check_invariant_root_only:
  assumes "tree_header_ok t"
  shows "buddy_tree_check_invariant t buddy_tree_root = Some (invariant_violated t buddy_tree_root)"
  using walk_loop_traverse [OF assms, of _ False]
  by (simp add: buddy_tree_check_invariant_def buddy_tree_walk_state_root_def traverse_constant)

lemma node_not_violated:
  assumes "buddy_inv b" "valid_node (border b) n" "Suc (level n) < border b"
  shows "\<not> invariant_violated (tree_of b) (pos_of n)"
proof -
  let ?o = "border b" and ?st = "st_of b"
  note bi = buddy_inv_repr [OF assms(1)] and v = valid_children [OF assms(2,3)]
  have n: "0 < n" and ord: "?o \<le> 60" "level n < 60"
    using assms(2) buddy_okD(6) [OF bi(1)] level_64 [OF assms(2)] by (auto simp: valid_node_def)
  have "childless ?o ?st n \<longleftrightarrow> ?st (2 * n) = 0 \<and> ?st (Suc (2 * n)) = 0"
    using assms(3) by (simp add: childless_def leaf_node_def)
  moreover have "node_ok ?o ?st n" using tree_invD [OF bi(3) assms(2)] .
  moreover have "?st (2 * n) \<le> 60" "?st (Suc (2 * n)) \<le> 60"
    using bi(4) v ord(1) unfolding bounded_def field_width_def by (meson diff_le_self le_trans)+
  ultimately show ?thesis
    unfolding invariant_violated_def Let_def internal_position_pos_of [OF bi(5) assms(2)]
      left_child_pos_of [OF n ord(2)] right_child_pos_of [OF n ord(2)] read_field [OF bi(2) assms(2)] st_of_def [symmetric]
    by (auto simp: node_ok_def min_def wrap_simps split: if_splits)
qed

lemma check_invariant_holds:
  assumes "buddy_inv b" "2 \<le> border b"
  shows "buddy_tree_check_invariant (tree_of b) buddy_tree_root = Some False"
proof -
  have "valid_node (border b) 1" using assms(2) by (intro level_less_imp_valid) auto
  then show ?thesis
    using check_invariant_root_only [OF buddy_inv_repr(5) [OF assms(1)]] node_not_violated [OF assms(1), of 1] assms(2)
    by (simp add: root_pos_of)
qed

end
