(* ===== verification/Buddy_Embed.thy ===== *)
theory Buddy_Embed
  imports Buddy_Contract
begin

text \<open>
  The embedded mode: the allocator's own data lies at the end of the memory it manages. Shown:
  when the memory is large enough the allocator is initialised, its arena is the part before
  the metadata, and the metadata fits between the end of the arena and the end of the memory.
\<close>

section \<open>The size of the metadata grows with the order\<close>

lemma tree_bits_Suc: "tree_bits (Suc ord) = 2 * tree_bits ord + ord + 1"
  using tree_bits_closed [of ord] tree_bits_closed [of "Suc ord"] by simp

lemma padded_mono_small:
  assumes "b + 7 \<le> b'"
  shows "b + b mod 8 \<le> b' + b' mod (8::nat)"
proof -
  have "b mod 8 < 8" by simp
  then show ?thesis using assms by linarith
qed

definition padded :: "nat \<Rightarrow> nat" where
  "padded ord = (tree_bits ord + 7) div 8 + (tree_bits ord + 7) div 8 mod 8"

lemma tree_bits_numerals:
  "tree_bits 0 = 0" "tree_bits 1 = 1" "tree_bits 2 = 4" "tree_bits 3 = 11" "tree_bits 4 = 26" "tree_bits 5 = 57"
  using tree_bits_closed [of 0] tree_bits_closed [of 1] tree_bits_closed [of 2] tree_bits_closed [of 3]
    tree_bits_closed [of 4] tree_bits_closed [of 5] by simp_all

lemma tree_bits_ge: "5 \<le> ord \<Longrightarrow> 57 \<le> tree_bits ord"
proof (induction ord rule: dec_induct)
  case base
  then show ?case using tree_bits_numerals by simp
next
  case (step n)
  then show ?case by (simp add: tree_bits_Suc)
qed

lemma padded_Suc: "padded ord \<le> padded (Suc ord)"
proof (cases "ord < 5")
  case True
  then consider "ord = 0" | "ord = 1" | "ord = 2" | "ord = 3" | "ord = 4" by linarith
  then show ?thesis
    by cases (simp_all add: padded_def tree_bits_Suc tree_bits_numerals)
next
  case False
  then have "57 \<le> tree_bits ord" by (intro tree_bits_ge) simp
  then have "(tree_bits ord + 7) div 8 + 7 \<le> (tree_bits (Suc ord) + 7) div 8" by (simp add: tree_bits_Suc)
  then show ?thesis unfolding padded_def by (rule padded_mono_small)
qed

lemma padded_mono: "i \<le> j \<Longrightarrow> padded i \<le> padded j"
  by (rule lift_Suc_mono_le) (auto intro: padded_Suc)

lemma padded_less: "ord \<le> 60 \<Longrightarrow> padded ord < 2 ^ 62"
proof -
  assume "ord \<le> 60"
  then have "tree_bits ord < 2 ^ 61" by (rule tree_bits_less)
  moreover have "(tree_bits ord + 7) div 8 \<le> tree_bits ord + 7" by (rule div_le_dividend)
  moreover have "(tree_bits ord + 7) div 8 mod 8 < 8" by simp
  ultimately have "padded ord < tree_bits ord + 15" "tree_bits ord + 15 \<le> 2 ^ 61 + 15"
    unfolding padded_def by linarith+
  then show ?thesis by simp
qed

lemma buddy_tree_sizeof_eq: "ord \<le> 60 \<Longrightarrow> buddy_tree_sizeof ord = 24 + padded ord + (ord + 2) * 8"
  using padded_less [of ord] padded_bitset_size_eq [of ord]
  by (simp add: buddy_tree_sizeof_def sizeof_buddy_tree_def padded_def wrap_simps)

lemma sizeof_alignment_eq:
  assumes "0 < q" "q \<le> 2 ^ 59" "k < 64" "r < 2 ^ k"
  defines "ord \<equiv> Suc (bitlength (q - 1))"
  shows "buddy_sizeof_alignment (q * 2 ^ k + r) (2 ^ k) = 56 + padded ord + (ord + 2) * 8"
proof -
  have q: "(q * 2 ^ k + r) div 2 ^ k = q" using assms(4) by simp
  note o = order_for_memory [OF assms(1,2)]
  have ord: "ord \<le> 60" using o(2) by (simp add: ord_def)
  have "buddy_tree_order_for_memory (q * 2 ^ k + r) (2 ^ k) = ord"
    using o(1) [of 0] q by (simp add: buddy_tree_order_for_memory_def ord_def)
  moreover have "is_valid_alignment (2 ^ k)" using assms(3) is_valid_alignment_iff by blast
  moreover have "u8 ord = ord" using ord by (simp add: wrap_simps)
  moreover have "2 ^ k \<le> q * 2 ^ k + r" using assms(1) by (simp add: trans_le_add1)
  ultimately show ?thesis
    using buddy_tree_sizeof_eq [OF ord] padded_less [OF ord] ord
    by (simp add: buddy_sizeof_alignment_def sizeof_buddy_def wrap_simps)
qed

lemma bitlength_mono: "m \<le> n \<Longrightarrow> bitlength m \<le> bitlength n"
  unfolding bitlength_le_iff using less_two_power_bitlength [of n] by simp

lemma sizeof_alignment_mono:
  assumes "al = 2 ^ k" "k < 64" "al \<le> m" "m \<le> n" "n div al \<le> 2 ^ 59"
  shows "buddy_sizeof_alignment m al \<le> buddy_sizeof_alignment n al"
proof -
  have al: "0 < al" using assms(1) by simp
  have q: "0 < m div al" "m div al \<le> n div al" "0 < n div al"
    using assms al by (auto simp: div_greater_zero_iff div_le_mono)
  have "buddy_sizeof_alignment (x div al * 2 ^ k + x mod al) (2 ^ k) =
      56 + padded (Suc (bitlength (x div al - 1))) + (Suc (bitlength (x div al - 1)) + 2) * 8"
    if "0 < x div al" "x div al \<le> 2 ^ 59" for x
    using that assms(1,2) al by (intro sizeof_alignment_eq) simp_all
  moreover have "x div al * 2 ^ k + x mod al = x" for x unfolding assms(1) by (rule div_mult_mod_eq)
  ultimately have "buddy_sizeof_alignment m al = 56 + padded (Suc (bitlength (m div al - 1))) + (Suc (bitlength (m div al - 1)) + 2) * 8"
    "buddy_sizeof_alignment n al = 56 + padded (Suc (bitlength (n div al - 1))) + (Suc (bitlength (n div al - 1)) + 2) * 8"
    using q assms(1,5) by (metis (no_types, lifting) order_trans)+
  moreover have "bitlength (m div al - 1) \<le> bitlength (n div al - 1)" using q by (intro bitlength_mono) simp
  moreover from this have "padded (Suc (bitlength (m div al - 1))) \<le> padded (Suc (bitlength (n div al - 1)))"
    by (intro padded_mono) simp
  ultimately show ?thesis by simp
qed

section \<open>The embedded allocator\<close>

lemma embed_offset_fits:
  assumes "can_fit (buddy_embed_offset ms al)" "ms < 2 ^ 63" "buddy_sizeof_alignment ms al < 2 ^ 63"
  shows "embed_offset (buddy_embed_offset ms al) mod 8 = 0" "0 < embed_offset (buddy_embed_offset ms al)"
    "embed_offset (buddy_embed_offset ms al) + buddy_sizeof_alignment ms al \<le> ms"
    "embed_offset (buddy_embed_offset ms al) + embed_buddy_size (buddy_embed_offset ms al) = ms"
proof -
  define s where "s = buddy_sizeof_alignment ms al"
  have lt: "s < ms"
    using assms(1) by (auto simp: buddy_embed_offset_def Let_def s_def split: if_splits)
  define r where "r = (ms - s) mod 8"
  have sub: "sub64 ms s = ms - s" using lt assms(2) by (simp add: wrap_simps)
  have "r < 8" by (simp add: r_def)
  then have add: "add64 s r = s + r" using assms(3) by (simp add: s_def wrap_simps)
  have r: "r \<noteq> 0 \<Longrightarrow> s + r < ms" "r \<noteq> 0 \<Longrightarrow> sub64 ms (s + r) = ms - (s + r)"
    using assms(1,2) add sub by (auto simp: buddy_embed_offset_def Let_def s_def [symmetric] r_def [symmetric]
        alignof_buddy_def wrap_simps split: if_splits)
  have e: "buddy_embed_offset ms al = \<lparr>can_fit = True, embed_offset = ms - s - r, embed_buddy_size = s + r\<rparr>"
    using lt sub add r by (auto simp: buddy_embed_offset_def Let_def s_def [symmetric] r_def [symmetric] alignof_buddy_def)
  have "(ms - s - r) mod 8 = 0" unfolding r_def by (metis minus_mod_eq_mult_div mod_mult_self1_is_0 mult.commute)
  then show "embed_offset (buddy_embed_offset ms al) mod 8 = 0" using e by simp
  show "0 < embed_offset (buddy_embed_offset ms al)" using e r lt by (cases "r = 0") auto
  have "r \<le> ms - s" by (simp add: r_def)
  then show "embed_offset (buddy_embed_offset ms al) + buddy_sizeof_alignment ms al \<le> ms"
    "embed_offset (buddy_embed_offset ms al) + embed_buddy_size (buddy_embed_offset ms al) = ms"
    using e lt by (simp_all add: s_def [symmetric])
qed

definition embed_pre :: "addr \<Rightarrow> size_t \<Rightarrow> size_t \<Rightarrow> bool" where
  "embed_pre main ms al \<longleftrightarrow> main \<noteq> 0 \<and> main mod 8 = 0 \<and> is_valid_alignment al \<and> ms div al \<le> 2 ^ 59 \<and>
     ms < 2 ^ 63 \<and> main + ms < 2 ^ 64 \<and> can_fit (buddy_embed_offset ms al) \<and>
     al \<le> embed_offset (buddy_embed_offset ms al)"

lemma sizeof_alignment_less:
  assumes "is_valid_alignment al" "ms div al \<le> 2 ^ 59"
  shows "buddy_sizeof_alignment ms al < 2 ^ 63"
proof (cases "ms < al")
  case True
  then show ?thesis by (simp add: buddy_sizeof_alignment_def)
next
  case False
  obtain k where k: "k < 64" "al = 2 ^ k" using assms(1) is_valid_alignment_iff by blast
  have q: "0 < ms div al" using False k(2) by (simp add: div_greater_zero_iff)
  let ?ord = "Suc (bitlength (ms div al - 1))"
  have ord: "?ord \<le> 60" using order_for_memory(2) [OF q assms(2)] by simp
  have "buddy_sizeof_alignment (ms div al * 2 ^ k + ms mod al) (2 ^ k) = 56 + padded ?ord + (?ord + 2) * 8"
    using q assms(2) k by (intro sizeof_alignment_eq) simp_all
  moreover have "ms div al * 2 ^ k + ms mod al = ms" unfolding k(2) by (rule div_mult_mod_eq)
  ultimately show ?thesis using padded_less [OF ord] ord k(2) by simp
qed

lemma embed_flags:
  assumes "buddy_inv b" "buddy_flags b = 0" "arena b = main" "buddy_at b = main + off" "main + off < 2 ^ 64"
  shows "buddy_inv (b\<lparr>buddy_flags := buddy_flags b OR BUDDY_RELATIVE_MODE, arena := sub64 (buddy_at b) main\<rparr>)"
    and "live (b\<lparr>buddy_flags := buddy_flags b OR BUDDY_RELATIVE_MODE, arena := sub64 (buddy_at b) main\<rparr>) = live b"
    and "buddy_main (b\<lparr>buddy_flags := buddy_flags b OR BUDDY_RELATIVE_MODE, arena := sub64 (buddy_at b) main\<rparr>) = main"
proof -
  let ?b = "b\<lparr>buddy_flags := buddy_flags b OR BUDDY_RELATIVE_MODE, arena := sub64 (buddy_at b) main\<rparr>"
  have old: "buddy_main b = main"
    using assms(2,3) by (simp add: buddy_main_def buddy_relative_mode_def u32_def)
  have "sub64 (main + off) main = off" using assms(5) by (simp add: wrap_simps)
  then show new: "buddy_main ?b = main"
    using assms(2,4,5)
    by (simp add: buddy_main_def buddy_relative_mode_def BUDDY_RELATIVE_MODE_def u32_def sub64_id)
  show "buddy_inv ?b" using assms(1) old new
    by (simp add: buddy_inv_def buddy_ok_def arena_ok_def masked_def st_of_def [abs_def])
  show "live ?b = live b" using old new
    by (simp add: live_def live_nodes_def node_block_def [abs_def] st_of_def [abs_def])
qed

lemma init_fields:
  "init_pre at main ms al \<Longrightarrow> buddy_init_alignment mem at main ms al = Some (Some b) \<Longrightarrow>
    buddy_flags b = 0 \<and> arena b = main \<and> buddy_at b = at"
  using buddy_init_ok [of at main ms al mem] by auto

lemma embed_live:
  assumes "embed_pre main ms al"
  defines "off \<equiv> embed_offset (buddy_embed_offset ms al)"
  obtains b where "buddy_embed_alignment mem main ms al = Some (Some b)" "buddy_inv b" "live b = {}"
    "buddy_main b = main" "memory_size b = off - off mod al" "alignment b = al" "buddy_at b = main + off"
    "off + buddy_sizeof_alignment (memory_size b) al \<le> ms"
proof -
  have va: "is_valid_alignment al" and ms: "ms div al \<le> 2 ^ 59" "ms < 2 ^ 63" "main + ms < 2 ^ 64"
    using assms(1) by (auto simp: embed_pre_def)
  obtain k where k: "k < 64" "al = 2 ^ k" using va is_valid_alignment_iff by blast
  have fit: "can_fit (buddy_embed_offset ms al)" using assms(1) by (simp add: embed_pre_def)
  note f = embed_offset_fits [OF fit ms(2) sizeof_alignment_less [OF va ms(1)], folded off_def]
  have offms: "off \<le> ms" using f(3) by simp
  have "off div al \<le> ms div al" using offms by (rule div_le_mono)
  then have pre: "init_pre (main + off) main off al"
    using assms(1) f ms offms va by (auto simp: embed_pre_def init_pre_def off_def mod_add_eq [symmetric])
  obtain b where b: "buddy_init_alignment mem (main + off) main off al = Some (Some b)" "buddy_inv b" "live b = {}"
    "buddy_main b = main" "memory_size b = off - off mod al" "alignment b = al"
    by (rule init_live [OF pre, of mem])
  note fl = init_fields [OF pre b(1)]
  define b' where "b' = b\<lparr>buddy_flags := buddy_flags b OR BUDDY_RELATIVE_MODE, arena := sub64 (buddy_at b) main\<rparr>"
  have lt: "main + off < 2 ^ 64" using offms ms(3) by simp
  note e = embed_flags [OF b(2), of main off, folded b'_def]
  have "buddy_embed_alignment mem main ms al = Some (Some b')"
    using assms(1) va fit b(1) lt by (simp add: buddy_embed_alignment_def embed_pre_def off_def [symmetric] add64_id b'_def)
  moreover have "memory_size b' = off - off mod al" "alignment b' = al" "buddy_at b' = main + off"
    using b(5,6) fl by (simp_all add: b'_def)
  moreover have "al \<le> off" using assms(1) by (simp add: embed_pre_def off_def)
  then have "1 * al \<le> off div al * al" using k(2) by (intro mult_le_mono1) (simp add: div_greater_zero_iff Suc_leI)
  then have "al \<le> off - off mod al" by (simp add: minus_mod_eq_div_mult)
  then have "buddy_sizeof_alignment (off - off mod al) al \<le> buddy_sizeof_alignment ms al"
    using sizeof_alignment_mono [OF k(2,1)] offms ms(1) by simp
  then have "off + buddy_sizeof_alignment (memory_size b') al \<le> ms" using f(3) b(5) by (simp add: b'_def)
  moreover have "buddy_inv b'" "live b' = {}" "buddy_main b' = main" using e fl lt b(3) by simp_all
  ultimately show thesis by (intro that)
qed

end
