(* ===== verification/Addr.thy ===== *)
theory Addr
  imports Prelude
begin

text \<open>
  Addresses and alignment: \<open>src/kernel/arch/x86/mm/addr.c\<close>, \<open>addr.h\<close>, \<open>page.h\<close> and
  \<open>src/libs/base/align.h\<close>. Physical memory is mapped at \<open>hhdm_offset\<close>, which the boot
  protocol sets and the model passes as an argument. Also the bit helpers of
  \<open>src/libs/moon-ds/bitmap.h\<close>.
\<close>

section \<open>Pages and the direct map\<close>

definition PAGE_SIZE :: nat where
  "PAGE_SIZE = 4096"

definition PAGE_SHIFT :: nat where
  "PAGE_SHIFT = 12"

definition ALIGN_UP :: "nat \<Rightarrow> nat" where
  "ALIGN_UP n = and_not (sub64 (add64 n PAGE_SIZE) 1) (PAGE_SIZE - 1)"

definition ALIGN_DOWN :: "nat \<Rightarrow> nat" where
  "ALIGN_DOWN n = and_not n (PAGE_SIZE - 1)"

definition va :: "nat \<Rightarrow> addr \<Rightarrow> addr" where
  "va hhdm paddr = add64 paddr hhdm"

definition pa :: "nat \<Rightarrow> addr \<Rightarrow> addr" where
  "pa hhdm vaddr = (if vaddr = 0 then 0 else sub64 vaddr hhdm)"

definition USER_REGION_BOTTOM :: addr where
  "USER_REGION_BOTTOM = 4096"

definition USER_REGION_TOP :: addr where
  "USER_REGION_TOP = 140737488355327"

definition CANONICAL_ADDR_MASK :: nat where
  "CANONICAL_ADDR_MASK = 18446462598732840960"

definition IS_CANONICAL :: "addr \<Rightarrow> bool" where
  "IS_CANONICAL a \<longleftrightarrow> a AND CANONICAL_ADDR_MASK = 0 \<or> a AND CANONICAL_ADDR_MASK = CANONICAL_ADDR_MASK"

definition is_user_address :: "addr \<Rightarrow> bool" where
  "is_user_address a \<longleftrightarrow> IS_CANONICAL a \<and> USER_REGION_BOTTOM \<le> a \<and> a \<le> USER_REGION_TOP"

definition MiB :: "nat \<Rightarrow> nat" where
  "MiB x = 1024 * 1024 * x"

section \<open>The bit helpers\<close>

text \<open>
  \<open>BITMAP_BLOCK_SIZE\<close> is the unparenthesised text \<open>sizeof(int) * 8\<close>, so \<open>bit / BITMAP_BLOCK_SIZE\<close>
  is \<open>(bit / 4) * 8\<close> and \<open>bit % BITMAP_BLOCK_SIZE\<close> is \<open>(bit % 4) * 8\<close>. The map is a function from
  word numbers to 64-bit words; the shifted \<open>1\<close> is an \<open>int\<close>.
\<close>

type_synonym longs = "nat \<Rightarrow> 64 word"

definition bitmap_word :: "nat \<Rightarrow> nat" where
  "bitmap_word i = i div 4 * 8"

definition bitmap_shift :: "nat \<Rightarrow> nat" where
  "bitmap_shift i = i mod 4 * 8"

definition bitmap_set :: "longs \<Rightarrow> nat \<Rightarrow> longs" where
  "bitmap_set m i = m(bitmap_word i := m (bitmap_word i) OR push_bit (bitmap_shift i) 1)"

definition bitmap_clear :: "longs \<Rightarrow> nat \<Rightarrow> longs" where
  "bitmap_clear m i = m(bitmap_word i := m (bitmap_word i) AND NOT (push_bit (bitmap_shift i) 1))"

definition bitmap_check :: "longs \<Rightarrow> nat \<Rightarrow> bool" where
  "bitmap_check m i = (m (bitmap_word i) AND push_bit (bitmap_shift i) 1 \<noteq> 0)"

section \<open>Alignment\<close>

lemma and_not_page: "and_not n 4095 = n - n mod 4096"
proof -
  have "n AND 4095 = n AND mask 12" by (simp add: mask_eq_exp_minus_1)
  also have "\<dots> = n mod 4096" by (simp add: take_bit_eq_mask [symmetric] take_bit_eq_mod)
  finally show ?thesis by (simp add: and_not_def)
qed

lemma ALIGN_DOWN_eq: "ALIGN_DOWN n = n - n mod 4096"
  by (simp add: ALIGN_DOWN_def PAGE_SIZE_def and_not_page)

lemma ALIGN_UP_eq:
  assumes "n + 4096 < 2 ^ 64"
  shows "ALIGN_UP n mod 4096 = 0" "n \<le> ALIGN_UP n" "ALIGN_UP n < n + 4096"
proof -
  have e: "ALIGN_UP n = (n + 4095) - (n + 4095) mod 4096"
    using assms by (simp add: ALIGN_UP_def PAGE_SIZE_def wrap_simps and_not_page add.commute)
  show "ALIGN_UP n mod 4096 = 0" unfolding e by (simp add: minus_mod_eq_div_mult)
  have m: "(n + 4095) mod 4096 < 4096" by simp
  show "n \<le> ALIGN_UP n" "ALIGN_UP n < n + 4096" unfolding e using m by linarith+
qed

lemma ALIGN_UP_page:
  assumes "n mod 4096 = 0" "0 < k" "k \<le> 4096" "n + 8192 < 2 ^ 64"
  shows "ALIGN_UP (n + k) = n + 4096"
proof -
  note a = ALIGN_UP_eq [of "n + k"]
  have b: "ALIGN_UP (n + k) mod 4096 = 0" "n + k \<le> ALIGN_UP (n + k)" "ALIGN_UP (n + k) < n + k + 4096"
    using a assms by auto
  obtain q r where q: "n = 4096 * q" "ALIGN_UP (n + k) = 4096 * r"
    using assms(1) b(1) by (metis mod_0_imp_dvd dvdE)
  then have "4096 * q < 4096 * r" "4096 * r < 4096 * q + 8192" using b assms(2,3) by linarith+
  then have "r = q + 1" by linarith
  then show ?thesis using q by simp
qed

lemma pa_va: "p < 2 ^ 64 \<Longrightarrow> hhdm < 2 ^ 64 \<Longrightarrow> va hhdm p \<noteq> 0 \<Longrightarrow> pa hhdm (va hhdm p) = p"
proof -
  assume a: "p < 2 ^ 64" "hhdm < 2 ^ 64" "va hhdm p \<noteq> 0"
  have w: "wrap64 hhdm = hhdm" using a(2) by (simp add: wrap64_def)
  have "pa hhdm (va hhdm p) = ((p + hhdm) mod 2 ^ 64 + (2 ^ 64 - hhdm)) mod 2 ^ 64"
    using a(3) w by (simp add: pa_def va_def sub64_def add64_def wrap64_def)
  also have "\<dots> = (p + hhdm + (2 ^ 64 - hhdm)) mod 2 ^ 64" by (rule mod_add_left_eq)
  also have "p + hhdm + (2 ^ 64 - hhdm) = p + 2 ^ 64" using a(2) by simp
  also have "(p + 2 ^ 64) mod 2 ^ 64 = p" using a(1) by (simp only: mod_add_self2 mod_less)
  finally show ?thesis .
qed

section \<open>Properties\<close>

lemma bitmap_slot_inj: "bitmap_word i = bitmap_word j \<Longrightarrow> bitmap_shift i = bitmap_shift j \<Longrightarrow> i = j"
  by (metis bitmap_word_def bitmap_shift_def div_mult_mod_eq mult_right_cancel zero_neq_numeral)

lemma bitmap_shift_less [simp]: "bitmap_shift i < 64"
proof -
  have "i mod 4 < 4" by simp
  then show ?thesis unfolding bitmap_shift_def by linarith
qed

lemma bitmap_shift_not_ge [simp]: "\<not> 64 \<le> bitmap_shift i"
  by (simp add: not_le)

lemma bitmap_check_bit: "bitmap_check m i = bit (m (bitmap_word i)) (bitmap_shift i)"
proof -
  have "m (bitmap_word i) AND push_bit (bitmap_shift i) 1 = (if bit (m (bitmap_word i)) (bitmap_shift i) then push_bit (bitmap_shift i) 1 else 0)"
    by (rule bit_eqI) (auto simp: bit_simps)
  then show ?thesis by (auto simp: bitmap_check_def)
qed

text \<open>
  The bit helpers keep distinct bits apart: after setting a bit it reads as set, after
  clearing it as clear, and every other bit reads as before. The bits of one word of the map
  are only four, eight positions apart, and bit \<open>i\<close> lives in word \<open>8 * (i div 4)\<close>, because the
  block size is not parenthesised.
\<close>

lemma bitmap_ops_spec:
  "bitmap_check (bitmap_set m i) j = (j = i \<or> bitmap_check m j) \<and>
   bitmap_check (bitmap_clear m i) j = (j \<noteq> i \<and> bitmap_check m j) \<and>
   {k. bitmap_set m i k \<noteq> m k} \<subseteq> {8 * (i div 4)}"
proof -
  have "bitmap_word j = bitmap_word i \<Longrightarrow> bitmap_shift j = bitmap_shift i \<longleftrightarrow> j = i"
    using bitmap_slot_inj by blast
  then show ?thesis
    by (auto simp: bitmap_check_bit bitmap_set_def bitmap_clear_def bit_simps bitmap_word_def)
qed

end
