(* ===== verification/Phys.thy ===== *)
theory Phys
  imports Buddy_Embed Buddy_Properties Addr
begin

text \<open>
  The physical page allocator of \<open>src/kernel/arch/x86/mm/phys.c\<close>: a list of zones, each with an
  embedded buddy allocator, behind one spin lock (\<open>src/libs/moon-sys/sources/spinlock.c\<close>). The
  kernel runs on one processor, so acquiring a lock that is held never returns: \<open>None\<close>.

  Shown: a zone that is initialised has a consistent allocator inside its memory; the zone
  list is a block allocator in the sense of \<open>block_allocator\<close>; \<open>arch_alloc_page_sz\<close> returns a
  fresh block whose first page is zeroed and leaves every other byte alone; and when it finds
  no block it returns with the lock still held, so that no later call returns.
\<close>

section \<open>Locks\<close>

definition acquire_lock :: "bool \<Rightarrow> bool option" where
  "acquire_lock locked = (if locked then None else Some True)"

definition release_lock :: "bool \<Rightarrow> bool" where
  "release_lock locked = False"

section \<open>Zones\<close>

record zone =
  zone_buddy :: "buddy option"
  zone_start :: size_t
  zone_len :: size_t
  page_count :: size_t
  zone_nr :: nat
  zone_name :: string

record MemoryMapEntry =
  mm_base :: addr
  mm_length :: size_t
  mm_type :: nat

definition HANDOVER_MEMMAP_USABLE :: nat where "HANDOVER_MEMMAP_USABLE = 0"
definition HANDOVER_MEMMAP_RESERVED :: nat where "HANDOVER_MEMMAP_RESERVED = 1"
definition HANDOVER_MEMMAP_ACPI_RECLAIMABLE :: nat where "HANDOVER_MEMMAP_ACPI_RECLAIMABLE = 2"
definition HANDOVER_MEMMAP_ACPI_NVS :: nat where "HANDOVER_MEMMAP_ACPI_NVS = 3"
definition HANDOVER_MEMMAP_BAD_MEMORY :: nat where "HANDOVER_MEMMAP_BAD_MEMORY = 4"
definition HANDOVER_MEMMAP_BOOTLOADER_RECLAIMABLE :: nat where "HANDOVER_MEMMAP_BOOTLOADER_RECLAIMABLE = 5"
definition HANDOVER_MEMMAP_KERNEL_AND_MODULES :: nat where "HANDOVER_MEMMAP_KERNEL_AND_MODULES = 6"
definition HANDOVER_MEMMAP_FRAMEBUFFER :: nat where "HANDOVER_MEMMAP_FRAMEBUFFER = 7"

definition get_mmap_type :: "nat \<Rightarrow> string" where
  "get_mmap_type entry =
     (if entry = HANDOVER_MEMMAP_USABLE then ''RAM''
      else if entry = HANDOVER_MEMMAP_RESERVED then ''Reserved''
      else if entry = HANDOVER_MEMMAP_ACPI_RECLAIMABLE then ''ACPI Reclaimable''
      else if entry = HANDOVER_MEMMAP_ACPI_NVS then ''ACPI NVS''
      else if entry = HANDOVER_MEMMAP_BAD_MEMORY then ''Bad Memory''
      else if entry = HANDOVER_MEMMAP_BOOTLOADER_RECLAIMABLE then ''Bootloader Reclaimable''
      else if entry = HANDOVER_MEMMAP_KERNEL_AND_MODULES then ''Kernel And Modules''
      else if entry = HANDOVER_MEMMAP_FRAMEBUFFER then ''Framebuffer''
      else ''???'')"

definition sizeof_zone :: nat where
  "sizeof_zone = 56"

text \<open>\<open>mem\<close> is the memory before the call; the buddy allocator is embedded at the end of the zone.\<close>

definition init_zone :: "bytes \<Rightarrow> addr \<Rightarrow> size_t \<Rightarrow> nat \<Rightarrow> zone option" where
  "init_zone mem base len nr =
     (let base = ALIGN_UP (add64 base sizeof_zone);
          len = sub64 len PAGE_SIZE
      in case buddy_embed mem base len of
           None \<Rightarrow> None
         | Some b \<Rightarrow> Some \<lparr>zone_buddy = b, zone_start = base, zone_len = len,
                           page_count = len div PAGE_SIZE, zone_nr = nr,
                           zone_name = ''Physical memory (Generic-RAM)''\<rparr>)"

text \<open>
  The loop of \<open>init_phys_allocator\<close>. The array \<open>zone_list\<close> has 1024 entries and is read up to its
  first null pointer; \<open>None\<close> also stands for writing behind it.
\<close>

fun init_zones :: "bytes \<Rightarrow> nat \<Rightarrow> MemoryMapEntry list \<Rightarrow> nat \<Rightarrow> zone list option" where
  "init_zones mem hhdm [] nr = Some []"
| "init_zones mem hhdm (e # es) nr =
     (if mm_type e \<noteq> HANDOVER_MEMMAP_USABLE \<or> mm_length e = PAGE_SIZE then init_zones mem hhdm es nr
      else if nr \<ge> 1024 then None
      else case init_zone mem (va hhdm (mm_base e)) (sub64 (mm_length e) 1) nr of
             None \<Rightarrow> None
           | Some z \<Rightarrow> (case init_zones mem hhdm es (nr + 1) of
                          None \<Rightarrow> None
                        | Some zs \<Rightarrow> Some (z # zs)))"

definition init_phys_allocator :: "bytes \<Rightarrow> nat \<Rightarrow> MemoryMapEntry list \<Rightarrow> zone list option" where
  "init_phys_allocator mem hhdm mmap = init_zones mem hhdm mmap 0"

section \<open>Allocation\<close>

record pmm =
  zone_list :: "zone list"
  pmm_lock :: bool

fun find_first_free_block :: "zone list \<Rightarrow> size_t \<Rightarrow> addr \<times> zone list" where
  "find_first_free_block [] sz = (0, [])"
| "find_first_free_block (z # zs) sz =
     (if zone_len z < sz then let (p, zs') = find_first_free_block zs sz in (p, z # zs')
      else let (p, b) = buddy_malloc (zone_buddy z) sz; z = z\<lparr>zone_buddy := b\<rparr>
           in if p = 0 then let (p, zs') = find_first_free_block zs sz in (p, z # zs')
              else (p, z # zs))"

definition arch_alloc_page_sz :: "pmm \<Rightarrow> bytes \<Rightarrow> size_t \<Rightarrow> (addr \<times> pmm \<times> bytes) option" where
  "arch_alloc_page_sz s mem sz =
     (case acquire_lock (pmm_lock s) of
        None \<Rightarrow> None
      | Some l \<Rightarrow>
          let (block, zs) = find_first_free_block (zone_list s) sz; s = s\<lparr>pmm_lock := l, zone_list := zs\<rparr>
          in if block = 0 then Some (0, s, mem)
             else let mem = fst (memset mem block 0 PAGE_SIZE)
                  in Some (block, s\<lparr>pmm_lock := release_lock l\<rparr>, mem))"

definition arch_alloc_page :: "pmm \<Rightarrow> bytes \<Rightarrow> (addr \<times> pmm \<times> bytes) option" where
  "arch_alloc_page s mem = arch_alloc_page_sz s mem 4096"

fun free_in_zones :: "zone list \<Rightarrow> addr \<Rightarrow> zone list" where
  "free_in_zones [] page = []"
| "free_in_zones (z # zs) page =
     (if zone_start z \<le> page \<and> page \<le> add64 (zone_start z) (zone_len z)
      then z\<lparr>zone_buddy := buddy_free (zone_buddy z) page\<rparr> # zs
      else z # free_in_zones zs page)"

definition arch_free_page :: "pmm \<Rightarrow> addr \<Rightarrow> pmm option" where
  "arch_free_page s page =
     (if page = 0 then Some s
      else case acquire_lock (pmm_lock s) of
             None \<Rightarrow> None
           | Some l \<Rightarrow> Some (s\<lparr>zone_list := free_in_zones (zone_list s) page, pmm_lock := release_lock l\<rparr>))"

fun reserve_in_zones :: "zone list \<Rightarrow> addr \<Rightarrow> size_t \<Rightarrow> zone list option" where
  "reserve_in_zones [] base len = Some []"
| "reserve_in_zones (z # zs) base len =
     (if zone_len z < len
      then map_option ((#) z) (reserve_in_zones zs base len)
      else case buddy_toggle_range_reservation (zone_buddy z) base len True of
             None \<Rightarrow> None
           | Some b \<Rightarrow> map_option ((#) (z\<lparr>zone_buddy := b\<rparr>)) (reserve_in_zones zs base len))"

definition arch_reserve_range :: "pmm \<Rightarrow> addr \<Rightarrow> size_t \<Rightarrow> pmm option" where
  "arch_reserve_range s base len =
     (case acquire_lock (pmm_lock s) of
        None \<Rightarrow> None
      | Some l \<Rightarrow> (case reserve_in_zones (zone_list s) base len of
                     None \<Rightarrow> None
                   | Some zs \<Rightarrow> Some (s\<lparr>zone_list := zs, pmm_lock := release_lock l\<rparr>)))"

text \<open>
  What a call ends in that does not return to its caller, for the components that panic: a panic,
  or waiting forever, for a lock or in a loop. Their state is the page allocator and the memory.
\<close>

datatype stop = Panic | Stuck

type_synonym vm = "pmm \<times> bytes"

section \<open>The zone list as a block allocator\<close>

text \<open>
  A zone is consistent when its allocator is and the arena lies inside the zone; two zones do
  not overlap. A zone whose allocator could not be embedded has the null pointer.
\<close>

definition zone_range :: "zone \<Rightarrow> addr set" where
  "zone_range z = {zone_start z .. zone_start z + zone_len z}"

definition zone_ok :: "zone \<Rightarrow> bool" where
  "zone_ok z \<longleftrightarrow> zone_start z + zone_len z < 2 ^ 64 \<and>
     (case zone_buddy z of None \<Rightarrow> True
      | Some b \<Rightarrow> buddy_inv b \<and> {buddy_main b ..< buddy_main b + memory_size b} \<subseteq> zone_range z)"

fun zones_ok :: "zone list \<Rightarrow> bool" where
  "zones_ok [] = True"
| "zones_ok (z # zs) \<longleftrightarrow> zone_ok z \<and> (\<forall>y \<in> set zs. zone_range z \<inter> zone_range y = {}) \<and> zones_ok zs"

definition zone_live :: "zone \<Rightarrow> blocks" where
  "zone_live z = (case zone_buddy z of None \<Rightarrow> {} | Some b \<Rightarrow> live b)"

definition zones_live :: "zone list \<Rightarrow> blocks" where
  "zones_live zs = (\<Union>z \<in> set zs. zone_live z)"

lemma zone_live_in_range: "zone_ok z \<Longrightarrow> a \<in> zone_live z \<Longrightarrow> extent a \<subseteq> zone_range z \<and> fst a \<in> zone_range z"
proof -
  assume z: "zone_ok z" "a \<in> zone_live z"
  then obtain b where b: "zone_buddy z = Some b" "buddy_inv b" "a \<in> live b"
    "{buddy_main b ..< buddy_main b + memory_size b} \<subseteq> zone_range z"
    by (auto simp: zone_ok_def zone_live_def split: option.splits)
  note l = live_in_arena [OF b(2,3)]
  have "fst a \<in> extent a" using l(3) by (auto simp: extent_def)
  then show ?thesis using l(1) b(4) by blast
qed

lemma zones_live_Cons [simp]: "zones_live (z # zs) = zone_live z \<union> zones_live zs"
  by (simp add: zones_live_def)

lemma zones_okD: "zones_ok zs \<Longrightarrow> z \<in> set zs \<Longrightarrow> zone_ok z"
  by (induction zs) auto

lemma zones_live_in_range:
  "zones_ok zs \<Longrightarrow> a \<in> zones_live zs \<Longrightarrow> \<exists>z \<in> set zs. extent a \<subseteq> zone_range z \<and> fst a \<in> zone_range z"
  using zone_live_in_range zones_okD unfolding zones_live_def by (metis UN_E)

lemma zone_range_upd [simp]: "zone_range (z\<lparr>zone_buddy := b\<rparr>) = zone_range z"
  by (simp add: zone_range_def)

lemma zones_disjoint_live:
  assumes "zones_ok (z # zs)" "a \<in> zones_live zs" "e \<subseteq> zone_range z"
  shows "e \<inter> extent a = {}"
proof -
  obtain y where "y \<in> set zs" "extent a \<subseteq> zone_range y"
    using zones_live_in_range [of zs a] assms(1,2) by force
  then show ?thesis using assms(1,3) by fastforce
qed

definition block_added :: "zone list \<Rightarrow> addr \<Rightarrow> nat \<Rightarrow> zone list \<Rightarrow> bool" where
  "block_added zs p n zs' \<longleftrightarrow> zones_live zs' = insert (p, n) (zones_live zs) \<and>
     (\<forall>a \<in> zones_live zs. extent (p, n) \<inter> extent a = {}) \<and> (\<exists>z \<in> set zs. extent (p, n) \<subseteq> zone_range z)"

lemma find_block_spec:
  assumes "zones_ok zs" "find_first_free_block zs sz = (p, zs')"
  shows "zones_ok zs' \<and> map zone_range zs' = map zone_range zs \<and>
    (if p = 0 then zs' = zs else \<exists>n. sz \<le> n \<and> 1 \<le> n \<and> block_added zs p n zs')"
  using assms
proof (induction zs arbitrary: p zs')
  case (Cons z zs)
  have skip: ?case if z': "find_first_free_block (z # zs) sz = (let (p, zs') = find_first_free_block zs sz in (p, z # zs'))"
  proof -
    obtain q ys where f: "find_first_free_block zs sz = (q, ys)" by (cases "find_first_free_block zs sz")
    then have e: "p = q" "zs' = z # ys" using Cons.prems(2) z' by simp_all
    have zok: "zones_ok zs" using Cons.prems(1) by simp
    note IH = Cons.IH [OF zok f]
    have im: "zone_range ` set ys = zone_range ` set zs" using IH by (metis list.set_map)
    have "zone_range z \<inter> zone_range y = {}" if y: "y \<in> set ys" for y
    proof -
      obtain x where "x \<in> set zs" "zone_range y = zone_range x" using im y by blast
      then show ?thesis using Cons.prems(1) by simp
    qed
    then have ok: "zones_ok (z # ys)" using Cons.prems(1) IH by simp
    have "block_added (z # zs) q n (z # ys)" if n: "block_added zs q n ys" for n
    proof -
      have "extent (q, n) \<inter> extent a = {}" if a: "a \<in> zone_live z" for a
      proof -
        have "extent a \<subseteq> zone_range z" using zone_live_in_range [OF _ a] Cons.prems(1) by simp
        then have "extent a \<inter> extent (q, n) = {}" using zones_disjoint_live [OF ok, of "(q, n)"] n by (simp add: block_added_def)
        then show ?thesis by blast
      qed
      then show ?thesis using n by (auto simp: block_added_def)
    qed
    then show ?thesis using e ok IH by (cases "q = 0") (simp_all, blast)
  qed
  show ?case
  proof (cases "zone_len z < sz")
    case True
    then show ?thesis by (intro skip) simp
  next
    case F: False
    show ?thesis
    proof (cases "zone_buddy z")
      case None
      then show ?thesis using F by (intro skip) (cases z, simp add: buddy_malloc.simps)
    next
      case (Some b)
      have inv: "buddy_inv b" using Cons.prems(1) Some by (simp add: zone_ok_def)
      obtain q bp where m: "buddy_malloc (Some b) sz = (q, bp)" by (cases "buddy_malloc (Some b) sz")
      show ?thesis
      proof (cases "q = 0")
        case True
        have "bp = Some b" using inv m by (cases rule: malloc_live) (use True in auto)
        then show ?thesis using F Some m True by (intro skip) (cases z, simp)
      next
        case False
        from inv m False obtain b' n where b': "bp = Some b'" "buddy_inv b'" "sz \<le> n" "1 \<le> n"
          "extent (q, n) \<subseteq> {buddy_main b ..< buddy_main b + memory_size b}"
          "live b' = insert (q, n) (live b)" "\<forall>a \<in> live b. extent (q, n) \<inter> extent a = {}"
          by (rule malloc_block)
        have ar: "buddy_main b' = buddy_main b" "memory_size b' = memory_size b"
          using malloc_keeps_arena [OF m [unfolded b'(1)]] by simp_all
        let ?z = "z\<lparr>zone_buddy := Some b'\<rparr>"
        have e: "p = q" "zs' = ?z # zs" using Cons.prems(2) F Some m False b'(1) by (simp_all add: Let_def)
        have sub: "extent (q, n) \<subseteq> zone_range z" using b'(5) Cons.prems(1) Some by (auto simp: zone_ok_def)
        have "zone_ok ?z" using Cons.prems(1) Some b'(2) ar by (simp add: zone_ok_def)
        then have ok: "zones_ok (?z # zs)" using Cons.prems(1) by simp
        have lv: "zone_live ?z = insert (q, n) (zone_live z)" "\<forall>a \<in> zone_live z. extent (q, n) \<inter> extent a = {}"
          using b'(6,7) Some by (simp_all add: zone_live_def)
        have "\<forall>a \<in> zones_live zs. extent (q, n) \<inter> extent a = {}"
          using zones_disjoint_live [OF Cons.prems(1) _ sub] by blast
        then have "block_added (z # zs) q n (?z # zs)" using lv sub by (auto simp: block_added_def)
        then show ?thesis using e ok False b'(3,4) by auto
      qed
    qed
  qed
qed simp

lemma free_in_zones_spec:
  assumes "zones_ok zs"
  shows "zones_ok (free_in_zones zs p) \<and> map zone_range (free_in_zones zs p) = map zone_range zs \<and>
    zones_live (free_in_zones zs p) = {a \<in> zones_live zs. fst a \<noteq> p}"
  using assms
proof (induction zs)
  case (Cons z zs)
  have zok: "zones_ok zs" "zone_ok z" using Cons.prems by simp_all
  have range: "zone_start z \<le> p \<and> p \<le> add64 (zone_start z) (zone_len z) \<longleftrightarrow> p \<in> zone_range z"
    using zok(2) by (simp add: zone_ok_def zone_range_def add64_id)
  show ?case
  proof (cases "p \<in> zone_range z")
    case True
    have other: "fst a \<noteq> p" if a: "a \<in> zones_live zs" for a
    proof -
      obtain y where "y \<in> set zs" "fst a \<in> zone_range y" using zones_live_in_range [OF zok(1) a] by blast
      then show ?thesis using True Cons.prems by auto
    qed
    let ?z = "z\<lparr>zone_buddy := buddy_free (zone_buddy z) p\<rparr>"
    have "zone_ok ?z \<and> zone_live ?z = {a \<in> zone_live z. fst a \<noteq> p}"
    proof (cases "zone_buddy z")
      case None
      then show ?thesis using zok(2) by (simp add: buddy_free.simps zone_live_def zone_ok_def zone_range_def)
    next
      case (Some b)
      then have inv: "buddy_inv b" using zok(2) by (simp add: zone_ok_def)
      obtain b' where "buddy_free (Some b) p = Some b'" "buddy_inv b'" "live b' = {a \<in> live b. fst a \<noteq> p}"
        "buddy_main b' = buddy_main b" "memory_size b' = memory_size b" by (rule free_live [OF inv])
      then show ?thesis using zok(2) Some by (simp add: zone_live_def zone_ok_def zone_range_def)
    qed
    moreover have "free_in_zones (z # zs) p = ?z # zs" using True range by simp
    ultimately show ?thesis using Cons.prems other by auto
  next
    case False
    have "fst a \<noteq> p" if "a \<in> zone_live z" for a using zone_live_in_range [OF zok(2) that] False by blast
    moreover have "free_in_zones (z # zs) p = z # free_in_zones zs p" using False range by auto
    moreover note IH = Cons.IH [OF zok(1)]
    moreover have im: "zone_range ` set (free_in_zones zs p) = zone_range ` set zs" using IH by (metis list.set_map)
    moreover have "zone_range z \<inter> zone_range y = {}" if y: "y \<in> set (free_in_zones zs p)" for y
    proof -
      obtain x where "x \<in> set zs" "zone_range y = zone_range x" using im y by blast
      then show ?thesis using Cons.prems by simp
    qed
    ultimately show ?thesis using zok(2) by auto
  qed
qed (simp add: zones_live_def)

lemma zones_live_disjoint:
  assumes "zones_ok zs" "a \<in> zones_live zs" "b \<in> zones_live zs" "a \<noteq> b"
  shows "extent a \<inter> extent b = {}"
  using assms
proof (induction zs)
  case (Cons z zs)
  have zok: "zones_ok zs" "zone_ok z" using Cons.prems(1) by simp_all
  have same: "extent a \<inter> extent b = {}" if "a \<in> zone_live z" "b \<in> zone_live z"
    using that zok(2) Cons.prems(4) buddy.live_disjoint [of _ a b]
    by (auto simp: zone_live_def zone_ok_def split: option.splits)
  have cross: "extent c \<inter> extent d = {}" if "c \<in> zone_live z" "d \<in> zones_live zs" for c d
    using zones_disjoint_live [OF Cons.prems(1) that(2)] zone_live_in_range [OF zok(2) that(1)] by blast
  show ?case
    using Cons.prems(2,3) same cross [of a b] cross [of b a] Cons.IH [OF zok(1)] Cons.prems(4) by auto
qed (simp add: zones_live_def)

lemma zones_live_nonempty: "zones_ok zs \<Longrightarrow> a \<in> zones_live zs \<Longrightarrow> fst a \<noteq> 0 \<and> snd a \<noteq> 0"
proof -
  assume "zones_ok zs" "a \<in> zones_live zs"
  then obtain z where "zone_ok z" "a \<in> zone_live z" using zones_okD by (auto simp: zones_live_def)
  then show ?thesis using buddy.live_nonempty [of _ a] by (auto simp: zone_live_def zone_ok_def split: option.splits)
qed

interpretation zones: block_allocator zones_ok zones_live find_first_free_block free_in_zones
proof (unfold_locales, goal_cases)
  case (1 zs n p zs')
  then show ?case using find_block_spec by blast
next
  case (2 zs n zs')
  then show ?case using find_block_spec [of zs n 0 zs'] by simp
next
  case (3 zs n p zs')
  then have "\<exists>sz. n \<le> sz \<and> 1 \<le> sz \<and> block_added zs p sz zs'" using find_block_spec [of zs n p zs'] by simp
  then show ?case unfolding block_added_def by blast
next
  case (4 zs a)
  then show ?case by (rule zones_live_nonempty)
next
  case (5 zs a b)
  then show ?case by (rule zones_live_disjoint)
next
  case (6 zs p)
  then show ?case using free_in_zones_spec by blast
next
  case (7 zs p)
  then show ?case using free_in_zones_spec by blast
qed

section \<open>Page frames\<close>

text \<open>
  The interface the paging code relies on: a frame that is handed out is page aligned, not
  owned by anyone, and zeroed; all frames lie in the memory the allocator manages.
\<close>

locale frame_allocator =
  fixes frames_ok :: "'s \<Rightarrow> bool"
    and owned :: "'s \<Rightarrow> addr set"
    and memory :: "'s \<Rightarrow> addr set"
    and get :: "'s \<Rightarrow> bytes \<Rightarrow> (addr \<times> 's \<times> bytes) option"
  assumes get_returns: "frames_ok s \<Longrightarrow> get s m \<noteq> None"
    and get_frame: "frames_ok s \<Longrightarrow> get s m = Some (p, s', m') \<Longrightarrow> p \<noteq> 0 \<Longrightarrow>
      frames_ok s' \<and> p \<notin> owned s \<and> owned s' = insert p (owned s) \<and> memory s' = memory s \<and>
      m' = (\<lambda>a. if p \<le> a \<and> a < p + 4096 then 0 else m a)"
    and owned_page: "frames_ok s \<Longrightarrow> p \<in> owned s \<Longrightarrow> p mod 4096 = 0 \<and> p + 4096 \<le> 2 ^ 64 \<and> p \<noteq> 0"
    and owned_memory: "frames_ok s \<Longrightarrow> p \<in> owned s \<Longrightarrow> {p ..< p + 4096} \<subseteq> memory s"
begin

lemma owned_disjoint:
  assumes "frames_ok s" "p \<in> owned s" "q \<in> owned s" "p \<noteq> q"
  shows "p + 4096 \<le> q \<or> q + 4096 \<le> p"
proof -
  have "4096 dvd p" "4096 dvd q" using owned_page [OF assms(1)] assms(2,3) by (auto simp: dvd_eq_mod_eq_0)
  then obtain i j where "p = 4096 * i" "q = 4096 * j" by (auto elim!: dvdE)
  then show ?thesis using assms(4) by (cases "i < j") auto
qed

text \<open>Taking a frame leaves the content of every owned frame as it was.\<close>

lemma get_keeps:
  assumes "frames_ok s" "get s m = Some (p, s', m')" "p \<noteq> 0" "q \<in> owned s" "q \<le> a" "a < q + 4096"
  shows "m' a = m a"
proof -
  note g = get_frame [OF assms(1-3)]
  have "p + 4096 \<le> q \<or> q + 4096 \<le> p" using owned_disjoint [of s' p q] g assms(4) by auto
  then show ?thesis using g assms(5,6) by auto
qed

lemma get_zeroed:
  assumes "frames_ok s" "get s m = Some (p, s', m')" "p \<noteq> 0" "p \<le> a" "a < p + 4096"
  shows "m' a = 0"
  using get_frame [OF assms(1-3)] assms(4,5) by simp

end

definition paged_zone :: "zone \<Rightarrow> bool" where
  "paged_zone z \<longleftrightarrow> (case zone_buddy z of None \<Rightarrow> True
     | Some b \<Rightarrow> buddy_main b mod 4096 = 0 \<and> alignment b = 64 \<and> buddy_main b + memory_size b < 2 ^ 64)"

definition pmm_ok :: "pmm \<Rightarrow> bool" where
  "pmm_ok s \<longleftrightarrow> zones_ok (zone_list s) \<and> \<not> pmm_lock s \<and> (\<forall>z \<in> set (zone_list s). paged_zone z)"

definition pmm_frames :: "pmm \<Rightarrow> addr set" where
  "pmm_frames s = {p. p mod 4096 = 0 \<and> (\<exists>n \<ge> 4096. (p, n) \<in> zones_live (zone_list s))}"

definition pmm_memory :: "pmm \<Rightarrow> addr set" where
  "pmm_memory s = (\<Union>z \<in> set (zone_list s). zone_range z)"

lemma page_block_aligned:
  assumes "n = 2 ^ j * 64" "4096 \<le> n" "n dvd p - main" "main \<le> p" "main mod 4096 = (0::nat)"
  shows "p mod 4096 = 0"
proof -
  have "6 \<le> j"
  proof (rule ccontr)
    assume "\<not> 6 \<le> j"
    then have "(2::nat) ^ j \<le> 2 ^ 5" by (intro power_increasing) simp_all
    then show False using assms(1,2) by simp
  qed
  then have "(2::nat) ^ 6 dvd 2 ^ j" by (rule le_imp_power_dvd)
  then have "2 ^ 6 * 64 dvd n" unfolding assms(1) by (rule mult_dvd_mono) simp
  then have "4096 dvd n" by simp
  then have "4096 dvd p - main" using assms(3) by (rule dvd_trans)
  moreover have "4096 dvd main" using assms(5) by (simp add: dvd_eq_mod_eq_0)
  ultimately have "4096 dvd (p - main) + main" by (rule dvd_add)
  then show ?thesis using assms(4) by (simp add: dvd_eq_mod_eq_0)
qed

text \<open>A block for a whole page starts at a page.\<close>

lemma find_block_paged:
  assumes "zones_ok zs" "\<forall>z \<in> set zs. paged_zone z" "find_first_free_block zs sz = (p, zs')" "4096 \<le> sz"
  shows "(\<forall>z \<in> set zs'. paged_zone z) \<and> (p \<noteq> 0 \<longrightarrow> p mod 4096 = 0)"
  using assms
proof (induction zs arbitrary: p zs')
  case (Cons z zs)
  obtain q ys where f: "find_first_free_block zs sz = (q, ys)" by (cases "find_first_free_block zs sz")
  have IH: "(\<forall>z \<in> set ys. paged_zone z) \<and> (q \<noteq> 0 \<longrightarrow> q mod 4096 = 0)"
    using Cons.IH [OF _ _ f assms(4)] Cons.prems by simp
  show ?case
  proof (cases "zone_len z < sz \<or> zone_buddy z = None")
    case True
    then have "p = q \<and> zs' = z # ys" using f Cons.prems(3) by (cases z) (auto simp: buddy_malloc.simps split: if_splits)
    then show ?thesis using IH Cons.prems(2) by simp
  next
    case F: False
    then obtain b where b: "zone_buddy z = Some b" by auto
    have inv: "buddy_inv b" using Cons.prems(1) b by (simp add: zone_ok_def)
    obtain r bp where m: "buddy_malloc (Some b) sz = (r, bp)" by (cases "buddy_malloc (Some b) sz")
    show ?thesis
    proof (cases "r = 0")
      case True
      have "bp = Some b" using inv m by (cases rule: malloc_live) (use True in auto)
      then have "p = q \<and> zs' = z # ys" using f F b m True Cons.prems(3) by (cases z) auto
      then show ?thesis using IH Cons.prems(2) by simp
    next
      case False
      obtain b' n where n: "bp = Some b'" "sz \<le> n" "n dvd r - buddy_main b" "extent (r, n) \<subseteq> {buddy_main b ..< buddy_main b + memory_size b}"
        "\<exists>j. n = 2 ^ j * alignment b" "1 \<le> n" using malloc_block [OF inv m False] by metis
      have pz: "buddy_main b mod 4096 = 0" "alignment b = 64" using Cons.prems(2) b by (auto simp: paged_zone_def)
      have "r \<in> extent (r, n)" using n(6) by (simp add: extent_def)
      then have "buddy_main b \<le> r" using n(4) by auto
      then have "r mod 4096 = 0" using n pz assms(4) by (auto intro: page_block_aligned [of n _ r "buddy_main b"])
      then show ?thesis using F b m False n(1) malloc_keeps_arena [OF m [unfolded n(1)]] Cons.prems(2,3)
        by (auto simp: paged_zone_def Let_def)
    qed
  qed
qed simp

lemma pmm_frame_get:
  assumes "pmm_ok s" "arch_alloc_page s m = Some (p, s', m')" "p \<noteq> 0"
  shows "pmm_ok s' \<and> p \<notin> pmm_frames s \<and> pmm_frames s' = insert p (pmm_frames s) \<and> pmm_memory s' = pmm_memory s \<and>
    m' = (\<lambda>a. if p \<le> a \<and> a < p + 4096 then 0 else m a)"
proof -
  obtain q zs where f: "find_first_free_block (zone_list s) 4096 = (q, zs)"
    by (cases "find_first_free_block (zone_list s) 4096")
  have zok: "zones_ok (zone_list s)" and l: "\<not> pmm_lock s" and pz: "\<forall>z \<in> set (zone_list s). paged_zone z"
    using assms(1) by (auto simp: pmm_ok_def)
  have e: "p = q" "s' = s\<lparr>zone_list := zs, pmm_lock := False\<rparr>"
    "m' = (\<lambda>a. if p \<le> a \<and> a < p + 4096 then 0 else m a)"
    using assms(2,3) f l
    by (auto simp: arch_alloc_page_def arch_alloc_page_sz_def acquire_lock_def release_lock_def memset_def
        memset_loop_eq PAGE_SIZE_def Let_def split: if_splits)
  have q: "q \<noteq> 0" using e(1) assms(3) by simp
  obtain n where n: "zones_ok zs" "4096 \<le> n" "block_added (zone_list s) q n zs"
    using find_block_spec [OF zok f] q by auto
  have "zone_range ` set zs = zone_range ` set (zone_list s)" using find_block_spec [OF zok f] by (metis list.set_map)
  then have mem: "pmm_memory s' = pmm_memory s" using e(2) by (simp add: pmm_memory_def)
  have pg: "(\<forall>z \<in> set zs. paged_zone z)" "q mod 4096 = 0" using find_block_paged [OF zok pz f] q by auto
  have "q \<notin> fst ` zones_live (zone_list s)" using zones.new_block_fresh [OF zok f q] .
  then have "q \<notin> pmm_frames s" by (force simp: pmm_frames_def)
  moreover have "pmm_frames s' = insert q (pmm_frames s)"
    using n(2,3) pg(2) e(2) by (auto simp: pmm_frames_def block_added_def)
  moreover have "pmm_ok s'" using n(1) pg(1) e(2) by (simp add: pmm_ok_def)
  ultimately show ?thesis using e mem by simp
qed

lemma pmm_frames_range:
  assumes "pmm_ok s" "p \<in> pmm_frames s"
  obtains n z where "4096 \<le> n" "(p, n) \<in> zones_live (zone_list s)" "p mod 4096 = 0" "zone_ok z"
    "z \<in> set (zone_list s)" "extent (p, n) \<subseteq> zone_range z"
proof -
  obtain n where n: "4096 \<le> n" "(p, n) \<in> zones_live (zone_list s)" "p mod 4096 = 0" using assms(2) by (auto simp: pmm_frames_def)
  have zok: "zones_ok (zone_list s)" using assms(1) by (simp add: pmm_ok_def)
  obtain z where z: "z \<in> set (zone_list s)" "extent (p, n) \<subseteq> zone_range z" using zones_live_in_range [OF zok n(2)] by blast
  show ?thesis using that [OF n zones_okD [OF zok z(1)] z] .
qed

interpretation frames: frame_allocator pmm_ok pmm_frames pmm_memory arch_alloc_page
proof (unfold_locales, goal_cases)
  case (1 s m)
  then show ?case
    by (auto simp: pmm_ok_def arch_alloc_page_def arch_alloc_page_sz_def acquire_lock_def Let_def split: prod.splits)
next
  case (2 s m p s' m')
  then show ?case by (rule pmm_frame_get)
next
  case (3 s p)
  then obtain n z where n: "4096 \<le> n" "(p, n) \<in> zones_live (zone_list s)" "p mod 4096 = 0" "zone_ok z"
    "extent (p, n) \<subseteq> zone_range z" by (elim pmm_frames_range)
  have "zone_start z + zone_len z < 2 ^ 64" using n(4) by (simp add: zone_ok_def)
  moreover have "p + n - 1 \<in> extent (p, n)" using n(1) by (simp add: extent_def)
  then have "p + n - 1 \<le> zone_start z + zone_len z" using n(5) by (auto simp: zone_range_def)
  ultimately have "p + 4096 \<le> 2 ^ 64" using n(1) by simp
  moreover have "zones_ok (zone_list s)" using 3 by (simp add: pmm_ok_def)
  ultimately show ?case using n(2,3) zones_live_nonempty by fastforce
next
  case (4 s p)
  then obtain n z where "4096 \<le> n" "z \<in> set (zone_list s)" "extent (p, n) \<subseteq> zone_range z" by (elim pmm_frames_range)
  then show ?case by (fastforce simp: pmm_memory_def extent_def)
qed

section \<open>Initialisation of a zone\<close>

text \<open>
  A usable region that starts at a page and holds the zone's own page, the metadata and at
  least one slot becomes a consistent zone with an empty allocator.
\<close>

definition zone_pre :: "addr \<Rightarrow> size_t \<Rightarrow> bool" where
  "zone_pre base len \<longleftrightarrow> base mod 4096 = 0 \<and> 4096 \<le> len \<and> base + len + 8192 < 2 ^ 64 \<and>
     embed_pre (base + 4096) (len - 4096) 64"

lemma init_zone_spec:
  assumes "zone_pre base len"
  shows "\<exists>z b. init_zone mem base len nr = Some z \<and> zone_ok z \<and> zone_start z = base + 4096 \<and>
    zone_len z = len - 4096 \<and> zone_buddy z = Some b \<and> zone_live z = {} \<and> buddy_main b = base + 4096 \<and>
    buddy_at b + buddy_sizeof_alignment (memory_size b) 64 \<le> base + len \<and> alignment b = 64 \<and> memory_size b \<le> zone_len z \<and>
    memory_size b = embed_offset (buddy_embed_offset (len - 4096) 64) - embed_offset (buddy_embed_offset (len - 4096) 64) mod 64"
proof -
  have a: "add64 base 56 = base + 56" "ALIGN_UP (base + 56) = base + 4096" "sub64 len 4096 = len - 4096"
    using assms by (auto simp: zone_pre_def wrap_simps intro!: ALIGN_UP_page)
  have pre: "embed_pre (base + 4096) (len - 4096) 64" using assms by (simp add: zone_pre_def)
  obtain b where b: "buddy_embed_alignment mem (base + 4096) (len - 4096) 64 = Some (Some b)" "buddy_inv b" "live b = {}"
    "buddy_main b = base + 4096"
    "memory_size b = embed_offset (buddy_embed_offset (len - 4096) 64) - embed_offset (buddy_embed_offset (len - 4096) 64) mod 64"
    "alignment b = 64" "buddy_at b = base + 4096 + embed_offset (buddy_embed_offset (len - 4096) 64)"
    "embed_offset (buddy_embed_offset (len - 4096) 64) + buddy_sizeof_alignment (memory_size b) 64 \<le> len - 4096"
    by (rule embed_live [OF pre, of mem])
  have "memory_size b \<le> len - 4096" using b(5,8) by linarith
  moreover from this have "{buddy_main b ..< buddy_main b + memory_size b} \<subseteq> {base + 4096 .. base + 4096 + (len - 4096)}"
    using b(4) by auto
  moreover define z where "z = \<lparr>zone_buddy = Some b, zone_start = base + 4096, zone_len = len - 4096,
    page_count = (len - 4096) div PAGE_SIZE, zone_nr = nr, zone_name = ''Physical memory (Generic-RAM)''\<rparr>"
  moreover have "buddy_at b + buddy_sizeof_alignment (memory_size b) 64 \<le> base + len"
  proof -
    have "4096 \<le> len" using assms by (simp add: zone_pre_def)
    then show ?thesis using b(7,8) by linarith
  qed
  moreover have "init_zone mem base len nr = Some z"
    using a b(1) by (simp add: init_zone_def sizeof_zone_def PAGE_SIZE_def buddy_embed_def BUDDY_ALLOC_ALIGN_def
        z_def Let_def)
  ultimately show ?thesis
    using b assms by (intro exI [of _ z] exI [of _ b]) (simp add: zone_ok_def zone_range_def zone_live_def zone_pre_def)
qed

section \<open>Properties\<close>


text \<open>One zone over the arena of the sample allocator.\<close>

definition sample_pmm :: pmm where
  "sample_pmm = \<lparr>zone_list = [\<lparr>zone_buddy = Some sample_buddy, zone_start = 4096, zone_len = 8192,
     page_count = 2, zone_nr = 0, zone_name = ''Physical memory (Generic-RAM)''\<rparr>], pmm_lock = False\<rparr>"

lemma sample_pmm_ok: "pmm_ok sample_pmm"
  using sample_buddy_facts
  by (auto simp: pmm_ok_def sample_pmm_def zone_ok_def zone_range_def paged_zone_def)

lemma sample_pmm_serves: "fst (find_first_free_block (zone_list sample_pmm) 100) \<noteq> 0"
  using sample_malloc_serves [of 100]
  by (cases "buddy_malloc (Some sample_buddy) 100") (auto simp: sample_pmm_def)


text \<open>
  C37: after \<open>arch_alloc_page_sz\<close> has returned null, no later allocation, reservation or free of
  a page returns: the lock was not released.
\<close>

theorem arch_alloc_failure_blocks:
  assumes "arch_alloc_page_sz s mem sz = Some (0, s', mem')"
  shows "arch_alloc_page_sz s' mem' sz' = None \<and> arch_reserve_range s' base len = None \<and>
    arch_free_page s' (Suc page) = None"
proof -
  have "pmm_lock s'"
    using assms by (auto simp: arch_alloc_page_sz_def acquire_lock_def Let_def split: if_splits prod.splits)
  then show ?thesis by (simp add: arch_alloc_page_sz_def arch_reserve_range_def arch_free_page_def acquire_lock_def)
qed

theorem arch_alloc_failure_blocks_witness:
  "arch_alloc_page_sz \<lparr>zone_list = [], pmm_lock = True\<rparr> (\<lambda>_. 0) 4096 = None \<and>
   arch_free_page \<lparr>zone_list = [], pmm_lock = True\<rparr> 4096 = None"
  using arch_alloc_failure_blocks [of "\<lparr>zone_list = [], pmm_lock = False\<rparr>" "\<lambda>_. 0" 4096
      "\<lparr>zone_list = [], pmm_lock = True\<rparr>" "\<lambda>_. 0" 4096 0 0 4095]
  by (simp add: arch_alloc_page_sz_def acquire_lock_def)

text \<open>
  \<open>arch_free_page\<close> of any address other than null removes the live block that starts there
  and no other, keeps the zones consistent and releases the lock.
\<close>

lemma arch_free_page_spec:
  assumes "zones_ok (zone_list s)" "\<not> pmm_lock s" "page \<noteq> 0"
  shows "\<exists>s'. arch_free_page s page = Some s' \<and> zones_ok (zone_list s') \<and> \<not> pmm_lock s' \<and>
    zones_live (zone_list s') = {a \<in> zones_live (zone_list s). fst a \<noteq> page}"
  using free_in_zones_spec [OF assms(1)] assms(2,3)
  by (simp add: arch_free_page_def acquire_lock_def release_lock_def)

end
