(* ===== verification/Paging.thy ===== *)
theory Paging
  imports Phys
begin

text \<open>
  Page table entries: \<open>src/kernel/arch/x86/paging/paging.h\<close> and \<open>paging.c\<close>. A table is a page of
  512 packed eight-byte entries in the byte memory; \<open>read_pte\<close> and \<open>write_pte\<close> are the accesses
  \<open>pml->page_tables[i]\<close>. Shown: reading back what was written, and that entries of different
  tables or indices do not meet.
\<close>

section \<open>Entries\<close>

record Pte =
  pte_present :: bool
  pte_readwrite :: bool
  pte_supervisor :: bool
  pte_writethrough :: bool
  pte_cache_disabled :: bool
  pte_accessed :: bool
  pte_dirty :: bool
  pte_pagesize :: bool
  pte_global :: bool
  pte_avail :: nat
  pte_address :: nat

definition PG_PRESENT :: nat where "PG_PRESENT = 1"
definition PG_RW :: nat where "PG_RW = 2"
definition PG_SUPER :: nat where "PG_SUPER = 4"
definition MAP_READONLY :: nat where "MAP_READONLY = PG_PRESENT"
definition MAP_KERN :: nat where "MAP_KERN = PG_PRESENT OR PG_RW"
definition MAP_USER_RW :: nat where "MAP_USER_RW = PG_PRESENT OR PG_RW OR PG_SUPER"
definition MAP_USER_RO :: nat where "MAP_USER_RO = PG_PRESENT OR PG_SUPER"

definition check_flag :: "nat \<Rightarrow> nat \<Rightarrow> bool" where
  "check_flag flags k = odd (shr flags k)"

definition paging_create_entry :: "addr \<Rightarrow> nat \<Rightarrow> Pte" where
  "paging_create_entry paddr flags =
     \<lparr>pte_present = check_flag flags 0, pte_readwrite = check_flag flags 1,
      pte_supervisor = check_flag flags 2, pte_writethrough = False, pte_cache_disabled = False,
      pte_accessed = False, pte_dirty = False, pte_pagesize = False, pte_global = False,
      pte_avail = 0, pte_address = shr paddr PAGE_SHIFT mod 2 ^ 52\<rparr>"

definition paging_purge_entry :: Pte where
  "paging_purge_entry = paging_create_entry 0 0"

record Pagefault =
  pf_present :: bool
  pf_write :: bool
  pf_user :: bool
  pf_reserved :: bool
  pf_instruction_fetch :: bool
  pf_protection_key :: bool
  pf_shadow_stack :: bool
  pf_panic_on_unhandled :: bool
  pf_flags :: nat

definition paging_get_pagefault_flags :: "nat \<Rightarrow> bool \<Rightarrow> Pagefault" where
  "paging_get_pagefault_flags error_code do_panic =
     (let write = check_flag error_code 1; user = check_flag error_code 2;
          ins_fetch = check_flag error_code 4; prot_key = check_flag error_code 5;
          shadow_stack = check_flag error_code 6
      in \<lparr>pf_present = True, pf_write = write, pf_user = user, pf_reserved = False,
          pf_instruction_fetch = ins_fetch, pf_protection_key = prot_key, pf_shadow_stack = shadow_stack,
          pf_panic_on_unhandled = (do_panic \<and> (ins_fetch \<or> prot_key \<or> shadow_stack)),
          pf_flags = of_bool user * 4 + of_bool write * 2 + 1\<rparr>)"

section \<open>Entries in memory\<close>

text \<open>The bit fields, lowest first, as the compiler lays out the packed struct.\<close>

definition encode_pte :: "Pte \<Rightarrow> nat" where
  "encode_pte e =
     of_bool (pte_present e) + 2 * (of_bool (pte_readwrite e) + 2 * (of_bool (pte_supervisor e) +
     2 * (of_bool (pte_writethrough e) + 2 * (of_bool (pte_cache_disabled e) +
     2 * (of_bool (pte_accessed e) + 2 * (of_bool (pte_dirty e) + 2 * (of_bool (pte_pagesize e) +
     2 * (of_bool (pte_global e) + 2 * (pte_avail e + 8 * pte_address e)))))))))"

definition decode_pte :: "nat \<Rightarrow> Pte" where
  "decode_pte w =
     \<lparr>pte_present = odd w, pte_readwrite = odd (w div 2), pte_supervisor = odd (w div 2 div 2),
      pte_writethrough = odd (w div 2 div 2 div 2), pte_cache_disabled = odd (w div 2 div 2 div 2 div 2),
      pte_accessed = odd (w div 2 div 2 div 2 div 2 div 2),
      pte_dirty = odd (w div 2 div 2 div 2 div 2 div 2 div 2),
      pte_pagesize = odd (w div 2 div 2 div 2 div 2 div 2 div 2 div 2),
      pte_global = odd (w div 2 div 2 div 2 div 2 div 2 div 2 div 2 div 2),
      pte_avail = w div 2 div 2 div 2 div 2 div 2 div 2 div 2 div 2 div 2 mod 8,
      pte_address = w div 2 div 2 div 2 div 2 div 2 div 2 div 2 div 2 div 2 div 8\<rparr>"

definition read_pte :: "bytes \<Rightarrow> addr \<Rightarrow> nat \<Rightarrow> Pte" where
  "read_pte m pml i = decode_pte (load64 m (pml + 8 * i))"

definition write_pte :: "bytes \<Rightarrow> addr \<Rightarrow> nat \<Rightarrow> Pte \<Rightarrow> bytes" where
  "write_pte m pml i e = store64 m (pml + 8 * i) (encode_pte e)"

definition pte_ok :: "Pte \<Rightarrow> bool" where
  "pte_ok e \<longleftrightarrow> pte_avail e < 8 \<and> pte_address e < 2 ^ 52"

lemma half_bit: "(of_bool b + 2 * n) div 2 = n" "odd (of_bool b + 2 * n) = b" for n :: nat
  by (cases b, simp_all)+

lemma decode_encode: "pte_ok e \<Longrightarrow> decode_pte (encode_pte e) = e"
proof -
  assume "pte_ok e"
  then have "(pte_avail e + 8 * pte_address e) mod 8 = pte_avail e" "(pte_avail e + 8 * pte_address e) div 8 = pte_address e"
    by (simp_all add: pte_ok_def)
  then show ?thesis unfolding decode_pte_def encode_pte_def half_bit by simp
qed

lemma of_bool_le_1: "of_bool b \<le> (1::nat)"
  by simp

lemma encode_less: "pte_ok e \<Longrightarrow> encode_pte e < 2 ^ 64"
proof -
  assume "pte_ok e"
  then have "pte_avail e + 8 * pte_address e < 2 ^ 55" by (simp add: pte_ok_def)
  moreover have step: "n < 2 ^ k \<Longrightarrow> of_bool b + 2 * n < 2 ^ Suc k" for n k :: nat and b
    by (cases b) simp_all
  ultimately have "encode_pte e < 2 ^ Suc (Suc (Suc (Suc (Suc (Suc (Suc (Suc (Suc 55))))))))"
    unfolding encode_pte_def by (intro step)
  then show ?thesis by simp
qed

lemma create_entry_ok [simp]: "pte_ok (paging_create_entry a flags)"
  by (simp add: pte_ok_def paging_create_entry_def)

lemma decode_ok: "w < 2 ^ 64 \<Longrightarrow> pte_ok (decode_pte w)"
proof -
  assume "w < 2 ^ 64"
  then have "w div (2 * 2 * 2 * 2 * 2 * 2 * 2 * 2 * 2 * 8) < 2 ^ 52" by simp
  then show ?thesis by (simp add: pte_ok_def decode_pte_def div_mult2_eq [symmetric])
qed

lemma read_pte_ok [simp]: "pte_ok (read_pte m t i)"
  unfolding read_pte_def load64_def using load_bytes_less [of m "t + 8 * i" 8] by (intro decode_ok) simp

lemma read_write_same [simp]: "pte_ok e \<Longrightarrow> read_pte (write_pte m t i e) t i = e"
  by (simp add: read_pte_def write_pte_def load_store64 [OF encode_less] decode_encode)

lemma read_write_other:
  assumes "t' = t \<and> i \<noteq> j \<or> t + 4096 \<le> t' \<or> t' + 4096 \<le> t" "i < 512" "j < 512"
  shows "read_pte (write_pte m t i e) t' j = read_pte m t' j"
proof -
  have "t' + 8 * j + 8 \<le> t + 8 * i \<or> t + 8 * i + 8 \<le> t' + 8 * j" using assms by auto
  then show ?thesis by (simp add: read_pte_def write_pte_def load64_store64_disjoint)
qed

lemma write_pte_frame: "b < t \<or> t + 4096 \<le> b \<Longrightarrow> i < 512 \<Longrightarrow> write_pte m t i e b = m b"
  unfolding write_pte_def by (rule store64_other) auto

lemma read_pte_cong:
  "i < 512 \<Longrightarrow> (\<And>a. t \<le> a \<Longrightarrow> a < t + 4096 \<Longrightarrow> m a = m' a) \<Longrightarrow> read_pte m t i = read_pte m' t i"
  unfolding read_pte_def by (rule arg_cong [where f = decode_pte], rule load64_cong) simp

lemma read_pte_zero:
  "i < 512 \<Longrightarrow> (\<And>a. t \<le> a \<Longrightarrow> a < t + 4096 \<Longrightarrow> m a = 0) \<Longrightarrow> \<not> pte_present (read_pte m t i)"
  using load_bytes_zero [of "t + 8 * i" 8 m] by (simp add: read_pte_def load64_def decode_pte_def)

end
