(* ===== verification/Virt_Correct.thy ===== *)
theory Virt_Correct
  imports Virt
begin

text \<open>
  Correctness of the virtual memory manager. A path of indices leads from the top table to a
  table; the tables on different paths are different frames, all handed out by the page
  allocator. Advancing along a path adds tables without changing a translation, and mapping a
  page changes the translation of that page only.
\<close>

section \<open>Walking the tables\<close>

fun walk :: "nat \<Rightarrow> bytes \<Rightarrow> addr \<Rightarrow> nat list \<Rightarrow> addr option" where
  "walk hhdm m t [] = Some t"
| "walk hhdm m t (i # q) =
     (if pte_present (read_pte m t i) then walk hhdm m (table_of hhdm (read_pte m t i)) q else None)"

definition paths :: "nat list set" where
  "paths = {q. length q \<le> 3 \<and> (\<forall>i \<in> set q. i < 512)}"

lemma walk_append:
  "walk hhdm m t (q @ r) = (case walk hhdm m t q of None \<Rightarrow> None | Some u \<Rightarrow> walk hhdm m u r)"
  by (induction q arbitrary: t) auto

lemma walk_snoc:
  "walk hhdm m t (q @ [i]) = (case walk hhdm m t q of None \<Rightarrow> None
     | Some u \<Rightarrow> if pte_present (read_pte m u i) then Some (table_of hhdm (read_pte m u i)) else None)"
  by (simp add: walk_append split: option.splits)

lemma paths_snocD: "q @ [i] \<in> paths \<Longrightarrow> q \<in> paths \<and> i < 512"
  by (auto simp: paths_def)

definition tables_inj :: "nat \<Rightarrow> bytes \<Rightarrow> addr \<Rightarrow> bool" where
  "tables_inj hhdm m pml4 \<longleftrightarrow> (\<forall>q \<in> paths. \<forall>r \<in> paths. \<forall>t.
     walk hhdm m pml4 q = Some t \<longrightarrow> walk hhdm m pml4 r = Some t \<longrightarrow> q = r)"

definition tables_owned :: "nat \<Rightarrow> bytes \<Rightarrow> addr \<Rightarrow> addr set \<Rightarrow> bool" where
  "tables_owned hhdm m pml4 F \<longleftrightarrow> (\<forall>q \<in> paths. \<forall>t. walk hhdm m pml4 q = Some t \<longrightarrow> t \<in> F)"

definition vm_ok :: "nat \<Rightarrow> vm \<Rightarrow> addr \<Rightarrow> bool" where
  "vm_ok hhdm s pml4 \<longleftrightarrow> hhdm < 2 ^ 64 \<and> hhdm mod 4096 = 0 \<and> pmm_ok (fst s) \<and>
     tables_owned hhdm (snd s) pml4 (pmm_frames (fst s)) \<and> tables_inj hhdm (snd s) pml4"

lemma vm_okD:
  assumes "vm_ok hhdm (a, m) pml4"
  shows "hhdm < 2 ^ 64" "hhdm mod 4096 = 0" "pmm_ok a" "tables_owned hhdm m pml4 (pmm_frames a)" "tables_inj hhdm m pml4"
  using assms by (auto simp: vm_ok_def)

text \<open>
  What a change may touch: the tables that are there, and frames that were not handed out before.
  New tables are among those frames.
\<close>

definition tables :: "nat \<Rightarrow> bytes \<Rightarrow> addr \<Rightarrow> addr set" where
  "tables hhdm m pml4 = {t. \<exists>q \<in> paths. walk hhdm m pml4 q = Some t}"

definition touched :: "nat \<Rightarrow> addr \<Rightarrow> vm \<Rightarrow> vm \<Rightarrow> addr set" where
  "touched hhdm pml4 s s' = tables hhdm (snd s) pml4 \<union> (pmm_frames (fst s') - pmm_frames (fst s))"

definition in_pages :: "addr set \<Rightarrow> addr \<Rightarrow> bool" where
  "in_pages F a \<longleftrightarrow> (\<exists>t \<in> F. t \<le> a \<and> a < t + 4096)"

definition framed :: "nat \<Rightarrow> addr \<Rightarrow> vm \<Rightarrow> vm \<Rightarrow> bool" where
  "framed hhdm pml4 s s' \<longleftrightarrow> tables hhdm (snd s') pml4 \<subseteq> touched hhdm pml4 s s' \<and>
     (\<forall>a. \<not> in_pages (touched hhdm pml4 s s') a \<longrightarrow> snd s' a = snd s a)"

lemma framed_refl [simp]: "framed hhdm pml4 s s"
  by (simp add: framed_def touched_def)

lemma in_pages_mono: "in_pages F a \<Longrightarrow> F \<subseteq> G \<Longrightarrow> in_pages G a"
  by (auto simp: in_pages_def)

lemma framed_trans:
  assumes "framed hhdm pml4 s s'" "framed hhdm pml4 s' s''"
    and "pmm_frames (fst s) \<subseteq> pmm_frames (fst s')" "pmm_frames (fst s') \<subseteq> pmm_frames (fst s'')"
  shows "framed hhdm pml4 s s''"
proof -
  have "touched hhdm pml4 s s' \<subseteq> touched hhdm pml4 s s''" using assms(4) by (auto simp: touched_def)
  moreover have "touched hhdm pml4 s' s'' \<subseteq> touched hhdm pml4 s s''"
    using assms(1,3,4) by (auto simp: touched_def framed_def)
  ultimately show ?thesis using assms(1,2) in_pages_mono unfolding framed_def by (metis order_trans)
qed

lemma framed_write:
  assumes "t \<in> tables hhdm m pml4" "i < 512" "\<And>q. q \<in> paths \<Longrightarrow> walk hhdm (write_pte m t i e) pml4 q = walk hhdm m pml4 q"
  shows "framed hhdm pml4 (a, m) (a, write_pte m t i e)"
proof -
  have "tables hhdm (write_pte m t i e) pml4 = tables hhdm m pml4" using assms(3) by (auto simp: tables_def)
  moreover have "write_pte m t i e b = m b" if "\<not> in_pages (tables hhdm m pml4) b" for b
    using that assms(1,2) by (intro write_pte_frame) (auto simp: in_pages_def not_less)
  ultimately show ?thesis by (simp add: framed_def touched_def)
qed

text \<open>What an entry contributes to a walk.\<close>

definition same_link :: "Pte \<Rightarrow> Pte \<Rightarrow> bool" where
  "same_link e e' \<longleftrightarrow> pte_present e = pte_present e' \<and> pte_address e = pte_address e'"

lemma same_link_refl [simp]: "same_link e e"
  by (simp add: same_link_def)

lemma same_link_table: "same_link e e' \<Longrightarrow> table_of hhdm e = table_of hhdm e'"
  by (simp add: same_link_def table_of_def)

text \<open>
  If only the entry \<open>i\<close> of the table at path \<open>p\<close> changed, only the walks through that entry
  change.
\<close>

lemma walk_other:
  assumes "tables_inj hhdm m pml4" "p \<in> paths" "walk hhdm m pml4 p = Some t"
    and same: "\<And>q u j. q \<in> paths \<Longrightarrow> walk hhdm m pml4 q = Some u \<Longrightarrow> j < 512 \<Longrightarrow> (u, j) \<noteq> (t, i) \<Longrightarrow>
      same_link (read_pte m u j) (read_pte m' u j)"
    and "q \<in> paths" "\<not> (\<exists>r. q = (p @ [i]) @ r)"
  shows "walk hhdm m' pml4 q = walk hhdm m pml4 q"
  using assms(5,6)
proof (induction q rule: rev_induct)
  case (snoc j q)
  have q: "q \<in> paths" "j < 512" using paths_snocD [OF snoc.prems(1)] by auto
  have "\<not> (\<exists>r. q = (p @ [i]) @ r)" using snoc.prems(2) by auto
  then have IH: "walk hhdm m' pml4 q = walk hhdm m pml4 q" using snoc.IH q by simp
  show ?case
  proof (cases "walk hhdm m pml4 q")
    case None
    then show ?thesis using IH by (simp add: walk_snoc)
  next
    case (Some u)
    have "(u, j) \<noteq> (t, i)"
    proof
      assume "(u, j) = (t, i)"
      then have "q = p" "j = i" using assms(1-3) q(1) Some unfolding tables_inj_def by blast+
      then show False using snoc.prems(2) by auto
    qed
    then have "same_link (read_pte m u j) (read_pte m' u j)" using same [OF q(1) Some q(2)] by simp
    then show ?thesis using IH Some
      by (simp add: walk_snoc same_link_def) (metis same_link_def same_link_table)
  qed
qed simp

lemma walk_all_same:
  assumes same: "\<And>q u j. q \<in> paths \<Longrightarrow> walk hhdm m pml4 q = Some u \<Longrightarrow> j < 512 \<Longrightarrow>
      same_link (read_pte m u j) (read_pte m' u j)"
    and "q \<in> paths"
  shows "walk hhdm m' pml4 q = walk hhdm m pml4 q"
  using assms(2)
proof (induction q rule: rev_induct)
  case (snoc j q)
  have q: "q \<in> paths" "j < 512" using paths_snocD [OF snoc.prems(1)] by auto
  then have IH: "walk hhdm m' pml4 q = walk hhdm m pml4 q" using snoc.IH by simp
  show ?case
  proof (cases "walk hhdm m pml4 q")
    case (Some u)
    have "same_link (read_pte m u j) (read_pte m' u j)" using same [OF q(1) Some q(2)] .
    then show ?thesis using IH Some
      by (simp add: walk_snoc same_link_def) (metis same_link_def same_link_table)
  qed (use IH in \<open>simp add: walk_snoc\<close>)
qed simp

section \<open>Frames as tables\<close>

lemma va_pa: "p < 2 ^ 64 \<Longrightarrow> p \<noteq> 0 \<Longrightarrow> hhdm < 2 ^ 64 \<Longrightarrow> va hhdm (pa hhdm p) = p"
proof -
  assume a: "p < 2 ^ 64" "p \<noteq> 0" "hhdm < 2 ^ 64"
  have w: "wrap64 hhdm = hhdm" using a(3) by (simp add: wrap64_def)
  have "va hhdm (pa hhdm p) = ((p + (2 ^ 64 - hhdm)) mod 2 ^ 64 + hhdm) mod 2 ^ 64"
    using a(2) w by (simp add: pa_def va_def sub64_def add64_def wrap64_def)
  also have "\<dots> = (p + (2 ^ 64 - hhdm) + hhdm) mod 2 ^ 64" by (rule mod_add_left_eq)
  also have "p + (2 ^ 64 - hhdm) + hhdm = p + 2 ^ 64" using a(3) by simp
  also have "(p + 2 ^ 64) mod 2 ^ 64 = p" using a(1) by (simp only: mod_add_self2 mod_less)
  finally show ?thesis .
qed

lemma pa_page: "p mod 4096 = 0 \<Longrightarrow> hhdm mod 4096 = 0 \<Longrightarrow> hhdm < 2 ^ 64 \<Longrightarrow> pa hhdm p mod 4096 = 0"
proof -
  assume a: "p mod 4096 = 0" "hhdm mod 4096 = 0" "hhdm < 2 ^ 64"
  have "4096 dvd (2 ^ 64 - hhdm)" using a(2) by (intro dvd_diff_nat) (simp_all add: dvd_eq_mod_eq_0)
  moreover have "4096 dvd p" using a(1) by (simp add: dvd_eq_mod_eq_0)
  ultimately have "4096 dvd (p + (2 ^ 64 - hhdm))" by (simp add: dvd_add)
  then have "4096 dvd (p + (2 ^ 64 - hhdm)) mod 2 ^ 64" by (rule dvd_mod) simp
  moreover have "hhdm mod 2 ^ 64 = hhdm" using a(3) by (rule mod_less)
  ultimately have "4096 dvd sub64 p hhdm" by (simp only: sub64_def wrap64_def)
  then have "4096 dvd pa hhdm p" by (cases "p = 0") (simp_all add: pa_def)
  then show ?thesis by (simp only: dvd_eq_mod_eq_0)
qed

lemma frame_number:
  assumes "x mod 4096 = 0" "x < 2 ^ 64"
  shows "shl64 (shr x PAGE_SHIFT mod 2 ^ 52) PAGE_SHIFT = x"
proof -
  have "x div 4096 < 2 ^ 52" using assms(2) by simp
  moreover have "x div 4096 * 4096 = x" using assms(1) by (simp add: minus_mod_eq_div_mult [symmetric])
  ultimately show ?thesis using assms(2) by (simp add: shr_def shl64_def wrap64_def PAGE_SHIFT_def)
qed

lemma pa_less: "pa hhdm p < 2 ^ 64"
  by (simp add: pa_def)

lemma table_of_new:
  assumes "p mod 4096 = 0" "p < 2 ^ 64" "p \<noteq> 0" "hhdm mod 4096 = 0" "hhdm < 2 ^ 64"
  shows "table_of hhdm (paging_create_entry (pa hhdm p) flags) = p"
  using frame_number [OF pa_page [OF assms(1,4,5)] pa_less] va_pa [OF assms(2,3,5)]
  by (simp add: table_of_def paging_create_entry_def)

lemma check_flag_0: "check_flag flags 0 = odd flags"
  by (simp add: check_flag_def)

section \<open>Translations\<close>

definition page_path :: "addr \<Rightarrow> nat list" where
  "page_path v = [index_of v 4, index_of v 3, index_of v 2]"

definition leaf_frame :: "nat \<Rightarrow> bytes \<Rightarrow> addr \<Rightarrow> nat list \<Rightarrow> nat \<Rightarrow> nat option" where
  "leaf_frame hhdm m pml4 q i =
     (case walk hhdm m pml4 q of None \<Rightarrow> None
      | Some t \<Rightarrow> if pte_present (read_pte m t i) then Some (pte_address (read_pte m t i)) else None)"

lemma index_of_less [simp]: "index_of v k < 512"
  by (simp add: index_of_def)

lemma page_path_in_paths [simp]: "page_path v \<in> paths"
  by (simp add: page_path_def paths_def)

lemma arch_translate_leaf:
  "pml4 \<noteq> 0 \<Longrightarrow> arch_translate hhdm m pml4 v = Inr (case leaf_frame hhdm m pml4 (page_path v) (index_of v 1) of
     None \<Rightarrow> 0 | Some f \<Rightarrow> va hhdm (shl64 f PAGE_SHIFT OR (v AND (PAGE_SIZE - 1))))"
  by (simp add: arch_translate_def leaf_frame_def page_path_def Let_def)

text \<open>Two memories give the same translations for all pages.\<close>

definition same_leaves :: "nat \<Rightarrow> addr \<Rightarrow> bytes \<Rightarrow> bytes \<Rightarrow> bool" where
  "same_leaves hhdm pml4 m m' \<longleftrightarrow> (\<forall>q i. q \<in> paths \<longrightarrow> length q = 3 \<longrightarrow> i < 512 \<longrightarrow>
     leaf_frame hhdm m' pml4 q i = leaf_frame hhdm m pml4 q i)"

lemma owned_table_far:
  assumes "vm_ok hhdm (a, m) pml4" "q \<in> paths" "walk hhdm m pml4 q = Some u" "r \<in> paths" "walk hhdm m pml4 r = Some t" "u \<noteq> t"
  shows "t + 4096 \<le> u \<or> u + 4096 \<le> t"
proof -
  note ok = vm_okD [OF assms(1)]
  have "u \<in> pmm_frames a" "t \<in> pmm_frames a" using ok(4) assms(2-5) by (auto simp: tables_owned_def)
  then show ?thesis using frames.owned_disjoint [OF ok(3)] assms(6) by blast
qed

lemma relink_same:
  assumes "vm_ok hhdm (a, m) pml4" "p \<in> paths" "walk hhdm m pml4 p = Some t" "i < 512"
    and "same_link (read_pte m t i) e" "pte_ok e" "length p \<le> 2"
  shows "vm_ok hhdm (a, write_pte m t i e) pml4"
    and "q \<in> paths \<Longrightarrow> walk hhdm (write_pte m t i e) pml4 q = walk hhdm m pml4 q"
    and "same_leaves hhdm pml4 m (write_pte m t i e)"
proof -
  let ?m = "write_pte m t i e"
  note ok = vm_okD [OF assms(1)]
  have rd: "read_pte ?m u j = (if (u, j) = (t, i) then e else read_pte m u j)"
    if "q \<in> paths" "walk hhdm m pml4 q = Some u" "j < 512" for q u j
  proof (cases "u = t")
    case True
    then show ?thesis using assms(4,6) that(3) read_write_other [of t t i j m e] by auto
  next
    case False
    then show ?thesis using owned_table_far [OF assms(1) that(1,2) assms(2,3)] assms(4) that(3) read_write_other by auto
  qed
  have w: "walk hhdm ?m pml4 q = walk hhdm m pml4 q" if "q \<in> paths" for q
    using that by (rule walk_all_same [rotated]) (use rd assms(5) in auto)
  show "walk hhdm ?m pml4 q = walk hhdm m pml4 q" if "q \<in> paths" using w that by blast
  show "vm_ok hhdm (a, ?m) pml4" using ok w by (simp add: vm_ok_def tables_owned_def tables_inj_def)
  have "leaf_frame hhdm ?m pml4 q j = leaf_frame hhdm m pml4 q j" if q: "q \<in> paths" "length q = 3" "j < 512" for q j
  proof (cases "walk hhdm m pml4 q")
    case (Some u)
    have "u \<noteq> t" using ok(5) assms(2,3,7) q(1,2) Some unfolding tables_inj_def by fastforce
    then show ?thesis using Some w [OF q(1)] rd [OF q(1) Some q(3)] by (simp add: leaf_frame_def)
  qed (use w [OF q(1)] in \<open>simp add: leaf_frame_def\<close>)
  then show "same_leaves hhdm pml4 m ?m" by (simp add: same_leaves_def)
qed

text \<open>A new table: the frame is zeroed and linked from an entry that was not present.\<close>

lemma new_table:
  assumes ok: "vm_ok hhdm (a, m) pml4" and p: "p \<in> paths" "walk hhdm m pml4 p = Some t" "length p \<le> 2"
    and i: "i < 512" "\<not> pte_present (read_pte m t i)" "odd flags"
    and get: "arch_alloc_page a m = Some (f, a', m1)" "f \<noteq> 0"
  defines "m' \<equiv> write_pte m1 t i (paging_create_entry (pa hhdm f) flags)"
  shows "vm_ok hhdm (a', m') pml4" "walk hhdm m' pml4 (p @ [i]) = Some f" "same_leaves hhdm pml4 m m'"
    "framed hhdm pml4 (a, m) (a', m')"
proof -
  note okD = vm_okD [OF ok] and g = frames.get_frame [OF vm_okD(3) [OF ok] get]
  have fp: "f mod 4096 = 0" "f < 2 ^ 64" using frames.owned_page [of a' f] g by auto
  let ?e = "paging_create_entry (pa hhdm f) flags"
  have tf: "table_of hhdm ?e = f" by (rule table_of_new [OF fp(1,2) get(2) okD(2,1)])
  have pe: "pte_present ?e" using i(3) by (simp add: paging_create_entry_def check_flag_0)
  have own: "u \<in> pmm_frames a" if "q \<in> paths" "walk hhdm m pml4 q = Some u" for q u
    using okD(4) that by (auto simp: tables_owned_def)
  have tF: "t \<in> pmm_frames a" using own p by blast
  have keep: "read_pte m1 u j = read_pte m u j" if "u \<in> pmm_frames a" "j < 512" for u j
    using that frames.get_keeps [OF okD(3) get, of u] by (intro read_pte_cong) auto
  have far: "u + 4096 \<le> v \<or> v + 4096 \<le> u" if "u \<in> pmm_frames a'" "v \<in> pmm_frames a'" "u \<noteq> v" for u v
    using frames.owned_disjoint g that by blast
  have rd: "read_pte m' u j = (if (u, j) = (t, i) then ?e else read_pte m u j)"
    if "u \<in> pmm_frames a" "j < 512" for u j
  proof (cases "u = t")
    case True
    then show ?thesis using i(1) that keep read_write_other [of t t i j m1 ?e] by (auto simp: m'_def)
  next
    case False
    then have "t + 4096 \<le> u \<or> u + 4096 \<le> t" using far [of t u] tF that(1) g by auto
    then show ?thesis using i(1) that keep False read_write_other [of u t i j m1 ?e] by (auto simp: m'_def)
  qed
  have zero: "\<not> pte_present (read_pte m' f j)" if j: "j < 512" for j
  proof -
    have "t \<noteq> f" using g tF by auto
    then have "t + 4096 \<le> f \<or> f + 4096 \<le> t" using far [of t f] tF g by auto
    then have "read_pte m' f j = read_pte m1 f j" using i(1) j read_write_other [of f t i j m1 ?e] by (auto simp: m'_def)
    then show ?thesis using read_pte_zero [OF j] frames.get_zeroed [OF okD(3) get] by simp
  qed
  have w: "walk hhdm m' pml4 q = walk hhdm m pml4 q" if "q \<in> paths" "\<not> (\<exists>r. q = (p @ [i]) @ r)" for q
    using that by (intro walk_other [OF okD(5) p(1,2)]) (use rd own in auto)
  have "\<not> (\<exists>r. p = (p @ [i]) @ r)" by auto
  then have wp: "walk hhdm m' pml4 p = Some t" using w p(1,2) by simp
  then show new: "walk hhdm m' pml4 (p @ [i]) = Some f" using rd [OF tF i(1)] pe tf by (simp add: walk_snoc)
  have below: "walk hhdm m' pml4 ((p @ [i]) @ r) = (if r = [] then Some f else None)" if "(p @ [i]) @ r \<in> paths" for r
  proof (cases r)
    case (Cons j r')
    then have "j < 512" using that by (simp add: paths_def)
    then show ?thesis using Cons new zero by (simp only: walk_append) simp
  qed (use new in simp)
  have old_none: "walk hhdm m pml4 ((p @ [i]) @ r) = None" for r
    using p(2) i(2) by (simp only: walk_append) (simp add: walk_snoc)
  have cases: "walk hhdm m' pml4 q = walk hhdm m pml4 q \<and> walk hhdm m pml4 q \<noteq> None \<or> q = p @ [i] \<and> u = f"
    if "q \<in> paths" "walk hhdm m' pml4 q = Some u" for q u
    using that w below new by (cases "\<exists>r. q = (p @ [i]) @ r") (auto split: if_splits)
  have "f \<in> touched hhdm pml4 (a, m) (a', m')" "t \<in> touched hhdm pml4 (a, m) (a', m')"
    using g p(1,2) by (auto simp: touched_def tables_def)
  moreover have "tables hhdm m' pml4 \<subseteq> insert f (tables hhdm m pml4)" using cases by (fastforce simp: tables_def)
  moreover have "m' b = m b" if "\<not> in_pages {f, t} b" for b
    using that g write_pte_frame [OF _ i(1), of b t m1 ?e]
    by (auto simp: in_pages_def m'_def not_le not_less)
  ultimately show "framed hhdm pml4 (a, m) (a', m')"
    using in_pages_mono [of "{f, t}" _ "touched hhdm pml4 (a, m) (a', m')"]
    by (auto simp: framed_def touched_def)
  have "tables_owned hhdm m' pml4 (pmm_frames a')"
    using cases own g unfolding tables_owned_def by (metis insertCI option.inject option.exhaust)
  moreover have "tables_inj hhdm m' pml4" unfolding tables_inj_def
  proof (intro ballI allI impI)
    fix q r u assume q: "q \<in> paths" "r \<in> paths" "walk hhdm m' pml4 q = Some u" "walk hhdm m' pml4 r = Some u"
    have nf: "walk hhdm m pml4 x \<noteq> Some f" if "x \<in> paths" for x using own [OF that] g by auto
    show "q = r"
      using cases [OF q(1,3)] cases [OF q(2,4)] q nf okD(5) unfolding tables_inj_def by metis
  qed
  ultimately show "vm_ok hhdm (a', m') pml4" using okD(1,2) g by (simp add: vm_ok_def)
  show "same_leaves hhdm pml4 m m'" unfolding same_leaves_def
  proof (intro allI impI)
    fix q j assume q: "q \<in> paths" "length q = 3" "j < (512::nat)"
    show "leaf_frame hhdm m' pml4 q j = leaf_frame hhdm m pml4 q j"
    proof (cases "\<exists>r. q = (p @ [i]) @ r")
      case True
      then obtain r where r: "q = (p @ [i]) @ r" by blast
      then show ?thesis using below [of r] old_none [of r] q zero by (simp add: leaf_frame_def)
    next
      case False
      note wq = w [OF q(1) False]
      show ?thesis
      proof (cases "walk hhdm m pml4 q")
        case (Some u)
        have "u \<noteq> t" using okD(5) p q(1,2) Some unfolding tables_inj_def by fastforce
        then show ?thesis using Some wq rd [OF own [OF q(1) Some] q(3)] by (simp add: leaf_frame_def)
      qed (use wq in \<open>simp add: leaf_frame_def\<close>)
    qed
  qed
qed


section \<open>Advancing and mapping\<close>

definition grown :: "nat \<Rightarrow> pmm \<Rightarrow> pmm \<Rightarrow> bool" where
  "grown n a a' \<longleftrightarrow> pmm_memory a' = pmm_memory a \<and>
     (\<exists>T. finite T \<and> card T \<le> n \<and> pmm_frames a' = pmm_frames a \<union> T)"

lemma grown_refl [simp]: "grown n a a"
  unfolding grown_def by (intro conjI exI [of _ "{}"]) simp_all

lemma grown_insert: "pmm_frames a' = insert f (pmm_frames a) \<Longrightarrow> pmm_memory a' = pmm_memory a \<Longrightarrow> grown 1 a a'"
  unfolding grown_def by (intro conjI exI [of _ "{f}"]) auto

lemma grown_subset: "grown n a a' \<Longrightarrow> pmm_frames a \<subseteq> pmm_frames a'"
  by (auto simp: grown_def)

lemma grown_trans: "grown i a b \<Longrightarrow> grown j b c \<Longrightarrow> grown (i + j) a c"
proof -
  assume "grown i a b" "grown j b c"
  then obtain S T where "finite S" "card S \<le> i" "pmm_frames b = pmm_frames a \<union> S"
    "finite T" "card T \<le> j" "pmm_frames c = pmm_frames b \<union> T" "pmm_memory c = pmm_memory a" by (auto simp: grown_def)
  then show ?thesis unfolding grown_def
    by (intro conjI exI [of _ "S \<union> T"]) (auto intro: le_trans [OF card_Un_le])
qed

lemma grown_mono: "grown i a b \<Longrightarrow> i \<le> j \<Longrightarrow> grown j a b"
  using le_trans unfolding grown_def by blast

text \<open>The allocator has no frame to give, or gives the one that is physical page 0.\<close>

definition no_frame :: "nat \<Rightarrow> pmm \<Rightarrow> bool" where
  "no_frame hhdm a \<longleftrightarrow> (\<exists>m p a' m'. arch_alloc_page a m = Some (p, a', m') \<and> pa hhdm p = 0)"

text \<open>
  The state a call leads to: the tables are well formed, \<open>n\<close> frames at most are added, and nothing
  but the tables and the new frames has changed.
\<close>

definition vm_step :: "nat \<Rightarrow> addr \<Rightarrow> nat \<Rightarrow> vm \<Rightarrow> vm \<Rightarrow> bool" where
  "vm_step hhdm pml4 n s s' \<longleftrightarrow> vm_ok hhdm s' pml4 \<and> grown n (fst s) (fst s') \<and> framed hhdm pml4 s s'"

definition out_of_frames :: "nat \<Rightarrow> addr \<Rightarrow> nat \<Rightarrow> vm \<Rightarrow> bool" where
  "out_of_frames hhdm pml4 n s \<longleftrightarrow> (\<exists>s'. vm_step hhdm pml4 n s s' \<and> no_frame hhdm (fst s'))"

lemma vm_step_trans: "vm_step hhdm pml4 i s s' \<Longrightarrow> vm_step hhdm pml4 j s' s'' \<Longrightarrow> vm_step hhdm pml4 (i + j) s s''"
  unfolding vm_step_def using grown_trans framed_trans grown_subset by blast

lemma out_of_frames_step:
  "vm_step hhdm pml4 i s s' \<Longrightarrow> out_of_frames hhdm pml4 j s' \<Longrightarrow> i + j \<le> k \<Longrightarrow> out_of_frames hhdm pml4 k s"
  unfolding out_of_frames_def vm_step_def using grown_trans grown_mono framed_trans grown_subset by blast

lemma same_leaves_trans: "same_leaves hhdm pml4 a b \<Longrightarrow> same_leaves hhdm pml4 b c \<Longrightarrow> same_leaves hhdm pml4 a c"
  by (simp add: same_leaves_def)

definition advanced :: "nat \<Rightarrow> addr \<Rightarrow> nat list \<Rightarrow> vm \<Rightarrow> addr \<Rightarrow> vm \<Rightarrow> bool" where
  "advanced hhdm pml4 q s c s' \<longleftrightarrow> vm_step hhdm pml4 1 s s' \<and> walk hhdm (snd s') pml4 q = Some c \<and>
     same_leaves hhdm pml4 (snd s) (snd s')"

text \<open>Setting flag bits in an entry that is present.\<close>

lemma relink_advanced:
  assumes ok: "vm_ok hhdm (a, m) pml4" and p: "p @ [i] \<in> paths" "walk hhdm m pml4 p = Some t"
    and e: "pte_present (read_pte m t i)" "same_link (read_pte m t i) e" "pte_ok e"
  shows "advanced hhdm pml4 (p @ [i]) (a, m) (table_of hhdm e) (a, write_pte m t i e)"
proof -
  have q: "p \<in> paths" "i < 512" "length p \<le> 2" using p(1) by (auto simp: paths_def)
  note r = relink_same [OF ok q(1) p(2) q(2) e(2,3) q(3)]
  have "walk hhdm m pml4 (p @ [i]) = Some (table_of hhdm e)"
    using p(2) e(1) same_link_table [OF e(2)] by (simp add: walk_snoc)
  moreover have "framed hhdm pml4 (a, m) (a, write_pte m t i e)"
    by (rule framed_write [OF _ q(2) r(2)]) (use p(2) q(1) in \<open>auto simp: tables_def\<close>)
  ultimately show ?thesis using r(1,3) r(2) [OF p(1)] by (simp add: advanced_def vm_step_def)
qed

lemma advance_present:
  assumes ok: "vm_ok hhdm (a, m) pml4" and p: "p @ [i] \<in> paths" "walk hhdm m pml4 p = Some t"
    and e: "pte_present (read_pte m t i)"
  shows "\<exists>c m'. vmm_pml_advance hhdm (a, m) t i flags = Inr (c, a, m') \<and>
    advanced hhdm pml4 (p @ [i]) (a, m) c (a, m')"
proof -
  let ?e = "read_pte m t i"
  let ?e1 = "if check_flag flags 1 \<and> \<not> pte_readwrite ?e then ?e\<lparr>pte_readwrite := True\<rparr> else ?e"
  let ?e2 = "if check_flag flags 2 \<and> \<not> pte_supervisor ?e1 then ?e1\<lparr>pte_supervisor := True\<rparr> else ?e1"
  let ?c = "check_flag flags 1 \<and> \<not> pte_readwrite ?e \<or> check_flag flags 2 \<and> \<not> pte_supervisor ?e"
  have ok1: "pte_ok ?e1" using read_pte_ok [of m t i] by (simp add: pte_ok_def)
  then have ok2': "pte_ok ?e2" by (simp add: pte_ok_def)
  obtain e2 where e2: "e2 = ?e2" by blast
  have sl: "same_link ?e e2" unfolding e2 by (simp add: same_link_def)
  have ok2: "pte_ok e2" using ok2' e2 by simp
  have rewrite_same: "write_pte (write_pte m t i x) t i y = write_pte m t i y" for x y
    by (simp add: write_pte_def)
  have unchanged: "advanced hhdm pml4 (p @ [i]) (a, m) (table_of hhdm ?e) (a, m)"
    using ok p e by (simp add: advanced_def vm_step_def walk_snoc same_leaves_def)
  have "vmm_pml_advance hhdm (a, m) t i flags =
      Inr (table_of hhdm e2, a, if ?c then write_pte m t i e2 else m)"
    using e unfolding e2 by (auto simp: vmm_pml_advance_def Let_def rewrite_same)
  moreover have "\<not> ?c \<Longrightarrow> e2 = ?e" unfolding e2 by auto
  ultimately show ?thesis using relink_advanced [OF ok p e sl ok2] unchanged by (cases ?c) simp_all
qed

lemma advance_absent:
  assumes ok: "vm_ok hhdm (a, m) pml4" and p: "p @ [i] \<in> paths" "walk hhdm m pml4 p = Some t"
    and e: "\<not> pte_present (read_pte m t i)" "odd flags"
  shows "case vmm_pml_advance hhdm (a, m) t i flags of
      Inl e \<Rightarrow> e = Panic \<and> out_of_frames hhdm pml4 0 (a, m)
    | Inr (c, s') \<Rightarrow> advanced hhdm pml4 (p @ [i]) (a, m) c s'"
proof -
  have q: "p \<in> paths" "i < 512" "length p \<le> 2" using p(1) by (auto simp: paths_def)
  note okD = vm_okD [OF ok]
  obtain f a' m1 where get: "arch_alloc_page a m = Some (f, a', m1)"
    using frames.get_returns [OF okD(3)] by (metis option.exhaust surj_pair)
  show ?thesis
  proof (cases "pa hhdm f = 0")
    case True
    then have "no_frame hhdm a" using get by (auto simp: no_frame_def)
    then have "out_of_frames hhdm pml4 0 (a, m)"
      using ok unfolding out_of_frames_def vm_step_def by (intro exI [of _ "(a, m)"]) simp
    then show ?thesis using True get e by (simp add: vmm_pml_advance_def Let_def)
  next
    case False
    then have f0: "f \<noteq> 0" by (cases "f = 0") (simp_all add: pa_def)
    note new = new_table [OF ok q(1) p(2) q(3,2) e get f0] and g = frames.get_frame [OF okD(3) get f0]
    have "f < 2 ^ 64" using frames.owned_page [of a' f] g by auto
    then have "va hhdm (pa hhdm f) = f" using va_pa f0 okD(1) by blast
    then show ?thesis using False get e new g grown_insert [of a' f a]
      by (simp add: vmm_pml_advance_def Let_def advanced_def vm_step_def)
  qed
qed

lemma advance_spec:
  assumes "vm_ok hhdm s pml4" "p @ [i] \<in> paths" "walk hhdm (snd s) pml4 p = Some t" "odd flags"
  shows "case vmm_pml_advance hhdm s t i flags of
      Inl e \<Rightarrow> e = Panic \<and> out_of_frames hhdm pml4 0 s
    | Inr (c, s') \<Rightarrow> advanced hhdm pml4 (p @ [i]) s c s'"
proof (cases s)
  case (Pair a m)
  have w: "walk hhdm m pml4 p = Some t" and ok: "vm_ok hhdm (a, m) pml4" using assms(1,3) Pair by auto
  show ?thesis
  proof (cases "pte_present (read_pte m t i)")
    case True
    then show ?thesis using advance_present [OF ok assms(2) w True, of flags] Pair by auto
  next
    case False
    then show ?thesis using advance_absent [OF ok assms(2) w False assms(4)] unfolding Pair by blast
  qed
qed

text \<open>Writing an entry of a last-level table.\<close>

lemma leaf_write:
  assumes ok: "vm_ok hhdm (a, m) pml4" and p: "p \<in> paths" "length p = 3" "walk hhdm m pml4 p = Some t"
    and i: "i < 512" "pte_ok e" "pte_present e"
  shows "vm_ok hhdm (a, write_pte m t i e) pml4" "framed hhdm pml4 (a, m) (a, write_pte m t i e)"
    and "q \<in> paths \<Longrightarrow> length q = 3 \<Longrightarrow> j < 512 \<Longrightarrow> leaf_frame hhdm (write_pte m t i e) pml4 q j =
      (if (q, j) = (p, i) then Some (pte_address e) else leaf_frame hhdm m pml4 q j)"
proof -
  let ?m = "write_pte m t i e"
  note okD = vm_okD [OF ok]
  have rd: "read_pte ?m u j = (if (u, j) = (t, i) then e else read_pte m u j)"
    if "q \<in> paths" "walk hhdm m pml4 q = Some u" "j < 512" for q u j
  proof (cases "u = t")
    case True
    then show ?thesis using i that(3) read_write_other [of t t i j m e] by auto
  next
    case False
    then show ?thesis using owned_table_far [OF ok that(1,2) p(1,3)] i that(3) read_write_other by auto
  qed
  have w: "walk hhdm ?m pml4 q = walk hhdm m pml4 q" if "q \<in> paths" for q
  proof (rule walk_other [OF okD(5) p(1,3) _ that])
    show "\<not> (\<exists>r. q = (p @ [i]) @ r)" using that p(2) by (auto simp: paths_def)
  qed (use rd in auto)
  show "vm_ok hhdm (a, ?m) pml4" using okD w by (simp add: vm_ok_def tables_owned_def tables_inj_def)
  show "framed hhdm pml4 (a, m) (a, ?m)"
    by (rule framed_write [OF _ i(1) w]) (use p(1,3) in \<open>auto simp: tables_def\<close>)
  assume q: "q \<in> paths" "length q = 3" "j < 512"
  show "leaf_frame hhdm ?m pml4 q j =
      (if (q, j) = (p, i) then Some (pte_address e) else leaf_frame hhdm m pml4 q j)"
  proof (cases "walk hhdm m pml4 q")
    case None
    then show ?thesis using w [OF q(1)] p(3) by (auto simp: leaf_frame_def)
  next
    case (Some u)
    have "u = t \<Longrightarrow> q = p" using okD(5) p(1,3) q(1) Some unfolding tables_inj_def by blast
    moreover have "q = p \<Longrightarrow> u = t" using Some p(3) by simp
    ultimately have "(u, j) = (t, i) \<longleftrightarrow> (q, j) = (p, i)" by blast
    then show ?thesis using Some w [OF q(1)] rd [OF q(1) Some q(3)] i(3)
      by (cases "(q, j) = (p, i)") (auto simp: leaf_frame_def)
  qed
qed


definition mapped :: "nat \<Rightarrow> addr \<Rightarrow> vm \<Rightarrow> addr \<Rightarrow> Pte \<Rightarrow> vm \<Rightarrow> bool" where
  "mapped hhdm pml4 s v e s' \<longleftrightarrow> vm_step hhdm pml4 3 s s' \<and> (\<forall>q j. q \<in> paths \<longrightarrow> length q = 3 \<longrightarrow> j < 512 \<longrightarrow>
     leaf_frame hhdm (snd s') pml4 q j =
     (if (q, j) = (page_path v, index_of v 1) then Some (pte_address e) else leaf_frame hhdm (snd s) pml4 q j))"

lemma advanced_trans:
  "advanced hhdm pml4 q s c s' \<Longrightarrow> vm_step hhdm pml4 n s0 s \<Longrightarrow> same_leaves hhdm pml4 (snd s0) (snd s) \<Longrightarrow>
   vm_step hhdm pml4 (n + 1) s0 s' \<and> same_leaves hhdm pml4 (snd s0) (snd s')"
  using vm_step_trans same_leaves_trans unfolding advanced_def by blast

lemma map_leaf:
  assumes "vm_step hhdm pml4 3 s (a, m)" "same_leaves hhdm pml4 (snd s) m"
    and "walk hhdm m pml4 (page_path v) = Some t" "odd flags"
  shows "mapped hhdm pml4 s v (paging_create_entry p flags)
    (a, write_pte m t (index_of v 1) (paging_create_entry p flags))"
proof -
  let ?e = "paging_create_entry p flags"
  have ok: "vm_ok hhdm (a, m) pml4" using assms(1) by (simp add: vm_step_def)
  have l: "length (page_path v) = 3" by (simp add: page_path_def)
  have pe: "pte_present ?e" using assms(4) by (simp add: paging_create_entry_def check_flag_0)
  note w = leaf_write [OF ok page_path_in_paths l assms(3) index_of_less create_entry_ok pe]
  have "vm_step hhdm pml4 3 s (a, write_pte m t (index_of v 1) ?e)"
    using assms(1) w(1) framed_trans [of hhdm pml4 s "(a, m)"] w(2) grown_subset [of 3 "fst s" a] by (simp add: vm_step_def)
  then show ?thesis using w(3) assms(2) by (simp add: mapped_def same_leaves_def)
qed

lemma pml4_frame: "vm_ok hhdm s pml4 \<Longrightarrow> pml4 \<in> pmm_frames (fst s)"
proof -
  assume "vm_ok hhdm s pml4"
  moreover have "[] \<in> paths" "walk hhdm (snd s) pml4 [] = Some pml4" by (simp_all add: paths_def)
  ultimately show ?thesis unfolding vm_ok_def tables_owned_def by blast
qed

lemma pml4_nonzero: "vm_ok hhdm s pml4 \<Longrightarrow> pml4 \<noteq> 0"
  using pml4_frame [of hhdm s pml4] frames.owned_page [of "fst s" pml4] by (auto simp: vm_ok_def)

lemma map_page_mapped:
  assumes ok: "vm_ok hhdm s pml4" and fl: "odd flags"
  shows "case arch_map_page hhdm s pml4 v p flags of
      Inl e \<Rightarrow> e = Panic \<and> out_of_frames hhdm pml4 2 s
    | Inr s' \<Rightarrow> mapped hhdm pml4 s v (paging_create_entry p flags) s'"
proof -
  let ?i = "\<lambda>k. index_of v k"
  have P: "[] @ [?i 4] \<in> paths" "[?i 4] @ [?i 3] \<in> paths" "[?i 4, ?i 3] @ [?i 2] \<in> paths"
    by (simp_all add: paths_def)
  have guard: "\<not> (pml4 = 0 \<or> flags = 0)" using pml4_nonzero [OF ok] fl odd_pos [of flags] by auto
  have base: "vm_step hhdm pml4 0 s s" "same_leaves hhdm pml4 (snd s) (snd s)"
    using ok by (simp_all add: vm_step_def same_leaves_def)
  show ?thesis
  proof (cases "vmm_pml_advance hhdm s pml4 (?i 4) flags")
    case (Inl e)
    then have e: "e = Panic" "out_of_frames hhdm pml4 0 s" using advance_spec [OF ok P(1) _ fl, of pml4] by simp_all
    then show ?thesis using Inl guard out_of_frames_step [OF base(1) e(2), of 2] by (simp add: arch_map_page_def)
  next
    case r1: (Inr x)
    obtain t1 s1 where x: "x = (t1, s1)" by (cases x)
    have ad1: "advanced hhdm pml4 [?i 4] s t1 s1" using advance_spec [OF ok P(1) _ fl, of pml4] r1 x by simp
    note st1 = advanced_trans [OF ad1 base]
    have w1: "walk hhdm (snd s1) pml4 [?i 4] = Some t1" and ok1: "vm_ok hhdm s1 pml4"
      using ad1 by (simp_all add: advanced_def vm_step_def)
    note adv2 = advance_spec [OF ok1 P(2) w1 fl]
    show ?thesis
    proof (cases "vmm_pml_advance hhdm s1 t1 (?i 3) flags")
      case (Inl e)
      then have e: "e = Panic" "out_of_frames hhdm pml4 0 s1" using adv2 by simp_all
      then show ?thesis using Inl guard r1 x out_of_frames_step [OF conjunct1 [OF st1] e(2), of 2]
        by (simp add: arch_map_page_def)
    next
      case r2: (Inr y)
      obtain t2 s2 where y: "y = (t2, s2)" by (cases y)
      have ad2: "advanced hhdm pml4 [?i 4, ?i 3] s1 t2 s2" using adv2 r2 y by simp
      note st2 = advanced_trans [OF ad2 conjunct1 [OF st1] conjunct2 [OF st1]]
      have w2: "walk hhdm (snd s2) pml4 [?i 4, ?i 3] = Some t2" and ok2: "vm_ok hhdm s2 pml4"
        using ad2 by (simp_all add: advanced_def vm_step_def)
      note adv3 = advance_spec [OF ok2 P(3) w2 fl]
      show ?thesis
      proof (cases "vmm_pml_advance hhdm s2 t2 (?i 2) flags")
        case (Inl e)
        then have e: "e = Panic" "out_of_frames hhdm pml4 0 s2" using adv3 by simp_all
        then show ?thesis using Inl guard r1 x r2 y out_of_frames_step [OF conjunct1 [OF st2] e(2), of 2]
          by (simp add: arch_map_page_def)
      next
        case r3: (Inr z)
        obtain t3 a3 m3 where z: "z = (t3, a3, m3)" by (cases z) auto
        have ad3: "advanced hhdm pml4 (page_path v) s2 t3 (a3, m3)" using adv3 r3 z by (simp add: page_path_def)
        note st3 = advanced_trans [OF ad3 conjunct1 [OF st2] conjunct2 [OF st2]]
        have "walk hhdm m3 pml4 (page_path v) = Some t3" using ad3 by (simp add: advanced_def)
        then have "mapped hhdm pml4 s v (paging_create_entry p flags)
            (a3, write_pte m3 t3 (?i 1) (paging_create_entry p flags))"
          using st3 fl by (intro map_leaf) (simp_all add: numeral_3_eq_3)
        then show ?thesis using guard r1 x r2 y r3 z by (simp add: arch_map_page_def)
      qed
    qed
  qed
qed

text \<open>The indices of an address are the digits of its page number.\<close>

lemma page_indices:
  assumes "page_path v = page_path w" "index_of v 1 = index_of w 1"
  shows "v div 4096 mod 2 ^ 36 = w div 4096 mod 2 ^ 36"
proof -
  have digits: "x div 4096 mod 2 ^ 36 = 512 * (512 * (512 * index_of x 4 + index_of x 3) + index_of x 2) + index_of x 1" for x
  proof -
    let ?n = "x div 4096"
    have d: "index_of x 1 = ?n mod 512" "index_of x 2 = ?n div 512 mod 512"
      "index_of x 3 = ?n div 512 div 512 mod 512" "index_of x 4 = ?n div 512 div 512 div 512 mod 512"
      by (simp_all add: index_of_def shr_def div_mult2_eq [symmetric])
    have "?n mod (512 * (512 * (512 * 512))) = 512 * (512 * (512 * index_of x 4 + index_of x 3) + index_of x 2) + index_of x 1"
      unfolding d mod_mult2_eq by simp
    then show ?thesis by simp
  qed
  show ?thesis unfolding digits using assms by (simp add: page_path_def)
qed

lemma page_or: "p mod 4096 = 0 \<Longrightarrow> p OR (v AND 4095) = p + v mod 4096" for p v :: nat
proof -
  assume "p mod 4096 = 0"
  then obtain q where q: "p = q * 2 ^ 12" by (auto simp: mod_eq_0_iff_dvd elim!: dvdE)
  have v: "v AND 4095 = take_bit 12 v" by (simp add: take_bit_eq_mask mask_eq_exp_minus_1)
  have "p OR take_bit 12 v = push_bit 12 q OR take_bit 12 v" using q by (simp add: push_bit_eq_mult)
  also have "\<dots> = push_bit 12 q + take_bit 12 v"
    by (subst disjunctive_add) (auto simp: bit_push_bit_iff bit_take_bit_iff)
  finally show ?thesis using q v by (simp add: push_bit_eq_mult take_bit_eq_mod)
qed

section \<open>Translations after a mapping\<close>

lemma leaf_translate:
  assumes "pml4 \<noteq> 0" "leaf_frame hhdm m pml4 (page_path v) (index_of v 1) = Some f" "f < 2 ^ 52"
  shows "arch_translate hhdm m pml4 v = Inr (va hhdm (f * 4096 + v mod 4096))"
proof -
  have "shl64 f PAGE_SHIFT = f * 4096" using assms(3) by (simp add: shl64_def wrap64_def PAGE_SHIFT_def)
  then show ?thesis using assms(1,2) page_or [of "f * 4096" v] by (simp add: arch_translate_leaf PAGE_SIZE_def)
qed

lemma mapped_translate:
  assumes "mapped hhdm pml4 s v (paging_create_entry p flags) s'" "p < 2 ^ 64"
  shows "arch_translate hhdm (snd s') pml4 v = Inr (va hhdm (p - p mod 4096 + v mod 4096))"
proof -
  let ?f = "shr p PAGE_SHIFT mod 2 ^ 52"
  have "p div 4096 < 2 ^ 52" using assms(2) by simp
  then have f: "?f = p div 4096" by (simp add: shr_def PAGE_SHIFT_def)
  have ok: "vm_ok hhdm s' pml4" using assms(1) by (simp add: mapped_def vm_step_def)
  have "length (page_path v) = 3" by (simp add: page_path_def)
  then have "leaf_frame hhdm (snd s') pml4 (page_path v) (index_of v 1) = Some ?f"
    using assms(1) unfolding mapped_def by (simp add: paging_create_entry_def)
  then show ?thesis using leaf_translate [OF pml4_nonzero [OF ok]] f \<open>p div 4096 < 2 ^ 52\<close>
    by (simp add: minus_mod_eq_div_mult)
qed

lemma mapped_translate_other:
  assumes "mapped hhdm pml4 s v e s'" "v div 4096 mod 2 ^ 36 \<noteq> w div 4096 mod 2 ^ 36"
  shows "arch_translate hhdm (snd s') pml4 w = arch_translate hhdm (snd s) pml4 w"
proof -
  have ok: "vm_ok hhdm s' pml4" using assms(1) by (simp add: mapped_def vm_step_def)
  have "length (page_path w) = 3" by (simp add: page_path_def)
  moreover have "(page_path w, index_of w 1) \<noteq> (page_path v, index_of v 1)"
    using page_indices [of v w] assms(2) by auto
  ultimately have "leaf_frame hhdm (snd s') pml4 (page_path w) (index_of w 1) =
      leaf_frame hhdm (snd s) pml4 (page_path w) (index_of w 1)"
    using assms(1) unfolding mapped_def by auto
  then show ?thesis using pml4_nonzero [OF ok] by (simp add: arch_translate_leaf)
qed

text \<open>A new page map: the frame is zeroed, so nothing is mapped.\<close>

lemma new_pagemap:
  assumes "hhdm < 2 ^ 64" "hhdm mod 4096 = 0" "pmm_ok a"
    and "arch_create_new_pagemap (a, m) = Inr (p, s')" "p \<noteq> 0"
  shows "vm_ok hhdm s' p" "arch_translate hhdm (snd s') p v = Inr 0"
proof -
  obtain a' m' where get: "arch_alloc_page a m = Some (p, a', m')" and s': "s' = (a', m')"
    using assms(4) by (auto simp: arch_create_new_pagemap_def split: option.splits)
  note g = frames.get_frame [OF assms(3) get assms(5)]
  have zero: "\<not> pte_present (read_pte m' p i)" if "i < 512" for i
    using read_pte_zero [OF that] frames.get_zeroed [OF assms(3) get assms(5)] by simp
  have walk: "walk hhdm m' p q = (if q = [] then Some p else None)" if "q \<in> paths" for q
    using that zero by (cases q) (auto simp: paths_def)
  have "tables_owned hhdm m' p (pmm_frames a')" "tables_inj hhdm m' p"
    using walk g by (auto simp: tables_owned_def tables_inj_def split: if_splits)
  then show ok: "vm_ok hhdm s' p" using assms(1,2) g s' by (simp add: vm_ok_def)
  show "arch_translate hhdm (snd s') p v = Inr 0"
    using zero [of "index_of v 4"] assms(5) s' by (simp add: arch_translate_def Let_def)
qed

end
