(* ===== verification/Virt_Properties.thy ===== *)
theory Virt_Properties
  imports Virt_Correct
begin

text \<open>
  The properties of the virtual memory manager, with a page map in a 64 KiB zone of the higher
  half as the concrete instance.
\<close>

section \<open>A concrete page map\<close>

definition sample_hhdm :: nat where
  "sample_hhdm = 18446603336221196288"

definition page_buddy :: buddy where
  "page_buddy = the (the (buddy_init_alignment (\<lambda>_. 0) 65536 (sample_hhdm + 1048576) 65536 64))"

definition page_pmm :: pmm where
  "page_pmm = \<lparr>zone_list = [\<lparr>zone_buddy = Some page_buddy, zone_start = sample_hhdm + 1048576, zone_len = 65536,
     page_count = 16, zone_nr = 0, zone_name = ''Physical memory (Generic-RAM)''\<rparr>], pmm_lock = False\<rparr>"

lemma page_buddy_facts:
  "buddy_inv page_buddy" "live page_buddy = {}" "buddy_main page_buddy = sample_hhdm + 1048576"
  "memory_size page_buddy = 65536" "alignment page_buddy = 64"
proof -
  have "is_valid_alignment 64" unfolding is_valid_alignment_iff by (rule exI [of _ 6]) simp
  then have pre: "init_pre 65536 (sample_hhdm + 1048576) 65536 64" by (simp add: init_pre_def sample_hhdm_def)
  obtain b where b: "buddy_init_alignment (\<lambda>_. 0) 65536 (sample_hhdm + 1048576) 65536 64 = Some (Some b)"
    "buddy_inv b" "live b = {}" "buddy_main b = sample_hhdm + 1048576" "memory_size b = 65536 - 65536 mod 64" "alignment b = 64"
    by (rule init_live [OF pre])
  then have "page_buddy = b" by (simp add: page_buddy_def)
  then show "buddy_inv page_buddy" "live page_buddy = {}" "buddy_main page_buddy = sample_hhdm + 1048576"
    "memory_size page_buddy = 65536" "alignment page_buddy = 64" using b by simp_all
qed

lemma page_pmm_ok: "pmm_ok page_pmm"
  using page_buddy_facts
  by (auto simp: pmm_ok_def page_pmm_def zone_ok_def zone_range_def paged_zone_def sample_hhdm_def)

lemma page_malloc_serves: "fst (buddy_malloc (Some page_buddy) 4096) \<noteq> 0"
proof
  assume z: "fst (buddy_malloc (Some page_buddy) 4096) = 0"
  note s = page_buddy_facts
  have le: "max 1 4096 \<le> memory_size page_buddy" using s(4) by simp
  have "slot_size page_buddy 4096 \<le> 4096" using slot_size_le [OF s(1) le s(5), of 6] by simp
  then show False using malloc_null_full [OF s(1) le z, of 0] s by simp
qed

definition sample_pml4 :: addr where
  "sample_pml4 = (case arch_create_new_pagemap (page_pmm, \<lambda>_. 1) of Inr (p, s) \<Rightarrow> p | Inl _ \<Rightarrow> 0)"

definition sample_vm :: vm where
  "sample_vm = (case arch_create_new_pagemap (page_pmm, \<lambda>_. 1) of Inr (p, s) \<Rightarrow> s | Inl _ \<Rightarrow> (page_pmm, \<lambda>_. 1))"

lemma sample_pagemap:
  "arch_create_new_pagemap (page_pmm, \<lambda>_. 1) = Inr (sample_pml4, sample_vm)" "sample_pml4 \<noteq> 0"
proof -
  obtain p a m where get: "arch_alloc_page page_pmm (\<lambda>_. 1) = Some (p, a, m)"
    using frames.get_returns [OF page_pmm_ok] by (metis option.exhaust surj_pair)
  have "p \<noteq> 0" using page_malloc_serves get
    by (auto simp: arch_alloc_page_def page_pmm_def arch_alloc_page_sz_def acquire_lock_def Let_def PAGE_SIZE_def
        split: option.splits prod.splits if_splits)
  then show "arch_create_new_pagemap (page_pmm, \<lambda>_. 1) = Inr (sample_pml4, sample_vm)" "sample_pml4 \<noteq> 0"
    using get by (simp_all add: sample_pml4_def sample_vm_def arch_create_new_pagemap_def)
qed

lemma sample_hhdm_ok: "sample_hhdm < 2 ^ 64" "sample_hhdm mod 4096 = 0"
  by (simp_all add: sample_hhdm_def)

lemma sample_vm_ok: "vm_ok sample_hhdm sample_vm sample_pml4"
  by (rule new_pagemap(1) [OF sample_hhdm_ok page_pmm_ok sample_pagemap])

text \<open>The zone has sixteen pages: after the page map has been allocated there is another frame.\<close>

lemma page_left:
  assumes "buddy_inv b" "live b = {(q, sz)}" "sz < 8192" "buddy_main b = sample_hhdm + 1048576"
    and "memory_size b = 65536" "alignment b = 64"
  shows "fst (buddy_malloc (Some b) 4096) \<noteq> 0"
proof
  assume z: "fst (buddy_malloc (Some b) 4096) = 0"
  let ?m = "buddy_main b" and ?s = "slot_size b 4096"
  have le: "max 1 4096 \<le> memory_size b" using assms(5) by simp
  have "?s \<le> 4096" using slot_size_le [OF assms(1) le assms(6), of 6] by simp
  moreover have "4096 \<le> ?s" by (rule slot_size_bounds [OF assms(1) le]) simp
  ultimately have s: "?s = 4096" by simp
  note full = malloc_null_full [OF assms(1) le z]
  have "extent (q, sz) \<inter> extent (?m + 0 * ?s, ?s) \<noteq> {}" "extent (q, sz) \<inter> extent (?m + 15 * ?s, ?s) \<noteq> {}"
    using full [of 0] full [of 15] s assms(2,5) by auto
  then show False using s assms(3) by (auto simp: extent_def)
qed

lemma sample_vm_frame: "\<exists>p a m'. arch_alloc_page (fst sample_vm) m = Some (p, a, m') \<and> p \<noteq> 0"
proof -
  note b = page_buddy_facts
  obtain q bp where m: "buddy_malloc (Some page_buddy) 4096 = (q, bp)" by (cases "buddy_malloc (Some page_buddy) 4096")
  have q: "q \<noteq> 0" using page_malloc_serves m by simp
  obtain b' sz where b': "bp = Some b'" "buddy_inv b'" "sz < 8192" "live b' = {(q, sz)}"
    by (rule malloc_block [OF b(1) m q]) (use b(2,5) in auto)
  note arena = malloc_keeps_arena [OF m [unfolded b'(1)]]
  have fst: "fst sample_vm = page_pmm\<lparr>zone_list := [(hd (zone_list page_pmm))\<lparr>zone_buddy := Some b'\<rparr>]\<rparr>"
    using m q b'(1) by (simp add: sample_vm_def arch_create_new_pagemap_def arch_alloc_page_def arch_alloc_page_sz_def
        page_pmm_def acquire_lock_def release_lock_def Let_def)
  have "fst (buddy_malloc (Some b') 4096) \<noteq> 0"
    using page_left [OF b'(2,4,3)] arena b(3-5) by simp
  then show ?thesis
    by (cases "buddy_malloc (Some b') 4096")
      (simp add: fst arch_alloc_page_def arch_alloc_page_sz_def page_pmm_def acquire_lock_def Let_def)
qed

section \<open>Properties\<close>



text \<open>
  The page map of a fresh address space is empty: if \<open>arch_create_new_pagemap\<close> returns a
  page, its tables are well formed and every address is unmapped.
\<close>

lemma arch_create_new_pagemap_empty:
  assumes "hhdm < 2 ^ 64" "hhdm mod 4096 = 0" "pmm_ok (fst s)"
    and "arch_create_new_pagemap s = Inr (p, s')" "p \<noteq> 0"
  shows "vm_ok hhdm s' p \<and> arch_translate hhdm (snd s') p v = Inr 0"
  using new_pagemap(1) [OF assms(1-3), of "snd s" p s'] new_pagemap(2) [OF assms(1-3), of "snd s" p s' v] assms(4,5) by simp

end
