(* ===== verification/Strings.thy ===== *)
theory Strings
  imports Mem
begin

text \<open>
  The string routines of \<open>src/libs/base/sources/string.c\<close> and of the C library of the services
  (\<open>src/service/libc/generic/string.c\<close>, \<open>memory.c\<close>) on a byte memory. A loop that runs until it
  meets a terminator may not end and is a partial function; a signed 32-bit counter that would
  leave its range is \<open>None\<close>, as is a loop that does not return.

  Shown: on terminated strings every routine returns; \<open>strlen\<close> is the length, \<open>strcmp\<close> is 0
  exactly for equal strings and \<open>-1\<close> exactly when one is a proper prefix of the other,
  \<open>strcpy\<close>, \<open>strcat\<close> and \<open>strrev\<close> produce the copy, the concatenation and the reversal and write
  nothing else, and \<open>strtoul\<close> is the value of the longest prefix of digits, modulo \<open>2 ^ 64\<close>.
\<close>

section \<open>Terminated strings in memory\<close>

fun cstring :: "bytes \<Rightarrow> addr \<Rightarrow> byte list \<Rightarrow> bool" where
  "cstring m s [] \<longleftrightarrow> m s = 0"
| "cstring m s (x # xs) \<longleftrightarrow> x \<noteq> 0 \<and> m s = x \<and> cstring m (s + 1) xs"

lemma cstring_iff:
  "cstring m s xs \<longleftrightarrow> 0 \<notin> set xs \<and> m (s + length xs) = 0 \<and> (\<forall>i < length xs. m (s + i) = xs ! i)"
proof (induction xs arbitrary: s)
  case (Cons x xs)
  have "(\<forall>i < length (x # xs). m (s + i) = (x # xs) ! i) \<longleftrightarrow>
      m s = x \<and> (\<forall>i < length xs. m (s + 1 + i) = xs ! i)"
    by (auto simp: less_Suc_eq_0_disj)
  then show ?case using Cons [of "s + 1"] by auto
qed simp

lemma cstring_nth: "cstring m s xs \<Longrightarrow> i < length xs \<Longrightarrow> m (s + i) = xs ! i \<and> xs ! i \<noteq> 0"
  using nth_mem [of i xs] by (auto simp: cstring_iff simp del: nth_mem)

lemma cstring_end: "cstring m s xs \<Longrightarrow> m (s + length xs) = 0"
  by (simp add: cstring_iff)

lemma cstring_unique: "cstring m s xs \<Longrightarrow> cstring m s ys \<Longrightarrow> xs = ys"
proof (induction xs arbitrary: s ys)
  case (Cons x xs)
  then show ?case by (cases ys) auto
next
  case Nil
  then show ?case by (cases ys) auto
qed

lemma cstring_cong: "(\<And>a. s \<le> a \<Longrightarrow> a \<le> s + length xs \<Longrightarrow> m a = m' a) \<Longrightarrow> cstring m s xs = cstring m' s xs"
  by (auto simp: cstring_iff)

section \<open>Operations of the kernel\<close>

partial_function (option) strlen_loop :: "bytes \<Rightarrow> addr \<Rightarrow> nat \<Rightarrow> nat option" where
  "strlen_loop m s len = (if m s \<noteq> 0 then strlen_loop m (s + 1) (wrap64 (len + 1)) else Some len)"

definition strlen :: "bytes \<Rightarrow> addr \<Rightarrow> nat option" where
  "strlen m s = strlen_loop m s 0"

text \<open>The loop of \<open>strcmp\<close> returns the index it stopped at and the flag \<open>failed\<close>.\<close>

partial_function (option) strcmp_loop :: "bytes \<Rightarrow> addr \<Rightarrow> addr \<Rightarrow> nat \<Rightarrow> (nat \<times> int) option" where
  "strcmp_loop m str1 str2 i =
     (if i \<ge> 2 ^ 31 then None
      else if m (str1 + i) \<noteq> 0 \<and> m (str2 + i) \<noteq> 0
           then if m (str1 + i) \<noteq> m (str2 + i) then Some (i, 1)
                else strcmp_loop m str1 str2 (i + 1)
           else Some (i, 0))"

definition strcmp :: "bytes \<Rightarrow> addr \<Rightarrow> addr \<Rightarrow> int option" where
  "strcmp m str1 str2 =
     (case strcmp_loop m str1 str2 0 of
        None \<Rightarrow> None
      | Some (i, failed) \<Rightarrow>
          Some (if m (str1 + i) = 0 \<and> m (str2 + i) \<noteq> 0 \<or> m (str1 + i) \<noteq> 0 \<and> m (str2 + i) = 0
                then -1 else failed))"

fun strncmp_loop :: "bytes \<Rightarrow> addr \<Rightarrow> addr \<Rightarrow> nat \<Rightarrow> nat \<Rightarrow> int" where
  "strncmp_loop m str1 str2 i 0 = 0"
| "strncmp_loop m str1 str2 i (Suc n) =
     (if str1 = 0 then 0
      else if m (str1 + i) \<noteq> m (str2 + i) then -1
      else strncmp_loop m str1 str2 (i + 1) n)"

definition strncmp :: "bytes \<Rightarrow> addr \<Rightarrow> addr \<Rightarrow> nat \<Rightarrow> int" where
  "strncmp m str1 str2 n = strncmp_loop m str1 str2 0 n"

text \<open>
  The loop of \<open>strcpy\<close> copies the first \<open>n\<close> bytes anew for \<open>n = 0, \<dots>, len\<close>, where \<open>len\<close> is a
  signed \<open>int\<close>; \<open>k\<close> is the number of rounds left after the one with \<open>n\<close>.
\<close>

fun strcpy_loop :: "bytes \<Rightarrow> addr \<Rightarrow> addr \<Rightarrow> nat \<Rightarrow> nat \<Rightarrow> bytes" where
  "strcpy_loop m dest src n 0 = memcpy m dest src n"
| "strcpy_loop m dest src n (Suc k) = strcpy_loop (memcpy m dest src n) dest src (n + 1) k"

definition strcpy :: "bytes \<Rightarrow> addr \<Rightarrow> addr \<Rightarrow> (addr \<times> bytes) option" where
  "strcpy m dest src =
     (case strlen m src of
        None \<Rightarrow> None
      | Some len \<Rightarrow> if len \<ge> 2 ^ 31 then None
                    else Some (dest, (strcpy_loop m dest src 0 len)(dest + len := 0)))"

partial_function (option) strcat_loop :: "bytes \<Rightarrow> addr \<Rightarrow> addr \<Rightarrow> (addr \<times> bytes) option" where
  "strcat_loop m ptr b = (if m b \<noteq> 0 then strcat_loop (m(ptr := m b)) (ptr + 1) (b + 1) else Some (ptr, m))"

definition strcat :: "bytes \<Rightarrow> addr \<Rightarrow> addr \<Rightarrow> (addr \<times> bytes) option" where
  "strcat m a b =
     (case strlen m a of
        None \<Rightarrow> None
      | Some len \<Rightarrow> (case strcat_loop m (a + len) b of
                       None \<Rightarrow> None
                     | Some (ptr, m) \<Rightarrow> Some (a, m(ptr := 0))))"

function strrev_loop :: "bytes \<Rightarrow> addr \<Rightarrow> int \<Rightarrow> int \<Rightarrow> bytes" where
  "strrev_loop m src i last_char =
     (if i < last_char
      then let temp = m (src + nat i);
               m = m(src + nat i := m (src + nat last_char));
               m = m(src + nat last_char := temp)
           in strrev_loop m src (i + 1) (last_char - 1)
      else m)"
  by pat_completeness auto
termination by (relation "measure (\<lambda>(_, _, i, j). nat (j - i))") auto

declare strrev_loop.simps [simp del]

definition strrev :: "bytes \<Rightarrow> addr \<Rightarrow> (addr \<times> bytes) option" where
  "strrev m src =
     (case strlen m src of
        None \<Rightarrow> None
      | Some len \<Rightarrow>
          if len \<ge> 2 ^ 31 then None
          else let m = strrev_loop m src 0 (int len - 1)
               in case strlen m src of
                    None \<Rightarrow> None
                  | Some len \<Rightarrow> Some (src, m(src + len := 0)))"

definition isdigit :: "int \<Rightarrow> bool" where
  "isdigit c \<longleftrightarrow> 48 \<le> c \<and> c \<le> 57"

section \<open>Operations of the C library\<close>

partial_function (option) libc_strlen_loop :: "bytes \<Rightarrow> addr \<Rightarrow> nat \<Rightarrow> nat option" where
  "libc_strlen_loop m s len =
     (if len \<ge> 2 ^ 31 then None else if m s \<noteq> 0 then libc_strlen_loop m (s + 1) (len + 1) else Some len)"

definition libc_strlen :: "bytes \<Rightarrow> addr \<Rightarrow> nat option" where
  "libc_strlen m s = libc_strlen_loop m s 0"

text \<open>The value of a digit, or \<open>None\<close> for the two \<open>break\<close>s.\<close>

definition digit_value :: "nat \<Rightarrow> byte \<Rightarrow> nat option" where
  "digit_value base c =
     (let v = (if 48 \<le> unat c \<and> unat c \<le> 57 then Some (unat c - 48)
               else if 97 \<le> unat c \<and> unat c \<le> 102 then Some (unat c - 97 + 10)
               else if 65 \<le> unat c \<and> unat c \<le> 70 then Some (unat c - 65 + 10)
               else None)
      in case v of None \<Rightarrow> None | Some value \<Rightarrow> if value \<ge> base then None else Some value)"

partial_function (option) strtoul_loop :: "bytes \<Rightarrow> nat \<Rightarrow> addr \<Rightarrow> nat \<Rightarrow> nat option" where
  "strtoul_loop m base ptr result =
     (if m ptr = 0 then Some result
      else case digit_value base (m ptr) of
             None \<Rightarrow> Some result
           | Some value \<Rightarrow> strtoul_loop m base (ptr + 1) (wrap64 (result * base + value)))"

definition strtoul :: "bytes \<Rightarrow> addr \<Rightarrow> nat option" where
  "strtoul m str =
     (if m str = 48 \<and> (m (str + 1) = 120 \<or> m (str + 1) = 88)
      then strtoul_loop m 16 (str + 2) 0
      else strtoul_loop m 10 str 0)"

fun libc_memset_loop :: "bytes \<Rightarrow> addr \<Rightarrow> byte \<Rightarrow> nat \<Rightarrow> bytes" where
  "libc_memset_loop m ptr value 0 = m"
| "libc_memset_loop m ptr value (Suc n) = libc_memset_loop (m(ptr := value)) (ptr + 1) value n"

definition libc_memset :: "bytes \<Rightarrow> addr \<Rightarrow> int \<Rightarrow> nat \<Rightarrow> addr \<times> bytes" where
  "libc_memset m dest value n = (dest, libc_memset_loop m dest (of_int value) n)"

fun libc_memcpy_loop :: "bytes \<Rightarrow> addr \<Rightarrow> addr \<Rightarrow> nat \<Rightarrow> bytes" where
  "libc_memcpy_loop m d s 0 = m"
| "libc_memcpy_loop m d s (Suc n) = libc_memcpy_loop (m(d := m s)) (d + 1) (s + 1) n"

definition libc_memcpy :: "bytes \<Rightarrow> addr \<Rightarrow> addr \<Rightarrow> nat \<Rightarrow> addr \<times> bytes" where
  "libc_memcpy m dest src n = (dest, libc_memcpy_loop m dest src n)"

section \<open>Lengths and comparisons\<close>

lemma strlen_loop_cstring:
  "cstring m s xs \<Longrightarrow> len + length xs < 2 ^ 64 \<Longrightarrow> strlen_loop m s len = Some (len + length xs)"
proof (induction xs arbitrary: s len)
  case (Cons x xs)
  then have "wrap64 (len + 1) = len + 1" by (simp add: wrap64_def)
  then show ?case using Cons by (subst strlen_loop.simps) simp
qed (subst strlen_loop.simps, simp)

lemma strlen_cstring: "cstring m s xs \<Longrightarrow> length xs < 2 ^ 64 \<Longrightarrow> strlen m s = Some (length xs)"
  using strlen_loop_cstring [of m s xs 0] by (simp add: strlen_def)

lemma libc_strlen_loop_cstring:
  "cstring m s xs \<Longrightarrow> len + length xs < 2 ^ 31 \<Longrightarrow> libc_strlen_loop m s len = Some (len + length xs)"
proof (induction xs arbitrary: s len)
  case (Cons x xs)
  then show ?case by (subst libc_strlen_loop.simps) simp
qed (subst libc_strlen_loop.simps, simp)

text \<open>What \<open>strcmp\<close> returns, on the strings.\<close>

fun compared :: "byte list \<Rightarrow> byte list \<Rightarrow> int" where
  "compared [] [] = 0"
| "compared [] (y # ys) = -1"
| "compared (x # xs) [] = -1"
| "compared (x # xs) (y # ys) = (if x = y then compared xs ys else 1)"

definition strcmp_result :: "bytes \<Rightarrow> addr \<Rightarrow> addr \<Rightarrow> nat \<times> int \<Rightarrow> int" where
  "strcmp_result m str1 str2 r = (case r of (i, failed) \<Rightarrow>
     if m (str1 + i) = 0 \<and> m (str2 + i) \<noteq> 0 \<or> m (str1 + i) \<noteq> 0 \<and> m (str2 + i) = 0 then -1 else failed)"

lemma strcmp_loop_compared:
  assumes "cstring m (a + i) xs" "cstring m (b + i) ys" "i + min (length xs) (length ys) < 2 ^ 31"
  shows "\<exists>r. strcmp_loop m a b i = Some r \<and> strcmp_result m a b r = compared xs ys"
  using assms
proof (induction xs ys arbitrary: i rule: compared.induct)
  case (4 x xs y ys)
  show ?case
  proof (cases "x = y")
    case True
    then show ?thesis using "4.IH" [of "i + 1"] "4.prems" by (subst strcmp_loop.simps) simp
  next
    case False
    then show ?thesis using "4.prems" by (subst strcmp_loop.simps) (simp add: strcmp_result_def)
  qed
qed (subst strcmp_loop.simps, simp add: strcmp_result_def)+

lemma strcmp_compared:
  assumes "cstring m a xs" "cstring m b ys" "min (length xs) (length ys) < 2 ^ 31"
  shows "strcmp m a b = Some (compared xs ys)"
  using strcmp_loop_compared [of m a 0 xs b ys] assms
  by (auto simp: strcmp_def strcmp_result_def split: prod.splits)

lemma compared_zero_iff: "compared xs ys = 0 \<longleftrightarrow> xs = ys"
  by (induction xs ys rule: compared.induct) auto

lemma compared_prefix_iff: "compared xs ys = -1 \<longleftrightarrow> xs \<noteq> ys \<and> (take (length xs) ys = xs \<or> take (length ys) xs = ys)"
  by (induction xs ys rule: compared.induct) auto

lemma strncmp_loop_zero_iff:
  "a \<noteq> 0 \<Longrightarrow> strncmp_loop m a b i n = (if \<forall>k < n. m (a + i + k) = m (b + i + k) then 0 else -1)"
proof (induction n arbitrary: i)
  case (Suc n)
  have "(\<forall>k < Suc n. m (a + i + k) = m (b + i + k)) \<longleftrightarrow>
      m (a + i) = m (b + i) \<and> (\<forall>k < n. m (a + Suc i + k) = m (b + Suc i + k))"
    by (auto simp: less_Suc_eq_0_disj)
  then show ?case using Suc.IH [of "Suc i"] Suc.prems by auto
qed simp

lemma strncmp_iff: "a \<noteq> 0 \<Longrightarrow> strncmp m a b n = (if \<forall>k < n. m (a + k) = m (b + k) then 0 else -1)"
  using strncmp_loop_zero_iff [of a m b 0 n] by (simp add: strncmp_def)

section \<open>Copies\<close>

definition apart :: "addr \<Rightarrow> addr \<Rightarrow> nat \<Rightarrow> bool" where
  "apart d s n \<longleftrightarrow> d + n \<le> s \<or> s + n \<le> d"

lemma copied_again:
  "apart dest src n \<Longrightarrow> k \<le> n \<Longrightarrow> copied (copied m dest src k) dest src n = copied m dest src n"
  by (auto simp: copied_def apart_def fun_eq_iff)

lemma memcpy_apart: "apart dest src n \<Longrightarrow> memcpy m dest src n = copied m dest src n"
  by (rule memcpy_copied) (auto simp: apart_def)

lemma strcpy_loop_copied:
  "apart dest src (n + k) \<Longrightarrow> strcpy_loop m dest src n k = copied m dest src (n + k)"
proof (induction k arbitrary: m n)
  case (Suc k)
  have "apart dest src n" using Suc.prems by (auto simp: apart_def)
  moreover have "copied (copied m dest src n) dest src (n + Suc k) = copied m dest src (n + Suc k)"
    using Suc.prems by (intro copied_again) simp_all
  ultimately show ?case using Suc.IH [of "n + 1" "copied m dest src n"] Suc.prems by (simp add: memcpy_apart)
qed (simp add: memcpy_apart)

lemma copied_cstring:
  assumes "cstring m src xs" "apart dest src (length xs + 1)"
  shows "cstring ((copied m dest src (length xs))(dest + length xs := 0)) dest xs"
  using assms by (auto simp: cstring_iff copied_def)

lemma strcpy_cstring:
  assumes "cstring m src xs" "length xs < 2 ^ 31" "apart dest src (length xs + 1)"
  shows "strcpy m dest src = Some (dest, (copied m dest src (length xs))(dest + length xs := 0))"
proof -
  have "apart dest src (0 + length xs)" using assms(3) by (auto simp: apart_def)
  then show ?thesis using strlen_cstring [OF assms(1)] strcpy_loop_copied [of dest src 0 "length xs" m] assms(2)
    by (simp add: strcpy_def)
qed

lemma strcat_loop_copied:
  "cstring m b ys \<Longrightarrow> apart ptr b (length ys + 1) \<Longrightarrow>
   strcat_loop m ptr b = Some (ptr + length ys, copied m ptr b (length ys))"
proof (induction ys arbitrary: m ptr b)
  case Nil
  then show ?case by (subst strcat_loop.simps) (auto simp: copied_def fun_eq_iff)
next
  case (Cons y ys)
  let ?m = "m(ptr := m b)"
  have "cstring ?m (b + 1) ys = cstring m (b + 1) ys"
    using Cons.prems(2) by (intro cstring_cong) (auto simp: apart_def)
  then have c: "cstring ?m (b + 1) ys" using Cons.prems(1) by simp
  have "apart (ptr + 1) (b + 1) (length ys + 1)" using Cons.prems(2) by (auto simp: apart_def)
  note IH = Cons.IH [OF c this]
  have "copied ?m (ptr + 1) (b + 1) (length ys) = copied m ptr b (length (y # ys))"
  proof
    fix a
    show "copied ?m (ptr + 1) (b + 1) (length ys) a = copied m ptr b (length (y # ys)) a"
      using Cons.prems(2) by (cases "a = ptr") (auto simp: copied_def apart_def Suc_diff_Suc)
  qed
  then show ?case using IH Cons.prems(1) by (subst strcat_loop.simps) (simp del: fun_upd_apply)
qed

lemma strcat_cstring:
  assumes "cstring m a xs" "cstring m b ys" "length xs < 2 ^ 64" "apart (a + length xs) b (length ys + 1)"
  shows "strcat m a b =
    Some (a, (copied m (a + length xs) b (length ys))(a + length xs + length ys := 0))"
  using strlen_cstring [OF assms(1,3)] strcat_loop_copied [OF assms(2,4)] by (simp add: strcat_def)

lemma concat_cstring:
  assumes "cstring m a xs" "cstring m b ys" "apart (a + length xs) b (length ys + 1)"
  shows "cstring ((copied m (a + length xs) b (length ys))(a + length xs + length ys := 0)) a (xs @ ys)"
proof -
  have "(copied m (a + length xs) b (length ys)) (a + i) = (xs @ ys) ! i" if "i < length xs + length ys" for i
    using that cstring_nth [OF assms(1), of i] cstring_nth [OF assms(2), of "i - length xs"]
    by (auto simp: copied_def nth_append)
  then show ?thesis using assms(1,2) by (simp add: cstring_iff)
qed

section \<open>Reversal\<close>

definition mirrored :: "bytes \<Rightarrow> addr \<Rightarrow> int \<Rightarrow> int \<Rightarrow> bytes" where
  "mirrored m src i j = (\<lambda>a. if int src + i \<le> int a \<and> int a \<le> int src + j then m (nat (2 * int src + i + j - int a)) else m a)"

lemma strrev_loop_mirrored: "0 \<le> i \<Longrightarrow> strrev_loop m src i j = mirrored m src i j"
proof (induction "nat (j - i)" arbitrary: m i j rule: less_induct)
  case less
  show ?case
  proof (cases "i < j")
    case True
    define m' where "m' = m(src + nat i := m (src + nat j), src + nat j := m (src + nat i))"
    have "strrev_loop m src i j = strrev_loop m' src (i + 1) (j - 1)"
      using True by (subst strrev_loop.simps) (simp add: Let_def m'_def)
    also have "\<dots> = mirrored m' src (i + 1) (j - 1)"
      using less True by simp
    also have "\<dots> = mirrored m src i j"
    proof
      fix a
      have ij: "int (src + nat i) = int src + i" "int (src + nat j) = int src + j" using less.prems True by auto
      consider "a = src + nat i" | "a = src + nat j" | "a \<noteq> src + nat i" "a \<noteq> src + nat j" by blast
      then show "mirrored m' src (i + 1) (j - 1) a = mirrored m src i j a"
      proof cases
        case 1
        then have "nat (2 * int src + i + j - int a) = src + nat j" using ij by linarith
        then show ?thesis using 1 ij True by (simp add: mirrored_def m'_def)
      next
        case 2
        then have "nat (2 * int src + i + j - int a) = src + nat i" using ij by linarith
        then show ?thesis using 2 ij True by (simp add: mirrored_def m'_def)
      next
        case 3
        then have "int a \<noteq> int src + i" "int a \<noteq> int src + j" using ij by linarith+
        moreover have "nat (2 * int src + i + j - int a) \<noteq> src + nat i \<and> nat (2 * int src + i + j - int a) \<noteq> src + nat j"
          if "int src + i < int a" "int a < int src + j" using that ij by linarith
        ultimately show ?thesis using 3 by (auto simp: mirrored_def m'_def add.assoc)
      qed
    qed
    finally show ?thesis .
  next
    case False
    have "mirrored m src i j = m"
    proof
      fix a
      have "nat (2 * int src + i + j - int a) = a" if "int src + i \<le> int a" "int a \<le> int src + j"
        using that False by linarith
      then show "mirrored m src i j a = m a" by (simp add: mirrored_def)
    qed
    then show ?thesis using False by (subst strrev_loop.simps) simp
  qed
qed

lemma mirrored_cstring:
  assumes "cstring m s xs"
  shows "cstring (mirrored m s 0 (int (length xs) - 1)) s (rev xs)"
proof -
  let ?m = "mirrored m s 0 (int (length xs) - 1)"
  have "?m (s + i) = rev xs ! i" if "i < length xs" for i
  proof -
    have "nat (2 * int s + 0 + (int (length xs) - 1) - int (s + i)) = s + (length xs - Suc i)" using that by linarith
    then show ?thesis using that cstring_nth [OF assms, of "length xs - Suc i"] by (simp add: mirrored_def rev_nth)
  qed
  moreover have "?m (s + length xs) = 0" using cstring_end [OF assms] by (simp add: mirrored_def)
  ultimately show ?thesis using assms by (simp add: cstring_iff)
qed

lemma strrev_cstring:
  assumes "cstring m s xs" "length xs < 2 ^ 31"
  shows "strrev m s = Some (s, mirrored m s 0 (int (length xs) - 1))"
proof -
  let ?m = "mirrored m s 0 (int (length xs) - 1)"
  note c = mirrored_cstring [OF assms(1)]
  have "strlen m s = Some (length xs)" using strlen_cstring [OF assms(1)] assms(2) by simp
  moreover have "strlen ?m s = Some (length xs)" using strlen_cstring [OF c] assms(2) by simp
  moreover have "?m(s + length xs := 0) = ?m" using cstring_end [OF c] by (simp add: fun_eq_iff)
  ultimately show ?thesis using assms(2) strrev_loop_mirrored [of 0 m s "int (length xs) - 1"]
    by (simp add: strrev_def Let_def)
qed

section \<open>Numbers\<close>

fun digits :: "nat \<Rightarrow> byte list \<Rightarrow> nat list" where
  "digits base [] = []"
| "digits base (c # cs) = (case digit_value base c of None \<Rightarrow> [] | Some v \<Rightarrow> v # digits base cs)"

definition horner :: "nat \<Rightarrow> nat \<Rightarrow> nat list \<Rightarrow> nat" where
  "horner base r ds = foldl (\<lambda>r v. r * base + v) r ds"

lemma horner_simps [simp]: "horner base r [] = r" "horner base r (d # ds) = horner base (r * base + d) ds"
  by (simp_all add: horner_def)

lemma horner_mod: "horner base (r mod n) ds mod n = horner base r ds mod n"
proof (induction ds arbitrary: r)
  case (Cons d ds)
  have "horner base (r mod n * base + d) ds mod n = horner base ((r mod n * base + d) mod n) ds mod n"
    by (rule Cons [symmetric])
  also have "(r mod n * base + d) mod n = (r * base + d) mod n" by (metis mod_add_left_eq mod_mult_left_eq)
  also have "horner base ((r * base + d) mod n) ds mod n = horner base (r * base + d) ds mod n" by (rule Cons)
  finally show ?case by simp
qed simp

lemma strtoul_loop_horner:
  "cstring m s xs \<Longrightarrow> r < 2 ^ 64 \<Longrightarrow> strtoul_loop m base s r = Some (horner base r (digits base xs) mod 2 ^ 64)"
proof (induction xs arbitrary: s r)
  case (Cons x xs)
  show ?case
  proof (cases "digit_value base x")
    case None
    then show ?thesis using Cons.prems by (subst strtoul_loop.simps) simp
  next
    case (Some v)
    have "strtoul_loop m base (s + 1) (wrap64 (r * base + v)) =
        Some (horner base (wrap64 (r * base + v)) (digits base xs) mod 2 ^ 64)"
      using Cons by (simp add: wrap64_def)
    also have "horner base (wrap64 (r * base + v)) (digits base xs) mod 2 ^ 64 =
        horner base (r * base + v) (digits base xs) mod 2 ^ 64"
      unfolding wrap64_def by (rule horner_mod)
    finally show ?thesis using Cons.prems Some by (subst strtoul_loop.simps) simp
  qed
qed (subst strtoul_loop.simps, simp)

section \<open>Properties\<close>

text \<open>A memory that is zero but for a string, for the concrete instances.\<close>

fun poke :: "bytes \<Rightarrow> addr \<Rightarrow> byte list \<Rightarrow> bytes" where
  "poke m a [] = m"
| "poke m a (x # xs) = poke (m(a := x)) (a + 1) xs"

definition sample_text :: bytes where
  "sample_text = poke (poke (\<lambda>_. 0) 100 [97, 98, 99]) 200 [97, 98]"

lemma sample_strings: "cstring sample_text 100 [97, 98, 99]" "cstring sample_text 200 [97, 98]"
  by (simp_all add: sample_text_def)

text \<open>
  \<open>strcmp\<close> returns for any two terminated strings that agree on fewer than \<open>2 ^ 31\<close> bytes: 0
  exactly for equal strings, \<open>-1\<close> exactly when one is a proper prefix of the other, and 1 in all
  other cases, whatever the lengths are.
\<close>

lemma strcmp_spec:
  assumes "cstring m a xs" "cstring m b ys" "min (length xs) (length ys) < 2 ^ 31"
  shows "\<exists>r. strcmp m a b = Some r \<and> r \<in> {-1, 0, 1} \<and> (r = 0 \<longleftrightarrow> xs = ys) \<and>
    (r = -1 \<longleftrightarrow> xs \<noteq> ys \<and> (take (length xs) ys = xs \<or> take (length ys) xs = ys))"
proof -
  have "compared xs ys \<in> {-1, 0, 1}" by (induction xs ys rule: compared.induct) auto
  then show ?thesis using strcmp_compared [OF assms] compared_zero_iff compared_prefix_iff by auto
qed

text \<open>
  \<open>strcat\<close> returns its first argument, which then holds the concatenation; no byte outside
  the appended part is written. The destination must not overlap the appended string.
\<close>

lemma strcat_spec:
  assumes "cstring m a xs" "cstring m b ys" "length xs < 2 ^ 64" "apart (a + length xs) b (length ys + 1)"
  shows "\<exists>m'. strcat m a b = Some (a, m') \<and> cstring m' a (xs @ ys) \<and>
    {c. m' c \<noteq> m c} \<subseteq> {a + length xs .. a + length xs + length ys}"
  using strcat_cstring [OF assms] concat_cstring [OF assms(1,2,4)] by (auto simp: copied_def)

text \<open>
  \<open>strcpy\<close> copies the string with its terminator and writes nothing else, when the two do not
  overlap and the length fits an \<open>int\<close>.
\<close>

lemma strcpy_spec:
  assumes "cstring m src xs" "length xs < 2 ^ 31" "apart dest src (length xs + 1)"
  shows "\<exists>m'. strcpy m dest src = Some (dest, m') \<and> cstring m' dest xs \<and> cstring m' src xs \<and>
    {c. m' c \<noteq> m c} \<subseteq> {dest .. dest + length xs}"
proof -
  let ?m = "(copied m dest src (length xs))(dest + length xs := 0)"
  have "cstring ?m src xs = cstring m src xs"
    using assms(3) by (intro cstring_cong) (auto simp: copied_def apart_def)
  then show ?thesis using strcpy_cstring [OF assms] copied_cstring [OF assms(1,3)] assms(1) by (auto simp: copied_def)
qed

text \<open>
  \<open>strrev\<close> reverses the string in place, and reversing it again restores the memory.
\<close>

lemma strrev_roundtrip:
  assumes "cstring m s xs" "length xs < 2 ^ 31"
  shows "\<exists>m'. strrev m s = Some (s, m') \<and> cstring m' s (rev xs) \<and> strrev m' s = Some (s, m)"
proof -
  let ?m = "mirrored m s 0 (int (length xs) - 1)"
  note c = mirrored_cstring [OF assms(1)]
  have "mirrored ?m s 0 (int (length xs) - 1) = m"
    by (rule ext) (auto simp: mirrored_def)
  then show ?thesis using strrev_cstring [OF assms] strrev_cstring [OF c] assms(2) c by simp
qed

text \<open>
  \<open>strtoul\<close> returns, modulo \<open>2 ^ 64\<close>, the value of the longest prefix of digits: of hexadecimal
  digits behind \<open>0x\<close> or \<open>0X\<close>, of decimal digits otherwise.
\<close>

lemma strtoul_spec:
  assumes "cstring m s xs"
  shows "strtoul m s = Some
    (case xs of
       c # d # cs \<Rightarrow> if c = 48 \<and> (d = 120 \<or> d = 88) then horner 16 0 (digits 16 cs) mod 2 ^ 64
                     else horner 10 0 (digits 10 xs) mod 2 ^ 64
     | _ \<Rightarrow> horner 10 0 (digits 10 xs) mod 2 ^ 64)"
proof -
  note dec = strtoul_loop_horner [OF assms, of 0 10]
  consider "xs = []" | c where "xs = [c]" | c d cs where "xs = c # d # cs" by (cases xs rule: remdups_adj.cases)
  then show ?thesis
  proof cases
    case (3 c d cs)
    then have "cstring m (s + 2) cs" "m s = c" "m (s + 1) = d" using assms by simp_all
    then show ?thesis using 3 dec strtoul_loop_horner [of m "s + 2" cs 0 16] by (auto simp: strtoul_def)
  qed (use dec assms in \<open>simp_all add: strtoul_def\<close>)
qed

end
