(* ===== verification/Archive.thy ===== *)
theory Archive
  imports Strings
begin

text \<open>
  Two parsers: the boot argument search of \<open>src/libs/base/sources/bootargs.c\<close> and the tar archive
  of the init process, \<open>src/service/apps/init/utils/tar.c\<close>.

  Shown: the octal size field of a header is read as its value modulo \<open>2 ^ 32\<close>; parsing an archive
  returns the addresses of all headers, provided the name of the \<open>i\<close>-th file is longer than \<open>i\<close>
  (the loop tests \<open>filename[i]\<close>); a boot argument in front of a comma is found as soon as it is a
  prefix of the tag, and an argument longer than the tag is written behind the buffer.
\<close>

section \<open>Tar archives\<close>

fun content_size_loop :: "bytes \<Rightarrow> addr \<Rightarrow> nat \<Rightarrow> 32 word \<Rightarrow> 32 word \<Rightarrow> 32 word" where
  "content_size_loop m a 0 count sz = sz"
| "content_size_loop m a (Suc j) count sz =
     content_size_loop m a j (count * 8) (sz + (scast (m (a + j)) - 48) * count)"

definition tar_get_content_size :: "bytes \<Rightarrow> addr \<Rightarrow> 32 word" where
  "tar_get_content_size m a = content_size_loop m a 11 1 0"

text \<open>The field \<open>size\<close> is at offset 124 of a header, the field \<open>filename\<close> at offset 0.\<close>

partial_function (option) tar_parse_loop :: "bytes \<Rightarrow> addr \<Rightarrow> nat \<Rightarrow> addr list \<Rightarrow> (nat \<times> addr list) option" where
  "tar_parse_loop m address i headers =
     (if m (address + i) = 0 then Some (i, headers)
      else let sz = tar_get_content_size m (address + 124);
               headers = headers @ [address];
               address = add64 address (unat ((sz div 512 + 1) * 512));
               address = (if sz mod 512 \<noteq> 0 then add64 address 512 else address)
           in tar_parse_loop m address (i + 1) headers)"

definition tar_parse_headers :: "bytes \<Rightarrow> addr \<Rightarrow> (nat \<times> addr list) option" where
  "tar_parse_headers m address = tar_parse_loop m address 0 []"

text \<open>A field of octal digits, and an archive as a list of names and sizes.\<close>

definition octal_field :: "bytes \<Rightarrow> addr \<Rightarrow> nat list \<Rightarrow> bool" where
  "octal_field m a ds \<longleftrightarrow> length ds = 11 \<and> (\<forall>d \<in> set ds. d < 8) \<and> (\<forall>k < 11. m (a + k) = of_nat (48 + ds ! k))"

definition tar_next :: "addr \<Rightarrow> nat \<Rightarrow> addr" where
  "tar_next a sz = a + 512 + (sz + 511) div 512 * 512"

fun tar_archive :: "bytes \<Rightarrow> addr \<Rightarrow> nat \<Rightarrow> (byte list \<times> nat list) list \<Rightarrow> bool" where
  "tar_archive m a i [] \<longleftrightarrow> m (a + i) = 0"
| "tar_archive m a i ((name, ds) # fs) \<longleftrightarrow>
     cstring m a name \<and> i < length name \<and> octal_field m (a + 124) ds \<and> horner 8 0 ds < 2 ^ 31 \<and>
     tar_next a (horner 8 0 ds) < 2 ^ 64 \<and> tar_archive m (tar_next a (horner 8 0 ds)) (i + 1) fs"

fun tar_addresses :: "addr \<Rightarrow> (byte list \<times> nat list) list \<Rightarrow> addr list" where
  "tar_addresses a [] = []"
| "tar_addresses a ((name, ds) # fs) = a # tar_addresses (tar_next a (horner 8 0 ds)) fs"

lemma horner_snoc: "horner base r (ds @ [d]) = horner base r ds * base + d"
  by (simp add: horner_def)

lemma scast_digit: "d < 8 \<Longrightarrow> scast (of_nat (48 + d) :: 8 word) - 48 = (of_nat d :: 32 word)"
proof -
  assume "d < 8"
  then have "d \<in> {0, 1, 2, 3, 4, 5, 6, 7}" by auto
  then show ?thesis by auto
qed

lemma content_size_loop_horner:
  assumes "octal_field m a ds" "j \<le> 11"
  shows "content_size_loop m a j c s = s + c * of_nat (horner 8 0 (take j ds))"
  using assms(2)
proof (induction j arbitrary: c s)
  case (Suc j)
  have j: "j < length ds" "m (a + j) = of_nat (48 + ds ! j)" "ds ! j < 8"
    using assms(1) Suc.prems by (auto simp: octal_field_def)
  have "take (Suc j) ds = take j ds @ [ds ! j]" using j(1) by (rule take_Suc_conv_app_nth)
  then show ?case using Suc j(2) scast_digit [OF j(3)] by (simp add: horner_snoc algebra_simps)
qed simp

lemma tar_size: "octal_field m a ds \<Longrightarrow> tar_get_content_size m a = of_nat (horner 8 0 ds)"
  using content_size_loop_horner [of m a ds 11 1 0] by (simp add: tar_get_content_size_def octal_field_def)

lemma round_up_512: "(n + 511) div 512 * 512 = n div 512 * 512 + (if n mod 512 = 0 then 0 else 512)" for n :: nat
proof -
  define q r where "q = n div 512" and "r = n mod 512"
  have n: "n = q * 512 + r" unfolding q_def r_def by (rule div_mult_mod_eq [symmetric])
  have r: "r < 512" by (simp add: r_def)
  have "(n + 511) div 512 = (if r = 0 then q else q + 1)"
  proof (cases "r = 0")
    case True
    then have "n + 511 = 511 + q * 512" using n by simp
    then show ?thesis using True by (simp only: div_mult_self1) simp
  next
    case False
    then have "n + 511 = (r - 1) + (q + 1) * 512" using n by simp
    then have "(n + 511) div 512 = q + 1 + (r - 1) div 512" by (simp only: div_mult_self1)
    then show ?thesis using False r by simp
  qed
  then show ?thesis by (simp add: q_def r_def)
qed

lemma tar_step:
  assumes "n < 2 ^ 31" "tar_next a n < 2 ^ 64"
  shows "(let sz = (of_nat n :: 32 word); address = add64 a (unat ((sz div 512 + 1) * 512))
          in if sz mod 512 \<noteq> 0 then add64 address 512 else address) = tar_next a n"
proof -
  let ?s = "of_nat n :: 32 word"
  have s: "unat ?s = n" using assms(1) by (simp add: unat_of_nat)
  have "(n div 512 + 1) * 512 < 2 ^ 32" using assms(1) div_times_less_eq_dividend [of n 512] by simp
  then have u: "unat ((?s div 512 + 1) * 512) = (n div 512 + 1) * 512"
    using s by (simp add: unat_word_ariths unat_div)
  have z: "?s mod 512 = 0 \<longleftrightarrow> n mod 512 = 0"
    using s by (simp add: unat_eq_zero [symmetric] unat_mod del: unat_eq_zero)
  have "tar_next a n = a + (n div 512 + 1) * 512 + (if n mod 512 = 0 then 0 else 512)"
    unfolding tar_next_def round_up_512 by simp
  then show ?thesis using u z assms(2) by (auto simp: Let_def add64_def wrap64_def)
qed

lemma tar_parse_loop_archive:
  "tar_archive m a i fs \<Longrightarrow> tar_parse_loop m a i hs = Some (i + length fs, hs @ tar_addresses a fs)"
proof (induction fs arbitrary: a i hs)
  case Nil
  then show ?case by (subst tar_parse_loop.simps) simp
next
  case (Cons f fs)
  obtain name ds where f: "f = (name, ds)" by (cases f)
  let ?n = "horner 8 0 ds"
  from Cons.prems f have p: "cstring m a name" "i < length name" "octal_field m (a + 124) ds" "?n < 2 ^ 31"
    "tar_next a ?n < 2 ^ 64" "tar_archive m (tar_next a ?n) (i + 1) fs" by auto
  have "m (a + i) \<noteq> 0" using cstring_nth [OF p(1,2)] by simp
  then have "tar_parse_loop m a i hs = tar_parse_loop m (tar_next a ?n) (i + 1) (hs @ [a])"
    using tar_step [OF p(4,5)] by (subst tar_parse_loop.simps) (simp add: tar_size [OF p(3)] Let_def)
  then show ?case using Cons.IH [OF p(6)] f by simp
qed

section \<open>Boot arguments\<close>

text \<open>
  \<open>buff\<close> is the address of the local array of \<open>tag_len\<close> bytes; its content before the call is
  whatever the stack holds. A write behind the array is \<open>None\<close>. The loop ends with the memory and
  whether it returned early.
\<close>

fun bootarg_loop :: "bytes \<Rightarrow> addr \<Rightarrow> nat \<Rightarrow> addr \<Rightarrow> addr \<Rightarrow> nat \<Rightarrow> nat \<Rightarrow> (bool \<times> bytes) option" where
  "bootarg_loop m buff tag_len tag cmdline buff_i 0 = Some (False, m)"
| "bootarg_loop m buff tag_len tag cmdline buff_i (Suc n) =
     (if m cmdline = 44
      then if strncmp m buff tag buff_i = 0 then Some (True, m)
           else let m = fst (memset m buff 0 tag_len); buff_i = 0; cmdline = cmdline + 1
                in if buff_i < tag_len
                   then bootarg_loop (m(buff + buff_i := m cmdline)) buff tag_len tag (cmdline + 1) (buff_i + 1) n
                   else None
      else if buff_i < tag_len
           then bootarg_loop (m(buff + buff_i := m cmdline)) buff tag_len tag (cmdline + 1) (buff_i + 1) n
           else None)"

definition bootarg_find :: "bytes \<Rightarrow> addr \<Rightarrow> addr \<Rightarrow> addr \<Rightarrow> (bool \<times> bytes) option" where
  "bootarg_find m buff tag cmdline =
     (case strlen m cmdline of
        None \<Rightarrow> None
      | Some len \<Rightarrow>
          if tag = 0 \<or> cmdline = 0 then Some (False, m)
          else case strlen m tag of
                 None \<Rightarrow> None
               | Some tag_len \<Rightarrow>
                   (case bootarg_loop m buff tag_len tag cmdline 0 len of
                      None \<Rightarrow> None
                    | Some (True, m) \<Rightarrow> Some (True, m)
                    | Some (False, m) \<Rightarrow> Some (strncmp m buff tag tag_len = 0, m)))"

definition buffer_free :: "addr \<Rightarrow> nat \<Rightarrow> addr \<Rightarrow> nat \<Rightarrow> bool" where
  "buffer_free buff n s k \<longleftrightarrow> buff + n \<le> s \<or> s + k < buff"

lemma bootarg_loop_word:
  assumes "44 \<notin> set p" "\<forall>k < length p. m (c + k) = p ! k" "c + length p \<le> buff \<or> buff + L \<le> c" "i \<le> L"
  shows "bootarg_loop m buff L tag c i (length p + n) =
    (if i + length p \<le> L
     then bootarg_loop (copied m (buff + i) c (length p)) buff L tag (c + length p) (i + length p) n else None)"
  using assms
proof (induction p arbitrary: m c i)
  case Nil
  then have "copied m (buff + i) c 0 = m" by (auto simp: copied_def fun_eq_iff)
  then show ?case using Nil by simp
next
  case (Cons x p)
  let ?m = "m(buff + i := m c)"
  have x: "m c = x" "x \<noteq> 44" using Cons.prems(1,2) by auto
  show ?case
  proof (cases "i < L")
    case True
    have "\<forall>k < length p. m (c + 1 + k) = p ! k" using Cons.prems(2) by force
    then have "\<forall>k < length p. ?m (c + 1 + k) = p ! k" using Cons.prems(3) True by auto
    then have IH: "bootarg_loop ?m buff L tag (c + 1) (i + 1) (length p + n) =
      (if i + 1 + length p \<le> L
       then bootarg_loop (copied ?m (buff + (i + 1)) (c + 1) (length p)) buff L tag (c + 1 + length p) (i + 1 + length p) n
       else None)"
      using Cons.prems True by (intro Cons.IH) auto
    have "copied ?m (buff + (i + 1)) (c + 1) (length p) = copied m (buff + i) c (length (x # p))"
      if "i + length (x # p) \<le> L"
    proof
      fix a
      show "copied ?m (buff + (i + 1)) (c + 1) (length p) a = copied m (buff + i) c (length (x # p)) a"
        using that Cons.prems(3) by (cases "a = buff + i") (auto simp: copied_def Suc_diff_Suc)
    qed
    then show ?thesis using IH x True by (simp del: fun_upd_apply)
  next
    case False
    then show ?thesis using Cons.prems(4) x by simp
  qed
qed

lemma bootarg_word:
  assumes "cstring m tag xs" "buff \<noteq> 0" "buffer_free buff (length xs) tag (length xs)"
    and "\<forall>k < length p. m (c + k) = p ! k" "length p \<le> length xs" "n \<le> length p"
  shows "strncmp (copied m buff c (length p)) buff tag n = 0 \<longleftrightarrow> take n p = take n xs"
proof -
  let ?m = "copied m buff c (length p)"
  have "?m (buff + k) = p ! k" "?m (tag + k) = xs ! k" if "k < n" for k
    using that assms cstring_nth [OF assms(1), of k] by (auto simp: copied_def buffer_free_def)
  then have "strncmp ?m buff tag n = 0 \<longleftrightarrow> (\<forall>k < n. p ! k = xs ! k)"
    using strncmp_iff [OF assms(2), of ?m tag n] by auto
  also have "\<dots> \<longleftrightarrow> take n p = take n xs"
    using assms(5,6) by (auto simp: list_eq_iff_nth_eq)
  finally show ?thesis .
qed

section \<open>Properties\<close>

text \<open>
  Parsing a tar archive in memory returns the number of files and the addresses of their
  headers, in order, when the name of the \<open>i\<close>-th file is longer than \<open>i\<close>, the sizes are below
  \<open>2 ^ 31\<close> and the byte at index \<open>i\<close> behind the last file is 0.
\<close>

lemma tar_parse_headers_spec:
  assumes "tar_archive m a 0 fs"
  shows "tar_parse_headers m a = Some (length fs, tar_addresses a fs)"
  using tar_parse_loop_archive [OF assms, of "[]"] by (simp add: tar_parse_headers_def)

definition sample_tar :: bytes where
  "sample_tar = poke (poke (\<lambda>_. 0) 1024 [97, 98]) 1148 [48, 48, 48, 48, 48, 48, 48, 48, 49, 48, 53]"

lemma sample_tar_archive: "tar_archive sample_tar 1024 0 [([97, 98], [0, 0, 0, 0, 0, 0, 0, 0, 1, 0, 5])]"
proof -
  have "octal_field sample_tar 1148 [0, 0, 0, 0, 0, 0, 0, 0, 1, 0, 5]"
    by (simp add: octal_field_def sample_tar_def numeral_eq_Suc All_less_Suc)
  then show ?thesis by (simp add: sample_tar_def tar_next_def)
qed

text \<open>
  What \<open>bootarg_find\<close> does with the first argument \<open>p\<close> of the command line. A last argument as
  long as the tag is found exactly if it is the tag. In front of a comma every prefix of the
  tag is taken for the tag, the empty one included. An argument longer than the tag is written
  behind the end of the local buffer.
\<close>

lemma bootarg_find_first:
  assumes "cstring m tag xs" "cstring m cmdline ys" "length xs < 2 ^ 64" "length ys < 2 ^ 64"
    and "tag \<noteq> 0" "cmdline \<noteq> 0" "buff \<noteq> 0"
    and "buffer_free buff (length xs) tag (length xs)" "buffer_free buff (length xs) cmdline (length ys)"
    and "44 \<notin> set p"
  shows "(ys = p \<longrightarrow> length p = length xs \<longrightarrow> map_option fst (bootarg_find m buff tag cmdline) = Some (p = xs)) \<and>
    (ys = p @ 44 # zs \<longrightarrow> take (length p) xs = p \<longrightarrow> map_option fst (bootarg_find m buff tag cmdline) = Some True) \<and>
    (take (length p) ys = p \<longrightarrow> length p > length xs \<longrightarrow> bootarg_find m buff tag cmdline = None)"
proof -
  let ?L = "length xs"
  have find: "bootarg_find m buff tag cmdline =
      (case bootarg_loop m buff ?L tag cmdline 0 (length ys) of None \<Rightarrow> None
       | Some (True, m) \<Rightarrow> Some (True, m) | Some (False, m) \<Rightarrow> Some (strncmp m buff tag ?L = 0, m))"
    using strlen_cstring [OF assms(1,3)] strlen_cstring [OF assms(2,4)] assms(5,6) by (simp add: bootarg_find_def)
  have loop: "bootarg_loop m buff ?L tag cmdline 0 (length ys) =
      (if length p \<le> ?L then bootarg_loop (copied m buff cmdline (length p)) buff ?L tag
         (cmdline + length p) (length p) (length ys - length p) else None)"
    if "take (length p) ys = p"
  proof -
    have le: "length p \<le> length ys" using that by (metis length_take min.bounded_iff order_refl)
    have nth: "\<forall>k < length p. m (cmdline + k) = p ! k"
      using cstring_nth [OF assms(2)] that le by (metis less_le_trans nth_take)
    have "cmdline + length p \<le> buff \<or> buff + ?L \<le> cmdline" using assms(9) le by (auto simp: buffer_free_def)
    then show ?thesis using bootarg_loop_word [OF assms(10) nth, of buff ?L 0 tag "length ys - length p"] le by simp
  qed
  have nth: "\<forall>k < length p. m (cmdline + k) = p ! k" if "take (length p) ys = p"
    using cstring_nth [OF assms(2)] that by (metis length_take min.strict_boundedE nth_take)
  have one: "map_option fst (bootarg_find m buff tag cmdline) = Some (p = xs)" if "ys = p" "length p = ?L"
  proof -
    have "take (length p) ys = p" using that by simp
    then show ?thesis using find loop bootarg_word [OF assms(1,7,8) nth, of ?L] that by simp
  qed
  have two: "map_option fst (bootarg_find m buff tag cmdline) = Some True" if "ys = p @ 44 # zs" "take (length p) xs = p"
  proof -
    have le: "length p \<le> ?L" using that(2) by (metis length_take min.bounded_iff order_refl)
    have t: "take (length p) ys = p" using that(1) by simp
    let ?m = "copied m buff cmdline (length p)"
    have "m (cmdline + length p) = 44" using cstring_nth [OF assms(2), of "length p"] that(1) by simp
    then have "?m (cmdline + length p) = 44" using assms(9) le that(1) by (auto simp: copied_def buffer_free_def)
    moreover have "strncmp ?m buff tag (length p) = 0"
      using bootarg_word [OF assms(1,7,8) nth [OF t] le, of "length p"] that(2) by simp
    ultimately show ?thesis using find loop [OF t] le that(1) by simp
  qed
  have three: "bootarg_find m buff tag cmdline = None" if "take (length p) ys = p" "length p > ?L"
    using find loop [OF that(1)] that(2) by simp
  show ?thesis using one two three by blast
qed

end
