(* ===== verification/Byte_Order.thy ===== *)
theory Byte_Order
  imports "HOL-Library.Word"
begin

unbundle bit_operations_syntax

text \<open>
  The byte order helpers of \<open>src/libs/base/sources/bytes.c\<close> and \<open>bytes.h\<close>, on machine words. The
  intermediate values are signed 32-bit \<open>int\<close>s, so the 64-bit variant sign-extends its result.

  Shown: the 8-bit variant reverses the bits of the byte and the 16-bit variant swaps the two
  bytes, both are their own inverse; the 32-bit variant drops the top byte and the 64-bit variant
  the upper half, so they are not.
\<close>

definition BYTE_EXTRACTION_MASK :: "'a::len word" where
  "BYTE_EXTRACTION_MASK = 255"

fun reverse_char8_loop :: "8 word \<Rightarrow> 8 word \<Rightarrow> nat \<Rightarrow> 8 word" where
  "reverse_char8_loop res byte 0 = res"
| "reverse_char8_loop res byte (Suc n) =
     (let res = push_bit 1 res;
          res = (if byte AND 1 \<noteq> 0 then res XOR 1 else res)
      in reverse_char8_loop res (drop_bit 1 byte) n)"

definition byte_order_reverse_char8 :: "8 word \<Rightarrow> 8 word" where
  "byte_order_reverse_char8 byte = reverse_char8_loop 0 byte 8"

definition byte_order_reverse_short16 :: "16 word \<Rightarrow> 16 word" where
  "byte_order_reverse_short16 byte =
     (let b1 = ucast (drop_bit 8 byte) AND BYTE_EXTRACTION_MASK :: 32 word;
          b2 = ucast byte AND BYTE_EXTRACTION_MASK :: 32 word
      in ucast (push_bit 8 b2 OR b1))"

definition byte_order_reverse_int32 :: "32 word \<Rightarrow> 32 word" where
  "byte_order_reverse_int32 byte =
     (let b1 = drop_bit 16 byte AND BYTE_EXTRACTION_MASK;
          b2 = drop_bit 8 byte AND BYTE_EXTRACTION_MASK;
          b3 = byte AND BYTE_EXTRACTION_MASK
      in push_bit 16 b3 OR push_bit 8 b2 OR b1)"

definition byte_order_reverse_long64 :: "64 word \<Rightarrow> 64 word" where
  "byte_order_reverse_long64 byte =
     (let b1 = ucast (drop_bit 24 byte AND BYTE_EXTRACTION_MASK) :: 32 word;
          b2 = ucast (drop_bit 16 byte AND BYTE_EXTRACTION_MASK) :: 32 word;
          b3 = ucast (drop_bit 8 byte AND BYTE_EXTRACTION_MASK) :: 32 word;
          b4 = ucast (byte AND BYTE_EXTRACTION_MASK) :: 32 word
      in scast (push_bit 24 b4 OR push_bit 16 b3 OR push_bit 8 b2 OR b1))"

definition concat64 :: "32 word \<Rightarrow> 32 word \<Rightarrow> 64 word" where
  "concat64 a b = push_bit 32 (ucast b) OR ucast a"

section \<open>Bits of the results\<close>

lemma bit_byte_mask: "bit (BYTE_EXTRACTION_MASK :: 'a::len word) n \<longleftrightarrow> n < LENGTH('a) \<and> n < 8"
proof -
  have e: "(BYTE_EXTRACTION_MASK :: 'a word) = mask 8" by (simp add: BYTE_EXTRACTION_MASK_def mask_eq_exp_minus_1)
  show ?thesis unfolding e by (auto simp only: bit_mask_iff possible_bit_word)
qed

lemmas byte_bits = bit_and_iff bit_or_iff bit_unsigned_iff bit_signed_iff bit_push_bit_iff bit_drop_bit_eq bit_byte_mask

lemma bit_short16: "n < 16 \<Longrightarrow> bit (byte_order_reverse_short16 w) n = bit w (if n < 8 then n + 8 else n - 8)"
  by (auto simp: byte_order_reverse_short16_def Let_def byte_bits add.commute)

lemma bit_int32:
  "n < 32 \<Longrightarrow> bit (byte_order_reverse_int32 w) n \<longleftrightarrow>
     n < 24 \<and> bit w (if n < 8 then n + 16 else if n < 16 then n else n - 16)"
  by (auto simp: byte_order_reverse_int32_def Let_def byte_bits add.commute)

lemma bit_concat64: "n < 64 \<Longrightarrow> bit (concat64 a b) n = (if n < 32 then bit a n else bit b (n - 32))"
  by (auto simp: concat64_def byte_bits dest: bit_imp_le_length)

text \<open>The bits of the loop's result: those of the accumulator move up, those of the byte come in reversed.\<close>

lemma bit_reverse_loop:
  "k \<le> 8 \<Longrightarrow> n < 8 \<Longrightarrow> bit (reverse_char8_loop res w k) n = (if n < k then bit w (k - Suc n) else bit res (n - k))"
proof (induction k arbitrary: res w)
  case (Suc k)
  define p where "p = push_bit 1 res"
  define r where "r = (if w AND 1 \<noteq> 0 then p XOR 1 else p)"
  have p: "bit p j \<longleftrightarrow> 0 < j \<and> bit res (j - 1)" if "j < 8" for j
    using that unfolding p_def by (simp only: bit_push_bit_iff possible_bit_word) auto
  have r: "bit r j = (if j = 0 then bit w 0 else bit res (j - 1))" if "j < 8" for j
  proof -
    have "w AND 1 \<noteq> 0 \<longleftrightarrow> bit w 0" by (simp add: and_one_eq bit_0 odd_iff_mod_2_eq_one)
    then show ?thesis using that by (auto simp: r_def bit_xor_iff p bit_1_iff)
  qed
  have "bit (reverse_char8_loop r (drop_bit 1 w) k) n =
      (if n < k then bit (drop_bit 1 w) (k - Suc n) else bit r (n - k))" using Suc by simp
  also have "\<dots> = (if n < Suc k then bit w (Suc k - Suc n) else bit res (n - Suc k))"
    using Suc.prems r [of "n - k"] by (auto simp: bit_drop_bit_eq not_less less_Suc_eq Suc_diff_Suc)
  finally show ?case by (simp only: r_def p_def reverse_char8_loop.simps Let_def)
qed simp

lemma bit_reverse_char8: "n < 8 \<Longrightarrow> bit (byte_order_reverse_char8 w) n = bit w (7 - n)"
  using bit_reverse_loop [of 8 n 0 w] by (simp add: byte_order_reverse_char8_def)

section \<open>Properties\<close>

text \<open>
  The 8-bit variant reverses the order of the bits, the 16-bit variant swaps the bytes, and
  both undo themselves; the 32-bit variant clears the top byte, so that reversing twice loses it.
\<close>

lemma byte_order_spec:
  "byte_order_reverse_char8 (byte_order_reverse_char8 b) = b \<and>
   byte_order_reverse_short16 (byte_order_reverse_short16 h) = h \<and>
   byte_order_reverse_short16 h = push_bit 8 h OR drop_bit 8 h \<and>
   byte_order_reverse_int32 (byte_order_reverse_int32 w) = take_bit 24 w"
proof -
  have "byte_order_reverse_char8 (byte_order_reverse_char8 b) = b"
    by (rule bit_word_eqI) (simp add: bit_reverse_char8)
  moreover have "byte_order_reverse_short16 (byte_order_reverse_short16 h) = h"
    by (rule bit_word_eqI) (auto simp: bit_short16)
  moreover have "byte_order_reverse_short16 h = push_bit 8 h OR drop_bit 8 h"
    by (rule bit_word_eqI) (auto simp: bit_short16 bit_or_iff bit_push_bit_iff bit_drop_bit_eq add.commute
        dest: bit_imp_le_length)
  moreover have "byte_order_reverse_int32 (byte_order_reverse_int32 w) = take_bit 24 w"
    by (rule bit_word_eqI) (auto simp: bit_int32 bit_take_bit_iff)
  ultimately show ?thesis by blast
qed

text \<open>
  \<open>concat64\<close> puts its first argument into the low and its second into the high half, and no
  information is lost.
\<close>

lemma concat64_halves: "ucast (concat64 a b) = a \<and> ucast (drop_bit 32 (concat64 a b)) = b"
proof -
  have "ucast (concat64 a b) = a" by (rule bit_word_eqI) (simp add: bit_unsigned_iff bit_concat64)
  moreover have "ucast (drop_bit 32 (concat64 a b)) = b"
    by (rule bit_word_eqI) (simp add: bit_unsigned_iff bit_drop_bit_eq bit_concat64)
  ultimately show ?thesis by blast
qed

end
