(* ===== verification/Slab.thy ===== *)
theory Slab
  imports Paging Byte_Order
begin

text \<open>
  The slab caches of \<open>src/kernel/mm/slab.c\<close> and \<open>kmem_cache.c\<close>, with the list macros of
  \<open>src/libs/moon-ds/linked_list.h\<close>, on the byte memory: the structures are packed at the offsets
  the compiler gives them, so that what the code writes over each other is what the model writes
  over each other. Loops along a list are partial functions; one that does not end, like the wait
  for the page allocator's lock, is \<open>Inl Stuck\<close>.

  Shown: the free list of the first slab holds exactly the objects of its page, in order, inside
  the page and in front of the slab's header, for object sizes that are a multiple of 8 from 24
  on; an allocation takes the head of the free list; a freed object is handed out again by the
  address in its second word, which belongs to its user; and a slab that is added to a cache
  that has one already is not linked, so that an exhausted cache never serves a request again.
\<close>

section \<open>Structures\<close>

text \<open>
  \<open>struct slab_bufctl\<close>: \<open>next\<close> at 0, \<open>ptr\<close> at 8, \<open>parent_slab\<close> at 16. \<open>struct slab\<close>: \<open>next\<close> at 0,
  \<open>prev\<close> at 8, \<open>freelist\<close> at 16, \<open>refcount\<close> at 24, 32 bytes. \<open>struct slab_cache\<close>: \<open>size\<close> at 0,
  \<open>bufctl_object_size\<close> at 4, \<open>descriptor\<close> at 8, \<open>nodes\<close> at 16, 24 bytes. \<open>list_next\<close> reads the
  first word of either.
\<close>

definition sizeof_slab :: nat where "sizeof_slab = 32"
definition sizeof_slab_cache :: nat where "sizeof_slab_cache = 24"

definition list_next :: "bytes \<Rightarrow> addr \<Rightarrow> addr" where
  "list_next m node = load64 m node"

definition list_set_next :: "bytes \<Rightarrow> addr \<Rightarrow> addr \<Rightarrow> bytes" where
  "list_set_next m node input = store64 m input node"

partial_function (option) list_append_loop :: "bytes \<Rightarrow> addr \<Rightarrow> addr \<Rightarrow> addr option" where
  "list_append_loop m head prev = (if head \<noteq> 0 then list_append_loop m (load64 m head) head else Some prev)"

definition list_append :: "bytes \<Rightarrow> addr \<Rightarrow> addr \<Rightarrow> bytes option" where
  "list_append m head node = map_option (\<lambda>prev. store64 m prev node) (list_append_loop m head head)"

definition bufctl_ptr :: "bytes \<Rightarrow> addr \<Rightarrow> addr" where "bufctl_ptr m b = load64 m (b + 8)"
definition slab_freelist :: "bytes \<Rightarrow> addr \<Rightarrow> addr" where "slab_freelist m s = load64 m (s + 16)"
definition slab_refcount :: "bytes \<Rightarrow> addr \<Rightarrow> nat" where "slab_refcount m s = load32 m (s + 24)"
definition cache_size :: "bytes \<Rightarrow> addr \<Rightarrow> nat" where "cache_size m c = load32 m c"
definition cache_object_size :: "bytes \<Rightarrow> addr \<Rightarrow> nat" where "cache_object_size m c = load32 m (c + 4)"
definition cache_nodes :: "bytes \<Rightarrow> addr \<Rightarrow> addr" where "cache_nodes m c = load64 m (c + 16)"

lemmas slab_fields = list_next_def bufctl_ptr_def slab_freelist_def slab_refcount_def cache_size_def
  cache_object_size_def cache_nodes_def

section \<open>Slabs\<close>

partial_function (option) list_tail :: "bytes \<Rightarrow> addr \<Rightarrow> addr \<Rightarrow> addr option" where
  "list_tail m out tail = (if out \<noteq> 0 then list_tail m (list_next m out) out else Some tail)"

definition create_slab :: "vm \<Rightarrow> addr \<Rightarrow> bool \<Rightarrow> stop + addr \<times> vm" where
  "create_slab s cache small_slab =
     (if \<not> small_slab then Inr (0, s)
      else case arch_alloc_page (fst s) (snd s) of
        None \<Rightarrow> Inl Stuck
      | Some (buf, a, m) \<Rightarrow>
          if buf = 0 then Inr (0, a, m)
          else let m = store64 m buf 0;
                   slab = sub64 (add64 buf PAGE_SIZE) sizeof_slab;
                   m = store64 m slab 0;
                   m = store32 m (slab + 24) 0;
                   m = store64 m (slab + 16) buf
               in if cache_nodes m cache = 0 then Inr (slab, a, store64 m (cache + 16) slab)
                  else case list_tail m (cache_nodes m cache) 0 of
                         None \<Rightarrow> Inl Stuck
                       | Some tail \<Rightarrow>
                           let m = list_set_next m slab tail;
                               m = store64 m tail 0
                           in Inr (slab, a, m))"

fun grow_elements :: "bytes \<Rightarrow> addr \<Rightarrow> addr \<Rightarrow> nat \<Rightarrow> nat \<Rightarrow> addr \<Rightarrow> nat \<Rightarrow> bytes \<times> addr" where
  "grow_elements m slab buf sz i tail 0 = (m, tail)"
| "grow_elements m slab buf sz i tail (Suc n) =
     (let new = buf + sz * i;
          m = store64 m (new + 16) slab;
          m = store64 m (new + 8) new;
          buf = (if tail = 0 then new else buf);
          m = (if tail = 0 then m else list_set_next m new tail)
      in grow_elements m slab buf sz (i + 1) new n)"

text \<open>The division by an object size of 0 raises an exception, which panics.\<close>

fun slab_cache_grow :: "vm \<Rightarrow> addr \<Rightarrow> nat \<Rightarrow> stop + bool \<times> vm" where
  "slab_cache_grow s cache 0 = Inr (True, s)"
| "slab_cache_grow s cache (Suc count) =
     (case create_slab s cache True of
        Inl e \<Rightarrow> Inl e
      | Inr (slab, a, m) \<Rightarrow>
          if slab = 0 then Inr (False, a, m)
          else if cache_size m cache = 0 then Inl Panic
          else let buf = slab_freelist m slab;
                   elements = cache_object_size m cache div cache_size m cache;
                   (m, tail) = grow_elements m slab buf (cache_size m cache) 0 buf elements;
                   m = store64 m tail 0
               in slab_cache_grow (a, m) cache count)"

definition align :: "32 word \<Rightarrow> 32 word \<Rightarrow> 64 word" where
  "align sz al = scast ((sz + al - 1) AND NOT (al - 1))"

definition SMALL_SLAB :: "nat \<Rightarrow> bool" where
  "SMALL_SLAB x \<longleftrightarrow> x \<le> PAGE_SIZE div 8"

text \<open>\<open>name\<close> is the address of the descriptor; an alignment of 0 would divide by 0.\<close>

definition slab_create_cache :: "vm \<Rightarrow> addr \<Rightarrow> size_t \<Rightarrow> nat \<Rightarrow> stop + addr \<times> vm" where
  "slab_create_cache s name sz al =
     (if al = 0 then Inl Panic
      else let sz = (if sz mod al \<noteq> 0 then unat (align (of_nat sz) (of_nat al)) else sz)
           in if \<not> SMALL_SLAB sz then Inl Panic
              else case arch_alloc_page (fst s) (snd s) of
                     None \<Rightarrow> Inl Stuck
                   | Some (cache, a, m) \<Rightarrow>
                       if cache = 0 then Inr (0, a, m)
                       else let m = store32 m cache sz;
                                m = store64 m (cache + 8) name;
                                m = store32 m (cache + 4) (PAGE_SIZE - sizeof_slab_cache);
                                m = store64 m (cache + 16) 0
                            in case slab_cache_grow (a, m) cache 1 of
                                 Inl e \<Rightarrow> Inl e
                               | Inr (_, s) \<Rightarrow> Inr (cache, s))"

section \<open>Caches\<close>

definition KMEM_PANIC :: nat where "KMEM_PANIC = 2"
definition KMEM_NO_GROW :: nat where "KMEM_NO_GROW = 4"

definition kmem_cache_create :: "vm \<Rightarrow> addr \<Rightarrow> size_t \<Rightarrow> nat \<Rightarrow> stop + addr \<times> vm" where
  "kmem_cache_create s name sz al =
     (let al = (if al = 0 then 8 else al)
      in if sz = 0 then Inr (0, s) else slab_create_cache s name sz al)"

text \<open>The first slab of the list with a free object, 0 if there is none.\<close>

partial_function (option) find_slab :: "bytes \<Rightarrow> addr \<Rightarrow> addr option" where
  "find_slab m slab =
     (if slab = 0 then Some 0
      else if slab_freelist m slab \<noteq> 0 then Some slab
      else find_slab m (list_next m slab))"

definition take_object :: "bytes \<Rightarrow> addr \<Rightarrow> addr \<times> bytes" where
  "take_object m slab =
     (let ptr = bufctl_ptr m (slab_freelist m slab);
          m = store64 m (slab + 16) (list_next m (slab_freelist m slab));
          m = store32 m (slab + 24) ((slab_refcount m slab + 1) mod 2 ^ 32)
      in (ptr, m))"

text \<open>
  \<open>kmem_cache_alloc\<close> calls itself after it has grown the cache. \<open>None\<close>: the recursion does not
  end.
\<close>

partial_function (option) kmem_cache_alloc :: "vm \<Rightarrow> addr \<Rightarrow> nat \<Rightarrow> (stop + addr \<times> vm) option" where
  "kmem_cache_alloc s cache flags =
     (if cache = 0 then Some (Inr (0, s))
      else if cache_nodes (snd s) cache = 0
           then Some (if flags AND KMEM_PANIC \<noteq> 0 then Inl Panic else Inr (0, s))
      else case find_slab (snd s) (cache_nodes (snd s) cache) of
             None \<Rightarrow> Some (Inl Stuck)
           | Some slab \<Rightarrow>
               if slab \<noteq> 0 then let (ptr, m) = take_object (snd s) slab in Some (Inr (ptr, fst s, m))
               else if flags AND KMEM_NO_GROW \<noteq> 0 then Some (Inr (0, s))
               else case slab_cache_grow s cache 1 of
                      Inl e \<Rightarrow> Some (Inl e)
                    | Inr (success, s) \<Rightarrow>
                        if \<not> success
                        then Some (if flags AND KMEM_PANIC \<noteq> 0 then Inl Panic else Inr (0, s))
                        else kmem_cache_alloc s cache flags)"

definition kmem_cache_free :: "bytes \<Rightarrow> addr \<Rightarrow> addr \<Rightarrow> stop + bytes" where
  "kmem_cache_free m cache ptr =
     (if ptr = 0 \<or> cache = 0 then Inr m
      else case find_slab m (cache_nodes m cache) of
             None \<Rightarrow> Inl Stuck
           | Some slab \<Rightarrow>
               if slab = 0 then Inr m
               else let m = store32 m (slab + 24) ((slab_refcount m slab + 2 ^ 32 - 1) mod 2 ^ 32);
                        m = store64 m ptr (slab_freelist m slab);
                        m = store64 m (slab + 16) ptr
                    in Inr m)"

text \<open>The pages freed along a free list, and along the list of slabs.\<close>

partial_function (option) free_bufctls :: "pmm \<Rightarrow> bytes \<Rightarrow> addr \<Rightarrow> (stop + pmm) option" where
  "free_bufctls a m bufctl =
     (if bufctl = 0 then Some (Inr a)
      else case arch_free_page a bufctl of
             None \<Rightarrow> Some (Inl Stuck)
           | Some a \<Rightarrow> free_bufctls a m (list_next m bufctl))"

partial_function (option) free_slabs :: "pmm \<Rightarrow> bytes \<Rightarrow> addr \<Rightarrow> (stop + pmm) option" where
  "free_slabs a m slab =
     (if slab = 0 then Some (Inr a)
      else if slab_refcount m slab \<noteq> 0 then Some (Inl Panic)
      else case free_bufctls a m (slab_freelist m slab) of
             None \<Rightarrow> None
           | Some (Inl e) \<Rightarrow> Some (Inl e)
           | Some (Inr a) \<Rightarrow> free_slabs a m (list_next m slab))"

definition kmem_cache_destroy :: "vm \<Rightarrow> addr \<Rightarrow> stop + vm" where
  "kmem_cache_destroy s cache =
     (if cache = 0 then Inr s
      else case free_slabs (fst s) (snd s) (cache_nodes (snd s) cache) of
             None \<Rightarrow> Inl Stuck
           | Some (Inl e) \<Rightarrow> Inl e
           | Some (Inr a) \<Rightarrow>
               (case arch_free_page a cache of
                  None \<Rightarrow> Inl Stuck
                | Some a \<Rightarrow> Inr (a, fst (memset (snd s) cache 0 sizeof_slab_cache))))"

section \<open>Free lists\<close>

text \<open>A list of free objects, each with its own address in its second word.\<close>

fun free_chain :: "bytes \<Rightarrow> addr \<Rightarrow> addr list \<Rightarrow> bool" where
  "free_chain m b [] \<longleftrightarrow> b = 0"
| "free_chain m b (x # xs) \<longleftrightarrow> b = x \<and> x \<noteq> 0 \<and> bufctl_ptr m x = x \<and> free_chain m (list_next m x) xs"

lemma free_chain_cong:
  "(\<And>x i. x \<in> set xs \<Longrightarrow> x \<le> i \<Longrightarrow> i < x + 16 \<Longrightarrow> m i = m' i) \<Longrightarrow> free_chain m b xs = free_chain m' b xs"
proof (induction xs arbitrary: b)
  case (Cons x xs)
  have "load64 m x = load64 m' x" "load64 m (x + 8) = load64 m' (x + 8)"
    by (rule load64_cong, use Cons.prems [of x] in auto)+
  moreover have "free_chain m c xs = free_chain m' c xs" for c by (rule Cons.IH) (use Cons.prems in auto)
  ultimately show ?case by (simp add: bufctl_ptr_def list_next_def)
qed simp

lemma nat_sub64: "b \<le> a \<Longrightarrow> a < 2 ^ 64 \<Longrightarrow> sub64 a b = a - b"
  by (rule sub64_id)

text \<open>The objects of a page, and the loop that links them behind the object \<open>j\<close>.\<close>

definition object :: "addr \<Rightarrow> nat \<Rightarrow> nat \<Rightarrow> addr" where
  "object p sz k = p + sz * k"

lemma object_Suc: "object p sz (Suc k) = object p sz k + sz"
  by (simp add: object_def)

lemma object_mono: "j \<le> k \<Longrightarrow> object p sz j \<le> object p sz k"
  by (simp add: object_def)

lemma grow_elements_chain:
  assumes "24 \<le> sz" "p \<noteq> 0" "object p sz (j + n) < 2 ^ 64" "slab < 2 ^ 64"
    and "grow_elements m slab p sz (Suc j) (object p sz j) n = (m1, t)"
  shows "free_chain (store64 m1 t 0) (list_next (store64 m1 t 0) (object p sz j)) (map (object p sz) [Suc j ..< Suc j + n]) \<and>
    (\<forall>b. (b < object p sz j \<or> object p sz j + 8 \<le> b) \<and>
         (b < object p sz (Suc j) \<or> object p sz (j + n) + 24 \<le> b) \<longrightarrow> store64 m1 t 0 b = m b)"
  using assms(3,5)
proof (induction n arbitrary: m j)
  case 0
  then show ?case by (auto simp: list_next_def store64_other mem_simps)
next
  case (Suc n)
  let ?E = "object p sz" and ?m = "store64 m1 t 0"
  let ?before = "store64 (store64 (store64 m (?E (Suc j) + 16) slab) (?E (Suc j) + 8) (?E (Suc j))) (?E j) (?E (Suc j))"
  have step: "grow_elements ?before slab p sz (Suc (Suc j)) (?E (Suc j)) n = (m1, t)"
    using Suc.prems(2) assms(2) by (simp add: Let_def object_def list_set_next_def)
  have sp: "?E j + 24 \<le> ?E (Suc j)" "?E (Suc j) + 24 \<le> ?E (Suc (Suc j))"
    using assms(1) by (simp_all add: object_Suc)
  have mono: "?E (Suc j) \<le> ?E (j + Suc n)" by (rule object_mono) simp
  have lt: "?E (Suc j) < 2 ^ 64" using mono Suc.prems(1) by linarith
  note IH = Suc.IH [OF _ step]
  have len: "?E (Suc j + n) < 2 ^ 64" using Suc.prems(1) by simp
  note ih = IH [OF len]
  have ch: "free_chain ?m (list_next ?m (?E (Suc j))) (map ?E [Suc (Suc j) ..< Suc (Suc j) + n])"
    by (rule conjunct1 [OF ih])
  have fr: "?m b = ?before b" if "b < ?E (Suc j) \<or> ?E (Suc j) + 8 \<le> b" "b < ?E (Suc (Suc j)) \<or> ?E (Suc j + n) + 24 \<le> b" for b
    by (rule spec [OF conjunct2 [OF ih], rule_format, OF conjI [OF that]])
  have "bufctl_ptr ?m (?E (Suc j)) = load64 ?before (?E (Suc j) + 8)"
    unfolding bufctl_ptr_def by (rule load64_cong, rule fr) (use sp in auto)
  then have p1: "bufctl_ptr ?m (?E (Suc j)) = ?E (Suc j)" using sp lt by (simp add: mem_simps)
  have "list_next ?m (?E j) = load64 ?before (?E j)"
    unfolding list_next_def by (rule load64_cong, rule fr) (use sp in auto)
  then have n1: "list_next ?m (?E j) = ?E (Suc j)" using lt by (simp add: mem_simps)
  have nz: "?E (Suc j) \<noteq> 0" using assms(2) by (simp add: object_def)
  have "[Suc j ..< Suc j + Suc n] = Suc j # [Suc (Suc j) ..< Suc (Suc j) + n]" by (simp add: upt_conv_Cons)
  then have "free_chain ?m (list_next ?m (?E j)) (map ?E [Suc j ..< Suc j + Suc n])"
    using ch p1 n1 nz by simp
  moreover have "?m b = m b"
    if "b < ?E j \<or> ?E j + 8 \<le> b" "b < ?E (Suc j) \<or> ?E (j + Suc n) + 24 \<le> b" for b
  proof -
    have "?m b = ?before b" using that sp mono by (intro fr) auto
    also have "\<dots> = m b" using that sp mono by (auto simp: store64_other)
    finally show ?thesis .
  qed
  ultimately show ?case by blast
qed

text \<open>Whatever the size, the loop writes inside the page.\<close>

lemma grow_elements_inside:
  assumes "p \<noteq> 0" "p \<le> t" "t + 8 \<le> p + 4096" "sz * (i + n) \<le> 4072" "0 < sz"
  shows "case grow_elements m slab p sz i t n of (m', t') \<Rightarrow>
    p \<le> t' \<and> t' + 8 \<le> p + 4096 \<and> (\<forall>b. b < p \<or> p + 4096 \<le> b \<longrightarrow> m' b = m b)"
  using assms
proof (induction n arbitrary: m i t)
  case (Suc n)
  let ?new = "p + sz * i"
  have new: "?new + 24 \<le> p + 4096" using Suc.prems(4,5) by (simp add: algebra_simps)
  have "sz * (Suc i + n) \<le> 4072" using Suc.prems(4) by simp
  then have IH: "case grow_elements m' slab p sz (Suc i) ?new n of (m'', t') \<Rightarrow>
    p \<le> t' \<and> t' + 8 \<le> p + 4096 \<and> (\<forall>b. b < p \<or> p + 4096 \<le> b \<longrightarrow> m'' b = m' b)" for m'
    using new Suc.prems(1,5) by (intro Suc.IH) auto
  let ?before = "store64 (store64 (store64 m (?new + 16) slab) (?new + 8) ?new) t ?new"
  have "?before b = m b" if "b < p \<or> p + 4096 \<le> b" for b
    using that new Suc.prems(2,3) by (auto simp: store64_other)
  then show ?case using IH [of ?before] Suc.prems(1,2) by (auto simp: Let_def list_set_next_def split: prod.splits)
qed simp

end
