(* ===== verification/Slab_Correct.thy ===== *)
theory Slab_Correct
  imports Slab Virt_Properties
begin

text \<open>
  Correctness of the slab caches: what the first slab of a cache holds, what an allocation and a
  release do to the free list, and what happens when the first slab has no free object.
\<close>

section \<open>The first slab\<close>

definition objects :: "addr \<Rightarrow> nat \<Rightarrow> addr list" where
  "objects p sz = map (object p sz) [0 ..< 4072 div sz]"

text \<open>4072 is \<open>8 * 509\<close> and 509 is prime, so no multiple of 8 from 24 on fills the area.\<close>

lemma prime_509: "\<forall>k \<in> set [3 ..< 65]. 509 mod k \<noteq> (0::nat)"
  by code_simp

lemma objects_fit:
  fixes sz :: nat
  assumes "8 dvd sz" "24 \<le> sz" "sz \<le> 512"
  shows "4072 div sz * sz \<le> 4064"
proof -
  obtain k where k: "sz = 8 * k" using assms(1) by (rule dvdE)
  then have "k \<in> set [3 ..< 65]" unfolding set_upt atLeastLessThan_iff using assms(2,3) by linarith
  then have "0 < 509 mod k" using prime_509 by blast
  then have "509 div k * k < 509" using div_mult_mod_eq [of 509 k] by linarith
  moreover have "4072 div sz = 509 div k" unfolding k using div_mult_mult1 [of 8 509 k] by simp
  ultimately show ?thesis using k by (simp add: mult.commute)
qed

lemma object_inside:
  assumes "8 dvd sz" "24 \<le> sz" "sz \<le> 512" "x \<in> set (objects p sz)"
  shows "p \<le> x \<and> x + sz \<le> p + 4064"
proof -
  from assms(4) obtain k where k: "k < 4072 div sz" "x = p + sz * k" unfolding objects_def object_def by fastforce
  then have "(k + 1) * sz \<le> 4072 div sz * sz" by (intro mult_le_mono1) simp
  then show ?thesis using objects_fit [OF assms(1-3)] k by (simp add: algebra_simps)
qed

definition slab_header :: "bytes \<Rightarrow> addr \<Rightarrow> bytes" where
  "slab_header m p = store64 (store32 (store64 (store64 m p 0) (p + 4064) 0) (p + 4088) 0) (p + 4080) p"

lemma slab_header_frame: "b < p \<or> p + 4096 \<le> b \<Longrightarrow> slab_header m p b = m b"
  by (auto simp: slab_header_def store64_other store32_other)

lemma slab_header_fields:
  "p < 2 ^ 64 \<Longrightarrow> load64 (slab_header m p) (p + 4064) = 0 \<and> load64 (slab_header m p) (p + 4080) = p \<and>
   load32 (slab_header m p) (p + 4088) = 0"
  by (simp add: slab_header_def mem_simps)

text \<open>The address of the header, without the wrap-around a page at the end of memory would cause.\<close>

lemma slab_address: "p mod 4096 = 0 \<Longrightarrow> p + 4096 \<le> 2 ^ 64 \<Longrightarrow> sub64 (add64 p PAGE_SIZE) sizeof_slab = p + 4064"
proof -
  assume a: "p mod 4096 = 0" "p + 4096 \<le> 2 ^ 64"
  show ?thesis
  proof (cases "p + 4096 < 2 ^ 64")
    case True
    then show ?thesis by (simp add: add64_id sub64_id PAGE_SIZE_def sizeof_slab_def)
  next
    case False
    then have "p = 2 ^ 64 - 4096" using a(2) by simp
    then show ?thesis by (simp add: machine_arith_defs PAGE_SIZE_def sizeof_slab_def)
  qed
qed

lemma create_slab_cases:
  assumes ok: "pmm_ok a" and c: "cache \<in> pmm_frames a"
    and get: "arch_alloc_page a m = Some (p, a', m1)" "p \<noteq> 0"
  shows "create_slab (a, m) cache True =
      (if cache_nodes m cache = 0 then Inr (p + 4064, a', store64 (slab_header m1 p) (cache + 16) (p + 4064))
       else case list_tail (slab_header m1 p) (cache_nodes m cache) 0 of
              None \<Rightarrow> Inl Stuck
            | Some tail \<Rightarrow> Inr (p + 4064, a', store64 (slab_header m1 p) tail 0))"
    and "pmm_ok a'" "p \<in> pmm_frames a'" "cache \<in> pmm_frames a'" "p \<noteq> cache" "cache + 4096 \<le> p \<or> p + 4096 \<le> cache"
    and "p mod 4096 = 0" "p + 4096 \<le> 2 ^ 64" "pmm_frames a \<subseteq> pmm_frames a'"
    and "q \<in> pmm_frames a \<Longrightarrow> q \<le> b \<Longrightarrow> b < q + 4096 \<Longrightarrow> slab_header m1 p b = m b"
proof -
  note g = frames.get_frame [OF ok get]
  show ok': "pmm_ok a'" and pf: "p \<in> pmm_frames a'" and cf: "cache \<in> pmm_frames a'" and ne: "p \<noteq> cache"
    and "pmm_frames a \<subseteq> pmm_frames a'" using g c by auto
  show far: "cache + 4096 \<le> p \<or> p + 4096 \<le> cache" using frames.owned_disjoint [OF ok' cf pf] ne by auto
  show pg: "p mod 4096 = 0" and top: "p + 4096 \<le> 2 ^ 64" using frames.owned_page [OF ok' pf] by auto
  show keep: "slab_header m1 p b = m b" if "q \<in> pmm_frames a" "q \<le> b" "b < q + 4096" for q b
  proof -
    have "q + 4096 \<le> p \<or> p + 4096 \<le> q" using frames.owned_disjoint [OF ok', of q p] pf that(1) g by auto
    then have "slab_header m1 p b = m1 b" using that by (intro slab_header_frame) auto
    then show ?thesis using frames.get_keeps [OF ok get that] by simp
  qed
  have nodes: "cache_nodes (slab_header m1 p) cache = cache_nodes m cache"
    unfolding cache_nodes_def by (rule load64_cong, rule keep [OF c]) auto
  show "create_slab (a, m) cache True =
      (if cache_nodes m cache = 0 then Inr (p + 4064, a', store64 (slab_header m1 p) (cache + 16) (p + 4064))
       else case list_tail (slab_header m1 p) (cache_nodes m cache) 0 of
              None \<Rightarrow> Inl Stuck
            | Some tail \<Rightarrow> Inr (p + 4064, a', store64 (slab_header m1 p) tail 0))"
    using get slab_address [OF pg top] nodes
    by (simp add: create_slab_def Let_def slab_header_def list_set_next_def add.commute [of _ p] cong: option.case_cong)
qed

section \<open>The cache as a stack of objects\<close>

text \<open>A cache whose only slab has the free objects \<open>xs\<close>.\<close>

definition free_objects :: "bytes \<Rightarrow> addr \<Rightarrow> addr \<Rightarrow> addr list \<Rightarrow> bool" where
  "free_objects m cache slab xs \<longleftrightarrow> cache \<noteq> 0 \<and> slab \<noteq> 0 \<and> cache_nodes m cache = slab \<and> list_next m slab = 0 \<and>
     free_chain m (slab_freelist m slab) xs"

text \<open>The objects lie apart from the cache and from the header of the slab.\<close>

definition separate :: "addr \<Rightarrow> addr \<Rightarrow> addr set \<Rightarrow> bool" where
  "separate cache slab X \<longleftrightarrow> (cache + 24 \<le> slab \<or> slab + 32 \<le> cache) \<and>
     (\<forall>x \<in> X. (x + 24 \<le> slab \<or> slab + 32 \<le> x) \<and> (x + 24 \<le> cache \<or> cache + 24 \<le> x))"

lemma grow_first:
  assumes ok: "pmm_ok a" "cache \<in> pmm_frames a" "cache_nodes m cache = 0"
    and sz: "cache_size m cache = sz" "8 dvd sz" "24 \<le> sz" "sz \<le> 512" "cache_object_size m cache = 4072"
    and get: "arch_alloc_page a m = Some (p, a', m1)" "p \<noteq> 0"
  shows "\<exists>m'. slab_cache_grow (a, m) cache 1 = Inr (True, a', m') \<and> free_objects m' cache (p + 4064) (objects p sz) \<and>
    slab_refcount m' (p + 4064) = 0 \<and> separate cache (p + 4064) (set (objects p sz))"
proof -
  note c = create_slab_cases [OF ok(1,2) get] and keep = create_slab_cases(10) [OF ok(1,2) get]
  let ?h = "slab_header m1 p" and ?s = "p + 4064"
  define m2 where "m2 = store64 ?h (cache + 16) ?s"
  have cs: "create_slab (a, m) cache True = Inr (?s, a', m2)" using c(1) ok(3) by (simp add: m2_def)
  have s64: "?s < 2 ^ 64" "p < 2 ^ 64" using c(8) by simp_all
  have hd: "load64 m2 ?s = 0" "load64 m2 (p + 4080) = p" "load32 m2 (p + 4088) = 0" "load64 m2 (cache + 16) = ?s"
    using slab_header_fields [OF s64(2), of m1] c(6) s64 by (auto simp: m2_def mem_simps)
  have "load32 ?h cache = sz" "load32 ?h (cache + 4) = 4072"
    using sz(1,5) load32_cong [of cache ?h m] load32_cong [of "cache + 4" ?h m] keep [OF ok(2)]
    by (simp_all add: cache_size_def cache_object_size_def)
  then have fields: "cache_size m2 cache = sz" "cache_object_size m2 cache = 4072"
    by (simp_all add: m2_def cache_size_def cache_object_size_def mem_simps)
  have "0 < 4072 div sz" using sz(3,4) by (simp add: div_greater_zero_iff)
  then obtain n where n: "4072 div sz = Suc n" by (auto dest: gr0_implies_Suc)
  define m3 where "m3 = store64 (store64 (store64 m2 (p + 16) ?s) (p + 8) p) p p"
  obtain m4 t where m4: "grow_elements m3 ?s p sz (Suc 0) (object p sz 0) n = (m4, t)"
    by (cases "grow_elements m3 ?s p sz (Suc 0) (object p sz 0) n")
  define m5 where "m5 = store64 m4 t 0"
  have run: "slab_cache_grow (a, m) cache 1 = Inr (True, a', m5)"
    using cs c(8) get(2) hd(2) fields sz(3) n m4
    by (simp add: slab_freelist_def Let_def m5_def m3_def object_def list_set_next_def add.commute [of _ p])
  have last: "object p sz n + sz \<le> p + 4064"
    using object_inside [OF sz(2-4), of "object p sz n" p] n by (simp add: objects_def)
  have lt: "object p sz (0 + n) < 2 ^ 64" using last c(8) sz(3) by simp
  note ch = grow_elements_chain [OF sz(3) get(2) lt s64(1) m4, folded m5_def]
  have fr: "m5 b = m3 b" if "b < p \<or> p + 8 \<le> b" "b < p + sz \<or> object p sz n + 24 \<le> b" for b
    using spec [OF conjunct2 [OF ch], of b] that by (auto simp: object_def)
  have outside: "m5 b = m2 b" if "b < p \<or> p + 4064 \<le> b" for b
    using fr [of b] that last sz(3) by (auto simp: m3_def store64_other)
  have "load64 m5 ?s = load64 m2 ?s" "load64 m5 (p + 4080) = load64 m2 (p + 4080)" "load32 m5 (p + 4088) = load32 m2 (p + 4088)"
    by (rule load64_cong load32_cong, simp add: outside)+
  moreover have "load64 m5 (cache + 16) = load64 m2 (cache + 16)"
    using c(6) by (intro load64_cong outside) auto
  moreover have "load64 m5 (p + 8) = load64 m3 (p + 8)" using sz(3) by (intro load64_cong fr) auto
  then have "bufctl_ptr m5 p = p" using s64(2) by (simp add: bufctl_ptr_def m3_def mem_simps)
  moreover have "objects p sz = p # map (object p sz) [Suc 0 ..< Suc 0 + n]"
    unfolding objects_def n using upt_conv_Cons [of 0 "Suc n"] by (simp add: object_def)
  moreover have "free_chain m5 (list_next m5 p) (map (object p sz) [Suc 0 ..< Suc 0 + n])"
    using conjunct1 [OF ch] by (simp add: object_def)
  moreover have "cache \<noteq> 0" using frames.owned_page [OF ok(1,2)] by simp
  ultimately have "free_objects m5 cache ?s (objects p sz)" "slab_refcount m5 ?s = 0"
    using hd get(2) by (simp_all add: free_objects_def slab_fields add.commute [of _ p])
  moreover have "separate cache ?s (set (objects p sz))"
    using c(6) object_inside [OF sz(2-4), of _ p] sz(3) by (fastforce simp: separate_def)
  ultimately show ?thesis using run by blast
qed

lemma find_slab_first: "slab \<noteq> 0 \<Longrightarrow> slab_freelist m slab \<noteq> 0 \<Longrightarrow> find_slab m slab = Some slab"
  by (subst find_slab.simps) simp

lemma find_slab_none:
  "slab \<noteq> 0 \<Longrightarrow> slab_freelist m slab = 0 \<Longrightarrow> list_next m slab = 0 \<Longrightarrow> find_slab m slab = Some 0"
  by (subst find_slab.simps) (simp add: find_slab.simps)

text \<open>Taking an object: the head of the free list.\<close>

lemma alloc_pops:
  assumes "free_objects m cache slab (x # xs)" "separate cache slab (set (x # xs))"
  shows "\<exists>m'. kmem_cache_alloc (a, m) cache flags = Some (Inr (x, a, m')) \<and> free_objects m' cache slab xs \<and>
    slab_refcount m' slab = (slab_refcount m slab + 1) mod 2 ^ 32 \<and>
    (\<forall>b. b < slab + 16 \<or> slab + 28 \<le> b \<longrightarrow> m' b = m b)"
proof -
  define m' where "m' = snd (take_object m slab)"
  have f: "cache \<noteq> 0" "slab \<noteq> 0" "cache_nodes m cache = slab" "list_next m slab = 0" "slab_freelist m slab = x"
    "x \<noteq> 0" "bufctl_ptr m x = x" "free_chain m (list_next m x) xs"
    using assms(1) by (auto simp: free_objects_def)
  have eq: "m' = store32 (store64 m (slab + 16) (list_next m x)) (slab + 24) ((slab_refcount m slab + 1) mod 2 ^ 32)"
    using f(5) by (simp add: m'_def take_object_def Let_def slab_refcount_def mem_simps)
  have fr: "m' b = m b" if "b < slab + 16 \<or> slab + 28 \<le> b" for b
    using that unfolding eq by (auto simp: store64_other store32_other)
  have run: "kmem_cache_alloc (a, m) cache flags = Some (Inr (x, a, m'))"
    using f find_slab_first [of slab m]
    by (subst kmem_cache_alloc.simps) (simp add: m'_def take_object_def Let_def)
  have "load64 m' (cache + 16) = load64 m (cache + 16)" "load64 m' slab = load64 m slab"
    using assms(2) by (auto intro!: load64_cong fr simp: separate_def)
  moreover have "slab_freelist m' slab = list_next m x"
    using load64_less [of m x] by (simp add: eq slab_freelist_def list_next_def mem_simps)
  moreover have "free_chain m' (list_next m x) xs = free_chain m (list_next m x) xs"
    using assms(2) by (intro free_chain_cong fr) (fastforce simp: separate_def)
  ultimately have "free_objects m' cache slab xs"
    using f by (simp add: free_objects_def cache_nodes_def list_next_def)
  moreover have "slab_refcount m' slab = (slab_refcount m slab + 1) mod 2 ^ 32"
    by (simp add: eq slab_refcount_def mem_simps)
  ultimately show ?thesis using run fr by blast
qed

text \<open>Releasing an object: it becomes the head; its second word stays what it is.\<close>

lemma free_pushes:
  assumes "free_objects m cache slab (y # ys)" "separate cache slab (set (x # y # ys))"
    and "x \<noteq> 0" "x < 2 ^ 64" "\<forall>z \<in> set (y # ys). x + 8 \<le> z \<or> z + 16 \<le> x"
  shows "\<exists>m'. kmem_cache_free m cache x = Inr m' \<and> cache_nodes m' cache = slab \<and> list_next m' slab = 0 \<and>
    slab_freelist m' slab = x \<and> bufctl_ptr m' x = bufctl_ptr m x \<and> free_chain m' (list_next m' x) (y # ys)"
proof -
  define m' where "m' = store64 (store64 (store32 m (slab + 24) ((slab_refcount m slab + 2 ^ 32 - 1) mod 2 ^ 32)) x y) (slab + 16) x"
  have f: "cache \<noteq> 0" "slab \<noteq> 0" "cache_nodes m cache = slab" "list_next m slab = 0" "slab_freelist m slab = y"
    "y \<noteq> 0" "free_chain m y (y # ys)"
    using assms(1) by (auto simp: free_objects_def)
  have y64: "y < 2 ^ 64" using f(5) load64_less [of m "slab + 16"] by (simp add: slab_freelist_def)
  have run: "kmem_cache_free m cache x = Inr m'"
    using f assms(3) find_slab_first [of slab m]
    by (simp add: kmem_cache_free_def Let_def m'_def slab_freelist_def mem_simps)
  have fr: "m' b = m b" if "b < slab + 16 \<or> slab + 28 \<le> b" "b < x \<or> x + 8 \<le> b" for b
    using that unfolding m'_def by (auto simp: store64_other store32_other)
  have sx: "x + 24 \<le> slab \<or> slab + 32 \<le> x" "x + 24 \<le> cache \<or> cache + 24 \<le> x"
    using assms(2) by (auto simp: separate_def)
  have "load64 m' (cache + 16) = load64 m (cache + 16)" "load64 m' slab = load64 m slab" "load64 m' (x + 8) = load64 m (x + 8)"
    using assms(2) sx by (auto intro!: load64_cong fr simp: separate_def)
  moreover have "slab_freelist m' slab = x" using assms(4) by (simp add: m'_def slab_freelist_def mem_simps)
  moreover have n: "list_next m' x = y" using sx y64 by (auto simp: m'_def list_next_def mem_simps)
  moreover have "free_chain m' y (y # ys) = free_chain m y (y # ys)"
  proof (rule free_chain_cong)
    fix z i assume z: "z \<in> set (y # ys)" "z \<le> i" "i < z + 16"
    have "z + 24 \<le> slab \<or> slab + 32 \<le> z" using assms(2) z(1) unfolding separate_def by auto
    moreover have "x + 8 \<le> z \<or> z + 16 \<le> x" using assms(5) z(1) by blast
    ultimately show "m' i = m i" using z(2,3) by (intro fr) linarith+
  qed
  ultimately show ?thesis using run f by (simp add: cache_nodes_def list_next_def bufctl_ptr_def)
qed

section \<open>An exhausted cache\<close>

definition exhausted :: "vm \<Rightarrow> addr \<Rightarrow> addr \<Rightarrow> bool" where
  "exhausted s cache q \<longleftrightarrow> pmm_ok (fst s) \<and> cache \<in> pmm_frames (fst s) \<and> q \<in> pmm_frames (fst s) \<and> q \<noteq> cache \<and>
     free_objects (snd s) cache (q + 4064) [] \<and> 0 < cache_size (snd s) cache \<and> cache_object_size (snd s) cache = 4072"

lemma exhausted_fields:
  assumes "exhausted (a, m) cache q" "pmm_ok a'" "cache \<in> pmm_frames a'" "q \<in> pmm_frames a'"
    and "\<And>b. cache \<le> b \<Longrightarrow> b < cache + 4096 \<Longrightarrow> m' b = m b"
    and "load64 m' (q + 4064) = load64 m (q + 4064)" "load64 m' (q + 4080) = load64 m (q + 4080)"
  shows "exhausted (a', m') cache q"
proof -
  have "load64 m' (cache + 16) = load64 m (cache + 16)" "load32 m' cache = load32 m cache"
    "load32 m' (cache + 4) = load32 m (cache + 4)"
    by (auto intro!: load64_cong load32_cong assms(5))
  then show ?thesis using assms by (simp add: exhausted_def free_objects_def slab_fields add.commute [of _ q])
qed

text \<open>Growing an exhausted cache adds a page, but does not link it.\<close>

lemma grow_exhausted:
  assumes ex: "exhausted (a, m) cache q" and run: "slab_cache_grow (a, m) cache 1 = Inr (True, a', m')"
  shows "exhausted (a', m') cache q"
proof -
  let ?s = "q + 4064"
  have ok: "pmm_ok a" "cache \<in> pmm_frames a" "q \<in> pmm_frames a" "q \<noteq> cache" and o: "cache_object_size m cache = 4072" "0 < cache_size m cache"
    and f: "cache_nodes m cache = ?s" "load64 m ?s = 0" "load64 m (q + 4080) = 0"
    using ex by (auto simp: exhausted_def free_objects_def slab_freelist_def list_next_def add.commute [of _ q])
  obtain p a1 m1 where get: "arch_alloc_page a m = Some (p, a1, m1)"
    using frames.get_returns [OF ok(1)] by (metis option.exhaust surj_pair)
  have p0: "p \<noteq> 0"
  proof
    assume "p = 0"
    then have "slab_cache_grow (a, m) cache 1 = Inr (False, a1, m1)" using get by (simp add: create_slab_def)
    then show False using run by simp
  qed
  note c = create_slab_cases [OF ok(1,2) get p0] and keep = create_slab_cases(10) [OF ok(1,2) get p0]
  let ?h = "slab_header m1 p"
  have hs: "load64 ?h ?s = 0" "load64 ?h (q + 4080) = 0"
    using load64_cong [of ?s ?h m] load64_cong [of "q + 4080" ?h m] keep [OF ok(3)] f(2,3) by simp_all
  have qf: "q \<in> pmm_frames a1" using c(9) ok(3) by auto
  have far: "q + 4096 \<le> p \<or> p + 4096 \<le> q"
  proof -
    have "p \<notin> pmm_frames a" using frames.get_frame [OF ok(1) get p0] by simp
    then have "q \<noteq> p" using ok(3) by auto
    then show ?thesis using frames.owned_disjoint [OF c(2) qf c(3)] by auto
  qed
  define m2 where "m2 = store64 ?h ?s 0"
  have "list_tail ?h ?s 0 = Some ?s"
    using hs(1) by (subst list_tail.simps) (simp add: list_next_def list_tail.simps)
  then have cs: "create_slab (a, m) cache True = Inr (p + 4064, a1, m2)" using c(1) f(1) by (simp add: m2_def)
  have "q + 4096 \<le> cache \<or> cache + 4096 \<le> q" using frames.owned_disjoint [OF ok(1) ok(3,2)] ok(4) by auto
  then have cache_keep: "m2 b = m b" if "cache \<le> b" "b < cache + 4096" for b
    using keep [OF ok(2) that] that by (auto simp: m2_def store64_other)
  have m2s: "load64 m2 ?s = 0" "load64 m2 (q + 4080) = 0" using hs by (simp_all add: m2_def mem_simps)
  have fl: "slab_freelist m2 (p + 4064) = p"
    using slab_header_fields [of p m1] c(8) far by (auto simp: slab_freelist_def m2_def mem_simps add.commute [of _ p])
  have size: "cache_size m2 cache = cache_size m cache" "cache_object_size m2 cache = 4072"
    using o load32_cong [of cache m2 m] load32_cong [of "cache + 4" m2 m] cache_keep
    by (simp_all add: cache_size_def cache_object_size_def)
  let ?n = "4072 div cache_size m cache"
  obtain m3 t where m3: "grow_elements m2 (p + 4064) p (cache_size m cache) 0 p ?n = (m3, t)"
    by (cases "grow_elements m2 (p + 4064) p (cache_size m cache) 0 p ?n")
  have "cache_size m cache * (0 + ?n) \<le> 4072" by simp
  then have t: "p \<le> t" "t + 8 \<le> p + 4096" "\<And>b. b < p \<or> p + 4096 \<le> b \<Longrightarrow> m3 b = m2 b"
    using grow_elements_inside [OF p0 _ _ _ o(2), of p 0 ?n m2 "p + 4064"] m3 by auto
  have "a' = a1" "m' = store64 m3 t 0"
    using run cs fl size o(2) m3 by (auto simp: Let_def)
  moreover have fr: "store64 m3 t 0 b = m2 b" if "b < p \<or> p + 4096 \<le> b" for b
    using t that by (auto simp: store64_other)
  have "exhausted (a1, store64 m3 t 0) cache q"
  proof (rule exhausted_fields [OF ex c(2,4) qf])
    show "store64 m3 t 0 b = m b" if "cache \<le> b" "b < cache + 4096" for b
      using fr [of b] cache_keep [OF that] that c(6) by auto
    show "load64 (store64 m3 t 0) ?s = load64 m ?s" "load64 (store64 m3 t 0) (q + 4080) = load64 m (q + 4080)"
      using load64_cong [of ?s "store64 m3 t 0" m2] load64_cong [of "q + 4080" "store64 m3 t 0" m2] fr far m2s f(2,3)
      by auto
  qed
  ultimately show ?thesis by simp
qed

definition refused :: "stop + addr \<times> vm \<Rightarrow> bool" where
  "refused r \<longleftrightarrow> (case r of Inl e \<Rightarrow> True | Inr (p, s) \<Rightarrow> p = 0)"

lemma exhausted_alloc:
  assumes "kmem_cache_alloc s cache flags = Some r"
  shows "exhausted s cache q \<longrightarrow> refused r"
proof (rule kmem_cache_alloc.raw_induct [OF _ assms], rule impI)
  fix alloc s cache flags r
  assume IH: "\<And>s cache flags r. alloc s cache flags = Some r \<Longrightarrow> exhausted s cache q \<longrightarrow> refused r"
    and run: "(if cache = 0 then Some (Inr (0, s))
      else if cache_nodes (snd s) cache = 0
           then Some (if flags AND KMEM_PANIC \<noteq> 0 then Inl Panic else Inr (0, s))
      else case find_slab (snd s) (cache_nodes (snd s) cache) of
             None \<Rightarrow> Some (Inl Stuck)
           | Some slab \<Rightarrow>
               if slab \<noteq> 0 then let (ptr, m) = take_object (snd s) slab in Some (Inr (ptr, fst s, m))
               else if flags AND KMEM_NO_GROW \<noteq> 0 then Some (Inr (0, s))
               else case slab_cache_grow s cache 1 of
                      Inl e \<Rightarrow> Some (Inl e)
                    | Inr (success, s) \<Rightarrow>
                        if \<not> success
                        then Some (if flags AND KMEM_PANIC \<noteq> 0 then Inl Panic else Inr (0, s))
                        else alloc s cache flags) = Some r"
    and ex: "exhausted s cache q"
  obtain a m where s: "s = (a, m)" by (cases s)
  have f: "cache \<noteq> 0" "cache_nodes m cache = q + 4064" "find_slab m (q + 4064) = Some 0"
    using ex find_slab_none [of "q + 4064" m] by (auto simp: s exhausted_def free_objects_def)
  show "refused r"
  proof (cases "slab_cache_grow s cache 1")
    case (Inl e)
    then show ?thesis using run f by (auto simp: s refused_def split: if_splits)
  next
    case (Inr x)
    obtain b a' m' where x: "x = (b, a', m')" by (cases x) auto
    have "exhausted (a', m') cache q" if b using grow_exhausted ex Inr x that s by simp
    then have "alloc (a', m') cache flags = Some r \<Longrightarrow> b \<Longrightarrow> refused r" using IH by blast
    then show ?thesis using run f Inr x by (auto simp: s refused_def split: if_splits)
  qed
qed

section \<open>A concrete cache\<close>

text \<open>
  A page that holds the cache's descriptor, and a cache whose slab has two objects; they need
  not come from a running allocator to satisfy what the first properties ask of the memory.
\<close>

definition sample_cache :: vm where
  "sample_cache = (fst sample_vm, store32 (store32 (snd sample_vm) sample_pml4 32) (sample_pml4 + 4) 4072)"

lemma sample_cache_facts:
  "pmm_ok (fst sample_cache)" "sample_pml4 \<in> pmm_frames (fst sample_cache)"
  "cache_nodes (snd sample_cache) sample_pml4 = 0" "cache_size (snd sample_cache) sample_pml4 = 32"
  "cache_object_size (snd sample_cache) sample_pml4 = 4072"
proof -
  obtain a m where sv: "sample_vm = (a, m)" by (cases sample_vm)
  then have get: "arch_alloc_page page_pmm (\<lambda>_. 1) = Some (sample_pml4, a, m)" "sample_vm = (a, m)"
    using sample_pagemap(1) by (auto simp: arch_create_new_pagemap_def split: option.splits)
  note g = frames.get_frame [OF page_pmm_ok get(1) sample_pagemap(2)]
  have "load64 m (sample_pml4 + 16) = 0"
    using load_bytes_zero [of "sample_pml4 + 16" 8 m] g by (simp add: load64_def)
  then show "pmm_ok (fst sample_cache)" "sample_pml4 \<in> pmm_frames (fst sample_cache)"
    "cache_nodes (snd sample_cache) sample_pml4 = 0" "cache_size (snd sample_cache) sample_pml4 = 32"
    "cache_object_size (snd sample_cache) sample_pml4 = 4072"
    using g unfolding sample_cache_def get(2) by (simp_all add: slab_fields mem_simps)
qed

definition two_objects :: bytes where
  "two_objects = store64 (store64 (store64 (store64 (store64 (\<lambda>_. 0) 4112 12224) 12240 8192) 8192 8256) 8200 8192) 8264 8256"

lemma two_objects_free: "free_objects two_objects 4096 12224 [8192, 8256]" "separate 4096 12224 {8192, 8256, 8320}"
proof -
  have "load64 (\<lambda>_. 0) a = 0" for a using load_bytes_zero [of a 8 "\<lambda>_. 0"] by (simp add: load64_def)
  then show "free_objects two_objects 4096 12224 [8192, 8256]"
    by (simp add: free_objects_def two_objects_def slab_fields mem_simps)
qed (simp add: separate_def)

section \<open>Properties\<close>

text \<open>
  Growing a cache that has no slab yet, with objects of a multiple of 8 bytes from 24 to 512:
  if the page allocator has a frame, the free list of the new slab is the list of all objects of
  the page, in order; every object ends in front of the slab's header and none touches the cache.
\<close>

lemma slab_cache_grow_first:
  assumes "pmm_ok a" "cache \<in> pmm_frames a" "cache_nodes m cache = 0" "cache_size m cache = sz" "8 dvd sz"
    and "24 \<le> sz" "sz \<le> 512" "cache_object_size m cache = 4072"
    and "arch_alloc_page a m = Some (p, a', m1)" "p \<noteq> 0"
  shows "\<exists>m'. slab_cache_grow (a, m) cache 1 = Inr (True, a', m') \<and>
    free_objects m' cache (p + 4064) (objects p sz) \<and> slab_refcount m' (p + 4064) = 0 \<and>
    (\<forall>x \<in> set (objects p sz). p \<le> x \<and> x + sz \<le> p + 4064) \<and> separate cache (p + 4064) (set (objects p sz))"
  using grow_first [OF assms] object_inside [OF assms(5-7)] by blast

text \<open>
  C35: an allocation from a cache with free objects returns the first of them, leaves the others
  free, counts it, and writes nothing but the slab's free list pointer and counter.
\<close>

theorem kmem_cache_alloc_spec:
  assumes "free_objects m cache slab (x # xs)" "separate cache slab (set (x # xs))"
  shows "\<exists>m'. kmem_cache_alloc (a, m) cache flags = Some (Inr (x, a, m')) \<and> free_objects m' cache slab xs \<and>
    slab_refcount m' slab = (slab_refcount m slab + 1) mod 2 ^ 32 \<and> {b. m' b \<noteq> m b} \<subseteq> {slab + 16 ..< slab + 28}"
proof -
  obtain m' where m': "kmem_cache_alloc (a, m) cache flags = Some (Inr (x, a, m'))" "free_objects m' cache slab xs"
    "slab_refcount m' slab = (slab_refcount m slab + 1) mod 2 ^ 32" "\<And>b. b < slab + 16 \<or> slab + 28 \<le> b \<Longrightarrow> m' b = m b"
    using alloc_pops [OF assms, of a flags] by blast
  have "b \<in> {slab + 16 ..< slab + 28}" if "m' b \<noteq> m b" for b
    using m'(4) [of b] that by (cases "b < slab + 16 \<or> slab + 28 \<le> b") auto
  then show ?thesis using m'(1-3) by blast
qed

theorem kmem_cache_alloc_spec_witness:
  "\<exists>m'. kmem_cache_alloc (page_pmm, two_objects) 4096 0 = Some (Inr (8192, page_pmm, m')) \<and> free_objects m' 4096 12224 [8256]"
proof -
  have "separate 4096 12224 (set [8192, 8256])" by (simp add: separate_def)
  then show ?thesis using kmem_cache_alloc_spec [OF two_objects_free(1), of page_pmm 0] by auto
qed



text \<open>
  Once all objects of the first slab are in use, the cache never serves a request again, no
  matter how often it is grown, and releasing an object to it has no effect.
\<close>

lemma kmem_cache_exhausted:
  assumes "exhausted s cache q"
  shows "kmem_cache_alloc s cache flags \<notin> {Some (Inr (p, s')) |p s'. p \<noteq> 0} \<and>
    kmem_cache_free (snd s) cache x = Inr (snd s)"
proof -
  have "kmem_cache_alloc s cache flags \<noteq> Some (Inr (p, s'))" if "p \<noteq> 0" for p s'
    using exhausted_alloc [of s cache flags "Inr (p, s')" q] assms that by (auto simp: refused_def)
  moreover have "find_slab (snd s) (cache_nodes (snd s) cache) = Some 0"
    using assms find_slab_none [of "q + 4064" "snd s"] by (auto simp: exhausted_def free_objects_def)
  ultimately show ?thesis by (auto simp: kmem_cache_free_def)
qed

definition sample_exhausted :: vm where
  "sample_exhausted = (let (p, a, m) = the (arch_alloc_page (fst sample_cache) (snd sample_cache))
     in (a, store64 (snd (a, m)) (sample_pml4 + 16) (p + 4064)))"

lemma sample_exhausted: "\<exists>q. exhausted sample_exhausted sample_pml4 q"
proof -
  note c = sample_cache_facts
  have "fst sample_cache = fst sample_vm" by (simp add: sample_cache_def)
  then obtain p a m where get: "arch_alloc_page (fst sample_cache) (snd sample_cache) = Some (p, a, m)" "p \<noteq> 0"
    using sample_vm_frame [of "snd sample_cache"] by auto
  note g = frames.get_frame [OF c(1) get]
  have pf: "p \<in> pmm_frames a" "sample_pml4 \<in> pmm_frames a" "p \<noteq> sample_pml4" "pmm_ok a" using g c(2) by auto
  then have far: "p + 4096 \<le> sample_pml4 \<or> sample_pml4 + 4096 \<le> p" using frames.owned_disjoint by blast
  have top: "p + 4064 < 2 ^ 64" using frames.owned_page [OF pf(4,1)] by simp
  have z: "load64 m (p + k) = 0" if "k + 8 \<le> 4096" for k
    using load_bytes_zero [of "p + k" 8 m] that g by (simp add: load64_def)
  have "load32 m sample_pml4 = 32" "load32 m (sample_pml4 + 4) = 4072"
    using c(4,5) load32_cong [of sample_pml4 m "snd sample_cache"] load32_cong [of "sample_pml4 + 4" m "snd sample_cache"]
      frames.get_keeps [OF c(1) get c(2)] by (simp_all add: slab_fields)
  then have "exhausted sample_exhausted sample_pml4 p"
    using get pf far top z [of 4064] z [of 4080] sample_pagemap(2)
    by (auto simp: exhausted_def sample_exhausted_def free_objects_def slab_fields mem_simps add.commute [of _ p])
  then show ?thesis ..
qed

end
