(* ===== verification/Vec.thy ===== *)
theory Vec
  imports Mem
begin

text \<open>
  The vectors the kernel keeps its processes, messages and capabilities in: the operations of
  \<open>src/libs/moon-ds/private/cc.h\<close> that it uses, on the byte memory and with the kernel's own
  \<open>memmove\<close>, and vectors of abstract elements that the components above compute with. The
  function that reallocates storage is an argument, as it is in the code.

  Shown: the operations on bytes refine those on elements. Appending works. Erasing an element
  moves nothing, since the elements behind it lie above it and \<open>memmove\<close> only copies upwards: the
  element stays and the last one is lost.
\<close>

section \<open>Operations on bytes\<close>

text \<open>The header is 16 bytes: \<open>size\<close> at 0, \<open>cap\<close> at 8. The elements follow.\<close>

definition cc_vec_size :: "bytes \<Rightarrow> addr \<Rightarrow> nat" where
  "cc_vec_size m cntr = load64 m cntr"

definition cc_vec_cap :: "bytes \<Rightarrow> addr \<Rightarrow> nat" where
  "cc_vec_cap m cntr = load64 m (cntr + 8)"

definition cc_vec_is_placeholder :: "bytes \<Rightarrow> addr \<Rightarrow> bool" where
  "cc_vec_is_placeholder m cntr \<longleftrightarrow> cc_vec_cap m cntr = 0"

definition cc_vec_get :: "addr \<Rightarrow> nat \<Rightarrow> nat \<Rightarrow> addr" where
  "cc_vec_get cntr key el_size = cntr + 16 + el_size * key"

type_synonym realloc = "bytes \<Rightarrow> addr \<Rightarrow> size_t \<Rightarrow> addr \<times> bytes"

text \<open>The result is whether the call succeeded, the handle and the memory.\<close>

definition cc_vec_reserve :: "realloc \<Rightarrow> bytes \<Rightarrow> addr \<Rightarrow> nat \<Rightarrow> nat \<Rightarrow> bool \<times> addr \<times> bytes" where
  "cc_vec_reserve reall m cntr n el_size =
     (if cc_vec_cap m cntr \<ge> n then (True, cntr, m)
      else let is_placeholder = cc_vec_is_placeholder m cntr;
               (new_cntr, m) = reall m (if is_placeholder then 0 else cntr) (add64 16 (mul64 el_size n))
           in if new_cntr = 0 then (False, cntr, m)
              else let m = (if is_placeholder then store64 m new_cntr 0 else m)
                   in (True, new_cntr, store64 m (new_cntr + 8) n))"

text \<open>The doubling of the capacity; it would not end if it wrapped around to 0.\<close>

partial_function (option) double_cap :: "nat \<Rightarrow> nat \<Rightarrow> nat option" where
  "double_cap cap need = (if cap < need then double_cap (mul64 cap 2) need else Some cap)"

text \<open>\<open>None\<close>: the call does not return. A result without a pointer has address 0.\<close>

definition cc_vec_insert_n ::
  "realloc \<Rightarrow> bytes \<Rightarrow> addr \<Rightarrow> nat \<Rightarrow> addr \<Rightarrow> nat \<Rightarrow> nat \<Rightarrow> (addr \<times> addr \<times> bytes) option" where
  "cc_vec_insert_n reall m cntr index els n el_size =
     (if n = 0 then Some (cntr, 0, m)
      else let room = (if add64 (cc_vec_size m cntr) n > cc_vec_cap m cntr
                       then case double_cap (if cc_vec_cap m cntr = 0 then 2 else cc_vec_cap m cntr)
                                   (add64 (cc_vec_size m cntr) n) of
                              None \<Rightarrow> None
                            | Some cap \<Rightarrow> Some (cc_vec_reserve reall m cntr cap el_size)
                       else Some (True, cntr, m))
           in case room of
                None \<Rightarrow> None
              | Some (ok, cntr, m) \<Rightarrow>
                  if \<not> ok then Some (cntr, 0, m)
                  else let new_els = cntr + 16 + el_size * index
                       in case memmove m (new_els + n * el_size) new_els (el_size * (cc_vec_size m cntr - index)) of
                            None \<Rightarrow> None
                          | Some (m, _) \<Rightarrow>
                              let m = memcpy m new_els els (el_size * n);
                                  m = store64 m cntr (add64 (cc_vec_size m cntr) n)
                              in Some (cntr, new_els, m))"

definition cc_vec_push_n :: "realloc \<Rightarrow> bytes \<Rightarrow> addr \<Rightarrow> addr \<Rightarrow> nat \<Rightarrow> nat \<Rightarrow> (addr \<times> addr \<times> bytes) option" where
  "cc_vec_push_n reall m cntr els n el_size =
     cc_vec_insert_n reall m cntr (cc_vec_size m cntr) els n el_size"

definition cc_vec_push :: "realloc \<Rightarrow> bytes \<Rightarrow> addr \<Rightarrow> addr \<Rightarrow> nat \<Rightarrow> (addr \<times> addr \<times> bytes) option" where
  "cc_vec_push reall m cntr el el_size = cc_vec_push_n reall m cntr el 1 el_size"

text \<open>The elements of the kernel's vectors have no destructor. The result is the pointer and the memory.\<close>

definition cc_vec_erase_n :: "bytes \<Rightarrow> addr \<Rightarrow> nat \<Rightarrow> nat \<Rightarrow> nat \<Rightarrow> (addr \<times> bytes) option" where
  "cc_vec_erase_n m cntr index n el_size =
     (if n = 0 then Some (cntr + 16 + el_size * index, m)
      else case memmove m (cntr + 16 + el_size * index) (cntr + 16 + el_size * (index + n))
                  ((cc_vec_size m cntr - n - index) * el_size) of
             None \<Rightarrow> None
           | Some (m, _) \<Rightarrow>
               Some (cntr + 16 + el_size * index, store64 m cntr (sub64 (cc_vec_size m cntr) n)))"

definition cc_vec_erase :: "bytes \<Rightarrow> addr \<Rightarrow> nat \<Rightarrow> nat \<Rightarrow> (addr \<times> bytes) option" where
  "cc_vec_erase m cntr key el_size = cc_vec_erase_n m cntr key 1 el_size"

section \<open>Operations on elements\<close>

text \<open>
  \<open>slots\<close> are the elements in storage, initialised so far; the first \<open>vec_size\<close> of them are the
  vector. The move of elements is the one of \<open>memmove\<close>.
\<close>

record 'a vec =
  slots :: "'a list"
  vec_size :: nat

definition vec_init :: "'a vec" where
  "vec_init = \<lparr>slots = [], vec_size = 0\<rparr>"

definition vec_get :: "'a vec \<Rightarrow> nat \<Rightarrow> 'a option" where
  "vec_get v i = (if i < length (slots v) then Some (slots v ! i) else None)"

definition vec_set :: "'a vec \<Rightarrow> nat \<Rightarrow> 'a \<Rightarrow> 'a vec" where
  "vec_set v i x = v\<lparr>slots := (slots v)[i := x]\<rparr>"

text \<open>\<open>room\<close> is whether the storage can be enlarged; without room the vector stays as it is.\<close>

definition vec_push :: "bool \<Rightarrow> 'a vec \<Rightarrow> 'a \<Rightarrow> 'a vec" where
  "vec_push room v x =
     (if room then \<lparr>slots = take (vec_size v) (slots v) @ [x] @ drop (vec_size v + 1) (slots v),
                    vec_size = vec_size v + 1\<rparr>
      else v)"

fun move_up :: "'a list \<Rightarrow> nat \<Rightarrow> nat \<Rightarrow> nat \<Rightarrow> 'a list" where
  "move_up xs dst src 0 = xs"
| "move_up xs dst src (Suc n) = move_up (xs[dst := xs ! src]) (dst + 1) (src + 1) n"

definition move_slots :: "'a list \<Rightarrow> nat \<Rightarrow> nat \<Rightarrow> nat \<Rightarrow> 'a list" where
  "move_slots xs dst src n = (if src < dst then move_up xs dst src n else xs)"

text \<open>The result is the element at the returned pointer, as it is afterwards, and the vector.\<close>

definition vec_erase :: "'a vec \<Rightarrow> nat \<Rightarrow> 'a option \<times> 'a vec" where
  "vec_erase v i =
     (let xs = move_slots (slots v) i (i + 1) (vec_size v - 1 - i);
          v = \<lparr>slots = xs, vec_size = vec_size v - 1\<rparr>
      in (vec_get v i, v))"

definition vec_list :: "'a vec \<Rightarrow> 'a list" where
  "vec_list v = take (vec_size v) (slots v)"

definition vec_ok :: "'a vec \<Rightarrow> bool" where
  "vec_ok v \<longleftrightarrow> vec_size v \<le> length (slots v)"

lemma vec_init_ok [simp]: "vec_ok vec_init" "vec_list vec_init = []" "vec_size vec_init = 0"
  by (simp_all add: vec_ok_def vec_list_def vec_init_def)

lemma vec_list_length [simp]: "vec_ok v \<Longrightarrow> length (vec_list v) = vec_size v"
  by (simp add: vec_ok_def vec_list_def)

lemma vec_push_list: "vec_ok v \<Longrightarrow> vec_list (vec_push room v x) = (if room then vec_list v @ [x] else vec_list v)"
  by (simp add: vec_ok_def vec_list_def vec_push_def)

lemma vec_push_ok [simp]: "vec_ok v \<Longrightarrow> vec_ok (vec_push room v x)"
  by (simp add: vec_ok_def vec_push_def)

lemma vec_set_ok [simp]: "vec_ok (vec_set v i x) = vec_ok v" "vec_size (vec_set v i x) = vec_size v"
  by (simp_all add: vec_ok_def vec_set_def)

lemma vec_set_list: "vec_list (vec_set v i x) = (vec_list v)[i := x]"
  by (simp add: vec_list_def vec_set_def take_update_swap)

lemma vec_get_list: "vec_ok v \<Longrightarrow> i < vec_size v \<Longrightarrow> vec_get v i = Some (vec_list v ! i)"
  by (simp add: vec_ok_def vec_get_def vec_list_def)

text \<open>Erasing an element drops the last one.\<close>

lemma vec_erase_eq: "vec_erase v i = (vec_get v i, v\<lparr>vec_size := vec_size v - 1\<rparr>)"
  by (cases v) (simp add: vec_erase_def move_slots_def vec_get_def Let_def)

lemma vec_erase_list: "vec_ok v \<Longrightarrow> vec_list (snd (vec_erase v i)) = butlast (vec_list v)"
  by (simp add: vec_erase_eq vec_list_def vec_ok_def butlast_take)

lemma vec_erase_ok [simp]: "vec_ok v \<Longrightarrow> vec_ok (snd (vec_erase v i))"
  by (simp add: vec_erase_eq vec_ok_def)

section \<open>Refinement\<close>

definition block :: "bytes \<Rightarrow> addr \<Rightarrow> nat \<Rightarrow> byte list" where
  "block m a n = map (\<lambda>k. m (a + k)) [0 ..< n]"

lemma block_cong: "(\<And>k. k < n \<Longrightarrow> m (a + k) = m' (b + k)) \<Longrightarrow> block m a n = block m' b n"
  by (simp add: block_def)

lemma block_length [simp]: "length (block m a n) = n"
  by (simp add: block_def)

text \<open>The bytes at \<open>c\<close> hold the vector \<open>v\<close>, whose elements are \<open>el\<close> bytes long.\<close>

definition vec_repr :: "('a \<Rightarrow> byte list) \<Rightarrow> nat \<Rightarrow> bytes \<Rightarrow> addr \<Rightarrow> 'a vec \<Rightarrow> bool" where
  "vec_repr enc el m c v \<longleftrightarrow> vec_ok v \<and> cc_vec_size m c = vec_size v \<and> length (slots v) \<le> cc_vec_cap m c \<and>
     (\<forall>i < length (slots v). block m (cc_vec_get c i el) el = enc (slots v ! i))"

lemma header_apart: "16 \<le> k \<Longrightarrow> store64 m c x (c + k) = m (c + k)"
  by (rule store64_other) simp

lemma slot_apart: "block (store64 m c x) (cc_vec_get c i el) n = block m (cc_vec_get c i el) n"
  using header_apart [of _ m c x] by (intro block_cong) (simp add: cc_vec_get_def add.assoc)

lemma erase_bytes:
  assumes "0 < el" "(cc_vec_size m c - 1 - i) * el < 2 ^ 31"
  shows "cc_vec_erase m c i el = Some (cc_vec_get c i el, store64 m c (sub64 (cc_vec_size m c) 1))"
proof -
  let ?n = "(cc_vec_size m c - 1 - i) * el"
  have "memmove m (c + 16 + el * i) (c + 16 + el * (i + 1)) ?n = Some (m, c + 16 + el * i)"
    using assms by (simp add: memmove_def int_counter_ok_def memmove_down.simps)
  then show ?thesis by (simp add: cc_vec_erase_def cc_vec_erase_n_def cc_vec_get_def)
qed

lemma erase_refines:
  assumes r: "vec_repr enc el m c v" and "0 < el" "0 < vec_size v" "(vec_size v - 1 - i) * el < 2 ^ 31"
  shows "\<exists>m'. cc_vec_erase m c i el = Some (cc_vec_get c i el, m') \<and> vec_repr enc el m' c (snd (vec_erase v i))"
proof -
  have sz: "cc_vec_size m c = vec_size v" using r by (simp add: vec_repr_def)
  have lt: "vec_size v < 2 ^ 64" using load64_less [of m c] sz by (simp add: cc_vec_size_def)
  then have "sub64 (vec_size v) 1 = vec_size v - 1" using assms(3) by (simp add: sub64_id)
  then have "vec_repr enc el (store64 m c (sub64 (vec_size v) 1)) c (snd (vec_erase v i))"
    using r lt assms(3)
    by (auto simp: vec_repr_def vec_erase_eq vec_ok_def slot_apart cc_vec_size_def cc_vec_cap_def mem_simps)
  then show ?thesis using erase_bytes [of el m c i] assms(2,4) sz by simp
qed

lemma vec_push_slot:
  assumes "vec_ok v" "j < length (slots (vec_push True v x))"
  shows "slots (vec_push True v x) ! j = (if j = vec_size v then x else slots v ! j)"
proof (cases "vec_size v < length (slots v)")
  case True
  then have "slots (vec_push True v x) = (slots v)[vec_size v := x]"
    by (simp add: vec_push_def upd_conv_take_nth_drop)
  then show ?thesis using assms(2) by (auto simp: nth_list_update)
next
  case False
  then show ?thesis using assms by (auto simp: vec_push_def vec_ok_def nth_append)
qed

text \<open>Appending in the storage there is: the bytes of the element go into the next slot.\<close>

lemma append_bytes:
  assumes r: "vec_repr enc el m c v" and cap: "vec_size v < cc_vec_cap m c"
    and e: "block m e el = enc x" "e + el \<le> c \<or> c + 16 + el * cc_vec_cap m c \<le> e"
  shows "vec_repr enc el (store64 (memcpy m (cc_vec_get c (vec_size v) el) e el) c (add64 (cc_vec_size m c) 1)) c
    (vec_push True v x)"
proof -
  let ?g = "\<lambda>i. cc_vec_get c i el"
  let ?m = "memcpy m (?g (vec_size v)) e el"
  have ok: "vec_ok v" "cc_vec_size m c = vec_size v" "length (slots v) \<le> cc_vec_cap m c"
    and sl: "\<And>i. i < length (slots v) \<Longrightarrow> block m (?g i) el = enc (slots v ! i)"
    using r by (auto simp: vec_repr_def)
  have "(vec_size v + 1) * el \<le> cc_vec_cap m c * el" using cap by (intro mult_le_mono1) simp
  then have "?g (vec_size v) + el \<le> c + 16 + el * cc_vec_cap m c" by (simp add: cc_vec_get_def algebra_simps)
  then have cp: "?m = copied m (?g (vec_size v)) e el"
    using e(2) by (intro memcpy_copied) (auto simp: cc_vec_get_def)
  have hdr: "load64 ?m c = load64 m c" "load64 ?m (c + 8) = load64 m (c + 8)"
    unfolding cp by (rule load64_cong, simp add: copied_def cc_vec_get_def)+
  have new: "block ?m (?g (vec_size v)) el = enc x" unfolding e(1) [symmetric] cp by (rule block_cong) (simp add: copied_def)
  have old: "block ?m (?g i) el = block m (?g i) el" if "i \<noteq> vec_size v" for i
  proof (rule block_cong)
    fix k assume k: "k < el"
    have "(i + 1) * el \<le> vec_size v * el \<or> (vec_size v + 1) * el \<le> i * el"
      using mult_le_mono1 [of "i + 1" "vec_size v" el] mult_le_mono1 [of "vec_size v + 1" i el] that by linarith
    then have "?g i + k < ?g (vec_size v) \<or> ?g (vec_size v) + el \<le> ?g i + k"
      using k by (auto simp: cc_vec_get_def algebra_simps)
    then show "?m (?g i + k) = m (?g i + k)" unfolding cp by (auto simp: copied_def)
  qed
  have lt: "vec_size v < 2 ^ 64 - 1" using cap load64_less [of m "c + 8"] by (simp add: cc_vec_cap_def)
  have len: "length (slots (vec_push True v x)) = max (length (slots v)) (vec_size v + 1)"
    using ok(1) by (auto simp: vec_push_def vec_ok_def max_def)
  have "block (store64 ?m c y) (?g j) el = enc (slots (vec_push True v x) ! j)"
    if "j < length (slots (vec_push True v x))" for j y
    using that len vec_push_slot [OF ok(1) that] new old [of j] sl [of j] ok(1)
    by (auto simp: slot_apart vec_ok_def max_def split: if_splits)
  moreover have "load64 (store64 ?m c (add64 (cc_vec_size m c) 1)) c = vec_size v + 1"
    using ok(2) lt by (simp add: add64_id mem_simps)
  moreover have "load64 (store64 ?m c (add64 (cc_vec_size m c) 1)) (c + 8) = cc_vec_cap m c"
    using hdr(2) by (simp add: mem_simps cc_vec_cap_def)
  ultimately show ?thesis using ok cap len vec_push_ok [OF ok(1), of True x]
    by (simp add: vec_repr_def cc_vec_size_def cc_vec_cap_def vec_push_def)
qed

lemma push_refines:
  assumes r: "vec_repr enc el m c v" and cap: "vec_size v < cc_vec_cap m c" and el: "0 < el"
    and e: "block m e el = enc x" "e + el \<le> c \<or> c + 16 + el * cc_vec_cap m c \<le> e"
  shows "\<exists>m'. cc_vec_push reall m c e el = Some (c, cc_vec_get c (vec_size v) el, m') \<and>
    vec_repr enc el m' c (vec_push True v x)"
proof -
  let ?g = "cc_vec_get c (vec_size v) el"
  have sz: "cc_vec_size m c = vec_size v" using r by (simp add: vec_repr_def)
  have lt: "vec_size v < 2 ^ 64 - 1" using cap load64_less [of m "c + 8"] by (simp add: cc_vec_cap_def)
  then have "\<not> add64 (cc_vec_size m c) 1 > cc_vec_cap m c" using sz cap by (simp add: add64_id)
  moreover have "memmove m (?g + 1 * el) ?g (el * (cc_vec_size m c - vec_size v)) = Some (m, ?g + 1 * el)"
    using sz el by (simp add: memmove_def int_counter_ok_def memmove_up.simps)
  moreover have "cc_vec_size (memcpy m ?g e el) c = cc_vec_size m c"
  proof -
    have "(vec_size v + 1) * el \<le> cc_vec_cap m c * el" using cap by (intro mult_le_mono1) simp
    then have "memcpy m ?g e el = copied m ?g e el"
      using e(2) by (intro memcpy_copied) (auto simp: cc_vec_get_def algebra_simps)
    then show ?thesis unfolding cc_vec_size_def
      by (simp only:) (rule load64_cong, simp add: copied_def cc_vec_get_def)
  qed
  ultimately have "cc_vec_push reall m c e el = Some (c, ?g, store64 (memcpy m ?g e el) c (add64 (cc_vec_size m c) 1))"
    using sz by (simp add: cc_vec_push_def cc_vec_push_n_def cc_vec_insert_n_def cc_vec_get_def Let_def)
  then show ?thesis using append_bytes [OF r cap e] by simp
qed

section \<open>Properties\<close>

text \<open>A vector of two single bytes with room for a third.\<close>

definition sample_vec :: bytes where
  "sample_vec = (store64 (store64 (\<lambda>_. 0) 1000 2) 1008 4)(1016 := 7, 1017 := 9, 2000 := 5)"

lemma sample_vec_repr:
  "vec_repr (\<lambda>x. [x]) 1 sample_vec 1000 \<lparr>slots = [7, 9], vec_size = 2\<rparr>" "cc_vec_cap sample_vec 1000 = 4"
proof -
  have "load64 sample_vec 1000 = load64 (store64 (store64 (\<lambda>_. 0) 1000 2) 1008 4) 1000"
    "load64 sample_vec 1008 = load64 (store64 (store64 (\<lambda>_. 0) 1000 2) 1008 4) 1008"
    by (rule load64_cong, simp add: sample_vec_def)+
  then have h: "load64 sample_vec 1000 = 2" "load64 sample_vec 1008 = 4" by (simp_all add: mem_simps)
  then show "cc_vec_cap sample_vec 1000 = 4" by (simp add: cc_vec_cap_def)
  have "block sample_vec 1016 1 = [7]" "block sample_vec 1017 1 = [9]"
    by (simp_all add: block_def sample_vec_def)
  then show "vec_repr (\<lambda>x. [x]) 1 sample_vec 1000 \<lparr>slots = [7, 9], vec_size = 2\<rparr>"
    using h by (auto simp: vec_repr_def vec_ok_def cc_vec_size_def cc_vec_cap_def cc_vec_get_def less_Suc_eq numeral_2_eq_2)
qed



text \<open>
  Erasing the element \<open>i\<close> of a vector leaves all elements where they are and shortens the
  vector by its last element; the returned pointer, meant for the element behind the erased one,
  points to the erased element.
\<close>

lemma cc_vec_erase_drops_last:
  assumes "vec_repr enc el m c v" "0 < el" "i < vec_size v" "vec_size v * el < 2 ^ 31"
  shows "\<exists>m' v'. cc_vec_erase m c i el = Some (cc_vec_get c i el, m') \<and> vec_repr enc el m' c v' \<and>
    vec_list v' = butlast (vec_list v) \<and> block m' (cc_vec_get c i el) el = enc (vec_list v ! i)"
proof -
  have ok: "vec_ok v" using assms(1) by (simp add: vec_repr_def)
  have "(vec_size v - 1 - i) * el \<le> vec_size v * el" by (intro mult_le_mono1) simp
  then have "(vec_size v - 1 - i) * el < 2 ^ 31" using assms(4) by (rule le_less_trans)
  then obtain m' where m': "cc_vec_erase m c i el = Some (cc_vec_get c i el, m')"
    "vec_repr enc el m' c (snd (vec_erase v i))"
    using erase_refines [OF assms(1,2), of i] assms(3) by auto
  moreover have "i < length (slots v)" using ok assms(3) by (simp add: vec_ok_def)
  then have "block m' (cc_vec_get c i el) el = enc (vec_list v ! i)"
    using m'(2) assms(3) by (simp add: vec_repr_def vec_erase_eq vec_list_def)
  ultimately show ?thesis using vec_erase_list [OF ok, of i] by blast
qed

end
