(* ===== verification/Tlsf.thy ===== *)
theory Tlsf
  imports Mem "HOL-Library.Monad_Syntax"
begin

text \<open>
  The two-level segregated fit allocator of \<open>src/kernel/mm/tlsf.c\<close>, the heap behind \<open>alloc\<close>. The
  control structure and the block headers lie in the byte memory, at their offsets; a pointer
  to a block is its address. Indices and sizes are \<open>nat\<close> with the wrap-around written out, and
  \<open>fl\<close> and \<open>sl\<close> results are pairs. \<open>None\<close> is an assertion that fails (the processor is halted),
  an index outside an array of the control structure, or a list that does not end.
\<close>

definition insist :: "bool \<Rightarrow> unit option" where
  "insist c = (if c then Some () else None)"

section \<open>Bit scans\<close>

text \<open>\<open>__builtin_ffs\<close>: one more than the index of the lowest set bit, 0 for 0.\<close>

fun builtin_ffs :: "nat \<Rightarrow> nat" where
  "builtin_ffs w = (if w = 0 then 0 else if odd w then 1 else Suc (builtin_ffs (w div 2)))"

declare builtin_ffs.simps [simp del]

definition tlsf_ffs :: "nat \<Rightarrow> int" where
  "tlsf_ffs word = int (builtin_ffs word) - 1"

text \<open>\<open>__builtin_clz\<close> of a word that is not 0 is 32 less the number of its bits.\<close>

definition tlsf_fls :: "nat \<Rightarrow> int" where
  "tlsf_fls word = (if word \<noteq> 0 then 32 - int (32 - bitlength word) else 0) - 1"

definition tlsf_fls_sizet :: "size_t \<Rightarrow> int" where
  "tlsf_fls_sizet sz =
     (let high = u32 (shr sz 32)
      in if high \<noteq> 0 then 32 + tlsf_fls high else tlsf_fls (u32 sz AND 0xffffffff))"

section \<open>Constants\<close>

definition SL_INDEX_COUNT_LOG2 :: nat where "SL_INDEX_COUNT_LOG2 = 5"
definition ALIGN_SIZE_LOG2 :: nat where "ALIGN_SIZE_LOG2 = 3"
definition ALIGN_SIZE :: nat where "ALIGN_SIZE = 2 ^ ALIGN_SIZE_LOG2"
definition FL_INDEX_MAX :: nat where "FL_INDEX_MAX = 32"
definition SL_INDEX_COUNT :: nat where "SL_INDEX_COUNT = 2 ^ SL_INDEX_COUNT_LOG2"
definition FL_INDEX_SHIFT :: nat where "FL_INDEX_SHIFT = SL_INDEX_COUNT_LOG2 + ALIGN_SIZE_LOG2"
definition FL_INDEX_COUNT :: nat where "FL_INDEX_COUNT = FL_INDEX_MAX - FL_INDEX_SHIFT + 1"
definition SMALL_BLOCK_SIZE :: nat where "SMALL_BLOCK_SIZE = 2 ^ FL_INDEX_SHIFT"

lemmas tlsf_constants = SL_INDEX_COUNT_LOG2_def ALIGN_SIZE_LOG2_def ALIGN_SIZE_def FL_INDEX_MAX_def SL_INDEX_COUNT_def
  FL_INDEX_SHIFT_def FL_INDEX_COUNT_def SMALL_BLOCK_SIZE_def

definition block_header_free_bit :: nat where "block_header_free_bit = 1"
definition block_header_prev_free_bit :: nat where "block_header_prev_free_bit = 2"
definition sizeof_block_header :: nat where "sizeof_block_header = 32"
definition block_header_overhead :: nat where "block_header_overhead = 8"
definition block_start_offset :: nat where "block_start_offset = 16"
definition block_size_min :: nat where "block_size_min = sizeof_block_header - 8"
definition block_size_max :: nat where "block_size_max = 2 ^ FL_INDEX_MAX"

lemmas block_constants = block_header_free_bit_def block_header_prev_free_bit_def sizeof_block_header_def
  block_header_overhead_def block_start_offset_def block_size_min_def block_size_max_def

section \<open>Fields\<close>

text \<open>
  \<open>block_header_t\<close>: \<open>prev_phys_block\<close> at 0, \<open>size\<close> at 8, \<open>next_free\<close> at 16, \<open>prev_free\<close> at 24.
  \<open>control_t\<close>: \<open>block_null\<close> at 0, \<open>fl_bitmap\<close> at 32, \<open>sl_bitmap\<close> at 36, \<open>blocks\<close> at 136.
\<close>

definition prev_phys_block :: "bytes \<Rightarrow> addr \<Rightarrow> addr" where "prev_phys_block m b = load64 m b"
definition size_field :: "bytes \<Rightarrow> addr \<Rightarrow> nat" where "size_field m b = load64 m (b + 8)"
definition next_free :: "bytes \<Rightarrow> addr \<Rightarrow> addr" where "next_free m b = load64 m (b + 16)"
definition prev_free :: "bytes \<Rightarrow> addr \<Rightarrow> addr" where "prev_free m b = load64 m (b + 24)"

definition set_prev_phys_block :: "bytes \<Rightarrow> addr \<Rightarrow> addr \<Rightarrow> bytes" where "set_prev_phys_block m b v = store64 m b v"
definition set_size_field :: "bytes \<Rightarrow> addr \<Rightarrow> nat \<Rightarrow> bytes" where "set_size_field m b v = store64 m (b + 8) v"
definition set_next_free :: "bytes \<Rightarrow> addr \<Rightarrow> addr \<Rightarrow> bytes" where "set_next_free m b v = store64 m (b + 16) v"
definition set_prev_free :: "bytes \<Rightarrow> addr \<Rightarrow> addr \<Rightarrow> bytes" where "set_prev_free m b v = store64 m (b + 24) v"

definition fl_bitmap :: "bytes \<Rightarrow> addr \<Rightarrow> nat" where "fl_bitmap m c = load32 m (c + 32)"
definition sl_bitmap :: "bytes \<Rightarrow> addr \<Rightarrow> nat \<Rightarrow> nat" where "sl_bitmap m c fl = load32 m (c + 36 + 4 * fl)"
definition list_head :: "bytes \<Rightarrow> addr \<Rightarrow> nat \<Rightarrow> nat \<Rightarrow> addr" where
  "list_head m c fl sl = load64 m (c + 136 + 8 * (SL_INDEX_COUNT * fl + sl))"

definition set_fl_bitmap :: "bytes \<Rightarrow> addr \<Rightarrow> nat \<Rightarrow> bytes" where "set_fl_bitmap m c v = store32 m (c + 32) v"
definition set_sl_bitmap :: "bytes \<Rightarrow> addr \<Rightarrow> nat \<Rightarrow> nat \<Rightarrow> bytes" where
  "set_sl_bitmap m c fl v = store32 m (c + 36 + 4 * fl) v"
definition set_list_head :: "bytes \<Rightarrow> addr \<Rightarrow> nat \<Rightarrow> nat \<Rightarrow> addr \<Rightarrow> bytes" where
  "set_list_head m c fl sl v = store64 m (c + 136 + 8 * (SL_INDEX_COUNT * fl + sl)) v"

section \<open>Blocks\<close>

definition block_size :: "bytes \<Rightarrow> addr \<Rightarrow> size_t" where
  "block_size m b = and_not (size_field m b) (block_header_free_bit OR block_header_prev_free_bit)"

definition block_set_size :: "bytes \<Rightarrow> addr \<Rightarrow> size_t \<Rightarrow> bytes" where
  "block_set_size m b sz =
     set_size_field m b (sz OR (size_field m b AND (block_header_free_bit OR block_header_prev_free_bit)))"

definition block_is_last :: "bytes \<Rightarrow> addr \<Rightarrow> bool" where
  "block_is_last m b = (block_size m b = 0)"

definition block_is_free :: "bytes \<Rightarrow> addr \<Rightarrow> bool" where
  "block_is_free m b = (size_field m b AND block_header_free_bit \<noteq> 0)"

definition block_set_free :: "bytes \<Rightarrow> addr \<Rightarrow> bytes" where
  "block_set_free m b = set_size_field m b (size_field m b OR block_header_free_bit)"

definition block_set_used :: "bytes \<Rightarrow> addr \<Rightarrow> bytes" where
  "block_set_used m b = set_size_field m b (and_not (size_field m b) block_header_free_bit)"

definition block_is_prev_free :: "bytes \<Rightarrow> addr \<Rightarrow> bool" where
  "block_is_prev_free m b = (size_field m b AND block_header_prev_free_bit \<noteq> 0)"

definition block_set_prev_free :: "bytes \<Rightarrow> addr \<Rightarrow> bytes" where
  "block_set_prev_free m b = set_size_field m b (size_field m b OR block_header_prev_free_bit)"

definition block_set_prev_used :: "bytes \<Rightarrow> addr \<Rightarrow> bytes" where
  "block_set_prev_used m b = set_size_field m b (and_not (size_field m b) block_header_prev_free_bit)"

definition block_from_ptr :: "addr \<Rightarrow> addr" where
  "block_from_ptr ptr = sub64 ptr block_start_offset"

definition block_to_ptr :: "addr \<Rightarrow> addr" where
  "block_to_ptr b = add64 b block_start_offset"

definition offset_to_block :: "addr \<Rightarrow> size_t \<Rightarrow> addr" where
  "offset_to_block ptr sz = add64 ptr sz"

definition block_prev :: "bytes \<Rightarrow> addr \<Rightarrow> addr option" where
  "block_prev m b = do { insist (block_is_prev_free m b); Some (prev_phys_block m b) }"

definition block_next :: "bytes \<Rightarrow> addr \<Rightarrow> addr option" where
  "block_next m b =
     do { let next = offset_to_block (block_to_ptr b) (sub64 (block_size m b) block_header_overhead);
          insist (\<not> block_is_last m b);
          Some next }"

definition block_link_next :: "bytes \<Rightarrow> addr \<Rightarrow> (addr \<times> bytes) option" where
  "block_link_next m b = do { next \<leftarrow> block_next m b; Some (next, set_prev_phys_block m next b) }"

definition block_mark_as_free :: "bytes \<Rightarrow> addr \<Rightarrow> bytes option" where
  "block_mark_as_free m b =
     do { (next, m) \<leftarrow> block_link_next m b;
          let m = block_set_prev_free m next;
          Some (block_set_free m b) }"

definition block_mark_as_used :: "bytes \<Rightarrow> addr \<Rightarrow> bytes option" where
  "block_mark_as_used m b =
     do { next \<leftarrow> block_next m b;
          let m = block_set_prev_used m next;
          Some (block_set_used m b) }"

definition align_up :: "size_t \<Rightarrow> size_t \<Rightarrow> size_t option" where
  "align_up x align =
     do { insist (align AND sub64 align 1 = 0);
          Some (and_not (add64 x (sub64 align 1)) (sub64 align 1)) }"

definition align_down :: "size_t \<Rightarrow> size_t \<Rightarrow> size_t option" where
  "align_down x align =
     do { insist (align AND sub64 align 1 = 0);
          Some (sub64 x (x AND sub64 align 1)) }"

definition align_ptr :: "addr \<Rightarrow> size_t \<Rightarrow> addr option" where
  "align_ptr ptr align =
     do { let aligned = and_not (add64 ptr (sub64 align 1)) (sub64 align 1);
          insist (align AND sub64 align 1 = 0);
          Some aligned }"

definition adjust_request_size :: "size_t \<Rightarrow> size_t \<Rightarrow> size_t option" where
  "adjust_request_size sz align =
     (if sz \<noteq> 0
      then do { aligned \<leftarrow> align_up sz align;
                Some (if aligned < block_size_max then max aligned block_size_min else 0) }
      else Some 0)"

section \<open>Indices\<close>

definition mapping_insert :: "size_t \<Rightarrow> nat \<times> nat" where
  "mapping_insert sz =
     (if sz < SMALL_BLOCK_SIZE then (0, sz div (SMALL_BLOCK_SIZE div SL_INDEX_COUNT))
      else let fl = nat (tlsf_fls_sizet sz);
               sl = shr sz (fl - SL_INDEX_COUNT_LOG2) XOR 2 ^ SL_INDEX_COUNT_LOG2
           in (fl - (FL_INDEX_SHIFT - 1), sl))"

definition mapping_search :: "size_t \<Rightarrow> nat \<times> nat" where
  "mapping_search sz =
     (if sz \<ge> SMALL_BLOCK_SIZE
      then let round = 2 ^ (nat (tlsf_fls_sizet sz) - SL_INDEX_COUNT_LOG2) - 1
           in mapping_insert (add64 sz round)
      else mapping_insert sz)"

text \<open>\<open>~0U << sl\<close> of 32 bits.\<close>

definition ones_from :: "nat \<Rightarrow> nat" where
  "ones_from sl = u32 ((2 ^ 32 - 1) * 2 ^ sl)"

text \<open>The block found and its indices; address 0 when there is none.\<close>

definition search_suitable_block :: "bytes \<Rightarrow> addr \<Rightarrow> nat \<Rightarrow> nat \<Rightarrow> (addr \<times> nat \<times> nat) option" where
  "search_suitable_block m c fl sl =
     (let sl_map = sl_bitmap m c fl AND ones_from sl
      in if sl_map = 0 then
           let fl_map = fl_bitmap m c AND ones_from (fl + 1)
           in if fl_map = 0 then Some (0, fl, sl)
              else let fl = nat (tlsf_ffs fl_map)
                   in do { insist (fl < FL_INDEX_COUNT);
                           let sl_map = sl_bitmap m c fl;
                           insist (sl_map \<noteq> 0);
                           let sl = nat (tlsf_ffs sl_map);
                           Some (list_head m c fl sl, fl, sl) }
         else let sl = nat (tlsf_ffs sl_map) in Some (list_head m c fl sl, fl, sl))"

section \<open>Free lists\<close>

definition clear_head :: "bytes \<Rightarrow> addr \<Rightarrow> nat \<Rightarrow> nat \<Rightarrow> bytes" where
  "clear_head m c fl sl =
     (let m = set_sl_bitmap m c fl (and_not (sl_bitmap m c fl) (2 ^ sl))
      in if sl_bitmap m c fl = 0 then set_fl_bitmap m c (and_not (fl_bitmap m c) (2 ^ fl)) else m)"

definition remove_free_block :: "bytes \<Rightarrow> addr \<Rightarrow> addr \<Rightarrow> nat \<Rightarrow> nat \<Rightarrow> bytes option" where
  "remove_free_block m c b fl sl =
     do { insist (fl < FL_INDEX_COUNT);
          let prev = prev_free m b;
          let next = next_free m b;
          insist (prev \<noteq> 0);
          insist (next \<noteq> 0);
          let m = set_prev_free m next prev;
          let m = set_next_free m prev next;
          Some (if list_head m c fl sl = b
                then let m = set_list_head m c fl sl next
                     in if next = c then clear_head m c fl sl else m
                else m) }"

definition insert_free_block :: "bytes \<Rightarrow> addr \<Rightarrow> addr \<Rightarrow> nat \<Rightarrow> nat \<Rightarrow> bytes option" where
  "insert_free_block m c b fl sl =
     do { insist (fl < FL_INDEX_COUNT);
          let current = list_head m c fl sl;
          insist (current \<noteq> 0);
          insist (b \<noteq> 0);
          let m = set_next_free m b current;
          let m = set_prev_free m b c;
          let m = set_prev_free m current b;
          aligned \<leftarrow> align_ptr (block_to_ptr b) ALIGN_SIZE;
          insist (block_to_ptr b = aligned);
          let m = set_list_head m c fl sl b;
          let m = set_fl_bitmap m c (fl_bitmap m c OR 2 ^ fl);
          Some (set_sl_bitmap m c fl (sl_bitmap m c fl OR 2 ^ sl)) }"

definition block_remove :: "bytes \<Rightarrow> addr \<Rightarrow> addr \<Rightarrow> bytes option" where
  "block_remove m c b = (case mapping_insert (block_size m b) of (fl, sl) \<Rightarrow> remove_free_block m c b fl sl)"

definition block_insert :: "bytes \<Rightarrow> addr \<Rightarrow> addr \<Rightarrow> bytes option" where
  "block_insert m c b = (case mapping_insert (block_size m b) of (fl, sl) \<Rightarrow> insert_free_block m c b fl sl)"

section \<open>Splitting and merging\<close>

definition block_can_split :: "bytes \<Rightarrow> addr \<Rightarrow> size_t \<Rightarrow> bool" where
  "block_can_split m b sz = (block_size m b \<ge> add64 sizeof_block_header sz)"

definition block_split :: "bytes \<Rightarrow> addr \<Rightarrow> size_t \<Rightarrow> (addr \<times> bytes) option" where
  "block_split m b sz =
     do { let remaining = offset_to_block (block_to_ptr b) (sub64 sz block_header_overhead);
          let remain_size = sub64 (block_size m b) (add64 sz block_header_overhead);
          aligned \<leftarrow> align_ptr (block_to_ptr remaining) ALIGN_SIZE;
          insist (block_to_ptr remaining = aligned);
          insist (block_size m b = add64 (add64 remain_size sz) block_header_overhead);
          let m = block_set_size m remaining remain_size;
          insist (block_size m remaining \<ge> block_size_min);
          let m = block_set_size m b sz;
          m \<leftarrow> block_mark_as_free m remaining;
          Some (remaining, m) }"

definition block_absorb :: "bytes \<Rightarrow> addr \<Rightarrow> addr \<Rightarrow> (addr \<times> bytes) option" where
  "block_absorb m prev b =
     do { insist (\<not> block_is_last m prev);
          let m = set_size_field m prev (add64 (size_field m prev) (add64 (block_size m b) block_header_overhead));
          (next, m) \<leftarrow> block_link_next m prev;
          Some (prev, m) }"

definition block_merge_prev :: "bytes \<Rightarrow> addr \<Rightarrow> addr \<Rightarrow> (addr \<times> bytes) option" where
  "block_merge_prev m c b =
     (if block_is_prev_free m b
      then do { prev \<leftarrow> block_prev m b;
                insist (prev \<noteq> 0);
                insist (block_is_free m prev);
                m \<leftarrow> block_remove m c prev;
                block_absorb m prev b }
      else Some (b, m))"

definition block_merge_next :: "bytes \<Rightarrow> addr \<Rightarrow> addr \<Rightarrow> (addr \<times> bytes) option" where
  "block_merge_next m c b =
     do { next \<leftarrow> block_next m b;
          insist (next \<noteq> 0);
          if block_is_free m next
          then do { insist (\<not> block_is_last m b);
                    m \<leftarrow> block_remove m c next;
                    block_absorb m b next }
          else Some (b, m) }"

definition block_trim_free :: "bytes \<Rightarrow> addr \<Rightarrow> addr \<Rightarrow> size_t \<Rightarrow> bytes option" where
  "block_trim_free m c b sz =
     do { insist (block_is_free m b);
          if block_can_split m b sz
          then do { (remaining_block, m) \<leftarrow> block_split m b sz;
                    (next, m) \<leftarrow> block_link_next m b;
                    let m = block_set_prev_free m remaining_block;
                    block_insert m c remaining_block }
          else Some m }"

definition block_trim_used :: "bytes \<Rightarrow> addr \<Rightarrow> addr \<Rightarrow> size_t \<Rightarrow> bytes option" where
  "block_trim_used m c b sz =
     do { insist (\<not> block_is_free m b);
          if block_can_split m b sz
          then do { (remaining_block, m) \<leftarrow> block_split m b sz;
                    let m = block_set_prev_used m remaining_block;
                    (remaining_block, m) \<leftarrow> block_merge_next m c remaining_block;
                    block_insert m c remaining_block }
          else Some m }"

definition block_trim_free_leading :: "bytes \<Rightarrow> addr \<Rightarrow> addr \<Rightarrow> size_t \<Rightarrow> (addr \<times> bytes) option" where
  "block_trim_free_leading m c b sz =
     (if block_can_split m b sz
      then do { (remaining_block, m) \<leftarrow> block_split m b (sub64 sz block_header_overhead);
                let m = block_set_prev_free m remaining_block;
                (next, m) \<leftarrow> block_link_next m b;
                m \<leftarrow> block_insert m c b;
                Some (remaining_block, m) }
      else Some (b, m))"

definition block_locate_free :: "bytes \<Rightarrow> addr \<Rightarrow> size_t \<Rightarrow> (addr \<times> bytes) option" where
  "block_locate_free m c sz =
     do { (block, fl, sl) \<leftarrow>
            (if sz \<noteq> 0
             then case mapping_search sz of (fl, sl) \<Rightarrow>
                    if fl < FL_INDEX_COUNT then search_suitable_block m c fl sl else Some (0, fl, sl)
             else Some (0, 0, 0));
          if block \<noteq> 0
          then do { insist (block_size m block \<ge> sz);
                    m \<leftarrow> remove_free_block m c block fl sl;
                    Some (block, m) }
          else Some (block, m) }"

definition block_prepare_used :: "bytes \<Rightarrow> addr \<Rightarrow> addr \<Rightarrow> size_t \<Rightarrow> (addr \<times> bytes) option" where
  "block_prepare_used m c b sz =
     (if b \<noteq> 0
      then do { insist (sz \<noteq> 0);
                m \<leftarrow> block_trim_free m c b sz;
                m \<leftarrow> block_mark_as_used m b;
                Some (block_to_ptr b, m) }
      else Some (0, m))"

section \<open>The control structure\<close>

fun construct_row :: "bytes \<Rightarrow> addr \<Rightarrow> nat \<Rightarrow> nat \<Rightarrow> bytes" where
  "construct_row m c i 0 = m"
| "construct_row m c i (Suc j) = set_list_head (construct_row m c i j) c i j c"

fun construct_rows :: "bytes \<Rightarrow> addr \<Rightarrow> nat \<Rightarrow> bytes" where
  "construct_rows m c 0 = m"
| "construct_rows m c (Suc i) = construct_row (set_sl_bitmap (construct_rows m c i) c i 0) c i SL_INDEX_COUNT"

definition control_construct :: "bytes \<Rightarrow> addr \<Rightarrow> bytes" where
  "control_construct m c =
     (let m = set_next_free m c c; m = set_prev_free m c c; m = set_fl_bitmap m c 0
      in construct_rows m c FL_INDEX_COUNT)"

definition tlsf_size :: size_t where "tlsf_size = 136 + 8 * (FL_INDEX_COUNT * SL_INDEX_COUNT)"
definition tlsf_align_size :: size_t where "tlsf_align_size = ALIGN_SIZE"
definition tlsf_block_size_min :: size_t where "tlsf_block_size_min = block_size_min"
definition tlsf_block_size_max :: size_t where "tlsf_block_size_max = block_size_max"
definition tlsf_pool_overhead :: size_t where "tlsf_pool_overhead = 2 * block_header_overhead"
definition tlsf_alloc_overhead :: size_t where "tlsf_alloc_overhead = block_header_overhead"

definition tlsf_block_size :: "bytes \<Rightarrow> addr \<Rightarrow> size_t" where
  "tlsf_block_size m ptr = (if ptr \<noteq> 0 then block_size m (block_from_ptr ptr) else 0)"

definition tlsf_add_pool :: "bytes \<Rightarrow> addr \<Rightarrow> addr \<Rightarrow> size_t \<Rightarrow> (addr \<times> bytes) option" where
  "tlsf_add_pool m c mem bytes =
     do { pool_bytes \<leftarrow> align_down (sub64 bytes tlsf_pool_overhead) ALIGN_SIZE;
          if mem mod ALIGN_SIZE \<noteq> 0 then Some (0, m)
          else if pool_bytes < block_size_min \<or> pool_bytes > block_size_max then Some (0, m)
          else do { let block = offset_to_block mem (sub64 0 block_header_overhead);
                    let m = block_set_size m block pool_bytes;
                    let m = block_set_free m block;
                    let m = block_set_prev_used m block;
                    m \<leftarrow> block_insert m c block;
                    (next, m) \<leftarrow> block_link_next m block;
                    let m = block_set_size m next 0;
                    let m = block_set_used m next;
                    let m = block_set_prev_free m next;
                    Some (mem, m) } }"

definition tlsf_remove_pool :: "bytes \<Rightarrow> addr \<Rightarrow> addr \<Rightarrow> bytes option" where
  "tlsf_remove_pool m c pool =
     do { let block = offset_to_block pool (sub64 0 block_header_overhead);
          insist (block_is_free m block);
          next \<leftarrow> block_next m block;
          insist (\<not> block_is_free m next);
          insist (block_size m next = 0);
          (case mapping_insert (block_size m block) of (fl, sl) \<Rightarrow> remove_free_block m c block fl sl) }"

definition tlsf_create :: "bytes \<Rightarrow> addr \<Rightarrow> addr \<times> bytes" where
  "tlsf_create m mem = (if mem mod ALIGN_SIZE \<noteq> 0 then (0, m) else (mem, control_construct m mem))"

definition tlsf_create_with_pool :: "bytes \<Rightarrow> addr \<Rightarrow> size_t \<Rightarrow> (addr \<times> bytes) option" where
  "tlsf_create_with_pool m mem bytes =
     do { let (tlsf, m) = tlsf_create m mem;
          (pool, m) \<leftarrow> tlsf_add_pool m tlsf (add64 mem tlsf_size) (sub64 bytes tlsf_size);
          Some (tlsf, m) }"

definition tlsf_get_pool :: "addr \<Rightarrow> addr" where
  "tlsf_get_pool tlsf = add64 tlsf tlsf_size"

section \<open>Allocation\<close>

definition tlsf_malloc :: "bytes \<Rightarrow> addr \<Rightarrow> size_t \<Rightarrow> (addr \<times> bytes) option" where
  "tlsf_malloc m tlsf sz =
     do { adjust \<leftarrow> adjust_request_size sz ALIGN_SIZE;
          (block, m) \<leftarrow> block_locate_free m tlsf adjust;
          block_prepare_used m tlsf block adjust }"

text \<open>The gap in front of an aligned address in a block, and the aligned address.\<close>

definition memalign_gap :: "addr \<Rightarrow> size_t \<Rightarrow> size_t option" where
  "memalign_gap ptr align =
     do { let gap_minimum = sizeof_block_header;
          aligned \<leftarrow> align_ptr ptr align;
          let gap = sub64 aligned ptr;
          if gap \<noteq> 0 \<and> gap < gap_minimum
          then do { let gap_remain = sub64 gap_minimum gap;
                    let offset = max gap_remain align;
                    let next_aligned = add64 aligned offset;
                    aligned \<leftarrow> align_ptr next_aligned align;
                    Some (sub64 aligned ptr) }
          else Some gap }"

definition tlsf_memalign :: "bytes \<Rightarrow> addr \<Rightarrow> size_t \<Rightarrow> size_t \<Rightarrow> (addr \<times> bytes) option" where
  "tlsf_memalign m tlsf align sz =
     do { adjust \<leftarrow> adjust_request_size sz ALIGN_SIZE;
          let gap_minimum = sizeof_block_header;
          size_with_gap \<leftarrow> adjust_request_size (add64 (add64 adjust align) gap_minimum) align;
          let aligned_size = (if adjust \<noteq> 0 \<and> align > ALIGN_SIZE then size_with_gap else adjust);
          (block, m) \<leftarrow> block_locate_free m tlsf aligned_size;
          insist (sizeof_block_header = block_size_min + block_header_overhead);
          (block, m) \<leftarrow>
            (if block \<noteq> 0
             then do { gap \<leftarrow> memalign_gap (block_to_ptr block) align;
                       if gap \<noteq> 0
                       then do { insist (gap \<ge> gap_minimum); block_trim_free_leading m tlsf block gap }
                       else Some (block, m) }
             else Some (block, m));
          block_prepare_used m tlsf block adjust }"

definition tlsf_free :: "bytes \<Rightarrow> addr \<Rightarrow> addr \<Rightarrow> bytes option" where
  "tlsf_free m tlsf ptr =
     (if ptr \<noteq> 0
      then do { let block = block_from_ptr ptr;
                insist (\<not> block_is_free m block);
                m \<leftarrow> block_mark_as_free m block;
                (block, m) \<leftarrow> block_merge_prev m tlsf block;
                (block, m) \<leftarrow> block_merge_next m tlsf block;
                block_insert m tlsf block }
      else Some m)"

definition tlsf_realloc :: "bytes \<Rightarrow> addr \<Rightarrow> addr \<Rightarrow> size_t \<Rightarrow> (addr \<times> bytes) option" where
  "tlsf_realloc m tlsf ptr sz =
     (if ptr \<noteq> 0 \<and> sz = 0 then do { m \<leftarrow> tlsf_free m tlsf ptr; Some (0, m) }
      else if ptr = 0 then tlsf_malloc m tlsf sz
      else do { let block = block_from_ptr ptr;
                next \<leftarrow> block_next m block;
                let cursize = block_size m block;
                let combined = add64 (add64 cursize (block_size m next)) block_header_overhead;
                adjust \<leftarrow> adjust_request_size sz ALIGN_SIZE;
                insist (\<not> block_is_free m block);
                if adjust > cursize \<and> (\<not> block_is_free m next \<or> adjust > combined)
                then do { (p, m) \<leftarrow> tlsf_malloc m tlsf sz;
                          if p \<noteq> 0
                          then do { let minsize = min cursize sz;
                                    let m = memcpy m p ptr minsize;
                                    m \<leftarrow> tlsf_free m tlsf ptr;
                                    Some (p, m) }
                          else Some (p, m) }
                else do { m \<leftarrow>
                            (if adjust > cursize
                             then do { (b, m) \<leftarrow> block_merge_next m tlsf block; block_mark_as_used m block }
                             else Some m);
                          m \<leftarrow> block_trim_used m tlsf block adjust;
                          Some (ptr, m) } })"

end
