(* ===== verification/Tlsf_Index.thy ===== *)
theory Tlsf_Index
  imports Tlsf
begin

text \<open>
  The indices of the free lists. Both are the quotient and the rest of one number, the rank of a
  size, which grows with the size; the search for a size finds lists whose blocks are all large
  enough, and misses only blocks that are less than one thirty-second larger.
\<close>

section \<open>Bit scans\<close>

lemma bitlength_32: "w < 2 ^ 32 \<Longrightarrow> bitlength w \<le> 32"
  by (simp only: bitlength_le_iff)

lemma tlsf_fls_eq: "w < 2 ^ 32 \<Longrightarrow> tlsf_fls w = int (bitlength w) - 1"
  using bitlength_32 [of w] by (simp add: tlsf_fls_def)

lemma tlsf_fls_sizet_eq:
  assumes "n < 2 ^ 64"
  shows "tlsf_fls_sizet n = int (bitlength n) - 1"
proof (cases "2 ^ 32 \<le> n")
  case True
  then have h: "bitlength (n div 2 ^ 32) + 32 = bitlength n" by (rule bitlength_div_two_power)
  have "n div 2 ^ 32 < 2 ^ 32" using assms by (intro less_mult_imp_div_less) simp
  moreover have "n div 2 ^ 32 \<noteq> 0" using True by (simp add: div_eq_0_iff)
  ultimately show ?thesis using h by (simp add: tlsf_fls_sizet_def shr_def u32_def tlsf_fls_eq Let_def)
next
  case False
  then have "n div 2 ^ 32 = 0" by simp
  moreover have "n AND 0xffffffff = n" using False take_bit_eq_mask [of 32 n] by (simp add: mask_eq_exp_minus_1 take_bit_eq_mod)
  ultimately show ?thesis using False by (simp add: tlsf_fls_sizet_def shr_def u32_def tlsf_fls_eq Let_def)
qed

lemma builtin_ffs_spec:
  "w \<noteq> 0 \<Longrightarrow> \<exists>i. builtin_ffs w = Suc i \<and> bit w i \<and> (\<forall>j < i. \<not> bit w j)"
proof (induction w rule: builtin_ffs.induct)
  case (1 w)
  show ?case
  proof (cases "odd w")
    case True
    then show ?thesis using 1 by (subst builtin_ffs.simps) (simp add: bit_0)
  next
    case False
    then have "w div 2 \<noteq> 0" using 1 by auto
    then obtain i where i: "builtin_ffs (w div 2) = Suc i" "bit (w div 2) i" "\<forall>j < i. \<not> bit (w div 2) j"
      using 1 False by blast
    have "\<not> bit w j" if "j < Suc i" for j using that i(3) False by (cases j) (simp_all add: bit_0 bit_Suc)
    then show ?thesis using i(1,2) 1(2) False by (subst builtin_ffs.simps) (simp add: bit_Suc)
  qed
qed

lemma tlsf_ffs_spec:
  assumes "w \<noteq> 0"
  obtains i where "tlsf_ffs w = int i" "bit w i" "\<forall>j < i. \<not> bit w j"
  using builtin_ffs_spec [OF assms] by (auto simp: tlsf_ffs_def)

lemma bit_ones_from: "s \<le> 32 \<Longrightarrow> bit (ones_from s) i \<longleftrightarrow> s \<le> i \<and> i < 32"
proof -
  have e: "ones_from s = take_bit 32 (push_bit s (mask 32))"
    by (simp add: ones_from_def u32_def push_bit_eq_mult take_bit_eq_mod mask_eq_exp_minus_1)
  show "s \<le> 32 \<Longrightarrow> ?thesis" unfolding e by (auto simp: bit_take_bit_iff bit_push_bit_iff bit_mask_iff)
qed

section \<open>Ranks\<close>

definition grain :: "nat \<Rightarrow> nat" where
  "grain n = max 3 (bitlength n - 6)"

definition rank :: "nat \<Rightarrow> nat" where
  "rank n = 32 * (grain n - 3) + n div 2 ^ grain n"

lemma grain_cases:
  obtains (small) "n < 256" "grain n = 3"
  | (large) "256 \<le> n" "bitlength n = grain n + 6" "3 \<le> grain n" "2 ^ (grain n + 5) \<le> n" "n < 2 ^ (grain n + 6)"
proof (cases "n < 256")
  case True
  then have "bitlength n \<le> 8" using bitlength_le_iff [of n 8] by simp
  then show ?thesis using small True by (simp add: grain_def)
next
  case False
  then have n: "0 < n" and b: "9 \<le> bitlength n" using bitlength_le_iff [of n 8] by auto
  have "2 ^ (bitlength n - 1) \<le> n" "n < 2 ^ bitlength n"
    using less_two_power_bitlength [of n] bitlength_le_iff [of n "bitlength n - 1"] n b by auto
  then show ?thesis using large False b by (simp add: grain_def)
qed

lemma grain_mono: "m \<le> n \<Longrightarrow> grain m \<le> grain n"
  using bitlength_le_iff [of m "bitlength n"] less_two_power_bitlength [of n] by (simp add: grain_def)

lemma quotient_range:
  shows "n div 2 ^ grain n < 64" "256 \<le> n \<Longrightarrow> 32 \<le> n div 2 ^ grain n"
proof -
  show "n div 2 ^ grain n < 64"
  proof (cases n rule: grain_cases)
    case small
    then show ?thesis by simp
  next
    case large
    then show ?thesis by (intro less_mult_imp_div_less) (simp add: power_add)
  qed
  assume "256 \<le> n"
  then have "2 ^ 5 * 2 ^ grain n \<le> n" by (cases n rule: grain_cases) (simp_all add: power_add)
  then show "32 \<le> n div 2 ^ grain n" by (simp add: less_eq_div_iff_mult_less_eq)
qed

lemma rank_less_grain: "grain m < grain n \<Longrightarrow> rank m < rank n"
proof -
  assume g: "grain m < grain n"
  moreover have "3 \<le> grain m" by (simp add: grain_def)
  ultimately have "256 \<le> n" by (cases n rule: grain_cases) auto
  then have "32 \<le> n div 2 ^ grain n" by (rule quotient_range)
  moreover have "m div 2 ^ grain m < 64" by (rule quotient_range)
  moreover have "3 \<le> grain m" by (simp add: grain_def)
  ultimately show ?thesis using g by (simp add: rank_def)
qed

lemma rank_mono: "m \<le> n \<Longrightarrow> rank m \<le> rank n"
proof -
  assume le: "m \<le> n"
  then consider "grain m < grain n" | "grain m = grain n" using grain_mono by fastforce
  then show ?thesis
  proof cases
    case 1
    then show ?thesis using rank_less_grain [of m n] by simp
  qed (use le in \<open>simp add: rank_def div_le_mono\<close>)
qed

text \<open>The smallest size with the rank of a size.\<close>

definition grain_floor :: "nat \<Rightarrow> nat" where
  "grain_floor n = n div 2 ^ grain n * 2 ^ grain n"

lemma rank_floor: "rank x \<le> rank n \<Longrightarrow> grain_floor x \<le> n"
proof (rule ccontr)
  assume r: "rank x \<le> rank n" "\<not> grain_floor x \<le> n"
  have "grain_floor x \<le> x" by (simp add: grain_floor_def)
  then have "grain n \<le> grain x" using r(2) grain_mono [of n x] by simp
  moreover have "\<not> grain n < grain x" using rank_less_grain r(1) by fastforce
  ultimately have g: "grain n = grain x" by simp
  then have "n < x div 2 ^ grain x * 2 ^ grain x" using r(2) by (simp add: grain_floor_def)
  then have "n div 2 ^ grain x < x div 2 ^ grain x" by (simp add: less_mult_imp_div_less)
  then show False using r(1) g by (simp add: rank_def)
qed

section \<open>The indices\<close>

lemma xor_32: "32 \<le> q \<Longrightarrow> q < 64 \<Longrightarrow> q XOR 32 = (q - 32 :: nat)"
proof -
  assume q: "32 \<le> q" "q < 64"
  define r where "r = q - 32"
  have r: "q = 2 ^ 5 + r" "r < 2 ^ 5" using q by (simp_all add: r_def)
  have "\<not> bit r 5" using r(2) by (simp add: bit_iff_odd)
  then have "r AND 2 ^ 5 = 0" by (simp only: and_exp_eq_0_iff_not_bit not_False_eq_True)
  then have "2 ^ 5 AND r = 0" by (simp only: and.commute)
  then have "q = 2 ^ 5 XOR r" using r(1) disjunctive_add_eq_xor [of "2 ^ 5" r] by simp
  then show ?thesis using r by (simp add: xor.commute xor.left_commute)
qed

lemma mapping_insert_rank:
  assumes "n < 2 ^ 64"
  shows "mapping_insert n = (rank n div 32, rank n mod 32)"
proof (cases n rule: grain_cases)
  case small
  then have "n div 8 < 32" by simp
  then show ?thesis using small by (simp add: mapping_insert_def tlsf_constants rank_def)
next
  case large
  define q where "q = n div 2 ^ grain n"
  have q: "32 \<le> q" "q < 64" using quotient_range [of n] large(1) by (simp_all add: q_def)
  have "nat (tlsf_fls_sizet n) = grain n + 5" using tlsf_fls_sizet_eq [OF assms] large(2) by simp
  then have "mapping_insert n = (grain n - 2, q XOR 32)"
    using large(1) by (simp add: mapping_insert_def tlsf_constants shr_def q_def Let_def)
  moreover have "rank n = 32 * (grain n - 2) + (q - 32)" using q(1) large(3) by (simp add: rank_def q_def)
  moreover have "q - 32 < 32" using q by simp
  ultimately show ?thesis using xor_32 [OF q] by simp
qed

lemma rank_small: "n < 2 ^ 32 \<Longrightarrow> rank n div 32 < 25"
proof (cases n rule: grain_cases)
  case small
  then have "n div 8 < 32" by simp
  then show ?thesis using small by (simp add: rank_def)
next
  case large
  assume "n < 2 ^ 32"
  then have "grain n \<le> 26" using bitlength_32 [of n] large(2) by simp
  then have "rank n < 800" using quotient_range(1) [of n] large(3) unfolding rank_def by linarith
  then show ?thesis by simp
qed

text \<open>What the search rounds a size up to.\<close>

definition search_size :: "nat \<Rightarrow> nat" where
  "search_size n = (if n < 256 then n else n + (2 ^ grain n - 1))"

lemma search_size_bounds: "n \<le> search_size n" "32 * search_size n \<le> 33 * n"
proof -
  show "n \<le> search_size n" unfolding search_size_def by (cases "n < 256") (simp_all only: if_True if_False le_add1 order_refl)
  show "32 * search_size n \<le> 33 * n"
  proof (cases n rule: grain_cases)
    case large
    have "32 * 2 ^ grain n \<le> n" using large(4) by (simp add: power_add)
    moreover have "search_size n \<le> n + 2 ^ grain n" by (simp add: search_size_def)
    ultimately show ?thesis by linarith
  qed (simp add: search_size_def)
qed

lemma mapping_search_rank:
  assumes "n < 2 ^ 32"
  shows "mapping_search n = (rank (search_size n) div 32, rank (search_size n) mod 32)"
proof (cases "n < 256")
  case True
  then show ?thesis using mapping_insert_rank [of n] by (simp add: mapping_search_def search_size_def tlsf_constants)
next
  case False
  have "search_size n < 2 ^ 64" using search_size_bounds(2) [of n] assms by simp
  moreover have "nat (tlsf_fls_sizet n) - 5 = grain n"
    using False tlsf_fls_sizet_eq [of n] assms by (cases n rule: grain_cases) auto
  ultimately show ?thesis using False mapping_insert_rank [of "search_size n"]
    by (simp add: mapping_search_def search_size_def tlsf_constants wrap_simps Let_def)
qed

text \<open>A block in a list at or behind the one searched is large enough.\<close>

lemma search_fits:
  assumes "rank (search_size a) \<le> rank n" "8 dvd a"
  shows "a \<le> n"
proof (cases a rule: grain_cases)
  case small
  then have "grain_floor a \<le> n" using rank_floor [of a n] assms by (simp add: search_size_def)
  then show ?thesis using assms(2) small(2) by (simp add: grain_floor_def)
next
  case large
  define g where "g = grain a"
  have s: "search_size a = a + (2 ^ g - 1)" using large(1) by (simp add: search_size_def g_def)
  have f: "grain_floor (search_size a) \<le> n" by (rule rank_floor [OF assms(1)])
  show ?thesis
  proof (cases "grain (search_size a) = g")
    case True
    have "a \<le> (a + (2 ^ g - 1)) div 2 ^ g * 2 ^ g"
    proof -
      define x where "x = a + (2 ^ g - 1)"
      have "x = x div 2 ^ g * 2 ^ g + x mod 2 ^ g" "x mod 2 ^ g < 2 ^ g" by (simp_all only: div_mult_mod_eq) simp
      then show ?thesis unfolding x_def by linarith
    qed
    then show ?thesis using f True s by (simp add: grain_floor_def)
  next
    case False
    then have "g < grain (search_size a)" using grain_mono [OF search_size_bounds(1), of a] by (simp add: g_def)
    then have "rank a < rank (search_size a)" by (simp add: g_def rank_less_grain)
    then have "\<not> n < a" using assms rank_mono [of n a] by fastforce
    then show ?thesis by simp
  qed
qed

lemma search_complete: "search_size a \<le> n \<Longrightarrow> rank (search_size a) \<le> rank n"
  by (rule rank_mono)

end
