(* ===== verification/Tlsf_Lists.thy ===== *)
theory Tlsf_Lists
  imports Tlsf_Index
begin

text \<open>
  The free lists of \<open>tlsf.c\<close>: 800 doubly linked lists through the free blocks, their heads and two
  levels of bitmaps in the control structure. Insertion and removal are shown on the words of
  the memory the lists consist of; the null block of the control structure ends every list.
\<close>

section \<open>Bits of a difference\<close>

lemma bit_and_not: "bit (and_not x y) i \<longleftrightarrow> bit x i \<and> \<not> bit y i"
proof -
  have "int x = (int x AND int y) + (int x AND NOT (int y))"
    by (subst disjunctive_add_eq_or) (rule bit_eqI, auto simp: bit_simps)+
  moreover have "int (x AND y) = int x AND int y" by (rule of_nat_and_eq)
  moreover have "0 \<le> int x AND NOT (int y)" by simp
  ultimately have "int (and_not x y) = int x AND NOT (int y)" unfolding and_not_def by linarith
  then have "bit (int (and_not x y)) i \<longleftrightarrow> bit (int x AND NOT (int y)) i" by simp
  then show ?thesis by (simp add: bit_simps)
qed

section \<open>Lists of words\<close>

definition hd0 :: "addr \<Rightarrow> addr list \<Rightarrow> addr" where
  "hd0 c xs = (case xs of [] \<Rightarrow> c | b # _ \<Rightarrow> b)"

lemma hd0_simps [simp]: "hd0 c [] = c" "hd0 c (b # xs) = b"
  by (simp_all add: hd0_def)

fun dlist :: "(addr \<Rightarrow> nat) \<Rightarrow> addr \<Rightarrow> addr \<Rightarrow> addr list \<Rightarrow> bool" where
  "dlist w c prev [] \<longleftrightarrow> True"
| "dlist w c prev (b # xs) \<longleftrightarrow> w (b + 24) = prev \<and> w (b + 16) = hd0 c xs \<and> dlist w c b xs"

definition link_words :: "addr \<Rightarrow> addr set" where
  "link_words b = {b + 16, b + 24}"

lemma dlist_cong: "(\<And>b a. b \<in> set xs \<Longrightarrow> a \<in> link_words b \<Longrightarrow> w a = w' a) \<Longrightarrow> dlist w c prev xs = dlist w' c prev xs"
proof (induction xs arbitrary: prev)
  case (Cons b xs)
  have "w (b + 16) = w' (b + 16)" "w (b + 24) = w' (b + 24)" using Cons.prems [of b] by (auto simp: link_words_def)
  moreover have "dlist w c b xs = dlist w' c b xs" using Cons by auto
  ultimately show ?case by simp
qed simp

lemma dlist_append:
  "dlist w c prev (xs @ b # ys) \<longleftrightarrow>
    dlist w b prev xs \<and> w (b + 24) = (if xs = [] then prev else last xs) \<and> w (b + 16) = hd0 c ys \<and> dlist w c b ys"
proof (induction xs arbitrary: prev)
  case (Cons a xs)
  have "hd0 c (xs @ b # ys) = hd0 b xs" by (cases xs) simp_all
  then show ?case using Cons by auto
qed simp

lemma dlist_snoc_append:
  "dlist w c prev (xs @ ys) \<longleftrightarrow> dlist w (hd0 c ys) prev xs \<and> dlist w c (if xs = [] then prev else last xs) ys"
proof (cases ys)
  case (Cons b zs)
  then show ?thesis by (simp add: dlist_append)
qed simp

section \<open>The lists of a heap\<close>

definition nodes_ok :: "addr \<Rightarrow> addr set \<Rightarrow> bool" where
  "nodes_ok c S \<longleftrightarrow> 8 dvd c \<and> c \<noteq> 0 \<and>
     (\<forall>b \<in> S. 8 dvd b \<and> c + 6536 \<le> b + 8 \<and> b + 32 < 2 ^ 64) \<and>
     (\<forall>b \<in> S. \<forall>b' \<in> S. b \<noteq> b' \<longrightarrow> b + 32 \<le> b' \<or> b' + 32 \<le> b)"

definition listed :: "(nat \<Rightarrow> addr list) \<Rightarrow> addr set" where
  "listed F = (\<Union>r. set (F r))"

definition head_word :: "addr \<Rightarrow> nat \<Rightarrow> addr" where
  "head_word c r = c + 136 + 8 * r"

definition lists_ok :: "(addr \<Rightarrow> nat) \<Rightarrow> (nat \<Rightarrow> nat) \<Rightarrow> addr \<Rightarrow> (nat \<Rightarrow> addr list) \<Rightarrow> bool" where
  "lists_ok w bm c F \<longleftrightarrow>
     (\<forall>r < 800. w (head_word c r) = hd0 c (F r) \<and> dlist w c c (F r) \<and>
        (bit (bm (Suc (r div 32))) (r mod 32) \<longleftrightarrow> F r \<noteq> [])) \<and>
     (\<forall>i. bit (bm 0) i \<longleftrightarrow> (\<exists>r < 800. r div 32 = i \<and> F r \<noteq> [])) \<and>
     (\<forall>r \<ge> 800. F r = []) \<and> (\<forall>r. distinct (F r)) \<and>
     (\<forall>r r'. r \<noteq> r' \<longrightarrow> set (F r) \<inter> set (F r') = {})"

lemma lists_ok_cong:
  assumes "\<And>r. r < 800 \<Longrightarrow> w (head_word c r) = w' (head_word c r)"
    and "\<And>b a. b \<in> listed F \<Longrightarrow> a \<in> link_words b \<Longrightarrow> w a = w' a"
    and "\<And>i. i \<le> 25 \<Longrightarrow> bm i = bm' i"
  shows "lists_ok w bm c F = lists_ok w' bm' c F"
proof -
  have "dlist w c c (F r) = dlist w' c c (F r)" for r
    using assms(2) by (intro dlist_cong) (auto simp: listed_def)
  moreover have "bm (Suc (r div 32)) = bm' (Suc (r div 32))" if "r < 800" for r
    using that by (intro assms(3)) (simp add: Suc_le_eq less_mult_imp_div_less)
  moreover have "bm 0 = bm' 0" using assms(3) [of 0] by simp
  ultimately show ?thesis using assms(1) by (simp add: lists_ok_def)
qed

lemma lists_okD:
  assumes "lists_ok w bm c F"
  shows "r < 800 \<Longrightarrow> w (head_word c r) = hd0 c (F r)" "r < 800 \<Longrightarrow> dlist w c c (F r)"
    "r < 800 \<Longrightarrow> bit (bm (Suc (r div 32))) (r mod 32) \<longleftrightarrow> F r \<noteq> []"
    "bit (bm 0) i \<longleftrightarrow> (\<exists>r < 800. r div 32 = i \<and> F r \<noteq> [])"
    "distinct (F r)" "b \<in> set (F r) \<Longrightarrow> b \<in> set (F r') \<Longrightarrow> r = r'" "F r \<noteq> [] \<Longrightarrow> r < 800"
proof -
  show "r < 800 \<Longrightarrow> w (head_word c r) = hd0 c (F r)" "r < 800 \<Longrightarrow> dlist w c c (F r)"
    "r < 800 \<Longrightarrow> bit (bm (Suc (r div 32))) (r mod 32) \<longleftrightarrow> F r \<noteq> []"
    "bit (bm 0) i \<longleftrightarrow> (\<exists>r < 800. r div 32 = i \<and> F r \<noteq> [])" "distinct (F r)"
    using assms by (simp_all add: lists_ok_def)
  show "b \<in> set (F r) \<Longrightarrow> b \<in> set (F r') \<Longrightarrow> r = r'" using assms unfolding lists_ok_def by blast
  show "F r \<noteq> [] \<Longrightarrow> r < 800" using assms unfolding lists_ok_def by (meson not_le)
qed

text \<open>Heads, links of the blocks and links of the null block are different words.\<close>

lemma nodes_okD:
  assumes "nodes_ok c S"
  shows "b \<in> S \<Longrightarrow> b \<noteq> c" "b \<in> S \<Longrightarrow> b' \<in> insert c S \<Longrightarrow> b \<noteq> b' + 8" "b \<in> S \<Longrightarrow> b' \<in> insert c S \<Longrightarrow> b' \<noteq> b + 8"
    "b \<in> S \<Longrightarrow> r < 800 \<Longrightarrow> b + 16 \<noteq> head_word c r" "b \<in> S \<Longrightarrow> r < 800 \<Longrightarrow> b + 24 \<noteq> head_word c r"
    "c + 16 \<noteq> head_word c r" "c + 24 \<noteq> head_word c r"
proof -
  have b: "c + 6536 \<le> b + 8" if "b \<in> S" for b using assms that by (simp add: nodes_ok_def)
  have sep: "b + 32 \<le> b' \<or> b' + 32 \<le> b" if "b \<in> S" "b' \<in> S" "b \<noteq> b'" for b b'
    using assms that by (simp add: nodes_ok_def)
  show "b \<in> S \<Longrightarrow> b \<noteq> c" using b [of b] by auto
  show "b \<in> S \<Longrightarrow> r < 800 \<Longrightarrow> b + 16 \<noteq> head_word c r" "b \<in> S \<Longrightarrow> r < 800 \<Longrightarrow> b + 24 \<noteq> head_word c r"
    using b [of b] by (auto simp: head_word_def)
  show "c + 16 \<noteq> head_word c r" "c + 24 \<noteq> head_word c r" by (auto simp: head_word_def)
  show "b \<noteq> b' + 8" if "b \<in> S" "b' \<in> insert c S" using that b [of b] sep [of b b'] by auto
  show "b' \<noteq> b + 8" if "b \<in> S" "b' \<in> insert c S" using that b [of b] sep [of b b'] by auto
qed

text \<open>Words of other blocks, of the null block and of the heads are not links of a block.\<close>

lemma other_link:
  assumes "nodes_ok c S" "y \<in> S" "a \<in> link_words y" "x \<in> insert c S" "x \<noteq> y"
  shows "a \<noteq> x + 16" "a \<noteq> x + 24"
  using assms(3,5) nodes_okD(2,3) [OF assms(1,2,4)] unfolding link_words_def by (elim insertE emptyE; simp)+

lemma head_not_link:
  assumes "nodes_ok c S" "x \<in> insert c S" "r < 800" "a \<in> link_words x"
  shows "a \<noteq> head_word c r"
  using assms(2-) nodes_okD(4,5) [OF assms(1), of x r] nodes_okD(6,7) [OF assms(1), of r] unfolding link_words_def
  by (elim insertE emptyE; simp)

section \<open>Insertion\<close>

definition inserted :: "(addr \<Rightarrow> nat) \<Rightarrow> addr \<Rightarrow> addr \<Rightarrow> nat \<Rightarrow> addr \<Rightarrow> addr \<Rightarrow> nat" where
  "inserted w c b r cur = w(b + 16 := cur, b + 24 := c, cur + 24 := b, head_word c r := b)"

lemma inserted_other: "a \<noteq> b + 16 \<Longrightarrow> a \<noteq> b + 24 \<Longrightarrow> a \<noteq> cur + 24 \<Longrightarrow> a \<noteq> head_word c r \<Longrightarrow> inserted w c b r cur a = w a"
  by (simp add: inserted_def)

lemma dlist_new_head:
  assumes "nodes_ok c S" "insert b (set xs) \<subseteq> S" "b \<notin> set xs" "distinct xs" "dlist w c c xs" "r < 800"
  shows "dlist (inserted w c b r (hd0 c xs)) c c (b # xs)"
proof -
  let ?w = "inserted w c b r (hd0 c xs)"
  have bS: "b \<in> S" and xS: "\<And>x. x \<in> set xs \<Longrightarrow> x \<in> S" using assms(2) by auto
  have hS: "hd0 c xs \<in> insert c S" using xS by (cases xs) auto
  note nd = nodes_okD [OF assms(1)]
  have other: "?w a = w a" if "y \<in> S" "y \<noteq> b" "y \<noteq> hd0 c xs" "a \<in> link_words y" for y a
    using that bS hS assms(6) other_link [OF assms(1) that(1,4)] head_not_link [OF assms(1) _ assms(6) that(4)]
    by (intro inserted_other) blast+
  have "hd0 c xs \<noteq> b" using assms(3) nd(1) [OF bS] by (cases xs) auto
  then have b: "?w (b + 24) = c" "?w (b + 16) = hd0 c xs"
    using nd(2) [OF bS hS] nd(4,5) [OF bS assms(6)] by (simp_all add: inserted_def)
  have "dlist ?w c b xs"
  proof (cases xs)
    case (Cons x ys)
    have x: "x \<in> S" "x \<noteq> b" using Cons xS assms(3) by auto
    have "?w (x + 24) = b" "?w (x + 16) = w (x + 16)"
      using Cons x nd(2) [OF x(1), of b] bS nd(4,5) [OF x(1) assms(6)] by (simp_all add: inserted_def)
    moreover have "dlist ?w c x ys = dlist w c x ys"
    proof (rule dlist_cong)
      fix y a assume "y \<in> set ys" "a \<in> link_words y"
      then show "?w a = w a" using other [of y a] Cons xS assms(3,4) by auto
    qed
    ultimately show ?thesis using assms(5) Cons by simp
  qed simp
  then show ?thesis using b by simp
qed

lemma lists_ok_insert:
  assumes "nodes_ok c (insert b (listed F))" "b \<notin> listed F" "lists_ok w bm c F" "r < 800"
  defines "w' \<equiv> inserted w c b r (hd0 c (F r))"
    and "bm' \<equiv> bm(0 := bm 0 OR 2 ^ (r div 32), Suc (r div 32) := bm (Suc (r div 32)) OR 2 ^ (r mod 32))"
  shows "lists_ok w' bm' c (F(r := b # F r))"
proof -
  let ?F = "F(r := b # F r)" and ?S = "insert b (listed F)"
  note nd = nodes_okD [OF assms(1)] and lo = lists_okD [OF assms(3)]
  have FS: "set (F q) \<subseteq> listed F" for q by (auto simp: listed_def)
  have hS: "hd0 c (F r) \<in> insert c (listed F)" using FS [of r] by (cases "F r") auto
  have heads: "w' (head_word c q) = hd0 c (?F q)" if "q < 800" for q
  proof -
    have "hd0 c (F r) + 24 \<noteq> head_word c q" using nd(5) [of "hd0 c (F r)" q] nd(7) [of q] hS that by auto
    moreover have "b + 16 \<noteq> head_word c q" "b + 24 \<noteq> head_word c q" using nd(4,5) [of b q] that by auto
    moreover have "head_word c q = head_word c r \<longleftrightarrow> q = r" by (simp add: head_word_def)
    ultimately show ?thesis using lo(1) [OF that] by (auto simp: w'_def inserted_def)
  qed
  have dl: "dlist w' c c (?F q)" if "q < 800" for q
  proof (cases "q = r")
    case True
    have "b \<notin> set (F r)" using assms(2) by (auto simp: listed_def)
    then show ?thesis unfolding w'_def using dlist_new_head [OF assms(1) _ _ lo(5) lo(2) [OF assms(4)] assms(4)] FS [of r] True
      by auto
  next
    case False
    have "dlist w' c c (F q) = dlist w c c (F q)"
    proof (rule dlist_cong)
      fix y a assume y: "y \<in> set (F q)" "a \<in> link_words y"
      then have yS: "y \<in> ?S" and ne: "y \<noteq> b" "y \<noteq> hd0 c (F r)"
        using FS [of q] assms(2) lo(6) [of y q r] False nd(1) [of y] by (auto simp: hd0_def split: list.splits)
      then show "w' a = w a" unfolding w'_def
        using hS other_link [OF assms(1) yS y(2)] head_not_link [OF assms(1) _ assms(4) y(2)]
        by (intro inserted_other) blast+
    qed
    then show ?thesis using False lo(2) [OF that] by simp
  qed
  have sl: "bit (bm' (Suc (q div 32))) (q mod 32) \<longleftrightarrow> ?F q \<noteq> []" if "q < 800" for q
  proof (cases "q div 32 = r div 32")
    case True
    have "q mod 32 = r mod 32 \<longleftrightarrow> q = r" using True div_mult_mod_eq [of q 32] div_mult_mod_eq [of r 32] by metis
    then show ?thesis using True lo(3) [OF that] by (auto simp: bm'_def bit_or_iff bit_exp_iff)
  next
    case False
    then have "q \<noteq> r" by auto
    then show ?thesis using False lo(3) [OF that] by (simp add: bm'_def)
  qed
  have fl: "bit (bm' 0) i \<longleftrightarrow> (\<exists>q < 800. q div 32 = i \<and> ?F q \<noteq> [])" for i
    using lo(4) [of i] assms(4) by (auto simp: bm'_def bit_or_iff bit_exp_iff)
  have "b \<notin> set (F q)" for q using assms(2) by (auto simp: listed_def)
  then show ?thesis using heads dl sl fl assms(3,4) unfolding lists_ok_def by auto
qed

section \<open>Removal\<close>

definition unlinked :: "(addr \<Rightarrow> nat) \<Rightarrow> addr \<Rightarrow> addr \<Rightarrow> addr \<Rightarrow> nat" where
  "unlinked w prev next = w(next + 24 := prev, prev + 16 := next)"

lemma unlinked_other: "a \<noteq> next + 24 \<Longrightarrow> a \<noteq> prev + 16 \<Longrightarrow> unlinked w prev next a = w a"
  by (simp add: unlinked_def)

definition last0 :: "addr \<Rightarrow> addr list \<Rightarrow> addr" where
  "last0 c xs = (if xs = [] then c else last xs)"

lemma dlist_unlink:
  assumes "nodes_ok c S" "set (xs @ b # ys) \<subseteq> S" "distinct (xs @ b # ys)" "dlist w c c (xs @ b # ys)"
  shows "w (b + 24) = last0 c xs" "w (b + 16) = hd0 c ys" "dlist (unlinked w (last0 c xs) (hd0 c ys)) c c (xs @ ys)"
proof -
  let ?p = "last0 c xs" and ?n = "hd0 c ys"
  let ?w = "unlinked w ?p ?n"
  have d: "dlist w b c xs" "w (b + 24) = ?p" "w (b + 16) = ?n" "dlist w c b ys"
    using assms(4) by (simp_all add: dlist_append last0_def)
  then show "w (b + 24) = ?p" "w (b + 16) = ?n" by simp_all
  have pS: "?p \<in> insert c S" using assms(2) by (cases xs rule: rev_cases) (auto simp: last0_def)
  have nS: "?n \<in> insert c S" using assms(2) by (auto simp: hd0_def split: list.split)
  have other: "?w a = w a" if "y \<in> S" "y \<noteq> ?p" "y \<noteq> ?n" "a \<in> link_words y" for y a
    using that pS nS other_link [OF assms(1) that(1,4)] by (intro unlinked_other) blast+
  have c: "c \<notin> S" using nodes_okD(1) [OF assms(1)] by blast
  have "dlist ?w ?n c xs"
  proof (cases xs rule: rev_cases)
    case (snoc zs x)
    have p: "?p = x" and xS: "x \<in> S" and xn: "x \<noteq> ?n"
      using snoc assms(2,3) c by (auto simp: last0_def hd0_def split: list.split)
    have "x + 24 \<noteq> ?n + 24" "x + 24 \<noteq> x + 16" "x + 16 \<noteq> ?n + 24"
      using xn nodes_okD(2) [OF assms(1) xS nS] by auto
    then have "?w (x + 16) = ?n" "?w (x + 24) = w (x + 24)" by (simp_all add: unlinked_def p)
    moreover have "dlist ?w x c zs = dlist w x c zs"
    proof (rule dlist_cong)
      fix y a assume y: "y \<in> set zs" "a \<in> link_words y"
      then have "y \<in> S" using snoc assms(2) by auto
      moreover from this have "y \<noteq> ?n" using y(1) snoc assms(3) c by (auto simp: hd0_def split: list.split)
      moreover have "y \<noteq> ?p" using y(1) snoc assms(3) p by auto
      ultimately show "?w a = w a" using other y(2) by blast
    qed
    ultimately show ?thesis using d(1) snoc by (simp add: dlist_append)
  qed simp
  moreover have "dlist ?w c ?p ys"
  proof (cases ys)
    case (Cons y zs)
    have n: "?n = y" and yS: "y \<in> S" and yp: "y \<noteq> ?p" using Cons assms(2,3) c by (auto simp: last0_def)
    have "y + 24 \<noteq> ?p + 16" "y + 16 \<noteq> ?p + 16" using yp nodes_okD(3) [OF assms(1) yS pS] by auto
    then have "?w (y + 24) = ?p" "?w (y + 16) = w (y + 16)" by (simp_all add: unlinked_def n)
    moreover have "dlist ?w c y zs = dlist w c y zs"
    proof (rule dlist_cong)
      fix z a assume z: "z \<in> set zs" "a \<in> link_words z"
      then have "z \<in> S" using Cons assms(2) by auto
      moreover from this have "z \<noteq> ?p"
        using z(1) Cons assms(3) c by (cases xs rule: rev_cases) (auto simp: last0_def)
      moreover have "z \<noteq> ?n" using z(1) Cons assms(3) n by auto
      ultimately show "?w a = w a" using other z(2) by blast
    qed
    ultimately show ?thesis using d(4) Cons by simp
  qed simp
  ultimately show "dlist ?w c c (xs @ ys)" by (simp add: dlist_snoc_append last0_def)
qed

definition cleared :: "(nat \<Rightarrow> nat) \<Rightarrow> nat \<Rightarrow> nat \<Rightarrow> nat" where
  "cleared bm r =
     (let s = and_not (bm (Suc (r div 32))) (2 ^ (r mod 32))
      in bm(Suc (r div 32) := s, 0 := if s = 0 then and_not (bm 0) (2 ^ (r div 32)) else bm 0))"

lemma cleared_bits:
  assumes "lists_ok w bm c F" "r < 800" "\<And>i. i \<le> 25 \<Longrightarrow> bm i < 2 ^ 32"
  shows "q < 800 \<Longrightarrow> bit (cleared bm r (Suc (q div 32))) (q mod 32) \<longleftrightarrow> q \<noteq> r \<and> F q \<noteq> []"
    "bit (cleared bm r 0) i \<longleftrightarrow> (\<exists>q < 800. q div 32 = i \<and> q \<noteq> r \<and> F q \<noteq> [])"
proof -
  note lo = lists_okD [OF assms(1)]
  let ?s = "and_not (bm (Suc (r div 32))) (2 ^ (r mod 32))"
  have same: "q mod 32 = r mod 32 \<longleftrightarrow> q = r" if "q div 32 = r div 32" for q
    using that div_mult_mod_eq [of q 32] div_mult_mod_eq [of r 32] by metis
  show sl: "bit (cleared bm r (Suc (q div 32))) (q mod 32) \<longleftrightarrow> q \<noteq> r \<and> F q \<noteq> []" if "q < 800" for q
    using lo(3) [OF that] same [of q] by (auto simp: cleared_def Let_def bit_and_not bit_exp_iff)
  have "?s = 0 \<longleftrightarrow> (\<forall>q < 800. q div 32 = r div 32 \<longrightarrow> q \<noteq> r \<longrightarrow> F q = [])"
  proof
    assume z: "?s = 0"
    show "\<forall>q < 800. q div 32 = r div 32 \<longrightarrow> q \<noteq> r \<longrightarrow> F q = []"
    proof (intro allI impI)
      fix q assume q: "q < 800" "q div 32 = r div 32" "q \<noteq> r"
      show "F q = []" using sl [OF q(1)] q z by (auto simp: cleared_def Let_def)
    qed
  next
    assume e: "\<forall>q < 800. q div 32 = r div 32 \<longrightarrow> q \<noteq> r \<longrightarrow> F q = []"
    show "?s = 0"
    proof (rule bit_eqI)
      fix j
      have fl: "r div 32 < 25" using assms(2) by (simp add: less_mult_imp_div_less)
      have "\<not> bit ?s j"
      proof
        assume b: "bit ?s j"
        then have j: "bit (bm (Suc (r div 32))) j" "j \<noteq> r mod 32" by (auto simp: bit_and_not bit_exp_iff)
        have "j < 32"
        proof (rule ccontr)
          assume "\<not> j < 32"
          then have "bm (Suc (r div 32)) < 2 ^ j"
            using assms(3) [of "Suc (r div 32)"] fl power_increasing [of 32 j "2::nat"] by simp
          then show False using j(1) by (simp add: bit_iff_odd)
        qed
        define q where "q = 32 * (r div 32) + j"
        have q: "q div 32 = r div 32" "q mod 32 = j" "q < 800" using \<open>j < 32\<close> fl by (auto simp: q_def)
        then have "F q \<noteq> []" using lo(3) [of q] j(1) by simp
        then show False using e q j(2) by auto
      qed
      then show "bit ?s j = bit 0 j" by simp
    qed
  qed
  then show "bit (cleared bm r 0) i \<longleftrightarrow> (\<exists>q < 800. q div 32 = i \<and> q \<noteq> r \<and> F q \<noteq> [])"
    using lo(4) [of i] by (auto simp: cleared_def Let_def bit_and_not bit_exp_iff)
qed

text \<open>The words and bitmaps after the removal of a block between \<open>xs\<close> and \<open>ys\<close>.\<close>

definition removed_words :: "(addr \<Rightarrow> nat) \<Rightarrow> addr \<Rightarrow> nat \<Rightarrow> addr list \<Rightarrow> addr list \<Rightarrow> addr \<Rightarrow> nat" where
  "removed_words w c r xs ys =
     (let w = unlinked w (last0 c xs) (hd0 c ys) in if xs = [] then w(head_word c r := hd0 c ys) else w)"

definition removed_maps :: "(nat \<Rightarrow> nat) \<Rightarrow> nat \<Rightarrow> addr list \<Rightarrow> addr list \<Rightarrow> nat \<Rightarrow> nat" where
  "removed_maps bm r xs ys = (if xs = [] \<and> ys = [] then cleared bm r else bm)"

lemma lists_ok_remove:
  assumes "nodes_ok c (listed F)" "lists_ok w bm c F" "r < 800" "F r = xs @ b # ys" "\<And>i. i \<le> 25 \<Longrightarrow> bm i < 2 ^ 32"
  shows "lists_ok (removed_words w c r xs ys) (removed_maps bm r xs ys) c (F(r := xs @ ys))"
proof -
  let ?F = "F(r := xs @ ys)" and ?w = "removed_words w c r xs ys" and ?bm = "removed_maps bm r xs ys"
  let ?p = "last0 c xs" and ?n = "hd0 c ys"
  note nd = nodes_okD [OF assms(1)] and lo = lists_okD [OF assms(2)]
  have FS: "set (F q) \<subseteq> listed F" for q by (auto simp: listed_def)
  have pS: "?p \<in> insert c (set (xs @ ys))" and nS: "?n \<in> insert c (set (xs @ ys))"
    by (auto simp: last0_def hd0_def split: list.split)
  have pnS: "?p \<in> insert c (listed F)" "?n \<in> insert c (listed F)" using pS nS FS [of r] assms(4) by auto
  have dist: "distinct (xs @ b # ys)" using lo(5) [of r] assms(4) by simp
  note un = dlist_unlink [OF assms(1) _ dist, of w]
  have un3: "dlist (unlinked w ?p ?n) c c (xs @ ys)" using un(3) FS [of r] assms(4) lo(2) [OF assms(3)] by simp
  have headw: "unlinked w ?p ?n (head_word c q) = w (head_word c q)" if "q < 800" for q
    using head_not_link [OF assms(1) pnS(1) that, of "?p + 16"] head_not_link [OF assms(1) pnS(2) that, of "?n + 24"]
    by (intro unlinked_other) (auto simp: link_words_def)
  have hd: "hd0 c (xs @ ys) = (if xs = [] then ?n else hd0 c (xs @ b # ys))" by (cases xs) simp_all
  have heads: "?w (head_word c q) = hd0 c (?F q)" if "q < 800" for q
    using headw [OF that] lo(1) [OF that] assms(4) hd by (auto simp: removed_words_def Let_def head_word_def)
  have links: "?w a = unlinked w ?p ?n a" if "y \<in> listed F" "a \<in> link_words y" for y a
    using head_not_link [OF assms(1) _ assms(3) that(2)] that(1) by (auto simp: removed_words_def Let_def)
  have dl: "dlist ?w c c (?F q)" if "q < 800" for q
  proof (cases "q = r")
    case True
    have "dlist ?w c c (xs @ ys) = dlist (unlinked w ?p ?n) c c (xs @ ys)"
      using links FS [of r] assms(4) by (intro dlist_cong) auto
    then show ?thesis using True un3 by simp
  next
    case False
    have "dlist ?w c c (F q) = dlist w c c (F q)"
    proof (rule dlist_cong)
      fix y a assume y: "y \<in> set (F q)" "a \<in> link_words y"
      then have yS: "y \<in> listed F" and "y \<notin> set (xs @ ys)" "y \<noteq> c"
        using FS [of q] lo(6) [of y q r] False assms(4) nd(1) [of y] by auto
      then have "y \<noteq> ?p" "y \<noteq> ?n" using pS nS by auto
      then have "unlinked w ?p ?n a = w a"
        using pnS other_link [OF assms(1) yS y(2)] by (intro unlinked_other) blast+
      then show "?w a = w a" using links [OF yS y(2)] by simp
    qed
    then show ?thesis using False lo(2) [OF that] by simp
  qed
  have sl: "bit (?bm (Suc (q div 32))) (q mod 32) \<longleftrightarrow> ?F q \<noteq> []" if "q < 800" for q
    using cleared_bits(1) [OF assms(2,3,5) that] lo(3) [OF that] assms(4) by (auto simp: removed_maps_def)
  have fl: "bit (?bm 0) i \<longleftrightarrow> (\<exists>q < 800. q div 32 = i \<and> ?F q \<noteq> [])" for i
  proof (cases "xs = [] \<and> ys = []")
    case True
    then show ?thesis using cleared_bits(2) [OF assms(2,3,5), of i] by (auto simp: removed_maps_def)
  next
    case False
    then have "?F q \<noteq> [] \<longleftrightarrow> F q \<noteq> []" for q using assms(4) by auto
    moreover have "?bm = bm" using False by (auto simp: removed_maps_def)
    ultimately show ?thesis using lo(4) [of i] by simp
  qed
  have sub: "set (?F q) \<subseteq> set (F q)" for q using assms(4) by auto
  have "set (?F q) \<inter> set (?F q') = {}" if "q \<noteq> q'" for q q' using lo(6) [of _ q q'] that sub by blast
  moreover have "distinct (?F q)" for q using dist lo(5) [of q] by auto
  moreover have "?F q = []" if "800 \<le> q" for q using lo(7) [of q] assms(3) that by auto
  ultimately show ?thesis using heads dl sl fl unfolding lists_ok_def by blast
qed

end
