(* ===== verification/Tlsf_Free.thy ===== *)
theory Tlsf_Free
  imports Tlsf_Lists
begin

text \<open>
  The operations on the free lists, on the byte memory: insertion, removal and the search. Each
  keeps the lists well formed, writes to the control structure and to the links of free blocks
  only, and passes its assertions.
\<close>

section \<open>Words and bitmaps of a memory\<close>

definition map_word :: "addr \<Rightarrow> nat \<Rightarrow> addr" where
  "map_word c i = c + 32 + 4 * i"

abbreviation maps :: "bytes \<Rightarrow> addr \<Rightarrow> nat \<Rightarrow> nat" where
  "maps m c \<equiv> (\<lambda>i. load32 m (map_word c i))"

definition plain :: "addr \<Rightarrow> addr \<Rightarrow> bool" where
  "plain c a \<longleftrightarrow> 8 dvd a \<and> (a + 8 \<le> c + 32 \<or> c + 136 \<le> a)"

lemma words_apart: "8 dvd a \<Longrightarrow> 8 dvd a' \<Longrightarrow> a \<noteq> a' \<Longrightarrow> a + 8 \<le> a' \<or> a' + 8 \<le> (a :: nat)"
  by (elim dvdE) auto

lemma load64_store64_word:
  assumes "8 dvd a" "8 dvd a'" "v < 2 ^ 64"
  shows "load64 (store64 m a v) a' = ((load64 m)(a := v)) a'"
  using load_store64 [OF assms(3)] load64_store64_disjoint words_apart [OF assms(1,2)] by auto

lemma store_plain:
  assumes "plain c a"
  shows "plain c a' \<Longrightarrow> v < 2 ^ 64 \<Longrightarrow> load64 (store64 m a v) a' = ((load64 m)(a := v)) a'"
    and "i \<le> 25 \<Longrightarrow> maps (store64 m a v) c i = maps m c i"
proof -
  show "plain c a' \<Longrightarrow> v < 2 ^ 64 \<Longrightarrow> load64 (store64 m a v) a' = ((load64 m)(a := v)) a'"
    using assms by (intro load64_store64_word) (auto simp: plain_def)
  show "i \<le> 25 \<Longrightarrow> maps (store64 m a v) c i = maps m c i"
    using assms by (intro load32_store64) (auto simp: plain_def map_word_def)
qed

lemma store_map:
  assumes "i \<le> 25"
  shows "plain c a \<Longrightarrow> load64 (store32 m (map_word c i) v) a = load64 m a"
    and "j \<le> 25 \<Longrightarrow> v < 2 ^ 32 \<Longrightarrow> maps (store32 m (map_word c i) v) c j = ((maps m c)(i := v)) j"
proof -
  show "plain c a \<Longrightarrow> load64 (store32 m (map_word c i) v) a = load64 m a"
    using assms by (intro load64_store32) (auto simp: plain_def map_word_def)
  show "j \<le> 25 \<Longrightarrow> v < 2 ^ 32 \<Longrightarrow> maps (store32 m (map_word c i) v) c j = ((maps m c)(i := v)) j"
    using load_store32 [of v m] load32_store32 [of "map_word c j" "map_word c i" m v]
    by (cases "i < j \<or> j < i") (auto simp: map_word_def)
qed

lemma plain_words:
  assumes "nodes_ok c S"
  shows "x \<in> insert c S \<Longrightarrow> a \<in> link_words x \<Longrightarrow> plain c a" "plain c (head_word c r)"
proof -
  have c: "8 dvd c" and b: "\<And>b. b \<in> S \<Longrightarrow> 8 dvd b \<and> c + 6536 \<le> b + 8" using assms by (auto simp: nodes_ok_def)
  have "8 dvd x + 16 \<longleftrightarrow> 8 dvd x" "8 dvd x + 24 \<longleftrightarrow> 8 dvd x" for x :: nat by presburger+
  then show "x \<in> insert c S \<Longrightarrow> a \<in> link_words x \<Longrightarrow> plain c a"
    using c b [of x] by (auto simp: plain_def link_words_def)
  show "plain c (head_word c r)" using c by (simp add: plain_def head_word_def)
qed

section \<open>The lists in a memory\<close>

definition mem_lists :: "bytes \<Rightarrow> addr \<Rightarrow> (nat \<Rightarrow> addr list) \<Rightarrow> bool" where
  "mem_lists m c F \<longleftrightarrow> nodes_ok c (listed F) \<and> c + 6536 < 2 ^ 64 \<and> lists_ok (load64 m) (maps m c) c F"

definition ctl :: "addr \<Rightarrow> addr set" where
  "ctl c = {c ..< c + 6536}"

definition link_bytes :: "addr set \<Rightarrow> addr set" where
  "link_bytes S = (\<Union>b \<in> S. {b + 16 ..< b + 32})"

lemma link_bytes_insert: "link_bytes (insert b S) = {b + 16 ..< b + 32} \<union> link_bytes S"
  by (simp add: link_bytes_def)

lemma mem_lists_cong:
  assumes "mem_lists m c F" "\<And>x. x \<in> ctl c \<union> link_bytes (listed F) \<Longrightarrow> m' x = m x"
  shows "mem_lists m' c F"
proof -
  have "lists_ok (load64 m') (maps m' c) c F = lists_ok (load64 m) (maps m c) c F"
  proof (rule lists_ok_cong)
    show "load64 m' (head_word c r) = load64 m (head_word c r)" if "r < 800" for r
      using that by (intro load64_cong assms(2)) (auto simp: head_word_def ctl_def)
    show "load64 m' a = load64 m a" if "b \<in> listed F" "a \<in> link_words b" for b a
    proof (rule load64_cong)
      fix i assume "a \<le> i" "i < a + 8"
      then have "i \<in> {b + 16 ..< b + 32}" using that(2) by (auto simp: link_words_def)
      then show "m' i = m i" using that(1) by (intro assms(2)) (auto simp only: link_bytes_def)
    qed
    show "maps m' c i = maps m c i" if "i \<le> 25" for i
      using that by (intro load32_cong assms(2)) (auto simp: ctl_def map_word_def)
  qed
  then show ?thesis using assms(1) by (simp add: mem_lists_def)
qed

lemma mem_listsI:
  assumes "nodes_ok c (listed F)" "c + 6536 < 2 ^ 64" "lists_ok w bm c F"
    and "\<And>a. plain c a \<Longrightarrow> load64 m a = w a" "\<And>i. i \<le> 25 \<Longrightarrow> maps m c i = bm i"
  shows "mem_lists m c F"
proof -
  have "lists_ok (load64 m) (maps m c) c F = lists_ok w bm c F"
  proof (rule lists_ok_cong)
    show "load64 m (head_word c r) = w (head_word c r)" for r using plain_words(2) [OF assms(1)] assms(4) by blast
    show "load64 m a = w a" if "b \<in> listed F" "a \<in> link_words b" for b a
      using plain_words(1) [OF assms(1)] that assms(4) by blast
  qed (rule assms(5))
  then show ?thesis using assms(1-3) by (simp add: mem_lists_def)
qed

lemma head_at: "list_head m c (r div 32) (r mod 32) = load64 m (head_word c r)"
  by (simp add: list_head_def head_word_def tlsf_constants)

lemma set_head_at: "set_list_head m c (r div 32) (r mod 32) v = store64 m (head_word c r) v"
  by (simp add: set_list_head_def head_word_def tlsf_constants)

lemma maps_at:
  "fl_bitmap m c = maps m c 0" "sl_bitmap m c fl = maps m c (Suc fl)"
  "set_fl_bitmap m c v = store32 m (map_word c 0) v" "set_sl_bitmap m c fl v = store32 m (map_word c (Suc fl)) v"
  by (simp_all add: fl_bitmap_def sl_bitmap_def set_fl_bitmap_def set_sl_bitmap_def map_word_def add.assoc)

lemmas link_fields = next_free_def prev_free_def set_next_free_def set_prev_free_def

lemma and_7: "n AND 7 = n mod (8 :: nat)"
  using take_bit_eq_mask [of 3 n] by (simp add: mask_eq_exp_minus_1 take_bit_eq_mod)

lemma align_ptr_8: "8 dvd x \<Longrightarrow> x + 8 < 2 ^ 64 \<Longrightarrow> align_ptr x ALIGN_SIZE = Some x"
proof -
  assume x: "8 dvd x" "x + 8 < 2 ^ 64"
  have s: "sub64 8 1 = 7" "sub64 8 (Suc 0) = 7" by (simp_all add: wrap_simps)
  have a: "add64 x 7 = x + 7" using x by (intro add64_id) simp
  have "(x + 7) mod 8 = 7" using x(1) by presburger
  then have "and_not (x + 7) 7 = x" by (simp add: and_not_def and_7)
  moreover have "(8 :: nat) AND 7 = 0" by (simp add: and_7)
  ultimately show ?thesis by (simp add: align_ptr_def tlsf_constants s a insist_def Let_def)
qed

lemma or_exp_less: "x < 2 ^ 32 \<Longrightarrow> k < 32 \<Longrightarrow> x OR 2 ^ k < (2 ^ 32 :: nat)"
proof -
  assume a: "x < 2 ^ 32" "k < 32"
  then have "take_bit 32 x = x" "take_bit 32 (2 ^ k) = (2 ^ k :: nat)" by (simp_all add: take_bit_nat_eq_self_iff)
  then have "take_bit 32 (x OR 2 ^ k) = x OR 2 ^ k" by (simp only: take_bit_or)
  then show ?thesis by (simp only: take_bit_nat_eq_self_iff)
qed

lemma hd0_in: "hd0 c (F r) \<in> insert c (listed F)"
proof (cases "F r")
  case (Cons b xs)
  then have "b \<in> listed F" unfolding listed_def by (intro UN_I [of r]) simp_all
  then show ?thesis using Cons by simp
qed simp

lemma listed_cons: "listed (F(r := b # F r)) = insert b (listed F)"
  by (auto simp: listed_def split: if_splits)

lemma node_address:
  assumes "nodes_ok c S" "x \<in> insert c S" "c + 6536 < 2 ^ 64"
  shows "x \<noteq> 0" "x < 2 ^ 64"
  using assms by (auto simp: nodes_ok_def)

lemma insert_free_block_spec:
  assumes "mem_lists m c F" "nodes_ok c (insert b (listed F))" "b \<notin> listed F" "r < 800"
  obtains m' where "insert_free_block m c b (r div 32) (r mod 32) = Some m'" "mem_lists m' c (F(r := b # F r))"
    "\<And>x. x \<notin> ctl c \<union> link_bytes (insert b (listed F)) \<Longrightarrow> m' x = m x"
proof -
  let ?S = "insert b (listed F)" and ?cur = "hd0 c (F r)" and ?fl = "r div 32"
  have lo: "lists_ok (load64 m) (maps m c) c F" and c: "c + 6536 < 2 ^ 64" using assms(1) by (simp_all add: mem_lists_def)
  have curS: "?cur \<in> insert c ?S" using hd0_in [of c F r] by auto
  note na = node_address [OF assms(2) _ c]
  have small: "?cur < 2 ^ 64" "b < 2 ^ 64" "c < 2 ^ 64" "?cur \<noteq> 0" "b \<noteq> 0" using na curS by auto
  have fl: "?fl < 25" using assms(4) by (simp add: less_mult_imp_div_less)
  define m1 where "m1 = store64 m (b + 16) ?cur"
  define m2 where "m2 = store64 m1 (b + 24) c"
  define m3 where "m3 = store64 m2 (?cur + 24) b"
  define m4 where "m4 = store64 m3 (head_word c r) b"
  define m5 where "m5 = store32 m4 (map_word c 0) (maps m4 c 0 OR 2 ^ ?fl)"
  define m6 where "m6 = store32 m5 (map_word c (Suc ?fl)) (maps m5 c (Suc ?fl) OR 2 ^ (r mod 32))"
  have p: "plain c (b + 16)" "plain c (b + 24)" "plain c (?cur + 24)" "plain c (head_word c r)"
    using plain_words [OF assms(2)] curS by (auto simp: link_words_def)
  have w: "load64 m6 a = inserted (load64 m) c b r ?cur a" if "plain c a" for a
    using that p small fl unfolding m6_def m5_def m4_def m3_def m2_def m1_def inserted_def
    by (simp only: store_map(1) store_plain(1) fun_upd_apply le0 Suc_le_eq)
  have bm4: "maps m4 c i = maps m c i" if "i \<le> 25" for i
    using that p unfolding m4_def m3_def m2_def m1_def by (simp only: store_plain(2))
  have l32: "maps x c i < 2 ^ 32" for x i by (rule load32_less)
  have bm: "maps m6 c i = ((maps m c)(0 := maps m c 0 OR 2 ^ ?fl, Suc ?fl := maps m c (Suc ?fl) OR 2 ^ (r mod 32))) i"
    if "i \<le> 25" for i
  proof -
    have v: "maps x c j OR 2 ^ ?fl < 2 ^ 32" "maps x c j OR 2 ^ (r mod 32) < 2 ^ 32" for x j
      using or_exp_less [OF l32] fl by simp_all
    have "maps m5 c j = ((maps m c)(0 := maps m c 0 OR 2 ^ ?fl)) j" if "j \<le> 25" for j
      unfolding m5_def using store_map(2) [OF _ that v(1), of 0] that bm4 by simp
    then show ?thesis unfolding m6_def using store_map(2) [OF _ that v(2), of "Suc ?fl"] that fl by simp
  qed
  have "mem_lists m6 c (F(r := b # F r))"
    by (rule mem_listsI [OF _ c lists_ok_insert [OF assms(2,3) lo assms(4)] w bm]) (simp_all only: listed_cons assms(2))
  moreover have "insert_free_block m c b ?fl (r mod 32) = Some m6"
  proof -
    have b: "8 dvd b + 16" "b + 16 + 8 < 2 ^ 64" using assms(2) by (auto simp: nodes_ok_def)
    then have "block_to_ptr b = b + 16" by (simp add: block_to_ptr_def block_constants add64_id)
    then show ?thesis using align_ptr_8 [OF b] lists_okD(1) [OF lo assms(4)] small(4,5) fl
      by (simp add: insert_free_block_def head_at set_head_at maps_at link_fields insist_def Let_def tlsf_constants
          m6_def m5_def m4_def m3_def m2_def m1_def)
  qed
  moreover have "m6 x = m x" if "x \<notin> ctl c \<union> link_bytes ?S" for x
  proof -
    have "x \<notin> {b + 16 ..< b + 32}" "x \<notin> {?cur + 24 ..< ?cur + 32}" "x \<notin> ctl c"
      using that curS by (auto simp: link_bytes_def ctl_def)
    then show ?thesis using assms(4) fl unfolding m6_def m5_def m4_def m3_def m2_def m1_def
      by (auto simp: store32_other store64_other ctl_def map_word_def head_word_def)
  qed
  ultimately show thesis using that by blast
qed

lemma listed_remove:
  assumes "lists_ok w bm c F" "F r = xs @ b # ys"
  shows "listed (F(r := xs @ ys)) = listed F - {b}"
proof -
  have L: "listed G = set (G r) \<union> (\<Union>q \<in> - {r}. set (G q))" for G by (auto simp: listed_def)
  have "b \<notin> (\<Union>q \<in> - {r}. set (F q))" using lists_okD(6) [OF assms(1), of b] assms(2) by auto
  moreover have "distinct (xs @ b # ys)" using lists_okD(5) [OF assms(1), of r] unfolding assms(2) .
  ultimately show ?thesis unfolding L [of F] L [of "F(r := xs @ ys)"] using assms(2) by auto
qed

lemma remove_free_block_spec:
  assumes "mem_lists m c F" "r < 800" "F r = xs @ b # ys"
  obtains m' where "remove_free_block m c b (r div 32) (r mod 32) = Some m'" "mem_lists m' c (F(r := xs @ ys))"
    "\<And>x. x \<notin> ctl c \<union> link_bytes (listed F - {b}) \<Longrightarrow> m' x = m x"
proof -
  let ?p = "last0 c xs" and ?n = "hd0 c ys" and ?fl = "r div 32" and ?F = "F(r := xs @ ys)"
  have lo: "lists_ok (load64 m) (maps m c) c F" and c: "c + 6536 < 2 ^ 64" and nok: "nodes_ok c (listed F)"
    using assms(1) by (simp_all add: mem_lists_def)
  have FS: "set (F r) \<subseteq> listed F" by (auto simp: listed_def)
  have dist: "distinct (xs @ b # ys)" using lists_okD(5) [OF lo, of r] unfolding assms(3) .
  have pn: "?p \<in> insert c (listed F - {b})" "?n \<in> insert c (listed F - {b})"
    using FS assms(3) dist by (cases xs rule: rev_cases; cases ys; auto simp: last0_def)+
  then have pnS: "?p \<in> insert c (listed F)" "?n \<in> insert c (listed F)" by auto
  have small: "?p < 2 ^ 64" "?n < 2 ^ 64" "?p \<noteq> 0" "?n \<noteq> 0" using node_address [OF nok _ c] pnS by auto
  have fl: "?fl < 25" using assms(2) by (simp add: less_mult_imp_div_less)
  have un: "load64 m (b + 24) = ?p" "load64 m (b + 16) = ?n"
    using dlist_unlink(1,2) [OF nok _ dist] FS assms(3) lists_okD(2) [OF lo assms(2)] by simp_all
  define m2 where "m2 = store64 (store64 m (?n + 24) ?p) (?p + 16) ?n"
  define m3 where "m3 = (if xs = [] then store64 m2 (head_word c r) ?n else m2)"
  define s where "s = and_not (maps m3 c (Suc ?fl)) (2 ^ (r mod 32))"
  define m4 where "m4 = store32 m3 (map_word c (Suc ?fl)) s"
  define m5 where "m5 = (if xs = [] \<and> ys = [] then
      if s = 0 then store32 m4 (map_word c 0) (and_not (maps m4 c 0) (2 ^ ?fl)) else m4 else m3)"
  have p: "plain c (?n + 24)" "plain c (?p + 16)" "plain c (head_word c r)"
    using plain_words [OF nok] pnS by (auto simp: link_words_def)
  have w2: "load64 m2 a = unlinked (load64 m) ?p ?n a" if "plain c a" for a
    unfolding m2_def unlinked_def
    by (simp only: fun_upd_apply store_plain(1) [OF p(1) that small(1)] store_plain(1) [OF p(2) that small(2)])
  have w3: "load64 m3 a = removed_words (load64 m) c r xs ys a" if "plain c a" for a
    using w2 [OF that] store_plain(1) [OF p(3) that small(2), of m2] by (simp add: m3_def removed_words_def Let_def)
  have l32: "maps x c i < 2 ^ 32" for x i by (rule load32_less)
  have an: "and_not x y < 2 ^ 32" if "x < 2 ^ 32" for x y :: nat using that by (auto simp: and_not_def)
  have bm3: "maps m3 c i = maps m c i" if "i \<le> 25" for i
  proof -
    have "maps m2 c i = maps m c i"
      unfolding m2_def by (simp only: store_plain(2) [OF p(1) that] store_plain(2) [OF p(2) that])
    then show ?thesis using store_plain(2) [OF p(3) that, of m2] by (simp add: m3_def)
  qed
  have w5: "load64 m5 a = removed_words (load64 m) c r xs ys a" if "plain c a" for a
    using w3 [OF that] store_map(1) [OF _ that, of "Suc ?fl"] store_map(1) [OF _ that, of 0] fl by (simp add: m5_def m4_def)
  have bm5: "maps m5 c i = removed_maps (maps m c) r xs ys i" if "i \<le> 25" for i
  proof -
    have s': "s = and_not (maps m c (Suc ?fl)) (2 ^ (r mod 32))" using bm3 [of "Suc ?fl"] fl by (simp add: s_def)
    have b4: "maps m4 c j = ((maps m c)(Suc ?fl := s)) j" if "j \<le> 25" for j
      using store_map(2) [OF _ that an [OF l32], of "Suc ?fl"] fl bm3 [OF that] unfolding m4_def s_def by simp
    have "maps (store32 m4 (map_word c 0) (and_not (maps m4 c 0) (2 ^ ?fl))) c i =
        ((maps m c)(Suc ?fl := s, 0 := and_not (maps m c 0) (2 ^ ?fl))) i"
      using store_map(2) [OF _ that an [OF l32], of 0] b4 [OF that] b4 [of 0] by simp
    then show ?thesis using b4 [OF that] bm3 [OF that]
      by (auto simp: m5_def removed_maps_def cleared_def Let_def s' [symmetric])
  qed
  have lF: "listed ?F = listed F - {b}" by (rule listed_remove [OF lo assms(3)])
  have "nodes_ok c (listed ?F)" using nok lF by (auto simp: nodes_ok_def)
  then have "mem_lists m5 c ?F"
    by (rule mem_listsI [OF _ c lists_ok_remove [OF nok lo assms(2,3) l32] w5 bm5])
  moreover have "remove_free_block m c b ?fl (r mod 32) = Some m5"
  proof -
    have "load64 m2 (head_word c r) = load64 m (head_word c r)"
      using w2 [OF p(3)] head_not_link [OF nok pnS(1) assms(2), of "?p + 16"] head_not_link [OF nok pnS(2) assms(2), of "?n + 24"]
      by (auto simp: unlinked_def link_words_def)
    then have hd: "load64 m2 (head_word c r) = b \<longleftrightarrow> xs = []"
      using lists_okD(1) [OF lo assms(2)] assms(3) dist by (cases xs) auto
    have nc: "?n = c \<longleftrightarrow> ys = []" using nodes_okD(1) [OF nok] FS assms(3) by (cases ys) auto
    have run: "remove_free_block m c b ?fl (r mod 32) = Some (if load64 m2 (head_word c r) = b
        then let m' = store64 m2 (head_word c r) ?n in if ?n = c then clear_head m' c ?fl (r mod 32) else m' else m2)"
      unfolding remove_free_block_def link_fields head_at set_head_at un m2_def using small(3,4) fl
      by (simp add: insist_def tlsf_constants Let_def)
    have "maps m4 c (Suc ?fl) = s"
      using store_map(2) [of "Suc ?fl" "Suc ?fl" s m3 c] fl an [OF l32] unfolding m4_def s_def by simp
    then have "clear_head m3 c ?fl (r mod 32) = (if s = 0 then store32 m4 (map_word c 0) (and_not (maps m4 c 0) (2 ^ ?fl)) else m4)"
      unfolding clear_head_def maps_at by (simp only: s_def [symmetric] m4_def [symmetric] Let_def)
    then show ?thesis unfolding run hd nc m5_def by (cases "xs = []"; cases "ys = []") (simp_all add: m3_def Let_def)
  qed
  moreover have "m5 x = m x" if "x \<notin> ctl c \<union> link_bytes (listed F - {b})" for x
  proof -
    have "x \<notin> {?n + 16 ..< ?n + 32}" "x \<notin> {?p + 16 ..< ?p + 32}" "x \<notin> ctl c"
      using that pn by (auto simp: link_bytes_def ctl_def)
    then show ?thesis using assms(2) fl unfolding m5_def m4_def m3_def m2_def
      by (auto simp: store32_other store64_other ctl_def map_word_def head_word_def)
  qed
  ultimately show thesis using that by blast
qed

section \<open>The search\<close>

lemma lists_bit:
  assumes "mem_lists m c F" "fl < 25" "bit (maps m c (Suc fl)) j"
  shows "j < 32" "F (32 * fl + j) \<noteq> []"
proof -
  show j: "j < 32"
  proof (rule ccontr)
    assume "\<not> j < 32"
    then have "maps m c (Suc fl) < 2 ^ j" using load32_less [of m] power_increasing [of 32 j "2::nat"] by (meson not_le_imp_less less_le_trans one_le_numeral)
    then show False using assms(3) by (simp add: bit_iff_odd)
  qed
  have "(32 * fl + j) div 32 = fl" "(32 * fl + j) mod 32 = j" "32 * fl + j < 800" using j assms(2) by auto
  then show "F (32 * fl + j) \<noteq> []"
    using lists_okD(3) [of "load64 m" "maps m c" c F "32 * fl + j"] assms(1,3) by (simp add: mem_lists_def)
qed

lemma search_row:
  assumes "mem_lists m c F" "fl < 25" "w \<noteq> 0" "\<And>j. bit w j \<Longrightarrow> bit (maps m c (Suc fl)) j"
  obtains j where "nat (tlsf_ffs w) = j" "bit w j" "j < 32" "F (32 * fl + j) \<noteq> []" "list_head m c fl j = hd (F (32 * fl + j))"
proof -
  obtain j where j: "tlsf_ffs w = int j" "bit w j" using tlsf_ffs_spec [OF assms(3)] by metis
  note b = lists_bit [OF assms(1,2) assms(4) [OF j(2)]]
  let ?q = "32 * fl + j"
  have q: "?q div 32 = fl" "?q mod 32 = j" "?q < 800" using b(1) assms(2) by auto
  then have "list_head m c fl j = hd0 c (F ?q)"
    using head_at [of m c ?q] lists_okD(1) [of "load64 m" "maps m c" c F ?q] assms(1) by (simp add: mem_lists_def)
  then show thesis using that [of j] j b by (cases "F ?q") auto
qed

lemma search_suitable_block_spec:
  assumes "mem_lists m c F" "r < 800"
  obtains (none) "\<forall>q \<ge> r. F q = []" "search_suitable_block m c (r div 32) (r mod 32) = Some (0, r div 32, r mod 32)"
  | (found) q where "r \<le> q" "q < 800" "F q \<noteq> []"
      "search_suitable_block m c (r div 32) (r mod 32) = Some (hd (F q), q div 32, q mod 32)"
proof -
  let ?fl = "r div 32" and ?sl = "r mod 32"
  let ?row = "maps m c (Suc ?fl) AND ones_from ?sl" and ?rows = "maps m c 0 AND ones_from (?fl + 1)"
  have lo: "lists_ok (load64 m) (maps m c) c F" using assms(1) by (simp add: mem_lists_def)
  have fl: "?fl < 25" using assms(2) by (simp add: less_mult_imp_div_less)
  have row: "bit ?row j \<longleftrightarrow> bit (maps m c (Suc ?fl)) j \<and> ?sl \<le> j" for j
    using bit_ones_from [of ?sl j] lists_bit(1) [OF assms(1) fl, of j] by (auto simp: bit_and_iff)
  have top: "bit (maps m c 0) i \<Longrightarrow> i < 25" for i
    using lists_okD(4) [OF lo, of i] by (auto simp: less_mult_imp_div_less)
  have rows: "bit ?rows i \<longleftrightarrow> bit (maps m c 0) i \<and> ?fl < i" for i
    using bit_ones_from [of "?fl + 1" i] top [of i] fl by (auto simp: bit_and_iff)
  have r: "32 * ?fl + ?sl = r" by simp
  show thesis
  proof (cases "?row = 0")
    case False
    then obtain j where j: "nat (tlsf_ffs ?row) = j" "bit ?row j" "j < 32" "F (32 * ?fl + j) \<noteq> []"
      "list_head m c ?fl j = hd (F (32 * ?fl + j))"
      using search_row [OF assms(1) fl False] row by blast
    have q: "(32 * ?fl + j) div 32 = ?fl" "(32 * ?fl + j) mod 32 = j" "32 * ?fl + j < 800" using j(3) fl by auto
    have le: "r \<le> 32 * ?fl + j" using j(2) row [of j] r by linarith
    have "search_suitable_block m c ?fl ?sl = Some (hd (F (32 * ?fl + j)), ?fl, j)"
      using False j(1,5) by (simp add: search_suitable_block_def maps_at Let_def)
    then show thesis using found [OF le q(3) j(4)] q(1,2) by simp
  next
    case True
    have none_here: "F q = []" if "q div 32 = ?fl" "r \<le> q" for q
    proof (rule ccontr)
      assume ne: "F q \<noteq> []"
      have "?sl \<le> q mod 32" using that r div_mult_mod_eq [of q 32] by (metis add.commute add_le_cancel_right mult.commute)
      then have "bit ?row (q mod 32)" using row lists_okD(3) [OF lo lists_okD(7) [OF lo ne]] ne that(1) by simp
      then show False using True by simp
    qed
    have above: "?fl < q div 32" if "r \<le> q" "q div 32 \<noteq> ?fl" for q using that div_le_mono [of r q 32] by simp
    show thesis
    proof (cases "?rows = 0")
      case True
      have "F q = []" if "r \<le> q" for q
      proof (rule ccontr)
        assume ne: "F q \<noteq> []"
        then have "?fl < q div 32" using above none_here that by blast
        then have "bit ?rows (q div 32)" using rows lists_okD(4) [OF lo] lists_okD(7) [OF lo ne] ne by blast
        then show False using True by simp
      qed
      then show thesis using none \<open>?row = 0\<close> True by (simp add: search_suitable_block_def maps_at Let_def)
    next
      case False
      then obtain i where i: "tlsf_ffs ?rows = int i" "bit ?rows i" using tlsf_ffs_spec [OF False] by metis
      then have i2: "i < 25" "?fl < i" "bit (maps m c 0) i" using rows top by blast+
      obtain q where "q < 800" "q div 32 = i" "F q \<noteq> []" using lists_okD(4) [OF lo] i2(3) by blast
      then have "bit (maps m c (Suc i)) (q mod 32)" using lists_okD(3) [OF lo, of q] by simp
      then have "maps m c (Suc i) \<noteq> 0" by (metis bit_0_eq bot_apply bot_bool_def)
      then obtain j where j: "nat (tlsf_ffs (maps m c (Suc i))) = j" "j < 32" "F (32 * i + j) \<noteq> []"
        "list_head m c i j = hd (F (32 * i + j))"
        using search_row [OF assms(1) i2(1)] by blast
      have q: "(32 * i + j) div 32 = i" "(32 * i + j) mod 32 = j" "32 * i + j < 800" using j(2) i2(1) by auto
      have "r \<le> 32 * i + j" using r i2(2) mod_less_divisor [of 32 r] by linarith
      moreover have "search_suitable_block m c ?fl ?sl = Some (hd (F (32 * i + j)), i, j)"
        using \<open>?row = 0\<close> False i(1) i2(1) j(1,4) \<open>maps m c (Suc i) \<noteq> 0\<close>
        by (simp add: search_suitable_block_def maps_at Let_def insist_def tlsf_constants)
      ultimately show thesis using found [OF _ q(3) j(3)] q(1,2) by simp
    qed
  qed
qed

end
