(* ===== verification/Tlsf_Layout.thy ===== *)
theory Tlsf_Layout
  imports Tlsf_Free
begin

text \<open>
  The physical layout of a pool of \<open>tlsf.c\<close>: blocks that follow one another up to a sentinel of
  size 0. The header of a block has its size, whether it is free and whether the block before
  it is free; the last word of a free block is the address of the block, where the next block
  looks for it. Marking, splitting and merging are shown on the blocks from one address on.
\<close>

section \<open>Header words\<close>

definition hdr :: "nat \<Rightarrow> bool \<Rightarrow> bool \<Rightarrow> nat" where
  "hdr n f p = n + of_bool f + 2 * of_bool p"

lemma bit_hdr: "bit (hdr (4 * k) f p) i = (if i = 0 then f else if i = 1 then p else bit k (i - 2))"
proof -
  have e: "hdr (4 * k) f p = of_bool f + 2 * (of_bool p + 2 * k)" by (simp add: hdr_def)
  have S: "bit (of_bool x + 2 * a) (Suc j) = bit a j" and Z: "bit (of_bool x + 2 * a) 0 = x" for x j and a :: nat
    by (cases x; simp add: bit_0 bit_Suc)+
  have "bit (of_bool p + 2 * k) j = (if j = 0 then p else bit k (j - 1))" for j
    by (cases j) (simp_all only: S Z if_True if_False diff_Suc_1 nat.distinct simp_thms)
  then show ?thesis unfolding e by (cases i) (simp_all only: S Z, auto)
qed

lemma and_3: "n AND 3 = n mod (4 :: nat)"
  using take_bit_eq_mask [of 2 n] by (simp add: mask_eq_exp_minus_1 take_bit_eq_mod)

lemma hdr_mod: "4 dvd n \<Longrightarrow> hdr n f p mod 4 = of_bool f + 2 * of_bool p"
  unfolding hdr_def by (cases f; cases p; simp; presburger)

lemma hdr_cases:
  obtains n f p where "x = hdr n f p" "4 dvd n"
proof -
  have "x mod 4 = 0 \<or> x mod 4 = 1 \<or> x mod 4 = 2 \<or> x mod 4 = 3" by presburger
  moreover have "4 dvd x - x mod 4" "x = (x - x mod 4) + x mod 4" by simp_all
  ultimately show thesis
    using that [of "x - x mod 4" "x mod 4 = 1 \<or> x mod 4 = 3" "2 \<le> x mod 4"] by (auto simp: hdr_def)
qed

lemma hdr_or:
  assumes "4 dvd n"
  shows "hdr n f p OR 1 = hdr n True p" "hdr n f p OR 2 = hdr n f True"
    "and_not (hdr n f p) 1 = hdr n False p" "and_not (hdr n f p) 2 = hdr n f False" "and_not (hdr n f p) 3 = n"
    "(hdr n f p AND 1 \<noteq> 0) = f" "(hdr n f p AND 2 \<noteq> 0) = p"
proof -
  obtain k where n: "n = 4 * k" using assms by (elim dvdE)
  have b1: "bit (Suc 0) i \<longleftrightarrow> i = 0" and b2: "bit (2::nat) i \<longleftrightarrow> i = 1" for i
    using bit_exp_iff [of 0 i, where ?'a = nat] bit_exp_iff [of 1 i, where ?'a = nat] by auto
  show "hdr n f p OR 1 = hdr n True p" "hdr n f p OR 2 = hdr n f True"
    unfolding n by (rule bit_eqI, auto simp: bit_hdr bit_or_iff b1 b2)+
  show "and_not (hdr n f p) 1 = hdr n False p" "and_not (hdr n f p) 2 = hdr n f False"
    unfolding n by (rule bit_eqI, auto simp: bit_hdr bit_and_not b1 b2)+
  show "and_not (hdr n f p) 3 = n" using hdr_mod [OF assms] by (simp add: and_not_def and_3 hdr_def)
  show "(hdr n f p AND 1 \<noteq> 0) = f" using bit_hdr [of k f p 0] and_exp_eq_0_iff_not_bit [of "hdr n f p" 0] n by simp
  show "(hdr n f p AND 2 \<noteq> 0) = p" using bit_hdr [of k f p 1] and_exp_eq_0_iff_not_bit [of "hdr n f p" 1] n by simp
qed

lemma hdr_set_size:
  assumes "4 dvd n" "4 dvd k"
  shows "k OR (hdr n f p AND 3) = hdr k f p"
proof -
  obtain j where k: "k = 4 * j" using assms(2) by (elim dvdE)
  have "k AND (of_bool f + 2 * of_bool p) = 0"
  proof (rule bit_eqI)
    fix i
    have "bit k i \<longleftrightarrow> bit (hdr (4 * j) False False) i" by (simp add: hdr_def k)
    moreover have "hdr (4 * 0) f p = of_bool f + 2 * of_bool p" by (simp add: hdr_def)
    then have "bit (of_bool f + 2 * of_bool p :: nat) i \<longleftrightarrow> (if i = 0 then f else if i = 1 then p else bit (0::nat) (i - 2))"
      using bit_hdr [of 0 f p i] by (simp only:)
    ultimately show "bit (k AND (of_bool f + 2 * of_bool p)) i = bit 0 i" by (simp add: bit_and_iff bit_hdr)
  qed
  from disjunctive_add_eq_or [OF this] show ?thesis
    unfolding and_3 hdr_mod [OF assms(1)] by (simp only: hdr_def add.assoc)
qed

lemma hdr_less: "n + 4 \<le> k \<Longrightarrow> hdr n f p < k"
  by (cases f; cases p) (simp_all add: hdr_def)

text \<open>The operations on a header.\<close>

lemma header_ops:
  assumes "size_field m b = hdr n f p" "4 dvd n"
  shows "block_size m b = n" "block_is_free m b = f" "block_is_prev_free m b = p" "block_is_last m b = (n = 0)"
    "block_set_free m b = store64 m (b + 8) (hdr n True p)" "block_set_used m b = store64 m (b + 8) (hdr n False p)"
    "block_set_prev_free m b = store64 m (b + 8) (hdr n f True)" "block_set_prev_used m b = store64 m (b + 8) (hdr n f False)"
    "4 dvd k \<Longrightarrow> block_set_size m b k = store64 m (b + 8) (hdr k f p)"
proof -
  have o: "(1::nat) OR 2 = 3" by code_simp
  note d = block_size_def block_is_free_def block_is_prev_free_def block_is_last_def block_set_free_def block_set_used_def
    block_set_prev_free_def block_set_prev_used_def block_set_size_def set_size_field_def
    block_header_free_bit_def block_header_prev_free_bit_def o
  show "block_size m b = n" "block_is_free m b = f" "block_is_prev_free m b = p" "block_is_last m b = (n = 0)"
    "block_set_free m b = store64 m (b + 8) (hdr n True p)" "block_set_used m b = store64 m (b + 8) (hdr n False p)"
    "block_set_prev_free m b = store64 m (b + 8) (hdr n f True)" "block_set_prev_used m b = store64 m (b + 8) (hdr n f False)"
    using hdr_or [OF assms(2), of f p] by (simp_all only: d assms(1))
  show "4 dvd k \<Longrightarrow> block_set_size m b k = store64 m (b + 8) (hdr k f p)"
    using hdr_set_size [OF assms(2)] by (simp only: d assms(1))
qed

section \<open>Layouts\<close>

type_synonym tlsf_block = "addr \<times> nat \<times> bool"

fun layout :: "bytes \<Rightarrow> addr \<Rightarrow> bool \<Rightarrow> tlsf_block list \<Rightarrow> addr \<Rightarrow> bool" where
  "layout m b pf [] e \<longleftrightarrow> b = e \<and> size_field m e = hdr 0 False pf"
| "layout m b pf ((x, n, f) # bs) e \<longleftrightarrow> x = b \<and> 24 \<le> n \<and> 8 dvd n \<and> size_field m b = hdr n f pf \<and>
     (f \<longrightarrow> load64 m (b + 8 + n) = b) \<and> layout m (b + 8 + n) f bs e"

fun segment :: "bytes \<Rightarrow> addr \<Rightarrow> bool \<Rightarrow> tlsf_block list \<Rightarrow> addr \<Rightarrow> bool \<Rightarrow> bool" where
  "segment m b pf [] b' pf' \<longleftrightarrow> b = b' \<and> pf = pf'"
| "segment m b pf ((x, n, f) # bs) b' pf' \<longleftrightarrow> x = b \<and> 24 \<le> n \<and> 8 dvd n \<and> size_field m b = hdr n f pf \<and>
     (f \<longrightarrow> load64 m (b + 8 + n) = b) \<and> segment m (b + 8 + n) f bs b' pf'"

lemma layout_append: "layout m b pf (xs @ ys) e \<longleftrightarrow> (\<exists>b' pf'. segment m b pf xs b' pf' \<and> layout m b' pf' ys e)"
  by (induction m b pf xs e rule: layout.induct) auto

lemma segment_append: "segment m b pf (xs @ ys) e g \<longleftrightarrow> (\<exists>b' pf'. segment m b pf xs b' pf' \<and> segment m b' pf' ys e g)"
  by (induction m b pf xs e g rule: segment.induct) auto

lemma layout_le: "layout m b pf bs e \<Longrightarrow> b \<le> e"
  by (induction m b pf bs e rule: layout.induct) auto

lemma segment_le: "segment m b pf bs e g \<Longrightarrow> b \<le> e"
  by (induction m b pf bs e g rule: segment.induct) auto

lemma layout_cong: "layout m b pf bs e \<Longrightarrow> (\<And>x. b + 8 \<le> x \<Longrightarrow> x < e + 16 \<Longrightarrow> m' x = m x) \<Longrightarrow> layout m' b pf bs e"
proof (induction m b pf bs e rule: layout.induct)
  case (1 m b pf e)
  have "size_field m' e = size_field m e" unfolding size_field_def by (rule load64_cong) (use 1 in auto)
  then show ?case using 1 by simp
next
  case (2 m b pf x n f bs e)
  then have le: "b + 8 + n \<le> e" using layout_le by auto
  have "size_field m' b = size_field m b" unfolding size_field_def by (rule load64_cong) (use 2 le in auto)
  moreover have "load64 m' (b + 8 + n) = load64 m (b + 8 + n)" by (rule load64_cong) (use 2 le in auto)
  ultimately show ?case using 2 by auto
qed

lemma segment_cong: "segment m b pf bs e g \<Longrightarrow> (\<And>x. b + 8 \<le> x \<Longrightarrow> x < e + 8 \<Longrightarrow> m' x = m x) \<Longrightarrow> segment m' b pf bs e g"
proof (induction bs arbitrary: b pf)
  case (Cons y bs)
  obtain x n f where y: "y = (x, n, f)" by (cases y)
  then have le: "b + 8 + n \<le> e" using Cons.prems(1) segment_le by auto
  have "size_field m' b = size_field m b" unfolding size_field_def by (rule load64_cong) (use Cons.prems y le in auto)
  moreover have "load64 m' (b + 8 + n) = load64 m (b + 8 + n)" by (rule load64_cong) (use Cons.prems le in auto)
  moreover have "segment m' (b + 8 + n) f bs e g" using Cons y by auto
  ultimately show ?case using Cons.prems(1) y by auto
qed simp

text \<open>The header at the start of a layout, and what a new value of its last flag does.\<close>

lemma layout_header:
  assumes "layout m b pf bs e"
  obtains k g where "size_field m b = hdr k g pf" "8 dvd k" "b + k \<le> e"
proof (cases bs)
  case Nil
  then show ?thesis using assms that [of 0 False] by auto
next
  case (Cons y ys)
  obtain x n f where y: "y = (x, n, f)" by (cases y)
  then have "b + 8 + n \<le> e" using assms Cons layout_le by auto
  then show ?thesis using assms Cons y that [of n f] by auto
qed

lemma layout_set_prev:
  assumes "layout m b pf bs e" "size_field m b = hdr k g pf" "e + 24 < 2 ^ 64" "4 dvd k"
  shows "layout (store64 m (b + 8) (hdr k g pf')) b pf' bs e"
proof -
  let ?m = "store64 m (b + 8) (hdr k g pf')"
  have kk: "k \<le> e"
  proof -
    obtain k' g' where k': "size_field m b = hdr k' g' pf" "8 dvd k'" "b + k' \<le> e" using layout_header [OF assms(1)] .
    then have "4 dvd k'" by (metis dvd_trans dvd_triv_left mult_2_right numeral_Bit0 numeral_times_numeral)
    then have "k = k'" using header_ops(1) [of m b k g pf] header_ops(1) [of m b k' g' pf] k'(1) assms(2,4) by simp
    then show ?thesis using k'(3) by simp
  qed
  then have s: "size_field ?m b = hdr k g pf'"
    using hdr_less [of k "2 ^ 64" g pf'] assms(3) by (simp add: size_field_def load_store64)
  show ?thesis
  proof (cases bs)
    case Nil
    then have "hdr k g pf = hdr 0 False pf" "b = e" using assms(1,2) by simp_all
    then have "k = 0 \<and> \<not> g" by (cases g) (auto simp: hdr_def)
    then show ?thesis using Nil s \<open>b = e\<close> by simp
  next
    case (Cons y ys)
    obtain x n f where y: "y = (x, n, f)" by (cases y)
    have l: "24 \<le> n" "8 dvd n" "size_field m b = hdr n f pf" "x = b" "f \<longrightarrow> load64 m (b + 8 + n) = b"
      "layout m (b + 8 + n) f ys e" using assms(1) Cons y by auto
    have "4 dvd n" using l(2) by (metis dvd_trans dvd_triv_left mult_2_right numeral_Bit0 numeral_times_numeral)
    then have "n = k" "f = g"
      using header_ops(1,2) [of m b n f pf] header_ops(1,2) [of m b k g pf] l(3) assms(2,4) by simp_all
    moreover have "load64 ?m (b + 8 + n) = load64 m (b + 8 + n)" using l(1) by (intro load64_store64_disjoint) simp
    moreover have "layout ?m (b + 8 + n) f ys e" by (rule layout_cong [OF l(6)]) (use l(1) in \<open>simp add: store64_other\<close>)
    ultimately show ?thesis using Cons y s l by (cases g) simp_all
  qed
qed

section \<open>Operations on the first block of a layout\<close>

lemma dvd_8_4: "8 dvd n \<Longrightarrow> 4 dvd (n :: nat)"
  by (rule dvd_trans [of 4 8]) simp_all

lemma next_block:
  assumes "size_field m b = hdr n f p" "8 dvd n" "24 \<le> n" "b + n + 24 < 2 ^ 64"
  shows "block_next m b = Some (b + 8 + n)"
proof -
  have n: "block_size m b = n" "\<not> block_is_last m b" using header_ops(1,4) [OF assms(1) dvd_8_4 [OF assms(2)]] assms(3) by simp_all
  have "sub64 n 8 = n - 8" using assms(3,4) by (intro sub64_id) simp_all
  moreover have "add64 b 16 = b + 16" using assms(4) by (intro add64_id) simp
  moreover have "add64 (b + 16) (n - 8) = b + 8 + n" using assms(3,4) by (subst add64_id) simp_all
  ultimately show ?thesis using n by (simp add: block_next_def offset_to_block_def block_to_ptr_def block_constants insist_def)
qed

text \<open>A block and what follows it; the memory below its header is not part of it.\<close>

lemma layout_block:
  assumes "layout m b pf ((b, n, f) # ys) e" "e + 24 < 2 ^ 64"
  shows "24 \<le> n" "8 dvd n" "4 dvd n" "size_field m b = hdr n f pf" "layout m (b + 8 + n) f ys e" "b + 8 + n \<le> e"
    "b + n + 24 < 2 ^ 64" "f \<Longrightarrow> load64 m (b + 8 + n) = b"
    "block_size m b = n" "block_is_free m b = f" "block_is_prev_free m b = pf" "block_next m b = Some (b + 8 + n)"
proof -
  show l: "24 \<le> n" "8 dvd n" "size_field m b = hdr n f pf" "layout m (b + 8 + n) f ys e" "f \<Longrightarrow> load64 m (b + 8 + n) = b"
    using assms(1) by auto
  show d: "4 dvd n" using l(2) by (rule dvd_8_4)
  show le: "b + 8 + n \<le> e" using layout_le [OF l(4)] .
  then show "b + n + 24 < 2 ^ 64" using assms(2) by simp
  then show "block_next m b = Some (b + 8 + n)" using next_block [OF l(3,2,1)] by simp
  show "block_size m b = n" "block_is_free m b = f" "block_is_prev_free m b = pf" using header_ops(1-3) [OF l(3) d] by simp_all
qed

lemma size_field_store:
  assumes "n + 4 \<le> 2 ^ 64"
  shows "size_field (store64 m (b + 8) (hdr n f p)) b = hdr n f p"
  using hdr_less [OF assms] by (simp add: size_field_def load_store64)

lemma mark_used_layout:
  assumes "layout m b pf ((b, n, True) # ys) e" "e + 24 < 2 ^ 64"
  obtains m' where "block_mark_as_used m b = Some m'" "layout m' b pf ((b, n, False) # ys) e"
    "\<And>x. x \<notin> {b + 8 ..< b + 16} \<union> {b + 16 + n ..< b + 24 + n} \<Longrightarrow> m' x = m x"
proof -
  note l = layout_block [OF assms]
  let ?a = "b + 8 + n"
  obtain k g where k: "size_field m ?a = hdr k g True" "8 dvd k" "?a + k \<le> e" using layout_header [OF l(5)] .
  define m1 where "m1 = store64 m (?a + 8) (hdr k g False)"
  define m2 where "m2 = store64 m1 (b + 8) (hdr n False pf)"
  have "size_field m1 b = size_field m b"
    unfolding size_field_def m1_def using l(1) by (intro load64_store64_disjoint) simp
  then have s1: "size_field m1 b = hdr n True pf" using l(4) by simp
  have "block_set_prev_used m ?a = m1" using header_ops(8) [OF k(1) dvd_8_4 [OF k(2)]] by (simp add: m1_def)
  moreover have "block_set_used m1 b = m2" using header_ops(6) [OF s1 l(3)] by (simp add: m2_def)
  ultimately have run: "block_mark_as_used m b = Some m2" using l(12) by (simp add: block_mark_as_used_def)
  have "layout m1 ?a False ys e" unfolding m1_def by (rule layout_set_prev [OF l(5) k(1) assms(2) dvd_8_4 [OF k(2)]])
  then have "layout m2 ?a False ys e"
    by (rule layout_cong) (use l(1) in \<open>simp add: m2_def store64_other\<close>)
  moreover have "size_field m2 b = hdr n False pf" unfolding m2_def using l(7) by (intro size_field_store) simp
  ultimately have "layout m2 b pf ((b, n, False) # ys) e" using l(1,2) by simp
  moreover have "m2 x = m x" if "x \<notin> {b + 8 ..< b + 16} \<union> {b + 16 + n ..< b + 24 + n}" for x
    using that by (auto simp: m2_def m1_def store64_other)
  ultimately show thesis using that run by blast
qed

lemma mark_free_layout:
  assumes "layout m b pf ((b, n, False) # ys) e" "e + 24 < 2 ^ 64"
  obtains m' where "block_mark_as_free m b = Some m'" "layout m' b pf ((b, n, True) # ys) e"
    "\<And>x. x \<notin> {b + 8 ..< b + 16} \<union> {b + 8 + n ..< b + 24 + n} \<Longrightarrow> m' x = m x"
proof -
  note l = layout_block [OF assms]
  let ?a = "b + 8 + n"
  obtain k g where k: "size_field m ?a = hdr k g False" "8 dvd k" "?a + k \<le> e" using layout_header [OF l(5)] .
  define m0 where "m0 = store64 m ?a b"
  define m1 where "m1 = store64 m0 (?a + 8) (hdr k g True)"
  define m2 where "m2 = store64 m1 (b + 8) (hdr n True pf)"
  have link: "block_link_next m b = Some (?a, m0)" using l(12) by (simp add: block_link_next_def set_prev_phys_block_def m0_def)
  have k0: "size_field m0 ?a = hdr k g False"
    using k(1) unfolding size_field_def m0_def by (subst load64_store64_disjoint) simp_all
  have "size_field m1 b = size_field m b"
    unfolding size_field_def m1_def m0_def using l(1) by (subst load64_store64_disjoint; (subst load64_store64_disjoint)?; simp)
  then have s1: "size_field m1 b = hdr n False pf" using l(4) by simp
  have "block_set_prev_free m0 ?a = m1" using header_ops(7) [OF k0 dvd_8_4 [OF k(2)]] by (simp add: m1_def)
  moreover have "block_set_free m1 b = m2" using header_ops(5) [OF s1 l(3)] by (simp add: m2_def)
  ultimately have run: "block_mark_as_free m b = Some m2" using link by (simp add: block_mark_as_free_def)
  have "layout m0 ?a False ys e" by (rule layout_cong [OF l(5)]) (simp add: m0_def store64_other)
  then have "layout m1 ?a True ys e" unfolding m1_def by (rule layout_set_prev [OF _ k0 assms(2) dvd_8_4 [OF k(2)]])
  then have "layout m2 ?a True ys e" by (rule layout_cong) (use l(1) in \<open>simp add: m2_def store64_other\<close>)
  moreover have "size_field m2 b = hdr n True pf" unfolding m2_def using l(7) by (intro size_field_store) simp
  moreover have "load64 m2 ?a = b"
    unfolding m2_def m1_def m0_def using l(1,7) by (subst load64_store64_disjoint, simp, subst load64_store64_disjoint, simp, subst load_store64) simp_all
  ultimately have "layout m2 b pf ((b, n, True) # ys) e" using l(1,2) by simp
  moreover have "m2 x = m x" if "x \<notin> {b + 8 ..< b + 16} \<union> {b + 8 + n ..< b + 24 + n}" for x
    using that by (auto simp: m2_def m1_def m0_def store64_other)
  ultimately show thesis using that run by blast
qed

text \<open>A free block takes in the free block behind it.\<close>

lemma absorb_layout:
  assumes "layout m b pf ((b, n, True) # (b', k, True) # ys) e" "e + 24 < 2 ^ 64"
  obtains m' where "block_absorb m b b' = Some (b, m')" "layout m' b pf ((b, n + k + 8, True) # ys) e"
    "\<And>x. x \<notin> {b + 8 ..< b + 16} \<union> {b + 16 + n + k ..< b + 24 + n + k} \<Longrightarrow> m' x = m x"
proof -
  note l = layout_block [OF assms]
  have b': "b' = b + 8 + n" using l(5) by simp
  note l' = layout_block [OF l(5) [unfolded b'] assms(2)]
  let ?n = "n + k + 8" and ?a = "b + 16 + n + k"
  have fits: "hdr n True pf + (k + 8) = hdr ?n True pf" by (simp add: hdr_def)
  have lt: "hdr ?n True pf < 2 ^ 64" using l'(7) by (intro hdr_less) simp
  define m1 where "m1 = store64 m (b + 8) (hdr ?n True pf)"
  define m2 where "m2 = store64 m1 ?a b"
  have s1: "size_field m1 b = hdr ?n True pf" unfolding m1_def using l'(7) by (intro size_field_store) simp
  have "add64 (size_field m b) (add64 (block_size m b') 8) = hdr ?n True pf"
    using l(4) l'(9) fits lt l'(7) by (simp add: b' add64_id)
  moreover have d: "8 dvd ?n" using l(2) l'(2) by simp
  moreover have "block_next m1 b = Some ?a" using next_block [OF s1 d] l'(7) l(1) by (simp add: ac_simps)
  moreover have "\<not> block_is_last m b" using header_ops(4) [OF l(4,3)] l(1) by simp
  ultimately have run: "block_absorb m b b' = Some (b, m2)"
    by (simp add: block_absorb_def block_link_next_def set_prev_phys_block_def set_size_field_def block_constants
        insist_def m1_def m2_def)
  have "layout m2 ?a True ys e"
    by (rule layout_cong [OF l'(5) [THEN back_subst [of "\<lambda>a. layout m a True ys e"]]])
      (use l(1) in \<open>auto simp: m1_def m2_def store64_other\<close>)
  moreover have "size_field m2 b = hdr ?n True pf"
    using s1 l(1) unfolding size_field_def m2_def by (subst load64_store64_disjoint) simp_all
  moreover have "load64 m2 ?a = b" unfolding m2_def using l(7) by (subst load_store64) simp_all
  ultimately have "layout m2 b pf ((b, ?n, True) # ys) e" using l(1) d by (simp add: ac_simps)
  moreover have "m2 x = m x" if "x \<notin> {b + 8 ..< b + 16} \<union> {b + 16 + n + k ..< b + 24 + n + k}" for x
    using that by (auto simp: m2_def m1_def store64_other)
  ultimately show thesis using that run by blast
qed

end
