(* ===== verification/Tlsf_Split.thy ===== *)
theory Tlsf_Split
  imports Tlsf_Layout
begin

text \<open>
  Splitting a block of a pool of \<open>tlsf.c\<close>, and the geometry of a layout: blocks lie apart, and the
  links of the free lists and the control structure lie apart from what the layout reads.
\<close>

section \<open>Geometry\<close>

lemma layout_range:
  assumes "layout m p pf bs e" "(b, n, f) \<in> set bs"
  shows "p \<le> b" "b + 8 + n \<le> e" "24 \<le> n" "8 dvd n" "8 dvd p \<Longrightarrow> 8 dvd b"
proof -
  have "p \<le> b \<and> b + 8 + n \<le> e \<and> 24 \<le> n \<and> 8 dvd n \<and> (8 dvd p \<longrightarrow> 8 dvd b)"
    using assms
  proof (induction m p pf bs e rule: layout.induct)
    case (2 m p pf x k g bs e)
    have "p + 8 + k \<le> e" using 2(2) layout_le by auto
    moreover have "8 dvd p \<Longrightarrow> 8 dvd p + 8 + k" using 2(2) by auto
    ultimately show ?case using 2 by auto
  qed simp
  then show "p \<le> b" "b + 8 + n \<le> e" "24 \<le> n" "8 dvd n" "8 dvd p \<Longrightarrow> 8 dvd b" by auto
qed

lemma layout_apart:
  assumes "layout m p pf bs e" "(b, n, f) \<in> set bs" "(b', n', f') \<in> set bs"
  shows "b = b' \<and> n = n' \<and> f = f' \<or> b + 8 + n \<le> b' \<or> b' + 8 + n' \<le> b"
  using assms
proof (induction m p pf bs e rule: layout.induct)
  case (2 m p pf x k g bs e)
  have l: "layout m (p + 8 + k) g bs e" and x: "x = p" using 2(2) by auto
  have "p + 8 + k \<le> a" if "(a, i, h) \<in> set bs" for a i h using layout_range(1) [OF l that] .
  then show ?case using 2(1) [OF l] 2(3,4) x by fastforce
qed simp

lemma segment_end:
  assumes "segment m p pf xs b g" "(s, n, f) \<in> set xs"
  shows "s + 8 + n \<le> b" "24 \<le> n" "p \<le> s"
proof -
  have "s + 8 + n \<le> b \<and> 24 \<le> n \<and> p \<le> s" using assms
  proof (induction m p pf xs b g rule: segment.induct)
    case (2 m p pf x k h bs b g)
    have "p + 8 + k \<le> b" using 2(2) segment_le by auto
    then show ?case using 2 by auto
  qed simp
  then show "s + 8 + n \<le> b" "24 \<le> n" "p \<le> s" by auto
qed

text \<open>Writing links of blocks and the control structure keeps the layout.\<close>

lemma layout_links:
  assumes "layout m b pf bs e" "\<And>s. s \<in> S \<Longrightarrow> s \<in> fst ` set bs \<or> s + 32 \<le> b"
    and "\<And>x. b + 8 \<le> x \<Longrightarrow> x < e + 16 \<Longrightarrow> x \<notin> link_bytes S \<Longrightarrow> m' x = m x"
  shows "layout m' b pf bs e"
  using assms
proof (induction bs arbitrary: b pf)
  case Nil
  have "size_field m' e = size_field m e" unfolding size_field_def
    by (rule load64_cong, rule Nil(3)) (use Nil(1,2) in \<open>fastforce simp: link_bytes_def\<close>)+
  then show ?case using Nil by simp
next
  case (Cons y bs)
  obtain x n f where y: "y = (x, n, f)" by (cases y)
  then have l: "24 \<le> n" "x = b" "layout m (b + 8 + n) f bs e" using Cons.prems(1) by auto
  have le: "b + 8 + n \<le> e" using layout_le [OF l(3)] .
  have S: "s = b \<or> b + 8 + n \<le> s \<or> s + 32 \<le> b" if "s \<in> S" for s
    using Cons.prems(2) [OF that] y l(2) layout_range(1) [OF l(3)] by fastforce
  have h: "z \<notin> link_bytes S" if "z < b + 16" "b + 8 \<le> z" for z
    using S that l(1) by (fastforce simp: link_bytes_def)
  have w: "z \<notin> link_bytes S" if "b + 8 + n \<le> z" "z < b + 16 + n" for z
    using S that l(1) by (fastforce simp: link_bytes_def)
  have "size_field m' b = size_field m b" unfolding size_field_def
    by (rule load64_cong, rule Cons.prems(3)) (use le h in auto)
  moreover have "load64 m' (b + 8 + n) = load64 m (b + 8 + n)"
    by (rule load64_cong, rule Cons.prems(3)) (use le w in auto)
  moreover have "layout m' (b + 8 + n) f bs e"
  proof (rule Cons.IH [OF l(3)])
    show "s \<in> fst ` set bs \<or> s + 32 \<le> b + 8 + n" if "s \<in> S" for s
      using Cons.prems(2) [OF that] y l(1,2) by auto
  qed (use Cons.prems(3) in auto)
  ultimately show ?case using Cons.prems(1) y by auto
qed

section \<open>Splitting\<close>

lemma can_split:
  assumes "block_size m b = n" "k < 2 ^ 63"
  shows "block_can_split m b k \<longleftrightarrow> k + 32 \<le> n"
  using assms by (simp add: block_can_split_def block_constants add64_id add.commute)

text \<open>
  After a split the first part has its new size, the header of the rest has an arbitrary
  flag for the block in front of it, and the block behind knows that the rest is free.
\<close>

lemma split_raw:
  assumes "layout m b pf ((b, n, f) # ys) e" "e + 24 < 2 ^ 64" "24 \<le> k" "8 dvd k" "k + 32 \<le> n" "8 dvd b"
  obtains m' g where "block_split m b k = Some (b + 8 + k, m')" "size_field m' b = hdr k f pf"
    "size_field m' (b + 8 + k) = hdr (n - k - 8) True g" "load64 m' (b + 8 + n) = b + 8 + k"
    "layout m' (b + 8 + n) True ys e"
    "\<And>x. x \<notin> {b + 8 ..< b + 16} \<union> {b + 16 + k ..< b + 24 + k} \<union> {b + 8 + n ..< b + 24 + n} \<Longrightarrow> m' x = m x"
proof -
  note l = layout_block [OF assms(1,2)]
  let ?r = "b + 8 + k" and ?a = "b + 8 + n" and ?k = "n - k - 8"
  have d: "8 dvd ?k" "4 dvd k" "4 dvd ?k" using l(2) assms(4) dvd_8_4 by (simp_all add: dvd_diff_nat)
  obtain j h g where old: "size_field m ?r = hdr j h g" "4 dvd j" by (rule hdr_cases)
  define m1 where "m1 = store64 m (?r + 8) (hdr ?k h g)"
  define m2 where "m2 = store64 m1 (b + 8) (hdr k f pf)"
  have s1: "block_set_size m ?r ?k = m1" using header_ops(9) [OF old d(3)] by (simp add: m1_def)
  have r1: "size_field m1 ?r = hdr ?k h g" unfolding m1_def using l(7) by (intro size_field_store) simp
  have "size_field m1 b = size_field m b"
    unfolding size_field_def m1_def using assms(3) by (intro load64_store64_disjoint) simp
  then have b1: "size_field m1 b = hdr n f pf" using l(4) by simp
  have s2: "block_set_size m1 b k = m2" using header_ops(9) [OF b1 l(3) d(2)] by (simp add: m2_def)
  have "size_field m2 ?r = size_field m1 ?r"
    unfolding size_field_def m2_def using assms(3) by (intro load64_store64_disjoint) simp
  then have r2: "size_field m2 ?r = hdr ?k h g" using r1 by simp
  have "?r + 8 + ?k = ?a" using assms(5) by simp
  then have n2: "block_next m2 ?r = Some ?a"
    using next_block [OF r2 d(1)] assms(5) l(7) by simp
  obtain q i where q: "size_field m ?a = hdr q i f" "8 dvd q" "?a + q \<le> e" using layout_header [OF l(5)] .
  have ys2: "layout m2 ?a f ys e" by (rule layout_cong [OF l(5)]) (use assms(3,5) in \<open>simp add: m2_def m1_def store64_other\<close>)
  have q2: "size_field m2 ?a = hdr q i f"
    using q(1) assms(3,5) unfolding m2_def m1_def size_field_def
    by (subst load64_store64_disjoint, simp, subst load64_store64_disjoint) simp_all
  define m3 where "m3 = store64 m2 ?a ?r"
  define m4 where "m4 = store64 m3 (?a + 8) (hdr q i True)"
  define m5 where "m5 = store64 m4 (?r + 8) (hdr ?k True g)"
  have q3: "size_field m3 ?a = hdr q i f" using q2 unfolding m3_def size_field_def by (subst load64_store64_disjoint) simp_all
  have "size_field m4 ?r = size_field m2 ?r"
    unfolding size_field_def m4_def m3_def using assms(5) by (subst load64_store64_disjoint; (subst load64_store64_disjoint)?; simp)
  then have r4: "size_field m4 ?r = hdr ?k h g" using r2 by simp
  have "block_link_next m2 ?r = Some (?a, m3)" using n2 by (simp add: block_link_next_def set_prev_phys_block_def m3_def)
  moreover have "block_set_prev_free m3 ?a = m4" using header_ops(7) [OF q3 dvd_8_4 [OF q(2)]] by (simp add: m4_def)
  moreover have "block_set_free m4 ?r = m5" using header_ops(5) [OF r4 d(3)] by (simp add: m5_def)
  ultimately have mark: "block_mark_as_free m2 ?r = Some m5" by (simp add: block_mark_as_free_def)
  have "8 dvd b + 24 + k" "b + 24 + k + 8 < 2 ^ 64" using assms(4,5,6) l(7) by presburger+
  note al = align_ptr_8 [OF this]
  have c: "block_size m b = n" "block_size m1 ?r = ?k" using l(9) header_ops(1) [OF r1 d(3)] by simp_all
  have w: "offset_to_block (block_to_ptr b) (sub64 k 8) = ?r" "sub64 n (add64 k 8) = ?k" "block_to_ptr ?r = b + 24 + k"
    "add64 (add64 (n - (k + 8)) k) 8 = n"
    using assms(3,5) l(7) by (simp_all add: offset_to_block_def block_to_ptr_def block_constants add64_id sub64_id)
  have run: "block_split m b k = Some (?r, m5)"
    using assms(5) al s1 s2 mark
    by (simp add: block_split_def Let_def c w insist_def block_header_overhead_def block_size_min_def sizeof_block_header_def)
  have l3: "layout m3 ?a f ys e" by (rule layout_cong [OF ys2]) (simp add: m3_def store64_other)
  have "layout m4 ?a True ys e" unfolding m4_def by (rule layout_set_prev [OF l3 q3 assms(2) dvd_8_4 [OF q(2)]])
  then have lay: "layout m5 ?a True ys e" by (rule layout_cong) (use assms(5) in \<open>simp add: m5_def store64_other\<close>)
  have b2: "size_field m2 b = hdr k f pf" unfolding m2_def using l(7) assms(5) by (intro size_field_store) simp
  have "size_field m5 b = size_field m2 b"
    unfolding size_field_def m5_def m4_def m3_def using assms(3,5)
    by (subst load64_store64_disjoint, simp, subst load64_store64_disjoint, simp, subst load64_store64_disjoint) simp_all
  then have b5: "size_field m5 b = hdr k f pf" using b2 by simp
  have r5: "size_field m5 ?r = hdr ?k True g" unfolding m5_def using l(7) by (intro size_field_store) simp
  have a5: "load64 m5 ?a = ?r"
    unfolding m5_def m4_def m3_def using assms(5) l(7)
    by (subst load64_store64_disjoint, simp, subst load64_store64_disjoint, simp, subst load_store64) simp_all
  have "m5 x = m x" if "x \<notin> {b + 8 ..< b + 16} \<union> {b + 16 + k ..< b + 24 + k} \<union> {b + 8 + n ..< b + 24 + n}" for x
    using that by (auto simp: m5_def m4_def m3_def m2_def m1_def store64_other)
  then show thesis using that run b5 r5 a5 lay by blast
qed

text \<open>The rest joins the layout when it knows about the first part.\<close>

lemma split_joined:
  assumes "layout m (r + 8 + j) True ys e" "load64 m (r + 8 + j) = r" "24 \<le> k" "8 dvd k" "24 \<le> j" "8 dvd j" "r = b + 8 + k"
    and "size_field m' b = hdr k f pf" "size_field m' r = hdr j True f" "f \<Longrightarrow> load64 m' r = b"
    and "\<And>x. x \<notin> {b + 8 ..< b + 16} \<union> {r ..< r + 16} \<Longrightarrow> m' x = m x"
  shows "layout m' b pf ((b, k, f) # (r, j, True) # ys) e"
proof -
  have "layout m' (r + 8 + j) True ys e" by (rule layout_cong [OF assms(1)]) (use assms(5,7) in \<open>intro assms(11); simp\<close>)
  moreover have "load64 m' (r + 8 + j) = load64 m (r + 8 + j)"
    by (rule load64_cong) (use assms(3,5,7) in \<open>intro assms(11); auto\<close>)
  ultimately show ?thesis using assms by simp
qed

definition split_zone :: "addr \<Rightarrow> nat \<Rightarrow> nat \<Rightarrow> addr set" where
  "split_zone b k n = {b + 8 ..< b + 16} \<union> {b + 8 + k ..< b + 24 + k} \<union> {b + 8 + n ..< b + 24 + n}"

lemma trim_free_layout:
  assumes "layout m b pf ((b, n, True) # ys) e" "e + 24 < 2 ^ 64" "24 \<le> k" "8 dvd k" "k + 32 \<le> n" "8 dvd b"
  obtains m1 m2 m3 m4 where "block_split m b k = Some (b + 8 + k, m1)"
    "block_link_next m1 b = Some (b + 8 + k, m2)" "block_set_prev_free m2 (b + 8 + k) = m3"
    "layout m3 b pf ((b, k, True) # (b + 8 + k, n - k - 8, True) # ys) e"
    "\<And>x. x \<notin> split_zone b k n \<Longrightarrow> m3 x = m x"
    "block_link_next (block_set_prev_free m1 (b + 8 + k)) b = Some (b + 8 + k, m4)"
    "layout m4 b pf ((b, k, True) # (b + 8 + k, n - k - 8, True) # ys) e"
    "\<And>x. x \<notin> split_zone b k n \<Longrightarrow> m4 x = m x"
proof -
  note l = layout_block [OF assms(1,2)]
  let ?r = "b + 8 + k" and ?k = "n - k - 8"
  obtain m1 g where s: "block_split m b k = Some (?r, m1)" "size_field m1 b = hdr k True pf"
    "size_field m1 ?r = hdr ?k True g" "load64 m1 (b + 8 + n) = ?r" "layout m1 (b + 8 + n) True ys e"
    "\<And>x. x \<notin> {b + 8 ..< b + 16} \<union> {b + 16 + k ..< b + 24 + k} \<union> {b + 8 + n ..< b + 24 + n} \<Longrightarrow> m1 x = m x"
    by (rule split_raw [OF assms]) blast
  have d: "8 dvd ?k" "4 dvd ?k" using l(2) assms(4) dvd_8_4 by (simp_all add: dvd_diff_nat)
  have a: "?r + 8 + ?k = b + 8 + n" using assms(5) by simp
  have lt: "b < 2 ^ 64" "b + k + 24 < 2 ^ 64" "?k + 4 \<le> 2 ^ 64" using l(7) assms(5) by simp_all
  have disj: "size_field (store64 M ?r v) b = size_field M b" "size_field (store64 M (?r + 8) v) b = size_field M b"
    "load64 (store64 M (?r + 8) v) ?r = load64 M ?r" "size_field (store64 M ?r v) ?r = size_field M ?r" for M v
    unfolding size_field_def using assms(3) by (simp_all add: load64_store64_disjoint)
  define m2 where "m2 = store64 m1 ?r b"
  define m3 where "m3 = store64 m2 (?r + 8) (hdr ?k True True)"
  define m3' where "m3' = store64 m1 (?r + 8) (hdr ?k True True)"
  define m4 where "m4 = store64 m3' ?r b"
  have k2: "size_field m2 ?r = hdr ?k True g" unfolding m2_def disj by (rule s(3))
  have k3: "size_field m3' b = hdr k True pf" unfolding m3'_def disj by (rule s(2))
  have run2: "block_link_next m1 b = Some (?r, m2)"
    using next_block [OF s(2) assms(4,3) lt(2)] by (simp add: block_link_next_def set_prev_phys_block_def m2_def)
  have run3: "block_set_prev_free m2 ?r = m3" using header_ops(7) [OF k2 d(2)] by (simp add: m3_def)
  have "block_set_prev_free m1 ?r = m3'" using header_ops(7) [OF s(3) d(2)] by (simp add: m3'_def)
  then have run4: "block_link_next (block_set_prev_free m1 ?r) b = Some (?r, m4)"
    using next_block [OF k3 assms(4,3) lt(2)] by (simp add: block_link_next_def set_prev_phys_block_def m4_def)
  note j = split_joined [OF s(5,4) [folded a] assms(3,4) _ d(1) refl]
  have "layout m3 b pf ((b, k, True) # (?r, ?k, True) # ys) e"
  proof (rule j)
    show "size_field m3 b = hdr k True pf" unfolding m3_def m2_def disj by (rule s(2))
    show "size_field m3 ?r = hdr ?k True True" unfolding m3_def using lt(3) by (rule size_field_store)
    show "load64 m3 ?r = b" unfolding m3_def disj m2_def using lt(1) by (rule load_store64)
    show "m3 x = m1 x" if "x \<notin> {b + 8 ..< b + 16} \<union> {?r ..< ?r + 16}" for x
      using that by (auto simp: m3_def m2_def store64_other)
  qed (use assms(5) in simp)
  moreover have "layout m4 b pf ((b, k, True) # (?r, ?k, True) # ys) e"
  proof (rule j)
    show "size_field m4 b = hdr k True pf" unfolding m4_def disj by (rule k3)
    show "size_field m4 ?r = hdr ?k True True" unfolding m4_def disj m3'_def using lt(3) by (rule size_field_store)
    show "load64 m4 ?r = b" unfolding m4_def using lt(1) by (rule load_store64)
    show "m4 x = m1 x" if "x \<notin> {b + 8 ..< b + 16} \<union> {?r ..< ?r + 16}" for x
      using that by (auto simp: m4_def m3'_def store64_other)
  qed (use assms(5) in simp)
  moreover have "m3 x = m x" "m4 x = m x" if "x \<notin> split_zone b k n" for x
    using that s(6) [of x] by (auto simp: split_zone_def m3_def m2_def m4_def m3'_def store64_other)
  ultimately show thesis using that s(1) run2 run3 run4 by blast
qed

lemma trim_used_layout:
  assumes "layout m b pf ((b, n, False) # ys) e" "e + 24 < 2 ^ 64" "24 \<le> k" "8 dvd k" "k + 32 \<le> n" "8 dvd b"
  obtains m1 m2 where "block_split m b k = Some (b + 8 + k, m1)" "block_set_prev_used m1 (b + 8 + k) = m2"
    "layout m2 b pf ((b, k, False) # (b + 8 + k, n - k - 8, True) # ys) e"
    "\<And>x. x \<notin> {b + 8 ..< b + 16} \<union> {b + 16 + k ..< b + 24 + k} \<union> {b + 8 + n ..< b + 24 + n} \<Longrightarrow> m2 x = m x"
proof -
  note l = layout_block [OF assms(1,2)]
  let ?r = "b + 8 + k" and ?k = "n - k - 8"
  obtain m1 g where s: "block_split m b k = Some (?r, m1)" "size_field m1 b = hdr k False pf"
    "size_field m1 ?r = hdr ?k True g" "load64 m1 (b + 8 + n) = ?r" "layout m1 (b + 8 + n) True ys e"
    "\<And>x. x \<notin> {b + 8 ..< b + 16} \<union> {b + 16 + k ..< b + 24 + k} \<union> {b + 8 + n ..< b + 24 + n} \<Longrightarrow> m1 x = m x"
    by (rule split_raw [OF assms]) blast
  have d: "8 dvd ?k" "4 dvd ?k" using l(2) assms(4) dvd_8_4 by (simp_all add: dvd_diff_nat)
  have a: "?r + 8 + ?k = b + 8 + n" using assms(5) by simp
  define m2 where "m2 = store64 m1 (?r + 8) (hdr ?k True False)"
  have run: "block_set_prev_used m1 ?r = m2" using header_ops(8) [OF s(3) d(2)] by (simp add: m2_def)
  have "layout m2 b pf ((b, k, False) # (?r, ?k, True) # ys) e"
  proof (rule split_joined [OF s(5,4) [folded a] assms(3,4) _ d(1) refl])
    show "size_field m2 b = hdr k False pf"
      using s(2) assms(3) unfolding size_field_def m2_def by (subst load64_store64_disjoint) simp_all
    show "size_field m2 ?r = hdr ?k True False" unfolding m2_def using l(7) assms(5) by (intro size_field_store) simp
    show "m2 x = m1 x" if "x \<notin> {b + 8 ..< b + 16} \<union> {?r ..< ?r + 16}" for x
      using that by (auto simp: m2_def store64_other)
  qed (use assms(5) in simp_all)
  moreover have "m2 x = m x"
    if "x \<notin> {b + 8 ..< b + 16} \<union> {b + 16 + k ..< b + 24 + k} \<union> {b + 8 + n ..< b + 24 + n}" for x
    using that s(6) [of x] by (auto simp: m2_def store64_other)
  ultimately show thesis using that s(1) run by blast
qed

end
