(* ===== verification/Tlsf_Pool.thy ===== *)
theory Tlsf_Pool
  imports Tlsf_Split
begin

text \<open>
  The invariant of the heap of \<open>tlsf.c\<close>: the pool is a layout, and the free lists have the free
  blocks, each in the list of its size. During an operation some free blocks, those of a set
  \<open>U\<close>, are in no list. Each step of an operation is shown to return, to keep the invariant,
  and to write only the control structure, headers and free blocks.
\<close>

section \<open>The invariant\<close>

definition avail :: "tlsf_block list \<Rightarrow> addr set \<Rightarrow> (addr \<times> nat) set" where
  "avail bs U = {(b, n). (b, n, True) \<in> set bs \<and> b \<notin> U}"

definition tlsf_pool :: "addr \<Rightarrow> addr \<Rightarrow> addr \<Rightarrow> bytes \<Rightarrow> tlsf_block list \<Rightarrow> addr set \<Rightarrow> bool" where
  "tlsf_pool c p e m bs U \<longleftrightarrow> layout m p False bs e \<and> 8 dvd c \<and> c \<noteq> 0 \<and> c + 6536 \<le> p + 8 \<and> 8 dvd p \<and>
     e + 24 < 2 ^ 64 \<and> e < p + 2 ^ 32 \<and>
     (\<exists>F. mem_lists m c F \<and> (\<forall>r. set (F r) = {b. \<exists>n. (b, n) \<in> avail bs U \<and> rank n = r}))"

text \<open>The bytes the allocator may write: all of its own but what lies in a used block.\<close>

definition used_bytes :: "tlsf_block list \<Rightarrow> addr set" where
  "used_bytes bs = {x. \<exists>b n. (b, n, False) \<in> set bs \<and> b + 16 \<le> x \<and> x < b + 16 + n}"

definition owned :: "addr \<Rightarrow> addr \<Rightarrow> addr \<Rightarrow> tlsf_block list \<Rightarrow> addr set" where
  "owned c p e bs = ctl c \<union> {p + 8 ..< e + 16} - used_bytes bs"

definition same_outside :: "addr set \<Rightarrow> bytes \<Rightarrow> bytes \<Rightarrow> bool" where
  "same_outside W m m' \<longleftrightarrow> (\<forall>x. x \<notin> W \<longrightarrow> m' x = m x)"

lemma same_outsideI: "(\<And>x. x \<notin> W \<Longrightarrow> m' x = m x) \<Longrightarrow> same_outside W m m'"
  by (simp add: same_outside_def)

lemma same_outsideD: "same_outside W m m' \<Longrightarrow> x \<notin> W \<Longrightarrow> m' x = m x"
  by (simp add: same_outside_def)

lemma same_outside_refl: "same_outside W m m"
  by (simp add: same_outside_def)

lemma same_outside_trans:
  "same_outside W m m' \<Longrightarrow> same_outside W' m' m'' \<Longrightarrow> W \<subseteq> V \<Longrightarrow> W' \<subseteq> V \<Longrightarrow> same_outside V m m''"
  by (simp add: same_outside_def subset_iff) metis

lemma same_outside_seq: "same_outside W m m' \<Longrightarrow> same_outside W m' m'' \<Longrightarrow> same_outside W m m''"
  by (simp add: same_outside_def)

lemma same_outside_mono: "same_outside W m m' \<Longrightarrow> W \<subseteq> V \<Longrightarrow> same_outside V m m'"
  by (auto simp: same_outside_def)

lemma poolD:
  assumes "tlsf_pool c p e m bs U"
  shows "layout m p False bs e" "8 dvd c" "c \<noteq> 0" "c + 6536 \<le> p + 8" "8 dvd p" "e + 24 < 2 ^ 64" "e < p + 2 ^ 32"
  using assms by (auto simp: tlsf_pool_def)

lemma pool_listsE:
  assumes "tlsf_pool c p e m bs U"
  obtains F where "mem_lists m c F" "\<And>r. set (F r) = {b. \<exists>n. (b, n) \<in> avail bs U \<and> rank n = r}" "listed F = fst ` avail bs U"
proof -
  obtain F where F: "mem_lists m c F" "\<And>r. set (F r) = {b. \<exists>n. (b, n) \<in> avail bs U \<and> rank n = r}"
    using assms by (auto simp: tlsf_pool_def)
  have "listed F = fst ` avail bs U" unfolding listed_def F(2) by force
  then show thesis using that F by blast
qed

lemma poolI:
  assumes "layout m p False bs e" "8 dvd c" "c \<noteq> 0" "c + 6536 \<le> p + 8" "8 dvd p" "e + 24 < 2 ^ 64" "e < p + 2 ^ 32"
    and "mem_lists m c F" "\<And>r. set (F r) = {b. \<exists>n. (b, n) \<in> avail bs U \<and> rank n = r}"
  shows "tlsf_pool c p e m bs U"
  unfolding tlsf_pool_def using assms by blast

section \<open>Geometry of a pool\<close>

lemma pool_range:
  assumes "tlsf_pool c p e m bs U" "(b, n, f) \<in> set bs"
  shows "p \<le> b" "b + 8 + n \<le> e" "24 \<le> n" "8 dvd n" "8 dvd b" "n < 2 ^ 32" "b + n + 24 < 2 ^ 64" "c + 6536 \<le> b + 8"
proof -
  note a = poolD [OF assms(1)] and r = layout_range [OF poolD(1) [OF assms(1)] assms(2)]
  show "p \<le> b" "b + 8 + n \<le> e" "24 \<le> n" "8 dvd n" using r(1-4) by auto
  show "8 dvd b" using r(5) [OF a(5)] .
  show "n < 2 ^ 32" "b + n + 24 < 2 ^ 64" "c + 6536 \<le> b + 8" using r(1,2) a(4,6,7) by linarith+
qed

lemma pool_nodes:
  assumes "tlsf_pool c p e m bs U"
  shows "nodes_ok c (fst ` set bs)"
proof -
  have "8 dvd b \<and> c + 6536 \<le> b + 8 \<and> b + 32 < 2 ^ 64" if "(b, n, f) \<in> set bs" for b n f
    using pool_range [OF assms that] poolD(6) [OF assms] by simp
  moreover have "b + 32 \<le> b' \<or> b' + 32 \<le> b" if "(b, n, f) \<in> set bs" "(b', n', f') \<in> set bs" "b \<noteq> b'" for b n f b' n' f'
    using layout_apart [OF poolD(1) [OF assms] that(1,2)] pool_range(3) [OF assms that(1)] pool_range(3) [OF assms that(2)] that(3)
    by linarith
  ultimately show ?thesis unfolding nodes_ok_def using poolD(2,3) [OF assms] by fastforce
qed

lemma pool_at:
  assumes "tlsf_pool c p e m (xs @ (b, n, f) # ys) U"
  obtains pf where "segment m p False xs b pf" "layout m b pf ((b, n, f) # ys) e"
  using poolD(1) [OF assms] that by (auto simp: layout_append)

lemma pool_header:
  assumes "tlsf_pool c p e m bs U" "(b, n, f) \<in> set bs"
  shows "block_size m b = n" "block_is_free m b = f" "block_next m b = Some (b + 8 + n)"
proof -
  obtain xs ys where bs: "bs = xs @ (b, n, f) # ys" using assms(2) by (meson split_list)
  obtain pf where l: "layout m b pf ((b, n, f) # ys) e" using assms(1) unfolding bs by (rule pool_at)
  show "block_size m b = n" "block_is_free m b = f" "block_next m b = Some (b + 8 + n)"
    using layout_block(9,10,12) [OF l poolD(6) [OF assms(1)]] by simp_all
qed

lemma nodes_subset: "nodes_ok c S \<Longrightarrow> T \<subseteq> S \<Longrightarrow> nodes_ok c T"
  unfolding nodes_ok_def by blast

lemma avail_sub: "fst ` avail bs U \<subseteq> fst ` set bs"
  by (force simp: avail_def)

lemma avail_unique:
  assumes "tlsf_pool c p e m bs U" "(b, n, f) \<in> set bs" "(b, n', f') \<in> set bs"
  shows "n = n'" "f = f'"
  using layout_apart [OF poolD(1) [OF assms(1)] assms(2,3)] by auto

text \<open>Header and links of a block lie apart from every used block.\<close>

lemma apart_used:
  assumes "tlsf_pool c p e m bs U" "(b, n, f) \<in> set bs"
  shows "{b + 8 ..< b + 16} \<inter> used_bytes bs = {}" "f \<Longrightarrow> {b + 8 ..< b + 16 + n} \<inter> used_bytes bs = {}"
proof -
  have x: False if in_used: "x \<in> used_bytes bs" and "b + 8 \<le> x" "x < b + 16 \<or> f \<and> x < b + 16 + n" for x
  proof -
    obtain b' n' where u: "(b', n', False) \<in> set bs" "b' + 16 \<le> x" "x < b' + 16 + n'"
      using in_used by (auto simp: used_bytes_def)
    show False using layout_apart [OF poolD(1) [OF assms(1)] assms(2) u(1)] u(2,3) that(2,3) by auto
  qed
  show "{b + 8 ..< b + 16} \<inter> used_bytes bs = {}" "f \<Longrightarrow> {b + 8 ..< b + 16 + n} \<inter> used_bytes bs = {}"
    using x by (simp_all add: set_eq_iff) metis+
qed

lemma block_owned:
  assumes "tlsf_pool c p e m bs U" "(b, n, f) \<in> set bs"
  shows "{b + 8 ..< b + 16} \<subseteq> owned c p e bs" "f \<Longrightarrow> {b + 8 ..< b + 16 + n} \<subseteq> owned c p e bs"
proof -
  have "{b + 8 ..< b + 16 + n} \<subseteq> {p + 8 ..< e + 16}" "{b + 8 ..< b + 16} \<subseteq> {p + 8 ..< e + 16}"
    using pool_range(1,2) [OF assms] by auto
  then show "{b + 8 ..< b + 16} \<subseteq> owned c p e bs" "f \<Longrightarrow> {b + 8 ..< b + 16 + n} \<subseteq> owned c p e bs"
    using apart_used [OF assms] unfolding owned_def by blast+
qed

text \<open>The header behind a block: that of the next block or of the sentinel.\<close>

lemma next_owned:
  assumes "tlsf_pool c p e m (xs @ (b, n, f) # ys) U"
  shows "{b + 16 + n ..< b + 24 + n} \<subseteq> owned c p e (xs @ (b, n, f) # ys)"
proof (cases ys)
  case Nil
  let ?bs = "xs @ (b, n, f) # ys"
  obtain g where "segment m p False xs b g" "layout m b g ((b, n, f) # ys) e"
    using poolD(1) [OF assms] by (auto simp: layout_append)
  then have e: "e = b + 8 + n" using Nil by simp
  have "x \<notin> used_bytes ?bs" if "e + 8 \<le> x" for x
  proof
    assume "x \<in> used_bytes ?bs"
    then obtain s k where "(s, k, False) \<in> set ?bs" "x < s + 16 + k" unfolding used_bytes_def by blast
    then show False using pool_range(2) [OF assms, of s k False] that by simp
  qed
  moreover have "p + 8 \<le> b + 16 + n" using pool_range(1) [OF assms, of b n f] by simp
  ultimately show ?thesis by (auto simp: owned_def e)
next
  case (Cons y zs)
  obtain x k g where y: "y = (x, k, g)" by (cases y)
  have "x = b + 8 + n" using poolD(1) [OF assms] Cons y by (auto simp: layout_append)
  then show ?thesis using block_owned(1) [OF assms, of x k g] Cons y by (simp add: ac_simps)
qed

lemma ctl_owned:
  assumes "tlsf_pool c p e m bs U"
  shows "ctl c \<subseteq> owned c p e bs"
proof -
  have "x \<notin> used_bytes bs" if "x \<in> ctl c" for x
  proof
    assume "x \<in> used_bytes bs"
    then obtain s k where "(s, k, False) \<in> set bs" "s + 16 \<le> x" unfolding used_bytes_def by blast
    then show False using pool_range(8) [OF assms, of s k False] that by (simp add: ctl_def)
  qed
  then show ?thesis by (auto simp: owned_def)
qed

lemma links_owned:
  assumes a: "tlsf_pool c p e m bs U" and S: "\<And>b. b \<in> S \<Longrightarrow> \<exists>n. (b, n, True) \<in> set bs"
  shows "link_bytes S \<subseteq> owned c p e bs"
proof -
  have "{b + 16 ..< b + 32} \<subseteq> owned c p e bs" if "b \<in> S" for b
  proof -
    obtain n where n: "(b, n, True) \<in> set bs" using S [OF \<open>b \<in> S\<close>] by blast
    have "{b + 16 ..< b + 32} \<subseteq> {b + 8 ..< b + 16 + n}" using pool_range(3) [OF a n] by auto
    then show ?thesis using block_owned(2) [OF a n] by blast
  qed
  then show ?thesis unfolding link_bytes_def by blast
qed

section \<open>Steps\<close>

text \<open>A step that rewrites headers, and the words behind free blocks, from one block on.\<close>

lemma pool_change:
  assumes a: "tlsf_pool c p e m (xs @ old @ ys) U"
    and seg: "segment m p False xs b pf" and old: "layout m b pf (old @ ys) e" and ys: "layout m b2 g ys e"
    and new: "layout m' b pf (new @ ys) e" and av: "avail (xs @ new @ ys) U' = avail (xs @ old @ ys) U"
    and W: "same_outside W m m'" "W \<subseteq> {b + 8 ..< b2 + 16}"
      "\<And>s n. (s, n, True) \<in> set old \<Longrightarrow> s \<notin> U \<Longrightarrow> W \<inter> {s + 16 ..< s + 32} = {}"
  shows "tlsf_pool c p e m' (xs @ new @ ys) U'"
proof -
  obtain F where F: "mem_lists m c F" "\<And>r. set (F r) = {b. \<exists>n. (b, n) \<in> avail (xs @ old @ ys) U \<and> rank n = r}"
    "listed F = fst ` avail (xs @ old @ ys) U" by (rule pool_listsE [OF a]) blast
  have pb: "p \<le> b" using segment_le [OF seg] .
  have out: "m' x = m x" if "x < b + 8 \<or> b2 + 16 \<le> x" for x
    using that W(2) by (intro same_outsideD [OF W(1)]) auto
  have "segment m' p False xs b pf" by (rule segment_cong [OF seg]) (use out in simp)
  then have lay: "layout m' p False (xs @ new @ ys) e" using new by (auto simp: layout_append)
  have apart: "W \<inter> {s + 16 ..< s + 32} = {}" if s: "(s, n, True) \<in> set (xs @ old @ ys)" "s \<notin> U" for s n
  proof -
    consider "(s, n, True) \<in> set xs" | "(s, n, True) \<in> set old" | "(s, n, True) \<in> set ys" using s(1) by auto
    then show ?thesis
    proof cases
      case 1
      then have "s + 32 \<le> b" using segment_end [OF seg 1] by simp
      then show ?thesis using W(2) by auto
    next
      case 3
      then show ?thesis using layout_range(1) [OF ys 3] W(2) by auto
    qed (use W(3) s(2) in blast)
  qed
  have "mem_lists m' c F"
  proof (rule mem_lists_cong [OF F(1)])
    fix x assume "x \<in> ctl c \<union> link_bytes (listed F)"
    then consider "x \<in> ctl c" | s n where "(s, n, True) \<in> set (xs @ old @ ys)" "s \<notin> U" "x \<in> {s + 16 ..< s + 32}"
      unfolding F(3) by (fastforce simp: link_bytes_def avail_def)
    then show "m' x = m x"
    proof cases
      case 1
      then show ?thesis using poolD(4) [OF a] pb by (intro out) (simp add: ctl_def)
    next
      case 2
      then show ?thesis using apart [OF 2(1,2)] by (intro same_outsideD [OF W(1)]) blast
    qed
  qed
  then show ?thesis using F(2) unfolding av [symmetric] by (rule poolI [OF lay poolD(2-7) [OF a]])
qed

text \<open>Taking a free block out of its list, and putting one in.\<close>

lemma avail_mem: "(b, n) \<in> avail bs U \<longleftrightarrow> (b, n, True) \<in> set bs \<and> b \<notin> U"
  by (simp add: avail_def)

lemma pool_link_step:
  assumes a: "tlsf_pool c p e m bs U" and W: "same_outside (ctl c \<union> link_bytes S) m m'"
    and S: "\<And>b. b \<in> S \<Longrightarrow> \<exists>n. (b, n, True) \<in> set bs"
    and F: "mem_lists m' c F" "\<And>r. set (F r) = {b. \<exists>n. (b, n) \<in> avail bs U' \<and> rank n = r}"
  shows "tlsf_pool c p e m' bs U'" "same_outside (owned c p e bs) m m'"
proof -
  note d = poolD [OF a]
  have "layout m' p False bs e"
  proof (rule layout_links [OF d(1)])
    show "s \<in> fst ` set bs \<or> s + 32 \<le> p" if "s \<in> S" for s using S [OF that] by force
    show "m' x = m x" if "p + 8 \<le> x" "x < e + 16" "x \<notin> link_bytes S" for x
      using that d(4) by (intro same_outsideD [OF W]) (auto simp: ctl_def)
  qed
  then show "tlsf_pool c p e m' bs U'" using d F by (intro poolI [where F = F]) simp_all
  show "same_outside (owned c p e bs) m m'"
    using W ctl_owned [OF a] links_owned [OF a S] by (intro same_outside_mono [OF W]) auto
qed

lemma rank_index: "n < 2 ^ 32 \<Longrightarrow> rank n < 800"
  using rank_small [of n] by simp

lemma pool_unlist:
  assumes a: "tlsf_pool c p e m bs U" and b: "(b, n) \<in> avail bs U" and r: "r = rank n"
  obtains m' where "remove_free_block m c b (r div 32) (r mod 32) = Some m'" "tlsf_pool c p e m' bs (insert b U)"
    "same_outside (owned c p e bs) m m'"
proof -
  obtain F where F: "mem_lists m c F" "\<And>r. set (F r) = {b. \<exists>n. (b, n) \<in> avail bs U \<and> rank n = r}"
    "listed F = fst ` avail bs U" by (rule pool_listsE [OF a]) blast
  have mem: "(b, n, True) \<in> set bs" using b by (simp add: avail_mem)
  have r8: "r < 800" using pool_range(6) [OF a mem] rank_index r by simp
  have "b \<in> set (F r)" unfolding F(2) r using b by blast
  then obtain us vs where F3: "F r = us @ b # vs" by (meson split_list)
  have lo: "lists_ok (load64 m) (maps m c) c F" using F(1) by (simp add: mem_lists_def)
  obtain m' where m': "remove_free_block m c b (r div 32) (r mod 32) = Some m'" "mem_lists m' c (F(r := us @ vs))"
    "\<And>x. x \<notin> ctl c \<union> link_bytes (listed F - {b}) \<Longrightarrow> m' x = m x"
    by (rule remove_free_block_spec [OF F(1) r8 F3]) blast
  have W: "same_outside (ctl c \<union> link_bytes (listed F - {b})) m m'" using m'(3) by (rule same_outsideI)
  have S: "\<exists>n. (s, n, True) \<in> set bs" if "s \<in> listed F - {b}" for s using that unfolding F(3) by (auto simp: avail_def)
  have "distinct (us @ b # vs)" using lists_okD(5) [OF lo, of r] F3 by simp
  then have "set (us @ vs) = set (F r) - {b}" using F3 by auto
  moreover have "b \<notin> set (F q)" if "q \<noteq> r" for q using lists_okD(6) [OF lo, of b] \<open>b \<in> set (F r)\<close> that by blast
  ultimately have "set ((F(r := us @ vs)) q) = set (F q) - {b}" for q by (cases "q = r") simp_all
  then have F': "set ((F(r := us @ vs)) q) = {s. \<exists>n. (s, n) \<in> avail bs (insert b U) \<and> rank n = q}" for q
    unfolding F(2) by (auto simp: avail_def)
  show thesis using that [OF m'(1)] pool_link_step [OF a W S m'(2) F'] by blast
qed

lemma pool_remove:
  assumes "tlsf_pool c p e m bs U" "(b, n) \<in> avail bs U"
  obtains m' where "block_remove m c b = Some m'" "tlsf_pool c p e m' bs (insert b U)" "same_outside (owned c p e bs) m m'"
proof -
  have mem: "(b, n, True) \<in> set bs" using assms(2) by (simp add: avail_mem)
  have "n < 2 ^ 64" using pool_range(6) [OF assms(1) mem] by simp
  moreover have "block_size m b = n" using pool_header [OF assms(1) mem] by simp
  ultimately have "block_remove m c b = remove_free_block m c b (rank n div 32) (rank n mod 32)"
    by (simp add: block_remove_def mapping_insert_rank)
  then show thesis using pool_unlist [OF assms refl] that by metis
qed

lemma pool_insert:
  assumes a: "tlsf_pool c p e m bs U" and b: "(b, n, True) \<in> set bs" "b \<in> U"
  obtains m' where "block_insert m c b = Some m'" "tlsf_pool c p e m' bs (U - {b})" "same_outside (owned c p e bs) m m'"
proof -
  obtain F where F: "mem_lists m c F" "\<And>r. set (F r) = {b. \<exists>n. (b, n) \<in> avail bs U \<and> rank n = r}"
    "listed F = fst ` avail bs U" by (rule pool_listsE [OF a]) blast
  let ?r = "rank n" and ?F = "F(rank n := b # F (rank n))"
  have r8: "?r < 800" using pool_range(6) [OF a b(1)] rank_index by simp
  have nin: "b \<notin> listed F" using b(2) unfolding F(3) by (auto simp: avail_def)
  have "insert b (listed F) \<subseteq> fst ` set bs" using b(1) avail_sub [of bs U] unfolding F(3) by force
  then have nodes: "nodes_ok c (insert b (listed F))" using nodes_subset [OF pool_nodes [OF a]] by blast
  obtain m' where m': "insert_free_block m c b (?r div 32) (?r mod 32) = Some m'" "mem_lists m' c ?F"
    "\<And>x. x \<notin> ctl c \<union> link_bytes (insert b (listed F)) \<Longrightarrow> m' x = m x"
    by (rule insert_free_block_spec [OF F(1) nodes nin r8]) blast
  have W: "same_outside (ctl c \<union> link_bytes (insert b (listed F))) m m'" using m'(3) by (rule same_outsideI)
  have S: "\<exists>n. (s, n, True) \<in> set bs" if "s \<in> insert b (listed F)" for s
    using that b(1) unfolding F(3) by (auto simp: avail_def)
  have F': "set (?F q) = {s. \<exists>n. (s, n) \<in> avail bs (U - {b}) \<and> rank n = q}" for q
  proof -
    have "avail bs (U - {b}) = insert (b, n) (avail bs U)"
      using b by (auto simp: avail_def dest: avail_unique(1) [OF a b(1), symmetric])
    then have "{s. \<exists>n. (s, n) \<in> avail bs (U - {b}) \<and> rank n = q} = (if q = ?r then insert b (set (F q)) else set (F q))"
      unfolding F(2) by auto
    then show ?thesis by simp
  qed
  have "n < 2 ^ 64" "block_size m b = n" using pool_range(6) [OF a b(1)] pool_header [OF a b(1)] by simp_all
  then have "block_insert m c b = Some m'" using m'(1) by (simp add: block_insert_def mapping_insert_rank)
  then show thesis using that pool_link_step [OF a W S m'(2) F'] by blast
qed

text \<open>The search: a block that is large enough is taken out of its list, or none is found.\<close>

lemma pool_locate:
  assumes a: "tlsf_pool c p e m bs {}" and k: "0 < k" "k < 2 ^ 32" "8 dvd k"
  obtains (none) "block_locate_free m c k = Some (0, m)" "\<And>b n. (b, n, True) \<in> set bs \<Longrightarrow> n < search_size k"
  | (found) b n m' where "block_locate_free m c k = Some (b, m')" "(b, n, True) \<in> set bs" "k \<le> n" "tlsf_pool c p e m' bs {b}"
      "same_outside (owned c p e bs) m m'"
proof -
  obtain F where F: "mem_lists m c F" "\<And>r. set (F r) = {b. \<exists>n. (b, n) \<in> avail bs {} \<and> rank n = r}"
    "listed F = fst ` avail bs {}" by (rule pool_listsE [OF a]) blast
  let ?r = "rank (search_size k)"
  have map: "mapping_search k = (?r div 32, ?r mod 32)" using k(2) by (rule mapping_search_rank)
  have big: "n < search_size k" if "rank n < ?r" for n using that search_complete [of k n] by (meson not_less)
  show thesis
  proof (cases "?r < 800")
    case False
    have nfl: "\<not> ?r div 32 < FL_INDEX_COUNT" using False by (simp add: tlsf_constants div_less_iff_less_mult)
    have "n < search_size k" if "(b, n, True) \<in> set bs" for b n
      using rank_index pool_range(6) [OF a that] False by (intro big) (meson less_le_trans not_less)
    moreover have "block_locate_free m c k = Some (0, m)"
      using k(1) map nfl by (simp add: block_locate_free_def)
    ultimately show thesis using none by blast
  next
    case True
    have fl: "?r div 32 < FL_INDEX_COUNT" using True by (simp add: tlsf_constants)
    show thesis
      using F(1) True
    proof (cases rule: search_suitable_block_spec)
      case 1: none
      have "n < search_size k" if "(b, n, True) \<in> set bs" for b n
      proof (rule big, rule ccontr)
        assume "\<not> rank n < ?r"
        then have "F (rank n) = []" using 1(1) by simp
        moreover have "b \<in> set (F (rank n))" unfolding F(2) using that by (auto simp: avail_def)
        ultimately show False by simp
      qed
      moreover have "block_locate_free m c k = Some (0, m)"
        using k(1) map fl 1(2) by (simp add: block_locate_free_def)
      ultimately show thesis using none by blast
    next
      case 2: (found q)
      let ?b = "hd (F q)"
      have "?b \<in> set (F q)" using 2(3) by simp
      then obtain n where n: "(?b, n) \<in> avail bs {}" "rank n = q" unfolding F(2) by blast
      have mem: "(?b, n, True) \<in> set bs" using n(1) by (simp add: avail_mem)
      have fits: "k \<le> n" using search_fits [of k n] 2(1) n(2) k(3) by simp
      have b0: "?b \<noteq> 0" "block_size m ?b = n"
        using pool_range(8) [OF a mem] poolD(3) [OF a] pool_header(1) [OF a mem] by auto
      obtain m' where m': "remove_free_block m c ?b (q div 32) (q mod 32) = Some m'" "tlsf_pool c p e m' bs (insert ?b {})"
        "same_outside (owned c p e bs) m m'" by (rule pool_unlist [OF a n(1) n(2) [symmetric]])
      have "block_locate_free m c k = Some (?b, m')"
        using k(1) map fl 2(4) m'(1) b0 fits by (simp add: block_locate_free_def insist_def)
      then show thesis using found mem fits m'(2,3) by blast
    qed
  qed
qed

end
