(* ===== verification/Tlsf_Steps.thy ===== *)
theory Tlsf_Steps
  imports Tlsf_Pool
begin

text \<open>
  Marking, trimming and merging a block in the heap of \<open>tlsf.c\<close>, on the list of its blocks.
\<close>

definition cut :: "addr \<Rightarrow> nat \<Rightarrow> nat \<Rightarrow> bool \<Rightarrow> tlsf_block list" where
  "cut b n k f = (if k + 32 \<le> n then [(b, k, f), (b + 8 + k, n - k - 8, True)] else [(b, n, f)])"

section \<open>The blocks around a block\<close>

lemma block_others:
  assumes "tlsf_pool c p e m (xs @ (b, n, f) # ys) U"
  shows "(s, k, g) \<in> set xs \<Longrightarrow> s + 32 \<le> b" "(s, k, g) \<in> set ys \<Longrightarrow> b + 8 + n \<le> s"
proof -
  obtain pf where l: "segment m p False xs b pf" "layout m b pf ((b, n, f) # ys) e" by (rule pool_at [OF assms])
  show "(s, k, g) \<in> set xs \<Longrightarrow> s + 32 \<le> b" using segment_end [OF l(1)] by fastforce
  have "layout m (b + 8 + n) f ys e" using l(2) by simp
  then show "(s, k, g) \<in> set ys \<Longrightarrow> b + 8 + n \<le> s" using layout_range(1) by blast
qed

lemma avail_append: "avail (xs @ ys) U = avail xs U \<union> avail ys U"
  by (auto simp: avail_def)

lemma avail_Cons: "avail ((b, n, f) # ys) U = (if f \<and> b \<notin> U then insert (b, n) (avail ys U) else avail ys U)"
  by (auto simp: avail_def)

lemma avail_cong: "(\<And>s n. (s, n, True) \<in> set xs \<Longrightarrow> s \<in> U \<longleftrightarrow> s \<in> V) \<Longrightarrow> avail xs U = avail xs V"
  by (auto simp: avail_def)

text \<open>What is free and listed around a block depends on \<open>U\<close> only outside the block.\<close>

lemma avail_around:
  assumes "tlsf_pool c p e m (xs @ (b, n, f) # ys) W" "\<And>s. (s \<in> U) \<noteq> (s \<in> V) \<Longrightarrow> b \<le> s \<and> s < b + 8 + n"
  shows "avail xs U = avail xs V" "avail ys U = avail ys V"
proof -
  have "s \<in> U \<longleftrightarrow> s \<in> V" if "(s, k, g) \<in> set xs \<or> (s, k, g) \<in> set ys" for s k g
    using block_others [OF assms(1), of s k g] that assms(2) [of s] by fastforce
  then show "avail xs U = avail xs V" "avail ys U = avail ys V" by (intro avail_cong; blast)+
qed

lemma used_append: "used_bytes (xs @ ys) = used_bytes xs \<union> used_bytes ys"
  by (auto simp: used_bytes_def)

lemma used_Cons: "used_bytes ((b, n, f) # ys) = (if f then {} else {b + 16 ..< b + 16 + n}) \<union> used_bytes ys"
  unfolding used_bytes_def set_eq_iff by (cases f) (simp_all, blast)

lemma owned_mono: "used_bytes bs' \<subseteq> used_bytes bs \<Longrightarrow> owned c p e bs \<subseteq> owned c p e bs'"
  by (auto simp: owned_def)

lemma owned_cong: "used_bytes bs = used_bytes bs' \<Longrightarrow> owned c p e bs = owned c p e bs'"
  by (simp add: owned_def)

lemma free_owned:
  assumes "tlsf_pool c p e m (xs @ (b, n, True) # ys) U"
  shows "{b + 8 ..< b + 24 + n} \<subseteq> owned c p e (xs @ (b, n, True) # ys)"
proof -
  have "{b + 8 ..< b + 24 + n} = {b + 8 ..< b + 16 + n} \<union> {b + 16 + n ..< b + 24 + n}" by auto
  then show ?thesis using block_owned(2) [OF assms, of b n True] next_owned [OF assms] by simp
qed

section \<open>Marking\<close>

lemma pool_mark_used:
  assumes a: "tlsf_pool c p e m (xs @ (b, n, True) # ys) {b}"
  obtains m' where "block_mark_as_used m b = Some m'" "tlsf_pool c p e m' (xs @ (b, n, False) # ys) {}"
    "same_outside (owned c p e (xs @ (b, n, True) # ys)) m m'"
proof -
  obtain pf where l: "segment m p False xs b pf" "layout m b pf ((b, n, True) # ys) e" by (rule pool_at [OF a])
  let ?W = "{b + 8 ..< b + 16} \<union> {b + 16 + n ..< b + 24 + n}"
  obtain m' where m': "block_mark_as_used m b = Some m'" "layout m' b pf ((b, n, False) # ys) e"
    "\<And>x. x \<notin> ?W \<Longrightarrow> m' x = m x" by (rule mark_used_layout [OF l(2) poolD(6) [OF a]]) blast
  have W: "same_outside ?W m m'" using m'(3) by (rule same_outsideI)
  have o: "?W \<subseteq> owned c p e (xs @ (b, n, True) # ys)" using block_owned(1) [OF a, of b n True] next_owned [OF a] by simp
  have av: "avail (xs @ [(b, n, False)] @ ys) {} = avail (xs @ [(b, n, True)] @ ys) {b}"
    using avail_around [OF a, of "{}" "{b}"] by (simp add: avail_append avail_Cons)
  have "tlsf_pool c p e m' (xs @ [(b, n, False)] @ ys) {}"
    by (rule pool_change [OF _ l(1) _ layout_block(5) [OF l(2) poolD(6) [OF a]] _ av W]) (use a l(2) m'(2) in auto)
  then show thesis using that m'(1) same_outside_mono [OF W o] by simp
qed

lemma pool_mark_free:
  assumes a: "tlsf_pool c p e m (xs @ (b, n, False) # ys) {}"
  obtains m' where "block_mark_as_free m b = Some m'" "tlsf_pool c p e m' (xs @ (b, n, True) # ys) {b}"
    "same_outside (owned c p e (xs @ (b, n, True) # ys)) m m'"
proof -
  obtain pf where l: "segment m p False xs b pf" "layout m b pf ((b, n, False) # ys) e" by (rule pool_at [OF a])
  let ?W = "{b + 8 ..< b + 16} \<union> {b + 8 + n ..< b + 24 + n}"
  obtain m' where m': "block_mark_as_free m b = Some m'" "layout m' b pf ((b, n, True) # ys) e"
    "\<And>x. x \<notin> ?W \<Longrightarrow> m' x = m x" by (rule mark_free_layout [OF l(2) poolD(6) [OF a]]) blast
  have W: "same_outside ?W m m'" using m'(3) by (rule same_outsideI)
  have av: "avail (xs @ [(b, n, True)] @ ys) {b} = avail (xs @ [(b, n, False)] @ ys) {}"
    using avail_around [OF a, of "{}" "{b}"] by (simp add: avail_append avail_Cons)
  have "tlsf_pool c p e m' (xs @ [(b, n, True)] @ ys) {b}"
    by (rule pool_change [OF _ l(1) _ layout_block(5) [OF l(2) poolD(6) [OF a]] _ av W]) (use a l(2) m'(2) in auto)
  then have a': "tlsf_pool c p e m' (xs @ (b, n, True) # ys) {b}" by simp
  have "?W \<subseteq> {b + 8 ..< b + 24 + n}" by auto
  then have "?W \<subseteq> owned c p e (xs @ (b, n, True) # ys)" using free_owned [OF a'] by blast
  then show thesis using that m'(1) a' same_outside_mono [OF W] by blast
qed

section \<open>Trimming\<close>

lemma pool_split_free:
  assumes a: "tlsf_pool c p e m (xs @ (b, n, True) # ys) {b}" and k: "k + 32 \<le> n"
    and l: "segment m p False xs b pf" "layout m b pf ((b, n, True) # ys) e"
    and m': "layout m' b pf ((b, k, True) # (b + 8 + k, n - k - 8, True) # ys) e" "\<And>x. x \<notin> split_zone b k n \<Longrightarrow> m' x = m x"
  shows "tlsf_pool c p e m' (xs @ (b, k, True) # (b + 8 + k, n - k - 8, True) # ys) {b, b + 8 + k}"
    "same_outside (owned c p e (xs @ (b, n, True) # ys)) m m'"
    "owned c p e (xs @ (b, k, True) # (b + 8 + k, n - k - 8, True) # ys) = owned c p e (xs @ (b, n, True) # ys)"
proof -
  let ?new = "[(b, k, True), (b + 8 + k, n - k - 8, True)]"
  have W: "same_outside (split_zone b k n) m m'" using m'(2) by (rule same_outsideI)
  have z: "split_zone b k n \<subseteq> {b + 8 ..< b + 24 + n}" using k by (auto simp: split_zone_def)
  have "avail xs {b, b + 8 + k} = avail xs {b}" "avail ys {b, b + 8 + k} = avail ys {b}"
    by (rule avail_around [OF a]; use k in auto)+
  then have av: "avail (xs @ ?new @ ys) {b, b + 8 + k} = avail (xs @ [(b, n, True)] @ ys) {b}"
    by (simp add: avail_append avail_Cons)
  have "tlsf_pool c p e m' (xs @ ?new @ ys) {b, b + 8 + k}"
    by (rule pool_change [OF _ l(1) _ layout_block(5) [OF l(2) poolD(6) [OF a]] _ av W]) (use a l(2) m'(1) z in auto)
  then show "tlsf_pool c p e m' (xs @ (b, k, True) # (b + 8 + k, n - k - 8, True) # ys) {b, b + 8 + k}" by simp
  show "same_outside (owned c p e (xs @ (b, n, True) # ys)) m m'"
    using same_outside_mono [OF W] z free_owned [OF a] by blast
  show "owned c p e (xs @ (b, k, True) # (b + 8 + k, n - k - 8, True) # ys) = owned c p e (xs @ (b, n, True) # ys)"
    by (rule owned_cong) (simp add: used_append used_Cons)
qed

lemma pool_trim_free:
  assumes a: "tlsf_pool c p e m (xs @ (b, n, True) # ys) {b}" and k: "24 \<le> k" "8 dvd k" "k < 2 ^ 32"
  obtains m' where "block_trim_free m c b k = Some m'" "tlsf_pool c p e m' (xs @ cut b n k True @ ys) {b}"
    "same_outside (owned c p e (xs @ (b, n, True) # ys)) m m'"
    "owned c p e (xs @ cut b n k True @ ys) = owned c p e (xs @ (b, n, True) # ys)"
proof -
  have h: "block_size m b = n" "block_is_free m b" using pool_header [OF a, of b n True] by simp_all
  show thesis
  proof (cases "k + 32 \<le> n")
    case False
    then have "block_trim_free m c b k = Some m"
      using can_split [OF h(1), of k] k(3) h(2) by (simp add: block_trim_free_def insist_def)
    moreover have "cut b n k True = [(b, n, True)]" using False by (simp add: cut_def)
    ultimately show thesis using that a same_outside_refl by simp
  next
    case True
    obtain pf where l: "segment m p False xs b pf" "layout m b pf ((b, n, True) # ys) e" by (rule pool_at [OF a])
    have b8: "8 dvd b" using pool_range(5) [OF a, of b n True] by simp
    let ?r = "b + 8 + k"
    obtain m1 m2 m3 where s: "block_split m b k = Some (?r, m1)" "block_link_next m1 b = Some (?r, m2)"
      "block_set_prev_free m2 ?r = m3" "layout m3 b pf ((b, k, True) # (?r, n - k - 8, True) # ys) e"
      "\<And>x. x \<notin> split_zone b k n \<Longrightarrow> m3 x = m x"
      by (rule trim_free_layout [OF l(2) poolD(6) [OF a] k(1,2) True b8]) blast
    note st = pool_split_free [OF a True l s(4,5)]
    let ?bs = "xs @ (b, k, True) # (?r, n - k - 8, True) # ys"
    obtain m4 where m4: "block_insert m3 c ?r = Some m4" "tlsf_pool c p e m4 ?bs ({b, ?r} - {?r})"
      "same_outside (owned c p e ?bs) m3 m4" by (rule pool_insert [OF st(1), of ?r "n - k - 8"]) auto
    have "{b, ?r} - {?r} = {b}" using k(1) by auto
    moreover have "block_trim_free m c b k = Some m4"
      using can_split [OF h(1), of k] k(3) h(2) True s(1-3) m4(1) by (simp add: block_trim_free_def insist_def)
    moreover have "cut b n k True = [(b, k, True), (?r, n - k - 8, True)]" using True by (simp add: cut_def)
    ultimately show thesis
      using that m4(2) st(3) same_outside_trans [OF st(2) m4(3) order_refl] by simp
  qed
qed

section \<open>Merging\<close>

lemma pool_absorb:
  assumes a: "tlsf_pool c p e m (xs @ (b, n, True) # (b', k, True) # ys) {b, b'}"
  obtains m' where "block_absorb m b b' = Some (b, m')" "tlsf_pool c p e m' (xs @ (b, n + k + 8, True) # ys) {b}"
    "same_outside (owned c p e (xs @ (b, n, True) # (b', k, True) # ys)) m m'"
    "owned c p e (xs @ (b, n + k + 8, True) # ys) = owned c p e (xs @ (b, n, True) # (b', k, True) # ys)"
proof -
  let ?bs = "xs @ (b, n, True) # (b', k, True) # ys"
  obtain pf where l: "segment m p False xs b pf" "layout m b pf ((b, n, True) # (b', k, True) # ys) e" by (rule pool_at [OF a])
  let ?W = "{b + 8 ..< b + 16} \<union> {b + 16 + n + k ..< b + 24 + n + k}"
  obtain m' where m': "block_absorb m b b' = Some (b, m')" "layout m' b pf ((b, n + k + 8, True) # ys) e"
    "\<And>x. x \<notin> ?W \<Longrightarrow> m' x = m x" by (rule absorb_layout [OF l(2) poolD(6) [OF a]]) blast
  have W: "same_outside ?W m m'" using m'(3) by (rule same_outsideI)
  have b': "b' = b + 8 + n" and ys: "layout m (b + 16 + n + k) True ys e" using l(2) by (auto simp: ac_simps)
  have a2: "tlsf_pool c p e m ((xs @ [(b, n, True)]) @ (b', k, True) # ys) {b, b'}" using a by simp
  have "avail xs {b} = avail xs {b, b'}" by (rule avail_cong) (use block_others(1) [OF a] b' in fastforce)
  moreover have "avail ys {b} = avail ys {b, b'}" by (rule avail_around [OF a2]) auto
  ultimately have av: "avail (xs @ [(b, n + k + 8, True)] @ ys) {b} = avail (xs @ [(b, n, True), (b', k, True)] @ ys) {b, b'}"
    by (simp add: avail_append avail_Cons)
  have "tlsf_pool c p e m' (xs @ [(b, n + k + 8, True)] @ ys) {b}"
    by (rule pool_change [OF _ l(1) _ ys _ av W]) (use a l(2) m'(2) in auto)
  then have a': "tlsf_pool c p e m' (xs @ (b, n + k + 8, True) # ys) {b}" by simp
  have o: "owned c p e (xs @ (b, n + k + 8, True) # ys) = owned c p e ?bs"
    by (rule owned_cong) (simp add: used_append used_Cons)
  have "?W \<subseteq> {b + 8 ..< b + 24 + (n + k + 8)}" by auto
  then have "?W \<subseteq> owned c p e ?bs" using free_owned [OF a'] unfolding o by blast
  then show thesis using that m'(1) a' o same_outside_mono [OF W] by blast
qed

definition join_prev :: "tlsf_block list \<Rightarrow> addr \<Rightarrow> nat \<Rightarrow> tlsf_block list \<times> addr \<times> nat" where
  "join_prev xs b n =
     (if xs \<noteq> [] \<and> snd (snd (last xs)) then (butlast xs, fst (last xs), fst (snd (last xs)) + n + 8) else (xs, b, n))"

fun join_next :: "nat \<Rightarrow> tlsf_block list \<Rightarrow> nat \<times> tlsf_block list" where
  "join_next n ((b, k, True) # ys) = (n + k + 8, ys)"
| "join_next n ys = (n, ys)"

lemma segment_last:
  assumes "segment m p False xs b pf"
  shows "pf \<longleftrightarrow> xs \<noteq> [] \<and> snd (snd (last xs))"
    and "pf \<Longrightarrow> load64 m b = fst (last xs)"
proof -
  have "(pf \<longleftrightarrow> xs \<noteq> [] \<and> snd (snd (last xs))) \<and> (pf \<longrightarrow> load64 m b = fst (last xs))"
  proof (cases xs rule: rev_cases)
    case (snoc zs y)
    then show ?thesis using assms by (cases y) (auto simp: segment_append)
  qed (use assms in simp)
  then show "pf \<longleftrightarrow> xs \<noteq> [] \<and> snd (snd (last xs))" "pf \<Longrightarrow> load64 m b = fst (last xs)" by auto
qed

lemma pool_merge_prev:
  assumes a: "tlsf_pool c p e m (xs @ (b, n, True) # ys) {b}" and j: "join_prev xs b n = (xs', b', n')"
  obtains m' where "block_merge_prev m c b = Some (b', m')" "tlsf_pool c p e m' (xs' @ (b', n', True) # ys) {b'}"
    "same_outside (owned c p e (xs @ (b, n, True) # ys)) m m'"
    "owned c p e (xs' @ (b', n', True) # ys) = owned c p e (xs @ (b, n, True) # ys)"
proof -
  obtain pf where l: "segment m p False xs b pf" "layout m b pf ((b, n, True) # ys) e" by (rule pool_at [OF a])
  have h: "block_is_prev_free m b = pf" using layout_block(11) [OF l(2) poolD(6) [OF a]] .
  show thesis
  proof (cases pf)
    case False
    then have "xs' = xs" "b' = b" "n' = n" using segment_last(1) [OF l(1)] j by (auto simp: join_prev_def)
    moreover have "block_merge_prev m c b = Some (b, m)" using h False by (simp add: block_merge_prev_def)
    ultimately show thesis using that a same_outside_refl by simp
  next
    case True
    then have "xs \<noteq> []" "snd (snd (last xs))" using segment_last(1) [OF l(1)] by simp_all
    then obtain us s k where xs: "xs = us @ [(s, k, True)]" by (cases xs rule: rev_cases) auto
    then have r: "xs' = us" "b' = s" "n' = k + n + 8" using j by (auto simp: join_prev_def)
    have s: "load64 m b = s" using segment_last(2) [OF l(1) True] xs by simp
    have sb: "s \<noteq> b" using block_others(1) [OF a, of s k True] xs by simp
    have mem: "(s, k, True) \<in> set (xs @ (b, n, True) # ys)" using xs by simp
    have s0: "s \<noteq> 0" "block_is_free m s" using pool_range(8) [OF a mem] pool_header(2) [OF a mem] by auto
    have "(s, k) \<in> avail (xs @ (b, n, True) # ys) {b}" using mem sb by (simp add: avail_mem)
    from pool_remove [OF a this] obtain m1 where m1: "block_remove m c s = Some m1"
      "tlsf_pool c p e m1 (us @ (s, k, True) # (b, n, True) # ys) {s, b}" "same_outside (owned c p e (xs @ (b, n, True) # ys)) m m1"
      using xs by auto
    obtain m2 where m2: "block_absorb m1 s b = Some (s, m2)" "tlsf_pool c p e m2 (us @ (s, k + n + 8, True) # ys) {s}"
      "same_outside (owned c p e (us @ (s, k, True) # (b, n, True) # ys)) m1 m2"
      "owned c p e (us @ (s, k + n + 8, True) # ys) = owned c p e (us @ (s, k, True) # (b, n, True) # ys)"
      by (rule pool_absorb [OF m1(2)])
    have "block_merge_prev m c b = Some (s, m2)"
      using h True s s0 m1(1) m2(1) by (simp add: block_merge_prev_def block_prev_def prev_phys_block_def insist_def)
    then show thesis using that m2(2,4) same_outside_trans [OF m1(3) m2(3)] xs r by simp
  qed
qed

lemma pool_merge_next:
  assumes a: "tlsf_pool c p e m (xs @ (b, n, True) # ys) {b}" and j: "join_next n ys = (n', ys')"
  obtains m' where "block_merge_next m c b = Some (b, m')" "tlsf_pool c p e m' (xs @ (b, n', True) # ys') {b}"
    "same_outside (owned c p e (xs @ (b, n, True) # ys)) m m'"
    "owned c p e (xs @ (b, n', True) # ys') = owned c p e (xs @ (b, n, True) # ys)"
proof -
  obtain pf where l: "segment m p False xs b pf" "layout m b pf ((b, n, True) # ys) e" by (rule pool_at [OF a])
  note lb = layout_block [OF l(2) poolD(6) [OF a]]
  let ?a = "b + 8 + n"
  have nb: "block_next m b = Some ?a" by (rule lb(12))
  show thesis
  proof (cases "\<exists>s k zs. ys = (s, k, True) # zs")
    case False
    then have r: "n' = n" "ys' = ys" using j by (cases "(n, ys)" rule: join_next.cases; simp)+
    have "\<not> block_is_free m ?a"
    proof (cases ys)
      case Nil
      then have "size_field m ?a = hdr 0 False True" using lb(5) by auto
      then show ?thesis using header_ops(2) [of m ?a 0 False True] by simp
    next
      case (Cons y zs)
      then obtain s k where y: "ys = (s, k, False) # zs" using False by (cases y) auto
      then have "s = ?a" using lb(5) by simp
      then show ?thesis using pool_header(2) [OF a, of s k False] y by simp
    qed
    then have "block_merge_next m c b = Some (b, m)" using nb by (simp add: block_merge_next_def insist_def)
    then show thesis using that a r same_outside_refl by simp
  next
    case True
    then obtain s k zs where ys: "ys = (s, k, True) # zs" by blast
    then have r: "n' = n + k + 8" "ys' = zs" using j by simp_all
    have s: "s = ?a" using lb(5) ys by simp
    have mem: "(s, k, True) \<in> set (xs @ (b, n, True) # ys)" using ys by simp
    have f: "block_is_free m ?a" "\<not> block_is_last m b"
      using pool_header(2) [OF a mem] s header_ops(4) [OF lb(4,3)] lb(1) by auto
    have "(s, k) \<in> avail (xs @ (b, n, True) # ys) {b}" using mem s by (simp add: avail_mem)
    then obtain m1 where m1: "block_remove m c s = Some m1" "tlsf_pool c p e m1 (xs @ (b, n, True) # ys) (insert s {b})"
      "same_outside (owned c p e (xs @ (b, n, True) # ys)) m m1" by (rule pool_remove [OF a])
    have a1: "tlsf_pool c p e m1 (xs @ (b, n, True) # (s, k, True) # zs) {b, s}" using m1(2) ys by (simp add: insert_commute)
    obtain m2 where m2: "block_absorb m1 b s = Some (b, m2)" "tlsf_pool c p e m2 (xs @ (b, n + k + 8, True) # zs) {b}"
      "same_outside (owned c p e (xs @ (b, n, True) # (s, k, True) # zs)) m1 m2"
      "owned c p e (xs @ (b, n + k + 8, True) # zs) = owned c p e (xs @ (b, n, True) # (s, k, True) # zs)"
      by (rule pool_absorb [OF a1])
    have "block_merge_next m c b = Some (b, m2)"
      using nb f m1(1) m2(1) s by (simp add: block_merge_next_def insist_def)
    then show thesis using that m2(2,4) same_outside_trans [OF m1(3) m2(3)] ys r by simp
  qed
qed

end
