(* ===== verification/Tlsf_Correct.thy ===== *)
theory Tlsf_Correct
  imports Tlsf_Steps
begin

text \<open>
  \<open>tlsf_malloc\<close> and \<open>tlsf_free\<close> against a reference: the heap is a list of blocks in address order,
  an allocation uses a free block and cuts off what is left, a release marks the block free and
  coalesces the list.
\<close>

section \<open>The reference\<close>

fun coalesce :: "tlsf_block list \<Rightarrow> tlsf_block list" where
  "coalesce ((b, n, True) # (b', k, True) # bs) = coalesce ((b, n + k + 8, True) # bs)"
| "coalesce (x # bs) = x # coalesce bs"
| "coalesce [] = []"

definition is_free_block :: "tlsf_block \<Rightarrow> bool" where
  "is_free_block x = snd (snd x)"

definition coalesced :: "tlsf_block list \<Rightarrow> bool" where
  "coalesced bs = successively (\<lambda>x y. \<not> (is_free_block x \<and> is_free_block y)) bs"

definition take_block :: "tlsf_block list \<Rightarrow> addr \<Rightarrow> nat \<Rightarrow> tlsf_block list" where
  "take_block bs b k = concat (map (\<lambda>(x, n, f). if x = b then cut x n k False else [(x, n, f)]) bs)"

definition release :: "tlsf_block list \<Rightarrow> addr \<Rightarrow> tlsf_block list" where
  "release bs b = coalesce (map (\<lambda>(x, n, f). (x, n, f \<or> x = b)) bs)"

definition request :: "nat \<Rightarrow> nat" where
  "request sz = (let a = 8 * ((sz + 7) div 8) in if sz = 0 \<or> 2 ^ 32 \<le> a then 0 else max a 24)"

definition heap :: "addr \<Rightarrow> addr \<Rightarrow> addr \<Rightarrow> bytes \<Rightarrow> tlsf_block list \<Rightarrow> bool" where
  "heap c p e m bs \<longleftrightarrow> tlsf_pool c p e m bs {} \<and> coalesced bs"

lemmas coalesced_simps = coalesced_def is_free_block_def successively_append_iff successively_Cons

section \<open>Facts of the reference\<close>

lemma coalesce_id: "coalesced bs \<Longrightarrow> coalesce bs = bs"
  by (induction bs rule: coalesce.induct) (auto simp: coalesced_simps)

lemma coalesce_free: "coalesced ys \<Longrightarrow> join_next n ys = (n', ys') \<Longrightarrow> coalesce ((b, n, True) # ys) = (b, n', True) # ys'"
proof (induction n ys rule: join_next.induct)
  case (1 n s k ys)
  have "coalesce ((b, n + k + 8, True) # ys) = (b, n + k + 8, True) # coalesce ys"
    using 1(1) by (cases "(b, n + k + 8, True) # ys" rule: coalesce.cases) (auto simp: coalesced_simps)
  then show ?case using 1 coalesce_id [of ys] by (auto simp: coalesced_simps)
qed (use coalesce_id in \<open>auto simp: coalesced_simps\<close>)

lemma coalesce_join:
  assumes "coalesced xs" "coalesced ys" "join_prev xs b n = (xs', b', n')" "join_next n' ys = (n'', ys')"
  shows "coalesce (xs @ (b, n, True) # ys) = xs' @ (b', n'', True) # ys'"
  using assms
proof (induction xs arbitrary: xs' rule: induct_list012)
  case 1
  then show ?case by (simp add: join_prev_def coalesce_free)
next
  case (2 x)
  obtain s k f where x: "x = (s, k, f)" by (cases x)
  show ?case
  proof (cases f)
    case True
    then show ?thesis using 2 x by (simp add: join_prev_def coalesce_free)
  next
    case False
    then show ?thesis using 2 x by (auto simp: join_prev_def coalesce_free)
  qed
next
  case (3 x y zs)
  obtain s k f where x: "x = (s, k, f)" by (cases x)
  obtain s' k' f' where y: "y = (s', k', f')" by (cases y)
  obtain us where xs': "xs' = x # us" "join_prev (y # zs) b n = (us, b', n')"
    using 3(5) by (auto simp: join_prev_def split: if_splits)
  have "\<not> (f \<and> f')" "coalesced (y # zs)" using 3(3) x y by (auto simp: coalesced_simps)
  then have "coalesce (x # y # zs @ (b, n, True) # ys) = x # coalesce (y # zs @ (b, n, True) # ys)"
    using x y by (cases f; cases f') simp_all
  then show ?case using 3(2) [OF \<open>coalesced (y # zs)\<close> 3(4) xs'(2) 3(6)] xs'(1) by simp
qed

lemma coalesced_coalesce: "coalesced (coalesce bs)"
proof (induction bs rule: coalesce.induct)
  case (1 b n b' k bs)
  then show ?case by simp
qed (auto simp: coalesced_simps)


lemma align_8: "x + 7 < 2 ^ 64 \<Longrightarrow> align_up x ALIGN_SIZE = Some (8 * ((x + 7) div 8))"
proof -
  assume x: "x + 7 < 2 ^ 64"
  have s: "sub64 8 1 = 7" "sub64 8 (Suc 0) = 7" by (simp_all add: wrap_simps)
  have a: "add64 x 7 = x + 7" using x by (intro add64_id) simp
  have "and_not (x + 7) 7 = 8 * ((x + 7) div 8)"
    unfolding and_not_def and_7 by (simp add: minus_mod_eq_mult_div)
  moreover have "(8::nat) AND 7 = 0" by (simp add: and_7)
  ultimately show ?thesis by (simp add: align_up_def tlsf_constants s a insist_def)
qed

lemma adjust_request:
  assumes "sz + 7 < 2 ^ 64"
  shows "adjust_request_size sz ALIGN_SIZE = Some (request sz)"
  using align_8 [OF assms] by (simp add: adjust_request_size_def request_def Let_def block_constants FL_INDEX_MAX_def max_def)

lemma request_range:
  assumes "request sz \<noteq> 0"
  shows "24 \<le> request sz" "8 dvd request sz" "request sz < 2 ^ 32" "sz \<le> request sz" "request sz < sz + 24" "0 < sz"
proof -
  let ?a = "8 * ((sz + 7) div 8)"
  have a: "sz \<noteq> 0" "?a < 2 ^ 32" "request sz = max ?a 24" using assms by (auto simp: request_def Let_def split: if_splits)
  have d: "sz \<le> ?a" "?a \<le> sz + 7" using div_mult_mod_eq [of "sz + 7" 8] mod_less_divisor [of 8 "sz + 7"] by linarith+
  show "24 \<le> request sz" "8 dvd request sz" using a(3) by (auto simp: max_def)
  show "request sz < 2 ^ 32" "sz \<le> request sz" "request sz < sz + 24" "0 < sz" using a d by simp_all
qed

lemma request_zero: "request sz = 0 \<longleftrightarrow> sz = 0 \<or> 2 ^ 32 - 8 < sz"
proof -
  have "2 ^ 32 \<le> 8 * ((sz + 7) div 8) \<longleftrightarrow> 2 ^ 32 - 8 < sz" by simp presburger
  then show ?thesis by (auto simp: request_def Let_def max_def split: if_splits)
qed

lemma cut_eq: "cut b n k f = (b, if k + 32 \<le> n then k else n, f) # (if k + 32 \<le> n then [(b + 8 + k, n - k - 8, True)] else [])"
  by (simp add: cut_def)

lemma take_block_at:
  assumes "tlsf_pool c p e m (xs @ (b, n, f) # ys) U"
  shows "take_block (xs @ (b, n, f) # ys) b k = xs @ cut b n k False @ ys"
proof -
  have "take_block zs b k = zs" if "\<And>x n f. (x, n, f) \<in> set zs \<Longrightarrow> x \<noteq> b" for zs
    using that by (induction zs) (force simp: take_block_def)+
  note keep = this
  have "take_block xs b k = xs" by (rule keep) (use block_others(1) [OF assms] in fastforce)
  moreover have "take_block ys b k = ys" by (rule keep) (use block_others(2) [OF assms] in fastforce)
  ultimately show ?thesis by (simp add: take_block_def)
qed

lemma coalesced_take:
  assumes "tlsf_pool c p e m bs U" "coalesced bs" "(b, n, True) \<in> set bs"
  shows "coalesced (take_block bs b k)"
proof -
  obtain xs ys where bs: "bs = xs @ (b, n, True) # ys" using assms(3) by (meson split_list)
  show ?thesis using assms(2) take_block_at [OF assms(1) [unfolded bs], of k]
    unfolding bs by (cases ys) (auto simp: coalesced_simps cut_def)
qed

section \<open>Allocation\<close>

lemma pool_prepare_used:
  assumes a: "tlsf_pool c p e m (xs @ (b, n, True) # ys) {b}" and k: "24 \<le> k" "8 dvd k" "k < 2 ^ 32"
  obtains m' where "block_prepare_used m c b k = Some (b + 16, m')" "tlsf_pool c p e m' (xs @ cut b n k False @ ys) {}"
    "same_outside (owned c p e (xs @ (b, n, True) # ys)) m m'"
proof -
  let ?O = "owned c p e (xs @ (b, n, True) # ys)"
  obtain m1 where m1: "block_trim_free m c b k = Some m1" "tlsf_pool c p e m1 (xs @ cut b n k True @ ys) {b}"
    "same_outside ?O m m1" "owned c p e (xs @ cut b n k True @ ys) = ?O" by (rule pool_trim_free [OF a k])
  let ?n = "if k + 32 \<le> n then k else n" and ?ys = "(if k + 32 \<le> n then [(b + 8 + k, n - k - 8, True)] else []) @ ys"
  have "tlsf_pool c p e m1 (xs @ (b, ?n, True) # ?ys) {b}" using m1(2) unfolding cut_eq by simp
  then obtain m2 where m2: "block_mark_as_used m1 b = Some m2" "tlsf_pool c p e m2 (xs @ (b, ?n, False) # ?ys) {}"
    "same_outside (owned c p e (xs @ (b, ?n, True) # ?ys)) m1 m2" by (rule pool_mark_used)
  have "owned c p e (xs @ (b, ?n, True) # ?ys) = ?O" using m1(4) unfolding cut_eq by simp
  then have "same_outside ?O m m2" using same_outside_seq [OF m1(3)] m2(3) by simp
  moreover have "b \<noteq> 0" "block_to_ptr b = b + 16"
    using pool_range(7,8) [OF a, of b n True] by (auto simp: block_to_ptr_def block_constants add64_id)
  then have "block_prepare_used m c b k = Some (b + 16, m2)"
    using k(1) m1(1) m2(1) by (simp add: block_prepare_used_def insist_def)
  moreover have "xs @ cut b n k False @ ys = xs @ (b, ?n, False) # ?ys" unfolding cut_eq by simp
  ultimately show thesis using that m2(2) by metis
qed

lemma malloc_heap:
  assumes "heap c p e m bs" "sz + 7 < 2 ^ 64"
  shows "\<exists>ptr m'. tlsf_malloc m c sz = Some (ptr, m') \<and>
    (ptr = 0 \<and> m' = m \<and> (sz = 0 \<or> 2 ^ 32 - 8 < sz \<or> (\<forall>(b, n, f) \<in> set bs. f \<longrightarrow> n < search_size (request sz))) \<or>
     (\<exists>b n. ptr = b + 16 \<and> (b, n, True) \<in> set bs \<and> sz \<le> request sz \<and> request sz \<le> n \<and>
        heap c p e m' (take_block bs b (request sz)) \<and> same_outside (owned c p e bs) m m'))"
proof (cases "request sz = 0")
  case True
  have "tlsf_malloc m c sz = Some (0, m)"
    using adjust_request [OF assms(2)] True by (simp add: tlsf_malloc_def block_locate_free_def block_prepare_used_def)
  moreover have "sz = 0 \<or> 2 ^ 32 - 8 < sz" using True request_zero by blast
  ultimately show ?thesis by blast
next
  case False
  let ?k = "request sz"
  note k = request_range [OF False]
  have a: "tlsf_pool c p e m bs {}" "coalesced bs" using assms(1) by (simp_all add: heap_def)
  have k0: "0 < ?k" using False by simp
  have run: "tlsf_malloc m c sz = do { (block, m) \<leftarrow> block_locate_free m c ?k; block_prepare_used m c block ?k }"
    using adjust_request [OF assms(2)] by (simp add: tlsf_malloc_def)
  show ?thesis
    using a(1) k0 k(3,2)
  proof (cases rule: pool_locate)
    case none
    from none(1) have "tlsf_malloc m c sz = Some (0, m)" unfolding run by (simp add: block_prepare_used_def)
    moreover have "\<forall>(b, n, f) \<in> set bs. f \<longrightarrow> n < search_size ?k" using none(2) by auto
    ultimately show ?thesis by blast
  next
    case (found b n m1)
    obtain xs ys where bs: "bs = xs @ (b, n, True) # ys" using found(2) by (meson split_list)
    obtain m3 where m3: "block_prepare_used m1 c b ?k = Some (b + 16, m3)" "tlsf_pool c p e m3 (xs @ cut b n ?k False @ ys) {}"
      "same_outside (owned c p e bs) m1 m3" using found(4) unfolding bs by (rule pool_prepare_used [OF _ k(1,2,3)])
    have at: "take_block bs b ?k = xs @ cut b n ?k False @ ys" unfolding bs by (rule take_block_at [OF a(1) [unfolded bs]])
    have "tlsf_malloc m c sz = Some (b + 16, m3)" using found(1) m3(1) unfolding run by simp
    moreover have "heap c p e m3 (take_block bs b ?k)"
      using m3(2) coalesced_take [OF a found(2), of ?k] unfolding heap_def at by simp
    moreover have "same_outside (owned c p e bs) m m3" by (rule same_outside_seq [OF found(5) m3(3)])
    ultimately show ?thesis using found(2,3) k(4) by blast
  qed
qed

section \<open>Release\<close>

lemma release_at:
  assumes "tlsf_pool c p e m (xs @ (b, n, f) # ys) U"
  shows "release (xs @ (b, n, f) # ys) b = coalesce (xs @ (b, n, True) # ys)"
proof -
  have "map (\<lambda>(x, n, f). (x, n, f \<or> x = b)) zs = zs" if "\<And>x n f. (x, n, f) \<in> set zs \<Longrightarrow> x \<noteq> b" for zs :: "tlsf_block list"
    by (rule map_idI) (auto dest: that)
  note keep = this
  have "map (\<lambda>(x, n, f). (x, n, f \<or> x = b)) xs = xs" by (rule keep) (use block_others(1) [OF assms] in fastforce)
  moreover have "map (\<lambda>(x, n, f). (x, n, f \<or> x = b)) ys = ys" by (rule keep) (use block_others(2) [OF assms] in fastforce)
  ultimately show ?thesis by (simp add: release_def)
qed

lemma free_heap:
  assumes "heap c p e m bs" "(b, n, False) \<in> set bs"
  shows "\<exists>m'. tlsf_free m c (b + 16) = Some m' \<and> heap c p e m' (release bs b) \<and>
    same_outside (owned c p e bs \<union> {b + 16 ..< b + 16 + n}) m m'"
proof -
  have a: "tlsf_pool c p e m bs {}" "coalesced bs" using assms(1) by (simp_all add: heap_def)
  obtain xs ys where bs: "bs = xs @ (b, n, False) # ys" using assms(2) by (meson split_list)
  obtain xs' b' n' where jp: "join_prev xs b n = (xs', b', n')" by (cases "join_prev xs b n")
  obtain n'' ys' where jn: "join_next n' ys = (n'', ys')" by (cases "join_next n' ys")
  let ?O = "owned c p e (xs @ (b, n, True) # ys)"
  obtain m1 where m1: "block_mark_as_free m b = Some m1" "tlsf_pool c p e m1 (xs @ (b, n, True) # ys) {b}" "same_outside ?O m m1"
    using a(1) unfolding bs by (rule pool_mark_free)
  obtain m2 where m2: "block_merge_prev m1 c b = Some (b', m2)" "tlsf_pool c p e m2 (xs' @ (b', n', True) # ys) {b'}"
    "same_outside ?O m1 m2" "owned c p e (xs' @ (b', n', True) # ys) = ?O" by (rule pool_merge_prev [OF m1(2) jp])
  obtain m3 where m3: "block_merge_next m2 c b' = Some (b', m3)" "tlsf_pool c p e m3 (xs' @ (b', n'', True) # ys') {b'}"
    "same_outside ?O m2 m3" "owned c p e (xs' @ (b', n'', True) # ys') = ?O"
    using pool_merge_next [OF m2(2) jn] unfolding m2(4) by blast
  obtain m4 where m4: "block_insert m3 c b' = Some m4" "tlsf_pool c p e m4 (xs' @ (b', n'', True) # ys') ({b'} - {b'})"
    "same_outside ?O m3 m4"
    using pool_insert [OF m3(2), of b' n''] unfolding m3(4) by auto
  have "coalesced xs" "coalesced ys" using a(2) bs by (auto simp: coalesced_simps)
  from coalesce_join [OF this jp jn] have rel: "release bs b = xs' @ (b', n'', True) # ys'"
    using release_at [OF a(1) [unfolded bs]] bs by simp
  note r = pool_range [OF a(1) assms(2)]
  have "block_from_ptr (b + 16) = b" using r(7) by (simp add: block_from_ptr_def block_constants sub64_id)
  moreover have "\<not> block_is_free m b" using pool_header(2) [OF a(1) assms(2)] by simp
  ultimately have run: "tlsf_free m c (b + 16) = Some m4"
    using m1(1) m2(1) m3(1) m4(1) by (simp add: tlsf_free_def insist_def)
  have "heap c p e m4 (release bs b)"
    using m4(2) coalesced_coalesce unfolding heap_def rel [symmetric] by (simp add: release_def)
  moreover have "?O \<subseteq> owned c p e bs \<union> {b + 16 ..< b + 16 + n}"
    unfolding bs owned_def used_append used_Cons by auto
  then have "same_outside (owned c p e bs \<union> {b + 16 ..< b + 16 + n}) m m4"
    using same_outside_trans [OF same_outside_trans [OF m1(3) m2(3)] same_outside_trans [OF m3(3) m4(3)]] by blast
  ultimately show ?thesis using run by blast
qed

end
