(* ===== verification/Tlsf_Init.thy ===== *)
theory Tlsf_Init
  imports Tlsf_Correct
begin

text \<open>
  \<open>tlsf_create_with_pool\<close> of \<open>tlsf.c\<close>: the control structure is built with empty lists, the pool is
  one free block and a sentinel. The result satisfies the invariant of the heap.
\<close>

lemma nodes_ok_empty: "nodes_ok c {} \<longleftrightarrow> 8 dvd c \<and> c \<noteq> 0"
  by (auto simp: nodes_ok_def)

lemma set_head_row: "j < 32 \<Longrightarrow> set_list_head m c i j v = store64 m (head_word c (32 * i + j)) v"
  using set_head_at [of m c "32 * i + j" v] by simp

lemma construct_row_spec:
  assumes c: "nodes_ok c {}" "c + 6536 < 2 ^ 64" and "j \<le> 32" "i < 25"
  shows "load64 (construct_row m c i j) (head_word c r) = (if 32 * i \<le> r \<and> r < 32 * i + j then c else load64 m (head_word c r))"
    and "k \<le> 25 \<Longrightarrow> maps (construct_row m c i j) c k = maps m c k"
    and "x \<notin> ctl c \<Longrightarrow> construct_row m c i j x = m x"
proof -
  have pl: "plain c (head_word c q)" for q using plain_words(2) [OF c(1)] .
  have "load64 (construct_row m c i j) (head_word c r) = (if 32 * i \<le> r \<and> r < 32 * i + j then c else load64 m (head_word c r)) \<and>
    (k \<le> 25 \<longrightarrow> maps (construct_row m c i j) c k = maps m c k) \<and> (x \<notin> ctl c \<longrightarrow> construct_row m c i j x = m x)"
    using assms(3)
  proof (induction j)
    case (Suc j)
    have e: "construct_row m c i (Suc j) = store64 (construct_row m c i j) (head_word c (32 * i + j)) c"
      using Suc.prems by (simp add: set_head_row)
    have q: "head_word c r = head_word c (32 * i + j) \<longleftrightarrow> r = 32 * i + j" unfolding head_word_def by auto
    have "x \<notin> ctl c \<Longrightarrow> x < head_word c (32 * i + j) \<or> head_word c (32 * i + j) + 8 \<le> x"
      using Suc.prems assms(4) by (auto simp: ctl_def head_word_def)
    then show ?case unfolding e
      using Suc store_plain(1) [OF pl pl, of c _ "32 * i + j" r] store_plain(2) [OF pl, of k] c(2) q
      by (auto simp: store64_other)
  qed simp
  then show "load64 (construct_row m c i j) (head_word c r) = (if 32 * i \<le> r \<and> r < 32 * i + j then c else load64 m (head_word c r))"
    "k \<le> 25 \<Longrightarrow> maps (construct_row m c i j) c k = maps m c k" "x \<notin> ctl c \<Longrightarrow> construct_row m c i j x = m x" by auto
qed

lemma construct_rows_spec:
  assumes c: "nodes_ok c {}" "c + 6536 < 2 ^ 64" and "i \<le> 25"
  shows "r < 32 * i \<Longrightarrow> load64 (construct_rows m c i) (head_word c r) = c"
    and "k \<le> 25 \<Longrightarrow> maps (construct_rows m c i) c k = (if 0 < k \<and> k \<le> i then 0 else maps m c k)"
    and "x \<notin> ctl c \<Longrightarrow> construct_rows m c i x = m x"
proof -
  have pl: "plain c (head_word c q)" for q using plain_words(2) [OF c(1)] .
  have "(r < 32 * i \<longrightarrow> load64 (construct_rows m c i) (head_word c r) = c) \<and>
    (k \<le> 25 \<longrightarrow> maps (construct_rows m c i) c k = (if 0 < k \<and> k \<le> i then 0 else maps m c k)) \<and>
    (x \<notin> ctl c \<longrightarrow> construct_rows m c i x = m x)"
    using assms(3)
  proof (induction i)
    case (Suc i)
    define m1 where "m1 = store32 (construct_rows m c i) (map_word c (Suc i)) 0"
    have e: "construct_rows m c (Suc i) = construct_row m1 c i 32"
      by (simp add: m1_def maps_at SL_INDEX_COUNT_def SL_INDEX_COUNT_LOG2_def)
    have h: "load64 m1 (head_word c r) = load64 (construct_rows m c i) (head_word c r)"
      unfolding m1_def by (rule store_map(1) [OF Suc.prems pl])
    have mp: "maps m1 c k = (if k = Suc i then 0 else maps (construct_rows m c i) c k)" if "k \<le> 25"
      unfolding m1_def using store_map(2) [OF Suc.prems that, of 0] by simp
    have "m1 x = construct_rows m c i x" if "x \<notin> ctl c"
      unfolding m1_def using that Suc.prems by (intro store32_other) (auto simp: ctl_def map_word_def)
    moreover have "i < 25" using Suc.prems by simp
    ultimately show ?case
      unfolding e using Suc construct_row_spec [OF c order_refl \<open>i < 25\<close>, where m = m1] h mp by auto
  qed simp
  then show "r < 32 * i \<Longrightarrow> load64 (construct_rows m c i) (head_word c r) = c"
    "k \<le> 25 \<Longrightarrow> maps (construct_rows m c i) c k = (if 0 < k \<and> k \<le> i then 0 else maps m c k)"
    "x \<notin> ctl c \<Longrightarrow> construct_rows m c i x = m x" by auto
qed

lemma control_construct_spec:
  assumes c: "nodes_ok c {}" "c + 6536 < 2 ^ 64"
  shows "mem_lists (control_construct m c) c (\<lambda>_. [])" "x \<notin> ctl c \<Longrightarrow> control_construct m c x = m x"
proof -
  define m1 where "m1 = store64 (store64 m (c + 16) c) (c + 24) c"
  define m2 where "m2 = store32 m1 (map_word c 0) 0"
  have e: "control_construct m c = construct_rows m2 c 25"
    by (simp add: control_construct_def m2_def m1_def link_fields maps_at tlsf_constants)
  note r = construct_rows_spec [OF c order_refl, of _ m2]
  have "maps m2 c 0 = 0" unfolding m2_def using store_map(2) [of 0 0 0 m1 c] by simp
  then have maps0: "maps (control_construct m c) c k = 0" if "k \<le> 25" for k
    unfolding e using r(2) [OF that] that by (cases k) simp_all
  have "load64 (control_construct m c) (head_word c q) = c" if "q < 800" for q unfolding e using r(1) [of q] that by simp
  then have "lists_ok (load64 (control_construct m c)) (maps (control_construct m c) c) c (\<lambda>_. [])"
    using maps0 by (auto simp: lists_ok_def)
  then show "mem_lists (control_construct m c) c (\<lambda>_. [])" using c by (simp add: mem_lists_def listed_def)
  show "control_construct m c x = m x" if "x \<notin> ctl c"
    using construct_rows_spec(3) [OF c order_refl that] that
    by (auto simp: e m2_def m1_def ctl_def map_word_def store32_other store64_other)
qed

text \<open>The first block of a pool starts 8 bytes below it, where its unused first word lies.\<close>

lemma pool_block: "8 \<le> x \<Longrightarrow> x < 2 ^ 64 \<Longrightarrow> offset_to_block x (sub64 0 block_header_overhead) = x - 8"
  by (simp add: offset_to_block_def block_constants add64_def sub64_def wrap64_def mod_if)

lemma align_down_8: "align_down x ALIGN_SIZE = Some (8 * (x div 8))" if "x < 2 ^ 64"
proof -
  have s: "sub64 8 1 = 7" "sub64 8 (Suc 0) = 7" by (simp_all add: wrap_simps)
  have "x mod 8 \<le> x" by simp
  then have "sub64 x (x mod 8) = 8 * (x div 8)" using that by (subst sub64_id) (simp_all add: minus_mod_eq_mult_div)
  then show ?thesis by (simp add: align_down_def tlsf_constants s insist_def and_7)
qed

text \<open>Three writes of a header.\<close>

lemma set_headers:
  assumes "n + 4 \<le> 2 ^ 64" "4 dvd n"
  obtains m1 m2 m3 where "block_set_size m b n = m1" "block_set_free m1 b = m2" "block_set_prev_used m2 b = m3"
    "size_field m3 b = hdr n True False" "\<And>x. x \<notin> {b + 8 ..< b + 16} \<Longrightarrow> m3 x = m x"
proof -
  obtain k f p where h0: "size_field m b = hdr k f p" "4 dvd k" by (rule hdr_cases)
  define m1 where "m1 = store64 m (b + 8) (hdr n f p)"
  define m2 where "m2 = store64 m1 (b + 8) (hdr n True p)"
  define m3 where "m3 = store64 m2 (b + 8) (hdr n True False)"
  note h = size_field_store [OF assms(1)]
  have h1: "size_field m1 b = hdr n f p" "size_field m2 b = hdr n True p" "size_field m3 b = hdr n True False"
    by (simp_all add: m1_def m2_def m3_def h)
  moreover have "m3 x = m x" if "x \<notin> {b + 8 ..< b + 16}" for x using that by (auto simp: m1_def m2_def m3_def store64_other)
  ultimately show thesis
    using that header_ops(9) [OF h0 assms(2)] header_ops(5) [OF h1(1) assms(2)] header_ops(8) [OF h1(2) assms(2)]
    by (simp add: m1_def m2_def m3_def)
qed

lemma set_sentinel:
  obtains m1 m2 m3 where "block_set_size m b 0 = m1" "block_set_used m1 b = m2" "block_set_prev_free m2 b = m3"
    "size_field m3 b = hdr 0 False True" "\<And>x. x \<notin> {b + 8 ..< b + 16} \<Longrightarrow> m3 x = m x"
proof -
  obtain k f p where h0: "size_field m b = hdr k f p" "4 dvd k" by (rule hdr_cases)
  define m1 where "m1 = store64 m (b + 8) (hdr 0 f p)"
  define m2 where "m2 = store64 m1 (b + 8) (hdr 0 False p)"
  define m3 where "m3 = store64 m2 (b + 8) (hdr 0 False True)"
  have h: "size_field (store64 M (b + 8) (hdr 0 g q)) b = hdr 0 g q" for M g q by (rule size_field_store) simp
  have h1: "size_field m1 b = hdr 0 f p" "size_field m2 b = hdr 0 False p" "size_field m3 b = hdr 0 False True"
    by (simp_all add: m1_def m2_def m3_def h)
  moreover have "m3 x = m x" if "x \<notin> {b + 8 ..< b + 16}" for x using that by (auto simp: m1_def m2_def m3_def store64_other)
  ultimately show thesis
    using that header_ops(9) [OF h0, of 0] header_ops(6) [OF h1(1)] header_ops(7) [OF h1(2)]
    by (simp add: m1_def m2_def m3_def)
qed

lemma add_pool_heap:
  assumes lists: "mem_lists m c (\<lambda>_. [])" and c: "8 dvd c" "c \<noteq> 0" and mem: "8 dvd mem" "c + 6536 \<le> mem"
    and n: "n = 8 * ((bytes - 16) div 8)" "40 \<le> bytes" "bytes \<le> 2 ^ 32" "mem + bytes + 8 < 2 ^ 64"
  shows "\<exists>m'. tlsf_add_pool m c mem bytes = Some (mem, m') \<and> heap c (mem - 8) (mem + n) m' [(mem - 8, n, True)] \<and>
    same_outside (ctl c \<union> {mem ..< mem + bytes}) m m'"
proof -
  let ?b = "mem - 8"
  have "n \<le> bytes - 16" unfolding n(1) by simp
  moreover have "3 \<le> (bytes - 16) div 8" using n(2) by (simp add: less_eq_div_iff_mult_less_eq)
  ultimately have nn: "24 \<le> n" "8 dvd n" "n + 16 \<le> bytes" "n < 2 ^ 32" using n by auto
  have n4: "4 dvd n" "n + 4 \<le> 2 ^ 64" using nn dvd_8_4 by auto
  have b8: "?b + 8 = mem" "8 dvd ?b" using mem by (auto simp: dvd_diff_nat)
  obtain m1 m2 m3 where s: "block_set_size m ?b n = m1" "block_set_free m1 ?b = m2" "block_set_prev_used m2 ?b = m3"
    "size_field m3 ?b = hdr n True False" "\<And>x. x \<notin> {?b + 8 ..< ?b + 16} \<Longrightarrow> m3 x = m x"
    by (rule set_headers [OF n4(2,1), of m ?b]) blast
  have lists3: "mem_lists m3 c (\<lambda>_. [])"
    by (rule mem_lists_cong [OF lists]) (use mem(2) b8(1) in \<open>auto intro!: s(5) simp: ctl_def link_bytes_def listed_def\<close>)
  let ?r = "rank n" and ?F = "(\<lambda>_. [])(rank n := [?b])"
  have node: "nodes_ok c (insert ?b (listed (\<lambda>_. [])))"
    using c mem(2) b8(2) n(4) nn(3) by (auto simp: nodes_ok_def listed_def)
  obtain m4 where m4: "insert_free_block m3 c ?b (?r div 32) (?r mod 32) = Some m4" "mem_lists m4 c ?F"
    "\<And>x. x \<notin> ctl c \<union> link_bytes {?b} \<Longrightarrow> m4 x = m3 x"
    using insert_free_block_spec [OF lists3 node _ rank_index [OF nn(4)]] by (simp add: listed_def) blast
  have ins: "block_insert m3 c ?b = Some m4"
    using m4(1) header_ops(1) [OF s(4) n4(1)] nn(4) by (simp add: block_insert_def mapping_insert_rank)
  have "size_field m4 ?b = size_field m3 ?b" unfolding size_field_def
    by (rule load64_cong, rule m4(3)) (use mem(2) b8(1) in \<open>auto simp: ctl_def link_bytes_def\<close>)
  then have h4: "size_field m4 ?b = hdr n True False" using s(4) by simp
  let ?e = "mem + n"
  have "block_next m4 ?b = Some ?e" using next_block [OF h4 nn(2,1)] n(4) nn(3) b8(1) by simp
  define m5 where "m5 = store64 m4 ?e ?b"
  have link: "block_link_next m4 ?b = Some (?e, m5)"
    using \<open>block_next m4 ?b = Some ?e\<close> by (simp add: block_link_next_def set_prev_phys_block_def m5_def)
  obtain m6 m7 m8 where t: "block_set_size m5 ?e 0 = m6" "block_set_used m6 ?e = m7" "block_set_prev_free m7 ?e = m8"
    "size_field m8 ?e = hdr 0 False True" "\<And>x. x \<notin> {?e + 8 ..< ?e + 16} \<Longrightarrow> m8 x = m5 x"
    by (rule set_sentinel [of m5 ?e]) blast
  have w8: "m8 x = m4 x" if "x < ?e \<or> ?e + 16 \<le> x" for x using t(5) [of x] that by (auto simp: m5_def store64_other)
  have "load64 m8 ?e = load64 m5 ?e" by (rule load64_cong, rule t(5)) auto
  then have pw: "load64 m8 ?e = ?b" unfolding m5_def using n(4) by (simp add: load_store64)
  have "size_field m8 ?b = size_field m4 ?b" unfolding size_field_def
    by (rule load64_cong, rule w8) (use nn(1) b8(1) in auto)
  then have lay: "layout m8 ?b False [(?b, n, True)] ?e" using h4 t(4) pw nn(1,2) b8(1) by simp
  have ml: "mem_lists m8 c ?F"
    by (rule mem_lists_cong [OF m4(2)], rule w8)
      (use mem(2) nn(1) in \<open>auto simp: ctl_def link_bytes_def listed_def split: if_splits\<close>)
  have "tlsf_pool c ?b ?e m8 [(?b, n, True)] {}"
    by (rule poolI [OF lay _ _ _ _ _ _ ml]) (use c mem b8(2) n nn in \<open>auto simp: avail_def\<close>)
  then have heap: "heap c ?b ?e m8 [(?b, n, True)]" by (simp add: heap_def coalesced_def)
  have ob: "offset_to_block mem (sub64 0 block_header_overhead) = ?b" using mem n(4) c(2) by (intro pool_block) simp_all
  have "sub64 bytes tlsf_pool_overhead = bytes - 16"
    using n(2,3) by (simp add: tlsf_pool_overhead_def block_constants sub64_id)
  then have al: "align_down (sub64 bytes tlsf_pool_overhead) ALIGN_SIZE = Some n" using n(1,3) by (simp add: align_down_8)
  have "mem mod ALIGN_SIZE = 0" "block_size_min \<le> n" "n \<le> block_size_max"
    using mem(1) nn by (simp_all add: tlsf_constants block_constants)
  then have "tlsf_add_pool m c mem bytes = Some (mem, m8)"
    using al ob s(1-3) ins link t(1-3) by (simp add: tlsf_add_pool_def not_less)
  moreover have "same_outside (ctl c \<union> {mem ..< mem + bytes}) m m8"
  proof (rule same_outsideI)
    fix x assume x: "x \<notin> ctl c \<union> {mem ..< mem + bytes}"
    then have "m8 x = m4 x" using nn(3) by (intro w8) auto
    also have "\<dots> = m3 x" using x nn(1,3) b8(1) by (intro m4(3)) (auto simp: link_bytes_def)
    also have "\<dots> = m x" using x nn(1,3) b8(1) by (intro s(5)) auto
    finally show "m8 x = m x" .
  qed
  ultimately show ?thesis using heap by blast
qed

lemma create_heap:
  assumes "8 dvd mem" "mem \<noteq> 0" "6576 \<le> bytes" "bytes \<le> 2 ^ 32" "mem + bytes + 8 < 2 ^ 64"
    and "n = 8 * ((bytes - 6552) div 8)"
  shows "\<exists>m'. tlsf_create_with_pool m mem bytes = Some (mem, m') \<and>
    heap mem (mem + 6528) (mem + 6536 + n) m' [(mem + 6528, n, True)] \<and> same_outside {mem ..< mem + bytes} m m'"
proof -
  have c: "nodes_ok mem {}" "mem + 6536 < 2 ^ 64" using assms by (simp_all add: nodes_ok_empty)
  let ?m = "control_construct m mem" and ?p = "mem + 6536" and ?bytes = "bytes - 6536"
  have p8: "8 dvd ?p" and n: "n = 8 * ((?bytes - 16) div 8)" using assms(1,6) by simp_all
  have bytes: "40 \<le> ?bytes" "?bytes \<le> 2 ^ 32" "?p + ?bytes + 8 < 2 ^ 64" using assms(3-5) by linarith+
  obtain m' where m': "tlsf_add_pool ?m mem ?p ?bytes = Some (?p, m')" "heap mem (?p - 8) (?p + n) m' [(?p - 8, n, True)]"
    "same_outside (ctl mem \<union> {?p ..< ?p + ?bytes}) ?m m'"
    using add_pool_heap [OF control_construct_spec(1) [OF c] assms(1,2) p8 order_refl n bytes] by blast
  have sz: "tlsf_size = 6536" by (simp add: tlsf_size_def tlsf_constants)
  have "add64 mem tlsf_size = ?p" "sub64 bytes tlsf_size = ?bytes"
    using c(2) assms(3,4) by (simp_all add: sz add64_id sub64_id)
  moreover have "tlsf_create m mem = (mem, ?m)" using assms(1) by (simp add: tlsf_create_def tlsf_constants)
  ultimately have "tlsf_create_with_pool m mem bytes = Some (mem, m')"
    using m'(1) by (simp add: tlsf_create_with_pool_def)
  moreover have "same_outside (ctl mem) m ?m" using control_construct_spec(2) [OF c] by (intro same_outsideI)
  then have "same_outside {mem ..< mem + bytes} m m'"
    by (rule same_outside_trans [OF _ m'(3)]) (use assms(3) in \<open>auto simp: ctl_def\<close>)
  moreover have "?p - 8 = mem + 6528" by simp
  ultimately show ?thesis using m'(2) by metis
qed

text \<open>A heap of 8 KiB at address 4096, as \<open>tlsf_create_with_pool\<close> leaves it.\<close>

definition sample_bytes :: bytes where
  "sample_bytes = snd (the (tlsf_create_with_pool (\<lambda>_. 0) 4096 8192))"

lemma sample_heap: "heap 4096 10624 12272 sample_bytes [(10624, 1640, True)]"
  using create_heap [of 4096 8192 1640 "\<lambda>_. 0"] unfolding sample_bytes_def by fastforce

end
