(* ===== verification/Tlsf_Resize.thy ===== *)
theory Tlsf_Resize
  imports Tlsf_Init
begin

text \<open>
  \<open>tlsf_realloc\<close> and \<open>tlsf_memalign\<close> of \<open>tlsf.c\<close>: a block shrinks, grows into the free block behind it
  or moves, and an aligned block is cut out of a larger one.
\<close>

definition used_blocks :: "tlsf_block list \<Rightarrow> (addr \<times> nat) set" where
  "used_blocks bs = {(b, n). (b, n, False) \<in> set bs}"

lemma used_blocks_simps [simp]:
  "used_blocks [] = {}" "used_blocks (xs @ ys) = used_blocks xs \<union> used_blocks ys"
  "used_blocks ((b, n, f) # xs) = (if f then used_blocks xs else insert (b, n) (used_blocks xs))"
  by (auto simp: used_blocks_def)

lemma used_coalesce [simp]: "used_blocks (coalesce bs) = used_blocks bs"
proof (induction bs rule: coalesce.induct)
  case (1 b n b' k bs)
  then show ?case by simp
qed (auto simp: used_blocks_def)

section \<open>Shrinking\<close>

definition shrink_zone :: "addr \<Rightarrow> nat \<Rightarrow> nat \<Rightarrow> addr set" where
  "shrink_zone b k n = {b + 16 + k ..< b + 16 + n}"

lemma pool_split_used:
  assumes a: "tlsf_pool c p e m (xs @ (b, n, False) # ys) {}" and k: "24 \<le> k" "8 dvd k" "k + 32 \<le> n"
  obtains m1 m2 where "block_split m b k = Some (b + 8 + k, m1)" "block_set_prev_used m1 (b + 8 + k) = m2"
    "tlsf_pool c p e m2 (xs @ (b, k, False) # (b + 8 + k, n - k - 8, True) # ys) {b + 8 + k}"
    "same_outside (owned c p e (xs @ (b, k, False) # (b + 8 + k, n - k - 8, True) # ys)) m m2"
proof -
  obtain pf where l: "segment m p False xs b pf" "layout m b pf ((b, n, False) # ys) e" by (rule pool_at [OF a])
  have b8: "8 dvd b" using pool_range(5) [OF a, of b n False] by simp
  let ?r = "b + 8 + k" and ?new = "[(b, k, False), (b + 8 + k, n - k - 8, True)]"
  let ?W = "{b + 8 ..< b + 16} \<union> {b + 16 + k ..< b + 24 + k} \<union> {b + 8 + n ..< b + 24 + n}"
  obtain m1 m2 where s: "block_split m b k = Some (?r, m1)" "block_set_prev_used m1 ?r = m2"
    "layout m2 b pf ((b, k, False) # (?r, n - k - 8, True) # ys) e" "\<And>x. x \<notin> ?W \<Longrightarrow> m2 x = m x"
    by (rule trim_used_layout [OF l(2) poolD(6) [OF a] k b8]) blast
  have W: "same_outside ?W m m2" using s(4) by (rule same_outsideI)
  have "avail xs {?r} = avail xs {}" "avail ys {?r} = avail ys {}" by (rule avail_around [OF a]; use k in auto)+
  then have av: "avail (xs @ ?new @ ys) {?r} = avail (xs @ [(b, n, False)] @ ys) {}"
    by (simp add: avail_append avail_Cons)
  have "tlsf_pool c p e m2 (xs @ ?new @ ys) {?r}"
    by (rule pool_change [OF _ l(1) _ layout_block(5) [OF l(2) poolD(6) [OF a]] _ av W]) (use a l(2) s(3) k in auto)
  then have a': "tlsf_pool c p e m2 (xs @ (b, k, False) # (?r, n - k - 8, True) # ys) {?r}"
    and a2: "tlsf_pool c p e m2 ((xs @ [(b, k, False)]) @ (?r, n - k - 8, True) # ys) {?r}" by simp_all
  have "{?r + 8 ..< ?r + 24 + (n - k - 8)} \<subseteq> owned c p e (xs @ (b, k, False) # (?r, n - k - 8, True) # ys)"
    using free_owned [OF a2] by simp
  moreover have "{b + 8 ..< b + 16} \<subseteq> owned c p e (xs @ (b, k, False) # (?r, n - k - 8, True) # ys)"
    by (rule block_owned(1) [OF a', of b k False]) simp
  moreover have "?W \<subseteq> {b + 8 ..< b + 16} \<union> {?r + 8 ..< ?r + 24 + (n - k - 8)}" using k by auto
  ultimately have "same_outside (owned c p e (xs @ (b, k, False) # (?r, n - k - 8, True) # ys)) m m2"
    by (intro same_outside_mono [OF W]) blast
  then show thesis using that s(1,2) a' by blast
qed

text \<open>The blocks after shrinking the used block \<open>b\<close> of size \<open>n\<close> between \<open>xs\<close> and \<open>ys\<close>.\<close>

lemma pool_trim_used:
  assumes a: "tlsf_pool c p e m (xs @ (b, n, False) # ys) {}" and k: "24 \<le> k" "8 dvd k" "k < 2 ^ 32" "k \<le> n"
    and co: "coalesced (xs @ (b, n, False) # ys)"
  obtains m' k' where "block_trim_used m c b k = Some m'" "heap c p e m' (coalesce (xs @ cut b n k False @ ys))"
    "same_outside (owned c p e (xs @ cut b n k False @ ys)) m m'"
proof -
  have h: "block_size m b = n" "\<not> block_is_free m b" using pool_header [OF a, of b n False] by simp_all
  show thesis
  proof (cases "k + 32 \<le> n")
    case False
    then have "block_trim_used m c b k = Some m"
      using can_split [OF h(1), of k] k(3) h(2) by (simp add: block_trim_used_def insist_def)
    moreover have "xs @ cut b n k False @ ys = xs @ (b, n, False) # ys" using False by (simp add: cut_def)
    ultimately show thesis using that a co coalesce_id [OF co] same_outside_refl by (simp add: heap_def)
  next
    case True
    let ?r = "b + 8 + k" and ?j = "n - k - 8"
    let ?bs = "xs @ (b, k, False) # (?r, ?j, True) # ys"
    obtain m1 m2 where s: "block_split m b k = Some (?r, m1)" "block_set_prev_used m1 ?r = m2"
      "tlsf_pool c p e m2 ?bs {?r}" "same_outside (owned c p e ?bs) m m2" by (rule pool_split_used [OF a k(1,2) True])
    obtain j' ys' where j: "join_next ?j ys = (j', ys')" by (cases "join_next ?j ys")
    have a2: "tlsf_pool c p e m2 ((xs @ [(b, k, False)]) @ (?r, ?j, True) # ys) {?r}" using s(3) by simp
    let ?bs' = "(xs @ [(b, k, False)]) @ (?r, j', True) # ys'"
    obtain m3 where m3: "block_merge_next m2 c ?r = Some (?r, m3)" "tlsf_pool c p e m3 ?bs' {?r}"
      "same_outside (owned c p e ((xs @ [(b, k, False)]) @ (?r, ?j, True) # ys)) m2 m3"
      "owned c p e ?bs' = owned c p e ((xs @ [(b, k, False)]) @ (?r, ?j, True) # ys)"
      by (rule pool_merge_next [OF a2 j])
    obtain m4 where m4: "block_insert m3 c ?r = Some m4" "tlsf_pool c p e m4 ?bs' ({?r} - {?r})"
      "same_outside (owned c p e ?bs') m3 m4" by (rule pool_insert [OF m3(2), of ?r j']) auto
    have "coalesced (xs @ [(b, k, False)])" "coalesced ys" using co by (auto simp: coalesced_simps)
    then have c1: "coalesce ((xs @ [(b, k, False)]) @ (?r, ?j, True) # ys) = ?bs'"
      by (rule coalesce_join [OF _ _ _ j]) (simp add: join_prev_def)
    have cut: "xs @ cut b n k False @ ys = ?bs" using True by (simp add: cut_def)
    have "block_trim_used m c b k = Some m4"
      using can_split [OF h(1), of k] k(3) h(2) True s(1,2) m3(1) m4(1) by (simp add: block_trim_used_def insist_def)
    moreover have "heap c p e m4 (coalesce (xs @ cut b n k False @ ys))"
      using m4(2) c1 coalesced_coalesce [of ?bs] unfolding cut heap_def by simp
    moreover have "same_outside (owned c p e (xs @ cut b n k False @ ys)) m m4"
      unfolding cut using same_outside_seq [OF same_outside_seq [OF s(4)]] m3(3) m4(3) unfolding m3(4) by simp
    ultimately show thesis using that by blast
  qed
qed

section \<open>Growing\<close>

text \<open>A used block takes in the free block behind it and is marked as used again.\<close>

lemma grow_layout:
  assumes "layout m b pf ((b, n, False) # (b', k, True) # ys) e" "e + 24 < 2 ^ 64"
  obtains m1 m' where "block_absorb m b b' = Some (b, m1)" "block_mark_as_used m1 b = Some m'"
    "layout m' b pf ((b, n + k + 8, False) # ys) e"
    "\<And>x. x \<notin> {b + 8 ..< b + 16} \<union> {b + 16 + n + k ..< b + 32 + n + k} \<Longrightarrow> m' x = m x"
proof -
  note l = layout_block [OF assms]
  have b': "b' = b + 8 + n" using l(5) by simp
  note l' = layout_block [OF l(5) [unfolded b'] assms(2)]
  let ?n = "n + k + 8" and ?a = "b + 16 + n + k"
  have d: "8 dvd ?n" "24 \<le> ?n" "4 dvd ?n" using l(1,2) l'(2) dvd_8_4 by auto
  have fits: "hdr n False pf + (k + 8) = hdr ?n False pf" by (simp add: hdr_def)
  have lt: "hdr ?n False pf < 2 ^ 64" using l'(7) by (intro hdr_less) simp
  define m0 where "m0 = store64 m (b + 8) (hdr ?n False pf)"
  define m1 where "m1 = store64 m0 ?a b"
  have s0: "size_field m0 b = hdr ?n False pf" unfolding m0_def using l'(7) by (intro size_field_store) simp
  have nx: "block_next M b = Some ?a" if "size_field M b = hdr ?n False pf" for M
    using next_block [OF that d(1,2)] l'(7) by (simp add: ac_simps)
  have "add64 (size_field m b) (add64 (block_size m b') 8) = hdr ?n False pf"
    using l(4) l'(9) fits lt l'(7) by (simp add: b' add64_id)
  moreover have "\<not> block_is_last m b" using header_ops(4) [OF l(4,3)] l(1) by simp
  ultimately have run: "block_absorb m b b' = Some (b, m1)"
    using nx [OF s0]
    by (simp add: block_absorb_def block_link_next_def set_prev_phys_block_def set_size_field_def block_constants
        insist_def m0_def m1_def)
  have s1: "size_field m1 b = hdr ?n False pf"
    using s0 l(1) unfolding size_field_def m1_def by (subst load64_store64_disjoint) simp_all
  have ys: "layout m ?a True ys e" using l'(5) by (simp add: ac_simps)
  then have ys1: "layout m1 ?a True ys e" by (rule layout_cong) (auto simp: m1_def m0_def store64_other)
  obtain q g where q: "size_field m1 ?a = hdr q g True" "8 dvd q" "?a + q \<le> e" using layout_header [OF ys1] .
  define m2 where "m2 = store64 m1 (?a + 8) (hdr q g False)"
  define m3 where "m3 = store64 m2 (b + 8) (hdr ?n False pf)"
  have s2: "size_field m2 b = hdr ?n False pf"
    using s1 l(1) unfolding size_field_def m2_def by (subst load64_store64_disjoint) simp_all
  have "block_set_prev_used m1 ?a = m2" using header_ops(8) [OF q(1) dvd_8_4 [OF q(2)]] by (simp add: m2_def)
  moreover have "block_set_used m2 b = m3" using header_ops(6) [OF s2 d(3)] by (simp add: m3_def)
  ultimately have mark: "block_mark_as_used m1 b = Some m3" using nx [OF s1] by (simp add: block_mark_as_used_def)
  have "layout m2 ?a False ys e" unfolding m2_def by (rule layout_set_prev [OF ys1 q(1) assms(2) dvd_8_4 [OF q(2)]])
  then have "layout m3 ?a False ys e" by (rule layout_cong) (auto simp: m3_def store64_other)
  moreover have "size_field m3 b = hdr ?n False pf" unfolding m3_def using l'(7) by (intro size_field_store) simp
  ultimately have "layout m3 b pf ((b, ?n, False) # ys) e" using d by (simp add: ac_simps)
  moreover have "m3 x = m x" if "x \<notin> {b + 8 ..< b + 16} \<union> {?a ..< b + 32 + n + k}" for x
    using that by (auto simp: m3_def m2_def m1_def m0_def store64_other)
  ultimately show thesis using that run mark by blast
qed

lemma pool_grow:
  assumes a: "tlsf_pool c p e m (xs @ (b, n, False) # (b', k, True) # ys) {}"
  obtains m1 m' where "block_merge_next m c b = Some (b, m1)" "block_mark_as_used m1 b = Some m'"
    "tlsf_pool c p e m' (xs @ (b, n + k + 8, False) # ys) {}"
    "same_outside (owned c p e (xs @ (b, n, False) # (b', k, True) # ys)) m m'"
proof -
  let ?bs = "xs @ (b, n, False) # (b', k, True) # ys"
  have mem: "(b', k, True) \<in> set ?bs" "(b, n, False) \<in> set ?bs" by simp_all
  obtain pf where "layout m b pf ((b, n, False) # (b', k, True) # ys) e" by (rule pool_at [OF a])
  then have b': "b' = b + 8 + n" by simp
  have h: "block_next m b = Some b'" "block_is_free m b'" "\<not> block_is_last m b" "b' \<noteq> 0"
    using pool_header [OF a mem(1)] pool_header [OF a mem(2)] pool_range(3) [OF a mem(2)] b'
    by (auto simp: block_is_last_def)
  have "(b', k) \<in> avail ?bs {}" using mem by (simp add: avail_mem)
  then obtain m1 where m1: "block_remove m c b' = Some m1" "tlsf_pool c p e m1 ?bs (insert b' {})"
    "same_outside (owned c p e ?bs) m m1" by (rule pool_remove [OF a])
  obtain pf where l: "segment m1 p False xs b pf" "layout m1 b pf ((b, n, False) # (b', k, True) # ys) e" by (rule pool_at [OF m1(2)])
  let ?W = "{b + 8 ..< b + 16} \<union> {b + 16 + n + k ..< b + 32 + n + k}"
  obtain m2 m3 where g: "block_absorb m1 b b' = Some (b, m2)" "block_mark_as_used m2 b = Some m3"
    "layout m3 b pf ((b, n + k + 8, False) # ys) e" "\<And>x. x \<notin> ?W \<Longrightarrow> m3 x = m1 x"
    by (rule grow_layout [OF l(2) poolD(6) [OF a]]) blast
  have W: "same_outside ?W m1 m3" using g(4) by (rule same_outsideI)
  have ys: "layout m1 (b + 16 + n + k) True ys e" using l(2) b' by (auto simp: ac_simps)
  have a2: "tlsf_pool c p e m1 ((xs @ [(b, n, False)]) @ (b', k, True) # ys) {b'}" using m1(2) by simp
  have "avail xs {} = avail xs {b'}" by (rule avail_cong) (use block_others(1) [OF a] b' in fastforce)
  moreover have "avail ys {} = avail ys {b'}" by (rule avail_around [OF a2]) auto
  ultimately have av: "avail (xs @ [(b, n + k + 8, False)] @ ys) {} = avail (xs @ [(b, n, False), (b', k, True)] @ ys) {b'}"
    by (simp add: avail_append avail_Cons)
  have "tlsf_pool c p e m3 (xs @ [(b, n + k + 8, False)] @ ys) {}"
    by (rule pool_change [OF _ l(1) _ ys _ av W]) (use m1(2) l(2) g(3) in auto)
  moreover have "{b' + 8 ..< b' + 24 + k} \<subseteq> owned c p e ?bs" using free_owned [OF a2] by simp
  then have "?W \<subseteq> owned c p e ?bs" using block_owned(1) [OF a mem(2)] pool_range(3) [OF a mem(1)] b' by auto
  then have "same_outside (owned c p e ?bs) m m3" using same_outside_seq [OF m1(3)] same_outside_mono [OF W] by blast
  moreover have "block_merge_next m c b = Some (b, m2)" using h m1(1) g(1) by (simp add: block_merge_next_def insist_def)
  ultimately show thesis using that g(2) by simp
qed

end
