(* ===== verification/Tlsf_Realloc.thy ===== *)
theory Tlsf_Realloc
  imports Tlsf_Resize
begin

text \<open>
  \<open>tlsf_realloc\<close> of \<open>tlsf.c\<close> keeps the contents of the block, whether it stays or moves.
\<close>

section \<open>Shrinking in place\<close>

definition cut_size :: "nat \<Rightarrow> nat \<Rightarrow> nat" where
  "cut_size n k = (if k + 32 \<le> n then k else n)"

lemma used_cut: "used_blocks (cut b n k False) = {(b, cut_size n k)}"
  by (simp add: cut_def cut_size_def)

lemma cut_size_bounds: "k \<le> n \<Longrightarrow> k \<le> cut_size n k \<and> cut_size n k \<le> n"
  by (simp add: cut_size_def)

lemma used_bytes_cut: "used_bytes (cut b n k False) = {b + 16 ..< b + 16 + cut_size n k}"
  by (simp add: cut_def cut_size_def used_Cons) (simp add: used_bytes_def)

lemma owned_less: "used_bytes bs - V \<subseteq> used_bytes bs' \<Longrightarrow> owned c p e bs' \<subseteq> owned c p e bs \<union> V"
  by (auto simp: owned_def)

lemma used_not_owned: "(b, n) \<in> used_blocks bs \<Longrightarrow> b + 16 \<le> x \<Longrightarrow> x < b + 16 + n \<Longrightarrow> x \<notin> owned c p e bs"
  by (auto simp: owned_def used_bytes_def used_blocks_def)

lemma used_around:
  assumes "tlsf_pool c p e m (xs @ (b, n, f) # ys) U"
  shows "(b, k) \<notin> used_blocks xs" "(b, k) \<notin> used_blocks ys"
  using block_others [OF assms, of b k False] by (auto simp: used_blocks_def)

lemma trim_in_place:
  assumes a: "tlsf_pool c p e m (xs @ (b, n, False) # ys) {}" and k: "24 \<le> k" "8 dvd k" "k < 2 ^ 32" "k \<le> n"
    and co: "coalesced (xs @ (b, n, False) # ys)"
  obtains m' bs' where "block_trim_used m c b k = Some m'" "heap c p e m' bs'"
    "used_blocks bs' = insert (b, cut_size n k) (used_blocks xs \<union> used_blocks ys)"
    "\<And>i. i < k \<Longrightarrow> m' (b + 16 + i) = m (b + 16 + i)"
    "same_outside (owned c p e (xs @ (b, n, False) # ys) \<union> {b + 16 ..< b + 16 + n}) m m'"
proof -
  let ?new = "xs @ cut b n k False @ ys"
  obtain m' where m': "block_trim_used m c b k = Some m'" "heap c p e m' (coalesce ?new)" "same_outside (owned c p e ?new) m m'"
    by (rule pool_trim_used [OF a k co])
  have u: "used_blocks (coalesce ?new) = insert (b, cut_size n k) (used_blocks xs \<union> used_blocks ys)" by (simp add: used_cut)
  have "owned c p e ?new \<subseteq> owned c p e (xs @ (b, n, False) # ys) \<union> {b + 16 ..< b + 16 + n}"
    by (rule owned_less) (auto simp: used_append used_Cons)
  then have w: "same_outside (owned c p e (xs @ (b, n, False) # ys) \<union> {b + 16 ..< b + 16 + n}) m m'"
    by (rule same_outside_mono [OF m'(3)])
  have "m' (b + 16 + i) = m (b + 16 + i)" if "i < k" for i
  proof (rule same_outsideD [OF m'(3)])
    show "b + 16 + i \<notin> owned c p e ?new"
      using that cut_size_bounds [OF k(4)] by (intro used_not_owned [of b "cut_size n k"]) (simp_all add: used_cut)
  qed
  then show thesis using that m'(1,2) u w by blast
qed

section \<open>Writes into used blocks\<close>

lemma layout_keep:
  assumes "layout m b pf bs e"
    and "\<And>x n f z. (x, n, f) \<in> set bs \<Longrightarrow> z \<in> {x + 8 ..< x + 16} \<or> f \<and> z \<in> {x + 8 + n ..< x + 16 + n} \<Longrightarrow> m' z = m z"
    and "\<And>z. z \<in> {e + 8 ..< e + 16} \<Longrightarrow> m' z = m z"
  shows "layout m' b pf bs e"
  using assms
proof (induction bs arbitrary: b pf)
  case Nil
  have "size_field m' e = size_field m e" unfolding size_field_def by (rule load64_cong, rule Nil(3)) auto
  then show ?case using Nil(1) by simp
next
  case (Cons y bs)
  obtain x n f where y: "y = (x, n, f)" by (cases y)
  then have x: "x = b" using Cons.prems(1) by simp
  have "size_field m' b = size_field m b"
    unfolding size_field_def by (rule load64_cong, rule Cons.prems(2) [of x n f]) (auto simp: x y)
  moreover have "load64 m' (b + 8 + n) = load64 m (b + 8 + n)" if f
    by (rule load64_cong, rule Cons.prems(2) [of x n f]) (auto simp: x y that)
  moreover have "layout m' (b + 8 + n) f bs e"
    by (rule Cons.IH) (use Cons.prems y in auto)
  ultimately show ?case using Cons.prems(1) y by auto
qed

text \<open>The heap is in the bytes it owns; a client that writes into used blocks does not disturb it.\<close>

lemma heap_keep:
  assumes "heap c p e m bs" "\<forall>x \<in> owned c p e bs. m' x = m x"
  shows "heap c p e m' bs"
proof -
  have a: "tlsf_pool c p e m bs {}" using assms(1) by (simp add: heap_def)
  have keep: "m' x = m x" if "x \<in> owned c p e bs" for x using that assms(2) by blast
  obtain F where F: "mem_lists m c F" "\<And>r. set (F r) = {b. \<exists>n. (b, n) \<in> avail bs {} \<and> rank n = r}"
    "listed F = fst ` avail bs {}" by (rule pool_listsE [OF a]) blast
  have "mem_lists m' c F"
  proof (rule mem_lists_cong [OF F(1)], rule keep)
    have "link_bytes (listed F) \<subseteq> owned c p e bs" by (rule links_owned [OF a]) (auto simp: F(3) avail_def)
    then show "x \<in> ctl c \<union> link_bytes (listed F) \<Longrightarrow> x \<in> owned c p e bs" for x using ctl_owned [OF a] by blast
  qed
  moreover have "layout m' p False bs e"
  proof (rule layout_keep [OF poolD(1) [OF a]])
    show "m' z = m z" if "(x, n, f) \<in> set bs" "z \<in> {x + 8 ..< x + 16} \<or> f \<and> z \<in> {x + 8 + n ..< x + 16 + n}" for x n f z
      using block_owned [OF a that(1)] that(2) by (intro keep) (auto simp: subset_iff)
    have "z \<notin> used_bytes bs" if "e + 8 \<le> z" for z
      using pool_range(2) [OF a] that by (fastforce simp: used_bytes_def)
    moreover have "p \<le> e" using layout_le [OF poolD(1) [OF a]] .
    ultimately show "m' z = m z" if "z \<in> {e + 8 ..< e + 16}" for z using that by (intro keep) (simp add: owned_def)
  qed
  ultimately have "tlsf_pool c p e m' bs {}" using poolD [OF a] F(2) by (intro poolI [where F = F]) simp_all
  then show ?thesis using assms(1) by (simp add: heap_def)
qed

lemma heap_client_write: "heap c p e m bs \<Longrightarrow> same_outside (used_bytes bs) m m' \<Longrightarrow> heap c p e m' bs"
  by (erule heap_keep) (auto simp: owned_def same_outside_def)

section \<open>The block behind a block\<close>

lemma pool_next:
  assumes a: "tlsf_pool c p e m (xs @ (b, n, f) # ys) U"
  obtains (used) "\<not> block_is_free m (b + 8 + n)"
  | (free) k zs where "ys = (b + 8 + n, k, True) # zs" "block_is_free m (b + 8 + n)" "block_size m (b + 8 + n) = k"
proof (cases ys)
  case Nil
  obtain pf where "layout m b pf ((b, n, f) # ys) e" by (rule pool_at [OF a])
  then have "size_field m (b + 8 + n) = hdr 0 False f" using Nil by auto
  then show thesis using used header_ops(2) [of m "b + 8 + n" 0 False f] by simp
next
  case (Cons y zs)
  obtain s k g where y: "y = (s, k, g)" by (cases y)
  obtain pf where "layout m b pf ((b, n, f) # ys) e" by (rule pool_at [OF a])
  then have "s = b + 8 + n" using Cons y by simp
  then show thesis using pool_header [OF a, of s k g] Cons y used free by (cases g) auto
qed

section \<open>Moving\<close>

lemma used_take:
  assumes "tlsf_pool c p e m bs U" "(b, n, True) \<in> set bs" "k \<le> n"
  shows "used_blocks (take_block bs b k) = insert (b, cut_size n k) (used_blocks bs)"
    "used_bytes bs \<subseteq> used_bytes (take_block bs b k)" "owned c p e (take_block bs b k) \<subseteq> owned c p e bs"
proof -
  obtain xs ys where bs: "bs = xs @ (b, n, True) # ys" using assms(2) by (meson split_list)
  have at: "take_block bs b k = xs @ cut b n k False @ ys" unfolding bs by (rule take_block_at [OF assms(1) [unfolded bs]])
  show "used_blocks (take_block bs b k) = insert (b, cut_size n k) (used_blocks bs)" unfolding at by (simp add: bs used_cut)
  show u: "used_bytes bs \<subseteq> used_bytes (take_block bs b k)"
    unfolding at by (auto simp: bs used_append used_Cons)
  show "owned c p e (take_block bs b k) \<subseteq> owned c p e bs" using owned_mono [OF u] .
qed

lemma used_release:
  assumes "tlsf_pool c p e m bs U" "(b, n, False) \<in> set bs"
  shows "used_blocks (release bs b) = used_blocks bs - {(b, n)}"
proof -
  obtain xs ys where bs: "bs = xs @ (b, n, False) # ys" using assms(2) by (meson split_list)
  note a = assms(1) [unfolded bs]
  show ?thesis using release_at [OF a] used_around [OF a] unfolding bs by auto
qed

lemma realloc_moves:
  assumes h: "heap c p e m bs" and b: "(b, n, False) \<in> set bs" and sz: "0 < sz" "sz \<le> 2 ^ 32 - 8"
    and q: "tlsf_malloc m c sz = Some (q, m1)" "q \<noteq> 0"
  obtains m' b' n' bs' where "tlsf_free (memcpy m1 q (b + 16) (min n sz)) c (b + 16) = Some m'" "q = b' + 16" "heap c p e m' bs'"
    "used_blocks bs' = insert (b', n') (used_blocks bs - {(b, n)})" "sz \<le> n'"
    "\<And>i. i < min n sz \<Longrightarrow> m' (q + i) = m (b + 16 + i)"
    "same_outside (owned c p e bs \<union> {b + 16 ..< b + 16 + n}) m m'"
proof -
  let ?k = "request sz"
  have a: "tlsf_pool c p e m bs {}" using h by (simp add: heap_def)
  have "sz + 7 < 2 ^ 64" using sz(2) by simp
  from malloc_heap [OF h this] q obtain b2 n2 where r: "q = b2 + 16" "(b2, n2, True) \<in> set bs" "sz \<le> ?k" "?k \<le> n2"
    "heap c p e m1 (take_block bs b2 ?k)" "same_outside (owned c p e bs) m m1" by auto
  let ?bs = "take_block bs b2 ?k" and ?n = "cut_size n2 ?k"
  have n: "?k \<le> ?n" "?n \<le> n2" using cut_size_bounds [OF r(4)] by auto
  note u = used_take [OF a r(2,4)]
  have ap: "b + 8 + n \<le> b2 \<or> b2 + 8 + n2 \<le> b" using layout_apart [OF poolD(1) [OF a] b r(2)] by auto
  define m2 where "m2 = memcpy m1 q (b + 16) (min n sz)"
  have m2: "m2 = copied m1 q (b + 16) (min n sz)" unfolding m2_def
  proof (rule memcpy_copied)
    show "q \<le> b + 16 \<or> b + 16 + min n sz \<le> q" using ap r(1) by auto
  qed
  have w2: "m2 x = m1 x" if "x \<notin> {b2 + 16 ..< b2 + 16 + ?n}" for x
    using that n(1) r(1,3) by (auto simp: m2 copied_def)
  have "(b2, ?n, False) \<in> set ?bs" using u(1) by (auto simp: used_blocks_def set_eq_iff)
  then have "{b2 + 16 ..< b2 + 16 + ?n} \<subseteq> used_bytes ?bs" unfolding used_bytes_def by fastforce
  then have "same_outside (used_bytes ?bs) m1 m2" using w2 by (intro same_outsideI) blast
  then have h2: "heap c p e m2 ?bs" by (rule heap_client_write [OF r(5)])
  have b': "(b, n, False) \<in> set ?bs" using b u(1) by (auto simp: used_blocks_def set_eq_iff)
  obtain m3 where m3: "tlsf_free m2 c (b + 16) = Some m3" "heap c p e m3 (release ?bs b)"
    "same_outside (owned c p e ?bs \<union> {b + 16 ..< b + 16 + n}) m2 m3" using free_heap [OF h2 b'] by blast
  have a2: "tlsf_pool c p e m2 ?bs {}" using h2 by (simp add: heap_def)
  have "used_blocks (release ?bs b) = insert (b2, ?n) (used_blocks bs) - {(b, n)}"
    unfolding used_release [OF a2 b'] u(1) ..
  moreover have ne: "(b2, ?n) \<noteq> (b, n)" using ap by auto
  ultimately have ub: "used_blocks (release ?bs b) = insert (b2, ?n) (used_blocks bs - {(b, n)})" by blast
  have "m3 (q + i) = m (b + 16 + i)" if i: "i < min n sz" for i
  proof -
    have "b2 + 16 + i \<notin> owned c p e ?bs" using i n r(3) u(1) by (intro used_not_owned [of b2 ?n]) auto
    moreover have "b2 + 16 + i \<notin> {b + 16 ..< b + 16 + n}" using ap i n r(3) by auto
    ultimately have "m3 (q + i) = m2 (q + i)" using r(1) by (intro same_outsideD [OF m3(3)]) simp
    also have "\<dots> = m1 (b + 16 + i)" using i by (simp add: m2 copied_def)
    also have "\<dots> = m (b + 16 + i)"
      using i b by (intro same_outsideD [OF r(6)] used_not_owned [of b n]) (auto simp: used_blocks_def)
    finally show ?thesis .
  qed
  moreover have "same_outside (owned c p e bs) m1 m2"
  proof (rule same_outsideI, rule w2)
    show "x \<notin> {b2 + 16 ..< b2 + 16 + ?n}" if "x \<notin> owned c p e bs" for x
      using that block_owned(2) [OF a r(2)] n(2) by (auto simp: subset_iff)
  qed
  then have "same_outside (owned c p e bs \<union> {b + 16 ..< b + 16 + n}) m m3"
    using same_outside_trans [OF same_outside_seq [OF r(6)] m3(3)] u(3) by blast
  ultimately show thesis using that [of m3 b2 "release ?bs b" ?n] m3(1,2) r(1,3) ub n(1) m2_def by auto
qed

section \<open>Growing in place\<close>

text \<open>When the block does not move, it has room for the request after taking in the next block.\<close>

lemma realloc_room:
  assumes h: "heap c p e m (xs @ (b, n, False) # ys)"
    and k: "k > n \<Longrightarrow> block_is_free m (b + 8 + n) \<and> k \<le> add64 (add64 n (block_size m (b + 8 + n))) 8"
  obtains m1 N zs where "(if k > n then do { (b', m) \<leftarrow> block_merge_next m c b; block_mark_as_used m b } else Some m) = Some m1"
    "tlsf_pool c p e m1 (xs @ (b, N, False) # zs) {}" "coalesced (xs @ (b, N, False) # zs)" "k \<le> N" "n \<le> N"
    "used_blocks zs = used_blocks ys" "same_outside (owned c p e (xs @ (b, n, False) # ys)) m m1"
    "owned c p e (xs @ (b, N, False) # zs) \<subseteq> owned c p e (xs @ (b, n, False) # ys)"
    "{b + 16 + n ..< b + 16 + N} \<subseteq> owned c p e (xs @ (b, n, False) # ys)"
proof -
  let ?bs = "xs @ (b, n, False) # ys"
  have a: "tlsf_pool c p e m ?bs {}" and co: "coalesced ?bs" using h by (simp_all add: heap_def)
  show thesis
  proof (cases "k > n")
    case False
    then show thesis using that [of m n ys] a co same_outside_refl by simp
  next
    case True
    obtain j zs where ys: "ys = (b + 8 + n, j, True) # zs" "block_size m (b + 8 + n) = j"
      using a by (cases rule: pool_next) (use k [OF True] in auto)
    note g = pool_grow [OF a [unfolded ys]]
    have mem: "(b + 8 + n, j, True) \<in> set ?bs" using ys by simp
    have "add64 (add64 n j) 8 = n + j + 8" using pool_range(7) [OF a mem] by (simp add: add64_id)
    then have fits: "k \<le> n + j + 8" using k [OF True] ys(2) by simp
    obtain m1 m' where g: "block_merge_next m c b = Some (b, m1)" "block_mark_as_used m1 b = Some m'"
      "tlsf_pool c p e m' (xs @ (b, n + j + 8, False) # zs) {}" "same_outside (owned c p e ?bs) m m'"
      using a unfolding ys(1) by (rule pool_grow)
    have "coalesced (xs @ (b, n + j + 8, False) # zs)" using co ys(1) by (auto simp: coalesced_simps)
    moreover have "owned c p e (xs @ (b, n + j + 8, False) # zs) \<subseteq> owned c p e ?bs"
      by (rule owned_mono) (auto simp: ys(1) used_append used_Cons)
    moreover have "{b + 16 + n ..< b + 16 + (n + j + 8)} \<subseteq> owned c p e ?bs"
      using block_owned(2) [OF a mem] by (simp add: ac_simps)
    ultimately show thesis using that [of m' "n + j + 8" zs] True g fits ys(1) by simp
  qed
qed

section \<open>The theorem\<close>

definition realloc_post :: "addr \<Rightarrow> addr \<Rightarrow> addr \<Rightarrow> bytes \<Rightarrow> tlsf_block list \<Rightarrow> addr \<Rightarrow> nat \<Rightarrow> nat \<Rightarrow> addr \<Rightarrow> bytes \<Rightarrow> bool" where
  "realloc_post c p e m bs b n sz q m' \<longleftrightarrow>
     (\<exists>b' n' bs'. q = b' + 16 \<and> heap c p e m' bs' \<and> used_blocks bs' = insert (b', n') (used_blocks bs - {(b, n)}) \<and> sz \<le> n') \<and>
     (\<forall>i < min n sz. m' (q + i) = m (b + 16 + i)) \<and>
     same_outside (owned c p e bs \<union> {b + 16 ..< b + 16 + n}) m m'"

lemma realloc_heap:
  assumes h: "heap c p e m bs" and b: "(b, n, False) \<in> set bs" and sz: "0 < sz" "sz \<le> 2 ^ 32 - 8"
  shows "\<exists>q m'. tlsf_realloc m c (b + 16) sz = Some (q, m') \<and> (q = 0 \<and> m' = m \<or> realloc_post c p e m bs b n sz q m')"
proof -
  let ?k = "request sz" and ?a = "b + 8 + n"
  have a: "tlsf_pool c p e m bs {}" and co: "coalesced bs" using h by (simp_all add: heap_def)
  have k0: "?k \<noteq> 0" using sz by (auto simp: request_zero)
  note k = request_range [OF k0] and r = pool_range [OF a b]
  obtain xs ys where bs: "bs = xs @ (b, n, False) # ys" using b by (meson split_list)
  have hd: "block_size m b = n" "\<not> block_is_free m b" "block_next m b = Some ?a" using pool_header [OF a b] by simp_all
  have ptr: "block_from_ptr (b + 16) = b" using r(7) by (simp add: block_from_ptr_def block_constants sub64_id)
  have adj: "adjust_request_size sz ALIGN_SIZE = Some ?k" using sz(2) by (intro adjust_request) simp
  define moves where "moves \<longleftrightarrow> ?k > n \<and> (\<not> block_is_free m ?a \<or> ?k > add64 (add64 n (block_size m ?a)) 8)"
  note unfold_run = tlsf_realloc_def Let_def insist_def block_header_overhead_def hd ptr adj
  show ?thesis
  proof (cases moves)
    case True
    have "sz + 7 < 2 ^ 64" using sz(2) by simp
    then obtain q m1 where q: "tlsf_malloc m c sz = Some (q, m1)" "q = 0 \<longrightarrow> m1 = m"
      using malloc_heap [OF h, of sz] by auto
    show ?thesis
    proof (cases "q = 0")
      case True
      then have "tlsf_realloc m c (b + 16) sz = Some (0, m)"
        using \<open>moves\<close> q sz(1) unfolding moves_def by (simp add: unfold_run)
      then show ?thesis by simp
    next
      case False
      obtain m' b' n' bs' where s: "tlsf_free (memcpy m1 q (b + 16) (min n sz)) c (b + 16) = Some m'" "q = b' + 16" "heap c p e m' bs'"
        "used_blocks bs' = insert (b', n') (used_blocks bs - {(b, n)})" "sz \<le> n'"
        "\<And>i. i < min n sz \<Longrightarrow> m' (q + i) = m (b + 16 + i)"
        "same_outside (owned c p e bs \<union> {b + 16 ..< b + 16 + n}) m m'" by (rule realloc_moves [OF h b sz q(1) False]) blast
      have "realloc_post c p e m bs b n sz q m'" using s unfolding realloc_post_def by blast
      moreover have "tlsf_realloc m c (b + 16) sz = Some (q, m')"
        using True q(1) False s(1) sz(1) unfolding moves_def by (simp add: unfold_run)
      ultimately show ?thesis by blast
    qed
  next
    case False
    have room: "block_is_free m ?a \<and> ?k \<le> add64 (add64 n (block_size m ?a)) 8" if "?k > n"
      using False that unfolding moves_def by auto
    obtain m1 N zs where st: "(if ?k > n then do { (b', m) \<leftarrow> block_merge_next m c b; block_mark_as_used m b } else Some m) = Some m1"
      "tlsf_pool c p e m1 (xs @ (b, N, False) # zs) {}" "coalesced (xs @ (b, N, False) # zs)" "?k \<le> N" "n \<le> N"
      "used_blocks zs = used_blocks ys" "same_outside (owned c p e bs) m m1"
      "owned c p e (xs @ (b, N, False) # zs) \<subseteq> owned c p e bs" "{b + 16 + n ..< b + 16 + N} \<subseteq> owned c p e bs"
      unfolding bs by (rule realloc_room [OF h [unfolded bs] room])
    obtain m' bs' where t: "block_trim_used m1 c b ?k = Some m'" "heap c p e m' bs'"
      "used_blocks bs' = insert (b, cut_size N ?k) (used_blocks xs \<union> used_blocks zs)"
      "\<And>i. i < ?k \<Longrightarrow> m' (b + 16 + i) = m1 (b + 16 + i)"
      "same_outside (owned c p e (xs @ (b, N, False) # zs) \<union> {b + 16 ..< b + 16 + N}) m1 m'"
      by (rule trim_in_place [OF st(2) k(1-3) st(4,3)]) blast
    have "tlsf_realloc m c (b + 16) sz = Some (b + 16, m')"
      using False st(1) t(1) sz(1) hd unfolding moves_def
      by (cases "n < ?k"; cases "block_is_free m ?a"; cases "add64 (add64 n (block_size m ?a)) 8 < ?k")
        (simp_all add: unfold_run)
    moreover have "used_blocks bs' = insert (b, cut_size N ?k) (used_blocks bs - {(b, n)})"
      using t(3) st(6) used_around [OF a [unfolded bs]] by (auto simp: bs)
    moreover have "sz \<le> cut_size N ?k" using cut_size_bounds [OF st(4)] k(4) by simp
    moreover have "m' (b + 16 + i) = m (b + 16 + i)" if i: "i < min n sz" for i
    proof -
      have "m' (b + 16 + i) = m1 (b + 16 + i)" using i k(4) by (intro t(4)) simp
      also have "\<dots> = m (b + 16 + i)"
        using i b by (intro same_outsideD [OF st(7)] used_not_owned [of b n]) (auto simp: used_blocks_def)
      finally show ?thesis .
    qed
    moreover have "{b + 16 ..< b + 16 + N} = {b + 16 ..< b + 16 + n} \<union> {b + 16 + n ..< b + 16 + N}" using st(5) by auto
    then have "same_outside (owned c p e bs \<union> {b + 16 ..< b + 16 + n}) m m'"
      using st(8,9) by (intro same_outside_trans [OF st(7) t(5)]) auto
    ultimately show ?thesis using t(2) unfolding realloc_post_def by blast
  qed
qed

end
