(* ===== verification/Tlsf_Align.thy ===== *)
theory Tlsf_Align
  imports Tlsf_Realloc
begin

text \<open>
  \<open>tlsf_memalign\<close> of \<open>tlsf.c\<close>: a block large enough for the gap is taken, the gap is cut off in
  front of an aligned address as a free block, and the rest is used like any block.
\<close>

section \<open>Alignment to a power of two\<close>

definition up_to :: "nat \<Rightarrow> nat \<Rightarrow> nat" where
  "up_to a x = 2 ^ a * ((x + 2 ^ a - 1) div 2 ^ a)"

lemma up_to_bounds: "x \<le> up_to a x" "up_to a x < x + 2 ^ a" "2 ^ a dvd up_to a x"
proof -
  have p: "0 < (2::nat) ^ a" by simp
  have e: "up_to a x + (x + 2 ^ a - 1) mod 2 ^ a = x + 2 ^ a - 1" by (simp add: up_to_def)
  have "(x + 2 ^ a - 1) mod 2 ^ a < 2 ^ a" by simp
  then show "x \<le> up_to a x" "up_to a x < x + 2 ^ a" using e p by linarith+
  show "2 ^ a dvd up_to a x" by (simp add: up_to_def)
qed

lemma up_to_id: "2 ^ a dvd x \<Longrightarrow> up_to a x = x"
proof -
  assume x: "2 ^ a dvd x"
  note u = up_to_bounds [where x = x and a = a]
  have "2 ^ a dvd up_to a x - x" using u(3) x by (rule dvd_diff_nat)
  moreover have "up_to a x - x < 2 ^ a" using u(1,2) by simp
  ultimately have "up_to a x - x = 0" using nat_dvd_not_less by blast
  then show ?thesis using u(1) by simp
qed

lemma and_not_exp: "and_not x (2 ^ a - 1) = 2 ^ a * (x div 2 ^ a)"
proof -
  have "x AND (2 ^ a - 1) = x mod 2 ^ a" using take_bit_eq_mask [of a x] by (simp add: mask_eq_exp_minus_1 take_bit_eq_mod)
  then show ?thesis by (simp add: and_not_def minus_mod_eq_mult_div)
qed

lemma exp_and: "(2::nat) ^ a AND (2 ^ a - 1) = 0"
proof -
  have "(2::nat) ^ a AND (2 ^ a - 1) = 2 ^ a mod 2 ^ a"
    using take_bit_eq_mask [of a "2 ^ a :: nat"] by (simp only: mask_eq_exp_minus_1 take_bit_eq_mod)
  then show ?thesis by simp
qed

lemma align_exp:
  assumes "x + 2 ^ a < 2 ^ 64"
  shows "align_ptr x (2 ^ a) = Some (up_to a x)" "align_up x (2 ^ a) = Some (up_to a x)"
proof -
  have p: "(1::nat) \<le> 2 ^ a" "(2::nat) ^ a < 2 ^ 64" using assms by (simp, linarith)
  have s: "sub64 (2 ^ a) 1 = 2 ^ a - 1" using p by (intro sub64_id)
  have e: "add64 x (2 ^ a - 1) = x + 2 ^ a - 1" using assms p(1) by (subst add64_id) linarith+
  have "and_not (x + 2 ^ a - 1) (2 ^ a - 1) = up_to a x" unfolding and_not_exp up_to_def ..
  then show "align_ptr x (2 ^ a) = Some (up_to a x)" "align_up x (2 ^ a) = Some (up_to a x)"
    using exp_and [of a] by (simp_all add: align_ptr_def align_up_def s e insist_def del: One_nat_def)
qed

lemma exp_cases: "(2::nat) ^ a \<le> 8 \<and> 2 ^ a dvd (8::nat) \<or> 16 \<le> (2::nat) ^ a \<and> 8 dvd (2::nat) ^ a \<and> (2 ^ a = (16::nat) \<or> 32 \<le> (2::nat) ^ a)"
proof -
  consider "a = 0" | "a = 1" | "a = 2" | "a = 3" | "a = 4" | "5 \<le> a" by linarith
  then show ?thesis
  proof cases
    case 6
    have "(2::nat) ^ 5 \<le> 2 ^ a" "(2::nat) ^ 3 dvd 2 ^ a" using 6 by (intro power_increasing le_imp_power_dvd; simp)+
    then show ?thesis by simp
  qed auto
qed

section \<open>The gap\<close>

lemma memalign_gap_spec:
  assumes "8 dvd ptr" "ptr + 2 * 2 ^ a + 64 < 2 ^ 64"
  obtains g where "memalign_gap ptr (2 ^ a) = Some g" "2 ^ a dvd ptr + g" "g = 0 \<or> 32 \<le> g" "8 dvd g" "g \<le> 2 ^ a + 24"
    "2 ^ a \<le> (8::nat) \<Longrightarrow> g = 0"
proof -
  define g0 where "g0 = up_to a ptr - ptr"
  note u = up_to_bounds [where x = ptr and a = a]
  have g0: "up_to a ptr = ptr + g0" "g0 < 2 ^ a" using u by (simp_all add: g0_def)
  have al: "align_ptr ptr (2 ^ a) = Some (ptr + g0)" using assms(2) g0(1) align_exp(1) [of ptr a] by simp
  have sg: "sub64 (ptr + x) ptr = x" if "ptr + x < 2 ^ 64" for x using that by (subst sub64_id) simp_all
  have small: "2 ^ a \<le> (8::nat) \<Longrightarrow> g0 = 0"
  proof -
    assume "2 ^ a \<le> (8::nat)"
    then have "2 ^ a dvd (8::nat)" using exp_cases [of a] by auto
    then have "2 ^ a dvd ptr" using assms(1) by (rule dvd_trans)
    then show "g0 = 0" using up_to_id [of a ptr] by (simp add: g0_def)
  qed
  have g8: "8 dvd g0"
  proof (cases "2 ^ a \<le> (8::nat)")
    case False
    then have "8 dvd up_to a ptr" using exp_cases [of a] u(3) dvd_trans by (metis not_le)
    then show ?thesis unfolding g0_def using assms(1) by (rule dvd_diff_nat)
  qed (use small in simp)
  show thesis
  proof (cases "g0 \<noteq> 0 \<and> g0 < 32")
    case False
    then have "memalign_gap ptr (2 ^ a) = Some g0"
      using al sg [of g0] g0(2) assms(2) by (auto simp: memalign_gap_def sizeof_block_header_def)
    then show thesis using that [of g0] u(3) g0 g8 small False by auto
  next
    case True
    define off where "off = max (32 - g0) (2 ^ a)"
    have a16: "16 \<le> (2::nat) ^ a" "2 ^ a = (16::nat) \<or> 32 \<le> (2::nat) ^ a" using small True exp_cases [of a] by auto
    have g0c: "g0 = 8 \<or> g0 = 16 \<or> g0 = 24" using True g8 by presburger
    have up: "\<not> (2 ^ a = (16::nat) \<and> g0 = 8) \<and> up_to a (ptr + g0 + off) = ptr + (g0 + 2 ^ a) \<or> 2 ^ a = (16::nat) \<and> g0 = 8 \<and> up_to a (ptr + g0 + off) = ptr + 40"
    proof (cases "2 ^ a = (16::nat) \<and> g0 = 8")
      case True
      then obtain k where k: "ptr + 8 = 16 * k" using u(3) g0(1) by (metis dvdE)
      have a4: "up_to a y = 16 * ((y + 15) div 16)" for y using True by (simp add: up_to_def)
      have "off = 24" using True by (simp add: off_def)
      then have "up_to a (ptr + g0 + off) = ptr + 40" using k True by (simp add: a4)
      then show ?thesis using True by simp
    next
      case False
      then have "off = 2 ^ a" using a16 g0c by (auto simp: off_def)
      then have "up_to a (ptr + g0 + off) = ptr + g0 + 2 ^ a" 
        using u(3) g0(1) up_to_id [of a "ptr + g0 + 2 ^ a"] by simp
      then show ?thesis using False by simp
    qed
    define g where "g = up_to a (ptr + g0 + off) - ptr"
    have g: "up_to a (ptr + g0 + off) = ptr + g" "32 \<le> g" "g \<le> 2 ^ a + 24" "8 dvd g"
      using up g0c a16 g8 exp_cases [of a] unfolding g_def by auto
    have room: "ptr + g0 + off + 2 ^ a < 2 ^ 64" "ptr + g < 2 ^ 64" "ptr + g0 < 2 ^ 64" "32 - g0 \<le> 32"
      using g0c a16 assms(2) g(3) by (auto simp: off_def)
    have "align_ptr (ptr + g0 + off) (2 ^ a) = Some (ptr + g)" using align_exp(1) [OF room(1)] g(1) by simp
    moreover have "add64 (ptr + g0) off = ptr + g0 + off" "sub64 32 g0 = 32 - g0"
      using room(1) True by (auto intro!: add64_id sub64_id)
    ultimately have "memalign_gap ptr (2 ^ a) = Some g"
      using al sg [OF room(3)] sg [OF room(2)] True
      by (simp add: memalign_gap_def sizeof_block_header_def Let_def off_def [symmetric])
    then show thesis using that [of g] g u(3) up_to_bounds(3) [of a "ptr + g0 + off"] a16(1) by simp
  qed
qed

section \<open>The block in front of the aligned address\<close>

lemma pool_trim_leading:
  assumes a: "tlsf_pool c p e m (xs @ (b, n, True) # ys) {b}" and g: "32 \<le> g" "8 dvd g" "g + 32 \<le> n"
  obtains m' where "block_trim_free_leading m c b g = Some (b + g, m')"
    "tlsf_pool c p e m' (xs @ (b, g - 8, True) # (b + g, n - g, True) # ys) {b + g}"
    "same_outside (owned c p e (xs @ (b, n, True) # ys)) m m'"
    "owned c p e (xs @ (b, g - 8, True) # (b + g, n - g, True) # ys) = owned c p e (xs @ (b, n, True) # ys)"
proof -
  have mem: "(b, n, True) \<in> set (xs @ (b, n, True) # ys)" by simp
  have h: "block_size m b = n" using pool_header(1) [OF a mem] .
  have g63: "g < 2 ^ 63" using pool_range(6) [OF a mem] g(3) by simp
  obtain pf where l: "segment m p False xs b pf" "layout m b pf ((b, n, True) # ys) e" by (rule pool_at [OF a])
  let ?k = "g - 8"
  have k: "24 \<le> ?k" "8 dvd ?k" "?k + 32 \<le> n" "b + 8 + ?k = b + g" "n - ?k - 8 = n - g" using g by (auto simp: dvd_diff_nat)
  obtain m1 m4 where s: "block_split m b ?k = Some (b + 8 + ?k, m1)"
    "block_link_next (block_set_prev_free m1 (b + 8 + ?k)) b = Some (b + 8 + ?k, m4)"
    "layout m4 b pf ((b, ?k, True) # (b + 8 + ?k, n - ?k - 8, True) # ys) e"
    "\<And>x. x \<notin> split_zone b ?k n \<Longrightarrow> m4 x = m x"
    by (rule trim_free_layout [OF l(2) poolD(6) [OF a] k(1-3) pool_range(5) [OF a mem]]) blast
  note st = pool_split_free [OF a k(3) l s(3,4), unfolded k(4,5)]
  let ?bs = "xs @ (b, ?k, True) # (b + g, n - g, True) # ys"
  obtain m5 where m5: "block_insert m4 c b = Some m5" "tlsf_pool c p e m5 ?bs ({b, b + g} - {b})"
    "same_outside (owned c p e ?bs) m4 m5" by (rule pool_insert [OF st(1), of b ?k]) auto
  have "{b, b + g} - {b} = {b + g}" using g(1) by auto
  moreover have "sub64 g block_header_overhead = ?k" using g(1) g63 by (simp add: block_constants sub64_id)
  then have "block_trim_free_leading m c b g = Some (b + g, m5)"
    using can_split [OF h g63] g(3) s(1,2) m5(1) by (simp add: block_trim_free_leading_def k(4))
  ultimately show thesis using that m5(2) st(3) same_outside_seq [OF st(2)] m5(3) by simp
qed

section \<open>The theorem\<close>

definition alloc_post :: "addr \<Rightarrow> addr \<Rightarrow> addr \<Rightarrow> bytes \<Rightarrow> tlsf_block list \<Rightarrow> nat \<Rightarrow> addr \<Rightarrow> bytes \<Rightarrow> bool" where
  "alloc_post c p e m bs sz q m' \<longleftrightarrow>
     (\<exists>b n bs'. q = b + 16 \<and> heap c p e m' bs' \<and> (b, n) \<notin> used_blocks bs \<and>
        used_blocks bs' = insert (b, n) (used_blocks bs) \<and> sz \<le> n) \<and> same_outside (owned c p e bs) m m'"

text \<open>The block of a request with room for the gap.\<close>

lemma memalign_found:
  assumes a: "tlsf_pool c p e m (xs @ (b, n, True) # ys) {b}" and co: "coalesced (xs @ (b, n, True) # ys)"
    and k: "k = request sz" "k \<noteq> 0" and n: "k \<le> n" "8 < (2::nat) ^ a \<Longrightarrow> k + 2 ^ a + 32 \<le> n" and e: "e + 2 * 2 ^ a + 64 < 2 ^ 64"
  obtains g m1 m' b' where "memalign_gap (b + 16) (2 ^ a) = Some g" "g = 0 \<or> 32 \<le> g"
    "(if g \<noteq> 0 then block_trim_free_leading m c b g else Some (b, m)) = Some (b', m1)"
    "block_prepare_used m1 c b' k = Some (b' + 16, m')" "2 ^ a dvd b' + 16"
    "alloc_post c p e m (xs @ (b, n, True) # ys) sz (b' + 16) m'"
proof -
  let ?O = "owned c p e (xs @ (b, n, True) # ys)"
  note rk = request_range [OF k(2) [unfolded k(1)], folded k(1)]
  have mem: "(b, n, True) \<in> set (xs @ (b, n, True) # ys)" by simp
  note r = pool_range [OF a mem]
  have "8 dvd b + 16" "b + 16 + 2 * 2 ^ a + 64 < 2 ^ 64" using r(2,3,5) e by auto
  then obtain g where g: "memalign_gap (b + 16) (2 ^ a) = Some g" "2 ^ a dvd b + 16 + g" "g = 0 \<or> 32 \<le> g" "8 dvd g"
    "g \<le> 2 ^ a + 24" "2 ^ a \<le> (8::nat) \<Longrightarrow> g = 0"
    by (rule memalign_gap_spec) blast
  show thesis
  proof (cases "g = 0")
    case True
    obtain m' where m': "block_prepare_used m c b k = Some (b + 16, m')" "tlsf_pool c p e m' (xs @ cut b n k False @ ys) {}"
      "same_outside ?O m m'" by (rule pool_prepare_used [OF a rk(1-3)])
    have "coalesced (xs @ cut b n k False @ ys)" using co by (cases ys) (auto simp: coalesced_simps cut_def)
    then have "heap c p e m' (xs @ cut b n k False @ ys)" using m'(2) by (simp add: heap_def)
    moreover have "used_blocks (xs @ cut b n k False @ ys) = insert (b, cut_size n k) (used_blocks (xs @ (b, n, True) # ys))"
      by (simp add: used_cut)
    moreover have "sz \<le> cut_size n k" using cut_size_bounds [OF n(1)] rk(4) by simp
    moreover have "(b, cut_size n k) \<notin> used_blocks (xs @ (b, n, True) # ys)" using used_around [OF a] by simp
    ultimately have "alloc_post c p e m (xs @ (b, n, True) # ys) sz (b + 16) m'"
      using m'(3) unfolding alloc_post_def by blast
    then show thesis using that [of g b m m'] g(1,2) m'(1) True by simp
  next
    case False
    then have "8 < (2::nat) ^ a" using g(6) by (meson not_le)
    then have fits: "32 \<le> g" "g + 32 \<le> n" "k \<le> n - g" using False g(3,5) n(2) rk(1) by linarith+
    let ?bs = "xs @ (b, g - 8, True) # (b + g, n - g, True) # ys"
    obtain m1 where m1: "block_trim_free_leading m c b g = Some (b + g, m1)" "tlsf_pool c p e m1 ?bs {b + g}"
      "same_outside ?O m m1" "owned c p e ?bs = ?O" by (rule pool_trim_leading [OF a fits(1) g(4) fits(2)])
    let ?xs = "xs @ [(b, g - 8, True)]"
    have a1: "tlsf_pool c p e m1 (?xs @ (b + g, n - g, True) # ys) {b + g}" using m1(2) by simp
    obtain m' where m': "block_prepare_used m1 c (b + g) k = Some (b + g + 16, m')"
      "tlsf_pool c p e m' (?xs @ cut (b + g) (n - g) k False @ ys) {}"
      "same_outside (owned c p e (?xs @ (b + g, n - g, True) # ys)) m1 m'" by (rule pool_prepare_used [OF a1 rk(1-3)])
    have "coalesced (?xs @ cut (b + g) (n - g) k False @ ys)" using co by (cases ys) (auto simp: coalesced_simps cut_def)
    then have "heap c p e m' (?xs @ cut (b + g) (n - g) k False @ ys)" using m'(2) by (simp add: heap_def)
    moreover have "used_blocks (?xs @ cut (b + g) (n - g) k False @ ys) =
        insert (b + g, cut_size (n - g) k) (used_blocks (xs @ (b, n, True) # ys))" by (simp add: used_cut)
    moreover have "sz \<le> cut_size (n - g) k" using cut_size_bounds [OF fits(3)] rk(4) by simp
    moreover have "(b + g, cut_size (n - g) k) \<notin> used_blocks (xs @ (b, n, True) # ys)" using used_around [OF a1] by simp
    moreover have "same_outside ?O m m'" using same_outside_seq [OF m1(3)] m'(3) m1(4) by simp
    ultimately have "alloc_post c p e m (xs @ (b, n, True) # ys) sz (b + g + 16) m'"
      unfolding alloc_post_def by blast
    then show thesis using that [of g "b + g" m1 m'] g(1-3) m1(1) m'(1) False by (simp add: ac_simps)
  qed
qed

lemma twice_bound: "n < s \<Longrightarrow> 32 * s \<le> 33 * k \<Longrightarrow> k \<le> x \<Longrightarrow> n < 2 * (x :: nat)"
  by linarith

lemma memalign_heap:
  assumes h: "heap c p e m bs" and sz: "sz + 7 < 2 ^ 64" and al: "a \<le> 32" "e + 2 * 2 ^ a + 64 < 2 ^ 64"
  shows "\<exists>q m'. tlsf_memalign m c (2 ^ a) sz = Some (q, m') \<and>
    (q = 0 \<and> m' = m \<and> (0 < sz \<longrightarrow> sz + 2 * 2 ^ a + 64 < 2 ^ 32 \<longrightarrow>
       (\<forall>b n. (b, n, True) \<in> set bs \<longrightarrow> n < 2 * (sz + 2 * 2 ^ a + 64))) \<or>
     2 ^ a dvd q \<and> alloc_post c p e m bs sz q m')"
proof -
  have a: "tlsf_pool c p e m bs {}" and co: "coalesced bs" using h by (simp_all add: heap_def)
  let ?k = "request sz" and ?x = "request sz + 2 ^ a + 32"
  define s where "s = (if up_to a ?x < 2 ^ 32 then up_to a ?x else 0)"
  define n0 where "n0 = (if ?k \<noteq> 0 \<and> 8 < (2::nat) ^ a then s else ?k)"
  have k32: "?k < 2 ^ 32" using request_range(3) [of sz] by (cases "?k = 0") auto
  have a32: "(2::nat) ^ a \<le> 2 ^ 32" using al(1) by (intro power_increasing) simp_all
  note u = up_to_bounds [where x = ?x and a = a]
  have "add64 (add64 ?k (2 ^ a)) 32 = ?x" using k32 a32 by (subst add64_id; (subst add64_id)?; simp)
  moreover have "adjust_request_size ?x (2 ^ a) = Some s"
    using align_exp(2) [of ?x a] k32 a32 u(1) unfolding adjust_request_size_def s_def
    by (simp add: block_constants FL_INDEX_MAX_def max_def)
  ultimately have run: "tlsf_memalign m c (2 ^ a) sz =
    do { (block, m) \<leftarrow> block_locate_free m c n0;
         (block, m) \<leftarrow>
            (if block \<noteq> 0
             then do { gap \<leftarrow> memalign_gap (block_to_ptr block) (2 ^ a);
                       if gap \<noteq> 0 then do { insist (gap \<ge> 32); block_trim_free_leading m c block gap } else Some (block, m) }
             else Some (block, m));
         block_prepare_used m c block ?k }"
    unfolding tlsf_memalign_def n0_def using adjust_request [OF sz]
    by (simp add: sizeof_block_header_def tlsf_constants block_size_min_def block_header_overhead_def insist_def)
  have small: "n0 \<noteq> 0 \<and> n0 \<le> sz + 2 * 2 ^ a + 64" if "0 < sz" "sz + 2 * 2 ^ a + 64 < 2 ^ 32"
  proof -
    have "?k \<noteq> 0" using that request_zero [of sz] by auto
    moreover from this have "?k < sz + 24" by (rule request_range(5))
    moreover have "up_to a ?x < ?x + 2 ^ a" by (rule u(2))
    moreover have "?x \<le> up_to a ?x" by (rule u(1))
    ultimately show ?thesis using that by (auto simp: n0_def s_def)
  qed
  show ?thesis
  proof (cases "n0 = 0")
    case True
    then have "tlsf_memalign m c (2 ^ a) sz = Some (0, m)"
      unfolding run by (simp add: block_locate_free_def block_prepare_used_def)
    then show ?thesis using small True by blast
  next
    case False
    have k0: "?k \<noteq> 0" using False by (auto simp: n0_def split: if_splits)
    note rk = request_range [OF k0]
    have n0: "0 < n0" "n0 < 2 ^ 32" "8 dvd n0" "?k \<le> n0" "8 < (2::nat) ^ a \<Longrightarrow> ?x \<le> n0"
    proof -
      show "0 < n0" using False by simp
      show "n0 < 2 ^ 32" using rk(3) by (simp add: n0_def s_def)
      have "8 dvd up_to a ?x" if "8 < (2::nat) ^ a" using exp_cases [of a] u(3) that dvd_trans by auto
      then show "8 dvd n0" using rk(2) False by (auto simp: n0_def s_def)
      show x: "?x \<le> n0" if "8 < (2::nat) ^ a" using that False k0 u(1) by (auto simp: n0_def s_def split: if_splits)
      show "?k \<le> n0" using x by (cases "8 < (2::nat) ^ a") (auto simp: n0_def)
    qed
    show ?thesis
      using a n0(1-3)
    proof (cases rule: pool_locate)
      case none
      from none(1) have "tlsf_memalign m c (2 ^ a) sz = Some (0, m)" unfolding run by (simp add: block_prepare_used_def)
      moreover have "n < 2 * (sz + 2 * 2 ^ a + 64)" if "0 < sz" "sz + 2 * 2 ^ a + 64 < 2 ^ 32" "(b, n, True) \<in> set bs" for b n
        using none(2) [OF that(3)] search_size_bounds(2) [of n0] conjunct2 [OF small [OF that(1,2)]] by (rule twice_bound)
      ultimately show ?thesis by blast
    next
      case (found b n m1)
      obtain xs ys where bs: "bs = xs @ (b, n, True) # ys" using found(2) by (meson split_list)
      have n: "?k \<le> n" "8 < (2::nat) ^ a \<Longrightarrow> ?x \<le> n" using n0(4,5) found(3) by auto
      obtain g m2 m' b' where f: "memalign_gap (b + 16) (2 ^ a) = Some g" "g = 0 \<or> 32 \<le> g"
        "(if g \<noteq> 0 then block_trim_free_leading m1 c b g else Some (b, m1)) = Some (b', m2)"
        "block_prepare_used m2 c b' ?k = Some (b' + 16, m')" "2 ^ a dvd b' + 16" "alloc_post c p e m1 bs sz (b' + 16) m'"
        unfolding bs by (rule memalign_found [OF found(4) [unfolded bs] co [unfolded bs] refl k0 n al(2)])
      have "b \<noteq> 0" "block_to_ptr b = b + 16"
        using pool_range(7,8) [OF a found(2)] by (auto simp: block_to_ptr_def block_constants add64_id)
      then have "tlsf_memalign m c (2 ^ a) sz = Some (b' + 16, m')"
        unfolding run using found(1) f(1-4) by (cases "g = 0") (simp_all add: insist_def)
      moreover have "alloc_post c p e m bs sz (b' + 16) m'"
        using f(6) same_outside_seq [OF found(5)] unfolding alloc_post_def by blast
      ultimately show ?thesis using f(5) by blast
    qed
  qed
qed

end
