(* ===== verification/Tlsf_Check.thy ===== *)
theory Tlsf_Check
  imports Tlsf_Align
begin

text \<open>
  The checks of \<open>tlsf.c\<close>: \<open>tlsf_walk_pool\<close> visits the blocks of a pool in address order,
  \<open>tlsf_check_pool\<close> and \<open>tlsf_check\<close> accept every heap that satisfies the invariant. A list or pool
  that does not end, and an assertion that fails, is \<open>None\<close>. A walker gets and returns its
  \<open>user\<close> data.
\<close>

section \<open>The code\<close>

text \<open>\<open>tlsf_insist\<close>: the assertion comes first, then the status is lowered.\<close>

definition tlsf_insist :: "bool \<Rightarrow> int \<Rightarrow> int option" where
  "tlsf_insist x status = do { insist x; Some (if \<not> x then status - 1 else status) }"

record integrity =
  prev_status :: int
  integ_status :: int

definition integrity_walker :: "bytes \<Rightarrow> addr \<Rightarrow> size_t \<Rightarrow> bool \<Rightarrow> integrity \<Rightarrow> integrity option" where
  "integrity_walker m ptr sz used integ =
     do { let block = block_from_ptr ptr;
          let this_prev_status = (if block_is_prev_free m block then 1 else 0);
          let this_status = (if block_is_free m block then 1 else 0);
          let this_block_size = block_size m block;
          status \<leftarrow> tlsf_insist (prev_status integ = this_prev_status) 0;
          status \<leftarrow> tlsf_insist (sz = this_block_size) status;
          Some (integ\<lparr>prev_status := this_status, integ_status := integ_status integ + status\<rparr>) }"

definition default_walker :: "addr \<Rightarrow> size_t \<Rightarrow> bool \<Rightarrow> 'u \<Rightarrow> 'u option" where
  "default_walker ptr sz used user = Some user"

partial_function (option) walk_pool_loop ::
    "bytes \<Rightarrow> (addr \<Rightarrow> size_t \<Rightarrow> bool \<Rightarrow> 'u \<Rightarrow> 'u option) \<Rightarrow> addr \<Rightarrow> 'u \<Rightarrow> 'u option" where
  "walk_pool_loop m walker block user =
     (if block \<noteq> 0 \<and> \<not> block_is_last m block
      then do { user \<leftarrow> walker (block_to_ptr block) (block_size m block) (\<not> block_is_free m block) user;
                block \<leftarrow> block_next m block;
                walk_pool_loop m walker block user }
      else Some user)"

definition tlsf_walk_pool ::
    "bytes \<Rightarrow> addr \<Rightarrow> (addr \<Rightarrow> size_t \<Rightarrow> bool \<Rightarrow> 'u \<Rightarrow> 'u option) option \<Rightarrow> 'u \<Rightarrow> 'u option" where
  "tlsf_walk_pool m pool walker user =
     (let pool_walker = (case walker of Some w \<Rightarrow> w | None \<Rightarrow> default_walker);
          block = offset_to_block pool (sub64 0 block_header_overhead)
      in walk_pool_loop m pool_walker block user)"

definition tlsf_check_pool :: "bytes \<Rightarrow> addr \<Rightarrow> int option" where
  "tlsf_check_pool m pool =
     do { integ \<leftarrow> tlsf_walk_pool m pool (Some (integrity_walker m)) \<lparr>prev_status = 0, integ_status = 0\<rparr>;
          Some (integ_status integ) }"

text \<open>The body of the loop over a list, and the loop.\<close>

definition check_block :: "bytes \<Rightarrow> nat \<Rightarrow> nat \<Rightarrow> addr \<Rightarrow> int \<Rightarrow> int option" where
  "check_block m i j block status =
     do { status \<leftarrow> tlsf_insist (block_is_free m block) status;
          status \<leftarrow> tlsf_insist (\<not> block_is_prev_free m block) status;
          next \<leftarrow> block_next m block;
          status \<leftarrow> tlsf_insist (\<not> block_is_free m next) status;
          next \<leftarrow> block_next m block;
          status \<leftarrow> tlsf_insist (block_is_prev_free m next) status;
          status \<leftarrow> tlsf_insist (block_size m block \<ge> block_size_min) status;
          tlsf_insist (mapping_insert (block_size m block) = (i, j)) status }"

partial_function (option) check_list :: "bytes \<Rightarrow> addr \<Rightarrow> nat \<Rightarrow> nat \<Rightarrow> addr \<Rightarrow> int \<Rightarrow> int option" where
  "check_list m c i j block status =
     (if block \<noteq> c
      then do { status \<leftarrow> check_block m i j block status; check_list m c i j (next_free m block) status }
      else Some status)"

definition check_cell :: "bytes \<Rightarrow> addr \<Rightarrow> nat \<Rightarrow> nat \<Rightarrow> int \<Rightarrow> int option" where
  "check_cell m c i j status =
     do { let fl_map = fl_bitmap m c AND 2 ^ i;
          let sl_list = sl_bitmap m c i;
          let sl_map = sl_list AND 2 ^ j;
          let block = list_head m c i j;
          status \<leftarrow> (if fl_map = 0 then tlsf_insist (sl_map = 0) status else Some status);
          if sl_map = 0 then tlsf_insist (block = c) status
          else do { status \<leftarrow> tlsf_insist (sl_list \<noteq> 0) status;
                    status \<leftarrow> tlsf_insist (block \<noteq> c) status;
                    check_list m c i j block status } }"

fun check_row :: "bytes \<Rightarrow> addr \<Rightarrow> nat \<Rightarrow> nat \<Rightarrow> int \<Rightarrow> int option" where
  "check_row m c i 0 status = Some status"
| "check_row m c i (Suc j) status = do { status \<leftarrow> check_row m c i j status; check_cell m c i j status }"

fun check_rows :: "bytes \<Rightarrow> addr \<Rightarrow> nat \<Rightarrow> int \<Rightarrow> int option" where
  "check_rows m c 0 status = Some status"
| "check_rows m c (Suc i) status = do { status \<leftarrow> check_rows m c i status; check_row m c i SL_INDEX_COUNT status }"

definition tlsf_check :: "bytes \<Rightarrow> addr \<Rightarrow> int option" where
  "tlsf_check m c = check_rows m c FL_INDEX_COUNT 0"

section \<open>The walk\<close>

fun visit :: "(addr \<Rightarrow> size_t \<Rightarrow> bool \<Rightarrow> 'u \<Rightarrow> 'u option) \<Rightarrow> tlsf_block list \<Rightarrow> 'u \<Rightarrow> 'u option" where
  "visit w [] u = Some u"
| "visit w ((b, n, f) # bs) u = do { u \<leftarrow> w (b + 16) n (\<not> f) u; visit w bs u }"

lemma walk_layout:
  assumes "layout m b pf bs e" "0 < b" "e + 24 < 2 ^ 64"
  shows "walk_pool_loop m w b u = visit w bs u"
  using assms(1,2)
proof (induction bs arbitrary: b pf u)
  case Nil
  then have "block_is_last m b" using header_ops(4) [of m b 0 False pf] by simp
  then show ?case by (subst walk_pool_loop.simps) simp
next
  case (Cons y bs)
  obtain x n f where y: "y = (x, n, f)" by (cases y)
  then have x: "y = (b, n, f)" using Cons.prems(1) by simp
  note l = layout_block [OF Cons.prems(1) [unfolded x] assms(3)]
  have "\<not> block_is_last m b" "block_to_ptr b = b + 16"
    using l(1,7,9) by (simp_all add: block_is_last_def block_to_ptr_def block_constants add64_id)
  moreover have "walk_pool_loop m w (b + 8 + n) v = visit w bs v" for v by (rule Cons.IH [OF l(5)]) simp
  ultimately show ?case using Cons.prems(2) l(9,10,12) by (subst walk_pool_loop.simps) (simp add: x)
qed

lemma walk_pool_visits:
  assumes "heap c p e m bs"
  shows "tlsf_walk_pool m (p + 8) (Some w) u = visit w bs u"
proof -
  have a: "tlsf_pool c p e m bs {}" using assms by (simp add: heap_def)
  note d = poolD [OF a]
  have "p \<le> e" using layout_le [OF d(1)] .
  then have "offset_to_block (p + 8) (sub64 0 block_header_overhead) = p" using d(6) pool_block [of "p + 8"] by simp
  moreover have "0 < p" using d(3,4) by simp
  ultimately show ?thesis using walk_layout [OF d(1) _ d(6)] by (simp add: tlsf_walk_pool_def)
qed

lemma integrity_visit:
  assumes "layout m b pf bs e" "e + 24 < 2 ^ 64"
  shows "\<exists>st. visit (integrity_walker m) bs \<lparr>prev_status = of_bool pf, integ_status = 0\<rparr> = Some \<lparr>prev_status = st, integ_status = 0\<rparr>"
  using assms(1)
proof (induction bs arbitrary: b pf)
  case (Cons y bs)
  obtain x n f where y: "y = (x, n, f)" by (cases y)
  then have x: "y = (b, n, f)" using Cons.prems by simp
  note l = layout_block [OF Cons.prems [unfolded x] assms(2)]
  have "block_from_ptr (b + 16) = b" using l(7) by (simp add: block_from_ptr_def block_constants sub64_id)
  then have "integrity_walker m (b + 16) n (\<not> f) \<lparr>prev_status = of_bool pf, integ_status = 0\<rparr> =
      Some \<lparr>prev_status = of_bool f, integ_status = 0\<rparr>"
    using l(9-11) by (simp add: integrity_walker_def tlsf_insist_def insist_def)
  then show ?case using Cons.IH [OF l(5)] by (simp add: x)
qed simp

lemma check_pool_heap:
  assumes "heap c p e m bs"
  shows "tlsf_check_pool m (p + 8) = Some 0"
proof -
  have a: "tlsf_pool c p e m bs {}" using assms by (simp add: heap_def)
  show ?thesis using integrity_visit [OF poolD(1,6) [OF a]]
    by (auto simp: tlsf_check_pool_def walk_pool_visits [OF assms])
qed

section \<open>The lists\<close>

lemma check_block_accepts:
  assumes h: "heap c p e m bs" and b: "(b, n, True) \<in> set bs" and r: "rank n = 32 * i + j" "j < 32"
  shows "check_block m i j b st = Some st"
proof -
  have a: "tlsf_pool c p e m bs {}" and co: "coalesced bs" using h by (simp_all add: heap_def)
  obtain xs ys where bs: "bs = xs @ (b, n, True) # ys" using b by (meson split_list)
  note a' = a [unfolded bs]
  obtain pf where l: "segment m p False xs b pf" "layout m b pf ((b, n, True) # ys) e" by (rule pool_at [OF a'])
  note lb = layout_block [OF l(2) poolD(6) [OF a]]
  let ?a = "b + 8 + n"
  have "\<not> pf" using segment_last(1) [OF l(1)] co by (auto simp: bs coalesced_simps)
  then have pf: "\<not> block_is_prev_free m b" using lb(11) by simp
  have nf: "\<not> block_is_free m ?a" using a'
  proof (cases rule: pool_next)
    case (free k zs)
    then show ?thesis using co by (simp add: bs coalesced_simps)
  qed
  obtain k g where k: "size_field m ?a = hdr k g True" "8 dvd k" "?a + k \<le> e" using layout_header [OF lb(5)] .
  have pn: "block_is_prev_free m ?a" using header_ops(3) [OF k(1) dvd_8_4 [OF k(2)]] by simp
  have "mapping_insert n = (i, j)" using mapping_insert_rank [of n] pool_range(6) [OF a b] r by simp
  then show ?thesis using pf nf pn lb(1,9,10,12)
    by (simp add: check_block_def tlsf_insist_def insist_def block_size_min_def sizeof_block_header_def)
qed

lemma check_list_accepts:
  assumes "dlist (load64 m) c prev xs" "\<And>b st. b \<in> set xs \<Longrightarrow> b \<noteq> c \<and> check_block m i j b st = Some st"
  shows "check_list m c i j (hd0 c xs) st = Some st"
  using assms
proof (induction xs arbitrary: prev)
  case Nil
  then show ?case by (subst check_list.simps) simp
next
  case (Cons b xs)
  have "next_free m b = hd0 c xs" using Cons.prems(1) by (simp add: next_free_def)
  moreover have "check_list m c i j (hd0 c xs) st = Some st" using Cons.IH [of b] Cons.prems by simp
  ultimately show ?case using Cons.prems(2) [of b] by (subst check_list.simps) simp
qed

lemma check_cell_accepts:
  assumes h: "heap c p e m bs" and ij: "i < 25" "j < 32"
  shows "check_cell m c i j st = Some st"
proof -
  have a: "tlsf_pool c p e m bs {}" using h by (simp add: heap_def)
  let ?r = "32 * i + j"
  obtain F where F: "mem_lists m c F" "\<And>r. set (F r) = {b. \<exists>n. (b, n) \<in> avail bs {} \<and> rank n = r}"
    "listed F = fst ` avail bs {}" by (rule pool_listsE [OF a]) blast
  have lo: "lists_ok (load64 m) (maps m c) c F" using F(1) by (simp add: mem_lists_def)
  have r: "?r < 800" "?r div 32 = i" "?r mod 32 = j" using ij by simp_all
  have sl: "sl_bitmap m c i AND 2 ^ j = 0 \<longleftrightarrow> F ?r = []"
    using lists_okD(3) [OF lo r(1)] r by (simp add: maps_at and_exp_eq_0_iff_not_bit)
  have fl: "F ?r = []" if "fl_bitmap m c AND 2 ^ i = 0"
    using that lists_okD(4) [OF lo, of i] r by (auto simp: maps_at and_exp_eq_0_iff_not_bit)
  have hd: "list_head m c i j = hd0 c (F ?r)" using head_at [of m c ?r] r lists_okD(1) [OF lo r(1)] by simp
  have blk: "b \<noteq> c \<and> check_block m i j b st = Some st" if listed: "b \<in> set (F ?r)" for b st
  proof -
    obtain n where n: "(b, n, True) \<in> set bs" "rank n = ?r" using listed unfolding F(2) by (auto simp: avail_mem)
    then show ?thesis using check_block_accepts [OF h n ij(2)] pool_range(8) [OF a n(1)] by auto
  qed
  show ?thesis
  proof (cases "F ?r")
    case Nil
    then show ?thesis using sl hd by (simp add: check_cell_def tlsf_insist_def insist_def)
  next
    case (Cons b xs)
    then have "sl_bitmap m c i AND 2 ^ j \<noteq> 0" "fl_bitmap m c AND 2 ^ i \<noteq> 0" "b \<noteq> c" using sl fl blk by auto
    moreover from this(1) have "sl_bitmap m c i \<noteq> 0" by (metis zero_and_eq)
    ultimately show ?thesis
      using hd Cons check_list_accepts [OF lists_okD(2) [OF lo r(1)] blk, of st]
      by (simp add: check_cell_def tlsf_insist_def insist_def)
  qed
qed

lemma check_heap:
  assumes "heap c p e m bs"
  shows "tlsf_check m c = Some 0"
proof -
  have row: "check_row m c i j st = Some st" if "i < 25" "j \<le> 32" for i j st
    using that(2) by (induction j) (simp_all add: check_cell_accepts [OF assms that(1)])
  have "check_rows m c i st = Some st" if "i \<le> 25" for i st
    using that by (induction i) (simp_all add: row tlsf_constants)
  then show ?thesis by (simp add: tlsf_check_def tlsf_constants)
qed

end
