(* ===== verification/Tlsf_Properties.thy ===== *)
theory Tlsf_Properties
  imports Tlsf_Check
begin

text \<open>
  What the allocator of \<open>tlsf.c\<close> guarantees: every operation returns, that is no assertion in it
  fails, keeps the invariant of the heap, and does to the list of blocks what the reference does.
\<close>

section \<open>A heap with a block in use\<close>

lemma sample_used: "\<exists>m. heap 4096 10624 12272 m [(10624, 104, False), (10736, 1528, True)]"
proof -
  have "request 100 = 104" "search_size 104 = 104" by (simp_all add: request_def search_size_def)
  moreover have "take_block [(10624, 1640, True)] 10624 104 = [(10624, 104, False), (10736, 1528, True)]"
    by (simp add: take_block_def cut_def)
  ultimately show ?thesis using malloc_heap [OF sample_heap, of 100] by auto
qed

section \<open>Properties\<close>

text \<open>
  C3: \<open>tlsf_malloc\<close> on a consistent heap returns. It returns null and changes nothing when the
  request is 0, does not fit into \<open>2 ^ 32\<close> bytes or no free block reaches the rounded size of the
  search, which exceeds the request by at most 1/32. Else it returns the start of a free block
  that is large enough; the heap is the one in which that block is in use, cut to the size of
  the request when a block can be made of the rest, and no byte of a block in use changes.
\<close>

theorem tlsf_malloc_spec:
  assumes "heap c p e m bs" "sz + 7 < 2 ^ 64"
  shows "\<exists>ptr m'. tlsf_malloc m c sz = Some (ptr, m') \<and>
    (ptr = 0 \<and> m' = m \<and> (sz = 0 \<or> 2 ^ 32 - 8 < sz \<or>
        (\<forall>(b, n, f) \<in> set bs. f \<longrightarrow> n < search_size (request sz) \<and> 32 * search_size (request sz) \<le> 33 * request sz)) \<or>
     (\<exists>b n. ptr = b + 16 \<and> (b, n, True) \<in> set bs \<and> sz \<le> request sz \<and> request sz < sz + 24 \<and> request sz \<le> n \<and>
        heap c p e m' (take_block bs b (request sz)) \<and> same_outside (owned c p e bs) m m'))"
proof -
  have small: "request sz < sz + 24" if "sz \<le> request sz"
    using request_range(5) [of sz] by (cases "request sz = 0") simp_all
  show ?thesis using malloc_heap [OF assms] search_size_bounds(2) [of "request sz"] small by fastforce
qed

theorem tlsf_malloc_spec_witness:
  "\<exists>ptr m'. tlsf_malloc sample_bytes 4096 100 = Some (ptr, m') \<and> ptr = 10640 \<and>
    heap 4096 10624 12272 m' [(10624, 104, False), (10736, 1528, True)]"
proof -
  have "request 100 = 104" "search_size 104 = 104" by (simp_all add: request_def search_size_def)
  moreover have "take_block [(10624, 1640, True)] 10624 104 = [(10624, 104, False), (10736, 1528, True)]"
    by (simp add: take_block_def cut_def)
  ultimately show ?thesis using tlsf_malloc_spec [OF sample_heap, of 100] by auto
qed

text \<open>
  C4: \<open>tlsf_free\<close> of a block in use returns; the heap is the one in which the block is free and
  adjacent free blocks are one, and no byte of another block in use changes.
\<close>

theorem tlsf_free_spec:
  assumes "heap c p e m bs" "(b, n, False) \<in> set bs"
  shows "\<exists>m'. tlsf_free m c (b + 16) = Some m' \<and> heap c p e m' (release bs b) \<and>
    used_blocks (release bs b) = used_blocks bs - {(b, n)} \<and>
    same_outside (owned c p e bs \<union> {b + 16 ..< b + 16 + n}) m m'"
  using free_heap [OF assms] used_release [of c p e m bs "{}" b n] assms by (simp add: heap_def)

theorem tlsf_free_spec_witness:
  "\<exists>m m'. heap 4096 10624 12272 m [(10624, 104, False), (10736, 1528, True)] \<and>
    tlsf_free m 4096 10640 = Some m' \<and> heap 4096 10624 12272 m' [(10624, 1640, True)]"
proof -
  obtain m where m: "heap 4096 10624 12272 m [(10624, 104, False), (10736, 1528, True)]" using sample_used ..
  have "release [(10624, 104, False), (10736, 1528, True)] 10624 = [(10624, 1640, True)]" by (simp add: release_def)
  then show ?thesis using tlsf_free_spec [OF m, of 10624 104] m by auto
qed

text \<open>
  C10: \<open>tlsf_realloc\<close> of a block in use to a size it can serve returns null and changes nothing, or
  returns a block that is large enough and has the contents of the old one up to the smaller
  size; the other blocks in use are the same and none of their bytes changes.
\<close>

theorem tlsf_realloc_spec:
  assumes "heap c p e m bs" "(b, n, False) \<in> set bs" "0 < sz" "sz \<le> 2 ^ 32 - 8"
  shows "\<exists>q m'. tlsf_realloc m c (b + 16) sz = Some (q, m') \<and> (q = 0 \<and> m' = m \<or> realloc_post c p e m bs b n sz q m')"
  using assms by (rule realloc_heap)

theorem tlsf_realloc_spec_witness:
  "\<exists>m q m'. heap 4096 10624 12272 m [(10624, 104, False), (10736, 1528, True)] \<and>
    tlsf_realloc m 4096 10640 200 = Some (q, m') \<and>
    (q = 0 \<and> m' = m \<or> realloc_post 4096 10624 12272 m [(10624, 104, False), (10736, 1528, True)] 10624 104 200 q m')"
proof -
  obtain m where m: "heap 4096 10624 12272 m [(10624, 104, False), (10736, 1528, True)]" using sample_used ..
  show ?thesis using tlsf_realloc_spec [OF m, of 10624 104 200] m by auto
qed

text \<open>
  C16: \<open>tlsf_memalign\<close> for a power of two returns null and changes nothing, which it does only if no free
  block has twice the size with room for two gaps, or returns a multiple
  of it that starts a new block which is large enough; the blocks in use before are the same
  and none of their bytes changes.
\<close>

theorem tlsf_memalign_spec:
  assumes "heap c p e m bs" "sz + 7 < 2 ^ 64" "a \<le> 32" "e + 2 * 2 ^ a + 64 < 2 ^ 64"
  shows "\<exists>q m'. tlsf_memalign m c (2 ^ a) sz = Some (q, m') \<and>
    (q = 0 \<and> m' = m \<and> (0 < sz \<longrightarrow> sz + 2 * 2 ^ a + 64 < 2 ^ 32 \<longrightarrow>
       (\<forall>b n. (b, n, True) \<in> set bs \<longrightarrow> n < 2 * (sz + 2 * 2 ^ a + 64))) \<or>
     2 ^ a dvd q \<and> alloc_post c p e m bs sz q m')"
  using assms by (rule memalign_heap)

theorem tlsf_memalign_spec_witness:
  "\<exists>q m'. tlsf_memalign sample_bytes 4096 256 100 = Some (q, m') \<and>
    256 dvd q \<and> alloc_post 4096 10624 12272 sample_bytes [(10624, 1640, True)] 100 q m'"
  using tlsf_memalign_spec [OF sample_heap, of 100 8] by simp

text \<open>
  C14: \<open>tlsf_create_with_pool\<close> on aligned memory of at most 4 GiB that has room for the control
  structure and a block makes a consistent heap of one free block, and writes only that memory.
\<close>

theorem tlsf_create_with_pool_spec:
  assumes "8 dvd mem" "mem \<noteq> 0" "6576 \<le> bytes" "bytes \<le> 2 ^ 32" "mem + bytes + 8 < 2 ^ 64"
  shows "\<exists>m' n. tlsf_create_with_pool m mem bytes = Some (mem, m') \<and> bytes < n + 6560 \<and> n + 6552 \<le> bytes \<and>
    heap mem (mem + 6528) (mem + 6536 + n) m' [(mem + 6528, n, True)] \<and> same_outside {mem ..< mem + bytes} m m'"
proof -
  let ?n = "8 * ((bytes - 6552) div 8)"
  have "?n + (bytes - 6552) mod 8 = bytes - 6552" "(bytes - 6552) mod 8 < 8" by simp_all
  then have "bytes < ?n + 6560" "?n + 6552 \<le> bytes" using assms(3) by linarith+
  then show ?thesis using create_heap [OF assms refl, of m] by blast
qed

theorem tlsf_create_with_pool_spec_witness:
  "\<exists>m' n. tlsf_create_with_pool (\<lambda>_. 0) 4096 8192 = Some (4096, m') \<and> n + 6552 \<le> 8192 \<and>
    heap 4096 10624 (10632 + n) m' [(10624, n, True)]"
  using tlsf_create_with_pool_spec [of 4096 8192 "\<lambda>_. 0"] by auto

text \<open>
  C17: the checks accept every consistent heap: \<open>tlsf_check\<close> and \<open>tlsf_check_pool\<close> return 0, and
  \<open>tlsf_walk_pool\<close> calls its walker on the blocks in address order, once each.
\<close>

theorem tlsf_checks_accept:
  assumes "heap c p e m bs"
  shows "tlsf_check m c = Some 0 \<and> tlsf_check_pool m (p + 8) = Some 0 \<and>
    tlsf_walk_pool m (p + 8) (Some (\<lambda>ptr sz used u. Some (u @ [(ptr, sz, used)]))) us =
      Some (us @ map (\<lambda>(b, n, f). (b + 16, n, \<not> f)) bs)"
proof -
  have "visit (\<lambda>ptr sz used u. Some (u @ [(ptr, sz, used)])) xs us = Some (us @ map (\<lambda>(b, n, f). (b + 16, n, \<not> f)) xs)" for xs
    by (induction xs arbitrary: us) auto
  then show ?thesis using check_heap [OF assms] check_pool_heap [OF assms] by (simp add: walk_pool_visits [OF assms])
qed

theorem tlsf_checks_accept_witness:
  "tlsf_check sample_bytes 4096 = Some 0 \<and> tlsf_check_pool sample_bytes 10632 = Some 0"
  using tlsf_checks_accept [OF sample_heap, of "[]"] by simp

end
