(* ===== verification/Heap_Interface.thy ===== *)
theory Heap_Interface
  imports Allocator_Interface
begin

text \<open>
  The contract of a heap whose \<open>free\<close> may only be called on a live block, as C programs use one.
  Calls may fail to return (\<open>None\<close>); the provider promises that they return on the requests it
  serves and on live blocks, that blocks are large enough and apart, and that the bytes of a
  block stay until it is freed. The client lemmas are about legal sequences of requests.
\<close>

locale heap_allocator =
  fixes ok :: "'s \<Rightarrow> bool"
    and live :: "'s \<Rightarrow> blocks"
    and byte_at :: "'s \<Rightarrow> addr \<Rightarrow> 'b"
    and malloc :: "'s \<Rightarrow> 'n \<Rightarrow> (addr \<times> 's) option"
    and dealloc :: "'s \<Rightarrow> addr \<Rightarrow> 's option"
    and room :: "'n \<Rightarrow> nat option"
  assumes malloc_law: "ok s \<Longrightarrow> room n = Some k \<Longrightarrow> \<exists>p s'. malloc s n = Some (p, s') \<and> ok s' \<and>
      (p = 0 \<and> s' = s \<or> (\<exists>sz \<ge> k. p \<noteq> 0 \<and> live s' = insert (p, sz) (live s) \<and> (p, sz) \<notin> live s \<and>
        (\<forall>a \<in> live s. \<forall>x \<in> extent a. byte_at s' x = byte_at s x)))"
    and dealloc_law: "ok s \<Longrightarrow> (p, sz) \<in> live s \<Longrightarrow> \<exists>s'. dealloc s p = Some s' \<and> ok s' \<and>
      live s' = live s - {(p, sz)} \<and> (\<forall>a \<in> live s'. \<forall>x \<in> extent a. byte_at s' x = byte_at s x)"
    and live_nonempty: "ok s \<Longrightarrow> a \<in> live s \<Longrightarrow> fst a \<noteq> 0 \<and> snd a \<noteq> 0"
    and live_disjoint: "ok s \<Longrightarrow> a \<in> live s \<Longrightarrow> b \<in> live s \<Longrightarrow> a \<noteq> b \<Longrightarrow> extent a \<inter> extent b = {}"
begin

fun run :: "'s \<Rightarrow> ('n + addr) list \<Rightarrow> 's option" where
  "run s [] = Some s"
| "run s (Inl n # rs) = (case malloc s n of None \<Rightarrow> None | Some (p, s') \<Rightarrow> run s' rs)"
| "run s (Inr p # rs) = (case dealloc s p of None \<Rightarrow> None | Some s' \<Rightarrow> run s' rs)"

text \<open>The requests are served, and what is freed is live at that moment.\<close>

fun legal :: "'s \<Rightarrow> ('n + addr) list \<Rightarrow> bool" where
  "legal s [] = True"
| "legal s (Inl n # rs) = (room n \<noteq> None \<and> (case malloc s n of None \<Rightarrow> True | Some (p, s') \<Rightarrow> legal s' rs))"
| "legal s (Inr p # rs) = (p \<in> fst ` live s \<and> (case dealloc s p of None \<Rightarrow> True | Some s' \<Rightarrow> legal s' rs))"

lemma new_block_apart:
  assumes "ok s" "room n = Some k" "malloc s n = Some (p, s')" "p \<noteq> 0" "a \<in> live s"
  obtains sz where "k \<le> sz" "(p, sz) \<in> live s'" "extent (p, sz) \<inter> extent a = {}"
proof -
  obtain sz where sz: "k \<le> sz" "live s' = insert (p, sz) (live s)" "(p, sz) \<notin> live s" "ok s'"
    using malloc_law [OF assms(1,2)] assms(3,4) by auto
  moreover have "extent (p, sz) \<inter> extent a = {}"
    using live_disjoint [OF sz(4), of "(p, sz)" a] sz(2,3) assms(5) by auto
  ultimately show thesis using that by blast
qed

text \<open>A legal sequence of requests returns and keeps the state sound; blocks it does not free keep their bytes.\<close>

lemma run_safe:
  assumes "ok s" "legal s rs"
  shows "\<exists>s'. run s rs = Some s' \<and> ok s' \<and>
    (\<forall>a \<in> live s. Inr (fst a) \<notin> set rs \<longrightarrow> a \<in> live s' \<and> (\<forall>x \<in> extent a. byte_at s' x = byte_at s x))"
  using assms
proof (induction s rs rule: run.induct)
  case (2 s n rs)
  obtain k where k: "room n = Some k" using 2(3) by auto
  obtain p s1 where s1: "malloc s n = Some (p, s1)" "ok s1" "live s \<subseteq> live s1"
    "\<forall>a \<in> live s. \<forall>x \<in> extent a. byte_at s1 x = byte_at s x"
    using malloc_law [OF 2(2) k] by auto
  have "legal s1 rs" using 2(3) s1(1) by simp
  from 2(1) [OF s1(1) refl s1(2) this] obtain s' where s': "run s1 rs = Some s'" "ok s'"
    "\<forall>a \<in> live s1. Inr (fst a) \<notin> set rs \<longrightarrow> a \<in> live s' \<and> (\<forall>x \<in> extent a. byte_at s' x = byte_at s1 x)" by blast
  have "a \<in> live s' \<and> (\<forall>x \<in> extent a. byte_at s' x = byte_at s x)" if "a \<in> live s" "Inr (fst a) \<notin> set rs" for a
  proof -
    have "a \<in> live s1" using that(1) s1(3) by blast
    then show ?thesis using s'(3) s1(4) that by simp
  qed
  then show ?case using s1(1) s'(1,2) by simp
next
  case (3 s p rs)
  obtain sz where sz: "(p, sz) \<in> live s" using 3(3) by auto
  obtain s1 where s1: "dealloc s p = Some s1" "ok s1" "live s1 = live s - {(p, sz)}"
    "\<forall>a \<in> live s1. \<forall>x \<in> extent a. byte_at s1 x = byte_at s x"
    using dealloc_law [OF 3(2) sz] by blast
  have "legal s1 rs" using 3(3) s1(1) by simp
  from 3(1) [OF s1(1) s1(2) this] obtain s' where s': "run s1 rs = Some s'" "ok s'"
    "\<forall>a \<in> live s1. Inr (fst a) \<notin> set rs \<longrightarrow> a \<in> live s' \<and> (\<forall>x \<in> extent a. byte_at s' x = byte_at s1 x)" by blast
  have "a \<in> live s' \<and> (\<forall>x \<in> extent a. byte_at s' x = byte_at s x)"
    if "a \<in> live s" "Inr (fst a) \<notin> set (Inr p # rs)" for a
  proof -
    have "a \<noteq> (p, sz)" using that(2) by (cases a) simp
    then have "a \<in> live s1" using that(1) unfolding s1(3) by blast
    then show ?thesis using s'(3) s1(4) that(2) by simp
  qed
  then show ?case using s1(1) s'(1,2) by simp
qed simp

end

end
