(* ===== verification/Kheap.thy ===== *)
theory Kheap
  imports Tlsf_Properties Heap_Interface Phys
begin

text \<open>
  The kernel heap of \<open>src/kernel/mm/alloc.c\<close>: a pool of 512 MiB taken from the page frame
  allocator and served by TLSF. Its state is the handle \<open>tlsf\<close> and the byte memory. Sizes are
  C integers, converted to \<open>size_t\<close> on the way to TLSF. \<open>None\<close> is a panic, a failed assertion
  or a lock that is never released.
\<close>

record kheap =
  kh_tlsf :: addr
  kh_mem :: bytes

definition TLSF_POOL_SIZE :: nat where "TLSF_POOL_SIZE = 512 * 1024 * 1024"

definition size_arg :: "int \<Rightarrow> size_t" where
  "size_arg sz = nat (sz mod 2 ^ 64)"

definition with_mem :: "kheap \<Rightarrow> ('a \<times> bytes) option \<Rightarrow> ('a \<times> kheap) option" where
  "with_mem h r = map_option (\<lambda>(x, m). (x, h\<lparr>kh_mem := m\<rparr>)) r"

definition alloc_init :: "pmm \<Rightarrow> kheap \<Rightarrow> (pmm \<times> kheap) option" where
  "alloc_init s h =
     (if kh_tlsf h \<noteq> 0 then Some (s, h)
      else do { (page, s, m) \<leftarrow> arch_alloc_page_sz s (kh_mem h) TLSF_POOL_SIZE;
                (tlsf, m) \<leftarrow> tlsf_create_with_pool m page TLSF_POOL_SIZE;
                insist (tlsf \<noteq> 0);
                Some (s, \<lparr>kh_tlsf = tlsf, kh_mem = m\<rparr>) })"

definition alloc :: "kheap \<Rightarrow> int \<Rightarrow> (addr \<times> kheap) option" where
  "alloc h sz = with_mem h (tlsf_malloc (kh_mem h) (kh_tlsf h) (size_arg sz))"

definition alloc_aligned :: "kheap \<Rightarrow> int \<Rightarrow> int \<Rightarrow> (addr \<times> kheap) option" where
  "alloc_aligned h sz align = with_mem h (tlsf_memalign (kh_mem h) (kh_tlsf h) (size_arg align) (size_arg sz))"

definition realloc :: "kheap \<Rightarrow> addr \<Rightarrow> int \<Rightarrow> (addr \<times> kheap) option" where
  "realloc h ptr sz = with_mem h (tlsf_realloc (kh_mem h) (kh_tlsf h) ptr (size_arg sz))"

definition calloc :: "kheap \<Rightarrow> int \<Rightarrow> (addr \<times> kheap) option" where
  "calloc h sz =
     do { (ptr, h) \<leftarrow> with_mem h (tlsf_malloc (kh_mem h) (kh_tlsf h) (size_arg sz));
          let h = (if ptr \<noteq> 0 then h\<lparr>kh_mem := fst (memset (kh_mem h) ptr 0 (size_arg sz))\<rparr> else h);
          Some (ptr, h) }"

definition free :: "kheap \<Rightarrow> addr \<Rightarrow> int \<Rightarrow> kheap option" where
  "free h ptr sz = map_option (\<lambda>m. h\<lparr>kh_mem := m\<rparr>) (tlsf_free (kh_mem h) (kh_tlsf h) ptr)"

section \<open>The state\<close>

text \<open>The pool lies behind the control structure; its blocks are determined by the memory.\<close>

definition kheap_blocks :: "kheap \<Rightarrow> addr \<Rightarrow> tlsf_block list \<Rightarrow> bool" where
  "kheap_blocks h e bs \<longleftrightarrow> heap (kh_tlsf h) (kh_tlsf h + 6528) e (kh_mem h) bs"

definition kheap_ok :: "kheap \<Rightarrow> bool" where
  "kheap_ok h \<longleftrightarrow> (\<exists>e bs. kheap_blocks h e bs)"

definition kheap_live :: "kheap \<Rightarrow> blocks" where
  "kheap_live h = {(q, n). \<exists>e bs b. kheap_blocks h e bs \<and> (b, n) \<in> used_blocks bs \<and> q = b + 16}"

definition kheap_room :: "int \<Rightarrow> nat option" where
  "kheap_room sz = (if 0 \<le> sz \<and> sz < 2 ^ 31 then Some (nat sz) else None)"

lemma layout_unique: "layout m b pf bs e \<Longrightarrow> layout m b pf' bs' e' \<Longrightarrow> bs' = bs \<and> e' = e"
proof (induction m b pf bs e arbitrary: pf' bs' rule: layout.induct)
  case (1 m b pf e)
  show ?case
  proof (cases bs')
    case (Cons y ys)
    obtain x n f where y: "y = (x, n, f)" by (cases y)
    then have "size_field m b = hdr n f pf'" "24 \<le> n" "4 dvd n" using 1(2) Cons dvd_8_4 by auto
    then show ?thesis using 1(1) header_ops(1) [of m b 0 False pf] header_ops(1) [of m b n f pf'] by simp
  qed (use 1 in auto)
next
  case (2 m b pf x n f bs e)
  have l: "size_field m b = hdr n f pf" "24 \<le> n" "4 dvd n" "x = b" using 2(2) dvd_8_4 by auto
  show ?case
  proof (cases bs')
    case Nil
    then have "size_field m b = hdr 0 False pf'" using 2(3) by auto
    then show ?thesis using l header_ops(1) [of m b 0 False pf'] header_ops(1) [of m b n f pf] by simp
  next
    case (Cons y ys)
    obtain x' n' f' where y: "y = (x', n', f')" by (cases y)
    then have l': "size_field m b = hdr n' f' pf'" "4 dvd n'" "x' = b" using 2(3) Cons dvd_8_4 by auto
    have "n' = n" "f' = f"
      using header_ops(1,2) [of m b n f pf] header_ops(1,2) [of m b n' f' pf'] l l' by simp_all
    then show ?thesis using 2 Cons y l(4) l'(3) by auto
  qed
qed

lemma kheap_unique: "kheap_blocks h e bs \<Longrightarrow> kheap_blocks h e' bs' \<Longrightarrow> bs' = bs \<and> e' = e"
  unfolding kheap_blocks_def heap_def by (auto dest!: poolD(1) dest: layout_unique)

lemma kheap_live_eq: "kheap_blocks h e bs \<Longrightarrow> kheap_live h = (\<lambda>(b, n). (b + 16, n)) ` used_blocks bs"
  unfolding kheap_live_def by (auto dest: kheap_unique intro: rev_image_eqI)

lemma kheap_update: "kheap_blocks (h\<lparr>kh_mem := m\<rparr>) e bs \<longleftrightarrow> heap (kh_tlsf h) (kh_tlsf h + 6528) e m bs"
  by (simp add: kheap_blocks_def)

lemma size_arg_nat: "0 \<le> sz \<Longrightarrow> sz < 2 ^ 31 \<Longrightarrow> size_arg sz = nat sz \<and> nat sz < 2 ^ 31"
  by (simp add: size_arg_def)

lemma live_bytes:
  assumes "kheap_blocks h e bs" "a \<in> kheap_live h" "x \<in> extent a"
  shows "x \<notin> owned (kh_tlsf h) (kh_tlsf h + 6528) e bs"
  using assms(2,3) unfolding kheap_live_eq [OF assms(1)] by (auto simp: extent_def dest: used_not_owned)

section \<open>Operations\<close>

lemma malloc_served:
  assumes "heap c p e m bs" "sz + 7 < 2 ^ 64"
  obtains q m' where "tlsf_malloc m c sz = Some (q, m')" "q = 0 \<and> m' = m \<or> alloc_post c p e m bs sz q m'"
proof -
  obtain q m' where q: "tlsf_malloc m c sz = Some (q, m')"
    "q = 0 \<and> m' = m \<or> (\<exists>b n. q = b + 16 \<and> (b, n, True) \<in> set bs \<and> sz \<le> request sz \<and> request sz \<le> n \<and>
        heap c p e m' (take_block bs b (request sz)) \<and> same_outside (owned c p e bs) m m')"
    using malloc_heap [OF assms] by auto
  have a: "tlsf_pool c p e m bs {}" using assms(1) by (simp add: heap_def)
  have "alloc_post c p e m bs sz q m'"
    if r: "q = b + 16" "(b, n, True) \<in> set bs" "sz \<le> request sz" "request sz \<le> n"
      "heap c p e m' (take_block bs b (request sz))" "same_outside (owned c p e bs) m m'" for b n
  proof -
    have "(b, cut_size n (request sz)) \<notin> used_blocks bs"
      using avail_unique(2) [OF a r(2), of _ False] by (auto simp: used_blocks_def)
    moreover have "sz \<le> cut_size n (request sz)" using cut_size_bounds [OF r(4)] r(3) by simp
    ultimately show ?thesis unfolding alloc_post_def using r used_take(1) [OF a r(2,4)] by blast
  qed
  then show thesis using that q by blast
qed

lemma alloc_post_live:
  assumes h: "kheap_blocks h e bs" and post: "alloc_post (kh_tlsf h) (kh_tlsf h + 6528) e (kh_mem h) bs k q m'"
  obtains n where "k \<le> n" "q \<noteq> 0" "kheap_ok (h\<lparr>kh_mem := m'\<rparr>)" "(q, n) \<notin> kheap_live h"
    "kheap_live (h\<lparr>kh_mem := m'\<rparr>) = insert (q, n) (kheap_live h)"
    "\<And>a x. a \<in> kheap_live h \<Longrightarrow> x \<in> extent a \<Longrightarrow> m' x = kh_mem h x"
proof -
  let ?h = "h\<lparr>kh_mem := m'\<rparr>"
  obtain b n bs' where r: "q = b + 16" "kheap_blocks ?h e bs'" "(b, n) \<notin> used_blocks bs"
    "used_blocks bs' = insert (b, n) (used_blocks bs)" "k \<le> n"
    "same_outside (owned (kh_tlsf h) (kh_tlsf h + 6528) e bs) (kh_mem h) m'"
    using post unfolding alloc_post_def kheap_update by blast
  have "kheap_live ?h = insert (q, n) (kheap_live h)"
    unfolding kheap_live_eq [OF h] kheap_live_eq [OF r(2)] r(4) by (simp add: r(1))
  moreover have "(q, n) \<notin> kheap_live h" using r(3) unfolding kheap_live_eq [OF h] r(1) by auto
  moreover have "m' x = kh_mem h x" if "a \<in> kheap_live h" "x \<in> extent a" for a x
    using same_outsideD [OF r(6) live_bytes [OF h that]] .
  moreover have "kheap_ok ?h" using r(2) by (auto simp: kheap_ok_def)
  ultimately show thesis using that r(1,5) by simp
qed

lemma alloc_law:
  assumes "kheap_ok h" "kheap_room sz = Some k"
  shows "\<exists>q h'. alloc h sz = Some (q, h') \<and> kheap_ok h' \<and>
    (q = 0 \<and> h' = h \<or> (\<exists>n \<ge> k. q \<noteq> 0 \<and> kheap_live h' = insert (q, n) (kheap_live h) \<and> (q, n) \<notin> kheap_live h \<and>
      (\<forall>a \<in> kheap_live h. \<forall>x \<in> extent a. kh_mem h' x = kh_mem h x)))"
proof -
  obtain e bs where h: "kheap_blocks h e bs" using assms(1) by (auto simp: kheap_ok_def)
  have k: "size_arg sz = k" "k < 2 ^ 31" using assms(2) size_arg_nat [of sz] by (auto simp: kheap_room_def split: if_splits)
  then have "k + 7 < 2 ^ 64" by simp
  with h obtain q m' where q: "tlsf_malloc (kh_mem h) (kh_tlsf h) k = Some (q, m')"
    "q = 0 \<and> m' = kh_mem h \<or> alloc_post (kh_tlsf h) (kh_tlsf h + 6528) e (kh_mem h) bs k q m'"
    unfolding kheap_blocks_def by (rule malloc_served)
  have run: "alloc h sz = Some (q, h\<lparr>kh_mem := m'\<rparr>)" using q(1) k(1) by (simp add: alloc_def with_mem_def)
  show ?thesis
  proof (cases "q = 0 \<and> m' = kh_mem h")
    case True
    then show ?thesis using run assms(1) by simp
  next
    case False
    with q(2) have "alloc_post (kh_tlsf h) (kh_tlsf h + 6528) e (kh_mem h) bs k q m'" by blast
    with h show ?thesis by (rule alloc_post_live) (use run in auto)
  qed
qed

lemma free_law:
  assumes "kheap_ok h" "(q, n) \<in> kheap_live h"
  shows "\<exists>h'. free h q sz = Some h' \<and> kheap_ok h' \<and> kheap_live h' = kheap_live h - {(q, n)} \<and>
    (\<forall>a \<in> kheap_live h'. \<forall>x \<in> extent a. kh_mem h' x = kh_mem h x)"
proof -
  obtain e bs where h: "kheap_blocks h e bs" using assms(1) by (auto simp: kheap_ok_def)
  then have hp: "heap (kh_tlsf h) (kh_tlsf h + 6528) e (kh_mem h) bs" by (simp add: kheap_blocks_def)
  have a: "tlsf_pool (kh_tlsf h) (kh_tlsf h + 6528) e (kh_mem h) bs {}" using hp by (simp add: heap_def)
  obtain b where b: "q = b + 16" "(b, n, False) \<in> set bs"
    using assms(2) unfolding kheap_live_eq [OF h] by (auto simp: used_blocks_def)
  obtain m' where m': "tlsf_free (kh_mem h) (kh_tlsf h) (b + 16) = Some m'"
    "heap (kh_tlsf h) (kh_tlsf h + 6528) e m' (release bs b)"
    "same_outside (owned (kh_tlsf h) (kh_tlsf h + 6528) e bs \<union> {b + 16 ..< b + 16 + n}) (kh_mem h) m'"
    using free_heap [OF hp b(2)] by blast
  let ?h = "h\<lparr>kh_mem := m'\<rparr>"
  have h': "kheap_blocks ?h e (release bs b)" using m'(2) by (simp add: kheap_update)
  have live: "kheap_live ?h = kheap_live h - {(q, n)}"
    unfolding kheap_live_eq [OF h] kheap_live_eq [OF h'] used_release [OF a b(2)] b(1) by auto
  have "m' x = kh_mem h x" if y: "y \<in> kheap_live ?h" "x \<in> extent y" for y x
  proof (rule same_outsideD [OF m'(3)])
    obtain s j where s: "y = (s + 16, j)" "(s, j, False) \<in> set bs" "(s, j) \<noteq> (b, n)"
      using y(1) unfolding live kheap_live_eq [OF h] b(1) by (auto simp: used_blocks_def)
    have "x \<notin> {b + 16 ..< b + 16 + n}"
      using layout_apart [OF poolD(1) [OF a] s(2) b(2)] s(1,3) y(2) by (auto simp: extent_def)
    moreover have "y \<in> kheap_live h" using y(1) live by blast
    ultimately show "x \<notin> owned (kh_tlsf h) (kh_tlsf h + 6528) e bs \<union> {b + 16 ..< b + 16 + n}"
      using live_bytes [OF h _ y(2)] by blast
  qed
  moreover have "free h q sz = Some ?h" using m'(1) b(1) by (simp add: free_def)
  moreover have "kheap_ok ?h" using h' by (auto simp: kheap_ok_def)
  ultimately show ?thesis using live by auto
qed

interpretation kheap: heap_allocator kheap_ok kheap_live kh_mem alloc "\<lambda>h q. free h q sz" kheap_room
  for sz
proof unfold_locales
  fix h :: kheap
  assume ok: "kheap_ok h"
  show "\<exists>q h'. alloc h z = Some (q, h') \<and> kheap_ok h' \<and>
    (q = 0 \<and> h' = h \<or> (\<exists>n \<ge> k. q \<noteq> 0 \<and> kheap_live h' = insert (q, n) (kheap_live h) \<and> (q, n) \<notin> kheap_live h \<and>
      (\<forall>a \<in> kheap_live h. \<forall>x \<in> extent a. kh_mem h' x = kh_mem h x)))" if "kheap_room z = Some k" for z k
    by (rule alloc_law [OF ok that])
  show "\<exists>h'. free h q sz = Some h' \<and> kheap_ok h' \<and> kheap_live h' = kheap_live h - {(q, n)} \<and>
    (\<forall>a \<in> kheap_live h'. \<forall>x \<in> extent a. kh_mem h' x = kh_mem h x)" if "(q, n) \<in> kheap_live h" for q n
    by (rule free_law [OF ok that])
  obtain e bs where h: "kheap_blocks h e bs" using ok by (auto simp: kheap_ok_def)
  then have a: "tlsf_pool (kh_tlsf h) (kh_tlsf h + 6528) e (kh_mem h) bs {}" by (simp add: kheap_blocks_def heap_def)
  show "fst a \<noteq> 0 \<and> snd a \<noteq> 0" if "a \<in> kheap_live h" for a
    using that pool_range(3) [OF a] unfolding kheap_live_eq [OF h] by (fastforce simp: used_blocks_def)
  show "extent x \<inter> extent y = {}" if xy: "x \<in> kheap_live h" "y \<in> kheap_live h" "x \<noteq> y" for x y
  proof -
    obtain b n b' n' where s: "x = (b + 16, n)" "(b, n, False) \<in> set bs" "y = (b' + 16, n')" "(b', n', False) \<in> set bs"
      using xy(1,2) unfolding kheap_live_eq [OF h] by (auto simp: used_blocks_def)
    then have "b + 8 + n \<le> b' \<or> b' + 8 + n' \<le> b" using layout_apart [OF poolD(1) [OF a] s(2,4)] xy(3) by auto
    then show ?thesis using s(1,3) by (auto simp: extent_def)
  qed
qed

section \<open>Writing to a block, and \<open>calloc\<close>\<close>

lemma kheap_write:
  assumes "kheap_ok h" "a \<in> kheap_live h" "\<And>x. x \<notin> extent a \<Longrightarrow> m' x = kh_mem h x"
  shows "kheap_ok (h\<lparr>kh_mem := m'\<rparr>)" "kheap_live (h\<lparr>kh_mem := m'\<rparr>) = kheap_live h"
proof -
  obtain e bs where h: "kheap_blocks h e bs" using assms(1) by (auto simp: kheap_ok_def)
  obtain b n where b: "a = (b + 16, n)" "(b, n, False) \<in> set bs"
    using assms(2) unfolding kheap_live_eq [OF h] by (auto simp: used_blocks_def)
  have "extent a \<subseteq> used_bytes bs" 
    unfolding b(1) extent_def used_bytes_def using b(2) by (simp add: subset_iff) blast
  then have "same_outside (used_bytes bs) (kh_mem h) m'" using assms(3) by (intro same_outsideI) blast
  then have h': "kheap_blocks (h\<lparr>kh_mem := m'\<rparr>) e bs"
    unfolding kheap_update using h unfolding kheap_blocks_def by (rule heap_client_write [rotated])
  then show "kheap_ok (h\<lparr>kh_mem := m'\<rparr>)" by (auto simp: kheap_ok_def)
  show "kheap_live (h\<lparr>kh_mem := m'\<rparr>) = kheap_live h" unfolding kheap_live_eq [OF h] kheap_live_eq [OF h'] ..
qed

text \<open>
  \<open>calloc\<close> of a size that is not negative returns null and changes nothing, or returns a new
  block that is large enough and whose bytes, as many as were asked for, are 0; no byte of
  another block in use changes.
\<close>

lemma calloc_spec:
  assumes "kheap_ok h" "kheap_room sz = Some k"
  shows "\<exists>q h'. calloc h sz = Some (q, h') \<and> kheap_ok h' \<and>
    (q = 0 \<and> h' = h \<or> (\<exists>n \<ge> k. q \<noteq> 0 \<and> kheap_live h' = insert (q, n) (kheap_live h) \<and>
      (\<forall>i < k. kh_mem h' (q + i) = 0) \<and> (\<forall>a \<in> kheap_live h. \<forall>x \<in> extent a. kh_mem h' x = kh_mem h x)))"
proof -
  obtain q h1 where q: "alloc h sz = Some (q, h1)" "kheap_ok h1"
    "q = 0 \<and> h1 = h \<or> (\<exists>n \<ge> k. q \<noteq> 0 \<and> kheap_live h1 = insert (q, n) (kheap_live h) \<and> (q, n) \<notin> kheap_live h \<and>
      (\<forall>a \<in> kheap_live h. \<forall>x \<in> extent a. kh_mem h1 x = kh_mem h x))" using alloc_law [OF assms] by blast
  have k: "size_arg sz = k" using assms(2) size_arg_nat [of sz] by (auto simp: kheap_room_def split: if_splits)
  let ?m = "fst (memset (kh_mem h1) q 0 k)"
  have m: "?m x = (if q \<le> x \<and> x < q + k then 0 else kh_mem h1 x)" for x by (simp add: memset_def memset_loop_eq)
  have run: "calloc h sz = Some (q, if q \<noteq> 0 then h1\<lparr>kh_mem := ?m\<rparr> else h1)"
    using q(1) k by (simp add: calloc_def alloc_def)
  show ?thesis
  proof (cases "q = 0")
    case True
    then show ?thesis using run q by auto
  next
    case False
    then obtain n where n: "k \<le> n" "kheap_live h1 = insert (q, n) (kheap_live h)" "(q, n) \<notin> kheap_live h"
      "\<forall>a \<in> kheap_live h. \<forall>x \<in> extent a. kh_mem h1 x = kh_mem h x" using q(3) by blast
    have mem: "(q, n) \<in> kheap_live h1" using n(2) by simp
    have "?m x = kh_mem h1 x" if "x \<notin> extent (q, n)" for x using that n(1) by (auto simp: m extent_def)
    note w = kheap_write [OF q(2) mem this]
    have "?m x = kh_mem h x" if "a \<in> kheap_live h" "x \<in> extent a" for a x
    proof -
      have "extent (q, n) \<inter> extent a = {}" using kheap.live_disjoint [OF q(2) mem, of a] n(2,3) that(1) by auto
      then have "\<not> (q \<le> x \<and> x < q + k)" using that(2) n(1) by (auto simp: extent_def disjoint_iff)
      then show ?thesis using n(4) that by (auto simp: m)
    qed
    moreover have "\<forall>i < k. ?m (q + i) = 0" by (simp add: m)
    ultimately have "\<exists>n \<ge> k. q \<noteq> 0 \<and> kheap_live (h1\<lparr>kh_mem := ?m\<rparr>) = insert (q, n) (kheap_live h) \<and>
        (\<forall>i < k. ?m (q + i) = 0) \<and> (\<forall>a \<in> kheap_live h. \<forall>x \<in> extent a. ?m x = kh_mem h x)"
      using False w(2) n(1,2) by blast
    then show ?thesis using run False w(1) by simp
  qed
qed

text \<open>The kernel heap over the sample pool, with a block in use.\<close>

lemma sample_kheap: "kheap_ok \<lparr>kh_tlsf = 4096, kh_mem = sample_bytes\<rparr>"
  using sample_heap by (auto simp: kheap_ok_def kheap_blocks_def)

lemma sample_kheap_used: "\<exists>h. kheap_ok h \<and> (10640, 104) \<in> kheap_live h"
proof -
  obtain m where "kheap_blocks \<lparr>kh_tlsf = 4096, kh_mem = m\<rparr> 12272 [(10624, 104, False), (10736, 1528, True)]"
    using sample_used by (auto simp: kheap_blocks_def)
  then have "kheap_ok \<lparr>kh_tlsf = 4096, kh_mem = m\<rparr> \<and> (10640, 104) \<in> kheap_live \<lparr>kh_tlsf = 4096, kh_mem = m\<rparr>"
    using kheap_live_eq by (auto simp: kheap_ok_def)
  then show ?thesis ..
qed

text \<open>
  C9: a sequence of calls of \<open>alloc\<close> with sizes that are not negative and of \<open>free\<close> on blocks in use
  runs to its end, whatever the sizes passed to \<open>free\<close>, and leaves a consistent heap; a block in
  use that the sequence does not free is still in use and has the same bytes.
\<close>

theorem kheap_run_safe:
  assumes "kheap_ok h" "heap_allocator.legal kheap_live alloc (\<lambda>h q. free h q sz) kheap_room h rs"
  shows "\<exists>h'. heap_allocator.run alloc (\<lambda>h q. free h q sz) h rs = Some h' \<and> kheap_ok h' \<and>
    (\<forall>a \<in> kheap_live h. Inr (fst a) \<notin> set rs \<longrightarrow> a \<in> kheap_live h' \<and> (\<forall>x \<in> extent a. kh_mem h' x = kh_mem h x))"
  using assms by (rule kheap.run_safe)

theorem kheap_run_safe_witness:
  "\<exists>h h'. (10640, 104) \<in> kheap_live h \<and>
    heap_allocator.run alloc (\<lambda>h q. free h q 0) h [Inl 50, Inr 10640] = Some h' \<and> kheap_ok h'"
proof -
  obtain h where h: "kheap_ok h" "(10640, 104) \<in> kheap_live h" using sample_kheap_used by blast
  obtain q h1 where q: "alloc h 50 = Some (q, h1)" "kheap_live h \<subseteq> kheap_live h1"
    using alloc_law [OF h(1), of 50 50] by (auto simp: kheap_room_def)
  have "10640 \<in> fst ` kheap_live h1" using h(2) q(2) by force
  then have "heap_allocator.legal kheap_live alloc (\<lambda>h q. free h q 0) kheap_room h [Inl 50, Inr 10640]"
    using q(1) by (simp add: kheap.legal.simps kheap_room_def split: option.splits)
  from kheap_run_safe [OF h(1) this] show ?thesis using h(2) by blast
qed

section \<open>Start\<close>

lemma pool_page:
  assumes s: "pmm_ok s" and f: "find_first_free_block (zone_list s) TLSF_POOL_SIZE = (q, zs)" "q \<noteq> 0"
    and top: "\<And>z. z \<in> set (zone_list s) \<Longrightarrow> zone_start z + zone_len z + 4096 < 2 ^ 64"
  shows "pmm_ok (s\<lparr>zone_list := zs\<rparr>)" "8 dvd q" "q + TLSF_POOL_SIZE + 8 < 2 ^ 64"
    "\<exists>n \<ge> TLSF_POOL_SIZE. block_added (zone_list s) q n zs"
proof -
  have zok: "zones_ok (zone_list s)" and pz: "\<forall>z \<in> set (zone_list s). paged_zone z" using s by (auto simp: pmm_ok_def)
  have big: "4096 \<le> TLSF_POOL_SIZE" by (simp add: TLSF_POOL_SIZE_def)
  note pg = find_block_paged [OF zok pz f(1) big]
  obtain n where n: "zones_ok zs" "TLSF_POOL_SIZE \<le> n" "block_added (zone_list s) q n zs"
    using find_block_spec [OF zok f(1)] f(2) by auto
  show "pmm_ok (s\<lparr>zone_list := zs\<rparr>)" using s n(1) pg by (simp add: pmm_ok_def)
  have "4096 dvd q" using pg f(2) by (simp add: mod_eq_0_iff_dvd)
  moreover have "(8::nat) dvd 4096" by simp
  ultimately show "8 dvd q" by (rule dvd_trans [rotated])
  show "\<exists>n \<ge> TLSF_POOL_SIZE. block_added (zone_list s) q n zs" using n(2,3) by blast
  obtain z where z: "z \<in> set (zone_list s)" "extent (q, n) \<subseteq> zone_range z" using n(3) by (auto simp: block_added_def)
  have "q + n - 1 \<in> extent (q, n)" using n(2) big by (auto simp: extent_def)
  then have "q + n - 1 \<le> zone_start z + zone_len z" using z(2) by (auto simp: zone_range_def)
  then show "q + TLSF_POOL_SIZE + 8 < 2 ^ 64" using top [OF z(1)] n(2) by linarith
qed

lemma arch_alloc_found:
  assumes "pmm_ok s" "find_first_free_block (zone_list s) sz = (q, zs)" "q \<noteq> 0"
  shows "\<exists>m'. arch_alloc_page_sz s m sz = Some (q, s\<lparr>zone_list := zs\<rparr>, m')"
  using assms by (simp add: pmm_ok_def arch_alloc_page_sz_def acquire_lock_def release_lock_def)

text \<open>
  C15: \<open>alloc_init\<close>, when the page frame allocator has a block of the size of the pool, makes a
  consistent heap with no block in use, in a block that was not in use, and a second call changes nothing.
\<close>

theorem alloc_init_spec:
  assumes "pmm_ok s" "kh_tlsf h = 0" "find_first_free_block (zone_list s) TLSF_POOL_SIZE = (q, zs)" "q \<noteq> 0"
    and "\<forall>z \<in> set (zone_list s). zone_start z + zone_len z + 4096 < 2 ^ 64"
  shows "\<exists>s' h'. alloc_init s h = Some (s', h') \<and> pmm_ok s' \<and> kh_tlsf h' = q \<and> kheap_ok h' \<and> kheap_live h' = {} \<and>
    (\<exists>n \<ge> TLSF_POOL_SIZE. block_added (zone_list s) q n (zone_list s')) \<and> alloc_init s' h' = Some (s', h')"
proof -
  let ?n = "8 * ((TLSF_POOL_SIZE - 6552) div 8)" and ?s = "s\<lparr>zone_list := zs\<rparr>"
  have b: "6576 \<le> TLSF_POOL_SIZE" "TLSF_POOL_SIZE \<le> 2 ^ 32" by (simp_all add: TLSF_POOL_SIZE_def)
  have p: "pmm_ok ?s" "8 dvd q" "q + TLSF_POOL_SIZE + 8 < 2 ^ 64"
    "\<exists>n \<ge> TLSF_POOL_SIZE. block_added (zone_list s) q n zs"
    using pool_page [OF assms(1,3,4)] assms(5) by blast+
  obtain m where m: "arch_alloc_page_sz s (kh_mem h) TLSF_POOL_SIZE = Some (q, ?s, m)"
    using arch_alloc_found [OF assms(1,3,4)] by blast
  obtain m' where m': "tlsf_create_with_pool m q TLSF_POOL_SIZE = Some (q, m')"
    "heap q (q + 6528) (q + 6536 + ?n) m' [(q + 6528, ?n, True)]"
    using create_heap [OF p(2) assms(4) b p(3) refl] by blast
  let ?h = "\<lparr>kh_tlsf = q, kh_mem = m'\<rparr>"
  have h': "kheap_blocks ?h (q + 6536 + ?n) [(q + 6528, ?n, True)]" using m'(2) by (simp add: kheap_blocks_def)
  have "alloc_init s h = Some (?s, ?h)" using m m'(1) assms(2,4) by (simp add: alloc_init_def insist_def)
  moreover have "kheap_ok ?h" using h' by (auto simp: kheap_ok_def)
  moreover have "kheap_live ?h = {}" using kheap_live_eq [OF h'] by simp
  ultimately show ?thesis using p assms(4) by (simp add: alloc_init_def)
qed

text \<open>A zone of 1 GiB at 4 GiB.\<close>

definition big_buddy :: buddy where
  "big_buddy = the (the (buddy_init_alignment (\<lambda>_. 0) 65536 (2 ^ 32) (2 ^ 30) 64))"

definition big_pmm :: pmm where
  "big_pmm = \<lparr>zone_list = [\<lparr>zone_buddy = Some big_buddy, zone_start = 2 ^ 32, zone_len = 2 ^ 30,
     page_count = 262144, zone_nr = 0, zone_name = ''Physical memory (Generic-RAM)''\<rparr>], pmm_lock = False\<rparr>"

lemma big_buddy_facts:
  "buddy_inv big_buddy" "live big_buddy = {}" "buddy_main big_buddy = 2 ^ 32"
  "memory_size big_buddy = 2 ^ 30" "alignment big_buddy = 64"
proof -
  have "is_valid_alignment 64" unfolding is_valid_alignment_iff by (rule exI [of _ 6]) simp
  then have "init_pre 65536 (2 ^ 32) (2 ^ 30) 64" by (simp add: init_pre_def)
  then obtain b where b: "buddy_init_alignment (\<lambda>_. 0) 65536 (2 ^ 32) (2 ^ 30) 64 = Some (Some b)" "buddy_inv b" "live b = {}"
    "buddy_main b = 2 ^ 32" "memory_size b = 2 ^ 30 - 2 ^ 30 mod 64" "alignment b = 64" by (rule init_live)
  then have "big_buddy = b" by (simp add: big_buddy_def)
  then show "buddy_inv big_buddy" "live big_buddy = {}" "buddy_main big_buddy = 2 ^ 32"
    "memory_size big_buddy = 2 ^ 30" "alignment big_buddy = 64" using b by simp_all
qed

lemma big_pmm_facts: "pmm_ok big_pmm" "fst (find_first_free_block (zone_list big_pmm) TLSF_POOL_SIZE) \<noteq> 0"
proof -
  note f = big_buddy_facts
  show "pmm_ok big_pmm" using f by (auto simp: pmm_ok_def big_pmm_def zone_ok_def zone_range_def paged_zone_def)
  have "fst (buddy_malloc (Some big_buddy) TLSF_POOL_SIZE) \<noteq> 0"
  proof
    assume z: "fst (buddy_malloc (Some big_buddy) TLSF_POOL_SIZE) = 0"
    have le: "max 1 TLSF_POOL_SIZE \<le> memory_size big_buddy" using f(4) by (simp add: TLSF_POOL_SIZE_def)
    have "slot_size big_buddy TLSF_POOL_SIZE \<le> 2 ^ 23 * 64"
      by (rule slot_size_le [OF f(1) le f(5)]) (simp add: TLSF_POOL_SIZE_def)
    then show False using malloc_null_full [OF f(1) le z, of 0] f(2,4) by simp
  qed
  then show "fst (find_first_free_block (zone_list big_pmm) TLSF_POOL_SIZE) \<noteq> 0"
    by (cases "buddy_malloc (Some big_buddy) TLSF_POOL_SIZE") (auto simp: big_pmm_def TLSF_POOL_SIZE_def)
qed

theorem alloc_init_spec_witness:
  "\<exists>s' h'. alloc_init big_pmm \<lparr>kh_tlsf = 0, kh_mem = (\<lambda>_. 0)\<rparr> = Some (s', h') \<and> pmm_ok s' \<and> kheap_ok h' \<and> kheap_live h' = {}"
proof -
  obtain q zs where f: "find_first_free_block (zone_list big_pmm) TLSF_POOL_SIZE = (q, zs)"
    by (cases "find_first_free_block (zone_list big_pmm) TLSF_POOL_SIZE")
  have "q \<noteq> 0" using big_pmm_facts(2) f by simp
  moreover have "\<forall>z \<in> set (zone_list big_pmm). zone_start z + zone_len z + 4096 < 2 ^ 64" by (simp add: big_pmm_def)
  ultimately show ?thesis using alloc_init_spec [OF big_pmm_facts(1) _ f, of "\<lparr>kh_tlsf = 0, kh_mem = (\<lambda>_. 0)\<rparr>"] by auto
qed

section \<open>Negative sizes\<close>

lemma adjust_wraps:
  assumes "0 < j" "j \<le> 7"
  shows "adjust_request_size (2 ^ 64 - j) ALIGN_SIZE = Some 24"
proof -
  have s: "sub64 8 1 = 7" "sub64 8 (Suc 0) = 7" by (simp_all add: wrap_simps)
  have "(2 ^ 64 - j) + 7 = (7 - j) + (2 ^ 64 :: nat)" using assms by simp
  then have "add64 (2 ^ 64 - j) 7 = (7 - j) mod 2 ^ 64" unfolding add64_def wrap64_def by (simp only: mod_add_self2)
  then have a: "add64 (2 ^ 64 - j) 7 = 7 - j" by simp
  have "and_not (7 - j) 7 = 0" using assms by (simp add: and_not_def and_7)
  moreover have "(8::nat) AND 7 = 0" by (simp add: and_7)
  ultimately have "align_up (2 ^ 64 - j) ALIGN_SIZE = Some 0"
    using a by (simp add: align_up_def tlsf_constants s insist_def)
  moreover have "2 ^ 64 - j \<noteq> 0" using assms by simp
  ultimately show ?thesis by (simp add: adjust_request_size_def block_constants FL_INDEX_MAX_def)
qed

text \<open>
  A call of \<open>alloc\<close> with one of the sizes -7 to -1 is served like a request for 24 bytes: the rounding of
  the size wraps around to 0, which passes the test against the largest block.
\<close>

lemma alloc_negative:
  assumes "- 7 \<le> sz" "sz < 0"
  shows "alloc h sz = alloc h 24"
proof -
  have "sz mod 2 ^ 64 = (sz + 2 ^ 64) mod 2 ^ 64" by simp
  also have "\<dots> = sz + 2 ^ 64" using assms by (intro mod_pos_pos_trivial) simp_all
  finally have "sz mod 2 ^ 64 = sz + 2 ^ 64" .
  then have "size_arg sz = 2 ^ 64 - nat (- sz)" using assms by (simp add: size_arg_def nat_diff_distrib nat_add_distrib)
  moreover have "adjust_request_size (2 ^ 64 - nat (- sz)) ALIGN_SIZE = Some 24" using assms by (intro adjust_wraps) simp_all
  moreover have "adjust_request_size 24 ALIGN_SIZE = Some 24" using adjust_request [of 24] by (simp add: request_def)
  moreover have "size_arg 24 = 24" by (simp add: size_arg_def)
  ultimately show ?thesis by (simp add: alloc_def tlsf_malloc_def)
qed

end
