(* ===== verification/Capability.thy ===== *)
theory Capability
  imports Phys
begin

text \<open>
  Capabilities: \<open>src/kernel/service/capability.c\<close> and \<open>capability.h\<close>, and the capabilities of the
  first task from \<open>src/kernel/kernel.c\<close>. The union of a capability is a datatype; the pool of an
  allocatable region is a pointer to a buddy allocator, kept in a map from addresses.

  Shown: a capability without the right for allocatable regions gives no memory; one with it
  gives zeroed blocks of its own region that do not overlap those given out before; the region
  that becomes allocatable is the whole region, although the first task is meant to get 16 MiB of
  it; and the first task gets at most one allocatable region.
\<close>

section \<open>Types\<close>

record Range =
  range_base :: nat
  range_limit :: nat

datatype CapabilityMemoryRegionType = CAP_MEMORY_REGION_RAM | CAP_MEMORY_REGION_FRAMEBUFFER

definition CAP_BAD :: nat where "CAP_BAD = 0"
definition CAP_READ :: nat where "CAP_READ = 2"
definition CAP_WRITE :: nat where "CAP_WRITE = 4"
definition CAP_MEMORY_REGION :: nat where "CAP_MEMORY_REGION = 8"
definition CAP_ALLOCATABLE_MEMORY_REGION :: nat where "CAP_ALLOCATABLE_MEMORY_REGION = 16"

lemmas cap_rights = CAP_BAD_def CAP_READ_def CAP_WRITE_def CAP_MEMORY_REGION_def CAP_ALLOCATABLE_MEMORY_REGION_def

datatype CapabilityData =
    AllocatableMemoryRegion Range addr
  | MemoryRegion CapabilityMemoryRegionType Range
  | NoData

record Capability =
  cap_type :: nat
  cap_data :: CapabilityData
  cap_revoked :: bool

type_synonym pools = "addr \<rightharpoonup> buddy"

definition CAPABILITY_HAS_ACCESS :: "Capability \<Rightarrow> nat \<Rightarrow> bool" where
  "CAPABILITY_HAS_ACCESS cap access \<longleftrightarrow> cap_type cap AND access = access"

text \<open>The member of the union the code reads; the union was written through the same member.\<close>

fun region_range :: "CapabilityData \<Rightarrow> Range" where
  "region_range (MemoryRegion t r) = r"
| "region_range (AllocatableMemoryRegion r p) = r"
| "region_range NoData = \<lparr>range_base = 0, range_limit = 0\<rparr>"

fun region_pool :: "CapabilityData \<Rightarrow> addr" where
  "region_pool (AllocatableMemoryRegion r p) = p"
| "region_pool _ = 0"

section \<open>Operations\<close>

definition capability_create :: "nat \<Rightarrow> CapabilityData \<Rightarrow> bool \<Rightarrow> Capability" where
  "capability_create type data revoked = \<lparr>cap_type = type, cap_data = data, cap_revoked = revoked\<rparr>"

text \<open>The size is an \<open>int\<close>: it is cut to 32 bits and extended with its sign.\<close>

definition int_to_size :: "nat \<Rightarrow> nat" where
  "int_to_size sz = (if sz mod 2 ^ 32 < 2 ^ 31 then sz mod 2 ^ 32 else 2 ^ 64 - 2 ^ 32 + sz mod 2 ^ 32)"

definition capability_create_memory_region ::
  "addr \<Rightarrow> nat \<Rightarrow> bool \<Rightarrow> CapabilityMemoryRegionType \<Rightarrow> Capability" where
  "capability_create_memory_region region sz rw type =
     capability_create ((if rw then CAP_WRITE else 0) OR CAP_READ OR CAP_MEMORY_REGION)
       (MemoryRegion type \<lparr>range_base = region, range_limit = int_to_size sz\<rparr>) False"

text \<open>\<open>None\<close>: the embedding of the pool leaves the bounds of its arrays.\<close>

definition capability_make_region_allocatable ::
  "nat \<Rightarrow> bytes \<Rightarrow> pools \<Rightarrow> Capability \<Rightarrow> (Capability \<times> pools) option" where
  "capability_make_region_allocatable hhdm mem pools region_cap =
     (if \<not> CAPABILITY_HAS_ACCESS region_cap CAP_MEMORY_REGION
      then Some (capability_create CAP_BAD NoData False, pools)
      else let range = region_range (cap_data region_cap)
           in case buddy_embed mem (va hhdm (range_base range)) (range_limit range) of
                None \<Rightarrow> None
              | Some b \<Rightarrow>
                  let pool = (case b of None \<Rightarrow> 0 | Some b \<Rightarrow> buddy_at b);
                      pools = (case b of None \<Rightarrow> pools | Some b \<Rightarrow> pools(pool \<mapsto> b))
                  in Some (capability_create (CAP_ALLOCATABLE_MEMORY_REGION OR CAP_READ OR CAP_WRITE)
                             (AllocatableMemoryRegion range pool) False, pools))"

definition pool_at :: "pools \<Rightarrow> addr \<Rightarrow> buddy option" where
  "pool_at pools p = (if p = 0 then None else pools p)"

definition capability_alloc_from :: "pools \<Rightarrow> bytes \<Rightarrow> Capability \<Rightarrow> size_t \<Rightarrow> addr \<times> pools \<times> bytes" where
  "capability_alloc_from pools mem cap sz =
     (if \<not> CAPABILITY_HAS_ACCESS cap CAP_ALLOCATABLE_MEMORY_REGION then (0, pools, mem)
      else let pool = region_pool (cap_data cap);
               (ptr, b) = buddy_malloc (pool_at pools pool) sz;
               mem = (if ptr \<noteq> 0 then fst (memset mem ptr 0 sz) else mem)
           in (ptr, if pool = 0 then pools else pools(pool := b), mem))"

definition capablity_free_from :: "pools \<Rightarrow> Capability \<Rightarrow> addr \<Rightarrow> pools" where
  "capablity_free_from pools cap ptr =
     (if \<not> CAPABILITY_HAS_ACCESS cap CAP_ALLOCATABLE_MEMORY_REGION then pools
      else let pool = region_pool (cap_data cap)
           in if pool = 0 then pools else pools(pool := buddy_free (pool_at pools pool) ptr))"

section \<open>The first task\<close>

text \<open>The loop of \<open>setup_init_task_capabilities\<close>; \<open>None\<close> also stands for a panic and for a held lock.\<close>

fun setup_capabilities ::
  "nat \<Rightarrow> bytes \<Rightarrow> pmm \<Rightarrow> pools \<Rightarrow> bool \<Rightarrow> MemoryMapEntry list \<Rightarrow> (Capability list \<times> pmm \<times> pools) option" where
  "setup_capabilities hhdm mem a pools has_allocatable_region [] = Some ([], a, pools)"
| "setup_capabilities hhdm mem a pools has_allocatable_region (e # es) =
     (if mm_type e \<noteq> HANDOVER_MEMMAP_USABLE \<and> mm_type e \<noteq> HANDOVER_MEMMAP_FRAMEBUFFER \<or> mm_length e = PAGE_SIZE
      then setup_capabilities hhdm mem a pools has_allocatable_region es
      else let region_type = (if mm_type e = HANDOVER_MEMMAP_USABLE then CAP_MEMORY_REGION_RAM
                              else CAP_MEMORY_REGION_FRAMEBUFFER);
               region_cap = capability_create_memory_region (mm_base e) (mm_length e) True region_type
           in if mm_length e \<ge> MiB 16 \<and> \<not> has_allocatable_region
              then case arch_reserve_range a (mm_base e) (MiB 16) of
                     None \<Rightarrow> None
                   | Some a \<Rightarrow>
                       (case capability_make_region_allocatable hhdm mem pools region_cap of
                          None \<Rightarrow> None
                        | Some (allocatable_region_cap, pools) \<Rightarrow>
                            let r = region_range (cap_data region_cap);
                                region_cap = region_cap\<lparr>cap_data := MemoryRegion region_type
                                  \<lparr>range_base = add64 (range_base r) (MiB 16),
                                   range_limit = sub64 (range_limit r) (MiB 16)\<rparr>\<rparr>
                            in if cap_type allocatable_region_cap = CAP_BAD then None
                               else map_option (\<lambda>(caps, s). (allocatable_region_cap # region_cap # caps, s))
                                      (setup_capabilities hhdm mem a pools True es))
              else map_option (\<lambda>(caps, s). (region_cap # caps, s))
                     (setup_capabilities hhdm mem a pools has_allocatable_region es))"

definition setup_init_task_capabilities ::
  "nat \<Rightarrow> bytes \<Rightarrow> pmm \<Rightarrow> pools \<Rightarrow> MemoryMapEntry list \<Rightarrow> (Capability list \<times> pmm \<times> pools) option" where
  "setup_init_task_capabilities hhdm mem a pools memory_map = setup_capabilities hhdm mem a pools False memory_map"

section \<open>Rights\<close>

lemma region_cap_access [simp]:
  "CAPABILITY_HAS_ACCESS (capability_create_memory_region r sz rw t) CAP_MEMORY_REGION"
  "\<not> CAPABILITY_HAS_ACCESS (capability_create_memory_region r sz rw t) CAP_ALLOCATABLE_MEMORY_REGION"
  "CAPABILITY_HAS_ACCESS (capability_create_memory_region r sz rw t) CAP_WRITE \<longleftrightarrow> rw"
  by (cases rw; simp add: CAPABILITY_HAS_ACCESS_def capability_create_memory_region_def capability_create_def cap_rights)+

lemma alloc_cap_access [simp]:
  "CAPABILITY_HAS_ACCESS (capability_create (CAP_ALLOCATABLE_MEMORY_REGION OR CAP_READ OR CAP_WRITE) d b)
     CAP_ALLOCATABLE_MEMORY_REGION"
  by (simp add: CAPABILITY_HAS_ACCESS_def capability_create_def cap_rights)

text \<open>The number of allocatable regions among the capabilities of the first task.\<close>

definition allocatable_caps :: "Capability list \<Rightarrow> Capability list" where
  "allocatable_caps caps = filter (\<lambda>c. CAPABILITY_HAS_ACCESS c CAP_ALLOCATABLE_MEMORY_REGION) caps"

lemma setup_allocatable:
  "setup_capabilities hhdm mem a pools has es = Some (caps, a', pools') \<Longrightarrow>
   length (allocatable_caps caps) \<le> (if has then 0 else 1)"
proof (induction es arbitrary: a pools has caps)
  case (Cons e es)
  have mem_cap: "\<not> CAPABILITY_HAS_ACCESS (capability_create_memory_region r sz rw t\<lparr>cap_data := d\<rparr>) CAP_ALLOCATABLE_MEMORY_REGION"
    for r sz rw t d
    using region_cap_access(2) [of r sz rw t] by (simp add: CAPABILITY_HAS_ACCESS_def)
  show ?case using Cons.prems Cons.IH
    by (auto simp: Let_def allocatable_caps_def mem_cap split: if_splits option.splits prod.splits)
      (fastforce simp: allocatable_caps_def)+
qed (simp add: allocatable_caps_def)

section \<open>Properties\<close>

text \<open>
  A capability without the right to an allocatable region allocates and releases nothing.
\<close>

lemma capability_confined:
  assumes "\<not> CAPABILITY_HAS_ACCESS cap CAP_ALLOCATABLE_MEMORY_REGION"
  shows "capability_alloc_from pools mem cap sz = (0, pools, mem) \<and> capablity_free_from pools cap ptr = pools"
  using assms by (simp add: capability_alloc_from_def capablity_free_from_def)

text \<open>
  C32: an allocation through a capability with the right either fails and changes nothing, or
  returns a block of the capability's own pool: inside the arena, disjoint from all blocks given
  out before, and zeroed for the requested length; nothing else is written and no other pool
  changes.
\<close>

theorem capability_alloc_from_spec:
  assumes "CAPABILITY_HAS_ACCESS cap CAP_ALLOCATABLE_MEMORY_REGION" "region_pool (cap_data cap) = p" "p \<noteq> 0"
    and "pools p = Some b" "buddy_inv b"
  shows "case capability_alloc_from pools mem cap sz of (ptr, pools', mem') \<Rightarrow>
    \<exists>b'. pools' = pools(p \<mapsto> b') \<and> buddy_inv b' \<and>
      (if ptr = 0 then b' = b \<and> mem' = mem
       else \<exists>n \<ge> sz. extent (ptr, n) \<subseteq> {buddy_main b ..< buddy_main b + memory_size b} \<and>
         live b' = insert (ptr, n) (live b) \<and> (\<forall>x \<in> live b. extent (ptr, n) \<inter> extent x = {}) \<and>
         mem' = (\<lambda>a. if ptr \<le> a \<and> a < ptr + sz then 0 else mem a))"
proof -
  obtain ptr bp where m: "buddy_malloc (Some b) sz = (ptr, bp)" by (cases "buddy_malloc (Some b) sz")
  have run: "capability_alloc_from pools mem cap sz =
      (ptr, pools(p := bp), if ptr \<noteq> 0 then memset_loop mem ptr 0 sz else mem)"
    using assms m by (simp add: capability_alloc_from_def pool_at_def memset_def)
  show ?thesis
  proof (cases "ptr = 0")
    case True
    from assms(5) m show ?thesis by (cases rule: malloc_live) (use run True m assms(4,5) in auto)
  next
    case False
    show ?thesis by (rule malloc_block [OF assms(5) m False]) (use run False in \<open>auto simp: memset_loop_eq\<close>)
  qed
qed

definition sample_region_cap :: Capability where
  "sample_region_cap = capability_create (CAP_ALLOCATABLE_MEMORY_REGION OR CAP_READ OR CAP_WRITE)
     (AllocatableMemoryRegion \<lparr>range_base = 4096, range_limit = 960\<rparr> 65536) False"

theorem capability_alloc_from_spec_witness:
  "case capability_alloc_from [65536 \<mapsto> sample_buddy] (\<lambda>_. 1) sample_region_cap 100 of (ptr, pools', mem') \<Rightarrow>
    ptr \<noteq> 0 \<and> mem' ptr = 0 \<and> (\<exists>n b'. pools' = [65536 \<mapsto> b'] \<and> live b' = {(ptr, n)} \<and> extent (ptr, n) \<subseteq> {4096 ..< 5056})"
proof -
  have "fst (capability_alloc_from [65536 \<mapsto> sample_buddy] (\<lambda>_. 1) sample_region_cap 100) \<noteq> 0"
    using sample_malloc_serves [of 100]
    by (auto simp: capability_alloc_from_def sample_region_cap_def pool_at_def capability_create_def
        alloc_cap_access [unfolded capability_create_def] split: prod.splits)
  moreover have "CAPABILITY_HAS_ACCESS sample_region_cap CAP_ALLOCATABLE_MEMORY_REGION"
    "region_pool (cap_data sample_region_cap) = 65536"
    by (simp_all add: sample_region_cap_def) (simp add: capability_create_def)
  ultimately show ?thesis
    using capability_alloc_from_spec [of sample_region_cap 65536 "[65536 \<mapsto> sample_buddy]" sample_buddy "\<lambda>_. 1" 100]
      sample_buddy_facts by (auto split: prod.splits)
qed

text \<open>
  Making a region allocatable embeds a pool into the whole of the region: the pool starts at
  the region's base, its data ends inside the region, and the range of the new capability is the
  range of the old one.
\<close>

lemma capability_make_region_allocatable_whole:
  assumes "CAPABILITY_HAS_ACCESS cap CAP_MEMORY_REGION" "region_range (cap_data cap) = r"
    and "embed_pre (va hhdm (range_base r)) (range_limit r) 64"
  shows "\<exists>cap' b. capability_make_region_allocatable hhdm mem pools cap = Some (cap', pools(buddy_at b \<mapsto> b)) \<and>
    buddy_inv b \<and> live b = {} \<and> CAPABILITY_HAS_ACCESS cap' CAP_ALLOCATABLE_MEMORY_REGION \<and>
    cap_data cap' = AllocatableMemoryRegion r (buddy_at b) \<and> buddy_main b = va hhdm (range_base r) \<and>
    buddy_main b + memory_size b \<le> buddy_at b \<and>
    buddy_at b + buddy_sizeof_alignment (memory_size b) 64 \<le> va hhdm (range_base r) + range_limit r"
proof -
  let ?off = "embed_offset (buddy_embed_offset (range_limit r) 64)"
  obtain b where b: "buddy_embed_alignment mem (va hhdm (range_base r)) (range_limit r) 64 = Some (Some b)"
    "buddy_inv b" "live b = {}" "buddy_main b = va hhdm (range_base r)" "memory_size b = ?off - ?off mod 64" "alignment b = 64"
    "buddy_at b = va hhdm (range_base r) + ?off" "?off + buddy_sizeof_alignment (memory_size b) 64 \<le> range_limit r"
    by (rule embed_live [OF assms(3), of mem])
  then have "capability_make_region_allocatable hhdm mem pools cap =
      Some (capability_create (CAP_ALLOCATABLE_MEMORY_REGION OR CAP_READ OR CAP_WRITE)
        (AllocatableMemoryRegion r (buddy_at b)) False, pools(buddy_at b \<mapsto> b))"
    using assms(1,2) by (simp add: capability_make_region_allocatable_def buddy_embed_def
        BUDDY_ALLOC_ALIGN_def Let_def)
  moreover have "buddy_main b + memory_size b \<le> buddy_at b" using b(4,5,7) by simp
  moreover have "buddy_at b + buddy_sizeof_alignment (memory_size b) 64 \<le> va hhdm (range_base r) + range_limit r"
    using b(7,8) by simp
  ultimately show ?thesis using b(2-4) alloc_cap_access
    by (intro exI [of _ "capability_create (CAP_ALLOCATABLE_MEMORY_REGION OR CAP_READ OR CAP_WRITE)
        (AllocatableMemoryRegion r (buddy_at b)) False"] exI [of _ b]) (simp add: capability_create_def)
qed

lemma embed_sample: "embed_pre 8192 4096 64"
proof -
  have "is_valid_alignment 64" unfolding is_valid_alignment_iff by (rule exI [of _ 6]) simp
  moreover have "tree_bits 6 = 120" "tree_bits 7 = 247"
    using tree_bits_closed [of 6] tree_bits_closed [of 7] by simp_all
  then have "buddy_sizeof_alignment 4096 64 = 56 + padded 7 + 72"
    using sizeof_alignment_eq [of 64 6 0] bitlength_eqI [of 5 63] by simp
  then have "can_fit (buddy_embed_offset 4096 64) \<and> 64 \<le> embed_offset (buddy_embed_offset 4096 64)"
    by (simp add: buddy_embed_offset_def alignof_buddy_def Let_def padded_def \<open>tree_bits 7 = 247\<close> wrap_simps)
  ultimately show ?thesis by (simp add: embed_pre_def)
qed

text \<open>
  Of the capabilities set up for the first task at most one is for an allocatable region.
\<close>

lemma setup_init_task_one_allocatable:
  "\<forall>caps a' pools'. setup_init_task_capabilities hhdm mem a pools memory_map = Some (caps, a', pools') \<longrightarrow>
     length (allocatable_caps caps) \<le> 1"
  using setup_allocatable [of hhdm mem a pools False memory_map] by (auto simp: setup_init_task_capabilities_def)

end
