(* ===== verification/Scheduler.thy ===== *)
theory Scheduler
  imports Vec Capability Virt
begin

text \<open>
  Processes and the scheduler: \<open>src/kernel/sched/scheduler.c\<close>, the execution spaces and contexts
  of \<open>src/kernel/service/\<close>, and the timer interrupt of
  \<open>src/kernel/arch/x86/sys/context_switch.c\<close>. The process table is the vector of \<open>Vec\<close>, with
  the slots behind its end; a pointer into it is an index. The null vector, before
  \<open>sched_prepare\<close>, is \<open>None\<close>; where the code reads through it without a test the model stops.
  The writes to the interrupt controller have no state here.

  Shown: whatever the processes do, the timer interrupts resume them in turn, each with the
  registers it was interrupted with; process identifiers are fresh until the table of
  identifiers is used up; and removing a process takes the last one out of the table, whichever
  was asked for.
\<close>

section \<open>Registers, contexts and spaces\<close>

record GeneralRegisters =
  r15 :: "64 word"
  r14 :: "64 word"
  r13 :: "64 word"
  r12 :: "64 word"
  r11 :: "64 word"
  r10 :: "64 word"
  r9 :: "64 word"
  r8 :: "64 word"
  rsi :: "64 word"
  rdi :: "64 word"
  rbp :: "64 word"
  rdx :: "64 word"
  rcx :: "64 word"
  rbx :: "64 word"
  rax :: "64 word"

record arch_task_registers =
  task_gpr :: GeneralRegisters
  task_ip :: "64 word"
  task_rsp :: "64 word"

record iframe =
  gpr :: GeneralRegisters
  isr_number :: "64 word"
  error_code :: "64 word"
  frame_rip :: "64 word"
  frame_cs :: "64 word"
  frame_rflags :: "64 word"
  frame_rsp :: "64 word"
  frame_ss :: "64 word"

record ExecutionContext =
  ec_entry :: addr
  ec_registers :: arch_task_registers

definition zero_registers :: GeneralRegisters where
  "zero_registers = \<lparr>r15 = 0, r14 = 0, r13 = 0, r12 = 0, r11 = 0, r10 = 0, r9 = 0, r8 = 0, rsi = 0, rdi = 0,
     rbp = 0, rdx = 0, rcx = 0, rbx = 0, rax = 0\<rparr>"

definition create_ec :: "addr \<Rightarrow> addr \<Rightarrow> ExecutionContext" where
  "create_ec entry_point sp =
     \<lparr>ec_entry = entry_point,
      ec_registers = \<lparr>task_gpr = zero_registers\<lparr>rbp := of_nat sp\<rparr>, task_ip = of_nat entry_point,
                      task_rsp = of_nat sp - 2048\<rparr>\<rparr>"

record IpcMessage =
  msg_sender :: nat
  msg_receiver :: nat
  msg_payload :: addr
  msg_payload_size :: nat

record ExecutionSpace =
  pid :: int
  port :: int
  argc :: int
  argv :: addr
  vm_space :: addr
  stack_pointer :: addr
  ec :: ExecutionContext
  message_queue :: "IpcMessage vec option"
  capabilities :: "Capability vec"

section \<open>The scheduler\<close>

record sched =
  processes :: "ExecutionSpace vec option"
  current_pid_index :: nat
  next_available_pid :: int

definition MAX_PIDS :: int where "MAX_PIDS = 4096"

definition sched_start :: sched where
  "sched_start = \<lparr>processes = None, current_pid_index = 0, next_available_pid = 0\<rparr>"

definition sched_prepare :: "sched \<Rightarrow> sched" where
  "sched_prepare s = s\<lparr>processes := Some vec_init, next_available_pid := 0\<rparr>"

text \<open>What the processor is given when user code starts.\<close>

record userspace_entry =
  user_cr3 :: addr
  user_entry :: addr
  user_stack :: addr
  user_argc :: int
  user_argv :: addr

definition sched_begin_work :: "nat \<Rightarrow> sched \<Rightarrow> stop + userspace_entry" where
  "sched_begin_work hhdm s =
     (case processes s of
        None \<Rightarrow> Inl Panic
      | Some v \<Rightarrow>
          if vec_size v = 0 then Inl Panic
          else case vec_get v 0 of
                 None \<Rightarrow> Inl Panic
               | Some es \<Rightarrow> Inr \<lparr>user_cr3 = arch_switch_pagemap hhdm (vm_space es), user_entry = ec_entry (ec es),
                                 user_stack = stack_pointer es, user_argc = argc es, user_argv = argv es\<rparr>)"

text \<open>\<open>room\<close> is whether the vector can grow; the result of the push is not looked at.\<close>

definition sched_enqueue :: "bool \<Rightarrow> sched \<Rightarrow> ExecutionSpace \<Rightarrow> stop + sched" where
  "sched_enqueue room s es =
     (case processes s of
        None \<Rightarrow> Inl Panic
      | Some v \<Rightarrow> Inr (s\<lparr>processes := Some (vec_push room v es)\<rparr>))"

definition save_registers :: "arch_task_registers \<Rightarrow> ExecutionSpace \<Rightarrow> ExecutionSpace" where
  "save_registers regs es = es\<lparr>ec := (ec es)\<lparr>ec_registers := regs\<rparr>\<rparr>"

text \<open>\<open>Inr None\<close> is the error value of the result.\<close>

definition sched_reschedule :: "sched \<Rightarrow> arch_task_registers \<Rightarrow> stop + ExecutionSpace option \<times> sched" where
  "sched_reschedule s regs =
     (case processes s of
        None \<Rightarrow> Inr (None, s)
      | Some v \<Rightarrow>
          if vec_size v = 0 then Inr (None, s)
          else case vec_get v (current_pid_index s) of
                 None \<Rightarrow> Inl Panic
               | Some current \<Rightarrow>
                   let v = vec_set v (current_pid_index s) (save_registers regs current);
                       i = (current_pid_index s + 1) mod vec_size v;
                       s = s\<lparr>processes := Some v, current_pid_index := i\<rparr>
                   in case vec_get v i of
                        None \<Rightarrow> Inl Panic
                      | Some es \<Rightarrow> Inr (Some es, s))"

text \<open>The pointer to the current process, as an index.\<close>

definition sched_current :: "sched \<Rightarrow> nat option" where
  "sched_current s =
     (case processes s of
        None \<Rightarrow> None
      | Some v \<Rightarrow> if vec_size v = 0 then None else Some (current_pid_index s))"

function find_pid :: "ExecutionSpace vec \<Rightarrow> int \<Rightarrow> nat \<Rightarrow> nat option" where
  "find_pid v p i =
     (if i < vec_size v
      then if map_option pid (vec_get v i) = Some p then Some i else find_pid v p (i + 1)
      else None)"
  by pat_completeness auto
termination by (relation "measure (\<lambda>(v, p, i). vec_size v - i)") auto

declare find_pid.simps [simp del]

definition sched_get :: "sched \<Rightarrow> int \<Rightarrow> stop + nat option" where
  "sched_get s p = (case processes s of None \<Rightarrow> Inl Panic | Some v \<Rightarrow> Inr (find_pid v p 0))"

definition sched_allocate_pid :: "sched \<Rightarrow> stop + int \<times> sched" where
  "sched_allocate_pid s =
     (if next_available_pid s \<ge> MAX_PIDS then Inl Panic
      else Inr (next_available_pid s, s\<lparr>next_available_pid := next_available_pid s + 1\<rparr>))"

definition sched_dequeue :: "sched \<Rightarrow> int \<Rightarrow> stop + int \<times> sched" where
  "sched_dequeue s p =
     (case processes s of
        None \<Rightarrow> Inl Panic
      | Some v \<Rightarrow>
          (case find_pid v p 0 of
             None \<Rightarrow> Inr (-1, s)
           | Some i \<Rightarrow> Inr (0, s\<lparr>processes := Some (snd (vec_erase v i))\<rparr>)))"

section \<open>The timer interrupt\<close>

definition frame_registers :: "iframe \<Rightarrow> arch_task_registers" where
  "frame_registers f = \<lparr>task_gpr = gpr f, task_ip = frame_rip f, task_rsp = frame_rsp f\<rparr>"

definition resume_frame :: "iframe \<Rightarrow> arch_task_registers \<Rightarrow> iframe" where
  "resume_frame f regs = f\<lparr>frame_rip := task_ip regs, gpr := task_gpr regs, frame_rsp := task_rsp regs\<rparr>"

definition timer_irq :: "nat \<Rightarrow> sched \<Rightarrow> iframe \<Rightarrow> stop + (iframe \<times> addr) \<times> sched" where
  "timer_irq hhdm s f =
     (case sched_reschedule s (frame_registers f) of
        Inl e \<Rightarrow> Inl e
      | Inr (None, s) \<Rightarrow> Inl Panic
      | Inr (Some newSpace, s) \<Rightarrow>
          Inr ((resume_frame f (ec_registers (ec newSpace)), arch_switch_pagemap hhdm (vm_space newSpace)), s))"

text \<open>A run of interrupts: each gets the frame of whatever runs at that time.\<close>

fun ticks :: "nat \<Rightarrow> sched \<Rightarrow> iframe list \<Rightarrow> stop + (iframe \<times> addr) list \<times> sched" where
  "ticks hhdm s [] = Inr ([], s)"
| "ticks hhdm s (f # fs) =
     (case timer_irq hhdm s f of
        Inl e \<Rightarrow> Inl e
      | Inr (out, s) \<Rightarrow> (case ticks hhdm s fs of Inl e \<Rightarrow> Inl e | Inr (outs, s) \<Rightarrow> Inr (out # outs, s)))"

section \<open>The process table as a list\<close>

definition procs :: "sched \<Rightarrow> ExecutionSpace list" where
  "procs s = (case processes s of None \<Rightarrow> [] | Some v \<Rightarrow> vec_list v)"

definition sched_ok :: "sched \<Rightarrow> bool" where
  "sched_ok s \<longleftrightarrow> (case processes s of None \<Rightarrow> False | Some v \<Rightarrow> vec_ok v \<and> current_pid_index s < vec_size v)"

lemma sched_okE:
  assumes "sched_ok s"
  obtains v where "processes s = Some v" "vec_ok v" "current_pid_index s < vec_size v"
    "procs s = vec_list v" "length (procs s) = vec_size v"
  using assms by (auto simp: sched_ok_def procs_def split: option.splits)

lemma save_registers_simps [simp]:
  "ec_registers (ec (save_registers regs es)) = regs" "vm_space (save_registers regs es) = vm_space es"
  "pid (save_registers regs es) = pid es" "port (save_registers regs es) = port es"
  "message_queue (save_registers regs es) = message_queue es"
  by (simp_all add: save_registers_def)

lemma sched_reschedule_list:
  fixes s regs
  assumes "sched_ok s"
  defines "i \<equiv> current_pid_index s" and "n \<equiv> length (procs s)"
  defines "ps \<equiv> (procs s)[i := save_registers regs (procs s ! i)]"
  obtains s' where "sched_reschedule s regs = Inr (Some (ps ! ((i + 1) mod n)), s')"
    "sched_ok s'" "procs s' = ps" "current_pid_index s' = (i + 1) mod n"
    "next_available_pid s' = next_available_pid s"
proof -
  obtain v where v: "processes s = Some v" "vec_ok v" "i < vec_size v" "procs s = vec_list v" "n = vec_size v"
    unfolding i_def n_def by (rule sched_okE [OF assms(1)]) blast
  let ?v = "vec_set v i (save_registers regs (vec_list v ! i))"
  let ?s = "s\<lparr>processes := Some ?v, current_pid_index := (i + 1) mod n\<rparr>"
  have "vec_get ?v ((i + 1) mod n) = Some (ps ! ((i + 1) mod n))"
    using v by (simp add: vec_get_list vec_set_list ps_def)
  then have "sched_reschedule s regs = Inr (Some (ps ! ((i + 1) mod n)), ?s)"
    using v by (simp add: sched_reschedule_def vec_get_list i_def Let_def)
  moreover have "sched_ok ?s" "procs ?s = ps" using v by (simp_all add: sched_ok_def procs_def vec_set_list ps_def)
  ultimately show ?thesis using that by simp
qed

lemma next_turn: "c < n \<Longrightarrow> 0 < k \<Longrightarrow> k < n \<Longrightarrow> (c + k) mod n \<noteq> (c :: nat)"
  by (auto simp: mod_if)

lemma turn_Suc: "((c + 1) mod n + k + 1) mod n = (c + (k + 2)) mod (n :: nat)"
  using mod_add_left_eq [of "c + 1" n "k + 1"] by (simp add: add.assoc)

text \<open>The registers a process resumes with at the interrupt \<open>k\<close> of a run.\<close>

definition resumed :: "ExecutionSpace list \<Rightarrow> nat \<Rightarrow> iframe list \<Rightarrow> nat \<Rightarrow> arch_task_registers" where
  "resumed ps c fs k =
     (if k + 1 < length ps then ec_registers (ec (ps ! ((c + k + 1) mod length ps)))
      else frame_registers (fs ! (k + 1 - length ps)))"

lemma resumed_Suc:
  fixes ps c f
  assumes "c < length ps"
  defines "ps' \<equiv> ps[c := save_registers (frame_registers f) (ps ! c)]"
  shows "resumed ps' ((c + 1) mod length ps) fs k = resumed ps c (f # fs) (Suc k)"
proof -
  note turn = turn_Suc [of c "length ps" k]
  consider "k + 2 < length ps" | "k + 2 = length ps" | "length ps < k + 2" by linarith
  then show ?thesis
  proof cases
    case 1
    then have "(c + (k + 2)) mod length ps \<noteq> c" using next_turn [OF assms(1), of "k + 2"] by simp
    then show ?thesis using 1 turn by (simp add: resumed_def ps'_def)
  next
    case 2
    then show ?thesis using assms(1) turn by (simp add: resumed_def ps'_def)
  next
    case 3
    then show ?thesis by (simp add: resumed_def ps'_def Suc_diff_le nth_Cons')
  qed
qed

lemma map_vm_space_update: "map vm_space (ps[c := save_registers regs (ps ! c)]) = map vm_space ps"
  by (cases "c < length ps") (simp_all add: map_update list_update_same_conv [THEN iffD2] list_update_beyond)

lemma ticks_resume:
  assumes "sched_ok s"
  shows "\<exists>outs s'. ticks hhdm s fs = Inr (outs, s') \<and> sched_ok s' \<and> length outs = length fs \<and>
    length (procs s') = length (procs s) \<and>
    current_pid_index s' = (current_pid_index s + length fs) mod length (procs s) \<and>
    (\<forall>k < length fs. outs ! k =
       (resume_frame (fs ! k) (resumed (procs s) (current_pid_index s) fs k),
        arch_switch_pagemap hhdm (map vm_space (procs s) ! ((current_pid_index s + k + 1) mod length (procs s)))))"
  using assms
proof (induction fs arbitrary: s)
  case Nil
  then have "current_pid_index s < length (procs s)" by (metis sched_okE)
  then show ?case using Nil by simp
next
  case (Cons f fs)
  define i n ps where "i = current_pid_index s" and "n = length (procs s)"
    and "ps = (procs s)[i := save_registers (frame_registers f) (procs s ! i)]"
  obtain s1 where s1: "sched_reschedule s (frame_registers f) = Inr (Some (ps ! ((i + 1) mod n)), s1)"
    "sched_ok s1" "procs s1 = ps" "current_pid_index s1 = (i + 1) mod n"
    using sched_reschedule_list [OF Cons.prems] unfolding i_def n_def ps_def by blast
  have i: "i < n" using Cons.prems unfolding i_def n_def by (metis sched_okE)
  have vm: "map vm_space ps = map vm_space (procs s)" by (simp add: ps_def map_vm_space_update)
  have len: "length ps = n" by (simp add: ps_def n_def)
  obtain outs s2 where s2: "ticks hhdm s1 fs = Inr (outs, s2)" "sched_ok s2" "length outs = length fs"
    "length (procs s2) = n" "current_pid_index s2 = ((i + 1) mod n + length fs) mod n"
    "\<And>k. k < length fs \<Longrightarrow> outs ! k = (resume_frame (fs ! k) (resumed ps ((i + 1) mod n) fs k),
      arch_switch_pagemap hhdm (map vm_space (procs s) ! (((i + 1) mod n + k + 1) mod n)))"
    using Cons.IH [OF s1(2)] s1(3,4) vm len by auto
  let ?out = "(resume_frame f (ec_registers (ec (ps ! ((i + 1) mod n)))),
    arch_switch_pagemap hhdm (vm_space (ps ! ((i + 1) mod n))))"
  have first: "ec_registers (ec (ps ! ((i + 1) mod n))) = resumed (procs s) i (f # fs) 0"
  proof (cases "n = 1")
    case True
    then show ?thesis using i by (simp add: resumed_def ps_def n_def [symmetric])
  next
    case False
    then have "(i + 1) mod n \<noteq> i" using next_turn [OF i, of 1] i by simp
    then show ?thesis using False i by (simp add: resumed_def ps_def n_def [symmetric])
  qed
  have firstvm: "vm_space (ps ! ((i + 1) mod n)) = map vm_space (procs s) ! ((i + 1) mod n)"
    using vm len i by (metis mod_less_divisor less_nat_zero_code neq0_conv nth_map)
  have "(?out # outs) ! k = (resume_frame ((f # fs) ! k) (resumed (procs s) i (f # fs) k),
      arch_switch_pagemap hhdm (map vm_space (procs s) ! ((i + k + 1) mod n)))"
    if "k < length (f # fs)" for k
  proof (cases k)
    case 0
    then show ?thesis using first firstvm by simp
  next
    case (Suc j)
    then show ?thesis
      using that s2(6) [of j] resumed_Suc [of i "procs s" f fs j] i
        turn_Suc [of i n j] by (simp add: ps_def [symmetric] n_def [symmetric])
  qed
  moreover have "ticks hhdm s (f # fs) = Inr (?out # outs, s2)"
    using s1(1) s2(1) by (simp add: timer_irq_def)
  moreover have "current_pid_index s2 = (i + length (f # fs)) mod n" using s2(5) by (simp add: mod_simps)
  ultimately show ?case using s2(2-4) unfolding i_def n_def by auto
qed

section \<open>Lookup and removal\<close>

lemma find_pid_from:
  assumes "vec_ok v" "i \<le> vec_size v"
  shows "case find_pid v p i of
      None \<Rightarrow> p \<notin> pid ` set (drop i (vec_list v))
    | Some j \<Rightarrow> i \<le> j \<and> j < vec_size v \<and> pid (vec_list v ! j) = p \<and> (\<forall>k. i \<le> k \<longrightarrow> k < j \<longrightarrow> pid (vec_list v ! k) \<noteq> p)"
  using assms
proof (induction v p i rule: find_pid.induct)
  case (1 v p i)
  show ?case
  proof (cases "i < vec_size v")
    case True
    then have g: "vec_get v i = Some (vec_list v ! i)" using "1.prems" by (simp add: vec_get_list)
    have d: "drop i (vec_list v) = vec_list v ! i # drop (Suc i) (vec_list v)"
      using True "1.prems" by (simp add: Cons_nth_drop_Suc)
    show ?thesis
    proof (cases "pid (vec_list v ! i) = p")
      case True
      then show ?thesis using \<open>i < vec_size v\<close> g by (simp add: find_pid.simps [of v p i])
    next
      case False
      then have eq: "find_pid v p i = find_pid v p (i + 1)"
        using \<open>i < vec_size v\<close> g by (simp add: find_pid.simps [of v p i])
      have "case find_pid v p (i + 1) of
          None \<Rightarrow> p \<notin> pid ` set (drop (i + 1) (vec_list v))
        | Some j \<Rightarrow> i + 1 \<le> j \<and> j < vec_size v \<and> pid (vec_list v ! j) = p \<and>
            (\<forall>k. i + 1 \<le> k \<longrightarrow> k < j \<longrightarrow> pid (vec_list v ! k) \<noteq> p)"
        using "1.IH" \<open>i < vec_size v\<close> g False "1.prems" by simp
      then show ?thesis unfolding eq d using False
        by (auto split: option.splits) (metis le_antisym not_less_eq_eq)
    qed
  next
    case False
    then have "find_pid v p i = None" by (simp add: find_pid.simps [of v p i])
    then show ?thesis using False "1.prems" by simp
  qed
qed

lemma find_pid_cases:
  assumes "vec_ok v"
  obtains "find_pid v p 0 = None" "p \<notin> pid ` set (vec_list v)"
  | j where "find_pid v p 0 = Some j" "j < vec_size v" "pid (vec_list v ! j) = p" "p \<in> pid ` set (vec_list v)"
      "\<forall>k < j. pid (vec_list v ! k) \<noteq> p"
  using find_pid_from [OF assms, of 0 p] assms
  by (cases "find_pid v p 0") (auto intro!: image_eqI nth_mem)

section \<open>Properties\<close>

text \<open>
  C7: timer interrupts resume the processes in turn, each with its own address space and with the
  registers it had when it was interrupted (those it was created with, if it has not run yet),
  whatever the frames of the interrupts hold; and no interrupt of a scheduler with a process fails.
\<close>

theorem timer_irq_round_robin:
  assumes "sched_ok s"
  shows "\<exists>outs s'. ticks hhdm s fs = Inr (outs, s') \<and> sched_ok s' \<and> length outs = length fs \<and>
    (\<forall>k < length fs. let n = length (procs s); es = procs s ! ((current_pid_index s + k + 1) mod n) in
       snd (outs ! k) = arch_switch_pagemap hhdm (vm_space es) \<and>
       fst (outs ! k) = resume_frame (fs ! k)
         (if k + 1 < n then ec_registers (ec es) else frame_registers (fs ! (k + 1 - n))))"
proof -
  have "(current_pid_index s + k + 1) mod length (procs s) < length (procs s)" for k
    using assms by (metis sched_okE mod_less_divisor not_less_zero neq0_conv)
  then show ?thesis using ticks_resume [OF assms, of hhdm fs] by (auto simp: resumed_def Let_def)
qed

definition sample_registers :: "64 word \<Rightarrow> arch_task_registers" where
  "sample_registers x = \<lparr>task_gpr = zero_registers\<lparr>rax := x\<rparr>, task_ip = x, task_rsp = x\<rparr>"

definition sample_frame :: "64 word \<Rightarrow> iframe" where
  "sample_frame x = \<lparr>gpr = zero_registers\<lparr>rax := x\<rparr>, isr_number = 32, error_code = 0, frame_rip = x, frame_cs = 43,
     frame_rflags = 512, frame_rsp = x, frame_ss = 35\<rparr>"

definition sample_space :: "int \<Rightarrow> ExecutionSpace" where
  "sample_space p = \<lparr>pid = p, port = p, argc = 0, argv = 0, vm_space = 4096 * (nat p + 1), stack_pointer = 65536,
     ec = create_ec 4194304 65536, message_queue = Some vec_init, capabilities = vec_init\<rparr>"

definition sample_sched :: sched where
  "sample_sched = \<lparr>processes = Some \<lparr>slots = [sample_space 0, sample_space 1], vec_size = 2\<rparr>,
     current_pid_index = 0, next_available_pid = 2\<rparr>"

lemma sample_sched_ok:
  "sched_ok sample_sched" "procs sample_sched = [sample_space 0, sample_space 1]" "current_pid_index sample_sched = 0"
  by (simp_all add: sched_ok_def procs_def vec_ok_def vec_list_def sample_sched_def)

theorem timer_irq_round_robin_witness:
  "\<exists>outs s'. ticks 0 sample_sched [sample_frame 7, sample_frame 8] = Inr (outs, s') \<and>
     map fst outs = [resume_frame (sample_frame 7) (ec_registers (create_ec 4194304 65536)),
       resume_frame (sample_frame 8) (frame_registers (sample_frame 7))]"
proof -
  have [simp]: "ec (sample_space p) = create_ec 4194304 65536" for p by (simp add: sample_space_def)
  obtain outs s' where o: "ticks 0 sample_sched [sample_frame 7, sample_frame 8] = Inr (outs, s')" "length outs = 2"
    "\<forall>k < 2. fst (outs ! k) = resume_frame ([sample_frame 7, sample_frame 8] ! k)
       (if k + 1 < 2 then ec_registers (ec ([sample_space 0, sample_space 1] ! ((k + 1) mod 2)))
        else frame_registers ([sample_frame 7, sample_frame 8] ! (k + 1 - 2)))"
    using timer_irq_round_robin [OF sample_sched_ok(1), of 0 "[sample_frame 7, sample_frame 8]"] sample_sched_ok(2,3)
    by (auto simp: Let_def numeral_2_eq_2)
  obtain a b where ab: "outs = [a, b]" using o(2) by (auto simp: numeral_2_eq_2 length_Suc_conv)
  then show ?thesis using o(1) o(3) [rule_format, of 0] o(3) [rule_format, of 1] by simp
qed



text \<open>
  Removing a process from the table removes the last process of the table, whichever process
  was asked for; the one asked for stays unless it is the last. Nothing changes, and the result
  is -1, if no process has the identifier.
\<close>

lemma sched_dequeue_drops_last:
  assumes "processes s = Some v" "vec_ok v"
  shows "if p \<in> pid ` set (procs s)
    then \<exists>s'. sched_dequeue s p = Inr (0, s') \<and> procs s' = butlast (procs s) \<and>
      current_pid_index s' = current_pid_index s
    else sched_dequeue s p = Inr (-1, s)"
  using assms(2)
proof (cases rule: find_pid_cases [where p = p])
  case 1
  then show ?thesis using assms by (simp add: sched_dequeue_def procs_def)
next
  case (2 j)
  then show ?thesis using assms vec_erase_list [OF assms(2), of j] by (simp add: sched_dequeue_def procs_def)
qed

fun allocate_pids :: "sched \<Rightarrow> nat \<Rightarrow> stop + int list \<times> sched" where
  "allocate_pids s 0 = Inr ([], s)"
| "allocate_pids s (Suc n) =
     (case sched_allocate_pid s of
        Inl e \<Rightarrow> Inl e
      | Inr (p, s) \<Rightarrow> (case allocate_pids s n of Inl e \<Rightarrow> Inl e | Inr (ps, s) \<Rightarrow> Inr (p # ps, s)))"

lemma allocate_pids_from:
  "allocate_pids (s\<lparr>next_available_pid := i\<rparr>) n =
     (if n = 0 \<or> i + int n \<le> MAX_PIDS then Inr ([i .. i + int n - 1], s\<lparr>next_available_pid := i + int n\<rparr>) else Inl Panic)"
proof (induction n arbitrary: i)
  case (Suc n)
  then show ?case by (auto simp: sched_allocate_pid_def upto_rec1 add.commute add.left_commute)
qed simp

text \<open>
  After \<open>sched_prepare\<close> the process identifiers are given out in order from 0, none twice, and
  asking for more than 4096 is a panic.
\<close>

lemma sched_allocate_pid_fresh:
  "allocate_pids (sched_prepare s) n =
     (if n \<le> 4096 then Inr ([0 .. int n - 1], (sched_prepare s)\<lparr>next_available_pid := int n\<rparr>) else Inl Panic)"
  using allocate_pids_from [where s = "sched_prepare s" and i = 0 and n = n] by (auto simp: sched_prepare_def MAX_PIDS_def)

end
