(* ===== verification/Elf.thy ===== *)
theory Elf
  imports Virt_Properties
begin

text \<open>
  The loader of executables: \<open>src/kernel/service/execution-space/loader/elf.c\<close>, with the headers
  of \<open>src/libs/moon-sys/elf/\<close>. The image is read from the byte memory at the offsets of the
  packed structures; the state is the page allocator and the memory.

  Shown: loading a segment makes every byte of it readable at its address, the bytes after the
  end of the file part as zero, and leaves what was loaded before in place; and the program
  headers from the first one on that is not loadable are ignored, because the pointer is not
  advanced there.
\<close>

section \<open>Headers\<close>

definition load16 :: "bytes \<Rightarrow> addr \<Rightarrow> nat" where
  "load16 m a = load_bytes m a 2"

record Elf64_Ehdr =
  e_ident :: "byte list"
  e_type :: nat
  e_machine :: nat
  e_version :: nat
  e_entry :: addr
  e_phoff :: nat
  e_shoff :: nat
  e_flags :: nat
  e_ehsize :: nat
  e_phentsize :: nat
  e_phnum :: nat
  e_shentsize :: nat
  e_shnum :: nat
  e_shstrndx :: nat

record Elf64_Phdr =
  p_type :: nat
  p_flags :: nat
  p_offset :: nat
  p_vaddr :: addr
  p_paddr :: addr
  p_filesz :: nat
  p_memsz :: nat
  p_align :: nat

definition read_ehdr :: "bytes \<Rightarrow> addr \<Rightarrow> Elf64_Ehdr" where
  "read_ehdr m a = \<lparr>e_ident = map (\<lambda>k. m (a + k)) [0 ..< 16], e_type = load16 m (a + 16), e_machine = load16 m (a + 18),
     e_version = load32 m (a + 20), e_entry = load64 m (a + 24), e_phoff = load64 m (a + 32),
     e_shoff = load64 m (a + 40), e_flags = load32 m (a + 48), e_ehsize = load16 m (a + 52),
     e_phentsize = load16 m (a + 54), e_phnum = load16 m (a + 56), e_shentsize = load16 m (a + 58),
     e_shnum = load16 m (a + 60), e_shstrndx = load16 m (a + 62)\<rparr>"

definition read_phdr :: "bytes \<Rightarrow> addr \<Rightarrow> Elf64_Phdr" where
  "read_phdr m a = \<lparr>p_type = load32 m a, p_flags = load32 m (a + 4), p_offset = load64 m (a + 8),
     p_vaddr = load64 m (a + 16), p_paddr = load64 m (a + 24), p_filesz = load64 m (a + 32),
     p_memsz = load64 m (a + 40), p_align = load64 m (a + 48)\<rparr>"

definition IS_ELF :: "Elf64_Ehdr \<Rightarrow> bool" where
  "IS_ELF h \<longleftrightarrow> e_ident h ! 0 = 127 \<and> e_ident h ! 1 = 69 \<and> e_ident h ! 2 = 76 \<and> e_ident h ! 3 = 70"

text \<open>\<open>EI_CLASS\<close> is 4 and \<open>EI_OSABI\<close> is 7; the values are those of a 64-bit System V executable.\<close>

definition has_valid_attributes :: "Elf64_Ehdr \<Rightarrow> bool" where
  "has_valid_attributes h \<longleftrightarrow> e_ident h ! 4 = 2 \<and> e_ident h ! 7 = 0 \<and> e_type h = 2"

definition zero_ehdr :: Elf64_Ehdr where
  "zero_ehdr = \<lparr>e_ident = replicate 16 0, e_type = 0, e_machine = 0, e_version = 0, e_entry = 0, e_phoff = 0,
     e_shoff = 0, e_flags = 0, e_ehsize = 0, e_phentsize = 0, e_phnum = 0, e_shentsize = 0, e_shnum = 0, e_shstrndx = 0\<rparr>"

definition elf_verify_ehdr :: "bytes \<Rightarrow> addr \<Rightarrow> Elf64_Ehdr" where
  "elf_verify_ehdr m elf =
     (let h = read_ehdr m elf
      in if \<not> IS_ELF h then zero_ehdr
         else if e_ident h ! 4 = 2 \<and> e_ident h ! 7 = 0 \<and> e_type h = 2 then h else zero_ehdr)"

record ElfFile =
  elf_ehdr :: Elf64_Ehdr
  elf_phdrs :: addr
  elf_shdrs :: addr
  elf_shstrtab :: addr
  elf_base :: addr

definition parse_elf_file :: "bytes \<Rightarrow> addr \<Rightarrow> ElfFile" where
  "parse_elf_file m elf =
     (let h = read_ehdr m elf
      in \<lparr>elf_ehdr = h, elf_phdrs = add64 elf (e_phoff h), elf_shdrs = add64 elf (e_shoff h),
          elf_shstrtab = add64 (e_shoff h) (e_shstrndx h * e_shentsize h), elf_base = elf\<rparr>)"

section \<open>Loading\<close>

definition PT_LOAD :: nat where "PT_LOAD = 1"

text \<open>The content of a page: what the file has for it, then zeros.\<close>

definition fill_page :: "bytes \<Rightarrow> addr \<Rightarrow> addr \<Rightarrow> Elf64_Phdr \<Rightarrow> nat \<Rightarrow> bytes" where
  "fill_page m phys base ph page_number =
     (let page_offset = mul64 page_number PAGE_SIZE
      in if page_offset \<ge> p_filesz ph then fst (memset m phys 0 PAGE_SIZE)
         else
           let copy_size = (if add64 page_offset PAGE_SIZE > p_filesz ph
                            then sub64 (p_filesz ph) page_offset else PAGE_SIZE);
               m = memcpy m phys (add64 (add64 base (p_offset ph)) page_offset) copy_size
           in if copy_size < PAGE_SIZE
              then fst (memset m (add64 phys copy_size) 0 (PAGE_SIZE - copy_size)) else m)"

text \<open>When no page is left \<open>load_segment\<close> returns; the error it builds is not a value of the function.\<close>

definition load_segment :: "nat \<Rightarrow> vm \<Rightarrow> addr \<Rightarrow> addr \<Rightarrow> addr \<Rightarrow> nat \<Rightarrow> stop + vm" where
  "load_segment hhdm s base space phdr page_number =
     (case arch_alloc_page (fst s) (snd s) of
        None \<Rightarrow> Inl Stuck
      | Some (phys, a, m) \<Rightarrow>
          if phys = 0 then Inr (a, m)
          else
            let vaddr = add64 (p_vaddr (read_phdr m phdr)) (mul64 page_number PAGE_SIZE)
            in case arch_map_page hhdm (a, m) space vaddr (pa hhdm phys) MAP_USER_RW of
                 Inl e \<Rightarrow> Inl e
               | Inr (a, m) \<Rightarrow> Inr (a, fill_page m phys base (read_phdr m phdr) page_number))"

fun load_pages :: "nat \<Rightarrow> vm \<Rightarrow> addr \<Rightarrow> addr \<Rightarrow> addr \<Rightarrow> nat \<Rightarrow> nat \<Rightarrow> stop + vm" where
  "load_pages hhdm s base space phdr j 0 = Inr s"
| "load_pages hhdm s base space phdr j (Suc n) =
     (case load_segment hhdm s base space phdr j of
        Inl e \<Rightarrow> Inl e
      | Inr s \<Rightarrow> load_pages hhdm s base space phdr (j + 1) n)"

text \<open>The pointer to the header moves on only behind a loadable one.\<close>

fun load_phdrs :: "nat \<Rightarrow> vm \<Rightarrow> addr \<Rightarrow> addr \<Rightarrow> nat \<Rightarrow> addr \<Rightarrow> nat \<Rightarrow> stop + vm" where
  "load_phdrs hhdm s base space entsize phdr 0 = Inr s"
| "load_phdrs hhdm s base space entsize phdr (Suc n) =
     (if p_type (read_phdr (snd s) phdr) \<noteq> PT_LOAD then load_phdrs hhdm s base space entsize phdr n
      else case load_pages hhdm s base space phdr 0 (ALIGN_UP (p_memsz (read_phdr (snd s) phdr)) div PAGE_SIZE) of
             Inl e \<Rightarrow> Inl e
           | Inr s \<Rightarrow> load_phdrs hhdm s base space entsize (add64 phdr entsize) n)"

text \<open>\<open>Inr (None, s)\<close> is the error value of the result.\<close>

definition load_elf :: "nat \<Rightarrow> vm \<Rightarrow> addr \<Rightarrow> addr \<Rightarrow> stop + addr option \<times> vm" where
  "load_elf hhdm s elf_pointer space =
     (let elf = parse_elf_file (snd s) elf_pointer; h = elf_ehdr elf
      in if \<not> IS_ELF h \<or> \<not> has_valid_attributes h then Inr (None, s)
         else case load_phdrs hhdm s (elf_base elf) space (e_phentsize h) (elf_phdrs elf) (e_phnum h) of
                Inl e \<Rightarrow> Inl e
              | Inr s \<Rightarrow> Inr (Some (e_entry h), s))"

section \<open>Memory the allocator does not manage\<close>

lemma vm_step_outside:
  assumes "vm_ok hhdm s pml4" "vm_step hhdm pml4 n s s'" "x \<notin> pmm_memory (fst s)"
  shows "snd s' x = snd s x"
proof -
  have ok': "pmm_ok (fst s')" and g: "grown n (fst s) (fst s')" and f: "framed hhdm pml4 s s'"
    using assms(2) by (auto simp: vm_step_def vm_ok_def)
  have "tables hhdm (snd s) pml4 \<subseteq> pmm_frames (fst s)"
    using assms(1) by (auto simp: vm_ok_def tables_owned_def tables_def)
  then have "touched hhdm pml4 s s' \<subseteq> pmm_frames (fst s')" using grown_subset [OF g] by (auto simp: touched_def)
  then have "in_pages (touched hhdm pml4 s s') x \<Longrightarrow> x \<in> pmm_memory (fst s')"
    using frames.owned_memory [OF ok'] by (fastforce simp: in_pages_def)
  moreover have "pmm_memory (fst s') = pmm_memory (fst s)" using g by (simp add: grown_def)
  ultimately show ?thesis using f assms(3) by (auto simp: framed_def)
qed

definition outside :: "pmm \<Rightarrow> addr \<Rightarrow> nat \<Rightarrow> bool" where
  "outside a p n \<longleftrightarrow> {p ..< p + n} \<inter> pmm_memory a = {}"

lemma outsideD: "outside a p n \<Longrightarrow> p \<le> x \<Longrightarrow> x < p + n \<Longrightarrow> x \<notin> pmm_memory a"
  by (auto simp: outside_def)

lemma read_phdr_cong: "(\<And>x. a \<le> x \<Longrightarrow> x < a + 56 \<Longrightarrow> m x = m' x) \<Longrightarrow> read_phdr m a = read_phdr m' a"
proof -
  assume same: "\<And>x. a \<le> x \<Longrightarrow> x < a + 56 \<Longrightarrow> m x = m' x"
  have "load64 m (a + k) = load64 m' (a + k)" if "k \<le> 48" for k by (rule load64_cong) (use that same in simp)
  moreover have "load32 m (a + k) = load32 m' (a + k)" if "k \<le> 52" for k
    unfolding load32_def by (rule load_bytes_cong) (use that same in simp)
  from this [of 0] this [of 4] have "load32 m a = load32 m' a" "load32 m (a + 4) = load32 m' (a + 4)" by simp_all
  ultimately show ?thesis by (simp add: read_phdr_def)
qed

text \<open>An address of the space that is mapped to a frame with data and reads the byte \<open>b\<close>.\<close>

definition resident :: "nat \<Rightarrow> addr \<Rightarrow> vm \<Rightarrow> addr \<Rightarrow> byte \<Rightarrow> bool" where
  "resident hhdm pml4 s w b \<longleftrightarrow> (\<exists>f \<in> pmm_frames (fst s) - tables hhdm (snd s) pml4.
     arch_translate hhdm (snd s) pml4 w = Inr (f + w mod 4096) \<and> snd s (f + w mod 4096) = b)"

definition page_of :: "addr \<Rightarrow> nat" where
  "page_of w = w div 4096 mod 2 ^ 36"

lemma vm_step_keeps:
  assumes "vm_ok hhdm s pml4" "vm_step hhdm pml4 n s s'" "resident hhdm pml4 s w b"
    and "arch_translate hhdm (snd s') pml4 w = arch_translate hhdm (snd s) pml4 w"
  shows "resident hhdm pml4 s' w b"
proof -
  obtain f where f: "f \<in> pmm_frames (fst s)" "f \<notin> tables hhdm (snd s) pml4"
    "arch_translate hhdm (snd s) pml4 w = Inr (f + w mod 4096)" "snd s (f + w mod 4096) = b"
    using assms(3) by (auto simp: resident_def)
  have ok': "pmm_ok (fst s')" and g: "grown n (fst s) (fst s')" and fr: "framed hhdm pml4 s s'"
    using assms(2) by (auto simp: vm_step_def vm_ok_def)
  have nt: "f \<notin> touched hhdm pml4 s s'" using f(1,2) by (simp add: touched_def)
  have "tables hhdm (snd s) pml4 \<subseteq> pmm_frames (fst s)"
    using assms(1) by (auto simp: vm_ok_def tables_owned_def tables_def)
  then have sub: "touched hhdm pml4 s s' \<subseteq> pmm_frames (fst s')" using grown_subset [OF g] by (auto simp: touched_def)
  have f': "f \<in> pmm_frames (fst s')" using f(1) grown_subset [OF g] by blast
  have "\<not> in_pages (touched hhdm pml4 s s') (f + w mod 4096)"
  proof
    assume "in_pages (touched hhdm pml4 s s') (f + w mod 4096)"
    then obtain t where t: "t \<in> touched hhdm pml4 s s'" "t \<le> f + w mod 4096" "f + w mod 4096 < t + 4096"
      by (auto simp: in_pages_def)
    then have "t + 4096 \<le> f \<or> f + 4096 \<le> t" using frames.owned_disjoint [OF ok', of t f] nt sub f' by blast
    moreover have "w mod 4096 < 4096" by simp
    ultimately show False using t(2,3) by linarith
  qed
  then have "snd s' (f + w mod 4096) = b" using fr f(4) by (simp add: framed_def)
  moreover have "f \<notin> tables hhdm (snd s') pml4" using fr nt by (auto simp: framed_def)
  ultimately show ?thesis unfolding resident_def using f' f(3) assms(4) by auto
qed

lemma va_pa_offset:
  assumes "f + 4096 \<le> 2 ^ 64" "f \<noteq> 0" "hhdm < 2 ^ 64" "k < 4096"
  shows "va hhdm (pa hhdm f + k) = f + k"
proof -
  have w: "wrap64 hhdm = hhdm" using assms(3) by (simp add: wrap64_def)
  have "va hhdm (pa hhdm f + k) = ((f + (2 ^ 64 - hhdm)) mod 2 ^ 64 + (k + hhdm)) mod 2 ^ 64"
    using assms(2) w by (simp add: pa_def va_def sub64_def add64_def wrap64_def add.assoc)
  also have "\<dots> = (f + (2 ^ 64 - hhdm) + (k + hhdm)) mod 2 ^ 64" by (rule mod_add_left_eq)
  also have "f + (2 ^ 64 - hhdm) + (k + hhdm) = (f + k) + 2 ^ 64" using assms(3) by simp
  also have "\<dots> mod 2 ^ 64 = (f + k) mod 2 ^ 64" by (rule mod_add_self2)
  also have "\<dots> = f + k" using assms(1,4) by (intro mod_less) linarith
  finally show ?thesis .
qed

section \<open>Writes that miss the tables\<close>

definition misses_tables :: "nat \<Rightarrow> addr \<Rightarrow> bytes \<Rightarrow> bytes \<Rightarrow> bool" where
  "misses_tables hhdm pml4 m m' \<longleftrightarrow> (\<forall>t \<in> tables hhdm m pml4. \<forall>x. t \<le> x \<longrightarrow> x < t + 4096 \<longrightarrow> m' x = m x)"

lemma tables_agree:
  assumes "misses_tables hhdm pml4 m m'"
  shows "q \<in> paths \<Longrightarrow> walk hhdm m' pml4 q = walk hhdm m pml4 q" "tables hhdm m' pml4 = tables hhdm m pml4"
    "pml4 \<noteq> 0 \<Longrightarrow> arch_translate hhdm m' pml4 w = arch_translate hhdm m pml4 w"
proof -
  have rd: "read_pte m' t j = read_pte m t j" if "r \<in> paths" "walk hhdm m pml4 r = Some t" "j < 512" for r t j
    using that(3) by (rule read_pte_cong) (use assms that(1,2) in \<open>auto simp: misses_tables_def tables_def\<close>)
  have w: "walk hhdm m' pml4 r = walk hhdm m pml4 r" if "r \<in> paths" for r
    by (rule walk_all_same [OF _ that]) (simp add: rd)
  show "walk hhdm m' pml4 q = walk hhdm m pml4 q" if "q \<in> paths" using w that .
  show "tables hhdm m' pml4 = tables hhdm m pml4" using w by (auto simp: tables_def)
  have "leaf_frame hhdm m' pml4 (page_path w) (index_of w 1) = leaf_frame hhdm m pml4 (page_path w) (index_of w 1)"
    using w [OF page_path_in_paths [of w]] rd [OF page_path_in_paths [of w]]
    by (simp add: leaf_frame_def split: option.splits)
  then show "arch_translate hhdm m' pml4 w = arch_translate hhdm m pml4 w" if "pml4 \<noteq> 0"
    using that by (simp add: arch_translate_leaf)
qed

lemma vm_ok_agree:
  assumes "vm_ok hhdm (a, m) pml4" "pmm_ok a'" "pmm_frames a \<subseteq> pmm_frames a'"
    and "\<And>q. q \<in> paths \<Longrightarrow> walk hhdm m' pml4 q = walk hhdm m pml4 q"
  shows "vm_ok hhdm (a', m') pml4"
  using assms by (auto simp: vm_ok_def tables_owned_def tables_inj_def)

lemma tables_frames: "vm_ok hhdm s pml4 \<Longrightarrow> tables hhdm (snd s) pml4 \<subseteq> pmm_frames (fst s)"
  by (auto simp: vm_ok_def tables_owned_def tables_def)

lemma alloc_step:
  assumes ok: "vm_ok hhdm (a, m) pml4" and get: "arch_alloc_page a m = Some (f, a', m')" "f \<noteq> 0"
  shows "vm_step hhdm pml4 1 (a, m) (a', m')" "f \<in> pmm_frames a' - tables hhdm m' pml4"
    "arch_translate hhdm m' pml4 w = arch_translate hhdm m pml4 w"
proof -
  note g = frames.get_frame [OF vm_okD(3) [OF ok] get]
  have "misses_tables hhdm pml4 m m'"
    using frames.get_keeps [OF vm_okD(3) [OF ok] get] tables_frames [OF ok] by (auto simp: misses_tables_def)
  note agree = tables_agree [OF this]
  show "arch_translate hhdm m' pml4 w = arch_translate hhdm m pml4 w" using agree(3) pml4_nonzero [OF ok] .
  have "vm_ok hhdm (a', m') pml4" by (rule vm_ok_agree [OF ok]) (use g agree(1) in auto)
  moreover have "framed hhdm pml4 (a, m) (a', m')"
    using g agree(2) by (auto simp: framed_def touched_def in_pages_def)
  ultimately show "vm_step hhdm pml4 1 (a, m) (a', m')" using grown_insert [of a' f a] g by (simp add: vm_step_def)
  show "f \<in> pmm_frames a' - tables hhdm m' pml4" using g agree(2) tables_frames [OF ok] by auto
qed

text \<open>Filling a frame that was handed out in the step.\<close>

lemma fill_step:
  assumes ok: "vm_ok hhdm (a, m) pml4" and step: "vm_step hhdm pml4 n s (a, m)"
    and f: "f \<in> pmm_frames a - tables hhdm m pml4" "f \<notin> pmm_frames (fst s)"
    and same: "\<And>x. x < f \<or> f + 4096 \<le> x \<Longrightarrow> m' x = m x"
  shows "vm_step hhdm pml4 n s (a, m')" "tables hhdm m' pml4 = tables hhdm m pml4"
    "arch_translate hhdm m' pml4 w = arch_translate hhdm m pml4 w"
proof -
  have keep: "m' x = m x" if "t \<in> tables hhdm m pml4" "t \<le> x" "x < t + 4096" for t x
  proof (rule same)
    have "t + 4096 \<le> f \<or> f + 4096 \<le> t"
      using frames.owned_disjoint [OF vm_okD(3) [OF ok], of t f] tables_frames [OF ok] that(1) f(1) by auto
    then show "x < f \<or> f + 4096 \<le> x" using that(2,3) by auto
  qed
  then have "misses_tables hhdm pml4 m m'" by (simp add: misses_tables_def)
  note agree = tables_agree [OF this]
  show "tables hhdm m' pml4 = tables hhdm m pml4" using agree(2) .
  show "arch_translate hhdm m' pml4 w = arch_translate hhdm m pml4 w" using agree(3) pml4_nonzero [OF ok] .
  have "vm_ok hhdm (a, m') pml4" by (rule vm_ok_agree [OF ok]) (use agree(1) vm_okD(3) [OF ok] in auto)
  moreover have "f \<in> touched hhdm pml4 s (a, m')" using f by (simp add: touched_def)
  then have "m' x = m x" if "\<not> in_pages (touched hhdm pml4 s (a, m')) x" for x
    using that same by (auto simp: in_pages_def not_le)
  then have "framed hhdm pml4 s (a, m')" using step agree(2) by (auto simp: vm_step_def framed_def touched_def)
  ultimately show "vm_step hhdm pml4 n s (a, m')" using step by (simp add: vm_step_def)
qed

lemma index_of_page: "v div 4096 = w div 4096 \<Longrightarrow> index_of v k = index_of w k"
  by (simp add: index_of_def shr_def power_add div_mult2_eq)

lemma mapped_same_page:
  assumes "mapped hhdm pml4 s v e s'" "v div 4096 = w div 4096"
  shows "mapped hhdm pml4 s w e s'"
  using assms(1) index_of_page [OF assms(2)] by (simp add: mapped_def page_path_def)

section \<open>One page of a segment\<close>

definition page_byte :: "bytes \<Rightarrow> addr \<Rightarrow> Elf64_Phdr \<Rightarrow> nat \<Rightarrow> byte" where
  "page_byte m base ph k = (if k < p_filesz ph then m (base + p_offset ph + k) else 0)"

lemma fill_page_content:
  assumes "j * 4096 + 4096 < 2 ^ 64" "base + p_offset ph + p_filesz ph < 2 ^ 64" "f + 4096 \<le> 2 ^ 64"
    and apart: "\<And>x. f \<le> x \<Longrightarrow> x < f + 4096 \<Longrightarrow> x < base + p_offset ph \<or> base + p_offset ph + p_filesz ph \<le> x"
  shows "fill_page m f base ph j x =
    (if f \<le> x \<and> x < f + 4096 then page_byte m base ph (j * 4096 + (x - f)) else m x)"
proof -
  let ?o = "j * 4096" and ?s = "base + p_offset ph" and ?n = "p_filesz ph"
  have off: "mul64 j PAGE_SIZE = ?o" using assms(1) by (simp add: mul64_def wrap64_def PAGE_SIZE_def)
  show ?thesis
  proof (cases "?n \<le> ?o")
    case True
    then show ?thesis unfolding fill_page_def off
      by (auto simp: memset_def memset_loop_eq PAGE_SIZE_def page_byte_def)
  next
    case False
    define c where "c = min 4096 (?n - ?o)"
    have c: "0 < c" "c \<le> 4096" "?o + c \<le> ?n" using False by (auto simp: c_def)
    have n64: "?n < 2 ^ 64" "base + p_offset ph < 2 ^ 64" "?s + ?o < 2 ^ 64" using assms(2) False by linarith+
    have cs: "(if add64 ?o PAGE_SIZE > ?n then sub64 ?n ?o else PAGE_SIZE) = c"
      using assms(1) False n64(1) by (auto simp: c_def add64_id sub64_id PAGE_SIZE_def)
    have src: "add64 (add64 base (p_offset ph)) ?o = ?s + ?o" using n64(2,3) by (simp add: add64_id)
    have "f \<le> ?s + ?o \<or> ?s + ?o + c \<le> f" using apart [of f] apart [of "?s + ?o"] c False by fastforce
    then have cp: "memcpy m f (?s + ?o) c = copied m f (?s + ?o) c" by (rule memcpy_copied)
    have "fill_page m f base ph j = (if c < 4096 then memset_loop (copied m f (?s + ?o) c) (f + c) 0 (4096 - c)
        else copied m f (?s + ?o) c)"
      unfolding fill_page_def Let_def off cs src cp using False assms(3) c(1)
      by (simp add: memset_def PAGE_SIZE_def add64_id)
    then have eq: "fill_page m f base ph j = (\<lambda>x. if f + c \<le> x \<and> x < f + 4096 then 0
        else if f \<le> x \<and> x < f + c then m (?s + ?o + (x - f)) else m x)"
      using c by (auto simp: memset_loop_eq copied_def fun_eq_iff)
    consider k where "x = f + k" "k < 4096" | "x < f \<or> f + 4096 \<le> x" by (metis le_iff_add nat_add_left_cancel_less not_less)
    then show ?thesis
    proof cases
      case (1 k)
      then have "?o + k < ?n \<longleftrightarrow> k < c" by (auto simp: c_def)
      then show ?thesis using 1 c by (simp add: eq page_byte_def add.assoc)
    next
      case 2
      then show ?thesis using c by (auto simp: eq)
    qed
  qed
qed

text \<open>A segment the loader can handle: its header and its content are not in memory the allocator manages.\<close>

definition segment_ok :: "vm \<Rightarrow> addr \<Rightarrow> addr \<Rightarrow> bool" where
  "segment_ok s base phdr \<longleftrightarrow> (let ph = read_phdr (snd s) phdr in
     outside (fst s) phdr 56 \<and> outside (fst s) (base + p_offset ph) (p_filesz ph) \<and>
     base + p_offset ph + p_filesz ph < 2 ^ 64 \<and> p_vaddr ph mod 4096 = 0 \<and> p_vaddr ph + p_memsz ph + 8192 < 2 ^ 48)"

definition page_loaded :: "nat \<Rightarrow> addr \<Rightarrow> vm \<Rightarrow> addr \<Rightarrow> Elf64_Phdr \<Rightarrow> nat \<Rightarrow> vm \<Rightarrow> bool" where
  "page_loaded hhdm space s base ph j s' \<longleftrightarrow> vm_step hhdm space 4 s s' \<and>
     (\<forall>k < 4096. resident hhdm space s' (p_vaddr ph + j * 4096 + k) (page_byte (snd s) base ph (j * 4096 + k))) \<and>
     (\<forall>w b. page_of w \<noteq> page_of (p_vaddr ph + j * 4096) \<longrightarrow> resident hhdm space s w b \<longrightarrow> resident hhdm space s' w b)"

lemma vm_step_phdr:
  assumes "vm_ok hhdm s pml4" "vm_step hhdm pml4 n s s'" "outside (fst s) phdr 56"
  shows "read_phdr (snd s') phdr = read_phdr (snd s) phdr"
  by (rule read_phdr_cong, rule vm_step_outside [OF assms(1,2) outsideD [OF assms(3)]])

lemma mapped_page_translate:
  assumes "mapped hhdm pml4 s v (paging_create_entry (pa hhdm f) flags) s'" "vm_ok hhdm s pml4"
    and "f \<in> pmm_frames (fst s)" "v mod 4096 = 0" "k < 4096"
  shows "arch_translate hhdm (snd s') pml4 (v + k) = Inr (f + k)"
proof -
  obtain a m where s: "s = (a, m)" by (cases s)
  note ok = vm_okD [OF assms(2) [unfolded s]]
  have f: "f mod 4096 = 0" "f + 4096 \<le> 2 ^ 64" "f \<noteq> 0" using frames.owned_page [OF ok(3)] assms(3) s by auto
  have "v div 4096 = (v + k) div 4096" "(v + k) mod 4096 = k" using assms(4,5) by (auto simp: mod_eq_0_iff_dvd elim!: dvdE)
  then have "mapped hhdm pml4 s (v + k) (paging_create_entry (pa hhdm f) flags) s'" "(v + k) mod 4096 = k"
    using mapped_same_page [OF assms(1)] by auto
  moreover have "pa hhdm f mod 4096 = 0" by (rule pa_page [OF f(1) ok(2,1)])
  ultimately show ?thesis
    using mapped_translate [of hhdm pml4 s "v + k" "pa hhdm f" flags s'] pa_less va_pa_offset [OF f(2,3) ok(1) assms(5)] by simp
qed

lemma MAP_USER_RW_odd: "odd MAP_USER_RW"
  by (simp add: MAP_USER_RW_def PG_PRESENT_def PG_RW_def PG_SUPER_def)

lemma alloc_page_failed: "arch_alloc_page a m = Some (0, a', m') \<Longrightarrow> pmm_lock a' \<and> no_frame hhdm a"
  unfolding no_frame_def pa_def
  by (auto simp: arch_alloc_page_def arch_alloc_page_sz_def acquire_lock_def Let_def split: if_splits prod.splits)

lemma map_and_fill:
  assumes ok: "vm_ok hhdm (a, m) space" and get: "arch_alloc_page a m = Some (f, a1, m1)" "f \<noteq> 0"
    and mp: "mapped hhdm space (a1, m1) v (paging_create_entry (pa hhdm f) MAP_USER_RW) (a2, m2)"
    and v: "v = p_vaddr ph + j * 4096" "v mod 4096 = 0" "j * 4096 + 4096 < 2 ^ 64"
    and img: "outside a (base + p_offset ph) (p_filesz ph)" "base + p_offset ph + p_filesz ph < 2 ^ 64"
  shows "page_loaded hhdm space (a, m) base ph j (a2, fill_page m2 f base ph j)"
proof -
  note al = alloc_step [OF ok get] and g = frames.get_frame [OF vm_okD(3) [OF ok] get]
  have ok1: "vm_ok hhdm (a1, m1) space" using al(1) by (simp add: vm_step_def)
  have st2: "vm_step hhdm space 3 (a1, m1) (a2, m2)" using mp by (simp add: mapped_def)
  have st: "vm_step hhdm space 4 (a, m) (a2, m2)" using vm_step_trans [OF al(1) st2] by simp
  have ok2: "vm_ok hhdm (a2, m2) space" using st by (simp add: vm_step_def)
  have f2: "f \<in> pmm_frames a2 - tables hhdm m2 space"
    using al(2) st2 grown_subset [of 3 a1 a2] by (auto simp: vm_step_def framed_def touched_def)
  have fm: "{f ..< f + 4096} \<subseteq> pmm_memory a" "f + 4096 \<le> 2 ^ 64" "f mod 4096 = 0"
    using frames.owned_memory [of a1 f] frames.owned_page [of a1 f] g by auto
  define m3 where "m3 = fill_page m2 f base ph j"
  have apart: "x < base + p_offset ph \<or> base + p_offset ph + p_filesz ph \<le> x" if "f \<le> x" "x < f + 4096" for x
    using outsideD [OF img(1), of x] fm(1) that by (meson atLeastLessThan_iff not_le subsetD)
  have fill: "m3 x = (if f \<le> x \<and> x < f + 4096 then page_byte m2 base ph (j * 4096 + (x - f)) else m2 x)" for x
    unfolding m3_def by (rule fill_page_content [OF v(3) img(2) fm(2) apart])
  have fs: "f \<notin> pmm_frames (fst (a, m))" using g by simp
  have far: "m3 x = m2 x" if "x < f \<or> f + 4096 \<le> x" for x using fill that by auto
  note fl = fill_step [OF ok2 st f2 fs far]
  have same: "page_byte m2 base ph k = page_byte m base ph k" for k
    using vm_step_outside [OF ok st] outsideD [OF img(1)] by (auto simp: page_byte_def)
  have "resident hhdm space (a2, m3) (v + k) (page_byte m base ph (j * 4096 + k))" if k: "k < 4096" for k
  proof -
    have "(v + k) mod 4096 = k" using v(2) k by (auto simp: mod_eq_0_iff_dvd elim!: dvdE)
    moreover have "arch_translate hhdm m3 space (v + k) = Inr (f + k)"
      using mapped_page_translate [OF mp ok1 _ v(2) k] al(2) fl(3) by simp
    moreover have "m3 (f + k) = page_byte m base ph (j * 4096 + k)" using fill same k by simp
    ultimately show ?thesis using f2 fl(2) by (auto simp: resident_def)
  qed
  moreover have "resident hhdm space (a2, m3) w b"
    if w: "page_of w \<noteq> page_of v" "resident hhdm space (a, m) w b" for w b
  proof (rule vm_step_keeps [OF ok fl(1) w(2)])
    show "arch_translate hhdm (snd (a2, m3)) space w = arch_translate hhdm (snd (a, m)) space w"
      using mapped_translate_other [OF mp, of w] w(1) al(3) fl(3) by (simp add: page_of_def)
  qed
  ultimately show ?thesis using fl(1) unfolding page_loaded_def v(1) m3_def by (simp add: add.assoc)
qed

text \<open>
  How a part of the loader can end without an error although a page was missing: the allocation
  failed last, and the lock is held.
\<close>

definition exhausted :: "nat \<Rightarrow> addr \<Rightarrow> nat \<Rightarrow> vm \<Rightarrow> vm \<Rightarrow> bool" where
  "exhausted hhdm space n s s' \<longleftrightarrow> pmm_lock (fst s') \<and> out_of_frames hhdm space n s"

lemma load_segment_page:
  assumes ok: "vm_ok hhdm s space" and seg: "segment_ok s base phdr"
  defines "ph \<equiv> read_phdr (snd s) phdr"
  assumes j: "j * 4096 < p_memsz ph"
  shows "case load_segment hhdm s base space phdr j of
      Inl e \<Rightarrow> e = Panic \<and> out_of_frames hhdm space 4 s
    | Inr s' \<Rightarrow> exhausted hhdm space 4 s s' \<or> page_loaded hhdm space s base ph j s'"
proof -
  obtain a m where s: "s = (a, m)" by (cases s)
  note ok' = ok [unfolded s] and okD = vm_okD [OF ok [unfolded s]]
  have out: "outside a phdr 56" "outside a (base + p_offset ph) (p_filesz ph)"
    and n: "base + p_offset ph + p_filesz ph < 2 ^ 64" "p_vaddr ph mod 4096 = 0" "p_vaddr ph + p_memsz ph + 8192 < 2 ^ 48"
    using seg by (auto simp: segment_ok_def ph_def s Let_def)
  define v where "v = p_vaddr ph + j * 4096"
  have v: "v mod 4096 = 0" "v + 8192 < 2 ^ 48" "j * 4096 + 4096 < 2 ^ 64" using n(2,3) j by (simp_all add: v_def)
  have v64: "add64 (p_vaddr ph) (mul64 j PAGE_SIZE) = v"
    using v(2,3) by (simp add: v_def mul64_def add64_def wrap64_def PAGE_SIZE_def)
  have here: "vm_step hhdm space 0 s s" using ok by (simp add: vm_step_def)
  obtain f a1 m1 where get: "arch_alloc_page a m = Some (f, a1, m1)"
    using frames.get_returns [OF okD(3)] by (metis option.exhaust surj_pair)
  show ?thesis
  proof (cases "f = 0")
    case True
    then have "pmm_lock a1" "no_frame hhdm a" using alloc_page_failed get by auto
    then have "out_of_frames hhdm space 0 s" using here unfolding out_of_frames_def by (metis fst_conv s)
    then show ?thesis using out_of_frames_step [OF here, of 0 4] True get \<open>pmm_lock a1\<close>
      by (simp add: load_segment_def s exhausted_def)
  next
    case False
    note al = alloc_step [OF ok' get False]
    have ok1: "vm_ok hhdm (a1, m1) space" using al(1) by (simp add: vm_step_def)
    have ph1: "read_phdr m1 phdr = ph" using vm_step_phdr [OF ok' al(1)] out by (simp add: ph_def s)
    note map = map_page_mapped [OF ok1 MAP_USER_RW_odd, of v "pa hhdm f"]
    show ?thesis
    proof (cases "arch_map_page hhdm (a1, m1) space v (pa hhdm f) MAP_USER_RW")
      case (Inl e)
      then have e: "e = Panic" "out_of_frames hhdm space 2 (a1, m1)" using map by simp_all
      have "out_of_frames hhdm space 4 (a, m)" by (rule out_of_frames_step [OF al(1) e(2)]) simp
      then show ?thesis using Inl get False ph1 v64 e(1) by (simp add: load_segment_def s)
    next
      case (Inr s2)
      obtain a2 m2 where s2: "s2 = (a2, m2)" by (cases s2)
      have mp: "mapped hhdm space (a1, m1) v (paging_create_entry (pa hhdm f) MAP_USER_RW) (a2, m2)"
        using map Inr s2 by simp
      have "vm_step hhdm space (1 + 3) (a, m) (a2, m2)" using mp by (intro vm_step_trans [OF al(1)]) (simp add: mapped_def)
      then have "read_phdr m2 phdr = ph" using vm_step_phdr [OF ok'] out by (fastforce simp: ph_def s)
      then show ?thesis using get False ph1 v64 Inr s2 map_and_fill [OF ok' get False mp v_def v(1,3) out(2) n(1)]
        by (simp add: load_segment_def s)
    qed
  qed
qed

section \<open>All pages of a segment\<close>

definition pages_loaded :: "nat \<Rightarrow> addr \<Rightarrow> vm \<Rightarrow> addr \<Rightarrow> Elf64_Phdr \<Rightarrow> nat \<Rightarrow> nat \<Rightarrow> vm \<Rightarrow> bool" where
  "pages_loaded hhdm space s base ph j n s' \<longleftrightarrow> vm_step hhdm space (4 * n) s s' \<and>
     (\<forall>k < n * 4096. resident hhdm space s' (p_vaddr ph + j * 4096 + k) (page_byte (snd s) base ph (j * 4096 + k))) \<and>
     (\<forall>w b. (\<forall>i < n. page_of w \<noteq> page_of (p_vaddr ph + (j + i) * 4096)) \<longrightarrow> resident hhdm space s w b \<longrightarrow>
        resident hhdm space s' w b)"

lemma segment_ok_step:
  assumes "vm_ok hhdm s space" "vm_step hhdm space n s s'" "segment_ok s base phdr"
  shows "segment_ok s' base phdr" "read_phdr (snd s') phdr = read_phdr (snd s) phdr"
    "page_byte (snd s') base (read_phdr (snd s) phdr) k = page_byte (snd s) base (read_phdr (snd s) phdr) k"
proof -
  have out: "outside (fst s) phdr 56" "outside (fst s) (base + p_offset (read_phdr (snd s) phdr)) (p_filesz (read_phdr (snd s) phdr))"
    using assms(3) by (simp_all add: segment_ok_def Let_def)
  show ph: "read_phdr (snd s') phdr = read_phdr (snd s) phdr" using vm_step_phdr [OF assms(1,2) out(1)] .
  have "pmm_memory (fst s') = pmm_memory (fst s)" using assms(2) by (simp add: vm_step_def grown_def)
  then show "segment_ok s' base phdr" using assms(3) ph by (simp add: segment_ok_def outside_def)
  show "page_byte (snd s') base (read_phdr (snd s) phdr) k = page_byte (snd s) base (read_phdr (snd s) phdr) k"
    using vm_step_outside [OF assms(1,2)] outsideD [OF out(2)] by (simp add: page_byte_def)
qed

lemma locked_no_page: "pmm_lock a \<Longrightarrow> arch_alloc_page a m = None"
  by (simp add: arch_alloc_page_def arch_alloc_page_sz_def acquire_lock_def)

lemma page_of_small: "w < 2 ^ 48 \<Longrightarrow> page_of w = w div 4096"
  by (simp add: page_of_def div_less_dividend less_mult_imp_div_less)

lemma pages_loaded_Suc:
  assumes "vm_ok hhdm s space" "segment_ok s base phdr"
  defines "ph \<equiv> read_phdr (snd s) phdr"
  assumes j: "\<And>i. i < Suc n \<Longrightarrow> (j + i) * 4096 < p_memsz ph"
    and first: "page_loaded hhdm space s base ph j s1" and rest: "pages_loaded hhdm space s1 base ph (j + 1) n s2"
  shows "pages_loaded hhdm space s base ph j (Suc n) s2"
proof -
  have st1: "vm_step hhdm space 4 s s1" using first by (simp add: page_loaded_def)
  have st: "vm_step hhdm space (4 * Suc n) s s2" using vm_step_trans [OF st1] rest by (fastforce simp: pages_loaded_def)
  have al: "p_vaddr ph mod 4096 = 0" "p_vaddr ph + p_memsz ph + 8192 < 2 ^ 48"
    using assms(2) by (simp_all add: segment_ok_def Let_def ph_def)
  note same = segment_ok_step(3) [OF assms(1) st1 assms(2), folded ph_def]
  obtain q where q: "p_vaddr ph = 4096 * q" using al(1) by (auto simp: mod_eq_0_iff_dvd)
  have pg: "page_of (p_vaddr ph + (j + i) * 4096 + k) = q + j + i" if "i < Suc n" "k < 4096" for i k
  proof -
    have "p_vaddr ph + (j + i) * 4096 + k < 2 ^ 48" using j [OF that(1)] al(2) that(2) by linarith
    then show ?thesis using that(2) q by (simp add: page_of_small algebra_simps)
  qed
  have "resident hhdm space s2 (p_vaddr ph + j * 4096 + k) (page_byte (snd s) base ph (j * 4096 + k))"
    if k: "k < Suc n * 4096" for k
  proof (cases "k < 4096")
    case True
    then have "\<forall>i < n. page_of (p_vaddr ph + j * 4096 + k) \<noteq> page_of (p_vaddr ph + (j + 1 + i) * 4096)"
      using pg [of 0 k] pg [of "Suc i" 0 for i] by auto
    then show ?thesis using first rest True by (auto simp: page_loaded_def pages_loaded_def)
  next
    case False
    then obtain k' where k': "k = 4096 + k'" "k' < n * 4096" using k by (auto simp: le_iff_add not_less)
    then show ?thesis using rest same by (fastforce simp: pages_loaded_def algebra_simps)
  qed
  moreover have "resident hhdm space s2 w b"
    if w: "\<forall>i < Suc n. page_of w \<noteq> page_of (p_vaddr ph + (j + i) * 4096)" "resident hhdm space s w b" for w b
  proof -
    have "page_of w \<noteq> page_of (p_vaddr ph + j * 4096)" using w(1) by (metis add_0_right zero_less_Suc)
    moreover have "\<forall>i < n. page_of w \<noteq> page_of (p_vaddr ph + (j + 1 + i) * 4096)"
      using w(1) by (metis Suc_less_eq add.assoc plus_1_eq_Suc)
    ultimately show ?thesis using first rest w(2) by (simp add: page_loaded_def pages_loaded_def)
  qed
  ultimately show ?thesis using st by (simp add: pages_loaded_def)
qed

lemma load_pages_segment:
  assumes "vm_ok hhdm s space" "segment_ok s base phdr"
    and "\<And>i. i < n \<Longrightarrow> (j + i) * 4096 < p_memsz (read_phdr (snd s) phdr)"
  shows "case load_pages hhdm s base space phdr j n of
      Inl e \<Rightarrow> out_of_frames hhdm space (4 * n) s
    | Inr s' \<Rightarrow> exhausted hhdm space (4 * n) s s' \<or> pages_loaded hhdm space s base (read_phdr (snd s) phdr) j n s'"
  using assms
proof (induction n arbitrary: s j)
  case 0
  then show ?case by (simp add: pages_loaded_def vm_step_def)
next
  case (Suc n)
  let ?ph = "read_phdr (snd s) phdr"
  have here: "vm_step hhdm space 0 s s" using Suc.prems(1) by (simp add: vm_step_def)
  have j: "j * 4096 < p_memsz ?ph" using Suc.prems(3) [of 0] by simp
  note one = load_segment_page [OF Suc.prems(1,2) j]
  show ?case
  proof (cases "load_segment hhdm s base space phdr j")
    case (Inl e)
    then show ?thesis using one out_of_frames_step [OF here, of 4 "4 * Suc n"] by simp
  next
    case (Inr s1)
    then consider "exhausted hhdm space 4 s s1" | "page_loaded hhdm space s base ?ph j s1" using one by auto
    then show ?thesis
    proof cases
      case 1
      then have "out_of_frames hhdm space (4 * Suc n) s" "pmm_lock (fst s1)"
        using out_of_frames_step [OF here, of 4 "4 * Suc n"] by (simp_all add: exhausted_def)
      then show ?thesis using Inr by (cases n) (simp_all add: exhausted_def load_segment_def locked_no_page)
    next
      case 2
      then have st: "vm_step hhdm space 4 s s1" by (simp add: page_loaded_def)
      note seg = segment_ok_step [OF Suc.prems(1) st Suc.prems(2)]
      have "vm_ok hhdm s1 space" using st by (simp add: vm_step_def)
      moreover have "(j + 1 + i) * 4096 < p_memsz ?ph" if "i < n" for i
        using Suc.prems(3) [of "Suc i"] that by simp
      ultimately have IH: "case load_pages hhdm s1 base space phdr (j + 1) n of
          Inl e \<Rightarrow> out_of_frames hhdm space (4 * n) s1
        | Inr s' \<Rightarrow> exhausted hhdm space (4 * n) s1 s' \<or> pages_loaded hhdm space s1 base ?ph (j + 1) n s'"
        using Suc.IH [of s1 "j + 1", unfolded seg(2)] seg(1) by blast
      have out: "out_of_frames hhdm space (4 * n) s1 \<Longrightarrow> out_of_frames hhdm space (4 * Suc n) s"
        using out_of_frames_step [OF st, of "4 * n" "4 * Suc n"] by simp
      show ?thesis using IH out Inr pages_loaded_Suc [OF Suc.prems(1,2) Suc.prems(3) 2]
        by (auto simp: exhausted_def split: sum.splits)
    qed
  qed
qed

section \<open>All segments\<close>

definition pages_of :: "Elf64_Phdr \<Rightarrow> nat" where
  "pages_of ph = ALIGN_UP (p_memsz ph) div PAGE_SIZE"

definition segment_pages :: "Elf64_Phdr \<Rightarrow> nat set" where
  "segment_pages ph = (\<lambda>i. page_of (p_vaddr ph + i * 4096)) ` {..< pages_of ph}"

definition phdr_at :: "vm \<Rightarrow> addr \<Rightarrow> nat \<Rightarrow> nat \<Rightarrow> Elf64_Phdr" where
  "phdr_at s phdr ent i = read_phdr (snd s) (phdr + i * ent)"

text \<open>The first \<open>c\<close> headers are loadable and their segments do not share pages; the next one, if any, is not loadable.\<close>

definition loadable :: "vm \<Rightarrow> addr \<Rightarrow> nat \<Rightarrow> addr \<Rightarrow> nat \<Rightarrow> nat \<Rightarrow> bool" where
  "loadable s base ent phdr c n \<longleftrightarrow> c \<le> n \<and> phdr + c * ent < 2 ^ 64 \<and>
     (\<forall>i < c. segment_ok s base (phdr + i * ent) \<and> p_type (phdr_at s phdr ent i) = PT_LOAD) \<and>
     (\<forall>i < c. \<forall>i' < i. segment_pages (phdr_at s phdr ent i') \<inter> segment_pages (phdr_at s phdr ent i) = {}) \<and>
     (c < n \<longrightarrow> outside (fst s) (phdr + c * ent) 56 \<and> p_type (phdr_at s phdr ent c) \<noteq> PT_LOAD)"

definition segments_resident :: "nat \<Rightarrow> addr \<Rightarrow> vm \<Rightarrow> addr \<Rightarrow> nat \<Rightarrow> addr \<Rightarrow> nat \<Rightarrow> vm \<Rightarrow> bool" where
  "segments_resident hhdm space s base ent phdr c s' \<longleftrightarrow> (\<forall>i < c. \<forall>k < p_memsz (phdr_at s phdr ent i).
     resident hhdm space s' (p_vaddr (phdr_at s phdr ent i) + k) (page_byte (snd s) base (phdr_at s phdr ent i) k))"

lemma pages_of_bounds:
  assumes "p_memsz ph + 4096 < 2 ^ 64"
  shows "i < pages_of ph \<Longrightarrow> i * 4096 < p_memsz ph" "p_memsz ph \<le> pages_of ph * 4096"
proof -
  note a = ALIGN_UP_eq [OF assms]
  then have e: "pages_of ph * 4096 = ALIGN_UP (p_memsz ph)" by (auto simp: pages_of_def PAGE_SIZE_def)
  then show "p_memsz ph \<le> pages_of ph * 4096" using a(2) by simp
  show "i * 4096 < p_memsz ph" if "i < pages_of ph"
  proof -
    have "(i + 1) * 4096 \<le> pages_of ph * 4096" using that by (intro mult_le_mono1) simp
    then show ?thesis using e a(3) by simp
  qed
qed

lemma load_phdrs_stop: "p_type (read_phdr (snd s) phdr) \<noteq> PT_LOAD \<Longrightarrow> load_phdrs hhdm s base space ent phdr n = Inr s"
  by (induction n) auto

lemma load_pages_locked: "pmm_lock (fst s) \<Longrightarrow> load_pages hhdm s base space phdr j n = (if n = 0 then Inr s else Inl Stuck)"
  by (cases n) (simp_all add: load_segment_def locked_no_page)

lemma load_phdrs_locked:
  "pmm_lock (fst s) \<Longrightarrow> load_phdrs hhdm s base space ent phdr n = Inr s' \<Longrightarrow> pmm_lock (fst s')"
  by (induction n arbitrary: phdr) (auto simp: load_pages_locked split: if_splits)

lemma loadable_step:
  assumes "vm_ok hhdm s space" "vm_step hhdm space k s s1" "loadable s base ent phdr (Suc c) (Suc n)"
  shows "loadable s1 base ent (phdr + ent) c n"
    and "i < c \<Longrightarrow> phdr_at s1 (phdr + ent) ent i = phdr_at s phdr ent (Suc i)"
    and "i < c \<Longrightarrow> page_byte (snd s1) base (phdr_at s phdr ent (Suc i)) x = page_byte (snd s) base (phdr_at s phdr ent (Suc i)) x"
proof -
  have seg: "segment_ok s base (phdr + Suc i * ent)" if "i < c" for i using assms(3) that by (auto simp: loadable_def)
  note step = segment_ok_step [OF assms(1,2) seg]
  show at: "phdr_at s1 (phdr + ent) ent i = phdr_at s phdr ent (Suc i)" if "i < c" for i
    using step(2) [OF that] by (simp add: phdr_at_def add.assoc)
  show "page_byte (snd s1) base (phdr_at s phdr ent (Suc i)) x = page_byte (snd s) base (phdr_at s phdr ent (Suc i)) x" if "i < c"
    using step(3) [OF that] by (simp add: phdr_at_def)
  have mem: "pmm_memory (fst s1) = pmm_memory (fst s)" using assms(2) by (simp add: vm_step_def grown_def)
  have last: "phdr_at s1 (phdr + ent) ent c = phdr_at s phdr ent (Suc c)" if "outside (fst s) (phdr + Suc c * ent) 56"
    using vm_step_phdr [OF assms(1,2) that] by (simp add: phdr_at_def add.assoc)
  show "loadable s1 base ent (phdr + ent) c n"
    using assms(3) step(1) at last mem unfolding loadable_def outside_def
    by (auto simp: add.assoc)
qed

lemma page_of_div:
  assumes "v mod 4096 = 0"
  shows "page_of (v + k div 4096 * 4096) = page_of (v + k)"
proof -
  obtain q where "v = 4096 * q" using assms by (auto simp: mod_eq_0_iff_dvd)
  then show ?thesis by (simp add: page_of_def)
qed

lemma segments_compose:
  assumes "vm_ok hhdm s space" "loadable s base ent phdr (Suc c) (Suc n)"
  defines "hdr \<equiv> phdr_at s phdr ent"
  assumes first: "pages_loaded hhdm space s base (phdr_at s phdr ent 0) 0 (pages_of (phdr_at s phdr ent 0)) s1"
    and rest: "segments_resident hhdm space s1 base ent (phdr + ent) c s2"
    and keep: "\<forall>w b. (\<forall>i < c. page_of w \<notin> segment_pages (phdr_at s1 (phdr + ent) ent i)) \<longrightarrow>
      resident hhdm space s1 w b \<longrightarrow> resident hhdm space s2 w b"
  shows "segments_resident hhdm space s base ent phdr (Suc c) s2 \<and> (\<forall>w b. (\<forall>i < Suc c. page_of w \<notin> segment_pages (hdr i)) \<longrightarrow>
    resident hhdm space s w b \<longrightarrow> resident hhdm space s2 w b)"
proof -
  have st: "vm_step hhdm space (4 * pages_of (phdr_at s phdr ent 0)) s s1" using first by (simp add: pages_loaded_def)
  note ld = loadable_step [OF assms(1) st assms(2), folded hdr_def]
  have seg: "segment_ok s base phdr" using assms(2) by (auto simp: loadable_def)
  then have al: "p_vaddr (hdr 0) mod 4096 = 0" "p_memsz (hdr 0) + 4096 < 2 ^ 64"
    by (simp_all add: segment_ok_def Let_def hdr_def phdr_at_def)
  have apart: "segment_pages (hdr 0) \<inter> segment_pages (hdr (Suc i)) = {}" if "i < c" for i
    using assms(2) that by (auto simp: loadable_def hdr_def)
  have keep': "resident hhdm space s2 w b"
    if "\<forall>i < c. page_of w \<notin> segment_pages (hdr (Suc i))" "resident hhdm space s1 w b" for w b
    using keep that ld(2) by simp
  have "resident hhdm space s2 (p_vaddr (hdr i) + k) (page_byte (snd s) base (hdr i) k)"
    if i: "i < Suc c" "k < p_memsz (hdr i)" for i k
  proof (cases i)
    case 0
    have k: "k < pages_of (hdr 0) * 4096" using pages_of_bounds(2) [OF al(2)] i 0 by simp
    then have "k div 4096 < pages_of (hdr 0)" by (simp add: less_mult_imp_div_less)
    then have "page_of (p_vaddr (hdr 0) + k) \<in> segment_pages (hdr 0)"
      unfolding segment_pages_def using page_of_div [OF al(1), of k] by (intro image_eqI [of _ _ "k div 4096"]) simp_all
    then have "\<forall>i < c. page_of (p_vaddr (hdr 0) + k) \<notin> segment_pages (hdr (Suc i))" using apart by blast
    moreover have "resident hhdm space s1 (p_vaddr (hdr 0) + k) (page_byte (snd s) base (hdr 0) k)"
      using first k by (simp add: pages_loaded_def hdr_def)
    ultimately show ?thesis using keep' 0 by simp
  next
    case (Suc i')
    then show ?thesis using rest i ld(2,3) by (simp add: segments_resident_def)
  qed
  moreover have "resident hhdm space s2 w b"
    if w: "\<forall>i < Suc c. page_of w \<notin> segment_pages (hdr i)" "resident hhdm space s w b" for w b
  proof (rule keep')
    show "\<forall>i < c. page_of w \<notin> segment_pages (hdr (Suc i))" using w(1) by simp
    have "\<forall>i < pages_of (hdr 0). page_of w \<noteq> page_of (p_vaddr (hdr 0) + (0 + i) * 4096)"
      using w(1) by (force simp: segment_pages_def)
    then show "resident hhdm space s1 w b" using first w(2) by (simp add: pages_loaded_def hdr_def)
  qed
  ultimately show ?thesis by (simp add: segments_resident_def hdr_def)
qed

lemma load_phdrs_segments:
  assumes "vm_ok hhdm s space" "loadable s base ent phdr c n"
  defines "hdr \<equiv> phdr_at s phdr ent" and "N \<equiv> \<Sum>i < c. 4 * pages_of (phdr_at s phdr ent i)"
  shows "case load_phdrs hhdm s base space ent phdr n of
      Inl e \<Rightarrow> out_of_frames hhdm space N s
    | Inr s' \<Rightarrow> exhausted hhdm space N s s' \<or> vm_step hhdm space N s s' \<and>
        segments_resident hhdm space s base ent phdr c s' \<and>
        (\<forall>w b. (\<forall>i < c. page_of w \<notin> segment_pages (hdr i)) \<longrightarrow> resident hhdm space s w b \<longrightarrow> resident hhdm space s' w b)"
  using assms(1,2) unfolding hdr_def N_def
proof (induction c arbitrary: s phdr n)
  case 0
  have "load_phdrs hhdm s base space ent phdr n = Inr s"
  proof (cases n)
    case (Suc m)
    then have "p_type (read_phdr (snd s) phdr) \<noteq> PT_LOAD" using 0(2) by (simp add: loadable_def phdr_at_def)
    then show ?thesis by (rule load_phdrs_stop)
  qed simp
  then show ?case using 0 by (simp add: segments_resident_def vm_step_def)
next
  case (Suc c)
  obtain n' where n: "n = Suc n'" using Suc.prems(2) by (cases n) (auto simp: loadable_def)
  define ph where "ph = phdr_at s phdr ent 0"
  let ?k = "4 * pages_of ph" and ?N = "\<Sum>i < Suc c. 4 * pages_of (phdr_at s phdr ent i)"
  have seg: "segment_ok s base phdr" and ty: "p_type ph = PT_LOAD" and lim: "phdr + ent < 2 ^ 64"
    using Suc.prems(2) by (auto simp: loadable_def ph_def)
  have rd: "read_phdr (snd s) phdr = ph" by (simp add: ph_def phdr_at_def)
  have mem: "p_memsz ph + 4096 < 2 ^ 64" using seg rd by (simp add: segment_ok_def Let_def)
  have N: "?N = ?k + (\<Sum>i < c. 4 * pages_of (phdr_at s phdr ent (Suc i)))"
    by (simp only: sum.lessThan_Suc_shift ph_def)
  have here: "vm_step hhdm space 0 s s" using Suc.prems(1) by (simp add: vm_step_def)
  note pages = load_pages_segment [OF Suc.prems(1) seg, of "pages_of ph" 0, unfolded rd, simplified, OF pages_of_bounds(1) [OF mem]]
  have run: "load_phdrs hhdm s base space ent phdr n =
      (case load_pages hhdm s base space phdr 0 (pages_of ph) of Inl e \<Rightarrow> Inl e
       | Inr s \<Rightarrow> load_phdrs hhdm s base space ent (phdr + ent) n')"
    using n ty rd add64_id [OF lim] by (simp add: pages_of_def split: sum.split)
  show ?case
  proof (cases "load_pages hhdm s base space phdr 0 (pages_of ph)")
    case (Inl e)
    then show ?thesis using run pages N out_of_frames_step [OF here, of ?k ?N] by simp
  next
    case (Inr s1)
    then consider "exhausted hhdm space ?k s s1" | "pages_loaded hhdm space s base ph 0 (pages_of ph) s1" using pages by auto
    then show ?thesis
    proof cases
      case 1
      then have "out_of_frames hhdm space ?N s" "pmm_lock (fst s1)"
        using out_of_frames_step [OF here, of ?k ?N] N by (simp_all add: exhausted_def)
      then show ?thesis using run Inr load_phdrs_locked [of s1] by (auto simp: exhausted_def split: sum.splits)
    next
      case 2
      then have st: "vm_step hhdm space ?k s s1" by (simp add: pages_loaded_def)
      have ok1: "vm_ok hhdm s1 space" using st by (simp add: vm_step_def)
      note ld = loadable_step [OF Suc.prems(1) st Suc.prems(2) [unfolded n]]
      have N': "?k + (\<Sum>i < c. 4 * pages_of (phdr_at s1 (phdr + ent) ent i)) = ?N" using N ld(2) by simp
      note IH = Suc.IH [OF ok1 ld(1)]
      show ?thesis
      proof (cases "load_phdrs hhdm s1 base space ent (phdr + ent) n'")
        case i: (Inl e)
        then show ?thesis using run Inr IH out_of_frames_step [OF st _ eq_imp_le [OF N']] by simp
      next
        case i: (Inr s2)
        have r: "load_phdrs hhdm s base space ent phdr n = Inr s2" using run Inr i by simp
        consider "exhausted hhdm space (\<Sum>i < c. 4 * pages_of (phdr_at s1 (phdr + ent) ent i)) s1 s2"
          | "vm_step hhdm space (\<Sum>i < c. 4 * pages_of (phdr_at s1 (phdr + ent) ent i)) s1 s2"
            "segments_resident hhdm space s1 base ent (phdr + ent) c s2"
            "\<forall>w b. (\<forall>i < c. page_of w \<notin> segment_pages (phdr_at s1 (phdr + ent) ent i)) \<longrightarrow>
              resident hhdm space s1 w b \<longrightarrow> resident hhdm space s2 w b"
          using IH i by auto
        then show ?thesis
        proof cases
          case 1
          then show ?thesis using r out_of_frames_step [OF st _ eq_imp_le [OF N']] by (simp add: exhausted_def)
        next
          case r2: 2
          show ?thesis
            using r vm_step_trans [OF st r2(1)] segments_compose [OF Suc.prems(1) Suc.prems(2) [unfolded n] 2 [unfolded ph_def] r2(2,3)]
            unfolding N' by simp
        qed
      qed
    qed
  qed
qed

section \<open>Properties\<close>


text \<open>An image with one segment of three bytes in the file and five in memory, and a header that is not loadable.\<close>

definition elf_bytes :: "nat \<Rightarrow> byte" where
  "elf_bytes k = (case map_of [(0, 127), (1, 69), (2, 76), (3, 70), (4, 2), (16, 2), (26, 64), (32, 64), (54, 56), (56, 2),
     (64, 1), (73, 1), (82, 64), (96, 3), (104, 5), (256, 10), (257, 20), (258, 30)] k of None \<Rightarrow> 0 | Some b \<Rightarrow> b)"

definition elf_vm :: vm where
  "elf_vm = (fst sample_vm, \<lambda>x. if 4096 \<le> x \<and> x < 8192 then elf_bytes (x - 4096) else snd sample_vm x)"

lemma elf_vm_memory: "x < 8192 \<Longrightarrow> x \<notin> pmm_memory (fst elf_vm)"
proof -
  obtain a m where s: "sample_vm = (a, m)" by (cases sample_vm)
  then have get: "arch_alloc_page page_pmm (\<lambda>_. 1) = Some (sample_pml4, a, m)"
    using sample_pagemap(1) by (simp add: arch_create_new_pagemap_def split: option.splits prod.splits)
  then have "pmm_memory (fst elf_vm) = pmm_memory page_pmm"
    using frames.get_frame [OF page_pmm_ok get sample_pagemap(2)] unfolding elf_vm_def s by simp
  then show "x < 8192 \<Longrightarrow> x \<notin> pmm_memory (fst elf_vm)"
    by (simp add: pmm_memory_def page_pmm_def zone_range_def sample_hhdm_def)
qed

lemma elf_vm_ok: "vm_ok sample_hhdm elf_vm sample_pml4"
proof -
  obtain a m where s: "sample_vm = (a, m)" by (cases sample_vm)
  note ok = sample_vm_ok [unfolded s]
  have "snd elf_vm x = m x" if t: "t \<in> tables sample_hhdm m sample_pml4" "t \<le> x" "x < t + 4096" for t x
  proof -
    have "{t ..< t + 4096} \<subseteq> pmm_memory a"
      using frames.owned_memory [OF vm_okD(3) [OF ok]] tables_frames [OF ok] t(1) by auto
    moreover have "fst elf_vm = a" unfolding elf_vm_def s by simp
    ultimately have "\<not> x < 8192" using elf_vm_memory [of x] t(2,3) by auto
    then show ?thesis unfolding elf_vm_def s by simp
  qed
  then have "misses_tables sample_hhdm sample_pml4 m (snd elf_vm)" by (simp add: misses_tables_def)
  note agree = tables_agree [OF this]
  show ?thesis using vm_ok_agree [OF ok vm_okD(3) [OF ok] subset_refl agree(1)] unfolding elf_vm_def s by simp
qed

lemma elf_load_bytes:
  "4096 \<le> a \<Longrightarrow> a + n \<le> 8192 \<Longrightarrow> load_bytes (snd elf_vm) a n = load_bytes (\<lambda>x. elf_bytes (x - 4096)) a n"
  by (rule load_bytes_cong) (simp add: elf_vm_def)

lemma load_bytes_numeral:
  "load_bytes m a (numeral k) = unat (m a) + 256 * load_bytes m (Suc a) (pred_numeral k)"
  by (simp only: numeral_eq_Suc load_bytes.simps)

lemma elf_vm_headers:
  "read_ehdr (snd elf_vm) 4096 = zero_ehdr\<lparr>e_ident := [127, 69, 76, 70, 2, 0, 0, 0, 0, 0, 0, 0, 0, 0, 0, 0], e_type := 2,
     e_entry := 4194304, e_phoff := 64, e_phentsize := 56, e_phnum := 2\<rparr>"
  "read_phdr (snd elf_vm) 4160 = \<lparr>p_type = 1, p_flags = 0, p_offset = 256, p_vaddr = 4194304, p_paddr = 0,
     p_filesz = 3, p_memsz = 5, p_align = 0\<rparr>"
  "p_type (read_phdr (snd elf_vm) 4216) = 0"
  by (simp_all add: read_ehdr_def read_phdr_def zero_ehdr_def load16_def load32_def load64_def elf_load_bytes load_bytes_numeral upt_conv_Cons)
    (simp_all add: elf_vm_def elf_bytes_def)

lemma elf_loadable: "loadable elf_vm 4096 56 4160 1 2"
proof -
  have out: "outside (fst elf_vm) p n" if "p + n \<le> 8192" for p n
    unfolding outside_def using elf_vm_memory that by (fastforce simp: set_eq_iff)
  have "segment_ok elf_vm 4096 4160" unfolding segment_ok_def Let_def elf_vm_headers(2) using out by simp
  then show ?thesis unfolding loadable_def phdr_at_def using elf_vm_headers(2,3) out [of 4216 56] by (simp add: PT_LOAD_def)
qed


end
