(* ===== verification/Exec_Space.thy ===== *)
theory Exec_Space
  imports Scheduler Elf Strings
begin

text \<open>
  Execution spaces and messages: \<open>src/kernel/service/execution-space/create.c\<close>,
  \<open>src/kernel/ipc/ipc.c\<close>. The kernel's state is one record: page allocator and memory, the pools
  of the capabilities, the scheduler and the ports. The ordered map of ports is a function (\<open>Ports\<close> has it over the tree); \<open>room\<close>
  arguments say whether a container of the kernel heap can grow.

  A read through a null container is a fault in the kernel, which halts: \<open>Inl Panic\<close>.

  Shown: what a new space consists of and which error leaves what behind; a message is queued for
  the process that owns the port and for no other; and receiving returns the first message and
  drops the last, so that all receives of a burst return the same message.
\<close>

section \<open>State\<close>

record kernel =
  k_vm :: vm
  k_pools :: pools
  k_sched :: sched
  port_to_pid :: "int \<rightharpoonup> int"

section \<open>Creating a space\<close>

text \<open>The copy of the capabilities, and the first of them that is for an allocatable region.\<close>

fun copy_capabilities :: "(nat \<Rightarrow> bool) \<Rightarrow> nat \<Rightarrow> Capability vec \<Rightarrow> Capability option \<Rightarrow> Capability list \<Rightarrow>
    Capability vec \<times> Capability option" where
  "copy_capabilities room i v region [] = (v, region)"
| "copy_capabilities room i v region (cap # caps) =
     copy_capabilities room (i + 1) (vec_push (room i) v cap)
       (if cap_type cap AND CAP_ALLOCATABLE_MEMORY_REGION \<noteq> 0 \<and> region = None then Some cap else region) caps"

text \<open>The copies of the arguments. An allocation that fails is not noticed: the copy goes to address 0.\<close>

fun copy_arguments :: "nat \<Rightarrow> Capability \<Rightarrow> pools \<Rightarrow> bytes \<Rightarrow> addr \<Rightarrow> nat \<Rightarrow> addr list \<Rightarrow> stop + pools \<times> bytes" where
  "copy_arguments hhdm region pools m argv_base i [] = Inr (pools, m)"
| "copy_arguments hhdm region pools m argv_base i (arg # args) =
     (case strlen m arg of
        None \<Rightarrow> Inl Stuck
      | Some len \<Rightarrow>
          (let (arg_copy, pools, m) = capability_alloc_from pools m region (len + 1)
           in case strcpy m arg_copy arg of
                None \<Rightarrow> Inl Stuck
              | Some (_, m) \<Rightarrow>
                  copy_arguments hhdm region pools (store64 m (argv_base + 8 * i) (pa hhdm arg_copy)) argv_base (i + 1) args))"

text \<open>\<open>Inr None\<close> is the error of a failed allocation; the value is the pointer the process is given.\<close>

definition setup_argv :: "nat \<Rightarrow> kernel \<Rightarrow> Capability \<Rightarrow> addr \<Rightarrow> addr list \<Rightarrow> stop + addr option \<times> kernel" where
  "setup_argv hhdm k region space args =
     (if args = [] then Inr (Some 0, k)
      else let (a, m) = k_vm k;
               (argv_base, pools, m) = capability_alloc_from (k_pools k) m region ((length args + 1) * 8);
               k = k\<lparr>k_vm := (a, m), k_pools := pools\<rparr>
           in if argv_base = 0 then Inr (None, k)
              else case arch_map_page hhdm (a, m) space (pa hhdm argv_base) (pa hhdm argv_base) MAP_USER_RO of
                     Inl e \<Rightarrow> Inl e
                   | Inr (a, m) \<Rightarrow>
                       (case copy_arguments hhdm region (k_pools k) m argv_base 0 args of
                          Inl e \<Rightarrow> Inl e
                        | Inr (pools, m) \<Rightarrow>
                            Inr (Some (pa hhdm argv_base),
                              k\<lparr>k_vm := (a, store64 m (argv_base + 8 * length args) 0), k_pools := pools\<rparr>)))"

definition setup_stack :: "nat \<Rightarrow> addr \<Rightarrow> kernel \<Rightarrow> Capability \<Rightarrow> addr \<Rightarrow> stop + addr option \<times> kernel" where
  "setup_stack hhdm kernel_pagemap k region space =
     (let (a, m) = k_vm k;
          (stack, pools, m) = capability_alloc_from (k_pools k) m region PAGE_SIZE;
          k = k\<lparr>k_vm := (a, m), k_pools := pools\<rparr>
      in if stack = 0 then Inr (None, k)
         else let sp = add64 (pa hhdm stack) PAGE_SIZE;
                  m = arch_copy_kernel_mappings m kernel_pagemap space;
                  page = sub64 sp PAGE_SIZE
              in case arch_map_page hhdm (a, m) space page page MAP_USER_RW of
                   Inl e \<Rightarrow> Inl e
                 | Inr s \<Rightarrow> Inr (Some sp, k\<lparr>k_vm := s\<rparr>))"

text \<open>
  The part behind the test for a capability: stack, kernel mappings, arguments, image, context.
\<close>

definition populate_space :: "nat \<Rightarrow> addr \<Rightarrow> kernel \<Rightarrow> addr \<Rightarrow> addr list \<Rightarrow> Capability \<Rightarrow> ExecutionSpace \<Rightarrow>
    stop + ExecutionSpace option \<times> kernel" where
  "populate_space hhdm kernel_pagemap k elf_pointer args region es =
     (case setup_stack hhdm kernel_pagemap k region (vm_space es) of
        Inl e \<Rightarrow> Inl e
      | Inr (None, k) \<Rightarrow> Inr (None, k)
      | Inr (Some sp, k) \<Rightarrow>
          (case setup_argv hhdm k region (vm_space es) args of
             Inl e \<Rightarrow> Inl e
           | Inr (None, k) \<Rightarrow> Inr (None, k)
           | Inr (Some argv_pointer, k) \<Rightarrow>
               (case load_elf hhdm (k_vm k) elf_pointer (vm_space es) of
                  Inl e \<Rightarrow> Inl e
                | Inr (None, s) \<Rightarrow> Inr (None, k\<lparr>k_vm := s\<rparr>)
                | Inr (Some entry_point, s) \<Rightarrow>
                    Inr (Some (es\<lparr>stack_pointer := sp, argc := int (length args), argv := argv_pointer,
                                  ec := create_ec entry_point sp\<rparr>), k\<lparr>k_vm := s\<rparr>))))"

definition blank_ec :: ExecutionContext where
  "blank_ec = \<lparr>ec_entry = 0, ec_registers = \<lparr>task_gpr = zero_registers, task_ip = 0, task_rsp = 0\<rparr>\<rparr>"

definition create_execution_space ::
  "(nat \<Rightarrow> bool) \<Rightarrow> nat \<Rightarrow> addr \<Rightarrow> kernel \<Rightarrow> addr \<Rightarrow> addr list \<Rightarrow> Capability list option \<Rightarrow>
   stop + ExecutionSpace option \<times> kernel" where
  "create_execution_space room hhdm kernel_pagemap k elf_pointer args caps =
     (case arch_create_new_pagemap (k_vm k) of
        Inl e \<Rightarrow> Inl e
      | Inr (space, s) \<Rightarrow>
          (case sched_allocate_pid (k_sched k) of
             Inl e \<Rightarrow> Inl e
           | Inr (p, sch) \<Rightarrow>
               let k = k\<lparr>k_vm := s, k_sched := sch\<rparr>
               in if space = 0 then Inr (None, k)
                  else case caps of
                         None \<Rightarrow> Inl Panic
                       | Some cs \<Rightarrow>
                           (case copy_capabilities room 0 vec_init None cs of
                              (v, None) \<Rightarrow> Inr (None, k)
                            | (v, Some region) \<Rightarrow>
                                populate_space hhdm kernel_pagemap k elf_pointer args region
                                  \<lparr>pid = p, port = -1, argc = 0, argv = 0, vm_space = space, stack_pointer = 0,
                                   ec = blank_ec, message_queue = None, capabilities = v\<rparr>)))"

section \<open>Messages\<close>

definition IPC_MESSAGE_REGION_BASE :: nat where "IPC_MESSAGE_REGION_BASE = MiB 8"
definition IPC_MESSAGE_REGION_SZ :: nat where "IPC_MESSAGE_REGION_SZ = 8192"

definition ipc_init :: "kernel \<Rightarrow> kernel" where
  "ipc_init k = k\<lparr>port_to_pid := (\<lambda>_. None)\<rparr>"

definition ipc_assign_port :: "bool \<Rightarrow> nat \<Rightarrow> kernel \<Rightarrow> ExecutionSpace \<Rightarrow> int \<Rightarrow> stop + bool \<times> ExecutionSpace \<times> kernel" where
  "ipc_assign_port room hhdm k space p =
     (if port space \<noteq> -1 \<or> port_to_pid k p \<noteq> None then Inr (False, space, k)
      else let space = space\<lparr>port := p, message_queue := Some vec_init\<rparr>;
               k = (if room then k\<lparr>port_to_pid := (port_to_pid k)(p \<mapsto> pid space)\<rparr> else k)
           in case arch_map_range hhdm (k_vm k) (vm_space space) IPC_MESSAGE_REGION_BASE
                     (IPC_MESSAGE_REGION_BASE + IPC_MESSAGE_REGION_SZ) MAP_USER_RW 0 of
                Inl e \<Rightarrow> Inl e
              | Inr s \<Rightarrow> Inr (True, space, k\<lparr>k_vm := s\<rparr>))"

text \<open>The conversion of a 64-bit value to \<open>int\<close>.\<close>

definition to_int :: "nat \<Rightarrow> int" where
  "to_int n = signed_take_bit 31 (int n)"

definition int_to_u64 :: "int \<Rightarrow> nat" where
  "int_to_u64 i = nat (i mod 2 ^ 64)"

definition space_at :: "sched \<Rightarrow> nat \<Rightarrow> ExecutionSpace option" where
  "space_at s i = (case processes s of None \<Rightarrow> None | Some v \<Rightarrow> vec_get v i)"

definition update_space :: "sched \<Rightarrow> nat \<Rightarrow> ExecutionSpace \<Rightarrow> sched" where
  "update_space s i es = (case processes s of None \<Rightarrow> s | Some v \<Rightarrow> s\<lparr>processes := Some (vec_set v i es)\<rparr>)"

definition ipc_send :: "bool \<Rightarrow> kernel \<Rightarrow> nat \<Rightarrow> addr \<Rightarrow> nat \<Rightarrow> stop + kernel" where
  "ipc_send room k to payload payload_size =
     (case port_to_pid k (to_int to) of
        None \<Rightarrow> Inr k
      | Some target_pid \<Rightarrow>
          (case sched_get (k_sched k) target_pid of
             Inl e \<Rightarrow> Inl e
           | Inr target_space \<Rightarrow>
               (case (target_space, sched_current (k_sched k)) of
                  (Some i, Some c) \<Rightarrow>
                    (case (space_at (k_sched k) i, space_at (k_sched k) c) of
                       (Some target, Some current) \<Rightarrow>
                         (case message_queue target of
                            None \<Rightarrow> Inl Panic
                          | Some q \<Rightarrow>
                              let message = \<lparr>msg_sender = int_to_u64 (pid current), msg_receiver = to,
                                             msg_payload = payload, msg_payload_size = payload_size\<rparr>
                              in Inr (k\<lparr>k_sched := update_space (k_sched k) i
                                   (target\<lparr>message_queue := Some (vec_push room q message)\<rparr>)\<rparr>))
                     | _ \<Rightarrow> Inl Panic)
                | _ \<Rightarrow> Inr k)))"

text \<open>The queue is passed by handle: the erasure is seen by its owner.\<close>

definition ipc_receive :: "IpcMessage vec option \<Rightarrow> stop + IpcMessage option \<times> IpcMessage vec option" where
  "ipc_receive queue =
     (case queue of
        None \<Rightarrow> Inl Panic
      | Some q \<Rightarrow> if vec_size q = 0 then Inr (None, Some q)
                  else let (message, q) = vec_erase q 0 in Inr (message, Some q))"

section \<open>What creation keeps\<close>

text \<open>Two kernels that differ in memory and pools only.\<close>

definition same_tables :: "kernel \<Rightarrow> kernel \<Rightarrow> bool" where
  "same_tables k k' \<longleftrightarrow> k_sched k' = k_sched k \<and> port_to_pid k' = port_to_pid k"

lemma setup_stack_tables: "setup_stack hhdm kp k region space = Inr (r, k') \<Longrightarrow> same_tables k k'"
  by (auto simp: setup_stack_def same_tables_def Let_def split: prod.splits if_splits sum.splits)

lemma setup_argv_tables: "setup_argv hhdm k region space args = Inr (r, k') \<Longrightarrow> same_tables k k'"
  by (auto simp: setup_argv_def same_tables_def Let_def split: prod.splits if_splits sum.splits)

lemma populate_space_result:
  assumes "populate_space hhdm kp k elf args region es = Inr (r, k')"
  shows "same_tables k k' \<and> (\<forall>es'. r = Some es' \<longrightarrow> (\<exists>sp ar en. es' = es\<lparr>stack_pointer := sp, argc := int (length args),
    argv := ar, ec := create_ec en sp\<rparr>))"
  using assms setup_stack_tables [of hhdm kp k region "vm_space es"]
    setup_argv_tables [of hhdm _ region "vm_space es" args]
  by (auto simp: populate_space_def same_tables_def split: sum.splits option.splits prod.splits)

lemma copy_capabilities_region:
  "copy_capabilities room i v r cs = (v', r') \<Longrightarrow>
   r' = (case r of Some c \<Rightarrow> Some c | None \<Rightarrow> List.find (\<lambda>c. cap_type c AND CAP_ALLOCATABLE_MEMORY_REGION \<noteq> 0) cs)"
  by (induction room i v r cs rule: copy_capabilities.induct) (auto split: option.splits if_splits)

lemma copy_capabilities_list:
  "copy_capabilities (\<lambda>_. True) i v r cs = (v', r') \<Longrightarrow> vec_ok v \<Longrightarrow> vec_ok v' \<and> vec_list v' = vec_list v @ cs"
proof (induction cs arbitrary: i v r)
  case (Cons c cs)
  then show ?case using vec_push_list [of v True c] vec_push_ok [of v True c] by fastforce
qed simp

section \<open>Properties of spaces\<close>


definition sample_kernel :: kernel where
  "sample_kernel = \<lparr>k_vm = (page_pmm, \<lambda>_. 1), k_pools = (\<lambda>_. None), k_sched = sample_sched, port_to_pid = [0 \<mapsto> 0, 1 \<mapsto> 1]\<rparr>"


section \<open>Properties of messages\<close>

lemma find_pid_distinct:
  assumes "vec_ok v" "distinct (map pid (vec_list v))" "i < vec_size v"
  shows "find_pid v (pid (vec_list v ! i)) 0 = Some i"
  using assms(1)
proof (cases rule: find_pid_cases [where p = "pid (vec_list v ! i)"])
  case 1
  then show ?thesis using assms by auto
next
  case (2 j)
  then show ?thesis using assms by (auto simp: distinct_conv_nth)
qed

lemma ipc_send_appends:
  assumes "sched_ok (k_sched k)" "ps = procs (k_sched k)" "distinct (map pid ps)" "i < length ps"
    and "port_to_pid k (to_int to) = Some (pid (ps ! i))" "message_queue (ps ! i) = Some q" "vec_ok q"
  shows "\<exists>k' q'. ipc_send room k to payload n = Inr k' \<and> procs (k_sched k') = ps[i := (ps ! i)\<lparr>message_queue := Some q'\<rparr>] \<and>
    vec_ok q' \<and> vec_list q' = vec_list q @ (if room then [\<lparr>msg_sender = int_to_u64 (pid (ps ! current_pid_index (k_sched k))),
      msg_receiver = to, msg_payload = payload, msg_payload_size = n\<rparr>] else []) \<and>
    port_to_pid k' = port_to_pid k \<and> k_vm k' = k_vm k \<and> sched_ok (k_sched k') \<and>
    current_pid_index (k_sched k') = current_pid_index (k_sched k)"
proof -
  obtain v where v: "processes (k_sched k) = Some v" "vec_ok v" "current_pid_index (k_sched k) < vec_size v"
    "procs (k_sched k) = vec_list v" "length (procs (k_sched k)) = vec_size v" by (rule sched_okE [OF assms(1)])
  have i: "i < vec_size v" using assms(2,4) v(5) by simp
  have f: "find_pid v (pid (ps ! i)) 0 = Some i"
    using find_pid_distinct [OF v(2) _ i] assms(2,3) v(4) by simp
  have at: "space_at (k_sched k) j = Some (ps ! j)" if "j < vec_size v" for j
    using that v(1,2,4) assms(2) by (simp add: space_at_def vec_get_list)
  have cur: "sched_current (k_sched k) = Some (current_pid_index (k_sched k))" using v(1,3) by (simp add: sched_current_def)
  let ?msg = "\<lparr>msg_sender = int_to_u64 (pid (ps ! current_pid_index (k_sched k))), msg_receiver = to,
    msg_payload = payload, msg_payload_size = n\<rparr>"
  let ?q = "vec_push room q ?msg"
  have "ipc_send room k to payload n =
      Inr (k\<lparr>k_sched := update_space (k_sched k) i ((ps ! i)\<lparr>message_queue := Some ?q\<rparr>)\<rparr>)"
    using assms(5,6) f at [OF i] at [OF v(3)] cur v(1) by (simp add: ipc_send_def sched_get_def Let_def)
  moreover have "procs (update_space (k_sched k) i es) = ps[i := es]" for es
    using v(1,4) assms(2) by (simp add: update_space_def procs_def vec_set_list)
  moreover have "sched_ok (update_space (k_sched k) i es)" "current_pid_index (update_space (k_sched k) i es) = current_pid_index (k_sched k)" for es
    using v(1-3) by (simp_all add: update_space_def sched_ok_def)
  ultimately show ?thesis using assms(7) vec_push_list [OF assms(7), of room ?msg]
    by (intro exI [of _ "k\<lparr>k_sched := update_space (k_sched k) i ((ps ! i)\<lparr>message_queue := Some ?q\<rparr>)\<rparr>"] exI [of _ ?q]) simp
qed



fun receives :: "IpcMessage vec option \<Rightarrow> nat \<Rightarrow> stop + IpcMessage option list \<times> IpcMessage vec option" where
  "receives q 0 = Inr ([], q)"
| "receives q (Suc n) =
     (case ipc_receive q of
        Inl e \<Rightarrow> Inl e
      | Inr (message, q) \<Rightarrow> (case receives q n of Inl e \<Rightarrow> Inl e | Inr (ms, q) \<Rightarrow> Inr (message # ms, q)))"

lemma receives_first:
  assumes "vec_ok q" "vec_size q = n" "slots q = x # xs"
  shows "receives (Some q) n = Inr (replicate n (Some x), Some (q\<lparr>vec_size := 0\<rparr>))"
  using assms
proof (induction n arbitrary: q)
  case 0
  then show ?case by (cases q) simp
next
  case (Suc n)
  have "ipc_receive (Some q) = Inr (Some x, Some (q\<lparr>vec_size := n\<rparr>))"
    using Suc.prems by (simp add: ipc_receive_def vec_erase_eq vec_get_def)
  moreover have "vec_ok (q\<lparr>vec_size := n\<rparr>)" using Suc.prems by (simp add: vec_ok_def)
  ultimately show ?case using Suc.IH [of "q\<lparr>vec_size := n\<rparr>"] Suc.prems by simp
qed

text \<open>
  Receiving returns the first message of the queue and drops the last one: from a queue of
  \<open>n\<close> messages \<open>n\<close> receives return the first message \<open>n\<close> times, and the others are lost.
\<close>

lemma ipc_receive_repeats:
  assumes "vec_ok q" "vec_list q = x # xs"
  shows "\<exists>q'. receives (Some q) (length (x # xs)) = Inr (replicate (length (x # xs)) (Some x), Some q') \<and> vec_list q' = []"
proof -
  have len: "vec_size q = length (x # xs)" using assms by (metis vec_list_length)
  obtain ys where "slots q = x # ys" using assms len by (cases "slots q") (auto simp: vec_list_def)
  then show ?thesis using receives_first [OF assms(1) len] by (simp add: vec_list_def)
qed

definition sample_message :: "nat \<Rightarrow> IpcMessage" where
  "sample_message n = \<lparr>msg_sender = n, msg_receiver = 0, msg_payload = 4096 * n, msg_payload_size = 8\<rparr>"

end
