(* ===== verification/Step_System.thy ===== *)
theory Step_System
  imports Main
begin

text \<open>
  A system that takes steps under an invariant: what every step keeps holds in every state that
  is reached, and what follows from it does too. The kernel's tables are such a system.
\<close>

locale step_system =
  fixes step :: "'s \<Rightarrow> 's \<Rightarrow> bool"
    and inv :: "'s \<Rightarrow> bool"
  assumes step_inv: "step s t \<Longrightarrow> inv s \<Longrightarrow> inv t"
begin

lemma reachable_inv: "step\<^sup>*\<^sup>* s t \<Longrightarrow> inv s \<Longrightarrow> inv t"
  by (induction rule: rtranclp_induct) (auto intro: step_inv)

text \<open>A quantity no step increases has its largest value at the start.\<close>

lemma reachable_decreasing:
  fixes f :: "'s \<Rightarrow> nat"
  assumes "step\<^sup>*\<^sup>* s t" "inv s" "\<And>u v. step u v \<Longrightarrow> inv u \<Longrightarrow> f v \<le> f u"
  shows "f t \<le> f s"
  using assms(1)
proof (induction rule: rtranclp_induct)
  case (step u v)
  have "inv u" using reachable_inv [OF step.hyps(1) assms(2)] .
  then show ?case using assms(3) [OF step.hyps(2)] step.IH by simp
qed simp

end

end
