(* ===== verification/Syscalls.thy ===== *)
theory Syscalls
  imports Exec_Space Step_System
begin

text \<open>
  The system calls: \<open>src/kernel/abi/syscalls.c\<close>, \<open>syscalls.h\<close> and the dispatcher of
  \<open>src/kernel/arch/x86/sys/syscall.c\<close>. Addresses below the kernel half go through the page map
  \<open>pml4\<close> that is loaded; an access to an address that is not mapped is a fault in the kernel,
  which halts. The kernel heap is an argument: its \<open>alloc\<close> and \<open>free\<close> work on the byte memory.

  Shown: the invariant of the kernel's tables under all system calls and timer interrupts, and
  that no queue is ever missing; that no process can be created by a system call; that a process
  that exits takes the last process out of the table; and that the dispatcher accepts one
  selector too many.
\<close>

section \<open>Access to user memory\<close>

definition linear :: "nat \<Rightarrow> bytes \<Rightarrow> addr \<Rightarrow> addr \<Rightarrow> addr option" where
  "linear hhdm m pml4 x =
     (if 2 ^ 47 \<le> x then Some x
      else case arch_translate hhdm m pml4 x of Inl _ \<Rightarrow> None | Inr a \<Rightarrow> if a = 0 then None else Some a)"

definition linear_ok :: "nat \<Rightarrow> bytes \<Rightarrow> addr \<Rightarrow> addr \<Rightarrow> nat \<Rightarrow> bool" where
  "linear_ok hhdm m pml4 x n \<longleftrightarrow> list_all (\<lambda>k. linear hhdm m pml4 (x + k) \<noteq> None) [0 ..< n]"

definition seen :: "nat \<Rightarrow> bytes \<Rightarrow> addr \<Rightarrow> bytes" where
  "seen hhdm m pml4 = (\<lambda>x. case linear hhdm m pml4 x of None \<Rightarrow> 0 | Some a \<Rightarrow> m a)"

definition read_u64 :: "nat \<Rightarrow> bytes \<Rightarrow> addr \<Rightarrow> addr \<Rightarrow> stop + nat" where
  "read_u64 hhdm m pml4 x = (if linear_ok hhdm m pml4 x 8 then Inr (load64 (seen hhdm m pml4) x) else Inl Panic)"

fun write_bytes :: "nat \<Rightarrow> bytes \<Rightarrow> addr \<Rightarrow> addr \<Rightarrow> nat \<Rightarrow> nat \<Rightarrow> stop + bytes" where
  "write_bytes hhdm m pml4 x 0 v = Inr m"
| "write_bytes hhdm m pml4 x (Suc n) v =
     (case linear hhdm m pml4 x of
        None \<Rightarrow> Inl Panic
      | Some a \<Rightarrow> write_bytes hhdm (m(a := of_nat v)) pml4 (x + 1) n (v div 256))"

fun user_memcpy :: "nat \<Rightarrow> bytes \<Rightarrow> addr \<Rightarrow> addr \<Rightarrow> addr \<Rightarrow> nat \<Rightarrow> stop + bytes" where
  "user_memcpy hhdm m pml4 dest src 0 = Inr m"
| "user_memcpy hhdm m pml4 dest src (Suc n) =
     (case (linear hhdm m pml4 dest, linear hhdm m pml4 src) of
        (Some d, Some s) \<Rightarrow> user_memcpy hhdm (m(d := m s)) pml4 (dest + 1) (src + 1) n
      | _ \<Rightarrow> Inl Panic)"

section \<open>The calls\<close>

record env =
  env_hhdm :: nat
  env_kernel_pagemap :: addr
  heap_alloc :: "bytes \<Rightarrow> int \<Rightarrow> addr \<times> bytes"
  heap_free :: "bytes \<Rightarrow> addr \<Rightarrow> bytes"
  heap_room :: "nat \<Rightarrow> bool"

text \<open>\<open>sys_exit\<close> does not return to its caller; it waits for the next timer interrupt.\<close>

datatype sysret = Returns int | Waits

definition IPC_MESSAGE_TYPE_RESPONSE :: nat where "IPC_MESSAGE_TYPE_RESPONSE = 2"

definition k_mem :: "kernel \<Rightarrow> bytes" where "k_mem k = snd (k_vm k)"

definition set_mem :: "kernel \<Rightarrow> bytes \<Rightarrow> kernel" where "set_mem k m = k\<lparr>k_vm := (fst (k_vm k), m)\<rparr>"

definition sys_stub :: "kernel \<Rightarrow> stop + sysret \<times> kernel" where
  "sys_stub k = Inr (Returns (-1), k)"

text \<open>The string is read up to its terminator, through the page map.\<close>

definition sys_log :: "env \<Rightarrow> addr \<Rightarrow> kernel \<Rightarrow> nat \<Rightarrow> addr \<Rightarrow> nat \<Rightarrow> stop + sysret \<times> kernel" where
  "sys_log env pml4 k fd buff len =
     (if \<not> is_user_address buff then Inr (Returns 1, k)
      else case strlen (seen (env_hhdm env) (k_mem k) pml4) buff of
             None \<Rightarrow> Inl Stuck
           | Some n \<Rightarrow>
               if \<not> linear_ok (env_hhdm env) (k_mem k) pml4 buff (n + 1) then Inl Panic
               else if n \<noteq> len then Inr (Returns 2, k)
               else Inr (Returns 0, k))"

text \<open>In the user's message the payload is at offset 16 and its size at offset 24.\<close>

definition sys_ipc_send :: "env \<Rightarrow> addr \<Rightarrow> kernel \<Rightarrow> nat \<Rightarrow> addr \<Rightarrow> stop + sysret \<times> kernel" where
  "sys_ipc_send env pml4 k to buff =
     (if \<not> is_user_address buff then Inr (Returns 1, k)
      else case read_u64 (env_hhdm env) (k_mem k) pml4 (buff + 24) of
             Inl e \<Rightarrow> Inl e
           | Inr sz \<Rightarrow>
               (let (payload, m) = heap_alloc env (k_mem k) (to_int sz)
                in case read_u64 (env_hhdm env) m pml4 (buff + 16) of
                     Inl e \<Rightarrow> Inl e
                   | Inr src \<Rightarrow>
                       (case read_u64 (env_hhdm env) m pml4 (buff + 24) of
                          Inl e \<Rightarrow> Inl e
                        | Inr len \<Rightarrow>
                            (case user_memcpy (env_hhdm env) m pml4 payload src len of
                               Inl e \<Rightarrow> Inl e
                             | Inr m \<Rightarrow>
                                 (case read_u64 (env_hhdm env) m pml4 (buff + 24) of
                                    Inl e \<Rightarrow> Inl e
                                  | Inr psz \<Rightarrow>
                                      (case ipc_send (heap_room env 0) (set_mem k m) to payload psz of
                                         Inl e \<Rightarrow> Inl e
                                       | Inr k \<Rightarrow> Inr (Returns 0, k)))))))"

text \<open>The stores into the answer and the copy of the payload behind its head.\<close>

definition write_response :: "nat \<Rightarrow> bytes \<Rightarrow> addr \<Rightarrow> addr \<Rightarrow> IpcMessage \<Rightarrow> stop + bytes" where
  "write_response hhdm m pml4 buff message =
     (case write_bytes hhdm m pml4 buff 8 (msg_sender message) of
        Inl e \<Rightarrow> Inl e
      | Inr m \<Rightarrow> (case write_bytes hhdm m pml4 (buff + 8) 4 IPC_MESSAGE_TYPE_RESPONSE of
          Inl e \<Rightarrow> Inl e
        | Inr m \<Rightarrow> (case write_bytes hhdm m pml4 (buff + 24) 8 (msg_payload_size message) of
            Inl e \<Rightarrow> Inl e
          | Inr m \<Rightarrow> user_memcpy hhdm m pml4 (buff + 16) (msg_payload message) (msg_payload_size message))))"

definition sys_ipc_receive :: "env \<Rightarrow> addr \<Rightarrow> kernel \<Rightarrow> addr \<Rightarrow> stop + sysret \<times> kernel" where
  "sys_ipc_receive env pml4 k buff =
     (case sched_current (k_sched k) of
        None \<Rightarrow> Inr (Returns 1, k)
      | Some i \<Rightarrow>
          (case space_at (k_sched k) i of
             None \<Rightarrow> Inl Panic
           | Some task \<Rightarrow>
               (case ipc_receive (message_queue task) of
                  Inl e \<Rightarrow> Inl e
                | Inr (None, q) \<Rightarrow> Inr (Returns 2, k)
                | Inr (Some message, q) \<Rightarrow>
                    let k = k\<lparr>k_sched := update_space (k_sched k) i (task\<lparr>message_queue := q\<rparr>)\<rparr>
                    in case write_response (env_hhdm env) (k_mem k) pml4 buff message of
                         Inl e \<Rightarrow> Inl e
                       | Inr m \<Rightarrow> Inr (Returns 0, set_mem k (heap_free env m (msg_payload message))))))"

definition sys_create_process :: "env \<Rightarrow> kernel \<Rightarrow> addr \<Rightarrow> nat \<Rightarrow> stop + sysret \<times> kernel" where
  "sys_create_process env k elf port_id =
     (if elf = 0 \<or> port_id = 0 then Inr (Returns 1, k)
      else case create_execution_space (heap_room env) (env_hhdm env) (env_kernel_pagemap env) k elf [] None of
             Inl e \<Rightarrow> Inl e
           | Inr (None, k) \<Rightarrow> Inr (Returns 2, k)
           | Inr (Some space, k) \<Rightarrow>
               (case ipc_assign_port (heap_room env 0) (env_hhdm env) k space (to_int port_id) of
                  Inl e \<Rightarrow> Inl e
                | Inr (ok, space, k) \<Rightarrow>
                    if \<not> ok then Inr (Returns 3, k)
                    else case sched_enqueue (heap_room env 1) (k_sched k) space of
                           Inl e \<Rightarrow> Inl e
                         | Inr s \<Rightarrow> Inr (Returns 0, k\<lparr>k_sched := s\<rparr>)))"

definition sys_exit :: "kernel \<Rightarrow> stop + sysret \<times> kernel" where
  "sys_exit k =
     (case sched_current (k_sched k) of
        None \<Rightarrow> Inr (Returns 1, k)
      | Some i \<Rightarrow>
          (case space_at (k_sched k) i of
             None \<Rightarrow> Inl Panic
           | Some current \<Rightarrow>
               (case sched_dequeue (k_sched k) (pid current) of
                  Inl e \<Rightarrow> Inl e
                | Inr (r, s) \<Rightarrow> if r \<noteq> 0 then Inl Panic else Inr (Waits, k\<lparr>k_sched := s\<rparr>))))"

section \<open>The dispatcher\<close>

definition syscall_count :: nat where "syscall_count = 6"

definition syscall_list :: "env \<Rightarrow> addr \<Rightarrow> nat \<Rightarrow> kernel \<Rightarrow> nat \<Rightarrow> nat \<Rightarrow> nat \<Rightarrow> (stop + sysret \<times> kernel) option" where
  "syscall_list env pml4 n k a0 a1 a2 =
     (if n = 0 then Some (sys_stub k)
      else if n = 1 then Some (sys_log env pml4 k a0 a1 a2)
      else if n = 2 then Some (sys_ipc_send env pml4 k a0 a1)
      else if n = 3 then Some (sys_ipc_receive env pml4 k a0)
      else if n = 4 then Some (sys_create_process env k a0 a1)
      else if n = 5 then Some (sys_exit k)
      else None)"

fun finish_call :: "GeneralRegisters \<Rightarrow> stop + sysret \<times> kernel \<Rightarrow> stop + GeneralRegisters option \<times> kernel" where
  "finish_call reg (Inl e) = Inl e"
| "finish_call reg (Inr (Returns i, k)) = Inr (Some (reg\<lparr>rax := of_int i\<rparr>), k)"
| "finish_call reg (Inr (Waits, k)) = Inr (None, k)"

text \<open>\<open>None\<close>: the call goes through the word behind the end of the table.\<close>

definition syscall_handler :: "env \<Rightarrow> addr \<Rightarrow> kernel \<Rightarrow> GeneralRegisters \<Rightarrow>
    (stop + GeneralRegisters option \<times> kernel) option" where
  "syscall_handler env pml4 k reg =
     (if unat (rax reg) > syscall_count then Some (Inl Panic)
      else map_option (finish_call reg)
         (syscall_list env pml4 (unat (rax reg)) k (unat (rdi reg)) (unat (rsi reg)) (unat (rdx reg))))"

section \<open>Steps and the invariant\<close>

inductive kstep :: "env \<Rightarrow> kernel \<Rightarrow> kernel \<Rightarrow> bool" for env where
  syscall: "syscall_handler env pml4 k reg = Some (Inr (r, k')) \<Longrightarrow> kstep env k k'"
| tick: "timer_irq (env_hhdm env) (k_sched k) f = Inr (out, s) \<Longrightarrow> kstep env k (k\<lparr>k_sched := s\<rparr>)"

inductive_cases kstepE: "kstep env k k'"

text \<open>
  Every space in storage has a queue, the processes have different identifiers that were given
  out, and the current index is in storage.
\<close>

definition queue_ok :: "ExecutionSpace \<Rightarrow> bool" where
  "queue_ok es \<longleftrightarrow> (case message_queue es of None \<Rightarrow> False | Some q \<Rightarrow> vec_ok q)"

definition sched_inv :: "sched \<Rightarrow> bool" where
  "sched_inv s \<longleftrightarrow> (case processes s of None \<Rightarrow> False | Some v \<Rightarrow>
     vec_ok v \<and> list_all queue_ok (slots v) \<and> distinct (map pid (vec_list v)) \<and>
     list_all (\<lambda>es. 0 \<le> pid es \<and> pid es < next_available_pid s) (vec_list v) \<and>
     (slots v = [] \<or> current_pid_index s < length (slots v)))"

lemma sched_invE:
  assumes "sched_inv s"
  obtains v where "processes s = Some v" "vec_ok v" "list_all queue_ok (slots v)" "distinct (map pid (vec_list v))"
    "list_all (\<lambda>es. 0 \<le> pid es \<and> pid es < next_available_pid s) (vec_list v)"
    "slots v = [] \<or> current_pid_index s < length (slots v)"
  using assms by (auto simp: sched_inv_def split: option.splits)

lemma map_pid_update:
  assumes "vec_ok v" "i < length (slots v)" "pid es = pid (slots v ! i)"
  shows "map pid (vec_list (vec_set v i es)) = map pid (vec_list v)"
proof (cases "i < vec_size v")
  case True
  then have "vec_list v ! i = slots v ! i" by (simp add: vec_list_def)
  then show ?thesis using True assms by (simp add: vec_set_list map_update list_update_same_conv)
next
  case False
  then show ?thesis using assms(1) by (simp add: vec_set_list list_update_beyond)
qed

lemma sched_inv_set:
  assumes "sched_inv s" "processes s = Some v" "i < length (slots v)" "pid es = pid (slots v ! i)" "queue_ok es"
  shows "sched_inv (s\<lparr>processes := Some (vec_set v i es)\<rparr>)"
proof -
  obtain "vec_ok v" "list_all queue_ok (slots v)" "distinct (map pid (vec_list v))"
    "list_all (\<lambda>es. 0 \<le> pid es \<and> pid es < next_available_pid s) (vec_list v)"
    "slots v = [] \<or> current_pid_index s < length (slots v)"
    using assms(1,2) by (auto elim: sched_invE)
  note v = this and pids = map_pid_update [OF this(1) assms(3,4)]
  have "list_all (\<lambda>p. 0 \<le> p \<and> p < next_available_pid s) (map pid (vec_list v))" using v(4) by (simp add: list_all_iff)
  then have "list_all (\<lambda>es. 0 \<le> pid es \<and> pid es < next_available_pid s) (vec_list (vec_set v i es))"
    unfolding pids [symmetric] by (simp add: list_all_iff)
  moreover have "list_all queue_ok (slots (vec_set v i es))"
    using v(2) assms(5) set_update_subset_insert [of "slots v" i es] by (auto simp: vec_set_def list_all_iff)
  moreover have "length (slots (vec_set v i es)) = length (slots v)" by (simp add: vec_set_def)
  ultimately show ?thesis using v pids by (auto simp: sched_inv_def)
qed

lemma sched_inv_update:
  assumes "sched_inv s" "space_at s i = Some es" "pid es' = pid es" "queue_ok es'"
  shows "sched_inv (update_space s i es')"
proof -
  obtain v where v: "processes s = Some v" by (rule sched_invE [OF assms(1)])
  then have "i < length (slots v)" "es = slots v ! i" using assms(2) by (auto simp: space_at_def vec_get_def split: if_splits)
  then show ?thesis using sched_inv_set [OF assms(1) v _ _ assms(4)] assms(3) v by (simp add: update_space_def)
qed

lemma space_at_queue: "sched_inv s \<Longrightarrow> space_at s i = Some es \<Longrightarrow> queue_ok es"
  by (auto simp: space_at_def vec_get_def list_all_iff elim!: sched_invE split: if_splits)

lemma current_space:
  assumes "sched_inv s" "sched_current s = Some i"
  obtains es where "space_at s i = Some es" "queue_ok es"
proof -
  obtain v where v: "processes s = Some v" "vec_ok v" "slots v = [] \<or> current_pid_index s < length (slots v)"
    using assms(1) by (auto elim: sched_invE)
  then have "i = current_pid_index s" "vec_size v \<noteq> 0" using assms(2) by (auto simp: sched_current_def split: if_splits)
  then have "i < length (slots v)" using v by (auto simp: vec_ok_def)
  then have "space_at s i = Some (slots v ! i)" using v by (simp add: space_at_def vec_get_def)
  then show ?thesis using that space_at_queue [OF assms(1)] by blast
qed

lemma reschedule_inv: "sched_inv s \<Longrightarrow> sched_reschedule s regs = Inr (r, s') \<Longrightarrow> sched_inv s'"
proof -
  assume inv: "sched_inv s" and r: "sched_reschedule s regs = Inr (r, s')"
  obtain v where v: "processes s = Some v" "vec_ok v" using inv by (auto elim: sched_invE)
  show "sched_inv s'"
  proof (cases "vec_size v = 0")
    case False
    let ?c = "current_pid_index s"
    obtain cur where c: "vec_get v ?c = Some cur" using r v False by (auto simp: sched_reschedule_def split: option.splits)
    let ?v = "vec_set v ?c (save_registers regs cur)"
    have c': "?c < length (slots v)" "cur = slots v ! ?c" using c by (auto simp: vec_get_def split: if_splits)
    have "queue_ok cur" using space_at_queue [OF inv, of ?c] v(1) c by (simp add: space_at_def)
    then have "queue_ok (save_registers regs cur)" by (simp add: queue_ok_def)
    then have "sched_inv (s\<lparr>processes := Some ?v\<rparr>)" using sched_inv_set [OF inv v(1) c'(1)] c'(2) by simp
    moreover have "(?c + 1) mod vec_size v < length (slots ?v)"
      using v(2) False by (auto simp: vec_set_def vec_ok_def intro: less_le_trans [OF mod_less_divisor])
    moreover have "s' = s\<lparr>processes := Some ?v, current_pid_index := (?c + 1) mod vec_size v\<rparr>"
      using r v False c by (auto simp: sched_reschedule_def Let_def split: option.splits)
    ultimately show ?thesis by (auto simp: sched_inv_def)
  qed (use r v inv in \<open>simp add: sched_reschedule_def\<close>)
qed

lemma dequeue_inv: "sched_inv s \<Longrightarrow> sched_dequeue s p = Inr (r, s') \<Longrightarrow> sched_inv s'"
proof -
  assume inv: "sched_inv s" and r: "sched_dequeue s p = Inr (r, s')"
  obtain v where v: "processes s = Some v" "vec_ok v" using inv by (auto elim: sched_invE)
  show "sched_inv s'"
  proof (cases "find_pid v p 0")
    case (Some i)
    define w where "w = v\<lparr>vec_size := vec_size v - 1\<rparr>"
    have l: "vec_list w = butlast (vec_list v)" "slots w = slots v" "vec_ok w"
      using vec_erase_list [OF v(2), of i] v(2) by (simp_all add: vec_erase_eq w_def vec_ok_def)
    have "distinct (map pid (butlast (vec_list v)))" if "distinct (map pid (vec_list v))"
      using that by (simp add: map_butlast distinct_butlast)
    then have "sched_inv (s\<lparr>processes := Some w\<rparr>)"
      using inv v by (auto simp: sched_inv_def l list_all_iff dest: in_set_butlastD)
    then show ?thesis using r v Some by (simp add: sched_dequeue_def vec_erase_eq w_def)
  qed (use r v inv in \<open>simp add: sched_dequeue_def\<close>)
qed

lemma sched_inv_next: "sched_inv s \<Longrightarrow> sched_inv (s\<lparr>next_available_pid := next_available_pid s + 1\<rparr>)"
  by (auto simp: sched_inv_def list_all_iff split: option.splits)

lemma ipc_send_inv:
  assumes "sched_inv (k_sched k)"
  shows "\<exists>k'. ipc_send room k to payload n = Inr k' \<and> sched_inv (k_sched k')"
proof (cases "port_to_pid k (to_int to)")
  case (Some p)
  obtain v where v: "processes (k_sched k) = Some v" "vec_ok v" using assms by (auto elim: sched_invE)
  show ?thesis
  proof (cases "find_pid v p 0 = None \<or> sched_current (k_sched k) = None")
    case True
    then show ?thesis using Some v assms by (auto simp: ipc_send_def sched_get_def split: option.splits)
  next
    case False
    then obtain i c where ic: "find_pid v p 0 = Some i" "sched_current (k_sched k) = Some c" by auto
    obtain cur where cur: "space_at (k_sched k) c = Some cur" by (rule current_space [OF assms ic(2)])
    have "i < vec_size v" using ic(1) by (cases rule: find_pid_cases [OF v(2), of p]) auto
    then obtain es where es: "space_at (k_sched k) i = Some es" using v by (simp add: space_at_def vec_get_list)
    then obtain q where q: "message_queue es = Some q" "vec_ok q"
      using space_at_queue [OF assms es] by (auto simp: queue_ok_def split: option.splits)
    have "queue_ok (es\<lparr>message_queue := Some (vec_push room q msg)\<rparr>)" for msg using q(2) by (simp add: queue_ok_def)
    then show ?thesis using Some v ic cur es q(1) sched_inv_update [OF assms es]
      by (simp add: ipc_send_def sched_get_def Let_def)
  qed
qed (use assms in \<open>simp add: ipc_send_def\<close>)

lemma ipc_receive_ok:
  assumes "queue_ok es"
  obtains r q where "ipc_receive (message_queue es) = Inr (r, Some q)" "vec_ok q"
proof -
  obtain p where p: "message_queue es = Some p" "vec_ok p" using assms by (auto simp: queue_ok_def split: option.splits)
  show ?thesis
  proof (cases "vec_size p = 0")
    case True
    then show ?thesis using that [of None p] p by (simp add: ipc_receive_def)
  next
    case False
    then show ?thesis using that [of "vec_get p 0" "p\<lparr>vec_size := vec_size p - 1\<rparr>"] p
      by (simp add: ipc_receive_def vec_erase_eq vec_ok_def)
  qed
qed

lemma set_mem_sched [simp]: "k_sched (set_mem k m) = k_sched k"
  by (simp add: set_mem_def)

lemma create_process_result:
  assumes "sys_create_process env k elf port_id = Inr (r, k')"
  shows "(r = Returns 1 \<and> k' = k \<or> r = Returns 2) \<and>
    (k_sched k' = k_sched k \<or> k_sched k' = (k_sched k)\<lparr>next_available_pid := next_available_pid (k_sched k) + 1\<rparr>)"
  using assms by (auto simp: sys_create_process_def create_execution_space_def sched_allocate_pid_def Let_def
      split: if_splits sum.splits prod.splits)

lemma syscall_inv:
  assumes "sched_inv (k_sched k)" "syscall_list env pml4 n k a0 a1 a2 = Some (Inr (r, k'))"
  shows "sched_inv (k_sched k')"
proof -
  consider "n = 0" | "n = 1" | "n = 2" | "n = 3" | "n = 4" | "n = 5"
    using assms(2) by (fastforce simp: syscall_list_def split: if_splits)
  then show ?thesis
  proof cases
    case 3
    then have "k' = k \<or> (\<exists>m to p sz. ipc_send (heap_room env 0) (set_mem k m) to p sz = Inr k')"
      using assms(2) by (auto simp: syscall_list_def sys_ipc_send_def split: if_splits sum.splits prod.splits)
    then show ?thesis using ipc_send_inv assms(1) by (metis set_mem_sched sum.inject(2))
  next
    case 4
    then have c: "sys_ipc_receive env pml4 k a0 = Inr (r, k')" using assms(2) by (simp add: syscall_list_def)
    show ?thesis
    proof (cases "sched_current (k_sched k)")
      case (Some i)
      obtain es where es: "space_at (k_sched k) i = Some es" "queue_ok es" by (rule current_space [OF assms(1) Some])
      obtain x q where x: "ipc_receive (message_queue es) = Inr (x, Some q)" "vec_ok q" by (rule ipc_receive_ok [OF es(2)])
      have "queue_ok (es\<lparr>message_queue := Some q\<rparr>)" using x(2) by (simp add: queue_ok_def)
      then have "sched_inv (update_space (k_sched k) i (es\<lparr>message_queue := Some q\<rparr>))"
        using sched_inv_update [OF assms(1) es(1)] by simp
      then show ?thesis using c Some es x assms(1)
        by (auto simp: sys_ipc_receive_def Let_def split: option.splits sum.splits)
    qed (use c assms(1) in \<open>simp add: sys_ipc_receive_def\<close>)
  next
    case 5
    then have "sys_create_process env k a0 a1 = Inr (r, k')" using assms(2) by (simp add: syscall_list_def)
    from create_process_result [OF this] show ?thesis using assms(1) sched_inv_next by auto
  next
    case 6
    then have "sys_exit k = Inr (r, k')" using assms(2) by (simp add: syscall_list_def)
    then show ?thesis using assms(1) dequeue_inv
      by (auto simp: sys_exit_def split: option.splits sum.splits if_splits)
  qed (use assms in \<open>auto simp: syscall_list_def sys_stub_def sys_log_def split: if_splits option.splits\<close>)
qed

lemma finish_call_state: "finish_call reg z = Inr (r, k') \<Longrightarrow> \<exists>x. z = Inr (x, k')"
  by (induction reg z rule: finish_call.induct) auto

lemma kstep_inv: "kstep env k k' \<Longrightarrow> sched_inv (k_sched k) \<Longrightarrow> sched_inv (k_sched k')"
proof (erule kstepE)
  fix pml4 reg r assume "sched_inv (k_sched k)" "syscall_handler env pml4 k reg = Some (Inr (r, k'))"
  moreover from this obtain x where
    "syscall_list env pml4 (unat (rax reg)) k (unat (rdi reg)) (unat (rsi reg)) (unat (rdx reg)) = Some (Inr (x, k'))"
    using finish_call_state by (fastforce simp: syscall_handler_def split: if_splits)
  ultimately show "sched_inv (k_sched k')" using syscall_inv by blast
next
  fix f out s assume "sched_inv (k_sched k)" "timer_irq (env_hhdm env) (k_sched k) f = Inr (out, s)" "k' = k\<lparr>k_sched := s\<rparr>"
  then show "sched_inv (k_sched k')" using reschedule_inv
    by (auto simp: timer_irq_def split: sum.splits option.splits)
qed

section \<open>The number of processes\<close>

definition nproc :: "sched \<Rightarrow> nat" where
  "nproc s = (case processes s of None \<Rightarrow> 0 | Some v \<Rightarrow> vec_size v)"

lemma nproc_procs: "sched_inv s \<Longrightarrow> length (procs s) = nproc s"
  by (auto simp: procs_def nproc_def elim!: sched_invE)

lemma nproc_update [simp]: "nproc (update_space s i es) = nproc s"
  by (simp add: nproc_def update_space_def split: option.splits)

lemma nproc_reschedule: "sched_reschedule s regs = Inr (r, s') \<Longrightarrow> nproc s' = nproc s"
  by (auto simp: sched_reschedule_def nproc_def Let_def split: option.splits if_splits)

lemma nproc_send: "ipc_send room k to p n = Inr k' \<Longrightarrow> nproc (k_sched k') = nproc (k_sched k)"
  by (auto simp: ipc_send_def Let_def split: option.splits sum.splits)

lemma nproc_syscall:
  assumes "syscall_list env pml4 n k a0 a1 a2 = Some (Inr (r, k'))"
  shows "nproc (k_sched k') \<le> nproc (k_sched k)"
proof -
  have "sys_ipc_send env pml4 k a0 a1 = Inr (r, k') \<Longrightarrow> nproc (k_sched k') = nproc (k_sched k)"
    by (auto simp: sys_ipc_send_def dest!: nproc_send split: if_splits sum.splits prod.splits)
  moreover have "sys_ipc_receive env pml4 k a0 = Inr (r, k') \<Longrightarrow> nproc (k_sched k') = nproc (k_sched k)"
    by (auto simp: sys_ipc_receive_def Let_def split: option.splits sum.splits)
  moreover have "sys_create_process env k a0 a1 = Inr (r, k') \<Longrightarrow> nproc (k_sched k') = nproc (k_sched k)"
    using create_process_result [of env k a0 a1 r k'] by (auto simp: nproc_def)
  moreover have "sys_exit k = Inr (r, k') \<Longrightarrow> nproc (k_sched k') \<le> nproc (k_sched k)"
    by (auto simp: sys_exit_def sched_dequeue_def nproc_def vec_erase_eq split: option.splits sum.splits if_splits)
  ultimately show ?thesis using assms
    by (auto simp: syscall_list_def sys_stub_def sys_log_def split: if_splits option.splits)
qed

lemma nproc_step: "kstep env k k' \<Longrightarrow> nproc (k_sched k') \<le> nproc (k_sched k)"
proof (erule kstepE)
  fix pml4 reg r assume "syscall_handler env pml4 k reg = Some (Inr (r, k'))"
  then obtain x where
    "syscall_list env pml4 (unat (rax reg)) k (unat (rdi reg)) (unat (rsi reg)) (unat (rdx reg)) = Some (Inr (x, k'))"
    using finish_call_state by (fastforce simp: syscall_handler_def split: if_splits)
  then show ?thesis by (rule nproc_syscall)
next
  fix f out s assume "timer_irq (env_hhdm env) (k_sched k) f = Inr (out, s)" "k' = k\<lparr>k_sched := s\<rparr>"
  then show ?thesis using nproc_reschedule by (auto simp: timer_irq_def split: sum.splits option.splits)
qed

section \<open>Properties\<close>

interpretation kernel: step_system "kstep env" "\<lambda>k. sched_inv (k_sched k)" for env
  by unfold_locales (rule kstep_inv)


lemma sample_sched_inv: "sched_inv sample_sched"
  by (simp add: sched_inv_def sample_sched_def vec_ok_def vec_list_def sample_space_def queue_ok_def)

definition sample_env :: env where
  "sample_env = \<lparr>env_hhdm = sample_hhdm, env_kernel_pagemap = 4096, heap_alloc = (\<lambda>m sz. (0, m)), heap_free = (\<lambda>m p. m),
     heap_room = (\<lambda>_. True)\<rparr>"


text \<open>
  The system call that creates a process never does: it returns 1 for a missing argument,
  2 if there is no page for the page map, and otherwise it faults, because it passes a null
  vector of capabilities. The process table stays as it is.
\<close>

lemma sys_create_process_never_creates:
  assumes "sys_create_process env k elf port_id = Inr (r, k')"
  shows "(r = Returns 1 \<or> r = Returns 2) \<and> processes (k_sched k') = processes (k_sched k)"
  using create_process_result [OF assms] by auto

text \<open>
  A process that exits stays in the table and keeps the processor's next turn order, unless
  it is the last of the table; the process that leaves is the last one.
\<close>

lemma sys_exit_removes_last:
  assumes "sched_ok (k_sched k)"
  shows "\<exists>k'. sys_exit k = Inr (Waits, k') \<and> procs (k_sched k') = butlast (procs (k_sched k)) \<and>
    current_pid_index (k_sched k') = current_pid_index (k_sched k) \<and>
    (current_pid_index (k_sched k) + 1 < length (procs (k_sched k)) \<longrightarrow>
       procs (k_sched k') ! current_pid_index (k_sched k') = procs (k_sched k) ! current_pid_index (k_sched k))"
proof -
  let ?c = "current_pid_index (k_sched k)"
  obtain v where v: "processes (k_sched k) = Some v" "vec_ok v" "?c < vec_size v" "procs (k_sched k) = vec_list v"
    "length (procs (k_sched k)) = vec_size v" by (rule sched_okE [OF assms])
  have at: "space_at (k_sched k) ?c = Some (vec_list v ! ?c)" using v by (simp add: space_at_def vec_get_list)
  have "pid (vec_list v ! ?c) \<in> pid ` set (vec_list v)" using v by simp
  then obtain j where j: "find_pid v (pid (vec_list v ! ?c)) 0 = Some j"
    by (cases rule: find_pid_cases [OF v(2), of "pid (vec_list v ! ?c)"]) auto
  let ?s = "(k_sched k)\<lparr>processes := Some (snd (vec_erase v j))\<rparr>"
  have "sys_exit k = Inr (Waits, k\<lparr>k_sched := ?s\<rparr>)"
    using v at j by (simp add: sys_exit_def sched_current_def sched_dequeue_def)
  moreover have "procs ?s = butlast (procs (k_sched k))" using vec_erase_list [OF v(2), of j] v(4) by (simp add: procs_def)
  ultimately show ?thesis by (simp add: nth_butlast)
qed

text \<open>
  The dispatcher calls through the word behind its table exactly for the selector 6.
\<close>

lemma syscall_handler_off_by_one:
  "syscall_handler env pml4 k reg = None \<longleftrightarrow> rax reg = 6"
proof -
  have "rax reg = 6 \<longleftrightarrow> unat (rax reg) = 6" by (simp add: word_unat_eq_iff)
  then show ?thesis by (auto simp: syscall_handler_def syscall_list_def syscall_count_def)
qed

end
