(* ===== verification/Interrupts.thy ===== *)
theory Interrupts
  imports Scheduler
begin

text \<open>
  Descriptor tables and interrupts: \<open>src/kernel/arch/x86/int/gdt.c\<close>, \<open>idt.c\<close>, \<open>interrupts.c\<close> and the legacy
  controller \<open>hardware/legacy/pic/pic.c\<close>. The tables lie in the byte memory at the offsets of their packed
  structures, as the processor reads them; instructions that load a table register, and port
  and device writes, are events of a log.

  Shown: the processor reads back from the tables what the code means to put there, the
  segments, the base of the task state and the gate of every exception; an interrupt is acknowledged
  exactly once, at the controller in use.
\<close>

section \<open>The global descriptor table\<close>

definition store8 :: "bytes \<Rightarrow> addr \<Rightarrow> nat \<Rightarrow> bytes" where
  "store8 m a v = store_bytes m a 1 v"

definition store16 :: "bytes \<Rightarrow> addr \<Rightarrow> nat \<Rightarrow> bytes" where
  "store16 m a v = store_bytes m a 2 v"

definition KRNL_CS64 :: nat where "KRNL_CS64 = 0x08"
definition KRNL_DS64 :: nat where "KRNL_DS64 = 0x10"
definition USER_DS64 :: nat where "USER_DS64 = 0x18"
definition USER_CS64 :: nat where "USER_CS64 = 0x20"

text \<open>Sizes and offsets of the packed structures.\<close>

definition sizeof_tss :: nat where "sizeof_tss = 102"
definition tssd_offset :: nat where "tssd_offset = 5 * 8"
definition gdtr_offset :: nat where "gdtr_offset = tssd_offset + 16"
definition sizeof_gdt_table :: nat where "sizeof_gdt_table = gdtr_offset + 10"

text \<open>The type, a zero, the privilege level and the present bit share a byte, as do the fields behind them.\<close>

definition set_tss_entry :: "bytes \<Rightarrow> addr \<Rightarrow> nat \<Rightarrow> bytes" where
  "set_tss_entry m gdt base =
     (let t = gdt + tssd_offset;
          m = store16 m t (sizeof_tss - 1);
          m = store16 m (t + 2) (base AND 0xFFFF);
          m = store8 m (t + 4) (shr base 16 AND 0xFF);
          m = store8 m (t + 5) (0x9 + 0 * 2 ^ 4 + 0 * 2 ^ 5 + 1 * 2 ^ 7);
          m = store8 m (t + 6) (0 + 0 * 2 ^ 4 + 0 * 2 ^ 5 + 0 * 2 ^ 7);
          m = store8 m (t + 7) (shr base 24 AND 0xFF);
          m = store32 m (t + 8) (shr base 32 AND 0xFFFFFFFF)
      in store32 m (t + 12) 0)"

definition init_tss :: "bytes \<Rightarrow> addr \<Rightarrow> addr \<Rightarrow> nat \<Rightarrow> bytes" where
  "init_tss m gdt tss stack =
     (let m = set_tss_entry m gdt tss;
          m = store64 m (tss + 4) stack
      in store64 m (tss + 36) 0)"

definition set_segment :: "bytes \<Rightarrow> addr \<Rightarrow> nat \<Rightarrow> nat \<Rightarrow> nat \<Rightarrow> bytes" where
  "set_segment m gdt i access gran =
     (let s = gdt + 8 * i;
          m = store16 m s 0;
          m = store16 m (s + 2) 0;
          m = store8 m (s + 4) 0;
          m = store8 m (s + 5) access;
          m = store8 m (s + 6) gran
      in store8 m (s + 7) 0)"

datatype cpu_event =
    Load_gdt addr
  | Load_tss nat
  | Load_idt addr
  | Outb nat nat
  | Io_wait
  | Lapic_eoi
  | Override_quiet_boot
  | Handler addr

text \<open>\<open>gdt\<close> and \<open>tss\<close> are the addresses of the static variables.\<close>

definition init_gdt :: "bytes \<Rightarrow> addr \<Rightarrow> addr \<Rightarrow> nat \<Rightarrow> bytes \<times> cpu_event list" where
  "init_gdt m gdt tss stack =
     (let m = set_segment m gdt 0 0 0;
          m = set_segment m gdt 1 0x9A 0xA2;
          m = set_segment m gdt 2 0x92 0xA0;
          m = set_segment m gdt 3 0xF2 0;
          m = set_segment m gdt 4 0xFA 0x20;
          m = init_tss m gdt tss stack;
          m = store64 m (gdt + gdtr_offset + 2) gdt;
          m = store16 m (gdt + gdtr_offset) (sizeof_gdt_table * 6 - 1)
      in (m, [Load_gdt (gdt + gdtr_offset), Load_tss 0x28]))"

section \<open>The interrupt descriptor table\<close>

definition sizeof_idt_desc :: nat where "sizeof_idt_desc = 16"

definition idt_set_entry :: "bytes \<Rightarrow> addr \<Rightarrow> nat \<Rightarrow> nat \<Rightarrow> nat \<Rightarrow> nat \<Rightarrow> nat \<Rightarrow> bytes" where
  "idt_set_entry m idt selector ist type_attr offset idx =
     (let d = idt + sizeof_idt_desc * u8 idx;
          m = store16 m d (offset AND 0xFFFF);
          m = store16 m (d + 2) selector;
          m = store8 m (d + 4) ist;
          m = store8 m (d + 5) type_attr;
          m = store16 m (d + 6) (shr offset 16 AND 0xFFFF);
          m = store32 m (d + 8) (shr offset 32 AND 0xFFFFFFFF)
      in store32 m (d + 12) 0)"

text \<open>
  The 32 calls of \<open>init_idt\<close>; \<open>isr i\<close> is the address of the routine in assembly for the exception \<open>i\<close>, \<open>idtr\<close> the local
  variable.
\<close>

definition init_idt :: "bytes \<Rightarrow> addr \<Rightarrow> (nat \<Rightarrow> addr) \<Rightarrow> addr \<Rightarrow> bytes \<times> cpu_event list" where
  "init_idt m idt isr idtr =
     (let m = fold (\<lambda>i m. idt_set_entry m idt KRNL_CS64 0 0x8E (isr i) i) [0 ..< 32] m;
          m = store16 m idtr (256 * sizeof_idt_desc - 1);
          m = store64 m (idtr + 2) idt
      in (m, [Load_idt idtr]))"

section \<open>The legacy interrupt controller\<close>

text \<open>
  The state: the handlers, zero where there is none, the flags \<open>can_return\<close> and \<open>is_pic_enabled\<close>, and the log of
  what the processor did.
\<close>

record irq_state =
  isr_handler_array :: "nat \<Rightarrow> addr"
  can_return :: bool
  is_pic_enabled :: bool
  cpu_log :: "cpu_event list"

definition log_events :: "cpu_event list \<Rightarrow> irq_state \<Rightarrow> irq_state" where
  "log_events es s = s\<lparr>cpu_log := cpu_log s @ es\<rparr>"

definition pic_eoi :: "int \<Rightarrow> irq_state \<Rightarrow> irq_state" where
  "pic_eoi isr_nr s =
     (let s = (if isr_nr > 40 then log_events [Outb 0xA0 0x20] s else s)
      in log_events [Outb 0x20 0x20] s)"

definition pic_enabled :: "irq_state \<Rightarrow> bool" where
  "pic_enabled s = is_pic_enabled s"

definition pic_disable :: "irq_state \<Rightarrow> irq_state" where
  "pic_disable s = (log_events [Outb 0xA1 0xFF, Outb 0x21 0xFF] s)\<lparr>is_pic_enabled := False\<rparr>"

definition pic_remap :: "irq_state \<Rightarrow> irq_state" where
  "pic_remap s = log_events
     [Outb 0x20 0x11, Outb 0xA0 0x11, Io_wait, Outb 0x21 0x20, Outb 0xA1 0x28, Io_wait,
      Outb 0x21 0x04, Outb 0xA1 0x02, Io_wait, Outb 0x21 0x01, Outb 0xA1 0x01, Io_wait,
      Outb 0x21 0x00, Outb 0xA1 0x00] s"

section \<open>Interrupts\<close>

definition IS_IRQ :: "int \<Rightarrow> bool" where
  "IS_IRQ vector \<longleftrightarrow> vector \<le> 47 \<and> vector \<ge> 32"

text \<open>The number of exception messages.\<close>

definition exception_messages_count :: int where
  "exception_messages_count = 30"

text \<open>
  \<open>isr_handler\<close> returns, stops the processor, or reads outside the tables of messages and handlers. A handler is called by
  \<open>call\<close>, with its address; what it is given is the address of the local variable \<open>regs\<close> and not \<open>regs\<close>
  itself. Of the messages only the switch to a verbose start is recorded, as an event.
\<close>

datatype isr_outcome = Returned irq_state | Halted irq_state | Outside_table

definition try_exec_handler :: "(addr \<Rightarrow> irq_state \<Rightarrow> irq_state) \<Rightarrow> int \<Rightarrow> irq_state \<Rightarrow> irq_state" where
  "try_exec_handler call n s =
     (if isr_handler_array s (nat n) \<noteq> 0
      then call (isr_handler_array s (nat n)) (log_events [Handler (isr_handler_array s (nat n))] s)
      else s)"

definition isr_handler :: "(addr \<Rightarrow> irq_state \<Rightarrow> irq_state) \<Rightarrow> iframe \<Rightarrow> irq_state \<Rightarrow> isr_outcome" where
  "isr_handler call regs s =
     (let n = sint (isr_number regs) in
      if n < 32 \<and> \<not> (0 \<le> n \<and> n < exception_messages_count) then Outside_table
      else let s = (if n < 32 then log_events [Override_quiet_boot] s else s) in
      if n < 32 \<and> \<not> can_return s then Halted s
      else if n > 255 then Outside_table
      else let s = try_exec_handler call n s
           in Returned (if pic_enabled s then pic_eoi n s else log_events [Lapic_eoi] s))"

definition install_isr :: "nat \<Rightarrow> addr \<Rightarrow> irq_state \<Rightarrow> irq_state" where
  "install_isr base handler s =
     (if isr_handler_array s (u8 base) = 0
      then s\<lparr>isr_handler_array := (isr_handler_array s)(u8 base := handler)\<rparr> else s)"

definition uninstall_isr :: "nat \<Rightarrow> irq_state \<Rightarrow> irq_state" where
  "uninstall_isr base s = s\<lparr>isr_handler_array := (isr_handler_array s)(u8 base := 0)\<rparr>"

definition is_isr_registered :: "nat \<Rightarrow> irq_state \<Rightarrow> bool" where
  "is_isr_registered isr s \<longleftrightarrow> isr_handler_array s (u8 isr) \<noteq> 0"

section \<open>What the processor reads\<close>

text \<open>The fields of a gate and of a system segment, at the offsets the processor's manual gives them.\<close>

definition gate_offset :: "bytes \<Rightarrow> addr \<Rightarrow> nat \<Rightarrow> nat" where
  "gate_offset m idt n = load_bytes m (idt + 16 * n) 2 + 2 ^ 16 * load_bytes m (idt + 16 * n + 6) 2
     + 2 ^ 32 * load_bytes m (idt + 16 * n + 8) 4"

definition gate_selector :: "bytes \<Rightarrow> addr \<Rightarrow> nat \<Rightarrow> nat" where
  "gate_selector m idt n = load_bytes m (idt + 16 * n + 2) 2"

text \<open>The present bit, the privilege level, and the type of the gate, 14 for an interrupt gate.\<close>

definition gate_present :: "bytes \<Rightarrow> addr \<Rightarrow> nat \<Rightarrow> bool" where
  "gate_present m idt n \<longleftrightarrow> load_bytes m (idt + 16 * n + 5) 1 div 128 = 1"

definition gate_dpl :: "bytes \<Rightarrow> addr \<Rightarrow> nat \<Rightarrow> nat" where
  "gate_dpl m idt n = load_bytes m (idt + 16 * n + 5) 1 div 32 mod 4"

definition gate_type :: "bytes \<Rightarrow> addr \<Rightarrow> nat \<Rightarrow> nat" where
  "gate_type m idt n = load_bytes m (idt + 16 * n + 5) 1 mod 16"

definition tss_base :: "bytes \<Rightarrow> addr \<Rightarrow> nat" where
  "tss_base m t = load_bytes m (t + 2) 2 + 2 ^ 16 * load_bytes m (t + 4) 1 + 2 ^ 24 * load_bytes m (t + 7) 1
     + 2 ^ 32 * load_bytes m (t + 8) 4"

definition segment_access :: "bytes \<Rightarrow> addr \<Rightarrow> nat \<Rightarrow> nat" where
  "segment_access m gdt selector = load_bytes m (gdt + selector + 5) 1"

definition segment_flags :: "bytes \<Rightarrow> addr \<Rightarrow> nat \<Rightarrow> nat" where
  "segment_flags m gdt selector = load_bytes m (gdt + selector + 6) 1 div 16"

lemma load_bytes_upd: "a < b \<or> b + k \<le> a \<Longrightarrow> load_bytes (m(a := v)) b k = load_bytes m b k"
  by (rule load_bytes_cong) auto

lemmas table_stores = store8_def store16_def store32_def store64_def load_store_disjoint load_store_bytes load_bytes_upd
  store_bytes_other unat_of_nat

lemma and_low_bits: "(a :: nat) AND 0xFFFF = a mod 2 ^ 16" "a AND 0xFF = a mod 2 ^ 8" "a AND 0xFFFFFFFF = a mod 2 ^ 32"
  using take_bit_eq_mask [of 16 a] take_bit_eq_mask [of 8 a] take_bit_eq_mask [of 32 a]
  by (simp_all add: take_bit_eq_mod mask_eq_exp_minus_1)

lemma join_mod: "(v :: nat) mod a + a * (v div a mod b) = v mod (a * b)"
  by (simp add: mod_mult2_eq add.commute)

lemma join_exp: "(v :: nat) mod 2 ^ k + 2 ^ k * (v div 2 ^ k mod 2 ^ l) = v mod 2 ^ (k + l)"
  using join_mod [of v "2 ^ k" "2 ^ l"] by (simp only: power_add)

lemma split_16_16_32:
  assumes "v < 2 ^ 64"
  shows "v mod 2 ^ 16 + 2 ^ 16 * (v div 2 ^ 16 mod 2 ^ 16) + 2 ^ 32 * (v div 2 ^ 32 mod 2 ^ 32) = (v :: nat)"
  using join_exp [of v 16 16] join_exp [of v 32 32] mod_less [OF assms] by simp

lemma split_16_8_8_32:
  assumes "v < 2 ^ 64"
  shows "v mod 2 ^ 16 + 2 ^ 16 * (v div 2 ^ 16 mod 2 ^ 8) + 2 ^ 24 * (v div 2 ^ 24 mod 2 ^ 8)
     + 2 ^ 32 * (v div 2 ^ 32 mod 2 ^ 32) = (v :: nat)"
proof -
  have "16 + 8 = (24 :: nat)" "24 + 8 = (32 :: nat)" "32 + 32 = (64 :: nat)" by simp_all
  with join_exp [of v 16 8] join_exp [of v 24 8] join_exp [of v 32 32] mod_less [OF assms] show ?thesis by metis
qed

lemma idt_set_entry_gate:
  assumes "n < 256" "offset < 2 ^ 64" "selector < 2 ^ 16" "t < 256"
  shows "gate_offset (idt_set_entry m idt selector ist t offset n) idt n = offset"
    and "gate_selector (idt_set_entry m idt selector ist t offset n) idt n = selector"
    and "load_bytes (idt_set_entry m idt selector ist t offset n) (idt + 16 * n + 5) 1 = t"
proof -
  let ?m = "idt_set_entry m idt selector ist t offset n"
  have "load_bytes ?m (idt + 16 * n) 2 = offset mod 2 ^ 16"
      "load_bytes ?m (idt + 16 * n + 6) 2 = offset div 2 ^ 16 mod 2 ^ 16"
      "load_bytes ?m (idt + 16 * n + 8) 4 = offset div 2 ^ 32 mod 2 ^ 32"
    using assms by (simp_all add: idt_set_entry_def Let_def sizeof_idt_desc_def u8_def table_stores and_low_bits shr_def)
  then show "gate_offset ?m idt n = offset" using split_16_16_32 [OF assms(2)] by (simp only: gate_offset_def)
  show "gate_selector ?m idt n = selector" "load_bytes ?m (idt + 16 * n + 5) 1 = t"
    using assms by (simp_all add: gate_selector_def idt_set_entry_def Let_def sizeof_idt_desc_def u8_def table_stores)
qed

lemma idt_set_entry_other:
  "n < 256 \<Longrightarrow> b < idt + 16 * n \<or> idt + 16 * n + 16 \<le> b \<Longrightarrow> idt_set_entry m idt selector ist t offset n b = m b"
  by (auto simp: idt_set_entry_def Let_def sizeof_idt_desc_def u8_def table_stores store_bytes_other)

text \<open>The gates of the exceptions after \<open>init_idt\<close>.\<close>

definition exception_gate :: "bytes \<Rightarrow> addr \<Rightarrow> (nat \<Rightarrow> addr) \<Rightarrow> nat \<Rightarrow> bool" where
  "exception_gate m idt isr n \<longleftrightarrow> gate_offset m idt n = isr n \<and> gate_selector m idt n = KRNL_CS64 \<and> gate_present m idt n \<and>
     gate_dpl m idt n = 0 \<and> gate_type m idt n = 14"

lemma exception_gate_cong:
  assumes "\<And>a. idt + 16 * n \<le> a \<Longrightarrow> a < idt + 16 * n + 16 \<Longrightarrow> m a = m' a"
  shows "exception_gate m idt isr n = exception_gate m' idt isr n"
proof -
  have "load_bytes m (idt + 16 * n + k) l = load_bytes m' (idt + 16 * n + k) l" if "k + l \<le> 16" for k l
    using assms that by (intro load_bytes_cong) auto
  from this [of 0 2] this [of 6 2] this [of 8 4] this [of 2 2] this [of 5 1] show ?thesis
    by (simp add: exception_gate_def gate_offset_def gate_selector_def gate_present_def gate_dpl_def gate_type_def)
qed

definition set_gates :: "addr \<Rightarrow> (nat \<Rightarrow> addr) \<Rightarrow> nat \<Rightarrow> bytes \<Rightarrow> bytes" where
  "set_gates idt isr k m = fold (\<lambda>i m. idt_set_entry m idt KRNL_CS64 0 0x8E (isr i) i) [0 ..< k] m"

lemma set_gates_Suc: "set_gates idt isr (Suc k) m = idt_set_entry (set_gates idt isr k m) idt KRNL_CS64 0 0x8E (isr k) k"
  by (simp add: set_gates_def)

lemma set_gates_other: "k \<le> 256 \<Longrightarrow> b < idt \<or> idt + 16 * k \<le> b \<Longrightarrow> set_gates idt isr k m b = m b"
proof (induction k)
  case (Suc k)
  then show ?case unfolding set_gates_Suc by (subst idt_set_entry_other) auto
qed (simp add: set_gates_def)

lemma set_gates_exception:
  assumes "\<And>i. isr i < 2 ^ 64"
  shows "k \<le> 256 \<Longrightarrow> n < k \<Longrightarrow> exception_gate (set_gates idt isr k m) idt isr n"
proof (induction k)
  case (Suc k)
  let ?m = "set_gates idt isr k m"
  have "exception_gate (set_gates idt isr (Suc k) m) idt isr k"
    using idt_set_entry_gate [of k "isr k" KRNL_CS64 "0x8E" ?m idt 0] assms Suc.prems
    by (simp add: exception_gate_def gate_present_def gate_dpl_def gate_type_def KRNL_CS64_def set_gates_Suc)
  moreover have "exception_gate (set_gates idt isr (Suc k) m) idt isr n = exception_gate ?m idt isr n" if "n < k"
    using that Suc.prems unfolding set_gates_Suc by (intro exception_gate_cong idt_set_entry_other) auto
  ultimately show ?case using Suc by (cases "n = k") auto
qed simp



section \<open>Segments and the task state\<close>

lemma set_segment_loads:
  assumes "access < 256" "gran < 256"
  shows "load_bytes (set_segment m gdt i access gran) (gdt + 8 * i + 5) 1 = access"
    and "load_bytes (set_segment m gdt i access gran) (gdt + 8 * i + 6) 1 = gran"
  using assms by (simp_all add: set_segment_def Let_def table_stores)

lemma set_segment_other:
  "b < gdt + 8 * i \<or> gdt + 8 * i + 8 \<le> b \<Longrightarrow> set_segment m gdt i access gran b = m b"
  by (auto simp: set_segment_def Let_def table_stores)

lemma set_segment_load_other:
  "b + k \<le> gdt + 8 * i \<or> gdt + 8 * i + 8 \<le> b \<Longrightarrow>
   load_bytes (set_segment m gdt i access gran) b k = load_bytes m b k"
  by (rule load_bytes_cong) (auto intro: set_segment_other)

lemma set_tss_entry_base:
  assumes "base < 2 ^ 64"
  shows "tss_base (set_tss_entry m gdt base) (gdt + tssd_offset) = base"
    and "load_bytes (set_tss_entry m gdt base) (gdt + tssd_offset + 5) 1 = 0x89"
proof -
  let ?m = "set_tss_entry m gdt base" and ?t = "gdt + tssd_offset"
  have "load_bytes ?m (?t + 2) 2 = base mod 2 ^ 16" "load_bytes ?m (?t + 4) 1 = base div 2 ^ 16 mod 2 ^ 8"
      "load_bytes ?m (?t + 7) 1 = base div 2 ^ 24 mod 2 ^ 8" "load_bytes ?m (?t + 8) 4 = base div 2 ^ 32 mod 2 ^ 32"
    by (simp_all add: set_tss_entry_def Let_def table_stores and_low_bits shr_def)
  then show "tss_base ?m ?t = base" using split_16_8_8_32 [OF assms] by (simp only: tss_base_def)
  show "load_bytes ?m (?t + 5) 1 = 0x89"
    by (simp add: set_tss_entry_def Let_def table_stores)
qed

lemma set_tss_entry_other:
  "b < gdt + tssd_offset \<or> gdt + tssd_offset + 16 \<le> b \<Longrightarrow> set_tss_entry m gdt base b = m b"
  by (auto simp: set_tss_entry_def Let_def table_stores)

text \<open>What the memory holds after \<open>init_gdt\<close>: the segments, then the task state, then the table register.\<close>

definition gdt_segments :: "bytes \<Rightarrow> addr \<Rightarrow> bytes" where
  "gdt_segments m gdt =
     set_segment (set_segment (set_segment (set_segment (set_segment m gdt 0 0 0) gdt 1 0x9A 0xA2) gdt 2 0x92 0xA0) gdt 3 0xF2 0)
       gdt 4 0xFA 0x20"

lemma gdt_segments_access:
  "segment_access (gdt_segments m gdt) gdt KRNL_CS64 = 0x9A" "segment_access (gdt_segments m gdt) gdt KRNL_DS64 = 0x92"
  "segment_access (gdt_segments m gdt) gdt USER_DS64 = 0xF2" "segment_access (gdt_segments m gdt) gdt USER_CS64 = 0xFA"
  "segment_flags (gdt_segments m gdt) gdt KRNL_CS64 = 0xA" "segment_flags (gdt_segments m gdt) gdt USER_CS64 = 2"
  using set_segment_loads [of "0x9A" "0xA2" _ gdt 1] set_segment_loads [of "0x92" "0xA0" _ gdt 2]
    set_segment_loads [of "0xF2" 0 _ gdt 3] set_segment_loads [of "0xFA" "0x20" _ gdt 4]
  by (simp_all add: segment_access_def segment_flags_def gdt_segments_def KRNL_CS64_def KRNL_DS64_def USER_DS64_def USER_CS64_def
      set_segment_other)

lemma tss_base_cong:
  assumes "\<And>a. t \<le> a \<Longrightarrow> a < t + 16 \<Longrightarrow> m a = m' a"
  shows "tss_base m t = tss_base m' t"
proof -
  have "load_bytes m (t + k) l = load_bytes m' (t + k) l" if "k + l \<le> 16" for k l
    using assms that by (intro load_bytes_cong) auto
  from this [of 2 2] this [of 4 1] this [of 7 1] this [of 8 4] show ?thesis by (simp add: tss_base_def)
qed

lemma gdt_segment_cong:
  assumes "\<And>a. gdt + selector \<le> a \<Longrightarrow> a < gdt + selector + 8 \<Longrightarrow> m a = m' a"
  shows "segment_access m gdt selector = segment_access m' gdt selector" "segment_flags m gdt selector = segment_flags m' gdt selector"
  using assms by (simp_all add: segment_access_def segment_flags_def)

text \<open>
  C38: After \<open>init_gdt\<close> the processor finds code and data segments of the kernel and of user programs at
  their selectors, with the long mode bit in the code segments, and at the selector it loads into the
  task register the address of the task state, whose kernel stack is the given one. The limit of
  the table is 395, although the table has 56 bytes.
\<close>

theorem init_gdt_spec:
  assumes "gdt < 2 ^ 64" "tss < 2 ^ 64" "stack < 2 ^ 64"
    and apart: "gdt + sizeof_gdt_table \<le> tss \<or> tss + sizeof_tss \<le> gdt"
  shows "\<exists>m'. init_gdt m gdt tss stack = (m', [Load_gdt (gdt + gdtr_offset), Load_tss 0x28]) \<and>
    segment_access m' gdt KRNL_CS64 = 0x9A \<and> segment_access m' gdt KRNL_DS64 = 0x92 \<and>
    segment_access m' gdt USER_DS64 = 0xF2 \<and> segment_access m' gdt USER_CS64 = 0xFA \<and>
    segment_flags m' gdt KRNL_CS64 = 0xA \<and> segment_flags m' gdt USER_CS64 = 2 \<and>
    tss_base m' (gdt + 0x28) = tss \<and> load_bytes m' (tss + 4) 8 = stack \<and>
    load_bytes m' (gdt + gdtr_offset) 2 = 395 \<and> load_bytes m' (gdt + gdtr_offset + 2) 8 = gdt"
proof -
  let ?m1 = "gdt_segments m gdt" and ?r = "gdt + gdtr_offset"
  define m2 where "m2 = set_tss_entry ?m1 gdt tss"
  define m3 where "m3 = store64 (store64 m2 (tss + 4) stack) (tss + 36) 0"
  define m' where "m' = store16 (store64 m3 (?r + 2) gdt) ?r 395"
  note offs = tssd_offset_def gdtr_offset_def sizeof_gdt_table_def sizeof_tss_def
  have run: "init_gdt m gdt tss stack = (m', [Load_gdt ?r, Load_tss 0x28])"
    by (simp add: init_gdt_def init_tss_def gdt_segments_def m2_def m3_def m'_def offs)
  have low: "m' a = m2 a" if "gdt \<le> a" "a < ?r" for a
    using that apart by (auto simp: m'_def m3_def table_stores offs)
  have seg: "segment_access m' gdt k = segment_access ?m1 gdt k" "segment_flags m' gdt k = segment_flags ?m1 gdt k"
    if "k + 8 \<le> 40" for k
  proof -
    have "m' a = ?m1 a" if "gdt + k \<le> a" "a < gdt + k + 8" for a
    proof -
      have "m' a = m2 a" using low that \<open>k + 8 \<le> 40\<close> by (simp add: offs)
      also have "\<dots> = ?m1 a" unfolding m2_def
        using that \<open>k + 8 \<le> 40\<close> by (intro set_tss_entry_other) (simp add: offs)
      finally show ?thesis .
    qed
    then show "segment_access m' gdt k = segment_access ?m1 gdt k" "segment_flags m' gdt k = segment_flags ?m1 gdt k"
      using gdt_segment_cong [of gdt k m' ?m1] by simp_all
  qed
  have "tss_base m' (gdt + 0x28) = tss_base m2 (gdt + 0x28)" by (rule tss_base_cong) (simp add: low offs)
  then have base: "tss_base m' (gdt + 0x28) = tss"
    using set_tss_entry_base(1) [OF assms(2), of ?m1 gdt] by (simp add: m2_def offs)
  have stk: "load_bytes m' (tss + 4) 8 = stack"
    using apart assms(3) by (auto simp: m'_def m3_def table_stores offs)
  have "load_bytes m' ?r 2 = 395" "load_bytes m' (?r + 2) 8 = gdt"
    using assms(1) by (simp_all add: m'_def table_stores)
  with run seg base stk gdt_segments_access [of m gdt] show ?thesis
    by (simp add: KRNL_CS64_def KRNL_DS64_def USER_DS64_def USER_CS64_def)
qed

theorem init_gdt_spec_witness:
  "\<exists>m'. init_gdt (\<lambda>_. 0) 4096 8192 65536 = (m', [Load_gdt 4152, Load_tss 0x28]) \<and> tss_base m' 4136 = 8192"
  using init_gdt_spec [of 4096 8192 65536 "\<lambda>_. 0"] by (auto simp: sizeof_gdt_table_def gdtr_offset_def tssd_offset_def)

section \<open>Interrupts\<close>

definition is_eoi :: "cpu_event \<Rightarrow> bool" where
  "is_eoi e \<longleftrightarrow> e = Lapic_eoi \<or> e = Outb 0x20 0x20"

text \<open>
  A hardware interrupt runs the handler of its vector, if there is one, and is then acknowledged exactly
  once: at the legacy controller while that is enabled, at the local one otherwise.
\<close>

lemma isr_handler_acknowledges:
  assumes n: "32 \<le> sint (isr_number regs)" "sint (isr_number regs) < 256"
  shows "\<exists>s' es. isr_handler call regs s = Returned s' \<and>
    s' = log_events es (try_exec_handler call (sint (isr_number regs)) s) \<and> length (filter is_eoi es) = 1 \<and>
    (is_pic_enabled (try_exec_handler call (sint (isr_number regs)) s) \<longleftrightarrow> Outb 0x20 0x20 \<in> set es)"
proof -
  let ?n = "sint (isr_number regs)"
  let ?s = "try_exec_handler call ?n s"
  let ?es = "if is_pic_enabled ?s then (if 40 < ?n then [Outb 0xA0 0x20] else []) @ [Outb 0x20 0x20] else [Lapic_eoi]"
  have "isr_handler call regs s = Returned (log_events ?es ?s)"
    using n by (auto simp: isr_handler_def Let_def pic_enabled_def pic_eoi_def log_events_def)
  moreover have "length (filter is_eoi ?es) = 1" by (simp add: is_eoi_def)
  moreover have "is_pic_enabled ?s \<longleftrightarrow> Outb 0x20 0x20 \<in> set ?es" by simp
  ultimately show ?thesis by blast
qed

text \<open>The first interrupt of the second controller, vector 40, is not acknowledged there.\<close>

lemma pic_eoi_misses_irq8: "cpu_log (pic_eoi 40 s) = cpu_log s @ [Outb 0x20 0x20]"
  by (simp add: pic_eoi_def log_events_def)

text \<open>The vectors 30 and 31 are exceptions without a message.\<close>

lemma exception_30_outside_table: "sint (isr_number regs) \<in> {30, 31} \<Longrightarrow> isr_handler call regs s = Outside_table"
  by (auto simp: isr_handler_def exception_messages_count_def)

text \<open>
  A handler stays registered until it is uninstalled; a second one for the same vector is
  refused.
\<close>

lemma install_isr_spec:
  assumes "handler \<noteq> 0"
  shows "is_isr_registered n (install_isr n handler s)"
    and "is_isr_registered n s \<Longrightarrow> install_isr n handler s = s"
    and "\<not> is_isr_registered n (uninstall_isr n s)"
    and "\<not> is_isr_registered n s \<Longrightarrow> uninstall_isr n (install_isr n handler s) = s"
  using assms by (auto simp: is_isr_registered_def install_isr_def uninstall_isr_def fun_upd_idem)

end
