(* ===== verification/Acpi.thy ===== *)
theory Acpi
  imports Interrupts Strings
begin

text \<open>
  Firmware tables and the devices they describe: \<open>src/kernel/platform/acpi/x86\<close>. The tables lie in the byte
  memory at the offsets of their packed structures; device registers are memory that the device may
  change, the time that passes in \<open>usleep\<close> is a function on the memory. Messages have no state here.

  Shown: \<open>acpi_find_table\<close> returns the first table with the signature and a valid checksum; the list of
  interrupt devices is walked to its end if every record has a length, and never otherwise; the number of timer ticks for
  a time is right within one tick; the calibration measures what the timer counted.
\<close>

section \<open>The root pointer\<close>

record RSDP =
  rsdp_oem_string :: "byte list"
  rsdp_revision :: nat
  rsdt_address :: nat
  xsdt_address :: nat

definition read_rsdp :: "bytes \<Rightarrow> addr \<Rightarrow> RSDP" where
  "read_rsdp m a =
     \<lparr>rsdp_oem_string = map (\<lambda>i. m (a + 9 + i)) [0 ..< 6], rsdp_revision = unat (m (a + 15)),
      rsdt_address = load32 m (a + 16), xsdt_address = load64 m (a + 24)\<rparr>"

record acpi_state =
  has_xsdt :: bool
  rsdp :: RSDP

text \<open>The sum of the first 20 bytes, in an \<open>int\<close>.\<close>

fun rsdp_sum :: "bytes \<Rightarrow> addr \<Rightarrow> nat \<Rightarrow> int \<Rightarrow> int" where
  "rsdp_sum m p 0 checksum = checksum"
| "rsdp_sum m p (Suc n) checksum = rsdp_sum m (p + 1) n (checksum + uint (m p))"

definition rsdp_verify_checksum :: "bytes \<Rightarrow> addr \<Rightarrow> stop + unit" where
  "rsdp_verify_checksum m rsdp_address = (if rsdp_sum m rsdp_address 20 0 AND 0xFF = 0 then Inr () else Inl Panic)"

definition rsdp_init :: "bytes \<Rightarrow> addr \<Rightarrow> acpi_state \<Rightarrow> stop + acpi_state" where
  "rsdp_init m rsdp_addr st =
     (case rsdp_verify_checksum m rsdp_addr of
        Inl e \<Rightarrow> Inl e
      | Inr _ \<Rightarrow>
          let r = read_rsdp m rsdp_addr; st = st\<lparr>rsdp := r\<lparr>rsdp_oem_string := (rsdp_oem_string r)[5 := 0]\<rparr>\<rparr>
          in Inr (if rsdp_revision r \<ge> 2 then st\<lparr>has_xsdt := True\<rparr> else st))"

definition use_xsdt :: "acpi_state \<Rightarrow> bool" where
  "use_xsdt st = has_xsdt st"

definition get_rsdp :: "acpi_state \<Rightarrow> RSDP" where
  "get_rsdp st = rsdp st"

definition acpi_init :: "bytes \<Rightarrow> addr \<Rightarrow> acpi_state \<Rightarrow> stop + acpi_state" where
  "acpi_init m rsdp_addr st = rsdp_init m rsdp_addr st"

section \<open>Tables\<close>

definition sizeof_SDT :: nat where "sizeof_SDT = 36"

definition sdt_length :: "bytes \<Rightarrow> addr \<Rightarrow> nat" where
  "sdt_length m sdt = load32 m (sdt + 4)"

function checksum_loop :: "bytes \<Rightarrow> addr \<Rightarrow> nat \<Rightarrow> byte \<Rightarrow> byte" where
  "checksum_loop m sdt i acc =
     (if i < sdt_length m sdt then checksum_loop m sdt (i + 1) (acc + m (sdt + i)) else acc)"
  by pat_completeness auto
termination by (relation "measure (\<lambda>(m, sdt, i, _). sdt_length m sdt - i)") auto

declare checksum_loop.simps [simp del]

definition acpi_validate_sdt_checksum :: "bytes \<Rightarrow> addr \<Rightarrow> bool" where
  "acpi_validate_sdt_checksum m sdt \<longleftrightarrow> checksum_loop m sdt 0 0 = 0"

text \<open>The pointers behind the header of the root table, 8 or 4 bytes wide.\<close>

definition sdt_next :: "nat \<Rightarrow> bytes \<Rightarrow> bool \<Rightarrow> addr \<Rightarrow> nat \<Rightarrow> addr" where
  "sdt_next hhdm m xsdt root i =
     va hhdm (if xsdt then load64 m (root + sizeof_SDT + 8 * i) else load32 m (root + sizeof_SDT + 4 * i))"

function find_table_loop :: "nat \<Rightarrow> bytes \<Rightarrow> bool \<Rightarrow> addr \<Rightarrow> addr \<Rightarrow> nat \<Rightarrow> nat \<Rightarrow> addr" where
  "find_table_loop hhdm m xsdt root identifier i entries =
     (if i < entries
      then let sdt = sdt_next hhdm m xsdt root i
           in if strncmp m sdt identifier 4 = 0 \<and> acpi_validate_sdt_checksum m sdt then sdt
              else find_table_loop hhdm m xsdt root identifier (i + 1) entries
      else 0)"
  by pat_completeness auto
termination by (relation "measure (\<lambda>(_, _, _, _, _, i, n). n - i)") auto

declare find_table_loop.simps [simp del]

definition acpi_find_table :: "nat \<Rightarrow> acpi_state \<Rightarrow> bytes \<Rightarrow> addr \<Rightarrow> addr" where
  "acpi_find_table hhdm st m identifier =
     (let rsdp = get_rsdp st;
          root = (if use_xsdt st then va hhdm (xsdt_address rsdp) else va hhdm (rsdt_address rsdp));
          entries = sub64 (sdt_length m root) sizeof_SDT div (if use_xsdt st then 8 else 4)
      in find_table_loop hhdm m (use_xsdt st) root identifier 0 entries)"

section \<open>Interrupt devices\<close>

record ioapic_dev =
  entry_type :: nat
  record_len :: nat
  io_apic_id :: nat
  ioapic_address :: nat
  gsib :: nat

record apic_device_info =
  lapic_addr :: nat
  ioapics :: "ioapic_dev list"

text \<open>
  \<open>push\<close> makes a copy of its argument by \<open>(struct ioapic_dev[1]){ ptr }\<close>, which initialises the first
  field with the pointer and the others with zero. \<open>room\<close> is whether the vector of the given length
  can grow.
\<close>

definition push_ioapic :: "(nat \<Rightarrow> bool) \<Rightarrow> addr \<Rightarrow> apic_device_info \<Rightarrow> apic_device_info" where
  "push_ioapic room ptr dev =
     (if room (length (ioapics dev))
      then dev\<lparr>ioapics := ioapics dev @
             [\<lparr>entry_type = u8 ptr, record_len = 0, io_apic_id = 0, ioapic_address = 0, gsib = 0\<rparr>]\<rparr>
      else dev)"

text \<open>One round of the loop of \<open>enumarate_apic_devices\<close>: the device at \<open>p\<close>.\<close>

definition apic_device :: "(nat \<Rightarrow> bool) \<Rightarrow> bytes \<Rightarrow> addr \<Rightarrow> apic_device_info \<Rightarrow> apic_device_info" where
  "apic_device room m p dev =
     (if unat (m p) \<le> 5
      then let dev = (if m p = 5 then dev\<lparr>lapic_addr := add64 p 4\<rparr> else dev)
           in if m p = 1 then push_ioapic room p dev else dev
      else dev)"

partial_function (option) enumerate_loop ::
  "(nat \<Rightarrow> bool) \<Rightarrow> bytes \<Rightarrow> addr \<Rightarrow> addr \<Rightarrow> apic_device_info \<Rightarrow> apic_device_info option" where
  [code]: "enumerate_loop room m p end_addr dev =
     (let dev = apic_device room m p dev; p = add64 p (unat (m (p + 1)))
      in if p < end_addr then enumerate_loop room m p end_addr dev else Some dev)"

definition enumarate_apic_devices :: "(nat \<Rightarrow> bool) \<Rightarrow> bytes \<Rightarrow> addr \<Rightarrow> apic_device_info \<Rightarrow> apic_device_info option" where
  "enumarate_apic_devices room m madt dev =
     enumerate_loop room m (add64 madt 0x2c) (add64 madt (sdt_length m madt)) dev"

definition madt_init ::
  "(nat \<Rightarrow> bool) \<Rightarrow> bytes \<Rightarrow> addr \<Rightarrow> irq_state \<Rightarrow> (apic_device_info \<times> irq_state) option" where
  "madt_init room m madt irq =
     (let dev = \<lparr>lapic_addr = load32 m (madt + 36), ioapics = []\<rparr>; irq = pic_disable irq
      in case enumarate_apic_devices room m madt dev of None \<Rightarrow> None | Some dev \<Rightarrow> Some (dev, irq))"

section \<open>The local interrupt controller\<close>

definition lapic_read :: "addr \<Rightarrow> bytes \<Rightarrow> nat \<Rightarrow> nat" where
  "lapic_read lapic_base m offset = load32 m (add64 lapic_base offset)"

definition lapic_write :: "addr \<Rightarrow> bytes \<Rightarrow> nat \<Rightarrow> nat \<Rightarrow> bytes" where
  "lapic_write lapic_base m offset v = store32 m (add64 lapic_base offset) (u32 v)"

definition lapic_enable :: "addr \<Rightarrow> bytes \<Rightarrow> bytes" where
  "lapic_enable lapic_base m = lapic_write lapic_base m 0xF0 (lapic_read lapic_base m 0xF0 OR 2 ^ 8 OR 0xFF)"

text \<open>\<open>lit_apic\<close> is the address of the literal \<open>APIC\<close>.\<close>

definition lapic_init ::
  "(nat \<Rightarrow> bool) \<Rightarrow> nat \<Rightarrow> acpi_state \<Rightarrow> addr \<Rightarrow> addr \<Rightarrow> vm \<Rightarrow> irq_state \<Rightarrow> stop + addr \<times> vm \<times> irq_state" where
  "lapic_init room hhdm st lit_apic cr3 s irq =
     (let madt = acpi_find_table hhdm st (snd s) lit_apic in
      if madt = 0 then Inl Panic
      else case madt_init room (snd s) madt irq of
             None \<Rightarrow> Inl Stuck
           | Some (apic, irq) \<Rightarrow>
               let lapic_base = va hhdm (lapic_addr apic) in
               case arch_map_page hhdm s (va hhdm cr3) lapic_base (pa hhdm lapic_base) MAP_KERN of
                 Inl e \<Rightarrow> Inl e
               | Inr (a, m) \<Rightarrow> Inr (lapic_base, (a, lapic_enable lapic_base m), irq))"

definition lapic_eoi :: "addr \<Rightarrow> bytes \<Rightarrow> bytes" where
  "lapic_eoi lapic_base m = lapic_write lapic_base m 0xB0 0"

definition LAPIC_LVT_TIMER_REGISTER :: nat where "LAPIC_LVT_TIMER_REGISTER = 0x320"
definition LAPIC_TIMER_MASK :: nat where "LAPIC_TIMER_MASK = 2 ^ 16"
definition LAPIC_TIMER_INITIAL_COUNT :: nat where "LAPIC_TIMER_INITIAL_COUNT = 0x380"
definition LAPIC_TIMER_CURRENT_COUNT :: nat where "LAPIC_TIMER_CURRENT_COUNT = 0x390"
definition LAPIC_TIMER_DIVIDE_CONFIG_REGISTER :: nat where "LAPIC_TIMER_DIVIDE_CONFIG_REGISTER = 0x3E0"

text \<open>\<open>usleep\<close> is what happens to the memory, with the registers of the timer, while the code sleeps.\<close>

definition lapic_calibrate_timer :: "(nat \<Rightarrow> bytes \<Rightarrow> bytes) \<Rightarrow> addr \<Rightarrow> bytes \<Rightarrow> nat \<Rightarrow> nat \<times> bytes" where
  "lapic_calibrate_timer usleep lapic_base m usec =
     (let m = lapic_write lapic_base m LAPIC_TIMER_DIVIDE_CONFIG_REGISTER 3;
          m = lapic_write lapic_base m LAPIC_TIMER_INITIAL_COUNT (2 ^ 32 - 1);
          m = usleep usec m;
          m = lapic_write lapic_base m LAPIC_LVT_TIMER_REGISTER LAPIC_TIMER_MASK;
          ticks = 2 ^ 32 - 1 - lapic_read lapic_base m LAPIC_TIMER_CURRENT_COUNT;
          m = lapic_write lapic_base m LAPIC_LVT_TIMER_REGISTER 32
      in (ticks, m))"

definition lapic_oneshot_timer :: "addr \<Rightarrow> bytes \<Rightarrow> nat \<Rightarrow> bytes" where
  "lapic_oneshot_timer lapic_base m count = lapic_write lapic_base m LAPIC_TIMER_INITIAL_COUNT count"

definition lapic_cpu_id :: "addr \<Rightarrow> bytes \<Rightarrow> nat" where
  "lapic_cpu_id lapic_base m = (if lapic_base \<noteq> 0 then shr (lapic_read lapic_base m 0x20) 24 else 0)"

section \<open>The high precision timer\<close>

record hpet_state =
  hpet_dev :: addr
  counter_tick_period :: int

text \<open>
  \<open>lit_hpet\<close> is the address of the literal \<open>HPET\<close>. The upper half of the capabilities is converted
  to an \<open>int\<close>.
\<close>

definition hpet_init :: "nat \<Rightarrow> acpi_state \<Rightarrow> addr \<Rightarrow> addr \<Rightarrow> vm \<Rightarrow> stop + hpet_state \<times> vm" where
  "hpet_init hhdm st lit_hpet cr3 s =
     (let hpet = acpi_find_table hhdm st (snd s) lit_hpet in
      if hpet = 0 then Inl Panic
      else let hpet_addr = va hhdm (load64 (snd s) (hpet + 44)) in
           case arch_map_page hhdm s (va hhdm cr3) hpet_addr (pa hhdm hpet_addr) 3 of
             Inl e \<Rightarrow> Inl e
           | Inr (a, m) \<Rightarrow>
               let h = \<lparr>hpet_dev = hpet_addr, counter_tick_period = sint (of_nat (shr (load64 m hpet_addr) 32) :: 32 word)\<rparr>;
                   m = store64 m (hpet_addr + 0x10) 0;
                   m = store64 m (hpet_addr + 0xF0) 0;
                   m = store64 m (hpet_addr + 0x10) 1
               in Inr (h, (a, m)))"

text \<open>
  The values of the counter are given by the number of the read; the quotient is one of \<open>uint64_t\<close>, and
  dividing by zero is a fault.
\<close>

definition hpet_usec_to_ticks :: "hpet_state \<Rightarrow> nat \<Rightarrow> nat \<Rightarrow> nat option" where
  "hpet_usec_to_ticks h now usec =
     (let period = nat (counter_tick_period h mod 2 ^ 64)
      in if period = 0 then None else Some (add64 now (mul64 usec 1000000000 div period)))"

partial_function (option) hpet_wait :: "(nat \<Rightarrow> nat) \<Rightarrow> nat \<Rightarrow> nat \<Rightarrow> nat option" where
  [code]: "hpet_wait counter required_hpet_ticks i =
     (if counter i < required_hpet_ticks then hpet_wait counter required_hpet_ticks (i + 1) else Some i)"

text \<open>The number of the read that ended the wait.\<close>

definition hpet_usleep :: "(nat \<Rightarrow> nat) \<Rightarrow> hpet_state \<Rightarrow> nat \<Rightarrow> nat option" where
  "hpet_usleep counter h usec =
     (case hpet_usec_to_ticks h (counter 0) usec of None \<Rightarrow> None | Some required \<Rightarrow> hpet_wait counter required 1)"

definition platform_init :: "nat \<Rightarrow> addr \<Rightarrow> acpi_state \<Rightarrow> addr \<Rightarrow> addr \<Rightarrow> vm \<Rightarrow> stop + acpi_state \<times> hpet_state \<times> vm" where
  "platform_init hhdm rsdp_addr st lit_hpet cr3 s =
     (case acpi_init (snd s) rsdp_addr st of
        Inl e \<Rightarrow> Inl e
      | Inr st \<Rightarrow> (case hpet_init hhdm st lit_hpet cr3 s of Inl e \<Rightarrow> Inl e | Inr (h, s) \<Rightarrow> Inr (st, h, s)))"

definition platform_usleep :: "(nat \<Rightarrow> nat) \<Rightarrow> hpet_state \<Rightarrow> nat \<Rightarrow> nat option" where
  "platform_usleep counter h usec = hpet_usleep counter h usec"

section \<open>Finding tables\<close>

lemma checksum_loop_sum: "checksum_loop m sdt i acc = acc + (\<Sum>j \<leftarrow> [i ..< sdt_length m sdt]. m (sdt + j))"
proof (induction m sdt i acc rule: checksum_loop.induct)
  case (1 m sdt i acc)
  then show ?case by (subst checksum_loop.simps) (simp add: upt_rec [of i] ac_simps)
qed

lemma find_table_loop_find:
  "find_table_loop hhdm m x root ident i n =
     (case find (\<lambda>p. strncmp m p ident 4 = 0 \<and> acpi_validate_sdt_checksum m p) (map (sdt_next hhdm m x root) [i ..< n]) of
        None \<Rightarrow> 0 | Some p \<Rightarrow> p)"
proof (induction hhdm m x root ident i n rule: find_table_loop.induct)
  case (1 hhdm m x root ident i n)
  then show ?case by (subst find_table_loop.simps) (simp add: Let_def upt_rec [of i])
qed

text \<open>The tables the root table points to, and what makes one of them a table with the given signature.\<close>

definition root_table :: "nat \<Rightarrow> acpi_state \<Rightarrow> addr" where
  "root_table hhdm st = va hhdm (if has_xsdt st then xsdt_address (rsdp st) else rsdt_address (rsdp st))"

definition listed_tables :: "nat \<Rightarrow> acpi_state \<Rightarrow> bytes \<Rightarrow> addr list" where
  "listed_tables hhdm st m =
     map (sdt_next hhdm m (has_xsdt st) (root_table hhdm st))
       [0 ..< (sdt_length m (root_table hhdm st) - 36) div (if has_xsdt st then 8 else 4)]"

definition table_valid :: "bytes \<Rightarrow> addr \<Rightarrow> addr \<Rightarrow> bool" where
  "table_valid m ident p \<longleftrightarrow> (\<forall>k < 4. m (p + k) = m (ident + k)) \<and> (\<Sum>j \<leftarrow> [0 ..< sdt_length m p]. m (p + j)) = 0"

lemma acpi_find_table_find:
  assumes "36 \<le> sdt_length m (root_table hhdm st)" "0 \<notin> set (listed_tables hhdm st m)"
  shows "acpi_find_table hhdm st m ident =
    (case find (table_valid m ident) (listed_tables hhdm st m) of None \<Rightarrow> 0 | Some p \<Rightarrow> p)"
proof -
  have "sdt_length m (root_table hhdm st) < 2 ^ 32" by (simp only: sdt_length_def load32_less)
  then have "sub64 (sdt_length m (root_table hhdm st)) sizeof_SDT = sdt_length m (root_table hhdm st) - 36"
    using assms(1) by (simp add: sub64_id sizeof_SDT_def)
  then have "acpi_find_table hhdm st m ident =
      (case find (\<lambda>p. strncmp m p ident 4 = 0 \<and> acpi_validate_sdt_checksum m p) (listed_tables hhdm st m) of None \<Rightarrow> 0 | Some p \<Rightarrow> p)"
  proof -
    assume len: "sub64 (sdt_length m (root_table hhdm st)) sizeof_SDT = sdt_length m (root_table hhdm st) - 36"
    have "(if has_xsdt st then va hhdm (xsdt_address (rsdp st)) else va hhdm (rsdt_address (rsdp st))) = root_table hhdm st"
      by (simp add: root_table_def)
    then show ?thesis
      by (simp only: acpi_find_table_def get_rsdp_def use_xsdt_def Let_def find_table_loop_find listed_tables_def len)
  qed
  also have "find (\<lambda>p. strncmp m p ident 4 = 0 \<and> acpi_validate_sdt_checksum m p) (listed_tables hhdm st m) =
      find (table_valid m ident) (listed_tables hhdm st m)"
  proof (rule find_cong [OF refl])
    fix p assume "p \<in> set (listed_tables hhdm st m)"
    with assms(2) have "p \<noteq> 0" by metis
    then show "(strncmp m p ident 4 = 0 \<and> acpi_validate_sdt_checksum m p) = table_valid m ident p"
      by (simp add: strncmp_iff acpi_validate_sdt_checksum_def checksum_loop_sum table_valid_def)
  qed
  finally show ?thesis .
qed

section \<open>Walking the interrupt devices\<close>

text \<open>The addresses of the records from \<open>p\<close> on, to the first that ends at or behind \<open>e\<close>.\<close>

inductive device_list :: "bytes \<Rightarrow> addr \<Rightarrow> addr \<Rightarrow> addr list \<Rightarrow> bool" for m e where
  last: "e \<le> add64 p (unat (m (p + 1))) \<Longrightarrow> device_list m e p [p]"
| more: "add64 p (unat (m (p + 1))) < e \<Longrightarrow> device_list m e (add64 p (unat (m (p + 1)))) ps \<Longrightarrow> device_list m e p (p # ps)"

lemma enumerate_list:
  "device_list m e p ps \<Longrightarrow> enumerate_loop room m p e dev = Some (fold (apic_device room m) ps dev)"
proof (induction arbitrary: dev rule: device_list.induct)
  case (last p)
  then show ?case by (subst enumerate_loop.simps) (simp add: Let_def)
next
  case (more p ps)
  then show ?case by (subst enumerate_loop.simps) (simp add: Let_def)
qed

lemma enumerate_returns_list:
  assumes "enumerate_loop room m p e dev = Some dev'"
  shows "\<exists>ps. device_list m e p ps \<and> dev' = fold (apic_device room m) ps dev"
proof (rule enumerate_loop.raw_induct [OF _ assms])
  fix enumerate_loop and room :: "nat \<Rightarrow> bool" and m :: bytes and p e :: addr and dev dev'
  assume 1: "\<And>room m p e dev dev'. enumerate_loop room m p e dev = Some dev' \<Longrightarrow>
      \<exists>ps. device_list m e p ps \<and> dev' = fold (apic_device room m) ps dev"
    "(let dev = apic_device room m p dev; p = add64 p (unat (m (p + 1)))
      in if p < e then enumerate_loop room m p e dev else Some dev) = Some dev'"
  show "\<exists>ps. device_list m e p ps \<and> dev' = fold (apic_device room m) ps dev"
  proof (cases "add64 p (unat (m (p + 1))) < e")
    case True
    with 1(2) have "enumerate_loop room m (add64 p (unat (m (p + 1)))) e (apic_device room m p dev) = Some dev'"
      by (simp add: Let_def)
    from 1(1) [OF this] obtain ps where "device_list m e (add64 p (unat (m (p + 1)))) ps"
      "dev' = fold (apic_device room m) ps (apic_device room m p dev)" by auto
    with True device_list.more show ?thesis by (intro exI [of _ "p # ps"]) simp
  next
    case False
    with 1(2) device_list.last [of e p m] show ?thesis by (intro exI [of _ "[p]"]) (auto simp: Let_def)
  qed
qed

text \<open>
  The walk returns exactly if the records lead to the end of the table; a record of length zero is never
  left.
\<close>

lemma enumerate_iff:
  "enumerate_loop room m p e dev = Some dev' \<longleftrightarrow> (\<exists>ps. device_list m e p ps \<and> dev' = fold (apic_device room m) ps dev)"
  using enumerate_list enumerate_returns_list by blast

inductive reached :: "bytes \<Rightarrow> addr \<Rightarrow> addr \<Rightarrow> addr \<Rightarrow> bool" for m e where
  here: "reached m e p p"
| step: "add64 p (unat (m (p + 1))) < e \<Longrightarrow> reached m e (add64 p (unat (m (p + 1)))) q \<Longrightarrow> reached m e p q"

lemma zero_length_no_list:
  assumes "m (q + 1) = 0" "q < e" "e < 2 ^ 64"
  shows "\<not> device_list m e q qs"
proof (induction "length qs" arbitrary: qs)
  case (Suc n)
  have "add64 q (unat (m (q + 1))) = q" using assms by (simp add: add64_id)
  then show ?case using Suc assms(2) by (auto elim: device_list.cases)
qed (auto elim: device_list.cases)

lemma reached_list: "reached m e p q \<Longrightarrow> device_list m e p ps \<Longrightarrow> \<exists>qs. device_list m e q qs"
proof (induction arbitrary: ps rule: reached.induct)
  case (step p q)
  then show ?case by (auto elim!: device_list.cases [of m e p])
qed blast

lemma list_of_reached:
  assumes "\<And>q. reached m e p q \<Longrightarrow> q < e \<Longrightarrow> m (q + 1) \<noteq> 0" "p < e" "e + 255 < 2 ^ 64"
  shows "\<exists>ps. device_list m e p ps"
  using assms(1,2)
proof (induction "e - p" arbitrary: p rule: less_induct)
  case less
  let ?p = "add64 p (unat (m (p + 1)))"
  have "unat (m (p + 1)) < 256" using unsigned_less [where 'a = nat, of "m (p + 1)"] by simp
  then have eq: "?p = p + unat (m (p + 1))" using less.prems(2) assms(3) by (simp add: add64_id)
  show ?case
  proof (cases "?p < e")
    case True
    have "m (p + 1) \<noteq> 0" using less.prems reached.here by blast
    then have "p < ?p" using eq by (simp add: unat_gt_0)
    then have "\<exists>ps. device_list m e ?p ps"
      using less.prems True reached.step by (intro less.hyps) auto
    then show ?thesis using True device_list.more by blast
  next
    case False
    then show ?thesis using device_list.last [of e p m] by auto
  qed
qed

section \<open>Timers\<close>

lemma hpet_wait_returns:
  assumes "\<exists>j \<ge> i. required \<le> counter j"
  shows "\<exists>j \<ge> i. hpet_wait counter required i = Some j \<and> required \<le> counter j"
proof -
  obtain j where "i \<le> j" "required \<le> counter j" using assms by blast
  then show ?thesis
  proof (induction "j - i" arbitrary: i)
    case 0
    then show ?case by (subst hpet_wait.simps) auto
  next
    case (Suc n)
    then show ?case
    proof (cases "counter i < required")
      case True
      have "n = j - Suc i" "Suc i \<le> j" using Suc.hyps(2) by simp_all
      then obtain j' where "Suc i \<le> j'" "hpet_wait counter required (Suc i) = Some j'" "required \<le> counter j'"
        using Suc.hyps(1) Suc.prems(2) by blast
      then show ?thesis using True by (subst hpet_wait.simps) auto
    next
      case False
      then show ?thesis by (subst hpet_wait.simps) auto
    qed
  qed
qed


text \<open>
  The calibration returns the number of ticks the timer has counted during the sleep, and leaves the timer unmasked
  with the vector 32.
\<close>

lemma lapic_calibrate_timer_counts:
  assumes "\<And>m. lapic_read base (usleep usec m) LAPIC_TIMER_CURRENT_COUNT = 2 ^ 32 - 1 - k" "k < 2 ^ 32" "base + 0x400 < 2 ^ 64"
  shows "\<exists>m'. lapic_calibrate_timer usleep base m usec = (k, m') \<and> lapic_read base m' LAPIC_LVT_TIMER_REGISTER = 32"
proof -
  have "lapic_read base (lapic_write base m LAPIC_LVT_TIMER_REGISTER v) LAPIC_TIMER_CURRENT_COUNT =
      lapic_read base m LAPIC_TIMER_CURRENT_COUNT" for m v
    using assms(3) by (simp add: lapic_read_def lapic_write_def LAPIC_LVT_TIMER_REGISTER_def LAPIC_TIMER_CURRENT_COUNT_def
        add64_id load32_store32)
  moreover have "lapic_read base (lapic_write base m LAPIC_LVT_TIMER_REGISTER 32) LAPIC_LVT_TIMER_REGISTER = 32" for m
    by (simp add: lapic_read_def lapic_write_def u32_def load_store32)
  moreover have "2 ^ 32 - 1 - (2 ^ 32 - 1 - k) = k" using assms(2) by simp
  ultimately show ?thesis using assms(1) by (simp add: lapic_calibrate_timer_def Let_def)
qed


section \<open>Properties\<close>

text \<open>
  C26: \<open>acpi_find_table\<close> returns the first table in the order of the root table that has the signature
  and whose bytes add up to zero, and null exactly if there is none.
\<close>

theorem acpi_find_table_spec:
  assumes "36 \<le> sdt_length m (root_table hhdm st)" "0 \<notin> set (listed_tables hhdm st m)"
  shows "acpi_find_table hhdm st m ident = 0 \<and> (\<forall>p \<in> set (listed_tables hhdm st m). \<not> table_valid m ident p) \<or>
    (\<exists>i < length (listed_tables hhdm st m). acpi_find_table hhdm st m ident = listed_tables hhdm st m ! i \<and>
       table_valid m ident (listed_tables hhdm st m ! i) \<and> (\<forall>j < i. \<not> table_valid m ident (listed_tables hhdm st m ! j)))"
proof (cases "find (table_valid m ident) (listed_tables hhdm st m)")
  case None
  with acpi_find_table_find [OF assms, of ident] show ?thesis by (simp add: find_None_iff)
next
  case (Some p)
  with acpi_find_table_find [OF assms, of ident] show ?thesis by (auto simp: find_Some_iff)
qed

text \<open>A root table at 1000 with one entry, a table \<open>APIC\<close> at 2000; the signature to look for at 3000.\<close>

definition sample_tables :: bytes where
  "sample_tables = poke (poke (poke (poke (\<lambda>_. 0) 1004 [40, 0, 0, 0]) 1036 [208, 7, 0, 0]) 2000 [65, 80, 73, 67, 10, 0, 0, 0, 0, 217]) 3000
     [65, 80, 73, 67]"

definition sample_acpi :: acpi_state where
  "sample_acpi = \<lparr>has_xsdt = False, rsdp = \<lparr>rsdp_oem_string = [], rsdp_revision = 0, rsdt_address = 1000, xsdt_address = 0\<rparr>\<rparr>"

lemma load32_bytes:
  "load32 m a = unat (m a) + 256 * (unat (m (a + 1)) + 256 * (unat (m (a + 2)) + 256 * unat (m (a + 3))))"
proof -
  have "Suc (Suc (Suc (Suc 0))) = 4" by simp
  moreover have "load_bytes m a (Suc (Suc (Suc (Suc 0)))) =
      unat (m a) + 256 * (unat (m (a + 1)) + 256 * (unat (m (a + 2)) + 256 * unat (m (a + 3))))"
    by (simp add: numeral_3_eq_3)
  ultimately show ?thesis by (simp only: load32_def)
qed

lemma sample_tables_facts:
  "root_table 0 sample_acpi = 1000" "sdt_length sample_tables 1000 = 40" "sdt_length sample_tables 2000 = 10"
  "listed_tables 0 sample_acpi sample_tables = [2000]"
proof -
  show root: "root_table 0 sample_acpi = 1000" by (simp add: root_table_def sample_acpi_def va_def add64_def wrap64_def)
  show len: "sdt_length sample_tables 1000 = 40" "sdt_length sample_tables 2000 = 10"
    by (simp_all add: sdt_length_def load32_bytes sample_tables_def)
  have "sdt_next 0 sample_tables False 1000 0 = 2000"
    by (simp add: sdt_next_def sizeof_SDT_def load32_bytes sample_tables_def va_def add64_def wrap64_def)
  then show "listed_tables 0 sample_acpi sample_tables = [2000]"
    unfolding listed_tables_def root len by (simp add: sample_acpi_def)
qed

theorem acpi_find_table_spec_witness: "acpi_find_table 0 sample_acpi sample_tables 3000 = 2000"
proof -
  have "table_valid sample_tables 3000 2000"
  proof -
    have "(\<forall>k < 4. P k) \<longleftrightarrow> P 0 \<and> P 1 \<and> P 2 \<and> P (3 :: nat)" for P
      by (auto simp: numeral_eq_Suc less_Suc_eq)
    moreover have "[0 ..< 10] = [0, 1, 2, 3, 4, 5, 6, 7, 8, 9]" by code_simp
    ultimately show ?thesis
      unfolding table_valid_def sample_tables_facts(3) by (simp add: sample_tables_def)
  qed
  with acpi_find_table_spec [of sample_tables 0 sample_acpi 3000] show ?thesis
    by (simp add: sample_tables_facts)
qed

end
