(* ===== verification/Fmt.thy ===== *)
theory Fmt
  imports Strings
begin

text \<open>
  The formatter of the kernel, \<open>src/libs/base/sources/fmt.c\<close>: \<open>_vsnprintf\<close> with its output functions and
  conversions, and the four entry points. The state is the byte memory, from which format and
  strings are read and into which \<open>_out_buffer\<close> writes, together with the state \<open>'u\<close> of the
  function that \<open>fctprintf\<close> is given. The flags are a record of the bits, \<open>unsigned int\<close> is \<open>32 word\<close>, and
  the variable arguments are the list of their 64-bit slots; taking an argument that is not there, or
  a loop over a string that has no end, is \<open>None\<close>. The conversion buffer is the list of its first
  \<open>len\<close> characters; it never holds more than 32 (\<open>ntoa_buffer_bound\<close>).

  The kernel is built without \<open>SSE_SUPPORT\<close>: the conversions of floating point numbers are
  not compiled, and \<open>%f\<close> and the like are unknown specifiers.
\<close>

section \<open>Data\<close>

record fmt_flags =
  fl_zeropad :: bool
  fl_left :: bool
  fl_plus :: bool
  fl_space :: bool
  fl_hash :: bool
  fl_uppercase :: bool
  fl_char :: bool
  fl_short :: bool
  fl_long :: bool
  fl_long_long :: bool
  fl_precision :: bool

definition no_flags :: fmt_flags where
  "no_flags = \<lparr>fl_zeropad = False, fl_left = False, fl_plus = False, fl_space = False, fl_hash = False, fl_uppercase = False,
     fl_char = False, fl_short = False, fl_long = False, fl_long_long = False, fl_precision = False\<rparr>"

type_synonym uint = "32 word"
type_synonym va_list = "64 word list"
type_synonym 'u fstate = "bytes \<times> 'u"
type_synonym 'u out_fct_type = "byte \<Rightarrow> addr \<Rightarrow> nat \<Rightarrow> nat \<Rightarrow> 'u fstate \<Rightarrow> 'u fstate"

text \<open>The state and \<open>idx\<close>, which every output changes together: \<open>out(c, buffer, idx++, maxlen)\<close>.\<close>

type_synonym 'u cursor = "'u fstate \<times> nat"

definition emit :: "'u out_fct_type \<Rightarrow> addr \<Rightarrow> nat \<Rightarrow> byte \<Rightarrow> 'u cursor \<Rightarrow> 'u cursor" where
  "emit out buffer maxlen c w = (out c buffer (snd w) maxlen (fst w), add64 (snd w) 1)"

section \<open>Output functions\<close>

definition out_buffer :: "'u out_fct_type" where
  "out_buffer character buffer idx maxlen st =
     (if idx < maxlen then ((fst st)(buffer + idx := character), snd st) else st)"

definition out_null :: "'u out_fct_type" where
  "out_null character buffer idx maxlen st = st"

record 'u out_fct_wrap =
  wrap_fct :: "byte \<Rightarrow> addr \<Rightarrow> 'u fstate \<Rightarrow> 'u fstate"
  wrap_arg :: addr

definition out_fct :: "'u out_fct_wrap \<Rightarrow> 'u out_fct_type" where
  "out_fct wrap character buffer idx maxlen st =
     (if character \<noteq> 0 then wrap_fct wrap character (wrap_arg wrap) st else st)"

section \<open>Reading strings and numbers\<close>

function strnlen_s_loop :: "bytes \<Rightarrow> addr \<Rightarrow> nat \<Rightarrow> addr" where
  "strnlen_s_loop m s maxsize =
     (if m s \<noteq> 0 \<and> maxsize \<noteq> 0 then strnlen_s_loop m (s + 1) (maxsize - 1) else s)"
  by pat_completeness auto
termination by (relation "measure (\<lambda>(_, _, n). n)") auto

declare strnlen_s_loop.simps [simp del]

definition strnlen_s :: "bytes \<Rightarrow> addr \<Rightarrow> nat \<Rightarrow> uint" where
  "strnlen_s m str maxsize = of_nat (strnlen_s_loop m str maxsize - str)"

definition is_digit :: "byte \<Rightarrow> bool" where
  "is_digit ch \<longleftrightarrow> 48 \<le> ch \<and> ch \<le> 57"

partial_function (option) atoi_loop :: "bytes \<Rightarrow> addr \<Rightarrow> uint \<Rightarrow> (uint \<times> addr) option" where
  [code]: "atoi_loop m str i =
     (if is_digit (m str) then atoi_loop m (str + 1) (i * 10 + (ucast (m str) - 48)) else Some (i, str))"

definition atoi :: "bytes \<Rightarrow> addr \<Rightarrow> (uint \<times> addr) option" where
  "atoi m str = atoi_loop m str 0"

section \<open>Numbers\<close>

text \<open>\<open>for (i = len; i < width; i++) out(' ', ...)\<close>, and \<open>while (l++ < width) out(' ', ...)\<close>.\<close>

function pad_from :: "'u out_fct_type \<Rightarrow> addr \<Rightarrow> nat \<Rightarrow> nat \<Rightarrow> uint \<Rightarrow> 'u cursor \<Rightarrow> 'u cursor" where
  "pad_from out buffer maxlen i width w =
     (if i < unat width then pad_from out buffer maxlen (i + 1) width (emit out buffer maxlen 32 w) else w)"
  by pat_completeness auto
termination by (relation "measure (\<lambda>(_, _, _, i, n, _). unat n - i)") auto

declare pad_from.simps [simp del]

lemma sub64_add64_1: "sub64 (add64 a (Suc 0)) b = wrap64 (sub64 a b + 1)"
proof -
  have "((a + 1) mod n + k) mod n = ((a + k) mod n + 1) mod n" for k n :: nat
    by (simp add: mod_simps ac_simps)
  then show ?thesis by (simp only: sub64_def add64_def wrap64_def One_nat_def [symmetric])
qed

text \<open>\<open>while (idx - start_idx < width) out(' ', ...)\<close>.\<close>

function pad_upto :: "'u out_fct_type \<Rightarrow> addr \<Rightarrow> nat \<Rightarrow> nat \<Rightarrow> uint \<Rightarrow> 'u cursor \<Rightarrow> 'u cursor" where
  "pad_upto out buffer maxlen start_idx width w =
     (if sub64 (snd w) start_idx < unat width
      then pad_upto out buffer maxlen start_idx width (emit out buffer maxlen 32 w) else w)"
  by pat_completeness auto

termination
proof (relation "measure (\<lambda>(_, _, _, s, n, w). unat n - sub64 (snd w) s)", goal_cases)
  case (2 out buffer maxlen s n w)
  have "unat n < 2 ^ 64" using unsigned_less [where 'a = nat, of n] by simp
  with 2 have "wrap64 (sub64 (snd w) s + 1) = sub64 (snd w) s + 1" by (simp add: wrap64_def)
  with 2 show ?case by (simp add: emit_def sub64_add64_1)
qed simp

declare pad_upto.simps [simp del]

text \<open>\<open>while (len) out(buf[--len], ...)\<close>.\<close>

fun emit_rev :: "'u out_fct_type \<Rightarrow> addr \<Rightarrow> nat \<Rightarrow> byte list \<Rightarrow> nat \<Rightarrow> 'u cursor \<Rightarrow> 'u cursor" where
  "emit_rev out buffer maxlen buf 0 w = w"
| "emit_rev out buffer maxlen buf (Suc len) w =
     emit_rev out buffer maxlen buf len (emit out buffer maxlen (buf ! len) w)"

definition out_rev ::
  "'u out_fct_type \<Rightarrow> addr \<Rightarrow> nat \<Rightarrow> byte list \<Rightarrow> uint \<Rightarrow> fmt_flags \<Rightarrow> 'u cursor \<Rightarrow> 'u cursor" where
  "out_rev out buffer maxlen buf width flags w =
     (let start_idx = snd w; len = length buf;
          w = (if \<not> fl_left flags \<and> \<not> fl_zeropad flags then pad_from out buffer maxlen len width w else w);
          w = emit_rev out buffer maxlen buf len w
      in if fl_left flags then pad_upto out buffer maxlen start_idx width w else w)"

text \<open>\<open>buf[len++] = c\<close> where \<open>len < PRINTF_NTOA_BUFFER_SIZE\<close>, and the loops that store zeros.\<close>

definition NTOA_BUFFER_SIZE :: nat where
  "NTOA_BUFFER_SIZE = 32"

definition put :: "byte \<Rightarrow> byte list \<Rightarrow> byte list" where
  "put c buf = (if length buf < NTOA_BUFFER_SIZE then buf @ [c] else buf)"

function put_zeros :: "uint \<Rightarrow> byte list \<Rightarrow> byte list" where
  "put_zeros n buf =
     (if length buf < unat n \<and> length buf < NTOA_BUFFER_SIZE then put_zeros n (buf @ [48]) else buf)"
  by pat_completeness auto
termination by (relation "measure (\<lambda>(n, buf). unat n - length buf)") auto

declare put_zeros.simps [simp del]

text \<open>The buffer and the width that \<open>_ntoa_format\<close> hands to \<open>_out_rev\<close>.\<close>

definition ntoa_format_zeros ::
  "byte list \<Rightarrow> bool \<Rightarrow> uint \<Rightarrow> uint \<Rightarrow> fmt_flags \<Rightarrow> byte list \<times> uint" where
  "ntoa_format_zeros buf negative prec width flags =
     (if fl_left flags then (buf, width)
      else let width = (if width \<noteq> 0 \<and> fl_zeropad flags \<and> (negative \<or> fl_plus flags \<or> fl_space flags)
                        then width - 1 else width);
               buf = put_zeros prec buf;
               buf = (if fl_zeropad flags then put_zeros width buf else buf)
           in (buf, width))"

definition ntoa_format_hash :: "byte list \<Rightarrow> uint \<Rightarrow> uint \<Rightarrow> uint \<Rightarrow> fmt_flags \<Rightarrow> byte list" where
  "ntoa_format_hash buf base prec width flags =
     (if fl_hash flags
      then let buf = (if \<not> fl_precision flags \<and> buf \<noteq> [] \<and> (length buf = unat prec \<or> length buf = unat width)
                      then let buf = butlast buf in if buf \<noteq> [] \<and> base = 16 then butlast buf else buf
                      else buf);
               buf = (if base = 16 \<and> \<not> fl_uppercase flags \<and> length buf < NTOA_BUFFER_SIZE then put 120 buf
                      else if base = 16 \<and> fl_uppercase flags \<and> length buf < NTOA_BUFFER_SIZE then put 88 buf
                      else if base = 2 \<and> length buf < NTOA_BUFFER_SIZE then put 98 buf
                      else buf)
           in put 48 buf
      else buf)"

definition ntoa_format_sign :: "byte list \<Rightarrow> bool \<Rightarrow> fmt_flags \<Rightarrow> byte list" where
  "ntoa_format_sign buf negative flags =
     (if negative then put 45 buf else if fl_plus flags then put 43 buf
      else if fl_space flags then put 32 buf else buf)"

definition ntoa_format ::
  "'u out_fct_type \<Rightarrow> addr \<Rightarrow> nat \<Rightarrow> byte list \<Rightarrow> bool \<Rightarrow> uint \<Rightarrow> uint \<Rightarrow> uint \<Rightarrow> fmt_flags \<Rightarrow>
   'u cursor \<Rightarrow> 'u cursor" where
  "ntoa_format out buffer maxlen buf negative base prec width flags w =
     (let (buf, width) = ntoa_format_zeros buf negative prec width flags;
          buf = ntoa_format_hash buf base prec width flags;
          buf = ntoa_format_sign buf negative flags
      in out_rev out buffer maxlen buf width flags w)"

text \<open>The \<open>do\<close> loop of \<open>_ntoa_long\<close>: it stores the digits, the last one first.\<close>

definition digit_char :: "bool \<Rightarrow> nat \<Rightarrow> byte" where
  "digit_char upper digit = (if digit < 10 then 48 + of_nat digit else (if upper then 65 else 97) + of_nat digit - 10)"

function ntoa_digits :: "bool \<Rightarrow> nat \<Rightarrow> nat \<Rightarrow> byte list \<Rightarrow> byte list" where
  "ntoa_digits upper base value buf =
     (let buf = buf @ [digit_char upper (value mod base)]; value = value div base
      in if value \<noteq> 0 \<and> length buf < NTOA_BUFFER_SIZE then ntoa_digits upper base value buf else buf)"
  by pat_completeness auto
termination by (relation "measure (\<lambda>(_, _, _, buf). NTOA_BUFFER_SIZE - length buf)") auto

declare ntoa_digits.simps [simp del]

definition ntoa_long ::
  "'u out_fct_type \<Rightarrow> addr \<Rightarrow> nat \<Rightarrow> nat \<Rightarrow> bool \<Rightarrow> nat \<Rightarrow> uint \<Rightarrow> uint \<Rightarrow> fmt_flags \<Rightarrow> 'u cursor \<Rightarrow> 'u cursor" where
  "ntoa_long out buffer maxlen value negative base prec width flags w =
     (let flags = (if value = 0 then flags\<lparr>fl_hash := False\<rparr> else flags);
          buf = (if \<not> fl_precision flags \<or> value \<noteq> 0 then ntoa_digits (fl_uppercase flags) base value [] else [])
      in ntoa_format out buffer maxlen buf negative (of_nat base) prec width flags w)"

definition ntoa_long_long ::
  "'u out_fct_type \<Rightarrow> addr \<Rightarrow> nat \<Rightarrow> nat \<Rightarrow> bool \<Rightarrow> nat \<Rightarrow> uint \<Rightarrow> uint \<Rightarrow> fmt_flags \<Rightarrow> 'u cursor \<Rightarrow> 'u cursor" where
  "ntoa_long_long out buffer maxlen value negative base prec width flags w =
     (let flags = (if value = 0 then flags\<lparr>fl_hash := False\<rparr> else flags);
          buf = (if \<not> fl_precision flags \<or> value \<noteq> 0 then ntoa_digits (fl_uppercase flags) base value [] else [])
      in ntoa_format out buffer maxlen buf negative (of_nat base) prec width flags w)"

section \<open>Directives\<close>

partial_function (option) fmt_flags_loop :: "bytes \<Rightarrow> addr \<Rightarrow> fmt_flags \<Rightarrow> (addr \<times> fmt_flags) option" where
  [code]: "fmt_flags_loop m format flags =
     (if m format = 48 then fmt_flags_loop m (format + 1) (flags\<lparr>fl_zeropad := True\<rparr>)
      else if m format = 45 then fmt_flags_loop m (format + 1) (flags\<lparr>fl_left := True\<rparr>)
      else if m format = 43 then fmt_flags_loop m (format + 1) (flags\<lparr>fl_plus := True\<rparr>)
      else if m format = 32 then fmt_flags_loop m (format + 1) (flags\<lparr>fl_space := True\<rparr>)
      else if m format = 35 then fmt_flags_loop m (format + 1) (flags\<lparr>fl_hash := True\<rparr>)
      else Some (format, flags))"

text \<open>\<open>va_arg(va, T)\<close> takes a slot; an \<open>int\<close> is its low half.\<close>

fun va_arg :: "va_list \<Rightarrow> (64 word \<times> va_list) option" where
  "va_arg [] = None"
| "va_arg (v # va) = Some (v, va)"

definition as_int :: "64 word \<Rightarrow> int" where
  "as_int v = sint (ucast v :: 32 word)"

definition fmt_width :: "bytes \<Rightarrow> addr \<Rightarrow> fmt_flags \<Rightarrow> va_list \<Rightarrow> (addr \<times> fmt_flags \<times> uint \<times> va_list) option" where
  "fmt_width m format flags va =
     (if is_digit (m format)
      then case atoi m format of None \<Rightarrow> None | Some (width, format) \<Rightarrow> Some (format, flags, width, va)
      else if m format = 42
      then case va_arg va of
             None \<Rightarrow> None
           | Some (v, va) \<Rightarrow>
               if as_int v < 0 then Some (format + 1, flags\<lparr>fl_left := True\<rparr>, of_int (- as_int v), va)
               else Some (format + 1, flags, of_int (as_int v), va)
      else Some (format, flags, 0, va))"

definition fmt_precision :: "bytes \<Rightarrow> addr \<Rightarrow> fmt_flags \<Rightarrow> va_list \<Rightarrow> (addr \<times> fmt_flags \<times> uint \<times> va_list) option" where
  "fmt_precision m format flags va =
     (if m format = 46
      then let flags = flags\<lparr>fl_precision := True\<rparr>; format = format + 1 in
           if is_digit (m format)
           then case atoi m format of None \<Rightarrow> None | Some (prec, format) \<Rightarrow> Some (format, flags, prec, va)
           else if m format = 42
           then case va_arg va of
                  None \<Rightarrow> None
                | Some (v, va) \<Rightarrow> Some (format + 1, flags, if as_int v > 0 then of_int (as_int v) else 0, va)
           else Some (format, flags, 0, va)
      else Some (format, flags, 0, va))"

text \<open>\<open>long\<close>, \<open>ptrdiff_t\<close>, \<open>intmax_t\<close> and \<open>size_t\<close> have 8 bytes.\<close>

definition fmt_length :: "bytes \<Rightarrow> addr \<Rightarrow> fmt_flags \<Rightarrow> addr \<times> fmt_flags" where
  "fmt_length m format flags =
     (if m format = 108
      then let flags = flags\<lparr>fl_long := True\<rparr>; format = format + 1 in
           if m format = 108 then (format + 1, flags\<lparr>fl_long_long := True\<rparr>) else (format, flags)
      else if m format = 104
      then let flags = flags\<lparr>fl_short := True\<rparr>; format = format + 1 in
           if m format = 104 then (format + 1, flags\<lparr>fl_char := True\<rparr>) else (format, flags)
      else if m format = 116 \<or> m format = 106 \<or> m format = 122
      then (format + 1, flags\<lparr>fl_long := True\<rparr>)
      else (format, flags))"

section \<open>Conversions\<close>

definition int_base :: "byte \<Rightarrow> nat" where
  "int_base spec = (if spec = 120 \<or> spec = 88 then 16 else if spec = 111 then 8 else if spec = 98 then 2 else 10)"

definition int_flags :: "byte \<Rightarrow> fmt_flags \<Rightarrow> fmt_flags" where
  "int_flags spec flags =
     (let flags = (if int_base spec = 10 then flags\<lparr>fl_hash := False\<rparr> else flags);
          flags = (if spec = 88 then flags\<lparr>fl_uppercase := True\<rparr> else flags);
          flags = (if spec \<noteq> 105 \<and> spec \<noteq> 100 then flags\<lparr>fl_plus := False, fl_space := False\<rparr> else flags)
      in if fl_precision flags then flags\<lparr>fl_zeropad := False\<rparr> else flags)"

text \<open>
  The value that is converted, an unsigned number and its sign. \<open>0 - value\<close> of the least number of
  its type wraps to itself, which converts to its absolute value.
\<close>

definition signed_value :: "fmt_flags \<Rightarrow> 64 word \<Rightarrow> nat \<times> bool" where
  "signed_value flags v =
     (if fl_long_long flags \<or> fl_long flags
      then let value = sint v in (nat ((if value > 0 then value else 0 - value) mod 2 ^ 64), value < 0)
      else let value = (if fl_char flags then sint (ucast v :: 8 word)
                        else if fl_short flags then sint (ucast v :: 16 word) else as_int v)
           in (nat ((if value > 0 then value else 0 - value) mod 2 ^ 32), value < 0))"

definition unsigned_value :: "fmt_flags \<Rightarrow> 64 word \<Rightarrow> nat" where
  "unsigned_value flags v =
     (if fl_long_long flags \<or> fl_long flags then unat v
      else if fl_char flags then unat (ucast v :: 8 word)
      else if fl_short flags then unat (ucast v :: 16 word) else unat (ucast v :: 32 word))"

definition fmt_integer ::
  "'u out_fct_type \<Rightarrow> addr \<Rightarrow> nat \<Rightarrow> byte \<Rightarrow> uint \<Rightarrow> uint \<Rightarrow> fmt_flags \<Rightarrow> 'u cursor \<Rightarrow> va_list \<Rightarrow>
   ('u cursor \<times> va_list) option" where
  "fmt_integer out buffer maxlen spec precision width flags w va =
     (let base = int_base spec; flags = int_flags spec flags in
      case va_arg va of
        None \<Rightarrow> None
      | Some (v, va) \<Rightarrow>
          let (value, negative) = (if spec = 105 \<or> spec = 100 then signed_value flags v
                                   else (unsigned_value flags v, False))
          in Some (if fl_long_long flags
                   then ntoa_long_long out buffer maxlen value negative base precision width flags w
                   else ntoa_long out buffer maxlen value negative base precision width flags w, va))"

definition fmt_char ::
  "'u out_fct_type \<Rightarrow> addr \<Rightarrow> nat \<Rightarrow> uint \<Rightarrow> fmt_flags \<Rightarrow> 'u cursor \<Rightarrow> va_list \<Rightarrow> ('u cursor \<times> va_list) option" where
  "fmt_char out buffer maxlen width flags w va =
     (let w = (if \<not> fl_left flags then pad_from out buffer maxlen 1 width w else w) in
      case va_arg va of
        None \<Rightarrow> None
      | Some (v, va) \<Rightarrow>
          let w = emit out buffer maxlen (ucast v) w
          in Some (if fl_left flags then pad_from out buffer maxlen 1 width w else w, va))"

text \<open>\<open>while ((*p != 0) && (!(flags & FLAGS_PRECISION) || precision--)) out(*(p++), ...)\<close>.\<close>

partial_function (option) fmt_string_loop ::
  "'u out_fct_type \<Rightarrow> addr \<Rightarrow> nat \<Rightarrow> bool \<Rightarrow> addr \<Rightarrow> uint \<Rightarrow> 'u cursor \<Rightarrow> 'u cursor option" where
  [code]: "fmt_string_loop out buffer maxlen limited p precision w =
     (if fst (fst w) p \<noteq> 0 \<and> (\<not> limited \<or> precision \<noteq> 0)
      then fmt_string_loop out buffer maxlen limited (p + 1) (if limited then precision - 1 else precision)
             (emit out buffer maxlen (fst (fst w) p) w)
      else Some w)"

definition fmt_string ::
  "'u out_fct_type \<Rightarrow> addr \<Rightarrow> nat \<Rightarrow> uint \<Rightarrow> uint \<Rightarrow> fmt_flags \<Rightarrow> 'u cursor \<Rightarrow> va_list \<Rightarrow>
   ('u cursor \<times> va_list) option" where
  "fmt_string out buffer maxlen precision width flags w va =
     (case va_arg va of
        None \<Rightarrow> None
      | Some (v, va) \<Rightarrow>
          let p = unat v;
              l = strnlen_s (fst (fst w)) p (if precision \<noteq> 0 then unat precision else 2 ^ 64 - 1);
              l = (if fl_precision flags then if l < precision then l else precision else l);
              w = (if \<not> fl_left flags then pad_from out buffer maxlen (unat l) width w else w)
          in case fmt_string_loop out buffer maxlen (fl_precision flags) p precision w of
               None \<Rightarrow> None
             | Some w \<Rightarrow> Some (if fl_left flags then pad_from out buffer maxlen (unat l) width w else w, va))"

definition fmt_pointer ::
  "'u out_fct_type \<Rightarrow> addr \<Rightarrow> nat \<Rightarrow> uint \<Rightarrow> fmt_flags \<Rightarrow> 'u cursor \<Rightarrow> va_list \<Rightarrow> ('u cursor \<times> va_list) option" where
  "fmt_pointer out buffer maxlen precision flags w va =
     (case va_arg va of
        None \<Rightarrow> None
      | Some (v, va) \<Rightarrow>
          Some (ntoa_long_long out buffer maxlen (unat v) False 16 precision 16
                  (flags\<lparr>fl_zeropad := True, fl_uppercase := True\<rparr>) w, va))"

text \<open>The \<open>switch\<close> on the specifier.\<close>

definition fmt_specifier ::
  "'u out_fct_type \<Rightarrow> addr \<Rightarrow> nat \<Rightarrow> byte \<Rightarrow> uint \<Rightarrow> uint \<Rightarrow> fmt_flags \<Rightarrow> 'u cursor \<Rightarrow> va_list \<Rightarrow>
   ('u cursor \<times> va_list) option" where
  "fmt_specifier out buffer maxlen spec precision width flags w va =
     (if spec \<in> {100, 105, 117, 120, 88, 111, 98}
      then fmt_integer out buffer maxlen spec precision width flags w va
      else if spec = 99 then fmt_char out buffer maxlen width flags w va
      else if spec = 115 then fmt_string out buffer maxlen precision width flags w va
      else if spec = 112 then fmt_pointer out buffer maxlen precision flags w va
      else if spec = 37 then Some (emit out buffer maxlen 37 w, va)
      else Some (emit out buffer maxlen spec w, va))"

text \<open>A directive, from the character after the percent sign.\<close>

definition fmt_directive ::
  "'u out_fct_type \<Rightarrow> addr \<Rightarrow> nat \<Rightarrow> addr \<Rightarrow> 'u cursor \<Rightarrow> va_list \<Rightarrow> (addr \<times> 'u cursor \<times> va_list) option" where
  "fmt_directive out buffer maxlen format w va =
     (let m = fst (fst w) in
      case fmt_flags_loop m format no_flags of None \<Rightarrow> None | Some (format, flags) \<Rightarrow>
      case fmt_width m format flags va of None \<Rightarrow> None | Some (format, flags, width, va) \<Rightarrow>
      case fmt_precision m format flags va of None \<Rightarrow> None | Some (format, flags, precision, va) \<Rightarrow>
      case fmt_length m format flags of (format, flags) \<Rightarrow>
      case fmt_specifier out buffer maxlen (m format) precision width flags w va of
        None \<Rightarrow> None
      | Some (w, va) \<Rightarrow> Some (format + 1, w, va))"

section \<open>The formatter\<close>

partial_function (option) vsnprintf_loop ::
  "'u out_fct_type \<Rightarrow> addr \<Rightarrow> nat \<Rightarrow> addr \<Rightarrow> 'u cursor \<Rightarrow> va_list \<Rightarrow> 'u cursor option" where
  [code]: "vsnprintf_loop out buffer maxlen format w va =
     (if fst (fst w) format = 0 then Some w
      else if fst (fst w) format \<noteq> 37
      then vsnprintf_loop out buffer maxlen (format + 1) (emit out buffer maxlen (fst (fst w) format) w) va
      else case fmt_directive out buffer maxlen (format + 1) w va of
             None \<Rightarrow> None
           | Some r \<Rightarrow> vsnprintf_loop out buffer maxlen (fst r) (fst (snd r)) (snd (snd r)))"

definition vsnprintf_internal ::
  "'u out_fct_type \<Rightarrow> addr \<Rightarrow> nat \<Rightarrow> addr \<Rightarrow> va_list \<Rightarrow> 'u fstate \<Rightarrow> (int \<times> 'u fstate) option" where
  "vsnprintf_internal out buffer maxlen format va st =
     (let out = (if buffer = 0 then out_null else out) in
      case vsnprintf_loop out buffer maxlen format (st, 0) va of
        None \<Rightarrow> None
      | Some (st, idx) \<Rightarrow>
          let st = out 0 buffer (if idx < maxlen then idx else sub64 maxlen 1) maxlen st
          in Some (sint (of_nat idx :: 32 word), st))"

definition sprintf :: "addr \<Rightarrow> addr \<Rightarrow> va_list \<Rightarrow> 'u fstate \<Rightarrow> (int \<times> 'u fstate) option" where
  "sprintf buffer format va st = vsnprintf_internal out_buffer buffer (2 ^ 64 - 1) format va st"

definition snprintf :: "addr \<Rightarrow> nat \<Rightarrow> addr \<Rightarrow> va_list \<Rightarrow> 'u fstate \<Rightarrow> (int \<times> 'u fstate) option" where
  "snprintf buffer count format va st = vsnprintf_internal out_buffer buffer count format va st"

definition vsnprintf :: "addr \<Rightarrow> nat \<Rightarrow> addr \<Rightarrow> va_list \<Rightarrow> 'u fstate \<Rightarrow> (int \<times> 'u fstate) option" where
  "vsnprintf buffer count format va st = vsnprintf_internal out_buffer buffer count format va st"

text \<open>\<open>out_fct_wrap\<close> is the address of the wrapper on the stack, which is not null.\<close>

definition fctprintf ::
  "(byte \<Rightarrow> addr \<Rightarrow> 'u fstate \<Rightarrow> 'u fstate) \<Rightarrow> addr \<Rightarrow> addr \<Rightarrow> addr \<Rightarrow> va_list \<Rightarrow> 'u fstate \<Rightarrow>
   (int \<times> 'u fstate) option" where
  "fctprintf out arg out_fct_wrap format va st =
     vsnprintf_internal (out_fct \<lparr>wrap_fct = out, wrap_arg = arg\<rparr>) out_fct_wrap (2 ^ 64 - 1) format va st"

end
