(* ===== verification/Fmt_Text.thy ===== *)
theory Fmt_Text
  imports Fmt
begin

text \<open>
  A reference for the formatter, on lists: what text a format, given as the list of its
  characters, stands for. Directives are scanned from the list; the strings of \<open>%s\<close> come from a
  map of the strings in memory. A format that ends inside a directive, an argument that is
  missing and an address where no string is known have no text.
\<close>

section \<open>Scanning a directive\<close>

fun scan_flags :: "byte list \<Rightarrow> fmt_flags \<Rightarrow> byte list \<times> fmt_flags" where
  "scan_flags [] flags = ([], flags)"
| "scan_flags (c # fs) flags =
     (if c = 48 then scan_flags fs (flags\<lparr>fl_zeropad := True\<rparr>)
      else if c = 45 then scan_flags fs (flags\<lparr>fl_left := True\<rparr>)
      else if c = 43 then scan_flags fs (flags\<lparr>fl_plus := True\<rparr>)
      else if c = 32 then scan_flags fs (flags\<lparr>fl_space := True\<rparr>)
      else if c = 35 then scan_flags fs (flags\<lparr>fl_hash := True\<rparr>)
      else (c # fs, flags))"

fun scan_number :: "byte list \<Rightarrow> uint \<Rightarrow> uint \<times> byte list" where
  "scan_number [] i = (i, [])"
| "scan_number (c # fs) i = (if is_digit c then scan_number fs (i * 10 + (ucast c - 48)) else (i, c # fs))"

text \<open>A width or a precision: a number, or a star and the argument it stands for.\<close>

definition scan_size :: "byte list \<Rightarrow> va_list \<Rightarrow> (byte list \<times> int \<times> va_list) option" where
  "scan_size fs va =
     (case fs of
        [] \<Rightarrow> Some (fs, 0, va)
      | c # fs' \<Rightarrow> if is_digit c then case scan_number fs 0 of (n, fs) \<Rightarrow> Some (fs, uint n, va)
                   else if c = 42 then case va of [] \<Rightarrow> None | v # va \<Rightarrow> Some (fs', as_int v, va)
                   else Some (fs, 0, va))"

definition scan_precision ::
  "byte list \<Rightarrow> fmt_flags \<Rightarrow> va_list \<Rightarrow> (byte list \<times> fmt_flags \<times> uint \<times> va_list) option" where
  "scan_precision fs flags va =
     (case fs of
        [] \<Rightarrow> Some (fs, flags, 0, va)
      | c # fs' \<Rightarrow> if c = 46
                   then map_option (\<lambda>(fs, n, va). (fs, flags\<lparr>fl_precision := True\<rparr>, if n > 0 then of_int n else 0, va))
                          (scan_size fs' va)
                   else Some (fs, flags, 0, va))"

fun scan_length :: "byte list \<Rightarrow> fmt_flags \<Rightarrow> byte list \<times> fmt_flags" where
  "scan_length [] flags = ([], flags)"
| "scan_length (c # fs) flags =
     (if c = 108 then if fs \<noteq> [] \<and> hd fs = 108 then (tl fs, flags\<lparr>fl_long := True, fl_long_long := True\<rparr>)
                      else (fs, flags\<lparr>fl_long := True\<rparr>)
      else if c = 104 then if fs \<noteq> [] \<and> hd fs = 104 then (tl fs, flags\<lparr>fl_short := True, fl_char := True\<rparr>)
                      else (fs, flags\<lparr>fl_short := True\<rparr>)
      else if c \<in> {116, 106, 122} then (fs, flags\<lparr>fl_long := True\<rparr>)
      else (c # fs, flags))"

record directive =
  d_spec :: byte
  d_flags :: fmt_flags
  d_width :: uint
  d_precision :: uint

definition scan_directive :: "byte list \<Rightarrow> va_list \<Rightarrow> (directive \<times> byte list \<times> va_list) option" where
  "scan_directive fs va =
     (case scan_flags fs no_flags of (fs, flags) \<Rightarrow>
      case scan_size fs va of None \<Rightarrow> None | Some (fs, n, va) \<Rightarrow>
      case scan_precision fs (if n < 0 then flags\<lparr>fl_left := True\<rparr> else flags) va of
        None \<Rightarrow> None
      | Some (fs, flags, prec, va) \<Rightarrow>
      case scan_length fs flags of
        ([], flags) \<Rightarrow> None
      | (c # fs, flags) \<Rightarrow>
          Some (\<lparr>d_spec = c, d_flags = flags, d_width = of_int \<bar>n\<bar>, d_precision = prec\<rparr>, fs, va))"

section \<open>The text of a directive\<close>

definition justify :: "fmt_flags \<Rightarrow> uint \<Rightarrow> byte list \<Rightarrow> byte list" where
  "justify flags width t =
     (if fl_left flags then t @ replicate (unat width - length t) 32
      else replicate (unat width - length t) 32 @ t)"

text \<open>The characters of a number in the order of the conversion buffer, the last one first.\<close>

definition ntoa_chars :: "nat \<Rightarrow> bool \<Rightarrow> nat \<Rightarrow> uint \<Rightarrow> uint \<Rightarrow> fmt_flags \<Rightarrow> byte list \<times> uint" where
  "ntoa_chars value negative base prec width flags =
     (let buf = (if \<not> fl_precision flags \<or> value \<noteq> 0 then ntoa_digits (fl_uppercase flags) base value [] else []);
          (buf, width) = ntoa_format_zeros buf negative prec width flags;
          buf = ntoa_format_hash buf (of_nat base) prec width flags
      in (ntoa_format_sign buf negative flags, width))"

definition number_text :: "nat \<Rightarrow> bool \<Rightarrow> nat \<Rightarrow> uint \<Rightarrow> uint \<Rightarrow> fmt_flags \<Rightarrow> byte list" where
  "number_text value negative base prec width flags =
     (let flags = (if value = 0 then flags\<lparr>fl_hash := False\<rparr> else flags);
          (buf, width) = ntoa_chars value negative base prec width flags
      in if fl_zeropad flags \<and> \<not> fl_left flags then rev buf else justify flags width (rev buf))"

definition int_text :: "directive \<Rightarrow> 64 word \<Rightarrow> byte list" where
  "int_text d v =
     (let flags = int_flags (d_spec d) (d_flags d);
          (value, negative) = (if d_spec d \<in> {100, 105} then signed_value flags v else (unsigned_value flags v, False))
      in number_text value negative (int_base (d_spec d)) (d_precision d) (d_width d) flags)"

definition pointer_text :: "directive \<Rightarrow> 64 word \<Rightarrow> byte list" where
  "pointer_text d v = number_text (unat v) False 16 (d_precision d) 16 ((d_flags d)\<lparr>fl_zeropad := True, fl_uppercase := True\<rparr>)"

definition string_text :: "directive \<Rightarrow> byte list \<Rightarrow> byte list" where
  "string_text d s =
     justify (d_flags d) (d_width d) (if fl_precision (d_flags d) then take (unat (d_precision d)) s else s)"

definition takes_argument :: "byte \<Rightarrow> bool" where
  "takes_argument spec \<longleftrightarrow> spec \<in> {100, 105, 117, 120, 88, 111, 98, 99, 115, 112}"

definition argument_text :: "(addr \<rightharpoonup> byte list) \<Rightarrow> directive \<Rightarrow> 64 word \<Rightarrow> byte list option" where
  "argument_text strings d v =
     (if d_spec d = 99 then Some (justify (d_flags d) (d_width d) [ucast v])
      else if d_spec d = 115 then map_option (string_text d) (strings (unat v))
      else if d_spec d = 112 then Some (pointer_text d v)
      else Some (int_text d v))"

definition directive_text :: "(addr \<rightharpoonup> byte list) \<Rightarrow> directive \<Rightarrow> va_list \<Rightarrow> (byte list \<times> va_list) option" where
  "directive_text strings d va =
     (if takes_argument (d_spec d)
      then case va of [] \<Rightarrow> None | v # va \<Rightarrow> map_option (\<lambda>t. (t, va)) (argument_text strings d v)
      else Some ([d_spec d], va))"

section \<open>The text of a format\<close>

lemma scan_number_length: "length (snd (scan_number fs i)) \<le> length fs"
  by (induction fs i rule: scan_number.induct) auto

lemma scan_size_length: "scan_size fs va = Some (fs', n, va') \<Longrightarrow> length fs' \<le> length fs"
  using scan_number_length [of fs 0]
  by (auto simp: scan_size_def split: list.splits if_splits prod.splits)

lemma scan_flags_length: "length (fst (scan_flags fs flags)) \<le> length fs"
  by (induction fs flags rule: scan_flags.induct) auto

lemma scan_precision_length:
  "scan_precision fs flags va = Some (fs', r) \<Longrightarrow> length fs' \<le> length fs"
  by (auto simp: scan_precision_def split: list.splits if_splits dest: scan_size_length)

lemma scan_length_length: "length (fst (scan_length fs flags)) \<le> length fs"
  by (cases fs) auto

lemma scan_directive_length:
  assumes "scan_directive fs va = Some (d, fs', va')"
  shows "length fs' < length fs"
proof -
  obtain f1 fl1 where 1: "scan_flags fs no_flags = (f1, fl1)" by fastforce
  obtain f2 n va2 where 2: "scan_size f1 va = Some (f2, n, va2)"
    using assms 1 by (auto simp: scan_directive_def split: option.splits)
  obtain f3 fl3 p va3 where
      3: "scan_precision f2 (if n < 0 then fl1\<lparr>fl_left := True\<rparr> else fl1) va2 = Some (f3, fl3, p, va3)"
    using assms 1 2 by (auto simp: scan_directive_def split: option.splits)
  obtain f4 fl4 where 4: "scan_length f3 fl3 = (f4, fl4)" by fastforce
  have "length f4 \<le> length fs"
    using scan_flags_length [of fs no_flags] scan_size_length [OF 2] scan_precision_length [OF 3]
      scan_length_length [of f3 fl3] 1 4 by simp
  moreover have "length f4 = Suc (length fs')"
    using assms 1 2 3 4 by (auto simp: scan_directive_def split: list.splits)
  ultimately show ?thesis by simp
qed

function render :: "(addr \<rightharpoonup> byte list) \<Rightarrow> byte list \<Rightarrow> va_list \<Rightarrow> byte list option" where
  "render strings [] va = Some []"
| "render strings (c # fs) va =
     (if c \<noteq> 37 then map_option (Cons c) (render strings fs va)
      else case scan_directive fs va of
             None \<Rightarrow> None
           | Some (d, fs, va) \<Rightarrow>
               (case directive_text strings d va of
                  None \<Rightarrow> None
                | Some (t, va) \<Rightarrow> map_option (append t) (render strings fs va)))"
  by pat_completeness auto
termination
  by (relation "measure (\<lambda>(_, fs, _). length fs)") (auto dest: scan_directive_length)

end
