(* ===== verification/Fmt_Correct.thy ===== *)
theory Fmt_Correct
  imports Fmt_Text
begin

text \<open>
  The formatter prints the text of the reference. Every routine that prints is a sequence of
  outputs (\<open>fold emit\<close>); what an output function must promise for that, that it does not write
  to the format and the strings while they are read, is the locale \<open>fmt_sink\<close>, which the three output
  functions of \<open>fmt.c\<close> implement.
\<close>

section \<open>Numbers and padding are sequences of outputs\<close>

named_theorems emit_simps \<open>routines that print as sequences of outputs\<close>

lemma pad_from_emits [emit_simps]:
  "pad_from out buffer maxlen i width w = fold (emit out buffer maxlen) (replicate (unat width - i) 32) w"
proof (induction out buffer maxlen i width w rule: pad_from.induct)
  case (1 out buffer maxlen i width w)
  show ?case
  proof (cases "i < unat width")
    case True
    then have "unat width - i = Suc (unat width - (i + 1))" by simp
    with 1 True show ?thesis by (simp add: pad_from.simps [of _ _ _ i])
  qed (simp add: pad_from.simps)
qed

lemma pad_upto_emits [emit_simps]:
  "pad_upto out buffer maxlen s width w =
     fold (emit out buffer maxlen) (replicate (unat width - sub64 (snd w) s) 32) w"
proof (induction out buffer maxlen s width w rule: pad_upto.induct)
  case (1 out buffer maxlen s width w)
  show ?case
  proof (cases "sub64 (snd w) s < unat width")
    case True
    have "unat width < 2 ^ 64" using unsigned_less [where 'a = nat, of width] by simp
    with True have "sub64 (snd (emit out buffer maxlen 32 w)) s = Suc (sub64 (snd w) s)"
      by (simp add: emit_def sub64_add64_1 wrap64_def)
    moreover from True have
      "unat width - sub64 (snd w) s = Suc (unat width - Suc (sub64 (snd w) s))" by simp
    ultimately show ?thesis using 1 True by (simp add: pad_upto.simps [of _ _ _ s _ w])
  qed (simp add: pad_upto.simps)
qed

lemma emit_rev_emits:
  "len \<le> length buf \<Longrightarrow> emit_rev out buffer maxlen buf len w = fold (emit out buffer maxlen) (rev (take len buf)) w"
  by (induction len arbitrary: w) (simp_all add: take_Suc_conv_app_nth)

lemma snd_fold_emit: "snd w < 2 ^ 64 \<Longrightarrow> snd (fold (emit out buffer maxlen) cs w) = wrap64 (snd w + length cs)"
proof (induction cs arbitrary: w)
  case (Cons c cs)
  have "snd (emit out buffer maxlen c w) = wrap64 (snd w + 1)" by (simp add: emit_def add64_def)
  moreover have "wrap64 (wrap64 (snd w + 1) + length cs) = wrap64 (snd w + length (c # cs))"
    by (simp add: wrap64_def mod_simps)
  ultimately show ?case using Cons wrap64_less by simp
qed (simp add: wrap64_def)

lemma snd_fold_emit_le: "snd (fold (emit out buffer maxlen) cs w) \<le> snd w + length cs"
proof (induction cs arbitrary: w)
  case (Cons c cs)
  have "snd (emit out buffer maxlen c w) \<le> snd w + 1" by (simp add: emit_def add64_def wrap64_def)
  with Cons [of "emit out buffer maxlen c w"] show ?case by simp
qed simp

lemma sub64_fold_emit:
  assumes "snd w < 2 ^ 64" "length cs < 2 ^ 64"
  shows "sub64 (snd (fold (emit out buffer maxlen) cs w)) (snd w) = length cs"
proof -
  have "((a + k) mod n + (n - a)) mod n = k" if "a < n" "k < n" for a k n :: nat
  proof -
    have "((a + k) mod n + (n - a)) mod n = (a + k + (n - a)) mod n" by (simp add: mod_simps)
    also have "a + k + (n - a) = k + n" using that by simp
    finally show ?thesis using that by simp
  qed
  from this [OF assms] show ?thesis
    using assms by (simp only: snd_fold_emit sub64_def wrap64_def mod_less)
qed

section \<open>The conversion buffer\<close>

lemma put_bound: "length buf \<le> NTOA_BUFFER_SIZE \<Longrightarrow> length (put c buf) \<le> NTOA_BUFFER_SIZE"
  by (simp add: put_def)

lemma put_zeros_eq: "put_zeros n buf = buf @ replicate (min (unat n) NTOA_BUFFER_SIZE - length buf) 48"
proof (induction n buf rule: put_zeros.induct)
  case (1 n buf)
  show ?case
  proof (cases "length buf < unat n \<and> length buf < NTOA_BUFFER_SIZE")
    case True
    then have "min (unat n) NTOA_BUFFER_SIZE - length buf = Suc (min (unat n) NTOA_BUFFER_SIZE - length (buf @ [48 :: byte]))"
      by auto
    with 1 True show ?thesis by (simp add: put_zeros.simps [of n buf])
  qed (auto simp: put_zeros.simps [of n buf])
qed

lemma ntoa_digits_bound: "length buf < NTOA_BUFFER_SIZE \<Longrightarrow> length (ntoa_digits upper base v buf) \<le> NTOA_BUFFER_SIZE"
proof (induction upper base v buf rule: ntoa_digits.induct)
  case (1 upper base v buf)
  then show ?case by (subst ntoa_digits.simps) (auto simp: Let_def)
qed

lemma ntoa_format_bounds:
  assumes "length buf \<le> NTOA_BUFFER_SIZE"
  shows "length (fst (ntoa_format_zeros buf negative prec width flags)) \<le> NTOA_BUFFER_SIZE"
    and "length (ntoa_format_hash buf base prec width flags) \<le> NTOA_BUFFER_SIZE"
    and "length (ntoa_format_sign buf negative flags) \<le> NTOA_BUFFER_SIZE"
  using assms
  by (auto simp: ntoa_format_zeros_def ntoa_format_hash_def ntoa_format_sign_def put_zeros_eq Let_def put_def NTOA_BUFFER_SIZE_def)

lemma ntoa_chars_bound: "length (fst (ntoa_chars value negative base prec width flags)) \<le> NTOA_BUFFER_SIZE"
proof -
  have "length (if \<not> fl_precision flags \<or> value \<noteq> 0 then ntoa_digits (fl_uppercase flags) base value [] else [])
      \<le> NTOA_BUFFER_SIZE"
    using ntoa_digits_bound [of "[]"] by (simp add: NTOA_BUFFER_SIZE_def)
  then show ?thesis
    unfolding ntoa_chars_def Let_def by (simp add: ntoa_format_bounds split_beta)
qed

lemma out_rev_emits:
  assumes "length buf \<le> NTOA_BUFFER_SIZE" "snd w < 2 ^ 64"
  shows "out_rev out buffer maxlen buf width flags w =
    fold (emit out buffer maxlen)
      (if fl_zeropad flags \<and> \<not> fl_left flags then rev buf else justify flags width (rev buf)) w"
proof -
  have "length (rev buf) < 2 ^ 64" using assms(1) by (simp add: NTOA_BUFFER_SIZE_def)
  from sub64_fold_emit [OF assms(2) this, of out buffer maxlen] show ?thesis
    by (simp add: out_rev_def emit_simps emit_rev_emits justify_def)
qed

lemma ntoa_long_emits:
  assumes "snd w < 2 ^ 64"
  shows "ntoa_long out buffer maxlen value negative base prec width flags w =
    fold (emit out buffer maxlen) (number_text value negative base prec width flags) w"
proof -
  let ?flags = "if value = 0 then flags\<lparr>fl_hash := False\<rparr> else flags"
  obtain buf width' where c: "ntoa_chars value negative base prec width ?flags = (buf, width')" by fastforce
  then have "length buf \<le> NTOA_BUFFER_SIZE" using ntoa_chars_bound by (metis fst_conv)
  from out_rev_emits [OF this assms] c show ?thesis
    by (auto simp: ntoa_long_def ntoa_format_def ntoa_chars_def number_text_def Let_def split_beta)
qed

lemma ntoa_long_long_eq: "ntoa_long_long = ntoa_long"
  by (simp add: ntoa_long_long_def ntoa_long_def fun_eq_iff)

lemma fmt_integer_emits:
  assumes "snd w < 2 ^ 64"
  shows "fmt_integer out buffer maxlen (d_spec d) (d_precision d) (d_width d) (d_flags d) w (v # va) =
    Some (fold (emit out buffer maxlen) (int_text d v) w, va)"
  unfolding fmt_integer_def int_text_def va_arg.simps option.case prod.case Let_def ntoa_long_long_eq
    ntoa_long_emits [OF assms] split_beta
  by auto

section \<open>Scanning memory is scanning the list\<close>

text \<open>\<open>f'\<close> is where the rest \<open>fs'\<close> of the string \<open>fs\<close> at \<open>f\<close> begins.\<close>

definition rest_at :: "addr \<Rightarrow> byte list \<Rightarrow> addr \<Rightarrow> byte list \<Rightarrow> bool" where
  "rest_at f fs f' fs' \<longleftrightarrow> (\<exists>us. fs = us @ fs' \<and> f' = f + length us)"

lemma rest_at_refl [simp]: "rest_at f fs f fs"
  by (simp add: rest_at_def)

lemma rest_at_step: "rest_at (Suc f) fs f' fs' \<Longrightarrow> rest_at f (c # fs) f' fs'"
  by (auto simp: rest_at_def intro: exI [of _ "c # _"])

lemma rest_at_next: "rest_at f (c # fs) (f + 1) fs"
  by (auto simp: rest_at_def intro: exI [of _ "[c]"])

lemma rest_at_trans: "rest_at f fs f1 fs1 \<Longrightarrow> rest_at f1 fs1 f2 fs2 \<Longrightarrow> rest_at f fs f2 fs2"
  by (auto simp: rest_at_def intro: exI [of _ "_ @ _"])

lemma cstring_append: "cstring m f (us @ fs) \<Longrightarrow> cstring m (f + length us) fs"
proof (induction us arbitrary: f)
  case (Cons u us)
  then show ?case using Cons.IH [of "f + 1"] by simp
qed simp

lemma cstring_rest: "cstring m f fs \<Longrightarrow> rest_at f fs f' fs' \<Longrightarrow> cstring m f' fs'"
  by (auto simp: rest_at_def dest: cstring_append)

lemma is_digit_0 [simp]: "\<not> is_digit 0"
  by (simp add: is_digit_def)

lemma fmt_flags_loop_scans:
  assumes "cstring m f fs" "scan_flags fs flags = (fs', flags')"
  shows "\<exists>f'. fmt_flags_loop m f flags = Some (f', flags') \<and> rest_at f fs f' fs'"
  using assms
proof (induction fs flags arbitrary: f rule: scan_flags.induct)
  case (2 c fs flags)
  have step: "\<exists>f'. fmt_flags_loop m (f + 1) fl = Some (f', flags') \<and> rest_at f (c # fs) f' fs'"
    if "\<exists>f'. fmt_flags_loop m (f + 1) fl = Some (f', flags') \<and> rest_at (f + 1) fs f' fs'" for fl
    using that rest_at_step by auto
  show ?case
    using 2(6,7) step [OF 2(1)] step [OF 2(2)] step [OF 2(3)] step [OF 2(4)] step [OF 2(5)]
    by (subst fmt_flags_loop.simps) (auto split: if_splits)
qed (subst fmt_flags_loop.simps, simp)

lemma atoi_loop_scans:
  assumes "cstring m f fs" "scan_number fs i = (n, fs')"
  shows "\<exists>f'. atoi_loop m f i = Some (n, f') \<and> rest_at f fs f' fs'"
  using assms
proof (induction fs i arbitrary: f rule: scan_number.induct)
  case (2 c fs i)
  show ?case
  proof (cases "is_digit c")
    case True
    with 2 obtain f' where "atoi_loop m (f + 1) (i * 10 + (ucast c - 48)) = Some (n, f')" "rest_at (f + 1) fs f' fs'"
      by (auto simp: is_digit_def)
    with True 2 show ?thesis by (subst atoi_loop.simps) (auto dest: rest_at_step)
  next
    case False
    with 2 show ?thesis by (subst atoi_loop.simps) auto
  qed
qed (subst atoi_loop.simps, simp)

lemma atoi_scans:
  "cstring m f fs \<Longrightarrow> scan_number fs 0 = (n, fs') \<Longrightarrow> \<exists>f'. atoi m f = Some (n, f') \<and> rest_at f fs f' fs'"
  by (simp add: atoi_def atoi_loop_scans)

lemma fmt_width_scans:
  assumes "cstring m f fs" "scan_size fs va = Some (fs', n, va')"
  shows "\<exists>f'. fmt_width m f flags va =
      Some (f', if n < 0 then flags\<lparr>fl_left := True\<rparr> else flags, of_int \<bar>n\<bar>, va') \<and> rest_at f fs f' fs'"
proof (cases fs)
  case (Cons c gs)
  with assms(1) have m: "m f = c" by simp
  show ?thesis
  proof (cases "is_digit c")
    case True
    with assms(2) Cons obtain k where k: "scan_number fs 0 = (k, fs')" "n = uint k" "va' = va"
      by (auto simp: scan_size_def split: prod.splits)
    from atoi_scans [OF assms(1) k(1)] k m True show ?thesis by (auto simp: fmt_width_def)
  next
    case False
    with assms Cons m show ?thesis
      by (cases va) (auto simp: scan_size_def fmt_width_def split: if_splits intro: rest_at_next [simplified])
  qed
qed (use assms in \<open>simp add: scan_size_def fmt_width_def\<close>)

lemma fmt_precision_scans:
  assumes "cstring m f fs" "scan_precision fs flags va = Some (fs', flags', p, va')"
  shows "\<exists>f'. fmt_precision m f flags va = Some (f', flags', p, va') \<and> rest_at f fs f' fs'"
proof (cases "fs \<noteq> [] \<and> hd fs = 46")
  case True
  then obtain gs where fs: "fs = 46 # gs" by (cases fs) auto
  with assms(1) have c: "cstring m (f + 1) gs" "m f = 46" by simp_all
  from assms(2) fs obtain n where n: "scan_size gs va = Some (fs', n, va')"
      "flags' = flags\<lparr>fl_precision := True\<rparr>" "p = (if n > 0 then of_int n else 0)"
    by (auto simp: scan_precision_def split: if_splits)
  have "\<exists>f'. fmt_precision m f flags va = Some (f', flags', p, va') \<and> rest_at (f + 1) gs f' fs'"
  proof (cases gs)
    case (Cons d hs)
    with c have m: "m (Suc f) = d" by simp
    show ?thesis
    proof (cases "is_digit d")
      case True
      with n(1) Cons obtain k where k: "scan_number gs 0 = (k, fs')" "n = uint k" "va' = va"
        by (auto simp: scan_size_def split: prod.splits)
      have "(if 0 < uint k then of_int (uint k) else 0) = k" by (auto simp: uint_0_iff not_less order_le_less)
      with atoi_scans [OF c(1) k(1)] k m True n c show ?thesis by (auto simp: fmt_precision_def)
    next
      case False
      with n Cons m c show ?thesis
        by (cases va) (auto simp: scan_size_def fmt_precision_def split: if_splits intro: rest_at_next [simplified])
    qed
  qed (use n c in \<open>simp add: scan_size_def fmt_precision_def\<close>)
  then show ?thesis using fs rest_at_step by auto
next
  case False
  with assms show ?thesis
    by (cases fs) (auto simp: scan_precision_def fmt_precision_def)
qed

lemma fmt_length_scans:
  assumes "cstring m f fs" "scan_length fs flags = (fs', flags')"
  shows "\<exists>f'. fmt_length m f flags = (f', flags') \<and> rest_at f fs f' fs'"
proof (cases fs)
  case (Cons c gs)
  have two: "rest_at f (a # d # hs) (Suc (Suc f)) hs" for a d hs
    using rest_at_step rest_at_next [of "f + 1"] by simp
  show ?thesis
    using assms Cons
    by (cases gs) (auto simp: fmt_length_def Let_def split: if_splits intro: rest_at_next [simplified] two)
qed (use assms in \<open>simp add: fmt_length_def\<close>)

lemma scan_precision_flag:
  "scan_precision fs flags va = Some (fs', flags', p, va') \<Longrightarrow> fl_precision flags' \<or> p = 0"
  by (auto simp: scan_precision_def split: list.splits if_splits)

lemma scan_length_flag: "scan_length fs flags = (fs', flags') \<Longrightarrow> fl_precision flags' = fl_precision flags"
  by (cases fs) (auto split: if_splits)

lemma strnlen_s_loop_cstring: "cstring m p s \<Longrightarrow> strnlen_s_loop m p n = p + min (length s) n"
proof (induction s arbitrary: p n)
  case (Cons c s)
  then show ?case using Cons.IH [of "p + 1" "n - 1"] by (subst strnlen_s_loop.simps) auto
qed (subst strnlen_s_loop.simps, simp)

lemma strnlen_s_cstring: "cstring m p s \<Longrightarrow> strnlen_s m p n = of_nat (min (length s) n)"
  by (simp add: strnlen_s_def strnlen_s_loop_cstring)

section \<open>Output functions\<close>

text \<open>A string at addresses that outputs do not change.\<close>

definition kept :: "addr set \<Rightarrow> bytes \<Rightarrow> addr \<Rightarrow> byte list \<Rightarrow> bool" where
  "kept keep m p s \<longleftrightarrow> cstring m p s \<and> {p .. p + length s} \<subseteq> keep"

lemma kept_rest: "kept keep m f fs \<Longrightarrow> rest_at f fs f' fs' \<Longrightarrow> kept keep m f' fs'"
  by (auto simp: kept_def dest: cstring_rest) (auto simp: rest_at_def)

text \<open>
  An output function that leaves the addresses \<open>keep\<close> alone at the indices below \<open>limit\<close>.
\<close>

locale fmt_sink =
  fixes out :: "'u out_fct_type" and buffer :: addr and maxlen :: nat and keep :: "addr set" and limit :: nat
  assumes frame: "idx < limit \<Longrightarrow> a \<in> keep \<Longrightarrow> fst (out c buffer idx maxlen st) a = fst st a"
begin

lemma frame_fold:
  "snd w + length cs \<le> limit \<Longrightarrow> limit \<le> 2 ^ 64 \<Longrightarrow> a \<in> keep \<Longrightarrow>
   fst (fst (fold (emit out buffer maxlen) cs w)) a = fst (fst w) a"
proof (induction cs arbitrary: w)
  case (Cons c cs)
  let ?w = "emit out buffer maxlen c w"
  have "snd ?w \<le> snd w + 1" by (simp add: emit_def add64_def wrap64_def)
  then have "fst (fst (fold (emit out buffer maxlen) cs ?w)) a = fst (fst ?w) a" using Cons by simp
  also have "\<dots> = fst (fst w) a" using Cons.prems frame by (simp add: emit_def)
  finally show ?case by simp
qed simp

lemma kept_fold:
  assumes "kept keep (fst (fst w)) p s" "snd w + length cs \<le> limit" "limit \<le> 2 ^ 64"
  shows "kept keep (fst (fst (fold (emit out buffer maxlen) cs w))) p s"
proof -
  have "fst (fst (fold (emit out buffer maxlen) cs w)) a = fst (fst w) a" if "p \<le> a" "a \<le> p + length s" for a
    using that assms by (intro frame_fold) (auto simp: kept_def)
  from cstring_cong [OF this] show ?thesis using assms(1) by (simp add: kept_def)
qed

lemma fmt_string_loop_emits:
  assumes "kept keep (fst (fst w)) p s" "limit \<le> 2 ^ 64"
    and "snd w + length (if limited then take (unat prec) s else s) \<le> limit"
  shows "fmt_string_loop out buffer maxlen limited p prec w =
    Some (fold (emit out buffer maxlen) (if limited then take (unat prec) s else s) w)"
  using assms
proof (induction s arbitrary: p prec w)
  case Nil
  then show ?case by (subst fmt_string_loop.simps) (simp add: kept_def)
next
  case (Cons c s)
  let ?w = "emit out buffer maxlen c w"
  let ?prec = "if limited then prec - 1 else prec"
  have c: "c \<noteq> 0" "fst (fst w) p = c" using Cons.prems(1) by (simp_all add: kept_def)
  show ?case
  proof (cases "limited \<and> prec = 0")
    case True
    then show ?thesis by (subst fmt_string_loop.simps) simp
  next
    case False
    then have take: "(if limited then take (unat prec) (c # s) else c # s) =
        c # (if limited then take (unat ?prec) s else s)"
      by (auto simp: unat_minus_one take_Cons' unat_gt_0 [symmetric])
    with Cons.prems(3) have len: "snd w + Suc (length (if limited then take (unat ?prec) s else s)) \<le> limit" by simp
    have "kept keep (fst (fst w)) (p + 1) s" using kept_rest [OF Cons.prems(1) rest_at_next] .
    with kept_fold [of w "p + 1" s "[c]"] len Cons.prems(2) have "kept keep (fst (fst ?w)) (p + 1) s" by simp
    moreover have "snd ?w \<le> snd w + 1" by (simp add: emit_def add64_def wrap64_def)
    ultimately have "fmt_string_loop out buffer maxlen limited (p + 1) ?prec ?w =
        Some (fold (emit out buffer maxlen) (if limited then take (unat ?prec) s else s) ?w)"
      using Cons.IH [of ?w "p + 1" ?prec] Cons.prems(2) len by simp
    with False c take show ?thesis by (subst fmt_string_loop.simps) simp
  qed
qed

lemma fmt_string_emits:
  assumes "kept keep (fst (fst w)) (unat v) s" "length s < 2 ^ 32" "limit \<le> 2 ^ 64"
    and "snd w + length (string_text d s) \<le> limit"
    and "\<not> fl_precision (d_flags d) \<Longrightarrow> d_precision d = 0"
  shows "fmt_string out buffer maxlen (d_precision d) (d_width d) (d_flags d) w (v # va) =
    Some (fold (emit out buffer maxlen) (string_text d s) w, va)"
proof -
  define prec where "prec = d_precision d"
  define lim where "lim = fl_precision (d_flags d)"
  define t where "t = (if lim then take (unat prec) s else s)"
  define l where "l = strnlen_s (fst (fst w)) (unat v) (if prec \<noteq> 0 then unat prec else 2 ^ 64 - 1)"
  have cs: "cstring (fst (fst w)) (unat v) s" using assms(1) by (simp add: kept_def)
  have "unat l = (if prec \<noteq> 0 then min (length s) (unat prec) else length s)"
    using assms(2) by (simp add: l_def strnlen_s_cstring [OF cs] unat_of_nat min_def)
  then have l: "unat (if lim then if l < prec then l else prec else l) = length t"
    using assms(5) by (auto simp: t_def lim_def prec_def word_less_nat_alt min_def)
  let ?pad = "replicate (unat (d_width d) - length t) 32 :: byte list"
  let ?w = "fold (emit out buffer maxlen) (if fl_left (d_flags d) then [] else ?pad) w"
  have txt_eq: "string_text d s = justify (d_flags d) (d_width d) t"
    by (simp add: string_text_def t_def lim_def prec_def)
  then have len: "snd w + length (if fl_left (d_flags d) then [] else ?pad) + length t \<le> limit"
    using assms(4) by (auto simp: justify_def split: if_splits)
  have "snd ?w \<le> snd w + length (if fl_left (d_flags d) then [] else ?pad)" by (rule snd_fold_emit_le)
  then have "fmt_string_loop out buffer maxlen lim (unat v) prec ?w = Some (fold (emit out buffer maxlen) t ?w)"
    using fmt_string_loop_emits [of ?w "unat v" s lim prec] kept_fold [OF assms(1)] len assms(3)
    by (simp add: t_def)
  moreover have "fmt_string out buffer maxlen prec (d_width d) (d_flags d) w (v # va) =
      (case fmt_string_loop out buffer maxlen lim (unat v) prec ?w of
         None \<Rightarrow> None
       | Some w \<Rightarrow> Some (fold (emit out buffer maxlen) (if fl_left (d_flags d) then ?pad else []) w, va))"
    unfolding fmt_string_def va_arg.simps option.case prod.case Let_def lim_def [symmetric]
      l_def [symmetric] emit_simps l
    by (cases "fl_left (d_flags d)") (simp_all split: option.split)
  ultimately show ?thesis by (auto simp: txt_eq justify_def prec_def simp del: fold_replicate)
qed

lemma fmt_specifier_emits:
  assumes d: "directive_text strings d va = Some (t, va')"
    and s: "\<And>p s. strings p = Some s \<Longrightarrow> kept keep (fst (fst w)) p s \<and> length s < 2 ^ 32"
    and lim: "limit \<le> 2 ^ 64" "snd w < 2 ^ 64" "snd w + length t \<le> limit"
    and prec: "\<not> fl_precision (d_flags d) \<Longrightarrow> d_precision d = 0"
  shows "fmt_specifier out buffer maxlen (d_spec d) (d_precision d) (d_width d) (d_flags d) w va =
    Some (fold (emit out buffer maxlen) t w, va')"
proof (cases "takes_argument (d_spec d)")
  case False
  then show ?thesis
    using d by (auto simp: directive_text_def takes_argument_def fmt_specifier_def)
next
  case True
  then obtain v where va: "va = v # va'" and t: "argument_text strings d v = Some t"
    using d by (auto simp: directive_text_def split: list.splits)
  consider "d_spec d = 99" | "d_spec d = 115" | "d_spec d = 112" | "d_spec d \<in> {100, 105, 117, 120, 88, 111, 98}"
    using True by (auto simp: takes_argument_def)
  then show ?thesis
  proof cases
    case 1
    with t va show ?thesis
      by (auto simp: argument_text_def fmt_specifier_def fmt_char_def emit_simps justify_def simp del: fold_replicate)
  next
    case 2
    with t obtain s where "strings (unat v) = Some s" "t = string_text d s" by (auto simp: argument_text_def)
    then show ?thesis using fmt_string_emits [of w v s d va'] s lim prec 2 va
      by (simp add: fmt_specifier_def)
  next
    case 3
    with t va show ?thesis
      by (auto simp: argument_text_def fmt_specifier_def fmt_pointer_def pointer_text_def ntoa_long_long_eq
          ntoa_long_emits [OF lim(2)])
  next
    case 4
    then have "t = int_text d v" using t by (auto simp: argument_text_def)
    with 4 va show ?thesis using fmt_integer_emits [OF lim(2)] by (simp add: fmt_specifier_def)
  qed
qed

lemma fmt_directive_emits:
  assumes sd: "scan_directive fs va = Some (d, fs', va1)" and u: "directive_text strings d va1 = Some (u, va2)"
    and f: "kept keep (fst (fst w)) f fs"
    and s: "\<And>p s. strings p = Some s \<Longrightarrow> kept keep (fst (fst w)) p s \<and> length s < 2 ^ 32"
    and lim: "limit < 2 ^ 64" "snd w + length u \<le> limit"
  shows "\<exists>f'. fmt_directive out buffer maxlen f w va = Some (f', fold (emit out buffer maxlen) u w, va2) \<and>
    rest_at f fs f' fs'"
proof -
  let ?m = "fst (fst w)"
  have cs: "cstring ?m f fs" using f by (simp add: kept_def)
  obtain f1 fl1 n va0 f2 f3 fl3 va3 where scan:
    "scan_flags fs no_flags = (f1, fl1)"
    "scan_size f1 va = Some (f2, n, va0)"
    "scan_precision f2 (if n < 0 then fl1\<lparr>fl_left := True\<rparr> else fl1) va0 = Some (f3, fl3, d_precision d, va1)"
    "scan_length f3 fl3 = (d_spec d # fs', d_flags d)" "d_width d = of_int \<bar>n\<bar>"
    using sd by (auto simp: scan_directive_def split: option.splits prod.splits list.splits)
  obtain a1 where a1: "fmt_flags_loop ?m f no_flags = Some (a1, fl1)" "rest_at f fs a1 f1"
    using fmt_flags_loop_scans [OF cs scan(1)] by blast
  obtain a2 where a2: "fmt_width ?m a1 fl1 va =
      Some (a2, if n < 0 then fl1\<lparr>fl_left := True\<rparr> else fl1, d_width d, va0)" "rest_at a1 f1 a2 f2"
    using fmt_width_scans [OF cstring_rest [OF cs a1(2)] scan(2)] scan(5) by auto
  note r2 = rest_at_trans [OF a1(2) a2(2)]
  obtain a3 where a3: "fmt_precision ?m a2 (if n < 0 then fl1\<lparr>fl_left := True\<rparr> else fl1) va0 =
      Some (a3, fl3, d_precision d, va1)" "rest_at a2 f2 a3 f3"
    using fmt_precision_scans [OF cstring_rest [OF cs r2] scan(3)] by blast
  note r3 = rest_at_trans [OF r2 a3(2)]
  obtain a4 where a4: "fmt_length ?m a3 fl3 = (a4, d_flags d)" "rest_at a3 f3 a4 (d_spec d # fs')"
    using fmt_length_scans [OF cstring_rest [OF cs r3] scan(4)] by blast
  note r4 = rest_at_trans [OF r3 a4(2)]
  have "?m a4 = d_spec d" using cstring_rest [OF cs r4] by simp
  moreover have "d_precision d = 0" if "\<not> fl_precision (d_flags d)"
    using that scan_precision_flag [OF scan(3)] scan_length_flag [OF scan(4)] by simp
  ultimately have "fmt_directive out buffer maxlen f w va = Some (a4 + 1, fold (emit out buffer maxlen) u w, va2)"
    using a1(1) a2(1) a3(1) a4(1) fmt_specifier_emits [OF u s] lim
    by (simp add: fmt_directive_def Let_def)
  then show ?thesis using rest_at_trans [OF r4 rest_at_next] by blast
qed

lemma vsnprintf_loop_emits:
  assumes "render strings fs va = Some t" "kept keep (fst (fst w)) f fs"
    and "\<And>p s. strings p = Some s \<Longrightarrow> kept keep (fst (fst w)) p s \<and> length s < 2 ^ 32"
    and "limit < 2 ^ 64" "snd w + length t \<le> limit"
  shows "vsnprintf_loop out buffer maxlen f w va = Some (fold (emit out buffer maxlen) t w)"
  using assms
proof (induction strings fs va arbitrary: f w t rule: render.induct)
  case (1 strings va)
  then show ?case by (subst vsnprintf_loop.simps) (simp add: kept_def)
next
  case (2 strings c fs va)
  have c: "c \<noteq> 0" "fst (fst w) f = c" and rest: "kept keep (fst (fst w)) (f + 1) fs"
    using 2(4) kept_rest [OF 2(4) rest_at_next] by (simp_all add: kept_def)
  have later: "kept keep (fst (fst (fold (emit out buffer maxlen) u w))) p s"
    if "kept keep (fst (fst w)) p s" "snd w + length u \<le> limit" for u p s
    using kept_fold that 2(6) by simp
  show ?case
  proof (cases "c = 37")
    case False
    with 2(3) obtain t' where t: "render strings fs va = Some t'" "t = c # t'" by auto
    let ?w = "fold (emit out buffer maxlen) [c] w"
    have "vsnprintf_loop out buffer maxlen (f + 1) ?w va = Some (fold (emit out buffer maxlen) t' ?w)"
      using 2(1) [OF False t(1), of ?w "f + 1"] later [of _ _ "[c]"] rest 2(5,6,7) t(2)
        snd_fold_emit_le [of out buffer maxlen "[c]" w] by force
    with False c t(2) show ?thesis by (subst vsnprintf_loop.simps) simp
  next
    case True
    with 2(3) obtain d fs' va1 u va2 t' where sd: "scan_directive fs va = Some (d, fs', va1)"
      and u: "directive_text strings d va1 = Some (u, va2)"
      and t: "render strings fs' va2 = Some t'" "t = u @ t'" by (auto split: option.splits)
    let ?w = "fold (emit out buffer maxlen) u w"
    obtain f' where f': "rest_at (f + 1) fs f' fs'"
      and step: "fmt_directive out buffer maxlen (f + 1) w va = Some (f', ?w, va2)"
      using fmt_directive_emits [OF sd u rest 2(5) 2(6)] 2(7) t(2) by auto
    have "vsnprintf_loop out buffer maxlen f' ?w va2 = Some (fold (emit out buffer maxlen) t' ?w)"
      using 2(2) [OF _ sd refl refl u refl t(1), of ?w f'] True later [of _ _ u] kept_rest [OF rest f'] 2(5,6,7) t(2)
        snd_fold_emit_le [of out buffer maxlen u w] by force
    with True c t(2) step show ?thesis by (subst vsnprintf_loop.simps) simp
  qed
qed

end

interpretation out_null: fmt_sink out_null buffer maxlen UNIV limit for buffer maxlen limit
  by unfold_locales (simp add: out_null_def)

interpretation out_buffer: fmt_sink out_buffer buffer maxlen "{a. a < buffer \<or> buffer + min limit maxlen \<le> a}" limit
  for buffer maxlen limit
  by unfold_locales (auto simp: out_buffer_def)

end
