(* ===== verification/Fmt_Properties.thy ===== *)
theory Fmt_Properties
  imports Fmt_Correct
begin

text \<open>
  What the entry points of the formatter do: the buffer holds the text of the reference, cut to
  its size and terminated; the function given to \<open>fctprintf\<close> receives the text. The text of an
  integer is what the C standard asks for, as long as it fits the conversion buffer.
\<close>

section \<open>The buffer\<close>

lemma poke_nth: "poke m a xs b = (if a \<le> b \<and> b < a + length xs then xs ! (b - a) else m b)"
proof (induction xs arbitrary: m a)
  case (Cons x xs)
  then show ?case by (cases "b = a") (auto simp: nth_Cons' not_less_eq_eq)
qed auto

lemma emit_out_buffer:
  "i + length cs < 2 ^ 64 \<Longrightarrow>
   fold (emit out_buffer b n) cs ((m, u), i) = ((poke m (b + i) (take (n - i) cs), u), i + length cs)"
proof (induction cs arbitrary: m i)
  case (Cons c cs)
  have e: "emit out_buffer b n c ((m, u), i) = ((if i < n then m(b + i := c) else m, u), i + 1)"
    using Cons.prems by (simp add: emit_def out_buffer_def add64_def wrap64_def)
  have "n - i = Suc (n - (i + 1))" if "i < n" using that by simp
  then show ?case using Cons.IH [of "i + 1"] Cons.prems by (cases "i < n") (simp_all add: e)
qed simp

lemma poke_terminated:
  assumes "0 < n"
  shows "(poke m b (take n t))(b + min (length t) (n - 1) := 0) = poke m b (take (n - 1) t @ [0])"
  using assms by (cases n) (auto simp: fun_eq_iff poke_nth nth_append min_def)

section \<open>The whole formatter\<close>

text \<open>
  The format \<open>fs\<close> at \<open>f\<close> and the strings its arguments point to are in memory, and the \<open>n\<close> bytes at \<open>b\<close> are
  none of theirs.
\<close>

definition fmt_input :: "bytes \<Rightarrow> addr \<Rightarrow> byte list \<Rightarrow> (addr \<rightharpoonup> byte list) \<Rightarrow> addr \<Rightarrow> nat \<Rightarrow> bool" where
  "fmt_input m f fs strings b n \<longleftrightarrow>
     kept {a. a < b \<or> b + n \<le> a} m f fs \<and>
     (\<forall>p s. strings p = Some s \<longrightarrow> kept {a. a < b \<or> b + n \<le> a} m p s \<and> length s < 2 ^ 32)"

lemma sint_of_length: "k < 2 ^ 31 \<Longrightarrow> sint (of_nat k :: 32 word) = int k"
  by (simp add: signed_of_nat signed_take_bit_int_eq_self)

lemma vsnprintf_out_buffer:
  assumes "render strings fs va = Some t" "fmt_input m f fs strings b (min (length t) n)" "b \<noteq> 0" "length t < 2 ^ 31" "n < 2 ^ 64"
  shows "vsnprintf_internal out_buffer b n f va (m, u) =
    Some (int (length t), (if n = 0 then m else poke m b (take (n - 1) t @ [0]), u))"
proof -
  have "vsnprintf_loop out_buffer b n f ((m, u), 0) va = Some (fold (emit out_buffer b n) t ((m, u), 0))"
    using assms by (intro out_buffer.vsnprintf_loop_emits [OF assms(1), where limit = "length t"]) (auto simp: fmt_input_def)
  also have "fold (emit out_buffer b n) t ((m, u), 0) = ((poke m b (take n t), u), length t)"
    using assms(4) emit_out_buffer [of 0 t b n m u] by simp
  finally have loop: "vsnprintf_loop out_buffer b n f ((m, u), 0) va = Some ((poke m b (take n t), u), length t)" .
  show ?thesis
  proof (cases "n = 0")
    case True
    then show ?thesis using loop assms(3,4)
      by (simp add: vsnprintf_internal_def Let_def out_buffer_def sint_of_length)
  next
    case False
    then have "sub64 n 1 = n - 1" using assms(5) by (simp add: sub64_id)
    then have "out_buffer 0 b (if length t < n then length t else sub64 n 1) n (poke m b (take n t), u) =
        ((poke m b (take n t))(b + min (length t) (n - 1) := 0), u)"
      using False by (auto simp: out_buffer_def min_def)
    then show ?thesis using loop assms(3,4) False poke_terminated [of n m b t]
      by (simp add: vsnprintf_internal_def Let_def sint_of_length)
  qed
qed

section \<open>Integers as the C standard has them\<close>

fun number_digits :: "nat \<Rightarrow> nat \<Rightarrow> nat list" where
  "number_digits base v = (if v < base \<or> base < 2 then [v] else number_digits base (v div base) @ [v mod base])"

declare number_digits.simps [simp del]

lemma number_digits_small [simp]: "v < base \<Longrightarrow> number_digits base v = [v]"
  by (simp add: number_digits.simps)

lemma number_digits_big: "base \<le> v \<Longrightarrow> 2 \<le> base \<Longrightarrow> number_digits base v = number_digits base (v div base) @ [v mod base]"
  by (subst number_digits.simps) simp

lemma number_digits_not_Nil [simp]: "number_digits base v \<noteq> []"
  by (subst number_digits.simps) simp

lemma number_digits_less: "2 \<le> base \<Longrightarrow> set (number_digits base v) \<subseteq> {..< base}"
proof (induction base v rule: number_digits.induct)
  case (1 base v)
  then show ?case by (cases "v < base") (auto simp: number_digits_big)
qed

lemma number_digits_length: "2 \<le> base \<Longrightarrow> v < base ^ Suc k \<Longrightarrow> length (number_digits base v) \<le> Suc k"
proof (induction k arbitrary: v)
  case (Suc k)
  then have "v div base < base ^ Suc k" by (simp add: less_mult_imp_div_less mult.commute)
  with Suc show ?case by (cases "v < base") (auto simp: number_digits_big)
qed simp

lemma horner_append: "horner base r (ds @ es) = horner base (horner base r ds) es"
  by (simp add: horner_def)

lemma horner_number_digits: "2 \<le> base \<Longrightarrow> horner base 0 (number_digits base v) = v"
proof (induction base v rule: number_digits.induct)
  case (1 base v)
  then show ?case by (cases "v < base") (simp_all add: number_digits_big horner_append)
qed

lemma ntoa_digits_number:
  assumes "2 \<le> base" "length buf + length (number_digits base v) \<le> NTOA_BUFFER_SIZE"
  shows "ntoa_digits upper base v buf = buf @ rev (map (digit_char upper) (number_digits base v))"
  using assms
proof (induction base v arbitrary: buf rule: number_digits.induct)
  case (1 base v)
  show ?case
  proof (cases "v < base")
    case True
    then show ?thesis by (subst ntoa_digits.simps) simp
  next
    case False
    with 1 have n: "number_digits base v = number_digits base (v div base) @ [v mod base]" by (simp add: number_digits_big)
    from 1(3) n have "length buf + 1 < NTOA_BUFFER_SIZE"
        "length (buf @ [digit_char upper (v mod base)]) + length (number_digits base (v div base)) \<le> NTOA_BUFFER_SIZE"
      using number_digits_not_Nil [of base "v div base"] by (cases "number_digits base (v div base)"; simp)+
    moreover have "v div base \<noteq> 0" using False 1(2) by (simp add: div_eq_0_iff)
    ultimately show ?thesis using 1(1) [of "buf @ [digit_char upper (v mod base)]"] False 1(2) n
      by (subst ntoa_digits.simps) (simp add: Let_def)
  qed
qed

text \<open>
  The C standard's rules for \<open>%d\<close>, \<open>%u\<close>, \<open>%x\<close> and the like, without the flag \<open>#\<close>: the number \<open>x\<close>
  in the base of the specifier with at least as many digits as the precision says, none for the
  precision and value zero; a sign, for signed conversions only; and padding up to the width,
  with zeros behind the sign if the flag \<open>0\<close> is given with neither \<open>-\<close> nor a precision.
\<close>

definition argument_value :: "directive \<Rightarrow> 64 word \<Rightarrow> int" where
  "argument_value d v =
     (if d_spec d \<in> {100, 105}
      then if fl_long (d_flags d) \<or> fl_long_long (d_flags d) then sint v
           else if fl_char (d_flags d) then sint (ucast v :: 8 word)
           else if fl_short (d_flags d) then sint (ucast v :: 16 word) else sint (ucast v :: 32 word)
      else if fl_long (d_flags d) \<or> fl_long_long (d_flags d) then uint v
           else if fl_char (d_flags d) then uint (ucast v :: 8 word)
           else if fl_short (d_flags d) then uint (ucast v :: 16 word) else uint (ucast v :: 32 word))"

definition standard_digits :: "directive \<Rightarrow> int \<Rightarrow> byte list" where
  "standard_digits d x =
     (let ds = (if fl_precision (d_flags d) \<and> x = 0 then []
                else map (digit_char (fl_uppercase (d_flags d) \<or> d_spec d = 88)) (number_digits (int_base (d_spec d)) (nat \<bar>x\<bar>)))
      in replicate (unat (d_precision d) - length ds) 48 @ ds)"

definition standard_sign :: "directive \<Rightarrow> int \<Rightarrow> byte list" where
  "standard_sign d x =
     (if x < 0 then [45]
      else if d_spec d \<in> {100, 105} then if fl_plus (d_flags d) then [43] else if fl_space (d_flags d) then [32] else []
      else [])"

definition standard_text :: "directive \<Rightarrow> int \<Rightarrow> byte list" where
  "standard_text d x =
     (let body = standard_digits d x; sign = standard_sign d x;
          zeros = (if fl_zeropad (d_flags d) \<and> \<not> fl_left (d_flags d) \<and> \<not> fl_precision (d_flags d)
                   then replicate (unat (d_width d) - length sign - length body) 48 else [])
      in justify (d_flags d) (d_width d) (sign @ zeros @ body))"

definition plain_text :: "byte list \<Rightarrow> byte list \<Rightarrow> uint \<Rightarrow> uint \<Rightarrow> fmt_flags \<Rightarrow> byte list" where
  "plain_text sign ds prec width flags =
     (let body = replicate (unat prec - length ds) 48 @ ds
      in justify flags width (sign @ (if fl_zeropad flags \<and> \<not> fl_left flags
           then replicate (unat width - length sign - length body) 48 else []) @ body))"

lemma ntoa_format_zeros_plain:
  assumes "length ds < NTOA_BUFFER_SIZE" "unat width < NTOA_BUFFER_SIZE" "unat prec < NTOA_BUFFER_SIZE"
    and "fl_left flags \<Longrightarrow> unat prec \<le> length ds"
    and sign: "length sign = (if negative \<or> fl_plus flags \<or> fl_space flags then 1 else 0)"
  shows "rev (fst (ntoa_format_zeros (rev ds) negative prec width flags)) =
      (let body = replicate (unat prec - length ds) 48 @ ds
       in (if fl_zeropad flags \<and> \<not> fl_left flags
           then replicate (unat width - length sign - length body) 48 else []) @ body)"
    and "\<not> (fl_zeropad flags \<and> \<not> fl_left flags) \<Longrightarrow> snd (ntoa_format_zeros (rev ds) negative prec width flags) = width"
proof -
  have w: "unat (width - 1) = unat width - 1" if "width \<noteq> 0" using that by (simp add: unat_minus_one)
  show "rev (fst (ntoa_format_zeros (rev ds) negative prec width flags)) =
      (let body = replicate (unat prec - length ds) 48 @ ds
       in (if fl_zeropad flags \<and> \<not> fl_left flags
           then replicate (unat width - length sign - length body) 48 else []) @ body)"
    using assms w by (auto simp: ntoa_format_zeros_def put_zeros_eq Let_def min_def)
qed (auto simp: ntoa_format_zeros_def)

lemma number_text_plain:
  fixes v :: nat
  assumes base: "2 \<le> base" and h: "\<not> fl_hash flags"
    and fits: "length (number_digits base v) < NTOA_BUFFER_SIZE" "unat width < NTOA_BUFFER_SIZE" "unat prec < NTOA_BUFFER_SIZE"
    and left: "fl_left flags \<Longrightarrow> unat prec \<le> length ds"
    and ds: "ds = (if fl_precision flags \<and> v = 0 then [] else map (digit_char (fl_uppercase flags)) (number_digits base v))"
    and sign: "sign = (if negative then [45] else if fl_plus flags then [43] else if fl_space flags then [32] else [])"
  shows "number_text v negative base prec width flags = plain_text sign ds prec width flags"
proof -
  have same: "(if v = 0 then flags\<lparr>fl_hash := False\<rparr> else flags) = flags" using h by simp
  have buf: "(if \<not> fl_precision flags \<or> v \<noteq> 0 then ntoa_digits (fl_uppercase flags) base v [] else []) = rev ds"
    using ntoa_digits_number [OF base, of "[]" v "fl_uppercase flags"] fits(1) ds by auto
  have lds: "length ds < NTOA_BUFFER_SIZE" using fits(1) ds by (simp add: NTOA_BUFFER_SIZE_def)
  have lsign: "length sign = (if negative \<or> fl_plus flags \<or> fl_space flags then 1 else 0)" by (simp add: sign)
  obtain buf' width' where z: "ntoa_format_zeros (rev ds) negative prec width flags = (buf', width')" by fastforce
  note plain = ntoa_format_zeros_plain [OF lds fits(2,3) left lsign, unfolded z fst_conv snd_conv]
  have "length (rev buf') < NTOA_BUFFER_SIZE"
    using plain(1) lds fits(2,3) by (simp only: Let_def) (auto simp: NTOA_BUFFER_SIZE_def)
  then have signed: "rev (ntoa_format_sign buf' negative flags) = sign @ rev buf'"
    by (simp add: ntoa_format_sign_def put_def sign)
  have "ntoa_chars v negative base prec width flags = (ntoa_format_sign buf' negative flags, width')"
    using h unfolding ntoa_chars_def Let_def buf z by (simp add: ntoa_format_hash_def)
  then show ?thesis
    using plain signed unfolding number_text_def Let_def same plain_text_def
    by (auto simp: justify_def)
qed

lemma sint_abs_bound: "\<bar>sint (w :: 'a :: len word)\<bar> \<le> 2 ^ (LENGTH('a) - 1)"
  using sint_greater_eq [of w] sint_less [of w] by (simp add: abs_le_iff)

lemma abs_mod_self: "\<bar>x\<bar> < n \<Longrightarrow> nat ((if 0 < x then x else 0 - x) mod n) = nat \<bar>x :: int\<bar>"
  by (auto simp: abs_if)

lemma signed_value_abs:
  assumes "d_spec d \<in> {100, 105}" "fl_long flags = fl_long (d_flags d)" "fl_long_long flags = fl_long_long (d_flags d)"
    "fl_char flags = fl_char (d_flags d)" "fl_short flags = fl_short (d_flags d)"
  shows "signed_value flags v = (nat \<bar>argument_value d v\<bar>, argument_value d v < 0)"
proof -
  have "\<bar>sint v\<bar> < 2 ^ 64" using sint_abs_bound [of v] by simp
  moreover have "\<bar>sint (ucast v :: 32 word)\<bar> < 2 ^ 32" using sint_abs_bound [of "ucast v :: 32 word"] by simp
  moreover have "\<bar>sint (ucast v :: 16 word)\<bar> < 2 ^ 32" using sint_abs_bound [of "ucast v :: 16 word"] by simp
  moreover have "\<bar>sint (ucast v :: 8 word)\<bar> < 2 ^ 32" using sint_abs_bound [of "ucast v :: 8 word"] by simp
  ultimately show ?thesis using assms
    unfolding signed_value_def argument_value_def Let_def as_int_def by (auto simp only: abs_mod_self if_True if_False simp_thms)
qed

text \<open>The flags \<open>int_flags\<close> leaves, and the number of digits of a 64-bit value.\<close>

lemma int_flags_simps [simp]:
  "fl_left (int_flags c fl) = fl_left fl" "fl_precision (int_flags c fl) = fl_precision fl"
  "fl_long (int_flags c fl) = fl_long fl" "fl_long_long (int_flags c fl) = fl_long_long fl"
  "fl_char (int_flags c fl) = fl_char fl" "fl_short (int_flags c fl) = fl_short fl"
  "fl_uppercase (int_flags c fl) = (fl_uppercase fl \<or> c = 88)"
  "fl_hash (int_flags c fl) = (fl_hash fl \<and> int_base c \<noteq> 10)"
  "fl_zeropad (int_flags c fl) = (fl_zeropad fl \<and> \<not> fl_precision fl)"
  "fl_plus (int_flags c fl) = (fl_plus fl \<and> c \<in> {100, 105})"
  "fl_space (int_flags c fl) = (fl_space fl \<and> c \<in> {100, 105})"
  by (auto simp: int_flags_def Let_def)

lemma argument_value_bound: "\<bar>argument_value d v\<bar> < 2 ^ 64"
proof -
  have s: "\<bar>sint v\<bar> < 2 ^ 64" "\<bar>sint (ucast v :: 32 word)\<bar> < 2 ^ 64" "\<bar>sint (ucast v :: 16 word)\<bar> < 2 ^ 64"
      "\<bar>sint (ucast v :: 8 word)\<bar> < 2 ^ 64"
    using sint_abs_bound [of v] sint_abs_bound [of "ucast v :: 32 word"]
      sint_abs_bound [of "ucast v :: 16 word"] sint_abs_bound [of "ucast v :: 8 word"] by simp_all
  have u: "\<bar>uint v\<bar> < 2 ^ 64" "\<bar>uint (ucast v :: 32 word)\<bar> < 2 ^ 64" "\<bar>uint (ucast v :: 16 word)\<bar> < 2 ^ 64"
      "\<bar>uint (ucast v :: 8 word)\<bar> < 2 ^ 64"
    using uint_bounded [of v] uint_bounded [of "ucast v :: 32 word"]
      uint_bounded [of "ucast v :: 16 word"] uint_bounded [of "ucast v :: 8 word"] by simp_all
  show ?thesis using s u by (simp only: argument_value_def split: if_split) simp
qed

lemma argument_digits_fit:
  assumes "d_spec d = 98 \<Longrightarrow> argument_value d v < 2 ^ 31"
  shows "length (number_digits (int_base (d_spec d)) (nat \<bar>argument_value d v\<bar>)) < NTOA_BUFFER_SIZE"
proof -
  have b: "nat \<bar>argument_value d v\<bar> < 2 ^ 64" using argument_value_bound [of d v] by (simp add: nat_less_iff)
  have "nat \<bar>argument_value d v\<bar> < int_base (d_spec d) ^ Suc 30"
  proof (cases "d_spec d = 98")
    case True
    then have "0 \<le> argument_value d v" by (simp add: argument_value_def)
    with True assms show ?thesis by (simp add: int_base_def nat_less_iff)
  next
    case False
    then have "int_base (d_spec d) \<in> {8, 10, 16}" by (auto simp: int_base_def)
    with b show ?thesis by auto
  qed
  moreover have "2 \<le> int_base (d_spec d)" by (simp add: int_base_def)
  ultimately have "length (number_digits (int_base (d_spec d)) (nat \<bar>argument_value d v\<bar>)) \<le> Suc 30"
    by (intro number_digits_length)
  then show ?thesis by (simp add: NTOA_BUFFER_SIZE_def)
qed

lemma int_text_plain:
  assumes "\<not> fl_hash (d_flags d)" "unat (d_width d) < 32" "unat (d_precision d) < 32"
    and "d_spec d = 98 \<Longrightarrow> argument_value d v < 2 ^ 31"
    and "fl_left (d_flags d) \<Longrightarrow> d_precision d = 0"
  shows "int_text d v = standard_text d (argument_value d v)"
proof -
  let ?x = "argument_value d v" and ?flags = "int_flags (d_spec d) (d_flags d)"
  let ?ds = "if fl_precision ?flags \<and> nat \<bar>?x\<bar> = 0 then []
    else map (digit_char (fl_uppercase ?flags)) (number_digits (int_base (d_spec d)) (nat \<bar>?x\<bar>))"
  let ?sign = "if ?x < 0 then [45 :: byte] else if fl_plus ?flags then [43] else if fl_space ?flags then [32] else []"
  have val: "(if d_spec d \<in> {100, 105} then signed_value ?flags v else (unsigned_value ?flags v, False)) =
      (nat \<bar>?x\<bar>, ?x < 0)"
    by (auto simp: signed_value_abs) (auto simp: unsigned_value_def argument_value_def split: if_splits)
  have left: "unat (d_precision d) \<le> length ?ds" if "fl_left ?flags"
    using assms(5) that by simp
  have "number_text (nat \<bar>?x\<bar>) (?x < 0) (int_base (d_spec d)) (d_precision d) (d_width d) ?flags =
      plain_text ?sign ?ds (d_precision d) (d_width d) ?flags"
    using assms(1-3) argument_digits_fit [OF assms(4)] left
    by (intro number_text_plain) (auto simp: int_base_def NTOA_BUFFER_SIZE_def)
  moreover have "plain_text ?sign ?ds (d_precision d) (d_width d) ?flags = standard_text d ?x"
  proof -
    have "?sign = standard_sign d ?x" by (simp add: standard_sign_def)
    moreover have "standard_digits d ?x = replicate (unat (d_precision d) - length ?ds) 48 @ ?ds"
      by (simp add: standard_digits_def Let_def)
    moreover have "justify ?flags = justify (d_flags d)" by (simp add: justify_def fun_eq_iff)
    moreover have "(fl_zeropad ?flags \<and> \<not> fl_left ?flags) =
        (fl_zeropad (d_flags d) \<and> \<not> fl_left (d_flags d) \<and> \<not> fl_precision (d_flags d))" by auto
    ultimately show ?thesis by (simp only: plain_text_def standard_text_def Let_def)
  qed
  ultimately show ?thesis unfolding int_text_def Let_def val by simp
qed

section \<open>Decimal numbers and \<open>strtoul\<close>\<close>

lemma unat_digit_char: "k < 10 \<Longrightarrow> unat (digit_char upper k) = 48 + k"
proof -
  assume "k < 10"
  then have "digit_char upper k = of_nat (48 + k)" by (simp add: digit_char_def)
  moreover have "unat (of_nat (48 + k) :: byte) = 48 + k" using \<open>k < 10\<close>
    by (simp only: unat_of_nat) simp
  ultimately show ?thesis by simp
qed

lemma digit_value_digit_char: "k < 10 \<Longrightarrow> digit_value 10 (digit_char upper k) = Some k"
  by (simp add: digit_value_def unat_digit_char)

lemma digits_digit_chars: "set ks \<subseteq> {..< 10} \<Longrightarrow> digits 10 (map (digit_char upper) ks) = ks"
  by (induction ks) (simp_all add: digit_value_digit_char)

lemma digit_char_range:
  assumes "k < 10"
  shows "digit_char upper k \<noteq> 0 \<and> digit_char upper k \<noteq> 120 \<and> digit_char upper k \<noteq> 88"
proof -
  have "unat (digit_char upper k) \<noteq> unat (0 :: byte)" "unat (digit_char upper k) \<noteq> unat (120 :: byte)"
      "unat (digit_char upper k) \<noteq> unat (88 :: byte)"
    using assms by (simp_all add: unat_digit_char)
  then show ?thesis by metis
qed

lemma strtoul_number_digits:
  assumes "cstring m s (map (digit_char upper) (number_digits 10 k))" "k < 2 ^ 64"
  shows "strtoul m s = Some k"
proof -
  let ?xs = "map (digit_char upper) (number_digits 10 k)"
  have less: "set (number_digits 10 k) \<subseteq> {..< 10}" by (rule number_digits_less) simp
  then have "horner 10 0 (digits 10 ?xs) mod 2 ^ 64 = k"
    using assms(2) by (simp add: digits_digit_chars horner_number_digits)
  moreover have "d \<noteq> 120 \<and> d \<noteq> 88" if "?xs = c # d # cs" for c d cs
  proof -
    from that have "d \<in> set ?xs" by simp
    with less show ?thesis by (auto simp: digit_char_range)
  qed
  ultimately show ?thesis using strtoul_spec [OF assms(1)] by (auto split: list.splits)
qed

text \<open>The directive \<open>%lu\<close>.\<close>

definition lu_directive :: directive where
  "lu_directive = \<lparr>d_spec = 117, d_flags = no_flags\<lparr>fl_long := True\<rparr>, d_width = 0, d_precision = 0\<rparr>"

lemma render_lu: "render strings [37, 108, 117] [v] = Some (map (digit_char False) (number_digits 10 (unat v)))"
proof -
  have "scan_directive [108, 117] [v] = Some (lu_directive, [], [v])"
    by (simp add: scan_directive_def scan_size_def scan_precision_def is_digit_def lu_directive_def)
  moreover have "int_text lu_directive v = map (digit_char False) (number_digits 10 (unat v))"
  proof -
    have "int_text lu_directive v = standard_text lu_directive (argument_value lu_directive v)"
      by (rule int_text_plain) (simp_all add: lu_directive_def no_flags_def)
    also have "argument_value lu_directive v = uint v" by (simp add: argument_value_def lu_directive_def)
    also have "standard_text lu_directive (uint v) = map (digit_char False) (number_digits 10 (nat (uint v)))"
      by (simp add: lu_directive_def no_flags_def standard_text_def standard_digits_def standard_sign_def
          int_base_def justify_def)
    finally show ?thesis by (simp only: unat_eq_nat_uint)
  qed
  ultimately show ?thesis
    by (simp add: directive_text_def argument_text_def takes_argument_def lu_directive_def)
qed

section \<open>The function of \<open>fctprintf\<close>\<close>

lemma out_fct_sink:
  assumes "\<And>c arg st a. a \<in> keep \<Longrightarrow> fst (g c arg st) a = fst st a"
  shows "fmt_sink (out_fct \<lparr>wrap_fct = g, wrap_arg = arg\<rparr>) buffer maxlen keep limit"
  by unfold_locales (simp add: out_fct_def assms)

lemma emit_out_fct:
  "fst (fold (emit (out_fct \<lparr>wrap_fct = g, wrap_arg = arg\<rparr>) b n) cs w) =
     fold (\<lambda>c. g c arg) (filter (\<lambda>c. c \<noteq> 0) cs) (fst w)"
  by (induction cs arbitrary: w) (simp_all add: emit_def out_fct_def)

text \<open>
  \<open>fctprintf\<close> calls the function it is given on the characters of the text, in their order and without null
  characters, and returns the length of the text, if that function does not write to the format or the strings.
\<close>

lemma fctprintf_spec:
  assumes "render strings fs va = Some t" "length t < 2 ^ 31" "wrap \<noteq> 0"
    and "\<And>c arg st a. a \<in> keep \<Longrightarrow> fst (g c arg st) a = fst st a" "kept keep (fst st) f fs"
    and "\<And>p s. strings p = Some s \<Longrightarrow> kept keep (fst st) p s \<and> length s < 2 ^ 32"
  shows "fctprintf g arg wrap f va st = Some (int (length t), fold (\<lambda>c. g c arg) (filter (\<lambda>c. c \<noteq> 0) t) st)"
proof -
  let ?out = "out_fct \<lparr>wrap_fct = g, wrap_arg = arg\<rparr>"
  let ?w = "fold (emit ?out wrap (2 ^ 64 - 1)) t (st, 0)"
  have "vsnprintf_loop ?out wrap (2 ^ 64 - 1) f (st, 0) va = Some ?w"
    using assms by (intro fmt_sink.vsnprintf_loop_emits [OF out_fct_sink assms(1), where limit = "length t" and keep = keep]) auto
  moreover have "snd ?w = length t"
    using snd_fold_emit [of "(st, 0)" ?out wrap "2 ^ 64 - 1" t] assms(2) by (simp add: wrap64_def)
  moreover have "fst ?w = fold (\<lambda>c. g c arg) (filter (\<lambda>c. c \<noteq> 0) t) st" by (simp add: emit_out_fct)
  ultimately show ?thesis using assms(2,3)
    by (cases ?w) (simp add: fctprintf_def vsnprintf_internal_def Let_def out_fct_def sint_of_length)
qed

section \<open>Properties\<close>

text \<open>
  C24: Let the format and the strings of its arguments be in memory, outside the part of the buffer
  that is written. Then \<open>snprintf\<close> returns the length of the whole text, and the buffer of
  \<open>count\<close> bytes holds the first \<open>count - 1\<close> characters of the text and a terminator behind them; no
  other byte changes, and with \<open>count\<close> zero none does.
\<close>

theorem snprintf_spec:
  assumes "render strings fs va = Some t" "fmt_input m f fs strings buffer (min (length t) count)"
    and "buffer \<noteq> 0" "length t < 2 ^ 31" "count < 2 ^ 64"
  shows "snprintf buffer count f va (m, u) =
    Some (int (length t), (if count = 0 then m else poke m buffer (take (count - 1) t @ [0]), u))"
  unfolding snprintf_def by (rule vsnprintf_out_buffer [OF assms])

text \<open>The format \<open>%s=%05d\<close> with the argument \<open>x\<close> at 200.\<close>

definition sample_format :: bytes where
  "sample_format = poke (poke (\<lambda>_. 0) 100 [37, 115, 61, 37, 48, 53, 100]) 200 [120]"

lemma sample_format_input: "fmt_input sample_format 100 [37, 115, 61, 37, 48, 53, 100] [200 \<mapsto> [120]] 300 n"
  by (auto simp: fmt_input_def kept_def sample_format_def split: if_splits)

lemma sample_format_text: "render [200 \<mapsto> [120]] [37, 115, 61, 37, 48, 53, 100] [200, - 42] = Some [120, 61, 45, 48, 48, 52, 50]"
  by code_simp

theorem snprintf_spec_witness:
  "snprintf 300 6 100 [200, - 42] (sample_format, ()) =
     Some (7, (poke sample_format 300 [120, 61, 45, 48, 48, 0], ()))"
  using snprintf_spec [OF sample_format_text sample_format_input, of 6 "()"] by simp



text \<open>
  C29: A number that \<open>snprintf\<close> prints with \<open>%lu\<close> is read back by \<open>strtoul\<close>, if the buffer has room for its
  at most twenty digits and the terminator.
\<close>

theorem snprintf_strtoul_roundtrip:
  assumes "fmt_input m f [37, 108, 117] Map.empty buffer 20" "buffer \<noteq> 0" "21 \<le> count" "count < 2 ^ 64"
  shows "\<exists>n m'. snprintf buffer count f [v] (m, u) = Some (n, (m', u)) \<and> strtoul m' buffer = Some (unat v)"
proof -
  let ?t = "map (digit_char False) (number_digits 10 (unat v))"
  have k: "unat v < 2 ^ 64" using unsigned_less [where 'a = nat, of v] by simp
  have len: "length ?t \<le> 20" using number_digits_length [of 10 "unat v" 19] k by simp
  have zero: "0 \<notin> set ?t" using number_digits_less [of 10 "unat v"] digit_char_range by fastforce
  have inp: "fmt_input m f [37, 108, 117] Map.empty buffer (min (length ?t) count)"
    using assms(1) len by (fastforce simp: fmt_input_def kept_def)
  have "take (count - 1) ?t = ?t" using len assms(3) by simp
  then have "snprintf buffer count f [v] (m, u) = Some (int (length ?t), (poke m buffer (?t @ [0]), u))"
    using vsnprintf_out_buffer [OF render_lu inp assms(2) _ assms(4), of u] len assms(3)
    by (simp add: snprintf_def del: map_map)
  moreover have "cstring (poke m buffer (?t @ [0])) buffer ?t"
    using zero by (simp add: cstring_iff poke_nth nth_append)
  ultimately show ?thesis using strtoul_number_digits k by blast
qed

theorem snprintf_strtoul_roundtrip_witness:
  "\<exists>n m'. snprintf 300 21 100 [1234] (poke (\<lambda>_. 0) 100 [37, 108, 117], ()) = Some (n, (m', ())) \<and>
     strtoul m' 300 = Some 1234"
proof -
  have "fmt_input (poke (\<lambda>_. 0) 100 [37, 108, 117]) 100 [37, 108, 117] Map.empty 300 20"
    by (auto simp: fmt_input_def kept_def)
  from snprintf_strtoul_roundtrip [OF this, of 21 1234 "()"] show ?thesis by simp
qed

section \<open>Deviations\<close>

text \<open>
  \<open>%#2x\<close> of \<open>0x12\<close> prints \<open>0x\<close>: the two characters that make room for the prefix are dropped although
  they are digits of the number and not padding.
\<close>

lemma hash_drops_digits:
  "int_text \<lparr>d_spec = 120, d_flags = no_flags\<lparr>fl_hash := True\<rparr>, d_width = 2, d_precision = 0\<rparr> 0x12 = [48, 120]"
  by code_simp

text \<open>\<open>%050d\<close> of a negative number prints 32 characters and no sign.\<close>

lemma wide_zero_padding_drops_sign:
  "int_text \<lparr>d_spec = 100, d_flags = no_flags\<lparr>fl_zeropad := True\<rparr>, d_width = 50, d_precision = 0\<rparr> (- 42) =
     replicate 30 48 @ [52, 50]"
  by code_simp

text \<open>\<open>%-.3d\<close> of 7 prints one digit.\<close>

lemma left_adjusted_ignores_precision:
  "int_text \<lparr>d_spec = 100, d_flags = no_flags\<lparr>fl_left := True, fl_precision := True\<rparr>, d_width = 0, d_precision = 3\<rparr> 7 = [55]"
  by code_simp

text \<open>
  A percent sign at the end of the format: its terminator is printed, and what follows in memory,
  here an \<open>A\<close>, is taken for the rest of the format.
\<close>

lemma percent_at_end_reads_on:
  "snprintf 300 10 100 [] (poke (\<lambda>_. 0) 100 [37, 0, 65], ()) =
     Some (2, (poke (\<lambda>_. 0) 100 [37, 0, 65])(300 := 0, 301 := 65, 302 := 0), ())"
  unfolding snprintf_def vsnprintf_internal_def
  apply (subst vsnprintf_loop.simps, simp add: fmt_directive_def fmt_flags_loop.simps fmt_width_def fmt_precision_def
      fmt_length_def fmt_specifier_def emit_def out_buffer_def add64_def wrap64_def)
  apply (subst vsnprintf_loop.simps, simp add: emit_def out_buffer_def add64_def wrap64_def)
  apply (subst vsnprintf_loop.simps, simp add: out_buffer_def)
  done

end
