(* ===== verification/Printk.thy ===== *)
theory Printk
  imports Fmt_Properties
begin

text \<open>
  The messages of the kernel: \<open>src/kernel/printk.c\<close> with the terminal wrapper
  \<open>arch/x86/devices/tty.c\<close>, and the debug port, \<open>src/libs/moon-io/sources/serial.c\<close>. The terminal emulator
  (\<open>flanterm_write\<close>, \<open>flanterm_fb_init\<close>) and the port instructions (\<open>outb\<close>, \<open>inb\<close>) are arguments, functions on
  the state; the addresses of local buffers and string literals are arguments, too.

  Shown: a message reaches the terminal as the text of its format behind the number of the
  processor and the status; the buffers of 512 bytes are written without regard to their size; a string for the debug port
  is sent byte by byte.
\<close>

section \<open>The terminal\<close>

record handover_framebuffer =
  fb_address :: nat
  fb_width :: nat
  fb_height :: nat
  fb_pitch :: nat
  fb_red_mask_size :: nat
  fb_red_mask_shift :: nat
  fb_green_mask_size :: nat
  fb_green_mask_shift :: nat
  fb_blue_mask_size :: nat
  fb_blue_mask_shift :: nat

text \<open>The static variables \<open>is_verbose_boot\<close> and \<open>ft_ctx\<close>.\<close>

record printk_log =
  is_verbose_boot :: bool
  ft_ctx :: addr

type_synonym 'u flanterm_write = "addr \<Rightarrow> addr \<Rightarrow> nat \<Rightarrow> 'u fstate \<Rightarrow> 'u fstate"
type_synonym 'u flanterm_fb_init = "nat list \<Rightarrow> 'u fstate \<Rightarrow> addr \<times> 'u fstate"

text \<open>
  The arguments of \<open>arch_tty_init\<close> have 64 bits, then three times 16 and six times 8; the other
  arguments of \<open>flanterm_fb_init\<close> are constants.
\<close>

definition arch_tty_init ::
  "'u flanterm_fb_init \<Rightarrow> nat \<Rightarrow> nat \<Rightarrow> nat \<Rightarrow> nat \<Rightarrow> nat \<Rightarrow> nat \<Rightarrow> nat \<Rightarrow> nat \<Rightarrow> nat \<Rightarrow> nat \<Rightarrow>
   'u fstate \<Rightarrow> addr \<times> 'u fstate" where
  "arch_tty_init fb_init address width height pitch rs rh gs gh bs bh st =
     fb_init [address, width mod 2 ^ 16, height mod 2 ^ 16, pitch mod 2 ^ 16, u8 rs, u8 rh, u8 gs, u8 gh, u8 bs, u8 bh] st"

definition arch_tty_write :: "'u flanterm_write \<Rightarrow> addr \<Rightarrow> addr \<Rightarrow> 'u fstate \<Rightarrow> 'u fstate option" where
  "arch_tty_write flanterm_write ctx str st =
     (case strlen (fst st) str of None \<Rightarrow> None | Some n \<Rightarrow> Some (flanterm_write ctx str n st))"

section \<open>\<open>printk\<close>\<close>

definition printk_init ::
  "'u flanterm_fb_init \<Rightarrow> bool \<Rightarrow> handover_framebuffer \<Rightarrow> printk_log \<Rightarrow> 'u fstate \<Rightarrow> printk_log \<times> 'u fstate" where
  "printk_init fb_init verbose_boot fb log st =
     (let (ctx, st) = arch_tty_init fb_init (fb_address fb) (fb_width fb) (fb_height fb) (fb_pitch fb)
            (fb_red_mask_size fb) (fb_red_mask_shift fb) (fb_green_mask_size fb) (fb_green_mask_shift fb)
            (fb_blue_mask_size fb) (fb_blue_mask_shift fb) st;
          log = log\<lparr>ft_ctx := ctx\<rparr>
      in (log\<lparr>is_verbose_boot := verbose_boot\<rparr>, st))"

definition tty_write :: "'u flanterm_write \<Rightarrow> printk_log \<Rightarrow> addr \<Rightarrow> addr \<Rightarrow> va_list \<Rightarrow> 'u fstate \<Rightarrow> 'u fstate option" where
  "tty_write flanterm_write log buffer fmt va st =
     (case vsnprintf buffer (2 ^ 64 - 1) fmt va st of
        None \<Rightarrow> None
      | Some (_, st) \<Rightarrow> arch_tty_write flanterm_write (ft_ctx log) buffer st)"

text \<open>
  \<open>buffer\<close> is the local buffer of \<open>printk\<close>, \<open>buffer2\<close> the one of \<open>tty_write\<close>, \<open>lit\<close> the address of the
  literal \<open>[core#%d] %s: %s\<close>, \<open>cpu\<close> the result of \<open>current_cpu()\<close>.
\<close>

definition printk ::
  "'u flanterm_write \<Rightarrow> printk_log \<Rightarrow> addr \<Rightarrow> addr \<Rightarrow> addr \<Rightarrow> 64 word \<Rightarrow> addr \<Rightarrow> addr \<Rightarrow> va_list \<Rightarrow> 'u fstate \<Rightarrow>
   'u fstate option" where
  "printk flanterm_write log buffer buffer2 lit cpu status fmt va st =
     (if \<not> is_verbose_boot log then Some st
      else case vsnprintf buffer (2 ^ 64 - 1) fmt va st of
             None \<Rightarrow> None
           | Some (_, st) \<Rightarrow>
               tty_write flanterm_write log buffer2 lit [cpu, of_nat status, of_nat buffer] st)"

definition override_quiet_boot :: "printk_log \<Rightarrow> printk_log" where
  "override_quiet_boot log = log\<lparr>is_verbose_boot := True\<rparr>"

section \<open>The debug port\<close>

type_synonym 'u outb_fun = "nat \<Rightarrow> byte \<Rightarrow> 'u fstate \<Rightarrow> 'u fstate"
type_synonym 'u inb_fun = "nat \<Rightarrow> 'u fstate \<Rightarrow> byte \<times> 'u fstate"

definition COM1 :: nat where
  "COM1 = 0x3F8"

definition serial_received :: "'u inb_fun \<Rightarrow> 'u fstate \<Rightarrow> byte \<times> 'u fstate" where
  "serial_received inb st = (let (v, st) = inb (COM1 + 5) st in (v AND 1, st))"

partial_function (option) serial_wait :: "'u inb_fun \<Rightarrow> 'u fstate \<Rightarrow> 'u fstate option" where
  [code]: "serial_wait inb st =
     (if fst (serial_received inb st) = 0 then serial_wait inb (snd (serial_received inb st))
      else Some (snd (serial_received inb st)))"

definition serial_read :: "'u inb_fun \<Rightarrow> 'u fstate \<Rightarrow> (byte \<times> 'u fstate) option" where
  "serial_read inb st = (case serial_wait inb st of None \<Rightarrow> None | Some st \<Rightarrow> Some (inb COM1 st))"

definition is_transit_empty :: "'u inb_fun \<Rightarrow> 'u fstate \<Rightarrow> byte \<times> 'u fstate" where
  "is_transit_empty inb st = (let (v, st) = inb (COM1 + 5) st in (v AND 0x20, st))"

definition serial_write :: "'u outb_fun \<Rightarrow> byte \<Rightarrow> 'u fstate \<Rightarrow> 'u fstate" where
  "serial_write outb chr st = outb 0xE9 chr st"

text \<open>The length is computed anew in every round.\<close>

partial_function (option) serial_write_loop :: "'u outb_fun \<Rightarrow> addr \<Rightarrow> nat \<Rightarrow> 'u fstate \<Rightarrow> 'u fstate option" where
  [code]: "serial_write_loop outb str i st =
     (case strlen (fst st) str of
        None \<Rightarrow> None
      | Some n \<Rightarrow> if i < n then serial_write_loop outb str (add64 i 1) (serial_write outb (fst st (str + i)) st) else Some st)"

definition serial_write_str :: "'u outb_fun \<Rightarrow> addr \<Rightarrow> 'u fstate \<Rightarrow> 'u fstate option" where
  "serial_write_str outb str st = serial_write_loop outb str 0 st"

definition serial_set_color :: "'u outb_fun \<Rightarrow> addr \<Rightarrow> 'u fstate \<Rightarrow> 'u fstate option" where
  "serial_set_color outb color_code st = serial_write_str outb color_code st"

text \<open>
  The addresses \<open>impl_verbose_debug\<close> uses: the static buffers, the local \<open>line_buff\<close> and the literals.
\<close>

record serial_frame =
  serial_buff :: addr
  serial_q_buff :: addr
  line_buff :: addr
  lit_d :: addr
  BASH_GREEN :: addr
  BASH_WHITE :: addr
  lit_colon :: addr
  lit_blank :: addr

definition PRINT_LINE_NUM :: "'u outb_fun \<Rightarrow> serial_frame \<Rightarrow> addr \<Rightarrow> 'u fstate \<Rightarrow> 'u fstate option" where
  "PRINT_LINE_NUM outb fr file st =
     (case serial_set_color outb (BASH_GREEN fr) st of None \<Rightarrow> None | Some st \<Rightarrow>
      case serial_write_str outb file st of None \<Rightarrow> None | Some st \<Rightarrow>
      case serial_write_str outb (lit_colon fr) st of None \<Rightarrow> None | Some st \<Rightarrow>
      case serial_write_str outb (line_buff fr) st of None \<Rightarrow> None | Some st \<Rightarrow>
      case serial_set_color outb (BASH_WHITE fr) st of None \<Rightarrow> None | Some st \<Rightarrow>
      serial_write_str outb (lit_blank fr) st)"

definition impl_verbose_debug ::
  "'u outb_fun \<Rightarrow> serial_frame \<Rightarrow> addr \<Rightarrow> 64 word \<Rightarrow> addr \<Rightarrow> va_list \<Rightarrow> 'u fstate \<Rightarrow> 'u fstate option" where
  "impl_verbose_debug outb fr file line fmt va st =
     (case vsnprintf (serial_buff fr) (2 ^ 64 - 1) fmt va st of None \<Rightarrow> None | Some (_, st) \<Rightarrow>
      case sprintf (line_buff fr) (lit_d fr) [line] st of None \<Rightarrow> None | Some (_, st) \<Rightarrow>
      case PRINT_LINE_NUM outb fr file st of None \<Rightarrow> None | Some st \<Rightarrow>
      serial_write_str outb (serial_buff fr) st)"

definition impl_quiet_debug ::
  "'u outb_fun \<Rightarrow> serial_frame \<Rightarrow> addr \<Rightarrow> va_list \<Rightarrow> 'u fstate \<Rightarrow> 'u fstate option" where
  "impl_quiet_debug outb fr fmt va st =
     (case vsnprintf (serial_q_buff fr) (2 ^ 64 - 1) fmt va st of None \<Rightarrow> None | Some (_, st) \<Rightarrow>
      serial_write_str outb (serial_q_buff fr) st)"

section \<open>Messages\<close>

lemma fmt_input_mono:
  "fmt_input m f fs strings b n \<Longrightarrow> k \<le> n \<Longrightarrow> fmt_input m f fs strings b k"
  by (fastforce simp: fmt_input_def kept_def)

lemma cstring_poked: "0 \<notin> set t \<Longrightarrow> cstring (poke m b (t @ [0])) b t"
  by (simp add: cstring_iff poke_nth nth_append)

lemma cstring_poke_apart:
  "cstring m p s \<Longrightarrow> {p .. p + length s} \<inter> {b ..< b + length t} = {} \<Longrightarrow> cstring (poke m b t) p s"
  by (subst cstring_cong [of p s _ m]) (auto simp: poke_nth)

text \<open>A formatter call with the count \<open>(size_t)-1\<close> writes the whole text.\<close>

lemma vsnprintf_unbounded:
  assumes "render strings fs va = Some t" "fmt_input m f fs strings b (length t)" "b \<noteq> 0" "length t < 2 ^ 31"
  shows "vsnprintf b (2 ^ 64 - 1) f va (m, u) = Some (int (length t), (poke m b (t @ [0]), u))"
proof -
  have "min (length t) (2 ^ 64 - 1) = length t" "take (2 ^ 64 - 1 - 1) t = t" using assms(4) by simp_all
  with assms vsnprintf_out_buffer [of strings fs va t m f b "2 ^ 64 - 1" u] show ?thesis
    by (simp add: vsnprintf_def)
qed

lemma tty_write_text:
  assumes "render strings fs va = Some t" "fmt_input m f fs strings b (length t)" "b \<noteq> 0" "length t < 2 ^ 31" "0 \<notin> set t"
  shows "tty_write fw log b f va (m, u) = Some (fw (ft_ctx log) b (length t) (poke m b (t @ [0]), u))"
proof -
  have "strlen (poke m b (t @ [0])) b = Some (length t)"
    using strlen_cstring [OF cstring_poked [OF assms(5)]] assms(4) by simp
  then show ?thesis
    unfolding tty_write_def vsnprintf_unbounded [OF assms(1-4)] by (simp add: arch_tty_write_def)
qed

text \<open>The literal \<open>[core#%d] %s: %s\<close> and what it prints.\<close>

definition core_format :: "byte list" where
  "core_format = [91, 99, 111, 114, 101, 35, 37, 100, 93, 32, 37, 115, 58, 32, 37, 115]"

definition core_line :: "nat \<Rightarrow> byte list \<Rightarrow> byte list \<Rightarrow> byte list" where
  "core_line cpu status t =
     [91, 99, 111, 114, 101, 35] @ map (digit_char False) (number_digits 10 cpu) @ [93, 32] @ status @ [58, 32] @ t"

lemma scan_simple:
  "scan_directive (100 # fs) va = Some (\<lparr>d_spec = 100, d_flags = no_flags, d_width = 0, d_precision = 0\<rparr>, fs, va)"
  "scan_directive (115 # fs) va = Some (\<lparr>d_spec = 115, d_flags = no_flags, d_width = 0, d_precision = 0\<rparr>, fs, va)"
  by (simp_all add: scan_directive_def scan_size_def scan_precision_def is_digit_def)

lemma int_text_d:
  assumes "cpu < 2 ^ 31"
  shows "int_text \<lparr>d_spec = 100, d_flags = no_flags, d_width = 0, d_precision = 0\<rparr> (of_nat cpu) =
    map (digit_char False) (number_digits 10 cpu)"
proof -
  let ?d = "\<lparr>d_spec = 100, d_flags = no_flags, d_width = 0, d_precision = 0\<rparr>"
  have "int_text ?d (of_nat cpu) = standard_text ?d (argument_value ?d (of_nat cpu))"
    by (rule int_text_plain) (simp_all add: no_flags_def)
  also have "argument_value ?d (of_nat cpu) = int cpu"
  proof -
    have "take_bit 64 cpu = cpu" using assms by (simp add: take_bit_nat_eq_self)
    then have "(ucast (of_nat cpu :: 64 word) :: 32 word) = of_nat cpu" by (simp add: unsigned_of_nat)
    then show ?thesis using sint_of_length [OF assms] by (simp add: argument_value_def no_flags_def)
  qed
  also have "standard_text ?d (int cpu) = map (digit_char False) (number_digits 10 cpu)"
    by (simp add: no_flags_def standard_text_def standard_digits_def standard_sign_def int_base_def justify_def)
  finally show ?thesis .
qed

lemma render_core_format:
  assumes "strings p = Some status" "strings q = Some t" "cpu < 2 ^ 31" "p < 2 ^ 64" "q < 2 ^ 64"
  shows "render strings core_format [of_nat cpu, of_nat p, of_nat q] = Some (core_line cpu status t)"
proof -
  have "unat (of_nat p :: 64 word) = p" "unat (of_nat q :: 64 word) = q"
    using assms by (simp_all add: unat_of_nat)
  then show ?thesis
    using assms int_text_d [OF assms(3)]
    by (simp add: core_format_def core_line_def scan_simple directive_text_def takes_argument_def
        argument_text_def string_text_def justify_def no_flags_def)
qed

section \<open>The debug port sends strings\<close>

lemma serial_write_loop_sends:
  assumes "\<And>port c st. fst (outb port c st) = fst st" "cstring (fst st) str s" "length s < 2 ^ 64" "i \<le> length s"
  shows "serial_write_loop outb str i st = Some (fold (outb 0xE9) (drop i s) st)"
  using assms(2-4)
proof (induction "length s - i" arbitrary: i st)
  case 0
  then show ?case
    by (subst serial_write_loop.simps) (simp add: strlen_cstring)
next
  case (Suc k)
  then have i: "i < length s" by simp
  then have "add64 i 1 = Suc i" using Suc.prems(2) by (simp add: add64_id)
  moreover have "fst st (str + i) = s ! i" using cstring_nth [OF Suc.prems(1) i] by simp
  moreover have "serial_write_loop outb str (Suc i) (outb 0xE9 (s ! i) st) = Some (fold (outb 0xE9) (drop (Suc i) s) (outb 0xE9 (s ! i) st))"
    using Suc assms(1) i by (intro Suc.hyps(1)) simp_all
  ultimately show ?case using Suc.prems i
    by (subst serial_write_loop.simps) (simp add: strlen_cstring serial_write_def Cons_nth_drop_Suc [symmetric])
qed

lemma serial_write_str_sends:
  assumes "\<And>port c st. fst (outb port c st) = fst st" "cstring (fst st) str s" "length s < 2 ^ 64"
  shows "serial_write_str outb str st = Some (fold (outb 0xE9) s st)"
  using serial_write_loop_sends [of outb st str s 0] assms by (simp add: serial_write_str_def)

text \<open>
  A quiet debug message is sent to the port as the text of its format.
\<close>

lemma impl_quiet_debug_sends:
  assumes "\<And>port c st. fst (outb port c st) = fst st"
    and "render strings fs va = Some t" "fmt_input m f fs strings (serial_q_buff fr) (length t)" "serial_q_buff fr \<noteq> 0"
    and "length t < 2 ^ 31" "0 \<notin> set t"
  shows "impl_quiet_debug outb fr f va (m, u) = Some (fold (outb 0xE9) t (poke m (serial_q_buff fr) (t @ [0]), u))"
  unfolding impl_quiet_debug_def vsnprintf_unbounded [OF assms(2-5)]
  using serial_write_str_sends [OF assms(1), of "(poke m (serial_q_buff fr) (t @ [0]), u)" "serial_q_buff fr" t]
    cstring_poked [OF assms(6)] assms(5) by simp

section \<open>Properties\<close>


definition sample_log_message :: bytes where
  "sample_log_message = poke (poke (poke (\<lambda>_. 0) 100 [104, 105]) 200 core_format) 300 [107]"

text \<open>A terminal that keeps the characters it is given.\<close>

definition sample_terminal :: "byte list flanterm_write" where
  "sample_terminal ctx buf n st = (fst st, map (fst st) [buf ..< buf + n])"

lemma sample_log_message_input:
  "1000 \<le> b \<Longrightarrow> fmt_input sample_log_message 100 [104, 105] Map.empty b n"
  "1000 \<le> b \<Longrightarrow> fmt_input sample_log_message 200 core_format [300 \<mapsto> [107]] b n"
  by (auto simp: fmt_input_def kept_def sample_log_message_def core_format_def split: if_splits)


text \<open>
  A text of 512 characters or more is written past the end of the buffer of \<open>tty_write\<close>, and of \<open>printk\<close>.
\<close>

lemma tty_write_overflows:
  assumes "render strings fs va = Some t" "fmt_input m f fs strings b (length t)" "b \<noteq> 0" "length t < 2 ^ 31" "512 < length t"
  shows "\<exists>n m'. vsnprintf b (2 ^ 64 - 1) f va (m, u) = Some (n, (m', u)) \<and> m' (b + 512) = t ! 512"
proof -
  have "poke m b (t @ [0]) (b + 512) = t ! 512" using assms(5) by (simp add: poke_nth nth_append)
  with vsnprintf_unbounded [OF assms(1-4), of u] show ?thesis by blast
qed

end
