(* ===== verification/Trace.thy ===== *)
theory Trace
  imports Printk
begin

text \<open>
  Symbols and stack traces: \<open>src/kernel/trace/sym.c\<close> and \<open>src/kernel/arch/x86/trace/stack_trace.c\<close>. The table of
  symbols is generated by the build and is an argument, a function of the index; the frames of the stack are read from the byte
  memory.

  Shown: with a table that ends in its sentinel, \<open>sym_lookup\<close> returns for every address but 0 the last symbol
  in front of it, and for 0 it never returns; a trace lists the return addresses of the chain of frames, and counts one less.
\<close>

section \<open>Symbols\<close>

record SymbolTable =
  sym_addr :: nat
  sym_name :: addr

definition sentinel :: nat where
  "sentinel = 0xFFFFFFFF"

text \<open>The counter is an \<open>int\<close>.\<close>

partial_function (option) sym_lookup_loop ::
  "(nat \<Rightarrow> SymbolTable) \<Rightarrow> nat \<Rightarrow> nat \<Rightarrow> nat \<Rightarrow> nat \<Rightarrow> SymbolTable option" where
  [code]: "sym_lookup_loop symbol_table address corrected_address index_new i =
     (if i \<ge> 2 ^ 31 then None
      else if corrected_address \<ge> address
      then sym_lookup_loop symbol_table address corrected_address index_new (i + 1)
      else let s = sym_addr (symbol_table i);
               better = s < address \<and> s > corrected_address;
               corrected_address = (if better then s else corrected_address);
               index_new = (if better then i else index_new)
           in if s = sentinel
              then Some \<lparr>sym_addr = corrected_address, sym_name = sym_name (symbol_table index_new)\<rparr>
              else sym_lookup_loop symbol_table address corrected_address index_new (i + 1))"

definition sym_lookup :: "(nat \<Rightarrow> SymbolTable) \<Rightarrow> nat \<Rightarrow> SymbolTable option" where
  "sym_lookup symbol_table address = sym_lookup_loop symbol_table address 0 0 0"

partial_function (option) find_symbol_loop :: "(nat \<Rightarrow> SymbolTable) \<Rightarrow> bytes \<Rightarrow> addr \<Rightarrow> nat \<Rightarrow> int option" where
  [code]: "find_symbol_loop symbol_table m name i =
     (case strcmp m name (sym_name (symbol_table i)) of
        None \<Rightarrow> None
      | Some r \<Rightarrow>
          if r = 0 then Some (sint (of_nat (sym_addr (symbol_table i)) :: 64 word))
          else if sym_addr (symbol_table i) = sentinel then Some (-1)
          else find_symbol_loop symbol_table m name (i + 1))"

definition find_symbol_by_name :: "(nat \<Rightarrow> SymbolTable) \<Rightarrow> bytes \<Rightarrow> addr \<Rightarrow> int option" where
  "find_symbol_by_name symbol_table m name = find_symbol_loop symbol_table m name 0"

text \<open>
  \<open>print\<close> and \<open>dbg\<close> are \<open>printk\<close> and \<open>impl_quiet_debug\<close> with the status and the format \<open>%llx - %s\<close> of the two calls.
\<close>

definition backtrace_symbol ::
  "(va_list \<Rightarrow> 'u fstate \<Rightarrow> 'u fstate option) \<Rightarrow> (va_list \<Rightarrow> 'u fstate \<Rightarrow> 'u fstate option) \<Rightarrow> (nat \<Rightarrow> SymbolTable) \<Rightarrow>
   nat \<Rightarrow> 'u fstate \<Rightarrow> 'u fstate option" where
  "backtrace_symbol print dbg symbol_table address st =
     (case sym_lookup symbol_table address of
        None \<Rightarrow> None
      | Some s \<Rightarrow>
          (case print [of_nat (sym_addr s), of_nat (sym_name s)] st of
             None \<Rightarrow> None
           | Some st \<Rightarrow> dbg [of_nat (sym_addr s), of_nat (sym_name s)] st))"

section \<open>Stack traces\<close>

definition UNWIND_MAX :: nat where
  "UNWIND_MAX = 20"

text \<open>
  The results the loop has stored; \<open>caller_rbp\<close> is the second of them, which is not initialised if there are
  fewer.
\<close>

record stacktrace_result =
  st_count :: nat
  caller_rbp :: "nat option"
  trace_results :: "nat list"

fun trace_loop :: "bytes \<Rightarrow> nat \<Rightarrow> addr \<Rightarrow> nat list" where
  "trace_loop m 0 rbp = []"
| "trace_loop m (Suc frames) rbp =
     (if rbp = 0 then [] else load64 m (rbp + 8) # trace_loop m frames (load64 m rbp))"

definition arch_trace_stack :: "bytes \<Rightarrow> addr \<Rightarrow> int \<Rightarrow> stacktrace_result" where
  "arch_trace_stack m rbp frames =
     (let frames = (if frames > int UNWIND_MAX then int UNWIND_MAX else frames);
          results = trace_loop m (nat frames) rbp
      in \<lparr>st_count = sub64 (length results) 1,
          caller_rbp = (if length results > 1 then Some (results ! 1) else None), trace_results = results\<rparr>)"

section \<open>Lookups\<close>

text \<open>\<open>n\<close> is the index of the sentinel.\<close>

definition table_ends :: "(nat \<Rightarrow> SymbolTable) \<Rightarrow> nat \<Rightarrow> bool" where
  "table_ends t n \<longleftrightarrow> n < 2 ^ 31 \<and> sym_addr (t n) = sentinel \<and> (\<forall>i < n. sym_addr (t i) \<noteq> sentinel)"

text \<open>The greatest address of a symbol below \<open>address\<close> among the first \<open>k\<close>, or 0.\<close>

fun last_below :: "(nat \<Rightarrow> SymbolTable) \<Rightarrow> nat \<Rightarrow> nat \<Rightarrow> nat" where
  "last_below t address 0 = 0"
| "last_below t address (Suc k) =
     (if sym_addr (t k) < address then max (last_below t address k) (sym_addr (t k)) else last_below t address k)"

definition index_for :: "(nat \<Rightarrow> SymbolTable) \<Rightarrow> nat \<Rightarrow> nat \<Rightarrow> nat \<Rightarrow> bool" where
  "index_for t address k j \<longleftrightarrow>
     (if last_below t address k = 0 then j = 0 else j < k \<and> sym_addr (t j) = last_below t address k)"

lemma last_below_less: "0 < address \<Longrightarrow> last_below t address k < address"
  by (induction k) auto

lemma last_below_bound: "i < k \<Longrightarrow> sym_addr (t i) < address \<Longrightarrow> sym_addr (t i) \<le> last_below t address k"
  by (induction k) (auto simp: less_Suc_eq)

lemma sym_lookup_loop_last:
  assumes "table_ends t n" "0 < address"
  shows "i \<le> n \<Longrightarrow> index_for t address i j \<Longrightarrow>
    \<exists>s j'. sym_lookup_loop t address (last_below t address i) j i = Some s \<and> sym_addr s = last_below t address (Suc n) \<and>
      index_for t address (Suc n) j' \<and> sym_name s = sym_name (t j')"
proof (induction "n - i" arbitrary: i j)
  case 0
  then have "i = n" by simp
  let ?j = "if sym_addr (t n) < address \<and> last_below t address n < sym_addr (t n) then n else j"
  have "index_for t address (Suc n) ?j"
    using 0 \<open>i = n\<close> by (auto simp: index_for_def max_def)
  moreover have "sym_lookup_loop t address (last_below t address n) j n =
      Some \<lparr>sym_addr = last_below t address (Suc n), sym_name = sym_name (t ?j)\<rparr>"
    using assms last_below_less [OF assms(2), of t n]
    by (subst sym_lookup_loop.simps) (auto simp: table_ends_def Let_def max_def)
  ultimately show ?case unfolding \<open>i = n\<close>
    by (intro exI [of _ "\<lparr>sym_addr = last_below t address (Suc n), sym_name = sym_name (t ?j)\<rparr>"] exI [of _ ?j]) (simp del: last_below.simps)
next
  case (Suc k)
  then have i: "i < n" by simp
  let ?j = "if sym_addr (t i) < address \<and> last_below t address i < sym_addr (t i) then i else j"
  have "index_for t address (Suc i) ?j" using Suc.prems by (auto simp: index_for_def max_def)
  moreover have "sym_lookup_loop t address (last_below t address i) j i =
      sym_lookup_loop t address (last_below t address (Suc i)) ?j (Suc i)"
    using assms i last_below_less [OF assms(2), of t i]
    by (subst sym_lookup_loop.simps) (auto simp: table_ends_def Let_def max_def)
  ultimately show ?case using Suc.hyps(1) [of "Suc i" ?j] Suc.hyps(2) i by simp
qed

lemma sym_lookup_zero_stuck: "sym_lookup t 0 = None"
proof -
  have "sym_lookup_loop t 0 c j i = None" for c j i
  proof (induction "2 ^ 31 - i" arbitrary: i)
    case 0
    then show ?case by (subst sym_lookup_loop.simps) simp
  next
    case (Suc n)
    then show ?case by (subst sym_lookup_loop.simps) simp
  qed
  then show ?thesis by (simp add: sym_lookup_def)
qed

section \<open>Chains of frames\<close>

fun frames_at :: "bytes \<Rightarrow> addr \<Rightarrow> addr list \<Rightarrow> bool" where
  "frames_at m rbp [] \<longleftrightarrow> rbp = 0"
| "frames_at m rbp (f # fs) \<longleftrightarrow> rbp = f \<and> f \<noteq> 0 \<and> frames_at m (load64 m f) fs"

lemma trace_loop_frames:
  "frames_at m rbp fs \<Longrightarrow> trace_loop m n rbp = map (\<lambda>f. load64 m (f + 8)) (take n fs)"
proof (induction fs arbitrary: rbp n)
  case Nil
  then show ?case by (cases n) simp_all
next
  case (Cons f fs)
  then show ?case by (cases n) simp_all
qed

text \<open>
  A trace holds the return addresses of the first frames, at most 20; the count is one less than their
  number, and wraps around when there are none.
\<close>

lemma arch_trace_stack_frames:
  assumes "frames_at m rbp fs" "0 \<le> n"
  shows "trace_results (arch_trace_stack m rbp n) = map (\<lambda>f. load64 m (f + 8)) (take (min (nat n) UNWIND_MAX) fs)"
    and "fs \<noteq> [] \<Longrightarrow> 0 < n \<Longrightarrow> st_count (arch_trace_stack m rbp n) + 1 = min (min (nat n) UNWIND_MAX) (length fs)"
    and "fs = [] \<Longrightarrow> st_count (arch_trace_stack m rbp n) = 2 ^ 64 - 1"
proof -
  have "nat (if n > int UNWIND_MAX then int UNWIND_MAX else n) = min (nat n) UNWIND_MAX" by (auto simp: min_def)
  then have res: "arch_trace_stack m rbp n =
      (let r = map (\<lambda>f. load64 m (f + 8)) (take (min (nat n) UNWIND_MAX) fs)
       in \<lparr>st_count = sub64 (length r) 1, caller_rbp = (if length r > 1 then Some (r ! 1) else None), trace_results = r\<rparr>)"
    unfolding arch_trace_stack_def Let_def trace_loop_frames [OF assms(1)] by simp
  then show "trace_results (arch_trace_stack m rbp n) = map (\<lambda>f. load64 m (f + 8)) (take (min (nat n) UNWIND_MAX) fs)"
    by (simp add: Let_def)
  show "st_count (arch_trace_stack m rbp n) + 1 = min (min (nat n) UNWIND_MAX) (length fs)" if "fs \<noteq> []" "0 < n"
  proof -
    let ?k = "min (min (nat n) UNWIND_MAX) (length fs)"
    have "1 \<le> ?k" "?k < 2 ^ 64" using that by (simp_all add: UNWIND_MAX_def Suc_le_eq)
    then have "sub64 ?k 1 = ?k - 1" by (intro sub64_id)
    moreover have "st_count (arch_trace_stack m rbp n) = sub64 (length (take (min (nat n) UNWIND_MAX) fs)) 1"
      unfolding res Let_def by simp
    moreover have "length (take (min (nat n) UNWIND_MAX) fs) = ?k" by (simp only: length_take min.commute)
    ultimately have "st_count (arch_trace_stack m rbp n) = ?k - 1" by (simp only:)
    then show ?thesis using \<open>1 \<le> ?k\<close> by (simp only: le_add_diff_inverse2)
  qed
  show "st_count (arch_trace_stack m rbp n) = 2 ^ 64 - 1" if "fs = []"
    using res that by (simp add: Let_def sub64_def wrap64_def)
qed

section \<open>Properties\<close>

text \<open>
  In a table that ends in its sentinel, \<open>sym_lookup\<close> returns for every address greater than 0 the symbol
  with the greatest address below it, or the address 0 if there is none.
\<close>

lemma sym_lookup_spec:
  assumes "table_ends t n" "0 < address"
  shows "\<exists>s. sym_lookup t address = Some s \<and> sym_addr s < address \<and>
    (\<forall>i \<le> n. sym_addr (t i) < address \<longrightarrow> sym_addr (t i) \<le> sym_addr s) \<and> (sym_addr s \<noteq> 0 \<longrightarrow> (\<exists>i \<le> n. s = t i))"
proof -
  obtain s j where s: "sym_lookup t address = Some s" "sym_addr s = last_below t address (Suc n)"
      "index_for t address (Suc n) j" "sym_name s = sym_name (t j)"
    using sym_lookup_loop_last [OF assms, of 0 0] by (auto simp: sym_lookup_def index_for_def simp del: last_below.simps(2))
  have "s = t j" "j \<le> n" if "sym_addr s \<noteq> 0"
    using that s(2-4) by (auto simp: index_for_def simp del: last_below.simps)
  moreover have "sym_addr (t i) \<le> sym_addr s" if "i \<le> n" "sym_addr (t i) < address" for i
    using that last_below_bound [of i "Suc n" t address] s(2) by simp
  ultimately show ?thesis using s(1,2) last_below_less [OF assms(2)] by metis
qed

definition sample_symbols :: "nat \<Rightarrow> SymbolTable" where
  "sample_symbols i = (if i = 0 then \<lparr>sym_addr = 4096, sym_name = 10\<rparr> else if i = 1 then \<lparr>sym_addr = 8192, sym_name = 20\<rparr>
     else \<lparr>sym_addr = sentinel, sym_name = 30\<rparr>)"

end
