(* ===== verification/Omap.thy ===== *)
theory Omap
  imports Prelude "HOL-Library.Tree"
begin

text \<open>
  The ordered map of \<open>src/libs/moon-ds/private/cc.h\<close>, in which the kernel keeps the process of every port: a
  red-black tree whose nodes have pointers to their parent and their two children, and whose leaves
  are one sentinel. The nodes are records in a store, addressed by pointers; the function that
  allocates and the comparison of keys are arguments, as they are in the code. Keys and
  elements have no destructors, and the kernel's \<open>memcpy\<close> copies them.
\<close>

section \<open>Data\<close>

record ('k, 'v) omapnode =
  is_red :: bool
  node_parent :: addr
  children :: "bool \<Rightarrow> addr"
  node_key :: 'k
  node_el :: 'v

text \<open>The header, and the store of the nodes.\<close>

record ('k, 'v) omap =
  omap_hdr_size :: nat
  omap_root :: addr
  omap_sentinel :: addr
  omap_nodes :: "addr \<Rightarrow> ('k, 'v) omapnode"

definition sizeof_omapnode_hdr :: nat where "sizeof_omapnode_hdr = 32"
definition sizeof_omap_hdr :: nat where "sizeof_omap_hdr = 24"
definition SIZE_MAX :: nat where "SIZE_MAX = 2 ^ 64 - 1"

definition cc_omapnode_hdr :: "addr \<Rightarrow> addr" where
  "cc_omapnode_hdr itr = itr - sizeof_omapnode_hdr"

definition cc_omap_el :: "addr \<Rightarrow> addr" where
  "cc_omap_el hdr = hdr + sizeof_omapnode_hdr"

abbreviation node_at :: "('k, 'v) omap \<Rightarrow> addr \<Rightarrow> ('k, 'v) omapnode" where
  "node_at s p \<equiv> omap_nodes s p"

definition set_red :: "addr \<Rightarrow> bool \<Rightarrow> ('k, 'v) omap \<Rightarrow> ('k, 'v) omap" where
  "set_red p b s = s\<lparr>omap_nodes := (omap_nodes s)(p := (node_at s p)\<lparr>is_red := b\<rparr>)\<rparr>"

definition set_parent :: "addr \<Rightarrow> addr \<Rightarrow> ('k, 'v) omap \<Rightarrow> ('k, 'v) omap" where
  "set_parent p q s = s\<lparr>omap_nodes := (omap_nodes s)(p := (node_at s p)\<lparr>node_parent := q\<rparr>)\<rparr>"

definition set_child :: "addr \<Rightarrow> bool \<Rightarrow> addr \<Rightarrow> ('k, 'v) omap \<Rightarrow> ('k, 'v) omap" where
  "set_child p d q s =
     s\<lparr>omap_nodes := (omap_nodes s)(p := (node_at s p)\<lparr>children := (children (node_at s p))(d := q)\<rparr>)\<rparr>"

text \<open>
  An empty map without a header of its own: \<open>init\<close> makes the handle point to a constant one. \<open>h\<close> is the store, with the
  constant sentinel at \<open>sentinel\<close>.
\<close>

definition cc_omap_placeholder :: "addr \<Rightarrow> (addr \<Rightarrow> ('k, 'v) omapnode) \<Rightarrow> ('k, 'v) omap" where
  "cc_omap_placeholder sentinel h =
     \<lparr>omap_hdr_size = SIZE_MAX, omap_root = sentinel, omap_sentinel = sentinel, omap_nodes = h\<rparr>"

definition cc_omap_is_placeholder :: "('k, 'v) omap \<Rightarrow> bool" where
  "cc_omap_is_placeholder s \<longleftrightarrow> omap_hdr_size s = SIZE_MAX \<and> omap_root s = omap_sentinel s"

definition cc_omap_size :: "('k, 'v) omap \<Rightarrow> nat" where
  "cc_omap_size s = (if cc_omap_is_placeholder s then 0 else omap_hdr_size s)"

section \<open>Iterators\<close>

text \<open>The iterators in front of the first and behind the last element are the beginning and the end of the sentinel.\<close>

definition cc_omap_r_end_or_end :: "('k, 'v) omap \<Rightarrow> bool \<Rightarrow> addr" where
  "cc_omap_r_end_or_end s dir = omap_sentinel s + (if dir then sizeof_omapnode_hdr else 0)"

partial_function (option) descend_loop :: "('k, 'v) omap \<Rightarrow> bool \<Rightarrow> addr \<Rightarrow> addr option" where
  [code]: "descend_loop s dir node =
     (if children (node_at s node) dir \<noteq> omap_sentinel s then descend_loop s dir (children (node_at s node) dir) else Some node)"

definition cc_omap_first_or_last :: "('k, 'v) omap \<Rightarrow> bool \<Rightarrow> addr option" where
  "cc_omap_first_or_last s dir =
     (if omap_root s = omap_sentinel s then Some (cc_omap_r_end_or_end s dir)
      else map_option cc_omap_el (descend_loop s (\<not> dir) (omap_root s)))"

definition cc_omap_first :: "('k, 'v) omap \<Rightarrow> addr option" where
  "cc_omap_first s = cc_omap_first_or_last s True"

definition cc_omap_last :: "('k, 'v) omap \<Rightarrow> addr option" where
  "cc_omap_last s = cc_omap_first_or_last s False"

partial_function (option) ascend_loop :: "('k, 'v) omap \<Rightarrow> bool \<Rightarrow> addr \<Rightarrow> addr option" where
  [code]: "ascend_loop s dir node =
     (let parent = node_parent (node_at s node) in
      if parent \<noteq> omap_sentinel s
      then if children (node_at s parent) (\<not> dir) = node then Some (cc_omap_el parent) else ascend_loop s dir parent
      else Some (cc_omap_r_end_or_end s dir))"

definition cc_omap_iterate :: "('k, 'v) omap \<Rightarrow> addr \<Rightarrow> bool \<Rightarrow> addr option" where
  "cc_omap_iterate s itr dir =
     (if itr = cc_omap_r_end_or_end s (\<not> dir) then cc_omap_first_or_last s dir
      else let node = cc_omapnode_hdr itr in
           if children (node_at s node) dir \<noteq> omap_sentinel s
           then map_option cc_omap_el (descend_loop s (\<not> dir) (children (node_at s node) dir))
           else ascend_loop s dir node)"

definition cc_omap_prev :: "('k, 'v) omap \<Rightarrow> addr \<Rightarrow> addr option" where
  "cc_omap_prev s itr = cc_omap_iterate s itr False"

definition cc_omap_next :: "('k, 'v) omap \<Rightarrow> addr \<Rightarrow> addr option" where
  "cc_omap_next s itr = cc_omap_iterate s itr True"

section \<open>Insertion\<close>

definition cc_omap_rotate :: "('k, 'v) omap \<Rightarrow> addr \<Rightarrow> bool \<Rightarrow> ('k, 'v) omap" where
  "cc_omap_rotate s node dir =
     (let child = children (node_at s node) (\<not> dir);
          s = set_child node (\<not> dir) (children (node_at s child) dir) s;
          s = (if children (node_at s child) dir \<noteq> omap_sentinel s
               then set_parent (children (node_at s child) dir) node s else s);
          s = (if child \<noteq> omap_sentinel s then set_parent child (node_parent (node_at s node)) s else s);
          parent = node_parent (node_at s node);
          s = (if parent \<noteq> omap_sentinel s
               then set_child parent (node = children (node_at s parent) True) child s
               else s\<lparr>omap_root := child\<rparr>);
          s = set_child child dir node s
      in if node \<noteq> omap_sentinel s then set_parent node child s else s)"

partial_function (option) insert_fixup_loop :: "('k, 'v) omap \<Rightarrow> addr \<Rightarrow> ('k, 'v) omap option" where
  [code]: "insert_fixup_loop s node =
     (let parent = node_parent (node_at s node) in
      if node \<noteq> omap_root s \<and> is_red (node_at s parent)
      then let grand = node_parent (node_at s parent);
               dir = (parent = children (node_at s grand) False);
               uncle = children (node_at s grand) dir
           in if is_red (node_at s uncle)
              then insert_fixup_loop (set_red grand True (set_red uncle False (set_red parent False s))) grand
              else let (s, node) = (if node = children (node_at s parent) dir
                                    then (cc_omap_rotate s parent (\<not> dir), parent) else (s, node));
                       s = set_red (node_parent (node_at s node)) False s;
                       s = set_red (node_parent (node_at s (node_parent (node_at s node)))) True s
                   in insert_fixup_loop (cc_omap_rotate s (node_parent (node_at s (node_parent (node_at s node)))) dir) node
      else Some s)"

definition cc_omap_post_insert_fixup :: "('k, 'v) omap \<Rightarrow> addr \<Rightarrow> ('k, 'v) omap option" where
  "cc_omap_post_insert_fixup s node = map_option (\<lambda>s. set_red (omap_root s) False s) (insert_fixup_loop s node)"

text \<open>The node with the key, or the parent of the node to be created and the last comparison.\<close>

partial_function (option) insert_search_loop ::
  "('k \<Rightarrow> 'k \<Rightarrow> int) \<Rightarrow> 'k \<Rightarrow> ('k, 'v) omap \<Rightarrow> addr \<Rightarrow> addr \<Rightarrow> int \<Rightarrow> (addr + addr \<times> int) option" where
  [code]: "insert_search_loop cmpr key s node parent cmpr_result =
     (if node \<noteq> omap_sentinel s
      then let cmpr_result = cmpr key (node_key (node_at s node)) in
           if cmpr_result = 0 then Some (Inl node)
           else insert_search_loop cmpr key s (children (node_at s node) (cmpr_result > 0)) node cmpr_result
      else Some (Inr (parent, cmpr_result)))"

definition cc_omap_alloc_hdr :: "('k, 'v) omap \<Rightarrow> (nat \<Rightarrow> addr) \<Rightarrow> ('k, 'v) omap option" where
  "cc_omap_alloc_hdr s reall =
     (if reall sizeof_omap_hdr = 0 then None
      else Some (s\<lparr>omap_hdr_size := 0, omap_root := omap_sentinel s\<rparr>))"

text \<open>
  The result is the map and an iterator to the element, 0 when an allocation failed. \<open>reall\<close> gives the address of
  a new block of the given size.
\<close>

definition cc_omap_insert ::
  "('k, 'v) omap \<Rightarrow> 'v \<Rightarrow> 'k \<Rightarrow> bool \<Rightarrow> nat \<Rightarrow> ('k \<Rightarrow> 'k \<Rightarrow> int) \<Rightarrow> (nat \<Rightarrow> addr) \<Rightarrow> (('k, 'v) omap \<times> addr) option" where
  "cc_omap_insert s el key replace bucket_size cmpr reall =
     (case (if cc_omap_is_placeholder s then cc_omap_alloc_hdr s reall else Some s) of
        None \<Rightarrow> Some (s, 0)
      | Some s \<Rightarrow>
          (case insert_search_loop cmpr key s (omap_root s) (omap_sentinel s) 0 of
             None \<Rightarrow> None
           | Some (Inl node) \<Rightarrow>
               Some (if replace
                     then s\<lparr>omap_nodes := (omap_nodes s)(node := (node_at s node)\<lparr>node_key := key, node_el := el\<rparr>)\<rparr>
                     else s, cc_omap_el node)
           | Some (Inr (parent, cmpr_result)) \<Rightarrow>
               let new_node = reall (sizeof_omapnode_hdr + bucket_size) in
               if new_node = 0 then Some (s, 0)
               else let s = s\<lparr>omap_nodes := (omap_nodes s)(new_node :=
                              \<lparr>is_red = True, node_parent = parent, children = (\<lambda>_. omap_sentinel s),
                               node_key = key, node_el = el\<rparr>)\<rparr>;
                        s = (if parent \<noteq> omap_sentinel s then set_child parent (cmpr_result > 0) new_node s
                             else s\<lparr>omap_root := new_node\<rparr>)
                    in map_option (\<lambda>s. (s\<lparr>omap_hdr_size := add64 (omap_hdr_size s) 1\<rparr>, cc_omap_el new_node))
                         (cc_omap_post_insert_fixup s new_node)))"

section \<open>Lookup\<close>

partial_function (option) get_loop :: "('k \<Rightarrow> 'k \<Rightarrow> int) \<Rightarrow> 'k \<Rightarrow> ('k, 'v) omap \<Rightarrow> addr \<Rightarrow> addr option" where
  [code]: "get_loop cmpr key s node =
     (if node \<noteq> omap_sentinel s
      then let cmpr_result = cmpr key (node_key (node_at s node)) in
           if cmpr_result = 0 then Some (cc_omap_el node)
           else get_loop cmpr key s (children (node_at s node) (cmpr_result > 0))
      else Some 0)"

definition cc_omap_get :: "('k, 'v) omap \<Rightarrow> 'k \<Rightarrow> ('k \<Rightarrow> 'k \<Rightarrow> int) \<Rightarrow> addr option" where
  "cc_omap_get s key cmpr = get_loop cmpr key s (omap_root s)"

partial_function (option) bounded_loop ::
  "('k \<Rightarrow> 'k \<Rightarrow> int) \<Rightarrow> 'k \<Rightarrow> ('k, 'v) omap \<Rightarrow> bool \<Rightarrow> addr \<Rightarrow> addr \<Rightarrow> addr option" where
  [code]: "bounded_loop cmpr key s dir node result =
     (if node \<noteq> omap_sentinel s
      then let cmpr_result = cmpr (node_key (node_at s node)) key in
           if cmpr_result = 0 then Some (cc_omap_el node)
           else bounded_loop cmpr key s dir (children (node_at s node) (cmpr_result < 0))
                  (if (cmpr_result > 0) = dir then cc_omap_el node else result)
      else Some result)"

definition cc_omap_bounded_first_or_last :: "('k, 'v) omap \<Rightarrow> 'k \<Rightarrow> bool \<Rightarrow> ('k \<Rightarrow> 'k \<Rightarrow> int) \<Rightarrow> addr option" where
  "cc_omap_bounded_first_or_last s key dir cmpr =
     bounded_loop cmpr key s dir (omap_root s) (cc_omap_r_end_or_end s dir)"

text \<open>The comparison of the keys the kernel uses, the function for \<open>int\<close>.\<close>

definition cc_cmpr_int_three_way :: "int \<Rightarrow> int \<Rightarrow> int" where
  "cc_cmpr_int_three_way val_1 val_2 = of_bool (val_1 > val_2) - of_bool (val_1 < val_2)"

end
