(* ===== verification/Omap_Shape.thy ===== *)
theory Omap_Shape
  imports Omap
begin

text \<open>
  Trees in the store of nodes: a pointer stands for a tree of addresses (\<open>shape\<close>), a node deep in the tree for
  the path to it (\<open>cshape\<close>), a list of steps from the node up with the tree on the other side of
  each. A rotation changes the tree at the end of a path and keeps the order of the nodes.
\<close>

section \<open>Trees and paths\<close>

text \<open>A tree with \<open>t\<close> on the side \<open>d\<close> of its root and \<open>u\<close> on the other.\<close>

definition mk :: "bool \<Rightarrow> addr \<Rightarrow> addr tree \<Rightarrow> addr tree \<Rightarrow> addr tree" where
  "mk d a t u = (if d then Node u a t else Node t a u)"

type_synonym path = "(bool \<times> addr \<times> addr tree) list"

fun plug :: "path \<Rightarrow> addr tree \<Rightarrow> addr tree" where
  "plug [] t = t"
| "plug ((d, a, u) # c) t = plug c (mk d a t u)"

fun path_set :: "path \<Rightarrow> addr set" where
  "path_set [] = {}"
| "path_set ((d, a, u) # c) = insert a (set_tree u \<union> path_set c)"

fun path_before :: "path \<Rightarrow> addr list" where
  "path_before [] = []"
| "path_before ((d, a, u) # c) = path_before c @ (if d then inorder u @ [a] else [])"

fun path_behind :: "path \<Rightarrow> addr list" where
  "path_behind [] = []"
| "path_behind ((d, a, u) # c) = (if d then [] else a # inorder u) @ path_behind c"

fun path_distinct :: "path \<Rightarrow> bool" where
  "path_distinct [] = True"
| "path_distinct ((d, a, u) # c) \<longleftrightarrow>
     distinct (inorder u) \<and> a \<notin> set_tree u \<and> a \<notin> path_set c \<and> set_tree u \<inter> path_set c = {} \<and> path_distinct c"

lemma set_mk [simp]: "set_tree (mk d a t u) = insert a (set_tree t \<union> set_tree u)"
  by (auto simp: mk_def)

lemma mk_not_Leaf [simp]: "mk d a t u \<noteq> Leaf" "Leaf \<noteq> mk d a t u"
  by (simp_all add: mk_def)

lemma distinct_mk: "distinct (inorder (mk d a t u)) \<longleftrightarrow>
  a \<notin> set_tree t \<and> a \<notin> set_tree u \<and> set_tree t \<inter> set_tree u = {} \<and> distinct (inorder t) \<and> distinct (inorder u)"
  by (auto simp: mk_def)

lemma inorder_rotate: "inorder (mk d x (mk d n A B) C) = inorder (mk d n A (mk d x B C))"
  by (simp add: mk_def)

lemma inorder_plug: "inorder (plug c t) = path_before c @ inorder t @ path_behind c"
  by (induction c t rule: plug.induct) (simp_all add: mk_def)

lemma set_plug: "set_tree (plug c t) = path_set c \<union> set_tree t"
  by (induction c t rule: plug.induct) auto

lemma distinct_plug:
  "distinct (inorder (plug c t)) \<longleftrightarrow> distinct (inorder t) \<and> path_distinct c \<and> set_tree t \<inter> path_set c = {}"
proof (induction c t rule: plug.induct)
  case (2 d a u c t)
  then show ?case by (auto simp: distinct_mk)
qed simp

lemma plug_append: "plug (c @ c') t = plug c' (plug c t)"
  by (induction c t rule: plug.induct) simp_all

section \<open>Shapes\<close>

type_synonym ('k, 'v) store = "addr \<Rightarrow> ('k, 'v) omapnode"

fun shape :: "('k, 'v) store \<Rightarrow> addr \<Rightarrow> addr \<Rightarrow> addr \<Rightarrow> addr tree \<Rightarrow> bool" where
  "shape h e p par Leaf \<longleftrightarrow> p = e"
| "shape h e p par (Node l a r) \<longleftrightarrow> p = a \<and> a \<noteq> e \<and> node_parent (h a) = par \<and>
     shape h e (children (h a) False) a l \<and> shape h e (children (h a) True) a r"

text \<open>\<open>p\<close> is the node at the end of the path, \<open>par\<close> its parent.\<close>

fun cshape :: "('k, 'v) store \<Rightarrow> addr \<Rightarrow> addr \<Rightarrow> addr \<Rightarrow> addr \<Rightarrow> path \<Rightarrow> bool" where
  "cshape h e root p par [] \<longleftrightarrow> root = p \<and> par = e"
| "cshape h e root p par ((d, a, u) # c) \<longleftrightarrow> par = a \<and> a \<noteq> e \<and> children (h a) d = p \<and>
     shape h e (children (h a) (\<not> d)) a u \<and> cshape h e root a (node_parent (h a)) c"

lemma shape_mk [simp]: "shape h e p par (mk d a t u) \<longleftrightarrow> p = a \<and> a \<noteq> e \<and> node_parent (h a) = par \<and>
    shape h e (children (h a) d) a t \<and> shape h e (children (h a) (\<not> d)) a u"
  by (cases d) (auto simp: mk_def)

lemma shape_plug: "shape h e root e (plug c t) \<longleftrightarrow> (\<exists>p par. cshape h e root p par c \<and> shape h e p par t)"
  by (induction c t rule: plug.induct) auto

lemma shape_plugI: "cshape h e root p par c \<Longrightarrow> shape h e p par t \<Longrightarrow> shape h e root e (plug c t)"
  by (auto simp: shape_plug)

lemma shape_pointer: "shape h e p par t \<Longrightarrow> p = e \<longleftrightarrow> t = Leaf" "shape h e p par t \<Longrightarrow> p \<noteq> e \<Longrightarrow> p \<in> set_tree t"
  by (cases t; auto)+

lemma sentinel_not_in: "shape h e p par t \<Longrightarrow> e \<notin> set_tree t"
  by (induction t arbitrary: p par) auto

lemma sentinel_not_in_path: "cshape h e root p par c \<Longrightarrow> e \<notin> path_set c"
  by (induction c arbitrary: p par rule: path_set.induct) (auto dest: sentinel_not_in)

definition same_links :: "('k, 'v) omapnode \<Rightarrow> ('k, 'v) omapnode \<Rightarrow> bool" where
  "same_links x y \<longleftrightarrow> node_parent x = node_parent y \<and> children x = children y"

lemma same_links_refl [simp]: "same_links x x"
  by (simp add: same_links_def)

lemma shape_cong: "\<forall>a \<in> set_tree t. same_links (h a) (h' a) \<Longrightarrow> shape h e p par t = shape h' e p par t"
  by (induction t arbitrary: p par) (auto simp: same_links_def)

lemma cshape_cong: "\<forall>a \<in> path_set c. same_links (h a) (h' a) \<Longrightarrow> cshape h e root p par c = cshape h' e root p par c"
proof (induction c arbitrary: p par rule: path_set.induct)
  case (2 d a u c)
  have "shape h e q r u = shape h' e q r u" for q r by (rule shape_cong) (use 2 in auto)
  moreover have "same_links (h a) (h' a)" using 2(2) by auto
  ultimately show ?case using 2 by (auto simp: same_links_def)
qed simp

text \<open>The parent of a tree changes, if it is not empty.\<close>

lemma shape_reparent:
  assumes t: "shape h e p par t" "distinct (inorder t)"
    and h': "p \<noteq> e \<Longrightarrow> node_parent (h' p) = q \<and> children (h' p) = children (h p)"
    and same: "\<forall>a \<in> set_tree t - {p}. same_links (h a) (h' a)"
  shows "shape h' e p q t"
proof (cases t)
  case (Node l a r)
  have sub: "shape h e (children (h a) False) a l" "shape h e (children (h a) True) a r" "p = a" "a \<noteq> e"
    using t(1) Node by auto
  have "shape h' e (children (h a) False) a l"
    by (subst shape_cong [of _ _ h]) (use sub same t(2) Node in \<open>auto simp: same_links_def\<close>)
  moreover have "shape h' e (children (h a) True) a r"
    by (subst shape_cong [of _ _ h]) (use sub same t(2) Node in \<open>auto simp: same_links_def\<close>)
  ultimately show ?thesis using Node sub h' by auto
qed (use t in simp)

text \<open>Another node takes the place at the end of a path.\<close>

lemma cshape_rehang:
  assumes c: "cshape h e root p par c" "path_distinct c"
    and h': "par \<noteq> e \<Longrightarrow> node_parent (h' par) = node_parent (h par) \<and>
      children (h' par) = (children (h par))(fst (hd c) := p')"
    and root: "root' = (if par = e then p' else root)"
    and same: "\<forall>a \<in> path_set c - {par}. same_links (h a) (h' a)"
  shows "cshape h' e root' p' par c"
proof (cases c)
  case (Cons f c')
  obtain d a u where f: "f = (d, a, u)" by (cases f) auto
  have a: "par = a" "a \<noteq> e" "shape h e (children (h a) (\<not> d)) a u" "cshape h e root a (node_parent (h a)) c'"
    using c(1) Cons f by auto
  have "shape h' e (children (h a) (\<not> d)) a u"
    by (subst shape_cong [of _ _ h]) (use a same c(2) Cons f in \<open>auto simp: same_links_def\<close>)
  moreover have "cshape h' e root a (node_parent (h a)) c'"
    by (subst cshape_cong [of _ _ h]) (use a same c(2) Cons f in \<open>auto simp: same_links_def\<close>)
  ultimately show ?thesis using Cons f a h' root by auto
qed (use c root in simp)

section \<open>Rotations\<close>

lemmas set_field = set_red_def set_parent_def set_child_def

text \<open>The side of its parent a node is on, as the code finds it.\<close>

lemma side_of:
  assumes "cshape h e root p par ((d, a, u) # c)" "p \<noteq> e" "p \<notin> set_tree u"
  shows "(p = children (h a) True) = d" "(p = children (h a) False) = (\<not> d)"
  using assms shape_pointer(2) [of h e "children (h a) (\<not> d)" a u] by (cases d; auto)+

lemma rotate_store:
  assumes child: "child = children (node_at s node) (\<not> dir)" and b: "b = children (node_at s child) dir"
    and par: "par = node_parent (node_at s node)" and e: "e = omap_sentinel s"
    and ne: "node \<noteq> e" "child \<noteq> e" "node \<noteq> child" "b \<noteq> node" "b \<noteq> child" "par \<noteq> node" "par \<noteq> child"
      "b = e \<or> b \<noteq> par"
  shows "omap_nodes (cc_omap_rotate s node dir) = (\<lambda>x.
      if x = node then (node_at s node)\<lparr>children := (children (node_at s node))(\<not> dir := b), node_parent := child\<rparr>
      else if x = child then (node_at s child)\<lparr>node_parent := par, children := (children (node_at s child))(dir := node)\<rparr>
      else if x = b \<and> b \<noteq> e then (node_at s b)\<lparr>node_parent := node\<rparr>
      else if x = par \<and> par \<noteq> e
      then (node_at s par)\<lparr>children := (children (node_at s par))((node = children (node_at s par) True) := child)\<rparr>
      else node_at s x)" (is "_ = ?F")
    and "omap_root (cc_omap_rotate s node dir) = (if par = e then child else omap_root s)" (is ?R)
    and "omap_sentinel (cc_omap_rotate s node dir) = e" (is ?E)
    and "omap_hdr_size (cc_omap_rotate s node dir) = omap_hdr_size s" (is ?S)
proof -
  define s1 where "s1 = set_child node (\<not> dir) b s"
  define s2 where "s2 = (if b \<noteq> e then set_parent b node s1 else s1)"
  define s3 where "s3 = set_parent child par s2"
  define s4 where "s4 = (if par \<noteq> e then set_child par (node = children (node_at s par) True) child s3 else s3\<lparr>omap_root := child\<rparr>)"
  define s5 where "s5 = set_child child dir node s4"
  have e1: "omap_sentinel s1 = e" "omap_sentinel s2 = e" "omap_sentinel s3 = e" "omap_sentinel s4 = e" "omap_sentinel s5 = e"
    by (simp_all add: s1_def s2_def s3_def s4_def s5_def set_field e)
  have c1: "children (node_at s1 child) dir = b" using ne by (simp add: s1_def set_field b)
  have p2: "node_parent (node_at s2 node) = par" using ne by (simp add: s1_def s2_def set_field par)
  have p3: "node_parent (node_at s3 node) = par" using ne p2 by (simp add: s3_def set_field)
  have p4: "children (node_at s3 par) True = children (node_at s par) True" if "par \<noteq> e"
    using ne that by (simp add: s1_def s2_def s3_def set_field)
  have rot: "cc_omap_rotate s node dir = set_parent node child s5"
  proof -
    have s4: "(if par \<noteq> e then set_child par (node = children (node_at s3 par) True) child s3 else s3\<lparr>omap_root := child\<rparr>) = s4"
      unfolding s4_def using p4 by simp
    show ?thesis
      by (simp only: cc_omap_rotate_def Let_def child [symmetric] b [symmetric] s1_def [symmetric] c1 e1
          s2_def [symmetric] p2 ne(1,2) not_False_eq_True if_True s3_def [symmetric] p3 s4 s5_def [symmetric])
  qed
  have ne8: "b \<noteq> e \<Longrightarrow> b \<noteq> par" using ne(8) by blast
  have n2: "node_at s2 x = (if x = node then (node_at s node)\<lparr>children := (children (node_at s node))(\<not> dir := b)\<rparr>
      else if x = b \<and> b \<noteq> e then (node_at s b)\<lparr>node_parent := node\<rparr> else node_at s x)" for x
    using ne(4) by (simp add: s1_def s2_def set_field)
  have n4: "node_at s4 x = (if x = child then (node_at s child)\<lparr>node_parent := par\<rparr> else if x = par \<and> par \<noteq> e
      then (node_at s par)\<lparr>children := (children (node_at s par))((node = children (node_at s par) True) := child)\<rparr>
      else node_at s2 x)" for x
    using ne(3,5-7) ne8 by (cases "par = e") (auto simp: s3_def s4_def n2 set_field)
  have "omap_nodes (set_parent node child s5) x = ?F x" for x
    using ne(3-7) ne8 by (cases "x = child"; cases "x = node"; auto simp: s5_def set_field n4 n2)
  then show "omap_nodes (cc_omap_rotate s node dir) = ?F" unfolding rot by blast
  show "?R" "?E" "?S" unfolding rot by (simp_all add: s1_def s2_def s3_def s4_def s5_def set_field e)
qed

section \<open>Focus\<close>

text \<open>The map holds the tree \<open>t\<close> at the end of the path \<open>c\<close>, at the node \<open>p\<close> with parent \<open>par\<close>.\<close>

definition focus :: "('k, 'v) omap \<Rightarrow> path \<Rightarrow> addr \<Rightarrow> addr \<Rightarrow> addr tree \<Rightarrow> bool" where
  "focus s c p par t \<longleftrightarrow> cshape (omap_nodes s) (omap_sentinel s) (omap_root s) p par c \<and>
     shape (omap_nodes s) (omap_sentinel s) p par t \<and> distinct (inorder (plug c t))"

definition same_data :: "('k, 'v) omap \<Rightarrow> ('k, 'v) omap \<Rightarrow> bool" where
  "same_data s s' \<longleftrightarrow> omap_sentinel s' = omap_sentinel s \<and> omap_hdr_size s' = omap_hdr_size s \<and>
     (\<forall>x. is_red (node_at s' x) = is_red (node_at s x) \<and> node_key (node_at s' x) = node_key (node_at s x) \<and>
          node_el (node_at s' x) = node_el (node_at s x))"

lemma focus_up: "focus s ((d, a, u) # c) p par t \<Longrightarrow> par = a \<and> focus s c a (node_parent (node_at s a)) (mk d a t u) \<and>
    children (node_at s a) d = p \<and> a \<noteq> omap_sentinel s"
  by (auto simp: focus_def)

lemma focus_down: "focus s c a par (mk d a t u) \<Longrightarrow> focus s ((d, a, u) # c) (children (node_at s a) d) a t"
  by (auto simp: focus_def)

lemma mk_flip: "mk (\<not> d) a u t = mk d a t u"
  by (simp add: mk_def)

lemma focus_rotate:
  assumes f: "focus s c node par (mk dir node A (mk dir child B C))"
  defines "s' \<equiv> cc_omap_rotate s node dir"
  shows "focus s' c child par (mk dir child (mk dir node A B) C)" "same_data s s'"
proof -
  define h e b where "h = omap_nodes s" "e = omap_sentinel s" "b = children (h child) dir"
  note fs = f [unfolded focus_def, folded h_e_b_def]
  have A: "shape h e (children (h node) dir) node A" and B: "shape h e b child B"
    and C: "shape h e (children (h child) (\<not> dir)) child C" and child: "child = children (h node) (\<not> dir)"
    and ne: "node \<noteq> e" "child \<noteq> e" and par: "par = node_parent (h node)" "node_parent (h child) = node"
    and cs: "cshape h e (omap_root s) node par c"
    using fs by (auto simp: h_e_b_def)
  have dist: "path_distinct c" "insert node (insert child (set_tree A \<union> set_tree B \<union> set_tree C)) \<inter> path_set c = {}"
    "distinct (inorder A)" "distinct (inorder B)" "distinct (inorder C)" "node \<noteq> child"
    "set_tree A \<inter> insert node (insert child (set_tree B \<union> set_tree C)) = {}"
    "set_tree B \<inter> insert node (insert child (set_tree C)) = {}" "set_tree C \<inter> {node, child} = {}"
    using fs by (auto simp: distinct_plug distinct_mk)
  have bB: "b = e \<or> b \<in> set_tree B" using shape_pointer(2) [OF B] by blast
  have eB: "e \<notin> set_tree A" "e \<notin> set_tree B" "e \<notin> set_tree C" "e \<notin> path_set c"
    using sentinel_not_in [OF A] sentinel_not_in [OF B] sentinel_not_in [OF C] sentinel_not_in_path [OF cs] by auto
  have parc: "par = e \<or> par \<in> path_set c" using cs by (cases c) auto
  have ne2: "b \<noteq> node" "b \<noteq> child" "par \<noteq> node" "par \<noteq> child" "b = e \<or> b \<noteq> par"
    using bB parc dist(2,8) ne by auto
  note rot = rotate_store [OF child [unfolded h_e_b_def] h_e_b_def(3) [unfolded h_e_b_def(1)] par(1) [unfolded h_e_b_def(1)] h_e_b_def(2)
      ne dist(6) ne2, folded h_e_b_def(1), folded s'_def]
  show "same_data s s'" using rot ne2 dist(6) by (auto simp: same_data_def h_e_b_def)
  have out: "omap_nodes s' x = h x" if "x \<notin> {node, child, b, par}" for x using that unfolding rot(1) by simp
  have agree: "\<forall>a \<in> S. same_links (h a) (omap_nodes s' a)" if "S \<inter> {node, child, b, par} = {}" for S
  proof
    fix a assume "a \<in> S"
    then have "a \<notin> {node, child, b, par}" using that by blast
    then show "same_links (h a) (omap_nodes s' a)" using out by simp
  qed
  have at_par: "omap_nodes s' par = (h par)\<lparr>children := (children (h par))((node = children (h par) True) := child)\<rparr>" if "par \<noteq> e"
    using that ne2 by (simp add: rot(1)) blast
  have "cshape (omap_nodes s') e (omap_root s') child par c"
  proof (rule cshape_rehang [OF cs dist(1)])
    show "omap_root s' = (if par = e then child else omap_root s)" by (rule rot(2))
    show "node_parent (omap_nodes s' par) = node_parent (h par) \<and>
        children (omap_nodes s' par) = (children (h par))(fst (hd c) := child)" if "par \<noteq> e"
    proof (cases c)
      case (Cons x c')
      obtain d a u where x: "x = (d, a, u)" by (cases x) auto
      have "(node = children (h a) True) = d"
        using side_of(1) [of h e "omap_root s" node par d a u c'] cs ne(1) dist(2) Cons x by auto
      then show ?thesis using cs Cons x unfolding at_par [OF that] by simp
    qed (use cs that in simp)
    show "\<forall>a \<in> path_set c - {par}. same_links (h a) (omap_nodes s' a)"
      by (rule agree) (use dist(2) bB eB in auto)
  qed
  moreover have "shape (omap_nodes s') e b node B"
  proof (rule shape_reparent [OF B dist(4)])
    show "node_parent (omap_nodes s' b) = node \<and> children (omap_nodes s' b) = children (h b)" if "b \<noteq> e"
      unfolding rot(1) using ne2 that by simp
    show "\<forall>a \<in> set_tree B - {b}. same_links (h a) (omap_nodes s' a)"
      by (rule agree) (use dist(2,8) parc eB in auto)
  qed
  moreover have "shape (omap_nodes s') e (children (h node) dir) node A"
    using A shape_cong [OF agree, of A] dist(2,7) parc bB eB by blast
  moreover have "shape (omap_nodes s') e (children (h child) (\<not> dir)) child C"
    using C shape_cong [OF agree, of C] dist(2,8,9) parc bB eB by blast
  moreover have "distinct (inorder (plug c (mk dir child (mk dir node A B) C)))"
    using fs by (simp add: inorder_plug inorder_rotate)
  moreover have "node_parent (omap_nodes s' child) = par" "node_parent (omap_nodes s' node) = child"
    "children (omap_nodes s' node) dir = children (h node) dir" "children (omap_nodes s' node) (\<not> dir) = b"
    "children (omap_nodes s' child) dir = node" "children (omap_nodes s' child) (\<not> dir) = children (h child) (\<not> dir)"
    unfolding rot(1) using dist(6) by auto
  ultimately show "focus s' c child par (mk dir child (mk dir node A B) C)"
    unfolding focus_def rot(3) using ne by simp
qed

end
