(* ===== verification/Omap_Insert.thy ===== *)
theory Omap_Insert
  imports Omap_Shape
begin

text \<open>
  The balance of the tree, and that insertion restores it: no red node has a red child, and every path from a node down to
  a leaf has the same number of black nodes. The loop after an insertion moves one violation
  towards the root until a rotation, a black parent or the root ends it.
\<close>

section \<open>Balance\<close>

text \<open>\<open>f\<close> tells the red nodes.\<close>

fun bheight :: "(addr \<Rightarrow> bool) \<Rightarrow> addr tree \<Rightarrow> nat" where
  "bheight f Leaf = 0"
| "bheight f (Node l a r) = bheight f l + of_bool (\<not> f a)"

fun red_root :: "(addr \<Rightarrow> bool) \<Rightarrow> addr tree \<Rightarrow> bool" where
  "red_root f Leaf = False"
| "red_root f (Node l a r) = f a"

fun balanced :: "(addr \<Rightarrow> bool) \<Rightarrow> addr tree \<Rightarrow> bool" where
  "balanced f Leaf = True"
| "balanced f (Node l a r) \<longleftrightarrow> balanced f l \<and> balanced f r \<and> bheight f l = bheight f r \<and>
     (f a \<longrightarrow> \<not> red_root f l \<and> \<not> red_root f r)"

fun red_end :: "(addr \<Rightarrow> bool) \<Rightarrow> path \<Rightarrow> bool" where
  "red_end f [] = False"
| "red_end f ((d, a, u) # c) = f a"

text \<open>A tree of black height \<open>n\<close> fits at the end of the path.\<close>

fun path_balanced :: "(addr \<Rightarrow> bool) \<Rightarrow> nat \<Rightarrow> path \<Rightarrow> bool" where
  "path_balanced f n [] = True"
| "path_balanced f n ((d, a, u) # c) \<longleftrightarrow> balanced f u \<and> bheight f u = n \<and>
     (f a \<longrightarrow> \<not> red_root f u \<and> c \<noteq> [] \<and> \<not> red_end f c) \<and> path_balanced f (n + of_bool (\<not> f a)) c"

lemma red_root_mk [simp]: "red_root f (mk d a t u) = f a"
  by (simp add: mk_def)

lemma balanced_mk [simp]: "balanced f (mk d a t u) \<longleftrightarrow> balanced f t \<and> balanced f u \<and> bheight f t = bheight f u \<and>
    (f a \<longrightarrow> \<not> red_root f t \<and> \<not> red_root f u)"
  by (auto simp: mk_def)

lemma bheight_mk [simp]: "bheight f t = bheight f u \<Longrightarrow> bheight f (mk d a t u) = bheight f t + of_bool (\<not> f a)"
  by (simp add: mk_def)

lemma balanced_plug: "balanced f (plug c t) \<and> \<not> red_root f (plug c t) \<longleftrightarrow>
    balanced f t \<and> path_balanced f (bheight f t) c \<and> (red_root f t \<longrightarrow> c \<noteq> [] \<and> \<not> red_end f c)"
proof (induction c arbitrary: t)
  case (Cons x c)
  obtain d a u where x: "x = (d, a, u)" by (cases x) auto
  have "balanced f (mk d a t u) \<and> path_balanced f (bheight f (mk d a t u)) c \<and> (red_root f (mk d a t u) \<longrightarrow> c \<noteq> [] \<and> \<not> red_end f c) \<longleftrightarrow>
      balanced f t \<and> path_balanced f (bheight f t) (x # c) \<and> (red_root f t \<longrightarrow> x # c \<noteq> [] \<and> \<not> red_end f (x # c))"
    by (cases "bheight f t = bheight f u") (auto simp: x)
  then show ?case using Cons [of "mk d a t u"] x by simp
qed auto

lemma bheight_cong: "\<forall>a \<in> set_tree t. f a = g a \<Longrightarrow> bheight f t = bheight g t"
  by (induction t) auto

lemma red_root_cong: "\<forall>a \<in> set_tree t. f a = g a \<Longrightarrow> red_root f t = red_root g t"
  by (cases t) auto

lemma balanced_cong: "\<forall>a \<in> set_tree t. f a = g a \<Longrightarrow> balanced f t = balanced g t"
proof (induction t)
  case (Node l a r)
  then show ?case using bheight_cong [of l f g] bheight_cong [of r f g] red_root_cong [of l f g] red_root_cong [of r f g] by simp
qed simp

lemmas balance_cong = bheight_cong red_root_cong balanced_cong

lemma path_balance_cong:
  assumes "\<forall>a \<in> path_set c. f a = g a"
  shows "path_balanced f n c = path_balanced g n c" "red_end f c = red_end g c"
proof -
  show "red_end f c = red_end g c" using assms by (cases "(f, c)" rule: red_end.cases) auto
  show "path_balanced f n c = path_balanced g n c" using assms
  proof (induction f n c rule: path_balanced.induct)
    case (2 f n d a u c)
    have "red_end f c = red_end g c" using 2(2) by (cases "(f, c)" rule: red_end.cases) auto
    then show ?case using 2 balance_cong [of u f g] by auto
  qed simp
qed

text \<open>Blackening the root keeps the balance.\<close>

lemma blacken_root:
  assumes t: "balanced f t" and root: "\<And>l a r. t = Node l a r \<Longrightarrow> a = p" and p: "distinct (inorder t)"
    and g: "\<And>a. a \<noteq> p \<Longrightarrow> g a = f a" "\<not> g p"
  shows "balanced g t" "\<not> red_root g t"
proof -
  show "\<not> red_root g t" using root g(2) by (cases t) auto
  show "balanced g t"
  proof (cases t)
    case (Node l a r)
    have "p \<notin> set_tree l" "p \<notin> set_tree r" using p root [OF Node] Node by auto
    then have "\<forall>a \<in> set_tree l. g a = f a" "\<forall>a \<in> set_tree r. g a = f a" using g(1) by metis+
    then show ?thesis using t Node balance_cong [of l g f] balance_cong [of r g f] root [OF Node] g(2) by simp
  qed simp
qed

text \<open>A balanced tree with a black root is at most twice as high as its black height, which is at most logarithmic.\<close>

lemma height_bheight: "balanced f t \<Longrightarrow> height t \<le> 2 * bheight f t + of_bool (red_root f t)"
  by (induction t) (auto simp: of_bool_def split: if_splits)

lemma bheight_size: "balanced f t \<Longrightarrow> 2 ^ bheight f t \<le> size1 t"
  by (induction t) auto

lemma height_bound:
  assumes "balanced f t" "\<not> red_root f t"
  shows "2 ^ height t \<le> (size t + 1) ^ 2"
proof -
  have "2 ^ height t \<le> (2 :: nat) ^ (2 * bheight f t)"
    using height_bheight [OF assms(1)] assms(2) by (intro power_increasing) auto
  also have "\<dots> = (2 ^ bheight f t) ^ 2" by (simp add: power_mult [symmetric] mult.commute)
  also have "\<dots> \<le> (size t + 1) ^ 2"
    using bheight_size [OF assms(1)] by (intro power_mono) (auto simp: size1_size)
  finally show ?thesis .
qed

section \<open>The loop after an insertion\<close>

abbreviation red :: "('k, 'v) omap \<Rightarrow> addr \<Rightarrow> bool" where
  "red s a \<equiv> is_red (node_at s a)"

text \<open>What the loops change are links and colours of nodes.\<close>

definition same_content :: "('k, 'v) omap \<Rightarrow> ('k, 'v) omap \<Rightarrow> bool" where
  "same_content s s' \<longleftrightarrow> omap_sentinel s' = omap_sentinel s \<and> omap_hdr_size s' = omap_hdr_size s \<and>
     red s' (omap_sentinel s) = red s (omap_sentinel s) \<and>
     (\<forall>x. node_key (node_at s' x) = node_key (node_at s x) \<and> node_el (node_at s' x) = node_el (node_at s x))"

lemma same_content_refl [simp]: "same_content s s"
  by (simp add: same_content_def)

lemma same_content_trans: "same_content s s' \<Longrightarrow> same_content s' s'' \<Longrightarrow> same_content s s''"
  by (simp add: same_content_def)

lemma same_data_content: "same_data s s' \<Longrightarrow> same_content s s'"
  by (simp add: same_data_def same_content_def)

lemma same_data_red: "same_data s s' \<Longrightarrow> red s' x = red s x"
  by (simp add: same_data_def)

lemma set_red_content: "p \<noteq> omap_sentinel s \<Longrightarrow> same_content s (set_red p b s)"
  by (simp add: same_content_def set_red_def)

lemma red_set_red: "red (set_red p b s) x = (if x = p then b else red s x)"
  by (simp add: set_red_def)

lemma set_red_simps [simp]:
  "omap_root (set_red p b s) = omap_root s" "omap_sentinel (set_red p b s) = omap_sentinel s"
  "node_parent (node_at (set_red p b s) x) = node_parent (node_at s x)"
  "children (node_at (set_red p b s) x) = children (node_at s x)"
  by (simp_all add: set_red_def)

lemma focus_set_red [simp]: "focus (set_red p b s) c q par t = focus s c q par t"
proof -
  have "\<forall>a \<in> A. same_links (node_at s a) (node_at (set_red p b s) a)" for A by (simp add: same_links_def)
  then show ?thesis unfolding focus_def set_red_simps
    using shape_cong [of t "omap_nodes s" "omap_nodes (set_red p b s)"] cshape_cong [of c "omap_nodes s" "omap_nodes (set_red p b s)"] by metis
qed

lemma root_in_path: "cshape h e root p par c \<Longrightarrow> c \<noteq> [] \<Longrightarrow> root \<in> path_set c"
proof (induction c arbitrary: p par)
  case (Cons x c)
  then show ?case by (cases x; cases c) auto
qed simp

text \<open>The last round: the upper red node \<open>x\<close> becomes black and takes the place of its parent \<open>g\<close>.\<close>

lemma insert_last_round:
  assumes f: "focus s ((d, g, u) # c) x g (mk d x Y Z)" and Y: "Y = mk d' y l r"
    and red: "red s x" "red s y" "\<not> red s g" "\<not> red_root (red s) u" "\<not> red_root (red s) Z"
    and bal: "balanced (red s) Y" "balanced (red s) Z" "bheight (red s) Y = n" "bheight (red s) Z = n"
      "path_balanced (red s) n ((d, g, u) # c)"
  defines "s1 \<equiv> cc_omap_rotate (set_red g True (set_red x False s)) g (\<not> d)"
  shows "node_parent (node_at s y) = x" "node_parent (node_at s x) = g"
    "insert_fixup_loop s1 y = Some s1" "same_content s s1"
    "\<exists>par. focus s1 c x par (mk d x Y (mk d g Z u))"
    "balanced (red s1) (plug c (mk d x Y (mk d g Z u)))"
proof -
  let ?s0 = "set_red g True (set_red x False s)"
  have x: "node_parent (node_at s x) = g" "node_parent (node_at s y) = x" "x \<noteq> omap_sentinel s" "g \<noteq> omap_sentinel s"
    using f Y by (auto simp: focus_def)
  then show "node_parent (node_at s y) = x" "node_parent (node_at s x) = g" by auto
  obtain par where "focus s c g par (mk d g (mk d x Y Z) u)" using focus_up [OF f] by blast
  moreover have "mk d g (mk d x Y Z) u = mk (\<not> d) g u (mk (\<not> d) x Z Y)" by (simp add: mk_def)
  ultimately have "focus ?s0 c g par (mk (\<not> d) g u (mk (\<not> d) x Z Y))" by simp
  note rot = focus_rotate [OF this, folded s1_def]
  have tree: "mk (\<not> d) x (mk (\<not> d) g u Z) Y = mk d x Y (mk d g Z u)" by (simp add: mk_def)
  then have f1: "focus s1 c x par (mk d x Y (mk d g Z u))" using rot(1) by simp
  then show "\<exists>par. focus s1 c x par (mk d x Y (mk d g Z u))" by blast
  have "same_content s ?s0" using x(3,4) by (intro same_content_trans [OF set_red_content set_red_content]) auto
  then show "same_content s s1" using same_data_content [OF rot(2)] same_content_trans by blast
  have dist: "distinct (inorder (plug ((d, g, u) # c) (mk d x Y Z)))" using f by (simp add: focus_def)
  have col: "red s1 z = (if z = g then True else if z = x then False else red s z)" for z
    unfolding same_data_red [OF rot(2)] by (simp add: red_set_red)
  have "x \<noteq> g" and nin: "x \<notin> path_set c" "g \<notin> path_set c" "{x, g} \<inter> set_tree Y = {}" "{x, g} \<inter> set_tree Z = {}" "{x, g} \<inter> set_tree u = {}"
    using dist by (auto simp: distinct_plug distinct_mk)
  have "node_parent (node_at s1 y) = x" using f1 Y by (auto simp: focus_def)
  moreover have "\<not> red s1 x" using col \<open>x \<noteq> g\<close> by simp
  ultimately show "insert_fixup_loop s1 y = Some s1" by (subst insert_fixup_loop.simps) (simp add: Let_def)
  have same: "\<forall>z \<in> A. red s1 z = red s z" if "{x, g} \<inter> A = {}" for A using that by (auto simp: col)
  have "balanced (red s1) (mk d x Y (mk d g Z u)) \<and> bheight (red s1) (mk d x Y (mk d g Z u)) = n + 1"
    using balance_cong [OF same [OF nin(3)]] balance_cong [OF same [OF nin(4)]] balance_cong [OF same [OF nin(5)]] bal red
    by (simp add: col \<open>x \<noteq> g\<close>)
  moreover have "path_balanced (red s1) (n + 1) c"
    using bal(5) red(3) path_balance_cong(1) [OF same, of c] nin(1,2) by simp
  ultimately have "balanced (red s1) (plug c (mk d x Y (mk d g Z u))) \<and> \<not> red_root (red s1) (plug c (mk d x Y (mk d g Z u)))"
    unfolding balanced_plug using \<open>x \<noteq> g\<close> by (simp add: col)
  then show "balanced (red s1) (plug c (mk d x Y (mk d g Z u)))" by blast
qed

lemma focus_plug: "focus s c p par t \<Longrightarrow> focus s [] (omap_root s) (omap_sentinel s) (plug c t)"
  by (auto simp: focus_def intro: shape_plugI)

lemma focus_not_root: "focus s c p par (mk d p l r) \<Longrightarrow> c \<noteq> [] \<Longrightarrow> p \<noteq> omap_root s"
  using root_in_path [of "omap_nodes s" "omap_sentinel s" "omap_root s" p par c] by (auto simp: focus_def distinct_plug)

text \<open>The pointer to a tree is red exactly if its root is.\<close>

lemma red_pointer: "shape (omap_nodes s) e p par t \<Longrightarrow> \<not> red s e \<Longrightarrow> red s p = red_root (red s) t"
  by (cases t) auto

text \<open>A round that only changes colours.\<close>

lemma insert_recolour:
  assumes f: "focus s ((d, a, u) # (d2, g, u2) # c) p a T" and u2: "u2 = Node ul x ur"
    and red: "red s p" "red s a" "red s x" "T = mk d0 p l r" "\<not> red s g" "\<not> red_root (red s) u"
    and bal: "balanced (red s) T" "bheight (red s) T = n" "path_balanced (red s) n ((d, a, u) # (d2, g, u2) # c)"
  defines "s1 \<equiv> set_red g True (set_red x False (set_red a False s))"
  shows "\<exists>par. focus s1 c g par (mk d2 g (mk d a T u) u2)" "red s1 g" "same_content s s1"
    "balanced (red s1) (mk d a T u)" "balanced (red s1) u2" "\<not> red s1 a" "\<not> red_root (red s1) u2"
    "bheight (red s1) (mk d a T u) = n + 1" "bheight (red s1) u2 = n + 1" "path_balanced (red s1) (n + 1) c"
proof -
  have "focus s ((d2, g, u2) # c) a g (mk d a T u)" using focus_up [OF f] by (auto simp: focus_def)
  from focus_up [OF this] have fg: "focus s c g (node_parent (node_at s g)) (mk d2 g (mk d a T u) u2)" by blast
  then show "\<exists>par. focus s1 c g par (mk d2 g (mk d a T u) u2)" unfolding s1_def by auto
  have e: "a \<noteq> omap_sentinel s" "g \<noteq> omap_sentinel s" "x \<noteq> omap_sentinel s" using fg u2 by (auto simp: focus_def)
  then show "same_content s s1" unfolding s1_def
    by (intro same_content_trans [OF set_red_content same_content_trans [OF set_red_content set_red_content]]) auto
  have dist: "distinct (inorder (plug c (mk d2 g (mk d a T u) u2)))" using fg by (simp add: focus_def)
  then have ne: "a \<noteq> g" "a \<noteq> x" "g \<noteq> x" and nin: "{a, g, x} \<inter> set_tree T = {}" "{a, g, x} \<inter> set_tree u = {}"
    "{a, g, x} \<inter> path_set c = {}" "{a, g, x} \<inter> set_tree ul = {}" "{a, g, x} \<inter> set_tree ur = {}"
    by (auto simp: u2 distinct_plug distinct_mk)
  have col: "red s1 z = (if z = g then True else if z \<in> {a, x} then False else red s z)" for z
    unfolding s1_def by (simp add: red_set_red)
  then have at: "red s1 g" "\<not> red s1 a" "\<not> red s1 x" using ne by simp_all
  then show "red s1 g" "\<not> red s1 a" "\<not> red_root (red s1) u2" by (simp_all add: u2)
  have same: "\<forall>z \<in> A. red s1 z = red s z" if "{a, g, x} \<inter> A = {}" for A using that by (auto simp: col)
  note cong = balance_cong [OF same [OF nin(1)]] balance_cong [OF same [OF nin(2)]]
    balance_cong [OF same [OF nin(4)]] balance_cong [OF same [OF nin(5)]] path_balance_cong [OF same [OF nin(3)]]
  show "balanced (red s1) (mk d a T u)" "balanced (red s1) u2" "path_balanced (red s1) (n + 1) c"
    using bal red(1-3,5,6) at by (simp_all add: cong u2)
  show "bheight (red s1) (mk d a T u) = n + 1" "bheight (red s1) u2 = n + 1"
    using bal red(1-3,5,6) at by (simp_all add: cong u2)
qed

text \<open>A round of the loop at a node with a red parent, in terms of the path.\<close>

lemma insert_round:
  assumes f: "focus s ((d, a, u) # (d2, g, u2) # c) p a (mk d0 p l r)" and red: "red s a" "\<not> red s (omap_sentinel s)"
  shows "insert_fixup_loop s p =
    (if red_root (red s) u2
     then insert_fixup_loop (set_red g True (set_red (children (node_at s g) (\<not> d2)) False (set_red a False s))) g
     else let (s, node) = (if d \<noteq> d2 then (cc_omap_rotate s a d2, a) else (s, p));
              s = set_red (node_parent (node_at s node)) False s;
              s = set_red (node_parent (node_at s (node_parent (node_at s node)))) True s
          in insert_fixup_loop (cc_omap_rotate s (node_parent (node_at s (node_parent (node_at s node)))) (\<not> d2)) node)"
    and "focus s ((d2, g, u2) # c) a g (mk d a (mk d0 p l r) u)"
proof -
  have dist: "distinct (inorder (plug ((d, a, u) # (d2, g, u2) # c) (mk d0 p l r)))" using f by (simp add: focus_def)
  show fg: "focus s ((d2, g, u2) # c) a g (mk d a (mk d0 p l r) u)" using focus_up [OF f] by (auto simp: focus_def)
  have links: "node_parent (node_at s p) = a" "node_parent (node_at s a) = g" using f fg by (auto simp: focus_def)
  have nin: "a \<notin> set_tree u2" "p \<notin> set_tree u" using dist by (auto simp: distinct_plug distinct_mk)
  have ng: "a \<noteq> omap_sentinel s" "p \<noteq> omap_sentinel s" using fg f by (simp_all add: focus_def)
  have dir: "(a = children (node_at s g) False) = (\<not> d2)"
    using side_of(2) [of "omap_nodes s" "omap_sentinel s" "omap_root s" a g d2 g u2 c] fg ng nin by (simp add: focus_def)
  have pd: "(p = children (node_at s a) (\<not> d2)) = (d \<noteq> d2)"
    using side_of [of "omap_nodes s" "omap_sentinel s" "omap_root s" p a d a u "(d2, g, u2) # c"] f nin ng
    by (cases d2) (auto simp: focus_def)
  have "shape (omap_nodes s) (omap_sentinel s) (children (node_at s g) (\<not> d2)) g u2" using fg by (simp add: focus_def)
  then have uncle: "red s (children (node_at s g) (\<not> d2)) = red_root (red s) u2" using red_pointer red(2) by blast
  have not_root: "p \<noteq> omap_root s" using focus_not_root [OF f] by simp
  show "insert_fixup_loop s p =
    (if red_root (red s) u2
     then insert_fixup_loop (set_red g True (set_red (children (node_at s g) (\<not> d2)) False (set_red a False s))) g
     else let (s, node) = (if d \<noteq> d2 then (cc_omap_rotate s a d2, a) else (s, p));
              s = set_red (node_parent (node_at s node)) False s;
              s = set_red (node_parent (node_at s (node_parent (node_at s node)))) True s
          in insert_fixup_loop (cc_omap_rotate s (node_parent (node_at s (node_parent (node_at s node)))) (\<not> d2)) node)"
    using not_root red(1) pd by (simp add: insert_fixup_loop.simps [of s p] Let_def links dir uncle)
qed

text \<open>The two rounds with rotations: a node on the inner side of its parent is first rotated to the outer side.\<close>

lemma insert_rotations:
  assumes f: "focus s ((d, a, u) # (d2, g, u2) # c) p a (mk d0 p l r)" and red: "red s a" "red s p" "\<not> red s (omap_sentinel s)"
    and u2: "\<not> red_root (red s) u2" and T: "balanced (red s) (mk d0 p l r)" "bheight (red s) (mk d0 p l r) = n"
    and bal: "path_balanced (red s) n ((d, a, u) # (d2, g, u2) # c)"
  shows "\<exists>s' t'. insert_fixup_loop s p = Some s' \<and> focus s' [] (omap_root s') (omap_sentinel s') t' \<and>
    inorder t' = inorder (plug ((d, a, u) # (d2, g, u2) # c) (mk d0 p l r)) \<and> balanced (red s') t' \<and> same_content s s'"
proof -
  let ?T = "mk d0 p l r"
  note fg = insert_round(2) [OF f red(1,3)]
  have g: "\<not> red s g" "\<not> red_root (red s) u" "balanced (red s) u" "bheight (red s) u = n"
    "path_balanced (red s) n ((d2, g, u2) # c)" using bal red(1) by auto
  show ?thesis
  proof (cases "d = d2")
    case True
    note lr = insert_last_round [OF fg [unfolded True] refl red(1,2) g(1) u2 g(2) T(1) g(3) T(2) g(4,5)]
    have "insert_fixup_loop s p = Some (cc_omap_rotate (set_red g True (set_red a False s)) g (\<not> d2))"
      using lr(3) u2 True by (simp add: insert_round(1) [OF f red(1,3)] lr(1,2))
    moreover have "inorder (plug c (mk d2 a ?T (mk d2 g u u2))) = inorder (plug ((d, a, u) # (d2, g, u2) # c) ?T)"
      using True by (simp add: inorder_plug mk_def)
    ultimately show ?thesis using lr(4,5,6) focus_plug by metis
  next
    case False
    define B C where "B = (if d0 = d2 then l else r)" and "C = (if d0 = d2 then r else l)"
    have BC: "?T = mk d2 p B C" by (auto simp: mk_def B_def C_def)
    have "mk d a ?T u = mk d2 a u (mk d2 p B C)" using False unfolding BC by (auto simp: mk_def)
    note rot = focus_rotate [OF fg [unfolded this]]
    define s0 where "s0 = cc_omap_rotate s a d2"
    have f0: "focus s0 ((d2, g, u2) # c) p g (mk d2 p (mk d2 a u B) C)" and same: "same_data s s0"
      using rot unfolding s0_def by blast+
    have col: "red s0 = red s" using same_data_red [OF same] by (simp add: fun_eq_iff)
    have BC': "balanced (red s) B" "balanced (red s) C" "bheight (red s) B = n" "bheight (red s) C = n"
      "\<not> red_root (red s) B" "\<not> red_root (red s) C" using T red(2) unfolding BC by auto
    note lr = insert_last_round [OF f0 refl, unfolded col same_data_red [OF same], OF red(2,1) g(1) u2 BC'(6) _ BC'(2) _ BC'(4) g(5)]
    have Y: "balanced (red s) (mk d2 a u B)" "bheight (red s) (mk d2 a u B) = n" using g BC' red(1) by auto
    note lr = lr [OF Y]
    have "insert_fixup_loop s p = Some (cc_omap_rotate (set_red g True (set_red p False s0)) g (\<not> d2))"
      using lr(3) u2 False lr(1,2) by (simp add: insert_round(1) [OF f red(1,3)] s0_def [symmetric])
    moreover have "inorder (plug c (mk d2 p (mk d2 a u B) (mk d2 g C u2))) = inorder (plug ((d, a, u) # (d2, g, u2) # c) ?T)"
      using False unfolding BC by (auto simp: inorder_plug mk_def)
    ultimately show ?thesis using lr(4,5,6) focus_plug same_content_trans [OF same_data_content [OF same]] by metis
  qed
qed

lemma insert_fixup_loop_balances:
  assumes "focus s c p par (mk d0 p l r)" "red s p" "\<not> red s (omap_sentinel s)"
    and "balanced (red s) l" "balanced (red s) r" "\<not> red_root (red s) l" "\<not> red_root (red s) r"
    and "bheight (red s) l = n" "bheight (red s) r = n" "path_balanced (red s) n c"
  shows "\<exists>s' t'. insert_fixup_loop s p = Some s' \<and> focus s' [] (omap_root s') (omap_sentinel s') t' \<and>
    inorder t' = inorder (plug c (mk d0 p l r)) \<and> balanced (red s') t' \<and> same_content s s'"
  using assms
proof (induction "length c" arbitrary: s c p par d0 l r n rule: less_induct)
  case less
  let ?T = "mk d0 p l r"
  have T: "balanced (red s) ?T" "bheight (red s) ?T = n" using less(3-) by simp_all
  have stop: ?case if "insert_fixup_loop s p = Some s" "balanced (red s) (plug c ?T)"
    using that focus_plug [OF less(2)] by (intro exI [of _ s] exI [of _ "plug c ?T"]) simp
  show ?case
  proof (cases c)
    case Nil
    then have "p = omap_root s" using less(2) by (simp add: focus_def)
    then have "insert_fixup_loop s p = Some s" by (subst insert_fixup_loop.simps) (simp add: Let_def)
    then show ?thesis using stop T(1) Nil by simp
  next
    case (Cons f1 c1)
    obtain d a u where f1: "f1 = (d, a, u)" by (cases f1) auto
    note fa = focus_up [OF less(2) [unfolded Cons f1]]
    have par: "par = a" "node_parent (node_at s p) = a" using fa less(2) by (auto simp: focus_def)
    show ?thesis
    proof (cases "red s a")
      case False
      have "balanced (red s) (plug c ?T)"
        using balanced_plug [of "red s" c ?T] T less(11) False Cons f1 by simp
      moreover have "insert_fixup_loop s p = Some s"
        using False par(2) by (subst insert_fixup_loop.simps) (simp add: Let_def)
      ultimately show ?thesis by (rule stop [rotated])
    next
      case True
      have "c1 \<noteq> []" using less(11) Cons f1 True by simp
      then obtain d2 g u2 c2 where c1: "c1 = (d2, g, u2) # c2" by (cases c1) auto
      note f2 = less(2) [unfolded Cons f1 c1 par(1)]
      have g: "\<not> red s g" "\<not> red_root (red s) u" using less(11) Cons f1 c1 True by auto
      show ?thesis
      proof (cases "red_root (red s) u2")
        case True
        then obtain ul x ur where u2: "u2 = Node ul x ur" by (cases u2) auto
        have x: "red s x" "children (node_at s g) (\<not> d2) = x"
          using True insert_round(2) [OF f2 \<open>red s a\<close> less(4)] u2 by (auto simp: focus_def)
        let ?s1 = "set_red g True (set_red x False (set_red a False s))"
        note rc = insert_recolour [OF f2 u2 less(3) \<open>red s a\<close> x(1) refl g T less(11) [unfolded Cons f1 c1]]
        obtain par' where f': "focus ?s1 c2 g par' (mk d2 g (mk d a ?T u) u2)" using rc(1) by blast
        have "\<exists>s' t'. insert_fixup_loop ?s1 g = Some s' \<and> focus s' [] (omap_root s') (omap_sentinel s') t' \<and>
            inorder t' = inorder (plug c2 (mk d2 g (mk d a ?T u) u2)) \<and> balanced (red s') t' \<and> same_content ?s1 s'"
          by (rule less(1) [OF _ f', where n = "n + 1"]) (use rc less(4) Cons c1 in \<open>auto simp: same_content_def\<close>)
        moreover have "insert_fixup_loop s p = insert_fixup_loop ?s1 g"
          using insert_round(1) [OF f2 \<open>red s a\<close> less(4)] x True by simp
        ultimately show ?thesis using same_content_trans [OF rc(3)] Cons f1 c1 by auto
      next
        case False
        show ?thesis
          using insert_rotations [OF f2 True less(3,4) False T less(11) [unfolded Cons f1 c1]] Cons f1 c1 by simp
      qed
    qed
  qed
qed

end
