(* ===== verification/Omap_Correct.thy ===== *)
theory Omap_Correct
  imports Omap_Insert
begin

text \<open>
  The ordered map as a map: what a lookup finds and what an insertion changes. The comparison of keys is a
  parameter with a contract, the locale \<open>key_order\<close>; the comparison of the kernel's keys keeps it.
\<close>

section \<open>The contract of the comparison\<close>

locale key_order =
  fixes cmpr :: "'k::linorder \<Rightarrow> 'k \<Rightarrow> int"
  assumes cmpr_zero: "cmpr a b = 0 \<longleftrightarrow> a = b"
    and cmpr_pos: "cmpr a b > 0 \<longleftrightarrow> b < a"

interpretation int_order: key_order cc_cmpr_int_three_way
  by unfold_locales (auto simp: cc_cmpr_int_three_way_def)

section \<open>The invariant\<close>

abbreviation key_at :: "('k, 'v) omap \<Rightarrow> addr \<Rightarrow> 'k" where
  "key_at s a \<equiv> node_key (node_at s a)"

definition entries :: "('k, 'v) omap \<Rightarrow> addr tree \<Rightarrow> ('k \<times> 'v) list" where
  "entries s t = map (\<lambda>a. (key_at s a, node_el (node_at s a))) (inorder t)"

text \<open>The map holds the tree of nodes \<open>t\<close>: a balanced search tree with a black root, counted in the header.\<close>

definition holds :: "('k::linorder, 'v) omap \<Rightarrow> addr tree \<Rightarrow> bool" where
  "holds s t \<longleftrightarrow> focus s [] (omap_root s) (omap_sentinel s) t \<and> sorted_wrt (<) (map (key_at s) (inorder t)) \<and>
     balanced (red s) t \<and> \<not> red_root (red s) t \<and> \<not> red s (omap_sentinel s) \<and> cc_omap_size s = size t"

lemma find_append: "find P (xs @ ys) = (case find P xs of None \<Rightarrow> find P ys | Some x \<Rightarrow> Some x)"
  by (induction xs) auto

lemma map_of_sorted:
  assumes "sorted_wrt (<) (map fst xs)" "(k :: 'k :: linorder, v) \<in> set xs"
  shows "map_of xs k = Some v"
proof -
  have "distinct (map fst xs)" using assms(1) strict_sorted_iff by blast
  then show ?thesis using assms(2) by simp
qed

lemma entries_at:
  fixes s :: "('k::linorder, 'v) omap"
  assumes "sorted_wrt (<) (map (key_at s) (inorder t))" "a \<in> set_tree t"
  shows "map_of (entries s t) (key_at s a) = Some (node_el (node_at s a))"
  by (rule map_of_sorted) (use assms in \<open>auto simp: entries_def comp_def\<close>)

lemma entries_none: "map_of (entries s t) k = None \<longleftrightarrow> (\<forall>a \<in> set_tree t. key_at s a \<noteq> k)"
  by (auto simp: entries_def map_of_eq_None_iff image_image)

text \<open>The keys in front of the end of the path are below \<open>key\<close>, those behind it above.\<close>

definition between :: "('k::linorder, 'v) omap \<Rightarrow> path \<Rightarrow> 'k \<Rightarrow> bool" where
  "between s c key \<longleftrightarrow> (\<forall>a \<in> set (path_before c). key_at s a < key) \<and> (\<forall>a \<in> set (path_behind c). key < key_at s a)"

lemma sorted_mk:
  assumes "sorted_wrt (<) (map (key_at s) (inorder (Node l a r)))"
  shows "\<forall>b \<in> set_tree l. key_at s b < key_at s a" "\<forall>b \<in> set_tree r. key_at s a < key_at s b"
    "sorted_wrt (<) (map (key_at s) (inorder l))" "sorted_wrt (<) (map (key_at s) (inorder r))"
  using assms by (auto simp: sorted_wrt_append)

text \<open>One step of a descent: towards the side on which the key must be.\<close>

lemma between_step:
  assumes "sorted_wrt (<) (map (key_at s) (inorder (Node l a r)))" "between s c key" "key \<noteq> key_at s a"
  shows "between s ((key_at s a < key, a, if key_at s a < key then l else r) # c) key"
  using assms sorted_mk [OF assms(1)] by (auto simp: between_def)

lemma focus_step: "focus s c p par (Node l a r) \<Longrightarrow>
    p = a \<and> a \<noteq> omap_sentinel s \<and> focus s ((d, a, if d then l else r) # c) (children (node_at s a) d) a (if d then r else l)"
  by (cases d) (auto simp: focus_def mk_def)

context key_order
begin

lemma cmpr_neg: "cmpr a b < 0 \<longleftrightarrow> a < b"
  using cmpr_zero [of a b] cmpr_pos [of a b] by (metis linorder_neqE linorder_not_less order_less_imp_not_less not_less_iff_gr_or_eq)

text \<open>The search finds the node with the key, or the place where it belongs.\<close>

lemma insert_search:
  assumes "focus s c p par t" "sorted_wrt (<) (map (key_at s) (inorder t))" "between s c key"
    and "c \<noteq> [] \<Longrightarrow> (0 < res) = fst (hd c)"
  shows "(\<exists>a \<in> set_tree t. key_at s a = key \<and> insert_search_loop cmpr key s p par res = Some (Inl a)) \<or>
    (\<exists>c' par' res'. (\<forall>a \<in> set_tree t. key_at s a \<noteq> key) \<and> insert_search_loop cmpr key s p par res = Some (Inr (par', res')) \<and>
       plug c' Leaf = plug c t \<and> focus s c' (omap_sentinel s) par' Leaf \<and> between s c' key \<and>
       (c' \<noteq> [] \<longrightarrow> (0 < res') = fst (hd c')))"
  using assms
proof (induction t arbitrary: c p par res)
  case Leaf
  then have "insert_search_loop cmpr key s p par res = Some (Inr (par, res))"
    by (subst insert_search_loop.simps) (simp add: focus_def)
  moreover have "p = omap_sentinel s" using Leaf(1) by (simp add: focus_def)
  ultimately show ?case using Leaf by (intro disjI2 exI [of _ c] exI [of _ par] exI [of _ res]) auto
next
  case (Node l a r)
  define d where "d = (key_at s a < key)"
  note st = focus_step [OF Node(3), of d]
  show ?case
  proof (cases "key_at s a = key")
    case True
    then have "insert_search_loop cmpr key s p par res = Some (Inl a)"
      using st cmpr_zero by (subst insert_search_loop.simps) (simp add: Let_def)
    then show ?thesis using True by auto
  next
    case False
    let ?c = "(d, a, if d then l else r) # c"
    let ?t = "if d then r else l"
    have step: "insert_search_loop cmpr key s p par res =
        insert_search_loop cmpr key s (children (node_at s a) d) a (cmpr key (key_at s a))"
      using st False cmpr_zero [of key "key_at s a"] cmpr_pos [of key "key_at s a"]
      by (subst insert_search_loop.simps) (auto simp: Let_def d_def)
    have b: "between s ?c key" using between_step [OF Node(4,5)] False unfolding d_def by auto
    have srt: "sorted_wrt (<) (map (key_at s) (inorder ?t))" using sorted_mk [OF Node(4)] by auto
    have res: "(0 < cmpr key (key_at s a)) = d" using cmpr_pos by (simp add: d_def)
    have other: "\<forall>x \<in> set_tree (if d then l else r). key_at s x \<noteq> key"
      using sorted_mk(1,2) [OF Node(4)] False unfolding d_def by (metis order.asym order_less_imp_not_eq2 not_less_iff_gr_or_eq)
    have pl: "plug ?c ?t = plug c (Node l a r)" by (simp add: mk_def)
    note IH = Node(1) [of "(False, a, r) # c" "children (node_at s a) False" a "cmpr key (key_at s a)"]
      Node(2) [of "(True, a, l) # c" "children (node_at s a) True" a "cmpr key (key_at s a)"]
    have "(\<exists>x \<in> set_tree ?t. key_at s x = key \<and> insert_search_loop cmpr key s p par res = Some (Inl x)) \<or>
      (\<exists>c' par' res'. (\<forall>x \<in> set_tree ?t. key_at s x \<noteq> key) \<and> insert_search_loop cmpr key s p par res = Some (Inr (par', res')) \<and>
       plug c' Leaf = plug ?c ?t \<and> focus s c' (omap_sentinel s) par' Leaf \<and> between s c' key \<and>
       (c' \<noteq> [] \<longrightarrow> (0 < res') = fst (hd c')))"
      unfolding step using IH st srt b res by (cases d) (simp_all del: plug.simps)
    moreover have all: "(\<forall>x \<in> set_tree (Node l a r). key_at s x \<noteq> key) = (\<forall>x \<in> set_tree ?t. key_at s x \<noteq> key)"
      using False other by (cases d) auto
    moreover have "set_tree ?t \<subseteq> set_tree (Node l a r)" by auto
    ultimately show ?thesis unfolding pl all by blast
  qed
qed

text \<open>A lookup returns the element with the key, or null.\<close>

lemma get_loop_spec:
  assumes "shape (omap_nodes s) (omap_sentinel s) p par t" "sorted_wrt (<) (map (key_at s) (inorder t))"
  shows "get_loop cmpr key s p = Some (case find (\<lambda>a. key_at s a = key) (inorder t) of None \<Rightarrow> 0 | Some a \<Rightarrow> cc_omap_el a)"
  using assms
proof (induction t arbitrary: p par)
  case Leaf
  then show ?case by (subst get_loop.simps) simp
next
  case (Node l a r)
  note srt = sorted_mk [OF Node(4)]
  define d where "d = (key_at s a < key)"
  have none: "find (\<lambda>a. key_at s a = key) xs = None" if "\<forall>x \<in> set xs. key_at s x \<noteq> key" for xs
    using that by (simp add: find_None_iff)
  show ?case
  proof (cases "key_at s a = key")
    case True
    have "find (\<lambda>a. key_at s a = key) (inorder l) = None" by (rule none) (use srt True in force)
    then show ?thesis using Node(3) True cmpr_zero by (subst get_loop.simps) (simp add: Let_def find_append)
  next
    case False
    have step: "get_loop cmpr key s p = get_loop cmpr key s (children (node_at s a) d)"
      using Node(3) False cmpr_zero [of key "key_at s a"] cmpr_pos [of key "key_at s a"]
      by (subst get_loop.simps) (auto simp: Let_def d_def)
    have "find (\<lambda>a. key_at s a = key) (inorder (Node l a r)) = find (\<lambda>a. key_at s a = key) (inorder (if d then r else l))"
    proof (cases d)
      case True
      have "find (\<lambda>a. key_at s a = key) (inorder l) = None" by (rule none) (use srt True d_def in force)
      then show ?thesis using True False by (simp add: find_append)
    next
      case False
      have "find (\<lambda>a. key_at s a = key) (inorder r) = None" by (rule none) (use srt False d_def in force)
      then show ?thesis using False \<open>key_at s a \<noteq> key\<close> by (simp add: find_append split: option.splits)
    qed
    then show ?thesis using step Node(1) [of "children (node_at s a) False" a] Node(2) [of "children (node_at s a) True" a] Node(3) srt
      by (cases d) auto
  qed
qed

text \<open>The bounded lookup finds the first key at or above the given one, or the last at or below it.\<close>

lemma bounded_loop_spec:
  assumes "shape (omap_nodes s) (omap_sentinel s) p par t" "sorted_wrt (<) (map (key_at s) (inorder t))"
  shows "bounded_loop cmpr key s dir p result =
    Some (case find (\<lambda>a. if dir then key \<le> key_at s a else key_at s a \<le> key) (if dir then inorder t else rev (inorder t)) of
            None \<Rightarrow> result | Some a \<Rightarrow> cc_omap_el a)"
  using assms
proof (induction t arbitrary: p par result)
  case Leaf
  then show ?case by (subst bounded_loop.simps) simp
next
  case (Node l a r)
  note srt = sorted_mk [OF Node(4)]
  let ?P = "\<lambda>a. if dir then key \<le> key_at s a else key_at s a \<le> key"
  have none: "find ?P xs = None" if "\<forall>x \<in> set xs. \<not> ?P x" for xs using that by (simp add: find_None_iff)
  have a: "p = a" "a \<noteq> omap_sentinel s" using Node(3) by auto
  consider "key_at s a = key" | "key < key_at s a" | "key_at s a < key" by fastforce
  then show ?case
  proof cases
    case 1
    have "find ?P (if dir then inorder l else rev (inorder r)) = None" by (rule none) (use srt(1,2) 1 in \<open>auto simp: not_le\<close>)
    then show ?thesis using a 1 cmpr_zero by (subst bounded_loop.simps) (auto simp: Let_def find_append split: if_splits)
  next
    case 2
    have step: "bounded_loop cmpr key s dir p result =
        bounded_loop cmpr key s dir (children (node_at s a) False) (if dir then cc_omap_el a else result)"
      using a 2 cmpr_zero [of "key_at s a" key] cmpr_pos [of "key_at s a" key] by (subst bounded_loop.simps) (auto simp: Let_def)
    have "find ?P (rev (inorder r)) = None" if "\<not> dir" by (rule none) (use srt 2 that in force)
    then show ?thesis using step Node(1) [of "children (node_at s a) False" a] Node(3) srt(3) 2
      by (cases dir) (auto simp: find_append split: option.splits)
  next
    case 3
    have step: "bounded_loop cmpr key s dir p result =
        bounded_loop cmpr key s dir (children (node_at s a) True) (if dir then result else cc_omap_el a)"
      using a 3 cmpr_zero [of "key_at s a" key] cmpr_neg [of "key_at s a" key] by (subst bounded_loop.simps) (auto simp: Let_def)
    have "find ?P (inorder l) = None" if dir by (rule none) (use srt 3 that in force)
    then show ?thesis using step Node(2) [of "children (node_at s a) True" a] Node(3) srt(4) 3
      by (cases dir) (auto simp: find_append split: option.splits)
  qed
qed

end

section \<open>Insertion\<close>

text \<open>The state in which the loop after an insertion starts.\<close>

definition link_new :: "('k, 'v) omap \<Rightarrow> addr \<Rightarrow> addr \<Rightarrow> bool \<Rightarrow> 'k \<Rightarrow> 'v \<Rightarrow> ('k, 'v) omap" where
  "link_new s new par d key el =
     (let s = s\<lparr>omap_nodes := (omap_nodes s)(new :=
                \<lparr>is_red = True, node_parent = par, children = (\<lambda>_. omap_sentinel s), node_key = key, node_el = el\<rparr>)\<rparr>
      in if par \<noteq> omap_sentinel s then set_child par d new s else s\<lparr>omap_root := new\<rparr>)"

lemma link_new_simps:
  "omap_sentinel (link_new s new par d key el) = omap_sentinel s"
  "omap_hdr_size (link_new s new par d key el) = omap_hdr_size s"
  "x \<noteq> new \<Longrightarrow> red (link_new s new par d key el) x = red s x"
  "x \<noteq> new \<Longrightarrow> key_at (link_new s new par d key el) x = key_at s x"
  "x \<noteq> new \<Longrightarrow> node_el (node_at (link_new s new par d key el) x) = node_el (node_at s x)"
  "key_at (link_new s new par d key el) new = key" "node_el (node_at (link_new s new par d key el) new) = el"
  "red (link_new s new par d key el) new"
  by (auto simp: link_new_def Let_def set_child_def)

lemma focus_link_new:
  assumes f: "focus s c (omap_sentinel s) par Leaf" and new: "new \<noteq> omap_sentinel s" "new \<notin> path_set c"
    and d: "c \<noteq> [] \<Longrightarrow> d = fst (hd c)"
  shows "focus (link_new s new par d key el) c new par (mk True new Leaf Leaf)"
proof -
  let ?s = "link_new s new par d key el"
  have c: "cshape (omap_nodes s) (omap_sentinel s) (omap_root s) (omap_sentinel s) par c" "path_distinct c"
    using f by (auto simp: focus_def distinct_plug)
  have par: "par = omap_sentinel s \<longleftrightarrow> c = []" "par \<noteq> omap_sentinel s \<Longrightarrow> par \<in> path_set c"
    using c(1) by (cases c; auto)+
  have "par \<noteq> new" using par new by (cases "c = []") auto
  have "cshape (omap_nodes ?s) (omap_sentinel s) (omap_root ?s) new par c"
  proof (rule cshape_rehang [OF c])
    show "omap_root ?s = (if par = omap_sentinel s then new else omap_root s)" by (simp add: link_new_def Let_def set_child_def)
    show "node_parent (node_at ?s par) = node_parent (node_at s par) \<and>
        children (node_at ?s par) = (children (node_at s par))(fst (hd c) := new)" if "par \<noteq> omap_sentinel s"
      using that \<open>par \<noteq> new\<close> d par(1) by (simp add: link_new_def Let_def set_child_def)
    show "\<forall>a \<in> path_set c - {par}. same_links (node_at s a) (node_at ?s a)"
      using new(2) by (auto simp: link_new_def Let_def set_child_def same_links_def)
  qed
  moreover have "shape (omap_nodes ?s) (omap_sentinel s) new par (mk True new Leaf Leaf)"
    using new(1) \<open>par \<noteq> new\<close> by (simp add: link_new_def Let_def set_child_def)
  ultimately show ?thesis using new(2) c(2) by (auto simp: focus_def link_new_simps distinct_plug distinct_mk)
qed

text \<open>The new node is in its place in the order of the nodes, and the tree is balanced again.\<close>

lemma insert_fixup_new:
  assumes f: "focus s c (omap_sentinel s) par Leaf" and new: "new \<noteq> omap_sentinel s" "new \<notin> path_set c"
    and d: "c \<noteq> [] \<Longrightarrow> d = fst (hd c)"
    and bal: "balanced (red s) (plug c Leaf)" "\<not> red_root (red s) (plug c Leaf)" "\<not> red s (omap_sentinel s)"
  shows "\<exists>s' t. cc_omap_post_insert_fixup (link_new s new par d key el) new = Some s' \<and>
    focus s' [] (omap_root s') (omap_sentinel s') t \<and> inorder t = path_before c @ [new] @ path_behind c \<and>
    balanced (red s') t \<and> \<not> red_root (red s') t \<and> same_content (link_new s new par d key el) s'"
proof -
  let ?s = "link_new s new par d key el"
  have "\<forall>a \<in> path_set c. red ?s a = red s a" using new(2) link_new_simps(3) by metis
  then have "path_balanced (red ?s) 0 c"
    using path_balance_cong(1) [of c "red ?s" "red s" 0] balanced_plug [of "red s" c Leaf] bal(1,2) by simp
  moreover have "\<not> red ?s (omap_sentinel ?s)" using bal(3) new(1) by (simp add: link_new_simps)
  ultimately obtain s1 t where s1: "insert_fixup_loop ?s new = Some s1" "focus s1 [] (omap_root s1) (omap_sentinel s1) t"
      "inorder t = inorder (plug c (mk True new Leaf Leaf))" "balanced (red s1) t" "same_content ?s s1"
    using insert_fixup_loop_balances [OF focus_link_new [OF f new d, of key el], where n = 0] by (auto simp: link_new_simps)
  let ?s' = "set_red (omap_root s1) False s1"
  have io: "inorder t = path_before c @ [new] @ path_behind c" using s1(3) by (simp add: inorder_plug mk_def)
  then have "t \<noteq> Leaf" by auto
  then have root: "omap_root s1 \<noteq> omap_sentinel s1" and rt: "\<And>l a r. t = Node l a r \<Longrightarrow> a = omap_root s1"
    using s1(2) by (cases t; auto simp: focus_def)+
  have "balanced (red ?s') t" "\<not> red_root (red ?s') t"
    using blacken_root [OF s1(4) rt, where g = "red ?s'"] s1(2) by (auto simp: focus_def red_set_red)
  moreover have "same_content ?s ?s'" using same_content_trans [OF s1(5) set_red_content [OF root]] .
  moreover have "cc_omap_post_insert_fixup ?s new = Some ?s'" using s1(1) by (simp add: cc_omap_post_insert_fixup_def)
  moreover have "focus ?s' [] (omap_root ?s') (omap_sentinel ?s') t" using s1(2) by simp
  ultimately show ?thesis using io by blast
qed

lemma sorted_insert_between:
  assumes srt: "sorted_wrt (<) (map (key_at s) (inorder (plug c Leaf)))" and b: "between s c key"
    and keys: "\<And>a. a \<in> set_tree (plug c Leaf) \<Longrightarrow> key_at s' a = key_at s a" "key_at s' new = key"
  shows "sorted_wrt (<) (map (key_at s') (path_before c @ [new] @ path_behind c))"
proof -
  have sub: "set (path_before c) \<union> set (path_behind c) = set_tree (plug c Leaf)"
    by (metis inorder.simps(1) inorder_plug append_Nil set_append set_inorder)
  have "map (key_at s') (path_before c @ [new] @ path_behind c) = map (key_at s) (path_before c) @ [key] @ map (key_at s) (path_behind c)"
    using keys sub by auto
  moreover have "sorted_wrt (<) (map (key_at s) (path_before c) @ [key] @ map (key_at s) (path_behind c))"
    using srt b by (auto simp: inorder_plug sorted_wrt_append between_def)
  ultimately show ?thesis by (simp only:)
qed

text \<open>What the nodes hold, when the links and colours of a map change and a node is added.\<close>

lemma map_of_insert_between:
  assumes "map_of (xs @ ys) k = None"
  shows "map_of (xs @ [(k, v)] @ ys) = (map_of (xs @ ys))(k \<mapsto> v)"
  using assms by (auto simp: fun_eq_iff map_add_def split: option.splits)

lemma size_inorder: "size t = length (inorder t)"
  by (induction t) auto

definition valid_header :: "('k, 'v) omap \<Rightarrow> ('k, 'v) omap" where
  "valid_header s = (if cc_omap_is_placeholder s then s\<lparr>omap_hdr_size := 0, omap_root := omap_sentinel s\<rparr> else s)"

lemma holds_valid_header:
  assumes "holds s t"
  shows "holds (valid_header s) t" "\<not> cc_omap_is_placeholder (valid_header s)" "entries (valid_header s) t = entries s t"
    "omap_nodes (valid_header s) = omap_nodes s" "omap_sentinel (valid_header s) = omap_sentinel s"
  using assms by (auto simp: holds_def valid_header_def focus_def cc_omap_size_def cc_omap_is_placeholder_def entries_def SIZE_MAX_def)

context key_order
begin

text \<open>Insertion of a key that is in the map: its element is replaced or not, as the caller wants.\<close>

lemma insert_present:
  assumes h: "holds s t" and np: "\<not> cc_omap_is_placeholder s" and a: "a \<in> set_tree t" "key_at s a = key"
    and s': "s' = (if replace then s\<lparr>omap_nodes := (omap_nodes s)(a := (node_at s a)\<lparr>node_key := key, node_el := el\<rparr>)\<rparr> else s)"
  shows "holds s' t" "map_of (entries s' t) = (map_of (entries s t))(key \<mapsto> (if replace then el else node_el (node_at s a)))"
proof -
  have same: "omap_root s' = omap_root s" "omap_sentinel s' = omap_sentinel s" "omap_hdr_size s' = omap_hdr_size s"
    "red s' x = red s x" "same_links (node_at s x) (node_at s' x)" "key_at s' x = key_at s x" for x
    using a(2) by (auto simp: s' same_links_def)
  have "focus s' [] (omap_root s') (omap_sentinel s') t"
    using h same(5) shape_cong [of t "omap_nodes s" "omap_nodes s'"] by (simp add: holds_def focus_def same)
  then show "holds s' t" using h by (auto simp: holds_def same cc_omap_size_def cc_omap_is_placeholder_def split: if_splits)
  have srt: "sorted_wrt (<) (map (key_at s) (inorder t))" using h by (simp add: holds_def)
  have inj: "x = a" if "x \<in> set_tree t" "key_at s x = key" for x
  proof -
    have "distinct (map (key_at s) (inorder t))" using srt strict_sorted_iff by blast
    then show ?thesis using that a by (simp add: distinct_map inj_on_def)
  qed
  show "map_of (entries s' t) = (map_of (entries s t))(key \<mapsto> (if replace then el else node_el (node_at s a)))"
  proof
    fix k
    show "map_of (entries s' t) k = ((map_of (entries s t))(key \<mapsto> (if replace then el else node_el (node_at s a)))) k"
    proof (cases "\<exists>x \<in> set_tree t. key_at s x = k")
      case True
      then obtain x where x: "x \<in> set_tree t" "key_at s x = k" by blast
      have "map_of (entries s' t) (key_at s' x) = Some (node_el (node_at s' x))"
        by (rule entries_at) (use srt x same(6) in simp_all)
      moreover have "map_of (entries s t) (key_at s x) = Some (node_el (node_at s x))" by (rule entries_at [OF srt x(1)])
      ultimately show ?thesis using x inj [OF x(1)] a(2) same(6) by (auto simp: s')
    next
      case False
      then have "map_of (entries s' t) k = None" "map_of (entries s t) k = None" "k \<noteq> key"
        using a same(6) unfolding entries_none by auto
      then show ?thesis by simp
    qed
  qed
qed

text \<open>Insertion of a new key.\<close>

lemma insert_new:
  assumes h: "holds s t" and np: "\<not> cc_omap_is_placeholder s" and room: "size t + 1 < SIZE_MAX"
    and pl: "plug c Leaf = t" and f: "focus s c (omap_sentinel s) par Leaf" and b: "between s c key"
    and d: "c \<noteq> [] \<Longrightarrow> d = fst (hd c)" and new: "new \<noteq> omap_sentinel s" "new \<notin> set_tree t"
  shows "\<exists>s' t'. cc_omap_post_insert_fixup (link_new s new par d key el) new = Some s' \<and>
    omap_sentinel s' = omap_sentinel s \<and>
    holds (s'\<lparr>omap_hdr_size := add64 (omap_hdr_size s') 1\<rparr>) t' \<and> set_tree t' = insert new (set_tree t) \<and>
    map_of (entries s' t') = (map_of (entries s t))(key \<mapsto> el) \<and> key_at s' new = key \<and> node_el (node_at s' new) = el \<and>
    (\<forall>a \<in> set_tree t. key_at s' a = key_at s a \<and> node_el (node_at s' a) = node_el (node_at s a))"
proof -
  have hs: "balanced (red s) t" "\<not> red_root (red s) t" "\<not> red s (omap_sentinel s)" "cc_omap_size s = size t"
      "sorted_wrt (<) (map (key_at s) (inorder t))" using h by (simp_all add: holds_def)
  have set: "set_tree t = path_set c" using set_plug [of c Leaf] pl by simp
  let ?s = "link_new s new par d key el"
  obtain s' t' where s': "cc_omap_post_insert_fixup ?s new = Some s'" "focus s' [] (omap_root s') (omap_sentinel s') t'"
      "inorder t' = path_before c @ [new] @ path_behind c" "balanced (red s') t'" "\<not> red_root (red s') t'" "same_content ?s s'"
    using insert_fixup_new [OF f new(1) _ d, of key el] new(2) hs(1-3) set pl by blast
  have e': "omap_sentinel s' = omap_sentinel s" "omap_hdr_size s' = omap_hdr_size s" "\<not> red s' (omap_sentinel s')"
    using s'(6) hs(3) new(1) by (simp_all add: same_content_def link_new_simps)
  have old: "key_at s' a = key_at s a \<and> node_el (node_at s' a) = node_el (node_at s a)" if "a \<in> set_tree t" for a
  proof -
    have "a \<noteq> new" using new(2) that by blast
    then show ?thesis using s'(6) by (simp add: same_content_def link_new_simps)
  qed
  have data: "key_at s' new = key" "node_el (node_at s' new) = el" using s'(6) by (auto simp: same_content_def link_new_simps)
  have io: "inorder t = path_before c @ path_behind c" using inorder_plug [of c Leaf] pl by simp
  have sett: "set_tree t = set (path_before c) \<union> set (path_behind c)" using arg_cong [OF io, of set] by simp
  have set': "set_tree t' = insert new (set_tree t)" using arg_cong [OF s'(3), of set] sett by auto
  have size': "size t' = size t + 1" using s'(3) io by (simp add: size_inorder)
  have srt': "sorted_wrt (<) (map (key_at s') (inorder t'))"
    unfolding s'(3) by (rule sorted_insert_between [of s c key]) (use hs(5) pl b old data in auto)
  have sz: "omap_hdr_size s = size t" using hs(4) np by (simp add: cc_omap_size_def)
  have add: "add64 (size t) 1 = size t + 1" using room by (simp add: add64_def wrap64_def SIZE_MAX_def)
  let ?s' = "s'\<lparr>omap_hdr_size := add64 (omap_hdr_size s') 1\<rparr>"
  have "holds ?s' t'"
    using s'(2,4,5) srt' e' sz size' room add by (simp add: holds_def focus_def cc_omap_size_def cc_omap_is_placeholder_def)
  moreover have "map_of (entries s' t') = (map_of (entries s t))(key \<mapsto> el)"
  proof -
    let ?e = "map (\<lambda>a. (key_at s a, node_el (node_at s a)))"
    have "entries s' t' = ?e (path_before c) @ [(key, el)] @ ?e (path_behind c)"
      using old data sett by (simp add: entries_def s'(3))
    moreover have "entries s t = ?e (path_before c) @ ?e (path_behind c)" by (simp add: entries_def io)
    moreover have "map_of (entries s t) key = None"
      unfolding entries_none sett using b by (auto simp: between_def)
    ultimately show ?thesis using map_of_insert_between [of "?e (path_before c)" "?e (path_behind c)" key el] by simp
  qed
  ultimately show ?thesis using s'(1) set' data old e'(1) by blast
qed

text \<open>
  Insertion returns. It fails when there is no memory, and then the entries are as before; otherwise the map is updated at the key, and the
  nodes of the other entries stay where they are.
\<close>

lemma insert_spec:
  assumes h: "holds s t" and room: "size t + 1 < SIZE_MAX"
    and fresh: "reall (sizeof_omapnode_hdr + bucket_size) \<notin> insert (omap_sentinel s) (set_tree t)"
  shows "\<exists>s' itr t'. cc_omap_insert s el key replace bucket_size cmpr reall = Some (s', itr) \<and> holds s' t' \<and>
    omap_sentinel s' = omap_sentinel s \<and>
    (if cc_omap_is_placeholder s \<and> reall sizeof_omap_hdr = 0 \<or>
        map_of (entries s t) key = None \<and> reall (sizeof_omapnode_hdr + bucket_size) = 0
     then itr = 0 \<and> t' = t \<and> entries s' t' = entries s t
     else itr \<noteq> 0 \<and> cc_omapnode_hdr itr \<in> set_tree t' \<and> key_at s' (cc_omapnode_hdr itr) = key \<and>
       (\<forall>a \<in> set_tree t. a \<in> set_tree t' \<and> key_at s' a = key_at s a \<and>
          (key_at s a \<noteq> key \<longrightarrow> node_el (node_at s' a) = node_el (node_at s a))) \<and>
       map_of (entries s' t') = (map_of (entries s t))
         (key \<mapsto> (case map_of (entries s t) key of None \<Rightarrow> el | Some v \<Rightarrow> if replace then el else v)))"
proof (cases "cc_omap_is_placeholder s \<and> reall sizeof_omap_hdr = 0")
  case True
  then have "cc_omap_insert s el key replace bucket_size cmpr reall = Some (s, 0)"
    by (simp add: cc_omap_insert_def cc_omap_alloc_hdr_def)
  then show ?thesis using h True by auto
next
  case False
  define v where "v = valid_header s"
  note hv = holds_valid_header [OF h, folded v_def]
  have ins: "cc_omap_insert s el key replace bucket_size cmpr reall =
      (case insert_search_loop cmpr key v (omap_root v) (omap_sentinel v) 0 of
         None \<Rightarrow> None
       | Some (Inl node) \<Rightarrow>
           Some (if replace
                 then v\<lparr>omap_nodes := (omap_nodes v)(node := (node_at v node)\<lparr>node_key := key, node_el := el\<rparr>)\<rparr>
                 else v, cc_omap_el node)
       | Some (Inr (parent, cmpr_result)) \<Rightarrow>
           let new_node = reall (sizeof_omapnode_hdr + bucket_size) in
           if new_node = 0 then Some (v, 0)
           else map_option (\<lambda>s. (s\<lparr>omap_hdr_size := add64 (omap_hdr_size s) 1\<rparr>, cc_omap_el new_node))
                  (cc_omap_post_insert_fixup (link_new v new_node parent (cmpr_result > 0) key el) new_node))"
  proof -
    have "(if cc_omap_is_placeholder s then cc_omap_alloc_hdr s reall else Some s) = Some v"
      using False by (auto simp: cc_omap_alloc_hdr_def v_def valid_header_def)
    then show ?thesis by (simp only: cc_omap_insert_def option.case link_new_def Let_def)
  qed
  have hvs: "focus v [] (omap_root v) (omap_sentinel v) t" "sorted_wrt (<) (map (key_at v) (inorder t))"
    using hv(1) by (auto simp: holds_def)
  have el0: "cc_omapnode_hdr (cc_omap_el a) = a" "cc_omap_el a \<noteq> 0" for a
    by (simp_all add: cc_omapnode_hdr_def cc_omap_el_def sizeof_omapnode_hdr_def)
  consider (present) a where "a \<in> set_tree t" "key_at v a = key"
      "insert_search_loop cmpr key v (omap_root v) (omap_sentinel v) 0 = Some (Inl a)"
    | (absent) c par res where "\<forall>a \<in> set_tree t. key_at v a \<noteq> key"
      "insert_search_loop cmpr key v (omap_root v) (omap_sentinel v) 0 = Some (Inr (par, res))"
      "plug c Leaf = t" "focus v c (omap_sentinel v) par Leaf" "between v c key" "c \<noteq> [] \<longrightarrow> (0 < res) = fst (hd c)"
    using insert_search [OF hvs, of key 0] by (auto simp: between_def)
  then show ?thesis
  proof cases
    case present
    let ?s' = "if replace then v\<lparr>omap_nodes := (omap_nodes v)(a := (node_at v a)\<lparr>node_key := key, node_el := el\<rparr>)\<rparr> else v"
    note pr = insert_present [OF hv(1,2) present(1,2) refl, of replace el]
    have some: "map_of (entries s t) key = Some (node_el (node_at s a))"
      using entries_at [OF hvs(2) present(1)] present(2) hv(3,4) by simp
    have "cc_omap_insert s el key replace bucket_size cmpr reall = Some (?s', cc_omap_el a)"
      unfolding ins using present(3) by simp
    moreover have "key_at ?s' x = key_at s x" "key_at s x \<noteq> key \<Longrightarrow> node_el (node_at ?s' x) = node_el (node_at s x)" for x
      using present(2) hv(4) by auto
    ultimately show ?thesis using pr present(1,2) some False el0 hv(3,4,5) by auto
  next
    case absent
    let ?new = "reall (sizeof_omapnode_hdr + bucket_size)"
    have none: "map_of (entries s t) key = None" using absent(1) hv(3,4) entries_none [of v t key] by simp
    show ?thesis
    proof (cases "?new = 0")
      case True
      then have "cc_omap_insert s el key replace bucket_size cmpr reall = Some (v, 0)" unfolding ins using absent(2) by simp
      then show ?thesis using True none hv by auto
    next
      case False
      obtain s' t' where s': "cc_omap_post_insert_fixup (link_new v ?new par (0 < res) key el) ?new = Some s'"
          "omap_sentinel s' = omap_sentinel v" "holds (s'\<lparr>omap_hdr_size := add64 (omap_hdr_size s') 1\<rparr>) t'"
          "set_tree t' = insert ?new (set_tree t)" "map_of (entries s' t') = (map_of (entries v t))(key \<mapsto> el)" "key_at s' ?new = key"
          "\<forall>a \<in> set_tree t. key_at s' a = key_at v a \<and> node_el (node_at s' a) = node_el (node_at v a)"
        using insert_new [OF hv(1,2) room absent(3,4,5), of "0 < res" ?new el] absent(6) fresh hv(5) by auto
      have "cc_omap_insert s el key replace bucket_size cmpr reall =
          Some (s'\<lparr>omap_hdr_size := add64 (omap_hdr_size s') 1\<rparr>, cc_omap_el ?new)"
        unfolding ins using absent(2) False s'(1) by (simp add: Let_def)
      moreover have "entries (s'\<lparr>omap_hdr_size := add64 (omap_hdr_size s') 1\<rparr>) t' = entries s' t'" by (simp add: entries_def)
      ultimately show ?thesis using s' none False \<open>\<not> (cc_omap_is_placeholder s \<and> _)\<close> el0 hv(3,4,5) by auto
    qed
  qed
qed

lemma get_spec:
  assumes "holds s t"
  shows "\<exists>itr. cc_omap_get s key cmpr = Some itr \<and>
    (case map_of (entries s t) key of
       None \<Rightarrow> itr = 0
     | Some v \<Rightarrow> itr \<noteq> 0 \<and> cc_omapnode_hdr itr \<in> set_tree t \<and> key_at s (cc_omapnode_hdr itr) = key \<and> node_el (node_at s (cc_omapnode_hdr itr)) = v)"
proof -
  have h: "shape (omap_nodes s) (omap_sentinel s) (omap_root s) (omap_sentinel s) t" "sorted_wrt (<) (map (key_at s) (inorder t))"
    using assms by (auto simp: holds_def focus_def)
  note get = get_loop_spec [OF h, of key, folded cc_omap_get_def]
  show ?thesis
  proof (cases "find (\<lambda>a. key_at s a = key) (inorder t)")
    case None
    then have "map_of (entries s t) key = None" unfolding entries_none by (auto simp: find_None_iff)
    then show ?thesis using get None by simp
  next
    case (Some a)
    then obtain i where "i < length (inorder t)" "key_at s a = key" "a = inorder t ! i"
      unfolding find_Some_iff by blast
    then have "a \<in> set_tree t" "key_at s a = key" using nth_mem [of i "inorder t"] by (simp_all only: set_inorder)
    then show ?thesis using get Some entries_at [OF h(2), of a]
      by (auto simp: cc_omap_el_def cc_omapnode_hdr_def sizeof_omapnode_hdr_def)
  qed
qed

end

end
