(* ===== verification/Omap_Properties.thy ===== *)
theory Omap_Properties
  imports Omap_Correct
begin

text \<open>
  The iterators of the ordered map, and its properties on the keys of the kernel: from the empty map on, insertions and lookups are those of a
  finite map, the tree stays balanced, and an iteration meets the keys in ascending order.
\<close>

section \<open>Iterators\<close>

text \<open>The iterator that follows, in the direction \<open>dir\<close>, between the nodes \<open>xs\<close> and \<open>ys\<close>.\<close>

definition neighbour :: "('k, 'v) omap \<Rightarrow> addr list \<Rightarrow> addr list \<Rightarrow> bool \<Rightarrow> addr" where
  "neighbour s xs ys dir =
     (let zs = (if dir then ys else rev xs) in if zs = [] then cc_omap_r_end_or_end s dir else cc_omap_el (hd zs))"

lemma descend_end:
  assumes "shape (omap_nodes s) (omap_sentinel s) p par t" "t \<noteq> Leaf"
  shows "descend_loop s dir p = Some (if dir then last (inorder t) else hd (inorder t))"
  using assms
proof (induction t arbitrary: p par)
  case (Node l a r)
  let ?t = "if dir then r else l"
  have a: "p = a" "shape (omap_nodes s) (omap_sentinel s) (children (node_at s a) dir) a ?t" using Node(3) by auto
  show ?case
  proof (cases "?t = Leaf")
    case True
    then have "descend_loop s dir p = Some a" using a by (subst descend_loop.simps) simp
    then show ?thesis using True by (auto split: if_splits)
  next
    case False
    then have "children (node_at s a) dir \<noteq> omap_sentinel s" using shape_pointer(1) [OF a(2)] by simp
    then have "descend_loop s dir p = descend_loop s dir (children (node_at s a) dir)"
      using a(1) by (subst descend_loop.simps) simp
    also have "\<dots> = Some (if dir then last (inorder ?t) else hd (inorder ?t))"
      using Node(1,2) [of "children (node_at s a) dir" a] a(2) False by (cases dir) auto
    also have "(if dir then last (inorder ?t) else hd (inorder ?t)) = (if dir then last (inorder (Node l a r)) else hd (inorder (Node l a r)))"
      using False by (cases dir) (auto simp: hd_append last_append eq_inorder_Nil)
    finally show ?thesis .
  qed
qed simp

lemma ascend_end:
  assumes "focus s c p par t" "p \<noteq> omap_sentinel s"
  shows "ascend_loop s dir p = Some (neighbour s (path_before c) (path_behind c) dir)"
  using assms
proof (induction c arbitrary: p par t)
  case Nil
  then have "node_parent (node_at s p) = omap_sentinel s" by (cases t) (auto simp: focus_def)
  then show ?case by (subst ascend_loop.simps) (simp add: Let_def neighbour_def)
next
  case (Cons x c)
  obtain d a u where x: "x = (d, a, u)" by (cases x) auto
  note up = focus_up [OF Cons(2) [unfolded x]]
  have par: "node_parent (node_at s p) = a" using Cons(2,3) up by (cases t) (auto simp: focus_def)
  have "p \<in> set_tree t" using Cons(2,3) shape_pointer(2) by (auto simp: focus_def)
  then have "p \<notin> set_tree u" using Cons(2) x by (auto simp: focus_def distinct_plug distinct_mk)
  then have side: "(children (node_at s a) (\<not> dir) = p) = (d \<noteq> dir)"
    using side_of [of "omap_nodes s" "omap_sentinel s" "omap_root s" p a d a u c] Cons(2,3) x up by (cases dir) (auto simp: focus_def)
  show ?case
  proof (cases "d = dir")
    case True
    then have "ascend_loop s dir p = ascend_loop s dir a"
      using par side up by (subst ascend_loop.simps) (simp add: Let_def)
    also have "\<dots> = Some (neighbour s (path_before c) (path_behind c) dir)" using Cons(1) up by blast
    finally show ?thesis using True x by (auto simp: neighbour_def)
  next
    case False
    then have "ascend_loop s dir p = Some (cc_omap_el a)" using par side up by (subst ascend_loop.simps) (simp add: Let_def)
    then show ?thesis using False x by (auto simp: neighbour_def)
  qed
qed

lemma iterate_focus:
  assumes f: "focus s c a par (Node l a r)" and el: "cc_omap_el a \<noteq> omap_sentinel s"
  shows "cc_omap_iterate s (cc_omap_el a) dir = Some (neighbour s (path_before c @ inorder l) (inorder r @ path_behind c) dir)"
proof -
  let ?t = "if dir then r else l"
  let ?q = "children (node_at s a) dir"
  have a: "a \<noteq> omap_sentinel s" "shape (omap_nodes s) (omap_sentinel s) ?q a ?t" using f by (auto simp: focus_def)
  have not_end: "cc_omap_el a \<noteq> cc_omap_r_end_or_end s (\<not> dir)" "cc_omapnode_hdr (cc_omap_el a) = a"
    using el a(1) by (auto simp: cc_omap_el_def cc_omap_r_end_or_end_def cc_omapnode_hdr_def)
  show ?thesis
  proof (cases "?t = Leaf")
    case True
    then have "?q = omap_sentinel s" using a(2) by simp
    then have "cc_omap_iterate s (cc_omap_el a) dir = Some (neighbour s (path_before c) (path_behind c) dir)"
      using ascend_end [OF f a(1)] not_end by (simp add: cc_omap_iterate_def)
    then show ?thesis using True by (auto simp: neighbour_def)
  next
    case False
    then have "?q \<noteq> omap_sentinel s" using shape_pointer(1) [OF a(2)] by simp
    then have "cc_omap_iterate s (cc_omap_el a) dir = Some (cc_omap_el (if \<not> dir then last (inorder ?t) else hd (inorder ?t)))"
      using descend_end [OF a(2) False, of "\<not> dir"] not_end by (simp add: cc_omap_iterate_def Let_def)
    then show ?thesis using False by (cases dir) (auto simp: neighbour_def hd_rev hd_append last_append eq_inorder_Nil)
  qed
qed

lemma focus_exists: "a \<in> set_tree t \<Longrightarrow> \<exists>c l r. plug c (Node l a r) = t"
proof (induction t)
  case (Node l b r)
  consider "a = b" | "a \<in> set_tree l" | "a \<in> set_tree r" using Node(3) by auto
  then show ?case
  proof cases
    case 1
    then show ?thesis by (intro exI [of _ "[]"]) simp
  next
    case 2
    then obtain c l' r' where "plug c (Node l' a r') = l" using Node(1) by blast
    then have "plug (c @ [(False, b, r)]) (Node l' a r') = Node l b r" by (simp add: plug_append mk_def)
    then show ?thesis by blast
  next
    case 3
    then obtain c l' r' where "plug c (Node l' a r') = r" using Node(2) by blast
    then have "plug (c @ [(True, b, l)]) (Node l' a r') = Node l b r" by (simp add: plug_append mk_def)
    then show ?thesis by blast
  qed
qed simp

lemma iterate_inorder:
  assumes h: "holds s t" and io: "inorder t = xs @ a # ys" and el: "cc_omap_el a \<noteq> omap_sentinel s"
  shows "cc_omap_iterate s (cc_omap_el a) dir = Some (neighbour s xs ys dir)"
proof -
  have "a \<in> set_tree t" using arg_cong [OF io, of set] by auto
  then obtain c l r where pl: "plug c (Node l a r) = t" using focus_exists by blast
  have f: "focus s [] (omap_root s) (omap_sentinel s) t" using h by (simp add: holds_def)
  then obtain p par where "cshape (omap_nodes s) (omap_sentinel s) (omap_root s) p par c"
      "shape (omap_nodes s) (omap_sentinel s) p par (Node l a r)"
    using shape_plug [of "omap_nodes s" "omap_sentinel s" "omap_root s" c "Node l a r"] pl by (auto simp: focus_def)
  then have fa: "focus s c a par (Node l a r)" using f pl by (auto simp: focus_def)
  have d: "distinct (inorder t)" using f by (simp add: focus_def)
  have io2: "inorder t = (path_before c @ inorder l) @ a # (inorder r @ path_behind c)" using pl inorder_plug [of c "Node l a r"] by simp
  then have "xs = path_before c @ inorder l \<and> ys = inorder r @ path_behind c"
    using io d append_Cons_eq_iff [of a xs ys "path_before c @ inorder l" "inorder r @ path_behind c"]
    by (metis disjoint_insert(2) distinct.simps(2) distinct_append list.simps(15))
  then show ?thesis using iterate_focus [OF fa el] by simp
qed

lemma first_or_last_inorder:
  assumes h: "holds s t"
  shows "cc_omap_first_or_last s dir = Some (neighbour s (inorder t) (inorder t) dir)"
proof -
  have f: "shape (omap_nodes s) (omap_sentinel s) (omap_root s) (omap_sentinel s) t" using h by (simp add: holds_def focus_def)
  show ?thesis
  proof (cases "t = Leaf")
    case True
    then show ?thesis using f by (simp add: cc_omap_first_or_last_def neighbour_def)
  next
    case False
    then show ?thesis using descend_end [OF f False, of "\<not> dir"] shape_pointer(1) [OF f]
      by (auto simp: cc_omap_first_or_last_def neighbour_def hd_rev eq_inorder_Nil)
  qed
qed

section \<open>The map of ports\<close>

text \<open>The empty map, as \<open>init\<close> makes it, with the sentinel in the store.\<close>

lemma holds_placeholder:
  assumes "\<not> is_red (h e)"
  shows "holds (cc_omap_placeholder e h) Leaf" "entries (cc_omap_placeholder e h) Leaf = []"
  using assms by (simp_all add: holds_def cc_omap_placeholder_def focus_def cc_omap_size_def cc_omap_is_placeholder_def entries_def)

text \<open>
  C23: Insertion into the map of ports returns. Without memory for the header or for a node of a new key it changes no entry and
  gives a null iterator; otherwise the entries are updated at the key and all others stay. A lookup afterwards
  returns, with an iterator to the element that the updated entries have for the key, or null. The tree of nodes
  is again a balanced search tree: its height is at most twice the logarithm of the number of entries plus one.
\<close>

theorem omap_insert_get:
  fixes s :: "(int, 'v) omap"
  assumes "holds s t" "size t + 1 < SIZE_MAX"
    and "reall (sizeof_omapnode_hdr + bucket_size) \<notin> insert (omap_sentinel s) (set_tree t)"
  shows "\<exists>s' itr t'. cc_omap_insert s el key True bucket_size cc_cmpr_int_three_way reall = Some (s', itr) \<and> holds s' t' \<and>
    (itr = 0 \<longleftrightarrow> cc_omap_is_placeholder s \<and> reall sizeof_omap_hdr = 0 \<or>
        map_of (entries s t) key = None \<and> reall (sizeof_omapnode_hdr + bucket_size) = 0) \<and>
    map_of (entries s' t') = (if itr = 0 then map_of (entries s t) else (map_of (entries s t))(key \<mapsto> el)) \<and>
    (\<forall>k. \<exists>p. cc_omap_get s' k cc_cmpr_int_three_way = Some p \<and>
      (case map_of (entries s' t') k of
         None \<Rightarrow> p = 0
       | Some v \<Rightarrow> p \<noteq> 0 \<and> key_at s' (cc_omapnode_hdr p) = k \<and> node_el (node_at s' (cc_omapnode_hdr p)) = v)) \<and>
    2 ^ height t' \<le> (size t' + 1) ^ 2"
proof -
  let ?fail = "cc_omap_is_placeholder s \<and> reall sizeof_omap_hdr = 0 \<or>
    map_of (entries s t) key = None \<and> reall (sizeof_omapnode_hdr + bucket_size) = 0"
  obtain s' itr t' where s': "cc_omap_insert s el key True bucket_size cc_cmpr_int_three_way reall = Some (s', itr)" "holds s' t'"
      "if ?fail then itr = 0 \<and> t' = t \<and> entries s' t' = entries s t
       else itr \<noteq> 0 \<and> map_of (entries s' t') = (map_of (entries s t))
         (key \<mapsto> (case map_of (entries s t) key of None \<Rightarrow> el | Some v \<Rightarrow> if True then el else v))"
    using int_order.insert_spec [where s = s and reall = reall and bucket_size = bucket_size and el = el and key = key and replace = True, OF assms]
    by (auto split: if_splits)
  have "itr = 0 \<longleftrightarrow> ?fail" using s'(3) by (cases ?fail) auto
  moreover have "map_of (entries s' t') = (if itr = 0 then map_of (entries s t) else (map_of (entries s t))(key \<mapsto> el))"
    using s'(3) calculation by (cases ?fail) (auto split: option.splits)
  moreover have "\<exists>p. cc_omap_get s' k cc_cmpr_int_three_way = Some p \<and>
      (case map_of (entries s' t') k of
         None \<Rightarrow> p = 0
       | Some v \<Rightarrow> p \<noteq> 0 \<and> key_at s' (cc_omapnode_hdr p) = k \<and> node_el (node_at s' (cc_omapnode_hdr p)) = v)" for k
    using int_order.get_spec [OF s'(2), of k] by (auto split: option.splits)
  moreover have "2 ^ height t' \<le> (size t' + 1) ^ 2" using s'(2) height_bound by (auto simp: holds_def)
  ultimately show ?thesis using s'(1,2) by blast
qed

definition sample_omap :: "(int, int) omap" where
  "sample_omap = cc_omap_placeholder 64 (\<lambda>_. \<lparr>is_red = False, node_parent = 0, children = (\<lambda>_. 0), node_key = 0, node_el = 0\<rparr>)"

theorem omap_insert_get_witness:
  "\<exists>s' itr p. cc_omap_insert sample_omap 7 5 True 8 cc_cmpr_int_three_way (\<lambda>_. 4096) = Some (s', itr) \<and>
    cc_omap_get s' 5 cc_cmpr_int_three_way = Some p \<and> node_el (node_at s' (cc_omapnode_hdr p)) = 7"
proof -
  have h: "holds sample_omap Leaf" "entries sample_omap Leaf = []" unfolding sample_omap_def by (rule holds_placeholder; simp)+
  have pre: "size (Leaf :: addr tree) + 1 < SIZE_MAX" "(4096 :: nat) \<notin> insert (omap_sentinel sample_omap) (set_tree Leaf)"
    by (simp_all add: SIZE_MAX_def sample_omap_def cc_omap_placeholder_def)
  obtain s' itr t' where s': "cc_omap_insert sample_omap 7 5 True 8 cc_cmpr_int_three_way (\<lambda>_. 4096) = Some (s', itr)"
      "itr = 0 \<longleftrightarrow> False" "map_of (entries s' t') = (if itr = 0 then Map.empty else [5 \<mapsto> 7])"
      "\<forall>k. \<exists>p. cc_omap_get s' k cc_cmpr_int_three_way = Some p \<and>
      (case map_of (entries s' t') k of
         None \<Rightarrow> p = 0
       | Some v \<Rightarrow> p \<noteq> 0 \<and> key_at s' (cc_omapnode_hdr p) = k \<and> node_el (node_at s' (cc_omapnode_hdr p)) = v)"
    using omap_insert_get [where s = sample_omap and t = Leaf and reall = "\<lambda>_. 4096" and bucket_size = 8 and el = 7 and key = 5, OF h(1) pre]
    unfolding h(2) by auto
  obtain p where "cc_omap_get s' 5 cc_cmpr_int_three_way = Some p" "node_el (node_at s' (cc_omapnode_hdr p)) = 7"
    using s'(4) [rule_format, of 5] s'(2,3) by auto
  then show ?thesis using s'(1) by blast
qed

text \<open>
  The iterators meet the nodes in the order of their keys: the first one is at the smallest key, \<open>next\<close> and \<open>prev\<close> go to the
  neighbours of a node, and behind the last and in front of the first there are the two ends. No element lies at the address of the
  sentinel.
\<close>

lemma omap_iteration:
  fixes s :: "(int, 'v) omap"
  assumes h: "holds s t" and el: "\<And>a. a \<in> set_tree t \<Longrightarrow> cc_omap_el a \<noteq> omap_sentinel s"
  shows "sorted_wrt (<) (map (key_at s) (inorder t))"
    and "cc_omap_first s = Some (if t = Leaf then cc_omap_r_end_or_end s True else cc_omap_el (hd (inorder t)))"
    and "cc_omap_last s = Some (if t = Leaf then cc_omap_r_end_or_end s False else cc_omap_el (last (inorder t)))"
    and "i < size t \<Longrightarrow> cc_omap_next s (cc_omap_el (inorder t ! i)) =
      Some (if i + 1 < size t then cc_omap_el (inorder t ! (i + 1)) else cc_omap_r_end_or_end s True)"
    and "i < size t \<Longrightarrow> cc_omap_prev s (cc_omap_el (inorder t ! i)) =
      Some (if 0 < i then cc_omap_el (inorder t ! (i - 1)) else cc_omap_r_end_or_end s False)"
proof -
  show "sorted_wrt (<) (map (key_at s) (inorder t))" using h by (simp add: holds_def)
  show "cc_omap_first s = Some (if t = Leaf then cc_omap_r_end_or_end s True else cc_omap_el (hd (inorder t)))"
    by (simp add: cc_omap_first_def first_or_last_inorder [OF h] neighbour_def eq_inorder_Nil)
  show "cc_omap_last s = Some (if t = Leaf then cc_omap_r_end_or_end s False else cc_omap_el (last (inorder t)))"
    by (simp add: cc_omap_last_def first_or_last_inorder [OF h] neighbour_def eq_inorder_Nil hd_rev)
  assume i: "i < size t"
  then have len: "i < length (inorder t)" by simp
  have io: "inorder t = take i (inorder t) @ inorder t ! i # drop (Suc i) (inorder t)" by (rule id_take_nth_drop [OF len])
  have mem: "inorder t ! i \<in> set_tree t" using nth_mem [OF len] by (simp only: set_inorder)
  note it = iterate_inorder [OF h io el [OF mem]]
  show "cc_omap_next s (cc_omap_el (inorder t ! i)) =
      Some (if i + 1 < size t then cc_omap_el (inorder t ! (i + 1)) else cc_omap_r_end_or_end s True)"
    by (simp add: cc_omap_next_def it neighbour_def hd_drop_conv_nth)
  show "cc_omap_prev s (cc_omap_el (inorder t ! i)) =
      Some (if 0 < i then cc_omap_el (inorder t ! (i - 1)) else cc_omap_r_end_or_end s False)"
    using i by (auto simp: cc_omap_prev_def it neighbour_def hd_rev last_conv_nth eq_inorder_Nil)
qed

end
