(* ===== verification/Ports.thy ===== *)
theory Ports
  imports Exec_Space Omap_Properties
begin

text \<open>
  The functions of \<open>src/kernel/ipc/ipc.c\<close> that use the map of ports, over the red-black tree itself. They simulate the ones of
  \<open>Exec_Space\<close>, in which the ports are a function: the lookups agree, and the tree after an assignment
  stands for the updated function.
\<close>

text \<open>An entry of the map is two integers of four bytes.\<close>

definition port_bucket_size :: nat where
  "port_bucket_size = 8"

definition port_of :: "(int, int) omap \<Rightarrow> int \<Rightarrow> int option option" where
  "port_of ports p =
     (case cc_omap_get ports p cc_cmpr_int_three_way of
        None \<Rightarrow> None
      | Some itr \<Rightarrow> Some (if itr = 0 then None else Some (node_el (node_at ports (cc_omapnode_hdr itr)))))"

definition assign_port ::
  "(nat \<Rightarrow> addr) \<Rightarrow> nat \<Rightarrow> (int, int) omap \<Rightarrow> kernel \<Rightarrow> ExecutionSpace \<Rightarrow> int \<Rightarrow>
   ((stop + bool \<times> ExecutionSpace \<times> kernel) \<times> (int, int) omap) option" where
  "assign_port reall hhdm ports k space p =
     (case port_of ports p of
        None \<Rightarrow> None
      | Some owner \<Rightarrow>
          if port space \<noteq> -1 \<or> owner \<noteq> None then Some (Inr (False, space, k), ports)
          else let space = space\<lparr>port := p, message_queue := Some vec_init\<rparr> in
               case cc_omap_insert ports (pid space) (port space) True port_bucket_size cc_cmpr_int_three_way reall of
                 None \<Rightarrow> None
               | Some (ports, _) \<Rightarrow>
                   Some (case arch_map_range hhdm (k_vm k) (vm_space space) IPC_MESSAGE_REGION_BASE
                                (IPC_MESSAGE_REGION_BASE + IPC_MESSAGE_REGION_SZ) MAP_USER_RW 0 of
                           Inl e \<Rightarrow> Inl e
                         | Inr s \<Rightarrow> Inr (True, space, k\<lparr>k_vm := s\<rparr>), ports))"

text \<open>The kernel whose function of ports is that of the tree \<open>t\<close> in \<open>ports\<close>.\<close>

definition with_ports :: "(int, int) omap \<Rightarrow> addr tree \<Rightarrow> kernel \<Rightarrow> kernel" where
  "with_ports ports t k = k\<lparr>port_to_pid := map_of (entries ports t)\<rparr>"

lemma port_of_entries: "holds ports t \<Longrightarrow> port_of ports p = Some (map_of (entries ports t) p)"
  using int_order.get_spec [of ports t p] by (auto simp: port_of_def split: option.splits)

text \<open>
  C22: The assignment of a port over the red-black tree returns and does what the assignment over a function of ports does, which has room
  exactly if the tree did not run out of memory: the same result, the same space and kernel, and afterwards
  the tree stands for the updated function. The lookups before and after agree with the function.
\<close>

theorem assign_port_simulates:
  assumes h: "holds ports t" and room: "size t + 1 < SIZE_MAX"
    and fresh: "reall (sizeof_omapnode_hdr + port_bucket_size) \<notin> insert (omap_sentinel ports) (set_tree t)"
  shows "\<exists>r ports' t'. assign_port reall hhdm ports k space p = Some (r, ports') \<and> holds ports' t' \<and>
    ipc_assign_port (\<not> (cc_omap_is_placeholder ports \<and> reall sizeof_omap_hdr = 0) \<and> reall (sizeof_omapnode_hdr + port_bucket_size) \<noteq> 0)
        hhdm (with_ports ports t k) space p =
      map_sum id (\<lambda>(b, space, k). (b, space, with_ports ports' t' k)) r \<and>
    (\<forall>q. port_of ports q = Some (port_to_pid (with_ports ports t k) q)) \<and>
    (\<forall>q. port_of ports' q = Some (port_to_pid (with_ports ports' t' k) q))"
proof (cases "port space \<noteq> -1 \<or> map_of (entries ports t) p \<noteq> None")
  case True
  then show ?thesis using h
    by (intro exI [of _ "Inr (False, space, k)"] exI [of _ ports] exI [of _ t])
      (simp add: assign_port_def ipc_assign_port_def port_of_entries with_ports_def)
next
  case False
  let ?room = "\<not> (cc_omap_is_placeholder ports \<and> reall sizeof_omap_hdr = 0) \<and> reall (sizeof_omapnode_hdr + port_bucket_size) \<noteq> 0"
  obtain ports' itr t' where ins: "cc_omap_insert ports (pid space) p True port_bucket_size cc_cmpr_int_three_way reall = Some (ports', itr)"
      "holds ports' t'" "map_of (entries ports' t') = (if ?room then (map_of (entries ports t))(p \<mapsto> pid space) else map_of (entries ports t))"
    using int_order.insert_spec [where s = ports and reall = reall and bucket_size = port_bucket_size and el = "pid space" and key = p
        and replace = True, OF h room fresh] False by (auto split: if_splits)
  show ?thesis using False h ins
    by (cases "arch_map_range hhdm (k_vm k) (vm_space space) IPC_MESSAGE_REGION_BASE
          (IPC_MESSAGE_REGION_BASE + IPC_MESSAGE_REGION_SZ) MAP_USER_RW 0")
      (auto simp: assign_port_def ipc_assign_port_def port_of_entries with_ports_def Let_def intro!: exI [of _ t'])
qed

theorem assign_port_simulates_witness:
  "\<exists>r ports' t'. assign_port (\<lambda>_. 4096) 0 sample_omap sample_kernel (sample_space 2\<lparr>port := -1\<rparr>) 3 = Some (r, ports') \<and>
    holds ports' t' \<and> port_of sample_omap 3 = Some None \<and> (\<forall>q. port_of ports' q = Some (port_to_pid (with_ports ports' t' sample_kernel) q))"
proof -
  have h: "holds sample_omap Leaf" "entries sample_omap Leaf = []" unfolding sample_omap_def by (rule holds_placeholder; simp)+
  have pre: "size (Leaf :: addr tree) + 1 < SIZE_MAX" "(4096 :: nat) \<notin> insert (omap_sentinel sample_omap) (set_tree Leaf)"
    by (simp_all add: SIZE_MAX_def sample_omap_def cc_omap_placeholder_def)
  show ?thesis
    using assign_port_simulates [where reall = "\<lambda>_. 4096", OF h(1) pre, of 0 sample_kernel "sample_space 2\<lparr>port := -1\<rparr>" 3]
      port_of_entries [OF h(1), of 3] h(2) by auto
qed

end
