(* ===== verification/Service.thy ===== *)
theory Service
  imports Syscalls
begin

text \<open>
  The side of the processes: the library's system calls (\<open>src/service/libc/x86/abi/syscalls.c\<close>) and messages
  (\<open>generic/ipc/ipc.c\<close>), and the two programs (\<open>src/service/apps\<close>). A process reads and writes its memory through its page
  map; a system call is an entry of the kernel with the registers the library loads.

  Shown: a payload sent with the library arrives in the queue of the receiver as a copy in the
  kernel heap, and the receiver finds it in its message region; with more than eight bytes it overwrites its own size there.
\<close>

section \<open>System calls\<close>

text \<open>The third input of the assembly is its operand 4, so \<open>r10\<close>, \<open>r8\<close> and \<open>r9\<close> get the arguments before the ones meant.
  The status, none if the call does not come back; the outer \<open>None\<close> is a call outside the table of the kernel.\<close>

type_synonym outcome = "(stop + 64 word option \<times> kernel) option"

definition syscall ::
  "env \<Rightarrow> addr \<Rightarrow> GeneralRegisters \<Rightarrow> kernel \<Rightarrow> nat \<Rightarrow> nat \<Rightarrow> nat \<Rightarrow> nat \<Rightarrow> nat \<Rightarrow> nat \<Rightarrow> nat \<Rightarrow> outcome" where
  "syscall env pml4 reg k selector arg0 arg1 arg2 arg3 arg4 arg5 =
     map_option (\<lambda>r. case r of Inl e \<Rightarrow> Inl e | Inr (reg, k) \<Rightarrow> Inr (map_option rax reg, k))
       (syscall_handler env pml4 k
          (reg\<lparr>rax := of_nat selector, rdi := of_nat arg0, rsi := of_nat arg1, rdx := of_nat arg2,
               r10 := of_nat arg2, r8 := of_nat arg3, r9 := of_nat arg4\<rparr>))"

definition syscall_log :: "env \<Rightarrow> addr \<Rightarrow> GeneralRegisters \<Rightarrow> kernel \<Rightarrow> addr \<Rightarrow> nat \<Rightarrow> outcome" where
  "syscall_log env pml4 reg k buff len = syscall env pml4 reg k 1 1 buff len 0 0 0"

definition syscall_ipc_send :: "env \<Rightarrow> addr \<Rightarrow> GeneralRegisters \<Rightarrow> kernel \<Rightarrow> nat \<Rightarrow> addr \<Rightarrow> outcome" where
  "syscall_ipc_send env pml4 reg k to buff = syscall env pml4 reg k 2 to buff 0 0 0 0"

definition syscall_ipc_receive :: "env \<Rightarrow> addr \<Rightarrow> GeneralRegisters \<Rightarrow> kernel \<Rightarrow> addr \<Rightarrow> outcome" where
  "syscall_ipc_receive env pml4 reg k buff = syscall env pml4 reg k 3 buff 0 0 0 0 0"

definition syscall_create_process :: "env \<Rightarrow> addr \<Rightarrow> GeneralRegisters \<Rightarrow> kernel \<Rightarrow> addr \<Rightarrow> nat \<Rightarrow> outcome" where
  "syscall_create_process env pml4 reg k elf port_id = syscall env pml4 reg k 4 elf port_id 0 0 0 0"

definition syscall_exit :: "env \<Rightarrow> addr \<Rightarrow> GeneralRegisters \<Rightarrow> kernel \<Rightarrow> int \<Rightarrow> outcome" where
  "syscall_exit env pml4 reg k exit_code = syscall env pml4 reg k 5 (int_to_u64 exit_code) 0 0 0 0 0"

section \<open>Messages\<close>

record libc_ipc =
  ipc_message_receive_region :: addr
  ipc_message_send_region :: addr

definition libc_ipc_init :: libc_ipc where
  "libc_ipc_init = \<lparr>ipc_message_receive_region = 0x800000, ipc_message_send_region = 0x800000 + 4096\<rparr>"

definition IPC_MESSAGE_TYPE_REQUEST :: nat where "IPC_MESSAGE_TYPE_REQUEST = 1"

text \<open>A store of the process.\<close>

definition user_store :: "nat \<Rightarrow> addr \<Rightarrow> addr \<Rightarrow> nat \<Rightarrow> nat \<Rightarrow> kernel \<Rightarrow> stop + kernel" where
  "user_store hhdm pml4 x n v k =
     (case write_bytes hhdm (k_mem k) pml4 x n v of Inl e \<Rightarrow> Inl e | Inr m \<Rightarrow> Inr (set_mem k m))"

definition libc_ipc_send ::
  "env \<Rightarrow> addr \<Rightarrow> GeneralRegisters \<Rightarrow> libc_ipc \<Rightarrow> kernel \<Rightarrow> nat \<Rightarrow> addr \<Rightarrow> nat \<Rightarrow> outcome" where
  "libc_ipc_send env pml4 reg svc k to payload payload_size =
     (let region = ipc_message_send_region svc in
      case user_store (env_hhdm env) pml4 (region + 8) 4 IPC_MESSAGE_TYPE_REQUEST k of
        Inl e \<Rightarrow> Some (Inl e)
      | Inr k \<Rightarrow> (case user_store (env_hhdm env) pml4 (region + 16) 8 payload k of
          Inl e \<Rightarrow> Some (Inl e)
        | Inr k \<Rightarrow> (case user_store (env_hhdm env) pml4 (region + 24) 8 payload_size k of
            Inl e \<Rightarrow> Some (Inl e)
          | Inr k \<Rightarrow> syscall_ipc_send env pml4 reg k to region)))"

text \<open>The result is the region, whatever the system call says.\<close>

definition libc_ipc_receive :: "env \<Rightarrow> addr \<Rightarrow> GeneralRegisters \<Rightarrow> libc_ipc \<Rightarrow> kernel \<Rightarrow> outcome \<times> addr" where
  "libc_ipc_receive env pml4 reg svc k =
     (syscall_ipc_receive env pml4 reg k (ipc_message_receive_region svc), ipc_message_receive_region svc)"

fun user_memset :: "nat \<Rightarrow> addr \<Rightarrow> addr \<Rightarrow> nat \<Rightarrow> nat \<Rightarrow> kernel \<Rightarrow> stop + kernel" where
  "user_memset hhdm pml4 dest v 0 k = Inr k"
| "user_memset hhdm pml4 dest v (Suc n) k =
     (case user_store hhdm pml4 dest 1 v k of Inl e \<Rightarrow> Inl e | Inr k \<Rightarrow> user_memset hhdm pml4 (dest + 1) v n k)"

definition libc_ipc_ack :: "env \<Rightarrow> addr \<Rightarrow> libc_ipc \<Rightarrow> kernel \<Rightarrow> stop + kernel" where
  "libc_ipc_ack env pml4 svc k = user_memset (env_hhdm env) pml4 (ipc_message_receive_region svc) 0 4096 k"

section \<open>Programs\<close>

text \<open>\<open>lit\<close> is the address of the literal of the program. The first task logs a line and then loops for ever.\<close>

definition hello_main :: "env \<Rightarrow> addr \<Rightarrow> GeneralRegisters \<Rightarrow> libc_ipc \<Rightarrow> kernel \<Rightarrow> addr \<Rightarrow> outcome" where
  "hello_main env pml4 reg svc k lit =
     (case libc_ipc_send env pml4 reg svc k 0 lit 5 of
        Some (Inr (Some _, k)) \<Rightarrow> syscall_exit env pml4 reg k 0
      | r \<Rightarrow> r)"

definition init_main :: "env \<Rightarrow> addr \<Rightarrow> GeneralRegisters \<Rightarrow> kernel \<Rightarrow> addr \<Rightarrow> outcome" where
  "init_main env pml4 reg k lit =
     (case syscall_log env pml4 reg k lit 3 of
        Some (Inr (Some _, k)) \<Rightarrow> Some (Inl Stuck)
      | r \<Rightarrow> r)"

definition libc_entry :: "(libc_ipc \<Rightarrow> outcome) \<Rightarrow> outcome" where
  "libc_entry main = main libc_ipc_init"

section \<open>Memory through a page map\<close>

text \<open>\<open>n\<close> addresses from \<open>x\<close> on are the \<open>n\<close> bytes from \<open>f\<close> on.\<close>

definition maps_to :: "nat \<Rightarrow> bytes \<Rightarrow> addr \<Rightarrow> addr \<Rightarrow> addr \<Rightarrow> nat \<Rightarrow> bool" where
  "maps_to hhdm m pml4 x f n \<longleftrightarrow> (\<forall>j < n. linear hhdm m pml4 (x + j) = Some (f + j))"

definition table_bytes :: "nat \<Rightarrow> bytes \<Rightarrow> addr \<Rightarrow> addr set" where
  "table_bytes hhdm m pml4 = {x. \<exists>t \<in> tables hhdm m pml4. t \<le> x \<and> x < t + 4096}"

lemma keeps_maps:
  assumes "\<forall>x \<in> table_bytes hhdm m pml4. m' x = m x" "pml4 \<noteq> 0"
  shows "linear hhdm m' pml4 x = linear hhdm m pml4 x" "table_bytes hhdm m' pml4 = table_bytes hhdm m pml4"
    "maps_to hhdm m' pml4 y f n = maps_to hhdm m pml4 y f n"
proof -
  have "misses_tables hhdm pml4 m m'" unfolding misses_tables_def
  proof (intro ballI allI impI)
    fix t x assume "t \<in> tables hhdm m pml4" "t \<le> x" "x < t + 4096"
    then have "x \<in> table_bytes hhdm m pml4" unfolding table_bytes_def by blast
    then show "m' x = m x" using assms(1) by blast
  qed
  note agree = tables_agree [OF this]
  show lin: "linear hhdm m' pml4 x = linear hhdm m pml4 x" for x using agree(3) [OF assms(2)] by (simp add: linear_def)
  show "table_bytes hhdm m' pml4 = table_bytes hhdm m pml4" using agree(2) by (simp add: table_bytes_def)
  show "maps_to hhdm m' pml4 y f n = maps_to hhdm m pml4 y f n" using lin by (simp add: maps_to_def)
qed

lemma maps_to_kernel: "2 ^ 47 \<le> c \<Longrightarrow> maps_to hhdm m pml4 c c n"
  by (simp add: maps_to_def linear_def)

lemma maps_to_sub: "maps_to hhdm m pml4 x f n \<Longrightarrow> i + k \<le> n \<Longrightarrow> maps_to hhdm m pml4 (x + i) (f + i) k"
  by (auto simp: maps_to_def add.assoc)

lemma write_bytes_store:
  assumes "maps_to hhdm m pml4 x f n" "{f ..< f + n} \<inter> table_bytes hhdm m pml4 = {}" "pml4 \<noteq> 0"
  shows "write_bytes hhdm m pml4 x n v = Inr (store_bytes m f n v)"
  using assms
proof (induction n arbitrary: m x f v)
  case (Suc n)
  let ?m = "m(f := of_nat v)"
  have "f \<notin> table_bytes hhdm m pml4" using Suc(3) by (auto simp: disjoint_iff)
  then have keep: "\<forall>y \<in> table_bytes hhdm m pml4. ?m y = m y" by auto
  note km = keeps_maps [of hhdm m pml4 ?m, OF keep Suc(4)]
  have "maps_to hhdm ?m pml4 (x + 1) (f + 1) n"
    unfolding km(3) using maps_to_sub [OF Suc(2), of 1 n] by simp
  moreover have "{f + 1 ..< f + 1 + n} \<inter> table_bytes hhdm ?m pml4 = {}"
    unfolding km(2) using Suc(3) by (auto simp: disjoint_iff)
  ultimately have "write_bytes hhdm ?m pml4 (x + 1) n (v div 256) = Inr (store_bytes ?m (f + 1) n (v div 256))"
    by (rule Suc(1) [OF _ _ Suc(4)])
  moreover have "linear hhdm m pml4 x = Some f" using Suc(2) by (auto simp: maps_to_def dest: spec [of _ 0])
  ultimately show ?case by simp
qed simp

lemma user_memcpy_copy:
  assumes "maps_to hhdm m pml4 dest d n" "{d ..< d + n} \<inter> table_bytes hhdm m pml4 = {}" "pml4 \<noteq> 0"
    and "\<And>i. i < n \<Longrightarrow> linear hhdm m pml4 (src + i) = Some (g i)" "\<And>i. i < n \<Longrightarrow> g i \<notin> {d ..< d + n}"
  shows "user_memcpy hhdm m pml4 dest src n = Inr (\<lambda>y. if d \<le> y \<and> y < d + n then m (g (y - d)) else m y)"
  using assms
proof (induction n arbitrary: m dest src d g)
  case (Suc n)
  let ?m = "m(d := m (g 0))"
  have "d \<notin> table_bytes hhdm m pml4" using Suc(3) by (auto simp: disjoint_iff)
  then have keep: "\<forall>y \<in> table_bytes hhdm m pml4. ?m y = m y" by auto
  note km = keeps_maps [of hhdm m pml4 ?m, OF keep Suc(4)]
  have lin: "linear hhdm m pml4 dest = Some d" "linear hhdm m pml4 src = Some (g 0)"
    using Suc(2) Suc(5) [of 0] by (auto simp: maps_to_def dest: spec [of _ 0])
  have "user_memcpy hhdm ?m pml4 (dest + 1) (src + 1) n =
      Inr (\<lambda>y. if d + 1 \<le> y \<and> y < d + 1 + n then ?m (g (Suc (y - (d + 1)))) else ?m y)"
  proof (rule Suc(1) [of ?m "dest + 1" "d + 1" "src + 1" "\<lambda>i. g (Suc i)"])
    show "maps_to hhdm ?m pml4 (dest + 1) (d + 1) n"
      unfolding km(3) using maps_to_sub [OF Suc(2), of 1 n] by simp
    show "{d + 1 ..< d + 1 + n} \<inter> table_bytes hhdm ?m pml4 = {}"
      unfolding km(2) using Suc(3) by (auto simp: disjoint_iff)
    show "linear hhdm ?m pml4 (src + 1 + i) = Some (g (Suc i))" if "i < n" for i
      unfolding km(1) using Suc(5) [of "Suc i"] that by simp
    show "g (Suc i) \<notin> {d + 1 ..< d + 1 + n}" if "i < n" for i using Suc(6) [of "Suc i"] that by auto
  qed (rule Suc(4))
  moreover have "(if d + 1 \<le> y \<and> y < d + 1 + n then ?m (g (Suc (y - (d + 1)))) else ?m y) =
      (if d \<le> y \<and> y < d + Suc n then m (g (y - d)) else m y)" for y
  proof (cases "d + 1 \<le> y \<and> y < d + 1 + n")
    case True
    then have "Suc (y - (d + 1)) = y - d" "y - d < Suc n" by auto
    then have "g (Suc (y - (d + 1))) \<noteq> d" using Suc(6) [of "y - d"] by auto
    then show ?thesis using True \<open>Suc (y - (d + 1)) = y - d\<close> by simp
  qed auto
  ultimately show ?case using lin by simp
qed (auto simp: fun_eq_iff)

lemma load_seen:
  "maps_to hhdm m pml4 x f n \<Longrightarrow> load_bytes (seen hhdm m pml4) x n = load_bytes m f n"
proof (induction n arbitrary: x f)
  case (Suc n)
  have "linear hhdm m pml4 x = Some f" using Suc(2) by (auto simp: maps_to_def dest: spec [of _ 0])
  moreover have "maps_to hhdm m pml4 (Suc x) (Suc f) n" using maps_to_sub [OF Suc(2), of 1 n] by simp
  ultimately show ?case using Suc(1) by (simp add: seen_def)
qed simp

lemma read_u64_at: "maps_to hhdm m pml4 x f 8 \<Longrightarrow> read_u64 hhdm m pml4 x = Inr (load64 m f)"
  using load_seen [of hhdm m pml4 x f 8] by (auto simp: read_u64_def linear_ok_def list_all_iff maps_to_def load64_def)

lemma user_store_at:
  assumes "maps_to hhdm (k_mem k) pml4 x f n" "{f ..< f + n} \<inter> table_bytes hhdm (k_mem k) pml4 = {}" "pml4 \<noteq> 0"
  shows "user_store hhdm pml4 x n v k = Inr (set_mem k (store_bytes (k_mem k) f n v))"
  using write_bytes_store [OF assms] by (simp add: user_store_def)

lemma set_mem_simps [simp]: "k_mem (set_mem k m) = m" "set_mem (set_mem k m) m' = set_mem k m'" "k_sched (set_mem k m) = k_sched k"
    "port_to_pid (set_mem k m) = port_to_pid k"
  by (simp_all add: k_mem_def set_mem_def)

section \<open>Sending\<close>

text \<open>
  What the heap does for a send: the block is above the user half, and memory changes only in the heap \<open>H\<close>, which holds
  neither the tables nor the words of the message.
\<close>

definition heap_serves :: "env \<Rightarrow> addr set \<Rightarrow> bytes \<Rightarrow> nat \<Rightarrow> addr \<Rightarrow> bool" where
  "heap_serves env H m n c \<longleftrightarrow> (\<exists>m'. heap_alloc env m (to_int n) = (c, m') \<and> 2 ^ 47 \<le> c \<and> {c ..< c + n} \<subseteq> H \<and>
     (\<forall>y. y \<notin> H \<longrightarrow> m' y = m y))"

lemma sys_ipc_send_copies:
  assumes "pml4 \<noteq> 0" "is_user_address b" "maps_to (env_hhdm env) (k_mem k) pml4 (b + 16) f 16"
    and "load64 (k_mem k) f = src" "load64 (k_mem k) (f + 8) = n"
    and "heap_serves env H (k_mem k) n c" "H \<inter> table_bytes (env_hhdm env) (k_mem k) pml4 = {}" "{f ..< f + 16} \<inter> H = {}"
    and "\<forall>i < n. linear (env_hhdm env) (k_mem k) pml4 (src + i) = Some (g i) \<and> g i \<notin> H" "heap_room env 0"
    and "sched_ok (k_sched k)" "ps = procs (k_sched k)" "distinct (map pid ps)" "i < length ps"
    and "port_to_pid k (to_int to) = Some (pid (ps ! i))" "message_queue (ps ! i) = Some q" "vec_ok q"
  shows "\<exists>k' q'. sys_ipc_send env pml4 k to b = Inr (Returns 0, k') \<and>
    procs (k_sched k') = ps[i := (ps ! i)\<lparr>message_queue := Some q'\<rparr>] \<and> vec_ok q' \<and>
    vec_list q' = vec_list q @ [\<lparr>msg_sender = int_to_u64 (pid (ps ! current_pid_index (k_sched k))), msg_receiver = to,
      msg_payload = c, msg_payload_size = n\<rparr>] \<and>
    (\<forall>j < n. k_mem k' (c + j) = k_mem k (g j)) \<and> (\<forall>y. y \<notin> H \<longrightarrow> k_mem k' y = k_mem k y) \<and>
    sched_ok (k_sched k') \<and> current_pid_index (k_sched k') = current_pid_index (k_sched k)"
proof -
  let ?h = "env_hhdm env" and ?m = "k_mem k"
  obtain m2 where m2: "heap_alloc env ?m (to_int n) = (c, m2)" "2 ^ 47 \<le> c" "{c ..< c + n} \<subseteq> H" "\<forall>y. y \<notin> H \<longrightarrow> m2 y = ?m y"
    using assms(6) by (auto simp: heap_serves_def)
  let ?m3 = "\<lambda>y. if c \<le> y \<and> y < c + n then m2 (g (y - c)) else m2 y"
  have out: "m' y = ?m y" if "m' \<in> {m2, ?m3}" "y \<notin> H" for m' y
  proof (cases "c \<le> y \<and> y < c + n")
    case True then show ?thesis using m2(3) that(2) by (auto simp: subset_iff)
  next
    case False then show ?thesis using m2(4) that by auto
  qed
  have km: "linear ?h m' pml4 x = linear ?h ?m pml4 x" "table_bytes ?h m' pml4 = table_bytes ?h ?m pml4"
    "maps_to ?h m' pml4 y z w = maps_to ?h ?m pml4 y z w" if "m' \<in> {m2, ?m3}" for m' x y z w
  proof -
    have "\<forall>y \<in> table_bytes ?h ?m pml4. m' y = ?m y" using out [OF that] assms(7) by (auto simp: disjoint_iff)
    from keeps_maps [OF this assms(1)]
    show "linear ?h m' pml4 x = linear ?h ?m pml4 x" "table_bytes ?h m' pml4 = table_bytes ?h ?m pml4"
      "maps_to ?h m' pml4 y z w = maps_to ?h ?m pml4 y z w" .
  qed
  have rd: "read_u64 ?h m' pml4 (b + 16) = Inr src" "read_u64 ?h m' pml4 (b + 24) = Inr n" if "m' \<in> {?m, m2, ?m3}" for m'
  proof -
    have mp: "maps_to ?h m' pml4 (b + 16) f 16" using assms(3) km(3) that by blast
    have eq: "m' y = ?m y" if "f \<le> y" "y < f + 16" for y
      using out \<open>m' \<in> {?m, m2, ?m3}\<close> assms(8) that by (auto simp: disjoint_iff)
    have "load64 m' f = src" "load64 m' (f + 8) = n"
      using load64_cong [of f m' ?m] load64_cong [of "f + 8" m' ?m] eq assms(4,5) by simp_all
    then show "read_u64 ?h m' pml4 (b + 16) = Inr src" "read_u64 ?h m' pml4 (b + 24) = Inr n"
      using read_u64_at [OF maps_to_sub [OF mp, of 0 8, simplified]] read_u64_at [OF maps_to_sub [OF mp, of 8 8, simplified]]
      by (simp_all add: ac_simps)
  qed
  have cp: "user_memcpy ?h m2 pml4 c src n = Inr ?m3"
  proof (rule user_memcpy_copy [OF maps_to_kernel [OF m2(2)] _ assms(1)])
    show "{c ..< c + n} \<inter> table_bytes ?h m2 pml4 = {}" using m2(3) assms(7) km(2) [of m2] by blast
    show "linear ?h m2 pml4 (src + j) = Some (g j)" if "j < n" for j using assms(9) that km(1) [of m2] by simp
    show "g j \<notin> {c ..< c + n}" if "j < n" for j using assms(9) that m2(3) by blast
  qed
  let ?k = "set_mem k ?m3"
  obtain k' q' where k': "ipc_send True ?k to c n = Inr k'" "procs (k_sched k') = ps[i := (ps ! i)\<lparr>message_queue := Some q'\<rparr>]"
    "vec_ok q'" "vec_list q' = vec_list q @ [\<lparr>msg_sender = int_to_u64 (pid (ps ! current_pid_index (k_sched k))),
      msg_receiver = to, msg_payload = c, msg_payload_size = n\<rparr>]" "k_vm k' = k_vm ?k"
    "sched_ok (k_sched k')" "current_pid_index (k_sched k') = current_pid_index (k_sched k)"
    using ipc_send_appends [of ?k ps i to q True c n] assms(11-17) by auto
  have "sys_ipc_send env pml4 k to b = Inr (Returns 0, k')"
    using assms(2,10) m2(1) rd [of ?m] rd [of m2] rd [of ?m3] cp k'(1) by (simp add: sys_ipc_send_def)
  moreover have k3: "k_mem k' = ?m3" using k'(5) by (simp add: k_mem_def set_mem_def)
  moreover have "\<forall>j < n. k_mem k' (c + j) = ?m (g j)" using assms(9) m2(4) unfolding k3 by simp
  moreover have "\<forall>y. y \<notin> H \<longrightarrow> k_mem k' y = ?m y" unfolding k3 using out [of ?m3] by blast
  ultimately show ?thesis using k'(2-4,6,7) by blast
qed

text \<open>The page of the library after its three stores.\<close>

definition sent_image :: "bytes \<Rightarrow> addr \<Rightarrow> nat \<Rightarrow> nat \<Rightarrow> bytes" where
  "sent_image m f payload n =
     store_bytes (store_bytes (store_bytes m (f + 8) 4 IPC_MESSAGE_TYPE_REQUEST) (f + 16) 8 payload) (f + 24) 8 n"

lemma sent_image_other: "y \<notin> {f ..< f + 32} \<Longrightarrow> sent_image m f payload n y = m y"
  by (auto simp: sent_image_def store_bytes_other not_le not_less)

lemma sent_image_fields:
  assumes "payload < 2 ^ 64" "n < 2 ^ 64"
  shows "load64 (sent_image m f payload n) (f + 16) = payload" "load64 (sent_image m f payload n) (f + 24) = n"
  using assms by (simp_all add: load64_def sent_image_def load_store_bytes load_store_disjoint)

lemma stores_sent:
  assumes "pml4 \<noteq> 0" "maps_to (env_hhdm env) (k_mem k) pml4 0x801000 f 32" "{f ..< f + 32} \<inter> table_bytes (env_hhdm env) (k_mem k) pml4 = {}"
  shows "libc_ipc_send env pml4 reg libc_ipc_init k to payload n =
     syscall_ipc_send env pml4 reg (set_mem k (sent_image (k_mem k) f payload n)) to 0x801000"
proof -
  let ?h = "env_hhdm env" and ?m = "k_mem k"
  let ?m1 = "store_bytes ?m (f + 8) 4 IPC_MESSAGE_TYPE_REQUEST"
  let ?m2 = "store_bytes ?m1 (f + 16) 8 payload"
  have st: "write_bytes ?h m pml4 (0x801000 + i) j v = Inr (store_bytes m (f + i) j v)"
    if eq: "\<forall>y. y \<notin> {f ..< f + 32} \<longrightarrow> m y = ?m y" and i: "i + j \<le> 32" for m i j v
  proof -
    have "\<forall>y \<in> table_bytes ?h ?m pml4. m y = ?m y" using eq assms(3) by (auto simp: disjoint_iff)
    note km = keeps_maps [OF this assms(1)]
    have mp: "maps_to ?h m pml4 (0x801000 + i) (f + i) j" unfolding km(3) by (rule maps_to_sub [OF assms(2) i])
    have dj: "{f + i ..< f + i + j} \<inter> table_bytes ?h m pml4 = {}" unfolding km(2) using assms(3) i by (auto simp: disjoint_iff)
    show ?thesis by (rule write_bytes_store [OF mp dj assms(1)])
  qed
  have o: "\<forall>y. y \<notin> {f ..< f + 32} \<longrightarrow> ?m1 y = ?m y" "\<forall>y. y \<notin> {f ..< f + 32} \<longrightarrow> ?m2 y = ?m y"
    by (auto simp: store_bytes_other not_le not_less)
  show ?thesis
    using st [of ?m 8 4 IPC_MESSAGE_TYPE_REQUEST] st [OF o(1), of 16 8 payload] st [OF o(2), of 24 8 n]
    by (simp add: libc_ipc_send_def libc_ipc_init_def user_store_def sent_image_def)
qed

lemma library_regions: "is_user_address 0x800000" "is_user_address 0x801000"
  by (simp_all add: is_user_address_def IS_CANONICAL_def CANONICAL_ADDR_MASK_def USER_REGION_BOTTOM_def USER_REGION_TOP_def)

lemma libc_ipc_send_delivers:
  assumes "pml4 \<noteq> 0" "maps_to (env_hhdm env) (k_mem k) pml4 0x801000 f 32"
    and "{f ..< f + 32} \<inter> table_bytes (env_hhdm env) (k_mem k) pml4 = {}" "{f ..< f + 32} \<inter> H = {}"
    and "H \<inter> table_bytes (env_hhdm env) (k_mem k) pml4 = {}" "payload < 2 ^ 64" "n < 2 ^ 64" "to < 2 ^ 64"
    and "heap_serves env H (sent_image (k_mem k) f payload n) n c" "heap_room env 0"
    and "\<forall>i < n. linear (env_hhdm env) (k_mem k) pml4 (payload + i) = Some (g i) \<and> g i \<notin> {f ..< f + 32} \<union> H"
    and "sched_ok (k_sched k)" "ps = procs (k_sched k)" "distinct (map pid ps)" "i < length ps"
    and "port_to_pid k (to_int to) = Some (pid (ps ! i))" "message_queue (ps ! i) = Some q" "vec_ok q"
  shows "\<exists>k' q'. libc_ipc_send env pml4 reg libc_ipc_init k to payload n = Some (Inr (Some 0, k')) \<and>
    procs (k_sched k') = ps[i := (ps ! i)\<lparr>message_queue := Some q'\<rparr>] \<and> vec_ok q' \<and>
    vec_list q' = vec_list q @ [\<lparr>msg_sender = int_to_u64 (pid (ps ! current_pid_index (k_sched k))), msg_receiver = to,
      msg_payload = c, msg_payload_size = n\<rparr>] \<and>
    (\<forall>j < n. k_mem k' (c + j) = k_mem k (g j)) \<and> (\<forall>y. y \<notin> {f ..< f + 32} \<union> H \<longrightarrow> k_mem k' y = k_mem k y) \<and>
    sched_ok (k_sched k') \<and> current_pid_index (k_sched k') = current_pid_index (k_sched k)"
proof -
  let ?h = "env_hhdm env" and ?m = "k_mem k"
  let ?k = "set_mem k (sent_image ?m f payload n)"
  have "\<forall>y \<in> table_bytes ?h ?m pml4. k_mem ?k y = ?m y" using assms(3) sent_image_other by (simp add: disjoint_iff) blast
  note km = keeps_maps [OF this assms(1)]
  have mp: "maps_to ?h (k_mem ?k) pml4 (0x801000 + 16) (f + 16) 16" unfolding km(3) by (rule maps_to_sub [OF assms(2)]) simp
  have fields: "load64 (k_mem ?k) (f + 16) = payload" "load64 (k_mem ?k) (f + 16 + 8) = n"
    using sent_image_fields [OF assms(6,7)] by (simp_all add: add.assoc)
  have src: "\<forall>i < n. linear ?h (k_mem ?k) pml4 (payload + i) = Some (g i) \<and> g i \<notin> H" unfolding km(1) using assms(11) by simp
  obtain k' q' where k': "sys_ipc_send env pml4 ?k to 0x801000 = Inr (Returns 0, k')"
    "procs (k_sched k') = ps[i := (ps ! i)\<lparr>message_queue := Some q'\<rparr>]" "vec_ok q'"
    "vec_list q' = vec_list q @ [\<lparr>msg_sender = int_to_u64 (pid (ps ! current_pid_index (k_sched k))), msg_receiver = to,
      msg_payload = c, msg_payload_size = n\<rparr>]"
    "\<forall>j < n. k_mem k' (c + j) = k_mem ?k (g j)" "\<forall>y. y \<notin> H \<longrightarrow> k_mem k' y = k_mem ?k y"
    "sched_ok (k_sched k')" "current_pid_index (k_sched k') = current_pid_index (k_sched k)"
    using sys_ipc_send_copies [OF assms(1) library_regions(2) mp fields, of H c g ps i to q] assms(4,5,9,10,12-18) src
    unfolding km(2) by (auto simp: disjoint_iff)
  have "syscall_ipc_send env pml4 reg ?k to 0x801000 = Some (Inr (Some 0, k'))"
    using k'(1) assms(8) by (simp add: syscall_ipc_send_def syscall_def syscall_handler_def syscall_count_def syscall_list_def
        unat_of_nat take_bit_nat_eq_self)
  then have "libc_ipc_send env pml4 reg libc_ipc_init k to payload n = Some (Inr (Some 0, k'))"
    using stores_sent [OF assms(1-3)] by simp
  moreover have "\<forall>j < n. k_mem k' (c + j) = ?m (g j)" using k'(5) assms(11) sent_image_other by auto
  moreover have "\<forall>y. y \<notin> {f ..< f + 32} \<union> H \<longrightarrow> k_mem k' y = ?m y" using k'(6) sent_image_other by simp
  ultimately show ?thesis using k'(2-4,7,8) by blast
qed

section \<open>Receiving\<close>

text \<open>The page of the receiver after the call: the payload is copied last, over the field with its address and what follows.\<close>

definition received_image :: "bytes \<Rightarrow> addr \<Rightarrow> IpcMessage \<Rightarrow> bytes" where
  "received_image m f msg =
     (let n = msg_payload_size msg;
          m = store_bytes (store_bytes (store_bytes m f 8 (msg_sender msg)) (f + 8) 4 IPC_MESSAGE_TYPE_RESPONSE) (f + 24) 8 n
      in (\<lambda>y. if f + 16 \<le> y \<and> y < f + 16 + n then m (msg_payload msg + (y - (f + 16))) else m y))"

definition room_for :: "IpcMessage \<Rightarrow> nat" where
  "room_for msg = max 32 (16 + msg_payload_size msg)"

lemma outside_room:
  assumes "y \<notin> {f ..< f + room_for msg}"
  shows "y < f \<or> f + 32 \<le> y \<and> f + 16 + msg_payload_size msg \<le> y"
  using assms by (auto simp: room_for_def)

lemma head_stores_other:
  assumes "y < f \<or> f + 32 \<le> y"
  shows "store_bytes m f 8 u y = m y" "store_bytes (store_bytes m f 8 u) (f + 8) 4 v y = m y"
    "store_bytes (store_bytes (store_bytes m f 8 u) (f + 8) 4 v) (f + 24) 8 w y = m y"
  using assms by (auto simp: store_bytes_other)

lemma received_image_other: "y \<notin> {f ..< f + room_for msg} \<Longrightarrow> received_image m f msg y = m y"
  using outside_room [of y f msg] by (auto simp: received_image_def head_stores_other Let_def)

lemma received_image_payload:
  assumes "j < msg_payload_size msg" "{f ..< f + room_for msg} \<inter> {msg_payload msg ..< msg_payload msg + msg_payload_size msg} = {}"
  shows "received_image m f msg (f + 16 + j) = m (msg_payload msg + j)"
proof -
  have "msg_payload msg + j \<in> {msg_payload msg ..< msg_payload msg + msg_payload_size msg}" using assms(1) by simp
  then have "msg_payload msg + j \<notin> {f ..< f + room_for msg}" using assms(2) by blast
  from outside_room [OF this] show ?thesis using assms(1) by (auto simp: received_image_def head_stores_other Let_def)
qed

lemma received_image_head:
  assumes "msg_sender msg < 2 ^ 64" "msg_payload_size msg < 2 ^ 64"
  shows "load64 (received_image m f msg) f = msg_sender msg" "load_bytes (received_image m f msg) (f + 8) 4 = IPC_MESSAGE_TYPE_RESPONSE"
    "msg_payload_size msg \<le> 8 \<Longrightarrow> load64 (received_image m f msg) (f + 24) = msg_payload_size msg"
proof -
  let ?m = "store_bytes (store_bytes (store_bytes m f 8 (msg_sender msg)) (f + 8) 4 IPC_MESSAGE_TYPE_RESPONSE) (f + 24) 8 (msg_payload_size msg)"
  have ld: "load_bytes (received_image m f msg) a k = load_bytes ?m a k"
    if "a + k \<le> f + 16 \<or> f + 16 + msg_payload_size msg \<le> a" for a k
    by (rule load_bytes_cong) (use that in \<open>auto simp: received_image_def Let_def\<close>)
  show "load64 (received_image m f msg) f = msg_sender msg" "load_bytes (received_image m f msg) (f + 8) 4 = IPC_MESSAGE_TYPE_RESPONSE"
    using assms by (simp_all add: load64_def ld load_store_disjoint load_store_bytes IPC_MESSAGE_TYPE_RESPONSE_def)
  show "load64 (received_image m f msg) (f + 24) = msg_payload_size msg" if "msg_payload_size msg \<le> 8"
    using assms that by (simp add: load64_def ld load_store_bytes)
qed

lemma write_response_at:
  assumes "pml4 \<noteq> 0" "maps_to hhdm m pml4 b f (room_for msg)" "{f ..< f + room_for msg} \<inter> table_bytes hhdm m pml4 = {}"
    and "2 ^ 47 \<le> msg_payload msg" "{f ..< f + room_for msg} \<inter> {msg_payload msg ..< msg_payload msg + msg_payload_size msg} = {}"
  shows "write_response hhdm m pml4 b msg = Inr (received_image m f msg)"
proof -
  let ?R = "{f ..< f + room_for msg}" and ?n = "msg_payload_size msg" and ?c = "msg_payload msg"
  let ?m1 = "store_bytes m f 8 (msg_sender msg)"
  let ?m2 = "store_bytes ?m1 (f + 8) 4 IPC_MESSAGE_TYPE_RESPONSE"
  let ?m3 = "store_bytes ?m2 (f + 24) 8 ?n"
  have km: "maps_to hhdm m' pml4 (b + i) (f + i) j" "{f + i ..< f + i + j} \<inter> table_bytes hhdm m' pml4 = {}"
    if eq: "\<forall>y. y \<notin> ?R \<longrightarrow> m' y = m y" and i: "i + j \<le> room_for msg" for m' i j
  proof -
    have "\<forall>y \<in> table_bytes hhdm m pml4. m' y = m y" using eq assms(3) by (auto simp: disjoint_iff)
    note k = keeps_maps [OF this assms(1)]
    show "maps_to hhdm m' pml4 (b + i) (f + i) j" unfolding k(3) by (rule maps_to_sub [OF assms(2) i])
    show "{f + i ..< f + i + j} \<inter> table_bytes hhdm m' pml4 = {}" unfolding k(2) using assms(3) i by (auto simp: disjoint_iff)
  qed
  have o: "\<forall>y. y \<notin> ?R \<longrightarrow> ?m1 y = m y" "\<forall>y. y \<notin> ?R \<longrightarrow> ?m2 y = m y" "\<forall>y. y \<notin> ?R \<longrightarrow> ?m3 y = m y"
    using outside_room [of _ f msg] head_stores_other [of _ f] by blast+
  have st: "write_bytes hhdm m' pml4 (b + i) j v = Inr (store_bytes m' (f + i) j v)"
    if "\<forall>y. y \<notin> ?R \<longrightarrow> m' y = m y" "i + j \<le> room_for msg" for m' i j v
    by (rule write_bytes_store [OF km [OF that] assms(1)])
  have "user_memcpy hhdm ?m3 pml4 (b + 16) ?c ?n = Inr (\<lambda>y. if f + 16 \<le> y \<and> y < f + 16 + ?n then ?m3 (?c + (y - (f + 16))) else ?m3 y)"
  proof (rule user_memcpy_copy [OF km [OF o(3)] assms(1)])
    show "linear hhdm ?m3 pml4 (?c + j) = Some (?c + j)" for j using assms(4) by (simp add: linear_def)
    show "?c + j \<notin> {f + 16 ..< f + 16 + ?n}" if "j < ?n" for j
      using assms(5) that by (auto simp: disjoint_iff room_for_def)
  qed (simp_all add: room_for_def)
  then show ?thesis
    using st [of m 0 8 "msg_sender msg"] st [OF o(1), of 8 4 IPC_MESSAGE_TYPE_RESPONSE] st [OF o(2), of 24 8 ?n]
    by (simp add: write_response_def received_image_def room_for_def Let_def)
qed

lemma libc_ipc_receive_delivers:
  assumes "sched_ok (k_sched k)" "ps = procs (k_sched k)" "i = current_pid_index (k_sched k)"
    and "message_queue (ps ! i) = Some q" "vec_ok q" "vec_list q = msg # xs"
    and "pml4 \<noteq> 0" "maps_to (env_hhdm env) (k_mem k) pml4 0x800000 f (room_for msg)"
    and "{f ..< f + room_for msg} \<inter> (table_bytes (env_hhdm env) (k_mem k) pml4 \<union> H) = {}"
    and "2 ^ 47 \<le> msg_payload msg" "{msg_payload msg ..< msg_payload msg + msg_payload_size msg} \<subseteq> H"
    and "\<forall>m y. y \<notin> H \<longrightarrow> heap_free env m (msg_payload msg) y = m y"
  shows "\<exists>k' q'. libc_ipc_receive env pml4 reg libc_ipc_init k = (Some (Inr (Some 0, k')), 0x800000) \<and>
    procs (k_sched k') = ps[i := (ps ! i)\<lparr>message_queue := Some q'\<rparr>] \<and> vec_list q' = butlast (msg # xs) \<and>
    (\<forall>y \<in> {f ..< f + room_for msg}. k_mem k' y = received_image (k_mem k) f msg y)"
proof -
  obtain v where v: "processes (k_sched k) = Some v" "vec_ok v" "current_pid_index (k_sched k) < vec_size v"
    "procs (k_sched k) = vec_list v" "length (procs (k_sched k)) = vec_size v" by (rule sched_okE [OF assms(1)])
  have cur: "sched_current (k_sched k) = Some i" "space_at (k_sched k) i = Some (ps ! i)"
    using v assms(2,3) by (simp_all add: sched_current_def space_at_def vec_get_list)
  let ?q = "snd (vec_erase q 0)"
  have "vec_size q = length (vec_list q)" using vec_list_length [OF assms(5)] by simp
  then have pos: "0 < vec_size q" using assms(6) by simp
  then have rc: "ipc_receive (Some q) = Inr (Some msg, Some ?q)"
    using vec_get_list [OF assms(5) pos] assms(6) by (simp add: ipc_receive_def vec_erase_eq)
  let ?k = "k\<lparr>k_sched := update_space (k_sched k) i ((ps ! i)\<lparr>message_queue := Some ?q\<rparr>)\<rparr>"
  let ?m = "received_image (k_mem k) f msg"
  have km: "k_mem ?k = k_mem k" by (simp add: k_mem_def)
  have "write_response (env_hhdm env) (k_mem ?k) pml4 0x800000 msg = Inr ?m"
    unfolding km by (rule write_response_at [OF assms(7,8) _ assms(10)]) (use assms(9,11) in blast)+
  then have "sys_ipc_receive env pml4 k 0x800000 = Inr (Returns 0, set_mem ?k (heap_free env ?m (msg_payload msg)))"
    using cur rc assms(4) by (simp add: sys_ipc_receive_def Let_def)
  then have "libc_ipc_receive env pml4 reg libc_ipc_init k =
      (Some (Inr (Some 0, set_mem ?k (heap_free env ?m (msg_payload msg)))), 0x800000)"
    by (simp add: libc_ipc_receive_def libc_ipc_init_def syscall_ipc_receive_def syscall_def syscall_handler_def syscall_count_def
        syscall_list_def unat_of_nat take_bit_nat_eq_self)
  moreover have "procs (k_sched ?k) = ps[i := (ps ! i)\<lparr>message_queue := Some ?q\<rparr>]"
    using v(1,4) assms(2) by (simp add: update_space_def procs_def vec_set_list)
  moreover have "vec_list ?q = butlast (msg # xs)" using vec_erase_list [OF assms(5), of 0] assms(6) by simp
  moreover have "\<forall>y \<in> {f ..< f + room_for msg}. heap_free env ?m (msg_payload msg) y = ?m y" using assms(9,12) by blast
  ultimately show ?thesis
    by (intro exI [of _ "set_mem ?k (heap_free env ?m (msg_payload msg))"] exI [of _ ?q]) simp
qed

section \<open>From process to process\<close>

lemma ticks_switch:
  assumes "sched_ok s"
  shows "\<exists>outs s'. ticks hhdm s fs = Inr (outs, s') \<and> sched_ok s' \<and>
    map message_queue (procs s') = map message_queue (procs s) \<and>
    current_pid_index s' = (current_pid_index s + length fs) mod length (procs s)"
  using assms
proof (induction fs arbitrary: s)
  case Nil
  then obtain v where "current_pid_index s < length (procs s)" by (auto elim: sched_okE)
  then show ?case using Nil by simp
next
  case (Cons f fs)
  let ?i = "current_pid_index s" and ?n = "length (procs s)"
  obtain v where i: "?i < ?n" using Cons(2) by (auto elim: sched_okE)
  obtain s1 where s1: "sched_reschedule s (frame_registers f) =
      Inr (Some ((procs s)[?i := save_registers (frame_registers f) (procs s ! ?i)] ! ((?i + 1) mod ?n)), s1)"
    "sched_ok s1" "procs s1 = (procs s)[?i := save_registers (frame_registers f) (procs s ! ?i)]" "current_pid_index s1 = (?i + 1) mod ?n"
    by (rule sched_reschedule_list [OF Cons(2)])
  have "map message_queue (procs s1) = map message_queue (procs s)"
    using i by (simp add: s1(3) map_update list_eq_iff_nth_eq nth_list_update)
  moreover have "((?i + 1) mod ?n + length fs) mod ?n = (?i + length (f # fs)) mod ?n" by (simp add: mod_add_left_eq)
  moreover obtain outs s' where "ticks hhdm s1 fs = Inr (outs, s')" "sched_ok s'" "map message_queue (procs s') = map message_queue (procs s1)"
    "current_pid_index s' = (current_pid_index s1 + length fs) mod length (procs s1)" using Cons(1) [OF s1(2)] by blast
  ultimately show ?case using s1(1,3,4) by (auto simp: timer_irq_def)
qed

text \<open>\<open>n\<close> bytes of a process from \<open>x\<close> on are memory from \<open>f\<close> on that is neither in its tables nor in the heap.\<close>

definition window :: "env \<Rightarrow> kernel \<Rightarrow> addr set \<Rightarrow> addr \<Rightarrow> addr \<Rightarrow> addr \<Rightarrow> nat \<Rightarrow> bool" where
  "window env k H pml4 x f n \<longleftrightarrow> pml4 \<noteq> 0 \<and> maps_to (env_hhdm env) (k_mem k) pml4 x f n \<and>
     {f ..< f + n} \<inter> (table_bytes (env_hhdm env) (k_mem k) pml4 \<union> H) = {} \<and>
     H \<inter> table_bytes (env_hhdm env) (k_mem k) pml4 = {}"

lemma window_keep:
  assumes "window env k H pml4 x f n" "\<forall>y \<in> table_bytes (env_hhdm env) (k_mem k) pml4. k_mem k' y = k_mem k y"
  shows "window env k' H pml4 x f n"
proof -
  have "pml4 \<noteq> 0" using assms(1) by (simp add: window_def)
  from keeps_maps(2,3) [OF assms(2) this] show ?thesis using assms(1) by (simp add: window_def)
qed


text \<open>Four tables that map the two pages of the library to \<open>0x5000\<close> and \<open>0x6000\<close>, with a payload in the second page.\<close>

definition service_bytes :: bytes where
  "service_bytes = store64 (store64 (store64 (store64 (store64 (\<lambda>y. if 0x6100 \<le> y then 72 else 0)
     (8 * 512) 0x2007) (8 * 1024) 0x3007) (8 * 1540) 0x4007) (8 * 2048) 0x5007) (8 * 2049) 0x6007"

definition service_kernel :: kernel where
  "service_kernel = set_mem sample_kernel service_bytes"

definition service_env :: env where
  "service_env = \<lparr>env_hhdm = 0, env_kernel_pagemap = 4096, heap_alloc = (\<lambda>m sz. (2 ^ 47, m)), heap_free = (\<lambda>m p. m),
     heap_room = (\<lambda>_. True)\<rparr>"

lemma load64_at_word: "v < 2 ^ 64 \<Longrightarrow> load64 (store64 m (8 * a) v) (8 * b) = (if b = a then v else load64 m (8 * b))"
  using load64_store64_disjoint [of "8 * b" "8 * a" m v] by (cases b a rule: linorder_cases) (auto simp: load_store64)

lemma service_word:
  assumes "b < 3104"
  shows "load64 service_bytes (8 * b) = (if b = 512 then 0x2007 else if b = 1024 then 0x3007 else if b = 1540 then 0x4007
    else if b = 2048 then 0x5007 else if b = 2049 then 0x6007 else 0)"
proof -
  have "load64 (\<lambda>y. if 0x6100 \<le> y then 72 else 0) (8 * b) = 0"
    unfolding load64_def by (rule load_bytes_zero) (use assms in auto)
  then show ?thesis unfolding service_bytes_def by (subst load64_at_word, simp)+ simp
qed

lemma service_entry:
  assumes "i < 512" "t < 6"
  shows "read_pte service_bytes (4096 * t) i = decode_pte (if t = 1 \<and> i = 0 then 0x2007 else if t = 2 \<and> i = 0 then 0x3007
    else if t = 3 \<and> i = 4 then 0x4007 else if t = 4 \<and> i = 0 then 0x5007 else if t = 4 \<and> i = 1 then 0x6007 else 0)"
proof -
  have w: "512 * t + i < 3104" "read_pte service_bytes (4096 * t) i = decode_pte (load64 service_bytes (8 * (512 * t + i)))"
    using assms by (auto simp: read_pte_def algebra_simps)
  have "t = 0 \<or> t = 1 \<or> t = 2 \<or> t = 3 \<or> t = 4 \<or> t = 5" using assms(2) by arith
  then show ?thesis unfolding w(2) service_word [OF w(1)] using assms(1) by (elim disjE) auto
qed

lemma entry_facts [simp]:
  "pte_present (decode_pte 0x2007)" "pte_present (decode_pte 0x3007)" "pte_present (decode_pte 0x4007)"
  "pte_present (decode_pte 0x5007)" "pte_present (decode_pte 0x6007)" "\<not> pte_present (decode_pte 0)"
  "table_of 0 (decode_pte 0x2007) = 0x2000" "table_of 0 (decode_pte 0x3007) = 0x3000" "table_of 0 (decode_pte 0x4007) = 0x4000"
  "pte_address (decode_pte 0x5007) = 5" "pte_address (decode_pte 0x6007) = 6"
  by (simp_all add: decode_pte_def table_of_def va_def add64_def shl64_def wrap64_def PAGE_SHIFT_def)

lemma service_linear:
  assumes "o' < 8192"
  shows "linear 0 service_bytes 0x1000 (0x800000 + o') = Some (0x5000 + o')"
proof -
  let ?x = "0x800000 + o'"
  have "?x div 4096 = 2048 + o' div 4096" using div_mult_self1 [of 4096 o' 2048] by simp
  then have idx: "index_of ?x 4 = 0" "index_of ?x 3 = 0" "index_of ?x 2 = 4" "index_of ?x 1 = o' div 4096"
    using assms by (simp_all add: index_of_def shr_def mod_add_left_eq [of 2048, symmetric] less_mult_imp_div_less)
  have q: "o' div 4096 = 0 \<or> o' div 4096 = 1" using assms by auto
  have md: "o' mod 4096 + 4096 * (o' div 4096) = o'" by simp
  have e: "read_pte service_bytes 0x1000 0 = decode_pte 0x2007" "read_pte service_bytes 0x2000 0 = decode_pte 0x3007"
    "read_pte service_bytes 0x3000 4 = decode_pte 0x4007"
    "read_pte service_bytes 0x4000 0 = decode_pte 0x5007" "read_pte service_bytes 0x4000 (Suc 0) = decode_pte 0x6007"
    using service_entry [of 0 1] service_entry [of 0 2] service_entry [of 4 3] service_entry [of 0 4] service_entry [of 1 4] by auto
  have m: "?x mod 4096 = o' mod 4096" by (simp add: mod_add_eq [symmetric])
  have "arch_translate 0 service_bytes 0x1000 ?x = Inr (0x5000 + o')"
    using q
  proof
    assume "o' div 4096 = 0"
    then show ?thesis using md assms m
      by (simp add: arch_translate_def idx idx(4) [unfolded One_nat_def] e Let_def va_def add64_def shl64_def wrap64_def PAGE_SHIFT_def PAGE_SIZE_def page_or)
  next
    assume "o' div 4096 = 1"
    then show ?thesis using md assms m
      by (simp add: arch_translate_def idx idx(4) [unfolded One_nat_def] e Let_def va_def add64_def shl64_def wrap64_def PAGE_SHIFT_def PAGE_SIZE_def page_or)
  qed
  then show ?thesis using assms by (simp add: linear_def)
qed

lemma service_tables: "table_bytes 0 service_bytes 0x1000 \<subseteq> {0x1000 ..< 0x5000}"
proof -
  have "t \<in> {0x1000, 0x2000, 0x3000, 0x4000}" if p: "q \<in> paths" and w: "walk 0 service_bytes 0x1000 q = Some t" for q t
  proof -
    have e: "read_pte service_bytes 0x1000 a = decode_pte (if a = 0 then 0x2007 else 0)"
      "read_pte service_bytes 0x2000 a = decode_pte (if a = 0 then 0x3007 else 0)"
      "read_pte service_bytes 0x3000 a = decode_pte (if a = 4 then 0x4007 else 0)" if "a < 512" for a
      using service_entry [of a 1] service_entry [of a 2] service_entry [of a 3] that by auto
    consider "q = []" | a where "q = [a]" | a b where "q = [a, b]" | a b c where "q = [a, b, c]"
      using p by (auto simp: paths_def le_Suc_eq length_Suc_conv numeral_3_eq_3)
    then show ?thesis using p w by cases (auto simp: paths_def e split: if_splits)
  qed
  then show ?thesis by (force simp: table_bytes_def tables_def)
qed

lemma service_window:
  assumes "o' + n \<le> 8192"
  shows "window service_env service_kernel {2 ^ 47 ..< 2 ^ 47 + 4096 :: nat} 0x1000 (0x800000 + o') (0x5000 + o') n"
proof -
  have "x \<notin> table_bytes 0 service_bytes 0x1000" if "0x5000 \<le> x" for x using service_tables that by (auto dest: subsetD)
  then show ?thesis using assms service_linear
    by (auto simp: window_def maps_to_def service_env_def service_kernel_def add.assoc disjoint_iff)
qed


end
