(* ===== verification/Kernel_Map.thy ===== *)
theory Kernel_Map
  imports Virt_Properties
begin

text \<open>
  The kernel's own page map, made by \<open>arch_init_paging\<close> of \<open>src/kernel/arch/x86/mm/virt.c\<close>: the loops over the memory map
  and over the kernel image, on top of the mapping of one page.

  Shown: the page map has the direct map that \<open>va\<close> and \<open>pa\<close> rely on, and the kernel image at its address; no block of
  the page allocator that was in use is written or given away.
\<close>

section \<open>Blocks in use\<close>

definition keeps_live :: "vm \<Rightarrow> vm \<Rightarrow> bool" where
  "keeps_live s s' \<longleftrightarrow> zones_live (zone_list (fst s)) \<subseteq> zones_live (zone_list (fst s'))"

lemma keeps_live_trans: "keeps_live s s' \<Longrightarrow> keeps_live s' s'' \<Longrightarrow> keeps_live s s''"
  by (auto simp: keeps_live_def)

lemma alloc_page_live:
  assumes "pmm_ok a" "arch_alloc_page a m = Some (p, a', m')" "p \<noteq> 0"
  shows "pmm_ok a'" "keeps_live (a, m) (a', m')"
proof -
  show "pmm_ok a'" using pmm_frame_get [OF assms] by simp
  obtain q zs where f: "find_first_free_block (zone_list a) 4096 = (q, zs)"
    by (cases "find_first_free_block (zone_list a) 4096")
  have zok: "zones_ok (zone_list a)" "\<not> pmm_lock a" using assms(1) by (auto simp: pmm_ok_def)
  have e: "p = q" "zone_list a' = zs"
    using assms(2,3) f zok(2)
    by (auto simp: arch_alloc_page_def arch_alloc_page_sz_def acquire_lock_def release_lock_def Let_def split: if_splits)
  obtain n where "block_added (zone_list a) q n zs" using find_block_spec [OF zok(1) f] e(1) assms(3) by auto
  then show "keeps_live (a, m) (a', m')" using e(2) by (auto simp: keeps_live_def block_added_def)
qed

lemma advance_live:
  assumes "pmm_ok (fst s)" "vmm_pml_advance hhdm s t i flags = Inr (t', s')"
  shows "pmm_ok (fst s')" "keeps_live s s'"
proof -
  obtain a m where s: "s = (a, m)" by (cases s)
  have "pmm_ok (fst s') \<and> keeps_live s s'"
  proof (cases "pte_present (read_pte m t i)")
    case True
    then show ?thesis using assms s by (auto simp: vmm_pml_advance_def Let_def keeps_live_def)
  next
    case False
    then obtain p a' m' where p: "arch_alloc_page a m = Some (p, a', m')" "pa hhdm p \<noteq> 0" "fst s' = a'"
      using assms(2) s by (auto simp: vmm_pml_advance_def Let_def split: option.splits if_splits)
    then have "p \<noteq> 0" by (auto simp: pa_def split: if_splits)
    from alloc_page_live [OF _ p(1) this] show ?thesis using assms(1) s p(3) by (simp add: keeps_live_def)
  qed
  then show "pmm_ok (fst s')" "keeps_live s s'" by auto
qed

lemma map_page_live:
  assumes "pmm_ok (fst s)" "arch_map_page hhdm s pml4 v p flags = Inr s'"
  shows "keeps_live s s'"
proof (cases "pml4 = 0 \<or> flags = 0")
  case True
  then show ?thesis using assms(2) by (auto simp: arch_map_page_def keeps_live_def)
next
  case False
  then obtain t3 s3 t2 s2 t1 a m where st: "vmm_pml_advance hhdm s pml4 (index_of v 4) flags = Inr (t3, s3)"
    "vmm_pml_advance hhdm s3 t3 (index_of v 3) flags = Inr (t2, s2)"
    "vmm_pml_advance hhdm s2 t2 (index_of v 2) flags = Inr (t1, a, m)" "fst s' = a"
    using assms(2) by (auto simp: arch_map_page_def split: sum.splits prod.splits)
  note l3 = advance_live [OF assms(1) st(1)]
  note l2 = advance_live [OF l3(1) st(2)]
  note l1 = advance_live [OF l2(1) st(3)]
  show ?thesis using keeps_live_trans [OF l3(2) keeps_live_trans [OF l2(2) l1(2)]] st(4) by (simp add: keeps_live_def)
qed

section \<open>One page\<close>

text \<open>The page an address is on, as the four indices see it.\<close>

definition page_of :: "addr \<Rightarrow> nat" where
  "page_of v = v div 4096 mod 2 ^ 36"

text \<open>What the loops keep.\<close>

definition extends :: "nat \<Rightarrow> addr \<Rightarrow> vm \<Rightarrow> vm \<Rightarrow> bool" where
  "extends hhdm pml4 s s' \<longleftrightarrow> (\<exists>n. vm_step hhdm pml4 n s s') \<and> keeps_live s s'"

definition no_more_frames :: "nat \<Rightarrow> addr \<Rightarrow> vm \<Rightarrow> bool" where
  "no_more_frames hhdm pml4 s \<longleftrightarrow> (\<exists>n. out_of_frames hhdm pml4 n s)"

lemma extends_refl: "vm_ok hhdm s pml4 \<Longrightarrow> extends hhdm pml4 s s"
  by (auto simp: extends_def vm_step_def keeps_live_def)

lemma extends_trans: "extends hhdm pml4 s s' \<Longrightarrow> extends hhdm pml4 s' s'' \<Longrightarrow> extends hhdm pml4 s s''"
  unfolding extends_def using vm_step_trans keeps_live_trans by blast

lemma extends_ok: "extends hhdm pml4 s s' \<Longrightarrow> vm_ok hhdm s' pml4"
  by (auto simp: extends_def vm_step_def)

lemma no_more_frames_step: "extends hhdm pml4 s s' \<Longrightarrow> no_more_frames hhdm pml4 s' \<Longrightarrow> no_more_frames hhdm pml4 s"
  unfolding extends_def no_more_frames_def using out_of_frames_step by blast

lemma same_page_index:
  assumes "v div 4096 = w div 4096"
  shows "index_of v 1 = index_of w 1" "index_of v 2 = index_of w 2" "index_of v 3 = index_of w 3" "index_of v 4 = index_of w 4"
proof -
  have d: "x div (4096 * k) = x div 4096 div k" for x k :: nat by (simp add: div_mult2_eq)
  show "index_of v 1 = index_of w 1" using assms by (simp add: index_of_def shr_def)
  show "index_of v 2 = index_of w 2" using assms d [of v 512] d [of w 512] by (simp add: index_of_def shr_def)
  show "index_of v 3 = index_of w 3" using assms d [of v "512 * 512"] d [of w "512 * 512"] by (simp add: index_of_def shr_def)
  show "index_of v 4 = index_of w 4" using assms d [of v "512 * 512 * 512"] d [of w "512 * 512 * 512"] by (simp add: index_of_def shr_def)
qed

lemma map_page_step:
  assumes "vm_ok hhdm s pml4" "odd flags" "p < 2 ^ 64"
  shows "case arch_map_page hhdm s pml4 v p flags of
      Inl e \<Rightarrow> e = Panic \<and> no_more_frames hhdm pml4 s
    | Inr s' \<Rightarrow> extends hhdm pml4 s s' \<and>
        (\<forall>w. w div 4096 = v div 4096 \<longrightarrow> arch_translate hhdm (snd s') pml4 w = Inr (va hhdm (p - p mod 4096 + w mod 4096))) \<and>
        (\<forall>w. page_of w \<noteq> page_of v \<longrightarrow> arch_translate hhdm (snd s') pml4 w = arch_translate hhdm (snd s) pml4 w)"
proof (cases "arch_map_page hhdm s pml4 v p flags")
  case (Inl e)
  then show ?thesis using map_page_mapped [OF assms(1,2), of v p] by (auto simp: no_more_frames_def)
next
  case (Inr s')
  have m: "mapped hhdm pml4 s w (paging_create_entry p flags) s'" if "w div 4096 = v div 4096" for w
  proof -
    have "arch_map_page hhdm s pml4 w p flags = Inr s'"
      using Inr unfolding arch_map_page_def same_page_index [OF that] .
    then show ?thesis using map_page_mapped [OF assms(1,2), of w p] by simp
  qed
  have "extends hhdm pml4 s s'" using m [of v] map_page_live [OF _ Inr] assms(1) by (auto simp: extends_def mapped_def vm_ok_def)
  then show ?thesis using Inr mapped_translate [OF m assms(3)] mapped_translate_other [OF m [OF refl]] by (auto simp: page_of_def)
qed

section \<open>The loops\<close>

lemma map_flags: "odd MAP_KERN" "odd MAP_READONLY"
  by (simp_all add: MAP_KERN_def MAP_READONLY_def PG_PRESENT_def PG_RW_def)

text \<open>
  The direct map is in the upper half, so two of its addresses on different pages have different indices. \<open>keeps_direct\<close>: the
  translations of all direct addresses to themselves survive.
\<close>

definition in_direct :: "nat \<Rightarrow> addr \<Rightarrow> bool" where
  "in_direct hhdm v \<longleftrightarrow> hhdm \<le> v \<and> v < 2 ^ 64"

definition direct_at :: "nat \<Rightarrow> vm \<Rightarrow> addr \<Rightarrow> addr \<Rightarrow> bool" where
  "direct_at hhdm s pml4 v \<longleftrightarrow> arch_translate hhdm (snd s) pml4 v = Inr v"

lemma direct_page:
  assumes "2 ^ 64 - 2 ^ 47 \<le> hhdm" "in_direct hhdm v" "in_direct hhdm w" "page_of v = page_of w"
  shows "v div 4096 = w div 4096"
proof -
  let ?b = "2 ^ 52 - 2 ^ 35 :: nat"
  have r: "?b \<le> x div 4096 \<and> x div 4096 < ?b + 2 ^ 35" if "in_direct hhdm x" for x
    using that assms(1) by (auto simp: in_direct_def)
  have m: "x mod 2 ^ 36 = x - (2 ^ 52 - 2 ^ 36)" if "?b \<le> x" "x < ?b + 2 ^ 35" for x :: nat
  proof -
    have "x = (x - (2 ^ 52 - 2 ^ 36)) + 65535 * 2 ^ 36" using that by simp
    moreover have "x - (2 ^ 52 - 2 ^ 36) < 2 ^ 36" using that by simp
    ultimately show ?thesis by (metis mod_less mod_mult_self1)
  qed
  have "v div 4096 - (2 ^ 52 - 2 ^ 36) = w div 4096 - (2 ^ 52 - 2 ^ 36)"
    using assms(4) r [OF assms(2)] r [OF assms(3)] m [of "v div 4096"] m [of "w div 4096"] by (simp add: page_of_def)
  then show ?thesis using r [OF assms(2)] r [OF assms(3)] by (simp add: eq_diff_iff)
qed

lemma map_direct_page:
  assumes "vm_ok hhdm s pml4" "odd flags" "2 ^ 64 - 2 ^ 47 \<le> hhdm" "p mod 4096 = 0" "hhdm + p + 4096 \<le> 2 ^ 64"
  shows "case arch_map_page hhdm s pml4 (va hhdm p) p flags of
      Inl e \<Rightarrow> e = Panic \<and> no_more_frames hhdm pml4 s
    | Inr s' \<Rightarrow> extends hhdm pml4 s s' \<and> (\<forall>v. in_direct hhdm v \<longrightarrow>
        (if v div 4096 = (hhdm + p) div 4096 then direct_at hhdm s' pml4 v else direct_at hhdm s' pml4 v = direct_at hhdm s pml4 v))"
proof -
  have h: "hhdm mod 4096 = 0" using assms(1) by (simp add: vm_ok_def)
  have va: "va hhdm p = hhdm + p" "p < 2 ^ 64" "in_direct hhdm (hhdm + p)"
    using assms(5) by (simp_all add: va_def add64_def wrap64_def in_direct_def add.commute)
  have self: "va hhdm (p - p mod 4096 + v mod 4096) = v" if "v div 4096 = (hhdm + p) div 4096" for v
  proof -
    have "4096 * (v div 4096) = hhdm + p" using that h assms(4)
      by (metis add.commute add.right_neutral mod_add_eq mult_div_mod_eq mod_0)
    then have "hhdm + p + v mod 4096 = v" using mult_div_mod_eq [of 4096 v] by linarith
    moreover have "v mod 4096 < 4096" by simp
    ultimately show ?thesis using assms(4,5) by (simp add: va_def add64_def wrap64_def)
  qed
  show ?thesis
  proof (cases "arch_map_page hhdm s pml4 (hhdm + p) p flags")
    case (Inl e)
    then show ?thesis using map_page_step [OF assms(1,2) va(2), of "hhdm + p"] va(1) by simp
  next
    case (Inr s')
    have "extends hhdm pml4 s s'" "\<And>w. w div 4096 = (hhdm + p) div 4096 \<Longrightarrow> arch_translate hhdm (snd s') pml4 w = Inr w"
      "\<And>w. page_of w \<noteq> page_of (hhdm + p) \<Longrightarrow> arch_translate hhdm (snd s') pml4 w = arch_translate hhdm (snd s) pml4 w"
      using map_page_step [OF assms(1,2) va(2), of "hhdm + p"] Inr self by auto
    moreover have "page_of w \<noteq> page_of (hhdm + p)" if "in_direct hhdm w" "w div 4096 \<noteq> (hhdm + p) div 4096" for w
      using direct_page [OF assms(3) that(1) va(3)] that(2) by blast
    ultimately show ?thesis using Inr va(1) by (simp add: direct_at_def)
  qed
qed

lemma map_entry_direct:
  assumes "vm_ok hhdm s pml4" "2 ^ 64 - 2 ^ 47 \<le> hhdm" "mm_base e mod 4096 = 0" "hhdm + mm_base e + 4096 * (j + n) \<le> 2 ^ 64"
  shows "case map_entry_pages hhdm s pml4 e j n of
      Inl x \<Rightarrow> x = Panic \<and> no_more_frames hhdm pml4 s
    | Inr s' \<Rightarrow> extends hhdm pml4 s s' \<and> (\<forall>v. in_direct hhdm v \<longrightarrow> direct_at hhdm s pml4 v \<or>
        hhdm + mm_base e + 4096 * j \<le> v \<and> v < hhdm + mm_base e + 4096 * (j + n) \<longrightarrow> direct_at hhdm s' pml4 v)"
  using assms
proof (induction n arbitrary: s j)
  case 0
  then show ?case by (auto simp: extends_refl)
next
  case (Suc n)
  let ?p = "mm_base e + 4096 * j"
  let ?f = "if mm_type e = HANDOVER_MEMMAP_RESERVED \<or> mm_type e = HANDOVER_MEMMAP_BAD_MEMORY \<or>
    mm_type e = HANDOVER_MEMMAP_KERNEL_AND_MODULES then MAP_READONLY else MAP_KERN"
  have le: "hhdm + ?p + 4096 \<le> 2 ^ 64" using Suc(5) by simp
  have "4096 * j < 2 ^ 64" "?p < 2 ^ 64" using le by linarith+
  then have p: "add64 (mm_base e) (mul64 j PAGE_SIZE) = ?p" by (simp add: add64_def mul64_def wrap64_def PAGE_SIZE_def mult.commute)
  have pm: "?p mod 4096 = 0" using Suc(4) by simp
  have "odd ?f" using map_flags by simp
  note one = map_direct_page [OF Suc(2) this Suc(3) pm le]
  show ?case
  proof (cases "arch_map_page hhdm s pml4 (va hhdm ?p) ?p ?f")
    case (Inl x)
    then show ?thesis using one p by (simp add: Let_def)
  next
    case (Inr s1)
    then have s1: "extends hhdm pml4 s s1" "\<And>v. in_direct hhdm v \<Longrightarrow> direct_at hhdm s pml4 v \<or> v div 4096 = (hhdm + ?p) div 4096 \<Longrightarrow>
        direct_at hhdm s1 pml4 v" using one by (auto split: if_splits)
    have "hhdm + mm_base e + 4096 * (j + 1 + n) \<le> 2 ^ 64" using Suc(5) by simp
    note rest = Suc(1) [OF extends_ok [OF s1(1)] Suc(3,4) this]
    show ?thesis
    proof (cases "map_entry_pages hhdm s1 pml4 e (j + 1) n")
      case (Inl x)
      then show ?thesis using rest Inr p no_more_frames_step [OF s1(1)] by (simp add: Let_def)
    next
      case r2: (Inr s2)
      have m0: "(hhdm + ?p) mod 4096 = 0" using Suc(2) pm by (simp add: vm_ok_def mod_add_eq [symmetric, of hhdm])
      have new: "direct_at hhdm s1 pml4 v \<or> hhdm + mm_base e + 4096 * (j + 1) \<le> v"
        if "in_direct hhdm v" "hhdm + ?p \<le> v" for v
      proof (cases "hhdm + ?p + 4096 \<le> v")
        case False
        have "v div 4096 = (hhdm + ?p) div 4096"
          using m0 that(2) False by (metis div_nat_eqI le_add_diff_inverse mult.commute not_le minus_mod_eq_mult_div diff_zero mult_Suc_right add.commute)
        then show ?thesis using s1(2) that by blast
      qed (simp add: algebra_simps)
      have "direct_at hhdm s2 pml4 v" if v: "in_direct hhdm v" "direct_at hhdm s pml4 v \<or>
          hhdm + ?p \<le> v \<and> v < hhdm + mm_base e + 4096 * (j + 1 + n)" for v
      proof -
        have "direct_at hhdm s1 pml4 v \<or> hhdm + mm_base e + 4096 * (j + 1) \<le> v \<and> v < hhdm + mm_base e + 4096 * (j + 1 + n)"
          using v s1(2) new by blast
        then show ?thesis using rest r2 v(1) by auto
      qed
      moreover have "extends hhdm pml4 s s2" using rest r2 extends_trans [OF s1(1)] by simp
      ultimately show ?thesis using r2 Inr p by (simp add: Let_def add.assoc)
    qed
  qed
qed

lemma map_memory_direct:
  assumes "vm_ok hhdm s pml4" "2 ^ 64 - 2 ^ 47 \<le> hhdm"
    and "\<forall>e \<in> set es. mm_base e mod 4096 = 0 \<and> hhdm + mm_base e + mm_length e \<le> 2 ^ 64"
  shows "case map_memory_map hhdm s pml4 es of
      Inl x \<Rightarrow> x = Panic \<and> no_more_frames hhdm pml4 s
    | Inr s' \<Rightarrow> extends hhdm pml4 s s' \<and> (\<forall>v. in_direct hhdm v \<longrightarrow> direct_at hhdm s pml4 v \<or>
        (\<exists>e \<in> set es. hhdm + mm_base e \<le> v \<and> v < hhdm + mm_base e + 4096 * (mm_length e div 4096)) \<longrightarrow> direct_at hhdm s' pml4 v)"
  using assms
proof (induction es arbitrary: s)
  case Nil
  then show ?case by (simp add: extends_refl)
next
  case (Cons e es)
  let ?n = "mm_length e div 4096"
  have e: "hhdm + mm_base e + mm_length e \<le> 2 ^ 64" "mm_base e mod 4096 = 0" using Cons(4) by simp_all
  have "hhdm + mm_base e + 4096 * (0 + ?n) \<le> hhdm + mm_base e + mm_length e" by simp
  then have "hhdm + mm_base e + 4096 * (0 + ?n) \<le> 2 ^ 64" using e(1) by (rule order_trans)
  note one = map_entry_direct [OF Cons(2,3) e(2) this]
  show ?case
  proof (cases "map_entry_pages hhdm s pml4 e 0 ?n")
    case (Inl x)
    then show ?thesis using one by (simp add: PAGE_SIZE_def)
  next
    case (Inr s1)
    then have s1: "extends hhdm pml4 s s1" using one by simp
    note rest = Cons(1) [OF extends_ok [OF s1] Cons(3)]
    show ?thesis
    proof (cases "map_memory_map hhdm s1 pml4 es")
      case (Inl x)
      then show ?thesis using rest Cons(4) Inr no_more_frames_step [OF s1] by (simp add: PAGE_SIZE_def)
    next
      case r2: (Inr s2)
      have "extends hhdm pml4 s1 s2" using rest Cons(4) r2 by simp
      moreover have "direct_at hhdm s1 pml4 v" if "in_direct hhdm v" "direct_at hhdm s pml4 v \<or>
          hhdm + mm_base e \<le> v \<and> v < hhdm + mm_base e + 4096 * ?n" for v using one Inr that by auto
      moreover have "direct_at hhdm s2 pml4 v" if "in_direct hhdm v" "direct_at hhdm s1 pml4 v \<or>
          (\<exists>e \<in> set es. hhdm + mm_base e \<le> v \<and> v < hhdm + mm_base e + 4096 * (mm_length e div 4096))" for v
        using rest Cons(4) r2 that by auto
      ultimately show ?thesis using Inr r2 extends_trans [OF s1] by (auto simp: PAGE_SIZE_def)
    qed
  qed
qed

text \<open>The pages of the image, wrapping around at the end of the address space.\<close>

definition image_page :: "addr \<Rightarrow> nat \<Rightarrow> addr" where
  "image_page virt k = (virt + 4096 * k) mod 2 ^ 64"

lemma image_page_number:
  assumes "virt mod 4096 = 0"
  shows "page_of (image_page virt k) = (virt div 4096 + k) mod 2 ^ 36"
proof -
  obtain q where q: "virt = 4096 * q" using assms by auto
  have "image_page virt k = 4096 * ((q + k) mod 2 ^ 52)" unfolding image_page_def q
    using mult_mod_right [of 4096 "q + k" "2 ^ 52"] by (simp add: distrib_left)
  moreover have "(x :: nat) mod 2 ^ 52 mod 2 ^ 36 = x mod 2 ^ 36" for x by (rule mod_mod_cancel) (simp add: le_imp_power_dvd)
  ultimately show ?thesis using q by (simp add: page_of_def)
qed

lemma map_kernel_image:
  assumes "vm_ok hhdm s pml4" "virt mod 4096 = 0" "phys mod 4096 = 0" "i + n \<le> 2 ^ 36"
  shows "case map_kernel hhdm s pml4 virt phys i n of
      Inl x \<Rightarrow> x = Panic \<and> no_more_frames hhdm pml4 s
    | Inr s' \<Rightarrow> extends hhdm pml4 s s' \<and>
        (\<forall>v. (\<forall>k. i \<le> k \<and> k < i + n \<longrightarrow> page_of v \<noteq> page_of (image_page virt k)) \<longrightarrow>
           arch_translate hhdm (snd s') pml4 v = arch_translate hhdm (snd s) pml4 v) \<and>
        (\<forall>k. i \<le> k \<and> k < i + n \<longrightarrow> arch_translate hhdm (snd s') pml4 (image_page virt k) = Inr (va hhdm (image_page phys k)))"
  using assms
proof (induction n arbitrary: s i)
  case 0
  then show ?case by (auto simp: extends_refl)
next
  case (Suc n)
  have a: "add64 x (mul64 i PAGE_SIZE) = image_page x i" for x
    by (simp add: add64_def mul64_def wrap64_def PAGE_SIZE_def image_page_def mult.commute mod_add_right_eq)
  have al: "image_page x i mod 4096 = 0" if "x mod 4096 = 0" for x
  proof -
    have "image_page x i mod 4096 = (x + 4096 * i) mod 4096" unfolding image_page_def by (rule mod_mod_cancel) simp
    then show ?thesis using that by simp
  qed
  have "image_page phys i < 2 ^ 64" by (simp add: image_page_def)
  note one = map_page_step [OF Suc(2) map_flags(1) this, of "image_page virt i"]
  show ?case
  proof (cases "arch_map_page hhdm s pml4 (image_page virt i) (image_page phys i) MAP_KERN")
    case (Inl x)
    then show ?thesis using one a by simp
  next
    case (Inr s1)
    then have s1: "extends hhdm pml4 s s1" "arch_translate hhdm (snd s1) pml4 (image_page virt i) = Inr (va hhdm (image_page phys i))"
      "\<And>w. page_of w \<noteq> page_of (image_page virt i) \<Longrightarrow> arch_translate hhdm (snd s1) pml4 w = arch_translate hhdm (snd s) pml4 w"
      using one al Suc(3,4) by auto
    have "i + 1 + n \<le> 2 ^ 36" using Suc(5) by simp
    note rest = Suc(1) [OF extends_ok [OF s1(1)] Suc(3,4) this]
    show ?thesis
    proof (cases "map_kernel hhdm s1 pml4 virt phys (i + 1) n")
      case (Inl x)
      then show ?thesis using rest Inr a no_more_frames_step [OF s1(1)] by simp
    next
      case r2: (Inr s2)
      have r: "extends hhdm pml4 s1 s2"
        "\<And>v. (\<forall>k. i + 1 \<le> k \<and> k < i + 1 + n \<longrightarrow> page_of v \<noteq> page_of (image_page virt k)) \<Longrightarrow>
           arch_translate hhdm (snd s2) pml4 v = arch_translate hhdm (snd s1) pml4 v"
        "\<And>k. i + 1 \<le> k \<Longrightarrow> k < i + 1 + n \<Longrightarrow> arch_translate hhdm (snd s2) pml4 (image_page virt k) = Inr (va hhdm (image_page phys k))"
        using rest r2 by auto
      have far: "page_of (image_page virt i) \<noteq> page_of (image_page virt k)" if "i + 1 \<le> k" "k < i + 1 + n" for k
      proof
        assume "page_of (image_page virt i) = page_of (image_page virt k)"
        then have "(virt div 4096 + k) mod 2 ^ 36 = (virt div 4096 + i) mod 2 ^ 36" by (simp add: image_page_number [OF Suc(3)])
        then have "2 ^ 36 dvd k - i" using that mod_eq_dvd_iff_nat [of "virt div 4096 + i" "virt div 4096 + k" "2 ^ 36"] by simp
        then show False using that Suc(5) by (auto dest!: dvd_imp_le)
      qed
      have "arch_translate hhdm (snd s2) pml4 (image_page virt k) = Inr (va hhdm (image_page phys k))" if "i \<le> k" "k < i + Suc n" for k
        using r(3) [of k] r(2) [of "image_page virt i"] far s1(2) that by (cases "k = i") auto
      moreover have "arch_translate hhdm (snd s2) pml4 v = arch_translate hhdm (snd s) pml4 v"
        if "\<forall>k. i \<le> k \<and> k < i + Suc n \<longrightarrow> page_of v \<noteq> page_of (image_page virt k)" for v
        using r(2) [of v] s1(3) [of v] that by auto
      ultimately show ?thesis using r2 Inr a extends_trans [OF s1(1) r(1)] by simp
    qed
  qed
qed

section \<open>The page map\<close>

lemma new_pagemap_tables:
  assumes "pmm_ok a" "arch_alloc_page a m = Some (p, a', m')" "p \<noteq> 0"
  shows "tables hhdm m' p = {p}"
proof -
  have zero: "\<not> pte_present (read_pte m' p i)" if "i < 512" for i
    using read_pte_zero [OF that] frames.get_zeroed [OF assms] by simp
  have "walk hhdm m' p q = (if q = [] then Some p else None)" if "q \<in> paths" for q
    using that zero by (cases q) (auto simp: paths_def)
  moreover have "[] \<in> paths" by (simp add: paths_def)
  ultimately show ?thesis by (auto simp: tables_def split: if_splits)
qed

text \<open>The pages that building a page map writes are new: blocks that were in use keep their bytes.\<close>

lemma touched_far:
  assumes "pmm_ok a" "arch_alloc_page a m = Some (p, a1, m1)" "p \<noteq> 0" "extends hhdm p (a1, m1) (a2, m2)"
    and "b \<in> zones_live (zone_list a)" "x \<in> extent b"
  shows "p \<in> touched hhdm p (a1, m1) (a2, m2)"
    "t \<in> touched hhdm p (a1, m1) (a2, m2) \<Longrightarrow> \<not> (t \<le> x \<and> x < t + 4096)"
proof -
  note g = pmm_frame_get [OF assms(1-3)] and l = alloc_page_live [OF assms(1-3)]
  have st: "pmm_ok a2" "framed hhdm p (a1, m1) (a2, m2)" "pmm_frames a1 \<subseteq> pmm_frames a2"
    "zones_live (zone_list a1) \<subseteq> zones_live (zone_list a2)"
    using assms(4) grown_subset by (auto simp: extends_def vm_step_def vm_ok_def keeps_live_def)
  have b: "b \<in> zones_live (zone_list a1)" "b \<in> zones_live (zone_list a2)" using assms(5) l(2) st(4) by (auto simp: keeps_live_def)
  have fresh: "p \<noteq> fst b"
  proof
    assume "p = fst b"
    obtain q zs where f: "find_first_free_block (zone_list a) 4096 = (q, zs)" by (cases "find_first_free_block (zone_list a) 4096")
    have "p = q" "zones_ok (zone_list a)" using assms(1-3) f
      by (auto simp: pmm_ok_def arch_alloc_page_def arch_alloc_page_sz_def acquire_lock_def Let_def split: if_splits)
    then show False using zones.new_block_fresh [OF _ f] assms(3,5) \<open>p = fst b\<close> by auto
  qed
  have far: "\<not> (t \<le> x \<and> x < t + 4096)" if t: "t \<in> pmm_frames a2" "t \<noteq> fst b" for t
  proof -
    obtain k where k: "4096 \<le> k" "(t, k) \<in> zones_live (zone_list a2)" using t(1) by (auto simp: pmm_frames_def)
    have "(t, k) \<noteq> b" using t(2) by auto
    then have "extent (t, k) \<inter> extent b = {}" using zones_live_disjoint [OF _ k(2) b(2)] st(1) by (simp add: pmm_ok_def)
    then show ?thesis using assms(6) k(1) by (auto simp: extent_def disjoint_iff)
  qed
  have "t \<noteq> fst b \<and> t \<in> pmm_frames a2" if "t \<in> touched hhdm p (a1, m1) (a2, m2)" for t
  proof -
    have t: "t = p \<or> t \<in> pmm_frames a2 - pmm_frames a1" using that new_pagemap_tables [OF assms(1-3)] by (simp add: touched_def)
    then have "t \<in> pmm_frames a2" using g st(3) by auto
    moreover have "t \<noteq> fst b"
    proof
      assume "t = fst b"
      then have t2: "t \<in> pmm_frames a2" "t \<notin> pmm_frames a1" using t fresh by auto
      then obtain k where "4096 \<le> k" "(t, k) \<in> zones_live (zone_list a2)" "t mod 4096 = 0" by (auto simp: pmm_frames_def)
      moreover from this have "(t, k) = b"
      proof -
        have "t \<in> extent (t, k)" "t \<in> extent b"
          using \<open>4096 \<le> k\<close> \<open>t = fst b\<close> assms(6) by (auto simp: extent_def split: prod.splits)
        then show ?thesis using zones_live_disjoint [OF _ \<open>(t, k) \<in> zones_live (zone_list a2)\<close> b(2)] st(1) by (auto simp: pmm_ok_def)
      qed
      ultimately show False using b(1) t2(2) by (auto simp: pmm_frames_def)
    qed
    ultimately show ?thesis by simp
  qed
  then show "\<not> (t \<le> x \<and> x < t + 4096)" if "t \<in> touched hhdm p (a1, m1) (a2, m2)" using far that by blast
  show "p \<in> touched hhdm p (a1, m1) (a2, m2)" using new_pagemap_tables [OF assms(1-3)] by (simp add: touched_def)
qed

lemma pagemap_keeps_blocks:
  assumes "pmm_ok a" "arch_alloc_page a m = Some (p, a1, m1)" "p \<noteq> 0" "extends hhdm p (a1, m1) (a2, m2)"
    and "b \<in> zones_live (zone_list a)" "x \<in> extent b"
  shows "m2 x = m x" "u \<in> tables hhdm m2 p \<Longrightarrow> \<not> (u \<le> x \<and> x < u + 4096)"
proof -
  have fr: "framed hhdm p (a1, m1) (a2, m2)" using assms(4) by (auto simp: extends_def vm_step_def)
  note far = touched_far [OF assms]
  have "\<not> in_pages (touched hhdm p (a1, m1) (a2, m2)) x" using far(2) by (auto simp: in_pages_def)
  then have "m2 x = m1 x" using fr by (simp add: framed_def)
  moreover have "m1 x = m x" using pmm_frame_get [OF assms(1-3)] far(2) [OF far(1)] by auto
  ultimately show "m2 x = m x" by simp
  show "\<not> (u \<le> x \<and> x < u + 4096)" if "u \<in> tables hhdm m2 p" using fr far(2) that by (auto simp: framed_def)
qed

definition map_ok :: "nat \<Rightarrow> MemoryMapEntry list \<Rightarrow> bool" where
  "map_ok hhdm mmap \<longleftrightarrow> hhdm mod 4096 = 0 \<and> 2 ^ 64 - 2 ^ 47 \<le> hhdm \<and> hhdm < 2 ^ 64 \<and>
     (\<forall>e \<in> set mmap. mm_base e mod 4096 = 0 \<and> hhdm + mm_base e + mm_length e \<le> 2 ^ 64)"

text \<open>An address of the direct map that is on a page of the memory map and not on a page of the image.\<close>

definition direct_address :: "nat \<Rightarrow> MemoryMapEntry list \<Rightarrow> addr \<Rightarrow> nat \<Rightarrow> addr \<Rightarrow> bool" where
  "direct_address hhdm mmap virt ksize v \<longleftrightarrow>
     (\<exists>e \<in> set mmap. hhdm + mm_base e \<le> v \<and> v < hhdm + mm_base e + 4096 * (mm_length e div 4096)) \<and>
     (\<forall>k < ksize. page_of v \<noteq> page_of (image_page virt k))"

definition runs_out :: "nat \<Rightarrow> pmm \<Rightarrow> bool" where
  "runs_out hhdm a \<longleftrightarrow> (\<exists>a'. pmm_frames a \<subseteq> pmm_frames a' \<and> pmm_memory a' = pmm_memory a \<and> no_frame hhdm a')"

lemma no_more_runs_out: "no_more_frames hhdm pml4 s \<Longrightarrow> runs_out hhdm (fst s)"
proof -
  assume "no_more_frames hhdm pml4 s"
  then obtain n s' where "grown n (fst s) (fst s')" "no_frame hhdm (fst s')"
    by (auto simp: no_more_frames_def out_of_frames_def vm_step_def)
  then show ?thesis using grown_subset by (auto simp: runs_out_def grown_def)
qed

lemma runs_out_mono: "runs_out hhdm a' \<Longrightarrow> pmm_frames a \<subseteq> pmm_frames a' \<Longrightarrow> pmm_memory a' = pmm_memory a \<Longrightarrow> runs_out hhdm a"
proof -
  assume "runs_out hhdm a'" and sub: "pmm_frames a \<subseteq> pmm_frames a'" "pmm_memory a' = pmm_memory a"
  then obtain b where "pmm_frames a' \<subseteq> pmm_frames b" "pmm_memory b = pmm_memory a'" "no_frame hhdm b" by (auto simp: runs_out_def)
  then show ?thesis unfolding runs_out_def using sub order_trans by (intro exI [of _ b]) auto
qed

lemma init_paging_result:
  assumes "pmm_ok a" "map_ok hhdm mmap" "virt mod 4096 = 0" "phys mod 4096 = 0" "ksize \<le> 2 ^ 36"
  shows "case arch_init_paging hhdm (a, m) mmap virt phys ksize of
      Inl e \<Rightarrow> e = Panic \<and> runs_out hhdm a
    | Inr (kp, cr3, s') \<Rightarrow> vm_ok hhdm s' kp \<and> cr3 = pa hhdm kp \<and>
        (\<forall>v. direct_address hhdm mmap virt ksize v \<longrightarrow> arch_translate hhdm (snd s') kp v = Inr v) \<and>
        (\<forall>k < ksize. arch_translate hhdm (snd s') kp (image_page virt k) = Inr (va hhdm (image_page phys k))) \<and>
        keeps_live (a, m) s' \<and> (\<forall>b \<in> zones_live (zone_list a). \<forall>x \<in> extent b. snd s' x = m x \<and>
          (\<forall>u \<in> tables hhdm (snd s') kp. \<not> (u \<le> x \<and> x < u + 4096)))"
proof -
  have h: "hhdm < 2 ^ 64" "hhdm mod 4096 = 0" "2 ^ 64 - 2 ^ 47 \<le> hhdm"
    "\<forall>e \<in> set mmap. mm_base e mod 4096 = 0 \<and> hhdm + mm_base e + mm_length e \<le> 2 ^ 64" using assms(2) by (auto simp: map_ok_def)
  obtain kp a1 m1 where get: "arch_alloc_page a m = Some (kp, a1, m1)" using frames.get_returns [OF assms(1), of m] by (cases "arch_alloc_page a m") auto
  then have new: "arch_create_new_pagemap (a, m) = Inr (kp, a1, m1)" by (simp add: arch_create_new_pagemap_def)
  show ?thesis
  proof (cases "kp = 0")
    case True
    have "pa hhdm 0 = 0" by (simp add: pa_def)
    then have "no_frame hhdm a" using get True unfolding no_frame_def by blast
    then have "runs_out hhdm a" by (auto simp: runs_out_def)
    then show ?thesis using new True by (simp add: arch_init_paging_def)
  next
    case False
    have ok: "vm_ok hhdm (a1, m1) kp" using new_pagemap(1) [OF h(1,2) assms(1) new False] .
    note mm = map_memory_direct [OF ok h(3,4)]
    have a1: "pmm_frames a \<subseteq> pmm_frames a1" "pmm_memory a1 = pmm_memory a" using pmm_frame_get [OF assms(1) get False] by auto
    have ro: "runs_out hhdm a" if "no_more_frames hhdm kp (a1, m1)" using runs_out_mono [OF _ a1] no_more_runs_out [OF that] by simp
    show ?thesis
    proof (cases "map_memory_map hhdm (a1, m1) kp mmap")
      case (Inl e)
      then show ?thesis using mm new False ro by (auto simp: arch_init_paging_def)
    next
      case (Inr s2)
      then have s2: "extends hhdm kp (a1, m1) s2"
        "\<And>v e. in_direct hhdm v \<Longrightarrow> e \<in> set mmap \<Longrightarrow> hhdm + mm_base e \<le> v \<Longrightarrow> v < hhdm + mm_base e + 4096 * (mm_length e div 4096) \<Longrightarrow>
           arch_translate hhdm (snd s2) kp v = Inr v" using mm by (auto simp: direct_at_def)
      have "0 + ksize \<le> 2 ^ 36" using assms(5) by simp
      note mk = map_kernel_image [OF extends_ok [OF s2(1)] assms(3,4) this]
      show ?thesis
      proof (cases "map_kernel hhdm s2 kp virt phys 0 ksize")
        case e: (Inl e)
        then show ?thesis
          using mk new False Inr ro no_more_frames_step [OF s2(1)] by (auto simp: arch_init_paging_def)
      next
        case s3: (Inr s3)
        obtain a3 m3 where a3: "s3 = (a3, m3)" by (cases s3)
        have ext: "extends hhdm kp (a1, m1) s3" using mk s3 extends_trans [OF s2(1)] by simp
        have "keeps_live (a, m) s3"
          using alloc_page_live(2) [OF assms(1) get False] ext keeps_live_trans by (auto simp: extends_def)
        moreover have "\<forall>b \<in> zones_live (zone_list a). \<forall>x \<in> extent b. m3 x = m x \<and>
            (\<forall>u \<in> tables hhdm m3 kp. \<not> (u \<le> x \<and> x < u + 4096))"
          using pagemap_keeps_blocks [OF assms(1) get False ext [unfolded a3]] by blast
        moreover have "arch_translate hhdm m3 kp v = Inr v" if v: "direct_address hhdm mmap virt ksize v" for v
        proof -
          obtain e where e: "e \<in> set mmap" "hhdm + mm_base e \<le> v" "v < hhdm + mm_base e + 4096 * (mm_length e div 4096)"
            "\<forall>k < ksize. page_of v \<noteq> page_of (image_page virt k)" using v by (auto simp: direct_address_def)
          have "4096 * (mm_length e div 4096) \<le> mm_length e" by simp
          then have "in_direct hhdm v" using e(1-3) h(4) by (fastforce simp: in_direct_def)
          then have "arch_translate hhdm (snd s2) kp v = Inr v" using s2(2) e(1-3) by blast
          then show ?thesis using mk s3 a3 e(4) by simp
        qed
        ultimately show ?thesis using mk s3 a3 new False Inr extends_ok [OF ext] by (simp add: arch_init_paging_def arch_switch_pagemap_def)
      qed
    qed
  qed
qed


text \<open>A machine with 64 KiB of memory at 1 MiB and a kernel of two pages.\<close>

definition sample_map :: "MemoryMapEntry list" where
  "sample_map = [\<lparr>mm_base = 1048576, mm_length = 65536, mm_type = 0\<rparr>]"


end
