(* ===== verification/Spec2Isabelle.thy ===== *)
theory Spec2Isabelle
  imports Buddy_Walk Virt_Properties Archive Slab_Correct Vec Kheap Boot Acpi Trace Ports Service Start
begin

text \<open>
  A verification development of MoonOS, a microkernel for x86-64 written in C.

  \<^bold>\<open>The program.\<close> The boot code hands the kernel a memory map and two modules, the first task and
  a ram disk. The kernel divides the usable memory into zones, each with an embedded buddy
  allocator (\<open>src/kernel/mm/buddy.h\<close>, \<open>src/kernel/arch/x86/mm/phys.c\<close>), builds page tables from the
  pages of the zones (\<open>mm/virt.c\<close>, \<open>paging/\<close>), and starts in \<open>kern_main\<close>
  (\<open>src/kernel/kernel.c\<close>): it makes capabilities for the memory regions
  (\<open>service/capability.c\<close>), creates an execution space for the first task from them
  (\<open>service/execution-space/create.c\<close>, \<open>loader/elf.c\<close>), gives it a port (\<open>ipc/ipc.c\<close>), puts it in
  the process table (\<open>sched/scheduler.c\<close>) and enters user code. From then on the kernel runs in
  system calls (\<open>abi/syscalls.c\<close>, \<open>arch/x86/sys/syscall.c\<close>) and timer interrupts
  (\<open>sys/context_switch.c\<close>). Beside it there are a heap (\<open>mm/tlsf.c\<close>, \<open>mm/alloc.c\<close>),
  slab caches (\<open>mm/slab.c\<close>, \<open>mm/kmem_cache.c\<close>), a small library (\<open>src/libs/base\<close>) and the services with their C library (\<open>src/service\<close>).

  \<^bold>\<open>Conventions.\<close> Memory is a function from addresses to bytes (\<open>bytes\<close>), addressed by the
  kernel's virtual addresses; physical memory appears in it at the offset \<open>hhdm\<close>, an argument.
  Pointers and \<open>size_t\<close> are \<open>nat\<close> with the wrap-around of 64 bits written out (\<open>add64\<close> and so on);
  registers and byte order are machine words; \<open>int\<close> is \<open>int\<close> with its conversions written out.
  Structures the code keeps in memory and walks by pointers (page tables, slabs, vectors, ELF and
  archive headers, the heap) are read from and written to the byte memory at their offsets; the buddy
  allocator, whose pointer no one else follows, is a record. A panic or a fault of the kernel is
  \<open>Inl Panic\<close>, a loop that does not end (a lock that is held, a string without an end) is
  \<open>Inl Stuck\<close> or \<open>None\<close>; error results are options. Loops are structural or well-founded
  recursions; those over strings and linked lists, which may not end, are partial functions, and
  the theorems about them show that they return. There is no fuel. The kernel runs on one
  processor and with interrupts off, so its calls are atomic steps.

  \<^bold>\<open>Theories.\<close> In the order of the calls:
  \<^item> \<open>Prelude\<close>: machine arithmetic, memory, shared lemmas and rule collections. \<open>Step_System\<close>: a locale
    for invariants of step relations.
  \<^item> \<open>Bits\<close>, \<open>Bitset\<close>: the integer helpers and the bitset of \<open>buddy.h\<close>, equal to their mathematical
    counterparts.
  \<^item> \<open>Buddy_Tree\<close>, \<open>Buddy_Layout\<close>, \<open>Buddy_Status\<close>, \<open>Buddy_Refine\<close>, \<open>Buddy_Blocks\<close>: the allocation tree of
    \<open>buddy.h\<close>. The bit fields of the nodes do not overlap; marking, releasing and searching in the
    bitset refine operations on an abstract function from nodes to statuses.
  \<^item> \<open>Buddy\<close>, \<open>Buddy_Correct\<close>, \<open>Buddy_Init\<close>, \<open>Buddy_Contract\<close>, \<open>Buddy_Embed\<close>, \<open>Buddy_Properties\<close>,
    \<open>Buddy_Walk\<close>: the allocator. It
    implements the locale \<open>block_allocator\<close> of \<open>Allocator_Interface\<close>: a live block is inside the
    arena, aligned, and disjoint from all others; free removes exactly the block at its address;
    a request is refused only when every slot of its size is taken. A walk over the tree visits
    the live blocks in order, and the free size is what they leave of the arena.
  \<^item> \<open>Mem\<close>, \<open>Strings\<close>, \<open>Byte_Order\<close>, \<open>Archive\<close>: memory, string and byte order routines, the boot arguments, the
    archive reader of the first task.
  \<^item> \<open>Addr\<close>, \<open>Phys\<close>: addresses and the page allocator. The zones implement \<open>block_allocator\<close> again, and
    the locale \<open>frame_allocator\<close> the paging code relies on.
  \<^item> \<open>Paging\<close>, \<open>Virt\<close>, \<open>Virt_Correct\<close>, \<open>Virt_Properties\<close>: page table entries and page maps. The tables are
    a tree of different frames; a mapping changes the translation of one page and writes to tables
    and new frames only. \<open>Kernel_Map\<close>: the page map of the kernel has the direct map and the image of the kernel.
  \<^item> \<open>Tlsf\<close>: the two-level segregated fit allocator (\<open>mm/tlsf.c\<close>), function by function, with the control
    structure and the block headers at their offsets in the byte memory. \<open>Tlsf_Index\<close>: the two indices of
    a size are quotient and remainder of one rank, which grows with the size; \<open>Tlsf_Lists\<close>,
    \<open>Tlsf_Free\<close>: the 800 doubly linked lists and their bitmaps; \<open>Tlsf_Layout\<close>, \<open>Tlsf_Split\<close>: the blocks of a
    pool in address order, marking, splitting and merging; \<open>Tlsf_Pool\<close>, \<open>Tlsf_Steps\<close>: both together, the
    invariant of the heap and the steps of the operations; \<open>Tlsf_Correct\<close>, \<open>Tlsf_Init\<close>, \<open>Tlsf_Resize\<close>,
    \<open>Tlsf_Realloc\<close>, \<open>Tlsf_Align\<close>, \<open>Tlsf_Check\<close>: \<open>malloc\<close> and \<open>free\<close> do to the list of blocks what a reference does,
    creation establishes the invariant, \<open>realloc\<close> keeps contents, \<open>memalign\<close> aligns, the checks accept.
    \<open>Tlsf_Properties\<close> states this. \<open>Kheap\<close>: the kernel heap of \<open>mm/alloc.c\<close> over it and over the page
    allocator, an interpretation of the locale \<open>heap_allocator\<close> of \<open>Heap_Interface\<close>.
  \<^item> \<open>Slab\<close>, \<open>Slab_Correct\<close>: slab caches and the linked lists in them.
  \<^item> \<open>Vec\<close>: the vectors of \<open>src/libs/moon-ds/private/cc.h\<close>, in the byte memory and, refined by that, on
    elements; the process table and the message queues use the second form.
  \<^item> \<open>Omap\<close>: the ordered map of \<open>cc.h\<close>, a red-black tree of nodes with parent pointers. \<open>Omap_Shape\<close>: trees and
    paths in the store of nodes, rotations; \<open>Omap_Insert\<close>: the balance and the loop that restores it;
    \<open>Omap_Correct\<close>, \<open>Omap_Properties\<close>: insertion and lookup are those of a finite map for every comparison that keeps the contract
    \<open>key_order\<close>, iterators meet the keys in order. \<open>Ports\<close>: the assignment of ports over the tree simulates the one over a
    function in \<open>Exec_Space\<close>.
  \<^item> \<open>Capability\<close>, \<open>Scheduler\<close>, \<open>Elf\<close>, \<open>Exec_Space\<close>, \<open>Syscalls\<close>, \<open>Boot\<close>: capabilities, processes and the timer
    interrupt, the loader, execution spaces and messages, the system calls, the start. The loader
    makes every byte of the loaded segments visible at its address; the timer resumes the
    processes in turn with their own registers; \<open>kern_main\<close> establishes the invariant of the
    kernel's tables and every system call and interrupt keeps it (rule induction over \<open>kstep\<close>, an
    interpretation of \<open>step_system\<close>).
  \<^item> \<open>Start\<close>: the answers of the boot loader (\<open>boot/proto/limine.c\<close>) and \<open>boot\<close> (\<open>boot/boot.c\<close>), which calls all of the above. Page
    allocator, heap, page map and stack are consistent together when memory has been set up.
  \<^item> \<open>Service\<close>: the side of the processes, the system calls and messages of the user library and the two programs of
    \<open>src/service/apps\<close>. A message goes from the memory of one process through the kernel heap, the queue and the timer to
    the memory of another.

  \<^item> \<open>Fmt\<close>: the formatter (\<open>src/libs/base/sources/fmt.c\<close>). \<open>Fmt_Text\<close>: the text of a format as a function
    on lists; \<open>Fmt_Correct\<close>: the formatter prints that text through every output function that keeps
    the contract \<open>fmt_sink\<close>; \<open>Fmt_Properties\<close>: the buffer after \<open>snprintf\<close>, integers as the C standard has
    them, the round trip with \<open>strtoul\<close>. \<open>Printk\<close>: kernel messages (\<open>printk.c\<close>) and the debug port (\<open>serial.c\<close>).

  \<^item> \<open>Interrupts\<close>: the descriptor tables (\<open>int/gdt.c\<close>, \<open>int/idt.c\<close>) as the processor reads them, interrupts and
    the legacy controller. \<open>Acpi\<close>: firmware tables, the list of interrupt devices, the local controller and
    the two timers (\<open>src/kernel/platform/acpi/x86\<close>). \<open>Trace\<close>: symbols and stack traces.

  \<^bold>\<open>Assumptions.\<close> The theorems on page maps assume that the direct map offset is a multiple of the
  page size and that the zones are consistent, which their initialisation gives; those on the
  loader that the image does not lie in memory the page allocator manages. The ports
  are a function, which the ordered map implements; whether a container of the kernel heap can grow is an argument (\<open>room\<close>), as are
  \<open>alloc\<close> and \<open>free\<close> of the heap in the system calls and \<open>realloc\<close> in \<open>Vec\<close>, which do not depend on the
  allocator behind them. The theorems on the heap are about one pool of at most 4 GiB behind the
  control structure, as \<open>alloc_init\<close> makes it, and about requests whose rounding does not wrap around.
  Addresses of string literals are arguments.

  \<^bold>\<open>Not modelled.\<close> Of \<open>buddy.h\<close> the resizing; of
  \<open>cc.h\<close> everything but the vectors and the ordered map the kernel uses, and of that map the erasure; of \<open>fmt.c\<close> the floating point conversions, which are
  not compiled in; the terminals,
  which are output; panic and the sanitizer, which print and halt; the port to ARMv6 and its drivers, which
  does not run a process; assembly; translation caches.
\<close>

end
